(* ===== verification/Prelude.thy ===== *)
theory Prelude
  imports Main "HOL-Library.Word" "HOL-Library.Multiset" "HOL-Library.Sublist"
begin

text \<open>
  Shared vocabulary of the development: the machine types of the C++ sources, results that are
  either a thrown error or a value, and the generic facts on lists, options and counting that the
  component theories use.

  \<^item> \<open>size_t\<close> counters that only ever count resources are \<open>nat\<close>; values whose wrap-around the code
    relies on or handles (generations, epochs, hashes) are \<open>64 word\<close>.
  \<^item> A function that can throw returns \<open>'e + 'a\<close>: \<open>Inl\<close> is the exception, \<open>Inr\<close> the value.
\<close>

section \<open>Machine types and results\<close>

type_synonym u64 = "64 word"
type_synonym byte = "8 word"
type_synonym token = int

text \<open>Collections that the component theories extend.\<close>

named_theorems wf_intros \<open>introduction rules for component invariants\<close>
named_theorems wf_dests \<open>what a component invariant gives\<close>

definition bind_result :: "'e + 'a \<Rightarrow> ('a \<Rightarrow> 'e + 'b) \<Rightarrow> 'e + 'b" where
  "bind_result r f = (case r of Inl e \<Rightarrow> Inl e | Inr x \<Rightarrow> f x)"

lemma bind_result_simps [simp]:
  "bind_result (Inl e) f = Inl e"
  "bind_result (Inr x) f = f x"
  by (simp_all add: bind_result_def)

lemma bind_result_Inr_iff:
  "bind_result r f = Inr y \<longleftrightarrow> (\<exists>x. r = Inr x \<and> f x = Inr y)"
  by (cases r) simp_all

lemma bind_result_Inl_iff:
  "bind_result r f = Inl e \<longleftrightarrow> r = Inl e \<or> (\<exists>x. r = Inr x \<and> f x = Inl e)"
  by (cases r) simp_all

lemmas bind_result_iffs = bind_result_Inr_iff bind_result_Inl_iff

text \<open>The same fallible state change \<open>n\<close> times in a row.\<close>

fun repeat_result :: "nat \<Rightarrow> ('s \<Rightarrow> 'e + 's) \<Rightarrow> 's \<Rightarrow> 'e + 's" where
  "repeat_result 0 f s = Inr s"
| "repeat_result (Suc n) f s = bind_result (f s) (repeat_result n f)"

text \<open>A fallible step for every element of a list, threading the state.\<close>

fun run_result :: "('a \<Rightarrow> 's \<Rightarrow> 'e + 's) \<Rightarrow> 'a list \<Rightarrow> 's \<Rightarrow> 'e + 's" where
  "run_result f [] s = Inr s"
| "run_result f (x # xs) s = bind_result (f x s) (run_result f xs)"

lemma run_result_append: "run_result f (xs @ ys) s = bind_result (run_result f xs s) (run_result f ys)"
proof (induction xs arbitrary: s)
  case (Cons x xs)
  then show ?case by (cases "f x s") simp_all
qed simp

section \<open>Lists and counting\<close>

lemma option_eqI: "(\<And>v. x = Some v \<longleftrightarrow> y = Some v) \<Longrightarrow> x = y"
  by (cases x; cases y; auto)

lemma length_filter_upt_nth:
  "length (filter P xs) = length (filter (\<lambda>i. P (xs ! i)) [0..<length xs])"
proof -
  have "filter P xs = filter P (map ((!) xs) [0..<length xs])"
    by (simp add: map_nth)
  also have "\<dots> = map ((!) xs) (filter (\<lambda>i. P (xs ! i)) [0..<length xs])"
    by (simp add: filter_map o_def)
  finally show ?thesis by simp
qed

lemma length_filter_None_update:
  assumes "i < length xs" and "xs ! i = Some p"
  shows "length (filter Option.is_none (xs[i := None]))
    = Suc (length (filter Option.is_none xs))"
  using assms
  by (induction xs arbitrary: i) (auto simp: nth_Cons' split: nat.splits)

lemma length_filter_Some_update:
  assumes "i < length xs" and "xs ! i = None"
  shows "Suc (length (filter Option.is_none (xs[i := Some p])))
    = length (filter Option.is_none xs)"
  using assms
  by (induction xs arbitrary: i) (auto simp: nth_Cons' split: nat.splits)

lemma filter_is_none_same:
  assumes "i < length xs" and "xs ! i = Some p"
  shows "length (filter Option.is_none (xs[i := Some q])) = length (filter Option.is_none xs)"
  using assms
  by (induction xs arbitrary: i) (auto simp: nth_Cons' split: nat.splits)

lemma nth_update_None_Some:
  "j < length xs \<Longrightarrow> xs[i := None] ! j = Some p \<longleftrightarrow> j \<noteq> i \<and> xs ! j = Some p"
  by (cases "i = j") auto

lemma count_list_filter: "count_list xs a = length (filter (\<lambda>x. x = a) xs)"
  by (induction xs) auto

lemma count_list_sort [simp]: "count_list (sort xs) a = count_list (xs :: nat list) a"
  by (metis count_mset mset_sort)

lemma set_takeWhile_upt_take: "n \<le> m \<Longrightarrow> take n [0..<m] = [0..<n]"
  by (simp add: take_upt)

lemma add_mod_inj:
  assumes "q < n" and "d < n"
  shows "(h + q) mod n = (h + d) mod n \<longleftrightarrow> q = (d :: nat)"
proof
  assume eq: "(h + q) mod n = (h + d) mod n"
  have *: "a = b" if "a \<le> b" "b < n" "(h + a) mod n = (h + b) mod n" for a b
  proof -
    have "n dvd (h + b) - (h + a)" using that mod_eq_dvd_iff_nat[of "h + a" "h + b" n] by simp
    then have "n dvd b - a" by simp
    with that show ?thesis by (metis diff_is_0_eq dvd_imp_le le_antisym less_imp_diff_less not_less zero_less_diff)
  qed
  show "q = d" using *[of q d] *[of d q] assms eq by (cases "q \<le> d") auto
qed simp

section \<open>Words\<close>

text \<open>A counter that has not wrapped is above everything below its predecessor.\<close>

lemma word_le_less_Suc:
  fixes m e :: "'a::len word"
  assumes "e + 1 \<noteq> 0" and "m \<le> e"
  shows "m < e + 1"
  using assms unatSuc[of e] by (simp add: word_less_nat_alt word_le_nat_alt add.commute)

section \<open>Transactions\<close>

text \<open>
  The contract of an object whose changes can be rolled back: work that starts from a saved state is undone, as far as the
  observable part of the state goes, and the object is idle again. A failed attempt is a save, some work and the rollback;
  the attempts made before do not matter.
\<close>

locale rollback_transaction =
  fixes idle :: "'s \<Rightarrow> bool"
    and view :: "'s \<Rightarrow> 'v"
    and save :: "'s \<Rightarrow> 'e + 's"
    and work :: "'s \<Rightarrow> 's \<Rightarrow> 's \<Rightarrow> bool"
    and rollback :: "'s \<Rightarrow> 'e + 's"
  assumes rolls_back: "idle s \<Longrightarrow> save s = Inr s1 \<Longrightarrow> (work s)\<^sup>*\<^sup>* s1 s2
      \<Longrightarrow> \<exists>s3. rollback s2 = Inr s3 \<and> idle s3 \<and> view s3 = view s"
begin

lemma attempts_keep:
  assumes "(\<lambda>s s'. \<exists>s1 s2. save s = Inr s1 \<and> (work s)\<^sup>*\<^sup>* s1 s2 \<and> rollback s2 = Inr s')\<^sup>*\<^sup>* s s'" and "idle s"
  shows "idle s' \<and> view s' = view s"
  using assms(1)
proof (induction rule: rtranclp_induct)
  case base
  then show ?case using assms(2) by simp
next
  case (step s0 s')
  then obtain s1 s2 where "save s0 = Inr s1" "(work s0)\<^sup>*\<^sup>* s1 s2" "rollback s2 = Inr s'" by blast
  with rolls_back[of s0 s1 s2] step.IH show ?case by auto
qed

lemma retry_rolls_back:
  assumes "(\<lambda>s s'. \<exists>s1 s2. save s = Inr s1 \<and> (work s)\<^sup>*\<^sup>* s1 s2 \<and> rollback s2 = Inr s')\<^sup>*\<^sup>* s s0" and "idle s"
    and "save s0 = Inr s1" and "(work s0)\<^sup>*\<^sup>* s1 s2"
  shows "\<exists>s3. rollback s2 = Inr s3 \<and> idle s3 \<and> view s3 = view s"
  using rolls_back[of s0 s1 s2] attempts_keep[OF assms(1,2)] assms(3,4) by auto

end

end
