(* ===== verification/Block_Pool.thy ===== *)
theory Block_Pool
  imports Prelude
begin

text \<open>
  The reference-counted block pool of the paged key-value cache
  (\<^verbatim>\<open>src/src/engine/block.h\<close>, \<^verbatim>\<open>src/src/engine/block.cpp\<close>).

  A \<open>std::shared_ptr<Block>\<close> is an address (\<open>bptr\<close>) into an explicit store of \<open>Block\<close> objects, so that
  the pool's comparisons \<open>blocks_[id] == block\<close> are comparisons of addresses: a stale handle to a
  released block with the same id is a different address. A null handle is \<open>None\<close>. The calls to the
  \<open>BlockReferenceObserver\<close> are recorded, in order, in a list of notifications.
  A block size of zero makes \<open>BlocksNeeded\<close> divide by zero, which C++ leaves undefined; the
  invariant \<open>wf_pool\<close> excludes it.
\<close>

section \<open>Data\<close>

datatype LogicalPrefixIdentity = LogicalPrefixIdentity
  (logical_hash: u64) (logical_parent: "LogicalPrefixIdentity option") (logical_tokens: "token list")

text \<open>An identity is immutable once it is shared; a \<open>shared_ptr\<close> to it is its value together with its address.\<close>

datatype BlockIdentity = BlockIdentity
  (identity_address: nat) (identity_hash: u64) (identity_block_id: nat) (identity_parent: "BlockIdentity option")
  (identity_tokens: "token list") (identity_logical: "LogicalPrefixIdentity option")

definition Tokens :: "BlockIdentity \<Rightarrow> token list" where
  "Tokens identity = (case identity_logical identity of
     Some logical \<Rightarrow> logical_tokens logical
   | None \<Rightarrow> identity_tokens identity)"

record Block =
  block_id :: nat
  block_slots_used :: nat
  block_capacity :: nat
  ref_count :: nat
  identity :: "BlockIdentity option"
  reference_observer_cookie :: "nat option"

text \<open>The operation named in the message of an ownership error.\<close>

datatype pool_operation = OpFree | OpAddReference

datatype pool_error =
    AddSlotsBeyondCapacity
  | NoContentIdentity nat
  | NullIdentity
  | IdentityOfPartialBlock
  | IdentityTokenMismatch
  | NoRemainingReferences
  | BlocksExhausted (needed: nat) (for_slots: nat) (available: nat)
  | AddRefNotOwned
  | ReleaseNotOwned
  | SecondObserver
  | CookieNeedsOwnedBlock
  | NullBlock pool_operation
  | BlockIdOutOfRange pool_operation nat nat
  | BlockNotAllocated pool_operation nat
  | TooFewReferences pool_operation nat nat nat
  | Terminated

type_synonym bptr = nat

datatype observer_event =
    BecameReferenced bptr nat
  | BecameReclaimable bptr nat

record BlockPool =
  pool_block_size :: nat
  pool_capacity :: nat
  pool_blocks :: "bptr option list"
  validation_marks :: "u64 list"
  validation_counts :: "nat list"
  validation_epoch :: u64
  mutation_generation :: u64
  reference_observer :: "nat option"
  pool_store :: "bptr \<Rightarrow> Block"
  next_address :: bptr
  observer_events :: "observer_event list"

section \<open>Blocks\<close>

definition new_block :: "nat \<Rightarrow> nat \<Rightarrow> nat \<Rightarrow> Block" where
  "new_block bid slots block_size =
     \<lparr>block_id = bid, block_slots_used = slots, block_capacity = block_size, ref_count = 1,
      identity = None, reference_observer_cookie = None\<rparr>"

definition IsFull :: "Block \<Rightarrow> bool" where
  "IsFull b \<longleftrightarrow> block_slots_used b = block_capacity b"

definition EmptySlots :: "Block \<Rightarrow> nat" where
  "EmptySlots b = block_capacity b - block_slots_used b"

definition AddSlots :: "nat \<Rightarrow> Block \<Rightarrow> pool_error + Block" where
  "AddSlots slots b =
     (if slots > EmptySlots b then Inl AddSlotsBeyondCapacity
      else Inr (b\<lparr>block_slots_used := block_slots_used b + slots\<rparr>))"

definition AddSlot :: "Block \<Rightarrow> pool_error + Block" where
  "AddSlot b = AddSlots 1 b"

definition SlotIds :: "Block \<Rightarrow> nat list" where
  "SlotIds b = map (\<lambda>k. block_id b * block_capacity b + k) [0..<block_slots_used b]"

definition HasIdentity :: "Block \<Rightarrow> bool" where
  "HasIdentity b \<longleftrightarrow> identity b \<noteq> None"

definition IsShared :: "Block \<Rightarrow> bool" where
  "IsShared b \<longleftrightarrow> ref_count b > 1"

definition IsShareable :: "Block \<Rightarrow> bool" where
  "IsShareable b \<longleftrightarrow> IsFull b \<and> HasIdentity b"

definition Identity :: "Block \<Rightarrow> pool_error + BlockIdentity" where
  "Identity b = (case identity b of None \<Rightarrow> Inl (NoContentIdentity (block_id b)) | Some i \<Rightarrow> Inr i)"

definition SetIdentity :: "BlockIdentity option \<Rightarrow> Block \<Rightarrow> pool_error + Block" where
  "SetIdentity new_identity b = (case new_identity of
     None \<Rightarrow> Inl NullIdentity
   | Some i \<Rightarrow>
       if \<not> IsFull b then Inl IdentityOfPartialBlock
       else if length (Tokens i) \<noteq> block_capacity b then Inl IdentityTokenMismatch
       else Inr (b\<lparr>identity := Some i\<rparr>))"

definition ClearIdentity :: "Block \<Rightarrow> Block" where
  "ClearIdentity b = b\<lparr>identity := None\<rparr>"

definition Block_AddRef :: "Block \<Rightarrow> Block" where
  "Block_AddRef b = b\<lparr>ref_count := ref_count b + 1\<rparr>"

text \<open>\<open>ReleaseRef\<close> returns the remaining references; the new count is that number.\<close>

definition ReleaseRef :: "Block \<Rightarrow> pool_error + Block" where
  "ReleaseRef b =
     (if ref_count b = 0 then Inl NoRemainingReferences
      else Inr (b\<lparr>ref_count := ref_count b - 1\<rparr>))"

section \<open>The pool\<close>

definition new_pool :: "nat \<Rightarrow> nat \<Rightarrow> BlockPool" where
  "new_pool block_size num_blocks =
     \<lparr>pool_block_size = block_size, pool_capacity = num_blocks,
      pool_blocks = replicate num_blocks None,
      validation_marks = replicate num_blocks 0,
      validation_counts = replicate num_blocks 0,
      validation_epoch = 0, mutation_generation = 0, reference_observer = None,
      pool_store = (\<lambda>_. new_block 0 0 block_size), next_address = 0, observer_events = []\<rparr>"

definition AvailableBlocks :: "BlockPool \<Rightarrow> nat" where
  "AvailableBlocks pool = length (filter Option.is_none (pool_blocks pool))"

definition Size :: "BlockPool \<Rightarrow> nat" where
  "Size pool = pool_capacity pool - AvailableBlocks pool"

definition BlocksNeeded :: "BlockPool \<Rightarrow> nat \<Rightarrow> nat" where
  "BlocksNeeded pool num_slots =
     num_slots div pool_block_size pool
       + (if num_slots mod pool_block_size pool \<noteq> 0 then 1 else 0)"

definition Owns :: "BlockPool \<Rightarrow> bptr option \<Rightarrow> bool" where
  "Owns pool handle = (case handle of
     None \<Rightarrow> False
   | Some p \<Rightarrow> block_id (pool_store pool p) < pool_capacity pool
       \<and> pool_blocks pool ! block_id (pool_store pool p) = Some p)"

definition OwnedBlocks :: "BlockPool \<Rightarrow> bptr list" where
  "OwnedBlocks pool = List.map_filter (\<lambda>slot. slot) (pool_blocks pool)"

definition modify_block :: "bptr \<Rightarrow> (Block \<Rightarrow> Block) \<Rightarrow> BlockPool \<Rightarrow> BlockPool" where
  "modify_block p f pool = pool\<lparr>pool_store := (pool_store pool)(p := f (pool_store pool p))\<rparr>"

subsection \<open>Allocation\<close>

text \<open>The scan over \<open>blocks_\<close> collects one new block per free id until enough are found; the pool is
  only written after the scan.\<close>

fun allocate_scan :: "nat \<Rightarrow> nat \<Rightarrow> bool \<Rightarrow> nat \<Rightarrow> bptr option list \<Rightarrow> nat \<Rightarrow> Block list \<Rightarrow> Block list" where
  "allocate_scan block_size num_slots mark_slots_used blocks_needed [] bid allocated = allocated"
| "allocate_scan block_size num_slots mark_slots_used blocks_needed (slot # slots) bid allocated =
     (if length allocated < blocks_needed then
        (case slot of
           None \<Rightarrow>
             (let allocated_slots = length allocated * block_size;
                  used = (if mark_slots_used then min block_size (num_slots - allocated_slots) else 0)
              in allocate_scan block_size num_slots mark_slots_used blocks_needed slots (Suc bid)
                   (allocated @ [new_block bid used block_size]))
         | Some _ \<Rightarrow>
             allocate_scan block_size num_slots mark_slots_used blocks_needed slots (Suc bid) allocated)
      else allocated)"

definition publish_block :: "Block \<Rightarrow> BlockPool \<Rightarrow> BlockPool" where
  "publish_block b pool =
     pool\<lparr>pool_store := (pool_store pool)(next_address pool := b),
          next_address := Suc (next_address pool),
          pool_blocks := (pool_blocks pool)[block_id b := Some (next_address pool)]\<rparr>"

fun publish_blocks :: "Block list \<Rightarrow> BlockPool \<Rightarrow> BlockPool \<times> bptr list" where
  "publish_blocks [] pool = (pool, [])"
| "publish_blocks (b # bs) pool =
     (case publish_blocks bs (publish_block b pool) of
        (pool', handles) \<Rightarrow> (pool', next_address pool # handles))"

definition AllocateBlocksMarked ::
  "nat \<Rightarrow> bool \<Rightarrow> BlockPool \<Rightarrow> pool_error + (BlockPool \<times> bptr list)" where
  "AllocateBlocksMarked num_slots mark_slots_used pool =
     (let blocks_needed = BlocksNeeded pool num_slots in
      if blocks_needed > AvailableBlocks pool
      then Inl (BlocksExhausted blocks_needed num_slots (AvailableBlocks pool))
      else
        (let allocated = allocate_scan (pool_block_size pool) num_slots mark_slots_used blocks_needed
                           (pool_blocks pool) 0 [];
             (pool', handles) = publish_blocks allocated pool
         in Inr (if allocated \<noteq> []
                 then pool'\<lparr>mutation_generation := mutation_generation pool' + 1\<rparr>
                 else pool', handles)))"

definition AllocateBlocks :: "nat \<Rightarrow> BlockPool \<Rightarrow> pool_error + (BlockPool \<times> bptr list)" where
  "AllocateBlocks num_slots pool = AllocateBlocksMarked num_slots True pool"

definition ReserveBlocks :: "nat \<Rightarrow> BlockPool \<Rightarrow> pool_error + (BlockPool \<times> bptr list)" where
  "ReserveBlocks num_slots pool = AllocateBlocksMarked num_slots False pool"

subsection \<open>References and the observer\<close>

definition notify :: "observer_event \<Rightarrow> BlockPool \<Rightarrow> BlockPool" where
  "notify e pool = pool\<lparr>observer_events := observer_events pool @ [e]\<rparr>"

text \<open>One reference on the block at address \<open>p\<close>, as both overloads of \<open>BlockPool::AddRef\<close> take it.\<close>

definition add_reference :: "bptr \<Rightarrow> BlockPool \<Rightarrow> BlockPool" where
  "add_reference p pool =
     (let b = pool_store pool p; pool' = modify_block p Block_AddRef pool in
      case reference_observer_cookie b of
        Some cookie \<Rightarrow>
          if ref_count b = 1 \<and> reference_observer pool \<noteq> None
          then notify (BecameReferenced p cookie) pool' else pool'
      | None \<Rightarrow> pool')"

definition AddRef :: "bptr option \<Rightarrow> BlockPool \<Rightarrow> pool_error + BlockPool" where
  "AddRef handle pool = (case handle of
     None \<Rightarrow> Inl AddRefNotOwned
   | Some p \<Rightarrow> if Owns pool handle then Inr (add_reference p pool) else Inl AddRefNotOwned)"

text \<open>The part of \<open>Release\<close> and of the loop of \<open>FreeValidated\<close> that runs for one block. The flag says
  whether the block left the pool.\<close>

definition drop_reference :: "bptr \<Rightarrow> BlockPool \<Rightarrow> pool_error + (BlockPool \<times> bool)" where
  "drop_reference p pool =
     (case ReleaseRef (pool_store pool p) of
        Inl e \<Rightarrow> Inl e
      | Inr b \<Rightarrow>
          let pool' = pool\<lparr>pool_store := (pool_store pool)(p := b)\<rparr> in
          if ref_count b = 1 \<and> reference_observer_cookie b \<noteq> None \<and> reference_observer pool \<noteq> None
          then Inr (notify (BecameReclaimable p (the (reference_observer_cookie b))) pool', False)
          else if ref_count b = 0
          then Inr ((modify_block p ClearIdentity pool')
                 \<lparr>pool_blocks := (pool_blocks pool')[block_id b := None]\<rparr>, True)
          else Inr (pool', False))"

definition Release :: "bptr option \<Rightarrow> BlockPool \<Rightarrow> pool_error + BlockPool" where
  "Release handle pool = (case handle of
     None \<Rightarrow> Inl ReleaseNotOwned
   | Some p \<Rightarrow>
       if \<not> Owns pool handle then Inl ReleaseNotOwned
       else (case drop_reference p pool of
               Inl e \<Rightarrow> Inl e
             | Inr (pool', freed) \<Rightarrow>
                 Inr (if freed then pool'\<lparr>mutation_generation := mutation_generation pool' + 1\<rparr>
                      else pool')))"

definition SetReferenceObserver :: "nat option \<Rightarrow> BlockPool \<Rightarrow> pool_error + BlockPool" where
  "SetReferenceObserver observer pool =
     (if reference_observer pool \<noteq> None \<and> observer \<noteq> None \<and> reference_observer pool \<noteq> observer
      then Inl SecondObserver
      else Inr (pool\<lparr>reference_observer := observer\<rparr>))"

definition SetReferenceObserverCookie ::
  "bptr option \<Rightarrow> nat option \<Rightarrow> BlockPool \<Rightarrow> pool_error + BlockPool" where
  "SetReferenceObserverCookie handle cookie pool =
     (if \<not> Owns pool handle \<or> cookie = None then Inl CookieNeedsOwnedBlock
      else Inr (modify_block (the handle) (\<lambda>b. b\<lparr>reference_observer_cookie := cookie\<rparr>) pool))"

definition ClearReferenceObserverCookie :: "bptr option \<Rightarrow> BlockPool \<Rightarrow> pool_error + BlockPool" where
  "ClearReferenceObserverCookie handle pool =
     (if \<not> Owns pool handle then Inl Terminated
      else Inr (modify_block (the handle) (\<lambda>b. b\<lparr>reference_observer_cookie := None\<rparr>) pool))"

subsection \<open>Ownership validation\<close>

fun collect_ids :: "pool_operation \<Rightarrow> BlockPool \<Rightarrow> bptr option list \<Rightarrow> pool_error + nat list" where
  "collect_ids operation pool [] = Inr []"
| "collect_ids operation pool (handle # handles) = (case handle of
     None \<Rightarrow> Inl (NullBlock operation)
   | Some p \<Rightarrow>
       let bid = block_id (pool_store pool p) in
       if bid \<ge> pool_capacity pool
       then Inl (BlockIdOutOfRange operation bid (pool_capacity pool))
       else if pool_blocks pool ! bid \<noteq> Some p then Inl (BlockNotAllocated operation bid)
       else (case collect_ids operation pool handles of
               Inl e \<Rightarrow> Inl e
             | Inr ids \<Rightarrow> Inr (bid # ids)))"

definition add_occurrence :: "(nat \<times> nat) list \<Rightarrow> nat \<Rightarrow> (nat \<times> nat) list" where
  "add_occurrence occurrences bid =
     (if occurrences = [] \<or> fst (last occurrences) \<noteq> bid then occurrences @ [(bid, 1)]
      else butlast occurrences @ [(bid, snd (last occurrences) + 1)])"

definition occurrences_of :: "nat list \<Rightarrow> (nat \<times> nat) list" where
  "occurrences_of sorted_ids = foldl add_occurrence [] sorted_ids"

definition slot_block :: "BlockPool \<Rightarrow> nat \<Rightarrow> Block" where
  "slot_block pool bid = pool_store pool (the (pool_blocks pool ! bid))"

fun check_references ::
  "pool_operation \<Rightarrow> BlockPool \<Rightarrow> (nat \<times> nat) list \<Rightarrow> pool_error + unit" where
  "check_references operation pool [] = Inr ()"
| "check_references operation pool ((bid, n) # rest) =
     (if ref_count (slot_block pool bid) < n
      then Inl (TooFewReferences operation bid n (ref_count (slot_block pool bid)))
      else check_references operation pool rest)"

definition ValidateOwnership ::
  "bptr option list \<Rightarrow> pool_operation \<Rightarrow> bool \<Rightarrow> BlockPool \<Rightarrow> pool_error + (nat \<times> nat) list" where
  "ValidateOwnership handles operation require_references pool =
     (case collect_ids operation pool handles of
        Inl e \<Rightarrow> Inl e
      | Inr ids \<Rightarrow>
          let occurrences = occurrences_of (sort ids) in
          if require_references
          then (case check_references operation pool occurrences of
                  Inl e \<Rightarrow> Inl e
                | Inr _ \<Rightarrow> Inr occurrences)
          else Inr occurrences)"

definition ValidateFree :: "bptr option list \<Rightarrow> BlockPool \<Rightarrow> pool_error + unit" where
  "ValidateFree handles pool =
     (case ValidateOwnership handles OpFree True pool of Inl e \<Rightarrow> Inl e | Inr _ \<Rightarrow> Inr ())"

text \<open>\<open>AddRef\<close> over a span: the counted occurrences are applied through the slot of their id.\<close>

fun add_reference_times :: "nat \<Rightarrow> bptr \<Rightarrow> BlockPool \<Rightarrow> BlockPool" where
  "add_reference_times 0 p pool = pool"
| "add_reference_times (Suc n) p pool = add_reference_times n p (add_reference p pool)"

fun add_occurrence_references :: "(nat \<times> nat) list \<Rightarrow> BlockPool \<Rightarrow> BlockPool" where
  "add_occurrence_references [] pool = pool"
| "add_occurrence_references ((bid, n) # rest) pool =
     add_occurrence_references rest (add_reference_times n (the (pool_blocks pool ! bid)) pool)"

definition AddRefs :: "bptr option list \<Rightarrow> BlockPool \<Rightarrow> pool_error + BlockPool" where
  "AddRefs handles pool =
     (case ValidateOwnership handles OpAddReference False pool of
        Inl e \<Rightarrow> Inl e
      | Inr occurrences \<Rightarrow> Inr (add_occurrence_references occurrences pool))"

subsection \<open>Freeing\<close>

text \<open>The allocation-free duplicate detection: \<open>validation_marks_\<close> says in which epoch an id was last
  counted, and the epoch is a 64-bit counter whose wrap-around resets the marks.\<close>

definition count_handle :: "nat \<Rightarrow> BlockPool \<Rightarrow> BlockPool" where
  "count_handle bid pool =
     (let pool1 = (if validation_marks pool ! bid \<noteq> validation_epoch pool
                   then pool\<lparr>validation_marks := (validation_marks pool)[bid := validation_epoch pool],
                             validation_counts := (validation_counts pool)[bid := 0]\<rparr>
                   else pool)
      in pool1\<lparr>validation_counts := (validation_counts pool1)[bid := validation_counts pool1 ! bid + 1]\<rparr>)"

fun can_free_scan :: "bptr option list \<Rightarrow> BlockPool \<Rightarrow> BlockPool \<times> bool" where
  "can_free_scan [] pool = (pool, True)"
| "can_free_scan (handle # handles) pool = (case handle of
     None \<Rightarrow> (pool, False)
   | Some p \<Rightarrow>
       let bid = block_id (pool_store pool p) in
       if bid \<ge> length (pool_blocks pool) \<or> pool_blocks pool ! bid \<noteq> Some p then (pool, False)
       else
         let pool' = count_handle bid pool in
         if validation_counts pool' ! bid > ref_count (pool_store pool p) then (pool', False)
         else can_free_scan handles pool')"

definition next_epoch :: "BlockPool \<Rightarrow> BlockPool" where
  "next_epoch pool =
     (let pool' = pool\<lparr>validation_epoch := validation_epoch pool + 1\<rparr> in
      if validation_epoch pool' = 0
      then pool'\<lparr>validation_marks := map (\<lambda>_. 0) (validation_marks pool'),
                 validation_epoch := validation_epoch pool' + 1\<rparr>
      else pool')"

definition CanFreeValidated :: "bptr option list \<Rightarrow> BlockPool \<Rightarrow> BlockPool \<times> bool" where
  "CanFreeValidated handles pool = can_free_scan handles (next_epoch pool)"

fun free_loop :: "bptr option list \<Rightarrow> BlockPool \<Rightarrow> pool_error + BlockPool" where
  "free_loop [] pool = Inr pool"
| "free_loop (handle # handles) pool = (case handle of
     None \<Rightarrow> Inl Terminated
   | Some p \<Rightarrow> (case drop_reference p pool of
       Inl e \<Rightarrow> Inl Terminated
     | Inr (pool', _) \<Rightarrow> free_loop handles pool'))"

definition FreeValidated :: "bptr option list \<Rightarrow> BlockPool \<Rightarrow> pool_error + BlockPool" where
  "FreeValidated handles pool =
     (let (pool1, ok) = CanFreeValidated handles pool in
      if \<not> ok then Inl Terminated
      else (case free_loop handles pool1 of
              Inl e \<Rightarrow> Inl e
            | Inr pool2 \<Rightarrow>
                Inr (if handles \<noteq> []
                     then pool2\<lparr>mutation_generation := mutation_generation pool2 + 1\<rparr>
                     else pool2)))"

definition Free :: "bptr option list \<Rightarrow> BlockPool \<Rightarrow> pool_error + BlockPool" where
  "Free handles pool =
     (case ValidateFree handles pool of Inl e \<Rightarrow> Inl e | Inr _ \<Rightarrow> FreeValidated handles pool)"

fun rollback_loop :: "bptr option list \<Rightarrow> BlockPool \<Rightarrow> bool \<Rightarrow> BlockPool \<times> bool" where
  "rollback_loop [] pool released = (pool, released)"
| "rollback_loop (handle # handles) pool released = (case handle of
     None \<Rightarrow> rollback_loop handles pool released
   | Some p \<Rightarrow>
       let bid = block_id (pool_store pool p) in
       if bid < length (pool_blocks pool) \<and> pool_blocks pool ! bid = Some p
       then rollback_loop handles (pool\<lparr>pool_blocks := (pool_blocks pool)[bid := None]\<rparr>) True
       else rollback_loop handles pool released)"

definition RollbackReservedBlocks :: "bptr option list \<Rightarrow> BlockPool \<Rightarrow> BlockPool" where
  "RollbackReservedBlocks handles pool =
     (let (pool', released) = rollback_loop handles pool False in
      if released then pool'\<lparr>mutation_generation := mutation_generation pool' + 1\<rparr> else pool')"


section \<open>The pool invariant\<close>

text \<open>What every allocated slot satisfies: the block in slot \<open>i\<close> has id \<open>i\<close>, at least one reference,
  no more used slots than its capacity, and an identity only when it is full and the identity names a
  token for every slot. Marks never run ahead of the epoch, which is what makes a stale mark
  distinguishable from a fresh one.\<close>

definition wf_block :: "nat \<Rightarrow> nat \<Rightarrow> Block \<Rightarrow> bool" where
  "wf_block block_size i b \<longleftrightarrow>
     block_id b = i \<and> block_capacity b = block_size \<and> block_slots_used b \<le> block_size
     \<and> 0 < ref_count b
     \<and> (\<forall>ident. identity b = Some ident \<longrightarrow> IsFull b \<and> length (Tokens ident) = block_size)"

definition wf_slots :: "BlockPool \<Rightarrow> bool" where
  "wf_slots pool \<longleftrightarrow>
     (\<forall>i p. i < pool_capacity pool \<longrightarrow> pool_blocks pool ! i = Some p \<longrightarrow>
        p < next_address pool \<and> wf_block (pool_block_size pool) i (pool_store pool p))"

definition wf_pool :: "BlockPool \<Rightarrow> bool" where
  "wf_pool pool \<longleftrightarrow>
     0 < pool_block_size pool
     \<and> length (pool_blocks pool) = pool_capacity pool
     \<and> length (validation_marks pool) = pool_capacity pool
     \<and> length (validation_counts pool) = pool_capacity pool
     \<and> (\<forall>m \<in> set (validation_marks pool). m \<le> validation_epoch pool)
     \<and> wf_slots pool"

lemma wf_pool_slotD:
  assumes "wf_pool pool" and "i < pool_capacity pool" and "pool_blocks pool ! i = Some p"
  shows "p < next_address pool" and "wf_block (pool_block_size pool) i (pool_store pool p)"
  using assms by (auto simp: wf_pool_def wf_slots_def)

lemma wf_pool_lengths:
  assumes "wf_pool pool"
  shows "length (pool_blocks pool) = pool_capacity pool"
    and "length (validation_marks pool) = pool_capacity pool"
    and "length (validation_counts pool) = pool_capacity pool"
    and "0 < pool_block_size pool"
  using assms by (auto simp: wf_pool_def)

text \<open>An owned handle sits in the slot of its own id.\<close>

lemma OwnsD:
  assumes "Owns pool (Some p)"
  shows "block_id (pool_store pool p) < pool_capacity pool"
    and "pool_blocks pool ! block_id (pool_store pool p) = Some p"
  using assms by (auto simp: Owns_def)

lemma Owns_ref_count:
  assumes "wf_pool pool" and "Owns pool (Some p)"
  shows "0 < ref_count (pool_store pool p)"
  using wf_pool_slotD(2)[OF assms(1) OwnsD[OF assms(2)]] by (simp add: wf_block_def)

lemma Owns_same_id:
  assumes "Owns pool (Some p)" and "Owns pool (Some q)"
    and "block_id (pool_store pool p) = block_id (pool_store pool q)"
  shows "p = q"
  using assms by (auto simp: Owns_def)

lemma wf_new_pool: "0 < block_size \<Longrightarrow> wf_pool (new_pool block_size n)"
  by (auto simp: wf_pool_def wf_slots_def new_pool_def)

text \<open>Rewriting the block at an address keeps the invariant when every slot that holds the address
  still finds a well-formed block there.\<close>

lemma wf_pool_store_update:
  assumes "wf_pool pool"
    and "\<And>i. i < pool_capacity pool \<Longrightarrow> pool_blocks pool ! i = Some p \<Longrightarrow>
           wf_block (pool_block_size pool) i b"
  shows "wf_pool (pool\<lparr>pool_store := (pool_store pool)(p := b)\<rparr>)"
  using assms by (auto simp: wf_pool_def wf_slots_def)

lemma wf_pool_clear_slot:
  assumes "wf_pool pool"
  shows "wf_pool (pool\<lparr>pool_blocks := (pool_blocks pool)[i := None]\<rparr>)"
  using assms by (auto simp: wf_pool_def wf_slots_def nth_update_None_Some)

lemma wf_pool_irrelevant [simp]:
  "wf_pool (pool\<lparr>mutation_generation := g\<rparr>) = wf_pool pool"
  "wf_pool (pool\<lparr>observer_events := es\<rparr>) = wf_pool pool"
  "wf_pool (pool\<lparr>reference_observer := ob\<rparr>) = wf_pool pool"
  by (auto simp: wf_pool_def wf_slots_def)

lemma notify_simps [simp]:
  "pool_store (notify e pool) = pool_store pool"
  "pool_blocks (notify e pool) = pool_blocks pool"
  "pool_capacity (notify e pool) = pool_capacity pool"
  "pool_block_size (notify e pool) = pool_block_size pool"
  by (simp_all add: notify_def)

lemma wf_notify [simp]: "wf_pool (notify e pool) = wf_pool pool"
  by (simp add: notify_def)

lemma wf_modify_block:
  assumes "wf_pool pool" and "\<And>i. wf_block (pool_block_size pool) i (pool_store pool p) \<Longrightarrow>
    wf_block (pool_block_size pool) i (f (pool_store pool p))"
  shows "wf_pool (modify_block p f pool)"
  unfolding modify_block_def
  by (rule wf_pool_store_update[OF assms(1)]) (auto intro: assms(2) wf_pool_slotD(2)[OF assms(1)])

section \<open>Allocation takes the lowest free ids\<close>

fun free_from :: "nat \<Rightarrow> bptr option list \<Rightarrow> nat list" where
  "free_from bid [] = []"
| "free_from bid (slot # slots) =
     (case slot of None \<Rightarrow> bid # free_from (Suc bid) slots | Some _ \<Rightarrow> free_from (Suc bid) slots)"

definition free_ids :: "BlockPool \<Rightarrow> nat list" where
  "free_ids pool = free_from 0 (pool_blocks pool)"

lemma free_from_filter:
  "free_from bid slots = filter (\<lambda>i. slots ! (i - bid) = None) [bid..<bid + length slots]"
proof (induction slots arbitrary: bid)
  case Nil
  show ?case by simp
next
  case (Cons slot slots)
  have "filter (\<lambda>i. (slot # slots) ! (i - bid) = None) [Suc bid..<bid + length (slot # slots)]
      = filter (\<lambda>i. slots ! (i - Suc bid) = None) [Suc bid..<Suc bid + length slots]"
    by (rule filter_cong) (auto simp: nth_Cons' Suc_diff_Suc)
  then show ?case
    by (cases slot) (simp_all add: Cons.IH upt_conv_Cons del: upt_Suc)
qed

lemma free_ids_filter:
  "free_ids pool = filter (\<lambda>i. pool_blocks pool ! i = None) [0..<length (pool_blocks pool)]"
  by (simp add: free_ids_def free_from_filter)

lemma length_free_ids: "length (free_ids pool) = AvailableBlocks pool"
  unfolding free_ids_filter AvailableBlocks_def
  by (subst length_filter_upt_nth) (simp add: Option.is_none_def)

lemma distinct_free_ids: "distinct (free_ids pool)"
  by (simp add: free_ids_filter)

lemma free_ids_free: "i \<in> set (free_ids pool) \<Longrightarrow> i < length (pool_blocks pool) \<and> pool_blocks pool ! i = None"
  by (simp add: free_ids_filter)

definition scan_block :: "nat \<Rightarrow> nat \<Rightarrow> bool \<Rightarrow> nat \<Rightarrow> nat \<Rightarrow> Block" where
  "scan_block block_size num_slots mark j i =
     new_block i (if mark then min block_size (num_slots - j * block_size) else 0) block_size"

lemma allocate_scan_eq:
  "length acc \<le> k \<Longrightarrow>
   allocate_scan bs n m k slots bid acc
     = acc @ map (\<lambda>(j, i). scan_block bs n m j i) (zip [length acc..<k] (free_from bid slots))"
proof (induction slots arbitrary: bid acc)
  case Nil
  then show ?case by simp
next
  case (Cons slot slots)
  show ?case
  proof (cases "length acc < k")
    case True
    then show ?thesis
      using Cons.IH[of acc "Suc bid"]
        Cons.IH[of "acc @ [scan_block bs n m (length acc) bid]" "Suc bid"]
      by (auto simp: upt_conv_Cons scan_block_def Let_def split: option.split)
  next
    case False
    then show ?thesis using Cons.prems by simp
  qed
qed

lemma allocate_scan_ids:
  assumes "k \<le> AvailableBlocks pool"
  shows "allocate_scan bs n m k (pool_blocks pool) 0 []
    = map (\<lambda>j. scan_block bs n m j (free_ids pool ! j)) [0..<k]"
proof -
  have "zip [0..<k] (free_ids pool) = map (\<lambda>j. (j, free_ids pool ! j)) [0..<k]"
    using assms by (intro nth_equalityI) (simp_all add: length_free_ids)
  then show ?thesis
    by (simp add: allocate_scan_eq free_ids_def[symmetric] o_def)
qed

lemma publish_block_simps [simp]:
  "next_address (publish_block b pool) = Suc (next_address pool)"
  "pool_block_size (publish_block b pool) = pool_block_size pool"
  "pool_capacity (publish_block b pool) = pool_capacity pool"
  "validation_marks (publish_block b pool) = validation_marks pool"
  "validation_counts (publish_block b pool) = validation_counts pool"
  "validation_epoch (publish_block b pool) = validation_epoch pool"
  "pool_store (publish_block b pool) = (pool_store pool)(next_address pool := b)"
  "pool_blocks (publish_block b pool) = (pool_blocks pool)[block_id b := Some (next_address pool)]"
  by (simp_all add: publish_block_def)

lemma publish_blocks_ConsE:
  assumes "publish_blocks (b # bs) pool = (pool', ps)"
  obtains qs where "publish_blocks bs (publish_block b pool) = (pool', qs)"
    and "ps = next_address pool # qs"
  using assms by (auto split: prod.splits)

lemma publish_blocks_frame:
  assumes "publish_blocks bs pool = (pool', ps)"
  shows "ps = [next_address pool..<next_address pool + length bs]
    \<and> next_address pool' = next_address pool + length bs
    \<and> pool_block_size pool' = pool_block_size pool
    \<and> pool_capacity pool' = pool_capacity pool
    \<and> validation_marks pool' = validation_marks pool
    \<and> validation_counts pool' = validation_counts pool
    \<and> validation_epoch pool' = validation_epoch pool
    \<and> length (pool_blocks pool') = length (pool_blocks pool)"
  using assms
proof (induction bs arbitrary: pool ps)
  case Nil
  then show ?case by simp
next
  case (Cons b bs)
  from Cons.prems show ?case
    by (rule publish_blocks_ConsE) (auto dest!: Cons.IH simp: upt_conv_Cons simp del: upt_Suc)
qed

lemma publish_blocks_old_store:
  assumes "publish_blocks bs pool = (pool', ps)" and "q < next_address pool"
  shows "pool_store pool' q = pool_store pool q"
  using assms
proof (induction bs arbitrary: pool ps)
  case (Cons b bs)
  from Cons.prems(1) show ?case
    by (rule publish_blocks_ConsE) (use Cons in auto)
qed simp

lemma publish_blocks_new_store:
  assumes "publish_blocks bs pool = (pool', ps)" and "j < length bs"
  shows "pool_store pool' (next_address pool + j) = bs ! j"
  using assms
proof (induction bs arbitrary: pool ps j)
  case (Cons b bs)
  from Cons.prems(1) obtain qs where qs: "publish_blocks bs (publish_block b pool) = (pool', qs)"
    by (rule publish_blocks_ConsE)
  show ?case
  proof (cases j)
    case 0
    then show ?thesis using publish_blocks_old_store[OF qs, of "next_address pool"] by simp
  next
    case (Suc k)
    with Cons.prems Cons.IH[OF qs, of k] show ?thesis by simp
  qed
qed simp

lemma publish_blocks_other_slots:
  assumes "publish_blocks bs pool = (pool', ps)" and "i \<notin> block_id ` set bs"
  shows "pool_blocks pool' ! i = pool_blocks pool ! i"
  using assms
proof (induction bs arbitrary: pool ps)
  case (Cons b bs)
  from Cons.prems(1) show ?case
    by (rule publish_blocks_ConsE) (use Cons in auto)
qed simp

lemma publish_blocks_new_slots:
  assumes "publish_blocks bs pool = (pool', ps)" and "distinct (map block_id bs)"
    and "j < length bs" and "block_id (bs ! j) < length (pool_blocks pool)"
  shows "pool_blocks pool' ! block_id (bs ! j) = Some (next_address pool + j)"
  using assms
proof (induction bs arbitrary: pool ps j)
  case (Cons b bs)
  from Cons.prems(1) obtain qs where qs: "publish_blocks bs (publish_block b pool) = (pool', qs)"
    by (rule publish_blocks_ConsE)
  show ?case
  proof (cases j)
    case 0
    with Cons.prems publish_blocks_other_slots[OF qs, of "block_id b"] show ?thesis by simp
  next
    case (Suc k)
    with Cons.prems Cons.IH[OF qs, of k] show ?thesis by simp
  qed
qed simp


text \<open>How many slots the marked blocks carry together.\<close>

lemma sum_marked_slots:
  "(\<Sum>j<k. min bs (n - j * bs)) = min n (k * bs)" for bs n :: nat
proof (induction k)
  case 0
  show ?case by simp
next
  case (Suc k)
  have "min n (k * bs) + min bs (n - k * bs) = min n (Suc k * bs)"
    by (cases "n \<le> k * bs") (auto simp: min_def)
  with Suc show ?case by simp
qed

lemma BlocksNeeded_covers:
  assumes "0 < pool_block_size pool"
  shows "n \<le> BlocksNeeded pool n * pool_block_size pool"
    and "0 < n \<Longrightarrow> (BlocksNeeded pool n - 1) * pool_block_size pool < n"
    and "BlocksNeeded pool 0 = 0"
proof -
  define b q r where "b = pool_block_size pool" and "q = n div b" and "r = n mod b"
  have n: "n = q * b + r" and r: "r < b"
    using assms by (simp_all add: b_def q_def r_def)
  have needed: "BlocksNeeded pool n = q + (if r \<noteq> 0 then 1 else 0)"
    by (simp add: BlocksNeeded_def b_def q_def r_def)
  show "n \<le> BlocksNeeded pool n * pool_block_size pool"
    unfolding needed b_def[symmetric] by (subst n) (use r in \<open>simp add: add_mult_distrib\<close>)
  show "(BlocksNeeded pool n - 1) * pool_block_size pool < n" if "0 < n"
  proof (cases "r = 0")
    case True
    with that n obtain q' where "q = Suc q'" by (cases q) auto
    then show ?thesis
      unfolding needed b_def[symmetric] using n True r by simp
  next
    case False
    then show ?thesis unfolding needed b_def[symmetric] using n by simp
  qed
  show "BlocksNeeded pool 0 = 0" by (simp add: BlocksNeeded_def)
qed

text \<open>The complete effect of a successful allocation.\<close>

definition fresh_handle :: "BlockPool \<Rightarrow> BlockPool \<Rightarrow> bptr \<Rightarrow> bool" where
  "fresh_handle pool pool' h \<longleftrightarrow>
     Owns pool' (Some h) \<and> next_address pool \<le> h
     \<and> ref_count (pool_store pool' h) = 1 \<and> identity (pool_store pool' h) = None
     \<and> reference_observer_cookie (pool_store pool' h) = None
     \<and> block_capacity (pool_store pool' h) = pool_block_size pool"

definition allocation_result :: "nat \<Rightarrow> bool \<Rightarrow> BlockPool \<Rightarrow> BlockPool \<Rightarrow> bptr list \<Rightarrow> bool" where
  "allocation_result n mark pool pool' hs \<longleftrightarrow>
     length hs = BlocksNeeded pool n \<and> distinct hs
     \<and> map (\<lambda>h. block_id (pool_store pool' h)) hs = take (BlocksNeeded pool n) (free_ids pool)
     \<and> list_all (fresh_handle pool pool') hs
     \<and> sum_list (map (\<lambda>h. block_slots_used (pool_store pool' h)) hs) = (if mark then n else 0)
     \<and> AvailableBlocks pool' + BlocksNeeded pool n = AvailableBlocks pool
     \<and> (\<forall>q < next_address pool. pool_store pool' q = pool_store pool q)
     \<and> (\<forall>i. i \<notin> set (take (BlocksNeeded pool n) (free_ids pool)) \<longrightarrow>
            pool_blocks pool' ! i = pool_blocks pool ! i)"


lemma AvailableBlocks_free_ids: "AvailableBlocks pool = card (set (free_ids pool))"
  using distinct_free_ids length_free_ids by (metis distinct_card)

lemma set_free_ids:
  "set (free_ids pool) = {i. i < length (pool_blocks pool) \<and> pool_blocks pool ! i = None}"
  by (auto simp: free_ids_filter)

lemma publish_scan_available:
  assumes "publish_blocks bs pool = (pool', ps)" and "distinct (map block_id bs)"
    and "set (map block_id bs) \<subseteq> set (free_ids pool)"
  shows "AvailableBlocks pool' + length bs = AvailableBlocks pool"
proof -
  have frame: "length (pool_blocks pool') = length (pool_blocks pool)"
    using publish_blocks_frame[OF assms(1)] by simp
  have "set (free_ids pool') = set (free_ids pool) - set (map block_id bs)"
  proof (rule set_eqI)
    fix i
    show "i \<in> set (free_ids pool') \<longleftrightarrow> i \<in> set (free_ids pool) - set (map block_id bs)"
    proof (cases "i \<in> block_id ` set bs")
      case True
      then obtain j where "j < length bs" and "block_id (bs ! j) = i"
        by (auto simp: in_set_conv_nth)
      moreover from this have "i < length (pool_blocks pool)"
        using assms(3) True by (auto simp: set_free_ids)
      ultimately have "pool_blocks pool' ! i = Some (next_address pool + j)"
        using publish_blocks_new_slots[OF assms(1,2)] by blast
      with True show ?thesis by (simp add: set_free_ids)
    next
      case False
      with publish_blocks_other_slots[OF assms(1) False] frame show ?thesis
        by (simp add: set_free_ids)
    qed
  qed
  moreover have "card (set (map block_id bs)) = length bs"
    using distinct_card[OF assms(2)] by simp
  moreover have "card (set (map block_id bs)) \<le> card (set (free_ids pool))"
    by (rule card_mono[OF _ assms(3)]) simp
  ultimately show ?thesis
    using card_Diff_subset[OF _ assms(3)] by (simp add: AvailableBlocks_free_ids)
qed


lemma scan_blocks_ids:
  assumes "k \<le> AvailableBlocks pool"
  shows "map block_id (map (\<lambda>j. scan_block bs n m j (free_ids pool ! j)) [0..<k]) = take k (free_ids pool)"
  using assms
  by (intro nth_equalityI) (simp_all add: length_free_ids scan_block_def new_block_def)

lemma wf_publish_scan:
  assumes wf: "wf_pool pool" and k: "k \<le> AvailableBlocks pool"
    and pub: "publish_blocks (map (\<lambda>j. scan_block (pool_block_size pool) n m j (free_ids pool ! j)) [0..<k]) pool
      = (pool', hs)"
  shows "wf_pool pool'"
proof -
  let ?bs = "map (\<lambda>j. scan_block (pool_block_size pool) n m j (free_ids pool ! j)) [0..<k]"
  note frame = publish_blocks_frame[OF pub]
  have ids: "map block_id ?bs = take k (free_ids pool)" by (rule scan_blocks_ids[OF k])
  have free: "i < pool_capacity pool" if "i \<in> block_id ` set ?bs" for i
    using that ids wf_pool_lengths(1)[OF wf]
    by (metis (no_types, lifting) free_ids_free image_set in_set_takeD)
  have "p < next_address pool' \<and> wf_block (pool_block_size pool') i (pool_store pool' p)"
    if i: "i < pool_capacity pool'" and p: "pool_blocks pool' ! i = Some p" for i p
  proof (cases "i \<in> block_id ` set ?bs")
    case True
    then obtain j where j: "j < length ?bs" and "block_id (?bs ! j) = i"
      by (metis (no_types, lifting) imageE in_set_conv_nth)
    with True free ids wf_pool_lengths(1)[OF wf] distinct_free_ids[of pool]
    have "pool_blocks pool' ! i = Some (next_address pool + j)"
      using publish_blocks_new_slots[OF pub] by (metis distinct_take)
    with p have "p = next_address pool + j" by simp
    with j publish_blocks_new_store[OF pub j] frame \<open>block_id (?bs ! j) = i\<close> show ?thesis
      by (auto simp: wf_block_def scan_block_def new_block_def)
  next
    case False
    with p publish_blocks_other_slots[OF pub False] have "pool_blocks pool ! i = Some p" by simp
    with wf_pool_slotD[OF wf _ this] i frame publish_blocks_old_store[OF pub]
    show ?thesis by auto
  qed
  with wf frame show ?thesis by (auto simp: wf_pool_def wf_slots_def)
qed

lemma allocation_result_publish:
  assumes wf: "wf_pool pool" and k: "BlocksNeeded pool n \<le> AvailableBlocks pool"
    and pub: "publish_blocks (map (\<lambda>j. scan_block (pool_block_size pool) n m j (free_ids pool ! j))
      [0..<BlocksNeeded pool n]) pool = (pool', hs)"
  shows "allocation_result n m pool pool' hs"
proof -
  let ?k = "BlocksNeeded pool n" and ?b = "pool_block_size pool" and ?a = "next_address pool"
  let ?bs = "map (\<lambda>j. scan_block ?b n m j (free_ids pool ! j)) [0..<?k]"
  have frame: "hs = [?a..<?a + ?k]" "pool_capacity pool' = pool_capacity pool"
    using publish_blocks_frame[OF pub] by simp_all
  have ids: "map block_id ?bs = take ?k (free_ids pool)" by (rule scan_blocks_ids[OF k])
  have dist: "distinct (map block_id ?bs)" using ids distinct_free_ids by (metis distinct_take)
  have sub: "set (map block_id ?bs) \<subseteq> set (free_ids pool)" using ids by (metis set_take_subset)
  have store: "pool_store pool' (?a + j) = scan_block ?b n m j (free_ids pool ! j)" if "j < ?k" for j
    using publish_blocks_new_store[OF pub, of j] that by simp
  have hs: "map f hs = map (\<lambda>j. f (?a + j)) [0..<?k]" for f :: "bptr \<Rightarrow> 'a"
    unfolding frame by (intro nth_equalityI) simp_all
  have in_hs: "h \<in> set hs \<longleftrightarrow> (\<exists>j < ?k. h = ?a + j)" for h
    unfolding frame by (auto simp: le_iff_add)
  have ids': "map (\<lambda>h. block_id (pool_store pool' h)) hs = take ?k (free_ids pool)"
    unfolding hs ids[symmetric] by (simp add: store)
  have "fresh_handle pool pool' h" if "h \<in> set hs" for h
  proof -
    from that obtain j where j: "j < ?k" and h: "h = ?a + j" using in_hs by blast
    have bid: "block_id (?bs ! j) = free_ids pool ! j"
      using j by (simp add: scan_block_def new_block_def)
    have "free_ids pool ! j \<in> set (free_ids pool)" using j k by (simp add: length_free_ids)
    then have "free_ids pool ! j < pool_capacity pool"
      using wf_pool_lengths(1)[OF wf] free_ids_free by metis
    with publish_blocks_new_slots[OF pub dist, of j] j bid wf_pool_lengths(1)[OF wf]
    have "pool_blocks pool' ! (free_ids pool ! j) = Some h" using h by simp
    with \<open>free_ids pool ! j < pool_capacity pool\<close> show ?thesis
      using frame store[OF j] h
      by (simp add: fresh_handle_def Owns_def scan_block_def new_block_def)
  qed
  moreover have "sum_list (map (\<lambda>h. block_slots_used (pool_store pool' h)) hs) = (if m then n else 0)"
  proof -
    have "map (\<lambda>h. block_slots_used (pool_store pool' h)) hs
        = map (\<lambda>j. if m then min ?b (n - j * ?b) else 0) [0..<?k]"
      unfolding hs by (simp add: store scan_block_def new_block_def)
    then show ?thesis
      using sum_marked_slots[of ?b n ?k] BlocksNeeded_covers(1)[OF wf_pool_lengths(4)[OF wf], of n]
      by (simp add: sum_list_sum_nth atLeast0LessThan)
  qed
  moreover have "AvailableBlocks pool' + ?k = AvailableBlocks pool"
    using publish_scan_available[OF pub dist sub] by simp
  moreover have "pool_blocks pool' ! i = pool_blocks pool ! i" if "i \<notin> set (take ?k (free_ids pool))" for i
    using that publish_blocks_other_slots[OF pub, of i] ids by (metis image_set)
  ultimately show ?thesis
    using ids' publish_blocks_old_store[OF pub] frame
    by (auto simp: allocation_result_def list_all_iff)
qed


lemma mutation_generation_irrelevant [simp]:
  "Owns (pool\<lparr>mutation_generation := g\<rparr>) = Owns pool"
  "AvailableBlocks (pool\<lparr>mutation_generation := g\<rparr>) = AvailableBlocks pool"
  by (auto simp: Owns_def AvailableBlocks_def fun_eq_iff split: option.splits)

lemma allocation_result_generation:
  assumes "allocation_result n m pool pool' hs"
  shows "allocation_result n m pool (pool'\<lparr>mutation_generation := g\<rparr>) hs"
  using assms by (auto simp: allocation_result_def fresh_handle_def list_all_iff)

text \<open>Allocation succeeds exactly when enough blocks are free, and then has the complete effect
  described by \<open>allocation_result\<close>.\<close>

lemma AllocateBlocksMarked_success:
  assumes wf: "wf_pool pool" and k: "BlocksNeeded pool n \<le> AvailableBlocks pool"
  obtains pool' hs where "AllocateBlocksMarked n m pool = Inr (pool', hs)"
    and "wf_pool pool'" and "allocation_result n m pool pool' hs"
proof -
  let ?bs = "map (\<lambda>j. scan_block (pool_block_size pool) n m j (free_ids pool ! j))
      [0..<BlocksNeeded pool n]"
  obtain pool1 hs where pub: "publish_blocks ?bs pool = (pool1, hs)" by fastforce
  let ?pool' = "if ?bs \<noteq> [] then pool1\<lparr>mutation_generation := mutation_generation pool1 + 1\<rparr> else pool1"
  have "AllocateBlocksMarked n m pool = Inr (?pool', hs)"
    using k pub by (simp add: AllocateBlocksMarked_def allocate_scan_ids Let_def)
  moreover have "wf_pool ?pool'" using wf_publish_scan[OF wf k pub] by simp
  moreover have "allocation_result n m pool ?pool' hs"
    using allocation_result_publish[OF wf k pub] allocation_result_generation by auto
  ultimately show ?thesis by (rule that)
qed

lemma AllocateBlocksMarked_result:
  assumes "wf_pool pool" and "AllocateBlocksMarked n m pool = Inr (pool', hs)"
  shows "wf_pool pool' \<and> allocation_result n m pool pool' hs"
proof -
  have k: "BlocksNeeded pool n \<le> AvailableBlocks pool"
    using assms(2) by (auto simp: AllocateBlocksMarked_def Let_def split: if_splits)
  from AllocateBlocksMarked_success[OF assms(1) k, of m] assms(2) show ?thesis
    by (metis Inr_inject prod.inject)
qed

section \<open>Validation\<close>

definition handle_id :: "BlockPool \<Rightarrow> bptr option \<Rightarrow> nat" where
  "handle_id pool handle = block_id (pool_store pool (the handle))"

lemma handle_id_Some: "handle_id pool (Some p) = block_id (pool_store pool p)"
  by (simp add: handle_id_def)

lemma Owns_Some:
  "Owns pool (Some p) \<longleftrightarrow> block_id (pool_store pool p) < pool_capacity pool
     \<and> pool_blocks pool ! block_id (pool_store pool p) = Some p"
  by (simp add: Owns_def)

lemma collect_ids_ok:
  "collect_ids operation pool handles = Inr ids \<longleftrightarrow>
     list_all (Owns pool) handles \<and> ids = map (handle_id pool) handles"
proof (induction handles arbitrary: ids)
  case Nil
  show ?case by auto
next
  case (Cons handle handles)
  show ?case
  proof (cases handle)
    case None
    then show ?thesis by (simp add: Owns_def)
  next
    case (Some p)
    then show ?thesis
      using Cons.IH Cons.IH[of "map (handle_id pool) handles"]
      by (cases "collect_ids operation pool handles") (auto simp: Owns_Some handle_id_Some Let_def)
  qed
qed

lemma remdups_adj_snoc:
  "remdups_adj (ids @ [x]) =
     (if ids \<noteq> [] \<and> last ids = x then remdups_adj ids else remdups_adj ids @ [x])"
  by (induction ids rule: remdups_adj.induct) auto

lemma distinct_remdups_adj_sorted: "sorted (ids :: nat list) \<Longrightarrow> distinct (remdups_adj ids)"
  by (induction ids rule: remdups_adj.induct) auto

lemma sorted_snoc_notin:
  assumes "sorted (ids @ [x :: nat])" and "ids = [] \<or> last ids \<noteq> x"
  shows "x \<notin> set ids"
proof
  assume "x \<in> set ids"
  with assms(2) have ne: "ids \<noteq> []" "last ids \<noteq> x" by auto
  have "last ids \<le> x" using assms(1) ne by (simp add: sorted_append)
  moreover have "x \<le> last ids"
    using assms(1) \<open>x \<in> set ids\<close> ne
    by (metis append_butlast_last_id last_in_set rotate1.simps(2) set_ConsD set_rotate1 sorted_append
        list.set_intros(1) order_refl)
  ultimately show False using ne by simp
qed

lemma occurrences_of_sorted:
  "sorted ids \<Longrightarrow> occurrences_of ids = map (\<lambda>i. (i, count_list ids i)) (remdups_adj ids)"
proof (induction ids rule: rev_induct)
  case Nil
  show ?case by (simp add: occurrences_of_def)
next
  case (snoc x ids)
  have IH: "occurrences_of ids = map (\<lambda>i. (i, count_list ids i)) (remdups_adj ids)"
    using snoc by (simp add: sorted_append)
  have step: "occurrences_of (ids @ [x]) = add_occurrence (occurrences_of ids) x"
    by (simp add: occurrences_of_def)
  show ?case
  proof (cases "ids \<noteq> [] \<and> last ids = x")
    case True
    then have last: "last (remdups_adj ids) = x" and ne: "remdups_adj ids \<noteq> []"
      by auto
    have dist: "distinct (remdups_adj ids)"
      using snoc.prems by (simp add: sorted_append distinct_remdups_adj_sorted)
    obtain ys where ys: "remdups_adj ids = ys @ [x]"
      using last ne by (metis append_butlast_last_id)
    with dist have "x \<notin> set ys" by simp
    then have "map (\<lambda>i. (i, count_list ids i)) ys = map (\<lambda>i. (i, count_list (ids @ [x]) i)) ys"
      by (auto simp: count_list_append)
    then show ?thesis
      using True ys by (simp add: step IH add_occurrence_def remdups_adj_snoc count_list_append)
  next
    case False
    then have notin: "x \<notin> set ids" using sorted_snoc_notin[OF snoc.prems] by blast
    then have "map (\<lambda>i. (i, count_list ids i)) (remdups_adj ids)
        = map (\<lambda>i. (i, count_list (ids @ [x]) i)) (remdups_adj ids)"
      by (auto simp: count_list_append)
    moreover have "occurrences_of ids = [] \<or> fst (last (occurrences_of ids)) \<noteq> x"
      using False IH by (cases "ids = []") (auto simp: last_map)
    ultimately show ?thesis
      using False notin IH
      by (simp add: step add_occurrence_def remdups_adj_snoc count_list_append del: map_eq_conv)
  qed
qed

lemma set_occurrences:
  "set (occurrences_of (sort ids)) = (\<lambda>i. (i, count_list ids i)) ` set ids"
  by (simp add: occurrences_of_sorted)

lemma check_references_ok:
  "check_references operation pool occurrences = Inr () \<longleftrightarrow>
     (\<forall>(i, n) \<in> set occurrences. n \<le> ref_count (slot_block pool i))"
  by (induction operation pool occurrences rule: check_references.induct) auto

lemma slot_block_Owns: "Owns pool (Some p) \<Longrightarrow> slot_block pool (block_id (pool_store pool p)) = pool_store pool p"
  by (simp add: slot_block_def Owns_def)

text \<open>A handle's id occurs as often as the handle itself: owned handles with one id are equal.\<close>

lemma count_list_handle_id:
  assumes "list_all (Owns pool) handles" and "Owns pool (Some p)"
  shows "count_list (map (handle_id pool) handles) (block_id (pool_store pool p))
    = count_list handles (Some p)"
  using assms
proof (induction handles)
  case (Cons h hs)
  have "handle_id pool h = block_id (pool_store pool p) \<longleftrightarrow> h = Some p"
    using Cons.prems by (cases h) (auto simp: handle_id_def Owns_def)
  with Cons show ?case by auto
qed simp

definition freeable :: "bptr option list \<Rightarrow> BlockPool \<Rightarrow> bool" where
  "freeable handles pool \<longleftrightarrow> list_all (Owns pool) handles
     \<and> (\<forall>p. Some p \<in> set handles \<longrightarrow> count_list handles (Some p) \<le> ref_count (pool_store pool p))"

lemma ValidateFree_ok: "ValidateFree handles pool = Inr () \<longleftrightarrow> freeable handles pool"
proof (cases "list_all (Owns pool) handles")
  case False
  then have "\<nexists>ids. collect_ids OpFree pool handles = Inr ids" by (simp add: collect_ids_ok)
  then obtain e where "collect_ids OpFree pool handles = Inl e"
    by (metis sum.exhaust)
  with False show ?thesis by (simp add: ValidateFree_def ValidateOwnership_def freeable_def)
next
  case True
  let ?ids = "map (handle_id pool) handles"
  have ids: "collect_ids OpFree pool handles = Inr ?ids" using True by (simp add: collect_ids_ok)
  have "check_references OpFree pool (occurrences_of (sort ?ids)) = Inr () \<longleftrightarrow>
      (\<forall>h \<in> set handles. count_list ?ids (handle_id pool h) \<le> ref_count (slot_block pool (handle_id pool h)))"
    by (simp add: check_references_ok set_occurrences)
  also have "\<dots> \<longleftrightarrow> (\<forall>h \<in> set handles. count_list handles h \<le> ref_count (pool_store pool (the h)))"
  proof (rule ball_cong[OF refl])
    fix h assume "h \<in> set handles"
    with True have own: "Owns pool h" by (auto simp: list_all_iff)
    then obtain p where h: "h = Some p" by (cases h) (auto simp: Owns_def)
    show "count_list ?ids (handle_id pool h) \<le> ref_count (slot_block pool (handle_id pool h)) \<longleftrightarrow>
        count_list handles h \<le> ref_count (pool_store pool (the h))"
      using own count_list_handle_id[OF True, of p] slot_block_Owns[of pool p]
      by (simp add: h handle_id_def)
  qed
  also have "\<dots> \<longleftrightarrow> freeable handles pool"
    using True by (auto simp: freeable_def list_all_iff Owns_def split: option.splits)
  finally show ?thesis
    by (auto simp: ValidateFree_def ValidateOwnership_def ids Let_def split: sum.splits)
qed


section \<open>The allocation-free check agrees with the validation\<close>

text \<open>What the scratch arrays say has been counted for an id in the current epoch.\<close>

definition counted :: "BlockPool \<Rightarrow> nat \<Rightarrow> nat" where
  "counted pool i =
     (if validation_marks pool ! i = validation_epoch pool then validation_counts pool ! i else 0)"

definition same_blocks :: "BlockPool \<Rightarrow> BlockPool \<Rightarrow> bool" where
  "same_blocks pool pool' \<longleftrightarrow>
     pool_blocks pool' = pool_blocks pool \<and> pool_store pool' = pool_store pool
     \<and> pool_capacity pool' = pool_capacity pool \<and> pool_block_size pool' = pool_block_size pool
     \<and> next_address pool' = next_address pool \<and> reference_observer pool' = reference_observer pool
     \<and> mutation_generation pool' = mutation_generation pool
     \<and> observer_events pool' = observer_events pool"

lemma same_blocks_refl [simp]: "same_blocks pool pool"
  by (simp add: same_blocks_def)

lemma same_blocks_trans: "same_blocks a b \<Longrightarrow> same_blocks b c \<Longrightarrow> same_blocks a c"
  by (simp add: same_blocks_def)

lemma same_blocks_Owns: "same_blocks pool pool' \<Longrightarrow> Owns pool' = Owns pool"
  by (auto simp: same_blocks_def Owns_def fun_eq_iff split: option.splits)

lemma same_blocks_count_handle: "same_blocks pool (count_handle i pool)"
  by (simp add: same_blocks_def count_handle_def Let_def)

lemma validation_epoch_count_handle [simp]:
  "validation_epoch (count_handle i pool) = validation_epoch pool"
  by (simp add: count_handle_def Let_def)

lemma counted_count_handle:
  assumes "i < length (validation_marks pool)" and "i < length (validation_counts pool)"
  shows "counted (count_handle i pool) j = counted pool j + (if j = i then 1 else 0)"
    and "validation_counts (count_handle i pool) ! i = counted pool i + 1"
  using assms by (auto simp: counted_def count_handle_def Let_def nth_list_update)

lemma wf_count_handle:
  assumes "wf_pool pool" shows "wf_pool (count_handle i pool)"
proof -
  have "set (validation_marks (count_handle i pool)) \<subseteq> insert (validation_epoch pool) (set (validation_marks pool))"
    by (auto simp: count_handle_def Let_def dest: set_update_subset_insert[THEN subsetD])
  moreover have "length (validation_marks (count_handle i pool)) = length (validation_marks pool)"
    "length (validation_counts (count_handle i pool)) = length (validation_counts pool)"
    by (simp_all add: count_handle_def Let_def)
  ultimately show ?thesis
    using assms same_blocks_count_handle[of pool i]
    by (auto simp: wf_pool_def wf_slots_def same_blocks_def)
qed

lemma can_free_scan_correct:
  assumes "wf_pool pool"
  shows "wf_pool (fst (can_free_scan hs pool)) \<and> same_blocks pool (fst (can_free_scan hs pool))
    \<and> (snd (can_free_scan hs pool) \<longleftrightarrow> list_all (Owns pool) hs
        \<and> (\<forall>p. Some p \<in> set hs \<longrightarrow>
             counted pool (block_id (pool_store pool p)) + count_list hs (Some p)
               \<le> ref_count (pool_store pool p)))"
  using assms
proof (induction hs arbitrary: pool)
  case Nil
  then show ?case by simp
next
  case (Cons h hs)
  show ?case
  proof (cases "Owns pool h")
    case False
    then have "can_free_scan (h # hs) pool = (pool, False)"
      using wf_pool_lengths[OF Cons.prems] by (auto simp: Owns_def Let_def split: option.splits)
    with False Cons.prems show ?thesis by simp
  next
    case True
    then obtain p where h: "h = Some p" by (cases h) (auto simp: Owns_def)
    define i where "i = block_id (pool_store pool p)"
    have own: "i < pool_capacity pool" "pool_blocks pool ! i = Some p"
      using True h by (simp_all add: Owns_Some i_def)
    let ?pool1 = "count_handle i pool"
    note lens = wf_pool_lengths[OF Cons.prems]
    have counted: "counted ?pool1 j = counted pool j + (if j = i then 1 else 0)" for j
      using own lens by (simp add: counted_count_handle)
    have eq: "can_free_scan (h # hs) pool =
        (if counted pool i + 1 > ref_count (pool_store pool p) then (?pool1, False)
         else can_free_scan hs ?pool1)"
      using own lens h by (simp add: Let_def counted_count_handle flip: i_def)
    have same: "same_blocks pool ?pool1" by (rule same_blocks_count_handle)
    note IH = Cons.IH[OF wf_count_handle[OF Cons.prems, of i]]
    have Owns1: "Owns ?pool1 = Owns pool" using same by (rule same_blocks_Owns)
    have store1: "pool_store ?pool1 = pool_store pool" using same by (simp add: same_blocks_def)
    have other: "block_id (pool_store pool q) = i \<longleftrightarrow> q = p" if "Owns pool (Some q)" for q
      using that own by (auto simp: Owns_Some i_def)
    show ?thesis
    proof (cases "counted pool i + 1 > ref_count (pool_store pool p)")
      case True
      then show ?thesis
        using eq h same wf_count_handle[OF Cons.prems, of i] by (auto simp: i_def)
    next
      case False
      then have step: "can_free_scan (h # hs) pool = can_free_scan hs ?pool1" using eq by simp
      have "snd (can_free_scan hs ?pool1) \<longleftrightarrow> list_all (Owns pool) (h # hs)
          \<and> (\<forall>q. Some q \<in> set (h # hs) \<longrightarrow>
             counted pool (block_id (pool_store pool q)) + count_list (h # hs) (Some q)
               \<le> ref_count (pool_store pool q))" (is "_ \<longleftrightarrow> ?all \<and> ?counts")
      proof (cases "list_all (Owns pool) hs")
        case nall: False
        then show ?thesis using IH Owns1 by simp
      next
        case all: True
        have "Owns pool (Some q)" if "Some q \<in> set hs" for q
          using all that by (auto simp: list_all_iff)
        then show ?thesis
          using IH False \<open>Owns pool h\<close> all other
          by (auto simp: Owns_Some h i_def[symmetric] Owns1 store1 counted count_list_0_iff split: if_splits)
      qed
      then show ?thesis
        using step IH same_blocks_trans[OF same] by simp
    qed
  qed
qed


text \<open>After the epoch has advanced no mark equals it, also when the 64-bit counter wrapped.\<close>

lemma next_epoch_correct:
  assumes "wf_pool pool"
  shows "wf_pool (next_epoch pool)" and "same_blocks pool (next_epoch pool)"
    and "i < pool_capacity pool \<Longrightarrow> counted (next_epoch pool) i = 0"
proof -
  have marks: "\<forall>m \<in> set (validation_marks pool). m \<le> validation_epoch pool"
    using assms by (simp add: wf_pool_def)
  have fresh: "\<forall>m \<in> set (validation_marks pool). m < validation_epoch pool + 1"
    if "validation_epoch pool + 1 \<noteq> 0"
    using marks that word_le_less_Suc by blast
  show "same_blocks pool (next_epoch pool)"
    by (simp add: same_blocks_def next_epoch_def Let_def)
  show "wf_pool (next_epoch pool)"
    using assms fresh by (auto simp: wf_pool_def wf_slots_def next_epoch_def Let_def order_less_imp_le)
  show "counted (next_epoch pool) i = 0" if i: "i < pool_capacity pool"
  proof -
    have mem: "validation_marks pool ! i \<in> set (validation_marks pool)"
      using i wf_pool_lengths[OF assms] by simp
    have "validation_marks pool ! i \<noteq> validation_epoch pool + 1"
      if "validation_epoch pool + 1 \<noteq> 0"
      using fresh[OF that, rule_format, OF mem] by (rule less_imp_neq)
    with i wf_pool_lengths[OF assms] show ?thesis
      by (cases "validation_epoch pool + 1 = 0") (auto simp: counted_def next_epoch_def Let_def)
  qed
qed


lemma CanFreeValidated_correct:
  assumes "wf_pool pool"
  shows "wf_pool (fst (CanFreeValidated hs pool))"
    and "same_blocks pool (fst (CanFreeValidated hs pool))"
    and "snd (CanFreeValidated hs pool) \<longleftrightarrow> freeable hs pool"
proof -
  note epoch = next_epoch_correct[OF assms]
  note scan = can_free_scan_correct[OF epoch(1), of hs]
  show "wf_pool (fst (CanFreeValidated hs pool))"
    using scan by (simp add: CanFreeValidated_def)
  show "same_blocks pool (fst (CanFreeValidated hs pool))"
    using scan same_blocks_trans[OF epoch(2)] by (simp add: CanFreeValidated_def)
  have same: "Owns (next_epoch pool) = Owns pool" "pool_store (next_epoch pool) = pool_store pool"
    using same_blocks_Owns[OF epoch(2)] epoch(2) by (simp_all add: same_blocks_def)
  have "snd (CanFreeValidated hs pool) \<longleftrightarrow> list_all (Owns pool) hs
      \<and> (\<forall>p. Some p \<in> set hs \<longrightarrow>
           counted (next_epoch pool) (block_id (pool_store pool p)) + count_list hs (Some p)
             \<le> ref_count (pool_store pool p))"
    using conjunct2[OF conjunct2[OF scan]] by (simp only: CanFreeValidated_def same)
  also have "\<dots> \<longleftrightarrow> freeable hs pool"
    unfolding freeable_def
    by (rule conj_cong[OF refl]) (auto simp: list_all_iff Owns_Some epoch(3))
  finally show "snd (CanFreeValidated hs pool) \<longleftrightarrow> freeable hs pool" .
qed

section \<open>Reference counting\<close>

text \<open>The ledger is what the pool promises its clients: which ids are allocated, with how many
  references.\<close>

definition ledger :: "BlockPool \<Rightarrow> nat \<Rightarrow> nat option" where
  "ledger pool i =
     (if i < pool_capacity pool
      then map_option (\<lambda>p. ref_count (pool_store pool p)) (pool_blocks pool ! i) else None)"

lemma ledger_same_blocks: "same_blocks pool pool' \<Longrightarrow> ledger pool' = ledger pool"
  by (simp add: same_blocks_def ledger_def fun_eq_iff)

lemma ledger_irrelevant [simp]:
  "ledger (pool\<lparr>mutation_generation := g\<rparr>) = ledger pool"
  "ledger (notify e pool) = ledger pool"
  by (simp_all add: ledger_def notify_def fun_eq_iff)

lemma ledger_Owns:
  "Owns pool (Some p) \<Longrightarrow> ledger pool (block_id (pool_store pool p)) = Some (ref_count (pool_store pool p))"
  by (simp add: ledger_def Owns_Some)

lemma ledger_positive: "wf_pool pool \<Longrightarrow> ledger pool i \<noteq> Some 0"
  by (auto simp: ledger_def wf_block_def dest: wf_pool_slotD(2))

text \<open>Rewriting an owned block with another reference count changes one entry of the ledger.\<close>

lemma ledger_store_update:
  assumes "wf_pool pool" and "Owns pool (Some p)" and "block_id b = block_id (pool_store pool p)"
  shows "ledger (pool\<lparr>pool_store := (pool_store pool)(p := b)\<rparr>)
    = (ledger pool)(block_id b \<mapsto> ref_count b)"
proof (rule ext)
  fix i
  have "pool_blocks pool ! i = Some p \<Longrightarrow> i < pool_capacity pool \<Longrightarrow> i = block_id b"
    using wf_pool_slotD(2)[OF assms(1), of i p] assms(3) by (simp add: wf_block_def)
  then show "ledger (pool\<lparr>pool_store := (pool_store pool)(p := b)\<rparr>) i
      = ((ledger pool)(block_id b \<mapsto> ref_count b)) i"
    using assms(2,3) by (cases "pool_blocks pool ! i") (auto simp: ledger_def Owns_Some)
qed

lemma wf_block_ref_count:
  "wf_block bs i b \<Longrightarrow> 0 < r \<Longrightarrow> wf_block bs i (b\<lparr>ref_count := r\<rparr>)"
  by (simp add: wf_block_def IsFull_def)

lemma Owns_store_update:
  assumes "block_id b = block_id (pool_store pool p)"
  shows "Owns (pool\<lparr>pool_store := (pool_store pool)(p := b)\<rparr>) = Owns pool"
  using assms by (auto simp: Owns_def fun_eq_iff split: option.splits)

lemma Owns_notify [simp]: "Owns (notify e pool) = Owns pool"
  by (auto simp: Owns_def notify_def fun_eq_iff split: option.splits)

lemma add_reference_correct:
  assumes "wf_pool pool" and "Owns pool (Some p)"
  defines "b \<equiv> pool_store pool p"
  shows "wf_pool (add_reference p pool)"
    and "Owns (add_reference p pool) = Owns pool"
    and "ledger (add_reference p pool) = (ledger pool)(block_id b \<mapsto> ref_count b + 1)"
    and "pool_store (add_reference p pool) = (pool_store pool)(p := Block_AddRef b)"
    and "pool_blocks (add_reference p pool) = pool_blocks pool"
proof -
  let ?pool1 = "modify_block p Block_AddRef pool"
  have cases: "add_reference p pool = ?pool1 \<or> (\<exists>e. add_reference p pool = notify e ?pool1)"
    by (auto simp: add_reference_def Let_def split: option.splits)
  have "wf_pool ?pool1"
    using assms(1) by (auto intro!: wf_modify_block wf_block_ref_count simp: Block_AddRef_def)
  moreover have "Owns ?pool1 = Owns pool"
    unfolding modify_block_def by (rule Owns_store_update) (simp add: Block_AddRef_def)
  moreover have "ledger ?pool1 = (ledger pool)(block_id b \<mapsto> ref_count b + 1)"
    using ledger_store_update[OF assms(1,2), of "Block_AddRef b"]
    by (simp add: modify_block_def Block_AddRef_def b_def)
  moreover have "pool_store ?pool1 = (pool_store pool)(p := Block_AddRef b)"
    "pool_blocks ?pool1 = pool_blocks pool"
    by (simp_all add: modify_block_def b_def)
  ultimately show "wf_pool (add_reference p pool)"
    and "Owns (add_reference p pool) = Owns pool"
    and "ledger (add_reference p pool) = (ledger pool)(block_id b \<mapsto> ref_count b + 1)"
    and "pool_store (add_reference p pool) = (pool_store pool)(p := Block_AddRef b)"
    and "pool_blocks (add_reference p pool) = pool_blocks pool"
    using cases by (elim disjE exE; simp)+
qed

text \<open>Dropping one of several references keeps the block; dropping the last one empties its slot.\<close>

lemma drop_reference_correct:
  assumes wf: "wf_pool pool" and own: "Owns pool (Some p)"
  defines "b \<equiv> pool_store pool p"
  obtains pool' freed where "drop_reference p pool = Inr (pool', freed)"
    and "wf_pool pool'" and "freed \<longleftrightarrow> ref_count b = 1"
    and "ledger pool' = (ledger pool)(block_id b := (if ref_count b = 1 then None else Some (ref_count b - 1)))"
    and "\<And>q. Owns pool' (Some q) \<longleftrightarrow> Owns pool (Some q) \<and> (q = p \<longrightarrow> ref_count b \<noteq> 1)"
    and "\<And>q. q \<noteq> p \<Longrightarrow> pool_store pool' q = pool_store pool q"
    and "block_id (pool_store pool' p) = block_id b"
    and "ref_count (pool_store pool' p) = ref_count b - 1"
    and "pool_blocks pool' = (if ref_count b = 1 then (pool_blocks pool)[block_id b := None] else pool_blocks pool)"
proof (cases "ref_count b = 1")
  case True
  let ?pool' = "(modify_block p ClearIdentity (pool\<lparr>pool_store := (pool_store pool)(p := b\<lparr>ref_count := 0\<rparr>)\<rparr>))
      \<lparr>pool_blocks := (pool_blocks pool)[block_id b := None]\<rparr>"
  have i: "block_id b < pool_capacity pool" "pool_blocks pool ! block_id b = Some p"
    using own by (simp_all add: Owns_Some b_def)
  have same_slot: "j = block_id b" if "j < pool_capacity pool" "pool_blocks pool ! j = Some p" for j
    using wf_pool_slotD(2)[OF wf that] by (simp add: wf_block_def b_def)
  have eq: "drop_reference p pool = Inr (?pool', True)"
    using True by (simp add: drop_reference_def ReleaseRef_def Let_def modify_block_def flip: b_def)
  let ?cleared = "pool\<lparr>pool_blocks := (pool_blocks pool)[block_id b := None]\<rparr>"
  have "wf_pool (?cleared\<lparr>pool_store := (pool_store ?cleared)(p := ClearIdentity (b\<lparr>ref_count := 0\<rparr>))\<rparr>)"
    using same_slot wf_pool_lengths(1)[OF wf]
    by (intro wf_pool_store_update[OF wf_pool_clear_slot[OF wf]]) (auto simp: nth_update_None_Some)
  then have "wf_pool ?pool'" by (simp add: modify_block_def wf_pool_def wf_slots_def)
  moreover have "ledger ?pool' = (ledger pool)(block_id b := None)"
  proof (rule ext)
    fix j
    show "ledger ?pool' j = ((ledger pool)(block_id b := None)) j"
      using i same_slot[of j] wf_pool_lengths(1)[OF wf]
      by (cases "pool_blocks pool ! j") (auto simp: ledger_def modify_block_def nth_list_update)
  qed
  moreover have "Owns ?pool' (Some q) \<longleftrightarrow> Owns pool (Some q) \<and> q \<noteq> p" for q
    using i own wf_pool_lengths(1)[OF wf]
    by (auto simp: Owns_Some modify_block_def ClearIdentity_def b_def nth_list_update)
  ultimately show ?thesis
    using True by (intro that[OF eq]) (auto simp: modify_block_def ClearIdentity_def)
next
  case False
  let ?b = "b\<lparr>ref_count := ref_count b - 1\<rparr>"
  let ?pool1 = "pool\<lparr>pool_store := (pool_store pool)(p := ?b)\<rparr>"
  have pos: "1 < ref_count b" using Owns_ref_count[OF wf own] False by (simp add: b_def)
  have "\<exists>pool'. drop_reference p pool = Inr (pool', False) \<and> (pool' = ?pool1 \<or> (\<exists>e. pool' = notify e ?pool1))"
    using pos by (auto simp: drop_reference_def ReleaseRef_def Let_def b_def)
  then obtain pool' where eq: "drop_reference p pool = Inr (pool', False)"
    and pool': "pool' = ?pool1 \<or> (\<exists>e. pool' = notify e ?pool1)" by blast
  have "wf_pool ?pool1"
    using wf_pool_slotD(2)[OF wf] pos
    by (intro wf_pool_store_update[OF wf]) (auto intro!: wf_block_ref_count simp: b_def)
  moreover have "ledger ?pool1 = (ledger pool)(block_id b \<mapsto> ref_count b - 1)"
    using ledger_store_update[OF wf own, of ?b] by (simp add: b_def)
  moreover have "Owns ?pool1 = Owns pool"
    by (rule Owns_store_update) (simp add: b_def)
  moreover have same: "wf_pool pool' = wf_pool ?pool1" "ledger pool' = ledger ?pool1"
    "Owns pool' = Owns ?pool1" "pool_store pool' = pool_store ?pool1" "pool_blocks pool' = pool_blocks ?pool1"
    using pool' by auto
  ultimately show ?thesis
    using False by (intro that[OF eq]) (simp_all only: same, simp_all add: b_def)
qed


text \<open>Freeing subtracts, per id, the number of times the id is listed; an id whose references are
  used up leaves the ledger.\<close>

definition after_free :: "(nat \<Rightarrow> nat option) \<Rightarrow> nat list \<Rightarrow> nat \<Rightarrow> nat option" where
  "after_free L ids i = (case L i of
     None \<Rightarrow> None
   | Some r \<Rightarrow> if r \<le> count_list ids i then None else Some (r - count_list ids i))"

lemma after_free_Nil: "(\<And>i. L i \<noteq> Some 0) \<Longrightarrow> after_free L [] = L"
  by (auto simp: after_free_def fun_eq_iff split: option.splits)

lemma after_free_Cons:
  assumes "L i = Some r"
  shows "after_free (L(i := (if r = 1 then None else Some (r - 1)))) ids = after_free L (i # ids)"
  using assms by (auto simp: after_free_def fun_eq_iff split: option.splits)

lemma free_loop_correct:
  assumes "wf_pool pool" and "freeable hs pool"
  shows "\<exists>pool'. free_loop hs pool = Inr pool' \<and> wf_pool pool'
    \<and> ledger pool' = after_free (ledger pool) (map (handle_id pool) hs)"
  using assms
proof (induction hs arbitrary: pool)
  case Nil
  then show ?case by (simp add: after_free_Nil ledger_positive)
next
  case (Cons h hs)
  from Cons.prems(2) obtain p where h: "h = Some p" and own: "Owns pool (Some p)"
    by (cases h) (auto simp: freeable_def Owns_def)
  define b where "b = pool_store pool p"
  obtain pool1 freed where drop: "drop_reference p pool = Inr (pool1, freed)" and wf1: "wf_pool pool1"
    and "freed \<longleftrightarrow> ref_count b = 1"
    and led: "ledger pool1 = (ledger pool)(block_id b := (if ref_count b = 1 then None else Some (ref_count b - 1)))"
    and own1: "\<And>q. Owns pool1 (Some q) \<longleftrightarrow> Owns pool (Some q) \<and> (q = p \<longrightarrow> ref_count b \<noteq> 1)"
    and other: "\<And>q. q \<noteq> p \<Longrightarrow> pool_store pool1 q = pool_store pool q"
    and bid: "block_id (pool_store pool1 p) = block_id b"
    and ref: "ref_count (pool_store pool1 p) = ref_count b - 1"
    and "pool_blocks pool1 = (if ref_count b = 1 then (pool_blocks pool)[block_id b := None] else pool_blocks pool)"
    by (rule drop_reference_correct[OF Cons.prems(1) own, folded b_def], rule that)
  have "block_id (pool_store pool1 q) = block_id (pool_store pool q)" for q
    using other[of q] bid by (cases "q = p") (simp_all add: b_def)
  then have ids: "handle_id pool1 = handle_id pool"
    by (simp add: handle_id_def fun_eq_iff)
  have count: "count_list hs (Some p) < ref_count b"
    using Cons.prems(2) h by (auto simp: freeable_def b_def)
  have all: "Owns pool q" if "q \<in> set hs" for q
    using Cons.prems(2) that by (auto simp: freeable_def list_all_iff)
  have "freeable hs pool1"
    unfolding freeable_def list_all_iff
  proof (intro conjI allI impI ballI)
    fix q assume q: "q \<in> set hs"
    obtain q' where q': "q = Some q'" using all[OF q] by (cases q) (auto simp: Owns_def)
    have "ref_count b \<noteq> 1" if "q' = p"
      using count that q q' by (metis count_list_0_iff less_one)
    with all[OF q] q' own1 show "Owns pool1 q" by simp
  next
    fix q assume q: "Some q \<in> set hs"
    show "count_list hs (Some q) \<le> ref_count (pool_store pool1 q)"
    proof (cases "q = p")
      case True
      with count ref show ?thesis by simp
    next
      case False
      with Cons.prems(2) q h other show ?thesis by (force simp: freeable_def)
    qed
  qed
  from Cons.IH[OF wf1 this] obtain pool' where "free_loop hs pool1 = Inr pool'" and "wf_pool pool'"
    and "ledger pool' = after_free (ledger pool1) (map (handle_id pool) hs)"
    by (auto simp: ids)
  moreover have "ledger pool (block_id b) = Some (ref_count b)"
    using ledger_Owns[OF own] by (simp add: b_def)
  ultimately show ?case
    using h drop led after_free_Cons[of "ledger pool" "block_id b" "ref_count b"]
    by (simp add: handle_id_Some b_def)
qed

text \<open>\<open>Free\<close> either reports the ownership error it found, leaving the pool as it was, or frees exactly
  the listed references. In particular the guard that would terminate the process is never reached
  after a successful validation.\<close>

lemma Free_correct:
  assumes "wf_pool pool"
  shows "Free hs pool = Inr pool' \<Longrightarrow>
      wf_pool pool' \<and> ledger pool' = after_free (ledger pool) (map (handle_id pool) hs)"
    and "freeable hs pool \<Longrightarrow> \<exists>pool'. Free hs pool = Inr pool'"
    and "Free hs pool \<noteq> Inl Terminated"
proof -
  obtain pool1 where can: "CanFreeValidated hs pool = (pool1, freeable hs pool)"
    and wf1: "wf_pool pool1" and same: "same_blocks pool pool1"
    using CanFreeValidated_correct[OF assms, of hs] by (cases "CanFreeValidated hs pool") auto
  have free1: "freeable hs pool1 = freeable hs pool"
    using same same_blocks_Owns[OF same] by (simp add: freeable_def same_blocks_def)
  have ids: "handle_id pool1 = handle_id pool"
    using same by (simp add: handle_id_def same_blocks_def fun_eq_iff)
  have main: "\<exists>pool'. Free hs pool = Inr pool' \<and> wf_pool pool'
      \<and> ledger pool' = after_free (ledger pool) (map (handle_id pool) hs)" if fr: "freeable hs pool"
  proof -
    have validated: "ValidateFree hs pool = Inr ()" using fr by (simp add: ValidateFree_ok)
    obtain pool2 where loop: "free_loop hs pool1 = Inr pool2" and wf2: "wf_pool pool2"
      and led: "ledger pool2 = after_free (ledger pool1) (map (handle_id pool) hs)"
      using free_loop_correct[OF wf1, of hs] fr free1 ids ledger_same_blocks[OF same] by auto
    have "Free hs pool = Inr (if hs \<noteq> [] then pool2\<lparr>mutation_generation := mutation_generation pool2 + 1\<rparr>
        else pool2)"
      using fr by (simp add: Free_def validated FreeValidated_def can loop)
    with wf2 led ledger_same_blocks[OF same] show ?thesis by auto
  qed
  have fail: "\<exists>e. Free hs pool = Inl e \<and> ValidateFree hs pool = Inl e" if "\<not> freeable hs pool"
    using that ValidateFree_ok[of hs pool]
    by (cases "ValidateFree hs pool") (auto simp: Free_def)
  show "wf_pool pool' \<and> ledger pool' = after_free (ledger pool) (map (handle_id pool) hs)"
    if "Free hs pool = Inr pool'"
    using main fail that by (cases "freeable hs pool") auto
  show "\<exists>pool'. Free hs pool = Inr pool'" if "freeable hs pool"
    using main that by blast
  have never: "ValidateFree hs pool \<noteq> Inl Terminated"
  proof -
    have "collect_ids op pool hs \<noteq> Inl Terminated" for op
      by (induction hs) (auto simp: Let_def split: option.splits sum.splits)
    moreover have "check_references op pool occs \<noteq> Inl Terminated" for op occs
      by (induction op pool occs rule: check_references.induct) auto
    ultimately show ?thesis
      by (auto simp: ValidateFree_def ValidateOwnership_def Let_def split: sum.splits)
  qed
  then show "Free hs pool \<noteq> Inl Terminated"
    using main fail by (cases "freeable hs pool") auto
qed

end
