(* ===== verification/Block_Ledger.thy ===== *)
theory Block_Ledger
  imports Block_Pool
begin

text \<open>
  The contract of the block pool towards its clients, over the definitions of \<open>Block_Pool\<close>: what taking
  and dropping references does to the ledger, the round trips between the operations, and the
  invariant of every pool that the operations can reach.
\<close>

section \<open>One reference at a time\<close>

lemma Owns_not_null: "Owns pool h \<Longrightarrow> \<exists>p. h = Some p"
  by (cases h) (simp_all add: Owns_def)

lemma AddRef_correct:
  assumes wf: "wf_pool pool" and own: "Owns pool h"
  obtains pool' where "AddRef h pool = Inr pool'" and "wf_pool pool'" and "Owns pool' = Owns pool"
    and "handle_id pool' = handle_id pool"
    and "ledger pool' = (ledger pool)(handle_id pool h \<mapsto> Suc (ref_count (pool_store pool (the h))))"
proof -
  obtain p where h: "h = Some p" using own by (cases h) (auto simp: Owns_def)
  have "handle_id (add_reference p pool) = handle_id pool"
    using add_reference_correct(4)[OF wf own[unfolded h]]
    by (auto simp: handle_id_def fun_eq_iff Block_AddRef_def)
  with add_reference_correct[OF wf own[unfolded h]] that[of "add_reference p pool"] own h
  show ?thesis by (simp add: AddRef_def handle_id_def)
qed

lemma Release_correct:
  assumes wf: "wf_pool pool" and own: "Owns pool h"
  defines "r \<equiv> ref_count (pool_store pool (the h))"
  obtains pool' where "Release h pool = Inr pool'" and "wf_pool pool'"
    and "Owns pool' h \<longleftrightarrow> r \<noteq> 1" and "handle_id pool' = handle_id pool"
    and "ledger pool' = (ledger pool)(handle_id pool h := (if r = 1 then None else Some (r - 1)))"
proof -
  obtain p where h: "h = Some p" using own by (cases h) (auto simp: Owns_def)
  obtain pool1 freed where drop: "drop_reference p pool = Inr (pool1, freed)"
    and wf1: "wf_pool pool1" and "freed \<longleftrightarrow> ref_count (pool_store pool p) = 1"
    and led: "ledger pool1 = (ledger pool)(block_id (pool_store pool p) :=
       (if ref_count (pool_store pool p) = 1 then None else Some (ref_count (pool_store pool p) - 1)))"
    and own1: "\<And>q. Owns pool1 (Some q) \<longleftrightarrow> Owns pool (Some q) \<and> (q = p \<longrightarrow> ref_count (pool_store pool p) \<noteq> 1)"
    and other: "\<And>q. q \<noteq> p \<Longrightarrow> pool_store pool1 q = pool_store pool q"
    and bid: "block_id (pool_store pool1 p) = block_id (pool_store pool p)"
    and "ref_count (pool_store pool1 p) = ref_count (pool_store pool p) - 1"
    and "pool_blocks pool1 = (if ref_count (pool_store pool p) = 1
       then (pool_blocks pool)[block_id (pool_store pool p) := None] else pool_blocks pool)"
    by (rule drop_reference_correct[OF wf own[unfolded h]], rule that)
  let ?pool' = "if freed then pool1\<lparr>mutation_generation := mutation_generation pool1 + 1\<rparr> else pool1"
  have "block_id (pool_store pool1 q) = block_id (pool_store pool q)" for q
    using other[of q] bid by (cases "q = p") simp_all
  then have "handle_id ?pool' = handle_id pool" by (simp add: handle_id_def fun_eq_iff)
  moreover have "Owns ?pool' = Owns pool1" by (auto simp: Owns_def fun_eq_iff split: option.splits)
  moreover have "Release h pool = Inr ?pool'" using own h drop by (simp add: Release_def)
  ultimately show ?thesis
    using wf1 led own1 own h by (intro that[of ?pool']) (simp_all add: r_def handle_id_def)
qed

subsection \<open>The contract as an interface\<close>

text \<open>A reference-counted resource: a handle that is owned has an entry with a positive count under its
  key; acquiring adds one, releasing takes one away, and the last release ends ownership.\<close>

locale counted_references =
  fixes invar :: "'p \<Rightarrow> bool"
    and owns :: "'p \<Rightarrow> 'h \<Rightarrow> bool"
    and key :: "'p \<Rightarrow> 'h \<Rightarrow> nat"
    and counts :: "'p \<Rightarrow> nat \<Rightarrow> nat option"
    and acquire :: "'h \<Rightarrow> 'p \<Rightarrow> 'e + 'p"
    and release :: "'h \<Rightarrow> 'p \<Rightarrow> 'e + 'p"
  assumes owned_count: "invar s \<Longrightarrow> owns s h \<Longrightarrow> \<exists>n. counts s (key s h) = Some (Suc n)"
    and acquire_owned: "invar s \<Longrightarrow> owns s h \<Longrightarrow> counts s (key s h) = Some n \<Longrightarrow>
      \<exists>s'. acquire h s = Inr s' \<and> invar s' \<and> owns s' h \<and> key s' h = key s h
        \<and> counts s' = (counts s)(key s h \<mapsto> Suc n)"
    and release_shared: "invar s \<Longrightarrow> owns s h \<Longrightarrow> counts s (key s h) = Some (Suc (Suc n)) \<Longrightarrow>
      \<exists>s'. release h s = Inr s' \<and> invar s' \<and> owns s' h \<and> key s' h = key s h
        \<and> counts s' = (counts s)(key s h \<mapsto> Suc n)"
    and release_last: "invar s \<Longrightarrow> owns s h \<Longrightarrow> counts s (key s h) = Some 1 \<Longrightarrow>
      \<exists>s'. release h s = Inr s' \<and> invar s' \<and> \<not> owns s' h \<and> counts s' = (counts s)(key s h := None)"
    and release_unowned: "\<not> owns s h \<Longrightarrow> \<exists>e. release h s = Inl e"
begin

lemma acquire_repeat:
  assumes "invar s" and "owns s h" and "counts s (key s h) = Some n"
  shows "\<exists>s'. repeat_result k (acquire h) s = Inr s' \<and> invar s' \<and> owns s' h \<and> key s' h = key s h
    \<and> counts s' = (counts s)(key s h \<mapsto> n + k)"
  using assms
proof (induction k arbitrary: s n)
  case 0
  then show ?case by (auto simp: fun_eq_iff)
next
  case (Suc k)
  from acquire_owned[OF Suc.prems] obtain s1 where s1: "acquire h s = Inr s1" "invar s1" "owns s1 h"
    "key s1 h = key s h" "counts s1 = (counts s)(key s h \<mapsto> Suc n)" by blast
  with Suc.IH[of s1 "Suc n"] show ?case by (simp add: fun_eq_iff) metis
qed

lemma release_repeat:
  assumes "invar s" and "owns s h" and "counts s (key s h) = Some (Suc n + k)"
  shows "\<exists>s'. repeat_result k (release h) s = Inr s' \<and> invar s' \<and> owns s' h \<and> key s' h = key s h
    \<and> counts s' = (counts s)(key s h \<mapsto> Suc n)"
  using assms
proof (induction k arbitrary: s)
  case 0
  then show ?case by (auto simp: fun_eq_iff)
next
  case (Suc k)
  from release_shared[OF Suc.prems(1,2), of "n + k"] Suc.prems(3) obtain s1
    where s1: "release h s = Inr s1" "invar s1" "owns s1 h" "key s1 h = key s h"
      "counts s1 = (counts s)(key s h \<mapsto> Suc (n + k))" by auto
  with Suc.IH[of s1] show ?case by (simp add: fun_eq_iff) metis
qed

text \<open>References that were taken can be given back, and the counts are what they were.\<close>

lemma acquire_release:
  assumes "invar s" and "owns s h"
  shows "\<exists>s1 s2. repeat_result k (acquire h) s = Inr s1 \<and> repeat_result k (release h) s1 = Inr s2
    \<and> invar s2 \<and> owns s2 h \<and> counts s2 = counts s"
proof -
  from owned_count[OF assms] obtain n where n: "counts s (key s h) = Some (Suc n)" by blast
  from acquire_repeat[OF assms n] obtain s1 where s1: "repeat_result k (acquire h) s = Inr s1"
    "invar s1" "owns s1 h" "key s1 h = key s h" "counts s1 = (counts s)(key s h \<mapsto> Suc n + k)" by blast
  from release_repeat[OF s1(2,3), of n k] s1(4,5) obtain s2
    where "repeat_result k (release h) s1 = Inr s2" "invar s2" "owns s2 h"
      "counts s2 = (counts s1)(key s h \<mapsto> Suc n)" by auto
  with s1 n show ?thesis by (auto simp: fun_eq_iff)
qed

text \<open>As many releases as there are references end ownership, and one more is an error.\<close>

lemma drain:
  assumes "invar s" and "owns s h" and "counts s (key s h) = Some (Suc n)"
  shows "\<exists>s'. repeat_result (Suc n) (release h) s = Inr s' \<and> invar s' \<and> \<not> owns s' h
    \<and> counts s' = (counts s)(key s h := None) \<and> (\<exists>e. release h s' = Inl e)"
  using assms
proof (induction n arbitrary: s)
  case 0
  from release_last[OF 0(1,2)] 0(3) release_unowned show ?case by auto
next
  case (Suc n)
  from release_shared[OF Suc.prems] obtain s1 where s1: "release h s = Inr s1" "invar s1" "owns s1 h"
    "key s1 h = key s h" "counts s1 = (counts s)(key s h \<mapsto> Suc n)" by blast
  have "counts s1 (key s1 h) = Some (Suc n)" using s1 by simp
  from Suc.IH[OF s1(2,3) this] obtain s' where s': "repeat_result (Suc n) (release h) s1 = Inr s'" "invar s'"
    "\<not> owns s' h" "counts s' = (counts s1)(key s1 h := None)" "\<exists>e. release h s' = Inl e" by blast
  moreover have "counts s' = (counts s)(key s h := None)" using s1 s' by (simp add: fun_eq_iff)
  moreover have "repeat_result (Suc (Suc n)) (release h) s = Inr s'"
    using s1(1) s'(1) by (simp only: repeat_result.simps(2)[of "Suc n"] bind_result_simps)
  ultimately show ?case by blast
qed

end

interpretation pool_references: counted_references wf_pool Owns handle_id ledger AddRef Release
proof
  fix pool :: BlockPool and h n
  show "\<exists>n. ledger pool (handle_id pool h) = Some (Suc n)" if wf: "wf_pool pool" and own: "Owns pool h"
  proof -
    obtain p where h: "h = Some p" using own by (cases h) (auto simp: Owns_def)
    with wf own Owns_ref_count[of pool p] ledger_Owns[of pool p] show ?thesis
      by (cases "ref_count (pool_store pool p)") (auto simp: handle_id_def)
  qed
  have count: "ref_count (pool_store pool (the h)) = m"
    if "Owns pool h" "ledger pool (handle_id pool h) = Some m" for m
    using that ledger_Owns[of pool "the h"] by (cases h) (auto simp: Owns_def handle_id_def)
  show "\<exists>s'. AddRef h pool = Inr s' \<and> wf_pool s' \<and> Owns s' h \<and> handle_id s' h = handle_id pool h
      \<and> ledger s' = (ledger pool)(handle_id pool h \<mapsto> Suc n)"
    if "wf_pool pool" "Owns pool h" "ledger pool (handle_id pool h) = Some n"
    by (rule AddRef_correct[OF that(1,2)]) (use count[OF that(2,3)] that(2) in auto)
  show "\<exists>s'. Release h pool = Inr s' \<and> wf_pool s' \<and> Owns s' h \<and> handle_id s' h = handle_id pool h
      \<and> ledger s' = (ledger pool)(handle_id pool h \<mapsto> Suc n)"
    if "wf_pool pool" "Owns pool h" "ledger pool (handle_id pool h) = Some (Suc (Suc n))"
    by (rule Release_correct[OF that(1,2)]) (use count[OF that(2,3)] in auto)
  show "\<exists>s'. Release h pool = Inr s' \<and> wf_pool s' \<and> \<not> Owns s' h
      \<and> ledger s' = (ledger pool)(handle_id pool h := None)"
    if "wf_pool pool" "Owns pool h" "ledger pool (handle_id pool h) = Some 1"
    by (rule Release_correct[OF that(1,2)]) (use count[OF that(2,3)] in auto)
  show "\<exists>e. Release h pool = Inl e" if "\<not> Owns pool h"
    using that by (cases h) (auto simp: Release_def)
qed

section \<open>Several references at once\<close>

text \<open>The ledger after one reference was added for every listed id.\<close>

definition after_add :: "(nat \<Rightarrow> nat option) \<Rightarrow> nat list \<Rightarrow> nat \<Rightarrow> nat option" where
  "after_add L ids i = map_option (\<lambda>r. r + count_list ids i) (L i)"

lemma after_free_add: "(\<And>i. L i \<noteq> Some 0) \<Longrightarrow> after_free (after_add L ids) ids = L"
  by (auto simp: after_free_def after_add_def fun_eq_iff split: option.splits)

text \<open>What adding references keeps: addresses, ownership and ids.\<close>

definition same_handles :: "BlockPool \<Rightarrow> BlockPool \<Rightarrow> bool" where
  "same_handles pool pool' \<longleftrightarrow> wf_pool pool' \<and> Owns pool' = Owns pool
     \<and> handle_id pool' = handle_id pool \<and> pool_blocks pool' = pool_blocks pool
     \<and> pool_capacity pool' = pool_capacity pool \<and> pool_block_size pool' = pool_block_size pool"

lemma add_reference_same_handles:
  assumes "wf_pool pool" and "Owns pool (Some p)"
  shows "same_handles pool (add_reference p pool)"
  using add_reference_correct[OF assms]
  by (auto simp: same_handles_def handle_id_def fun_eq_iff Block_AddRef_def add_reference_def
      modify_block_def notify_def Let_def split: option.splits)

lemma add_reference_times_correct:
  assumes "wf_pool pool" and "Owns pool (Some p)"
  shows "same_handles pool (add_reference_times n p pool)
    \<and> ledger (add_reference_times n p pool)
        = (ledger pool)(block_id (pool_store pool p) \<mapsto> ref_count (pool_store pool p) + n)"
  using assms
proof (induction n arbitrary: pool)
  case 0
  then show ?case using ledger_Owns[of pool p] by (auto simp: same_handles_def fun_eq_iff)
next
  case (Suc n)
  let ?q = "add_reference p pool"
  have q: "same_handles pool ?q" using add_reference_same_handles[OF Suc.prems] .
  then have "wf_pool ?q" "Owns ?q (Some p)" using Suc.prems by (simp_all add: same_handles_def)
  from Suc.IH[OF this] q add_reference_correct[OF Suc.prems] show ?case
    by (auto simp: same_handles_def Block_AddRef_def fun_eq_iff)
qed

lemma add_occurrence_references_correct:
  assumes "wf_pool pool" and "distinct (map fst occs)"
    and "\<And>i n. (i, n) \<in> set occs \<Longrightarrow> \<exists>p. Owns pool (Some p) \<and> block_id (pool_store pool p) = i"
  shows "same_handles pool (add_occurrence_references occs pool)
    \<and> ledger (add_occurrence_references occs pool)
        = (\<lambda>i. map_option (\<lambda>r. r + (case map_of occs i of None \<Rightarrow> 0 | Some n \<Rightarrow> n)) (ledger pool i))"
  using assms
proof (induction occs arbitrary: pool)
  case Nil
  then show ?case by (simp add: same_handles_def option.map_ident)
next
  case (Cons o1 occs)
  obtain i n where o1: "o1 = (i, n)" by fastforce
  from Cons.prems(3)[of i n] o1 obtain p where own: "Owns pool (Some p)"
    and bid: "block_id (pool_store pool p) = i" by auto
  let ?q = "add_reference_times n p pool"
  have slot: "pool_blocks pool ! i = Some p" using own bid by (simp add: Owns_Some)
  have q: "same_handles pool ?q"
    and led: "ledger ?q = (ledger pool)(i \<mapsto> ref_count (pool_store pool p) + n)"
    using add_reference_times_correct[OF Cons.prems(1) own, of n] bid by auto
  have ids: "block_id (pool_store ?q p') = block_id (pool_store pool p')" for p'
    using q unfolding same_handles_def handle_id_def fun_eq_iff by (metis option.sel)
  have "\<exists>p. Owns ?q (Some p) \<and> block_id (pool_store ?q p) = j" if "(j, m) \<in> set occs" for j m
    using Cons.prems(3)[of j m] that q ids by (auto simp: same_handles_def)
  with Cons.IH[of ?q] Cons.prems(2) o1 q have
    IH: "same_handles ?q (add_occurrence_references occs ?q)"
    "ledger (add_occurrence_references occs ?q)
        = (\<lambda>i. map_option (\<lambda>r. r + (case map_of occs i of None \<Rightarrow> 0 | Some n \<Rightarrow> n)) (ledger ?q i))"
    by (auto simp: same_handles_def)
  have fresh: "map_of occs i = None"
    using Cons.prems(2) o1 by (simp add: map_of_eq_None_iff)
  have "ledger pool i = Some (ref_count (pool_store pool p))"
    using ledger_Owns[OF own] bid by simp
  with IH(2) led fresh o1 slot
  have "ledger (add_occurrence_references (o1 # occs) pool)
      = (\<lambda>j. map_option (\<lambda>r. r + (case map_of (o1 # occs) j of None \<Rightarrow> 0 | Some n \<Rightarrow> n)) (ledger pool j))"
    by (auto simp: fun_eq_iff)
  with IH(1) q o1 slot show ?case by (auto simp: same_handles_def)
qed

lemma AddRefs_correct:
  assumes wf: "wf_pool pool" and own: "list_all (Owns pool) hs"
  obtains pool' where "AddRefs hs pool = Inr pool'" and "same_handles pool pool'"
    and "ledger pool' = after_add (ledger pool) (map (handle_id pool) hs)"
proof -
  let ?ids = "map (handle_id pool) hs"
  let ?occs = "occurrences_of (sort ?ids)"
  have occs: "?occs = map (\<lambda>i. (i, count_list ?ids i)) (remdups_adj (sort ?ids))"
    by (simp add: occurrences_of_sorted)
  have "collect_ids OpAddReference pool hs = Inr ?ids" using own by (simp add: collect_ids_ok)
  then have eq: "AddRefs hs pool = Inr (add_occurrence_references ?occs pool)"
    by (simp add: AddRefs_def ValidateOwnership_def Let_def)
  have dist: "distinct (map fst ?occs)"
    by (simp add: occs o_def distinct_remdups_adj_sorted)
  have owned: "\<exists>p. Owns pool (Some p) \<and> block_id (pool_store pool p) = i" if "(i, n) \<in> set ?occs" for i n
  proof -
    from that obtain h where "h \<in> set hs" "i = handle_id pool h" by (auto simp: set_occurrences)
    moreover from this own obtain p where "h = Some p"
      using Owns_not_null[of pool h] by (auto simp: list_all_iff)
    ultimately show ?thesis using own by (intro exI[of _ p]) (auto simp: list_all_iff handle_id_def)
  qed
  have look: "(case map_of ?occs i of None \<Rightarrow> 0 | Some n \<Rightarrow> n) = count_list ?ids i" for i
  proof (cases "i \<in> set ?ids")
    case True
    then have "(i, count_list ?ids i) \<in> set ?occs" by (auto simp: set_occurrences)
    then show ?thesis using dist by simp
  next
    case False
    then have "map_of ?occs i = None" by (auto simp: map_of_eq_None_iff set_occurrences)
    with False show ?thesis by (simp add: count_list_0_iff)
  qed
  from add_occurrence_references_correct[OF wf dist owned]
  have "same_handles pool (add_occurrence_references ?occs pool)"
    "ledger (add_occurrence_references ?occs pool) = after_add (ledger pool) ?ids"
    unfolding look by (auto simp: after_add_def fun_eq_iff)
  with eq that show ?thesis by blast
qed

lemma AddRefs_unowned:
  "\<not> list_all (Owns pool) hs \<Longrightarrow> \<exists>e. AddRefs hs pool = Inl e"
  using collect_ids_ok[of OpAddReference pool hs]
  by (cases "collect_ids OpAddReference pool hs") (auto simp: AddRefs_def ValidateOwnership_def)

section \<open>Rolling back a reservation\<close>

lemma rollback_loop_frame:
  assumes "rollback_loop hs pool r = (pool', r')"
  shows "pool' = pool\<lparr>pool_blocks := pool_blocks pool'\<rparr>"
  using assms
proof (induction hs arbitrary: pool r)
  case (Cons h hs)
  show ?case
  proof (cases h)
    case None
    with Cons show ?thesis by simp
  next
    case (Some p)
    show ?thesis
      using Cons.prems Cons.IH[of pool r] Cons.IH[of "pool\<lparr>pool_blocks := (pool_blocks pool)[_ := None]\<rparr>" True]
      by (auto simp: Some Let_def split: if_splits)
  qed
qed simp

lemma rollback_loop_slots:
  assumes "rollback_loop hs pool r = (pool', r')" and "wf_pool pool"
  shows "wf_pool pool' \<and> (\<forall>i < pool_capacity pool. pool_blocks pool' ! i
    = (if pool_blocks pool ! i \<in> set hs then None else pool_blocks pool ! i))"
  using assms
proof (induction hs arbitrary: pool r)
  case (Cons h hs)
  show ?case
  proof (cases "Owns pool h")
    case True
    then obtain p where h: "h = Some p" by (cases h) (auto simp: Owns_def)
    let ?q = "pool\<lparr>pool_blocks := (pool_blocks pool)[block_id (pool_store pool p) := None]\<rparr>"
    have run: "rollback_loop hs ?q True = (pool', r')"
      using Cons.prems True h wf_pool_lengths(1)[OF Cons.prems(2)]
      by (auto simp: Owns_Some Let_def split: if_splits)
    have IH: "wf_pool pool'" "i < pool_capacity pool \<Longrightarrow> pool_blocks pool' ! i
        = (if pool_blocks ?q ! i \<in> set hs then None else pool_blocks ?q ! i)" for i
      using Cons.IH[OF run wf_pool_clear_slot[OF Cons.prems(2)]] by simp_all
    have "pool_blocks pool' ! i = (if pool_blocks pool ! i \<in> set (h # hs) then None else pool_blocks pool ! i)"
      if i: "i < pool_capacity pool" for i
    proof (cases "i = block_id (pool_store pool p)")
      case this_slot: True
      with True h i IH(2)[OF i] wf_pool_lengths(1)[OF Cons.prems(2)] show ?thesis by (simp add: Owns_Some)
    next
      case False
      then have "pool_blocks pool ! i \<noteq> Some p"
        using wf_pool_slotD(2)[OF Cons.prems(2) i] by (auto simp: wf_block_def)
      with False h IH(2)[OF i] show ?thesis by simp
    qed
    with IH(1) show ?thesis by blast
  next
    case False
    have run: "rollback_loop hs pool r = (pool', r')"
      using Cons.prems False wf_pool_lengths(1)[OF Cons.prems(2)]
      by (auto simp: Owns_def Let_def split: option.splits if_splits)
    have "pool_blocks pool ! i \<noteq> h \<or> pool_blocks pool ! i = None" if "i < pool_capacity pool" for i
      using False wf_pool_slotD(2)[OF Cons.prems(2) that] that
      by (cases "pool_blocks pool ! i") (auto simp: Owns_def wf_block_def split: option.splits)
    then show ?thesis using Cons.IH[OF run Cons.prems(2)] by fastforce
  qed
qed simp

lemma RollbackReservedBlocks_correct:
  assumes "wf_pool pool"
  shows "wf_pool (RollbackReservedBlocks hs pool)"
    and "i < pool_capacity pool \<Longrightarrow> pool_blocks (RollbackReservedBlocks hs pool) ! i
      = (if pool_blocks pool ! i \<in> set hs then None else pool_blocks pool ! i)"
    and "pool_store (RollbackReservedBlocks hs pool) = pool_store pool"
    and "pool_capacity (RollbackReservedBlocks hs pool) = pool_capacity pool"
    and "pool_block_size (RollbackReservedBlocks hs pool) = pool_block_size pool"
proof -
  obtain pool' r where loop: "rollback_loop hs pool False = (pool', r)" by fastforce
  note slots = rollback_loop_slots[OF loop assms]
  have frame: "pool_store pool' = pool_store pool" "pool_capacity pool' = pool_capacity pool"
    "pool_block_size pool' = pool_block_size pool"
    by (subst rollback_loop_frame[OF loop], simp)+
  show "wf_pool (RollbackReservedBlocks hs pool)"
    and "i < pool_capacity pool \<Longrightarrow> pool_blocks (RollbackReservedBlocks hs pool) ! i
      = (if pool_blocks pool ! i \<in> set hs then None else pool_blocks pool ! i)"
    and "pool_store (RollbackReservedBlocks hs pool) = pool_store pool"
    and "pool_capacity (RollbackReservedBlocks hs pool) = pool_capacity pool"
    and "pool_block_size (RollbackReservedBlocks hs pool) = pool_block_size pool"
    using slots frame by (auto simp: RollbackReservedBlocks_def loop)
qed

section \<open>Reachable pools\<close>

text \<open>Every operation of the pool, and every operation of a block that a client reaches through an owned
  handle, as one step.\<close>

definition put_block :: "bptr \<Rightarrow> Block \<Rightarrow> BlockPool \<Rightarrow> BlockPool" where
  "put_block p b pool = pool\<lparr>pool_store := (pool_store pool)(p := b)\<rparr>"

inductive pool_step :: "BlockPool \<Rightarrow> BlockPool \<Rightarrow> bool" where
  step_allocate: "AllocateBlocks n pool = Inr (pool', hs) \<Longrightarrow> pool_step pool pool'"
| step_reserve: "ReserveBlocks n pool = Inr (pool', hs) \<Longrightarrow> pool_step pool pool'"
| step_add_ref: "AddRef h pool = Inr pool' \<Longrightarrow> pool_step pool pool'"
| step_add_refs: "AddRefs hs pool = Inr pool' \<Longrightarrow> pool_step pool pool'"
| step_release: "Release h pool = Inr pool' \<Longrightarrow> pool_step pool pool'"
| step_free: "Free hs pool = Inr pool' \<Longrightarrow> pool_step pool pool'"
| step_can_free: "CanFreeValidated hs pool = (pool', ok) \<Longrightarrow> pool_step pool pool'"
| step_rollback: "pool_step pool (RollbackReservedBlocks hs pool)"
| step_observer: "SetReferenceObserver ob pool = Inr pool' \<Longrightarrow> pool_step pool pool'"
| step_set_cookie: "SetReferenceObserverCookie h c pool = Inr pool' \<Longrightarrow> pool_step pool pool'"
| step_clear_cookie: "ClearReferenceObserverCookie h pool = Inr pool' \<Longrightarrow> pool_step pool pool'"
| step_add_slots: "Owns pool (Some p) \<Longrightarrow> AddSlots k (pool_store pool p) = Inr b \<Longrightarrow>
    pool_step pool (put_block p b pool)"
| step_set_identity: "Owns pool (Some p) \<Longrightarrow> SetIdentity i (pool_store pool p) = Inr b \<Longrightarrow>
    pool_step pool (put_block p b pool)"
| step_clear_identity: "Owns pool (Some p) \<Longrightarrow>
    pool_step pool (put_block p (ClearIdentity (pool_store pool p)) pool)"

text \<open>The invariant together with the two constants of a pool.\<close>

definition pool_inv :: "nat \<Rightarrow> nat \<Rightarrow> BlockPool \<Rightarrow> bool" where
  "pool_inv block_size n pool \<longleftrightarrow>
     wf_pool pool \<and> pool_block_size pool = block_size \<and> pool_capacity pool = n"

lemma pool_inv_put_block:
  assumes "pool_inv bs n pool" and "Owns pool (Some p)"
    and "wf_block bs (block_id (pool_store pool p)) b"
  shows "pool_inv bs n (put_block p b pool)"
proof -
  have "i = block_id (pool_store pool p)" if "i < pool_capacity pool" "pool_blocks pool ! i = Some p" for i
    using wf_pool_slotD(2)[of pool i p] that assms(1) by (simp add: pool_inv_def wf_block_def)
  with assms show ?thesis
    by (auto simp: pool_inv_def put_block_def intro!: wf_pool_store_update)
qed

lemma owned_wf_block:
  assumes "pool_inv bs n pool" and "Owns pool (Some p)"
  shows "wf_block bs (block_id (pool_store pool p)) (pool_store pool p)"
  using assms wf_pool_slotD(2)[of pool "block_id (pool_store pool p)" p]
  by (auto simp: pool_inv_def Owns_Some)

lemma pool_inv_allocate:
  assumes "pool_inv bs n pool" and "AllocateBlocksMarked k m pool = Inr (pool', hs)"
  shows "pool_inv bs n pool'"
proof -
  obtain pool1 where pub: "publish_blocks (allocate_scan (pool_block_size pool) k m (BlocksNeeded pool k)
      (pool_blocks pool) 0 []) pool = (pool1, hs)"
    and "pool' = pool1 \<or> pool' = pool1\<lparr>mutation_generation := mutation_generation pool1 + 1\<rparr>"
    using assms(2) by (auto simp: AllocateBlocksMarked_def Let_def split: if_splits prod.splits)
  with publish_blocks_frame[OF pub] assms AllocateBlocksMarked_result[OF _ assms(2)] show ?thesis
    by (auto simp: pool_inv_def)
qed

lemma drop_reference_frame:
  assumes "drop_reference p pool = Inr (pool', freed)"
  shows "pool_block_size pool' = pool_block_size pool" and "pool_capacity pool' = pool_capacity pool"
  using assms by (auto simp: drop_reference_def Let_def modify_block_def split: sum.splits if_splits)

lemma free_loop_frame:
  assumes "free_loop hs pool = Inr pool'"
  shows "pool_block_size pool' = pool_block_size pool \<and> pool_capacity pool' = pool_capacity pool"
  using assms
  by (induction hs arbitrary: pool)
    (auto split: option.splits sum.splits prod.splits dest: drop_reference_frame)

lemma pool_inv_release:
  assumes "pool_inv bs n pool" and "Release h pool = Inr pool'"
  shows "pool_inv bs n pool'"
proof -
  have own: "Owns pool h" using assms(2) by (auto simp: Release_def split: option.splits if_splits)
  have "pool_block_size pool' = pool_block_size pool \<and> pool_capacity pool' = pool_capacity pool"
    using assms(2)
    by (auto simp: Release_def split: option.splits sum.splits prod.splits if_splits dest: drop_reference_frame)
  moreover have "wf_pool pool'"
    using assms by (rule_tac Release_correct[OF _ own]) (auto simp: pool_inv_def)
  ultimately show ?thesis using assms(1) by (simp add: pool_inv_def)
qed

lemma pool_inv_can_free:
  assumes "pool_inv bs n pool" and "CanFreeValidated hs pool = (pool', ok)"
  shows "pool_inv bs n pool'"
  using CanFreeValidated_correct[where hs = hs and pool = pool] assms by (auto simp: pool_inv_def same_blocks_def)

lemma pool_inv_free:
  assumes "pool_inv bs n pool" and "Free hs pool = Inr pool'"
  shows "pool_inv bs n pool'"
proof -
  obtain pool1 ok where can: "CanFreeValidated hs pool = (pool1, ok)" by fastforce
  have "\<exists>pool2. free_loop hs pool1 = Inr pool2
      \<and> (pool' = pool2 \<or> pool' = pool2\<lparr>mutation_generation := mutation_generation pool2 + 1\<rparr>)"
    using assms(2) can by (auto simp: Free_def FreeValidated_def split: sum.splits if_splits)
  with pool_inv_can_free[OF assms(1) can] free_loop_frame
  have "pool_block_size pool' = bs \<and> pool_capacity pool' = n" by (auto simp: pool_inv_def)
  with Free_correct(1)[of pool hs pool'] assms show ?thesis by (simp add: pool_inv_def)
qed

lemma pool_inv_add:
  assumes "pool_inv bs n pool"
  shows "AddRef h pool = Inr pool' \<Longrightarrow> pool_inv bs n pool'"
    and "AddRefs hs pool = Inr pool' \<Longrightarrow> pool_inv bs n pool'"
proof -
  assume add: "AddRef h pool = Inr pool'"
  then obtain p where "h = Some p" "Owns pool (Some p)" "pool' = add_reference p pool"
    by (auto simp: AddRef_def split: option.splits if_splits)
  with add_reference_same_handles assms show "pool_inv bs n pool'"
    by (auto simp: pool_inv_def same_handles_def)
next
  assume add: "AddRefs hs pool = Inr pool'"
  then have own: "list_all (Owns pool) hs" using AddRefs_unowned by fastforce
  have "wf_pool pool" using assms by (simp add: pool_inv_def)
  from AddRefs_correct[OF this own] add have "same_handles pool pool'" by fastforce
  with assms show "pool_inv bs n pool'" by (simp add: pool_inv_def same_handles_def)
qed

lemma pool_inv_cookie:
  assumes "pool_inv bs n pool" and "Owns pool h"
  shows "pool_inv bs n (modify_block (the h) (\<lambda>b. b\<lparr>reference_observer_cookie := c\<rparr>) pool)"
proof -
  have "wf_pool (modify_block (the h) (\<lambda>b. b\<lparr>reference_observer_cookie := c\<rparr>) pool)"
    using assms(1) by (auto intro!: wf_modify_block simp: pool_inv_def wf_block_def IsFull_def)
  with assms(1) show ?thesis by (simp add: pool_inv_def modify_block_def)
qed

lemma pool_inv_step:
  assumes "pool_step pool pool'" and "pool_inv bs n pool"
  shows "pool_inv bs n pool'"
  using assms(1)
proof cases
  case (step_rollback hs)
  then show ?thesis using RollbackReservedBlocks_correct[where hs = hs and pool = pool] assms(2) by (simp add: pool_inv_def)
next
  case (step_observer ob)
  then show ?thesis using assms(2) by (auto simp: SetReferenceObserver_def pool_inv_def split: if_splits)
next
  case (step_set_cookie h c)
  then show ?thesis
    using pool_inv_cookie[OF assms(2)] by (auto simp: SetReferenceObserverCookie_def split: if_splits)
next
  case (step_clear_cookie h)
  then show ?thesis
    using pool_inv_cookie[OF assms(2)] by (auto simp: ClearReferenceObserverCookie_def split: if_splits)
next
  case (step_add_slots p k b)
  have wfb: "wf_block bs (block_id (pool_store pool p)) (pool_store pool p)"
    using owned_wf_block[OF assms(2) step_add_slots(2)] .
  then have "wf_block bs (block_id (pool_store pool p)) b"
    using step_add_slots(3)
    by (auto simp: wf_block_def AddSlots_def EmptySlots_def IsFull_def split: if_splits)
  then show ?thesis using pool_inv_put_block[OF assms(2) step_add_slots(2)] step_add_slots(1) by simp
next
  case (step_set_identity p i b)
  have wfb: "wf_block bs (block_id (pool_store pool p)) (pool_store pool p)"
    using owned_wf_block[OF assms(2) step_set_identity(2)] .
  then have "wf_block bs (block_id (pool_store pool p)) b"
    using step_set_identity(3)
    by (auto simp: wf_block_def SetIdentity_def IsFull_def split: option.splits if_splits)
  then show ?thesis using pool_inv_put_block[OF assms(2) step_set_identity(2)] step_set_identity(1) by simp
next
  case (step_clear_identity p)
  have "wf_block bs (block_id (pool_store pool p)) (ClearIdentity (pool_store pool p))"
    using owned_wf_block[OF assms(2) step_clear_identity(2)] by (simp add: wf_block_def ClearIdentity_def)
  then show ?thesis
    using pool_inv_put_block[OF assms(2) step_clear_identity(2)] step_clear_identity(1) by simp
qed (use assms(2) in \<open>auto simp: AllocateBlocks_def ReserveBlocks_def
      intro: pool_inv_allocate pool_inv_add pool_inv_release pool_inv_free pool_inv_can_free\<close>)

lemma pool_inv_reachable:
  assumes "pool_step\<^sup>*\<^sup>* (new_pool bs n) pool" and "0 < bs"
  shows "pool_inv bs n pool"
  using assms(1)
proof (induction rule: rtranclp_induct)
  case base
  show ?case using wf_new_pool[OF assms(2), of n] by (simp add: pool_inv_def new_pool_def)
qed (rule pool_inv_step)

section \<open>Properties\<close>

lemma rtranclp_two: "r a b \<Longrightarrow> r b c \<Longrightarrow> r\<^sup>*\<^sup>* a c"
  by auto

lemma card_dom_ledger:
  assumes "wf_pool pool"
  shows "card (dom (ledger pool)) = Size pool"
proof -
  have "dom (ledger pool) = {i. i < length (pool_blocks pool) \<and> \<not> Option.is_none (pool_blocks pool ! i)}"
    using wf_pool_lengths(1)[OF assms]
    by (auto simp: dom_def ledger_def Option.is_none_def split: if_splits)
  then have "card (dom (ledger pool)) = length (filter (\<lambda>s. \<not> Option.is_none s) (pool_blocks pool))"
    by (simp add: length_filter_conv_card)
  also have "\<dots> = Size pool"
    using sum_length_filter_compl[of Option.is_none "pool_blocks pool"] wf_pool_lengths(1)[OF assms]
    by (simp add: Size_def AvailableBlocks_def)
  finally show ?thesis .
qed

lemma Size_AvailableBlocks:
  assumes "wf_pool pool"
  shows "Size pool + AvailableBlocks pool = pool_capacity pool"
  using length_filter_le[of Option.is_none "pool_blocks pool"] wf_pool_lengths(1)[OF assms]
  by (simp add: Size_def AvailableBlocks_def)

text \<open>C22. Every pool that the operations reach from a new pool, in any order and with any arguments,
  keeps its invariant: the block in slot \<open>i\<close> has id \<open>i\<close>, at least one reference and no more slots in use
  than the block size, content identities only on full blocks with one token per slot; allocated and
  free blocks add up to the capacity, and the ledger has exactly one entry per allocated block.\<close>

theorem reachable_pool_invariant:
  assumes "0 < block_size" and "pool_step\<^sup>*\<^sup>* (new_pool block_size n) pool"
  shows "wf_pool pool \<and> pool_capacity pool = n \<and> Size pool + AvailableBlocks pool = n
    \<and> card (dom (ledger pool)) = Size pool \<and> (\<forall>i. ledger pool i \<noteq> Some 0)"
proof -
  have "pool_inv block_size n pool" using pool_inv_reachable assms by blast
  then show ?thesis
    using Size_AvailableBlocks[of pool] card_dom_ledger[of pool] ledger_positive[of pool]
    by (auto simp: pool_inv_def)
qed

lemma example_allocation:
  "\<exists>pool hs. AllocateBlocks 6 (new_pool 4 3) = Inr (pool, hs) \<and> AvailableBlocks pool = 1
     \<and> AddRef (Some 1) pool = Inr (add_reference 1 pool)"
  by (simp add: AllocateBlocks_def AllocateBlocksMarked_def BlocksNeeded_def AvailableBlocks_def
      new_pool_def publish_block_def new_block_def AddRef_def Owns_def Let_def numeral_3_eq_3)

theorem reachable_pool_invariant_witness:
  "\<exists>pool. pool_step\<^sup>*\<^sup>* (new_pool 4 3) pool \<and> AvailableBlocks pool = 1 \<and> card (dom (ledger pool)) = 2
     \<and> wf_pool pool"
proof -
  obtain pool hs where a: "AllocateBlocks 6 (new_pool 4 3) = Inr (pool, hs)" "AvailableBlocks pool = 1"
    using example_allocation by blast
  have "pool_step\<^sup>*\<^sup>* (new_pool 4 3) pool" using step_allocate[OF a(1)] by blast
  with reachable_pool_invariant[of 4 3 pool] a(2) show ?thesis by auto
qed

text \<open>C23. Allocation is all or nothing: it fails exactly when fewer blocks are free than the slots need,
  reporting the shortage; otherwise it returns that many new blocks, in the lowest free slots, each
  owned by the pool with one reference and no identity, marked with exactly the requested number of slots
  in total (none for a reservation), and it leaves every block and slot that was in use as it was.\<close>

theorem allocation_all_or_nothing:
  assumes "wf_pool pool"
  shows "if AvailableBlocks pool < BlocksNeeded pool n
    then AllocateBlocksMarked n mark pool
      = Inl (BlocksExhausted (BlocksNeeded pool n) n (AvailableBlocks pool))
    else \<exists>pool' hs. AllocateBlocksMarked n mark pool = Inr (pool', hs)
      \<and> wf_pool pool' \<and> allocation_result n mark pool pool' hs"
proof (cases "AvailableBlocks pool < BlocksNeeded pool n")
  case True
  then show ?thesis by (simp add: AllocateBlocksMarked_def Let_def)
next
  case False
  then obtain pool' hs where "AllocateBlocksMarked n mark pool = Inr (pool', hs)"
    "wf_pool pool'" "allocation_result n mark pool pool' hs"
    using AllocateBlocksMarked_success[OF assms, of n mark] by (metis not_less)
  with False show ?thesis by auto
qed

theorem allocation_all_or_nothing_witness:
  "(\<exists>pool' hs. AllocateBlocksMarked 6 True (new_pool 4 3) = Inr (pool', hs) \<and> length hs = 2)
    \<and> AllocateBlocksMarked 13 True (new_pool 4 3) = Inl (BlocksExhausted 4 13 3)"
proof -
  have wf: "wf_pool (new_pool 4 3)" by (rule wf_new_pool) simp
  have n: "BlocksNeeded (new_pool 4 3) 6 = 2" "BlocksNeeded (new_pool 4 3) 13 = 4"
    "AvailableBlocks (new_pool 4 3) = 3"
    by (simp_all add: BlocksNeeded_def new_pool_def AvailableBlocks_def numeral_3_eq_3)
  have "AllocateBlocksMarked 13 True (new_pool 4 3) = Inl (BlocksExhausted 4 13 3)"
    using allocation_all_or_nothing[OF wf, of 13 True] by (simp add: n)
  moreover obtain pool' hs where "AllocateBlocksMarked 6 True (new_pool 4 3) = Inr (pool', hs)"
    "allocation_result 6 True (new_pool 4 3) pool' hs"
    using allocation_all_or_nothing[OF wf, of 6 True] by (auto simp: n)
  moreover from this(2) have "length hs = 2" by (simp add: allocation_result_def n)
  ultimately show ?thesis by blast
qed

text \<open>C24. The allocation-free check that guards the no-throw free (epochs, marks and counts per id) decides
  exactly what the throwing validation decides: every handle is owned and listed at most as often as it
  has references. It changes nothing but its scratch data, also when its 64-bit epoch wraps around.\<close>

theorem CanFreeValidated_iff_ValidateFree:
  assumes "wf_pool pool"
  shows "(snd (CanFreeValidated handles pool) \<longleftrightarrow> ValidateFree handles pool = Inr ())
    \<and> ledger (fst (CanFreeValidated handles pool)) = ledger pool
    \<and> wf_pool (fst (CanFreeValidated handles pool))"
proof -
  note c = CanFreeValidated_correct[OF assms, of handles]
  have "ledger (fst (CanFreeValidated handles pool)) = ledger pool"
    using c ledger_same_blocks by blast
  with c show ?thesis by (simp add: ValidateFree_ok)
qed

theorem CanFreeValidated_iff_ValidateFree_witness:
  "\<not> snd (CanFreeValidated [Some 0] ((new_pool 4 3)\<lparr>validation_epoch := - 1\<rparr>))
   \<and> ledger (fst (CanFreeValidated [Some 0] ((new_pool 4 3)\<lparr>validation_epoch := - 1\<rparr>))) 0 = None"
proof -
  let ?pool = "(new_pool 4 3)\<lparr>validation_epoch := - 1\<rparr>"
  have "wf_pool ?pool" by (auto simp: wf_pool_def wf_slots_def new_pool_def)
  note c = CanFreeValidated_iff_ValidateFree[OF this, of "[Some 0]"]
  have "ValidateFree [Some 0] ?pool \<noteq> Inr ()"
    by (simp add: ValidateFree_def ValidateOwnership_def new_pool_def new_block_def Let_def)
  moreover have "ledger ?pool 0 = None" by (simp add: ledger_def new_pool_def)
  ultimately show ?thesis using c by metis
qed

text \<open>C25. \<open>Free\<close> is atomic and exact. If it returns, each id lost as many references as it was listed and an
  id that used up its references left the pool; it returns whenever the listed handles are owned often
  enough; and it never reaches the process termination of its no-throw half.\<close>

theorem Free_exact:
  assumes "wf_pool pool"
  shows "case Free handles pool of
      Inr pool' \<Rightarrow> freeable handles pool \<and> wf_pool pool'
        \<and> ledger pool' = after_free (ledger pool) (map (handle_id pool) handles)
    | Inl e \<Rightarrow> \<not> freeable handles pool \<and> e \<noteq> Terminated"
proof (cases "Free handles pool")
  case (Inl e)
  then show ?thesis using Free_correct(2,3)[OF assms, of handles] by auto
next
  case (Inr pool')
  then have "freeable handles pool"
    by (auto simp: Free_def simp flip: ValidateFree_ok split: sum.splits)
  with Inr Free_correct(1)[OF assms Inr] show ?thesis by simp
qed

theorem Free_exact_witness:
  "\<exists>pool pool'. Free [Some 1] pool = Inr pool' \<and> ledger pool 1 = Some 1 \<and> ledger pool' 1 = None
     \<and> ledger pool' 0 = Some 1"
proof -
  obtain pool hs where a: "AllocateBlocks 6 (new_pool 4 3) = Inr (pool, hs)" using example_allocation by blast
  have eq: "pool_blocks pool = [Some 0, Some 1, None]" "pool_capacity pool = 3"
    "block_id (pool_store pool (Suc 0)) = Suc 0" "ref_count (pool_store pool (Suc 0)) = 1" "ref_count (pool_store pool 0) = 1"
    using a by (auto simp: AllocateBlocks_def AllocateBlocksMarked_def BlocksNeeded_def AvailableBlocks_def
      new_pool_def publish_block_def new_block_def Let_def numeral_3_eq_3)
  have wf: "wf_pool pool"
    using AllocateBlocksMarked_result[OF wf_new_pool[of 4 3]] a by (simp add: AllocateBlocks_def)
  have fr: "freeable [Some 1] pool" by (simp add: freeable_def Owns_def eq)
  from Free_exact[OF wf, of "[Some 1]"] fr obtain pool' where "Free [Some 1] pool = Inr pool'"
    "ledger pool' = after_free (ledger pool) [1]"
    by (auto simp: handle_id_def eq split: sum.splits)
  moreover have "ledger pool 1 = Some 1" "ledger pool 0 = Some 1" by (simp_all add: ledger_def eq)
  ultimately show ?thesis by (intro exI[of _ pool] exI[of _ pool']) (simp add: after_free_def)
qed

text \<open>Reserving blocks and rolling the reservation back leaves every slot, and with it the ledger, as it
  was before the reservation.\<close>

theorem reserve_rollback:
  assumes "wf_pool pool" and "ReserveBlocks n pool = Inr (pool', hs)"
  shows "let pool'' = RollbackReservedBlocks (map Some hs) pool' in
    pool_blocks pool'' = pool_blocks pool \<and> ledger pool'' = ledger pool \<and> wf_pool pool''"
proof -
  let ?r = "RollbackReservedBlocks (map Some hs) pool'"
  let ?new = "take (BlocksNeeded pool n) (free_ids pool)"
  have m: "AllocateBlocksMarked n False pool = Inr (pool', hs)" using assms(2) by (simp add: ReserveBlocks_def)
  have res: "wf_pool pool'" "allocation_result n False pool pool' hs"
    using AllocateBlocksMarked_result[OF assms(1) m] by auto
  have cap: "pool_capacity pool' = pool_capacity pool"
    using pool_inv_allocate[OF _ m, of "pool_block_size pool" "pool_capacity pool"] assms(1)
    by (simp add: pool_inv_def)
  note rb = RollbackReservedBlocks_correct[OF res(1), where hs = "map Some hs"]
  have slot: "pool_blocks ?r ! i = pool_blocks pool ! i" if i: "i < pool_capacity pool" for i
  proof (cases "i \<in> set ?new")
    case True
    then have "pool_blocks pool ! i = None" using free_ids_free[of i pool] in_set_takeD by fast
    moreover have "i \<in> (\<lambda>h. block_id (pool_store pool' h)) ` set hs"
      using True res(2) by (metis allocation_result_def list.set_map)
    with res(2) obtain h where "h \<in> set hs" "block_id (pool_store pool' h) = i" "Owns pool' (Some h)"
      by (auto simp: allocation_result_def fresh_handle_def list_all_iff)
    then have "pool_blocks pool' ! i \<in> set (map Some hs)" by (auto simp: Owns_Some)
    ultimately show ?thesis using rb(2)[of i] i cap by simp
  next
    case False
    then have same: "pool_blocks pool' ! i = pool_blocks pool ! i" using res(2) by (auto simp: allocation_result_def)
    have "p \<notin> set hs" if "pool_blocks pool ! i = Some p" for p
      using wf_pool_slotD(1)[OF assms(1) i that] res(2)
      by (auto simp: allocation_result_def fresh_handle_def list_all_iff)
    then have "pool_blocks pool ! i \<in> set (map Some hs) \<Longrightarrow> False" by auto
    with rb(2)[of i] same i cap show ?thesis by auto
  qed
  have blocks: "pool_blocks ?r = pool_blocks pool"
    using slot wf_pool_lengths(1)[OF rb(1)] wf_pool_lengths(1)[OF assms(1)] rb(4) cap
    by (intro nth_equalityI) simp_all
  have "ledger ?r i = ledger pool i" for i
    using blocks rb(3,4) cap res(2) wf_pool_slotD(1)[OF assms(1), of i]
    by (cases "pool_blocks pool ! i") (auto simp: ledger_def allocation_result_def)
  then show ?thesis using blocks rb(1) by (auto simp: Let_def)
qed

theorem reserve_rollback_witness:
  "\<exists>pool' hs. ReserveBlocks 6 (new_pool 4 3) = Inr (pool', hs)
     \<and> pool_blocks (RollbackReservedBlocks (map Some hs) pool') = [None, None, None]"
proof -
  have wf: "wf_pool (new_pool 4 3)" by (rule wf_new_pool) simp
  have "BlocksNeeded (new_pool 4 3) 6 \<le> AvailableBlocks (new_pool 4 3)"
    by (simp add: BlocksNeeded_def new_pool_def AvailableBlocks_def numeral_3_eq_3)
  then obtain pool' hs where r: "ReserveBlocks 6 (new_pool 4 3) = Inr (pool', hs)"
    using AllocateBlocksMarked_success[OF wf, of 6 False] unfolding ReserveBlocks_def by blast
  then show ?thesis
    using reserve_rollback[OF wf r] by (auto simp: Let_def new_pool_def numeral_3_eq_3)
qed

text \<open>Taking a reference on every block of a list, blocks listed several times included, and freeing the
  same list gives back the ledger; taking the references fails exactly when some handle is not owned.\<close>

theorem AddRefs_Free_round_trip:
  assumes "wf_pool pool"
  shows "if list_all (Owns pool) hs
    then \<exists>pool1 pool2. AddRefs hs pool = Inr pool1
      \<and> ledger pool1 = after_add (ledger pool) (map (handle_id pool) hs)
      \<and> Free hs pool1 = Inr pool2 \<and> ledger pool2 = ledger pool \<and> wf_pool pool2
    else \<exists>e. AddRefs hs pool = Inl e"
proof (cases "list_all (Owns pool) hs")
  case True
  obtain pool1 where add: "AddRefs hs pool = Inr pool1" and same: "same_handles pool pool1"
    and led: "ledger pool1 = after_add (ledger pool) (map (handle_id pool) hs)"
    by (rule AddRefs_correct[OF assms True], rule that)
  have wf1: "wf_pool pool1" using same by (simp add: same_handles_def)
  have own1: "list_all (Owns pool1) hs" using True same by (simp add: same_handles_def)
  have "freeable hs pool1"
    unfolding freeable_def
  proof (intro conjI allI impI own1)
    fix p assume p: "Some p \<in> set hs"
    then have own: "Owns pool1 (Some p)" using own1 by (auto simp: list_all_iff)
    have "Some (ref_count (pool_store pool1 p)) = ledger pool1 (handle_id pool1 (Some p))"
      using ledger_Owns[OF own] by (simp add: handle_id_Some)
    also have "\<dots> = after_add (ledger pool) (map (handle_id pool1) hs) (handle_id pool1 (Some p))"
      using led same by (simp add: same_handles_def)
    finally have "count_list (map (handle_id pool1) hs) (handle_id pool1 (Some p)) \<le> ref_count (pool_store pool1 p)"
      by (cases "ledger pool (handle_id pool1 (Some p))") (simp_all add: after_add_def)
    then show "count_list hs (Some p) \<le> ref_count (pool_store pool1 p)"
      using count_list_handle_id[OF own1 own] by (simp add: handle_id_Some)
  qed
  then obtain pool2 where free: "Free hs pool1 = Inr pool2" using Free_correct(2)[OF wf1] by blast
  have "ledger pool2 = after_free (ledger pool1) (map (handle_id pool) hs)" "wf_pool pool2"
    using Free_correct(1)[OF wf1 free] same by (simp_all add: same_handles_def)
  then have "ledger pool2 = ledger pool" "wf_pool pool2"
    using after_free_add[of "ledger pool"] ledger_positive[OF assms] led by auto
  with True add led free show ?thesis by auto
next
  case False
  then show ?thesis using AddRefs_unowned by auto
qed

theorem AddRefs_Free_round_trip_witness:
  "\<exists>e. AddRefs [Some 0] (new_pool 4 3) = Inl e"
proof -
  have "wf_pool (new_pool 4 3)" by (rule wf_new_pool) simp
  from AddRefs_Free_round_trip[OF this, of "[Some 0]"] show ?thesis
    by (simp add: Owns_def new_pool_def new_block_def)
qed

text \<open>A block whose handle is owned with \<open>k + 1\<close> references survives \<open>k\<close> releases and leaves the pool
  with the next one; any further release is refused. References taken and given back leave the ledger
  unchanged.\<close>

theorem Release_drains:
  assumes "wf_pool pool" and "Owns pool h" and "ledger pool (handle_id pool h) = Some (Suc k)"
  shows "(\<exists>pool'. repeat_result (Suc k) (Release h) pool = Inr pool' \<and> wf_pool pool' \<and> \<not> Owns pool' h
        \<and> ledger pool' = (ledger pool)(handle_id pool h := None) \<and> (\<exists>e. Release h pool' = Inl e))
    \<and> (\<exists>pool1 pool2. repeat_result n (AddRef h) pool = Inr pool1
        \<and> repeat_result n (Release h) pool1 = Inr pool2 \<and> ledger pool2 = ledger pool \<and> Owns pool2 h)"
  using pool_references.drain[OF assms] pool_references.acquire_release[OF assms(1,2), of n] by blast

theorem Release_drains_witness:
  "\<exists>pool pool'. Owns pool (Some 1) \<and> Release (Some 1) pool = Inr pool' \<and> \<not> Owns pool' (Some 1)"
proof -
  obtain pool hs where a: "AllocateBlocks 6 (new_pool 4 3) = Inr (pool, hs)" using example_allocation by blast
  have eq: "pool_blocks pool = [Some 0, Some 1, None]" "pool_capacity pool = 3"
    "block_id (pool_store pool (Suc 0)) = Suc 0" "ref_count (pool_store pool (Suc 0)) = 1"
    using a by (auto simp: AllocateBlocks_def AllocateBlocksMarked_def BlocksNeeded_def AvailableBlocks_def
      new_pool_def publish_block_def new_block_def Let_def numeral_3_eq_3)
  have wf: "wf_pool pool"
    using AllocateBlocksMarked_result[OF wf_new_pool[of 4 3]] a by (simp add: AllocateBlocks_def)
  have own: "Owns pool (Some 1)" by (simp add: Owns_def eq)
  have led: "ledger pool (handle_id pool (Some 1)) = Some (Suc 0)" by (simp add: ledger_def handle_id_def eq)
  from Release_drains[OF wf own led, of 0] own show ?thesis by (auto simp: bind_result_Inr_iff)
qed

end
