(* ===== verification/Request_Index.thy ===== *)
theory Request_Index
  imports Prelude
begin

text \<open>
  The fixed-capacity request index (\<^verbatim>\<open>src/src/engine/request_index.h\<close>): open addressing with linear
  probing over a power-of-two table, and an erase that re-inserts the entries of the following probe
  cluster instead of leaving tombstones. Request ids are pointers, 64-bit words with null as 0.

  The theory shows that the index is a finite map of bounded size: \<open>Find\<close> after \<open>Insert\<close> and \<open>Erase\<close> is
  map update and deletion, every loop ends, and the \<open>std::terminate\<close> of \<open>Erase\<close> is never reached.
\<close>

unbundle bit_operations_syntax

section \<open>The index\<close>

datatype entry_state = Empty | Occupied

record Entry =
  entry_request_id :: u64
  entry_value :: nat
  entry_state :: entry_state

definition empty_entry :: Entry where
  "empty_entry = \<lparr>entry_request_id = 0, entry_value = 0, entry_state = Empty\<rparr>"

record RequestIndex =
  index_entries :: "Entry list"
  index_max_entries :: nat
  index_size :: nat

text \<open>\<open>Terminate\<close> is the \<open>std::terminate\<close> of \<open>Erase\<close>; \<open>Diverges\<close> is a loop that exceeded the number of
  rounds the model allows.\<close>

datatype index_error = CapacityOverflow | TableSizeOverflow | Terminate | Diverges

definition size_max :: nat where
  "size_max = 2 ^ 64 - 1"

text \<open>The table size is the power of two \<open>2 ^ k\<close>, doubled until it is large enough; \<open>rounds\<close> bounds the
  doublings, and 64 of them reach the overflow guard.\<close>

fun grow_table :: "nat \<Rightarrow> nat \<Rightarrow> nat \<Rightarrow> index_error + nat" where
  "grow_table 0 table_size required = Inl Diverges"
| "grow_table (Suc rounds) table_size required =
     (if table_size < required then
        if table_size > size_max div 2 then Inl TableSizeOverflow
        else grow_table rounds (table_size * 2) required
      else Inr table_size)"

definition new_index :: "nat \<Rightarrow> index_error + RequestIndex" where
  "new_index max_entries =
     (if max_entries > (size_max - 1) div 2 then Inl CapacityOverflow
      else bind_result (grow_table 65 1 (max_entries * 2 + 1))
        (\<lambda>table_size. Inr \<lparr>index_entries = replicate table_size empty_entry,
           index_max_entries = max_entries, index_size = 0\<rparr>))"

definition Hash :: "u64 \<Rightarrow> u64" where
  "Hash request_id =
     (let value1 = request_id XOR drop_bit 32 request_id;
          value2 = value1 * 0xff51afd7ed558ccd
      in value2 XOR drop_bit 32 value2)"

definition probe_home :: "nat \<Rightarrow> u64 \<Rightarrow> nat" where
  "probe_home table_size request_id = unat (Hash request_id) AND (table_size - 1)"

definition next_probe :: "nat \<Rightarrow> nat \<Rightarrow> nat" where
  "next_probe table_size index = (index + 1) AND (table_size - 1)"

text \<open>The loops over \<open>probe\<close>: the first argument is the number of probes left.\<close>

fun find_loop :: "nat \<Rightarrow> Entry list \<Rightarrow> u64 \<Rightarrow> nat \<Rightarrow> nat option" where
  "find_loop 0 entries request_id index = None"
| "find_loop (Suc probes) entries request_id index =
     (if entry_state (entries ! index) = Empty then None
      else if entry_state (entries ! index) = Occupied \<and> entry_request_id (entries ! index) = request_id
      then Some (entry_value (entries ! index))
      else find_loop probes entries request_id (next_probe (length entries) index))"

definition Find :: "u64 \<Rightarrow> RequestIndex \<Rightarrow> nat option" where
  "Find request_id idx =
     (if request_id = 0 then None
      else find_loop (length (index_entries idx)) (index_entries idx) request_id
             (probe_home (length (index_entries idx)) request_id))"

fun insert_loop :: "nat \<Rightarrow> Entry list \<Rightarrow> u64 \<Rightarrow> nat \<Rightarrow> nat \<Rightarrow> Entry list option" where
  "insert_loop 0 entries request_id value index = None"
| "insert_loop (Suc probes) entries request_id value index =
     (if entry_state (entries ! index) = Occupied \<and> entry_request_id (entries ! index) = request_id then None
      else if entry_state (entries ! index) = Empty
      then Some (entries[index := \<lparr>entry_request_id = request_id, entry_value = value, entry_state = Occupied\<rparr>])
      else insert_loop probes entries request_id value (next_probe (length entries) index))"

definition Insert :: "u64 \<Rightarrow> nat \<Rightarrow> RequestIndex \<Rightarrow> RequestIndex \<times> bool" where
  "Insert request_id value idx =
     (if request_id = 0 \<or> index_size idx \<ge> index_max_entries idx then (idx, False)
      else (case insert_loop (length (index_entries idx)) (index_entries idx) request_id value
                   (probe_home (length (index_entries idx)) request_id) of
              None \<Rightarrow> (idx, False)
            | Some entries \<Rightarrow>
                (idx\<lparr>index_entries := entries, index_size := index_size idx + 1\<rparr>, True)))"

text \<open>The inner loop of \<open>Erase\<close>. It stops at an empty slot; the rounds it is given are the table size.\<close>

fun close_cluster :: "nat \<Rightarrow> nat \<Rightarrow> RequestIndex \<Rightarrow> index_error + RequestIndex" where
  "close_cluster rounds displaced_index idx =
     (let displaced = index_entries idx ! displaced_index in
      if entry_state displaced \<noteq> Occupied then Inr idx
      else case rounds of
        0 \<Rightarrow> Inl Diverges
      | Suc rounds' \<Rightarrow>
          let removed = idx\<lparr>index_entries := (index_entries idx)[displaced_index := empty_entry],
                            index_size := index_size idx - 1\<rparr>
          in (case Insert (entry_request_id displaced) (entry_value displaced) removed of
                (idx', inserted) \<Rightarrow>
                  if \<not> inserted then Inl Terminate
                  else close_cluster rounds'
                         (next_probe (length (index_entries idx')) displaced_index) idx'))"

fun erase_loop :: "nat \<Rightarrow> u64 \<Rightarrow> nat \<Rightarrow> RequestIndex \<Rightarrow> index_error + RequestIndex \<times> bool" where
  "erase_loop 0 request_id index idx = Inr (idx, False)"
| "erase_loop (Suc probes) request_id index idx =
     (let entry = index_entries idx ! index in
      if entry_state entry = Empty then Inr (idx, False)
      else if entry_state entry = Occupied \<and> entry_request_id entry = request_id
      then (let cleared = idx\<lparr>index_entries := (index_entries idx)[index := empty_entry],
                              index_size := index_size idx - 1\<rparr>
            in bind_result (close_cluster (length (index_entries idx))
                             (next_probe (length (index_entries idx)) index) cleared)
                 (\<lambda>idx'. Inr (idx', True)))
      else erase_loop probes request_id (next_probe (length (index_entries idx)) index) idx)"

definition Erase :: "u64 \<Rightarrow> RequestIndex \<Rightarrow> index_error + RequestIndex \<times> bool" where
  "Erase request_id idx =
     (if request_id = 0 then Inr (idx, False)
      else erase_loop (length (index_entries idx)) request_id
             (probe_home (length (index_entries idx)) request_id) idx)"

definition Clear :: "RequestIndex \<Rightarrow> RequestIndex" where
  "Clear idx = idx\<lparr>index_entries := map (\<lambda>_. empty_entry) (index_entries idx), index_size := 0\<rparr>"

text \<open>The move constructor: the new index and the one that was moved from.\<close>

definition move_index :: "RequestIndex \<Rightarrow> RequestIndex \<times> RequestIndex" where
  "move_index other = (other, \<lparr>index_entries = [], index_max_entries = 0, index_size = 0\<rparr>)"

declare close_cluster.simps [simp del]

lemma close_cluster_stop:
  "entry_state (index_entries idx ! d) \<noteq> Occupied \<Longrightarrow> close_cluster rounds d idx = Inr idx"
  by (simp add: close_cluster.simps)

section \<open>Probing\<close>

abbreviation power_of_two :: "nat \<Rightarrow> bool" where
  "power_of_two n \<equiv> \<exists>k. n = 2 ^ k"

lemma and_power_of_two:
  assumes "power_of_two n"
  shows "i AND (n - 1) = i mod (n :: nat)"
proof -
  from assms obtain k where "n = 2 ^ k" ..
  then show ?thesis by (metis mask_eq_exp_minus_1 take_bit_eq_mask take_bit_eq_mod)
qed

lemma power_of_two_pos: "power_of_two n \<Longrightarrow> 0 < n"
  by auto

lemma probe_home_less: "power_of_two n \<Longrightarrow> probe_home n k < n"
  unfolding probe_home_def by (subst and_power_of_two) (use power_of_two_pos in auto)

lemma next_probe_mod: "power_of_two n \<Longrightarrow> next_probe n (i mod n) = Suc i mod n"
  unfolding next_probe_def by (subst and_power_of_two) (simp_all add: mod_Suc_eq)

abbreviation occ :: "Entry list \<Rightarrow> nat \<Rightarrow> bool" where
  "occ es i \<equiv> entry_state (es ! i) = Occupied"

abbreviation key_at :: "Entry list \<Rightarrow> nat \<Rightarrow> u64" where
  "key_at es i \<equiv> entry_request_id (es ! i)"

lemma not_Occupied [simp]: "s \<noteq> Occupied \<longleftrightarrow> s = Empty" "s \<noteq> Empty \<longleftrightarrow> s = Occupied"
  by (cases s; simp)+

lemma empty_entry_state [simp]: "entry_state empty_entry = Empty"
  by (simp add: empty_entry_def)

text \<open>A probe loop that goes on to the next slot whenever \<open>pass\<close> holds skips a run of such slots.\<close>

lemma probe_skip:
  assumes step: "\<And>p x. pass (x mod n) \<Longrightarrow> g (Suc p) (x mod n) = g p (Suc x mod n)"
    and "\<And>q. q < d \<Longrightarrow> pass ((x + q) mod n)" and "d \<le> probes"
  shows "g probes (x mod n) = g (probes - d) ((x + d) mod (n :: nat))"
  using assms(2,3)
proof (induction d arbitrary: x probes)
  case (Suc d)
  then obtain p where p: "probes = Suc p" by (cases probes) auto
  have "g probes (x mod n) = g p (Suc x mod n)" using step Suc.prems(1)[of 0] by (simp add: p)
  also have "\<dots> = g (p - d) ((Suc x + d) mod n)"
    using Suc.prems(1)[of "Suc _"] Suc.prems(2) by (intro Suc.IH) (simp_all add: p)
  finally show ?case by (simp add: p)
qed simp

definition passed :: "Entry list \<Rightarrow> u64 \<Rightarrow> nat \<Rightarrow> bool" where
  "passed es k i \<longleftrightarrow> occ es i \<and> key_at es i \<noteq> k"

lemma find_loop_skip:
  assumes "power_of_two (length es)" and "\<And>q. q < d \<Longrightarrow> passed es k ((x + q) mod length es)" and "d \<le> probes"
  shows "find_loop probes es k (x mod length es) = find_loop (probes - d) es k ((x + d) mod length es)"
  using next_probe_mod[OF assms(1)] assms(2,3)
  by (intro probe_skip[where g = "\<lambda>p. find_loop p es k" and pass = "passed es k"]) (simp_all add: passed_def)

lemma insert_loop_skip:
  assumes "power_of_two (length es)" and "\<And>q. q < d \<Longrightarrow> passed es k ((x + q) mod length es)" and "d \<le> probes"
  shows "insert_loop probes es k v (x mod length es) = insert_loop (probes - d) es k v ((x + d) mod length es)"
  using next_probe_mod[OF assms(1)] assms(2,3)
  by (intro probe_skip[where g = "\<lambda>p. insert_loop p es k v" and pass = "passed es k"]) (simp_all add: passed_def)

lemma erase_loop_skip:
  assumes "power_of_two (length (index_entries idx))" and "d \<le> probes"
    and "\<And>q. q < d \<Longrightarrow> passed (index_entries idx) k ((x + q) mod length (index_entries idx))"
  shows "erase_loop probes k (x mod length (index_entries idx)) idx
    = erase_loop (probes - d) k ((x + d) mod length (index_entries idx)) idx"
  using next_probe_mod[OF assms(1)] assms(2,3)
  by (intro probe_skip[where g = "\<lambda>p i. erase_loop p k i idx" and pass = "passed (index_entries idx) k"])
    (simp_all add: passed_def)

section \<open>The invariant\<close>

text \<open>Every occupied slot is reached from the home of its key over occupied slots only; keys are not null and
  occur once.\<close>

definition reached :: "Entry list \<Rightarrow> nat \<Rightarrow> bool" where
  "reached es i \<longleftrightarrow> (\<exists>d < length es. i = (probe_home (length es) (key_at es i) + d) mod length es
     \<and> (\<forall>q < d. occ es ((probe_home (length es) (key_at es i) + q) mod length es)))"

definition distinct_keys :: "Entry list \<Rightarrow> bool" where
  "distinct_keys es \<longleftrightarrow> (\<forall>i < length es. \<forall>j < length es.
     occ es i \<longrightarrow> occ es j \<longrightarrow> key_at es i = key_at es j \<longrightarrow> i = j)
   \<and> (\<forall>i < length es. occ es i \<longrightarrow> key_at es i \<noteq> 0)"

definition occupied :: "Entry list \<Rightarrow> nat set" where
  "occupied es = {i. i < length es \<and> occ es i}"

definition wf_index :: "RequestIndex \<Rightarrow> bool" where
  "wf_index idx \<longleftrightarrow> power_of_two (length (index_entries idx)) \<and> distinct_keys (index_entries idx)
     \<and> (\<forall>i \<in> occupied (index_entries idx). reached (index_entries idx) i)
     \<and> index_size idx = card (occupied (index_entries idx))
     \<and> index_size idx \<le> index_max_entries idx \<and> index_max_entries idx < length (index_entries idx)"

text \<open>What the table stores, as a relation.\<close>

definition stored :: "Entry list \<Rightarrow> u64 \<Rightarrow> nat \<Rightarrow> bool" where
  "stored es k v \<longleftrightarrow> (\<exists>i < length es. occ es i \<and> key_at es i = k \<and> entry_value (es ! i) = v)"

lemma stored_occupied: "i \<in> occupied es \<Longrightarrow> stored es (key_at es i) (entry_value (es ! i))"
  by (auto simp: stored_def occupied_def)

lemma finite_occupied [simp]: "finite (occupied es)"
  by (simp add: occupied_def)

lemma occupied_update:
  assumes "i < length es"
  shows "occupied (es[i := e]) = (if entry_state e = Occupied then insert i (occupied es) else occupied es - {i})"
  using assms by (auto simp: occupied_def nth_list_update)

lemma distinct_keysD:
  "distinct_keys es \<Longrightarrow> i \<in> occupied es \<Longrightarrow> j \<in> occupied es \<Longrightarrow> key_at es i = key_at es j \<Longrightarrow> i = j"
  by (auto simp: distinct_keys_def occupied_def)

lemma find_loop_stored: "find_loop probes es k i = Some v \<Longrightarrow> power_of_two (length es) \<Longrightarrow> i < length es \<Longrightarrow> stored es k v"
proof (induction probes arbitrary: i)
  case (Suc probes)
  have "next_probe (length es) i < length es"
    using next_probe_mod[OF Suc.prems(2), of i] Suc.prems(3) power_of_two_pos[OF Suc.prems(2)]
    by (simp add: mod_less)
  with Suc show ?case by (auto simp: stored_def split: if_splits)
qed simp

lemma find_loop_reached:
  assumes "power_of_two (length es)" and "distinct_keys es" and "i \<in> occupied es" and "reached es i"
  shows "find_loop (length es) es (key_at es i) (probe_home (length es) (key_at es i)) = Some (entry_value (es ! i))"
proof -
  let ?n = "length es" and ?k = "key_at es i"
  let ?h = "probe_home ?n ?k"
  from assms(4) obtain d where d: "d < ?n" "i = (?h + d) mod ?n" "\<And>q. q < d \<Longrightarrow> occ es ((?h + q) mod ?n)"
    by (auto simp: reached_def)
  have "passed es ?k ((?h + q) mod ?n)" if "q < d" for q
  proof -
    have "(?h + q) mod ?n \<noteq> (?h + d) mod ?n" using that d(1) by (simp add: add_mod_inj)
    moreover have "(?h + q) mod ?n \<in> occupied es" using d(3)[OF that] power_of_two_pos[OF assms(1)] by (simp add: occupied_def)
    ultimately show ?thesis
      using distinct_keysD[OF assms(2) _ assms(3)] d(2) by (auto simp: passed_def occupied_def)
  qed
  from find_loop_skip[OF assms(1) this, of d ?n] d(1) have
    "find_loop ?n es ?k (?h mod ?n) = find_loop (?n - d) es ?k ((?h + d) mod ?n)" by simp
  then show ?thesis
    using assms(3) d(1) probe_home_less[OF assms(1), of ?k]
    by (cases "?n - d") (auto simp: occupied_def simp flip: d(2))
qed

text \<open>In a table with an empty slot \<open>f\<close> no probe path passes \<open>f\<close>, so that paths are intervals in positions
  counted from \<open>f\<close>. The invariant of the closing loop of \<open>Erase\<close>: holes are left only between the erased
  position and the one that is looked at, and only paths to positions not yet looked at contain them.\<close>

definition path_from :: "Entry list \<Rightarrow> nat \<Rightarrow> nat \<Rightarrow> nat \<Rightarrow> nat \<Rightarrow> bool" where
  "path_from es f i a b \<longleftrightarrow> a \<le> b \<and> b < length es
     \<and> probe_home (length es) (key_at es i) = (f + a) mod length es \<and> i = (f + b) mod length es"

definition closing :: "Entry list \<Rightarrow> nat \<Rightarrow> nat \<Rightarrow> nat \<Rightarrow> bool" where
  "closing es f E D \<longleftrightarrow> power_of_two (length es) \<and> distinct_keys es \<and> f < length es \<and> \<not> occ es f
     \<and> (\<forall>i \<in> occupied es. \<exists>a b. path_from es f i a b
          \<and> (\<forall>x. a \<le> x \<longrightarrow> x < b \<longrightarrow> occ es ((f + x) mod length es) \<or> E \<le> x \<and> x < D \<and> D \<le> b))"

lemma path_from_update:
  "length es' = length es \<Longrightarrow> key_at es' i = key_at es i \<Longrightarrow> path_from es' f i a b = path_from es f i a b"
  by (simp add: path_from_def)

lemma rotate_position: "i < n \<Longrightarrow> f < n \<Longrightarrow> \<exists>x < n. i = (f + x) mod (n :: nat)"
  by (intro exI[of _ "(i + n - f) mod n"]) (simp add: mod_add_right_eq)

lemma reached_path:
  assumes "power_of_two (length es)" and f: "f < length es" "\<not> occ es f"
    and i: "i \<in> occupied es" "reached es i"
  shows "\<exists>a b. path_from es f i a b \<and> (\<forall>x. a \<le> x \<longrightarrow> x < b \<longrightarrow> occ es ((f + x) mod length es))"
proof -
  let ?n = "length es" and ?h = "probe_home (length es) (key_at es i)"
  from i(2) obtain d where d: "d < ?n" "i = (?h + d) mod ?n" "\<And>q. q < d \<Longrightarrow> occ es ((?h + q) mod ?n)"
    by (auto simp: reached_def)
  obtain a where a: "a < ?n" "?h = (f + a) mod ?n"
    using rotate_position[OF probe_home_less[OF assms(1)] f(1)] by blast
  have eq: "(?h + q) mod ?n = (f + (a + q)) mod ?n" for q
    by (simp add: a(2) mod_add_left_eq add.assoc)
  have "a + d < ?n"
  proof (rule ccontr)
    assume far: "\<not> a + d < ?n"
    then have "(?h + (?n - a)) mod ?n = f" using eq[of "?n - a"] a(1) f(1) by simp
    moreover have "?n - a = d \<or> ?n - a < d" using far by linarith
    ultimately show False
      using d(2) d(3)[of "?n - a"] f(2) i(1) by (auto simp: occupied_def)
  qed
  moreover have "occ es ((f + x) mod ?n)" if "a \<le> x" "x < a + d" for x
    using d(3)[of "x - a"] eq[of "x - a"] that by simp
  ultimately show ?thesis
    using d(2) eq[of d] a(2) by (intro exI[of _ a] exI[of _ "a + d"]) (simp add: path_from_def)
qed

lemma closing_reached:
  assumes "closing es f E D" and "\<not> occ es ((f + D) mod length es)" and "D \<le> length es" and "i \<in> occupied es"
  shows "reached es i"
proof -
  let ?n = "length es" and ?h = "probe_home (length es) (key_at es i)"
  from assms(1,4) obtain a b where p: "path_from es f i a b"
    and hole: "\<And>x. a \<le> x \<Longrightarrow> x < b \<Longrightarrow> occ es ((f + x) mod ?n) \<or> E \<le> x \<and> x < D \<and> D \<le> b"
    unfolding closing_def by blast
  have b: "a \<le> b" "b < ?n" "?h = (f + a) mod ?n" "i = (f + b) mod ?n" using p by (auto simp: path_from_def)
  have "D \<noteq> b" using assms(2,4) b(4) by (auto simp: occupied_def)
  moreover have "D \<le> b \<Longrightarrow> a \<le> D \<Longrightarrow> D = b" using hole[of D] assms(2) by fastforce
  ultimately have full: "occ es ((f + x) mod ?n)" if "a \<le> x" "x < b" for x
    using hole[OF that] that by (cases "D \<le> b") auto
  have eq: "(?h + q) mod ?n = (f + (a + q)) mod ?n" for q
    by (simp add: b(3) mod_add_left_eq add.assoc)
  have "i = (?h + (b - a)) mod ?n" using eq[of "b - a"] b(1,4) by simp
  moreover have "occ es ((?h + q) mod ?n)" if "q < b - a" for q
    using full[of "a + q"] eq[of q] that by simp
  ultimately show ?thesis
    unfolding reached_def using b(2) by (intro exI[of _ "b - a"]) simp
qed

text \<open>Erasing one entry of a well-formed table gives a table that is being closed.\<close>

lemma distinct_keys_clear: "distinct_keys es \<Longrightarrow> distinct_keys (es[i := empty_entry])"
  by (cases "i < length es") (auto simp: distinct_keys_def nth_list_update)

lemma closing_start:
  assumes wf: "power_of_two (length es)" "distinct_keys es" "\<And>i. i \<in> occupied es \<Longrightarrow> reached es i"
    and f: "f < length es" "\<not> occ es f" and E: "E < length es"
  shows "closing (es[(f + E) mod length es := empty_entry]) f E (Suc E)"
proof -
  let ?n = "length es" and ?e = "(f + E) mod length es"
  let ?es = "es[?e := empty_entry]"
  have e: "?e < ?n" using power_of_two_pos[OF wf(1)] by simp
  have "\<exists>a b. path_from ?es f i a b
      \<and> (\<forall>x. a \<le> x \<longrightarrow> x < b \<longrightarrow> occ ?es ((f + x) mod length ?es) \<or> E \<le> x \<and> x < Suc E \<and> Suc E \<le> b)"
    if i: "i \<in> occupied ?es" for i
  proof -
    from i e have i': "i \<in> occupied es" "i \<noteq> ?e" by (auto simp: occupied_update)
    from reached_path[OF wf(1) f i'(1) wf(3)[OF i'(1)]] obtain a b where ab: "path_from es f i a b"
      "\<And>x. a \<le> x \<Longrightarrow> x < b \<Longrightarrow> occ es ((f + x) mod ?n)" by blast
    have "occ ?es ((f + x) mod length ?es) \<or> E \<le> x \<and> x < Suc E \<and> Suc E \<le> b" if x: "a \<le> x" "x < b" for x
    proof (cases "x = E")
      case False
      moreover have "b < ?n" using ab(1) by (simp add: path_from_def)
      ultimately have "(f + x) mod ?n \<noteq> ?e" using x E by (simp add: add_mod_inj)
      then show ?thesis using ab(2)[OF x] by simp
    qed (use x in auto)
    moreover have "path_from ?es f i a b" using ab(1) i'(2) path_from_update[of ?es es i] by simp
    ultimately show ?thesis by blast
  qed
  then show ?thesis
    using wf f distinct_keys_clear[OF wf(2)] by (auto simp: closing_def nth_list_update)
qed

text \<open>One round of the closing loop: the displaced entry finds a place no later than where it was.\<close>

lemma closing_step:
  assumes cl: "closing es f E D" and D: "1 \<le> E" "E < D" "D < length es"
    and occ: "occ es ((f + D) mod length es)"
  defines "d \<equiv> (f + D) mod length es"
  defines "k \<equiv> key_at es d" and "v \<equiv> entry_value (es ! d)"
  shows "\<exists>e < length es. \<not> occ (es[d := empty_entry]) e
    \<and> insert_loop (length es) (es[d := empty_entry]) k v (probe_home (length es) k)
        = Some (es[d := empty_entry, e := \<lparr>entry_request_id = k, entry_value = v, entry_state = Occupied\<rparr>])
    \<and> closing (es[d := empty_entry, e := \<lparr>entry_request_id = k, entry_value = v, entry_state = Occupied\<rparr>]) f E (Suc D)"
proof -
  let ?n = "length es" and ?es1 = "es[d := empty_entry]"
  let ?new = "\<lparr>entry_request_id = k, entry_value = v, entry_state = Occupied\<rparr>"
  have pow: "power_of_two ?n" and dist: "distinct_keys es" and f: "f < ?n" "\<not> occ es f"
    using cl by (auto simp: closing_def)
  have pos: "(f + x) mod ?n < ?n" for x using f(1) by (intro mod_less_divisor) linarith
  have d: "d < ?n" "d \<in> occupied es" using occ pos by (auto simp: d_def occupied_def)
  from cl d(2) obtain a b where ab: "path_from es f d a b"
    "\<And>x. a \<le> x \<Longrightarrow> x < b \<Longrightarrow> occ es ((f + x) mod ?n) \<or> E \<le> x \<and> x < D \<and> D \<le> b"
    unfolding closing_def by blast
  have b: "b = D" "a \<le> D" and home: "probe_home ?n k = (f + a) mod ?n"
    using ab(1) D(3) by (auto simp: path_from_def d_def k_def add_mod_inj)
  have a: "1 \<le> a" using ab(2)[of 0] f b D by (cases a) auto
  have at_d: "\<not> occ ?es1 d" using d(1) by simp
  define y where "y = (LEAST x. a \<le> x \<and> \<not> occ ?es1 ((f + x) mod ?n))"
  have y: "a \<le> y" "\<not> occ ?es1 ((f + y) mod ?n)" "y \<le> D"
    using LeastI[of "\<lambda>x. a \<le> x \<and> \<not> occ ?es1 ((f + x) mod ?n)" D]
      Least_le[of "\<lambda>x. a \<le> x \<and> \<not> occ ?es1 ((f + x) mod ?n)" D] at_d b(2)
    by (auto simp: y_def d_def)
  have before: "occ ?es1 ((f + x) mod ?n)" if "a \<le> x" "x < y" for x
    using not_less_Least[of x "\<lambda>x. a \<le> x \<and> \<not> occ ?es1 ((f + x) mod ?n)"] that by (auto simp: y_def)
  let ?e = "(f + y) mod ?n"
  let ?es2 = "?es1[?e := ?new]"
  have keep: "occ ?es1 i \<longleftrightarrow> occ es i \<and> i \<noteq> d" if "i < ?n" for i
    using that d(1) by (auto simp: nth_list_update)
  have "passed ?es1 k ((f + a + q) mod ?n)" if "q < y - a" for q
  proof -
    let ?i = "(f + (a + q)) mod ?n"
    have i: "?i \<in> occupied es" "?i \<noteq> d" using before[of "a + q"] keep[OF pos] that pos by (auto simp: occupied_def)
    then have "key_at es ?i \<noteq> k" using distinct_keysD[OF dist i(1) d(2)] by (auto simp: k_def)
    with i show ?thesis using before[of "a + q"] that by (simp add: passed_def add.assoc)
  qed
  from insert_loop_skip[of ?es1 "y - a" k "f + a" ?n v] this pow y b D(3) home
  have "insert_loop ?n ?es1 k v (probe_home ?n k) = insert_loop (?n - (y - a)) ?es1 k v ?e"
    by simp
  then have ins: "insert_loop ?n ?es1 k v (probe_home ?n k) = Some ?es2"
    using y D(3) by (cases "?n - (y - a)") auto
  have "?e \<noteq> (f + 0) mod ?n" using y a D(3) by (subst add_mod_inj) auto
  then have e_f: "?e \<noteq> f" using f(1) by simp
  have key2: "key_at ?es2 i = (if i = ?e then k else key_at es i)" if "i \<in> occupied ?es2" for i
    using that pos d(1) by (auto simp: occupied_def nth_list_update split: if_splits)
  have occ2: "i \<in> occupied ?es2 \<longleftrightarrow> i = ?e \<or> i \<in> occupied es \<and> i \<noteq> d" for i
    using pos d(1) by (auto simp: occupied_update)
  have "distinct_keys ?es2"
    unfolding distinct_keys_def
  proof (intro conjI allI impI)
    fix i j assume ij: "i < length ?es2" "j < length ?es2" "occ ?es2 i" "occ ?es2 j" "key_at ?es2 i = key_at ?es2 j"
    then have "i \<in> occupied ?es2" "j \<in> occupied ?es2" by (auto simp: occupied_def)
    then show "i = j"
      using ij(5) key2 occ2[of i] occ2[of j] distinct_keysD[OF dist] d(2) k_def by (metis (no_types, lifting))
  next
    fix i assume "i < length ?es2" "occ ?es2 i"
    then have "i \<in> occupied ?es2" by (simp add: occupied_def)
    then show "key_at ?es2 i \<noteq> 0"
      using key2[of i] occ2[of i] dist d(2) by (auto simp: distinct_keys_def occupied_def k_def)
  qed
  moreover have "\<exists>a b. path_from ?es2 f i a b
      \<and> (\<forall>x. a \<le> x \<longrightarrow> x < b \<longrightarrow> occ ?es2 ((f + x) mod length ?es2) \<or> E \<le> x \<and> x < Suc D \<and> Suc D \<le> b)"
    if i: "i \<in> occupied ?es2" for i
  proof (cases "i = ?e")
    case True
    have "occ ?es2 ((f + x) mod ?n)" if x: "a \<le> x" "x < y" for x
      using before[OF x] pos by (cases "(f + x) mod ?n = ?e") auto
    with True y a D(3) home key2[OF i] show ?thesis
      by - (rule exI[of _ a], rule exI[of _ y], simp add: path_from_def)
  next
    case False
    with i occ2 have i': "i \<in> occupied es" "i \<noteq> d" by auto
    from cl i'(1) obtain a b where ab: "path_from es f i a b"
      "\<And>x. a \<le> x \<Longrightarrow> x < b \<Longrightarrow> occ es ((f + x) mod ?n) \<or> E \<le> x \<and> x < D \<and> D \<le> b"
      unfolding closing_def by blast
    have b: "b < ?n" "b \<noteq> D" using ab(1) i'(2) by (auto simp: path_from_def d_def)
    have "occ ?es2 ((f + x) mod ?n) \<or> E \<le> x \<and> x < Suc D \<and> Suc D \<le> b" if x: "a \<le> x" "x < b" for x
    proof (cases "x = D")
      case True
      with x D show ?thesis by auto
    next
      case False
      then have ne: "(f + x) mod ?n \<noteq> d" using x b(1) D(3) by (simp add: d_def add_mod_inj)
      show ?thesis
      proof (cases "occ es ((f + x) mod ?n)")
        case True
        with ne keep[OF pos, of x] pos show ?thesis by (cases "(f + x) mod ?n = ?e") auto
      qed (use ab(2)[OF x] b(2) in auto)
    qed
    moreover have "path_from ?es2 f i a b"
      using ab(1) key2[OF i] False path_from_update[of ?es2 es i] by simp
    ultimately show ?thesis using length_list_update by metis
  qed
  ultimately have "closing ?es2 f E (Suc D)"
    using pow f e_f d by (auto simp: closing_def nth_list_update)
  with ins y(2) pos show ?thesis by blast
qed

section \<open>The operations\<close>

lemma stored_replace:
  assumes "d < length es" and "e < length es" and "occ es d" and "\<not> occ (es[d := empty_entry]) e"
  shows "stored (es[d := empty_entry, e := \<lparr>entry_request_id = key_at es d,
      entry_value = entry_value (es ! d), entry_state = Occupied\<rparr>]) = stored es"
proof -
  let ?es = "es[d := empty_entry, e := \<lparr>entry_request_id = key_at es d,
      entry_value = entry_value (es ! d), entry_state = Occupied\<rparr>]"
  have e: "e = d \<or> \<not> occ es e" using assms by (auto simp: nth_list_update split: if_splits)
  have "stored ?es k v \<longleftrightarrow> stored es k v" for k v
  proof
    assume "stored ?es k v"
    then obtain i where "i < length es" "occ ?es i" "key_at ?es i = k" "entry_value (?es ! i) = v"
      by (auto simp: stored_def)
    then show "stored es k v"
      using assms(1-3) unfolding stored_def by (cases "i = e"; cases "i = d") (auto simp: nth_list_update)
  next
    assume "stored es k v"
    then obtain i where i: "i < length es" "occ es i" "key_at es i = k" "entry_value (es ! i) = v"
      by (auto simp: stored_def)
    show "stored ?es k v"
    proof (cases "i = d")
      case True
      with i assms(2) show ?thesis unfolding stored_def by (intro exI[of _ e]) simp
    next
      case False
      with i e have "i \<noteq> e" by auto
      with i False show ?thesis unfolding stored_def by (intro exI[of _ i]) simp
    qed
  qed
  then show ?thesis by (simp add: fun_eq_iff)
qed

lemma close_cluster_correct:
  assumes "closing (index_entries idx) f E D" and "1 \<le> E" and "E < D" and "D \<le> length (index_entries idx)"
    and "length (index_entries idx) \<le> D + rounds"
    and "index_size idx = card (occupied (index_entries idx))"
    and "index_size idx \<le> index_max_entries idx" and "index_max_entries idx < length (index_entries idx)"
  shows "\<exists>idx'. close_cluster rounds ((f + D) mod length (index_entries idx)) idx = Inr idx' \<and> wf_index idx'
    \<and> stored (index_entries idx') = stored (index_entries idx) \<and> index_size idx' = index_size idx
    \<and> index_max_entries idx' = index_max_entries idx \<and> length (index_entries idx') = length (index_entries idx)"
  using assms
proof (induction rounds arbitrary: D idx)
  case 0
  then have "D = length (index_entries idx)" by simp
  then have "\<not> occ (index_entries idx) ((f + D) mod length (index_entries idx))"
    using 0(1) by (simp add: closing_def)
  then show ?case
    using 0 closing_reached[OF 0(1)] by (simp add: wf_index_def close_cluster_stop) (auto simp: closing_def)
next
  case (Suc rounds)
  let ?es = "index_entries idx"
  let ?n = "length ?es" and ?d = "(f + D) mod length ?es"
  have pow: "power_of_two ?n" using Suc.prems(1) by (simp add: closing_def)
  show ?case
  proof (cases "occ ?es ?d")
    case False
    then show ?thesis
      using Suc.prems closing_reached[OF Suc.prems(1)] by (simp add: wf_index_def close_cluster_stop) (auto simp: closing_def)
  next
    case True
    then have "D < ?n" using Suc.prems(1,4) by (cases "D = ?n") (auto simp: closing_def)
    let ?k = "key_at ?es ?d" and ?v = "entry_value (?es ! ?d)"
    let ?new = "\<lparr>entry_request_id = ?k, entry_value = ?v, entry_state = Occupied\<rparr>"
    have d: "?d < ?n" using power_of_two_pos[OF pow] by simp
    obtain e where e: "e < ?n" "\<not> occ (?es[?d := empty_entry]) e"
      and ins: "insert_loop ?n (?es[?d := empty_entry]) ?k ?v (probe_home ?n ?k)
        = Some (?es[?d := empty_entry, e := ?new])"
      and cl: "closing (?es[?d := empty_entry, e := ?new]) f E (Suc D)"
      using closing_step[OF Suc.prems(1-3) \<open>D < ?n\<close> True] by blast
    define idx1 where "idx1 = idx\<lparr>index_entries := ?es[?d := empty_entry, e := ?new]\<rparr>"
    have "?d \<in> occupied ?es" using True d by (simp add: occupied_def)
    then have pos: "0 < card (occupied ?es)" by (auto simp: card_gt_0_iff)
    have "e \<notin> occupied ?es - {?d}" using e d by (auto simp: occupied_def nth_list_update split: if_splits)
    moreover have "occupied (index_entries idx1) = insert e (occupied ?es - {?d})"
      using d e(1) by (simp add: idx1_def occupied_update)
    ultimately have occ1: "card (occupied (index_entries idx1)) = card (occupied ?es)"
      using pos \<open>?d \<in> occupied ?es\<close> by (simp add: card_Diff_singleton)
    have k0: "?k \<noteq> 0" using Suc.prems(1) True d by (auto simp: closing_def distinct_keys_def)
    have "Insert ?k ?v (idx\<lparr>index_entries := ?es[?d := empty_entry], index_size := index_size idx - 1\<rparr>)
        = (idx1, True)"
      using ins k0 pos Suc.prems(6,7) by (simp add: Insert_def idx1_def)
    then have step: "close_cluster (Suc rounds) ?d idx = close_cluster rounds ((f + Suc D) mod ?n) idx1"
      using True next_probe_mod[OF pow, of "f + D"]
      by (subst close_cluster.simps) (simp add: Let_def idx1_def)
    have len: "length (index_entries idx1) = ?n" by (simp add: idx1_def)
    have "\<exists>idx'. close_cluster rounds ((f + Suc D) mod length (index_entries idx1)) idx1 = Inr idx' \<and> wf_index idx'
      \<and> stored (index_entries idx') = stored (index_entries idx1) \<and> index_size idx' = index_size idx1
      \<and> index_max_entries idx' = index_max_entries idx1 \<and> length (index_entries idx') = length (index_entries idx1)"
      using cl Suc.prems \<open>D < ?n\<close> occ1 by (intro Suc.IH) (simp_all add: idx1_def)
    moreover have "stored (index_entries idx1) = stored ?es"
      using stored_replace[OF d e(1) True e(2)] by (simp add: idx1_def)
    ultimately show ?thesis using step len by (simp add: idx1_def)
  qed
qed

lemma wf_indexD:
  assumes "wf_index idx"
  shows "power_of_two (length (index_entries idx))" and "distinct_keys (index_entries idx)"
    and "\<And>i. i \<in> occupied (index_entries idx) \<Longrightarrow> reached (index_entries idx) i"
    and "index_size idx = card (occupied (index_entries idx))"
    and "index_size idx \<le> index_max_entries idx" and "index_max_entries idx < length (index_entries idx)"
  using assms by (auto simp: wf_index_def)

lemma empty_slot:
  assumes "wf_index idx"
  shows "\<exists>f < length (index_entries idx). \<not> occ (index_entries idx) f"
proof (rule ccontr)
  assume "\<not> ?thesis"
  then have "occupied (index_entries idx) = {..< length (index_entries idx)}" by (auto simp: occupied_def)
  then show False using wf_indexD(4-6)[OF assms] by simp
qed

text \<open>\<open>Find\<close> finds exactly what is stored.\<close>

lemma Find_stored:
  assumes wf: "wf_index idx"
  shows "Find k idx = Some v \<longleftrightarrow> stored (index_entries idx) k v"
proof
  show "stored (index_entries idx) k v" if "Find k idx = Some v"
    using that find_loop_stored[OF _ wf_indexD(1)[OF wf] probe_home_less[OF wf_indexD(1)[OF wf]]]
    by (auto simp: Find_def split: if_splits)
next
  assume "stored (index_entries idx) k v"
  then obtain i where i: "i \<in> occupied (index_entries idx)" "key_at (index_entries idx) i = k"
    "entry_value (index_entries idx ! i) = v" by (auto simp: stored_def occupied_def)
  moreover have "k \<noteq> 0" using i wf_indexD(2)[OF wf] by (auto simp: distinct_keys_def occupied_def)
  ultimately show "Find k idx = Some v"
    using find_loop_reached[OF wf_indexD(1,2)[OF wf] i(1) wf_indexD(3)[OF wf i(1)]] by (simp add: Find_def)
qed

lemma Find_None: "wf_index idx \<Longrightarrow> Find k idx = None \<longleftrightarrow> (\<forall>v. \<not> stored (index_entries idx) k v)"
  using Find_stored[of idx k] by (metis not_None_eq)

lemma Find_cong:
  "wf_index idx \<Longrightarrow> wf_index idx' \<Longrightarrow> stored (index_entries idx') = stored (index_entries idx) \<Longrightarrow>
   Find k idx' = Find k idx"
  by (metis Find_None Find_stored option.exhaust)

lemma card_dom_Find:
  assumes "wf_index idx"
  shows "card (dom (\<lambda>k. Find k idx)) = index_size idx"
proof -
  let ?es = "index_entries idx"
  have "dom (\<lambda>k. Find k idx) = key_at ?es ` occupied ?es"
    using Find_stored[OF assms] by (auto simp: dom_def stored_def occupied_def)
  moreover have "inj_on (key_at ?es) (occupied ?es)"
    using distinct_keysD[OF wf_indexD(2)[OF assms]] by (auto intro: inj_onI)
  ultimately show ?thesis using wf_indexD(4)[OF assms] by (simp add: card_image)
qed

text \<open>A probe from the home of a key that is not stored ends at the first empty slot.\<close>

lemma first_empty:
  assumes wf: "wf_index idx" and new: "\<And>v. \<not> stored (index_entries idx) k v"
  defines "n \<equiv> length (index_entries idx)"
  obtains d where "d < n" and "\<not> occ (index_entries idx) ((probe_home n k + d) mod n)"
    and "\<And>q. q < d \<Longrightarrow> passed (index_entries idx) k ((probe_home n k + q) mod n)"
proof -
  let ?es = "index_entries idx" and ?h = "probe_home n k"
  let ?P = "\<lambda>d. \<not> occ ?es ((?h + d) mod n)"
  have h: "?h < n" and n: "0 < n"
    using probe_home_less[OF wf_indexD(1)[OF wf]] power_of_two_pos[OF wf_indexD(1)[OF wf]] by (auto simp: n_def)
  obtain f where f: "f < n" "\<not> occ ?es f" using empty_slot[OF wf] by (auto simp: n_def)
  obtain x where x: "x < n" "f = (?h + x) mod n" using rotate_position[OF f(1) h] by blast
  define d where "d = (LEAST d. ?P d)"
  have "?P x" using f x by simp
  then have "?P d" "d \<le> x" unfolding d_def by (rule LeastI, intro Least_le)
  moreover have "passed ?es k ((?h + q) mod n)" if "q < d" for q
  proof -
    have "occ ?es ((?h + q) mod n)" using not_less_Least[of q ?P] that by (auto simp: d_def)
    moreover from this have "(?h + q) mod n \<in> occupied ?es" using n by (simp add: n_def occupied_def)
    ultimately show ?thesis using new stored_occupied unfolding passed_def by metis
  qed
  moreover have "d < n" using \<open>d \<le> x\<close> x(1) by simp
  ultimately show ?thesis using that by blast
qed

lemma Insert_new:
  assumes wf: "wf_index idx" and k: "k \<noteq> 0" "Find k idx = None" and room: "index_size idx < index_max_entries idx"
  obtains idx' where "Insert k v idx = (idx', True)" and "wf_index idx'"
    and "\<And>k'. Find k' idx' = (if k' = k then Some v else Find k' idx)"
    and "index_size idx' = Suc (index_size idx)" and "index_max_entries idx' = index_max_entries idx"
proof -
  let ?es = "index_entries idx" and ?new = "\<lparr>entry_request_id = k, entry_value = v, entry_state = Occupied\<rparr>"
  let ?n = "length ?es"
  let ?h = "probe_home ?n k"
  note pow = wf_indexD(1)[OF wf]
  have new: "\<not> stored ?es k v'" for v' using Find_None[OF wf] k(2) by blast
  obtain d where d: "d < ?n" "\<not> occ ?es ((?h + d) mod ?n)"
    "\<And>q. q < d \<Longrightarrow> passed ?es k ((?h + q) mod ?n)"
    using first_empty[OF wf new] by blast
  let ?e = "(?h + d) mod ?n"
  have e: "?e < ?n" using power_of_two_pos[OF pow] by simp
  have "insert_loop ?n ?es k v ?h = insert_loop (?n - d) ?es k v ?e"
    using insert_loop_skip[OF pow, of d k ?h ?n v] d probe_home_less[OF pow, of k] by simp
  then have ins: "insert_loop ?n ?es k v ?h = Some (?es[?e := ?new])"
    using d by (cases "?n - d") auto
  define idx' where "idx' = idx\<lparr>index_entries := ?es[?e := ?new], index_size := index_size idx + 1\<rparr>"
  have eq: "Insert k v idx = (idx', True)" using ins k room by (simp add: Insert_def idx'_def)
  have occ': "occupied (?es[?e := ?new]) = insert ?e (occupied ?es)" "?e \<notin> occupied ?es"
    using e d(2) by (auto simp: occupied_update, simp add: occupied_def)
  have keys: "key_at (?es[?e := ?new]) i = (if i = ?e then k else key_at ?es i)" for i
    using e by (cases "i = ?e") auto
  have more: "occ (?es[?e := ?new]) i" if "occ ?es i" for i
    using that d(2) e by (cases "i = ?e") auto
  have old: "key_at ?es i \<noteq> k" if "i \<in> occupied ?es" for i
    using new that stored_occupied by metis
  have "distinct_keys (?es[?e := ?new])"
  proof -
    have dk: "i = j" if ij: "i \<in> insert ?e (occupied ?es)" "j \<in> insert ?e (occupied ?es)"
        "(if i = ?e then k else key_at ?es i) = (if j = ?e then k else key_at ?es j)" for i j
      using ij old[of i] old[of j] distinct_keysD[OF wf_indexD(2)[OF wf], of i j] by (auto split: if_splits)
    have nz: "key_at ?es i \<noteq> 0" if "i \<in> occupied ?es" for i
      using wf_indexD(2)[OF wf] that by (auto simp: distinct_keys_def occupied_def)
    show ?thesis
      unfolding distinct_keys_def
    proof (intro conjI allI impI)
      fix i j
      assume "i < length (?es[?e := ?new])" "j < length (?es[?e := ?new])" "occ (?es[?e := ?new]) i"
        "occ (?es[?e := ?new]) j" and same: "key_at (?es[?e := ?new]) i = key_at (?es[?e := ?new]) j"
      then have "i \<in> occupied (?es[?e := ?new])" "j \<in> occupied (?es[?e := ?new])" by (auto simp: occupied_def)
      then show "i = j" using dk same keys occ'(1) by metis
    next
      fix i assume "i < length (?es[?e := ?new])" "occ (?es[?e := ?new]) i"
      then have "i \<in> occupied (?es[?e := ?new])" by (auto simp: occupied_def)
      then show "key_at (?es[?e := ?new]) i \<noteq> 0" using nz[of i] keys[of i] occ'(1) k(1) by auto
    qed
  qed
  moreover have "reached (?es[?e := ?new]) i" if "i \<in> occupied (?es[?e := ?new])" for i
  proof (cases "i = ?e")
    case True
    then show ?thesis
      using d(1,3) more unfolding reached_def by (intro exI[of _ d]) (auto simp: keys passed_def)
  next
    case False
    with that occ' have "reached ?es i" using wf_indexD(3)[OF wf] by auto
    then show ?thesis using more False by (auto simp: reached_def keys)
  qed
  ultimately have wf': "wf_index idx'"
    using wf_indexD[OF wf] room occ' by (auto simp: wf_index_def idx'_def)
  have "stored (?es[?e := ?new]) k' v' \<longleftrightarrow> (if k' = k then v' = v else stored ?es k' v')" for k' v'
  proof
    assume "stored (?es[?e := ?new]) k' v'"
    then obtain i where i: "i \<in> occupied (?es[?e := ?new])" "key_at (?es[?e := ?new]) i = k'"
      "entry_value (?es[?e := ?new] ! i) = v'" by (auto simp: stored_def occupied_def)
    then show "if k' = k then v' = v else stored ?es k' v'"
      using e keys[of i] old[of i] occ' by (cases "i = ?e") (auto simp: stored_def occupied_def)
  next
    assume rhs: "if k' = k then v' = v else stored ?es k' v'"
    show "stored (?es[?e := ?new]) k' v'"
    proof (cases "k' = k")
      case True
      with rhs e show ?thesis unfolding stored_def by (intro exI[of _ ?e]) simp
    next
      case False
      with rhs obtain i where i: "i < ?n" "occ ?es i" "key_at ?es i = k'" "entry_value (?es ! i) = v'"
        by (auto simp: stored_def)
      with d(2) have "i \<noteq> ?e" by auto
      with i show ?thesis unfolding stored_def by (intro exI[of _ i]) simp
    qed
  qed
  then have "Find k' idx' = (if k' = k then Some v else Find k' idx)" for k'
    by (intro option_eqI) (simp add: Find_stored[OF wf'] Find_stored[OF wf], auto simp: idx'_def)
  with eq wf' show ?thesis by (intro that[of idx']) (simp_all add: idx'_def)
qed

lemma Insert_present:
  assumes wf: "wf_index idx" and "Find k idx = Some v'"
  shows "Insert k v idx = (idx, False)"
proof -
  let ?es = "index_entries idx"
  let ?n = "length ?es"
  let ?h = "probe_home ?n k"
  note pow = wf_indexD(1)[OF wf]
  from assms(2) Find_stored[OF wf] obtain i where i: "i \<in> occupied ?es" "key_at ?es i = k"
    by (auto simp: stored_def occupied_def)
  from wf_indexD(3)[OF wf i(1)] obtain d where d: "d < ?n" "i = (?h + d) mod ?n"
    "\<And>q. q < d \<Longrightarrow> occ ?es ((?h + q) mod ?n)" by (auto simp: reached_def i(2))
  have "passed ?es k ((?h + q) mod ?n)" if q: "q < d" for q
  proof -
    have "(?h + q) mod ?n \<in> occupied ?es" using d(3)[OF q] power_of_two_pos[OF pow] by (simp add: occupied_def)
    moreover have "(?h + q) mod ?n \<noteq> i" using q d by (simp add: add_mod_inj)
    ultimately show ?thesis
      using distinct_keysD[OF wf_indexD(2)[OF wf] _ i(1)] i(2) d(3)[OF q] by (auto simp: passed_def)
  qed
  from insert_loop_skip[OF pow this, of d ?n v] d(1) probe_home_less[OF pow, of k]
  have "insert_loop ?n ?es k v ?h = insert_loop (?n - d) ?es k v i" by (simp add: d(2))
  then have "insert_loop ?n ?es k v ?h = None"
    using i d(1) by (cases "?n - d") (auto simp: occupied_def)
  then show ?thesis by (simp add: Insert_def)
qed

lemma Erase_absent:
  assumes wf: "wf_index idx" and "Find k idx = None"
  shows "Erase k idx = Inr (idx, False)"
proof -
  let ?es = "index_entries idx"
  let ?n = "length ?es"
  let ?h = "probe_home ?n k"
  note pow = wf_indexD(1)[OF wf]
  have new: "\<not> stored ?es k v'" for v' using Find_None[OF wf] assms(2) by blast
  obtain d where d: "d < ?n" "\<not> occ ?es ((?h + d) mod ?n)"
    "\<And>q. q < d \<Longrightarrow> passed ?es k ((?h + q) mod ?n)"
    using first_empty[OF wf new] by blast
  have "erase_loop ?n k ?h idx = erase_loop (?n - d) k ((?h + d) mod ?n) idx"
    using erase_loop_skip[OF pow, of d ?n k ?h] d probe_home_less[OF pow, of k] by simp
  then show ?thesis
    using d by (cases "?n - d") (auto simp: Erase_def Let_def)
qed

lemma stored_clear:
  assumes "distinct_keys es" and "i \<in> occupied es"
  shows "stored (es[i := empty_entry]) k v \<longleftrightarrow> k \<noteq> key_at es i \<and> stored es k v"
proof -
  have "stored (es[i := empty_entry]) k v \<longleftrightarrow>
      (\<exists>j \<in> occupied es. j \<noteq> i \<and> key_at es j = k \<and> entry_value (es ! j) = v)"
    using assms(2) by (auto simp: stored_def occupied_def nth_list_update split: if_splits)
  also have "\<dots> \<longleftrightarrow> (\<exists>j \<in> occupied es. k \<noteq> key_at es i \<and> key_at es j = k \<and> entry_value (es ! j) = v)"
    using distinct_keysD[OF assms(1) _ assms(2)] by (intro bex_cong) auto
  finally show ?thesis by (auto simp: stored_def occupied_def)
qed

lemma Erase_present:
  assumes wf: "wf_index idx" and "Find k idx = Some v"
  obtains idx' where "Erase k idx = Inr (idx', True)" and "wf_index idx'"
    and "\<And>k'. Find k' idx' = (if k' = k then None else Find k' idx)"
    and "Suc (index_size idx') = index_size idx" and "index_max_entries idx' = index_max_entries idx"
proof -
  let ?es = "index_entries idx"
  let ?n = "length ?es"
  let ?h = "probe_home ?n k"
  note pow = wf_indexD(1)[OF wf]
  from assms(2) Find_stored[OF wf] obtain i where i: "i \<in> occupied ?es" "key_at ?es i = k"
    by (auto simp: stored_def occupied_def)
  from wf_indexD(3)[OF wf i(1)] obtain d where d: "d < ?n" "i = (?h + d) mod ?n"
    "\<And>q. q < d \<Longrightarrow> occ ?es ((?h + q) mod ?n)" by (auto simp: reached_def i(2))
  have pass: "passed ?es k ((?h + q) mod ?n)" if q: "q < d" for q
  proof -
    have "(?h + q) mod ?n \<in> occupied ?es" using d(3)[OF q] power_of_two_pos[OF pow] by (simp add: occupied_def)
    moreover have "(?h + q) mod ?n \<noteq> i" using q d by (simp add: add_mod_inj)
    ultimately show ?thesis
      using distinct_keysD[OF wf_indexD(2)[OF wf] _ i(1)] i(2) d(3)[OF q] by (auto simp: passed_def)
  qed
  define cleared where "cleared = idx\<lparr>index_entries := ?es[i := empty_entry], index_size := index_size idx - 1\<rparr>"
  have "erase_loop ?n k ?h idx = erase_loop (?n - d) k i idx"
    using erase_loop_skip[OF pow, of d ?n k ?h] d pass probe_home_less[OF pow, of k] by simp
  then have erase: "erase_loop ?n k ?h idx
      = bind_result (close_cluster ?n (next_probe ?n i) cleared) (\<lambda>idx'. Inr (idx', True))"
    using i d(1) by (cases "?n - d") (auto simp: occupied_def cleared_def Let_def)
  obtain f where f: "f < ?n" "\<not> occ ?es f" using empty_slot[OF wf] by blast
  have lt: "i < ?n" using i by (simp add: occupied_def)
  obtain E where E: "E < ?n" "i = (f + E) mod ?n" using rotate_position[OF lt f(1)] by blast
  have "E \<noteq> 0" using E f i(1) by (intro notI) (simp add: occupied_def)
  have cl: "closing (index_entries cleared) f E (Suc E)"
    using closing_start[OF pow wf_indexD(2)[OF wf] wf_indexD(3)[OF wf] f E(1)] E(2) by (simp add: cleared_def)
  have card: "card (occupied (index_entries cleared)) = card (occupied ?es) - 1" "0 < card (occupied ?es)"
    using i(1) lt by (auto simp: cleared_def occupied_update card_gt_0_iff)
  have "next_probe ?n i = (f + Suc E) mod length (index_entries cleared)"
    using next_probe_mod[OF pow, of "f + E"] E(2) by (simp add: cleared_def)
  moreover have "\<exists>idx'. close_cluster ?n ((f + Suc E) mod length (index_entries cleared)) cleared = Inr idx'
      \<and> wf_index idx' \<and> stored (index_entries idx') = stored (index_entries cleared)
      \<and> index_size idx' = index_size cleared \<and> index_max_entries idx' = index_max_entries cleared
      \<and> length (index_entries idx') = length (index_entries cleared)"
    using cl \<open>E \<noteq> 0\<close> E(1) wf_indexD(4-6)[OF wf] card
    by (intro close_cluster_correct[where D = "Suc E" and E = E and f = f]) (simp_all add: cleared_def)
  ultimately obtain idx' where idx': "close_cluster ?n (next_probe ?n i) cleared = Inr idx'" "wf_index idx'"
    "stored (index_entries idx') = stored (index_entries cleared)" "index_size idx' = index_size cleared"
    "index_max_entries idx' = index_max_entries cleared" by auto
  have "k \<noteq> 0" using i wf_indexD(2)[OF wf] by (auto simp: distinct_keys_def occupied_def)
  then have "Erase k idx = Inr (idx', True)" using erase idx'(1) by (simp add: Erase_def)
  moreover have "Find k' idx' = (if k' = k then None else Find k' idx)" for k'
    using stored_clear[OF wf_indexD(2)[OF wf] i(1)] idx'(3) i(2)
    by (intro option_eqI) (simp add: Find_stored[OF wf] Find_stored[OF idx'(2)] cleared_def)
  ultimately show ?thesis
    using idx' card wf_indexD(4)[OF wf] by (intro that[of idx']) (simp_all add: cleared_def)
qed

section \<open>A bounded map\<close>

text \<open>The contract that the clients of the index use: a finite map with a fixed capacity. Insertion is
  refused for a null or known key and when the map is full, and nothing else is.\<close>

locale bounded_map =
  fixes invar :: "'m \<Rightarrow> bool"
    and lookup :: "'k \<Rightarrow> 'm \<Rightarrow> 'v option"
    and insert :: "'k \<Rightarrow> 'v \<Rightarrow> 'm \<Rightarrow> 'm \<times> bool"
    and erase :: "'k \<Rightarrow> 'm \<Rightarrow> 'e + 'm \<times> bool"
    and capacity :: "'m \<Rightarrow> nat"
    and used :: "'m \<Rightarrow> nat"
    and null :: 'k
  assumes used_dom: "invar m \<Longrightarrow> used m = card (dom (\<lambda>k. lookup k m)) \<and> used m \<le> capacity m"
    and insert_ok: "invar m \<Longrightarrow> k \<noteq> null \<Longrightarrow> lookup k m = None \<Longrightarrow> used m < capacity m \<Longrightarrow>
      \<exists>m'. insert k v m = (m', True) \<and> invar m' \<and> capacity m' = capacity m \<and> used m' = Suc (used m)
        \<and> (\<lambda>k'. lookup k' m') = (\<lambda>k'. lookup k' m)(k \<mapsto> v)"
    and insert_refused: "invar m \<Longrightarrow> k = null \<or> lookup k m \<noteq> None \<or> used m = capacity m \<Longrightarrow>
      insert k v m = (m, False)"
    and erase_ok: "invar m \<Longrightarrow> \<exists>m'. erase k m = Inr (m', lookup k m \<noteq> None) \<and> invar m'
      \<and> capacity m' = capacity m \<and> (\<lambda>k'. lookup k' m') = (\<lambda>k'. lookup k' m)(k := None)"
begin

lemma used_erase:
  assumes "invar m" and "erase k m = Inr (m', found)"
  shows "used m' = used m - (if found then 1 else 0)"
proof -
  from erase_ok[OF assms(1), of k] assms(2) have m': "invar m'" "found \<longleftrightarrow> lookup k m \<noteq> None"
    "(\<lambda>k'. lookup k' m') = (\<lambda>k'. lookup k' m)(k := None)" by auto
  then have "dom (\<lambda>k'. lookup k' m') = dom (\<lambda>k'. lookup k' m) - {k}" by simp
  with used_dom[OF assms(1)] used_dom[OF m'(1)] m'(2) show ?thesis
    by (auto simp: card_Diff_singleton dom_def)
qed

text \<open>Storing a list of distinct new keys that fit succeeds for every one of them and keeps all of them
  findable.\<close>

lemma insert_all:
  assumes "invar m" and "distinct (map fst kvs)" and "null \<notin> fst ` set kvs"
    and "\<forall>k \<in> fst ` set kvs. lookup k m = None" and "used m + length kvs \<le> capacity m"
  shows "\<exists>m'. fold (\<lambda>(k, v) (m, ok). case insert k v m of (m', b) \<Rightarrow> (m', ok \<and> b)) kvs (m, True) = (m', True)
    \<and> invar m' \<and> capacity m' = capacity m \<and> used m' = used m + length kvs
    \<and> (\<lambda>k. lookup k m') = (\<lambda>k. lookup k m) ++ map_of kvs"
  using assms
proof (induction kvs arbitrary: m)
  case (Cons kv kvs)
  obtain k v where kv: "kv = (k, v)" by fastforce
  from insert_ok[of m k v] Cons.prems kv obtain m1 where m1: "insert k v m = (m1, True)" "invar m1"
    "capacity m1 = capacity m" "used m1 = Suc (used m)" "(\<lambda>k'. lookup k' m1) = (\<lambda>k'. lookup k' m)(k \<mapsto> v)" by auto
  have "\<forall>k' \<in> fst ` set kvs. lookup k' m1 = None"
    using Cons.prems(2,4) kv fun_cong[OF m1(5)] by (auto simp: rev_image_eqI)
  from Cons.IH[OF m1(2) _ _ this] Cons.prems kv m1 obtain m' where m':
    "fold (\<lambda>(k, v) (m, ok). case insert k v m of (m', b) \<Rightarrow> (m', ok \<and> b)) kvs (m1, True) = (m', True)"
    "invar m'" "capacity m' = capacity m1" "used m' = used m1 + length kvs"
    "(\<lambda>k. lookup k m') = (\<lambda>k. lookup k m1) ++ map_of kvs" by auto
  have "map_of kvs k = None" using Cons.prems(2) kv by (simp add: map_of_eq_None_iff)
  then have "(\<lambda>k. lookup k m') = (\<lambda>k. lookup k m) ++ map_of (kv # kvs)"
    using m'(5) m1(5) kv by (auto simp: fun_eq_iff map_add_def split: option.splits)
  moreover have "fold (\<lambda>(k, v) (m, ok). case insert k v m of (m', b) \<Rightarrow> (m', ok \<and> b)) (kv # kvs) (m, True) = (m', True)"
    using m'(1) m1(1) kv by simp
  ultimately show ?case using m'(2-4) m1(3,4) by (simp del: map_of.simps fold.simps)
qed simp

end

interpretation request_map: bounded_map wf_index Find Insert Erase index_max_entries index_size "0 :: u64"
proof
  fix m :: RequestIndex and k :: u64 and v :: nat
  assume wf: "wf_index m"
  show "index_size m = card (dom (\<lambda>k. Find k m)) \<and> index_size m \<le> index_max_entries m"
    using card_dom_Find[OF wf] wf_indexD(5)[OF wf] by simp
  show "\<exists>m'. Insert k v m = (m', True) \<and> wf_index m' \<and> index_max_entries m' = index_max_entries m
      \<and> index_size m' = Suc (index_size m) \<and> (\<lambda>k'. Find k' m') = (\<lambda>k'. Find k' m)(k \<mapsto> v)"
    if "k \<noteq> 0" "Find k m = None" "index_size m < index_max_entries m"
    by (rule Insert_new[OF wf that, of v]) (auto simp: fun_eq_iff)
  show "Insert k v m = (m, False)" if "k = 0 \<or> Find k m \<noteq> None \<or> index_size m = index_max_entries m"
  proof (cases "Find k m")
    case None
    with that show ?thesis by (auto simp: Insert_def)
  next
    case (Some w)
    show ?thesis by (rule Insert_present[OF wf Some])
  qed
  show "\<exists>m'. Erase k m = Inr (m', Find k m \<noteq> None) \<and> wf_index m'
      \<and> index_max_entries m' = index_max_entries m \<and> (\<lambda>k'. Find k' m') = (\<lambda>k'. Find k' m)(k := None)"
  proof (cases "Find k m")
    case None
    then show ?thesis using Erase_absent[OF wf None] wf by (auto simp: fun_eq_iff)
  next
    case (Some v)
    show ?thesis by (rule Erase_present[OF wf Some]) (auto simp: fun_eq_iff Some)
  qed
qed

section \<open>Construction\<close>

text \<open>The table is the smallest power of two that is at least \<open>2 * max_entries + 1\<close>; construction fails exactly when
  that power does not fit a \<open>size_t\<close> with one bit to spare.\<close>

declare grow_table.simps [simp del]

lemma size_max_half: "(2 :: nat) ^ j > size_max div 2 \<longleftrightarrow> 63 \<le> j"
proof -
  have "size_max div 2 = 2 ^ 63 - 1" by (simp add: size_max_def)
  then show ?thesis
    using power_increasing_iff[of "2 :: nat" 63 j] power_strict_increasing_iff[of "2 :: nat" j 63] by fastforce
qed

lemma grow_table_ok:
  assumes "required \<le> 2 ^ 63" and "j \<le> 63" and "63 \<le> j + r"
  shows "\<exists>k. grow_table (Suc r) (2 ^ j) required = Inr (2 ^ k) \<and> required \<le> 2 ^ k
    \<and> (k = j \<or> 2 ^ k < 2 * required)"
  using assms(2,3)
proof (induction r arbitrary: j)
  case 0
  then have "j = 63" by simp
  with assms(1) show ?case by (intro exI[of _ 63]) (simp add: grow_table.simps)
next
  case (Suc r)
  show ?case
  proof (cases "2 ^ j < required")
    case True
    then have "(2 :: nat) ^ j < 2 ^ 63" using assms(1) by linarith
    then have "j < 63" using power_strict_increasing_iff[of "2 :: nat" j 63] by simp
    with Suc.IH[of "Suc j"] Suc.prems obtain k where k: "grow_table (Suc r) (2 ^ Suc j) required = Inr (2 ^ k)"
      "required \<le> 2 ^ k" "k = Suc j \<or> 2 ^ k < 2 * required" by fastforce
    have "grow_table (Suc (Suc r)) (2 ^ j) required = grow_table (Suc r) (2 ^ Suc j) required"
      using True \<open>j < 63\<close> size_max_half[of j] by (subst grow_table.simps) (simp add: mult.commute)
    with k True show ?thesis by (intro exI[of _ k]) auto
  qed (auto simp: grow_table.simps)
qed

lemma grow_table_overflow:
  assumes "2 ^ 63 < required" and "j \<le> 63" and "63 \<le> j + r"
  shows "grow_table (Suc r) (2 ^ j) required = Inl TableSizeOverflow"
  using assms(2,3)
proof (induction r arbitrary: j)
  case (Suc r)
  have small: "2 ^ j < required"
    using Suc.prems(1) assms(1) power_increasing[of j 63 "2 :: nat"] by linarith
  show ?case
  proof (cases "j = 63")
    case False
    with Suc.prems Suc.IH[of "Suc j"] small size_max_half[of j] show ?thesis
      by (subst grow_table.simps) (simp add: mult.commute)
  qed (use small size_max_half[of j] in \<open>simp add: grow_table.simps\<close>)
qed (use assms(1) size_max_half[of 63] in \<open>auto simp: grow_table.simps\<close>)

lemma wf_new_table:
  assumes "m < 2 ^ k"
  shows "wf_index \<lparr>index_entries = replicate (2 ^ k) empty_entry, index_max_entries = m, index_size = 0\<rparr>"
    and "Find key \<lparr>index_entries = replicate (2 ^ k) empty_entry, index_max_entries = m, index_size = 0\<rparr> = None"
proof -
  let ?idx = "\<lparr>index_entries = replicate (2 ^ k) empty_entry, index_max_entries = m, index_size = 0\<rparr>"
  have none: "occupied (replicate (2 ^ k) empty_entry) = {}" by (auto simp: occupied_def)
  show wf: "wf_index ?idx"
    using assms none by (auto simp: wf_index_def distinct_keys_def)
  show "Find key ?idx = None"
    using Find_None[OF wf] by (auto simp: stored_def)
qed

lemma wf_Clear:
  assumes "wf_index idx"
  shows "wf_index (Clear idx)" and "Find k (Clear idx) = None"
proof -
  obtain j where j: "length (index_entries idx) = 2 ^ j" using wf_indexD(1)[OF assms] by blast
  then have "Clear idx = \<lparr>index_entries = replicate (2 ^ j) empty_entry, index_max_entries = index_max_entries idx,
      index_size = 0\<rparr>"
    by (cases idx) (simp add: Clear_def map_replicate_const)
  then show "wf_index (Clear idx)" "Find k (Clear idx) = None"
    using wf_new_table[of "index_max_entries idx" j] wf_indexD(6)[OF assms] j by simp_all
qed

section \<open>Properties\<close>

lemma new_index_ok:
  assumes "m < 2 ^ 62"
  shows "\<exists>k. new_index m = Inr \<lparr>index_entries = replicate (2 ^ k) empty_entry, index_max_entries = m, index_size = 0\<rparr>
    \<and> 2 * m < 2 ^ k \<and> 2 ^ k < 4 * m + 2"
proof -
  have "m * 2 + 1 \<le> 2 ^ 63" using assms by simp
  from grow_table_ok[OF this, of 0 64] obtain k where k: "grow_table 65 1 (m * 2 + 1) = Inr (2 ^ k)"
    "m * 2 + 1 \<le> 2 ^ k" "k = 0 \<or> 2 ^ k < 2 * (m * 2 + 1)" by auto
  have "new_index m = Inr \<lparr>index_entries = replicate (2 ^ k) empty_entry, index_max_entries = m, index_size = 0\<rparr>"
    using assms k(1) by (simp add: new_index_def size_max_def)
  moreover have "2 * m < 2 ^ k" "2 ^ k < 4 * m + 2" using k(2,3) by auto
  ultimately show ?thesis by blast
qed

text \<open>Construction succeeds exactly for fewer than \<open>2 ^ 62\<close> entries and then gives an empty well-formed
  index whose table is a power of two, more than twice as large as the capacity and less than four times as
  large plus two; otherwise it throws one of the two overflow errors, and the doubling loop ends in every case.\<close>

theorem new_index_correct:
  "if m < 2 ^ 62
   then \<exists>idx k. new_index m = Inr idx \<and> wf_index idx \<and> index_max_entries idx = m \<and> index_size idx = 0
     \<and> length (index_entries idx) = 2 ^ k \<and> 2 * m < 2 ^ k \<and> 2 ^ k < 4 * m + 2 \<and> (\<forall>key. Find key idx = None)
   else new_index m = Inl CapacityOverflow \<or> new_index m = Inl TableSizeOverflow"
proof (cases "m < 2 ^ 62")
  case True
  from new_index_ok[OF True] obtain k where "new_index m = Inr \<lparr>index_entries = replicate (2 ^ k) empty_entry,
      index_max_entries = m, index_size = 0\<rparr>" "2 * m < 2 ^ k" "2 ^ k < 4 * m + 2" by blast
  with True wf_new_table[of m k] show ?thesis by auto
next
  case False
  then have "2 ^ 63 < m * 2 + 1" by simp
  from grow_table_overflow[OF this, of 0 64] have "grow_table 65 1 (m * 2 + 1) = Inl TableSizeOverflow"
    by simp
  with False show ?thesis by (auto simp: new_index_def)
qed

text \<open>C26. On a well-formed index \<open>Insert\<close> and \<open>Erase\<close> are the update and the deletion of a bounded map read by
  \<open>Find\<close>: insertion succeeds exactly for a new non-null key when there is room and then only adds that key;
  erasing always returns, never terminates the process, removes exactly the key, and reports whether it was there;
  the invariant and the size follow, and clearing empties the map.\<close>

theorem request_index_is_bounded_map:
  assumes "wf_index idx"
  shows "(if k \<noteq> 0 \<and> Find k idx = None \<and> index_size idx < index_max_entries idx
      then \<exists>idx'. Insert k v idx = (idx', True) \<and> wf_index idx' \<and> index_size idx' = Suc (index_size idx)
        \<and> (\<lambda>k'. Find k' idx') = (\<lambda>k'. Find k' idx)(k \<mapsto> v)
      else Insert k v idx = (idx, False))
    \<and> (\<exists>idx'. Erase k idx = Inr (idx', Find k idx \<noteq> None) \<and> wf_index idx'
        \<and> index_size idx' = index_size idx - (if Find k idx \<noteq> None then 1 else 0)
        \<and> (\<lambda>k'. Find k' idx') = (\<lambda>k'. Find k' idx)(k := None))
    \<and> index_size idx = card (dom (\<lambda>k. Find k idx)) \<and> index_size idx \<le> index_max_entries idx
    \<and> wf_index (Clear idx) \<and> (\<lambda>k. Find k (Clear idx)) = Map.empty"
proof -
  have used: "index_size idx = card (dom (\<lambda>k. Find k idx))" "index_size idx \<le> index_max_entries idx"
    using request_map.used_dom[OF assms] by auto
  have "if k \<noteq> 0 \<and> Find k idx = None \<and> index_size idx < index_max_entries idx
      then \<exists>idx'. Insert k v idx = (idx', True) \<and> wf_index idx' \<and> index_size idx' = Suc (index_size idx)
        \<and> (\<lambda>k'. Find k' idx') = (\<lambda>k'. Find k' idx)(k \<mapsto> v)
      else Insert k v idx = (idx, False)"
    using request_map.insert_ok[OF assms, of k v] request_map.insert_refused[OF assms, of k v] used(2) by auto
  moreover obtain idx' where e: "Erase k idx = Inr (idx', Find k idx \<noteq> None)" "wf_index idx'"
    "(\<lambda>k'. Find k' idx') = (\<lambda>k'. Find k' idx)(k := None)"
    using request_map.erase_ok[OF assms, of k] by blast
  moreover have "index_size idx' = index_size idx - (if Find k idx \<noteq> None then 1 else 0)"
    using request_map.used_erase[OF assms e(1)] .
  ultimately show ?thesis using used wf_Clear[OF assms] by (auto simp: fun_eq_iff)
qed

theorem request_index_is_bounded_map_witness:
  "\<exists>idx idx1. new_index 3 = Inr idx \<and> Insert 5 7 idx = (idx1, True) \<and> Find 5 idx1 = Some 7
     \<and> (\<exists>idx2. Erase 5 idx1 = Inr (idx2, True) \<and> Find 5 idx2 = None)"
proof -
  obtain k where k: "new_index 3 = Inr \<lparr>index_entries = replicate (2 ^ k) empty_entry, index_max_entries = 3,
      index_size = 0\<rparr>" "6 < (2 :: nat) ^ k" using new_index_ok[of 3] by auto
  then obtain idx where idx: "new_index 3 = Inr idx" "wf_index idx" "index_max_entries idx = 3" "index_size idx = 0"
    "Find 5 idx = None" using wf_new_table[of 3 k] by simp
  obtain idx1 where 1: "Insert 5 7 idx = (idx1, True)" "wf_index idx1"
    "(\<lambda>k'. Find k' idx1) = (\<lambda>k'. Find k' idx)(5 \<mapsto> 7)"
    using request_index_is_bounded_map[OF idx(2), of 5 7] idx(3-5) by auto
  have f: "Find 5 idx1 = Some 7" using fun_cong[OF 1(3), of 5] by simp
  obtain idx2 where "Erase 5 idx1 = Inr (idx2, True)" "(\<lambda>k'. Find k' idx2) = (\<lambda>k'. Find k' idx1)(5 := None)"
    using request_index_is_bounded_map[OF 1(2), of 5 7] f by auto
  then have "Erase 5 idx1 = Inr (idx2, True)" "Find 5 idx2 = None" by (auto dest: fun_cong[of _ _ 5])
  with idx 1 f show ?thesis by blast
qed

end
