(* ===== verification/Scheduler_Policy.thy ===== *)
theory Scheduler_Policy
  imports Prelude
begin

text \<open>
  The pure arithmetic of the dynamic-batching scheduler: the decode-first order and token budget
  (\<^verbatim>\<open>src/src/engine/decode_first_scheduler_policy.cpp\<close>), the position arithmetic shared by decoder and cache
  (\<^verbatim>\<open>src/src/engine/sequence_positions.h\<close>, \<^verbatim>\<open>src/src/engine/admission.h\<close>) and the request status predicates
  (\<^verbatim>\<open>src/src/engine/request_status.h\<close>).
\<close>

section \<open>Request status\<close>

datatype RequestStatus = Unassigned | Assigned | Active | TurnComplete | Closed

datatype GenerationFinishReason =
  ReasonNone | EosToken | StopString | TurnLimit | ContextLimit | Canceled | Failed

definition IsQueued :: "RequestStatus \<Rightarrow> bool" where
  "IsQueued status \<longleftrightarrow> status = Assigned"

definition IsExecuting :: "RequestStatus \<Rightarrow> bool" where
  "IsExecuting status \<longleftrightarrow> status = Active"

definition IsExecutable :: "RequestStatus \<Rightarrow> bool" where
  "IsExecutable status \<longleftrightarrow> IsQueued status \<or> IsExecuting status"

definition IsTurnComplete :: "RequestStatus \<Rightarrow> bool" where
  "IsTurnComplete status \<longleftrightarrow> status = TurnComplete"

definition IsClosed :: "RequestStatus \<Rightarrow> bool" where
  "IsClosed status \<longleftrightarrow> status = Closed"

section \<open>Positions\<close>

definition SlotsAfterStep :: "nat \<Rightarrow> nat \<Rightarrow> nat" where
  "SlotsAfterStep processed_length scheduled_tokens = processed_length + scheduled_tokens"

definition SlotsForWholeSequence :: "nat \<Rightarrow> nat" where
  "SlotsForWholeSequence sequence_length = sequence_length"

definition ScheduledTokenCount :: "nat \<Rightarrow> nat option \<Rightarrow> nat" where
  "ScheduledTokenCount unprocessed chunk_size = (case chunk_size of
     None \<Rightarrow> unprocessed
   | Some c \<Rightarrow> if c = 0 then unprocessed else min c unprocessed)"

definition RequiredSlots :: "nat \<Rightarrow> nat \<Rightarrow> nat" where
  "RequiredSlots processed_sequence_length unprocessed_token_count =
     processed_sequence_length + unprocessed_token_count"

section \<open>The decode-first policy\<close>

record DecodeFirstBudgetCandidate =
  is_prefill :: bool
  pending_token_count :: nat
  prefill_token_cap :: "nat option"
  decode_extra_token_count :: nat

datatype policy_error =
  LimitsNotPositive | BudgetNotPositive | SelectionExceedsBudget | NoPendingTokens

definition DecodeFirstCandidateOrder :: "DecodeFirstBudgetCandidate list \<Rightarrow> nat list" where
  "DecodeFirstCandidateOrder candidates =
     filter (\<lambda>i. \<not> is_prefill (candidates ! i)) [0..<length candidates]
     @ filter (\<lambda>i. is_prefill (candidates ! i)) [0..<length candidates]"

definition DecodeFirstProvisionalRequestLimit :: "nat \<Rightarrow> nat \<Rightarrow> policy_error + nat" where
  "DecodeFirstProvisionalRequestLimit max_scheduled_tokens max_batch_size =
     (if max_scheduled_tokens = 0 \<or> max_batch_size = 0 then Inl LimitsNotPositive
      else Inr (min max_scheduled_tokens max_batch_size))"

text \<open>The two passes over the selected candidates. Each takes the remaining budget and the counts of the
  candidates, which start at one, and returns the updated counts and budget.\<close>

fun decode_pass ::
  "DecodeFirstBudgetCandidate list \<Rightarrow> nat list \<Rightarrow> nat \<Rightarrow> policy_error + (nat list \<times> nat)" where
  "decode_pass (candidate # candidates) (token_count # counts) remaining_budget =
     (if pending_token_count candidate = 0 then Inl NoPendingTokens
      else
        let additional_tokens =
              (if is_prefill candidate then 0
               else min (decode_extra_token_count candidate) remaining_budget)
        in bind_result (decode_pass candidates counts (remaining_budget - additional_tokens))
             (\<lambda>(rest, budget). Inr ((token_count + additional_tokens) # rest, budget)))"
| "decode_pass _ counts remaining_budget = Inr (counts, remaining_budget)"

definition prefill_limit :: "DecodeFirstBudgetCandidate \<Rightarrow> nat" where
  "prefill_limit candidate =
     (case prefill_token_cap candidate of
        None \<Rightarrow> pending_token_count candidate
      | Some cap \<Rightarrow> if cap \<noteq> 0 then min (pending_token_count candidate) cap
                    else pending_token_count candidate)"

fun prefill_pass :: "DecodeFirstBudgetCandidate list \<Rightarrow> nat list \<Rightarrow> nat \<Rightarrow> nat list \<times> nat" where
  "prefill_pass (candidate # candidates) (token_count # counts) remaining_budget =
     (let additional_tokens =
            (if \<not> is_prefill candidate then 0 else min (prefill_limit candidate - 1) remaining_budget);
          (rest, budget) = prefill_pass candidates counts (remaining_budget - additional_tokens)
      in ((token_count + additional_tokens) # rest, budget))"
| "prefill_pass _ counts remaining_budget = (counts, remaining_budget)"

definition AllocateDecodeFirstTokenBudget ::
  "DecodeFirstBudgetCandidate list \<Rightarrow> nat \<Rightarrow> policy_error + nat list" where
  "AllocateDecodeFirstTokenBudget selected_candidates max_scheduled_tokens =
     (if max_scheduled_tokens = 0 then Inl BudgetNotPositive
      else if length selected_candidates > max_scheduled_tokens then Inl SelectionExceedsBudget
      else bind_result
        (decode_pass selected_candidates (replicate (length selected_candidates) 1)
           (max_scheduled_tokens - length selected_candidates))
        (\<lambda>(token_counts, remaining_budget).
           Inr (fst (prefill_pass selected_candidates token_counts remaining_budget))))"

section \<open>Greedy distribution\<close>

text \<open>Both passes hand out a budget from left to right, each candidate taking what it wants as long as
  something is left.\<close>

fun grants :: "nat list \<Rightarrow> nat \<Rightarrow> nat list" where
  "grants [] budget = []"
| "grants (want # wants) budget = min want budget # grants wants (budget - min want budget)"

lemma length_grants [simp]: "length (grants wants budget) = length wants"
  by (induction wants arbitrary: budget) auto

lemma sum_grants: "sum_list (grants wants budget) = min (sum_list wants) budget"
  by (induction wants arbitrary: budget) auto

lemma grants_le: "i < length wants \<Longrightarrow> grants wants budget ! i \<le> wants ! i"
  by (induction wants arbitrary: budget i) (auto simp: nth_Cons' split: nat.splits)

lemma grants_full: "sum_list wants \<le> budget \<Longrightarrow> grants wants budget = wants"
  by (induction wants arbitrary: budget) auto

text \<open>First come, first served: whoever gets anything comes after candidates that got all they wanted.\<close>

lemma grants_in_order:
  "i < j \<Longrightarrow> j < length wants \<Longrightarrow> 0 < grants wants budget ! j \<Longrightarrow> grants wants budget ! i = wants ! i"
proof (induction wants arbitrary: budget i j)
  case (Cons want wants)
  obtain j' where j: "j = Suc j'" using Cons.prems(1) by (cases j) auto
  show ?case
  proof (cases i)
    case 0
    have "0 < grants wants (budget - min want budget) ! j'" using Cons.prems j by simp
    moreover have "grants wants 0 ! j' = 0"
      using Cons.prems(2) j sum_grants[of wants 0] member_le_sum_list[of "grants wants 0 ! j'" "grants wants 0"]
      by (simp add: nth_mem)
    ultimately have "budget - min want budget \<noteq> 0" by (metis less_numeral_extra(3))
    then show ?thesis using 0 by simp
  next
    case (Suc i')
    then show ?thesis using Cons j by simp
  qed
qed simp

definition decode_wants :: "DecodeFirstBudgetCandidate \<Rightarrow> nat" where
  "decode_wants c = (if is_prefill c then 0 else decode_extra_token_count c)"

definition prefill_wants :: "DecodeFirstBudgetCandidate \<Rightarrow> nat" where
  "prefill_wants c = (if is_prefill c then prefill_limit c - 1 else 0)"

definition all_pending :: "DecodeFirstBudgetCandidate list \<Rightarrow> bool" where
  "all_pending cs \<longleftrightarrow> list_all (\<lambda>c. pending_token_count c \<noteq> 0) cs"

lemma decode_pass_grants:
  "length counts = length cs \<Longrightarrow>
   decode_pass cs counts budget =
     (if all_pending cs
      then Inr (map2 (+) counts (grants (map decode_wants cs) budget), budget - sum_list (map decode_wants cs))
      else Inl NoPendingTokens)"
proof (induction cs counts budget rule: decode_pass.induct)
  case (1 c cs n counts budget)
  let ?a = "if is_prefill c then 0 else min (decode_extra_token_count c) budget"
  have "?a = min (decode_wants c) budget" by (simp add: decode_wants_def)
  moreover have "budget - min (decode_wants c) budget - sum_list (map decode_wants cs)
      = budget - (decode_wants c + sum_list (map decode_wants cs))" by linarith
  ultimately show ?case
    using 1 by (auto simp: all_pending_def Let_def)
qed (simp_all add: all_pending_def)

lemma prefill_pass_grants:
  "length counts = length cs \<Longrightarrow>
   prefill_pass cs counts budget =
     (map2 (+) counts (grants (map prefill_wants cs) budget), budget - sum_list (map prefill_wants cs))"
proof (induction cs counts budget rule: prefill_pass.induct)
  case (1 c cs n counts budget)
  let ?a = "if \<not> is_prefill c then 0 else min (prefill_limit c - 1) budget"
  have "?a = min (prefill_wants c) budget" by (simp add: prefill_wants_def)
  moreover have "budget - min (prefill_wants c) budget - sum_list (map prefill_wants cs)
      = budget - (prefill_wants c + sum_list (map prefill_wants cs))" by linarith
  ultimately show ?case using 1 by (simp add: Let_def)
qed simp_all

text \<open>The budget in closed form.\<close>

lemma AllocateDecodeFirstTokenBudget_grants:
  "AllocateDecodeFirstTokenBudget cs budget =
     (if budget = 0 then Inl BudgetNotPositive
      else if length cs > budget then Inl SelectionExceedsBudget
      else if \<not> all_pending cs then Inl NoPendingTokens
      else let spare = budget - length cs in
        Inr (map2 (+) (map Suc (grants (map decode_wants cs) spare))
               (grants (map prefill_wants cs) (spare - sum_list (map decode_wants cs)))))"
proof -
  have "map2 (+) (replicate (length xs) 1) xs = map Suc xs" for xs :: "nat list"
    by (induction xs) auto
  from this[of "grants (map decode_wants cs) (budget - length cs)"] show ?thesis
    by (simp add: AllocateDecodeFirstTokenBudget_def decode_pass_grants prefill_pass_grants Let_def)
qed

text \<open>What one candidate may use at most: a decode one token and its drafts, a prefill its pending tokens up
  to its cap.\<close>

definition demand :: "DecodeFirstBudgetCandidate \<Rightarrow> nat" where
  "demand c = (if is_prefill c then prefill_limit c else Suc (decode_extra_token_count c))"

lemma demand_wants:
  "pending_token_count c \<noteq> 0 \<Longrightarrow> demand c = Suc (decode_wants c + prefill_wants c)"
  by (auto simp: demand_def decode_wants_def prefill_wants_def prefill_limit_def min_def split: option.splits)

lemma sum_demand: "all_pending cs \<Longrightarrow>
   sum_list (map demand cs) = length cs + sum_list (map decode_wants cs) + sum_list (map prefill_wants cs)"
  by (induction cs) (auto simp: all_pending_def demand_wants)

lemma token_counts_nth:
  assumes "AllocateDecodeFirstTokenBudget cs budget = Inr counts"
  defines "spare \<equiv> budget - length cs"
  shows "length counts = length cs" and "all_pending cs" and "length cs \<le> budget" and "0 < budget"
    and "i < length cs \<Longrightarrow> counts ! i = Suc (grants (map decode_wants cs) spare ! i
       + grants (map prefill_wants cs) (spare - sum_list (map decode_wants cs)) ! i)"
    and "sum_list counts = length cs + min (sum_list (map decode_wants cs)) spare
       + min (sum_list (map prefill_wants cs)) (spare - sum_list (map decode_wants cs))"
proof -
  have sums: "sum_list (map2 (+) (map Suc xs) ys) = length xs + sum_list xs + sum_list ys"
    if "length xs = length ys" for xs ys :: "nat list"
    using that by (induction xs ys rule: list_induct2) auto
  show "length counts = length cs" and "all_pending cs" and "length cs \<le> budget" and "0 < budget"
    and "i < length cs \<Longrightarrow> counts ! i = Suc (grants (map decode_wants cs) spare ! i
       + grants (map prefill_wants cs) (spare - sum_list (map decode_wants cs)) ! i)"
    and "sum_list counts = length cs + min (sum_list (map decode_wants cs)) spare
       + min (sum_list (map prefill_wants cs)) (spare - sum_list (map decode_wants cs))"
    using assms(1)
    by (auto simp: AllocateDecodeFirstTokenBudget_grants Let_def spare_def sums sum_grants split: if_splits)
qed

section \<open>Properties\<close>

text \<open>The candidate order is a permutation of the candidates in which every decode comes before every
  prefill and candidates of one kind keep their order.\<close>

theorem candidate_order_decode_first:
  "mset (DecodeFirstCandidateOrder cs) = mset [0..<length cs]
   \<and> sorted_wrt (\<lambda>i j. \<not> is_prefill (cs ! i) \<and> is_prefill (cs ! j)
        \<or> is_prefill (cs ! i) = is_prefill (cs ! j) \<and> i < j) (DecodeFirstCandidateOrder cs)"
proof
  have "mset (filter (\<lambda>i. \<not> is_prefill (cs ! i)) [0..<length cs])
      + mset (filter (\<lambda>i. is_prefill (cs ! i)) [0..<length cs]) = mset [0..<length cs]"
    using multiset_partition[of "mset [0..<length cs]" "\<lambda>i. is_prefill (cs ! i)"]
    by (simp add: mset_filter add.commute del: mset_upt)
  then show "mset (DecodeFirstCandidateOrder cs) = mset [0..<length cs]"
    by (simp add: DecodeFirstCandidateOrder_def del: mset_upt)
  have part: "sorted_wrt (\<lambda>i j. \<not> is_prefill (cs ! i) \<and> is_prefill (cs ! j)
        \<or> is_prefill (cs ! i) = is_prefill (cs ! j) \<and> i < j) (filter (\<lambda>i. is_prefill (cs ! i) = b) [0..<length cs])" for b
  proof (rule sorted_wrt_mono_rel[where P = "(<)"])
    show "sorted_wrt (<) (filter (\<lambda>i. is_prefill (cs ! i) = b) [0..<length cs])"
      by (simp add: sorted_wrt_filter)
  qed auto
  show "sorted_wrt (\<lambda>i j. \<not> is_prefill (cs ! i) \<and> is_prefill (cs ! j)
        \<or> is_prefill (cs ! i) = is_prefill (cs ! j) \<and> i < j) (DecodeFirstCandidateOrder cs)"
    using part[of False] part[of True] unfolding DecodeFirstCandidateOrder_def sorted_wrt_append
    by (intro conjI ballI) simp_all
qed

text \<open>C27. A granted budget is feasible, work conserving and decode-first: every candidate gets at least one token and
  at most its demand; the total is the budget or the whole demand, whichever is smaller; a prefill gets more than
  its one token only if every decode got its whole demand, and within one kind earlier candidates are served
  completely before later ones get more than one.\<close>

theorem token_budget_decode_first:
  assumes "AllocateDecodeFirstTokenBudget cs budget = Inr counts"
  shows "length counts = length cs
    \<and> sum_list counts = min budget (sum_list (map demand cs))
    \<and> (\<forall>i < length cs. 1 \<le> counts ! i \<and> counts ! i \<le> demand (cs ! i))
    \<and> (\<forall>i < length cs. \<forall>j < length cs. 1 < counts ! j
        \<and> (\<not> is_prefill (cs ! i) \<and> is_prefill (cs ! j) \<or> is_prefill (cs ! i) = is_prefill (cs ! j) \<and> i < j)
        \<longrightarrow> counts ! i = demand (cs ! i))"
proof -
  note c = token_counts_nth[OF assms]
  let ?spare = "budget - length cs" and ?d = "sum_list (map decode_wants cs)" and ?p = "sum_list (map prefill_wants cs)"
  let ?D = "grants (map decode_wants cs) ?spare" and ?P = "grants (map prefill_wants cs) (?spare - ?d)"
  have dem: "demand (cs ! i) = Suc (decode_wants (cs ! i) + prefill_wants (cs ! i))" if "i < length cs" for i
    using c(2) that by (simp add: all_pending_def list_all_length demand_wants)
  have le: "?D ! i \<le> decode_wants (cs ! i)" "?P ! i \<le> prefill_wants (cs ! i)" if "i < length cs" for i
    using grants_le[of i "map decode_wants cs"] grants_le[of i "map prefill_wants cs"] that by simp_all
  have zero: "is_prefill c \<Longrightarrow> decode_wants c = 0" "\<not> is_prefill c \<Longrightarrow> prefill_wants c = 0" for c
    by (simp_all add: decode_wants_def prefill_wants_def)
  have "sum_list counts = min budget (sum_list (map demand cs))"
    using c(3,6) sum_demand[OF c(2)] by linarith
  moreover have "1 \<le> counts ! i \<and> counts ! i \<le> demand (cs ! i)" if "i < length cs" for i
    using c(5)[OF that] dem[OF that] le[OF that] by simp
  moreover have "counts ! i = demand (cs ! i)"
    if ij: "i < length cs" "j < length cs" and more: "1 < counts ! j"
      and before: "\<not> is_prefill (cs ! i) \<and> is_prefill (cs ! j) \<or> is_prefill (cs ! i) = is_prefill (cs ! j) \<and> i < j"
    for i j
  proof (cases "is_prefill (cs ! j)")
    case True
    then have j: "0 < ?P ! j" using more c(5)[OF ij(2)] le(1)[OF ij(2)] zero(1)[OF True] by simp
    have spare: "?d \<le> ?spare"
    proof (rule ccontr)
      assume "\<not> ?d \<le> ?spare"
      then have "sum_list ?P = 0" by (simp add: sum_grants)
      moreover have "?P ! j \<in> set ?P" using ij(2) by (intro nth_mem) simp
      ultimately show False using j member_le_sum_list[of "?P ! j" ?P] by linarith
    qed
    then have "?D ! i = decode_wants (cs ! i)" using grants_full[of "map decode_wants cs" ?spare] ij(1) by simp
    moreover have "?P ! i = prefill_wants (cs ! i)"
    proof (cases "is_prefill (cs ! i)")
      case True
      with before \<open>is_prefill (cs ! j)\<close> have "i < j" by simp
      with grants_in_order[of i j "map prefill_wants cs"] j ij show ?thesis by simp
    next
      case False
      then show ?thesis using le(2)[OF ij(1)] zero(2)[OF False] by simp
    qed
    ultimately show ?thesis using c(5)[OF ij(1)] dem[OF ij(1)] by simp
  next
    case False
    then have i: "\<not> is_prefill (cs ! i)" "i < j" using before by auto
    have "0 < ?D ! j" using more c(5)[OF ij(2)] le(2)[OF ij(2)] zero(2)[OF False] by simp
    then have "?D ! i = decode_wants (cs ! i)"
      using grants_in_order[OF i(2), of "map decode_wants cs" ?spare] ij by simp
    then show ?thesis using c(5)[OF ij(1)] dem[OF ij(1)] le(2)[OF ij(1)] zero(2)[OF i(1)] by simp
  qed
  ultimately show ?thesis using c(1) by blast
qed

theorem token_budget_decode_first_witness:
  "\<exists>counts. AllocateDecodeFirstTokenBudget
      [\<lparr>is_prefill = True, pending_token_count = 10, prefill_token_cap = Some 4, decode_extra_token_count = 0\<rparr>,
       \<lparr>is_prefill = False, pending_token_count = 1, prefill_token_cap = None, decode_extra_token_count = 3\<rparr>] 7
     = Inr counts \<and> sum_list counts = 7"
proof -
  have run: "AllocateDecodeFirstTokenBudget
      [\<lparr>is_prefill = True, pending_token_count = 10, prefill_token_cap = Some 4, decode_extra_token_count = 0\<rparr>,
       \<lparr>is_prefill = False, pending_token_count = 1, prefill_token_cap = None, decode_extra_token_count = 3\<rparr>] 7
     = Inr [3, 4]" by (simp add: AllocateDecodeFirstTokenBudget_def prefill_limit_def)
  from token_budget_decode_first[OF run] run show ?thesis by (simp add: demand_def prefill_limit_def)
qed

end
