(* ===== verification/Stop_String.thy ===== *)
theory Stop_String
  imports Prelude
begin

text \<open>
  The incremental stop-string matcher (\<^verbatim>\<open>src/src/stop_string_matcher.h\<close>, \<^verbatim>\<open>src/src/stop_string_matcher.cpp\<close>): UTF-8
  validation of the configuration, one Knuth-Morris-Pratt automaton per stop string, and the split of the
  decoded bytes into safe and pending output.

  The loops that follow the failure table get as many rounds as the state they start in;
  \<open>MatcherDiverges\<close> marks a loop that needed more. Absolute byte offsets are natural numbers.
\<close>

section \<open>UTF-8 validation\<close>

definition Utf8SequenceLength :: "byte \<Rightarrow> nat" where
  "Utf8SequenceLength lead =
     (if lead < 0x80 then 1
      else if lead \<ge> 0xC2 \<and> lead \<le> 0xDF then 2
      else if lead \<ge> 0xE0 \<and> lead \<le> 0xEF then 3
      else if lead \<ge> 0xF0 \<and> lead \<le> 0xF4 then 4
      else 0)"

definition is_continuation :: "byte \<Rightarrow> bool" where
  "is_continuation b \<longleftrightarrow> \<not> (b < 0x80 \<or> b > 0xBF)"

text \<open>One round of the loop at the head of the remaining bytes: the length of a well-formed sequence there.\<close>

definition utf8_sequence :: "byte list \<Rightarrow> nat option" where
  "utf8_sequence bytes =
     (let lead = bytes ! 0; length' = Utf8SequenceLength lead in
      if length' = 0 \<or> length' > length bytes then None
      else if \<not> list_all is_continuation (take (length' - 1) (drop 1 bytes)) then None
      else
        let second = (if length' > 1 then bytes ! 1 else 0) in
        if length' = 3 \<and> lead = 0xE0 \<and> second < 0xA0 then None
        else if length' = 3 \<and> lead = 0xED \<and> second > 0x9F then None
        else if length' = 4 \<and> lead = 0xF0 \<and> second < 0x90 then None
        else if length' = 4 \<and> lead = 0xF4 \<and> second > 0x8F then None
        else Some length')"

lemma utf8_sequence_pos: "utf8_sequence bytes = Some n \<Longrightarrow> 0 < n"
  by (auto simp: utf8_sequence_def Let_def split: if_splits)

function IsValidUtf8 :: "byte list \<Rightarrow> bool" where
  "IsValidUtf8 bytes =
     (if bytes = [] then True
      else case utf8_sequence bytes of None \<Rightarrow> False | Some n \<Rightarrow> IsValidUtf8 (drop n bytes))"
  by pat_completeness auto

termination
  by (relation "measure length") (auto dest: utf8_sequence_pos)

declare IsValidUtf8.simps [simp del]

section \<open>The matcher\<close>

definition kMaxStopStringCount :: nat where
  "kMaxStopStringCount = 16"

definition kMaxStopStringTotalBytes :: nat where
  "kMaxStopStringTotalBytes = 16 * 1024"

datatype matcher_error =
    TooManyStopStrings nat
  | EmptyStopString nat
  | InvalidStopString nat
  | StopStringBytesExceeded nat
  | ConsumeAfterFlush
  | MatcherDiverges

fun validate_entries :: "nat \<Rightarrow> byte list list \<Rightarrow> nat \<Rightarrow> matcher_error + nat" where
  "validate_entries i [] total_bytes = Inr total_bytes"
| "validate_entries i (stop_string # stop_strings) total_bytes =
     (if stop_string = [] then Inl (EmptyStopString i)
      else if \<not> IsValidUtf8 stop_string then Inl (InvalidStopString i)
      else validate_entries (Suc i) stop_strings (total_bytes + length stop_string))"

definition ValidateStopStrings :: "byte list list \<Rightarrow> matcher_error + unit" where
  "ValidateStopStrings stop_strings =
     (if length stop_strings > kMaxStopStringCount then Inl (TooManyStopStrings (length stop_strings))
      else bind_result (validate_entries 0 stop_strings 0)
        (\<lambda>total_bytes. if total_bytes > kMaxStopStringTotalBytes then Inl (StopStringBytesExceeded total_bytes)
                       else Inr ()))"

record StopStringMatch =
  match_index :: nat
  start_offset :: nat
  end_offset :: nat

record StopStringMatcher =
  stop_strings :: "byte list list"
  failure_tables :: "nat list list"
  current_prefix_lengths :: "nat list"
  longest_stop_string :: nat
  safe_output :: "byte list"
  pending :: "byte list"
  pending_begin :: nat
  pending_start_offset :: nat
  consumed_bytes :: nat
  match_found :: "StopStringMatch option"
  flushed :: bool

text \<open>The inner \<open>while\<close> of both the table construction and the matching, and the step that follows it.\<close>

fun kmp_fall :: "nat \<Rightarrow> byte list \<Rightarrow> nat list \<Rightarrow> byte \<Rightarrow> nat \<Rightarrow> matcher_error + nat" where
  "kmp_fall rounds pattern failure_table byte matched =
     (if matched > 0 \<and> pattern ! matched \<noteq> byte
      then (case rounds of
              0 \<Rightarrow> Inl MatcherDiverges
            | Suc rounds' \<Rightarrow> kmp_fall rounds' pattern failure_table byte (failure_table ! (matched - 1)))
      else Inr matched)"

declare kmp_fall.simps [simp del]

definition kmp_advance :: "byte list \<Rightarrow> nat list \<Rightarrow> byte \<Rightarrow> nat \<Rightarrow> matcher_error + nat" where
  "kmp_advance pattern failure_table byte matched =
     bind_result (kmp_fall matched pattern failure_table byte matched)
       (\<lambda>m. Inr (if pattern ! m = byte then m + 1 else m))"

fun failure_loop :: "byte list \<Rightarrow> nat list \<Rightarrow> nat \<Rightarrow> nat list \<Rightarrow> matcher_error + nat list" where
  "failure_loop pattern [] matched failure_table = Inr failure_table"
| "failure_loop pattern (k # ks) matched failure_table =
     bind_result (kmp_advance pattern failure_table (pattern ! k) matched)
       (\<lambda>m. failure_loop pattern ks m (failure_table[k := m]))"

definition build_failure_table :: "byte list \<Rightarrow> matcher_error + nat list" where
  "build_failure_table pattern =
     failure_loop pattern [1..<length pattern] 0 (replicate (length pattern) 0)"

fun build_failure_tables :: "byte list list \<Rightarrow> matcher_error + nat list list" where
  "build_failure_tables [] = Inr []"
| "build_failure_tables (pattern # patterns) =
     bind_result (build_failure_table pattern)
       (\<lambda>table. bind_result (build_failure_tables patterns) (\<lambda>tables. Inr (table # tables)))"

definition new_matcher :: "byte list list \<Rightarrow> matcher_error + StopStringMatcher" where
  "new_matcher strings =
     bind_result (ValidateStopStrings strings) (\<lambda>_.
     bind_result (build_failure_tables strings) (\<lambda>tables.
       Inr \<lparr>stop_strings = strings, failure_tables = tables,
            current_prefix_lengths = replicate (length strings) 0,
            longest_stop_string = foldl (\<lambda>longest pattern. max longest (length pattern)) 0 strings,
            safe_output = [], pending = [], pending_begin = 0, pending_start_offset = 0,
            consumed_bytes = 0, match_found = None, flushed = False\<rparr>))"

text \<open>One byte through every automaton, with the best match that completes on it.\<close>

fun advance_all ::
  "byte \<Rightarrow> nat \<Rightarrow> byte list list \<Rightarrow> nat list list \<Rightarrow> nat list \<Rightarrow> nat \<Rightarrow> nat
   \<Rightarrow> matcher_error + (nat list \<times> nat \<times> nat)" where
  "advance_all byte i (pattern # patterns) (table # tables) (prefix_length # prefix_lengths)
     best_length best_index =
     bind_result (kmp_advance pattern table byte prefix_length) (\<lambda>new_length.
       let better = new_length = length pattern \<and> length pattern > best_length in
       bind_result
         (advance_all byte (Suc i) patterns tables prefix_lengths
            (if better then length pattern else best_length) (if better then i else best_index))
         (\<lambda>(lengths, best). Inr (new_length # lengths, best)))"
| "advance_all byte i _ _ _ best_length best_index = Inr ([], best_length, best_index)"

text \<open>The loop over the bytes of a chunk: it ends with the prefix lengths and, if a match completed, the position
  of the completing byte with the length and the index of the match.\<close>

fun consume_loop ::
  "byte list list \<Rightarrow> nat list list \<Rightarrow> byte list \<Rightarrow> nat \<Rightarrow> nat list
   \<Rightarrow> matcher_error + (nat list \<times> (nat \<times> nat \<times> nat) option)" where
  "consume_loop patterns tables [] k prefix_lengths = Inr (prefix_lengths, None)"
| "consume_loop patterns tables (byte # bytes) k prefix_lengths =
     bind_result (advance_all byte 0 patterns tables prefix_lengths 0 0)
       (\<lambda>(lengths, best_length, best_index).
          if best_length \<noteq> 0 then Inr (lengths, Some (k, best_length, best_index))
          else consume_loop patterns tables bytes (Suc k) lengths)"

definition PendingOutput :: "StopStringMatcher \<Rightarrow> byte list" where
  "PendingOutput m = drop (pending_begin m) (pending m)"

text \<open>What \<open>Consume\<close> does after its loop, with the chunk already appended to \<open>pending_\<close>: record the match that
  ended on byte \<open>k\<close> of the chunk, or release the bytes that no active prefix needs and compact the rest.\<close>

definition record_match ::
  "nat \<Rightarrow> nat \<Rightarrow> nat \<Rightarrow> nat \<Rightarrow> StopStringMatcher \<Rightarrow> StopStringMatcher \<times> StopStringMatch option" where
  "record_match previously_pending k best_length best_index m =
     (let end' = pending_start_offset m + previously_pending + k + 1;
          match' = \<lparr>match_index = best_index, start_offset = end' - best_length, end_offset = end'\<rparr>
      in (m\<lparr>match_found := Some match',
            safe_output := safe_output m @
              take (start_offset match' - pending_start_offset m) (drop (pending_begin m) (pending m)),
            pending := [], pending_begin := 0, pending_start_offset := end_offset match'\<rparr>, Some match'))"

definition release_inactive :: "StopStringMatcher \<Rightarrow> StopStringMatcher" where
  "release_inactive m =
     (let longest_active_prefix = foldl max 0 (current_prefix_lengths m);
          release = length (pending m) - pending_begin m - longest_active_prefix;
          begin' = pending_begin m + release;
          live_pending = length (pending m) - begin'
      in m\<lparr>safe_output := safe_output m @ take release (drop (pending_begin m) (pending m)),
           pending_start_offset := pending_start_offset m + release,
           pending := (if begin' \<ge> live_pending
                       then (if live_pending = 0 then [] else drop begin' (pending m))
                       else pending m),
           pending_begin := (if begin' \<ge> live_pending then 0 else begin')\<rparr>)"

definition Consume ::
  "byte list \<Rightarrow> StopStringMatcher \<Rightarrow> matcher_error + (StopStringMatcher \<times> StopStringMatch option)" where
  "Consume bytes m =
     (if flushed m then Inl ConsumeAfterFlush
      else if match_found m \<noteq> None then Inr (m, None)
      else
        let m1 = m\<lparr>consumed_bytes := consumed_bytes m + length bytes\<rparr> in
        if stop_strings m1 = [] then Inr (m1\<lparr>safe_output := safe_output m1 @ bytes\<rparr>, None)
        else
          let previously_pending = length (pending m1) - pending_begin m1;
              m2 = m1\<lparr>pending := pending m1 @ bytes\<rparr>
          in bind_result
               (consume_loop (stop_strings m2) (failure_tables m2) bytes 0 (current_prefix_lengths m2))
               (\<lambda>(lengths, found).
                 let m3 = m2\<lparr>current_prefix_lengths := lengths\<rparr> in
                 case found of
                   Some (k, best_length, best_index) \<Rightarrow>
                     Inr (record_match previously_pending k best_length best_index m3)
                 | None \<Rightarrow> Inr (release_inactive m3, None)))"

definition TakeSafeOutput :: "StopStringMatcher \<Rightarrow> StopStringMatcher \<times> byte list" where
  "TakeSafeOutput m = (m\<lparr>safe_output := []\<rparr>, safe_output m)"

definition Flush :: "StopStringMatcher \<Rightarrow> StopStringMatcher \<times> byte list" where
  "Flush m =
     (let (m1, output) = TakeSafeOutput m in
      (m1\<lparr>pending_start_offset := pending_start_offset m1 + (length (pending m1) - pending_begin m1),
          pending := [], pending_begin := 0, flushed := True\<rparr>,
       output @ drop (pending_begin m1) (pending m1)))"

definition Reset :: "StopStringMatcher \<Rightarrow> StopStringMatcher" where
  "Reset m = m\<lparr>safe_output := [], pending := [], pending_begin := 0, pending_start_offset := 0,
     consumed_bytes := 0, match_found := None, flushed := False,
     current_prefix_lengths := map (\<lambda>_. 0) (current_prefix_lengths m)\<rparr>"

section \<open>Prefixes that are suffixes\<close>

text \<open>The first \<open>j\<close> bytes of the pattern end the text.\<close>

definition active :: "byte list \<Rightarrow> byte list \<Rightarrow> nat \<Rightarrow> bool" where
  "active P T j \<longleftrightarrow> j \<le> length P \<and> suffix (take j P) T"

definition longest_active :: "byte list \<Rightarrow> byte list \<Rightarrow> nat" where
  "longest_active P T = Max {j. active P T j}"

lemma active_0 [simp]: "active P T 0"
  by (simp add: active_def)

lemma finite_active [simp]: "finite {j. active P T j}"
  by (rule finite_subset[of _ "{.. length P}"]) (auto simp: active_def)

lemma longest_active_active: "active P T (longest_active P T)"
proof -
  have "{j. active P T j} \<noteq> {}" using active_0[of P T] by blast
  from Max_in[OF finite_active this] show ?thesis by (simp add: longest_active_def)
qed

lemma active_le_longest: "active P T j \<Longrightarrow> j \<le> longest_active P T"
  unfolding longest_active_def by (rule Max_ge[OF finite_active]) simp

lemma longest_activeI:
  "active P T j \<Longrightarrow> (\<And>i. active P T i \<Longrightarrow> i \<le> j) \<Longrightarrow> longest_active P T = j"
  by (meson active_le_longest le_antisym longest_active_active)

lemma longest_active_le: "longest_active P T \<le> length P"
  using longest_active_active[of P T] by (simp add: active_def)

lemma active_length: "active P T j \<Longrightarrow> j \<le> length T"
  by (auto simp: active_def dest: suffix_length_le)

lemma longest_active_Nil [simp]: "longest_active P [] = 0"
  using active_length[OF longest_active_active[of P "[]"]] by simp

lemma active_snoc: "active P (T @ [b]) (Suc j) \<longleftrightarrow> j < length P \<and> P ! j = b \<and> active P T j"
  by (auto simp: active_def take_Suc_conv_app_nth)

text \<open>Below an active prefix, the active prefixes are the proper borders of that prefix.\<close>

lemma suffix_tl_iff: "suffix xs (tl ys) \<longleftrightarrow> suffix xs ys \<and> (length xs < length ys \<or> ys = [])"
  by (cases ys) (auto simp: suffix_Cons dest: suffix_length_le)

lemma active_border:
  assumes "active P T m" and "0 < m"
  shows "j < m \<and> active P T j \<longleftrightarrow> active P (tl (take m P)) j"
proof
  assume j: "j < m \<and> active P T j"
  have "suffix (take j P) T" "suffix (take m P) T" using j assms by (auto simp: active_def)
  then have "suffix (take j P) (take m P)"
    by (rule suffix_length_suffix) (use j assms in \<open>simp add: active_def\<close>)
  moreover have "length (take j P) < length (take m P)" using j assms by (simp add: active_def)
  ultimately have "suffix (take j P) (tl (take m P))" unfolding suffix_tl_iff by blast
  then show "active P (tl (take m P)) j" using j by (simp add: active_def)
next
  assume j: "active P (tl (take m P)) j"
  then have "j < m" using active_length[OF j] assms by (auto simp: active_def)
  moreover have "suffix (take j P) (take m P)" using j unfolding active_def suffix_tl_iff by blast
  moreover from this have "suffix (take j P) T"
    by (rule suffix_order.trans) (use assms in \<open>simp add: active_def\<close>)
  ultimately show "j < m \<and> active P T j" using assms by (simp add: active_def)
qed

text \<open>What a correct failure table holds, up to an index.\<close>

definition failure_ok :: "byte list \<Rightarrow> nat list \<Rightarrow> nat \<Rightarrow> bool" where
  "failure_ok P table n \<longleftrightarrow> length table = length P
     \<and> (\<forall>k < n. table ! k = longest_active P (tl (take (Suc k) P)))"

lemma kmp_fall_correct:
  assumes "failure_ok P table m" and "active P T m" and "m < length P" and "m \<le> rounds"
    and "\<And>j. m < j \<Longrightarrow> j < length P \<Longrightarrow> active P T j \<Longrightarrow> P ! j \<noteq> b"
  shows "\<exists>r. kmp_fall rounds P table b m = Inr r \<and> active P T r \<and> r < length P \<and> (r = 0 \<or> P ! r = b)
    \<and> (\<forall>j. r < j \<and> j < length P \<and> active P T j \<longrightarrow> P ! j \<noteq> b)"
  using assms
proof (induction rounds arbitrary: m)
  case 0
  then show ?case by (subst kmp_fall.simps) auto
next
  case (Suc rounds)
  show ?case
  proof (cases "m > 0 \<and> P ! m \<noteq> b")
    case False
    with Suc.prems show ?thesis by (subst kmp_fall.simps) auto
  next
    case True
    let ?m = "longest_active P (tl (take m P))"
    have tab: "table ! (m - 1) = ?m" using Suc.prems(1) True by (simp add: failure_ok_def)
    have below: "?m < m" "active P T ?m"
      using active_border[OF Suc.prems(2), of ?m] True longest_active_active by auto
    have "P ! j \<noteq> b" if "?m < j" "j < length P" "active P T j" for j
    proof (cases "j < m")
      case j: True
      then have "active P (tl (take m P)) j" using active_border[OF Suc.prems(2), of j] True that by blast
      then show ?thesis using active_le_longest that(1) by fastforce
    next
      case False
      then show ?thesis using Suc.prems(5)[of j] True that by (cases "j = m") auto
    qed
    moreover have "failure_ok P table ?m" using Suc.prems(1) below by (auto simp: failure_ok_def)
    ultimately have "\<exists>r. kmp_fall rounds P table b ?m = Inr r \<and> active P T r \<and> r < length P \<and> (r = 0 \<or> P ! r = b)
        \<and> (\<forall>j. r < j \<and> j < length P \<and> active P T j \<longrightarrow> P ! j \<noteq> b)"
      using Suc.prems(3,4) below by (intro Suc.IH) auto
    then show ?thesis using True tab by (subst kmp_fall.simps) simp
  qed
qed

lemma kmp_advance_correct:
  assumes "failure_ok P table (longest_active P T)" and "longest_active P T < length P"
  shows "kmp_advance P table b (longest_active P T) = Inr (longest_active P (T @ [b]))"
proof -
  let ?m = "longest_active P T"
  have "\<not> active P T j" if "?m < j" for j using active_le_longest that by fastforce
  then obtain r where r: "kmp_fall ?m P table b ?m = Inr r" "active P T r" "r < length P" "r = 0 \<or> P ! r = b"
    "\<And>j. r < j \<Longrightarrow> j < length P \<Longrightarrow> active P T j \<Longrightarrow> P ! j \<noteq> b"
    using kmp_fall_correct[OF assms(1) longest_active_active assms(2), of ?m b] by blast
  have bound: "i \<le> (if P ! r = b then Suc r else 0)" if i: "active P (T @ [b]) i" for i
  proof (cases i)
    case (Suc j)
    then have "j < length P" "P ! j = b" "active P T j" using i active_snoc by auto
    then have "j \<le> r" using r(5)[of j] by fastforce
    then show ?thesis using \<open>P ! j = b\<close> r(4) Suc by (cases "j = r") auto
  qed simp
  have "longest_active P (T @ [b]) = (if P ! r = b then Suc r else 0)"
    using bound r(2,3) by (intro longest_activeI) (auto simp: active_snoc)
  then show ?thesis using r(1,4) by (auto simp: kmp_advance_def)
qed

section \<open>The failure tables\<close>

text \<open>The table of a pattern is built by running the automaton of the pattern over its own tail.\<close>

lemma failure_loop_correct:
  assumes "1 \<le> k" and "k \<le> length P" and "failure_ok P table k"
  shows "\<exists>table'. failure_loop P [k..<length P] (longest_active P (tl (take k P))) table = Inr table'
    \<and> failure_ok P table' (length P)"
  using assms
proof (induction "length P - k" arbitrary: k table)
  case 0
  then show ?case by auto
next
  case (Suc d)
  let ?T = "tl (take k P)"
  have k: "k < length P" using Suc.hyps(2) by simp
  have "longest_active P ?T \<le> length ?T" using active_length[OF longest_active_active] .
  then have lt: "longest_active P ?T < k" using Suc.prems(1) k by simp
  have ext: "?T @ [P ! k] = tl (take (Suc k) P)"
    using k Suc.prems(1) by (subst take_Suc_conv_app_nth) (auto simp: tl_append split: list.splits)
  have "kmp_advance P table (P ! k) (longest_active P ?T) = Inr (longest_active P (tl (take (Suc k) P)))"
    using kmp_advance_correct[of P table ?T "P ! k"] Suc.prems(3) lt k by (auto simp: failure_ok_def ext)
  moreover have "failure_ok P (table[k := longest_active P (tl (take (Suc k) P))]) (Suc k)"
    using Suc.prems(3) k by (auto simp: failure_ok_def nth_list_update less_Suc_eq)
  moreover have "d = length P - Suc k" using Suc.hyps(2) by simp
  ultimately show ?case
    using Suc.hyps(1)[of "Suc k" "table[k := longest_active P (tl (take (Suc k) P))]"] k
    by (simp add: upt_conv_Cons)
qed

lemma build_failure_table_correct:
  assumes "P \<noteq> []"
  shows "\<exists>table. build_failure_table P = Inr table \<and> failure_ok P table (length P)"
proof -
  have one: "tl (take (Suc 0) P) = []" by (cases P) auto
  then have "failure_ok P (replicate (length P) 0) 1" using assms by (simp add: failure_ok_def)
  from failure_loop_correct[OF _ _ this] assms one show ?thesis
    by (simp add: build_failure_table_def Suc_le_eq)
qed

definition tables_ok :: "byte list list \<Rightarrow> nat list list \<Rightarrow> bool" where
  "tables_ok = list_all2 (\<lambda>P table. P \<noteq> [] \<and> failure_ok P table (length P))"

lemma build_failure_tables_correct:
  "[] \<notin> set Ps \<Longrightarrow> \<exists>tables. build_failure_tables Ps = Inr tables \<and> tables_ok Ps tables"
proof (induction Ps)
  case (Cons P Ps)
  then obtain table tables where "build_failure_table P = Inr table" "failure_ok P table (length P)"
    "build_failure_tables Ps = Inr tables" "tables_ok Ps tables"
    using build_failure_table_correct[of P] by auto
  with Cons.prems show ?case by (auto simp: tables_ok_def)
qed (simp add: tables_ok_def)

section \<open>One byte\<close>

abbreviation prefix_lengths :: "byte list list \<Rightarrow> byte list \<Rightarrow> nat list" where
  "prefix_lengths Ps T \<equiv> map (\<lambda>P. longest_active P T) Ps"

text \<open>No pattern ends the text.\<close>

definition quiet :: "byte list list \<Rightarrow> byte list \<Rightarrow> bool" where
  "quiet Ps T \<longleftrightarrow> (\<forall>P \<in> set Ps. \<not> suffix P T)"

lemma longest_active_full: "longest_active P T = length P \<longleftrightarrow> suffix P T"
  using longest_active_active[of P T] active_le_longest[of P T "length P"] longest_active_le[of P T]
  by (auto simp: active_def)

text \<open>The best pattern that ends the text: the scan keeps the longest one seen so far.\<close>

fun best_of :: "nat \<Rightarrow> byte list list \<Rightarrow> byte list \<Rightarrow> nat \<Rightarrow> nat \<Rightarrow> nat \<times> nat" where
  "best_of i [] T best_length best_index = (best_length, best_index)"
| "best_of i (P # Ps) T best_length best_index =
     (if suffix P T \<and> length P > best_length then best_of (Suc i) Ps T (length P) i
      else best_of (Suc i) Ps T best_length best_index)"

lemma advance_all_correct:
  assumes "tables_ok Ps tables" and "quiet Ps T"
  shows "advance_all b i Ps tables (prefix_lengths Ps T) bl bi
    = Inr (prefix_lengths Ps (T @ [b]), best_of i Ps (T @ [b]) bl bi)"
  using assms
proof (induction Ps arbitrary: tables i bl bi)
  case (Cons P Ps)
  from Cons.prems(1) obtain table tables' where t: "tables = table # tables'"
    "failure_ok P table (length P)" "tables_ok Ps tables'"
    by (cases tables) (auto simp: tables_ok_def)
  have "longest_active P T < length P"
    using Cons.prems(2) longest_active_full[of P T] longest_active_le[of P T] by (auto simp: quiet_def)
  then have "kmp_advance P table b (longest_active P T) = Inr (longest_active P (T @ [b]))"
    using t(2) by (intro kmp_advance_correct) (auto simp: failure_ok_def)
  moreover have "quiet Ps T" using Cons.prems(2) by (simp add: quiet_def)
  ultimately show ?case
    using Cons.IH[OF t(3)] by (auto simp: t(1) Let_def longest_active_full)
qed (auto simp: tables_ok_def)

text \<open>Ranks of candidates: longer first, then the lower index.\<close>

lemma best_of_spec:
  assumes "best_of i Ps T bl bi = (l, j)"
  shows "(l, j) = (bl, bi) \<and> (\<forall>P \<in> set Ps. suffix P T \<longrightarrow> length P \<le> bl)
    \<or> (\<exists>n < length Ps. j = i + n \<and> suffix (Ps ! n) T \<and> l = length (Ps ! n) \<and> bl < l
        \<and> (\<forall>n' < length Ps. suffix (Ps ! n') T \<longrightarrow> length (Ps ! n') \<le> l \<and> (length (Ps ! n') = l \<longrightarrow> n \<le> n')))"
  using assms
proof (induction Ps arbitrary: i bl bi)
  case (Cons P Ps)
  show ?case
  proof (cases "suffix P T \<and> length P > bl")
    case True
    with Cons.prems have run: "best_of (Suc i) Ps T (length P) i = (l, j)" by simp
    from Cons.IH[OF run] show ?thesis
    proof (elim disjE exE conjE)
      assume "(l, j) = (length P, i)" "\<forall>P' \<in> set Ps. suffix P' T \<longrightarrow> length P' \<le> length P"
      with True show ?thesis by (intro disjI2 exI[of _ 0]) (auto simp: less_Suc_eq_0_disj)
    next
      fix n assume n: "n < length Ps" "j = Suc i + n" "suffix (Ps ! n) T" "l = length (Ps ! n)" "length P < l"
        "\<forall>n' < length Ps. suffix (Ps ! n') T \<longrightarrow> length (Ps ! n') \<le> l \<and> (length (Ps ! n') = l \<longrightarrow> n \<le> n')"
      with True show ?thesis
        by (intro disjI2 exI[of _ "Suc n"]) (auto simp: less_Suc_eq_0_disj)
    qed
  next
    case False
    with Cons.prems have run: "best_of (Suc i) Ps T bl bi = (l, j)" by (simp split: if_splits)
    from Cons.IH[OF run] show ?thesis
    proof (elim disjE exE conjE)
      assume "(l, j) = (bl, bi)" "\<forall>P' \<in> set Ps. suffix P' T \<longrightarrow> length P' \<le> bl"
      with False show ?thesis by (intro disjI1) auto
    next
      fix n assume n: "n < length Ps" "j = Suc i + n" "suffix (Ps ! n) T" "l = length (Ps ! n)" "bl < l"
        "\<forall>n' < length Ps. suffix (Ps ! n') T \<longrightarrow> length (Ps ! n') \<le> l \<and> (length (Ps ! n') = l \<longrightarrow> n \<le> n')"
      with False show ?thesis
        by (intro disjI2 exI[of _ "Suc n"]) (auto simp: less_Suc_eq_0_disj)
    qed
  qed
qed simp

section \<open>A chunk\<close>

lemma consume_loop_correct:
  assumes tab: "tables_ok Ps tables" and "quiet Ps T"
    and "consume_loop Ps tables bs k (prefix_lengths Ps T) = r"
  shows "\<exists>lengths found. r = Inr (lengths, found) \<and> (case found of
      None \<Rightarrow> lengths = prefix_lengths Ps (T @ bs) \<and> (\<forall>n \<le> length bs. quiet Ps (T @ take n bs))
    | Some (k', l, j) \<Rightarrow> \<exists>n < length bs. k' = k + n \<and> (\<forall>n' \<le> n. quiet Ps (T @ take n' bs))
        \<and> best_of 0 Ps (T @ take (Suc n) bs) 0 0 = (l, j) \<and> l \<noteq> 0)"
  using assms(2,3)
proof (induction bs arbitrary: k T r)
  case Nil
  then show ?case by auto
next
  case (Cons b bs)
  obtain l j where best: "best_of 0 Ps (T @ [b]) 0 0 = (l, j)" by fastforce
  have step: "advance_all b 0 Ps tables (prefix_lengths Ps T) 0 0 = Inr (prefix_lengths Ps (T @ [b]), l, j)"
    using advance_all_correct[OF tab Cons.prems(1), of b 0 0 0] best by simp
  show ?case
  proof (cases "l = 0")
    case False
    then have "r = Inr (prefix_lengths Ps (T @ [b]), Some (k, l, j))" using Cons.prems(2) step by simp
    with False best Cons.prems(1) show ?thesis
      by (intro exI conjI) (auto intro!: exI[of _ 0])
  next
    case True
    have "P \<noteq> []" if "P \<in> set Ps" for P
      using tab that by (auto simp: tables_ok_def list_all2_conv_all_nth in_set_conv_nth)
    then have q: "quiet Ps (T @ [b])"
      using best_of_spec[OF best] True by (auto simp: quiet_def)
    have "consume_loop Ps tables bs (Suc k) (prefix_lengths Ps (T @ [b])) = r"
      using Cons.prems(2) step True by simp
    from Cons.IH[OF q this] obtain lengths found where r: "r = Inr (lengths, found)"
      and f: "case found of
        None \<Rightarrow> lengths = prefix_lengths Ps ((T @ [b]) @ bs) \<and> (\<forall>n \<le> length bs. quiet Ps ((T @ [b]) @ take n bs))
      | Some (k', l, j) \<Rightarrow> \<exists>n < length bs. k' = Suc k + n \<and> (\<forall>n' \<le> n. quiet Ps ((T @ [b]) @ take n' bs))
          \<and> best_of 0 Ps ((T @ [b]) @ take (Suc n) bs) 0 0 = (l, j) \<and> l \<noteq> 0" by blast
    have shift: "quiet Ps (T @ take n' (b # bs))" if "\<forall>n'' \<le> n. quiet Ps ((T @ [b]) @ take n'' bs)" "n' \<le> Suc n" for n n'
      using that Cons.prems(1) by (cases n') auto
    show ?thesis
    proof (cases found)
      case None
      with f shift[of "length bs"] r show ?thesis by auto
    next
      case (Some x)
      obtain k' l j where x: "x = (k', l, j)" by (cases x) auto
      with f Some obtain n where "n < length bs" "k' = Suc k + n" "\<forall>n' \<le> n. quiet Ps ((T @ [b]) @ take n' bs)"
        "best_of 0 Ps ((T @ [b]) @ take (Suc n) bs) 0 0 = (l, j)" "l \<noteq> 0" by auto
      with r Some x shift[of n] show ?thesis
        by (intro exI[of _ lengths] exI[of _ found]) (auto intro!: exI[of _ "Suc n"])
    qed
  qed
qed

section \<open>The matcher invariant\<close>

lemma foldl_max: "foldl max a xs \<le> n \<longleftrightarrow> a \<le> n \<and> (\<forall>x \<in> set xs. x \<le> (n :: nat))"
  by (induction xs arbitrary: a) auto

lemma foldl_max_le: "x \<in> set xs \<Longrightarrow> x \<le> foldl max (a :: nat) xs"
  using foldl_max[of a xs "foldl max a xs"] by simp

lemma foldl_max_lt: "0 < n \<Longrightarrow> \<forall>x \<in> set xs. x < n \<Longrightarrow> foldl max 0 xs < (n :: nat)"
  using foldl_max[of 0 xs "n - 1"] by (cases n) (auto simp: less_Suc_eq_le)

lemma active_append: "active P (T @ bs) j \<Longrightarrow> j \<le> longest_active P T + length bs"
proof (induction bs arbitrary: j rule: rev_induct)
  case Nil
  then show ?case using active_le_longest by simp
next
  case (snoc b bs)
  show ?case
  proof (cases j)
    case (Suc j')
    then have "active P (T @ bs) j'" using snoc.prems active_snoc[of P "T @ bs" b j'] by simp
    from snoc.IH[OF this] Suc show ?thesis by simp
  qed simp
qed

definition config_ok :: "StopStringMatcher \<Rightarrow> bool" where
  "config_ok m \<longleftrightarrow> tables_ok (stop_strings m) (failure_tables m)
     \<and> longest_stop_string m = foldl (\<lambda>longest P. max longest (length P)) 0 (stop_strings m)"

text \<open>A matcher that has consumed the bytes \<open>B\<close> without a match, of which \<open>out\<close> was already taken as safe output.\<close>

definition scanning :: "byte list \<Rightarrow> byte list \<Rightarrow> StopStringMatcher \<Rightarrow> bool" where
  "scanning B out m \<longleftrightarrow> config_ok m \<and> \<not> flushed m \<and> match_found m = None \<and> consumed_bytes m = length B
     \<and> current_prefix_lengths m = prefix_lengths (stop_strings m) B
     \<and> (\<forall>n \<le> length B. quiet (stop_strings m) (take n B))
     \<and> pending_begin m \<le> length (pending m) \<and> out @ safe_output m @ PendingOutput m = B
     \<and> (stop_strings m \<noteq> [] \<longrightarrow> pending_start_offset m = length (out @ safe_output m))
     \<and> length (PendingOutput m) = foldl max 0 (prefix_lengths (stop_strings m) B)"

text \<open>Stop string number \<open>i\<close> occurs in \<open>B\<close> at offset \<open>st\<close>; the reported match is the occurrence with the earliest
  end, then the earliest start, then the lowest index.\<close>

definition occurs :: "byte list list \<Rightarrow> byte list \<Rightarrow> nat \<Rightarrow> nat \<Rightarrow> bool" where
  "occurs Ps B i st \<longleftrightarrow> i < length Ps \<and> st + length (Ps ! i) \<le> length B
     \<and> take (length (Ps ! i)) (drop st B) = Ps ! i"

definition first_match :: "byte list list \<Rightarrow> byte list \<Rightarrow> StopStringMatch \<Rightarrow> bool" where
  "first_match Ps B mt \<longleftrightarrow> occurs Ps B (match_index mt) (start_offset mt)
     \<and> end_offset mt = start_offset mt + length (Ps ! match_index mt)
     \<and> (\<forall>i st. occurs Ps B i st \<longrightarrow> end_offset mt \<le> st + length (Ps ! i)
          \<and> (end_offset mt = st + length (Ps ! i) \<longrightarrow> start_offset mt \<le> st
               \<and> (start_offset mt = st \<longrightarrow> match_index mt \<le> i)))"

lemma occurs_suffix:
  assumes "occurs Ps B i st"
  shows "suffix (Ps ! i) (take (st + length (Ps ! i)) B)"
proof -
  have "take (st + length (Ps ! i)) B = take st B @ Ps ! i"
    using assms by (simp add: occurs_def take_add)
  then show ?thesis by (simp add: suffix_def)
qed

lemma suffix_occurs:
  assumes "i < length Ps" and "suffix (Ps ! i) (take e B)" and "e \<le> length B"
  shows "length (Ps ! i) \<le> e \<and> occurs Ps B i (e - length (Ps ! i))"
proof -
  let ?P = "Ps ! i"
  have le: "length ?P \<le> e" using suffix_length_le[OF assms(2)] assms(3) by simp
  obtain xs where xs: "take e B = xs @ ?P" using assms(2) by (auto simp: suffix_def)
  then have "length xs = e - length ?P" using assms(3) by (metis add_diff_cancel_right' length_append length_take min.absorb2)
  with xs have "take (length ?P) (drop (e - length ?P) (take e B)) = ?P" by simp
  moreover have "take (length ?P) (drop (e - length ?P) (take e B)) = take (length ?P) (drop (e - length ?P) B)"
    using le by (simp add: drop_take)
  ultimately show ?thesis using assms le by (simp add: occurs_def)
qed

lemma first_match_found:
  assumes "\<forall>n < e. quiet Ps (take n B)" and "best_of 0 Ps (take e B) 0 0 = (l, j)" and "l \<noteq> 0" and "e \<le> length B"
  shows "first_match Ps B \<lparr>match_index = j, start_offset = e - l, end_offset = e\<rparr>"
    and "l \<le> e" and "j < length Ps" and "l = length (Ps ! j)" and "suffix (Ps ! j) (take e B)"
proof -
  from best_of_spec[OF assms(2)] assms(3) have j: "j < length Ps" "suffix (Ps ! j) (take e B)" "l = length (Ps ! j)"
    and best: "\<And>i. i < length Ps \<Longrightarrow> suffix (Ps ! i) (take e B) \<Longrightarrow>
        length (Ps ! i) \<le> l \<and> (length (Ps ! i) = l \<longrightarrow> j \<le> i)" by auto
  have occ: "l \<le> e" "occurs Ps B j (e - l)" using suffix_occurs[OF j(1,2) assms(4)] j(3) by auto
  have "e \<le> st + length (Ps ! i) \<and> (e = st + length (Ps ! i) \<longrightarrow> e - l \<le> st \<and> (e - l = st \<longrightarrow> j \<le> i))"
    if o: "occurs Ps B i st" for i st
  proof -
    have i: "i < length Ps" "Ps ! i \<in> set Ps" using o by (auto simp: occurs_def)
    have "e \<le> st + length (Ps ! i)"
      using assms(1) occurs_suffix[OF o] i(2) by (meson not_less quiet_def)
    moreover have "e - l \<le> st \<and> (e - l = st \<longrightarrow> j \<le> i)" if "e = st + length (Ps ! i)"
      using best[OF i(1)] occurs_suffix[OF o] that occ(1) by auto
    ultimately show ?thesis by blast
  qed
  with occ j show "first_match Ps B \<lparr>match_index = j, start_offset = e - l, end_offset = e\<rparr>"
    by (simp add: first_match_def)
  show "l \<le> e" "j < length Ps" "l = length (Ps ! j)" "suffix (Ps ! j) (take e B)" using occ j by auto
qed

lemma quiet_no_match:
  "\<forall>n \<le> length B. quiet Ps (take n B) \<Longrightarrow> \<not> first_match Ps B mt"
  unfolding first_match_def quiet_def
  by (metis occurs_def occurs_suffix nth_mem)

text \<open>A matcher that has reported the match \<open>mt\<close> in \<open>B\<close>.\<close>

definition stopped :: "byte list \<Rightarrow> byte list \<Rightarrow> StopStringMatch \<Rightarrow> StopStringMatcher \<Rightarrow> bool" where
  "stopped B out mt m \<longleftrightarrow> \<not> flushed m \<and> match_found m = Some mt \<and> first_match (stop_strings m) B mt
     \<and> out @ safe_output m = take (start_offset mt) B \<and> PendingOutput m = []"

lemma first_match_append:
  assumes "first_match Ps B mt"
  shows "first_match Ps (B @ C) mt"
proof -
  have occ: "occurs Ps B (match_index mt) (start_offset mt)"
    and e: "end_offset mt = start_offset mt + length (Ps ! match_index mt)"
    and least: "\<And>i st. occurs Ps B i st \<Longrightarrow> end_offset mt \<le> st + length (Ps ! i)
          \<and> (end_offset mt = st + length (Ps ! i) \<longrightarrow> start_offset mt \<le> st
               \<and> (start_offset mt = st \<longrightarrow> match_index mt \<le> i))"
    using assms by (auto simp: first_match_def)
  have inB: "occurs Ps B i st" if "occurs Ps (B @ C) i st" "st + length (Ps ! i) \<le> length B" for i st
    using that by (auto simp: occurs_def)
  have "end_offset mt \<le> length B" using occ e by (simp add: occurs_def)
  then have "end_offset mt \<le> st + length (Ps ! i)
          \<and> (end_offset mt = st + length (Ps ! i) \<longrightarrow> start_offset mt \<le> st
               \<and> (start_offset mt = st \<longrightarrow> match_index mt \<le> i))" if "occurs Ps (B @ C) i st" for i st
    using least[OF inB[OF that]] by (cases "st + length (Ps ! i) \<le> length B") auto
  moreover have "occurs Ps (B @ C) (match_index mt) (start_offset mt)" using occ by (auto simp: occurs_def)
  ultimately show ?thesis using e by (simp add: first_match_def)
qed

lemma first_match_unique:
  assumes "first_match Ps B mt" and "first_match Ps B mt'"
  shows "mt = mt'"
proof -
  have oc: "occurs Ps B (match_index mt) (start_offset mt)" "occurs Ps B (match_index mt') (start_offset mt')"
    and e: "end_offset mt = start_offset mt + length (Ps ! match_index mt)"
      "end_offset mt' = start_offset mt' + length (Ps ! match_index mt')"
    using assms by (auto simp: first_match_def)
  have "end_offset mt \<le> end_offset mt' \<and> (end_offset mt = end_offset mt' \<longrightarrow> start_offset mt \<le> start_offset mt'
      \<and> (start_offset mt = start_offset mt' \<longrightarrow> match_index mt \<le> match_index mt'))"
    using assms(1) oc(2) e by (simp add: first_match_def)
  moreover have "end_offset mt' \<le> end_offset mt \<and> (end_offset mt' = end_offset mt \<longrightarrow> start_offset mt' \<le> start_offset mt
      \<and> (start_offset mt' = start_offset mt \<longrightarrow> match_index mt' \<le> match_index mt))"
    using assms(2) oc(1) e by (simp add: first_match_def)
  ultimately show ?thesis by (intro StopStringMatch.equality) auto
qed

section \<open>Consuming\<close>

lemma release_inactive_correct:
  assumes "pending_begin m \<le> length (pending m)"
    and "foldl max 0 (current_prefix_lengths m) \<le> length (PendingOutput m)"
  defines "r \<equiv> length (PendingOutput m) - foldl max 0 (current_prefix_lengths m)"
  shows "PendingOutput (release_inactive m) = drop r (PendingOutput m)"
    and "safe_output (release_inactive m) = safe_output m @ take r (PendingOutput m)"
    and "pending_start_offset (release_inactive m) = pending_start_offset m + r"
    and "pending_begin (release_inactive m) \<le> length (pending (release_inactive m))"
proof -
  have r: "length (pending m) - (pending_begin m + foldl max 0 (current_prefix_lengths m)) = r"
    by (simp add: r_def PendingOutput_def)
  show "safe_output (release_inactive m) = safe_output m @ take r (PendingOutput m)"
    and "pending_start_offset (release_inactive m) = pending_start_offset m + r"
    by (simp_all add: release_inactive_def Let_def r PendingOutput_def)
  have "r \<le> length (PendingOutput m)" by (simp add: r_def)
  then show "pending_begin (release_inactive m) \<le> length (pending (release_inactive m))"
    using assms(1) by (auto simp: release_inactive_def Let_def r PendingOutput_def)
  have "drop (pending_begin m + r) (pending m) = drop r (PendingOutput m)"
    by (simp add: PendingOutput_def add.commute)
  then show "PendingOutput (release_inactive m) = drop r (PendingOutput m)"
    by (auto simp: release_inactive_def Let_def r PendingOutput_def)
qed

lemma record_match_eq:
  fixes m :: StopStringMatcher and j l e :: nat
  assumes "pending_start_offset m + previously_pending + k + 1 = e"
  defines "mt \<equiv> \<lparr>match_index = j, start_offset = e - l, end_offset = e\<rparr>"
  shows "record_match previously_pending k l j m =
    (m\<lparr>match_found := Some mt,
       safe_output := safe_output m @ take (e - l - pending_start_offset m) (PendingOutput m),
       pending := [], pending_begin := 0, pending_start_offset := e\<rparr>, Some mt)"
  unfolding record_match_def assms(1) Let_def by (simp add: mt_def PendingOutput_def)

lemma release_inactive_frame [simp]:
  "stop_strings (release_inactive m) = stop_strings m" "failure_tables (release_inactive m) = failure_tables m"
  "longest_stop_string (release_inactive m) = longest_stop_string m" "flushed (release_inactive m) = flushed m"
  "match_found (release_inactive m) = match_found m" "consumed_bytes (release_inactive m) = consumed_bytes m"
  "current_prefix_lengths (release_inactive m) = current_prefix_lengths m"
  by (simp_all add: release_inactive_def Let_def)

lemma prefix_lengths_append:
  "foldl max 0 (prefix_lengths Ps (B @ bs)) \<le> foldl max 0 (prefix_lengths Ps B) + length bs"
proof -
  have "longest_active P (B @ bs) \<le> foldl max 0 (prefix_lengths Ps B) + length bs" if "P \<in> set Ps" for P
    using active_append[OF longest_active_active[of P "B @ bs"]]
      foldl_max_le[of "longest_active P B" "prefix_lengths Ps B" 0] that by fastforce
  then show ?thesis by (auto simp: foldl_max)
qed

lemma Consume_scanning:
  assumes inv: "scanning B out m"
  shows "\<exists>m' r. Consume bs m = Inr (m', r) \<and> stop_strings m' = stop_strings m
    \<and> consumed_bytes m' = length (B @ bs)
    \<and> (case r of None \<Rightarrow> scanning (B @ bs) out m' | Some mt \<Rightarrow> stopped (B @ bs) out mt m')"
proof (cases "stop_strings m = []")
  case True
  have "pending m = [] \<or> PendingOutput m = []" using inv True by (simp add: scanning_def)
  with True inv show ?thesis
    by (auto simp: Consume_def scanning_def PendingOutput_def config_ok_def tables_ok_def quiet_def Let_def)
next
  case False
  let ?Ps = "stop_strings m" and ?live = "PendingOutput m" and ?L = "length (PendingOutput m)"
  have cfg: "tables_ok ?Ps (failure_tables m)" and nf: "\<not> flushed m" "match_found m = None"
    and cons: "consumed_bytes m = length B"
    and lens: "current_prefix_lengths m = prefix_lengths ?Ps B"
    and quiet: "\<And>n. n \<le> length B \<Longrightarrow> quiet ?Ps (take n B)"
    and pb: "pending_begin m \<le> length (pending m)" and out: "out @ safe_output m @ ?live = B"
    and off: "pending_start_offset m = length (out @ safe_output m)"
    and L: "?L = foldl max 0 (prefix_lengths ?Ps B)"
    using inv False by (auto simp: scanning_def config_ok_def)
  have live: "length (pending m) - pending_begin m = ?L" by (simp add: PendingOutput_def)
  have offL: "pending_start_offset m + ?L = length B" using off out by (metis length_append add.assoc)
  from consume_loop_correct[OF cfg quiet[OF order_refl, simplified] refl, of bs 0]
  obtain lengths found where run:
    "consume_loop ?Ps (failure_tables m) bs 0 (prefix_lengths ?Ps B) = Inr (lengths, found)"
    and res: "case found of
      None \<Rightarrow> lengths = prefix_lengths ?Ps (B @ bs) \<and> (\<forall>n \<le> length bs. quiet ?Ps (B @ take n bs))
    | Some (k', l, j) \<Rightarrow> \<exists>n < length bs. k' = 0 + n \<and> (\<forall>n' \<le> n. quiet ?Ps (B @ take n' bs))
        \<and> best_of 0 ?Ps (B @ take (Suc n) bs) 0 0 = (l, j) \<and> l \<noteq> 0" by auto
  have early: "quiet ?Ps (take n (B @ bs))" if "\<forall>n' \<le> k. quiet ?Ps (B @ take n' bs)" "n \<le> length B + k" for n k
    using that quiet[of n] by (cases "n \<le> length B") auto
  show ?thesis
  proof (cases found)
    case None
    let ?L' = "foldl max 0 (prefix_lengths ?Ps (B @ bs))"
    have l': "lengths = prefix_lengths ?Ps (B @ bs)" and q': "\<forall>n \<le> length bs. quiet ?Ps (B @ take n bs)"
      using res None by auto
    have le: "?L' \<le> ?L + length bs" using prefix_lengths_append[of B bs ?Ps] L by simp
    define m3 where "m3 = m\<lparr>consumed_bytes := consumed_bytes m + length bs, pending := pending m @ bs,
        current_prefix_lengths := lengths\<rparr>"
    have p3: "PendingOutput m3 = ?live @ bs" using pb by (simp add: m3_def PendingOutput_def)
    have "pending_begin m3 \<le> length (pending m3)"
      and "foldl max 0 (current_prefix_lengths m3) \<le> length (PendingOutput m3)"
      unfolding p3 using pb le by (simp_all add: m3_def l')
    note rel = release_inactive_correct[OF this, unfolded p3]
    have eq: "Consume bs m = Inr (release_inactive m3, None)"
      using nf False run None lens by (simp add: Consume_def Let_def m3_def)
    have "out @ safe_output (release_inactive m3) @ PendingOutput (release_inactive m3) = B @ bs"
    proof -
      have "take n xs @ drop n xs @ ys = xs @ ys" for n and xs ys :: "byte list" by (simp flip: append_assoc)
      then have "out @ safe_output (release_inactive m3) @ PendingOutput (release_inactive m3)
          = out @ safe_output m3 @ ?live @ bs" by (simp only: rel(1,2) append_assoc append_take_drop_id)
      also have "\<dots> = (out @ safe_output m @ ?live) @ bs" by (simp add: m3_def)
      finally show ?thesis unfolding out .
    qed
    moreover have "length (PendingOutput (release_inactive m3)) = ?L'"
      using le by (simp add: rel(1)) (simp add: m3_def l')
    moreover have "pending_start_offset (release_inactive m3) = length (out @ safe_output (release_inactive m3))"
      using off by (simp add: rel(2,3)) (simp add: m3_def)
    ultimately have "scanning (B @ bs) out (release_inactive m3)"
      using inv l' early[OF q'] rel(4) cons by (auto simp: scanning_def config_ok_def m3_def)
    moreover have "stop_strings (release_inactive m3) = ?Ps" "consumed_bytes (release_inactive m3) = length (B @ bs)"
      using cons by (simp_all add: m3_def)
    ultimately show ?thesis using eq by auto
  next
    case (Some x)
    obtain k l j where x: "x = (k, l, j)" by (cases x) auto
    from res Some x have k: "k < length bs" "\<forall>n' \<le> k. quiet ?Ps (B @ take n' bs)"
      "best_of 0 ?Ps (B @ take (Suc k) bs) 0 0 = (l, j)" "l \<noteq> 0" by auto
    let ?e = "length B + k + 1"
    let ?mt = "\<lparr>match_index = j, start_offset = ?e - l, end_offset = ?e\<rparr>"
    have te: "take ?e (B @ bs) = B @ take (Suc k) bs" using k(1) by simp
    have "\<forall>n < ?e. quiet ?Ps (take n (B @ bs))" using early[OF k(2)] by simp
    from first_match_found[OF this, of l j] te k have fm: "first_match ?Ps (B @ bs) ?mt"
      and j: "l \<le> ?e" "j < length ?Ps" "l = length (?Ps ! j)" "suffix (?Ps ! j) (B @ take (Suc k) bs)" by auto
    have "active (?Ps ! j) (B @ take (Suc k) bs) l" using j by (simp add: active_def)
    from active_append[OF this] have "l \<le> longest_active (?Ps ! j) B + Suc k" using k(1) by simp
    moreover have "longest_active (?Ps ! j) B \<le> ?L"
      unfolding L using j(2) by (intro foldl_max_le) auto
    ultimately have start: "pending_start_offset m \<le> ?e - l" using offL by simp
    have pl: "pending_start_offset m + (length (pending m) - pending_begin m) + k + 1 = ?e" using live offL by simp
    define m3 where "m3 = m\<lparr>consumed_bytes := consumed_bytes m + length bs, pending := pending m @ bs,
        current_prefix_lengths := lengths\<rparr>"
    have p3: "PendingOutput m3 = ?live @ bs" using pb by (simp add: m3_def PendingOutput_def)
    define m' where "m' = m3\<lparr>match_found := Some ?mt,
        safe_output := safe_output m3 @ take (?e - l - pending_start_offset m3) (PendingOutput m3),
        pending := [], pending_begin := 0, pending_start_offset := ?e\<rparr>"
    have "pending_start_offset m3 + (length (pending m) - pending_begin m) + k + 1 = ?e"
      using pl by (simp add: m3_def)
    note rm = record_match_eq[OF this, of l j]
    have eq: "Consume bs m = Inr (m', Some ?mt)"
      using nf False run Some x lens rm by (simp add: Consume_def Let_def m'_def m3_def)
    have m': "stop_strings m' = ?Ps" "\<not> flushed m'" "match_found m' = Some ?mt" "consumed_bytes m' = length (B @ bs)"
      "safe_output m' = safe_output m @ take (?e - l - pending_start_offset m) (?live @ bs)" "PendingOutput m' = []"
      using nf cons unfolding m'_def p3 by (simp_all add: m3_def PendingOutput_def)
    have "out @ safe_output m' = take (?e - l) (B @ bs)"
    proof -
      have "B @ bs = (out @ safe_output m) @ (?live @ bs)" using out by (metis append.assoc)
      then have "take (?e - l) (B @ bs)
          = take (?e - l) (out @ safe_output m) @ take (?e - l - length (out @ safe_output m)) (?live @ bs)"
        by (metis take_append)
      also have "\<dots> = (out @ safe_output m) @ take (?e - l - pending_start_offset m) (?live @ bs)"
        using start off by simp
      finally show ?thesis by (simp add: m'(5))
    qed
    with eq m' fm show ?thesis by (auto simp: stopped_def)
  qed
qed

lemma Consume_stopped:
  assumes "stopped B out mt m"
  shows "Consume bs m = Inr (m, None)" and "stopped (B @ bs) out mt m"
proof -
  show "Consume bs m = Inr (m, None)" using assms by (simp add: Consume_def stopped_def)
  have "start_offset mt \<le> length B" using assms by (auto simp: stopped_def first_match_def occurs_def)
  with assms show "stopped (B @ bs) out mt m"
    by (auto simp: stopped_def intro: first_match_append)
qed

section \<open>A stream of chunks\<close>

text \<open>The way a client uses the matcher: chunk after chunk, taking the safe output after each.\<close>

fun feed :: "byte list list \<Rightarrow> StopStringMatcher \<Rightarrow> byte list \<Rightarrow> matcher_error + (StopStringMatcher \<times> byte list)" where
  "feed [] m out = Inr (m, out)"
| "feed (chunk # chunks) m out =
     bind_result (Consume chunk m) (\<lambda>(m1, _).
       let (m2, safe) = TakeSafeOutput m1 in feed chunks m2 (out @ safe))"

definition fed :: "byte list \<Rightarrow> byte list \<Rightarrow> StopStringMatcher \<Rightarrow> bool" where
  "fed B out m \<longleftrightarrow> scanning B out m \<or> (\<exists>mt. stopped B out mt m)"

lemma TakeSafeOutput_fed:
  "fed B out m \<Longrightarrow> fed B (out @ safe_output m) (fst (TakeSafeOutput m))"
  by (auto simp: fed_def TakeSafeOutput_def scanning_def stopped_def PendingOutput_def config_ok_def)

lemma Consume_fed:
  assumes "fed B out m"
  shows "\<exists>m' r. Consume bs m = Inr (m', r) \<and> fed (B @ bs) out m' \<and> stop_strings m' = stop_strings m"
  using assms Consume_scanning[of B out m bs] Consume_stopped[of B out _ m bs]
  by (auto simp: fed_def split: option.splits)

lemma feed_fed:
  assumes "fed B out m"
  shows "\<exists>m' out'. feed chunks m out = Inr (m', out') \<and> fed (B @ concat chunks) out' m'
    \<and> stop_strings m' = stop_strings m"
  using assms
proof (induction chunks arbitrary: B out m)
  case (Cons c cs)
  from Consume_fed[OF Cons.prems] obtain m1 r where m1: "Consume c m = Inr (m1, r)" "fed (B @ c) out m1"
    "stop_strings m1 = stop_strings m" by blast
  from Cons.IH[OF TakeSafeOutput_fed[OF m1(2)]] m1 show ?case
    by (auto simp: TakeSafeOutput_def)
qed auto

lemma longest_length: "P \<in> set Ps \<Longrightarrow> length P \<le> foldl (\<lambda>longest P. max longest (length P)) a Ps"
  and "a \<le> foldl (\<lambda>longest P. max longest (length P)) a Ps"
  by (induction Ps arbitrary: a) (auto, (meson max.cobounded1 max.cobounded2 order_trans)+)

lemma new_matcher_scanning:
  assumes "new_matcher Ps = Inr m"
  shows "scanning [] [] m" and "stop_strings m = Ps" and "[] \<notin> set Ps"
proof -
  have ne: "[] \<notin> set Ps" if "validate_entries i Ps total = Inr n" for i total n
    using that by (induction i Ps total rule: validate_entries.induct) (auto split: if_splits)
  from assms obtain tables where t: "build_failure_tables Ps = Inr tables"
    and valid: "ValidateStopStrings Ps = Inr ()"
    and m: "m = \<lparr>stop_strings = Ps, failure_tables = tables, current_prefix_lengths = replicate (length Ps) 0,
            longest_stop_string = foldl (\<lambda>longest pattern. max longest (length pattern)) 0 Ps,
            safe_output = [], pending = [], pending_begin = 0, pending_start_offset = 0,
            consumed_bytes = 0, match_found = None, flushed = False\<rparr>"
    by (auto simp: new_matcher_def bind_result_Inr_iff)
  show nonempty: "[] \<notin> set Ps"
    using valid ne by (auto simp: ValidateStopStrings_def bind_result_Inr_iff split: if_splits)
  then have "tables_ok Ps tables" using build_failure_tables_correct t by fastforce
  moreover have "foldl max 0 (map (\<lambda>_. 0) Ps) = (0 :: nat)" by (induction Ps) auto
  ultimately show "scanning [] [] m" and "stop_strings m = Ps"
    using nonempty by (auto simp: m scanning_def config_ok_def quiet_def PendingOutput_def map_replicate_const)
qed

lemma new_matcher_ok:
  "ValidateStopStrings Ps = Inr () \<Longrightarrow> \<exists>m. new_matcher Ps = Inr m"
proof -
  assume valid: "ValidateStopStrings Ps = Inr ()"
  have "[] \<notin> set Ps" if "validate_entries i Ps total = Inr n" for i total n
    using that by (induction i Ps total rule: validate_entries.induct) (auto split: if_splits)
  then have "[] \<notin> set Ps"
    using valid by (auto simp: ValidateStopStrings_def bind_result_Inr_iff split: if_splits)
  with build_failure_tables_correct valid show ?thesis by (fastforce simp: new_matcher_def)
qed

section \<open>Properties\<close>

text \<open>C28. However the decoded bytes are cut into chunks, a matcher built from a valid configuration consumes them
  without error and reports exactly the occurrence of a stop string that ends earliest, among those the one that
  starts earliest, among those the one with the lowest index; it reports nothing if no stop string occurs. The
  output taken chunk by chunk plus what \<open>Flush\<close> returns is the stream up to the match, or all of it.\<close>

theorem matcher_finds_first_match:
  assumes "new_matcher Ps = Inr m" and "B = concat chunks"
  shows "\<exists>m' out. feed chunks m [] = Inr (m', out)
    \<and> (\<forall>mt. match_found m' = Some mt \<longleftrightarrow> first_match Ps B mt)
    \<and> out @ snd (Flush m') = (case match_found m' of None \<Rightarrow> B | Some mt \<Rightarrow> take (start_offset mt) B)"
proof -
  have fed0: "fed [] [] m" and Ps: "stop_strings m = Ps"
    using new_matcher_scanning[OF assms(1)] by (simp_all add: fed_def)
  from feed_fed[OF fed0, of chunks] obtain m' out where run: "feed chunks m [] = Inr (m', out)"
    "fed B out m'" "stop_strings m' = Ps" using assms(2) Ps by auto
  have "\<forall>mt. match_found m' = Some mt \<longleftrightarrow> first_match Ps B mt"
    using run(2,3) quiet_no_match[of B Ps] first_match_unique[of Ps B]
    by (auto simp: fed_def scanning_def stopped_def)
  moreover have "out @ snd (Flush m') = (case match_found m' of None \<Rightarrow> B | Some mt \<Rightarrow> take (start_offset mt) B)"
    using run(2) by (auto simp: fed_def scanning_def stopped_def Flush_def TakeSafeOutput_def PendingOutput_def)
  ultimately show ?thesis using run(1) by blast
qed

text \<open>A small configuration: \<open>ab\<close> and \<open>b\<close>.\<close>

lemma example_matcher: "\<exists>m. new_matcher [[97, 98], [98]] = Inr m"
  by (rule new_matcher_ok)
    (simp add: ValidateStopStrings_def kMaxStopStringCount_def kMaxStopStringTotalBytes_def IsValidUtf8.simps
      utf8_sequence_def Utf8SequenceLength_def Let_def)

theorem matcher_finds_first_match_witness:
  "\<exists>m m' out. new_matcher [[97, 98], [98]] = Inr m \<and> feed [[99, 97], [98]] m [] = Inr (m', out)
     \<and> match_found m' = Some \<lparr>match_index = 0, start_offset = 1, end_offset = 3\<rparr> \<and> out @ snd (Flush m') = [99]"
proof -
  let ?mt = "\<lparr>match_index = 0, start_offset = 1, end_offset = 3\<rparr>"
  let ?Ps = "[[97, 98], [98]] :: byte list list" and ?B = "[99, 97, 98] :: byte list"
  have fm: "first_match ?Ps ?B ?mt"
    unfolding first_match_def occurs_def
    by (auto simp: less_Suc_eq take_Suc_conv_app_nth numeral_2_eq_2 numeral_3_eq_3 drop_Cons' split: if_splits)
  from example_matcher obtain m where m: "new_matcher ?Ps = Inr m" by blast
  have "?B = concat [[99, 97], [98]]" by simp
  from matcher_finds_first_match[OF m this] obtain m' out where
    run: "feed [[99, 97], [98]] m [] = Inr (m', out)"
    and found: "\<forall>mt. match_found m' = Some mt \<longleftrightarrow> first_match ?Ps ?B mt"
    and out: "out @ snd (Flush m') = (case match_found m' of None \<Rightarrow> ?B | Some mt \<Rightarrow> take (start_offset mt) ?B)"
    by blast
  have "match_found m' = Some ?mt" using found fm by blast
  moreover from this have "out @ snd (Flush m') = [99]" using out by simp
  ultimately show ?thesis using m run by blast
qed

text \<open>C29. Between calls the matcher withholds fewer bytes than the longest stop string has, and everything it
  released so far is final: no later match, whatever bytes follow, starts before the end of the released output.\<close>

theorem matcher_withholds_little:
  assumes "new_matcher Ps = Inr m" and "feed chunks m [] = Inr (m', out)" and "match_found m' = None" and "Ps \<noteq> []"
  shows "length (PendingOutput m') < longest_stop_string m'
    \<and> (\<forall>more mt. first_match Ps (concat chunks @ more) mt \<longrightarrow> length (out @ safe_output m') \<le> start_offset mt)"
proof -
  have fed0: "fed [] [] m" and Ps: "stop_strings m = Ps" and ne: "[] \<notin> set Ps"
    using new_matcher_scanning[OF assms(1)] by (simp_all add: fed_def)
  let ?B = "concat chunks"
  from feed_fed[OF fed0, of chunks] assms(2,3) Ps have inv: "scanning ?B out m'" "stop_strings m' = Ps"
    by (auto simp: fed_def stopped_def)
  have L: "length (PendingOutput m') = foldl max 0 (prefix_lengths Ps ?B)"
    and B: "out @ safe_output m' @ PendingOutput m' = ?B"
    and lng: "longest_stop_string m' = foldl (\<lambda>longest P. max longest (length P)) 0 Ps"
    and q: "\<And>n. n \<le> length ?B \<Longrightarrow> quiet Ps (take n ?B)"
    using inv by (auto simp: scanning_def config_ok_def)
  have "longest_active P ?B < longest_stop_string m'" if "P \<in> set Ps" for P
    using q[of "length ?B"] that longest_active_full[of P ?B] longest_active_le[of P ?B] longest_length(1)[OF that, of 0]
    unfolding lng quiet_def by fastforce
  moreover obtain P where "P \<in> set Ps" using assms(4) by (cases Ps) auto
  ultimately have "length (PendingOutput m') < longest_stop_string m'"
    unfolding L by (intro foldl_max_lt) (auto intro: order_le_less_trans)
  moreover have "length (out @ safe_output m') \<le> start_offset mt" if fm: "first_match Ps (?B @ more) mt" for more mt
  proof -
    let ?P = "Ps ! match_index mt" and ?e = "end_offset mt"
    have o: "occurs Ps (?B @ more) (match_index mt) (start_offset mt)" and e: "?e = start_offset mt + length ?P"
      using fm by (auto simp: first_match_def)
    then have P: "?P \<in> set Ps" and le: "?e \<le> length ?B + length more" by (auto simp: occurs_def)
    have suf: "suffix ?P (take ?e (?B @ more))" using occurs_suffix[OF o] e by simp
    have "length ?B < ?e"
    proof (rule ccontr)
      assume "\<not> length ?B < ?e"
      with suf q[of ?e] P show False by (simp add: quiet_def)
    qed
    then have "take ?e (?B @ more) = ?B @ take (?e - length ?B) more" by simp
    with suf have "active ?P (?B @ take (?e - length ?B) more) (length ?P)" by (simp add: active_def)
    from active_append[OF this] have "length ?P \<le> longest_active ?P ?B + (?e - length ?B)" using le by simp
    also have "longest_active ?P ?B \<le> length (PendingOutput m')"
      unfolding L using P by (intro foldl_max_le) auto
    finally have "length ?B - length (PendingOutput m') \<le> start_offset mt" using e \<open>length ?B < ?e\<close> by linarith
    moreover have "length (out @ safe_output m') = length ?B - length (PendingOutput m')"
      using B by (metis add_diff_cancel_right' append.assoc length_append)
    ultimately show ?thesis by simp
  qed
  ultimately show ?thesis by blast
qed

theorem matcher_withholds_little_witness:
  "\<exists>m m' out. new_matcher [[97, 98], [98]] = Inr m \<and> feed [[99], [97]] m [] = Inr (m', out)
     \<and> length (PendingOutput m') < 2"
proof -
  let ?Ps = "[[97, 98], [98]] :: byte list list"
  from example_matcher obtain m where m: "new_matcher ?Ps = Inr m" by blast
  note s = new_matcher_scanning[OF m]
  have "fed [] [] m" using s(1) by (simp add: fed_def)
  from feed_fed[OF this, of "[[99], [97]]"] obtain m' out where r: "feed [[99], [97]] m [] = Inr (m', out)"
    "fed [99, 97] out m'" "stop_strings m' = ?Ps" using s(2) by auto
  have none: "match_found m' = None"
  proof (rule ccontr)
    assume "match_found m' \<noteq> None"
    then obtain mt where "first_match ?Ps [99, 97] mt" using r by (auto simp: fed_def stopped_def scanning_def)
    then show False
      unfolding first_match_def occurs_def
      by (auto simp: less_Suc_eq take_Suc_conv_app_nth numeral_2_eq_2 drop_Cons' split: if_splits)
  qed
  then have "longest_stop_string m' = 2" using r by (auto simp: fed_def stopped_def scanning_def config_ok_def)
  with matcher_withholds_little[OF m r(1) none] m r(1) show ?thesis by auto
qed

end
