(* ===== verification/Stop_Controller.thy ===== *)
theory Stop_Controller
  imports Stop_String
begin

text \<open>
  The token-aware owner of a stop-string matcher (\<^verbatim>\<open>src/src/stop_string_controller.h\<close>,
  \<^verbatim>\<open>src/src/stop_string_controller.cpp\<close>). The tokenizer is not part of the sources: it is a parameter with
  an operation that creates a decoding stream and one that decodes a token, both of which may fail. Its
  stream cannot be copied, so a rollback decodes the retained tokens again.
\<close>

section \<open>The controller\<close>

record ('s, 'e) Tokenizer =
  create_stream :: "'e + 's"
  decode_token :: "token \<Rightarrow> 's \<Rightarrow> 'e + 's \<times> byte list"

datatype 'e controller_error =
    TokenizerRequired
  | RollbackBeyondHistory
  | MatcherFailure matcher_error
  | TokenizerFailure 'e

record 's StopStringController =
  ctl_stream :: 's
  ctl_matcher :: StopStringMatcher
  turn_tokens :: "token list"

definition lift_error :: "('e \<Rightarrow> 'f) \<Rightarrow> 'e + 'a \<Rightarrow> 'f + 'a" where
  "lift_error f r = (case r of Inl e \<Rightarrow> Inl (f e) | Inr x \<Rightarrow> Inr x)"

lemma lift_error_Inr_iff [simp]: "lift_error f r = Inr x \<longleftrightarrow> r = Inr x"
  by (cases r) (auto simp: lift_error_def)

lemma lift_error_Inr [simp]: "lift_error f (Inr x) = Inr x"
  by simp

definition RebuildStream :: "('s, 'e) Tokenizer \<Rightarrow> 'e controller_error + 's" where
  "RebuildStream tokenizer = lift_error TokenizerFailure (create_stream tokenizer)"

definition new_controller ::
  "('s, 'e) Tokenizer option \<Rightarrow> byte list list \<Rightarrow> 'e controller_error + 's StopStringController" where
  "new_controller tokenizer strings =
     bind_result (lift_error MatcherFailure (new_matcher strings)) (\<lambda>matcher.
       case tokenizer of
         None \<Rightarrow> Inl TokenizerRequired
       | Some t \<Rightarrow> bind_result (RebuildStream t)
           (\<lambda>stream. Inr \<lparr>ctl_stream = stream, ctl_matcher = matcher, turn_tokens = []\<rparr>))"

definition DecodeIntoMatcher ::
  "('s, 'e) Tokenizer \<Rightarrow> token \<Rightarrow> 's StopStringController \<Rightarrow> 'e controller_error + 's StopStringController" where
  "DecodeIntoMatcher tokenizer token c =
     bind_result (lift_error TokenizerFailure (decode_token tokenizer token (ctl_stream c))) (\<lambda>(stream, bytes).
     bind_result (lift_error MatcherFailure (Consume bytes (ctl_matcher c))) (\<lambda>(matcher, _).
       Inr (c\<lparr>ctl_stream := stream, ctl_matcher := matcher\<rparr>)))"

definition drain_safe_output :: "'s StopStringController \<Rightarrow> 's StopStringController" where
  "drain_safe_output c = c\<lparr>ctl_matcher := fst (TakeSafeOutput (ctl_matcher c))\<rparr>"

definition ObserveToken ::
  "('s, 'e) Tokenizer \<Rightarrow> token \<Rightarrow> 's StopStringController
   \<Rightarrow> 'e controller_error + ('s StopStringController \<times> StopStringMatch option)" where
  "ObserveToken tokenizer token c =
     bind_result (DecodeIntoMatcher tokenizer token (c\<lparr>turn_tokens := turn_tokens c @ [token]\<rparr>)) (\<lambda>c1.
       let c2 = drain_safe_output c1 in Inr (c2, match_found (ctl_matcher c2)))"

fun replay_tokens ::
  "('s, 'e) Tokenizer \<Rightarrow> token list \<Rightarrow> 's StopStringController \<Rightarrow> 'e controller_error + 's StopStringController" where
  "replay_tokens tokenizer [] c = Inr c"
| "replay_tokens tokenizer (token # tokens) c =
     bind_result (DecodeIntoMatcher tokenizer token c) (\<lambda>c1. replay_tokens tokenizer tokens (drain_safe_output c1))"

definition RollbackTo ::
  "('s, 'e) Tokenizer \<Rightarrow> nat \<Rightarrow> 's StopStringController \<Rightarrow> 'e controller_error + 's StopStringController" where
  "RollbackTo tokenizer committed_token_count c =
     (if committed_token_count > length (turn_tokens c) then Inl RollbackBeyondHistory
      else if committed_token_count = length (turn_tokens c) then Inr c
      else
        let c1 = c\<lparr>turn_tokens := take committed_token_count (turn_tokens c),
                   ctl_matcher := Reset (ctl_matcher c)\<rparr>
        in bind_result (RebuildStream tokenizer)
             (\<lambda>stream. replay_tokens tokenizer (turn_tokens c1) (c1\<lparr>ctl_stream := stream\<rparr>)))"

section \<open>Logs that can be rolled back by replay\<close>

text \<open>The contract: the state keeps the list of what it observed, and rolling back to a shorter history gives the
  state that observing only that history gives.\<close>

locale replayable_log =
  fixes start :: "'f + 's"
    and observe :: "'a \<Rightarrow> 's \<Rightarrow> 'f + 's"
    and history :: "'s \<Rightarrow> 'a list"
    and rollback :: "nat \<Rightarrow> 's \<Rightarrow> 'f + 's"
  assumes history_start: "start = Inr s \<Longrightarrow> history s = []"
    and history_observe: "observe a s = Inr s' \<Longrightarrow> history s' = history s @ [a]"
    and rollback_now: "rollback (length (history s)) s = Inr s"
    and rollback_earlier: "start = Inr s0 \<Longrightarrow> run_result observe xs s0 = Inr s \<Longrightarrow> n < length xs \<Longrightarrow>
      rollback n s = run_result observe (take n xs) s0"
begin

lemma history_run: "run_result observe xs s = Inr s' \<Longrightarrow> history s' = history s @ xs"
proof (induction xs arbitrary: s)
  case (Cons x xs)
  then show ?case by (auto simp: bind_result_Inr_iff dest: history_observe)
qed simp

text \<open>A transaction that saves the length of the history, observes more and rolls back ends where it began.\<close>

lemma rollback_to_checkpoint:
  assumes "start = Inr s0" and "run_result observe xs s0 = Inr s" and "run_result observe ys s = Inr s'"
  shows "rollback (length (history s)) s' = Inr s"
proof (cases "ys = []")
  case True
  then show ?thesis using assms(3) rollback_now by simp
next
  case False
  have "run_result observe (xs @ ys) s0 = Inr s'" using assms by (simp add: run_result_append)
  moreover have "length (history s) = length xs" using history_run[OF assms(2)] history_start[OF assms(1)] by simp
  ultimately show ?thesis using rollback_earlier[OF assms(1), of "xs @ ys" s' "length xs"] assms(2) False by simp
qed

end

section \<open>Rollback is replay\<close>

text \<open>Observing without the reported match.\<close>

definition observe_only ::
  "('s, 'e) Tokenizer \<Rightarrow> token \<Rightarrow> 's StopStringController \<Rightarrow> 'e controller_error + 's StopStringController" where
  "observe_only tokenizer token c = bind_result (ObserveToken tokenizer token c) (\<lambda>(c1, _). Inr c1)"

lemma DecodeIntoMatcher_turn_tokens:
  "DecodeIntoMatcher t token (c\<lparr>turn_tokens := ts\<rparr>)
     = bind_result (DecodeIntoMatcher t token c) (\<lambda>c1. Inr (c1\<lparr>turn_tokens := ts\<rparr>))"
proof (cases "decode_token t token (ctl_stream c)")
  case (Inr sb)
  obtain stream bytes where sb: "sb = (stream, bytes)" by fastforce
  show ?thesis
    by (cases "Consume bytes (ctl_matcher c)") (auto simp: DecodeIntoMatcher_def Inr sb lift_error_def)
qed (simp add: DecodeIntoMatcher_def lift_error_def)

lemma observe_only_decode:
  "observe_only t token c
     = bind_result (DecodeIntoMatcher t token c) (\<lambda>c1. Inr ((drain_safe_output c1)\<lparr>turn_tokens := turn_tokens c @ [token]\<rparr>))"
  by (cases "DecodeIntoMatcher t token c")
    (simp_all add: observe_only_def ObserveToken_def DecodeIntoMatcher_turn_tokens drain_safe_output_def Let_def)

lemma replay_tokens_observe:
  "replay_tokens t xs (c\<lparr>turn_tokens := ts\<rparr>)
     = bind_result (run_result (observe_only t) xs c) (\<lambda>c1. Inr (c1\<lparr>turn_tokens := ts\<rparr>))"
proof (induction xs arbitrary: c)
  case (Cons x xs)
  show ?case
  proof (cases "DecodeIntoMatcher t x c")
    case (Inl e)
    then show ?thesis by (simp add: DecodeIntoMatcher_turn_tokens observe_only_decode)
  next
    case (Inr c1)
    have swap: "c1\<lparr>turn_tokens := ts, ctl_matcher := m\<rparr> = c1\<lparr>ctl_matcher := m, turn_tokens := ts\<rparr>" for m
      by (cases c1) simp
    have "replay_tokens t (x # xs) (c\<lparr>turn_tokens := ts\<rparr>)
        = replay_tokens t xs (((drain_safe_output c1)\<lparr>turn_tokens := turn_tokens c @ [x]\<rparr>)\<lparr>turn_tokens := ts\<rparr>)"
      by (simp add: DecodeIntoMatcher_turn_tokens Inr drain_safe_output_def swap)
    also have "\<dots> = bind_result (run_result (observe_only t) xs ((drain_safe_output c1)\<lparr>turn_tokens := turn_tokens c @ [x]\<rparr>))
        (\<lambda>c1. Inr (c1\<lparr>turn_tokens := ts\<rparr>))" by (rule Cons.IH)
    moreover have "observe_only t x c = Inr ((drain_safe_output c1)\<lparr>turn_tokens := turn_tokens c @ [x]\<rparr>)"
      by (simp add: observe_only_decode Inr)
    ultimately show ?thesis by simp
  qed
qed simp

subsection \<open>The configuration survives\<close>

definition shape_ok :: "StopStringMatcher \<Rightarrow> bool" where
  "shape_ok m \<longleftrightarrow> length (failure_tables m) = length (stop_strings m)
     \<and> length (current_prefix_lengths m) = length (stop_strings m)"

lemma length_advance_all:
  "advance_all b i Ps tables lens bl bi = Inr (lens', best) \<Longrightarrow> length tables = length Ps \<Longrightarrow>
   length lens = length Ps \<Longrightarrow> length lens' = length Ps"
  by (induction b i Ps tables lens bl bi arbitrary: lens' best rule: advance_all.induct)
    (auto simp: bind_result_Inr_iff Let_def)

lemma length_consume_loop:
  "consume_loop Ps tables bs k lens = Inr (lens', found) \<Longrightarrow> length tables = length Ps \<Longrightarrow>
   length lens = length Ps \<Longrightarrow> length lens' = length Ps"
  by (induction Ps tables bs k lens arbitrary: lens' found rule: consume_loop.induct)
    (auto simp: bind_result_Inr_iff dest!: length_advance_all split: if_splits)

lemma Reset_cong:
  "stop_strings m' = stop_strings m \<Longrightarrow> failure_tables m' = failure_tables m \<Longrightarrow>
   longest_stop_string m' = longest_stop_string m \<Longrightarrow>
   length (current_prefix_lengths m') = length (current_prefix_lengths m) \<Longrightarrow> Reset m' = Reset m"
  by (simp add: Reset_def map_replicate_const)

lemma Consume_Reset:
  assumes "Consume bs m = Inr (m', r)" and "shape_ok m"
  shows "shape_ok m' \<and> Reset m' = Reset m"
proof (cases "flushed m \<or> match_found m \<noteq> None \<or> stop_strings m = []")
  case True
  then show ?thesis
    using assms by (auto simp: Consume_def shape_ok_def Let_def intro!: Reset_cong split: if_splits)
next
  case False
  then obtain lens found where loop:
    "consume_loop (stop_strings m) (failure_tables m) bs 0 (current_prefix_lengths m) = Inr (lens, found)"
    using assms(1) by (auto simp: Consume_def Let_def bind_result_Inr_iff)
  have len: "length lens = length (stop_strings m)"
    using length_consume_loop[OF loop] assms(2) by (simp add: shape_ok_def)
  have "stop_strings m' = stop_strings m" "failure_tables m' = failure_tables m"
    "longest_stop_string m' = longest_stop_string m" "current_prefix_lengths m' = lens"
    using assms(1) False loop
    by (auto simp: Consume_def Let_def record_match_def split: option.splits)
  then show ?thesis using assms(2) len by (auto simp: shape_ok_def intro!: Reset_cong)
qed

lemma observe_Reset:
  assumes "observe_only t token c = Inr c'" and "shape_ok (ctl_matcher c)"
  shows "shape_ok (ctl_matcher c') \<and> Reset (ctl_matcher c') = Reset (ctl_matcher c)"
    and "turn_tokens c' = turn_tokens c @ [token]"
proof -
  obtain c1 where c1: "DecodeIntoMatcher t token c = Inr c1"
    "c' = (drain_safe_output c1)\<lparr>turn_tokens := turn_tokens c @ [token]\<rparr>"
    using assms(1) by (auto simp: observe_only_decode bind_result_Inr_iff)
  then obtain bytes r where "Consume bytes (ctl_matcher c) = Inr (ctl_matcher c1, r)"
    by (auto simp: DecodeIntoMatcher_def bind_result_Inr_iff)
  from Consume_Reset[OF this assms(2)] c1(2)
  show "shape_ok (ctl_matcher c') \<and> Reset (ctl_matcher c') = Reset (ctl_matcher c)"
    by (auto simp: drain_safe_output_def TakeSafeOutput_def shape_ok_def Reset_def)
  show "turn_tokens c' = turn_tokens c @ [token]" using c1(2) by simp
qed

lemma run_Reset:
  assumes "run_result (observe_only t) xs c = Inr c'" and "shape_ok (ctl_matcher c)"
  shows "shape_ok (ctl_matcher c') \<and> Reset (ctl_matcher c') = Reset (ctl_matcher c)
    \<and> turn_tokens c' = turn_tokens c @ xs"
  using assms
proof (induction xs arbitrary: c)
  case (Cons x xs)
  then obtain c1 where "observe_only t x c = Inr c1" "run_result (observe_only t) xs c1 = Inr c'"
    by (auto simp: bind_result_Inr_iff)
  with Cons.IH[of c1] Cons.prems(2) observe_Reset[of t x c c1] show ?case by auto
qed simp

lemma new_matcher_Reset:
  assumes "new_matcher Ps = Inr m"
  shows "shape_ok m" and "Reset m = m"
proof -
  have "length tables = length Ps" if "build_failure_tables Ps = Inr tables" for tables
    using that by (induction Ps arbitrary: tables) (auto simp: bind_result_Inr_iff)
  then show "shape_ok m" and "Reset m = m"
    using assms by (auto simp: new_matcher_def bind_result_Inr_iff shape_ok_def Reset_def map_replicate_const)
qed

lemma new_controller_start:
  assumes "new_controller (Some t) Ps = Inr c"
  obtains stream where "RebuildStream t = Inr stream" and "c = \<lparr>ctl_stream = stream, ctl_matcher = ctl_matcher c, turn_tokens = []\<rparr>"
    and "new_matcher Ps = Inr (ctl_matcher c)"
  using assms by (auto simp: new_controller_def bind_result_Inr_iff)

interpretation controller_log: replayable_log "new_controller (Some t) Ps" "observe_only t" turn_tokens "RollbackTo t"
  for t Ps
proof
  show "turn_tokens s = []" if "new_controller (Some t) Ps = Inr s" for s
    using that by (auto simp: new_controller_def bind_result_Inr_iff)
  show "turn_tokens s' = turn_tokens s @ [a]" if "observe_only t a s = Inr s'" for a s s'
    using that by (auto simp: observe_only_decode bind_result_Inr_iff)
  show "RollbackTo t (length (turn_tokens s)) s = Inr s" for s
    by (simp add: RollbackTo_def)
  show "RollbackTo t n s = run_result (observe_only t) (take n xs) s0"
    if s0: "new_controller (Some t) Ps = Inr s0" and run: "run_result (observe_only t) xs s0 = Inr s" and n: "n < length xs"
    for s0 s xs n
  proof -
    obtain stream where st: "RebuildStream t = Inr stream"
      "s0 = \<lparr>ctl_stream = stream, ctl_matcher = ctl_matcher s0, turn_tokens = []\<rparr>" "new_matcher Ps = Inr (ctl_matcher s0)"
      using new_controller_start[OF s0] by blast
    note m0 = new_matcher_Reset[OF st(3)]
    have "turn_tokens s0 = []" by (subst st(2)) simp
    with run_Reset[OF run m0(1)] m0(2) have s: "Reset (ctl_matcher s) = ctl_matcher s0" "turn_tokens s = xs" by auto
    have cs: "s\<lparr>turn_tokens := ts, ctl_matcher := ctl_matcher s0, ctl_stream := stream\<rparr> = s0\<lparr>turn_tokens := ts\<rparr>" for ts
    proof -
      have "ctl_stream s0 = stream" by (subst st(2)) simp
      then show ?thesis by (intro StopStringController.equality) simp_all
    qed
    have "RollbackTo t n s = replay_tokens t (take n xs) (s0\<lparr>turn_tokens := take n xs\<rparr>)"
      using n by (simp add: RollbackTo_def s st(1) cs Let_def)
    also have "\<dots> = bind_result (run_result (observe_only t) (take n xs) s0) (\<lambda>c1. Inr (c1\<lparr>turn_tokens := take n xs\<rparr>))"
      by (rule replay_tokens_observe)
    also have "\<dots> = run_result (observe_only t) (take n xs) s0"
    proof (cases "run_result (observe_only t) (take n xs) s0")
      case (Inr c1)
      have "turn_tokens c1 = take n xs"
        using run_Reset[OF Inr m0(1)] \<open>turn_tokens s0 = []\<close> by simp
      then show ?thesis by (simp add: Inr)
    qed simp
    finally show ?thesis .
  qed
qed

section \<open>Properties\<close>

text \<open>The chunks that a list of tokens decodes to.\<close>

fun decode_chunks :: "('s, 'e) Tokenizer \<Rightarrow> token list \<Rightarrow> 's \<Rightarrow> 'e + byte list list" where
  "decode_chunks t [] stream = Inr []"
| "decode_chunks t (token # tokens) stream =
     bind_result (decode_token t token stream) (\<lambda>(stream', bytes).
       bind_result (decode_chunks t tokens stream') (\<lambda>chunks. Inr (bytes # chunks)))"

lemma observe_feed:
  assumes "decode_chunks t tokens (ctl_stream c) = Inr chunks" and "fed B out (ctl_matcher c)"
  shows "\<exists>c' out'. run_result (observe_only t) tokens c = Inr c'
    \<and> feed chunks (ctl_matcher c) out = Inr (ctl_matcher c', out')"
  using assms
proof (induction tokens arbitrary: c chunks B out)
  case (Cons x xs)
  from Cons.prems(1) obtain stream bytes rest where d: "decode_token t x (ctl_stream c) = Inr (stream, bytes)"
    "decode_chunks t xs stream = Inr rest" "chunks = bytes # rest"
    by (auto simp: bind_result_Inr_iff)
  from Consume_fed[OF Cons.prems(2), of bytes] obtain m1 r where m1: "Consume bytes (ctl_matcher c) = Inr (m1, r)"
    "fed (B @ bytes) out m1" by blast
  define c1 where "c1 = (drain_safe_output (c\<lparr>ctl_stream := stream, ctl_matcher := m1\<rparr>))\<lparr>turn_tokens := turn_tokens c @ [x]\<rparr>"
  have obs: "observe_only t x c = Inr c1"
    by (simp add: observe_only_decode DecodeIntoMatcher_def d m1 c1_def)
  have c1: "ctl_stream c1 = stream" "ctl_matcher c1 = fst (TakeSafeOutput m1)"
    by (simp_all add: c1_def drain_safe_output_def)
  have "fed (B @ bytes) (out @ safe_output m1) (ctl_matcher c1)" using TakeSafeOutput_fed[OF m1(2)] c1 by simp
  from Cons.IH[OF _ this] d(2) c1(1) obtain c' out' where "run_result (observe_only t) xs c1 = Inr c'"
    "feed rest (ctl_matcher c1) (out @ safe_output m1) = Inr (ctl_matcher c', out')" by auto
  then show ?case using obs m1(1) d(3) c1(2) by (auto simp: TakeSafeOutput_def)
qed auto

lemma controller_matches:
  assumes "new_controller (Some t) Ps = Inr c" and "decode_chunks t tokens (ctl_stream c) = Inr chunks"
  shows "\<exists>c'. run_result (observe_only t) tokens c = Inr c' \<and> turn_tokens c' = tokens
    \<and> (\<forall>mt. match_found (ctl_matcher c') = Some mt \<longleftrightarrow> first_match Ps (concat chunks) mt)"
proof -
  have m: "new_matcher Ps = Inr (ctl_matcher c)" using new_controller_start[OF assms(1)] by blast
  note scan = new_matcher_scanning[OF m]
  then have fed0: "fed [] [] (ctl_matcher c)" by (simp add: fed_def)
  from observe_feed[OF assms(2) fed0] obtain c' out where run: "run_result (observe_only t) tokens c = Inr c'"
    "feed chunks (ctl_matcher c) [] = Inr (ctl_matcher c', out)" by blast
  from feed_fed[OF fed0, of chunks] run(2) scan(2) have "fed (concat chunks) out (ctl_matcher c')"
    "stop_strings (ctl_matcher c') = Ps" by auto
  then have "\<forall>mt. match_found (ctl_matcher c') = Some mt \<longleftrightarrow> first_match Ps (concat chunks) mt"
    using quiet_no_match[of "concat chunks" Ps] first_match_unique[of Ps "concat chunks"]
    by (auto simp: fed_def scanning_def stopped_def)
  moreover have "turn_tokens c' = tokens"
    using controller_log.history_run[OF run(1)] controller_log.history_start[OF assms(1)] by simp
  ultimately show ?thesis using run(1) by blast
qed

lemma observed_chunks:
  "run_result (observe_only t) tokens c = Inr c' \<Longrightarrow> \<exists>chunks. decode_chunks t tokens (ctl_stream c) = Inr chunks"
proof (induction tokens arbitrary: c)
  case (Cons x xs)
  then obtain c1 where c1: "observe_only t x c = Inr c1" "run_result (observe_only t) xs c1 = Inr c'"
    by (auto simp: bind_result_Inr_iff)
  obtain stream bytes where d: "decode_token t x (ctl_stream c) = Inr (stream, bytes)" "ctl_stream c1 = stream"
    using c1(1) by (auto simp: observe_only_decode DecodeIntoMatcher_def drain_safe_output_def bind_result_Inr_iff)
  obtain chunks where "decode_chunks t xs stream = Inr chunks" using Cons.IH[OF c1(2)] d(2) by auto
  then show ?case using d(1) by simp
qed simp

text \<open>The index of a reported match is that of a configured stop string.\<close>

lemma observed_index:
  assumes c0: "new_controller (Some t) Ps = Inr c0" and run: "run_result (observe_only t) ts c0 = Inr c"
    and o: "ObserveToken t x c = Inr (c', Some m)"
  shows "match_index m < kMaxStopStringCount"
proof -
  have run': "run_result (observe_only t) (ts @ [x]) c0 = Inr c'" using run o by (simp add: run_result_append observe_only_def)
  have found: "match_found (ctl_matcher c') = Some m" using o by (auto simp: ObserveToken_def bind_result_Inr_iff Let_def)
  obtain chunks where chunks: "decode_chunks t (ts @ [x]) (ctl_stream c0) = Inr chunks" using observed_chunks[OF run'] by blast
  from controller_matches[OF c0 chunks] run' have "\<forall>mt. match_found (ctl_matcher c') = Some mt \<longleftrightarrow> first_match Ps (concat chunks) mt"
    by auto
  with found have "first_match Ps (concat chunks) m" by blast
  then have "match_index m < length Ps" unfolding first_match_def occurs_def by (elim conjE)
  moreover have "new_matcher Ps = Inr (ctl_matcher c0)" using new_controller_start[OF c0] by blast
  then have "length Ps \<le> kMaxStopStringCount" by (auto simp: new_matcher_def ValidateStopStrings_def bind_result_Inr_iff split: if_splits)
  ultimately show ?thesis by simp
qed

text \<open>C31. A controller that observed the generated tokens of a turn reports the first match in the bytes they decode
  to, wherever the boundaries between the tokens lie; observing fails only if decoding does.\<close>

theorem controller_reports_first_match:
  assumes "new_controller (Some t) Ps = Inr c" and "decode_chunks t tokens (ctl_stream c) = Inr chunks"
  shows "\<exists>c'. run_result (observe_only t) tokens c = Inr c' \<and> turn_tokens c' = tokens
    \<and> (\<forall>mt. match_found (ctl_matcher c') = Some mt \<longleftrightarrow> first_match Ps (concat chunks) mt)"
  by (rule controller_matches[OF assms])

text \<open>A tokenizer whose tokens are bytes.\<close>

definition byte_tokenizer :: "(unit, unit) Tokenizer" where
  "byte_tokenizer = \<lparr>create_stream = Inr (), decode_token = (\<lambda>token s. Inr (s, [word_of_int token]))\<rparr>"

lemma example_controller: "\<exists>c. new_controller (Some byte_tokenizer) [[97, 98], [98]] = Inr c"
  using example_matcher by (auto simp: new_controller_def RebuildStream_def byte_tokenizer_def)

theorem controller_reports_first_match_witness:
  "\<exists>c c'. new_controller (Some byte_tokenizer) [[97, 98], [98]] = Inr c
     \<and> run_result (observe_only byte_tokenizer) [99, 97] c = Inr c' \<and> turn_tokens c' = [99, 97]"
proof -
  from example_controller obtain c where c: "new_controller (Some byte_tokenizer) [[97, 98], [98]] = Inr c" by blast
  have "decode_chunks byte_tokenizer [99, 97] (ctl_stream c) = Inr [[99], [97]]" by (simp add: byte_tokenizer_def)
  from controller_reports_first_match[OF c this] c show ?thesis by blast
qed

text \<open>Rolling a controller back to a checkpoint taken earlier in the turn restores exactly the state at the
  checkpoint (stream, matcher and history), whatever was observed since.\<close>

theorem controller_rollback:
  assumes "new_controller (Some t) Ps = Inr c0" and "run_result (observe_only t) xs c0 = Inr c"
    and "run_result (observe_only t) ys c = Inr c'"
  shows "RollbackTo t (length (turn_tokens c)) c' = Inr c"
  by (rule controller_log.rollback_to_checkpoint[OF assms])

theorem controller_rollback_witness:
  "\<exists>c c'. run_result (observe_only byte_tokenizer) [98] c = Inr c' \<and> turn_tokens c = [99]
     \<and> RollbackTo byte_tokenizer 1 c' = Inr c"
proof -
  from example_controller obtain c0 where c0: "new_controller (Some byte_tokenizer) [[97, 98], [98]] = Inr c0" by blast
  have m: "new_matcher [[97, 98], [98]] = Inr (ctl_matcher c0)" using new_controller_start[OF c0] by blast
  have fed0: "fed [] [] (ctl_matcher c0)" using new_matcher_scanning[OF m] by (simp add: fed_def)
  have "decode_chunks byte_tokenizer [99, 98] (ctl_stream c0) = Inr [[99], [98]]" by (simp add: byte_tokenizer_def)
  from observe_feed[OF this fed0] obtain c' where "run_result (observe_only byte_tokenizer) ([99] @ [98]) c0 = Inr c'"
    by auto
  then obtain c where c: "run_result (observe_only byte_tokenizer) [99] c0 = Inr c"
    "run_result (observe_only byte_tokenizer) [98] c = Inr c'"
    unfolding run_result_append by (auto simp: bind_result_Inr_iff)
  have "turn_tokens c = [99]"
    using controller_log.history_run[OF c(1)] controller_log.history_start[OF c0] by simp
  with controller_rollback[OF c0 c] c(2) show ?thesis by auto
qed

end
