(* ===== verification/Utf8.thy ===== *)
theory Utf8
  imports Stop_String
begin

text \<open>
  What the UTF-8 validation of \<open>Stop_String\<close> accepts: exactly the encodings of sequences of Unicode scalar values.
  The encoder of this theory is the specification of UTF-8; the JSON reader's encoder is compared with it, too.
\<close>

section \<open>The encoding\<close>

definition scalar :: "nat \<Rightarrow> bool" where
  "scalar c \<longleftrightarrow> c < 0xD800 \<or> 0xDFFF < c \<and> c \<le> 0x10FFFF"

definition utf8_encode :: "nat \<Rightarrow> nat list" where
  "utf8_encode c =
     (if c < 0x80 then [c]
      else if c < 0x800 then [0xC0 + c div 64, 0x80 + c mod 64]
      else if c < 0x10000 then [0xE0 + c div 4096, 0x80 + c div 64 mod 64, 0x80 + c mod 64]
      else [0xF0 + c div 262144, 0x80 + c div 4096 mod 64, 0x80 + c div 64 mod 64, 0x80 + c mod 64])"

lemma utf8_encode_nonempty: "utf8_encode c \<noteq> []"
  by (simp add: utf8_encode_def)

section \<open>One sequence\<close>

text \<open>The checks of the validator on natural numbers.\<close>

definition lead_length :: "nat \<Rightarrow> nat" where
  "lead_length b = (if b < 0x80 then 1 else if 0xC2 \<le> b \<and> b \<le> 0xDF then 2
     else if 0xE0 \<le> b \<and> b \<le> 0xEF then 3 else if 0xF0 \<le> b \<and> b \<le> 0xF4 then 4 else 0)"

definition cont :: "nat \<Rightarrow> bool" where
  "cont b \<longleftrightarrow> 0x80 \<le> b \<and> b \<le> 0xBF"

definition second_ok :: "nat \<Rightarrow> nat \<Rightarrow> bool" where
  "second_ok b0 b1 \<longleftrightarrow> (b0 = 0xE0 \<longrightarrow> 0xA0 \<le> b1) \<and> (b0 = 0xED \<longrightarrow> b1 \<le> 0x9F)
     \<and> (b0 = 0xF0 \<longrightarrow> 0x90 \<le> b1) \<and> (b0 = 0xF4 \<longrightarrow> b1 \<le> 0x8F)"

lemma Utf8SequenceLength_nat: "Utf8SequenceLength b = lead_length (unat b)"
  by (simp add: Utf8SequenceLength_def lead_length_def word_less_nat_alt word_le_nat_alt)

lemma is_continuation_nat: "is_continuation b \<longleftrightarrow> cont (unat b)"
  by (auto simp: is_continuation_def cont_def word_less_nat_alt)

lemma unat_eq_numeral: "(b :: byte) = numeral k \<longleftrightarrow> unat b = unat (numeral k :: byte)"
  by (rule word_unat_eq_iff)

lemma second_checks:
  fixes a b :: byte
  defines "n \<equiv> lead_length (unat a)"
  defines "s \<equiv> (if 1 < n then b else 0)"
  shows "n = 3 \<and> a = 0xE0 \<and> s < 0xA0 \<longleftrightarrow> unat a = 0xE0 \<and> unat b < 0xA0"
    and "n = 3 \<and> a = 0xED \<and> s > 0x9F \<longleftrightarrow> unat a = 0xED \<and> unat b > 0x9F"
    and "n = 4 \<and> a = 0xF0 \<and> s < 0x90 \<longleftrightarrow> unat a = 0xF0 \<and> unat b < 0x90"
    and "n = 4 \<and> a = 0xF4 \<and> s > 0x8F \<longleftrightarrow> unat a = 0xF4 \<and> unat b > 0x8F"
  unfolding s_def n_def
  subgoal by (cases "a = 0xE0") (simp add: lead_length_def word_less_nat_alt, simp add: unat_eq_numeral)
  subgoal by (cases "a = 0xED") (simp add: lead_length_def word_less_nat_alt, simp add: unat_eq_numeral)
  subgoal by (cases "a = 0xF0") (simp add: lead_length_def word_less_nat_alt, simp add: unat_eq_numeral)
  subgoal by (cases "a = 0xF4") (simp add: lead_length_def word_less_nat_alt, simp add: unat_eq_numeral)
  done

lemma second_bad:
  "(a = 0xE0 \<and> b < 0xA0 \<or> a = 0xED \<and> b > 0x9F \<or> a = 0xF0 \<and> b < 0x90 \<or> a = 0xF4 \<and> b > 0x8F)
    \<longleftrightarrow> 2 < lead_length a \<and> \<not> second_ok a b"
  by (auto simp: second_ok_def lead_length_def)

lemma four_checks:
  "(if a then None else if b then None else if c then None else if d then None else x)
     = (if a \<or> b \<or> c \<or> d then None else x)"
  by simp

lemma utf8_sequence_nat:
  "utf8_sequence bytes = Some n \<longleftrightarrow>
     n = lead_length (unat (bytes ! 0)) \<and> n \<noteq> 0 \<and> n \<le> length bytes
     \<and> (\<forall>k. 1 \<le> k \<and> k < n \<longrightarrow> cont (unat (bytes ! k)))
     \<and> (2 < n \<longrightarrow> second_ok (unat (bytes ! 0)) (unat (bytes ! 1)))"
proof -
  let ?n = "lead_length (unat (bytes ! 0))"
  have conts: "list_all is_continuation (take (m - 1) (drop 1 bytes))
      \<longleftrightarrow> (\<forall>k. 1 \<le> k \<and> k < m \<longrightarrow> cont (unat (bytes ! k)))" if "m \<le> length bytes" "m \<noteq> 0" for m
  proof -
    have "list_all is_continuation (take (m - 1) (drop 1 bytes))
        \<longleftrightarrow> (\<forall>i < m - 1. cont (unat (bytes ! Suc i)))"
      using that by (auto simp: list_all_length is_continuation_nat min_def)
    also have "\<dots> \<longleftrightarrow> (\<forall>k. 1 \<le> k \<and> k < m \<longrightarrow> cont (unat (bytes ! k)))"
    proof (intro iffI allI impI)
      fix k assume "\<forall>i < m - 1. cont (unat (bytes ! Suc i))" "1 \<le> k \<and> k < m"
      then show "cont (unat (bytes ! k))" by (cases k) auto
    qed auto
    finally show ?thesis .
  qed
  have n4: "?n = 0 \<or> ?n = 1 \<or> ?n = 2 \<or> ?n = 3 \<or> ?n = 4" by (simp add: lead_length_def)
  have len: "?n = 3 \<longleftrightarrow> 0xE0 \<le> unat (bytes ! 0) \<and> unat (bytes ! 0) \<le> 0xEF"
    "?n = 4 \<longleftrightarrow> 0xF0 \<le> unat (bytes ! 0) \<and> unat (bytes ! 0) \<le> 0xF4" by (auto simp: lead_length_def)
  show ?thesis
  proof (cases "?n = 0 \<or> length bytes < ?n")
    case True
    then show ?thesis by (auto simp: utf8_sequence_def Let_def Utf8SequenceLength_nat)
  next
    case False
    then have c: "list_all is_continuation (take (?n - 1) (drop 1 bytes))
      \<longleftrightarrow> (\<forall>k. 1 \<le> k \<and> k < ?n \<longrightarrow> cont (unat (bytes ! k)))" using conts by simp
    let ?s = "if 1 < ?n then bytes ! 1 else 0"
    let ?bad = "?n = 3 \<and> bytes ! 0 = 0xE0 \<and> ?s < 0xA0 \<or> ?n = 3 \<and> bytes ! 0 = 0xED \<and> ?s > 0x9F
      \<or> ?n = 4 \<and> bytes ! 0 = 0xF0 \<and> ?s < 0x90 \<or> ?n = 4 \<and> bytes ! 0 = 0xF4 \<and> ?s > 0x8F"
    have bad: "?bad \<longleftrightarrow> 2 < ?n \<and> \<not> second_ok (unat (bytes ! 0)) (unat (bytes ! 1))"
      unfolding second_checks by (rule second_bad)
    have "utf8_sequence bytes = (if \<not> list_all is_continuation (take (?n - 1) (drop 1 bytes)) then None
        else if ?bad then None else Some ?n)"
      by (simp only: utf8_sequence_def Let_def Utf8SequenceLength_nat if_not_P[OF False] four_checks)
    then show ?thesis using False unfolding bad c by auto
  qed
qed

section \<open>Encodings are exactly the accepted sequences\<close>

definition accepted :: "nat list \<Rightarrow> bool" where
  "accepted bs \<longleftrightarrow> bs \<noteq> [] \<and> length bs = lead_length (bs ! 0) \<and> list_all cont (tl bs)
     \<and> (2 < length bs \<longrightarrow> second_ok (bs ! 0) (bs ! 1))"

lemma accepted_1: "accepted [a] \<longleftrightarrow> a < 0x80"
  by (auto simp: accepted_def lead_length_def)

lemma accepted_2: "accepted [a, b] \<longleftrightarrow> 0xC2 \<le> a \<and> a \<le> 0xDF \<and> cont b"
  by (auto simp: accepted_def lead_length_def)

lemma accepted_3: "accepted [a, b, c] \<longleftrightarrow> 0xE0 \<le> a \<and> a \<le> 0xEF \<and> cont b \<and> cont c \<and> second_ok a b"
  by (auto simp: accepted_def lead_length_def)

lemma accepted_4:
  "accepted [a, b, c, d] \<longleftrightarrow> 0xF0 \<le> a \<and> a \<le> 0xF4 \<and> cont b \<and> cont c \<and> cont d \<and> second_ok a b"
  by (auto simp: accepted_def lead_length_def)

lemma accepted_encode:
  assumes "scalar c"
  shows "accepted (utf8_encode c)"
proof -
  consider "c < 0x80" | "0x80 \<le> c" "c < 0x800" | "0x800 \<le> c" "c < 0x10000" | "0x10000 \<le> c" "c \<le> 0x10FFFF"
    using assms unfolding scalar_def by linarith
  then show ?thesis
  proof cases
    case 1
    then show ?thesis by (simp add: utf8_encode_def accepted_1)
  next
    case 2
    then have "2 \<le> c div 64" "c div 64 \<le> 31" by linarith+
    with 2 show ?thesis by (simp add: utf8_encode_def accepted_2 cont_def)
  next
    case 3
    have m: "c div 64 mod 64 < 64" "c mod 64 < 64" by simp_all
    have d: "c div 64 = 64 * (c div 4096) + c div 64 mod 64" by (simp add: div_mult2_eq[of c 64 64, simplified])
    have "c div 4096 \<le> 15" using 3 by linarith
    moreover have "c div 4096 = 0 \<Longrightarrow> 32 \<le> c div 64 mod 64" using d 3 by linarith
    moreover have "c div 4096 = 13 \<Longrightarrow> c div 64 mod 64 \<le> 31"
    proof -
      assume 13: "c div 4096 = 13"
      then have "c < 0xE000" by linarith
      then have "c < 0xD800" using assms by (simp add: scalar_def)
      then show ?thesis using d 13 by linarith
    qed
    ultimately show ?thesis using 3 m by (auto simp: utf8_encode_def accepted_3 cont_def second_ok_def)
  next
    case 4
    have m: "c div 4096 mod 64 < 64" "c div 64 mod 64 < 64" "c mod 64 < 64" by simp_all
    have d: "c div 4096 = 64 * (c div 262144) + c div 4096 mod 64" by (simp add: div_mult2_eq[of c 4096 64, simplified])
    have "c div 262144 \<le> 4" using 4 by linarith
    moreover have "c div 262144 = 0 \<Longrightarrow> 16 \<le> c div 4096 mod 64" using d 4 by linarith
    moreover have "c div 262144 = 4 \<Longrightarrow> c div 4096 mod 64 \<le> 15" using d 4 by linarith
    ultimately show ?thesis using 4 m by (auto simp: utf8_encode_def accepted_4 cont_def second_ok_def)
  qed
qed

lemma digits:
  fixes x y z :: nat
  assumes "y < 64" and "z < 64"
  shows "(x * 64 + y) div 64 = x" and "(x * 64 + y) mod 64 = y"
    and "((x * 64 + y) * 64 + z) div 4096 = x"
  using assms by auto

lemma list_upto_4:
  assumes "bs \<noteq> []" and "length bs \<le> 4"
  shows "(\<exists>a. bs = [a]) \<or> (\<exists>a b. bs = [a, b]) \<or> (\<exists>a b c. bs = [a, b, c]) \<or> (\<exists>a b c d. bs = [a, b, c, d])"
proof -
  have "length bs = 1 \<or> length bs = 2 \<or> length bs = 3 \<or> length bs = 4"
    using assms by (simp only: length_greater_0_conv[symmetric]) linarith
  then show ?thesis by (auto simp: length_Suc_conv eval_nat_numeral)
qed

lemma accepted_decode:
  assumes "accepted bs"
  shows "\<exists>c. scalar c \<and> utf8_encode c = bs"
proof -
  have "length bs \<le> 4" using assms by (auto simp: accepted_def lead_length_def split: if_splits)
  then consider a where "bs = [a]" | a b where "bs = [a, b]" | a b c where "bs = [a, b, c]"
    | a b c d where "bs = [a, b, c, d]"
    using assms list_upto_4[of bs] by (auto simp: accepted_def)
  then show ?thesis
  proof cases
    case (1 a)
    then show ?thesis using assms by (intro exI[of _ a]) (simp add: accepted_1 scalar_def utf8_encode_def)
  next
    case (2 a b)
    let ?c = "(a - 0xC0) * 64 + (b - 0x80)"
    have ab: "0xC2 \<le> a" "a \<le> 0xDF" "0x80 \<le> b" "b \<le> 0xBF" using assms 2 by (auto simp: accepted_2 cont_def)
    then have "0x80 \<le> ?c" "?c < 0x800" "?c div 64 = a - 0xC0" "?c mod 64 = b - 0x80"
      using digits(1,2)[of "b - 0x80" 0 "a - 0xC0"] by auto
    then show ?thesis using ab 2 by (intro exI[of _ ?c]) (auto simp: scalar_def utf8_encode_def)
  next
    case (3 a b c)
    let ?h = "(a - 0xE0) * 64 + (b - 0x80)"
    let ?c = "?h * 64 + (c - 0x80)"
    have ab: "0xE0 \<le> a" "a \<le> 0xEF" "0x80 \<le> b" "b \<le> 0xBF" "0x80 \<le> c" "c \<le> 0xBF" "second_ok a b"
      using assms 3 by (auto simp: accepted_3 cont_def)
    have d: "?c div 64 = ?h" "?c mod 64 = c - 0x80" "?h mod 64 = b - 0x80" "?c div 4096 = a - 0xE0"
      using ab digits[of "b - 0x80" "c - 0x80" "a - 0xE0"] digits(1,2)[of "c - 0x80" 0 ?h] by auto
    have lo: "0x800 \<le> ?c" using ab unfolding second_ok_def by (cases "a = 0xE0") auto
    have hi: "?c < 0x10000" using ab by auto
    have "?c < 0xD800 \<or> 0xDFFF < ?c"
    proof (cases "a = 0xED")
      case True
      then show ?thesis using ab unfolding second_ok_def by auto
    next
      case False
      then have "a \<le> 0xEC \<or> 0xEE \<le> a" by auto
      then show ?thesis using ab by auto
    qed
    then show ?thesis
      using ab 3 lo hi d by (intro exI[of _ ?c]) (auto simp: scalar_def utf8_encode_def)
  next
    case (4 a b c e)
    let ?h = "(a - 0xF0) * 64 + (b - 0x80)"
    let ?g = "?h * 64 + (c - 0x80)"
    let ?c = "?g * 64 + (e - 0x80)"
    have ab: "0xF0 \<le> a" "a \<le> 0xF4" "0x80 \<le> b" "b \<le> 0xBF" "0x80 \<le> c" "c \<le> 0xBF" "0x80 \<le> e" "e \<le> 0xBF"
      "second_ok a b" using assms 4 by (auto simp: accepted_4 cont_def)
    have d: "?c div 64 = ?g" "?c mod 64 = e - 0x80" "?g mod 64 = c - 0x80" "?c div 4096 = ?h" "?h mod 64 = b - 0x80"
      "?h div 64 = a - 0xF0"
      using ab digits[of "c - 0x80" "e - 0x80" ?h] digits[of "b - 0x80" "c - 0x80" "a - 0xF0"]
        digits(1,2)[of "c - 0x80" 0 ?h] digits(1,2)[of "e - 0x80" 0 ?g] by auto
    have top: "?c div 262144 = a - 0xF0"
      using d(4,6) div_mult2_eq[of ?c 4096 64] by simp
    have lo: "0x10000 \<le> ?c" using ab unfolding second_ok_def by (cases "a = 0xF0") auto
    have hi: "?c \<le> 0x10FFFF" using ab unfolding second_ok_def by (cases "a = 0xF4") auto
    have "utf8_encode ?c = [0xF0 + ?c div 262144, 0x80 + ?c div 4096 mod 64, 0x80 + ?c div 64 mod 64, 0x80 + ?c mod 64]"
      using lo unfolding utf8_encode_def by (simp only: not_less[symmetric] if_False) simp
    also have "\<dots> = [a, b, c, e]" unfolding top d using ab by simp
    finally have "utf8_encode ?c = bs" using 4 by simp
    moreover have "scalar ?c" using lo hi unfolding scalar_def by linarith
    ultimately show ?thesis by blast
  qed
qed

lemma utf8_sequence_accepted:
  assumes "bytes \<noteq> []"
  shows "utf8_sequence bytes = Some n \<longleftrightarrow> 0 < n \<and> n \<le> length bytes \<and> accepted (map unat (take n bytes))"
proof (cases "0 < n \<and> n \<le> length bytes")
  case True
  let ?bs = "map unat (take n bytes)"
  have bs: "?bs \<noteq> []" "length ?bs = n" "?bs ! 0 = unat (bytes ! 0)" using True assms by auto
  have "list_all cont (tl ?bs) \<longleftrightarrow> (\<forall>i < n - 1. cont (unat (bytes ! Suc i)))"
    using True by (auto simp: list_all_length nth_tl)
  also have "\<dots> \<longleftrightarrow> (\<forall>k. 1 \<le> k \<and> k < n \<longrightarrow> cont (unat (bytes ! k)))"
  proof (intro iffI allI impI)
    fix k assume "\<forall>i < n - 1. cont (unat (bytes ! Suc i))" "1 \<le> k \<and> k < n"
    then show "cont (unat (bytes ! k))" by (cases k) auto
  qed auto
  finally show ?thesis
    using True bs by (auto simp: utf8_sequence_nat accepted_def)
next
  case False
  then show ?thesis by (auto simp: utf8_sequence_nat)
qed

section \<open>Properties\<close>

text \<open>C30. The validator accepts exactly the byte strings that encode a sequence of Unicode scalar values: overlong
  forms, surrogates, values above U+10FFFF and truncated or stray continuation bytes are all rejected.\<close>

theorem IsValidUtf8_iff_encoding:
  "IsValidUtf8 bytes \<longleftrightarrow> (\<exists>cs. list_all scalar cs \<and> map unat bytes = concat (map utf8_encode cs))"
proof (induction bytes rule: IsValidUtf8.induct)
  case (1 bytes)
  show ?case
  proof (cases "bytes = []")
    case True
    then show ?thesis by (auto simp: IsValidUtf8.simps intro: exI[of _ "[]"])
  next
    case ne: False
    show ?thesis
    proof
      assume valid: "IsValidUtf8 bytes"
      then obtain n where n: "utf8_sequence bytes = Some n" "IsValidUtf8 (drop n bytes)"
        using ne by (subst (asm) IsValidUtf8.simps) (auto split: option.splits)
      then obtain cs where cs: "list_all scalar cs" "map unat (drop n bytes) = concat (map utf8_encode cs)"
        using 1[OF ne n(1)] by blast
      from n(1) obtain c where "scalar c" "utf8_encode c = map unat (take n bytes)"
        using accepted_decode utf8_sequence_accepted[OF ne] by blast
      moreover have "map unat bytes = map unat (take n bytes) @ map unat (drop n bytes)"
        by (simp flip: map_append)
      ultimately show "\<exists>cs. list_all scalar cs \<and> map unat bytes = concat (map utf8_encode cs)"
        using cs by (intro exI[of _ "c # cs"]) simp
    next
      assume "\<exists>cs. list_all scalar cs \<and> map unat bytes = concat (map utf8_encode cs)"
      then obtain cs where cs: "list_all scalar cs" "map unat bytes = concat (map utf8_encode cs)" by blast
      with ne obtain c cs' where c: "cs = c # cs'" by (cases cs) auto
      let ?n = "length (utf8_encode c)"
      have split: "map unat (take ?n bytes) = utf8_encode c" "map unat (drop ?n bytes) = concat (map utf8_encode cs')"
        using cs(2) c by (simp_all flip: take_map drop_map)
      have "?n \<le> length bytes" using arg_cong[OF cs(2), of length] c by simp
      then have seq: "utf8_sequence bytes = Some ?n"
        using utf8_sequence_accepted[OF ne, of ?n] accepted_encode[of c] cs(1) c split(1) utf8_encode_nonempty[of c]
        by simp
      then have "IsValidUtf8 (drop ?n bytes)" using 1[OF ne seq] split(2) cs(1) c by auto
      with seq show "IsValidUtf8 bytes" by (subst IsValidUtf8.simps) simp
    qed
  qed
qed

end
