(* ===== verification/Json_Parser.thy ===== *)
theory Json_Parser
  imports Utf8
begin

text \<open>
  The event-driven JSON reader of \<open>json.cpp\<close>: scanning, strings with escapes and surrogate pairs, numbers, values,
  arrays and objects, and the exceptions that travel through it.

  \<^item> The reader's \<open>begin_\<close>, \<open>current_\<close> and \<open>end_\<close> pointers are the document and the bytes that are left of it.
  \<^item> A parsing function takes and returns the state also when it throws: where the reader stands is what the error
    message reports, and what the element callbacks did before the exception stays done.
  \<^item> The \<open>Element\<close> a client passes in is a record of callbacks over a state of its own, each of which may throw.
  \<^item> The conversion of a matched number to a \<open>double\<close> (rounding, range error) is the C++ library's and is a parameter;
    what text counts as a number is written out.
  \<^item> Nesting is bounded by fuel, and so are the loops over members; \<open>Parse\<close> supplies the length of the document, which
    is proved to be enough.
\<close>

section \<open>Exceptions, values and elements\<close>

unbundle bit_operations_syntax

definition ascii :: "string \<Rightarrow> byte list" where
  "ascii s = map of_char s"

datatype value_kind = KString | KNumber | KBool | KNull

fun value_names :: "value_kind \<Rightarrow> byte list" where
  "value_names KString = ascii ''string''"
| "value_names KNumber = ascii ''number''"
| "value_names KBool = ascii ''bool''"
| "value_names KNull = ascii ''null''"

datatype 'd Value = VString "byte list" | VNumber 'd | VBool bool | VNull

fun kind_of :: "'d Value \<Rightarrow> value_kind" where
  "kind_of (VString s) = KString"
| "kind_of (VNumber d) = KNumber"
| "kind_of (VBool b) = KBool"
| "kind_of VNull = KNull"

datatype exn =
    runtime_error "byte list"
  | unknown_value_error
  | type_mismatch value_kind value_kind  \<comment> \<open>seen, expected\<close>
  | std_exception "byte list"            \<comment> \<open>another class derived from \<open>std::exception\<close>\<close>
  | foreign_exception                    \<comment> \<open>anything else a callback throws\<close>

definition Get :: "value_kind \<Rightarrow> 'd Value \<Rightarrow> exn + 'd Value" where
  "Get k v = (if kind_of v = k then Inr v else Inl (type_mismatch (kind_of v) k))"

text \<open>A callback changes the client's state and may throw afterwards.\<close>

record ('el, 'd, 'w) Element =
  OnComplete :: "'el \<Rightarrow> bool \<Rightarrow> 'w \<Rightarrow> (exn + unit) \<times> 'w"
  OnValue :: "'el \<Rightarrow> byte list \<Rightarrow> 'd Value \<Rightarrow> 'w \<Rightarrow> (exn + unit) \<times> 'w"
  OnArray :: "'el \<Rightarrow> byte list \<Rightarrow> 'w \<Rightarrow> (exn + 'el) \<times> 'w"
  OnObject :: "'el \<Rightarrow> byte list \<Rightarrow> 'w \<Rightarrow> (exn + 'el) \<times> 'w"

text \<open>The methods of the base class, which a client overrides where it expects something.\<close>

definition default_element :: "('el, 'd, 'w) Element" where
  "default_element = \<lparr>OnComplete = (\<lambda>el none w. (Inr (), w)),
     OnValue = (\<lambda>el name v w. (Inl unknown_value_error, w)),
     OnArray = (\<lambda>el name w. (Inl unknown_value_error, w)),
     OnObject = (\<lambda>el name w. (Inl unknown_value_error, w))\<rparr>"

text \<open>\<open>what()\<close> is a C string: it ends at the first zero byte of the message.\<close>

fun what :: "exn \<Rightarrow> byte list" where
  "what (runtime_error m) = takeWhile (\<lambda>b. b \<noteq> 0) m"
| "what (std_exception m) = takeWhile (\<lambda>b. b \<noteq> 0) m"
| "what e = ascii ''std::exception''"

fun TranslateException :: "byte list \<Rightarrow> exn \<Rightarrow> exn" where
  "TranslateException name unknown_value_error = runtime_error (ascii '' Unknown value \"'' @ name @ ascii ''\"'')"
| "TranslateException name (type_mismatch seen expected) =
     runtime_error (name @ ascii '' - Expected a '' @ value_names expected @ ascii '' but saw a '' @ value_names seen)"
| "TranslateException name e = e"

text \<open>The two catch clauses of \<open>Parse_Value\<close>.\<close>

fun value_handler :: "byte list \<Rightarrow> exn \<Rightarrow> exn" where
  "value_handler name (runtime_error m) =
     (if name \<noteq> [] then runtime_error (name @ ascii '':'' @ what (runtime_error m)) else runtime_error m)"
| "value_handler name e = TranslateException name e"

section \<open>Scanning\<close>

definition Skip :: "byte \<Rightarrow> byte list \<Rightarrow> bool \<times> byte list" where
  "Skip c rest = (case rest of [] \<Rightarrow> (False, rest) | x # xs \<Rightarrow> if x \<noteq> c then (False, rest) else (True, xs))"

text \<open>The literal is only recognised when at least one more byte follows it (\<open>current_ + count >= end_\<close>).\<close>

definition Skip_literal :: "byte list \<Rightarrow> byte list \<Rightarrow> bool \<times> byte list" where
  "Skip_literal sz rest =
     (if length rest \<le> length sz \<or> take (length sz) rest \<noteq> sz then (False, rest) else (True, drop (length sz) rest))"

definition GetChar :: "byte list \<Rightarrow> (exn + byte) \<times> byte list" where
  "GetChar rest = (case rest of [] \<Rightarrow> (Inl (runtime_error (ascii ''Unexpected end of JSON data'')), rest)
     | c # xs \<Rightarrow> (Inr c, xs))"

definition is_space :: "byte \<Rightarrow> bool" where
  "is_space c \<longleftrightarrow> c = 0x20 \<or> c = 0x9 \<or> c = 0xD \<or> c = 0xA"

fun Parse_Whitespace :: "byte list \<Rightarrow> byte list" where
  "Parse_Whitespace [] = []"
| "Parse_Whitespace (c # xs) = (if \<not> is_space c then c # xs else Parse_Whitespace xs)"

section \<open>Numbers\<close>

definition is_digit :: "byte \<Rightarrow> bool" where
  "is_digit c \<longleftrightarrow> 0x30 \<le> c \<and> c \<le> 0x39"

definition lower :: "byte \<Rightarrow> byte" where
  "lower c = (if 0x41 \<le> c \<and> c \<le> 0x5A then c + 0x20 else c)"

text \<open>An exponent part, if there is a complete one.\<close>

definition scan_exponent :: "byte list \<Rightarrow> byte list" where
  "scan_exponent rest = (case rest of [] \<Rightarrow> [] | e # xs \<Rightarrow>
     if lower e \<noteq> 0x65 then [] else
       let sign = (case xs of [] \<Rightarrow> [] | s # _ \<Rightarrow> if s = 0x2B \<or> s = 0x2D then [s] else []);
           digits = takeWhile is_digit (drop (length sign) xs)
       in if digits = [] then [] else e # sign @ digits)"

definition scan_decimal :: "byte list \<Rightarrow> byte list option" where
  "scan_decimal rest =
     (let whole = takeWhile is_digit rest;
          rest1 = drop (length whole) rest;
          point = (case rest1 of [] \<Rightarrow> [] | c # _ \<Rightarrow> if c = 0x2E then [c] else []);
          frac = (if point = [] then [] else takeWhile is_digit (drop 1 rest1));
          mantissa = whole @ point @ frac
      in if whole = [] \<and> frac = [] then None
         else Some (mantissa @ scan_exponent (drop (length mantissa) rest)))"

definition matches_word :: "byte list \<Rightarrow> byte list \<Rightarrow> bool" where
  "matches_word word rest \<longleftrightarrow> length word \<le> length rest \<and> map lower (take (length word) rest) = word"

definition is_nan_char :: "byte \<Rightarrow> bool" where
  "is_nan_char c \<longleftrightarrow> is_digit c \<or> (0x61 \<le> lower c \<and> lower c \<le> 0x7A) \<or> c = 0x5F"

text \<open>The parenthesised tail that may follow \<open>nan\<close>.\<close>

definition scan_nan_tail :: "byte list \<Rightarrow> byte list" where
  "scan_nan_tail rest = (case rest of [] \<Rightarrow> [] | c # xs \<Rightarrow>
     if c \<noteq> 0x28 then [] else
       let body = takeWhile is_nan_char xs
       in case drop (length body) xs of [] \<Rightarrow> [] | d # _ \<Rightarrow> if d = 0x29 then c # body @ [d] else [])"

definition scan_unsigned :: "byte list \<Rightarrow> byte list option" where
  "scan_unsigned rest =
     (if matches_word (ascii ''infinity'') rest then Some (take 8 rest)
      else if matches_word (ascii ''inf'') rest then Some (take 3 rest)
      else if matches_word (ascii ''nan'') rest then Some (take 3 rest @ scan_nan_tail (drop 3 rest))
      else scan_decimal rest)"

text \<open>The text that \<open>std::from_chars\<close> matches for a floating-point number in the general format.\<close>

definition scan_number :: "byte list \<Rightarrow> byte list option" where
  "scan_number rest = (case rest of [] \<Rightarrow> None | c # xs \<Rightarrow>
     if c = 0x2D then map_option ((#) c) (scan_unsigned xs) else scan_unsigned rest)"

definition Parse_Number :: "(byte list \<Rightarrow> 'd option) \<Rightarrow> byte list \<Rightarrow> (exn + 'd) \<times> byte list" where
  "Parse_Number to_double rest =
     (case scan_number rest of
        None \<Rightarrow> (Inl (runtime_error (ascii ''Expecting number'')), rest)
      | Some lexeme \<Rightarrow>
          (case to_double lexeme of
             None \<Rightarrow> (Inl (runtime_error (ascii ''Expecting number'')), rest)
           | Some d \<Rightarrow> (Inr d, drop (length lexeme) rest)))"

section \<open>Strings\<close>

definition hex_digit :: "byte \<Rightarrow> 32 word option" where
  "hex_digit c = (if is_digit c then Some (ucast (c - 0x30))
     else if 0x61 \<le> lower c \<and> lower c \<le> 0x66 then Some (ucast (lower c - 0x61 + 10)) else None)"

fun hex_value :: "32 word \<Rightarrow> byte list \<Rightarrow> 32 word option" where
  "hex_value acc [] = Some acc"
| "hex_value acc (c # xs) = (case hex_digit c of None \<Rightarrow> None | Some d \<Rightarrow> hex_value (acc * 16 + d) xs)"

definition Parse_Hex4 :: "byte list \<Rightarrow> (exn + 32 word) \<times> byte list" where
  "Parse_Hex4 rest =
     (if length rest < 4 then (Inl (runtime_error (ascii ''End of file parsing string uXXXX code'')), rest)
      else case hex_value 0 (take 4 rest) of
          None \<Rightarrow> (Inl (runtime_error (ascii ''Error parsing uXXXX code'')), rest)
        | Some v \<Rightarrow> (Inr v, drop 4 rest))"

definition Append_Utf8 :: "byte list \<Rightarrow> 32 word \<Rightarrow> byte list" where
  "Append_Utf8 output codepoint =
     (if codepoint \<le> 0x7f then output @ [ucast codepoint]
      else if codepoint \<le> 0x7ff then
        output @ [ucast (0xc0 OR drop_bit 6 codepoint), ucast (0x80 OR (codepoint AND 0x3f))]
      else if codepoint \<le> 0xffff then
        output @ [ucast (0xe0 OR drop_bit 12 codepoint), ucast (0x80 OR (drop_bit 6 codepoint AND 0x3f)),
                  ucast (0x80 OR (codepoint AND 0x3f))]
      else
        output @ [ucast (0xf0 OR drop_bit 18 codepoint), ucast (0x80 OR (drop_bit 12 codepoint AND 0x3f)),
                  ucast (0x80 OR (drop_bit 6 codepoint AND 0x3f)), ucast (0x80 OR (codepoint AND 0x3f))])"

abbreviation surrogate_error :: exn where
  "surrogate_error \<equiv> runtime_error (ascii ''Invalid JSON surrogate pair'')"

text \<open>The case \<open>'u'\<close>: the code point, of one escape or of a surrogate pair.\<close>

definition parse_unicode :: "byte list \<Rightarrow> (exn + 32 word) \<times> byte list" where
  "parse_unicode rest =
     (case Parse_Hex4 rest of
        (Inl e, r1) \<Rightarrow> (Inl e, r1)
      | (Inr codepoint, r1) \<Rightarrow>
          if 0xd800 \<le> codepoint \<and> codepoint \<le> 0xdbff then
            (case Skip 0x5C r1 of
               (False, r2) \<Rightarrow> (Inl surrogate_error, r2)
             | (True, r2) \<Rightarrow>
                 (case Skip 0x75 r2 of
                    (False, r3) \<Rightarrow> (Inl surrogate_error, r3)
                  | (True, r3) \<Rightarrow>
                      (case Parse_Hex4 r3 of
                         (Inl e, r4) \<Rightarrow> (Inl e, r4)
                       | (Inr low, r4) \<Rightarrow>
                           if low < 0xdc00 \<or> 0xdfff < low then (Inl surrogate_error, r4)
                           else (Inr (0x10000 + push_bit 10 (codepoint - 0xd800) + (low - 0xdc00)), r4))))
          else if 0xdc00 \<le> codepoint \<and> codepoint \<le> 0xdfff then (Inl surrogate_error, r1)
          else (Inr codepoint, r1))"

text \<open>The byte a one-character escape stands for.\<close>

definition simple_escape :: "byte \<Rightarrow> byte option" where
  "simple_escape c =
     (if c = 0x22 \<or> c = 0x5C \<or> c = 0x2F then Some c
      else if c = 0x62 then Some 0x08
      else if c = 0x6E then Some 0x0A
      else if c = 0x66 then Some 0x0C
      else if c = 0x72 then Some 0x0D
      else if c = 0x74 then Some 0x09
      else None)"

text \<open>The body of the loop of \<open>Parse_String\<close> after the character \<open>c\<close> has been read: what is appended.\<close>

definition string_step :: "byte \<Rightarrow> byte list \<Rightarrow> (exn + byte list) \<times> byte list" where
  "string_step c rest =
     (if c < 0x20 then (Inl (runtime_error (ascii ''Unescaped control character in string'')), rest)
      else if c = 0x5C then
        (case GetChar rest of
           (Inl e, r1) \<Rightarrow> (Inl e, r1)
         | (Inr x, r1) \<Rightarrow>
             if x = 0x75 then
               (case parse_unicode r1 of
                  (Inl e, r2) \<Rightarrow> (Inl e, r2)
                | (Inr codepoint, r2) \<Rightarrow> (Inr (Append_Utf8 [] codepoint), r2))
             else
               (case simple_escape x of
                  None \<Rightarrow> (Inl (runtime_error (ascii ''Invalid JSON escape'')), r1)
                | Some b \<Rightarrow> (Inr [b], r1)))
      else (Inr [c], rest))"

lemma Skip_length: "Skip c rest = (b, r) \<Longrightarrow> length r \<le> length rest"
  by (auto simp: Skip_def split: list.splits if_splits)

lemma GetChar_length: "GetChar rest = (x, r) \<Longrightarrow> length r \<le> length rest"
  by (auto simp: GetChar_def split: list.splits)

lemma Parse_Hex4_length: "Parse_Hex4 rest = (x, r) \<Longrightarrow> length r \<le> length rest"
  by (auto simp: Parse_Hex4_def split: if_splits option.splits)

lemma parse_unicode_length: "parse_unicode rest = (x, r) \<Longrightarrow> length r \<le> length rest"
  unfolding parse_unicode_def
  by (fastforce split: prod.splits sum.splits if_splits bool.splits dest: Parse_Hex4_length Skip_length)

lemma string_step_length: "string_step c rest = (x, r) \<Longrightarrow> length r \<le> length rest"
  unfolding string_step_def
  by (fastforce split: prod.splits sum.splits if_splits option.splits dest: parse_unicode_length GetChar_length)

function parse_string_loop :: "byte list \<Rightarrow> byte list \<Rightarrow> (exn + byte list) \<times> byte list" where
  "parse_string_loop out [] = (Inl (runtime_error (ascii ''Unexpected end of JSON data'')), [])"
| "parse_string_loop out (c # xs) =
     (if c = 0x22 then (Inr out, xs)
      else case string_step c xs of
          (Inl e, r) \<Rightarrow> (Inl e, r)
        | (Inr bs, r) \<Rightarrow> parse_string_loop (out @ bs) r)"
  by pat_completeness auto
termination
  by (relation "measure (\<lambda>(out, rest). length rest)") (auto dest!: string_step_length[OF sym] simp: less_Suc_eq_le)

definition Parse_String :: "byte list \<Rightarrow> (exn + byte list) \<times> byte list" where
  "Parse_String rest = parse_string_loop [] rest"

section \<open>Values, objects and arrays\<close>

type_synonym 'w presult = "(exn + unit) \<times> byte list \<times> 'w"

text \<open>\<open>Parse_Value\<close> on an element, with the name of the value, from a state; \<open>None\<close> is out of fuel.\<close>

type_synonym ('el, 'w) value_parser = "'el \<Rightarrow> byte list \<Rightarrow> byte list \<times> 'w \<Rightarrow> 'w presult option"

definition complete :: "('el, 'd, 'w) Element \<Rightarrow> 'el \<Rightarrow> bool \<Rightarrow> byte list \<times> 'w \<Rightarrow> 'w presult" where
  "complete E el none s = (case OnComplete E el none (snd s) of (x, w) \<Rightarrow> (x, fst s, w))"

text \<open>The loop of \<open>Parse_Object\<close>.\<close>

fun object_loop :: "nat \<Rightarrow> ('el, 'w) value_parser \<Rightarrow> ('el, 'd, 'w) Element \<Rightarrow> 'el \<Rightarrow> byte list \<times> 'w
    \<Rightarrow> 'w presult option" where
  "object_loop 0 pv E el s = None"
| "object_loop (Suc n) pv E el (rest, w) =
     (case Skip 0x22 rest of
        (False, r) \<Rightarrow> Some (Inl (runtime_error (ascii
          ''Expecting \" to start next object name, possibly due to an extra trailing ',' before this'')), r, w)
      | (True, r) \<Rightarrow>
        (case Parse_String r of
           (Inl e, r) \<Rightarrow> Some (Inl e, r, w)
         | (Inr name, r) \<Rightarrow>
           (case GetChar (Parse_Whitespace r) of
              (Inl e, r) \<Rightarrow> Some (Inl e, r, w)
            | (Inr colon, r) \<Rightarrow>
              if colon \<noteq> 0x3A then Some (Inl (runtime_error (ascii ''Expecting :'')), r, w)
              else (case pv el name (r, w) of
                  None \<Rightarrow> None
                | Some (Inl e, r, w) \<Rightarrow> Some (Inl e, r, w)
                | Some (Inr u, r, w) \<Rightarrow>
                  (case GetChar r of
                     (Inl e, r) \<Rightarrow> Some (Inl e, r, w)
                   | (Inr c, r) \<Rightarrow>
                     if c = 0x2C then object_loop n pv E el (Parse_Whitespace r, w)
                     else if c = 0x7D then Some (complete E el False (r, w))
                     else Some (Inl (runtime_error (ascii ''Expecting } or ,'')), r, w))))))"

definition Parse_Object :: "('el, 'w) value_parser \<Rightarrow> ('el, 'd, 'w) Element \<Rightarrow> 'el \<Rightarrow> byte list \<times> 'w
    \<Rightarrow> 'w presult option" where
  "Parse_Object pv E el s =
     (case Skip 0x7D (Parse_Whitespace (fst s)) of
        (True, r) \<Rightarrow> Some (complete E el True (r, snd s))
      | (False, r) \<Rightarrow> object_loop (Suc (length r)) pv E el (r, snd s))"

text \<open>The loop of \<open>Parse_Array\<close>; the elements have no name.\<close>

fun array_loop :: "nat \<Rightarrow> ('el, 'w) value_parser \<Rightarrow> ('el, 'd, 'w) Element \<Rightarrow> 'el \<Rightarrow> byte list \<times> 'w
    \<Rightarrow> 'w presult option" where
  "array_loop 0 pv E el s = None"
| "array_loop (Suc n) pv E el s =
     (case pv el [] s of
        None \<Rightarrow> None
      | Some (Inl e, r, w) \<Rightarrow> Some (Inl e, r, w)
      | Some (Inr u, r, w) \<Rightarrow>
        (case GetChar r of
           (Inl e, r) \<Rightarrow> Some (Inl e, r, w)
         | (Inr c, r) \<Rightarrow>
           if c = 0x2C then array_loop n pv E el (r, w)
           else if c = 0x5D then Some (complete E el False (r, w))
           else Some (Inl (runtime_error (ascii ''Expecting ] or ,'')), r, w)))"

definition Parse_Array :: "('el, 'w) value_parser \<Rightarrow> ('el, 'd, 'w) Element \<Rightarrow> 'el \<Rightarrow> byte list \<times> 'w
    \<Rightarrow> 'w presult option" where
  "Parse_Array pv E el s =
     (case Skip 0x5D (Parse_Whitespace (fst s)) of
        (True, r) \<Rightarrow> Some (complete E el True (r, snd s))
      | (False, r) \<Rightarrow> array_loop (Suc (length r)) pv E el (r, snd s))"

definition on_value :: "('el, 'd, 'w) Element \<Rightarrow> 'el \<Rightarrow> byte list \<Rightarrow> 'd Value \<Rightarrow> byte list \<times> 'w \<Rightarrow> 'w presult" where
  "on_value E el name v s = (case OnValue E el name v (snd s) of (x, w) \<Rightarrow> (x, fst s, w))"

text \<open>\<open>t\<close>, \<open>f\<close> and \<open>n\<close>: a literal that is not recognised delivers nothing and throws nothing here.\<close>

definition literal_value :: "('el, 'd, 'w) Element \<Rightarrow> 'el \<Rightarrow> byte list \<Rightarrow> byte list \<Rightarrow> 'd Value
    \<Rightarrow> byte list \<times> 'w \<Rightarrow> 'w presult" where
  "literal_value E el name sz v s =
     (case Skip_literal sz (fst s) of
        (True, r) \<Rightarrow> on_value E el name v (r, snd s)
      | (False, r) \<Rightarrow> (Inr (), r, snd s))"

text \<open>The switch inside the try block of \<open>Parse_Value\<close>; \<open>pv\<close> parses the values nested in this one.\<close>

definition value_switch :: "('el, 'w) value_parser \<Rightarrow> (byte list \<Rightarrow> 'd option) \<Rightarrow> ('el, 'd, 'w) Element
    \<Rightarrow> 'el \<Rightarrow> byte list \<Rightarrow> byte list \<times> 'w \<Rightarrow> 'w presult option" where
  "value_switch pv to_double E el name s =
     (case GetChar (fst s) of
        (Inl e, r) \<Rightarrow> Some (Inl e, r, snd s)
      | (Inr c, r) \<Rightarrow>
          if c = 0x7B then
            (case OnObject E el name (snd s) of
               (Inl e, w) \<Rightarrow> Some (Inl e, r, w)
             | (Inr el', w) \<Rightarrow> Parse_Object pv E el' (r, w))
          else if c = 0x5B then
            (case OnArray E el name (snd s) of
               (Inl e, w) \<Rightarrow> Some (Inl e, r, w)
             | (Inr el', w) \<Rightarrow> Parse_Array pv E el' (r, w))
          else if c = 0x22 then
            (case Parse_String r of
               (Inl e, r) \<Rightarrow> Some (Inl e, r, snd s)
             | (Inr str, r) \<Rightarrow> Some (on_value E el name (VString str) (r, snd s)))
          else if c = 0x74 then Some (literal_value E el name (ascii ''rue'') (VBool True) (r, snd s))
          else if c = 0x66 then Some (literal_value E el name (ascii ''alse'') (VBool False) (r, snd s))
          else if c = 0x6E then Some (literal_value E el name (ascii ''ull'') VNull (r, snd s))
          else if is_digit c \<or> c = 0x2D then
            (case Parse_Number to_double (fst s) of
               (Inl e, r) \<Rightarrow> Some (Inl e, r, snd s)
             | (Inr d, r) \<Rightarrow> Some (on_value E el name (VNumber d) (r, snd s)))
          else Some (Inl unknown_value_error, r, snd s))"

primrec Parse_Value :: "nat \<Rightarrow> (byte list \<Rightarrow> 'd option) \<Rightarrow> ('el, 'd, 'w) Element \<Rightarrow> ('el, 'w) value_parser" where
  "Parse_Value 0 to_double E = (\<lambda>el name s. None)"
| "Parse_Value (Suc depth) to_double E = (\<lambda>el name s.
     case value_switch (Parse_Value depth to_double E) to_double E el name (Parse_Whitespace (fst s), snd s) of
       None \<Rightarrow> None
     | Some (Inl e, r, w) \<Rightarrow> Some (Inl (value_handler name e), r, w)
     | Some (Inr u, r, w) \<Rightarrow> Some (Inr u, Parse_Whitespace r, w))"

section \<open>Parsing a document\<close>

text \<open>
  The exception that leaves the constructor: the message with the line and the index, for every \<open>std::exception\<close>, and
  the others as they are.
\<close>

datatype parse_exn =
    json_error "byte list" nat nat  \<comment> \<open>JSON Error: message at line and index\<close>
  | escaped exn

fun is_std_exception :: "exn \<Rightarrow> bool" where
  "is_std_exception (type_mismatch s e) = False"
| "is_std_exception foreign_exception = False"
| "is_std_exception e = True"

fun locate :: "byte list \<Rightarrow> nat \<Rightarrow> nat \<Rightarrow> nat \<Rightarrow> nat \<times> nat" where
  "locate [] p line last_cr = (line, last_cr)"
| "locate (c # cs) p line last_cr =
     (if c = 0x0A then locate cs (p + 1) (line + 1) p else locate cs (p + 1) line last_cr)"

definition report :: "byte list \<Rightarrow> byte list \<Rightarrow> exn \<Rightarrow> parse_exn" where
  "report document rest e =
     (if is_std_exception e then
        (let current = length document - length rest;
             (line, last_cr) = locate (take current document) 0 1 0
         in json_error (what e) line (current - last_cr))
      else escaped e)"

definition Parse_with :: "nat \<Rightarrow> (byte list \<Rightarrow> 'd option) \<Rightarrow> ('el, 'd, 'w) Element \<Rightarrow> 'el \<Rightarrow> byte list \<Rightarrow> 'w
    \<Rightarrow> ((parse_exn + unit) \<times> 'w) option" where
  "Parse_with fuel to_double E el document w =
     (case Parse_Value fuel to_double E el [] (document, w) of
        None \<Rightarrow> None
      | Some (Inl e, r, w) \<Rightarrow> Some (Inl (report document r e), w)
      | Some (Inr u, r, w) \<Rightarrow>
          (case complete E el False (r, w) of
             (Inl e, r, w) \<Rightarrow> Some (Inl (report document r e), w)
           | (Inr u, r, w) \<Rightarrow> Some (Inr u, w)))"

definition Parse :: "(byte list \<Rightarrow> 'd option) \<Rightarrow> ('el, 'd, 'w) Element \<Rightarrow> 'el \<Rightarrow> byte list \<Rightarrow> 'w
    \<Rightarrow> ((parse_exn + unit) \<times> 'w) option" where
  "Parse to_double E el document w = Parse_with (Suc (length document)) to_double E el document w"

section \<open>The fuel is enough\<close>

lemma Parse_Whitespace_length: "length (Parse_Whitespace rest) \<le> length rest"
  by (induction rest) auto

lemma parse_string_loop_length: "parse_string_loop out rest = (x, r) \<Longrightarrow> length r \<le> length rest"
proof (induction out rest arbitrary: x r rule: parse_string_loop.induct)
  case (2 out c xs)
  show ?case
  proof (cases "string_step c xs")
    case (Pair y r')
    then have "length r' \<le> length xs" by (rule string_step_length)
    with Pair 2 show ?thesis by (cases y) (fastforce split: if_splits)+
  qed
qed simp

lemma Parse_String_length: "Parse_String rest = (x, r) \<Longrightarrow> length r \<le> length rest"
  unfolding Parse_String_def by (rule parse_string_loop_length)

lemma Parse_Number_length: "Parse_Number td rest = (x, r) \<Longrightarrow> length r \<le> length rest"
  by (auto simp: Parse_Number_def split: option.splits)

lemma Skip_literal_length: "Skip_literal sz rest = (x, r) \<Longrightarrow> length r \<le> length rest"
  by (auto simp: Skip_literal_def split: if_splits)

text \<open>A parser that, on at most \<open>m\<close> bytes, does not run out of fuel and leaves no more than it was given.\<close>

definition total_upto :: "nat \<Rightarrow> ('el, 'w) value_parser \<Rightarrow> bool" where
  "total_upto m pv \<longleftrightarrow> (\<forall>el name r w. length r \<le> m \<longrightarrow>
     (\<exists>x r' w'. pv el name (r, w) = Some (x, r', w') \<and> length r' \<le> length r))"

lemma total_uptoD:
  assumes "total_upto m pv" and "length r \<le> m"
  obtains x r' w' where "pv el name (r, w) = Some (x, r', w')" "length r' \<le> length r"
  using assms unfolding total_upto_def by blast

definition ends :: "nat \<Rightarrow> 'w presult option \<Rightarrow> bool" where
  "ends m res \<longleftrightarrow> (\<exists>x r w. res = Some (x, r, w) \<and> length r \<le> m)"

lemma ends_Some [simp]: "ends m (Some (x, r, w)) \<longleftrightarrow> length r \<le> m"
  by (auto simp: ends_def)

lemma ends_mono: "ends m res \<Longrightarrow> m \<le> n \<Longrightarrow> ends n res"
  by (auto simp: ends_def)

lemma ends_complete [simp]: "ends m (Some (complete E el b (r, w))) \<longleftrightarrow> length r \<le> m"
  by (simp add: complete_def split: prod.splits)

lemma ends_on_value [simp]: "ends m (Some (on_value E el name v (r, w))) \<longleftrightarrow> length r \<le> m"
  by (simp add: on_value_def split: prod.splits)

lemma ends_literal_value: "length r \<le> m \<Longrightarrow> ends m (Some (literal_value E el name sz v (r, w)))"
  by (auto simp: literal_value_def split: prod.splits bool.splits dest: Skip_literal_length)

lemma GetChar_Inr: "GetChar rest = (Inr c, r) \<longleftrightarrow> rest = c # r"
  by (auto simp: GetChar_def split: list.splits)

lemma Skip_True: "Skip c rest = (True, r) \<longleftrightarrow> rest = c # r"
  by (auto simp: Skip_def split: list.splits if_splits)

lemma array_loop_ends:
  assumes pv: "total_upto m pv"
  shows "length r \<le> m \<Longrightarrow> length r < n \<Longrightarrow> ends (length r) (array_loop n pv E el (r, w))"
proof (induction n arbitrary: r w)
  case (Suc n)
  obtain x r1 w1 where p: "pv el [] (r, w) = Some (x, r1, w1)" "length r1 \<le> length r"
    using total_uptoD[OF pv Suc.prems(1)] .
  obtain y r2 where g: "GetChar r1 = (y, r2)" by fastforce
  have r2: "length r2 \<le> length r1" using GetChar_length[OF g] .
  show ?case
  proof (cases y)
    case (Inr c)
    with g have r1: "r1 = c # r2" by (simp add: GetChar_Inr)
    have "ends (length r2) (array_loop n pv E el (r2, w1))"
      using Suc.IH[of r2 w1] Suc.prems p r1 by simp
    then show ?thesis
      using p g Inr r1 by (auto split: sum.splits elim: ends_mono)
  qed (use p g r2 in \<open>auto split: sum.splits\<close>)
qed simp

lemma object_loop_ends:
  assumes pv: "total_upto m pv"
  shows "length r \<le> m \<Longrightarrow> length r < n \<Longrightarrow> ends (length r) (object_loop n pv E el (r, w))"
proof (induction n arbitrary: r w)
  case (Suc n)
  obtain b q where s: "Skip 0x22 r = (b, q)" by fastforce
  obtain x r1 where t: "Parse_String q = (x, r1)" by fastforce
  obtain y r2 where g: "GetChar (Parse_Whitespace r1) = (y, r2)" by fastforce
  have len: "length q \<le> length r" "length r1 \<le> length q" "length r2 \<le> length r1"
    using Parse_String_length[OF t] GetChar_length[OF g] Parse_Whitespace_length[of r1] Skip_length[OF s]
    by linarith+
  show ?case
  proof (cases "b \<and> (\<exists>name. x = Inr name) \<and> y = Inr 0x3A")
    case True
    then obtain name where b: "b" and x: "x = Inr name" and y: "y = Inr 0x3A" by blast
    from s b have q: "r = 0x22 # q" by (simp add: Skip_True)
    have "length r2 \<le> m" using len Suc.prems by linarith
    from total_uptoD[OF pv this]
    obtain z r3 w3 where p: "pv el name (r2, w) = Some (z, r3, w3)" "length r3 \<le> length r2" .
    obtain c r4 where g4: "GetChar r3 = (c, r4)" by fastforce
    have r4: "length r4 \<le> length r3" using GetChar_length[OF g4] .
    have ws: "length (Parse_Whitespace r4) \<le> length r4" by (rule Parse_Whitespace_length)
    have "ends (length (Parse_Whitespace r4)) (object_loop n pv E el (Parse_Whitespace r4, w3))"
      using Suc.IH[of "Parse_Whitespace r4" w3] Suc.prems p len q r4 ws by simp
    then show ?thesis
      using s b t x g y p g4 r4 len ws
      by (auto split: sum.splits elim!: ends_mono)
  next
    case False
    then show ?thesis using s t g len by (auto split: sum.splits bool.splits)
  qed
qed simp

lemma Parse_Object_ends:
  assumes pv: "total_upto m pv" and r: "length r \<le> m"
  shows "ends (length r) (Parse_Object pv E el (r, w))"
proof -
  obtain b q where s: "Skip 0x7D (Parse_Whitespace r) = (b, q)" by fastforce
  have "length q \<le> length r" using Skip_length[OF s] Parse_Whitespace_length[of r] by linarith
  then show ?thesis
    using s object_loop_ends[OF pv, of q "Suc (length q)" E el w] r
    by (auto simp: Parse_Object_def split: bool.splits elim: ends_mono)
qed

lemma Parse_Array_ends:
  assumes pv: "total_upto m pv" and r: "length r \<le> m"
  shows "ends (length r) (Parse_Array pv E el (r, w))"
proof -
  obtain b q where s: "Skip 0x5D (Parse_Whitespace r) = (b, q)" by fastforce
  have "length q \<le> length r" using Skip_length[OF s] Parse_Whitespace_length[of r] by linarith
  then show ?thesis
    using s array_loop_ends[OF pv, of q "Suc (length q)" E el w] r
    by (auto simp: Parse_Array_def split: bool.splits elim: ends_mono)
qed

lemma value_switch_ends:
  assumes pv: "total_upto m pv" and r: "length r \<le> Suc m"
  shows "ends (length r) (value_switch pv td E el name (r, w))"
proof (cases r)
  case Nil
  then show ?thesis by (simp add: value_switch_def GetChar_def)
next
  case (Cons c q)
  with r have q: "length q \<le> m" by simp
  have o: "ends (length r) (Parse_Object pv E el' (q, w'))" for el' w'
    using Parse_Object_ends[OF pv q] by (rule ends_mono) (simp add: Cons)
  have a: "ends (length r) (Parse_Array pv E el' (q, w'))" for el' w'
    using Parse_Array_ends[OF pv q] by (rule ends_mono) (simp add: Cons)
  have l: "ends (length r) (Some (literal_value E el name sz v (q, w)))" for sz v
    by (rule ends_literal_value) (simp add: Cons)
  show ?thesis
    using o a l unfolding value_switch_def
    by (auto simp: GetChar_def Cons split: sum.splits prod.splits dest: Parse_String_length Parse_Number_length)
qed

lemma Parse_Value_total: "total_upto m (Parse_Value (Suc m) td E)"
proof (induction m)
  case 0
  show ?case by (auto simp: total_upto_def value_switch_def GetChar_def)
next
  case (Suc m)
  show ?case
    unfolding total_upto_def
  proof (intro allI impI)
    fix el name r w
    assume "length (r :: byte list) \<le> Suc m"
    then have "length (Parse_Whitespace r) \<le> Suc m" using Parse_Whitespace_length[of r] by linarith
    from value_switch_ends[OF Suc.IH this, of td E el name w]
    obtain x q w' where v: "value_switch (Parse_Value (Suc m) td E) td E el name (Parse_Whitespace r, w) = Some (x, q, w')"
      and q: "length q \<le> length (Parse_Whitespace r)" by (auto simp: ends_def)
    have "length (Parse_Whitespace q) \<le> length r" "length q \<le> length r"
      using q Parse_Whitespace_length[of r] Parse_Whitespace_length[of q] by linarith+
    then show "\<exists>x r' w'. Parse_Value (Suc (Suc m)) td E el name (r, w) = Some (x, r', w') \<and> length r' \<le> length r"
      using v by (cases x) (auto simp del: Parse_Value.simps(1) simp: Parse_Value.simps(2)[of "Suc m"])
  qed
qed

text \<open>More fuel never changes a result.\<close>

definition refines :: "('el, 'w) value_parser \<Rightarrow> ('el, 'w) value_parser \<Rightarrow> bool" where
  "refines pv pv' \<longleftrightarrow> (\<forall>el name s res. pv el name s = Some res \<longrightarrow> pv' el name s = Some res)"

lemma refinesD: "refines pv pv' \<Longrightarrow> pv el name s = Some res \<Longrightarrow> pv' el name s = Some res"
  unfolding refines_def by (elim allE impE)

lemma array_loop_refines:
  "refines pv pv' \<Longrightarrow> array_loop n pv E el s = Some res \<Longrightarrow> array_loop n pv' E el s = Some res"
proof (induction n arbitrary: s)
  case (Suc n)
  then obtain x r w where p: "pv el [] s = Some (x, r, w)" by (auto split: option.splits)
  with Suc.prems(1) have p': "pv' el [] s = Some (x, r, w)" by (rule refinesD)
  from Suc p p' show ?case by (auto split: sum.splits prod.splits if_splits)
qed simp

lemma object_loop_refines:
  "refines pv pv' \<Longrightarrow> object_loop n pv E el (r, w) = Some res \<Longrightarrow> object_loop n pv' E el (r, w) = Some res"
proof (induction n arbitrary: r w)
  case (Suc n)
  have IH: "object_loop n pv E el (r, w) = Some res \<Longrightarrow> object_loop n pv' E el (r, w) = Some res" for r w
    using Suc.IH Suc.prems(1) .
  show ?case
    using Suc.prems(2) IH refinesD[OF Suc.prems(1)]
    by (auto split: sum.splits prod.splits bool.splits if_splits option.splits)
qed simp

lemma Parse_Object_refines:
  "refines pv pv' \<Longrightarrow> Parse_Object pv E el s = Some res \<Longrightarrow> Parse_Object pv' E el s = Some res"
  unfolding Parse_Object_def by (auto split: prod.splits bool.splits dest: object_loop_refines simp del: object_loop.simps)

lemma Parse_Array_refines:
  "refines pv pv' \<Longrightarrow> Parse_Array pv E el s = Some res \<Longrightarrow> Parse_Array pv' E el s = Some res"
  unfolding Parse_Array_def by (auto split: prod.splits bool.splits dest: array_loop_refines simp del: array_loop.simps)

lemma value_switch_refines:
  assumes "refines pv pv'" and "value_switch pv td E el name s = Some res"
  shows "value_switch pv' td E el name s = Some res"
proof (cases "fst s")
  case (Cons c r)
  obtain y w where o: "OnObject E el name (snd s) = (y, w)" by fastforce
  obtain z v where a: "OnArray E el name (snd s) = (z, v)" by fastforce
  consider "c = 0x7B" | "c = 0x5B" | "c \<noteq> 0x7B" "c \<noteq> 0x5B" by blast
  then show ?thesis
  proof cases
    case 1
    then show ?thesis using assms Cons o
      by (cases y) (simp_all add: value_switch_def GetChar_def Parse_Object_refines)
  next
    case 2
    then show ?thesis using assms Cons a
      by (cases z) (simp_all add: value_switch_def GetChar_def Parse_Array_refines)
  next
    case 3
    then show ?thesis using assms(2) Cons by (simp add: value_switch_def GetChar_def)
  qed
qed (use assms(2) in \<open>simp add: value_switch_def GetChar_def\<close>)

lemma Parse_Value_refines: "refines (Parse_Value d td E) (Parse_Value (Suc d) td E)"
proof (induction d)
  case (Suc d)
  have *: "value_switch (Parse_Value d td E) td E el name s = Some res
      \<Longrightarrow> value_switch (Parse_Value (Suc d) td E) td E el name s = Some res" for el name s res
    using value_switch_refines[OF Suc.IH] .
  show ?case
    unfolding refines_def Parse_Value.simps(2)[of "Suc d"] Parse_Value.simps(2)[of d]
  proof (intro allI impI, goal_cases)
    case (1 el name s res)
    then obtain v where v: "value_switch (Parse_Value d td E) td E el name (Parse_Whitespace (fst s), snd s) = Some v"
      by (auto split: option.splits)
    from *[OF v] 1 v show ?case by (simp only: Parse_Value.simps(2))
  qed
qed (simp add: refines_def)

lemma Parse_Value_more: "Parse_Value d td E el name s = Some res \<Longrightarrow> Parse_Value (d + k) td E el name s = Some res"
  by (induction k) (simp_all add: refinesD[OF Parse_Value_refines] del: Parse_Value.simps)

lemma Parse_Value_enough:
  assumes "length r < d"
  shows "Parse_Value d td E el name (r, w) = Parse_Value (Suc (length r)) td E el name (r, w)"
proof -
  obtain x r' w' where p: "Parse_Value (Suc (length r)) td E el name (r, w) = Some (x, r', w')"
    by (rule total_uptoD[OF Parse_Value_total order_refl])
  obtain k where "d = Suc (length r) + k" using assms less_eqE by (metis Suc_leI)
  with Parse_Value_more[OF p, of k] p show ?thesis by simp
qed

lemma Parse_Some: "\<exists>res. Parse td E el document w = Some res"
proof -
  obtain x r' w' where p: "Parse_Value (Suc (length document)) td E el [] (document, w) = Some (x, r', w')"
    by (rule total_uptoD[OF Parse_Value_total order_refl])
  show ?thesis
    by (cases x; cases "fst (complete E el False (r', w'))")
      (auto simp: Parse_def Parse_with_def p simp del: Parse_Value.simps split: prod.splits sum.splits)
qed

text \<open>
  C34. The JSON reader always returns: the document's length is enough fuel for every document, element and number
  conversion, however deep the nesting, and any larger amount gives the same result.
\<close>

theorem json_parse_terminates:
  "\<exists>res. Parse td E el document w = Some res \<and> (\<forall>k. Parse_with (Suc (length document) + k) td E el document w = Some res)"
proof -
  obtain res where res: "Parse td E el document w = Some res" using Parse_Some by (rule exE)
  have "Parse_with (Suc (length document) + k) td E el document w = Parse td E el document w" for k
    unfolding Parse_def Parse_with_def
    using Parse_Value_enough[of document "Suc (length document) + k" td E el "[]" w] by simp
  with res show ?thesis by (simp del: Parse_Value.simps)
qed

section \<open>What a string literal may contain\<close>

text \<open>
  The specification of the text between quotes: unescaped bytes, one-character escapes, \<open>\u\<close> escapes of a code point
  outside the surrogate range, and surrogate pairs, with the bytes each of them stands for.
\<close>

definition hex_digit_value :: "byte \<Rightarrow> nat" where
  "hex_digit_value c = (if is_digit c then unat c - 0x30 else unat (lower c) - 0x61 + 10)"

definition is_hex :: "byte \<Rightarrow> bool" where
  "is_hex c \<longleftrightarrow> is_digit c \<or> 0x61 \<le> lower c \<and> lower c \<le> 0x66"

definition hex4_value :: "byte list \<Rightarrow> nat" where
  "hex4_value hs = foldl (\<lambda>a c. a * 16 + hex_digit_value c) 0 hs"

definition hex4 :: "byte list \<Rightarrow> bool" where
  "hex4 hs \<longleftrightarrow> length hs = 4 \<and> list_all is_hex hs"

datatype piece = Raw byte | Escape byte | Unicode "byte list" | Pair "byte list" "byte list"

fun piece_text :: "piece \<Rightarrow> byte list" where
  "piece_text (Raw b) = [b]"
| "piece_text (Escape c) = [0x5C, c]"
| "piece_text (Unicode hs) = 0x5C # 0x75 # hs"
| "piece_text (Pair hi lo) = 0x5C # 0x75 # hi @ 0x5C # 0x75 # lo"

definition utf8_bytes :: "nat \<Rightarrow> byte list" where
  "utf8_bytes c = map of_nat (utf8_encode c)"

fun piece_ok :: "piece \<Rightarrow> bool" where
  "piece_ok (Raw b) \<longleftrightarrow> 0x20 \<le> b \<and> b \<noteq> 0x22 \<and> b \<noteq> 0x5C"
| "piece_ok (Escape c) \<longleftrightarrow> c \<in> {0x22, 0x5C, 0x2F, 0x62, 0x6E, 0x66, 0x72, 0x74}"
| "piece_ok (Unicode hs) \<longleftrightarrow> hex4 hs \<and> scalar (hex4_value hs)"
| "piece_ok (Pair hi lo) \<longleftrightarrow> hex4 hi \<and> hex4 lo \<and> 0xD800 \<le> hex4_value hi \<and> hex4_value hi \<le> 0xDBFF
     \<and> 0xDC00 \<le> hex4_value lo \<and> hex4_value lo \<le> 0xDFFF"

fun piece_bytes :: "piece \<Rightarrow> byte list" where
  "piece_bytes (Raw b) = [b]"
| "piece_bytes (Escape c) = [if c = 0x62 then 8 else if c = 0x6E then 10 else if c = 0x66 then 12
     else if c = 0x72 then 13 else if c = 0x74 then 9 else c]"
| "piece_bytes (Unicode hs) = utf8_bytes (hex4_value hs)"
| "piece_bytes (Pair hi lo) = utf8_bytes (0x10000 + (hex4_value hi - 0xD800) * 0x400 + (hex4_value lo - 0xDC00))"

lemma lower_cases: "lower c = (if 0x41 \<le> unat c \<and> unat c \<le> 0x5A then c + 0x20 else c)"
  by (simp add: lower_def word_le_nat_alt)

lemma unat_lower: "unat (lower c) = (if 0x41 \<le> unat c \<and> unat c \<le> 0x5A then unat c + 0x20 else unat c)"
  by (auto simp: lower_cases unat_plus_if')

lemma is_hex_bound: "is_hex c \<Longrightarrow> hex_digit_value c < 16"
  by (auto simp: is_hex_def hex_digit_value_def is_digit_def word_le_nat_alt)

lemma hex_digit_iff: "hex_digit c = (if is_hex c then Some (of_nat (hex_digit_value c)) else None)"
proof -
  have u: "ucast x = (of_nat (unat x) :: 32 word)" for x :: byte by simp
  have "ucast (c - 0x30) = (of_nat (unat c - 0x30) :: 32 word)" if "0x30 \<le> c"
    unfolding u using that by (simp add: unat_sub del: of_nat_unat)
  moreover have "ucast (lower c - 0x61 + 10) = (of_nat (unat (lower c) - 0x61 + 10) :: 32 word)"
    if "0x61 \<le> lower c" "lower c \<le> 0x66"
    unfolding u using that by (simp add: unat_plus_if' unat_sub word_le_nat_alt del: of_nat_unat)
  ultimately show ?thesis
    by (simp add: hex_digit_def is_hex_def hex_digit_value_def is_digit_def)
qed

lemma hex_step: "is_hex c \<Longrightarrow> Suc (n * 16 + hex_digit_value c) * p \<le> Suc n * (16 * p)"
proof -
  assume "is_hex c"
  then have "Suc (n * 16 + hex_digit_value c) * p \<le> (Suc n * 16) * p"
    by (intro mult_le_mono1) (use is_hex_bound[of c] in simp)
  then show ?thesis by (simp only: mult.assoc)
qed

lemma hex_value_nat:
  "list_all is_hex hs \<Longrightarrow> Suc n * 16 ^ length hs \<le> 2 ^ 32
    \<Longrightarrow> hex_value (of_nat n) hs = Some (of_nat (foldl (\<lambda>a c. a * 16 + hex_digit_value c) n hs))"
proof (induction hs arbitrary: n)
  case (Cons c hs)
  have "Suc (n * 16 + hex_digit_value c) * 16 ^ length hs \<le> 2 ^ 32"
    by (rule order_trans[OF hex_step]) (use Cons.prems in simp_all)
  with Cons.IH[OF _ this] Cons.prems(1) show ?case by (simp add: hex_digit_iff del: mult_Suc)
qed simp

lemma foldl_hex_bound:
  "list_all is_hex hs \<Longrightarrow> foldl (\<lambda>a c. a * 16 + hex_digit_value c) n hs < Suc n * 16 ^ length hs"
proof (induction hs arbitrary: n)
  case (Cons c hs)
  have "foldl (\<lambda>a c. a * 16 + hex_digit_value c) (n * 16 + hex_digit_value c) hs
      < Suc (n * 16 + hex_digit_value c) * 16 ^ length hs" using Cons by (simp del: mult_Suc)
  also have "\<dots> \<le> Suc n * (16 * 16 ^ length hs)" by (rule hex_step) (use Cons.prems in simp)
  finally show ?case by simp
qed simp

lemma hex4_value_bound: "hex4 hs \<Longrightarrow> hex4_value hs < 0x10000"
  using foldl_hex_bound[of hs 0] by (simp add: hex4_def hex4_value_def)

lemma hex_value_None: "\<not> list_all is_hex hs \<Longrightarrow> hex_value a hs = None"
  by (induction hs arbitrary: a) (auto simp: hex_digit_iff)

lemma Parse_Hex4_Inr:
  "Parse_Hex4 rest = (Inr v, r) \<longleftrightarrow> (\<exists>hs. rest = hs @ r \<and> hex4 hs \<and> v = of_nat (hex4_value hs))"
proof
  assume p: "Parse_Hex4 rest = (Inr v, r)"
  then have l: "4 \<le> length rest" and h: "hex_value 0 (take 4 rest) = Some v" and r: "r = drop 4 rest"
    by (auto simp: Parse_Hex4_def split: if_splits option.splits)
  have x: "list_all is_hex (take 4 rest)" using h hex_value_None[of "take 4 rest" 0] by auto
  then have "hex4 (take 4 rest)" using l by (simp add: hex4_def)
  moreover have "v = of_nat (hex4_value (take 4 rest))"
    using h hex_value_nat[OF x, of 0] l by (simp add: hex4_value_def)
  ultimately show "\<exists>hs. rest = hs @ r \<and> hex4 hs \<and> v = of_nat (hex4_value hs)"
    using r append_take_drop_id[of 4 rest] by metis
next
  assume "\<exists>hs. rest = hs @ r \<and> hex4 hs \<and> v = of_nat (hex4_value hs)"
  then obtain hs where "rest = hs @ r" "hex4 hs" "v = of_nat (hex4_value hs)" by blast
  then show "Parse_Hex4 rest = (Inr v, r)"
    using hex_value_nat[of hs 0] by (simp add: Parse_Hex4_def hex4_def hex4_value_def)
qed

section \<open>UTF-8 output\<close>

lemma or_add:
  fixes x a :: "32 word"
  assumes "unat x < 2 ^ n" and "take_bit n a = 0"
  shows "a OR x = a + x"
proof -
  have x: "take_bit n x = x" using assms(1) by (intro word_unat_eq_iff[THEN iffD2]) (simp add: unsigned_take_bit_eq take_bit_nat_eq_self)
  have "a AND take_bit n x = take_bit n a AND x" by (auto simp: bit_eq_iff bit_simps)
  with x assms(2) show ?thesis by (simp add: disjunctive_add_eq_or)
qed

lemma or_byte:
  fixes x a :: "32 word"
  assumes "unat x < 2 ^ n" and "take_bit n a = 0" and "unat a + unat x < 2 ^ 32"
  shows "(ucast (a OR x) :: byte) = of_nat (unat a + unat x)"
proof -
  have "(ucast (a OR x) :: byte) = of_nat (unat (a + x))" by (simp add: or_add[OF assms(1,2)])
  also have "unat (a + x) = unat a + unat x" using assms(3) by (simp add: unat_plus_if')
  finally show ?thesis .
qed

lemma unat_and_3f: "unat (x AND 0x3f :: 32 word) = unat x mod 64"
proof -
  have "x AND 0x3f = take_bit 6 x" by (simp add: take_bit_eq_mask mask_eq_exp_minus_1)
  then have "unat (x AND 0x3f) = take_bit 6 (unat x)" by (simp only: unsigned_take_bit_eq)
  then show ?thesis by (simp add: take_bit_eq_mod)
qed

lemma unat_drop_bit: "unat (drop_bit n x :: 32 word) = unat x div 2 ^ n"
  using unat_drop_bit_eq[of n x] drop_bit_eq_div[of n "unat x"] by simp

lemma Append_Utf8_encodes:
  assumes "unat cp \<le> 0x10FFFF"
  shows "Append_Utf8 out cp = out @ utf8_bytes (unat cp)"
proof -
  let ?c = "unat cp"
  have t: "(ucast (0x80 OR (y AND 0x3f)) :: byte) = of_nat (0x80 + unat y mod 64)" for y :: "32 word"
  proof -
    have "unat (y AND 0x3f) < 2 ^ 6" by (simp add: unat_and_3f)
    from or_byte[where x = "y AND 0x3f" and n = 6 and a = "0x80"] this show ?thesis by (simp add: unat_and_3f)
  qed
  have l2: "(ucast (0xc0 OR drop_bit 6 cp) :: byte) = of_nat (0xC0 + ?c div 64)" if "?c < 0x800"
    using or_byte[where x = "drop_bit 6 cp" and n = 5 and a = "0xc0"] that by (simp add: unat_drop_bit)
  have l3: "(ucast (0xe0 OR drop_bit 12 cp) :: byte) = of_nat (0xE0 + ?c div 4096)" if "?c < 0x10000"
    using or_byte[where x = "drop_bit 12 cp" and n = 4 and a = "0xe0"] that by (simp add: unat_drop_bit)
  have l4: "(ucast (0xf0 OR drop_bit 18 cp) :: byte) = of_nat (0xF0 + ?c div 262144)"
    using or_byte[where x = "drop_bit 18 cp" and n = 3 and a = "0xf0"] assms by (simp add: unat_drop_bit)
  have l1: "(ucast cp :: byte) = of_nat ?c" by simp
  consider "?c < 0x80" | "0x80 \<le> ?c" "?c < 0x800" | "0x800 \<le> ?c" "?c < 0x10000" | "0x10000 \<le> ?c" by linarith
  then show ?thesis
  proof cases
    case 1
    then show ?thesis by (simp add: Append_Utf8_def utf8_bytes_def utf8_encode_def word_le_nat_alt)
  next
    case 2
    then show ?thesis using t[of cp] l2
      by (simp add: Append_Utf8_def utf8_bytes_def utf8_encode_def word_le_nat_alt)
  next
    case 3
    then show ?thesis using t[of cp] t[of "drop_bit 6 cp"] l3
      by (simp add: Append_Utf8_def utf8_bytes_def utf8_encode_def word_le_nat_alt unat_drop_bit)
  next
    case 4
    then show ?thesis using t[of cp] t[of "drop_bit 6 cp"] t[of "drop_bit 12 cp"] l4
      by (simp add: Append_Utf8_def utf8_bytes_def utf8_encode_def word_le_nat_alt unat_drop_bit)
  qed
qed

section \<open>Strings are read exactly\<close>

lemma unat_of_hex4: "hex4 hs \<Longrightarrow> unat (of_nat (hex4_value hs) :: 32 word) = hex4_value hs"
  using hex4_value_bound[of hs] by (simp add: unsigned_of_nat take_bit_nat_eq_self)

definition pair_value :: "byte list \<Rightarrow> byte list \<Rightarrow> nat" where
  "pair_value hi lo = 0x10000 + (hex4_value hi - 0xD800) * 0x400 + (hex4_value lo - 0xDC00)"

definition high_surrogate :: "byte list \<Rightarrow> bool" where
  "high_surrogate hs \<longleftrightarrow> 0xD800 \<le> hex4_value hs \<and> hex4_value hs \<le> 0xDBFF"

definition low_surrogate :: "byte list \<Rightarrow> bool" where
  "low_surrogate hs \<longleftrightarrow> 0xDC00 \<le> hex4_value hs \<and> hex4_value hs \<le> 0xDFFF"

lemma pair_codepoint:
  assumes "high_surrogate hi" and "low_surrogate lo"
  shows "0x10000 + push_bit 10 (of_nat (hex4_value hi) - 0xd800) + (of_nat (hex4_value lo) - 0xdc00)
    = (of_nat (pair_value hi lo) :: 32 word)"
  using assms by (simp add: high_surrogate_def low_surrogate_def pair_value_def push_bit_eq_mult of_nat_diff)

lemma pair_value_bound:
  "high_surrogate hi \<Longrightarrow> low_surrogate lo \<Longrightarrow> 0x10000 \<le> pair_value hi lo \<and> pair_value hi lo \<le> 0x10FFFF"
  by (auto simp: high_surrogate_def low_surrogate_def pair_value_def)

lemma surrogate_tests:
  assumes "hex4 hs"
  shows "0xd800 \<le> (of_nat (hex4_value hs) :: 32 word) \<and> (of_nat (hex4_value hs) :: 32 word) \<le> 0xdbff \<longleftrightarrow> high_surrogate hs"
    and "0xdc00 \<le> (of_nat (hex4_value hs) :: 32 word) \<and> (of_nat (hex4_value hs) :: 32 word) \<le> 0xdfff \<longleftrightarrow> low_surrogate hs"
    and "(of_nat (hex4_value hs) :: 32 word) < 0xdc00 \<or> 0xdfff < (of_nat (hex4_value hs) :: 32 word) \<longleftrightarrow> \<not> low_surrogate hs"
  by (auto simp: word_le_nat_alt word_less_nat_alt unat_of_hex4[OF assms] high_surrogate_def low_surrogate_def)

lemma scalar_iff: "hex4 hs \<Longrightarrow> scalar (hex4_value hs) \<longleftrightarrow> \<not> high_surrogate hs \<and> \<not> low_surrogate hs"
  using hex4_value_bound[of hs] by (auto simp: scalar_def high_surrogate_def low_surrogate_def)

text \<open>A successful \<open>\u\<close> escape is a single escape or a surrogate pair, and conversely.\<close>

lemma parse_unicode_single:
  assumes "hex4 hs" and "scalar (hex4_value hs)"
  shows "parse_unicode (hs @ r) = (Inr (of_nat (hex4_value hs)), r)"
proof -
  have "Parse_Hex4 (hs @ r) = (Inr (of_nat (hex4_value hs)), r)" using assms(1) by (auto simp: Parse_Hex4_Inr)
  then show ?thesis using assms by (simp add: parse_unicode_def surrogate_tests scalar_iff)
qed

lemma parse_unicode_pair:
  assumes "hex4 hi" "hex4 lo" and "high_surrogate hi" "low_surrogate lo"
  shows "parse_unicode (hi @ 0x5C # 0x75 # lo @ r) = (Inr (of_nat (pair_value hi lo)), r)"
proof -
  have "Parse_Hex4 (hi @ 0x5C # 0x75 # lo @ r) = (Inr (of_nat (hex4_value hi)), 0x5C # 0x75 # lo @ r)"
    and "Parse_Hex4 (lo @ r) = (Inr (of_nat (hex4_value lo)), r)"
    using assms(1,2) by (auto simp: Parse_Hex4_Inr)
  then show ?thesis
    using assms pair_codepoint[OF assms(3,4)]
    by (simp add: parse_unicode_def surrogate_tests Skip_def)
qed

lemma parse_unicode_Inr:
  assumes "parse_unicode rest = (Inr cp, r)"
  shows "(\<exists>hs. rest = hs @ r \<and> hex4 hs \<and> scalar (hex4_value hs) \<and> cp = of_nat (hex4_value hs))
    \<or> (\<exists>hi lo. rest = hi @ 0x5C # 0x75 # lo @ r \<and> hex4 hi \<and> hex4 lo \<and> high_surrogate hi \<and> low_surrogate lo
        \<and> cp = of_nat (pair_value hi lo))"
proof -
  obtain c r1 where h: "Parse_Hex4 rest = (Inr c, r1)"
    using assms by (auto simp: parse_unicode_def split: prod.splits sum.splits)
  then obtain hs where hs: "rest = hs @ r1" "hex4 hs" and c: "c = of_nat (hex4_value hs)"
    by (auto simp: Parse_Hex4_Inr)
  show ?thesis
  proof (cases "high_surrogate hs")
    case True
    then have b: "0xd800 \<le> c \<and> c \<le> 0xdbff" unfolding c surrogate_tests(1)[OF hs(2)] .
    obtain r2 r3 low where s: "Skip 0x5C r1 = (True, r2)" "Skip 0x75 r2 = (True, r3)" "Parse_Hex4 r3 = (Inr low, r)"
      and nl: "\<not> (low < 0xdc00 \<or> 0xdfff < low)" and cp: "cp = 0x10000 + push_bit 10 (c - 0xd800) + (low - 0xdc00)"
      using assms h b by (auto simp: parse_unicode_def split: prod.splits sum.splits bool.splits if_splits)
    obtain lo where lo: "r3 = lo @ r" "hex4 lo" and low: "low = of_nat (hex4_value lo)"
      using s(3) by (auto simp: Parse_Hex4_Inr)
    have "low_surrogate lo" using nl surrogate_tests(3)[OF lo(2)] unfolding low by blast
    then show ?thesis
      using hs lo s(1,2) True cp pair_codepoint[OF True] c low by (auto simp: Skip_True)
  next
    case False
    then have b: "\<not> (0xd800 \<le> c \<and> c \<le> 0xdbff)" unfolding c surrogate_tests(1)[OF hs(2)] .
    have nl: "\<not> (0xdc00 \<le> c \<and> c \<le> 0xdfff)" and "cp = c" "r = r1"
      using assms h b by (auto simp: parse_unicode_def split: if_splits)
    then have "\<not> low_surrogate hs" unfolding c surrogate_tests(2)[OF hs(2)] by blast
    then show ?thesis using False hs c \<open>cp = c\<close> \<open>r = r1\<close> by (auto simp: scalar_iff)
  qed
qed

lemma Append_Utf8_of_nat: "n \<le> 0x10FFFF \<Longrightarrow> Append_Utf8 [] (of_nat n) = utf8_bytes n"
  using Append_Utf8_encodes[of "of_nat n" "[]"] by (simp add: unsigned_of_nat take_bit_nat_eq_self)

lemma simple_escape_piece: "simple_escape x = Some b \<longleftrightarrow> piece_ok (Escape x) \<and> piece_bytes (Escape x) = [b]"
  by (auto simp: simple_escape_def)

lemma piece_ok_Pair: "piece_ok (Pair hi lo) \<longleftrightarrow> hex4 hi \<and> hex4 lo \<and> high_surrogate hi \<and> low_surrogate lo"
  by (auto simp: high_surrogate_def low_surrogate_def)

lemma piece_bytes_Pair: "piece_bytes (Pair hi lo) = utf8_bytes (pair_value hi lo)"
  by (simp add: pair_value_def)

lemma string_step_piece:
  assumes "piece_ok p" and "piece_text p @ r = c # xs"
  shows "c \<noteq> 0x22 \<and> string_step c xs = (Inr (piece_bytes p), r)"
proof (cases p)
  case (Raw b)
  then show ?thesis using assms by (auto simp: string_step_def)
next
  case (Escape x)
  with assms(2) have c: "c = 0x5C" "xs = x # r" by auto
  obtain b where "piece_bytes (Escape x) = [b]" by simp
  moreover have "x \<noteq> 0x75" using assms(1) Escape by auto
  ultimately have "string_step c xs = (Inr [b], r)"
    using assms(1) Escape c simple_escape_piece[of x b] by (simp add: string_step_def GetChar_def)
  with \<open>piece_bytes (Escape x) = [b]\<close> Escape c show ?thesis by simp
next
  case (Unicode hs)
  with assms have c: "c = 0x5C" "xs = 0x75 # hs @ r" and ok: "hex4 hs" "scalar (hex4_value hs)" by auto
  then show ?thesis
    using Unicode parse_unicode_single[OF ok] Append_Utf8_of_nat[of "hex4_value hs"] hex4_value_bound[OF ok(1)]
    by (simp add: string_step_def GetChar_def)
next
  case (Pair hi lo)
  with assms have c: "c = 0x5C" "xs = 0x75 # hi @ 0x5C # 0x75 # lo @ r"
    and ok: "hex4 hi" "hex4 lo" "high_surrogate hi" "low_surrogate lo" by (auto simp: piece_ok_Pair simp del: piece_ok.simps)
  then show ?thesis
    using Pair parse_unicode_pair[OF ok] Append_Utf8_of_nat[of "pair_value hi lo"] pair_value_bound[OF ok(3,4)]
    by (simp add: string_step_def GetChar_def piece_bytes_Pair del: piece_bytes.simps)
qed

lemma string_step_Inr:
  assumes "string_step c xs = (Inr bs, r)" and "c \<noteq> 0x22"
  shows "\<exists>p. piece_ok p \<and> piece_text p @ r = c # xs \<and> piece_bytes p = bs"
proof (cases "c = 0x5C")
  case False
  with assms have "piece_ok (Raw c)" "xs = r" "bs = [c]" by (auto simp: string_step_def split: if_splits)
  then show ?thesis by (intro exI[of _ "Raw c"]) simp
next
  case True
  with assms(1) obtain x r1 where g: "xs = x # r1" by (cases xs) (auto simp: string_step_def GetChar_def)
  show ?thesis
  proof (cases "x = 0x75")
    case False
    with assms(1) True g have "r1 = r" and "\<exists>b. simple_escape x = Some b \<and> bs = [b]"
      by (auto simp: string_step_def GetChar_def split: option.splits)
    with True g show ?thesis by (intro exI[of _ "Escape x"]) (auto simp: simple_escape_piece simp del: piece_ok.simps piece_bytes.simps)
  next
    case u: True
    with assms(1) True g obtain cp where p: "parse_unicode r1 = (Inr cp, r)" and bs: "bs = Append_Utf8 [] cp"
      by (auto simp: string_step_def GetChar_def split: prod.splits sum.splits)
    from parse_unicode_Inr[OF p] show ?thesis
    proof (elim disjE exE conjE)
      fix hs assume "r1 = hs @ r" "hex4 hs" "scalar (hex4_value hs)" "cp = of_nat (hex4_value hs)"
      then show ?thesis using True g u bs Append_Utf8_of_nat[of "hex4_value hs"] hex4_value_bound[of hs]
        by (intro exI[of _ "Unicode hs"]) simp
    next
      fix hi lo assume ok: "hex4 hi" "hex4 lo" "high_surrogate hi" "low_surrogate lo"
        and "r1 = hi @ 0x5C # 0x75 # lo @ r" "cp = of_nat (pair_value hi lo)"
      then show ?thesis using True g u bs Append_Utf8_of_nat[of "pair_value hi lo"] pair_value_bound[OF ok(3,4)]
        by (intro exI[of _ "Pair hi lo"]) (simp add: piece_ok_Pair piece_bytes_Pair del: piece_ok.simps piece_bytes.simps)
    qed
  qed
qed

definition string_text :: "piece list \<Rightarrow> byte list" where
  "string_text ps = concat (map piece_text ps)"

definition string_bytes :: "piece list \<Rightarrow> byte list" where
  "string_bytes ps = concat (map piece_bytes ps)"

lemma string_text_simps [simp]: "string_text [] = []" "string_text (p # ps) = piece_text p @ string_text ps"
  by (simp_all add: string_text_def)

lemma string_bytes_simps [simp]: "string_bytes [] = []" "string_bytes (p # ps) = piece_bytes p @ string_bytes ps"
  by (simp_all add: string_bytes_def)

lemma piece_text_Cons: "\<exists>c xs. piece_text p = c # xs"
  by (cases p) auto

lemma parse_string_loop_text:
  "list_all piece_ok ps \<Longrightarrow> parse_string_loop out (string_text ps @ 0x22 # r) = (Inr (out @ string_bytes ps), r)"
proof (induction ps arbitrary: out)
  case (Cons p ps)
  obtain c xs where cx: "piece_text p = c # xs" using piece_text_Cons by blast
  with string_step_piece[of p "string_text ps @ 0x22 # r" c] Cons.prems
  have "c \<noteq> 0x22" "string_step c (xs @ string_text ps @ 0x22 # r) = (Inr (piece_bytes p), string_text ps @ 0x22 # r)"
    by simp_all
  with Cons cx show ?case by simp
qed simp

lemma Parse_String_text: "list_all piece_ok ps \<Longrightarrow> Parse_String (string_text ps @ 0x22 # r) = (Inr (string_bytes ps), r)"
  using parse_string_loop_text[of ps "[]"] by (simp add: Parse_String_def)

lemma parse_string_loop_Inr:
  "parse_string_loop out rest = (Inr s, r)
    \<Longrightarrow> \<exists>ps. list_all piece_ok ps \<and> rest = string_text ps @ 0x22 # r \<and> s = out @ string_bytes ps"
proof (induction out rest rule: parse_string_loop.induct)
  case (2 out c xs)
  show ?case
  proof (cases "c = 0x22")
    case True
    with 2 show ?thesis by (intro exI[of _ "[]"]) simp
  next
    case False
    obtain x q where st: "string_step c xs = (x, q)" by fastforce
    then obtain bs where bs: "x = Inr bs" using 2(2) False by (cases x) auto
    have rest: "parse_string_loop (out @ bs) q = (Inr s, r)" using 2(2) False st bs by simp
    obtain ps where ps: "list_all piece_ok ps" "q = string_text ps @ 0x22 # r" "s = (out @ bs) @ string_bytes ps"
      using 2(1)[OF False _ bs rest] st by auto
    obtain p where p: "piece_ok p" "piece_text p @ q = c # xs" "piece_bytes p = bs"
      using string_step_Inr st bs False by blast
    from p(2) ps(2) have "c # xs = string_text (p # ps) @ 0x22 # r" by simp
    then show ?thesis using p ps by (intro exI[of _ "p # ps"]) simp
  qed
qed simp

text \<open>
  C33. \<open>Parse_String\<close> accepts exactly the texts made of unescaped bytes from 0x20 on other than quote and backslash, the
  eight one-character escapes, \<open>\u\<close> escapes of code points that are no surrogates and surrogate pairs, up to the closing
  quote, and returns the bytes they stand for: code points come out in UTF-8, pairs as the one code point they encode.
  On everything else it throws, since it returns no other value.
\<close>

theorem json_string_exact:
  "Parse_String rest = (Inr s, r)
    \<longleftrightarrow> (\<exists>ps. list_all piece_ok ps \<and> rest = string_text ps @ 0x22 # r \<and> s = string_bytes ps)"
proof
  assume "Parse_String rest = (Inr s, r)"
  then show "\<exists>ps. list_all piece_ok ps \<and> rest = string_text ps @ 0x22 # r \<and> s = string_bytes ps"
    using parse_string_loop_Inr[of "[]" rest s r] by (simp add: Parse_String_def)
qed (auto simp: Parse_String_text)

section \<open>Number texts\<close>

lemma takeWhile_stop: "\<not> P c \<Longrightarrow> takeWhile P (xs @ c # r) = takeWhile P xs"
  by (induction xs) auto

lemma drop_takeWhile_stop:
  "drop (length (takeWhile P xs)) (xs @ ys) = drop (length (takeWhile P xs)) xs @ ys"
  by (simp add: length_takeWhile_le)

text \<open>The bytes that may follow a value inside a document.\<close>

definition delimiter :: "byte \<Rightarrow> bool" where
  "delimiter c \<longleftrightarrow> is_space c \<or> c = 0x2C \<or> c = 0x5D \<or> c = 0x7D"

lemma delimiter_facts:
  assumes "delimiter c"
  shows "\<not> is_digit c" "c \<noteq> 0x2E" "lower c \<noteq> 0x65" "c \<noteq> 0x2B" "c \<noteq> 0x2D" "c \<noteq> 0x28" "c \<noteq> 0x29"
    "\<not> is_nan_char c" "lower c = c"
  using assms by (auto simp: delimiter_def is_space_def is_digit_def is_nan_char_def lower_def)

lemma scan_exponent_stop:
  assumes "delimiter c"
  shows "scan_exponent (xs @ c # r) = scan_exponent xs"
proof (cases xs)
  case Nil
  with delimiter_facts(3)[OF assms] show ?thesis by (simp add: scan_exponent_def)
next
  case (Cons e ys)
  show ?thesis
  proof (cases ys)
    case Nil
    with Cons delimiter_facts[OF assms] show ?thesis by (simp add: scan_exponent_def)
  next
    case (Cons s zs)
    have "takeWhile is_digit (s # zs @ c # r) = takeWhile is_digit (s # zs)"
      and "takeWhile is_digit (zs @ c # r) = takeWhile is_digit zs"
      using takeWhile_stop[of is_digit, OF delimiter_facts(1)[OF assms]] by simp_all
    then show ?thesis using Cons \<open>xs = e # ys\<close> by (simp add: scan_exponent_def Let_def)
  qed
qed

definition point_and_fraction :: "byte list \<Rightarrow> byte list" where
  "point_and_fraction s = (case s of [] \<Rightarrow> [] | p # ys \<Rightarrow> if p = 0x2E then p # takeWhile is_digit ys else [])"

lemma scan_decimal_parts:
  "list_all is_digit w \<Longrightarrow> takeWhile is_digit s = []
    \<Longrightarrow> scan_decimal (w @ s) = (if w = [] \<and> length (point_and_fraction s) \<le> 1 then None
      else Some (w @ point_and_fraction s @ scan_exponent (drop (length (point_and_fraction s)) s)))"
proof -
  assume "list_all is_digit w" and s: "takeWhile is_digit s = []"
  then have w: "takeWhile is_digit (w @ s) = w"
    by (induction w) auto
  show ?thesis
  proof (cases s)
    case Nil
    with w have "takeWhile is_digit w = w" by simp
    with Nil show ?thesis by (simp add: scan_decimal_def point_and_fraction_def Let_def del: takeWhile_eq_all_conv)
  next
    case (Cons p ys)
    then have "drop (length w) (w @ s) = p # ys" by simp
    then show ?thesis unfolding scan_decimal_def w Let_def by (simp add: Cons point_and_fraction_def)
  qed
qed

lemma point_and_fraction_stop:
  assumes "delimiter c"
  shows "point_and_fraction (s @ c # r) = point_and_fraction s"
    and "length (point_and_fraction s) \<le> length s"
  using delimiter_facts[OF assms]
  by (cases s; simp add: point_and_fraction_def takeWhile_stop length_takeWhile_le)+

lemma scan_decimal_stop:
  assumes "delimiter c"
  shows "scan_decimal (xs @ c # r) = scan_decimal xs"
proof -
  define w where "w = takeWhile is_digit xs"
  define s where "s = dropWhile is_digit xs"
  have xs: "xs = w @ s" and w: "list_all is_digit w"
    by (simp_all add: w_def s_def list_all_iff) (use set_takeWhileD in fast)
  have s: "takeWhile is_digit s = []"
    unfolding s_def by (induction xs) auto
  then have s': "takeWhile is_digit (s @ c # r) = []"
    using takeWhile_stop[of is_digit c s r] delimiter_facts(1)[OF assms] by simp
  have "drop (length (point_and_fraction s)) (s @ c # r) = drop (length (point_and_fraction s)) s @ c # r"
    using point_and_fraction_stop(2)[OF assms, of s] by simp
  then show ?thesis
    using scan_decimal_parts[OF w s] scan_decimal_parts[OF w s'] point_and_fraction_stop(1)[OF assms, of s r]
      scan_exponent_stop[OF assms]
    unfolding xs by simp
qed

lemma matches_word_stop:
  assumes "lower c \<notin> set word"
  shows "matches_word word (xs @ c # r) = matches_word word xs"
proof (cases "length word \<le> length xs")
  case False
  then obtain k where "length word - length xs = Suc k" by (metis Suc_diff_Suc not_le)
  then have "map lower (take (length word) (xs @ c # r)) = map lower (take (length word) xs) @ lower c # map lower (take k r)"
    by simp
  then have "matches_word word (xs @ c # r) \<Longrightarrow> lower c \<in> set word"
    unfolding matches_word_def by (metis in_set_conv_decomp)
  then show ?thesis using False assms by (auto simp: matches_word_def)
qed (simp add: matches_word_def)

lemma scan_nan_tail_stop:
  assumes "delimiter c"
  shows "scan_nan_tail (xs @ c # r) = scan_nan_tail xs"
proof (cases xs)
  case Nil
  with delimiter_facts(6)[OF assms] show ?thesis by (simp add: scan_nan_tail_def)
next
  case (Cons p ys)
  define body where "body = takeWhile is_nan_char ys"
  have f: "takeWhile is_nan_char (ys @ c # r) = body"
    unfolding body_def by (rule takeWhile_stop[of is_nan_char, OF delimiter_facts(8)[OF assms]])
  have d: "drop (length body) (ys @ c # r) = drop (length body) ys @ c # r"
    unfolding body_def by (rule drop_takeWhile_stop)
  have "(case drop (length body) ys @ c # r of [] \<Rightarrow> [] | d # _ \<Rightarrow> if d = 0x29 then p # body @ [d] else [])
      = (case drop (length body) ys of [] \<Rightarrow> [] | d # _ \<Rightarrow> if d = 0x29 then p # body @ [d] else [])"
    using delimiter_facts(7)[OF assms] by (cases "drop (length body) ys") simp_all
  then show ?thesis
    unfolding scan_nan_tail_def Cons append_Cons list.case Let_def f d body_def[symmetric] by simp
qed

lemma scan_unsigned_stop:
  assumes "delimiter c"
  shows "scan_unsigned (xs @ c # r) = scan_unsigned xs"
proof -
  have "lower c \<notin> set (ascii ''infinity'')" "lower c \<notin> set (ascii ''inf'')" "lower c \<notin> set (ascii ''nan'')"
    unfolding delimiter_facts(9)[OF assms] using assms by (auto simp: delimiter_def is_space_def ascii_def)
  note m = this[THEN matches_word_stop]
  have l: "matches_word (ascii ''infinity'') xs \<Longrightarrow> 8 \<le> length xs" "matches_word (ascii ''inf'') xs \<Longrightarrow> 3 \<le> length xs"
    "matches_word (ascii ''nan'') xs \<Longrightarrow> 3 \<le> length xs" by (simp_all add: matches_word_def ascii_def)
  show ?thesis
    using l scan_nan_tail_stop[OF assms, of "drop 3 xs" r] scan_decimal_stop[OF assms]
    unfolding scan_unsigned_def m by simp
qed

lemma scan_number_stop:
  assumes "delimiter c" and "xs \<noteq> []"
  shows "scan_number (xs @ c # r) = scan_number xs"
proof (cases xs)
  case (Cons x ys)
  then show ?thesis
    using scan_unsigned_stop[OF assms(1), of ys r] scan_unsigned_stop[OF assms(1), of "x # ys" r]
    by (simp add: scan_number_def)
qed (use assms in simp)

section \<open>Documents and what they deliver\<close>

text \<open>
  The specification of a document: a tree with the whitespace it is written with. \<open>render\<close> is its text, and \<open>deliver\<close> the
  callbacks it stands for, in document order, with the exceptions a callback raises annotated on the way out.
\<close>

datatype json =
    JString "piece list" | JNumber "byte list" | JTrue | JFalse | JNull
  | JEmptyArray "byte list" | JArray items | JEmptyObject "byte list" | JObject members
and items = ILast "byte list" json "byte list" | IMore "byte list" json "byte list" items
and members =
    MLast "byte list" "piece list" "byte list" "byte list" json "byte list"
  | MMore "byte list" "piece list" "byte list" "byte list" json "byte list" members

definition member_text :: "piece list \<Rightarrow> byte list \<Rightarrow> byte list" where
  "member_text n b = 0x22 # string_text n @ 0x22 # b @ [0x3A]"

primrec render :: "json \<Rightarrow> byte list" and render_items :: "items \<Rightarrow> byte list"
  and render_members :: "members \<Rightarrow> byte list" where
  "render (JString ps) = 0x22 # string_text ps @ [0x22]"
| "render (JNumber lexm) = lexm"
| "render JTrue = ascii ''true''"
| "render JFalse = ascii ''false''"
| "render JNull = ascii ''null''"
| "render (JEmptyArray a) = 0x5B # a @ [0x5D]"
| "render (JArray vs) = 0x5B # render_items vs @ [0x5D]"
| "render (JEmptyObject a) = 0x7B # a @ [0x7D]"
| "render (JObject ms) = 0x7B # render_members ms @ [0x7D]"
| "render_items (ILast a v b) = a @ render v @ b"
| "render_items (IMore a v b vs) = a @ render v @ b @ 0x2C # render_items vs"
| "render_members (MLast a n b c v d) = a @ member_text n b @ c @ render v @ d"
| "render_members (MMore a n b c v d ms) = a @ member_text n b @ c @ render v @ d @ 0x2C # render_members ms"

abbreviation spaces :: "byte list \<Rightarrow> bool" where
  "spaces \<equiv> list_all is_space"

primrec json_ok :: "json \<Rightarrow> bool" and items_ok :: "items \<Rightarrow> bool" and members_ok :: "members \<Rightarrow> bool" where
  "json_ok (JString ps) \<longleftrightarrow> list_all piece_ok ps"
| "json_ok (JNumber lexm) \<longleftrightarrow> scan_number lexm = Some lexm \<and> (is_digit (hd lexm) \<or> hd lexm = 0x2D)"
| "json_ok JTrue \<longleftrightarrow> True"
| "json_ok JFalse \<longleftrightarrow> True"
| "json_ok JNull \<longleftrightarrow> True"
| "json_ok (JEmptyArray a) \<longleftrightarrow> spaces a"
| "json_ok (JArray vs) \<longleftrightarrow> items_ok vs"
| "json_ok (JEmptyObject a) \<longleftrightarrow> spaces a"
| "json_ok (JObject ms) \<longleftrightarrow> members_ok ms"
| "items_ok (ILast a v b) \<longleftrightarrow> spaces a \<and> json_ok v \<and> spaces b"
| "items_ok (IMore a v b vs) \<longleftrightarrow> spaces a \<and> json_ok v \<and> spaces b \<and> items_ok vs"
| "members_ok (MLast a n b c v d) \<longleftrightarrow> spaces a \<and> list_all piece_ok n \<and> spaces b \<and> spaces c \<and> json_ok v \<and> spaces d"
| "members_ok (MMore a n b c v d ms) \<longleftrightarrow>
     spaces a \<and> list_all piece_ok n \<and> spaces b \<and> spaces c \<and> json_ok v \<and> spaces d \<and> members_ok ms"

text \<open>Numbers and literals need a byte after them that ends them.\<close>

fun open_ended :: "json \<Rightarrow> bool" where
  "open_ended (JNumber lexm) = True"
| "open_ended JTrue = True"
| "open_ended JFalse = True"
| "open_ended JNull = True"
| "open_ended v = False"

text \<open>
  How the name of a value appears in an exception that leaves it: an unknown value and a mismatch of types become
  messages with the name in them, and a message that comes from inside gets the name put before it.
\<close>

definition c_string :: "byte list \<Rightarrow> byte list" where
  "c_string m = takeWhile (\<lambda>b. b \<noteq> 0) m"

definition annotate :: "byte list \<Rightarrow> exn \<Rightarrow> exn" where
  "annotate name e =
     (case e of
        unknown_value_error \<Rightarrow> runtime_error (ascii '' Unknown value \"'' @ name @ ascii ''\"'')
      | type_mismatch seen expected \<Rightarrow>
          runtime_error (name @ ascii '' - Expected a '' @ value_names expected @ ascii '' but saw a '' @ value_names seen)
      | runtime_error m \<Rightarrow> if name = [] then runtime_error m else runtime_error (name @ ascii '':'' @ c_string m)
      | _ \<Rightarrow> e)"

lemma value_handler_annotates: "value_handler name e = annotate name e"
  by (cases e) (simp_all add: annotate_def c_string_def)

definition handled :: "byte list \<Rightarrow> (exn + unit) \<times> 'w \<Rightarrow> (exn + unit) \<times> 'w" where
  "handled name res = (map_sum (annotate name) id (fst res), snd res)"

definition andthen :: "(exn + 'a) \<times> 'w \<Rightarrow> ('a \<Rightarrow> 'w \<Rightarrow> (exn + 'b) \<times> 'w) \<Rightarrow> (exn + 'b) \<times> 'w" where
  "andthen res f = (case res of (Inl e, w) \<Rightarrow> (Inl e, w) | (Inr x, w) \<Rightarrow> f x w)"

lemma andthen_simps [simp]: "andthen (Inl e, w) f = (Inl e, w)" "andthen (Inr x, w) f = f x w"
  by (simp_all add: andthen_def)

primrec deliver :: "json \<Rightarrow> (byte list \<Rightarrow> 'd option) \<Rightarrow> ('el, 'd, 'w) Element \<Rightarrow> 'el \<Rightarrow> byte list \<Rightarrow> 'w \<Rightarrow> (exn + unit) \<times> 'w"
  and deliver_items :: "items \<Rightarrow> (byte list \<Rightarrow> 'd option) \<Rightarrow> ('el, 'd, 'w) Element \<Rightarrow> 'el \<Rightarrow> 'w \<Rightarrow> (exn + unit) \<times> 'w"
  and deliver_members :: "members \<Rightarrow> (byte list \<Rightarrow> 'd option) \<Rightarrow> ('el, 'd, 'w) Element \<Rightarrow> 'el \<Rightarrow> 'w \<Rightarrow> (exn + unit) \<times> 'w" where
  "deliver (JString ps) td E el name w = handled name (OnValue E el name (VString (string_bytes ps)) w)"
| "deliver (JNumber lexm) td E el name w = handled name
     (case td lexm of None \<Rightarrow> (Inl (runtime_error (ascii ''Expecting number'')), w)
      | Some d \<Rightarrow> OnValue E el name (VNumber d) w)"
| "deliver JTrue td E el name w = handled name (OnValue E el name (VBool True) w)"
| "deliver JFalse td E el name w = handled name (OnValue E el name (VBool False) w)"
| "deliver JNull td E el name w = handled name (OnValue E el name VNull w)"
| "deliver (JEmptyArray a) td E el name w = handled name
     (andthen (OnArray E el name w) (\<lambda>el' w. OnComplete E el' True w))"
| "deliver (JArray vs) td E el name w = handled name
     (andthen (OnArray E el name w) (\<lambda>el' w. andthen (deliver_items vs td E el' w) (\<lambda>_ w. OnComplete E el' False w)))"
| "deliver (JEmptyObject a) td E el name w = handled name
     (andthen (OnObject E el name w) (\<lambda>el' w. OnComplete E el' True w))"
| "deliver (JObject ms) td E el name w = handled name
     (andthen (OnObject E el name w) (\<lambda>el' w. andthen (deliver_members ms td E el' w) (\<lambda>_ w. OnComplete E el' False w)))"
| "deliver_items (ILast a v b) td E el w = deliver v td E el [] w"
| "deliver_items (IMore a v b vs) td E el w = andthen (deliver v td E el [] w) (\<lambda>_ w. deliver_items vs td E el w)"
| "deliver_members (MLast a n b c v d) td E el w = deliver v td E el (string_bytes n) w"
| "deliver_members (MMore a n b c v d ms) td E el w =
     andthen (deliver v td E el (string_bytes n) w) (\<lambda>_ w. deliver_members ms td E el w)"

text \<open>
  Where the reader stands when a callback throws, as the text that is left, \<open>r\<close> being what follows the value: after a value
  whose callback threw, after the opening bracket when the array or object was refused, after the closing one when its
  completion was, and before a number that has no conversion.
\<close>

definition stands :: "(exn + 'a) \<times> 'w \<Rightarrow> byte list \<Rightarrow> ('a \<Rightarrow> 'w \<Rightarrow> byte list) \<Rightarrow> byte list" where
  "stands res q f = (case res of (Inl e, w) \<Rightarrow> q | (Inr x, w) \<Rightarrow> f x w)"

lemma stands_simps [simp]: "stands (Inl e, w) q f = q" "stands (Inr x, w) q f = f x w"
  by (simp_all add: stands_def)

primrec halt :: "json \<Rightarrow> (byte list \<Rightarrow> 'd option) \<Rightarrow> ('el, 'd, 'w) Element \<Rightarrow> 'el \<Rightarrow> byte list \<Rightarrow> 'w \<Rightarrow> byte list \<Rightarrow> byte list"
  and halt_items :: "items \<Rightarrow> (byte list \<Rightarrow> 'd option) \<Rightarrow> ('el, 'd, 'w) Element \<Rightarrow> 'el \<Rightarrow> 'w \<Rightarrow> byte list \<Rightarrow> byte list"
  and halt_members :: "members \<Rightarrow> (byte list \<Rightarrow> 'd option) \<Rightarrow> ('el, 'd, 'w) Element \<Rightarrow> 'el \<Rightarrow> 'w \<Rightarrow> byte list \<Rightarrow> byte list" where
  "halt (JString ps) td E el name w r = r"
| "halt (JNumber lexm) td E el name w r = (case td lexm of None \<Rightarrow> lexm @ r | Some d \<Rightarrow> r)"
| "halt JTrue td E el name w r = r"
| "halt JFalse td E el name w r = r"
| "halt JNull td E el name w r = r"
| "halt (JEmptyArray a) td E el name w r = stands (OnArray E el name w) (a @ 0x5D # r) (\<lambda>_ _. r)"
| "halt (JArray vs) td E el name w r = stands (OnArray E el name w) (render_items vs @ 0x5D # r) (\<lambda>el' w.
     stands (deliver_items vs td E el' w) (halt_items vs td E el' w (0x5D # r)) (\<lambda>_ _. r))"
| "halt (JEmptyObject a) td E el name w r = stands (OnObject E el name w) (a @ 0x7D # r) (\<lambda>_ _. r)"
| "halt (JObject ms) td E el name w r = stands (OnObject E el name w) (render_members ms @ 0x7D # r) (\<lambda>el' w.
     stands (deliver_members ms td E el' w) (halt_members ms td E el' w (0x7D # r)) (\<lambda>_ _. r))"
| "halt_items (ILast a v b) td E el w r = halt v td E el [] w (b @ r)"
| "halt_items (IMore a v b vs) td E el w r =
     stands (deliver v td E el [] w) (halt v td E el [] w (b @ 0x2C # render_items vs @ r)) (\<lambda>_ w. halt_items vs td E el w r)"
| "halt_members (MLast a n b c v d) td E el w r = halt v td E el (string_bytes n) w (d @ r)"
| "halt_members (MMore a n b c v d ms) td E el w r =
     stands (deliver v td E el (string_bytes n) w) (halt v td E el (string_bytes n) w (d @ 0x2C # render_members ms @ r))
       (\<lambda>_ w. halt_members ms td E el w r)"

text \<open>
  A parser's result agrees with an outcome: the same world, and the text that is left is that after the value on success and
  that where the exception was thrown otherwise.
\<close>

definition agrees :: "'w presult option \<Rightarrow> (exn + unit) \<times> 'w \<Rightarrow> byte list \<Rightarrow> byte list \<Rightarrow> bool" where
  "agrees res out rest q \<longleftrightarrow> res = (case out of (Inr u, w) \<Rightarrow> Some (Inr u, rest, w) | (Inl e, w) \<Rightarrow> Some (Inl e, q, w))"

lemma agrees_Inr [simp]: "agrees res (Inr u, w) rest q \<longleftrightarrow> res = Some (Inr u, rest, w)"
  by (simp add: agrees_def)

lemma agrees_Inl [simp]: "agrees res (Inl e, w) rest q \<longleftrightarrow> res = Some (Inl e, q, w)"
  by (simp add: agrees_def)

lemma agrees_complete: "agrees (Some (complete E el b (r, w))) (OnComplete E el b w) r r"
  by (cases "OnComplete E el b w"; cases "fst (OnComplete E el b w)") (auto simp: complete_def agrees_def)

lemma agrees_on_value: "agrees (Some (on_value E el name v (r, w))) (OnValue E el name v w) r r"
  by (cases "OnValue E el name v w"; cases "fst (OnValue E el name v w)") (auto simp: on_value_def agrees_def)

section \<open>The reader delivers the document\<close>

lemma Parse_Whitespace_spaces: "spaces a \<Longrightarrow> Parse_Whitespace (a @ r) = Parse_Whitespace r"
  by (induction a) auto

definition unspaced :: "byte list \<Rightarrow> bool" where
  "unspaced r \<longleftrightarrow> (case r of [] \<Rightarrow> True | c # _ \<Rightarrow> \<not> is_space c)"

lemma Parse_Whitespace_unspaced: "unspaced r \<Longrightarrow> Parse_Whitespace r = r"
  by (cases r) (simp_all add: unspaced_def)

lemma Parse_Whitespace_to: "spaces a \<Longrightarrow> unspaced r \<Longrightarrow> Parse_Whitespace (a @ r) = r"
  by (simp add: Parse_Whitespace_spaces Parse_Whitespace_unspaced)

text \<open>From the switch to the value: whitespace before and after, and the handler around.\<close>

lemma agrees_Parse_Value:
  assumes "agrees (value_switch (Parse_Value d td E) td E el name (txt @ b @ rest, w)) out (b @ rest) q"
    and "spaces a" "spaces b" "unspaced (txt @ b @ rest)" "unspaced rest"
  shows "agrees (Parse_Value (Suc d) td E el name (a @ txt @ b @ rest, w)) (handled name out) rest q"
proof -
  obtain x w' where o: "out = (x, w')" by fastforce
  have r: "Parse_Whitespace (a @ txt @ b @ rest) = txt @ b @ rest" "Parse_Whitespace (b @ rest) = rest"
    using assms by (auto intro: Parse_Whitespace_to)
  from assms(1) show ?thesis unfolding o by (cases x) (auto simp: r handled_def value_handler_annotates)
qed

lemma json_head:
  assumes "json_ok v"
  obtains c cs where "render v = c # cs" "\<not> is_space c" "c \<noteq> 0x5D"
proof (cases v)
  case (JNumber lexm)
  then obtain c cs where l: "lexm = c # cs" using assms by (cases lexm) (auto simp: scan_number_def)
  then have "\<not> is_space c \<and> c \<noteq> 0x5D" using assms JNumber by (auto simp: is_digit_def is_space_def)
  with l JNumber that show ?thesis by simp
qed (use that in \<open>auto simp: is_space_def ascii_def\<close>)

lemma unspaced_render: "json_ok v \<Longrightarrow> unspaced (render v @ r)"
  by (erule json_head) (simp add: unspaced_def)

definition stopped_by :: "byte list \<Rightarrow> bool" where
  "stopped_by s \<longleftrightarrow> (\<exists>c r. s = c # r \<and> delimiter c)"

lemma stopped_by_spaces: "spaces b \<Longrightarrow> delimiter c \<Longrightarrow> stopped_by (b @ c # r)"
  by (cases b) (auto simp: stopped_by_def delimiter_def)

lemma switch_string:
  assumes "list_all piece_ok ps"
  shows "agrees (value_switch pv td E el name (render (JString ps) @ r, w)) (OnValue E el name (VString (string_bytes ps)) w) r r"
  using agrees_on_value[of E el name "VString (string_bytes ps)" r w] Parse_String_text[OF assms, of r]
  by (simp add: value_switch_def GetChar_def)

lemma switch_number:
  assumes ok: "json_ok (JNumber lexm)" and st: "stopped_by r"
  shows "agrees (value_switch pv td E el name (lexm @ r, w))
    (case td lexm of None \<Rightarrow> (Inl (runtime_error (ascii ''Expecting number'')), w) | Some d \<Rightarrow> OnValue E el name (VNumber d) w) r
    (case td lexm of None \<Rightarrow> lexm @ r | Some d \<Rightarrow> r)"
proof -
  obtain c cs where l: "lexm = c # cs" using ok by (cases lexm) (auto simp: scan_number_def)
  then have c: "is_digit c \<or> c = 0x2D" using ok by simp
  then have n: "c \<noteq> 0x7B" "c \<noteq> 0x5B" "c \<noteq> 0x22" "c \<noteq> 0x74" "c \<noteq> 0x66" "c \<noteq> 0x6E" by (auto simp: is_digit_def)
  obtain p q where r: "r = p # q" "delimiter p" using st by (auto simp: stopped_by_def)
  have "scan_number (lexm @ r) = Some lexm" using scan_number_stop[OF r(2), of lexm q] ok l r(1) by simp
  then have "value_switch pv td E el name (lexm @ r, w) = (case td lexm of
      None \<Rightarrow> Some (Inl (runtime_error (ascii ''Expecting number'')), lexm @ r, w)
    | Some d \<Rightarrow> Some (on_value E el name (VNumber d) (r, w)))"
    using c n l by (simp add: value_switch_def GetChar_def Parse_Number_def split: option.splits)
  then show ?thesis
    using agrees_on_value[of E el name _ r w] by (simp split: option.splits)
qed

lemma literal_value_recognised:
  assumes "stopped_by r"
  shows "literal_value E el name sz v (sz @ r, w) = on_value E el name v (r, w)"
  using assms by (auto simp: literal_value_def Skip_literal_def stopped_by_def)

lemma switch_literals:
  assumes "stopped_by r"
  shows "agrees (value_switch pv td E el name (render JTrue @ r, w)) (OnValue E el name (VBool True) w) r r"
    and "agrees (value_switch pv td E el name (render JFalse @ r, w)) (OnValue E el name (VBool False) w) r r"
    and "agrees (value_switch pv td E el name (render JNull @ r, w)) (OnValue E el name VNull w) r r"
  using literal_value_recognised[OF assms, of E el name "ascii ''rue''" "VBool True" w]
    literal_value_recognised[OF assms, of E el name "ascii ''alse''" "VBool False" w]
    literal_value_recognised[OF assms, of E el name "ascii ''ull''" VNull w]
    agrees_on_value[of E el name _ r w]
  by (simp_all add: value_switch_def GetChar_def is_digit_def ascii_def)

lemma switch_empty:
  assumes "spaces a"
  shows "agrees (value_switch pv td E el name (render (JEmptyArray a) @ r, w))
      (andthen (OnArray E el name w) (\<lambda>el' w. OnComplete E el' True w)) r (stands (OnArray E el name w) (a @ 0x5D # r) (\<lambda>_ _. r))"
    and "agrees (value_switch pv td E el name (render (JEmptyObject a) @ r, w))
      (andthen (OnObject E el name w) (\<lambda>el' w. OnComplete E el' True w)) r (stands (OnObject E el name w) (a @ 0x7D # r) (\<lambda>_ _. r))"
proof -
  have sp: "Parse_Whitespace (a @ 0x5D # r) = 0x5D # r" "Parse_Whitespace (a @ 0x7D # r) = 0x7D # r"
    using assms by (auto intro!: Parse_Whitespace_to simp: unspaced_def is_space_def)
  obtain x w1 where o: "OnArray E el name w = (x, w1)" by fastforce
  show "agrees (value_switch pv td E el name (render (JEmptyArray a) @ r, w))
      (andthen (OnArray E el name w) (\<lambda>el' w. OnComplete E el' True w)) r (stands (OnArray E el name w) (a @ 0x5D # r) (\<lambda>_ _. r))"
    using agrees_complete[of E _ True r w1] by (cases x) (simp_all add: value_switch_def GetChar_def o Parse_Array_def sp Skip_def)
  obtain y w2 where o: "OnObject E el name w = (y, w2)" by fastforce
  show "agrees (value_switch pv td E el name (render (JEmptyObject a) @ r, w))
      (andthen (OnObject E el name w) (\<lambda>el' w. OnComplete E el' True w)) r (stands (OnObject E el name w) (a @ 0x7D # r) (\<lambda>_ _. r))"
    using agrees_complete[of E _ True r w2] by (cases y) (simp_all add: value_switch_def GetChar_def o Parse_Object_def sp Skip_def)
qed

lemma Parse_Whitespace_idem [simp]: "Parse_Whitespace (Parse_Whitespace r) = Parse_Whitespace r"
  by (induction r) auto

lemma Parse_Value_skips: "Parse_Value d td E el name (Parse_Whitespace r, w) = Parse_Value d td E el name (r, w)"
  by (cases d) simp_all

lemma array_loop_skips:
  "array_loop n (Parse_Value d td E) E el (Parse_Whitespace r, w) = array_loop n (Parse_Value d td E) E el (r, w)"
  by (cases n) (simp_all add: Parse_Value_skips)

lemma spaced_value_head:
  assumes "json_ok v" and "spaces a"
  shows "\<exists>c cs. Parse_Whitespace (a @ render v @ s) = c # cs \<and> c \<noteq> 0x5D"
  using assms(2) by (rule_tac json_head[OF assms(1)]) (simp add: Parse_Whitespace_spaces)

lemma items_head: "items_ok vs \<Longrightarrow> \<exists>c cs. Parse_Whitespace (render_items vs @ r) = c # cs \<and> c \<noteq> 0x5D"
  using spaced_value_head by (cases vs) fastforce+

lemma members_head:
  assumes "members_ok ms"
  obtains cs where "Parse_Whitespace (render_members ms @ r) = 0x22 # cs"
  using assms that by (cases ms) (auto simp: Parse_Whitespace_spaces member_text_def is_space_def)

lemma switch_array:
  assumes ok: "items_ok vs"
    and loop: "\<And>el' w' n. length (Parse_Whitespace (render_items vs @ 0x5D # r)) < n \<Longrightarrow>
      agrees (array_loop n (Parse_Value d td E) E el' (render_items vs @ 0x5D # r, w')) (out el' w') r (q el' w')"
  shows "agrees (value_switch (Parse_Value d td E) td E el name (render (JArray vs) @ r, w)) (andthen (OnArray E el name w) out) r
    (stands (OnArray E el name w) (render_items vs @ 0x5D # r) q)"
proof -
  obtain x w1 where o: "OnArray E el name w = (x, w1)" by fastforce
  obtain c cs where h: "Parse_Whitespace (render_items vs @ 0x5D # r) = c # cs" "c \<noteq> 0x5D"
    using items_head[OF ok] by blast
  show ?thesis
  proof (cases x)
    case (Inr el')
    have "Parse_Array (Parse_Value d td E) E el' (render_items vs @ 0x5D # r, w1)
        = array_loop (Suc (length (c # cs))) (Parse_Value d td E) E el' (render_items vs @ 0x5D # r, w1)"
      using h array_loop_skips[of _ d td E el' "render_items vs @ 0x5D # r" w1] by (simp add: Parse_Array_def Skip_def del: array_loop.simps)
    with loop[of "Suc (length (c # cs))" el' w1] h Inr o show ?thesis
      by (simp add: value_switch_def GetChar_def del: array_loop.simps object_loop.simps)
  qed (simp add: value_switch_def GetChar_def o)
qed

lemma switch_object:
  assumes ok: "members_ok ms"
    and loop: "\<And>el' w' n. length (Parse_Whitespace (render_members ms @ 0x7D # r)) < n \<Longrightarrow>
      agrees (object_loop n pv E el' (Parse_Whitespace (render_members ms @ 0x7D # r), w')) (out el' w') r (q el' w')"
  shows "agrees (value_switch pv td E el name (render (JObject ms) @ r, w)) (andthen (OnObject E el name w) out) r
    (stands (OnObject E el name w) (render_members ms @ 0x7D # r) q)"
proof -
  obtain x w1 where o: "OnObject E el name w = (x, w1)" by fastforce
  obtain cs where h: "Parse_Whitespace (render_members ms @ 0x7D # r) = 0x22 # cs" using members_head[OF ok] .
  show ?thesis
  proof (cases x)
    case (Inr el')
    have "Parse_Object pv E el' (render_members ms @ 0x7D # r, w1) = object_loop (Suc (length (0x22 # cs))) pv E el' (0x22 # cs, w1)"
      using h by (simp add: Parse_Object_def Skip_def del: object_loop.simps)
    with loop[of "Suc (length (0x22 # cs))" el' w1] h Inr o show ?thesis
      by (simp add: value_switch_def GetChar_def del: array_loop.simps object_loop.simps)
  qed (simp add: value_switch_def GetChar_def o)
qed

text \<open>One round of each loop.\<close>

lemma array_loop_last:
  assumes "agrees (pv el [] s) out (0x5D # r) h"
  shows "agrees (array_loop (Suc n) pv E el s) (andthen out (\<lambda>_ w. OnComplete E el False w)) r (stands out h (\<lambda>_ _. r))"
proof -
  obtain x w where o: "out = (x, w)" by fastforce
  show ?thesis using assms agrees_complete[of E el False r w] unfolding o by (cases x) (auto simp: GetChar_def)
qed

lemma array_loop_more:
  assumes "agrees (pv el [] s) out (0x2C # q) h" and "\<And>w. agrees (array_loop n pv E el (q, w)) (f w) r (g w)"
  shows "agrees (array_loop (Suc n) pv E el s) (andthen out (\<lambda>_ w. f w)) r (stands out h (\<lambda>_ w. g w))"
proof -
  obtain x w where o: "out = (x, w)" by fastforce
  show ?thesis using assms unfolding o by (cases x) (auto simp: GetChar_def)
qed

lemma object_loop_round:
  assumes "list_all piece_ok n" and "spaces b"
  shows "object_loop (Suc k) pv E el (member_text n b @ s, w) =
    (case pv el (string_bytes n) (s, w) of
        None \<Rightarrow> None
      | Some (Inl e, r, w) \<Rightarrow> Some (Inl e, r, w)
      | Some (Inr u, r, w) \<Rightarrow>
          (case GetChar r of
             (Inl e, r) \<Rightarrow> Some (Inl e, r, w)
           | (Inr c, r) \<Rightarrow>
             if c = 0x2C then object_loop k pv E el (Parse_Whitespace r, w)
             else if c = 0x7D then Some (complete E el False (r, w))
             else Some (Inl (runtime_error (ascii ''Expecting } or ,'')), r, w)))"
proof -
  have "Parse_Whitespace (b @ 0x3A # s) = 0x3A # s"
    using assms(2) by (intro Parse_Whitespace_to) (auto simp: unspaced_def is_space_def)
  then show ?thesis
    using Parse_String_text[OF assms(1), of "b @ 0x3A # s"] by (simp add: member_text_def Skip_def GetChar_def)
qed

lemma object_loop_last:
  assumes "agrees (pv el (string_bytes n) (s, w)) out (0x7D # r) h" and "list_all piece_ok n" "spaces b"
  shows "agrees (object_loop (Suc k) pv E el (member_text n b @ s, w)) (andthen out (\<lambda>_ w. OnComplete E el False w)) r
    (stands out h (\<lambda>_ _. r))"
proof -
  obtain x w' where o: "out = (x, w')" by fastforce
  show ?thesis using assms(1) agrees_complete[of E el False r w'] unfolding o object_loop_round[OF assms(2,3)]
    by (cases x) (auto simp: GetChar_def)
qed

lemma object_loop_more:
  assumes "agrees (pv el (string_bytes n) (s, w)) out (0x2C # q) h" and "list_all piece_ok n" "spaces b"
    and "\<And>w. agrees (object_loop k pv E el (Parse_Whitespace q, w)) (f w) r (g w)"
  shows "agrees (object_loop (Suc k) pv E el (member_text n b @ s, w)) (andthen out (\<lambda>_ w. f w)) r (stands out h (\<lambda>_ w. g w))"
proof -
  obtain x w' where o: "out = (x, w')" by fastforce
  show ?thesis using assms(1,4) unfolding o object_loop_round[OF assms(2,3)] by (cases x) (auto simp: GetChar_def)
qed

text \<open>The reader on the text of a value, of the elements of an array and of the members of an object.\<close>

lemma unspaced_Cons [simp]: "unspaced (c # r) \<longleftrightarrow> \<not> is_space c"
  by (simp add: unspaced_def)

lemma punctuation [simp]:
  "delimiter 0x2C" "delimiter 0x5D" "delimiter 0x7D" "\<not> is_space 0x2C" "\<not> is_space 0x5D" "\<not> is_space 0x7D" "\<not> is_space 0x22"
  by (simp_all add: delimiter_def is_space_def)

lemma spaced_value_length:
  "json_ok v \<Longrightarrow> spaces a \<Longrightarrow> length (Parse_Whitespace (a @ render v @ r)) = length (render v @ r)"
  using unspaced_render[of v r] by (simp add: Parse_Whitespace_spaces Parse_Whitespace_unspaced)

lemma spaced_member: "spaces a \<Longrightarrow> Parse_Whitespace (a @ member_text n b @ r) = member_text n b @ r"
  by (intro Parse_Whitespace_to) (simp_all add: member_text_def)

lemma reader_agrees:
  fixes E :: "('el, 'd, 'w) Element"
  shows "json_ok v \<Longrightarrow> spaces a \<Longrightarrow> spaces b \<Longrightarrow> unspaced rest \<Longrightarrow> (open_ended v \<longrightarrow> stopped_by (b @ rest))
      \<Longrightarrow> length (render v @ b @ rest) < d
      \<Longrightarrow> agrees (Parse_Value d td E el name (a @ render v @ b @ rest, w)) (deliver v td E el name w) rest
        (halt v td E el name w (b @ rest))"
    and "items_ok vs \<Longrightarrow> length (Parse_Whitespace (render_items vs @ 0x5D # rest)) < d
      \<Longrightarrow> length (Parse_Whitespace (render_items vs @ 0x5D # rest)) < n
      \<Longrightarrow> agrees (array_loop n (Parse_Value d td E) E el (render_items vs @ 0x5D # rest, w))
            (andthen (deliver_items vs td E el w) (\<lambda>_ w. OnComplete E el False w)) rest
            (stands (deliver_items vs td E el w) (halt_items vs td E el w (0x5D # rest)) (\<lambda>_ _. rest))"
    and "members_ok ms \<Longrightarrow> length (Parse_Whitespace (render_members ms @ 0x7D # rest)) < d
      \<Longrightarrow> length (Parse_Whitespace (render_members ms @ 0x7D # rest)) < n
      \<Longrightarrow> agrees (object_loop n (Parse_Value d td E) E el (Parse_Whitespace (render_members ms @ 0x7D # rest), w))
            (andthen (deliver_members ms td E el w) (\<lambda>_ w. OnComplete E el False w)) rest
            (stands (deliver_members ms td E el w) (halt_members ms td E el w (0x7D # rest)) (\<lambda>_ _. rest))"
proof (induction v and vs and ms arbitrary: a b rest d el name w and rest d n el w and rest d n el w
    rule: json.induct items.induct members.induct)
  case (JString ps)
  then obtain k where d: "d = Suc k" by (cases d) auto
  show ?case unfolding d deliver.simps halt.simps
    by (intro agrees_Parse_Value switch_string unspaced_render) (use JString in auto)
next
  case (JNumber lexm)
  then obtain k where d: "d = Suc k" by (cases d) auto
  have "agrees (value_switch (Parse_Value k td E) td E el name (render (JNumber lexm) @ b @ rest, w))
    (case td lexm of None \<Rightarrow> (Inl (runtime_error (ascii ''Expecting number'')), w) | Some d \<Rightarrow> OnValue E el name (VNumber d) w)
    (b @ rest) (halt (JNumber lexm) td E el name w (b @ rest))"
    using switch_number[OF JNumber.prems(1), of "b @ rest"] JNumber.prems by simp
  then show ?case unfolding d deliver.simps
    by (intro agrees_Parse_Value unspaced_render) (use JNumber in auto)
next
  case JTrue
  then obtain k where d: "d = Suc k" by (cases d) auto
  show ?case unfolding d deliver.simps halt.simps
    by (intro agrees_Parse_Value switch_literals unspaced_render) (use JTrue in auto)
next
  case JFalse
  then obtain k where d: "d = Suc k" by (cases d) auto
  show ?case unfolding d deliver.simps halt.simps
    by (intro agrees_Parse_Value switch_literals unspaced_render) (use JFalse in auto)
next
  case JNull
  then obtain k where d: "d = Suc k" by (cases d) auto
  show ?case unfolding d deliver.simps halt.simps
    by (intro agrees_Parse_Value switch_literals unspaced_render) (use JNull in auto)
next
  case (JEmptyArray x)
  then obtain k where d: "d = Suc k" by (cases d) auto
  show ?case unfolding d deliver.simps halt.simps
    by (intro agrees_Parse_Value switch_empty unspaced_render) (use JEmptyArray in auto)
next
  case (JEmptyObject x)
  then obtain k where d: "d = Suc k" by (cases d) auto
  show ?case unfolding d deliver.simps halt.simps
    by (intro agrees_Parse_Value switch_empty unspaced_render) (use JEmptyObject in auto)
next
  case (JArray vs)
  then obtain k where d: "d = Suc k" by (cases d) auto
  have "length (Parse_Whitespace (render_items vs @ 0x5D # b @ rest)) < k"
    using JArray.prems(6) d Parse_Whitespace_length[of "render_items vs @ 0x5D # b @ rest"] by simp
  then show ?case unfolding d deliver.simps halt.simps
    by (intro agrees_Parse_Value switch_array unspaced_render JArray.IH) (use JArray in auto)
next
  case (JObject ms)
  then obtain k where d: "d = Suc k" by (cases d) auto
  have "length (Parse_Whitespace (render_members ms @ 0x7D # b @ rest)) < k"
    using JObject.prems(6) d Parse_Whitespace_length[of "render_members ms @ 0x7D # b @ rest"] by simp
  then show ?case unfolding d deliver.simps halt.simps
    by (intro agrees_Parse_Value switch_object unspaced_render JObject.IH) (use JObject in auto)
next
  case (ILast a v b)
  then obtain k where n: "n = Suc k" by (cases n) auto
  have "agrees (Parse_Value d td E el [] (a @ render v @ b @ 0x5D # rest, w)) (deliver v td E el [] w) (0x5D # rest)
      (halt v td E el [] w (b @ 0x5D # rest))"
    by (rule ILast.IH) (use ILast.prems spaced_value_length[of v a "b @ 0x5D # rest"] in \<open>auto intro: stopped_by_spaces\<close>)
  then show ?case unfolding n deliver_items.simps halt_items.simps by (intro array_loop_last) simp
next
  case (IMore a v b vs)
  then obtain k where n: "n = Suc k" by (cases n) auto
  let ?q = "render_items vs @ 0x5D # rest"
  have l: "length (Parse_Whitespace (render_items (IMore a v b vs) @ 0x5D # rest)) = length (render v @ b @ 0x2C # ?q)"
    using spaced_value_length[of v a "b @ 0x2C # ?q"] IMore.prems by simp
  have q: "length (Parse_Whitespace ?q) \<le> length ?q" by (rule Parse_Whitespace_length)
  have "agrees (Parse_Value d td E el [] (a @ render v @ b @ 0x2C # ?q, w)) (deliver v td E el [] w) (0x2C # ?q)
      (halt v td E el [] w (b @ 0x2C # ?q))"
    by (rule IMore.IH(1)) (use IMore.prems l in \<open>auto intro: stopped_by_spaces\<close>)
  moreover have "agrees (array_loop k (Parse_Value d td E) E el (?q, w'))
      (andthen (deliver_items vs td E el w') (\<lambda>_ w. OnComplete E el False w)) rest
      (stands (deliver_items vs td E el w') (halt_items vs td E el w' (0x5D # rest)) (\<lambda>_ _. rest))" for w'
    by (rule IMore.IH(2)) (use IMore.prems l n q in auto)
  ultimately have "agrees (array_loop (Suc k) (Parse_Value d td E) E el (a @ render v @ b @ 0x2C # ?q, w))
      (andthen (deliver v td E el [] w) (\<lambda>_ w. andthen (deliver_items vs td E el w) (\<lambda>_ w. OnComplete E el False w))) rest
      (stands (deliver v td E el [] w) (halt v td E el [] w (b @ 0x2C # ?q))
        (\<lambda>_ w. stands (deliver_items vs td E el w) (halt_items vs td E el w (0x5D # rest)) (\<lambda>_ _. rest)))"
    by (rule array_loop_more)
  then show ?case unfolding n
    by (cases "deliver v td E el [] w"; cases "fst (deliver v td E el [] w)") (simp_all del: array_loop.simps)
next
  case (MLast a nm b c v e)
  then obtain k where n: "n = Suc k" by (cases n) auto
  have t: "Parse_Whitespace (render_members (MLast a nm b c v e) @ 0x7D # rest) = member_text nm b @ c @ render v @ e @ 0x7D # rest"
    using MLast.prems by (simp add: spaced_member)
  have "agrees (Parse_Value d td E el (string_bytes nm) (c @ render v @ e @ 0x7D # rest, w))
      (deliver v td E el (string_bytes nm) w) (0x7D # rest) (halt v td E el (string_bytes nm) w (e @ 0x7D # rest))"
    by (rule MLast.IH) (use MLast.prems t in \<open>auto intro: stopped_by_spaces\<close>)
  then show ?case unfolding n t deliver_members.simps halt_members.simps by (rule object_loop_last) (use MLast.prems in simp_all)
next
  case (MMore a nm b c v e ms)
  then obtain k where n: "n = Suc k" by (cases n) auto
  let ?q = "render_members ms @ 0x7D # rest"
  have t: "Parse_Whitespace (render_members (MMore a nm b c v e ms) @ 0x7D # rest) = member_text nm b @ c @ render v @ e @ 0x2C # ?q"
    using MMore.prems by (simp add: spaced_member)
  have q: "length (Parse_Whitespace ?q) \<le> length ?q" by (rule Parse_Whitespace_length)
  have "agrees (Parse_Value d td E el (string_bytes nm) (c @ render v @ e @ 0x2C # ?q, w))
      (deliver v td E el (string_bytes nm) w) (0x2C # ?q) (halt v td E el (string_bytes nm) w (e @ 0x2C # ?q))"
    by (rule MMore.IH(1)) (use MMore.prems t in \<open>auto intro: stopped_by_spaces\<close>)
  moreover have "agrees (object_loop k (Parse_Value d td E) E el (Parse_Whitespace ?q, w'))
      (andthen (deliver_members ms td E el w') (\<lambda>_ w. OnComplete E el False w)) rest
      (stands (deliver_members ms td E el w') (halt_members ms td E el w' (0x7D # rest)) (\<lambda>_ _. rest))" for w'
    by (rule MMore.IH(2)) (use MMore.prems t n q in auto)
  ultimately have "agrees (object_loop (Suc k) (Parse_Value d td E) E el (member_text nm b @ c @ render v @ e @ 0x2C # ?q, w))
      (andthen (deliver v td E el (string_bytes nm) w)
        (\<lambda>_ w. andthen (deliver_members ms td E el w) (\<lambda>_ w. OnComplete E el False w))) rest
      (stands (deliver v td E el (string_bytes nm) w) (halt v td E el (string_bytes nm) w (e @ 0x2C # ?q))
        (\<lambda>_ w. stands (deliver_members ms td E el w) (halt_members ms td E el w (0x7D # rest)) (\<lambda>_ _. rest)))"
    by (intro object_loop_more) (use MMore.prems in simp_all)
  then show ?case unfolding n t
    by (cases "deliver v td E el (string_bytes nm) w"; cases "fst (deliver v td E el (string_bytes nm) w)")
      (simp_all del: object_loop.simps)
qed

lemma document_agrees:
  assumes "json_ok v" and "spaces a" "spaces b" and "open_ended v \<longrightarrow> b \<noteq> []"
  shows "agrees (Parse_Value (Suc (length (a @ render v @ b))) td E el [] (a @ render v @ b, w)) (deliver v td E el [] w) []
    (halt v td E el [] w b)"
proof -
  have "open_ended v \<longrightarrow> stopped_by (b @ [])"
    using assms(3,4) by (cases b) (auto simp: stopped_by_def delimiter_def)
  from reader_agrees(1)[OF assms(1,2,3) _ this, of "Suc (length (a @ render v @ b))" td E el "[]" w]
  show ?thesis by (simp add: unspaced_def del: Parse_Value.simps)
qed

text \<open>
  C32. Round trip. For every well-formed document with any whitespace between its tokens, every element implementation and
  number conversion, reading the document's text makes exactly the callbacks the document stands for, in document order,
  and finally completes the root; an exception of a callback comes out with the names of the enclosing values put before it.
  A root that is a number or a literal needs one byte of whitespace after it.
\<close>

theorem json_round_trip:
  assumes "json_ok v" and "spaces a" "spaces b" and "open_ended v \<longrightarrow> b \<noteq> []"
  shows "case andthen (deliver v td E el [] w) (\<lambda>_ w. OnComplete E el False w) of
      (Inr u, w') \<Rightarrow> Parse td E el (a @ render v @ b) w = Some (Inr u, w')
    | (Inl e, w') \<Rightarrow> \<exists>q. Parse td E el (a @ render v @ b) w = Some (Inl (report (a @ render v @ b) q e), w')"
proof -
  note ag = document_agrees[OF assms, of td E el w]
  obtain x w1 where d: "deliver v td E el [] w = (x, w1)" by fastforce
  obtain y w2 where c: "OnComplete E el False w1 = (y, w2)" by fastforce
  show ?thesis
    using ag unfolding d Parse_def Parse_with_def
    by (cases x; cases y) (auto simp: c complete_def simp del: Parse_Value.simps)
qed

text \<open>An element that records what it is told, for the examples.\<close>

definition recorder :: "(unit, byte list, (byte list \<times> byte list Value option) list) Element" where
  "recorder = \<lparr>OnComplete = (\<lambda>el none w. (Inr (), w @ [([], None)])),
     OnValue = (\<lambda>el name v w. (Inr (), w @ [(name, Some v)])),
     OnArray = (\<lambda>el name w. (Inr el, w @ [(name, None)])),
     OnObject = (\<lambda>el name w. (Inr el, w @ [(name, None)]))\<rparr>"

definition example_document :: json where
  "example_document = JObject (MLast [] [Raw 0x61] [0x20] [] (JArray (IMore [] (JNumber [0x31]) []
     (ILast [0x20] (JString [Unicode [0x30, 0x30, 0x45, 0x39]]) []))) [])"

theorem json_round_trip_witness:
  "Parse Some recorder () (render example_document) []
     = Some (Inr (), [([], None), ([0x61], None), ([], Some (VNumber [0x31])), ([], Some (VString [0xC3, 0xA9])),
         ([], None), ([], None), ([], None)])"
  using json_round_trip[of example_document "[]" "[]" Some recorder "()" "[]"]
  by (simp add: example_document_def recorder_def handled_def hex4_def is_hex_def is_digit_def lower_def hex4_value_def
      hex_digit_value_def scalar_def utf8_bytes_def utf8_encode_def scan_number_def scan_unsigned_def scan_decimal_def
      scan_exponent_def matches_word_def ascii_def is_space_def)

section \<open>Errors\<close>

text \<open>The line of the end of a text, and its distance from the newline before it or from the start.\<close>

definition line_of :: "byte list \<Rightarrow> nat" where
  "line_of p = 1 + count_list p 0x0A"

definition index_of :: "byte list \<Rightarrow> nat" where
  "index_of p = (if 0x0A \<in> set p then 1 + length (takeWhile (\<lambda>c. c \<noteq> 0x0A) (rev p)) else length p)"

lemma locate_append:
  "locate (xs @ ys) p line last_cr = (case locate xs p line last_cr of (l, c) \<Rightarrow> locate ys (p + length xs) l c)"
  by (induction xs p line last_cr rule: locate.induct) (auto split: prod.splits)

lemma index_of_simps [simp]: "index_of [] = 0" "index_of (p @ [c]) = (if c = 0x0A then 1 else index_of p + 1)"
  by (auto simp: index_of_def)

lemma locate_last: "locate p 0 1 0 = (line_of p, length p - index_of p)" and index_of_le: "index_of p \<le> length p"
  by (induction p rule: rev_induct) (auto simp: locate_append line_of_def Suc_diff_le)

lemma report_at:
  assumes "is_std_exception e"
  shows "report (p @ r) r e = json_error (what e) (line_of p) (index_of p)"
  using assms index_of_le[of p] by (simp add: report_def locate_last[unfolded One_nat_def])

text \<open>The text that is left is the end of the document.\<close>

lemma stands_suffix:
  assumes "\<exists>p. t = p @ q" and "\<And>x w. \<exists>p. t = p @ f x w"
  shows "\<exists>p. t = p @ stands res q f"
  using assms by (cases res; cases "fst res") auto

lemma in_suffix: "\<exists>p. t = p @ q \<Longrightarrow> \<exists>p. s @ t = p @ q" and after_Cons: "\<exists>p. t = p @ q \<Longrightarrow> \<exists>p. c # t = p @ q"
  by (metis append_assoc, metis append_Cons)

lemma halt_suffix:
  fixes E :: "('el, 'd, 'w) Element"
  shows "\<exists>p. render v @ r = p @ halt v td E el name w r"
    and "\<exists>p. render_items vs @ r = p @ halt_items vs td E el w r"
    and "\<exists>p. render_members ms @ r = p @ halt_members ms td E el w r"
proof (induction v and vs and ms arbitrary: el name w r and el w r and el w r rule: json.induct items.induct members.induct)
  case (JNumber lexm)
  show ?case by (cases "td lexm") auto
next
  case (JEmptyArray a)
  show ?case unfolding halt.simps by (rule stands_suffix) auto
next
  case (JArray vs)
  have i: "\<exists>p. render (JArray vs) @ r = p @ halt_items vs td E el' w' (0x5D # r)" for el' w'
    using after_Cons[OF JArray.IH[where r = "0x5D # r"]] by simp
  show ?case unfolding halt.simps by (intro stands_suffix i) auto
next
  case (JEmptyObject a)
  show ?case unfolding halt.simps by (rule stands_suffix) auto
next
  case (JObject ms)
  have i: "\<exists>p. render (JObject ms) @ r = p @ halt_members ms td E el' w' (0x7D # r)" for el' w'
    using after_Cons[OF JObject.IH[where r = "0x7D # r"]] by simp
  show ?case unfolding halt.simps by (intro stands_suffix i) auto
next
  case (ILast a v b)
  show ?case using in_suffix[OF ILast.IH[where r = "b @ r"], of a] by simp
next
  case (IMore a v b vs)
  have 1: "\<exists>p. render_items (IMore a v b vs) @ r = p @ halt v td E el [] w (b @ 0x2C # render_items vs @ r)"
    using in_suffix[OF IMore.IH(1)[where r = "b @ 0x2C # render_items vs @ r"], of a] by simp
  have 2: "\<exists>p. render_items (IMore a v b vs) @ r = p @ halt_items vs td E el w' r" for w'
    using in_suffix[OF IMore.IH(2)[where r = r], of "a @ render v @ b @ [0x2C]"] by simp
  show ?case unfolding halt_items.simps by (intro stands_suffix 1 2)
next
  case (MLast a n b c v d)
  show ?case using in_suffix[OF MLast.IH[where r = "d @ r"], of "a @ member_text n b @ c"] by simp
next
  case (MMore a n b c v d ms)
  have 1: "\<exists>p. render_members (MMore a n b c v d ms) @ r = p @ halt v td E el (string_bytes n) w (d @ 0x2C # render_members ms @ r)"
    using in_suffix[OF MMore.IH(1)[where r = "d @ 0x2C # render_members ms @ r"], of "a @ member_text n b @ c"] by simp
  have 2: "\<exists>p. render_members (MMore a n b c v d ms) @ r = p @ halt_members ms td E el w' r" for w'
    using in_suffix[OF MMore.IH(2)[where r = r], of "a @ member_text n b @ c @ render v @ d @ [0x2C]"] by simp
  show ?case unfolding halt_members.simps by (intro stands_suffix 1 2)
qed auto

lemma delivered_error: "deliver v td E el name w = (Inl e, w') \<Longrightarrow> e \<noteq> unknown_value_error \<and> e \<noteq> type_mismatch s x"
proof -
  have "annotate n x \<noteq> unknown_value_error \<and> annotate n x \<noteq> type_mismatch s y" for n x s y by (cases x) (simp_all add: annotate_def)
  moreover assume "deliver v td E el name w = (Inl e, w')"
  then have "\<exists>x. e = annotate name x" by (cases v) (auto simp: handled_def map_sum_def split: sum.splits)
  ultimately show ?thesis by auto
qed

text \<open>
  C35. An exception that a callback throws anywhere in a well-formed document, or a number that has no conversion, is
  reported exactly: with the message that the names of the enclosing values make of it (an unknown value and a mismatch of
  types never leave untranslated), with the line and the index of the place where the reader stands, which is right after
  the value, or after the opening or the closing bracket whose callback threw, or before the number, and with the
  client's state as the callback left it. Only an exception that is no \<open>std::exception\<close> passes through as it is. (The
  places of syntax errors are not covered.)
\<close>

theorem json_errors_located:
  assumes "json_ok v" and "spaces a" "spaces b" and "open_ended v \<longrightarrow> b \<noteq> []" and "deliver v td E el [] w = (Inl e, w')"
  shows "\<exists>consumed. a @ render v @ b = consumed @ halt v td E el [] w b
    \<and> Parse td E el (a @ render v @ b) w = Some (Inl (case e of
          runtime_error m \<Rightarrow> json_error (c_string m) (line_of consumed) (index_of consumed)
        | std_exception m \<Rightarrow> json_error (c_string m) (line_of consumed) (index_of consumed)
        | _ \<Rightarrow> escaped foreign_exception), w')
    \<and> e \<noteq> unknown_value_error \<and> (\<forall>seen expected. e \<noteq> type_mismatch seen expected)"
proof -
  obtain p where p: "render v @ b = p @ halt v td E el [] w b" using halt_suffix(1) by metis
  let ?doc = "a @ render v @ b" and ?q = "halt v td E el [] w b"
  have doc: "?doc = (a @ p) @ ?q" using p by simp
  have "Parse_Value (Suc (length ?doc)) td E el [] (?doc, w) = Some (Inl e, ?q, w')"
    using document_agrees[OF assms(1-4), of td E el w] assms(5) by simp
  then have "Parse td E el ?doc w = Some (Inl (report ?doc ?q e), w')" by (simp add: Parse_def Parse_with_def del: Parse_Value.simps)
  moreover note n = delivered_error[OF assms(5)]
  have "report ?doc ?q e = (case e of
          runtime_error m \<Rightarrow> json_error (c_string m) (line_of (a @ p)) (index_of (a @ p))
        | std_exception m \<Rightarrow> json_error (c_string m) (line_of (a @ p)) (index_of (a @ p))
        | _ \<Rightarrow> escaped foreign_exception)"
    using report_at[of e "a @ p" ?q] n unfolding doc by (cases e) (auto simp: c_string_def report_def)
  ultimately show ?thesis using doc n by (intro exI[of _ "a @ p"]) simp
qed

text \<open>A client that knows no boolean member, on a document of two lines.\<close>

definition picky :: "(unit, byte list, (byte list \<times> byte list Value option) list) Element" where
  "picky = recorder\<lparr>OnValue := (\<lambda>el name v w. (Inl unknown_value_error, w @ [(name, Some v)]))\<rparr>"

definition two_lines :: json where
  "two_lines = JObject (MLast [] [Raw 0x61] [] [0x0A, 0x20] (JObject (MLast [] [Raw 0x62] [] [0x20] JTrue [])) [])"

theorem json_errors_located_witness:
  "Parse Some picky () (render two_lines) []
     = Some (Inl (json_error (ascii ''a: Unknown value \"b\"'') 2 12), [([], None), ([0x61], None), ([0x62], Some (VBool True))])"
proof -
  have ok: "json_ok two_lines" "\<not> open_ended two_lines" by (simp_all add: two_lines_def is_space_def)
  have d: "deliver two_lines Some picky () [] [] = (Inl (runtime_error (ascii ''a: Unknown value \"b\"'')),
      [([], None), ([0x61], None), ([0x62], Some (VBool True))])"
    by (simp add: two_lines_def picky_def recorder_def handled_def annotate_def c_string_def ascii_def)
  have h: "halt two_lines Some picky () [] [] [] = [0x7D, 0x7D]"
    by (simp add: two_lines_def picky_def recorder_def handled_def)
  have t: "render two_lines = [0x7B, 0x22, 0x61, 0x22, 0x3A, 0x0A, 0x20, 0x7B, 0x22, 0x62, 0x22, 0x3A, 0x20, 0x74, 0x72, 0x75, 0x65] @ [0x7D, 0x7D]"
    by (simp add: two_lines_def member_text_def ascii_def)
  have m: "c_string (ascii ''a: Unknown value \"b\"'') = ascii ''a: Unknown value \"b\"''" by (simp add: c_string_def ascii_def)
  from json_errors_located[OF ok(1), of "[]" "[]" Some picky "()" "[]"] ok(2) d h
  obtain consumed where c: "render two_lines = consumed @ [0x7D, 0x7D]"
    "Parse Some picky () (render two_lines) [] = Some (Inl (json_error (ascii ''a: Unknown value \"b\"'') (line_of consumed) (index_of consumed)),
      [([], None), ([0x61], None), ([0x62], Some (VBool True))])"
    by (auto simp: m)
  have "consumed = [0x7B, 0x22, 0x61, 0x22, 0x3A, 0x0A, 0x20, 0x7B, 0x22, 0x62, 0x22, 0x3A, 0x20, 0x74, 0x72, 0x75, 0x65]"
    using c(1) unfolding t by (simp only: append_same_eq)
  then show ?thesis using c(2) by (simp add: line_of_def index_of_def)
qed

text \<open>A literal that ends the document is not recognised: nothing is delivered and nothing is reported.\<close>

lemma json_literal_at_end:
  "Parse td E el (ascii ''true'') w = (case OnComplete E el False w of
     (Inl e, w') \<Rightarrow> Some (Inl (report (ascii ''true'') (ascii ''rue'') e), w') | (Inr u, w') \<Rightarrow> Some (Inr u, w'))"
  by (simp add: Parse_def Parse_with_def value_switch_def GetChar_def is_space_def literal_value_def Skip_literal_def
      complete_def ascii_def split: prod.splits sum.splits)

end
