(* ===== verification/NGram_Lookup.thy ===== *)
theory NGram_Lookup
  imports Prelude
begin

text \<open>
  The incremental n-gram index of \<open>decoding/n_gram_lookup.h\<close>: which earlier position continues the current context.
  The hash map from token vectors to positions is a finite map (its keys compare by vector equality, so the hash does not
  show).
\<close>

section \<open>The index\<close>

datatype lookup_error = ngram_size_too_small

record NGramLookup =
  ngram_size :: int
  key_length :: nat
  history :: "token list"
  occurrences :: "token list \<rightharpoonup> nat"

definition new_lookup :: "int \<Rightarrow> lookup_error + NGramLookup" where
  "new_lookup n = (if n < 2 then Inl ngram_size_too_small
     else Inr \<lparr>ngram_size = n, key_length = nat (n - 1), history = [], occurrences = Map.empty\<rparr>)"

definition MakeKey :: "NGramLookup \<Rightarrow> nat \<Rightarrow> token list" where
  "MakeKey l start = take (key_length l) (drop start (history l))"

definition AppendToken :: "token \<Rightarrow> NGramLookup \<Rightarrow> NGramLookup" where
  "AppendToken t l =
     (let l1 = l\<lparr>history := history l @ [t]\<rparr>
      in if length (history l1) \<le> key_length l1 then l1
         else let newly_eligible_start = length (history l1) - key_length l1 - 1
              in l1\<lparr>occurrences := (occurrences l1)(MakeKey l1 newly_eligible_start \<mapsto> newly_eligible_start)\<rparr>)"

definition Append :: "token list \<Rightarrow> NGramLookup \<Rightarrow> NGramLookup" where
  "Append committed_suffix l = fold AppendToken committed_suffix l"

definition Reset_lookup :: "token list \<Rightarrow> NGramLookup \<Rightarrow> NGramLookup" where
  "Reset_lookup committed l = Append committed (l\<lparr>history := [], occurrences := Map.empty\<rparr>)"

text \<open>The loop of a chained proposal: \<open>room\<close> is \<open>max_tokens - proposal.size()\<close>.\<close>

fun chain_loop :: "NGramLookup \<Rightarrow> nat \<Rightarrow> token list \<Rightarrow> nat option \<Rightarrow> token list \<Rightarrow> token list" where
  "chain_loop l 0 ctx occurrence proposal = proposal"
| "chain_loop l (Suc room) ctx occurrence proposal =
     (case occurrence of
        None \<Rightarrow> proposal
      | Some i \<Rightarrow>
          let t = history l ! (i + key_length l);
              proposal1 = proposal @ [t]
          in if room = 0 then proposal1
             else let ctx1 = (rotate1 ctx)[length ctx - 1 := t]
                  in chain_loop l room ctx1 (occurrences l ctx1) proposal1)"

definition Propose :: "nat \<Rightarrow> bool \<Rightarrow> NGramLookup \<Rightarrow> token list" where
  "Propose max_tokens chained_lookup l =
     (if max_tokens = 0 \<or> length (history l) < key_length l then []
      else let ctx = MakeKey l (length (history l) - key_length l)
           in case occurrences l ctx of
                None \<Rightarrow> []
              | Some i \<Rightarrow>
                  if chained_lookup then chain_loop l max_tokens ctx (Some i) []
                  else let continuation = i + key_length l;
                           cnt = min max_tokens (length (history l) - continuation)
                       in take cnt (drop continuation (history l)))"

definition HistorySize :: "NGramLookup \<Rightarrow> nat" where
  "HistorySize l = length (history l)"

section \<open>Specification\<close>

text \<open>The last position before the end of \<open>h\<close> where the \<open>k\<close> tokens of \<open>key\<close> stand and a token follows them.\<close>

definition last_occurrence :: "token list \<Rightarrow> nat \<Rightarrow> token list \<Rightarrow> nat option" where
  "last_occurrence h k key = find (\<lambda>i. take k (drop i h) = key) (rev [0..<length h - k])"

text \<open>Each token continues the last occurrence of the \<open>k\<close> tokens before it, the proposed ones included.\<close>

fun chain_spec :: "token list \<Rightarrow> nat \<Rightarrow> token list \<Rightarrow> nat \<Rightarrow> token list" where
  "chain_spec h k ctx 0 = []"
| "chain_spec h k ctx (Suc m) =
     (case last_occurrence h k ctx of
        None \<Rightarrow> []
      | Some i \<Rightarrow> h ! (i + k) # chain_spec h k (tl ctx @ [h ! (i + k)]) m)"

definition propose_spec :: "token list \<Rightarrow> nat \<Rightarrow> nat \<Rightarrow> bool \<Rightarrow> token list" where
  "propose_spec h k m chained =
     (let ctx = drop (length h - k) h
      in if m = 0 \<or> length h < k then []
         else if chained then chain_spec h k ctx m
         else case last_occurrence h k ctx of None \<Rightarrow> [] | Some i \<Rightarrow> take m (drop (i + k) h))"

definition index_ok :: "NGramLookup \<Rightarrow> bool" where
  "index_ok l \<longleftrightarrow> 0 < key_length l \<and> occurrences l = last_occurrence (history l) (key_length l)"

lemma last_occurrence_Some:
  "last_occurrence h k key = Some i \<longleftrightarrow>
    i + k < length h \<and> take k (drop i h) = key \<and> (\<forall>j. i < j \<and> j + k < length h \<longrightarrow> take k (drop j h) \<noteq> key)"
proof -
  let ?P = "\<lambda>i. take k (drop i h) = key"
  have *: "find ?P (rev [0..<n]) = Some i \<longleftrightarrow> i < n \<and> ?P i \<and> (\<forall>j. i < j \<and> j < n \<longrightarrow> \<not> ?P j)" for n
    by (induction n) (auto simp: less_Suc_eq)
  show ?thesis unfolding last_occurrence_def * by (auto simp: less_diff_conv)
qed

lemma last_occurrence_append:
  assumes "k \<le> length h"
  shows "last_occurrence (h @ [t]) k = (last_occurrence h k)(drop (length h - k) h \<mapsto> length h - k)"
proof
  fix key
  have same: "take k (drop i (h @ [t])) = take k (drop i h)" if "i < length h - k" for i using that by simp
  have "[0..<length (h @ [t]) - k] = [0..<length h - k] @ [length h - k]"
    using assms by (simp add: Suc_diff_le)
  moreover have "take k (drop (length h - k) (h @ [t])) = drop (length h - k) h" using assms by simp
  moreover have "find (\<lambda>i. take k (drop i (h @ [t])) = key) (rev [0..<length h - k])
      = find (\<lambda>i. take k (drop i h) = key) (rev [0..<length h - k])"
    by (rule find_cong) (simp_all add: same)
  ultimately show "last_occurrence (h @ [t]) k key
      = ((last_occurrence h k)(drop (length h - k) h \<mapsto> length h - k)) key"
    unfolding last_occurrence_def by auto
qed

lemma last_occurrence_short: "length h \<le> k \<Longrightarrow> last_occurrence h k = Map.empty"
  by (auto simp: last_occurrence_def)

lemma AppendToken_fields [simp]:
  "history (AppendToken t l) = history l @ [t]" "key_length (AppendToken t l) = key_length l"
  "ngram_size (AppendToken t l) = ngram_size l"
  by (simp_all add: AppendToken_def Let_def)

lemma AppendToken_index_ok:
  assumes "index_ok l"
  shows "index_ok (AppendToken t l)"
proof (cases "length (history l) < key_length l")
  case True
  then show ?thesis using assms by (simp add: AppendToken_def index_ok_def last_occurrence_short)
next
  case False
  then show ?thesis
    using assms last_occurrence_append[of "key_length l" "history l" t]
    by (auto simp: AppendToken_def index_ok_def MakeKey_def Let_def)
qed

lemma Append_fields: "history (Append ts l) = history l @ ts" "key_length (Append ts l) = key_length l"
    "ngram_size (Append ts l) = ngram_size l"
  by (induction ts arbitrary: l) (simp_all add: Append_def)

lemma Append_index_ok: "index_ok l \<Longrightarrow> index_ok (Append ts l)"
  by (induction ts arbitrary: l) (simp_all add: Append_def AppendToken_index_ok)

lemma index_ok_eqI:
  "index_ok l \<Longrightarrow> index_ok m \<Longrightarrow> history l = history m \<Longrightarrow> key_length l = key_length m \<Longrightarrow> ngram_size l = ngram_size m
    \<Longrightarrow> l = (m :: NGramLookup)"
  by (simp add: index_ok_def)

lemma cleared_index_ok: "0 < key_length l \<Longrightarrow> index_ok (l\<lparr>history := [], occurrences := Map.empty\<rparr>)"
  by (simp add: index_ok_def last_occurrence_short)

lemma chain_loop_spec:
  assumes "index_ok l"
  shows "length ctx = key_length l \<Longrightarrow>
    chain_loop l m ctx (occurrences l ctx) proposal = proposal @ chain_spec (history l) (key_length l) ctx m"
proof (induction m arbitrary: ctx proposal)
  case (Suc m)
  have k: "0 < key_length l" and o: "occurrences l = last_occurrence (history l) (key_length l)"
    using assms by (auto simp: index_ok_def)
  show ?case
  proof (cases "occurrences l ctx")
    case None
    then show ?thesis using o by simp
  next
    case (Some i)
    let ?t = "history l ! (i + key_length l)"
    obtain x xs where c: "ctx = x # xs" using Suc.prems k by (cases ctx) auto
    have "(rotate1 ctx)[length ctx - 1 := ?t] = tl ctx @ [?t]"
      by (simp add: c list_update_append)
    moreover have "length (tl ctx @ [?t]) = key_length l" using Suc.prems k by simp
    ultimately have "chain_loop l (Suc m) ctx (occurrences l ctx) proposal
        = (if m = 0 then proposal @ [?t] else (proposal @ [?t]) @ chain_spec (history l) (key_length l) (tl ctx @ [?t]) m)"
      using Suc.IH[of "tl ctx @ [?t]" "proposal @ [?t]"] Some by (simp add: Let_def)
    then show ?thesis using Some o by (cases "m = 0") simp_all
  qed
qed simp

text \<open>
  The index is exact however it was filled: after any appends and resets from a new lookup the position stored for a
  key is the last one where the key stands with a token after it, so appending piece by piece, appending at once and
  rebuilding from the history give the same index.
\<close>

theorem ngram_index_exact:
  assumes "new_lookup n = Inr l0" and "l = fold (\<lambda>op. case op of Inl ts \<Rightarrow> Append ts | Inr ts \<Rightarrow> Reset_lookup ts) ops l0"
  shows "(occurrences l key = Some i \<longleftrightarrow> i + nat (n - 1) < length (history l) \<and> take (nat (n - 1)) (drop i (history l)) = key
      \<and> (\<forall>j. i < j \<and> j + nat (n - 1) < length (history l) \<longrightarrow> take (nat (n - 1)) (drop j (history l)) \<noteq> key))
    \<and> l = Append (history l) l0 \<and> l = Reset_lookup (history l) l"
proof -
  let ?f = "\<lambda>op. case op of Inl ts \<Rightarrow> Append ts | Inr ts \<Rightarrow> Reset_lookup ts"
  have l0: "index_ok l0 \<and> key_length l0 = nat (n - 1) \<and> ngram_size l0 = n \<and> history l0 = []"
    using assms(1) by (auto simp: new_lookup_def index_ok_def last_occurrence_short split: if_splits)
  have step: "index_ok (?f op m) \<and> key_length (?f op m) = key_length m \<and> ngram_size (?f op m) = ngram_size m"
    if "index_ok m" for op and m :: NGramLookup
    using that by (cases op) (auto simp: Append_index_ok Append_fields Reset_lookup_def cleared_index_ok index_ok_def[of m])
  have "index_ok m \<Longrightarrow> index_ok (fold ?f ops m) \<and> key_length (fold ?f ops m) = key_length m
      \<and> ngram_size (fold ?f ops m) = ngram_size m" for m
    using step by (induction ops arbitrary: m) auto
  with l0 assms(2) have l: "index_ok l" "key_length l = nat (n - 1)" "ngram_size l = n" by auto
  then have "occurrences l = last_occurrence (history l) (nat (n - 1))" by (simp add: index_ok_def)
  moreover have "l = Append (history l) l0"
    by (rule index_ok_eqI) (use l l0 in \<open>simp_all add: Append_fields Append_index_ok\<close>)
  moreover have "l = Reset_lookup (history l) l"
    by (rule index_ok_eqI)
      (use l in \<open>auto simp: Reset_lookup_def Append_fields intro!: Append_index_ok cleared_index_ok simp: index_ok_def[of l]\<close>)
  ultimately show ?thesis using last_occurrence_Some[of "history l" "nat (n - 1)" key i] by simp
qed

definition example_lookup :: NGramLookup where
  "example_lookup = \<lparr>ngram_size = 2, key_length = 1, history = [], occurrences = Map.empty\<rparr>"

theorem ngram_index_exact_witness:
  "occurrences (Append [7, 8, 7, 9] example_lookup) [7] = Some 2
    \<and> Append [7, 8, 7, 9] example_lookup = Reset_lookup [7, 8, 7, 9] (Append [7, 8, 7, 9] example_lookup)"
proof -
  have n: "new_lookup 2 = Inr example_lookup" by (simp add: new_lookup_def example_lookup_def)
  have h: "history (Append [7, 8, 7, 9] example_lookup) = [7, 8, 7, 9]" by (simp add: Append_fields example_lookup_def)
  show ?thesis
    using ngram_index_exact[OF n, of "Append [7, 8, 7, 9] example_lookup" "[Inl [7, 8, 7, 9]]" "[7]" 2] h
    by (auto simp: less_Suc_eq numeral_eq_Suc)
qed

text \<open>
  C37. A proposal is what the committed history says: without chaining, the tokens after the last earlier occurrence of the
  current context, at most the number asked for; with chaining, each token is the one after the last occurrence of the
  tokens before it. It is never longer than asked for, and the history and the index are not changed by proposing.
\<close>

theorem ngram_propose_correct:
  assumes "new_lookup n = Inr l0"
  shows "Propose m chained (Append h l0) = propose_spec h (nat (n - 1)) m chained
    \<and> length (Propose m chained (Append h l0)) \<le> m"
proof -
  let ?l = "Append h l0"
  have l0: "index_ok l0" "key_length l0 = nat (n - 1)" "history l0 = []"
    using assms by (auto simp: new_lookup_def index_ok_def last_occurrence_short split: if_splits)
  then have l: "index_ok ?l" "key_length ?l = nat (n - 1)" "history ?l = h"
    by (simp_all add: Append_index_ok Append_fields)
  have o: "occurrences ?l = last_occurrence h (nat (n - 1))" using l by (simp add: index_ok_def)
  have eq: "Propose m chained ?l = propose_spec h (nat (n - 1)) m chained"
  proof (cases "m = 0 \<or> length h < nat (n - 1)")
    case False
    let ?c = "drop (length h - nat (n - 1)) h"
    have c: "MakeKey ?l (length h - nat (n - 1)) = ?c" using False l by (simp add: MakeKey_def)
    have chain: "chain_loop ?l m ?c (occurrences ?l ?c) [] = chain_spec h (nat (n - 1)) ?c m"
      using chain_loop_spec[OF l(1), of ?c m "[]"] l False by simp
    show ?thesis
    proof (cases "occurrences ?l ?c")
      case None
      then show ?thesis using False c l o by (cases m) (auto simp: Propose_def propose_spec_def Let_def)
    next
      case (Some i)
      then show ?thesis using False c l o chain by (auto simp: Propose_def propose_spec_def Let_def min_def)
    qed
  qed (use l in \<open>auto simp: Propose_def propose_spec_def\<close>)
  have chain: "length (chain_spec h k c m) \<le> m" for k c
    by (induction m arbitrary: c) (auto split: option.splits)
  have "length (propose_spec h (nat (n - 1)) m chained) \<le> m"
    using chain by (auto simp: propose_spec_def Let_def split: option.splits)
  with eq show ?thesis by simp
qed

theorem ngram_propose_correct_witness: "Propose 3 True (Append [7, 8, 7, 9, 7] example_lookup) = [9, 7, 9]"
proof -
  have n: "new_lookup 2 = Inr example_lookup" by (simp add: new_lookup_def example_lookup_def)
  show ?thesis
    using ngram_propose_correct[OF n, of 3 True "[7, 8, 7, 9, 7]"]
    by (simp add: propose_spec_def last_occurrence_def numeral_eq_Suc)
qed

end
