(* ===== verification/Graph_Ids.thy ===== *)
theory Graph_Ids
  imports Prelude "HOL-Library.List_Lexorder"
begin

text \<open>
  Graph annotation ids (\<open>engine/graph_annotation_ids.h\<close>): one id per execution shape, drawn from a counter that all
  allocators of the process share. An allocator is its ordered map from shape keys to ids, a list sorted by key; the
  process-wide counter is a 64-bit value that is passed along, so that any interleaving of allocators is a sequence of
  operations on the pair.
\<close>

section \<open>The allocator\<close>

type_synonym Key = "nat list"  \<comment> \<open>eight components, unused ones zero\<close>
type_synonym ids = "(Key \<times> int) list"

definition kMaxCapturedShapes :: nat where
  "kMaxCapturedShapes = 64"

definition int_max :: int where
  "int_max = 2 ^ 31 - 1"

text \<open>\<open>fetch_add\<close> returns the old value and wraps; ids past the range of \<open>int\<close> are refused.\<close>

definition NextProcessWideId :: "u64 \<Rightarrow> int \<times> u64" where
  "NextProcessWideId next = (if sint next \<le> int_max then sint (ucast next :: 32 word) else -1, next + 1)"

fun emplace :: "Key \<Rightarrow> int \<Rightarrow> ids \<Rightarrow> ids" where
  "emplace k i [] = [(k, i)]"
| "emplace k i ((k', i') # xs) =
     (if k < k' then (k, i) # (k', i') # xs else if k = k' then (k', i') # xs else (k', i') # emplace k i xs)"

definition Id :: "Key \<Rightarrow> ids \<Rightarrow> u64 \<Rightarrow> int \<times> ids \<times> u64" where
  "Id key ids next =
     (case map_of ids key of
        Some i \<Rightarrow> (i, ids, next)
      | None \<Rightarrow>
          if kMaxCapturedShapes \<le> length ids then (-1, ids, next)
          else let (i, next') = NextProcessWideId next
               in if i < 0 then (-1, ids, next') else (i, emplace key i ids, next'))"

definition AssignedIds :: "ids \<Rightarrow> int list" where
  "AssignedIds ids = map snd ids"

definition ForEachAssignedId :: "(int \<Rightarrow> 's \<Rightarrow> 's) \<Rightarrow> ids \<Rightarrow> 's \<Rightarrow> 's" where
  "ForEachAssignedId callback ids s = fold (\<lambda>entry. callback (snd entry)) ids s"

definition Clear_ids :: "ids \<Rightarrow> ids" where
  "Clear_ids ids = []"

section \<open>All allocators of a process\<close>

datatype graph_op = IdOp nat Key | ClearOp nat

record process =
  counter :: u64
  allocators :: "nat \<Rightarrow> ids"

definition start_process :: process where
  "start_process = \<lparr>counter = 1, allocators = (\<lambda>_. [])\<rparr>"

fun graph_step :: "graph_op \<Rightarrow> process \<Rightarrow> process" where
  "graph_step (IdOp a k) s =
     (case Id k (allocators s a) (counter s) of (i, ids, next) \<Rightarrow> \<lparr>counter = next, allocators = (allocators s)(a := ids)\<rparr>)"
| "graph_step (ClearOp a) s = s\<lparr>allocators := (allocators s)(a := Clear_ids (allocators s a))\<rparr>"

definition graph_run :: "graph_op list \<Rightarrow> process \<Rightarrow> process" where
  "graph_run ops s = fold graph_step ops s"

section \<open>Invariant\<close>

definition process_ok :: "nat \<Rightarrow> process \<Rightarrow> bool" where
  "process_ok n s \<longleftrightarrow> 1 \<le> uint (counter s) \<and> uint (counter s) \<le> int n + 1
     \<and> (\<forall>a. sorted (map fst (allocators s a)) \<and> distinct (map fst (allocators s a))
            \<and> length (allocators s a) \<le> kMaxCapturedShapes
            \<and> (\<forall>(k, i) \<in> set (allocators s a). 0 < i \<and> i < uint (counter s) \<and> i \<le> int_max))
     \<and> (\<forall>a b k l i. (k, i) \<in> set (allocators s a) \<longrightarrow> (l, i) \<in> set (allocators s b) \<longrightarrow> a = b \<and> k = l)"

lemma emplace_keys: "k \<notin> fst ` set xs \<Longrightarrow> set (emplace k i xs) = insert (k, i) (set xs)"
  by (induction k i xs rule: emplace.induct) auto

lemma emplace_length: "k \<notin> fst ` set xs \<Longrightarrow> length (emplace k i xs) = Suc (length xs)"
  by (induction k i xs rule: emplace.induct) auto

lemma emplace_sorted:
  "k \<notin> fst ` set xs \<Longrightarrow> sorted (map fst xs) \<Longrightarrow> distinct (map fst xs)
    \<Longrightarrow> sorted (map fst (emplace k i xs)) \<and> distinct (map fst (emplace k i xs))"
proof (induction k i xs rule: emplace.induct)
  case (2 k i k' i' xs)
  then show ?case
    using emplace_keys[of k xs i] by (auto simp: less_imp_le)
qed simp

lemma next_id:
  assumes "uint c < 2 ^ 63"
  shows "NextProcessWideId c = (if uint c \<le> int_max then uint c else -1, c + 1)"
proof -
  have nonneg: "- (2 ^ n) \<le> uint c" for n by (rule order_trans[OF _ uint_ge_0]) simp
  have "sint c = uint c" using assms nonneg[of 63] by (simp add: sint_uint signed_take_bit_int_eq_self_iff)
  moreover have "sint (ucast c :: 32 word) = uint c" if "uint c \<le> int_max"
  proof -
    have "uint (ucast c :: 32 word) = uint c"
      using that uint_ge_0[of c] by (simp add: int_max_def uint_up_ucast unsigned_ucast_eq take_bit_int_eq_self)
    then show ?thesis using that nonneg[of 31] by (simp add: sint_uint int_max_def signed_take_bit_int_eq_self_iff)
  qed
  ultimately show ?thesis by (simp add: NextProcessWideId_def)
qed

lemma process_ok_mono: "process_ok n s \<Longrightarrow> n \<le> m \<Longrightarrow> process_ok m s"
  by (auto simp: process_ok_def)

lemma graph_step_clear: "process_ok n s \<Longrightarrow> process_ok n (graph_step (ClearOp a) s)"
  by (auto simp: process_ok_def Clear_ids_def)

text \<open>A new id is the counter's old value, so it is in no table.\<close>

lemma Id_cases:
  assumes "uint c < 2 ^ 63"
  shows "Id k ids c = (case map_of ids k of Some i \<Rightarrow> (i, ids, c)
    | None \<Rightarrow> if kMaxCapturedShapes \<le> length ids then (-1, ids, c)
        else if uint c \<le> int_max then (uint c, emplace k (uint c) ids, c + 1) else (-1, ids, c + 1))"
  using uint_ge_0[of c] by (auto simp: Id_def next_id[OF assms] split: option.splits)

lemma uint_Suc: "uint (c :: u64) < 2 ^ 63 \<Longrightarrow> uint (c + 1) = uint c + 1"
  by (simp add: uint_plus_if_size word_size)

lemma graph_step_id:
  assumes ok: "process_ok n s" and n: "int n < 2 ^ 63 - 1"
  shows "process_ok (Suc n) (graph_step (IdOp a k) s)"
proof -
  let ?c = "counter s" and ?ids = "allocators s a"
  have c: "1 \<le> uint ?c" "uint ?c \<le> int n + 1" using ok by (auto simp: process_ok_def)
  then have lt: "uint ?c < 2 ^ 63" using n by linarith
  show ?thesis
  proof (cases "map_of ?ids k = None \<and> length ?ids < kMaxCapturedShapes \<and> uint ?c \<le> int_max")
    case True
    then have step: "graph_step (IdOp a k) s = \<lparr>counter = ?c + 1, allocators = (allocators s)(a := emplace k (uint ?c) ?ids)\<rparr>"
      using Id_cases[OF lt, of k ?ids] by simp
    have k: "k \<notin> fst ` set ?ids" using True by (simp add: map_of_eq_None_iff)
    have below: "i < uint ?c" if "(l, i) \<in> set (allocators s b)" for b l i using ok that by (auto simp: process_ok_def)
    note em = emplace_keys[OF k] emplace_length[OF k] emplace_sorted[OF k]
    show ?thesis
      unfolding process_ok_def step
    proof (intro conjI allI impI)
      fix x
      show "sorted (map fst (allocators \<lparr>counter = ?c + 1, allocators = (allocators s)(a := emplace k (uint ?c) ?ids)\<rparr> x))"
        and "distinct (map fst (allocators \<lparr>counter = ?c + 1, allocators = (allocators s)(a := emplace k (uint ?c) ?ids)\<rparr> x))"
        and "length (allocators \<lparr>counter = ?c + 1, allocators = (allocators s)(a := emplace k (uint ?c) ?ids)\<rparr> x) \<le> kMaxCapturedShapes"
        using ok em True by (auto simp: process_ok_def)
      show "\<forall>(l, i)\<in>set (allocators \<lparr>counter = ?c + 1, allocators = (allocators s)(a := emplace k (uint ?c) ?ids)\<rparr> x).
          0 < i \<and> i < uint (counter \<lparr>counter = ?c + 1, allocators = (allocators s)(a := emplace k (uint ?c) ?ids)\<rparr>) \<and> i \<le> int_max"
        using ok em True c by (auto simp: process_ok_def uint_Suc[OF lt] less_SucI) fastforce+
    next
      fix x y p q i
      assume "(p, i) \<in> set (allocators \<lparr>counter = ?c + 1, allocators = (allocators s)(a := emplace k (uint ?c) ?ids)\<rparr> x)"
        and "(q, i) \<in> set (allocators \<lparr>counter = ?c + 1, allocators = (allocators s)(a := emplace k (uint ?c) ?ids)\<rparr> y)"
      then show "x = y" "p = q" using ok em below by (fastforce simp: process_ok_def split: if_splits)+
    qed (use c in \<open>simp_all add: uint_Suc[OF lt]\<close>)
  next
    case False
    then have "allocators (graph_step (IdOp a k) s) = allocators s"
      and "counter (graph_step (IdOp a k) s) = ?c \<or> counter (graph_step (IdOp a k) s) = ?c + 1"
      using Id_cases[OF lt, of k ?ids] by (auto split: option.splits if_splits)
    then show ?thesis using ok c uint_Suc[OF lt] unfolding process_ok_def by fastforce
  qed
qed

lemma Id_tabled:
  "fst (Id k (allocators s a) (counter s)) = -1
    \<or> (k, fst (Id k (allocators s a) (counter s))) \<in> set (allocators (graph_step (IdOp a k) s) a)"
  using emplace_keys[of k "allocators s a"]
  by (auto simp: Id_def Let_def map_of_eq_None_iff split: option.splits prod.splits if_splits dest: map_of_SomeD)

lemma graph_run_ok:
  "process_ok n s \<Longrightarrow> int n + int (length ops) < 2 ^ 63 - 1 \<Longrightarrow> process_ok (n + length ops) (graph_run ops s)"
proof (induction ops arbitrary: n s)
  case (Cons op ops)
  have "process_ok (Suc n) (graph_step op s)"
    using Cons.prems graph_step_id process_ok_mono[OF graph_step_clear] by (cases op) auto
  from Cons.IH[OF this] Cons.prems show ?case by (simp add: graph_run_def)
qed (simp add: graph_run_def)

lemma start_ok: "process_ok 0 start_process"
  by (simp add: process_ok_def start_process_def)

text \<open>Tables only lose entries or gain ids from the counter on.\<close>

lemma graph_step_fresh:
  assumes "process_ok n s" and "int n < 2 ^ 63 - 1" and "(k, i) \<in> set (allocators (graph_step op s) b)"
  shows "(k, i) \<in> set (allocators s b) \<or> uint (counter s) \<le> i"
    and "uint (counter s) \<le> uint (counter (graph_step op s))"
proof -
  have lt: "uint (counter s) < 2 ^ 63" using assms(1,2) by (auto simp: process_ok_def)
  show "(k, i) \<in> set (allocators s b) \<or> uint (counter s) \<le> i"
  proof (cases op)
    case (IdOp a l)
    then show ?thesis
      using assms(3) Id_cases[OF lt, of l "allocators s a"] emplace_keys[of l "allocators s a"]
      by (auto simp: map_of_eq_None_iff split: option.splits if_splits)
  qed (use assms(3) in \<open>auto simp: Clear_ids_def split: if_splits\<close>)
  show "uint (counter s) \<le> uint (counter (graph_step op s))"
  proof (cases op)
    case (IdOp a l)
    then show ?thesis
      using Id_cases[OF lt, of l "allocators s a"] uint_Suc[OF lt] by (auto split: option.splits if_splits)
  qed simp
qed

lemma graph_run_fresh:
  assumes "process_ok n s" and "int n + int (length ops) < 2 ^ 63 - 1" and "(k, i) \<in> set (allocators (graph_run ops s) b)"
  shows "(k, i) \<in> set (allocators s b) \<or> uint (counter s) \<le> i"
  using assms
proof (induction ops arbitrary: n s)
  case (Cons op ops)
  let ?s = "graph_step op s"
  have ok: "process_ok (Suc n) ?s" using graph_run_ok[of n s "[op]"] Cons.prems by (simp add: graph_run_def)
  have "(k, i) \<in> set (allocators ?s b) \<or> uint (counter ?s) \<le> i"
    using Cons.IH[OF ok] Cons.prems by (simp add: graph_run_def)
  then show ?case
  proof
    assume "(k, i) \<in> set (allocators ?s b)"
    then show ?thesis using graph_step_fresh(1)[OF Cons.prems(1)] Cons.prems(2) by simp
  next
    assume le: "uint (counter ?s) \<le> i"
    have "(k, i) \<in> set (allocators (graph_run ops ?s) b)" using Cons.prems(3) by (simp add: graph_run_def)
    have "uint (counter s) < 2 ^ 63" using Cons.prems(1,2) by (auto simp: process_ok_def)
    then have "uint (counter s) \<le> uint (counter ?s)"
      by (cases op) (auto simp: Id_cases uint_Suc split: option.splits if_splits)
    with le show ?thesis by simp
  qed
qed (simp add: graph_run_def)

text \<open>
  C38. In any interleaving of any number of allocators, fewer than 2^63 - 1 calls long, an annotation id names one shape of
  one allocator only, also across time: an id that was in a table once is never handed out again, to another key or another
  allocator, even after the table was cleared. Ids are positive and fit an \<open>int\<close>, and no allocator holds more than 64.
  The tables are what \<open>Id\<close> answers from: a shape that is in its allocator's table gets the id it has there, and an answer
  to any shape is -1 or the id that the table has for it after the call.
\<close>

theorem graph_ids_never_shared:
  assumes "int (length ops1) + int (length ops2) < 2 ^ 63 - 1"
    and "(k, i) \<in> set (allocators (graph_run ops1 start_process) a)"
    and "(l, i) \<in> set (allocators (graph_run ops2 (graph_run ops1 start_process)) b)"
  shows "a = b \<and> k = l \<and> 0 < i \<and> i \<le> int_max
    \<and> length (allocators (graph_run ops2 (graph_run ops1 start_process)) b) \<le> kMaxCapturedShapes
    \<and> fst (Id l (allocators (graph_run ops2 (graph_run ops1 start_process)) b)
        (counter (graph_run ops2 (graph_run ops1 start_process)))) = i
    \<and> (\<forall>c m. fst (Id m (allocators (graph_run ops2 (graph_run ops1 start_process)) c)
          (counter (graph_run ops2 (graph_run ops1 start_process)))) = -1
        \<or> (m, fst (Id m (allocators (graph_run ops2 (graph_run ops1 start_process)) c)
              (counter (graph_run ops2 (graph_run ops1 start_process)))))
            \<in> set (allocators (graph_step (IdOp c m) (graph_run ops2 (graph_run ops1 start_process))) c))"
proof -
  let ?s1 = "graph_run ops1 start_process" and ?s2 = "graph_run ops2 (graph_run ops1 start_process)"
  have s1: "process_ok (length ops1) ?s1" using graph_run_ok[OF start_ok, of ops1] assms(1) by simp
  have s2: "process_ok (length ops1 + length ops2) ?s2" using graph_run_ok[OF s1, of ops2] assms(1) by simp
  have "i < uint (counter ?s1)" using s1 assms(2) by (auto simp: process_ok_def)
  then have "(l, i) \<in> set (allocators ?s1 b)" using graph_run_fresh[OF s1 assms(1,3)] by auto
  with assms(2) s1 have "a = b \<and> k = l" unfolding process_ok_def by blast
  moreover have "0 < i \<and> i \<le> int_max" using s1 assms(2) by (auto simp: process_ok_def)
  moreover have "length (allocators ?s2 b) \<le> kMaxCapturedShapes" using s2 by (simp add: process_ok_def)
  moreover have "map_of (allocators ?s2 b) l = Some i" using s2 assms(3) by (auto simp: process_ok_def)
  then have "fst (Id l (allocators ?s2 b) (counter ?s2)) = i" by (simp add: Id_def)
  ultimately show ?thesis using Id_tabled by blast
qed

lemma graph_example:
  "allocators (graph_run [IdOp 0 [4]] start_process) 0 = [([4], 1)]"
  "allocators (graph_run [ClearOp 1, IdOp 1 [4]] (graph_run [IdOp 0 [4]] start_process)) 0 = [([4], 1)]"
  by (simp_all add: graph_run_def start_process_def Id_def NextProcessWideId_def int_max_def kMaxCapturedShapes_def Clear_ids_def)

theorem graph_ids_never_shared_witness:
  "allocators (graph_run [ClearOp 1, IdOp 1 [4]] (graph_run [IdOp 0 [4]] start_process)) 0 = [([4], 1)]
    \<and> fst (Id [4] (allocators (graph_run [ClearOp 1, IdOp 1 [4]] (graph_run [IdOp 0 [4]] start_process)) 0)
        (counter (graph_run [ClearOp 1, IdOp 1 [4]] (graph_run [IdOp 0 [4]] start_process)))) = 1
    \<and> length (allocators (graph_run [ClearOp 1, IdOp 1 [4]] (graph_run [IdOp 0 [4]] start_process)) 0) \<le> kMaxCapturedShapes"
  using graph_ids_never_shared[of "[IdOp 0 [4]]" "[ClearOp 1, IdOp 1 [4]]" "[4]" 1 0 "[4]" 0] graph_example
  by simp

end
