(* ===== verification/Window_Ring.thy ===== *)
theory Window_Ring
  imports Prelude
begin

text \<open>
  Sizing and addressing of the ring of blocks behind a sliding-window layer (\<open>engine/window_ring.h\<close>), on 64-bit
  \<open>size_t\<close> values.
\<close>

definition WindowLiveSpan :: "u64 \<Rightarrow> u64 \<Rightarrow> u64" where
  "WindowLiveSpan chunk_size window_size = chunk_size + window_size - 1"

definition WindowRingBlocks :: "u64 \<Rightarrow> u64 \<Rightarrow> u64 \<Rightarrow> u64" where
  "WindowRingBlocks chunk_size window_size block_size =
     (WindowLiveSpan chunk_size window_size + block_size - 1) div block_size"

definition WindowRingColumn :: "u64 \<Rightarrow> u64 \<Rightarrow> u64" where
  "WindowRingColumn column ring_blocks = column mod ring_blocks"

definition WindowRingSlot :: "u64 \<Rightarrow> u64 \<Rightarrow> u64 \<Rightarrow> u64" where
  "WindowRingSlot position ring_blocks block_size =
     WindowRingColumn (position div block_size) ring_blocks * block_size + position mod block_size"

lemma ring_slot_nat:
  fixes p r b :: nat
  assumes "0 < b" and "0 < r"
  shows "p div b mod r * b + p mod b = p mod (r * b)"
  by (metis add.commute mod_mult2_eq mult.commute)

lemma mod_inj_near:
  fixes p q n :: nat
  assumes "p \<le> q" and "q < p + n" and "p mod n = q mod n"
  shows "p = q"
proof -
  have "n dvd q - p" using assms(1,3) by (metis mod_eq_dvd_iff_nat)
  with assms(1,2) show ?thesis by (metis add_diff_cancel_left' diff_is_0_eq dvd_imp_le le_add_diff_inverse less_diff_conv2 not_less zero_less_diff le_antisym add.commute)
qed

lemma ceil_div_cover:
  fixes s b :: nat
  assumes "0 < b"
  shows "s \<le> (s + b - 1) div b * b"
proof -
  have "(s + b - 1) mod b < b" using assms by simp
  then show ?thesis using div_mult_mod_eq[of "s + b - 1" b] assms by linarith
qed

text \<open>
  Two positions that can be live at the same time never share a slot of the ring: for sizes whose sums do not exceed
  64 bits, positions less than a live span apart have the same slot only if they are equal, and every slot lies inside
  the ring.
\<close>

theorem window_ring_no_clash:
  assumes "0 < chunk" and "0 < window" and "0 < block"
    and "unat chunk + unat window + unat block < 2 ^ 64"
    and "p \<le> q" and "unat q < unat p + unat (WindowLiveSpan chunk window)"
  shows "(WindowRingSlot p (WindowRingBlocks chunk window block) block
      = WindowRingSlot q (WindowRingBlocks chunk window block) block \<longleftrightarrow> p = q)
    \<and> unat (WindowRingSlot p (WindowRingBlocks chunk window block) block)
      < unat (WindowRingBlocks chunk window block) * unat block"
proof -
  let ?r = "WindowRingBlocks chunk window block"
  have pos: "0 < unat chunk" "0 < unat window" "0 < unat block" using assms(1-3) by (simp_all add: unat_gt_0 word_neq_0_conv)
  have span: "unat (WindowLiveSpan chunk window) = unat chunk + unat window - 1"
  proof -
    have "unat (chunk + window) = unat chunk + unat window" using assms(4) by (simp add: unat_plus_if')
    moreover have "1 \<le> chunk + window" using pos calculation by (simp add: word_le_nat_alt)
    ultimately show ?thesis by (simp add: WindowLiveSpan_def unat_sub)
  qed
  have sum: "unat (WindowLiveSpan chunk window + block - 1) = unat (WindowLiveSpan chunk window) + unat block - 1"
  proof -
    have "unat (WindowLiveSpan chunk window + block) = unat (WindowLiveSpan chunk window) + unat block"
      using assms(4) span pos by (simp add: unat_plus_if')
    moreover have "1 \<le> WindowLiveSpan chunk window + block" using pos calculation by (simp add: word_le_nat_alt)
    ultimately show ?thesis by (simp add: unat_sub)
  qed
  have r: "unat ?r = (unat (WindowLiveSpan chunk window) + unat block - 1) div unat block"
    unfolding WindowRingBlocks_def unat_div_distrib sum ..
  have cover: "unat (WindowLiveSpan chunk window) \<le> unat ?r * unat block"
    unfolding r using pos(3) by (rule ceil_div_cover)
  have rpos: "0 < unat ?r" using cover span pos by (cases "unat ?r") auto
  have ring: "unat ?r * unat block < 2 ^ 64"
    unfolding r using span assms(4) by (rule_tac le_less_trans[OF div_times_less_eq_dividend]) linarith
  have slot: "unat (WindowRingSlot x ?r block) = unat x mod (unat ?r * unat block)" for x
  proof -
    let ?c = "unat x div unat block mod unat ?r * unat block"
    have eq: "?c + unat x mod unat block = unat x mod (unat ?r * unat block)"
      using pos(3) rpos by (rule ring_slot_nat)
    have lt: "unat x mod (unat ?r * unat block) < 2 ^ 64" using ring rpos pos(3) by (meson less_trans mod_less_divisor nat_0_less_mult_iff)
    have col: "unat (WindowRingColumn (x div block) ?r) = unat x div unat block mod unat ?r"
      by (simp add: WindowRingColumn_def unat_div_distrib unat_mod_distrib)
    have "unat (WindowRingColumn (x div block) ?r * block) = ?c"
      using eq lt col unat_mult_lem[of "WindowRingColumn (x div block) ?r" block] by simp
    with eq lt show ?thesis
      by (simp add: WindowRingSlot_def unat_plus_if' unat_mod_distrib)
  qed
  have "p = q" if "WindowRingSlot p ?r block = WindowRingSlot q ?r block"
  proof -
    have m: "unat p mod (unat ?r * unat block) = unat q mod (unat ?r * unat block)"
      using arg_cong[OF that, of unat] unfolding slot .
    have "unat p \<le> unat q" using assms(5) by (simp add: word_le_nat_alt)
    moreover have "unat q < unat p + unat ?r * unat block" using assms(6) cover by linarith
    ultimately have "unat p = unat q" using m by (rule mod_inj_near)
    then show ?thesis by (simp add: word_unat_eq_iff)
  qed
  moreover have "unat (WindowRingSlot p ?r block) < unat ?r * unat block" unfolding slot using rpos pos(3) by simp
  ultimately show ?thesis by blast
qed

theorem window_ring_no_clash_witness:
  "WindowRingSlot 10 (WindowRingBlocks 4 8 4) 4 \<noteq> WindowRingSlot 20 (WindowRingBlocks 4 8 4) 4"
  using window_ring_no_clash[of 4 8 4 10 20] by (simp add: WindowLiveSpan_def)

end
