(* ===== verification/Turn_Policy.thy ===== *)
theory Turn_Policy
  imports Complex_Main Prelude
begin

text \<open>
  The generation policy of one Engine turn (\<open>engine/turn_policy.h\<close>, \<open>engine/turn_policy.cpp\<close>): resolving it from the
  model's search defaults and the turn's explicit options, and rejecting a policy the Engine cannot honor.

  A \<open>float\<close> is a rational, an infinity or not a number, with the comparisons of IEEE 754 (every comparison with a NaN is
  false); no arithmetic is done on them here. The error texts are values that carry what the texts name.
\<close>

section \<open>Floating-point comparisons\<close>

datatype flt = Fin rat | PInf | NInf | NaN

fun isfinite :: "flt \<Rightarrow> bool" where
  "isfinite (Fin x) = True"
| "isfinite _ = False"

fun flt_less :: "flt \<Rightarrow> flt \<Rightarrow> bool" where
  "flt_less (Fin x) (Fin y) = (x < y)"
| "flt_less (Fin x) PInf = True"
| "flt_less NInf (Fin y) = True"
| "flt_less NInf PInf = True"
| "flt_less _ _ = False"

fun flt_eq :: "flt \<Rightarrow> flt \<Rightarrow> bool" where
  "flt_eq (Fin x) (Fin y) = (x = y)"
| "flt_eq PInf PInf = True"
| "flt_eq NInf NInf = True"
| "flt_eq _ _ = False"

definition flt_le :: "flt \<Rightarrow> flt \<Rightarrow> bool" where
  "flt_le x y \<longleftrightarrow> flt_less x y \<or> flt_eq x y"

section \<open>Options and policies\<close>

datatype DeviceType = CPU | CUDA | DML | WEBGPU | QnnHtp | QnnGpu | OpenVINO | NvTensorRtRtx | RyzenAI | AMDGPU | MAX

text \<open>The scalars of \<open>TurnOptions\<close>; \<open>None\<close> is an option the caller did not set.\<close>

record TurnOptions =
  opt_max_generated_tokens :: "nat option"
  opt_min_generated_tokens :: "nat option"
  opt_do_sample :: "bool option"
  opt_temperature :: "flt option"
  opt_top_p :: "flt option"
  opt_top_k :: "int option"
  opt_repetition_penalty :: "flt option"
  opt_no_repeat_ngram_size :: "int option"

record SearchDefaults =
  def_do_sample :: bool
  def_repetition_penalty :: flt
  def_top_k :: int
  def_top_p :: flt
  def_temperature :: flt
  def_no_repeat_ngram_size :: int

record EffectiveTurnPolicy =
  do_sample :: bool
  temperature :: flt
  top_p :: flt
  top_k :: int
  repetition_penalty :: flt
  no_repeat_ngram_size :: int
  min_generated_tokens :: nat
  max_generated_tokens :: "nat option"

definition IsGreedy :: "EffectiveTurnPolicy \<Rightarrow> bool" where
  "IsGreedy p \<longleftrightarrow> \<not> do_sample p \<or> top_k p = 1 \<or> flt_eq (temperature p) (Fin 0)"

definition SupportsNoRepeatNgram :: "DeviceType \<Rightarrow> bool" where
  "SupportsNoRepeatNgram scoring_device_type \<longleftrightarrow> scoring_device_type = CPU"

definition value_or :: "'a option \<Rightarrow> 'a \<Rightarrow> 'a" where
  "value_or o' d = (case o' of None \<Rightarrow> d | Some x \<Rightarrow> x)"

definition ResolveTurnPolicy :: "SearchDefaults \<Rightarrow> TurnOptions \<Rightarrow> EffectiveTurnPolicy" where
  "ResolveTurnPolicy model_defaults options =
     \<lparr>do_sample = value_or (opt_do_sample options) (def_do_sample model_defaults),
      temperature = value_or (opt_temperature options) (def_temperature model_defaults),
      top_p = value_or (opt_top_p options) (def_top_p model_defaults),
      top_k = value_or (opt_top_k options) (def_top_k model_defaults),
      repetition_penalty = value_or (opt_repetition_penalty options) (def_repetition_penalty model_defaults),
      no_repeat_ngram_size = value_or (opt_no_repeat_ngram_size options) (def_no_repeat_ngram_size model_defaults),
      min_generated_tokens = value_or (opt_min_generated_tokens options) 0,
      max_generated_tokens = opt_max_generated_tokens options\<rparr>"

section \<open>Validation\<close>

datatype model_cause = search_top_k_1 | search_temperature_0
datatype greedy_cause = do_sample_false | top_k_1 | temperature_0
datatype field = field_temperature | field_top_p | field_top_k

datatype policy_rejection =
    bad_temperature flt
  | bad_top_p flt
  | bad_top_k int
  | bad_repetition_penalty flt
  | bad_no_repeat_ngram int
  | unsupported_no_repeat_ngram DeviceType
  | model_supplied_greedy "model_cause list"
  | contradictory_scalars "greedy_cause list" "field list"
  | model_top_k_exceeds_vocab int int
  | top_k_exceeds_vocab int int
  | no_distribution
  | min_exceeds_max nat nat
  | min_does_not_fit nat nat nat

definition RejectModelSuppliedGreedy :: "model_cause list \<Rightarrow> policy_rejection" where
  "RejectModelSuppliedGreedy model_causes = model_supplied_greedy model_causes"

definition RejectContradictoryScalars :: "greedy_cause list \<Rightarrow> field list \<Rightarrow> policy_rejection" where
  "RejectContradictoryScalars cause contradictory_fields = contradictory_scalars cause contradictory_fields"

text \<open>The ranges of the scalars, in the order in which they are checked.\<close>

definition check_ranges :: "EffectiveTurnPolicy \<Rightarrow> DeviceType \<Rightarrow> policy_rejection option" where
  "check_ranges policy scoring_device_type =
     (if \<not> isfinite (temperature policy) \<or> flt_less (temperature policy) (Fin 0) then Some (bad_temperature (temperature policy))
      else if \<not> isfinite (top_p policy) \<or> flt_less (top_p policy) (Fin 0) \<or> flt_less (Fin 1) (top_p policy)
        then Some (bad_top_p (top_p policy))
      else if top_k policy < 0 then Some (bad_top_k (top_k policy))
      else if \<not> isfinite (repetition_penalty policy) \<or> flt_le (repetition_penalty policy) (Fin 0)
        then Some (bad_repetition_penalty (repetition_penalty policy))
      else if no_repeat_ngram_size policy < 0 then Some (bad_no_repeat_ngram (no_repeat_ngram_size policy))
      else if 0 < no_repeat_ngram_size policy \<and> \<not> SupportsNoRepeatNgram scoring_device_type
        then Some (unsupported_no_repeat_ngram scoring_device_type)
      else None)"

definition caller_requested_greedy :: "EffectiveTurnPolicy \<Rightarrow> TurnOptions \<Rightarrow> bool" where
  "caller_requested_greedy policy options \<longleftrightarrow>
     (opt_top_k options \<noteq> None \<and> top_k policy = 1)
     \<or> (opt_temperature options \<noteq> None \<and> flt_eq (temperature policy) (Fin 0))"

definition model_causes :: "EffectiveTurnPolicy \<Rightarrow> model_cause list" where
  "model_causes policy =
     (if top_k policy = 1 then [search_top_k_1] else [])
     @ (if flt_eq (temperature policy) (Fin 0) then [search_temperature_0] else [])"

definition greedy_causes :: "EffectiveTurnPolicy \<Rightarrow> greedy_cause list" where
  "greedy_causes policy =
     (if \<not> do_sample policy then [do_sample_false] else [])
     @ (if top_k policy = 1 then [top_k_1] else [])
     @ (if flt_eq (temperature policy) (Fin 0) then [temperature_0] else [])"

definition contradictory :: "EffectiveTurnPolicy \<Rightarrow> TurnOptions \<Rightarrow> field list" where
  "contradictory policy options =
     (if opt_temperature options \<noteq> None \<and> \<not> flt_eq (temperature policy) (Fin 0) \<and> \<not> flt_eq (temperature policy) (Fin 1)
      then [field_temperature] else [])
     @ (if opt_top_p options \<noteq> None \<and> flt_less (Fin 0) (top_p policy) \<and> flt_less (top_p policy) (Fin 1)
        then [field_top_p] else [])
     @ (if opt_top_k options \<noteq> None \<and> 1 < top_k policy then [field_top_k] else [])"

definition check_greedy :: "EffectiveTurnPolicy \<Rightarrow> TurnOptions \<Rightarrow> policy_rejection option" where
  "check_greedy policy options =
     (if value_or (opt_do_sample options) False \<and> \<not> caller_requested_greedy policy options
      then Some (RejectModelSuppliedGreedy (model_causes policy))
      else if contradictory policy options \<noteq> []
      then Some (RejectContradictoryScalars (greedy_causes policy) (contradictory policy options))
      else None)"

definition check_sampled :: "EffectiveTurnPolicy \<Rightarrow> TurnOptions \<Rightarrow> int \<Rightarrow> policy_rejection option" where
  "check_sampled policy options vocab_size =
     (if vocab_size < top_k policy then
        (if opt_top_k options = None then Some (model_top_k_exceeds_vocab (top_k policy) vocab_size)
         else Some (top_k_exceeds_vocab (top_k policy) vocab_size))
      else if top_k policy = 0 \<and> flt_eq (top_p policy) (Fin 0) then Some no_distribution
      else None)"

definition check_floor :: "EffectiveTurnPolicy \<Rightarrow> nat \<Rightarrow> nat \<Rightarrow> policy_rejection option" where
  "check_floor policy turn_prompt_length max_session_tokens =
     (if min_generated_tokens policy = 0 then None
      else case max_generated_tokens policy of
          Some m \<Rightarrow>
            if m < min_generated_tokens policy then Some (min_exceeds_max (min_generated_tokens policy) m)
            else if (if turn_prompt_length < max_session_tokens then max_session_tokens - turn_prompt_length else 0)
                < min_generated_tokens policy
              then Some (min_does_not_fit (min_generated_tokens policy) turn_prompt_length max_session_tokens)
            else None
        | None \<Rightarrow>
            if (if turn_prompt_length < max_session_tokens then max_session_tokens - turn_prompt_length else 0)
                < min_generated_tokens policy
              then Some (min_does_not_fit (min_generated_tokens policy) turn_prompt_length max_session_tokens)
            else None)"

definition ValidateTurnPolicy ::
  "EffectiveTurnPolicy \<Rightarrow> TurnOptions \<Rightarrow> DeviceType \<Rightarrow> int \<Rightarrow> nat \<Rightarrow> nat \<Rightarrow> policy_rejection + unit" where
  "ValidateTurnPolicy policy options scoring_device_type vocab_size turn_prompt_length max_session_tokens =
     (case check_ranges policy scoring_device_type of
        Some e \<Rightarrow> Inl e
      | None \<Rightarrow>
          (case (if IsGreedy policy then check_greedy policy options else check_sampled policy options vocab_size) of
             Some e \<Rightarrow> Inl e
           | None \<Rightarrow>
               (case check_floor policy turn_prompt_length max_session_tokens of
                  Some e \<Rightarrow> Inl e
                | None \<Rightarrow> Inr ())))"

section \<open>What is accepted\<close>

lemma flt_cases_Fin: "isfinite x \<longleftrightarrow> (\<exists>r. x = Fin r)"
  by (cases x) auto

text \<open>The scalars of an accepted policy, in terms of numbers.\<close>

definition scalars_ok :: "EffectiveTurnPolicy \<Rightarrow> DeviceType \<Rightarrow> bool" where
  "scalars_ok p device \<longleftrightarrow>
     (\<exists>t. temperature p = Fin t \<and> 0 \<le> t) \<and> (\<exists>q. top_p p = Fin q \<and> 0 \<le> q \<and> q \<le> 1) \<and> 0 \<le> top_k p
     \<and> (\<exists>r. repetition_penalty p = Fin r \<and> 0 < r)
     \<and> (no_repeat_ngram_size p = 0 \<or> 0 < no_repeat_ngram_size p \<and> device = CPU)"

text \<open>A turn that selects the top logit: nobody was misled about it.\<close>

definition greedy_ok :: "EffectiveTurnPolicy \<Rightarrow> TurnOptions \<Rightarrow> bool" where
  "greedy_ok p options \<longleftrightarrow>
     (opt_do_sample options = Some True \<longrightarrow> opt_top_k options = Some 1 \<or> opt_temperature options = Some (Fin 0))
     \<and> opt_temperature options \<in> {None, Some (Fin 0), Some (Fin 1)}
     \<and> opt_top_p options \<in> {None, Some (Fin 0), Some (Fin 1)}
     \<and> opt_top_k options \<in> {None, Some 0, Some 1}"

definition sampled_ok :: "EffectiveTurnPolicy \<Rightarrow> int \<Rightarrow> bool" where
  "sampled_ok p vocab_size \<longleftrightarrow> top_k p \<le> vocab_size \<and> (0 < top_k p \<or> flt_less (Fin 0) (top_p p))"

definition floor_ok :: "EffectiveTurnPolicy \<Rightarrow> nat \<Rightarrow> nat \<Rightarrow> bool" where
  "floor_ok p prompt_length max_session \<longleftrightarrow> min_generated_tokens p = 0
     \<or> (prompt_length + min_generated_tokens p \<le> max_session
        \<and> (\<forall>m. max_generated_tokens p = Some m \<longrightarrow> min_generated_tokens p \<le> m))"

lemma check_ranges_None: "check_ranges p device = None \<longleftrightarrow> scalars_ok p device"
proof -
  have "isfinite x \<and> \<not> flt_less x (Fin 0) \<longleftrightarrow> (\<exists>t. x = Fin t \<and> 0 \<le> t)" for x by (cases x) auto
  moreover have "isfinite x \<and> \<not> flt_less x (Fin 0) \<and> \<not> flt_less (Fin 1) x \<longleftrightarrow> (\<exists>q. x = Fin q \<and> 0 \<le> q \<and> q \<le> 1)" for x
    by (cases x) auto
  moreover have "isfinite x \<and> \<not> flt_le x (Fin 0) \<longleftrightarrow> (\<exists>r. x = Fin r \<and> 0 < r)" for x
    by (cases x) (auto simp: flt_le_def)
  ultimately show ?thesis
    unfolding scalars_ok_def by (auto simp: check_ranges_def SupportsNoRepeatNgram_def split: if_splits)
qed

lemma value_or_simps [simp]: "value_or None d = d" "value_or (Some x) d = x"
  by (simp_all add: value_or_def)

lemma check_floor_None: "check_floor p l m = None \<longleftrightarrow> floor_ok p l m"
  by (cases "max_generated_tokens p") (auto simp: check_floor_def floor_ok_def)

lemma check_sampled_None: "scalars_ok p device \<Longrightarrow> check_sampled p options v = None \<longleftrightarrow> sampled_ok p v"
  by (auto simp: check_sampled_def sampled_ok_def scalars_ok_def)

lemma if_singleton_empty: "(if b then [x] else []) = [] \<longleftrightarrow> \<not> b"
  by simp

lemma check_greedy_None:
  assumes ok: "scalars_ok p device" and p: "p = ResolveTurnPolicy defaults options"
  shows "check_greedy p options = None \<longleftrightarrow> greedy_ok p options"
proof -
  obtain t q where t: "temperature p = Fin t" "0 \<le> t" and q: "top_p p = Fin q" "0 \<le> q" "q \<le> 1" and k: "0 \<le> top_k p"
    using ok by (auto simp: scalars_ok_def)
  have temp: "opt_temperature options = Some x \<Longrightarrow> x = Fin t"
    and tp: "opt_top_p options = Some y \<Longrightarrow> y = Fin q" and tk: "opt_top_k options = Some z \<Longrightarrow> z = top_k p" for x y z
    using p t q by (auto simp: ResolveTurnPolicy_def)
  have c: "caller_requested_greedy p options
      \<longleftrightarrow> opt_top_k options = Some 1 \<or> opt_temperature options = Some (Fin 0)"
    using temp tk t by (auto simp: caller_requested_greedy_def)
  have d: "contradictory p options = [] \<longleftrightarrow> opt_temperature options \<in> {None, Some (Fin 0), Some (Fin 1)}
      \<and> opt_top_p options \<in> {None, Some (Fin 0), Some (Fin 1)} \<and> opt_top_k options \<in> {None, Some 0, Some 1}"
  proof -
    have "\<not> (opt_temperature options \<noteq> None \<and> \<not> flt_eq (temperature p) (Fin 0) \<and> \<not> flt_eq (temperature p) (Fin 1))
        \<longleftrightarrow> opt_temperature options \<in> {None, Some (Fin 0), Some (Fin 1)}"
      using temp t by (cases "opt_temperature options") auto
    moreover have "\<not> (opt_top_p options \<noteq> None \<and> flt_less (Fin 0) (top_p p) \<and> flt_less (top_p p) (Fin 1))
        \<longleftrightarrow> opt_top_p options \<in> {None, Some (Fin 0), Some (Fin 1)}"
      using tp q by (cases "opt_top_p options") auto
    moreover have "\<not> (opt_top_k options \<noteq> None \<and> 1 < top_k p) \<longleftrightarrow> opt_top_k options \<in> {None, Some 0, Some 1}"
      using tk k by (cases "opt_top_k options") auto
    ultimately show ?thesis 
      unfolding contradictory_def append_is_Nil_conv if_singleton_empty by (simp only:)
  qed
  show ?thesis
    using d unfolding check_greedy_def greedy_ok_def c by (cases "opt_do_sample options") auto
qed

text \<open>
  C36. A turn's resolved policy is admitted exactly when its scalars are in range (temperature finite and not negative,
  top_p in [0,1], and so on), a turn that selects the top logit was not asked for a distribution (an explicit do_sample
  only with the caller's own top_k 1 or temperature 0, explicit scalars only with neutral values), a sampled turn has a
  distribution within the vocabulary, and the floor of generated tokens fits below the ceiling and the session limit.
\<close>

theorem turn_policy_admission:
  "ValidateTurnPolicy (ResolveTurnPolicy defaults options) options device vocab prompt_length max_session = Inr ()
    \<longleftrightarrow> (let p = ResolveTurnPolicy defaults options in
       scalars_ok p device \<and> (if IsGreedy p then greedy_ok p options else sampled_ok p vocab) \<and> floor_ok p prompt_length max_session)"
proof (cases "scalars_ok (ResolveTurnPolicy defaults options) device")
  case False
  then show ?thesis
    using check_ranges_None[of "ResolveTurnPolicy defaults options" device]
    by (auto simp: ValidateTurnPolicy_def Let_def split: option.splits)
next
  case True
  then show ?thesis
    using check_ranges_None[of "ResolveTurnPolicy defaults options" device] check_greedy_None[OF True refl]
      check_sampled_None[OF True, of options vocab] check_floor_None[of "ResolveTurnPolicy defaults options" prompt_length max_session]
    by (auto simp: ValidateTurnPolicy_def Let_def split: option.splits if_splits)
qed

text \<open>
  The error for a model that keeps a turn greedy against an explicit do_sample always names a cause (the assertion in
  the code holds), and only causes the caller did not write: neither a top_k of 1 nor a temperature of 0 is among the turn's
  own options. The error for contradicting scalars names the causes of the greedy resolution, at least one, and only
  options the caller did set.
\<close>

theorem turn_policy_rejections_name_causes:
  assumes "ValidateTurnPolicy (ResolveTurnPolicy defaults options) options device vocab prompt_length max_session = Inl e"
  shows "(\<forall>causes. e = model_supplied_greedy causes \<longrightarrow> causes \<noteq> [] \<and> opt_do_sample options = Some True
      \<and> opt_top_k options \<noteq> Some 1 \<and> opt_temperature options \<noteq> Some (Fin 0))
    \<and> (\<forall>causes fields. e = contradictory_scalars causes fields \<longrightarrow> causes \<noteq> [] \<and> fields \<noteq> []
      \<and> (field_temperature \<in> set fields \<longrightarrow> opt_temperature options \<noteq> None)
      \<and> (field_top_p \<in> set fields \<longrightarrow> opt_top_p options \<noteq> None)
      \<and> (field_top_k \<in> set fields \<longrightarrow> opt_top_k options \<noteq> None))"
proof -
  let ?p = "ResolveTurnPolicy defaults options"
  have g: "check_greedy ?p options = Some e \<and> IsGreedy ?p"
    if "e = model_supplied_greedy c \<or> e = contradictory_scalars d f" for c d f
    using assms that
    by (auto simp: ValidateTurnPolicy_def check_ranges_def check_sampled_def check_floor_def
        split: option.splits if_splits)
  show ?thesis
  proof (intro conjI allI impI)
    fix causes assume e: "e = model_supplied_greedy causes"
    then have h: "value_or (opt_do_sample options) False" "\<not> caller_requested_greedy ?p options" "causes = model_causes ?p"
      using g[of causes] by (auto simp: check_greedy_def RejectModelSuppliedGreedy_def RejectContradictoryScalars_def split: if_splits)
    show s: "opt_do_sample options = Some True" using h(1) by (auto simp: value_or_def split: option.splits)
    show "causes \<noteq> []" using h(3) g[of causes] e s
      by (auto simp: model_causes_def IsGreedy_def ResolveTurnPolicy_def split: if_splits)
    show "opt_top_k options \<noteq> Some 1" "opt_temperature options \<noteq> Some (Fin 0)"
      using h(2) by (auto simp: caller_requested_greedy_def ResolveTurnPolicy_def)
  next
    fix causes fields assume e: "e = contradictory_scalars causes fields"
    then have h: "causes = greedy_causes ?p" "fields = contradictory ?p options" "fields \<noteq> []" and gr: "IsGreedy ?p"
      using g[of undefined causes fields]
      by (auto simp: check_greedy_def RejectModelSuppliedGreedy_def RejectContradictoryScalars_def split: if_splits)
    show "causes \<noteq> []" using h(1) gr by (auto simp: greedy_causes_def IsGreedy_def split: if_splits)
    show "fields \<noteq> []" by (rule h(3))
    show "opt_temperature options \<noteq> None" if "field_temperature \<in> set fields"
      using that h(2) by (auto simp: contradictory_def split: if_splits)
    show "opt_top_p options \<noteq> None" if "field_top_p \<in> set fields"
      using that h(2) by (auto simp: contradictory_def split: if_splits)
    show "opt_top_k options \<noteq> None" if "field_top_k \<in> set fields"
      using that h(2) by (auto simp: contradictory_def split: if_splits)
  qed
qed

definition example_defaults :: SearchDefaults where
  "example_defaults = \<lparr>def_do_sample = False, def_repetition_penalty = Fin 1, def_top_k = 1, def_top_p = Fin 0,
     def_temperature = Fin 1, def_no_repeat_ngram_size = 0\<rparr>"

definition example_options :: TurnOptions where
  "example_options = \<lparr>opt_max_generated_tokens = None, opt_min_generated_tokens = None, opt_do_sample = Some True,
     opt_temperature = None, opt_top_p = None, opt_top_k = None, opt_repetition_penalty = None, opt_no_repeat_ngram_size = None\<rparr>"

theorem turn_policy_rejections_name_causes_witness:
  "ValidateTurnPolicy (ResolveTurnPolicy example_defaults example_options) example_options CPU 100 5 50
     = Inl (model_supplied_greedy [search_top_k_1])
   \<and> opt_top_k example_options \<noteq> Some 1"
proof -
  have v: "ValidateTurnPolicy (ResolveTurnPolicy example_defaults example_options) example_options CPU 100 5 50
     = Inl (model_supplied_greedy [search_top_k_1])"
    by (simp add: ValidateTurnPolicy_def ResolveTurnPolicy_def example_defaults_def example_options_def check_ranges_def
        flt_le_def SupportsNoRepeatNgram_def IsGreedy_def check_greedy_def caller_requested_greedy_def
        RejectModelSuppliedGreedy_def model_causes_def)
  from turn_policy_rejections_name_causes[OF v] v show ?thesis by blast
qed

end
