(* ===== verification/Greedy_Search.thy ===== *)
theory Greedy_Search
  imports Prelude
begin

text \<open>
  The greedy (single-beam) CPU search: the token buffer of \<open>sequences.h\<close> and the selection, append, rewind and
  transaction operations of \<open>search.h\<close> and \<open>search.cpp\<close>.

  \<^item> The sequences are one flat buffer of \<open>batch_size\<close> rows of \<open>max_length\<close> tokens, and a common current length.
    A read or write outside the buffer is the error \<open>out_of_bounds\<close>, which the theorems exclude.
  \<^item> How a token is drawn from a row of scores (float comparison, distribution, random generator) is a parameter.
  \<^item> \<open>CompleteGeneration\<close>, \<open>DeferCompletion\<close> and the slot binding do nothing in this class.
\<close>

section \<open>State\<close>

record SearchParams =
  batch_size :: nat
  max_length :: nat
  eos_token_id :: "token list"
  pad_token_id :: token

datatype search_error =
    out_of_bounds
  | argmax_requires_values
  | checkpoint_already_active
  | checkpoint_not_active
  | restore_already_pending
  | restore_not_pending

record Search =
  sequences :: "token list"
  current_length :: nat
  next_tokens :: "token list"
  eos_seen :: "bool list"
  not_done_count :: int
  search_done :: bool
  sequence_lengths :: "int list"
  transaction_checkpoint_active :: bool
  transaction_restore_pending :: bool
  transaction_sequence_length :: nat
  transaction_sequence_lengths :: "int list"
  transaction_done :: bool
  transaction_next_tokens :: "token list"
  transaction_eos_seen :: "bool list"
  transaction_not_done_count :: int

text \<open>A new search; the device memory it allocates has the given contents.\<close>

definition new_search :: "SearchParams \<Rightarrow> token list \<Rightarrow> int list \<Rightarrow> Search" where
  "new_search p memory lengths =
     \<lparr>sequences = memory, current_length = 0, next_tokens = replicate (batch_size p) 0,
      eos_seen = replicate (batch_size p) False, not_done_count = int (batch_size p), search_done = False,
      sequence_lengths = lengths,
      transaction_checkpoint_active = False, transaction_restore_pending = False, transaction_sequence_length = 0,
      transaction_sequence_lengths = [], transaction_done = False, transaction_next_tokens = [],
      transaction_eos_seen = [], transaction_not_done_count = 0\<rparr>"

definition GetSequence :: "SearchParams \<Rightarrow> nat \<Rightarrow> Search \<Rightarrow> token list" where
  "GetSequence p index s = take (current_length s) (drop (index * max_length p) (sequences s))"

definition ResetDone :: "SearchParams \<Rightarrow> Search \<Rightarrow> Search" where
  "ResetDone p s = s\<lparr>search_done := False, not_done_count := int (batch_size p),
     eos_seen := replicate (length (eos_seen s)) False\<rparr>"

section \<open>Appending\<close>

definition SetNextToken :: "SearchParams \<Rightarrow> nat \<Rightarrow> token \<Rightarrow> Search \<Rightarrow> search_error + Search" where
  "SetNextToken p batch_id token s =
     (if length (next_tokens s) \<le> batch_id \<or> length (eos_seen s) \<le> batch_id then Inl out_of_bounds
      else
        let s1 = s\<lparr>next_tokens := (next_tokens s)[batch_id := token]\<rparr>
        in if token \<in> set (eos_token_id p) then
             let s2 = s1\<lparr>eos_seen := (eos_seen s1)[batch_id := True], not_done_count := not_done_count s1 - 1\<rparr>
             in Inr (if not_done_count s2 = 0 then s2\<lparr>search_done := True\<rparr> else s2)
           else Inr s1)"

definition write_token :: "SearchParams \<Rightarrow> nat \<Rightarrow> Search \<Rightarrow> search_error + Search" where
  "write_token p i s =
     (let k = i * max_length p + current_length s
      in if length (sequences s) \<le> k \<or> length (next_tokens s) \<le> i then Inl out_of_bounds
         else Inr (s\<lparr>sequences := (sequences s)[k := next_tokens s ! i]\<rparr>))"

definition AfterAppendNextTokens :: "nat \<Rightarrow> nat \<Rightarrow> Search \<Rightarrow> Search" where
  "AfterAppendNextTokens next_tokens_size batch_beam_size s =
     s\<lparr>current_length := current_length s + next_tokens_size div batch_beam_size\<rparr>"

definition AppendNextTokensToSequences :: "SearchParams \<Rightarrow> Search \<Rightarrow> search_error + Search" where
  "AppendNextTokensToSequences p s =
     bind_result (run_result (write_token p) [0..<batch_size p] s) (\<lambda>s1.
       let s2 = AfterAppendNextTokens (length (next_tokens s1)) (batch_size p) s1
       in Inr (if current_length s2 = max_length p then s2\<lparr>search_done := True\<rparr> else s2))"

definition append_column :: "SearchParams \<Rightarrow> token list \<Rightarrow> nat \<Rightarrow> nat \<Rightarrow> Search \<Rightarrow> search_error + Search" where
  "append_column p tokens per_batch j s =
     bind_result (run_result (\<lambda>i. SetNextToken p i (tokens ! (i * per_batch + j))) [0..<batch_size p] s)
       (AppendNextTokensToSequences p)"

definition AppendTokens :: "SearchParams \<Rightarrow> token list \<Rightarrow> Search \<Rightarrow> search_error + Search" where
  "AppendTokens p tokens s =
     (let per_batch = length tokens div batch_size p
      in bind_result (run_result (append_column p tokens per_batch) [0..<per_batch] s) (\<lambda>s1. Inr (ResetDone p s1)))"

definition CommitToken :: "SearchParams \<Rightarrow> token \<Rightarrow> Search \<Rightarrow> search_error + Search" where
  "CommitToken p token s =
     bind_result (SetNextToken p 0 token s) (\<lambda>s1.
       if \<not> search_done s1 then AppendNextTokensToSequences p s1 else Inr s1)"

section \<open>Selecting\<close>

fun argmax_loop :: "('f \<Rightarrow> 'f \<Rightarrow> bool) \<Rightarrow> 'f list \<Rightarrow> nat \<Rightarrow> 'f \<Rightarrow> nat \<Rightarrow> nat" where
  "argmax_loop exceeds [] i best_score best_index = best_index"
| "argmax_loop exceeds (x # xs) i best_score best_index =
     (if exceeds x best_score then argmax_loop exceeds xs (i + 1) x i
      else argmax_loop exceeds xs (i + 1) best_score best_index)"

definition ArgMax :: "('f \<Rightarrow> 'f \<Rightarrow> bool) \<Rightarrow> 'f list \<Rightarrow> search_error + nat" where
  "ArgMax exceeds values =
     (case values of [] \<Rightarrow> Inl argmax_requires_values | x # xs \<Rightarrow> Inr (argmax_loop exceeds xs 1 x 0))"

definition PadIfAlreadyEOS :: "SearchParams \<Rightarrow> nat \<Rightarrow> Search \<Rightarrow> bool \<times> Search" where
  "PadIfAlreadyEOS p batch_id s =
     (if \<not> eos_seen s ! batch_id then (False, s)
      else (True, s\<lparr>next_tokens := (next_tokens s)[batch_id := pad_token_id p]\<rparr>))"

text \<open>The loop over the batch that the four selection functions share; \<open>pick\<close> chooses the token of a row.\<close>

definition select_row ::
  "SearchParams \<Rightarrow> (nat \<Rightarrow> 'r \<Rightarrow> search_error + token \<times> 'r) \<Rightarrow> nat \<Rightarrow> Search \<times> 'r \<Rightarrow> search_error + Search \<times> 'r" where
  "select_row p pick batch_id sr =
     (case PadIfAlreadyEOS p batch_id (fst sr) of
        (True, s1) \<Rightarrow> Inr (s1, snd sr)
      | (False, s1) \<Rightarrow>
          bind_result (pick batch_id (snd sr)) (\<lambda>(token, r1).
            bind_result (SetNextToken p batch_id token s1) (\<lambda>s2. Inr (s2, r1))))"

definition select_with ::
  "SearchParams \<Rightarrow> (nat \<Rightarrow> 'r \<Rightarrow> search_error + token \<times> 'r) \<Rightarrow> Search \<Rightarrow> 'r \<Rightarrow> search_error + Search \<times> 'r" where
  "select_with p pick s r =
     bind_result (run_result (select_row p pick) [0..<batch_size p] (s, r)) (\<lambda>(s1, r1).
       if \<not> search_done s1 then bind_result (AppendNextTokensToSequences p s1) (\<lambda>s2. Inr (s2, r1)) else Inr (s1, r1))"

definition SelectTop :: "SearchParams \<Rightarrow> ('f \<Rightarrow> 'f \<Rightarrow> bool) \<Rightarrow> 'f list list \<Rightarrow> Search \<Rightarrow> search_error + Search" where
  "SelectTop p exceeds scores s =
     bind_result (select_with p (\<lambda>i r. bind_result (ArgMax exceeds (scores ! i)) (\<lambda>t. Inr (int t, r))) s ())
       (\<lambda>(s1, _). Inr s1)"

text \<open>The sampled selections: the distribution of a row and the draw from it are parameters.\<close>

record ('f, 'c, 'r) Sampling =
  compute_categorical :: "'f list \<Rightarrow> int \<Rightarrow> 'f \<Rightarrow> 'f \<Rightarrow> 'c"
  draw_token :: "'c \<Rightarrow> 'r \<Rightarrow> search_error + token \<times> 'r"
  zero_score :: 'f

definition SampleTopK :: "SearchParams \<Rightarrow> ('f, 'c, 'r) Sampling \<Rightarrow> 'f list list \<Rightarrow> int \<Rightarrow> 'f \<Rightarrow> Search \<Rightarrow> 'r
    \<Rightarrow> search_error + Search \<times> 'r" where
  "SampleTopK p S scores k temperature s r =
     select_with p (\<lambda>i. draw_token S (compute_categorical S (scores ! i) k (zero_score S) temperature)) s r"

definition SampleTopP :: "SearchParams \<Rightarrow> ('f, 'c, 'r) Sampling \<Rightarrow> 'f list list \<Rightarrow> 'f \<Rightarrow> 'f \<Rightarrow> Search \<Rightarrow> 'r
    \<Rightarrow> search_error + Search \<times> 'r" where
  "SampleTopP p S scores top_p temperature s r =
     select_with p (\<lambda>i. draw_token S (compute_categorical S (scores ! i) 0 top_p temperature)) s r"

definition SampleTopKTopP :: "SearchParams \<Rightarrow> ('f, 'c, 'r) Sampling \<Rightarrow> 'f list list \<Rightarrow> int \<Rightarrow> 'f \<Rightarrow> 'f \<Rightarrow> Search \<Rightarrow> 'r
    \<Rightarrow> search_error + Search \<times> 'r" where
  "SampleTopKTopP p S scores k top_p temperature s r =
     select_with p (\<lambda>i. draw_token S (compute_categorical S (scores ! i) k top_p temperature)) s r"

section \<open>Rewinding and transactions\<close>

definition reload_token :: "SearchParams \<Rightarrow> nat \<Rightarrow> nat \<Rightarrow> Search \<Rightarrow> search_error + Search" where
  "reload_token p index i s =
     (let k = i * max_length p + index
      in if length (sequences s) \<le> k \<or> length (next_tokens s) \<le> i then Inl out_of_bounds
         else Inr (s\<lparr>next_tokens := (next_tokens s)[i := sequences s ! k]\<rparr>))"

definition RewindTo :: "SearchParams \<Rightarrow> nat \<Rightarrow> Search \<Rightarrow> search_error + Search" where
  "RewindTo p index s =
     (let s1 = ResetDone p s
      in bind_result
           (if 0 < index then run_result (reload_token p index) [0..<batch_size p] s1
            else Inr (s1\<lparr>next_tokens := replicate (length (next_tokens s1)) 0\<rparr>))
           (\<lambda>s2. Inr (s2\<lparr>current_length := index\<rparr>)))"

definition SaveStateForTransactionImpl :: "Search \<Rightarrow> Search" where
  "SaveStateForTransactionImpl s =
     s\<lparr>transaction_sequence_lengths := sequence_lengths s, transaction_done := search_done s,
       transaction_next_tokens := next_tokens s, transaction_eos_seen := eos_seen s,
       transaction_not_done_count := not_done_count s\<rparr>"

definition RestoreStateForTransactionImpl :: "Search \<Rightarrow> Search" where
  "RestoreStateForTransactionImpl s =
     s\<lparr>sequence_lengths := transaction_sequence_lengths s, search_done := transaction_done s,
       next_tokens := transaction_next_tokens s, eos_seen := transaction_eos_seen s,
       not_done_count := transaction_not_done_count s\<rparr>"

definition StartTransactionCheckpoint :: "Search \<Rightarrow> search_error + Search" where
  "StartTransactionCheckpoint s =
     (if transaction_checkpoint_active s then Inl checkpoint_already_active
      else Inr ((SaveStateForTransactionImpl (s\<lparr>transaction_sequence_length := current_length s\<rparr>))
        \<lparr>transaction_checkpoint_active := True\<rparr>))"

text \<open>Both variants save the same state here; they differ only in what a device search has to copy.\<close>

definition SaveStateForTransaction :: "Search \<Rightarrow> search_error + Search" where
  "SaveStateForTransaction s = StartTransactionCheckpoint s"

definition SaveStateForExternalSamplingTransaction :: "Search \<Rightarrow> search_error + Search" where
  "SaveStateForExternalSamplingTransaction s = StartTransactionCheckpoint s"

definition QueueStateRestoreForTransaction :: "Search \<Rightarrow> search_error + Search" where
  "QueueStateRestoreForTransaction s =
     (if \<not> transaction_checkpoint_active s then Inl checkpoint_not_active
      else if transaction_restore_pending s then Inl restore_already_pending
      else Inr ((RestoreStateForTransactionImpl (s\<lparr>current_length := transaction_sequence_length s\<rparr>))
        \<lparr>transaction_restore_pending := True\<rparr>))"

definition CompleteStateRestoreForTransaction :: "Search \<Rightarrow> search_error + Search" where
  "CompleteStateRestoreForTransaction s =
     (if \<not> transaction_checkpoint_active s \<or> \<not> transaction_restore_pending s then Inl restore_not_pending
      else Inr (s\<lparr>transaction_restore_pending := False, transaction_checkpoint_active := False\<rparr>))"

definition RestoreStateForTransaction :: "Search \<Rightarrow> search_error + Search" where
  "RestoreStateForTransaction s = bind_result (QueueStateRestoreForTransaction s) CompleteStateRestoreForTransaction"

definition CommitStateForTransaction :: "Search \<Rightarrow> search_error + Search" where
  "CommitStateForTransaction s =
     (if \<not> transaction_checkpoint_active s \<or> transaction_restore_pending s then Inl checkpoint_not_active
      else Inr (s\<lparr>transaction_checkpoint_active := False\<rparr>))"

section \<open>A single sequence\<close>

text \<open>
  The Engine drives one search per request, with a batch of one. The buffer then stands for the list of its first
  \<open>current_length\<close> tokens, and the operations are list operations.
\<close>

definition search_ok :: "SearchParams \<Rightarrow> Search \<Rightarrow> bool" where
  "search_ok p s \<longleftrightarrow> batch_size p = 1 \<and> length (sequences s) = max_length p \<and> current_length s \<le> max_length p
     \<and> length (next_tokens s) = 1 \<and> length (eos_seen s) = 1"

definition seq_of :: "Search \<Rightarrow> token list" where
  "seq_of s = take (current_length s) (sequences s)"

text \<open>What a transaction saved, and the tokens below a position.\<close>

definition saved :: "Search \<Rightarrow> nat \<times> int list \<times> bool \<times> token list \<times> bool list \<times> int \<times> int list \<times> bool \<times> bool" where
  "saved s = (transaction_sequence_length s, transaction_sequence_lengths s, transaction_done s, transaction_next_tokens s,
     transaction_eos_seen s, transaction_not_done_count s, sequence_lengths s, transaction_checkpoint_active s,
     transaction_restore_pending s)"

definition keeps :: "nat \<Rightarrow> Search \<Rightarrow> Search \<Rightarrow> bool" where
  "keeps n s s' \<longleftrightarrow> take n (sequences s') = take n (sequences s) \<and> saved s' = saved s"

lemma keeps_refl [simp]: "keeps n s s"
  by (simp add: keeps_def)

lemma keeps_trans: "keeps n s1 s2 \<Longrightarrow> keeps n s2 s3 \<Longrightarrow> keeps n s1 s3"
  by (simp add: keeps_def)

lemma keeps_mono: "keeps n s1 s2 \<Longrightarrow> m \<le> n \<Longrightarrow> keeps m s1 s2"
  unfolding keeps_def by (metis min.absorb1 take_take)

lemma GetSequence_0: "GetSequence p 0 s = seq_of s"
  by (simp add: GetSequence_def seq_of_def)

lemma length_seq_of: "search_ok p s \<Longrightarrow> length (seq_of s) = current_length s"
  by (simp add: search_ok_def seq_of_def)

lemma ResetDone_facts:
  "search_ok p s \<Longrightarrow> search_ok p (ResetDone p s)" "seq_of (ResetDone p s) = seq_of s" "keeps n s (ResetDone p s)"
  "current_length (ResetDone p s) = current_length s" "\<not> search_done (ResetDone p s)"
  by (auto simp: ResetDone_def search_ok_def seq_of_def keeps_def saved_def)

text \<open>The bookkeeping of a search that has not seen an end-of-sequence token.\<close>

definition live :: "Search \<Rightarrow> bool" where
  "live s \<longleftrightarrow> \<not> search_done s \<and> not_done_count s = 1 \<and> eos_seen s = [False]"

lemma ResetDone_live: "search_ok p s \<Longrightarrow> live (ResetDone p s)"
  by (auto simp: live_def ResetDone_def search_ok_def)

lemma SetNextToken_one:
  assumes "search_ok p s"
  shows "SetNextToken p 0 t s = Inr (if t \<in> set (eos_token_id p)
      then s\<lparr>next_tokens := [t], eos_seen := [True], not_done_count := not_done_count s - 1,
             search_done := (search_done s \<or> not_done_count s = 1)\<rparr>
      else s\<lparr>next_tokens := [t]\<rparr>)"
proof -
  obtain x where x: "next_tokens s = [x]" using assms by (auto simp: search_ok_def length_Suc_conv)
  obtain b where b: "eos_seen s = [b]" using assms by (auto simp: search_ok_def length_Suc_conv)
  show ?thesis by (simp add: SetNextToken_def x b Let_def)
qed

lemma AppendNext_one:
  assumes "search_ok p s"
  shows "AppendNextTokensToSequences p s =
    (if current_length s = max_length p then Inl out_of_bounds
     else Inr (s\<lparr>sequences := (sequences s)[current_length s := hd (next_tokens s)], current_length := current_length s + 1,
        search_done := (search_done s \<or> current_length s + 1 = max_length p)\<rparr>))"
proof -
  obtain x where x: "next_tokens s = [x]" using assms by (auto simp: search_ok_def length_Suc_conv)
  show ?thesis
    using assms by (auto simp: AppendNextTokensToSequences_def search_ok_def write_token_def AfterAppendNextTokens_def x Let_def)
qed

lemma seq_append: "n < length xs \<Longrightarrow> take (Suc n) (xs[n := t]) = take n xs @ [t]"
  by (simp add: take_Suc_conv_app_nth)

text \<open>One appended token.\<close>

definition appended :: "SearchParams \<Rightarrow> token \<Rightarrow> Search \<Rightarrow> Search \<Rightarrow> bool" where
  "appended p t s s' \<longleftrightarrow> search_ok p s' \<and> seq_of s' = seq_of s @ [t] \<and> next_tokens s' = [t]
     \<and> current_length s' = current_length s + 1 \<and> keeps (current_length s) s s'"

lemma AppendNext_appended:
  assumes "search_ok p s" and "current_length s < max_length p"
  shows "\<exists>s'. AppendNextTokensToSequences p s = Inr s' \<and> appended p (hd (next_tokens s)) s s'
    \<and> search_done s' = (search_done s \<or> current_length s + 1 = max_length p)
    \<and> not_done_count s' = not_done_count s \<and> eos_seen s' = eos_seen s"
proof -
  obtain x where x: "next_tokens s = [x]" using assms by (auto simp: search_ok_def length_Suc_conv)
  show ?thesis
    using assms AppendNext_one[OF assms(1)] seq_append[of "current_length s" "sequences s" x]
    by (auto simp: appended_def search_ok_def seq_of_def keeps_def saved_def x)
qed

lemma CommitToken_spec:
  assumes ok: "search_ok p s" and live: "live s" and len: "current_length s < max_length p"
  shows "\<exists>s'. CommitToken p t s = Inr s' \<and>
    (if t \<in> set (eos_token_id p)
     then search_ok p s' \<and> seq_of s' = seq_of s \<and> current_length s' = current_length s \<and> next_tokens s' = [t] \<and> search_done s'
       \<and> keeps (current_length s) s s'
     else appended p t s s' \<and> not_done_count s' = 1 \<and> eos_seen s' = [False]
       \<and> search_done s' = (current_length s + 1 = max_length p))"
proof (cases "t \<in> set (eos_token_id p)")
  case True
  then show ?thesis
    using ok live by (auto simp: CommitToken_def SetNextToken_one[OF ok] live_def search_ok_def seq_of_def keeps_def saved_def)
next
  case False
  let ?s = "s\<lparr>next_tokens := [t]\<rparr>"
  have "search_ok p ?s" "current_length ?s < max_length p" using ok len by (auto simp: search_ok_def)
  from AppendNext_appended[OF this] False show ?thesis
    using live by (auto simp: CommitToken_def SetNextToken_one[OF ok] live_def appended_def seq_of_def keeps_def saved_def)
qed

lemma append_column_one:
  assumes ok: "search_ok p s" and len: "current_length s < max_length p"
  shows "\<exists>s'. append_column p ts n j s = Inr s' \<and> appended p (ts ! j) s s'"
proof -
  obtain s1 where s1: "SetNextToken p 0 (ts ! j) s = Inr s1" "search_ok p s1" "seq_of s1 = seq_of s"
    "next_tokens s1 = [ts ! j]" "current_length s1 = current_length s" "keeps (current_length s) s s1"
    using SetNextToken_one[OF ok, of "ts ! j"] ok by (auto simp: search_ok_def seq_of_def keeps_def saved_def)
  have b: "batch_size p = 1" using ok by (simp add: search_ok_def)
  have "current_length s1 < max_length p" using len s1 by simp
  from AppendNext_appended[OF s1(2) this] obtain s2 where "AppendNextTokensToSequences p s1 = Inr s2"
    "appended p (hd (next_tokens s1)) s1 s2" by blast
  then show ?thesis using s1 b by (auto simp: append_column_def appended_def dest: keeps_trans)
qed

lemma append_columns:
  assumes "search_ok p s" and "current_length s + n \<le> max_length p" and "n \<le> length ts"
  shows "\<exists>s'. run_result (append_column p ts k) [0..<n] s = Inr s' \<and> search_ok p s' \<and> seq_of s' = seq_of s @ take n ts
    \<and> current_length s' = current_length s + n \<and> keeps (current_length s) s s'
    \<and> next_tokens s' = (if n = 0 then next_tokens s else [ts ! (n - 1)])"
  using assms
proof (induction n)
  case (Suc n)
  then obtain s1 where s1: "run_result (append_column p ts k) [0..<n] s = Inr s1" "search_ok p s1"
    "seq_of s1 = seq_of s @ take n ts" "current_length s1 = current_length s + n" "keeps (current_length s) s s1" by auto
  have "current_length s1 < max_length p" using s1 Suc.prems by simp
  from append_column_one[OF s1(2) this, of ts k n] obtain s2 where s2: "append_column p ts k n s1 = Inr s2" "appended p (ts ! n) s1 s2"
    by blast
  have "keeps (current_length s) s s2"
    using s1(4,5) s2(2) keeps_mono[of "current_length s1" s1 s2 "current_length s"] by (auto simp: appended_def dest: keeps_trans)
  then show ?case
    using s1 s2 Suc.prems by (auto simp: run_result_append appended_def take_Suc_conv_app_nth)
qed simp

lemma AppendTokens_spec:
  assumes ok: "search_ok p s" and len: "current_length s + length ts \<le> max_length p"
  shows "\<exists>s'. AppendTokens p ts s = Inr s' \<and> search_ok p s' \<and> live s' \<and> seq_of s' = seq_of s @ ts
    \<and> current_length s' = current_length s + length ts \<and> keeps (current_length s) s s'"
proof -
  have b: "batch_size p = 1" using ok by (simp add: search_ok_def)
  from append_columns[OF ok len order_refl, of "length ts"] obtain s1 where s1:
    "run_result (append_column p ts (length ts)) [0..<length ts] s = Inr s1" "search_ok p s1" "seq_of s1 = seq_of s @ ts"
    "current_length s1 = current_length s + length ts" "keeps (current_length s) s s1" by auto
  then show ?thesis
    using ResetDone_facts[where p = p and s = s1] ResetDone_live[of p s1] b keeps_trans[of "current_length s" s s1]
    by (auto simp: AppendTokens_def Let_def)
qed

lemma RewindTo_spec:
  assumes ok: "search_ok p s" and idx: "index \<le> current_length s" "index < max_length p"
  shows "\<exists>s'. RewindTo p index s = Inr s' \<and> search_ok p s' \<and> live s' \<and> seq_of s' = take index (seq_of s)
    \<and> current_length s' = index \<and> keeps index s s'
    \<and> next_tokens s' = [if 0 < index then sequences s ! index else 0]"
proof -
  obtain x where x: "next_tokens s = [x]" using ok by (auto simp: search_ok_def length_Suc_conv)
  obtain b where b: "eos_seen s = [b]" using ok by (auto simp: search_ok_def length_Suc_conv)
  show ?thesis
    using ok idx by (auto simp: RewindTo_def reload_token_def ResetDone_def search_ok_def live_def seq_of_def keeps_def saved_def x b Let_def)
qed

lemma select_with_one:
  assumes ok: "search_ok p s" and live: "live s" and pick: "pick 0 r = Inr (t, r')"
  shows "select_with p pick s r = bind_result (CommitToken p t s) (\<lambda>s'. Inr (s', r'))"
proof -
  have b: "batch_size p = 1" using ok by (simp add: search_ok_def)
  have e: "\<not> eos_seen s ! 0" using live by (simp add: live_def)
  show ?thesis
    using SetNextToken_one[OF ok, of t]
    by (auto simp: select_with_def b select_row_def PadIfAlreadyEOS_def e pick CommitToken_def split: if_splits)
qed

section \<open>Sequences with rewind\<close>

text \<open>
  The contract that the owners of a search rely on: it holds a list of tokens, appending extends the list and rewinding
  cuts it. Speculative drafts are appended and rewound under this contract.
\<close>

locale token_sequence =
  fixes ok :: "'s \<Rightarrow> bool"
    and contents :: "'s \<Rightarrow> 'a list"
    and capacity :: nat
    and append :: "'a list \<Rightarrow> 's \<Rightarrow> 'e + 's"
    and rewind :: "nat \<Rightarrow> 's \<Rightarrow> 'e + 's"
  assumes append_law: "ok s \<Longrightarrow> length (contents s) + length xs \<le> capacity
      \<Longrightarrow> \<exists>s'. append xs s = Inr s' \<and> ok s' \<and> contents s' = contents s @ xs"
    and rewind_law: "ok s \<Longrightarrow> n \<le> length (contents s) \<Longrightarrow> n < capacity
      \<Longrightarrow> \<exists>s'. rewind n s = Inr s' \<and> ok s' \<and> contents s' = take n (contents s)"
begin

text \<open>Staged tokens of which a prefix is kept.\<close>

lemma keep_prefix:
  assumes "ok s" and "length (contents s) + length xs \<le> capacity" and "k \<le> length xs" and "length (contents s) + k < capacity"
  shows "\<exists>s1 s2. append xs s = Inr s1 \<and> rewind (length (contents s) + k) s1 = Inr s2 \<and> ok s2 \<and> contents s2 = contents s @ take k xs"
proof -
  obtain s1 where s1: "append xs s = Inr s1" "ok s1" "contents s1 = contents s @ xs" using append_law[OF assms(1,2)] by blast
  have "length (contents s) + k \<le> length (contents s1)" using s1(3) assms(3) by simp
  from rewind_law[OF s1(2) this assms(4)] s1 show ?thesis by auto
qed

lemma append_append:
  assumes "ok s" and "length (contents s) + length xs + length ys \<le> capacity"
  shows "\<exists>s1 s2. append xs s = Inr s1 \<and> append ys s1 = Inr s2 \<and> ok s2 \<and> contents s2 = contents s @ xs @ ys"
proof -
  have "length (contents s) + length xs \<le> capacity" using assms(2) by simp
  then obtain s1 where s1: "append xs s = Inr s1" "ok s1" "contents s1 = contents s @ xs" using append_law[OF assms(1)] by blast
  have "length (contents s1) + length ys \<le> capacity" using assms(2) s1(3) by simp
  from append_law[OF s1(2) this] s1 show ?thesis by auto
qed

end

interpretation greedy: token_sequence "search_ok p" "GetSequence p 0" "max_length p" "AppendTokens p" "RewindTo p"
  for p
proof
  show "\<exists>s'. AppendTokens p xs s = Inr s' \<and> search_ok p s' \<and> GetSequence p 0 s' = GetSequence p 0 s @ xs"
    if "search_ok p s" "length (GetSequence p 0 s) + length xs \<le> max_length p" for s xs
    using AppendTokens_spec[OF that(1), of xs] that length_seq_of[OF that(1)] by (auto simp: GetSequence_0)
  show "\<exists>s'. RewindTo p n s = Inr s' \<and> search_ok p s' \<and> GetSequence p 0 s' = take n (GetSequence p 0 s)"
    if "search_ok p s" "n \<le> length (GetSequence p 0 s)" "n < max_length p" for s n
    using RewindTo_spec[OF that(1), of n] that length_seq_of[OF that(1)] by (auto simp: GetSequence_0)
qed

section \<open>Properties\<close>

lemma new_search_ok:
  "batch_size p = 1 \<Longrightarrow> length memory = max_length p \<Longrightarrow> search_ok p (new_search p memory lengths) \<and> live (new_search p memory lengths)
    \<and> seq_of (new_search p memory lengths) = []"
  by (simp add: search_ok_def new_search_def live_def seq_of_def)

text \<open>
  C39. On a single sequence the flat buffer behaves as a list with room for \<open>max_length\<close> tokens: drafts appended within
  the capacity and then rewound leave exactly the kept prefix; committing a chosen token appends it, marks the search done
  when the buffer is then full, and does neither for an end-of-sequence token, which only marks it done. No access leaves
  the buffer.
\<close>

theorem greedy_search_refines_list:
  assumes "search_ok p s" and "k \<le> length drafts" and "length (GetSequence p 0 s) + length drafts < max_length p"
  shows "\<exists>s1 s2 s3. AppendTokens p drafts s = Inr s1 \<and> GetSequence p 0 s1 = GetSequence p 0 s @ drafts
    \<and> RewindTo p (length (GetSequence p 0 s) + k) s1 = Inr s2 \<and> GetSequence p 0 s2 = GetSequence p 0 s @ take k drafts
    \<and> CommitToken p t s2 = Inr s3 \<and> search_ok p s3
    \<and> (if t \<in> set (eos_token_id p) then GetSequence p 0 s3 = GetSequence p 0 s2 \<and> search_done s3
       else GetSequence p 0 s3 = GetSequence p 0 s2 @ [t] \<and> search_done s3 = (length (GetSequence p 0 s2) + 1 = max_length p))"
proof -
  have len: "length (GetSequence p 0 s) = current_length s" using length_seq_of[OF assms(1)] by (simp add: GetSequence_0)
  obtain s1 where s1: "AppendTokens p drafts s = Inr s1" "search_ok p s1" "seq_of s1 = seq_of s @ drafts"
    "current_length s1 = current_length s + length drafts"
    using AppendTokens_spec[OF assms(1), of drafts] assms(3) len by auto
  obtain s2 where s2: "RewindTo p (current_length s + k) s1 = Inr s2" "search_ok p s2" "live s2"
    "seq_of s2 = take (current_length s + k) (seq_of s1)" "current_length s2 = current_length s + k"
    using RewindTo_spec[OF s1(2), of "current_length s + k"] s1(4) assms(2,3) len by auto
  have q2: "seq_of s2 = seq_of s @ take k drafts" using s2(4) s1(3) length_seq_of[OF assms(1)] by simp
  have "current_length s2 < max_length p" using s2(5) assms(2,3) len by simp
  from CommitToken_spec[OF s2(2,3) this, of t] obtain s3 where s3: "CommitToken p t s2 = Inr s3" "search_ok p s3"
    "if t \<in> set (eos_token_id p) then seq_of s3 = seq_of s2 \<and> search_done s3
     else seq_of s3 = seq_of s2 @ [t] \<and> search_done s3 = (current_length s2 + 1 = max_length p)"
    by (auto simp: appended_def split: if_splits)
  show ?thesis
    unfolding GetSequence_0 len[unfolded GetSequence_0]
    by (rule exI[of _ s1], rule exI[of _ s2], rule exI[of _ s3])
      (use s1(1,3) s2(1) q2 s3 length_seq_of[OF s2(2)] in \<open>simp only: simp_thms\<close>)
qed

definition example_params :: SearchParams where
  "example_params = \<lparr>batch_size = 1, max_length = 6, eos_token_id = [2], pad_token_id = 0\<rparr>"

theorem greedy_search_refines_list_witness:
  "\<exists>s1 s2 s3. AppendTokens example_params [7, 8, 9] (new_search example_params [0, 0, 0, 0, 0, 0] [0]) = Inr s1
    \<and> RewindTo example_params 1 s1 = Inr s2 \<and> CommitToken example_params 5 s2 = Inr s3
    \<and> GetSequence example_params 0 s3 = [7, 5]"
proof -
  let ?s = "new_search example_params [0, 0, 0, 0, 0, 0] [0]"
  have ok: "search_ok example_params ?s" and e: "GetSequence example_params 0 ?s = []"
    using new_search_ok[of example_params "[0, 0, 0, 0, 0, 0]" "[0]"] by (simp_all add: example_params_def GetSequence_0)
  have m: "max_length example_params = 6" and eos: "eos_token_id example_params = [2]" by (simp_all add: example_params_def)
  have "length (GetSequence example_params 0 ?s) + length [7, 8, 9 :: token] < max_length example_params" using e m by simp
  from greedy_search_refines_list[OF ok _ this, of 1 5] show ?thesis unfolding e by (auto simp: eos)
qed

text \<open>The operations a transaction may perform; rewinding never goes below the transaction's start.\<close>

datatype search_op = AppendOp "token list" | CommitOp token | RewindOp nat

fun search_step :: "SearchParams \<Rightarrow> search_op \<Rightarrow> Search \<Rightarrow> search_error + Search" where
  "search_step p (AppendOp ts) s = AppendTokens p ts s"
| "search_step p (CommitOp t) s = CommitToken p t s"
| "search_step p (RewindOp n) s = RewindTo p n s"

fun stays_above :: "nat \<Rightarrow> search_op \<Rightarrow> bool" where
  "stays_above n (RewindOp k) = (n \<le> k)"
| "stays_above n _ = True"

lemma CommitToken_keeps:
  assumes ok: "search_ok p s" and c: "CommitToken p t s = Inr s'"
  shows "search_ok p s' \<and> keeps (current_length s) s s' \<and> current_length s \<le> current_length s'"
proof -
  obtain s1 where s1: "SetNextToken p 0 t s = Inr s1" "search_ok p s1" "keeps (current_length s) s s1"
    "current_length s1 = current_length s" "sequences s1 = sequences s"
    using SetNextToken_one[OF ok, of t] ok by (auto simp: search_ok_def keeps_def saved_def)
  show ?thesis
  proof (cases "search_done s1")
    case True
    then show ?thesis using c s1 by (simp add: CommitToken_def)
  next
    case False
    then have a: "AppendNextTokensToSequences p s1 = Inr s'" using c s1 by (simp add: CommitToken_def)
    then have "current_length s1 < max_length p"
      using AppendNext_one[OF s1(2)] s1(2) by (auto simp: search_ok_def split: if_splits)
    from AppendNext_appended[OF s1(2) this] a s1 show ?thesis by (auto simp: appended_def intro: keeps_trans)
  qed
qed

lemma append_columns_too_many:
  "search_ok p s \<Longrightarrow> max_length p < current_length s + n \<Longrightarrow> n \<le> length ts
    \<Longrightarrow> run_result (append_column p ts k) [0..<n] s = Inl out_of_bounds"
proof (induction n)
  case 0
  then show ?case by (simp add: search_ok_def)
next
  case (Suc n)
  show ?case
  proof (cases "max_length p < current_length s + n")
    case True
    then show ?thesis using Suc by (simp add: run_result_append)
  next
    case False
    then obtain s1 where s1: "run_result (append_column p ts k) [0..<n] s = Inr s1" "search_ok p s1"
      "current_length s1 = current_length s + n"
      using append_columns[OF Suc.prems(1), of n ts k] Suc.prems by auto
    then have full: "current_length s1 = max_length p" using False Suc.prems(2) by simp
    obtain s2 where s2: "SetNextToken p 0 (ts ! n) s1 = Inr s2" "search_ok p s2" "current_length s2 = current_length s1"
      using SetNextToken_one[OF s1(2), of "ts ! n"] s1(2) by (auto simp: search_ok_def)
    have "append_column p ts k n s1 = Inl out_of_bounds"
      using s2 full AppendNext_one[OF s2(2)] s1(2) by (simp add: append_column_def search_ok_def)
    then show ?thesis using s1 by (simp add: run_result_append)
  qed
qed

lemma AppendTokens_keeps:
  assumes ok: "search_ok p s" and a: "AppendTokens p ts s = Inr s'"
  shows "search_ok p s' \<and> keeps (current_length s) s s' \<and> current_length s \<le> current_length s'"
proof -
  have b: "batch_size p = 1" using ok by (simp add: search_ok_def)
  have "current_length s + length ts \<le> max_length p"
    using a append_columns_too_many[OF ok, of "length ts" ts "length ts"] b
    by (cases "current_length s + length ts \<le> max_length p") (auto simp: AppendTokens_def Let_def)
  from AppendTokens_spec[OF ok this] a show ?thesis by auto
qed

lemma RewindTo_keeps:
  assumes ok: "search_ok p s" and r: "RewindTo p n s = Inr s'"
  shows "search_ok p s' \<and> keeps m s s' \<and> current_length s' = n"
proof -
  obtain x where x: "next_tokens s = [x]" using ok by (auto simp: search_ok_def length_Suc_conv)
  obtain b where b: "eos_seen s = [b]" using ok by (auto simp: search_ok_def length_Suc_conv)
  show ?thesis
    using assms by (auto simp: RewindTo_def reload_token_def ResetDone_def search_ok_def keeps_def saved_def x b Let_def split: if_splits)
qed

lemma search_step_keeps:
  assumes ok: "search_ok p s" and n: "n \<le> current_length s" and step: "search_step p op s = Inr s'" and a: "stays_above n op"
  shows "search_ok p s' \<and> n \<le> current_length s' \<and> keeps n s s'"
proof (cases op)
  case (AppendOp ts)
  then show ?thesis using AppendTokens_keeps[OF ok, of ts s'] step n keeps_mono[of "current_length s" s s' n] by auto
next
  case (CommitOp t)
  then show ?thesis using CommitToken_keeps[OF ok, of t s'] step n keeps_mono[of "current_length s" s s' n] by auto
next
  case (RewindOp k)
  then show ?thesis using RewindTo_keeps[OF ok, of k s' n] step a by auto
qed

lemma restore_spec:
  assumes start: "SaveStateForTransaction s = Inr s1" and ok: "search_ok p s" "search_ok p s2"
    and keep: "keeps (current_length s) s1 s2" and pend: "\<not> transaction_restore_pending s"
  shows "\<exists>s3. RestoreStateForTransaction s2 = Inr s3 \<and> seq_of s3 = seq_of s \<and> current_length s3 = current_length s
    \<and> next_tokens s3 = next_tokens s \<and> eos_seen s3 = eos_seen s \<and> not_done_count s3 = not_done_count s
    \<and> search_done s3 = search_done s \<and> sequence_lengths s3 = sequence_lengths s \<and> search_ok p s3
    \<and> \<not> transaction_checkpoint_active s3 \<and> \<not> transaction_restore_pending s3"
  using assms
  by (auto simp: SaveStateForTransaction_def StartTransactionCheckpoint_def SaveStateForTransactionImpl_def keeps_def saved_def
      RestoreStateForTransaction_def QueueStateRestoreForTransaction_def RestoreStateForTransactionImpl_def
      CompleteStateRestoreForTransaction_def seq_of_def search_ok_def split: if_splits)

text \<open>The search provides the contract of transactions; its work never goes below the length at the start.\<close>

definition search_work :: "SearchParams \<Rightarrow> Search \<Rightarrow> Search \<Rightarrow> Search \<Rightarrow> bool" where
  "search_work p s0 s s' \<longleftrightarrow> (\<exists>op. stays_above (current_length s0) op \<and> search_step p op s = Inr s')"

definition search_state :: "Search \<Rightarrow> token list \<times> token list \<times> bool list \<times> int \<times> bool" where
  "search_state s = (seq_of s, next_tokens s, eos_seen s, not_done_count s, search_done s)"

lemma search_work_keeps:
  assumes "(search_work p s0)\<^sup>*\<^sup>* s s'" and "search_ok p s" and "current_length s0 \<le> current_length s"
  shows "search_ok p s' \<and> current_length s0 \<le> current_length s' \<and> keeps (current_length s0) s s'"
  using assms(1)
proof (induction rule: rtranclp_induct)
  case (step s1 s2)
  then obtain op where "stays_above (current_length s0) op" "search_step p op s1 = Inr s2" by (auto simp: search_work_def)
  with step.IH search_step_keeps[of p s1 "current_length s0" op s2] show ?case by (auto intro: keeps_trans)
qed (use assms in simp)

lemma save_facts:
  assumes "SaveStateForTransaction s = Inr s1" and "search_ok p s"
  shows "search_ok p s1" and "current_length s1 = current_length s"
  using assms
  by (auto simp: SaveStateForTransaction_def StartTransactionCheckpoint_def SaveStateForTransactionImpl_def search_ok_def split: if_splits)

interpretation search_transaction: rollback_transaction "\<lambda>s. search_ok p s \<and> \<not> transaction_restore_pending s" search_state
  SaveStateForTransaction "search_work p" RestoreStateForTransaction
proof unfold_locales
  fix s s1 s2
  assume s: "search_ok p s \<and> \<not> transaction_restore_pending s" and save: "SaveStateForTransaction s = Inr s1"
    and work: "(search_work p s)\<^sup>*\<^sup>* s1 s2"
  have k: "search_ok p s2" "keeps (current_length s) s1 s2"
    using search_work_keeps[OF work] save_facts[OF save] s by auto
  from restore_spec[OF save _ k] s show "\<exists>s3. RestoreStateForTransaction s2 = Inr s3 \<and> (search_ok p s3 \<and> \<not> transaction_restore_pending s3)
      \<and> search_state s3 = search_state s" by (auto simp: search_state_def)
qed

text \<open>A list of operations is work.\<close>

lemma search_run_works:
  "run_result (search_step p) ops s = Inr s' \<Longrightarrow> list_all (stays_above (current_length s0)) ops \<Longrightarrow> (search_work p s0)\<^sup>*\<^sup>* s s'"
proof (induction ops arbitrary: s)
  case (Cons op ops)
  then obtain s1 where s1: "search_step p op s = Inr s1" "run_result (search_step p) ops s1 = Inr s'" by (auto simp: bind_result_Inr_iff)
  have "search_work p s0 s s1" using s1(1) Cons.prems(2) unfolding search_work_def by auto
  moreover have "(search_work p s0)\<^sup>*\<^sup>* s1 s'" using Cons.IH[OF s1(2)] Cons.prems(2) by simp
  ultimately show ?case by (rule converse_rtranclp_into_rtranclp)
qed simp

lemma restored_reusable: "RestoreStateForTransaction s = Inr s3 \<Longrightarrow> \<exists>s4. SaveStateForTransaction s3 = Inr s4"
  by (auto simp: RestoreStateForTransaction_def QueueStateRestoreForTransaction_def CompleteStateRestoreForTransaction_def
      SaveStateForTransaction_def StartTransactionCheckpoint_def bind_result_Inr_iff split: if_splits)

text \<open>
  Rolling back a search transaction restores the search exactly: after any appends, committed tokens and rewinds that
  do not go below the length at which the transaction started, restoring gives back the tokens, the next token, the
  end-of-sequence flags and counters and the done flag of that moment, although only the length and not the tokens were
  saved; and a new transaction can start.
\<close>

theorem search_transaction_restores:
  assumes "search_ok p s" and "\<not> transaction_restore_pending s"
    and "SaveStateForTransaction s = Inr s1"
    and "run_result (search_step p) ops s1 = Inr s2" and "list_all (stays_above (current_length s)) ops"
  shows "\<exists>s3 s4. RestoreStateForTransaction s2 = Inr s3 \<and> GetSequence p 0 s3 = GetSequence p 0 s
    \<and> next_tokens s3 = next_tokens s \<and> eos_seen s3 = eos_seen s \<and> not_done_count s3 = not_done_count s
    \<and> search_done s3 = search_done s \<and> SaveStateForTransaction s3 = Inr s4"
proof -
  have "search_ok p s \<and> \<not> transaction_restore_pending s" using assms(1,2) by blast
  from search_transaction.rolls_back[OF this assms(3) search_run_works[OF assms(4,5)]]
  show ?thesis using restored_reusable by (auto simp: search_state_def GetSequence_0)
qed

theorem search_transaction_restores_witness:
  "\<exists>s1 s2 s3. AppendTokens example_params [7] (new_search example_params [0, 0, 0, 0, 0, 0] [0]) = Inr s1
    \<and> bind_result (SaveStateForTransaction s1) (run_result (search_step example_params) [AppendOp [8, 9], RewindOp 2, CommitOp 2]) = Inr s2
    \<and> RestoreStateForTransaction s2 = Inr s3 \<and> GetSequence example_params 0 s3 = [7]"
proof -
  let ?s = "new_search example_params [0, 0, 0, 0, 0, 0] [0]"
  have ok: "search_ok example_params ?s" and e: "seq_of ?s = []"
    using new_search_ok[of example_params "[0, 0, 0, 0, 0, 0]" "[0]"] by (simp_all add: example_params_def)
  obtain s1 where s1: "AppendTokens example_params [7] ?s = Inr s1" "search_ok example_params s1" "seq_of s1 = [7]"
    "current_length s1 = 1" "keeps 0 ?s s1"
    using AppendTokens_spec[OF ok, of "[7]"] e by (auto simp: example_params_def new_search_def)
  have p: "\<not> transaction_restore_pending s1" "\<not> transaction_checkpoint_active s1"
    using s1(5) by (auto simp: keeps_def saved_def new_search_def)
  obtain s2 where save: "SaveStateForTransaction s1 = Inr s2"
    using p by (simp add: SaveStateForTransaction_def StartTransactionCheckpoint_def)
  then have s2: "search_ok example_params s2" "current_length s2 = 1"
    using s1 by (auto simp: SaveStateForTransaction_def StartTransactionCheckpoint_def SaveStateForTransactionImpl_def search_ok_def split: if_splits)
  have m: "max_length example_params = 6" by (simp add: example_params_def)
  obtain s3 where s3: "AppendTokens example_params [8, 9] s2 = Inr s3" "search_ok example_params s3" "current_length s3 = 3"
    using AppendTokens_spec[OF s2(1), of "[8, 9]"] s2(2) m by auto
  obtain s4 where s4: "RewindTo example_params 2 s3 = Inr s4" "search_ok example_params s4" "live s4" "current_length s4 = 2"
    using RewindTo_spec[OF s3(2), of 2] s3(3) m by auto
  obtain s5 where s5: "CommitToken example_params 2 s4 = Inr s5"
    using CommitToken_spec[OF s4(2,3), of 2] s4(4) m by auto
  have run: "run_result (search_step example_params) [AppendOp [8, 9], RewindOp 2, CommitOp 2] s2 = Inr s5"
    using s3(1) s4(1) s5 by simp
  from search_transaction_restores[OF s1(2) p(1) save run] s1(4) obtain s6 where "RestoreStateForTransaction s5 = Inr s6"
    "GetSequence example_params 0 s6 = GetSequence example_params 0 s1" by auto
  then show ?thesis using s1(1,3) save run by (auto simp: GetSequence_0)
qed

end
