(* ===== verification/Logits_Penalty.thy ===== *)
theory Logits_Penalty
  imports Prelude
begin

text \<open>
  Penalties on a row of logits (\<open>sampling_distribution.h\<close>) and their use by the CPU search (\<open>search.cpp\<close>): masking the
  end-of-sequence tokens below a minimum length, the repetition penalty and the ban on repeated n-grams.

  A logit has an arbitrary type; the float operations the code performs on it are parameters: the lowest value and the
  scaling \<open>score < 0 ? score * penalty : score / penalty\<close> under the penalty in force.
\<close>

section \<open>One row\<close>

definition put_logit :: "token \<Rightarrow> 'f \<Rightarrow> 'f list \<Rightarrow> 'f list" where
  "put_logit t v logits = (if 0 \<le> t \<and> t < int (length logits) then logits[nat t := v] else logits)"

definition ApplyMinLengthToLogits :: "'f \<Rightarrow> int \<Rightarrow> int \<Rightarrow> token list \<Rightarrow> 'f list \<Rightarrow> 'f list" where
  "ApplyMinLengthToLogits lowest current_length min_length eos_token_ids logits =
     (if min_length \<le> current_length then logits
      else fold (\<lambda>eos. put_logit eos lowest) eos_token_ids logits)"

text \<open>The pass that scales: \<open>visited\<close> is the scratch buffer of flags, at least as long as the row.\<close>

fun penalty_pass :: "('f \<Rightarrow> 'f) \<Rightarrow> token list \<Rightarrow> 'f list \<Rightarrow> bool list \<Rightarrow> 'f list \<times> bool list" where
  "penalty_pass scale [] logits visited = (logits, visited)"
| "penalty_pass scale (word_id # ids) logits visited =
     (if 0 \<le> word_id \<and> word_id < int (length logits) \<and> \<not> visited ! nat word_id
      then penalty_pass scale ids (logits[nat word_id := scale (logits ! nat word_id)]) (visited[nat word_id := True])
      else penalty_pass scale ids logits visited)"

definition reset_visited :: "nat \<Rightarrow> token list \<Rightarrow> bool list \<Rightarrow> bool list" where
  "reset_visited vocab_size ids visited =
     fold (\<lambda>word_id v. if 0 \<le> word_id \<and> word_id < int vocab_size then v[nat word_id := False] else v) ids visited"

definition ApplyRepetitionPenaltyToLogits ::
  "bool \<Rightarrow> ('f \<Rightarrow> 'f) \<Rightarrow> token list \<Rightarrow> 'f list \<Rightarrow> bool list \<Rightarrow> 'f list \<times> bool list" where
  "ApplyRepetitionPenaltyToLogits penalty_is_one scale ids logits visited =
     (if penalty_is_one then (logits, visited)
      else let visited1 = (if length visited < length logits then replicate (length logits) False else visited);
               (logits1, visited2) = penalty_pass scale ids logits visited1
           in (logits1, reset_visited (length logits) ids visited2))"

definition ngram_matches :: "token list \<Rightarrow> nat \<Rightarrow> nat \<Rightarrow> bool" where
  "ngram_matches ids k start \<longleftrightarrow> take k (drop start ids) = drop (length ids - k) ids"

definition ApplyNoRepeatNgramToLogits :: "'f \<Rightarrow> token list \<Rightarrow> int \<Rightarrow> 'f list \<Rightarrow> 'f list" where
  "ApplyNoRepeatNgramToLogits lowest ids ngram_size logits =
     (if ngram_size \<le> 0 \<or> length ids < nat ngram_size then logits
      else let k = nat (ngram_size - 1); last_start = length ids - nat ngram_size
           in fold (\<lambda>start l. if ngram_matches ids k start then put_logit (ids ! (start + k)) lowest l else l)
                [0..<last_start + 1] logits)"

section \<open>The processor of speculative decoding\<close>

record LogitsPenaltyProcessor =
  pen_repetition_is_one :: bool
  pen_min_length :: int
  pen_no_repeat_ngram_size :: int
  pen_eos_token_ids :: "token list"
  pen_active :: bool
  pen_visited :: "bool list"

definition new_penalty_processor :: "bool \<Rightarrow> int \<Rightarrow> int \<Rightarrow> token list \<Rightarrow> LogitsPenaltyProcessor" where
  "new_penalty_processor repetition_is_one min_length no_repeat_ngram_size eos_token_ids =
     \<lparr>pen_repetition_is_one = repetition_is_one, pen_min_length = min_length,
      pen_no_repeat_ngram_size = no_repeat_ngram_size, pen_eos_token_ids = eos_token_ids,
      pen_active = (\<not> repetition_is_one \<or> 0 < min_length \<or> 0 < no_repeat_ngram_size), pen_visited = []\<rparr>"

definition Apply :: "'f \<Rightarrow> ('f \<Rightarrow> 'f) \<Rightarrow> 'f list \<Rightarrow> int \<Rightarrow> token list \<Rightarrow> LogitsPenaltyProcessor
    \<Rightarrow> 'f list \<times> LogitsPenaltyProcessor" where
  "Apply lowest scale logits current_length ids p =
     (if \<not> pen_active p then (logits, p)
      else let l1 = ApplyMinLengthToLogits lowest current_length (pen_min_length p) (pen_eos_token_ids p) logits;
               (l2, visited) = ApplyRepetitionPenaltyToLogits (pen_repetition_is_one p) scale ids l1 (pen_visited p)
           in (ApplyNoRepeatNgramToLogits lowest ids (pen_no_repeat_ngram_size p) l2, p\<lparr>pen_visited := visited\<rparr>))"

section \<open>The rows of a search\<close>

text \<open>The part of \<open>Search_Cpu\<close> that the scoring features read and write: one row of logits and one sequence per beam.\<close>

record 'f ScoreState =
  score_rows :: "'f list list"
  score_sequences :: "token list list"
  score_length :: int
  score_visited :: "bool list"

definition ApplyMinLength :: "'f \<Rightarrow> token list \<Rightarrow> int \<Rightarrow> int option \<Rightarrow> 'f ScoreState \<Rightarrow> 'f ScoreState" where
  "ApplyMinLength lowest eos_token_ids min_length sequence_length s =
     (let len = (case sequence_length of None \<Rightarrow> score_length s | Some l \<Rightarrow> l)
      in if min_length \<le> len then s
         else s\<lparr>score_rows := map (ApplyMinLengthToLogits lowest len min_length eos_token_ids) (score_rows s)\<rparr>)"

fun penalty_rows :: "('f \<Rightarrow> 'f) \<Rightarrow> 'f list list \<Rightarrow> token list list \<Rightarrow> bool list \<Rightarrow> 'f list list \<times> bool list" where
  "penalty_rows scale (row # rows) (ids # idss) visited =
     (let (row1, visited1) = ApplyRepetitionPenaltyToLogits False scale ids row visited;
          (rows1, visited2) = penalty_rows scale rows idss visited1
      in (row1 # rows1, visited2))"
| "penalty_rows scale rows _ visited = (rows, visited)"

definition ApplyRepetitionPenalty :: "bool \<Rightarrow> ('f \<Rightarrow> 'f) \<Rightarrow> 'f ScoreState \<Rightarrow> 'f ScoreState" where
  "ApplyRepetitionPenalty penalty_is_one scale s =
     (if penalty_is_one then s
      else let (rows, visited) = penalty_rows scale (score_rows s) (score_sequences s) (score_visited s)
           in s\<lparr>score_rows := rows, score_visited := visited\<rparr>)"

text \<open>The comparison loop over the prefix, which stops at the first difference.\<close>

fun prefix_loop :: "token list \<Rightarrow> token list \<Rightarrow> nat \<Rightarrow> nat \<Rightarrow> nat \<Rightarrow> bool" where
  "prefix_loop sequence target start j 0 = True"
| "prefix_loop sequence target start j (Suc n) =
     (if sequence ! (start + j) \<noteq> target ! j then False else prefix_loop sequence target start (j + 1) n)"

definition ban_row :: "'f \<Rightarrow> int \<Rightarrow> int \<Rightarrow> token list \<Rightarrow> 'f list \<Rightarrow> 'f list" where
  "ban_row lowest ngram_size sequence_length sequence row =
     (let prefix_length = nat (ngram_size - 1);
          target_prefix = take prefix_length (drop (nat sequence_length - prefix_length) sequence);
          last_start = sequence_length - ngram_size
      in fold (\<lambda>start l.
           if prefix_loop sequence target_prefix start 0 prefix_length
           then put_logit (sequence ! (start + prefix_length)) lowest l else l) [0..<nat (last_start + 1)] row)"

definition ApplyNoRepeatNgram :: "'f \<Rightarrow> int \<Rightarrow> 'f ScoreState \<Rightarrow> 'f ScoreState" where
  "ApplyNoRepeatNgram lowest ngram_size s =
     (if ngram_size \<le> 0 \<or> score_length s < ngram_size then s
      else s\<lparr>score_rows := map2 (ban_row lowest ngram_size (score_length s)) (score_sequences s) (score_rows s)\<rparr>)"

section \<open>What the penalties do to a logit\<close>

lemma put_logit_length [simp]: "length (put_logit t v l) = length l"
  by (simp add: put_logit_def)

lemma put_logit_nth: "i < length l \<Longrightarrow> put_logit t v l ! i = (if int i = t then v else l ! i)"
  by (auto simp: put_logit_def nth_list_update)

lemma fold_put_logit:
  assumes "i < length l"
  shows "fold (\<lambda>t. put_logit t v) ts l ! i = (if int i \<in> set ts then v else l ! i) \<and> length (fold (\<lambda>t. put_logit t v) ts l) = length l"
  using assms by (induction ts arbitrary: l) (auto simp: put_logit_nth)

lemma fold_put_logit_if:
  "fold (\<lambda>x l. if P x then put_logit (f x) v l else l) xs l = fold (\<lambda>t. put_logit t v) (map f (filter P xs)) l"
  by (induction xs arbitrary: l) auto

lemma penalty_pass_spec:
  assumes "length logits \<le> length visited"
  shows "length (fst (penalty_pass scale ids logits visited)) = length logits
    \<and> length (snd (penalty_pass scale ids logits visited)) = length visited
    \<and> (\<forall>i < length logits. fst (penalty_pass scale ids logits visited) ! i
         = (if int i \<in> set ids \<and> \<not> visited ! i then scale (logits ! i) else logits ! i))
    \<and> (\<forall>i < length visited. snd (penalty_pass scale ids logits visited) ! i
         = (visited ! i \<or> int i \<in> set ids \<and> i < length logits))"
  using assms
proof (induction scale ids logits visited rule: penalty_pass.induct)
  case (2 scale w ids logits visited)
  show ?case
  proof (cases "0 \<le> w \<and> w < int (length logits) \<and> \<not> visited ! nat w")
    case True
    then obtain n where n: "w = int n" "n < length logits" "\<not> visited ! n" by (metis nat_0_le nat_int zless_nat_eq_int_zless)
    have IH: "length (fst (penalty_pass scale ids (logits[n := scale (logits ! n)]) (visited[n := True]))) = length logits
      \<and> length (snd (penalty_pass scale ids (logits[n := scale (logits ! n)]) (visited[n := True]))) = length visited
      \<and> (\<forall>i < length logits. fst (penalty_pass scale ids (logits[n := scale (logits ! n)]) (visited[n := True])) ! i
         = (if int i \<in> set ids \<and> \<not> visited[n := True] ! i then scale (logits[n := scale (logits ! n)] ! i)
            else logits[n := scale (logits ! n)] ! i))
      \<and> (\<forall>i < length visited. snd (penalty_pass scale ids (logits[n := scale (logits ! n)]) (visited[n := True])) ! i
         = (visited[n := True] ! i \<or> int i \<in> set ids \<and> i < length logits))"
      using 2(1)[OF True] 2(3) n by simp
    show ?thesis using IH n 2(3) by (auto simp: nth_list_update)
  next
    case False
    have IH: "length (fst (penalty_pass scale ids logits visited)) = length logits
      \<and> length (snd (penalty_pass scale ids logits visited)) = length visited
      \<and> (\<forall>i < length logits. fst (penalty_pass scale ids logits visited) ! i
           = (if int i \<in> set ids \<and> \<not> visited ! i then scale (logits ! i) else logits ! i))
      \<and> (\<forall>i < length visited. snd (penalty_pass scale ids logits visited) ! i
           = (visited ! i \<or> int i \<in> set ids \<and> i < length logits))"
      using 2(2)[OF False 2(3)] .
    from False have "int i \<noteq> w \<or> visited ! i" if "i < length logits" for i using that by auto
    then show ?thesis using IH False by (auto split: if_splits)
  qed
qed simp

lemma reset_visited_spec:
  "length (reset_visited n ids v) = length v
    \<and> (\<forall>i < length v. reset_visited n ids v ! i = (v ! i \<and> \<not> (int i \<in> set ids \<and> i < n)))"
  unfolding reset_visited_def
proof (induction ids arbitrary: v)
  case (Cons w ids)
  let ?v = "if 0 \<le> w \<and> w < int n then v[nat w := False] else v"
  have l: "length ?v = length v" by simp
  have "\<forall>i < length v. ?v ! i = (v ! i \<and> \<not> (int i = w \<and> i < n))" 
    by (cases "nat w < length v") (auto simp: nth_list_update split: if_splits)
  then show ?case using Cons.IH[of ?v] l by auto
qed simp

lemma repetition_penalty_row:
  assumes "True \<notin> set visited"
  shows "length (fst (ApplyRepetitionPenaltyToLogits False scale ids logits visited)) = length logits"
    and "i < length logits \<Longrightarrow> fst (ApplyRepetitionPenaltyToLogits False scale ids logits visited) ! i
      = (if int i \<in> set ids then scale (logits ! i) else logits ! i)"
    and "True \<notin> set (snd (ApplyRepetitionPenaltyToLogits False scale ids logits visited))"
proof -
  define v1 where "v1 = (if length visited < length logits then replicate (length logits) False else visited)"
  have v1: "length logits \<le> length v1" "\<And>j. j < length v1 \<Longrightarrow> \<not> v1 ! j"
    using assms by (auto simp: v1_def in_set_conv_nth)
  obtain l2 v2 where pass: "penalty_pass scale ids logits v1 = (l2, v2)" by fastforce
  have eq: "ApplyRepetitionPenaltyToLogits False scale ids logits visited = (l2, reset_visited (length logits) ids v2)"
    by (simp add: ApplyRepetitionPenaltyToLogits_def pass flip: v1_def)
  note spec = penalty_pass_spec[OF v1(1), of scale ids, unfolded pass fst_conv snd_conv]
  show "length (fst (ApplyRepetitionPenaltyToLogits False scale ids logits visited)) = length logits"
    unfolding eq using spec by simp
  show "fst (ApplyRepetitionPenaltyToLogits False scale ids logits visited) ! i
      = (if int i \<in> set ids then scale (logits ! i) else logits ! i)" if "i < length logits"
    unfolding eq using spec that v1 by simp
  have "\<not> reset_visited (length logits) ids v2 ! j" if "j < length (reset_visited (length logits) ids v2)" for j
    using reset_visited_spec[of "length logits" ids v2] that spec v1 by auto
  then have "True \<notin> set (reset_visited (length logits) ids v2)"
    by (metis in_set_conv_nth)
  then show "True \<notin> set (snd (ApplyRepetitionPenaltyToLogits False scale ids logits visited))"
    unfolding eq snd_conv .
qed

text \<open>A token is banned when appending it would repeat an n-gram of the sequence.\<close>

definition repeats_ngram :: "nat \<Rightarrow> token list \<Rightarrow> token \<Rightarrow> bool" where
  "repeats_ngram n ids t \<longleftrightarrow> (\<exists>start. start + n \<le> length ids \<and> take n (drop start ids) = drop (Suc (length ids) - n) (ids @ [t]))"

lemma ngram_split:
  assumes "0 < n" and "n \<le> length ids" and "start + n \<le> length ids"
  shows "take n (drop start ids) = drop (Suc (length ids) - n) (ids @ [t])
    \<longleftrightarrow> ngram_matches ids (n - 1) start \<and> ids ! (start + (n - 1)) = t"
proof -
  obtain k where n: "n = Suc k" using assms(1) by (cases n) auto
  have "take (Suc k) (drop start ids) = take k (drop start ids) @ [ids ! (start + k)]"
    using assms(3) n by (simp add: take_Suc_conv_app_nth)
  moreover have "drop (Suc (length ids) - n) (ids @ [t]) = drop (length ids - k) ids @ [t]" using n by simp
  ultimately show ?thesis using n by (simp add: ngram_matches_def)
qed

lemma banned_tokens:
  assumes "0 < ngram_size" and "nat ngram_size \<le> length ids"
  shows "t \<in> (\<lambda>start. ids ! (start + nat (ngram_size - 1))) ` {start. start < length ids - nat ngram_size + 1
      \<and> ngram_matches ids (nat (ngram_size - 1)) start} \<longleftrightarrow> repeats_ngram (nat ngram_size) ids t"
proof -
  have n: "0 < nat ngram_size" "nat (ngram_size - 1) = nat ngram_size - 1" using assms(1) by auto
  have "start < length ids - nat ngram_size + 1 \<longleftrightarrow> start + nat ngram_size \<le> length ids" for start using assms(2) by linarith
  then show ?thesis unfolding repeats_ngram_def n(2) image_iff using ngram_split[OF n(1) assms(2)] by auto
qed

lemma no_repeat_row:
  assumes "i < length logits"
  shows "ApplyNoRepeatNgramToLogits lowest ids ngram_size logits ! i
      = (if 0 < ngram_size \<and> repeats_ngram (nat ngram_size) ids (int i) then lowest else logits ! i)"
proof (cases "ngram_size \<le> 0 \<or> length ids < nat ngram_size")
  case True
  then show ?thesis by (auto simp: ApplyNoRepeatNgramToLogits_def repeats_ngram_def)
next
  case False
  then have n: "0 < ngram_size" "nat ngram_size \<le> length ids" by auto
  let ?k = "nat (ngram_size - 1)"
  let ?banned = "map (\<lambda>start. ids ! (start + ?k)) (filter (ngram_matches ids ?k) [0..<length ids - nat ngram_size + 1])"
  have "ApplyNoRepeatNgramToLogits lowest ids ngram_size logits = fold (\<lambda>t. put_logit t lowest) ?banned logits"
    using False by (simp add: ApplyNoRepeatNgramToLogits_def Let_def fold_put_logit_if)
  moreover have "set ?banned = (\<lambda>start. ids ! (start + ?k)) ` {start. start < length ids - nat ngram_size + 1
      \<and> ngram_matches ids ?k start}" by (auto simp del: upt_Suc)
  ultimately show ?thesis
    using fold_put_logit[OF assms, of lowest ?banned] banned_tokens[OF n, of "int i"] n(1) by auto
qed

lemma no_repeat_length [simp]: "length (ApplyNoRepeatNgramToLogits lowest ids ngram_size logits) = length logits"
proof -
  have "length (fold (\<lambda>t. put_logit t v) ts l) = length l" for ts :: "token list" and v and l :: "'a list"
    by (induction ts arbitrary: l) auto
  then show ?thesis by (simp add: ApplyNoRepeatNgramToLogits_def Let_def fold_put_logit_if)
qed

lemma min_length_row:
  assumes "i < length logits"
  shows "ApplyMinLengthToLogits lowest len min_len eos logits ! i
      = (if len < min_len \<and> int i \<in> set eos then lowest else logits ! i)"
    and "length (ApplyMinLengthToLogits lowest len min_len eos logits) = length logits"
  using fold_put_logit[OF assms, of lowest eos] by (auto simp: ApplyMinLengthToLogits_def)

text \<open>
  C40. The processor that speculative decoding uses changes a row of logits as intended, token by token: below the minimum
  length the end-of-sequence tokens are masked, then every token of the history is scaled exactly once however often it
  occurs, then every token that would complete an n-gram already in the history is masked; nothing else changes. The
  reusable scratch flags are all clear again afterwards, so the next row starts afresh.
\<close>

theorem penalty_processor_correct:
  assumes "True \<notin> set visited" and "0 \<le> current_length" and "i < length logits"
    and "Apply lowest scale logits current_length ids
      ((new_penalty_processor repetition_is_one min_length n eos)\<lparr>pen_visited := visited\<rparr>) = (logits', p')"
  shows "logits' ! i =
      (if 0 < n \<and> repeats_ngram (nat n) ids (int i) then lowest
       else let score = (if current_length < min_length \<and> int i \<in> set eos then lowest else logits ! i)
            in if \<not> repetition_is_one \<and> int i \<in> set ids then scale score else score)
    \<and> length logits' = length logits \<and> True \<notin> set (pen_visited p')"
proof (cases "repetition_is_one \<and> min_length \<le> 0 \<and> n \<le> 0")
  case True
  then have "logits' = logits" "pen_visited p' = visited"
    using assms(4) by (auto simp: Apply_def new_penalty_processor_def)
  with True assms(1,2) show ?thesis by simp
next
  case False
  let ?l1 = "ApplyMinLengthToLogits lowest current_length min_length eos logits"
  let ?r = "ApplyRepetitionPenaltyToLogits repetition_is_one scale ids ?l1 visited"
  have a: "logits' = ApplyNoRepeatNgramToLogits lowest ids n (fst ?r)" "pen_visited p' = snd ?r"
    using False assms(4) by (auto simp: Apply_def new_penalty_processor_def Let_def split: prod.splits)
  have l1: "?l1 ! i = (if current_length < min_length \<and> int i \<in> set eos then lowest else logits ! i)" "length ?l1 = length logits"
    using min_length_row[OF assms(3)] by auto
  have r: "fst ?r ! i = (if \<not> repetition_is_one \<and> int i \<in> set ids then scale (?l1 ! i) else ?l1 ! i)
      \<and> length (fst ?r) = length logits \<and> True \<notin> set (snd ?r)"
  proof (cases repetition_is_one)
    case True
    then show ?thesis using assms(1) l1(2) by (simp add: ApplyRepetitionPenaltyToLogits_def)
  next
    case False
    then show ?thesis using repetition_penalty_row[OF assms(1), where scale = scale and ids = ids and logits = ?l1] l1(2) assms(3)
      by (simp only: simp_thms if_True)
  qed
  then have i: "i < length (fst ?r)" using assms(3) by simp
  show ?thesis
    unfolding a no_repeat_row[OF i, of lowest ids n] Let_def no_repeat_length
    using r unfolding l1(1) by (simp only: simp_thms if_cancel)
qed

theorem penalty_processor_correct_witness:
  "\<exists>p'. Apply (-100) (\<lambda>x. x - 1) [5, 6, 7, 8 :: int] 2 [1, 2, 1]
      ((new_penalty_processor False 3 2 [0])\<lparr>pen_visited := []\<rparr>) = ([-100, 5, -100, 8], p')
    \<and> True \<notin> set (pen_visited p')"
proof -
  obtain l' p' where a: "Apply (-100) (\<lambda>x. x - 1) [5, 6, 7, 8 :: int] 2 [1, 2, 1]
      ((new_penalty_processor False 3 2 [0])\<lparr>pen_visited := []\<rparr>) = (l', p')" by fastforce
  have "l' = [-100, 5, -100, 8]"
    using a by (simp add: Apply_def new_penalty_processor_def ApplyMinLengthToLogits_def put_logit_def
        ApplyRepetitionPenaltyToLogits_def ApplyNoRepeatNgramToLogits_def ngram_matches_def split: prod.splits)
  moreover have "True \<notin> set (pen_visited p')" using penalty_processor_correct[OF _ _ _ a, of 0] by simp
  ultimately show ?thesis using a by blast
qed

lemma prefix_loop_iff:
  "prefix_loop sequence target start j n \<longleftrightarrow> (\<forall>i < n. sequence ! (start + (j + i)) = target ! (j + i))"
proof (induction n arbitrary: j)
  case (Suc n)
  have "(\<forall>i < Suc n. sequence ! (start + (j + i)) = target ! (j + i))
      \<longleftrightarrow> sequence ! (start + j) = target ! j \<and> (\<forall>i < n. sequence ! (start + (j + 1 + i)) = target ! (j + 1 + i))"
    by (auto simp: less_Suc_eq_0_disj)
  then show ?case using Suc.IH[of "j + 1"] by simp
qed simp

lemma prefix_loop_matches:
  assumes "k \<le> length ids" and "start + k \<le> length ids"
  shows "prefix_loop ids (drop (length ids - k) ids) start 0 k \<longleftrightarrow> ngram_matches ids k start"
proof -
  have "take k (drop start ids) = drop (length ids - k) ids
      \<longleftrightarrow> (\<forall>i < k. ids ! (start + i) = drop (length ids - k) ids ! i)"
    using assms by (auto simp: list_eq_iff_nth_eq)
  then show ?thesis by (simp add: prefix_loop_iff ngram_matches_def)
qed

lemma ban_row_shared:
  assumes "0 < ngram_size" and "ngram_size \<le> int (length ids)"
  shows "ban_row lowest ngram_size (int (length ids)) ids row = ApplyNoRepeatNgramToLogits lowest ids ngram_size row"
proof -
  let ?k = "nat (ngram_size - 1)"
  have n: "nat (int (length ids) - ngram_size + 1) = length ids - nat ngram_size + 1" using assms by linarith
  have t: "take ?k (drop (nat (int (length ids)) - ?k) ids) = drop (length ids - ?k) ids" using assms by simp
  have "prefix_loop ids (drop (length ids - ?k) ids) start 0 ?k \<longleftrightarrow> ngram_matches ids ?k start"
    if "start \<in> set [0..<length ids - nat ngram_size + 1]" for start
    by (rule prefix_loop_matches) (use that assms in auto)
  then have "fold (\<lambda>start l. if prefix_loop ids (drop (length ids - ?k) ids) start 0 ?k
          then put_logit (ids ! (start + ?k)) lowest l else l) [0..<length ids - nat ngram_size + 1] row
      = fold (\<lambda>start l. if ngram_matches ids ?k start then put_logit (ids ! (start + ?k)) lowest l else l)
          [0..<length ids - nat ngram_size + 1] row"
    by (intro fold_cong) auto
  then show ?thesis
    using assms unfolding ban_row_def ApplyNoRepeatNgramToLogits_def Let_def n t by auto
qed

lemma penalty_rows_shared:
  assumes "length rows = length idss" and "True \<notin> set visited"
  shows "fst (penalty_rows scale rows idss visited)
      = map2 (\<lambda>ids row. fst (ApplyRepetitionPenaltyToLogits False scale ids row [])) idss rows"
  using assms
proof (induction scale rows idss visited rule: penalty_rows.induct)
  case (1 scale row rows ids idss visited)
  obtain row1 v1 where r: "ApplyRepetitionPenaltyToLogits False scale ids row visited = (row1, v1)" by fastforce
  have clear: "True \<notin> set v1" using repetition_penalty_row(3)[OF 1(3), where scale = scale and ids = ids and logits = row] unfolding r snd_conv .
  have "row1 = fst (ApplyRepetitionPenaltyToLogits False scale ids row [])"
    using repetition_penalty_row(1,2)[OF 1(3), where scale = scale and ids = ids and logits = row]
      repetition_penalty_row(1,2)[where visited = "[]" and scale = scale and ids = ids and logits = row] r
    by (intro nth_equalityI) auto
  then show ?case using 1(1)[OF r[symmetric] refl] 1(2) clear r by (auto split: prod.splits)
qed auto

text \<open>
  Standard search and speculative decoding apply the same penalties: on every row the search's own minimum-length,
  repetition and n-gram steps give exactly what the shared one-row helpers give on that row's sequence, with fresh scratch
  flags.
\<close>

theorem search_penalties_same:
  assumes "length (score_rows s) = length (score_sequences s)" and "True \<notin> set (score_visited s)"
    and "\<forall>ids \<in> set (score_sequences s). int (length ids) = score_length s"
  shows "score_rows (ApplyMinLength lowest eos min_length None s)
      = map (ApplyMinLengthToLogits lowest (score_length s) min_length eos) (score_rows s)
    \<and> score_rows (ApplyRepetitionPenalty one scale s)
      = map2 (\<lambda>ids row. fst (ApplyRepetitionPenaltyToLogits one scale ids row [])) (score_sequences s) (score_rows s)
    \<and> score_rows (ApplyNoRepeatNgram lowest n s)
      = map2 (\<lambda>ids row. ApplyNoRepeatNgramToLogits lowest ids n row) (score_sequences s) (score_rows s)"
proof (intro conjI)
  show "score_rows (ApplyMinLength lowest eos min_length None s)
      = map (ApplyMinLengthToLogits lowest (score_length s) min_length eos) (score_rows s)"
    by (auto simp: ApplyMinLength_def ApplyMinLengthToLogits_def Let_def intro!: map_idI[symmetric])
  have id: "map2 (\<lambda>ids row. row) (score_sequences s) (score_rows s) = score_rows s"
  proof -
    have "map2 (\<lambda>ids row. row) (score_sequences s) (score_rows s) = map snd (zip (score_sequences s) (score_rows s))"
      by (intro map_cong) auto
    then show ?thesis using assms(1) by simp
  qed
  show "score_rows (ApplyRepetitionPenalty one scale s)
      = map2 (\<lambda>ids row. fst (ApplyRepetitionPenaltyToLogits one scale ids row [])) (score_sequences s) (score_rows s)"
  proof (cases one)
    case True
    then show ?thesis using id by (simp add: ApplyRepetitionPenalty_def ApplyRepetitionPenaltyToLogits_def)
  next
    case False
    then show ?thesis using penalty_rows_shared[OF assms(1,2), of scale]
      by (simp add: ApplyRepetitionPenalty_def case_prod_beta)
  qed
  show "score_rows (ApplyNoRepeatNgram lowest n s)
      = map2 (\<lambda>ids row. ApplyNoRepeatNgramToLogits lowest ids n row) (score_sequences s) (score_rows s)"
  proof (cases "n \<le> 0 \<or> score_length s < n")
    case True
    have "map2 (\<lambda>ids row. ApplyNoRepeatNgramToLogits lowest ids n row) (score_sequences s) (score_rows s)
        = map2 (\<lambda>ids row. row) (score_sequences s) (score_rows s)"
    proof (rule map_cong[OF refl], clarify)
      fix ids row assume "(ids, row) \<in> set (zip (score_sequences s) (score_rows s))"
      then have "int (length ids) = score_length s" using assms(3) by (auto dest: set_zip_leftD)
      with True have "n \<le> 0 \<or> length ids < nat n" by linarith
      then show "ApplyNoRepeatNgramToLogits lowest ids n row = row" by (simp add: ApplyNoRepeatNgramToLogits_def)
    qed
    then show ?thesis using True id by (simp add: ApplyNoRepeatNgram_def)
  next
    case False
    have "map2 (ban_row lowest n (score_length s)) (score_sequences s) (score_rows s)
        = map2 (\<lambda>ids row. ApplyNoRepeatNgramToLogits lowest ids n row) (score_sequences s) (score_rows s)"
    proof (rule map_cong[OF refl], clarify)
      fix ids row assume "(ids, row) \<in> set (zip (score_sequences s) (score_rows s))"
      then have l: "int (length ids) = score_length s" using assms(3) by (auto dest: set_zip_leftD)
      show "ban_row lowest n (score_length s) ids row = ApplyNoRepeatNgramToLogits lowest ids n row"
        using ban_row_shared[of n ids lowest row] False l by simp
    qed
    then show ?thesis using False by (simp add: ApplyNoRepeatNgram_def)
  qed
qed

theorem search_penalties_same_witness:
  "score_rows (ApplyNoRepeatNgram (-100) 2
      \<lparr>score_rows = [[5, 6, 7 :: int]], score_sequences = [[1, 2, 1]], score_length = 3, score_visited = []\<rparr>) = [[5, 6, -100]]"
  using search_penalties_same[of
      "\<lparr>score_rows = [[5, 6, 7 :: int]], score_sequences = [[1, 2, 1]], score_length = 3, score_visited = []\<rparr>" "-100" "[]" 0 True id 2]
  by (simp add: ApplyNoRepeatNgramToLogits_def ngram_matches_def put_logit_def)

end
