(* ===== verification/Request_State.thy ===== *)
theory Request_State
  imports Turn_Policy Scheduler_Policy Stop_Controller Greedy_Search
begin

text \<open>
  The Engine's \<open>Request\<close> (\<open>engine/request.h\<close>, \<open>engine/request.cpp\<close>): one decoded sequence with its turns, speculative drafts,
  stop strings and the transaction that surrounds every step.

  \<^item> The search is the single-sequence search of \<open>Greedy_Search\<close> and the stop-string controller that of
    \<open>Stop_Controller\<close>; \<open>None\<close> is a null pointer.
  \<^item> What a Request is bound to (model parameters, the tokenizer, the Engine's draft limit, the operations of a guidance
    processor) is an environment that is passed along. Guidance state has an arbitrary type.
  \<^item> A random generator is its seeding and the number of draws made from it.
  \<^item> A method that throws returns \<open>Inl\<close>. Vectors keep their capacity where the code tests it.
  \<^item> Not modelled: device copies, the pooled state of the batched sampler, and the calls that only delegate to the Engine.
\<close>

section \<open>Types\<close>

definition to_size :: "int \<Rightarrow> nat" where  \<comment> \<open>\<open>static_cast<size_t>\<close>\<close>
  "to_size x = nat (x mod 2 ^ 64)"

datatype seeding = seed32 "32 word" | seed_seq "32 word list"

record rng =
  rng_seed :: seeding
  rng_draws :: nat

definition low_word :: "u64 \<Rightarrow> 32 word" where
  "low_word seed = ucast seed"

definition high_word :: "u64 \<Rightarrow> 32 word" where
  "high_word seed = ucast (drop_bit 32 seed)"

definition MakeHostRandomGenerator :: "u64 \<Rightarrow> rng" where
  "MakeHostRandomGenerator seed =
     (if seed \<le> 0xFFFFFFFF then \<lparr>rng_seed = seed32 (low_word seed), rng_draws = 0\<rparr>
      else \<lparr>rng_seed = seed_seq [low_word seed, high_word seed], rng_draws = 0\<rparr>)"

definition MakeDraftRandomGenerator :: "u64 \<Rightarrow> rng" where
  "MakeDraftRandomGenerator seed = \<lparr>rng_seed = seed_seq [low_word seed, high_word seed, 0x44464c53], rng_draws = 0\<rparr>"

text \<open>A negative configured seed draws the basis from the random device.\<close>

definition InitialSeedBasis :: "int \<Rightarrow> 32 word \<Rightarrow> 32 word \<Rightarrow> u64" where
  "InitialSeedBasis configured_seed device_high device_low =
     (if 0 \<le> configured_seed then word_of_int configured_seed
      else or (push_bit 32 (ucast device_high)) (ucast device_low))"

definition kMaxDraftTokensPerStep :: nat where
  "kMaxDraftTokensPerStep = 7"

definition kMaxGeneratedTokensPerStep :: nat where
  "kMaxGeneratedTokensPerStep = kMaxDraftTokensPerStep + 1"

record TargetTokenSelection =
  sel_greedy_token :: token
  sel_indices :: "token list"
  sel_probs :: "rat list"

record 'g Guidance =
  commit_tokens :: "token list \<Rightarrow> 'g \<Rightarrow> 'g"
  delimited_opening_token :: "'g \<Rightarrow> token option"
  is_delimited_active :: "'g \<Rightarrow> bool"
  process_logits :: "flt list \<Rightarrow> 'g \<Rightarrow> flt list \<times> 'g"
  allows_only_tokens :: "token list \<Rightarrow> 'g \<Rightarrow> bool"

record ('s, 'e, 'g) RequestEnv =
  env_search :: SearchParams
  env_memory :: "token list"
  env_chunk_size :: "nat option"
  env_tokenizer :: "('s, 'e) Tokenizer"
  env_guidance :: "'g Guidance"
  env_max_drafts :: nat

datatype 'e request_error =
    append_too_long nat nat nat
  | zero_max_generated_tokens
  | no_input_tokens
  | turn_ids_exhausted
  | request_closed
  | turn_not_complete
  | mirror_capacity
  | null_search
  | search_failure search_error
  | controller_failure "'e controller_error"
  | previous_turn_resources
  | wrong_engine
  | no_turn_begun
  | not_assigned
  | no_tokens
  | step_in_flight
  | not_ready_to_decode
  | draft_rejected string
  | engine_destroyed
  | drafts_unsupported
  | too_many_drafts nat
  | bad_distribution
  | drafts_not_proposed
  | drafts_not_staged
  | invalid_transition
  | too_many_accepted
  | promoted_without_token
  | bad_step_token_count
  | auxiliary_not_ready
  | mirror_out_of_sync
  | prefix_not_adoptable
  | completion_too_early
  | too_many_visible_tokens
  | missing_committed_tokens
  | search_produced_too_few
  | unknown_turn u64
  | reseed_missing
  | sampler_state_not_checkpointed
  | draft_out_of_bounds
  | host_resize_failed
  | missing_rng_checkpoint

record DraftVerificationState =
  completed_generation :: bool
  dv_eos :: bool
  stop_match_index :: int

definition no_verification :: DraftVerificationState where
  "no_verification = \<lparr>completed_generation = False, dv_eos = False, stop_match_index = -1\<rparr>"

record ('s, 'g) Request =
  status :: RequestStatus
  tokens_host :: "token list"
  host_capacity :: nat
  req_search :: "Search option"
  processed_sequence_length :: int
  prompt_sequence_length :: int
  scheduled_token_count :: nat
  adopted_prefix_length :: nat
  turn_cached_prompt_tokens :: nat
  prefix_adoption_staged :: bool
  turn_policy :: EffectiveTurnPolicy
  turn_prompt_tokens :: nat
  turn_generated_tokens :: nat
  current_turn_id :: u64
  next_turn_id :: u64
  has_current_turn :: bool
  turn_id_exhausted :: bool
  turn_boundaries :: "(u64 \<times> nat) list"
  finish_reason :: GenerationFinishReason
  matched_stop_string_index :: int
  draft_tokens :: "token list"
  draft_token_distributions :: "TargetTokenSelection list"
  staged_draft_count :: nat
  accepted_draft_count :: nat
  evaluated_draft_count :: nat
  draft_verification :: DraftVerificationState
  current_seed_basis :: u64
  pending_reseed :: "u64 option"
  pending_reseed_applied :: bool
  host_rng :: rng
  draft_rng :: rng
  transaction_rng :: rng
  transaction_processed_sequence_length :: int
  transaction_tokens_host_size :: nat
  guidance :: "'g option"
  guidance_checkpoint :: "'g option"
  stop_controller :: "'s StopStringController option"
  stop_controller_checkpoint :: nat
  engine_identity :: "nat option"
  engine_alive :: bool
  needs_replay_after_rewind :: bool

text \<open>The unset turn options, which resolve to the model's defaults.\<close>

definition no_options :: TurnOptions where
  "no_options = \<lparr>opt_max_generated_tokens = None, opt_min_generated_tokens = None, opt_do_sample = None,
     opt_temperature = None, opt_top_p = None, opt_top_k = None, opt_repetition_penalty = None, opt_no_repeat_ngram_size = None\<rparr>"

definition max_session_tokens :: "('s, 'e, 'g) RequestEnv \<Rightarrow> nat" where
  "max_session_tokens env = max_length (env_search env)"

definition new_request :: "('s, 'e, 'g) RequestEnv \<Rightarrow> SearchDefaults \<Rightarrow> u64 \<Rightarrow> ('s, 'g) Request" where
  "new_request env defaults seed_basis =
     \<lparr>status = Unassigned, tokens_host = [], host_capacity = max_session_tokens env,
      req_search = Some (new_search (env_search env) (env_memory env) [0]),
      processed_sequence_length = 0, prompt_sequence_length = 0, scheduled_token_count = 0, adopted_prefix_length = 0,
      turn_cached_prompt_tokens = 0, prefix_adoption_staged = False,
      turn_policy = ResolveTurnPolicy defaults no_options, turn_prompt_tokens = 0, turn_generated_tokens = 0,
      current_turn_id = 0, next_turn_id = 1, has_current_turn = False, turn_id_exhausted = False, turn_boundaries = [],
      finish_reason = ReasonNone, matched_stop_string_index = -1,
      draft_tokens = [], draft_token_distributions = [], staged_draft_count = 0, accepted_draft_count = 0,
      evaluated_draft_count = 0, draft_verification = no_verification,
      current_seed_basis = seed_basis, pending_reseed = None, pending_reseed_applied = False,
      host_rng = MakeHostRandomGenerator seed_basis, draft_rng = MakeDraftRandomGenerator seed_basis,
      transaction_rng = \<lparr>rng_seed = seed32 5489, rng_draws = 0\<rparr>, transaction_processed_sequence_length = 0,
      transaction_tokens_host_size = 0, guidance = None, guidance_checkpoint = None, stop_controller = None,
      stop_controller_checkpoint = 0, engine_identity = None, engine_alive = False, needs_replay_after_rewind = False\<rparr>"

definition AttachToEngine :: "nat \<Rightarrow> ('s, 'g) Request \<Rightarrow> ('s, 'g) Request" where
  "AttachToEngine engine r = r\<lparr>engine_identity := Some engine, engine_alive := True\<rparr>"

definition BelongsTo :: "nat \<Rightarrow> ('s, 'g) Request \<Rightarrow> bool" where
  "BelongsTo engine r \<longleftrightarrow> engine_identity r = Some engine"

definition IsAwaitingFirstTurn :: "('s, 'g) Request \<Rightarrow> bool" where
  "IsAwaitingFirstTurn r \<longleftrightarrow> status r = Unassigned"

definition IsRestartableCanceledTurn :: "('s, 'g) Request \<Rightarrow> bool" where
  "IsRestartableCanceledTurn r \<longleftrightarrow> finish_reason r = Canceled \<and> processed_sequence_length r = 0"

section \<open>The sequence\<close>

definition on_search ::
  "(Search \<Rightarrow> search_error + Search) \<Rightarrow> ('s, 'g) Request \<Rightarrow> 'e request_error + ('s, 'g) Request" where
  "on_search f r =
     (case req_search r of
        None \<Rightarrow> Inl null_search
      | Some s \<Rightarrow> (case f s of Inl e \<Rightarrow> Inl (search_failure e) | Inr s' \<Rightarrow> Inr (r\<lparr>req_search := Some s'\<rparr>)))"

definition CurrentSequenceLength :: "('s, 'g) Request \<Rightarrow> int" where
  "CurrentSequenceLength r = (case req_search r of None \<Rightarrow> 0 | Some s \<Rightarrow> int (current_length s))"

definition CommittedSequenceLength :: "('s, 'g) Request \<Rightarrow> int" where
  "CommittedSequenceLength r = CurrentSequenceLength r - int (staged_draft_count r)"

definition IsPrefill :: "('s, 'g) Request \<Rightarrow> bool" where
  "IsPrefill r \<longleftrightarrow> processed_sequence_length r < prompt_sequence_length r"

definition search_is_done :: "('s, 'g) Request \<Rightarrow> bool" where
  "search_is_done r = (case req_search r of None \<Rightarrow> False | Some s \<Rightarrow> search_done s)"

definition ValidateAppendLength :: "nat \<Rightarrow> nat \<Rightarrow> nat \<Rightarrow> 'e request_error + unit" where
  "ValidateAppendLength max_tokens current_sequence_length token_count =
     (if max_tokens \<le> current_sequence_length \<or> max_tokens - current_sequence_length \<le> token_count
      then Inl (append_too_long token_count current_sequence_length max_tokens) else Inr ())"

definition TurnEosFloor :: "('s, 'g) Request \<Rightarrow> int" where
  "TurnEosFloor r =
     (if min_generated_tokens (turn_policy r) = 0 then 0
      else sint (word_of_int (prompt_sequence_length r + int (min_generated_tokens (turn_policy r))) :: 32 word))"

definition RemainingTurnTokenBudget :: "('s, 'g) Request \<Rightarrow> nat" where
  "RemainingTurnTokenBudget r =
     (case max_generated_tokens (turn_policy r) of
        None \<Rightarrow> 2 ^ 64 - 1
      | Some m \<Rightarrow> if turn_generated_tokens r < m then m - turn_generated_tokens r else 0)"

section \<open>Turn admission\<close>

record ('s, 'g) RequestTurnAdmission =
  adm_status :: RequestStatus
  adm_host_token_count :: nat
  adm_prompt_sequence_length :: int
  adm_processed_sequence_length :: int
  transaction_started :: bool
  adm_policy :: EffectiveTurnPolicy
  pending_stop_controller :: "'s StopStringController option"
  pending_guidance :: "'g option"

definition ValidateTurnAdmission ::
  "('s, 'e, 'g) RequestEnv \<Rightarrow> token list \<Rightarrow> TurnOptions \<Rightarrow> ('s, 'g) Request \<Rightarrow> 'e request_error + unit" where
  "ValidateTurnAdmission env tokens options r =
     (if opt_max_generated_tokens options = Some 0 then Inl zero_max_generated_tokens
      else if tokens = [] then Inl no_input_tokens
      else if turn_id_exhausted r then Inl turn_ids_exhausted
      else if \<not> IsAwaitingFirstTurn r \<and> \<not> IsTurnComplete (status r) then
        Inl (if IsClosed (status r) then request_closed else turn_not_complete)
      else
        bind_result (ValidateAppendLength (max_session_tokens env)
            (if IsAwaitingFirstTurn r then 0 else to_size (CurrentSequenceLength r)) (length tokens)) (\<lambda>_.
          if host_capacity r < length (tokens_host r) + length tokens then Inl mirror_capacity else Inr ()))"

definition SaveStateForNewTurnTransaction :: "('s, 'g) Request \<Rightarrow> 'e request_error + ('s, 'g) Request" where
  "SaveStateForNewTurnTransaction r =
     (if guidance r \<noteq> None \<or> stop_controller r \<noteq> None \<or> pending_reseed r \<noteq> None \<or> pending_reseed_applied r
      then Inl previous_turn_resources
      else
        bind_result (on_search Greedy_Search.SaveStateForTransaction r) (\<lambda>r1.
          Inr (r1\<lparr>guidance_checkpoint := None, transaction_rng := host_rng r1,
                  transaction_processed_sequence_length := processed_sequence_length r1,
                  transaction_tokens_host_size := length (tokens_host r1), stop_controller_checkpoint := 0\<rparr>)))"

text \<open>
  The admission runs in two stages: the first starts the transaction, and from then on a failure rolls back. Reserving
  room for the turn's boundary before the transaction starts is allocation, which leaves no trace in the lists of the
  model; its failure at the largest vector size, before anything has changed, is not represented.
\<close>

definition start_admission ::
  "('s, 'g) Request \<Rightarrow> ('s, 'g) RequestTurnAdmission \<Rightarrow> 'e request_error + ('s, 'g) Request \<times> ('s, 'g) RequestTurnAdmission" where
  "start_admission r adm =
     (let adm1 = adm\<lparr>adm_status := status r, adm_host_token_count := length (tokens_host r),
                     adm_prompt_sequence_length := prompt_sequence_length r,
                     adm_processed_sequence_length := processed_sequence_length r\<rparr>
      in bind_result (SaveStateForNewTurnTransaction r) (\<lambda>r1. Inr (r1, adm1\<lparr>transaction_started := True\<rparr>)))"

definition append_prompt ::
  "('s, 'e, 'g) RequestEnv \<Rightarrow> bool \<Rightarrow> token list \<Rightarrow> ('s, 'g) Request \<Rightarrow> 'e request_error + ('s, 'g) Request" where
  "append_prompt env first_turn tokens r =
     bind_result (on_search (AppendTokens (env_search env) tokens) r) (\<lambda>r1.
       let r2 = r1\<lparr>tokens_host := tokens_host r1 @ tokens, prompt_sequence_length := CurrentSequenceLength r1\<rparr>;
           r3 = (if first_turn then r2\<lparr>processed_sequence_length := 0\<rparr> else r2)
       in Inr (r3\<lparr>status := Assigned\<rparr>))"

definition PrepareTurnAdmission ::
  "('s, 'e, 'g) RequestEnv \<Rightarrow> token list \<Rightarrow> ('s, 'g) Request \<Rightarrow> ('s, 'g) RequestTurnAdmission
   \<Rightarrow> 'e request_error + ('s, 'g) Request \<times> ('s, 'g) RequestTurnAdmission" where
  "PrepareTurnAdmission env tokens r adm =
     bind_result (start_admission r adm) (\<lambda>(r1, adm1).
     bind_result (append_prompt env (IsAwaitingFirstTurn r) tokens r1) (\<lambda>r2. Inr (r2, adm1)))"

section \<open>The step transaction\<close>

definition observed_tokens :: "('s, 'g) Request \<Rightarrow> nat" where
  "observed_tokens r = (case stop_controller r of None \<Rightarrow> 0 | Some c \<Rightarrow> length (turn_tokens c))"

definition save_with :: "(Search \<Rightarrow> search_error + Search) \<Rightarrow> ('s, 'g) Request \<Rightarrow> 'e request_error + ('s, 'g) Request" where
  "save_with save r =
     bind_result (on_search save r) (\<lambda>r1.
       Inr (r1\<lparr>guidance_checkpoint := guidance r1, transaction_rng := host_rng r1,
               transaction_processed_sequence_length := processed_sequence_length r1,
               transaction_tokens_host_size := length (tokens_host r1),
               stop_controller_checkpoint := observed_tokens r1\<rparr>))"

definition SaveStateForTransaction_request :: "('s, 'g) Request \<Rightarrow> 'e request_error + ('s, 'g) Request" where
  "SaveStateForTransaction_request = save_with Greedy_Search.SaveStateForTransaction"

definition SaveStateForExternalSamplingTransaction_request :: "('s, 'g) Request \<Rightarrow> 'e request_error + ('s, 'g) Request" where
  "SaveStateForExternalSamplingTransaction_request = save_with Greedy_Search.SaveStateForExternalSamplingTransaction"

definition resize_tokens :: "nat \<Rightarrow> token list \<Rightarrow> token list" where  \<comment> \<open>\<open>std::vector::resize\<close>\<close>
  "resize_tokens n xs = take n xs @ replicate (n - length xs) 0"

text \<open>What both forms of rollback reset at once.\<close>

definition reset_step :: "('s, 'g) Request \<Rightarrow> ('s, 'g) Request" where
  "reset_step r = r\<lparr>host_rng := transaction_rng r,
     processed_sequence_length := transaction_processed_sequence_length r,
     tokens_host := resize_tokens (transaction_tokens_host_size r) (tokens_host r),
     staged_draft_count := 0, accepted_draft_count := 0, evaluated_draft_count := 0, scheduled_token_count := 0,
     draft_verification := no_verification, pending_reseed_applied := False\<rparr>"

text \<open>The moves back of the guidance cursor and of the stop controller.\<close>

definition restore_turn_state ::
  "('s, 'e, 'g) RequestEnv \<Rightarrow> ('s, 'g) Request \<Rightarrow> 'e request_error + ('s, 'g) Request" where
  "restore_turn_state env r =
     (let r1 = (case guidance_checkpoint r of None \<Rightarrow> r | Some g \<Rightarrow> r\<lparr>guidance := Some g, guidance_checkpoint := None\<rparr>)
      in case stop_controller r1 of
           None \<Rightarrow> Inr r1
         | Some c \<Rightarrow>
             bind_result (lift_error controller_failure (RollbackTo (env_tokenizer env) (stop_controller_checkpoint r1) c))
               (\<lambda>c1. Inr (r1\<lparr>stop_controller := Some c1\<rparr>)))"

definition RestoreStateForTransaction_request ::
  "('s, 'e, 'g) RequestEnv \<Rightarrow> ('s, 'g) Request \<Rightarrow> 'e request_error + ('s, 'g) Request" where
  "RestoreStateForTransaction_request env r =
     bind_result (on_search Greedy_Search.RestoreStateForTransaction r) (\<lambda>r1. restore_turn_state env (reset_step r1))"

definition QueueStateRestoreForTransaction_request :: "('s, 'g) Request \<Rightarrow> 'e request_error + ('s, 'g) Request" where
  "QueueStateRestoreForTransaction_request r =
     bind_result (on_search Greedy_Search.QueueStateRestoreForTransaction r) (\<lambda>r1. Inr (reset_step r1))"

definition CompleteStateRestoreForTransaction_request ::
  "('s, 'e, 'g) RequestEnv \<Rightarrow> ('s, 'g) Request \<Rightarrow> 'e request_error + ('s, 'g) Request" where
  "CompleteStateRestoreForTransaction_request env r =
     bind_result (on_search Greedy_Search.CompleteStateRestoreForTransaction r) (restore_turn_state env)"

definition CommitStateForTransaction_request :: "('s, 'g) Request \<Rightarrow> 'e request_error + ('s, 'g) Request" where
  "CommitStateForTransaction_request r =
     bind_result (on_search Greedy_Search.CommitStateForTransaction r) (\<lambda>r1.
       let r2 = r1\<lparr>guidance_checkpoint := None\<rparr>
       in case (pending_reseed_applied r2, pending_reseed r2) of
            (True, Some seed) \<Rightarrow>
              Inr (r2\<lparr>current_seed_basis := seed, draft_rng := MakeDraftRandomGenerator seed,
                      pending_reseed := None, pending_reseed_applied := False\<rparr>)
          | (True, None) \<Rightarrow> Inl reseed_missing
          | (False, _) \<Rightarrow> Inr r2)"

text \<open>The sampler of the step that runs on the device is absent here, or its state is checkpointed.\<close>

definition ApplyPendingSeedForTransaction :: "bool \<Rightarrow> bool \<Rightarrow> ('s, 'g) Request \<Rightarrow> 'e request_error + ('s, 'g) Request" where
  "ApplyPendingSeedForTransaction device_state device_state_checkpointed r =
     (case pending_reseed r of
        None \<Rightarrow> Inr r
      | Some seed \<Rightarrow>
          if device_state \<and> \<not> device_state_checkpointed then Inl sampler_state_not_checkpointed
          else Inr (r\<lparr>host_rng := MakeHostRandomGenerator seed, pending_reseed_applied := True\<rparr>))"

section \<open>Admission, continued\<close>

definition CommitTurnAdmission ::
  "u64 option \<Rightarrow> ('s, 'g) Request \<Rightarrow> ('s, 'g) RequestTurnAdmission
   \<Rightarrow> 'e request_error + u64 \<times> ('s, 'g) Request \<times> ('s, 'g) RequestTurnAdmission" where
  "CommitTurnAdmission seed r adm =
     bind_result (CommitStateForTransaction_request r) (\<lambda>r1.
       let r2 = r1\<lparr>stop_controller := pending_stop_controller adm, stop_controller_checkpoint := 0,
                   guidance := pending_guidance adm, guidance_checkpoint := None, turn_policy := adm_policy adm,
                   adopted_prefix_length := 0, turn_cached_prompt_tokens := 0,
                   pending_reseed := seed, pending_reseed_applied := False,
                   turn_prompt_tokens := length (tokens_host r1) - adm_host_token_count adm,
                   turn_generated_tokens := 0, current_turn_id := next_turn_id r1, has_current_turn := True,
                   turn_boundaries := turn_boundaries r1 @ [(next_turn_id r1, adm_host_token_count adm)]\<rparr>;
           r3 = (if next_turn_id r2 = - 1 then r2\<lparr>turn_id_exhausted := True\<rparr>
                 else r2\<lparr>next_turn_id := next_turn_id r2 + 1\<rparr>);
           r4 = r3\<lparr>finish_reason := ReasonNone, matched_stop_string_index := -1\<rparr>
       in Inr (current_turn_id r4, r4,
               adm\<lparr>transaction_started := False, pending_stop_controller := None, pending_guidance := None\<rparr>))"

definition RollbackTurnAdmission ::
  "('s, 'e, 'g) RequestEnv \<Rightarrow> ('s, 'g) Request \<Rightarrow> ('s, 'g) RequestTurnAdmission
   \<Rightarrow> 'e request_error + ('s, 'g) Request \<times> ('s, 'g) RequestTurnAdmission" where
  "RollbackTurnAdmission env r adm =
     (if \<not> transaction_started adm then Inr (r, adm)
      else
        let r1 = r\<lparr>status := adm_status adm, tokens_host := resize_tokens (adm_host_token_count adm) (tokens_host r),
                   prompt_sequence_length := adm_prompt_sequence_length adm,
                   processed_sequence_length := adm_processed_sequence_length adm\<rparr>
        in bind_result (RestoreStateForTransaction_request env r1) (\<lambda>r2. Inr (r2, adm\<lparr>transaction_started := False\<rparr>)))"

section \<open>The end of a turn\<close>

definition ReleaseTurnResources :: "('s, 'g) Request \<Rightarrow> ('s, 'g) Request" where
  "ReleaseTurnResources r =
     r\<lparr>stop_controller := None, stop_controller_checkpoint := 0, guidance_checkpoint := None, guidance := None,
       draft_tokens := [], draft_token_distributions := [], staged_draft_count := 0, accepted_draft_count := 0,
       evaluated_draft_count := 0, draft_verification := no_verification, pending_reseed := None,
       pending_reseed_applied := False\<rparr>"

definition CanCancelFromEngine :: "nat \<Rightarrow> u64 \<Rightarrow> ('s, 'g) Request \<Rightarrow> 'e request_error + bool" where
  "CanCancelFromEngine engine turn_id r =
     (if \<not> BelongsTo engine r then Inl wrong_engine
      else if IsClosed (status r) then Inl request_closed
      else if \<not> has_current_turn r then Inl no_turn_begun
      else Inr (turn_id = current_turn_id r \<and> \<not> IsTurnComplete (status r) \<and> IsExecutable (status r)))"

definition CompleteCancelFromEngine :: "('s, 'g) Request \<Rightarrow> (nat \<times> nat) \<times> ('s, 'g) Request" where
  "CompleteCancelFromEngine r =
     (let r1 = ReleaseTurnResources (r\<lparr>status := TurnComplete, finish_reason := Canceled, matched_stop_string_index := -1\<rparr>)
      in ((turn_prompt_tokens r1, turn_generated_tokens r1), r1))"

definition MarkClosedFromEngine :: "('s, 'g) Request \<Rightarrow> ('s, 'g) Request" where
  "MarkClosedFromEngine r =
     r\<lparr>status := Closed, needs_replay_after_rewind := False, guidance_checkpoint := None, guidance := None,
       stop_controller := None, stop_controller_checkpoint := 0, draft_tokens := [], draft_token_distributions := [],
       staged_draft_count := 0, accepted_draft_count := 0, evaluated_draft_count := 0,
       draft_verification := no_verification\<rparr>"

definition CompleteClose :: "('s, 'g) Request \<Rightarrow> ('s, 'g) Request" where
  "CompleteClose r =
     r\<lparr>engine_alive := False, engine_identity := None, status := Closed, guidance_checkpoint := None, guidance := None,
       stop_controller := None, stop_controller_checkpoint := 0, req_search := None,
       draft_tokens := [], draft_token_distributions := [], staged_draft_count := 0, accepted_draft_count := 0,
       evaluated_draft_count := 0, draft_verification := no_verification, tokens_host := [], host_capacity := 0,
       turn_boundaries := []\<rparr>"

definition CompleteCloseFromEngine :: "('s, 'g) Request \<Rightarrow> ('s, 'g) Request" where
  "CompleteCloseFromEngine r = CompleteClose (MarkClosedFromEngine r)"

definition MarkFailedFromEngine :: "('s, 'g) Request \<Rightarrow> ('s, 'g) Request" where
  "MarkFailedFromEngine r =
     r\<lparr>finish_reason := Failed, needs_replay_after_rewind := False, matched_stop_string_index := -1\<rparr>"

definition CompleteFailedTurnFromEngine :: "('s, 'g) Request \<Rightarrow> ('s, 'g) Request" where
  "CompleteFailedTurnFromEngine r =
     ReleaseTurnResources (r\<lparr>status := TurnComplete, finish_reason := Failed, needs_replay_after_rewind := False,
       matched_stop_string_index := -1\<rparr>)"

definition Schedule :: "('s, 'g) Request \<Rightarrow> 'e request_error + ('s, 'g) Request" where
  "Schedule r =
     (if status r \<noteq> Assigned then Inl not_assigned
      else if req_search r = None \<or> CurrentSequenceLength r = 0 then Inl no_tokens
      else Inr (r\<lparr>status := Active\<rparr>))"

section \<open>Rewinding to the start of a turn\<close>

record RequestRewindState =
  rw_search :: Search
  rw_sequence_length :: nat
  rw_retained_turn_count :: nat

text \<open>The search is rebuilt in freshly allocated memory from the host mirror of the tokens.\<close>

definition PrepareRewindToStartOfTurn ::
  "('s, 'e, 'g) RequestEnv \<Rightarrow> token list \<Rightarrow> u64 \<Rightarrow> ('s, 'g) Request \<Rightarrow> 'e request_error + RequestRewindState" where
  "PrepareRewindToStartOfTurn env memory turn_id r =
     (let before = takeWhile (\<lambda>b. fst b \<noteq> turn_id) (turn_boundaries r)
      in if length before = length (turn_boundaries r) then Inl (unknown_turn turn_id)
         else
           let n = snd (turn_boundaries r ! length before);
               s = new_search (env_search env) memory [0]
           in if n = 0 then Inr \<lparr>rw_search = s, rw_sequence_length = 0, rw_retained_turn_count = length before\<rparr>
              else if length (tokens_host r) < n then Inl mirror_out_of_sync
              else
                bind_result (lift_error search_failure (AppendTokens (env_search env) (take n (tokens_host r)) s)) (\<lambda>s1.
                  Inr \<lparr>rw_search = s1, rw_sequence_length = n, rw_retained_turn_count = length before\<rparr>))"

definition CommitRewind :: "RequestRewindState \<Rightarrow> ('s, 'g) Request \<Rightarrow> ('s, 'g) Request" where
  "CommitRewind state r =
     (let r1 = r\<lparr>req_search := Some (rw_search state), tokens_host := resize_tokens (rw_sequence_length state) (tokens_host r),
                 turn_boundaries := take (rw_retained_turn_count state) (turn_boundaries r),
                 processed_sequence_length := 0, prompt_sequence_length := 0, scheduled_token_count := 0,
                 turn_prompt_tokens := 0, turn_generated_tokens := 0\<rparr>
      in (ReleaseTurnResources r1)\<lparr>needs_replay_after_rewind := True\<rparr>)"

end
