(* ===== verification/Request_Step.thy ===== *)
theory Request_Step
  imports Request_State Logits_Penalty
begin

text \<open>
  One generation step of a \<open>Request\<close> (\<open>engine/request.cpp\<close>, \<open>engine/step_plan.h\<close>): proposing, staging and verifying
  speculative drafts, choosing the next token, staging the result and committing it; the chunks of the prompt that a step
  sends to the model; and the auxiliary decoder.
\<close>

section \<open>Plans and results\<close>

record RequestStepPlan =
  plan_request :: nat
  sequence_length_before :: int
  unprocessed_token_count :: nat
  draft_token_count :: nat
  packed_token_offset :: nat
  logits_row_index :: nat
  target_cache_slots :: nat
  whole_sequence_cache_slots :: nat
  plan_is_prefill :: bool
  newly_admitted :: bool
  scheduling_order :: nat

text \<open>The visible tokens are the used part of the array.\<close>

record RequestStepResult =
  res_token :: token
  token_appended :: bool
  res_done :: bool
  res_finish_reason :: GenerationFinishReason
  res_matched_stop_string_index :: int
  visible_tokens :: "token list"

definition to_int64 :: "int \<Rightarrow> int" where  \<comment> \<open>\<open>static_cast<int64_t>\<close>\<close>
  "to_int64 x = sint (word_of_int x :: 64 word)"

definition to_int32 :: "nat \<Rightarrow> int" where  \<comment> \<open>\<open>static_cast<int32_t>\<close>\<close>
  "to_int32 n = sint (word_of_nat n :: 32 word)"

section \<open>Proposing drafts\<close>

definition HasDelimitedGuidance :: "('s, 'e, 'g) RequestEnv \<Rightarrow> ('s, 'g) Request \<Rightarrow> bool" where
  "HasDelimitedGuidance env r \<longleftrightarrow>
     (case guidance r of None \<Rightarrow> False | Some g \<Rightarrow> delimited_opening_token (env_guidance env) g \<noteq> None)"

definition HasGuidance :: "('s, 'e, 'g) RequestEnv \<Rightarrow> ('s, 'g) Request \<Rightarrow> bool" where
  "HasGuidance env r \<longleftrightarrow>
     (case guidance r of None \<Rightarrow> False
      | Some g \<Rightarrow> \<not> HasDelimitedGuidance env r \<or> is_delimited_active (env_guidance env) g)"

definition DraftTokenValidationError :: "('s, 'e, 'g) RequestEnv \<Rightarrow> ('s, 'g) Request \<Rightarrow> string option" where
  "DraftTokenValidationError env r =
     (if guidance r \<noteq> None \<and> \<not> HasDelimitedGuidance env r then Some ''Speculative draft tokens are not supported with guidance.''
      else if (case guidance r of None \<Rightarrow> False | Some g \<Rightarrow> is_delimited_active (env_guidance env) g)
      then Some ''Speculative draft tokens are not supported inside a delimited region.''
      else if \<not> IsGreedy (turn_policy r) \<and> top_k (turn_policy r) \<le> 0
      then Some ''Sampled speculative draft tokens require a positive top_k.''
      else if \<not> flt_eq (repetition_penalty (turn_policy r)) (Fin 1) \<or> no_repeat_ngram_size (turn_policy r) > 0
      then Some ''Speculative draft tokens require repetition_penalty 1 and no_repeat_ngram_size 0.''
      else None)"

definition before_opener :: "('s, 'e, 'g) RequestEnv \<Rightarrow> ('s, 'g) Request \<Rightarrow> token list \<Rightarrow> token list" where
  "before_opener env r tokens =
     (case guidance r of
        None \<Rightarrow> tokens
      | Some g \<Rightarrow>
          (case delimited_opening_token (env_guidance env) g of
             None \<Rightarrow> tokens
           | Some opener \<Rightarrow> takeWhile (\<lambda>t. t \<noteq> opener) tokens))"

definition SetDraftTokens ::
  "('s, 'e, 'g) RequestEnv \<Rightarrow> token list \<Rightarrow> ('s, 'g) Request \<Rightarrow> 'e request_error + ('s, 'g) Request" where
  "SetDraftTokens env tokens r =
     (if staged_draft_count r \<noteq> 0 then Inl step_in_flight
      else if IsClosed (status r) then Inl request_closed
      else if tokens = [] then Inr (r\<lparr>draft_tokens := [], draft_token_distributions := []\<rparr>)
      else if \<not> IsExecuting (status r) \<or> IsPrefill r then Inl not_ready_to_decode
      else
        case DraftTokenValidationError env r of
          Some e \<Rightarrow> Inl (draft_rejected e)
        | None \<Rightarrow>
            if \<not> engine_alive r then Inl engine_destroyed
            else if env_max_drafts env = 0 then Inl drafts_unsupported
            else if length tokens > env_max_drafts env then Inl (too_many_drafts (env_max_drafts env))
            else
              let kept = before_opener env r tokens
              in bind_result (ValidateAppendLength (max_session_tokens env) (to_size (CurrentSequenceLength r)) (length kept))
                   (\<lambda>_. if host_capacity r < length (tokens_host r) + length kept then Inl mirror_capacity
                        else Inr (r\<lparr>draft_tokens := kept, draft_token_distributions := []\<rparr>)))"

definition aligned :: "TargetTokenSelection \<Rightarrow> bool" where
  "aligned d \<longleftrightarrow> sel_indices d \<noteq> [] \<and> length (sel_indices d) = length (sel_probs d)"

text \<open>The draw of one index from a discrete distribution is a parameter.\<close>

fun sample_drafts ::
  "(rat list \<Rightarrow> rng \<Rightarrow> nat \<times> rng) \<Rightarrow> TargetTokenSelection list \<Rightarrow> rng \<Rightarrow> 'e request_error + token list \<times> rng" where
  "sample_drafts draw [] g = Inr ([], g)"
| "sample_drafts draw (d # ds) g =
     (if \<not> aligned d then Inl bad_distribution
      else case draw (sel_probs d) g of (i, g1) \<Rightarrow>
        bind_result (sample_drafts draw ds g1) (\<lambda>(ts, g2). Inr (sel_indices d ! i # ts, g2)))"

definition SetDraftTokenDistributions ::
  "('s, 'e, 'g) RequestEnv \<Rightarrow> (rat list \<Rightarrow> rng \<Rightarrow> nat \<times> rng) \<Rightarrow> TargetTokenSelection list \<Rightarrow> ('s, 'g) Request
   \<Rightarrow> 'e request_error + ('s, 'g) Request" where
  "SetDraftTokenDistributions env draw distributions r =
     bind_result (sample_drafts draw distributions (draft_rng r)) (\<lambda>(tokens, g).
     bind_result (SetDraftTokens env tokens (r\<lparr>draft_rng := g\<rparr>)) (\<lambda>r1.
       Inr (r1\<lparr>draft_token_distributions := take (length (draft_tokens r1)) distributions\<rparr>)))"

definition SetSampledDraftTokens ::
  "('s, 'e, 'g) RequestEnv \<Rightarrow> token list \<Rightarrow> TargetTokenSelection list \<Rightarrow> ('s, 'g) Request
   \<Rightarrow> 'e request_error + ('s, 'g) Request" where
  "SetSampledDraftTokens env tokens distributions r =
     (if length tokens \<noteq> length distributions \<or> \<not> list_all aligned distributions then Inl bad_distribution
      else
        bind_result (SetDraftTokens env tokens r) (\<lambda>r1.
          Inr (r1\<lparr>draft_token_distributions := take (length (draft_tokens r1)) distributions\<rparr>)))"

definition StagedDraftTokens :: "('s, 'g) Request \<Rightarrow> token list" where
  "StagedDraftTokens r = take (staged_draft_count r) (draft_tokens r)"

definition StagedDraftTokenDistributions :: "('s, 'g) Request \<Rightarrow> TargetTokenSelection list" where
  "StagedDraftTokenDistributions r =
     take (min (staged_draft_count r) (length (draft_token_distributions r))) (draft_token_distributions r)"

definition IsStopToken :: "('s, 'e, 'g) RequestEnv \<Rightarrow> token \<Rightarrow> bool" where
  "IsStopToken env token \<longleftrightarrow> token \<in> set (eos_token_id (env_search env))"

section \<open>Staging and verifying drafts\<close>

definition AppendDraftsForTransaction ::
  "('s, 'e, 'g) RequestEnv \<Rightarrow> nat \<Rightarrow> ('s, 'g) Request \<Rightarrow> 'e request_error + ('s, 'g) Request" where
  "AppendDraftsForTransaction env draft_count r =
     (if draft_count = 0 then Inr r
      else if staged_draft_count r \<noteq> 0 \<or> draft_count > length (draft_tokens r) then Inl drafts_not_proposed
      else
        let drafts = take draft_count (draft_tokens r)
        in bind_result (on_search (AppendTokens (env_search env) drafts) r) (\<lambda>r1.
             Inr (r1\<lparr>tokens_host := tokens_host r1 @ drafts, staged_draft_count := draft_count,
                     accepted_draft_count := 0, evaluated_draft_count := 0, draft_verification := no_verification\<rparr>)))"

text \<open>Dropping the last tokens of the mirror: a length below zero wraps, and the resize throws.\<close>

definition drop_host_tokens :: "nat \<Rightarrow> ('s, 'g) Request \<Rightarrow> 'e request_error + ('s, 'g) Request" where
  "drop_host_tokens n r =
     (if length (tokens_host r) < n then Inl host_resize_failed
      else Inr (r\<lparr>tokens_host := take (length (tokens_host r) - n) (tokens_host r)\<rparr>))"

definition observe_stop ::
  "('s, 'e, 'g) RequestEnv \<Rightarrow> token \<Rightarrow> ('s, 'g) Request \<Rightarrow> 'e request_error + ('s, 'g) Request \<times> StopStringMatch option" where
  "observe_stop env token r =
     (case stop_controller r of
        None \<Rightarrow> Inr (r, None)
      | Some c \<Rightarrow>
          bind_result (lift_error controller_failure (ObserveToken (env_tokenizer env) token c))
            (\<lambda>(c1, m). Inr (r\<lparr>stop_controller := Some c1\<rparr>, m)))"

definition turn_limit_reached :: "('s, 'g) Request \<Rightarrow> nat \<Rightarrow> bool" where
  "turn_limit_reached r generated \<longleftrightarrow>
     (case max_generated_tokens (turn_policy r) of None \<Rightarrow> False | Some m \<Rightarrow> m \<le> generated)"

definition guide :: "('s, 'e, 'g) RequestEnv \<Rightarrow> token list \<Rightarrow> ('s, 'g) Request \<Rightarrow> ('s, 'g) Request" where
  "guide env tokens r =
     (case guidance r of None \<Rightarrow> r | Some g \<Rightarrow> r\<lparr>guidance := Some (commit_tokens (env_guidance env) tokens g)\<rparr>)"

definition check_completion :: "('s, 'e, 'g) RequestEnv \<Rightarrow> token \<Rightarrow> ('s, 'g) Request \<Rightarrow> ('s, 'g) Request" where
  "check_completion env token r =
     (if search_is_done r \<or> turn_limit_reached r (turn_generated_tokens r + accepted_draft_count r)
      then r\<lparr>draft_verification := (draft_verification r)\<lparr>completed_generation := True,
               dv_eos := search_is_done r \<and> token \<in> set (eos_token_id (env_search env))\<rparr>\<rparr>
      else r)"

definition verify_draft ::
  "('s, 'e, 'g) RequestEnv \<Rightarrow> token \<Rightarrow> ('s, 'g) Request \<Rightarrow> 'e request_error + ('s, 'g) Request" where
  "verify_draft env token r =
     bind_result (on_search (CommitToken (env_search env) token) (r\<lparr>evaluated_draft_count := evaluated_draft_count r + 1\<rparr>)) (\<lambda>r1.
       if CurrentSequenceLength r1 = CurrentSequenceLength r + 1 then
         bind_result (observe_stop env token (guide env [token]
             (r1\<lparr>tokens_host := tokens_host r1 @ [token], staged_draft_count := staged_draft_count r1 + 1,
                 accepted_draft_count := accepted_draft_count r1 + 1\<rparr>))) (\<lambda>(r2, m).
           case m of
             Some found \<Rightarrow>
               Inr (r2\<lparr>draft_verification := (draft_verification r2)\<lparr>stop_match_index := to_int32 (match_index found),
                         completed_generation := True\<rparr>\<rparr>)
           | None \<Rightarrow> Inr (check_completion env token r2))
       else if CurrentSequenceLength r1 \<noteq> CurrentSequenceLength r \<or> \<not> search_is_done r1 then Inl invalid_transition
       else Inr (check_completion env token r1))"

fun verify_loop ::
  "('s, 'e, 'g) RequestEnv \<Rightarrow> token list \<Rightarrow> ('s, 'g) Request \<Rightarrow> 'e request_error + ('s, 'g) Request" where
  "verify_loop env [] r = Inr r"
| "verify_loop env (token # tokens) r =
     bind_result (verify_draft env token r) (\<lambda>r1.
       if completed_generation (draft_verification r1) then Inr r1 else verify_loop env tokens r1)"

definition CommitAcceptedDraftsForTransaction ::
  "('s, 'e, 'g) RequestEnv \<Rightarrow> nat \<Rightarrow> ('s, 'g) Request \<Rightarrow> 'e request_error + ('s, 'g) Request" where
  "CommitAcceptedDraftsForTransaction env accepted_count r =
     (if accepted_count > staged_draft_count r then Inl too_many_accepted
      else if length (draft_tokens r) < accepted_count then Inl draft_out_of_bounds
      else
        let proposed_count = staged_draft_count r;
            committed_length = to_size (CurrentSequenceLength r - int proposed_count)
        in bind_result (drop_host_tokens proposed_count r) (\<lambda>r1.
           bind_result (on_search (RewindTo (env_search env) committed_length) r1) (\<lambda>r2.
           bind_result (verify_loop env (take accepted_count (draft_tokens r2))
               (r2\<lparr>staged_draft_count := 0, accepted_draft_count := 0, evaluated_draft_count := 0,
                   draft_verification := no_verification\<rparr>)) (\<lambda>r3.
             Inr (if \<not> completed_generation (draft_verification r3) \<and> accepted_count < proposed_count
                  then r3\<lparr>evaluated_draft_count := evaluated_draft_count r3 + 1\<rparr> else r3)))))"

definition RewindDraftsForTransaction ::
  "('s, 'e, 'g) RequestEnv \<Rightarrow> nat \<Rightarrow> ('s, 'g) Request \<Rightarrow> 'e request_error + ('s, 'g) Request" where
  "RewindDraftsForTransaction env accepted_count r =
     (if accepted_count > staged_draft_count r then Inl too_many_accepted
      else
        let rejected_count = staged_draft_count r - accepted_count;
            r1 = r\<lparr>accepted_draft_count := accepted_count, evaluated_draft_count := accepted_count\<rparr>
        in if rejected_count = 0 then Inr r1
           else
             bind_result (drop_host_tokens rejected_count (r1\<lparr>staged_draft_count := accepted_count\<rparr>))
               (on_search (RewindTo (env_search env) (to_size (CurrentSequenceLength r - int rejected_count)))))"

definition AppendAcceptedSampledToken :: "token \<Rightarrow> ('s, 'g) Request \<Rightarrow> 'e request_error + ('s, 'g) Request" where
  "AppendAcceptedSampledToken token r =
     (if accepted_draft_count r \<ge> length (draft_tokens r) then Inl too_many_accepted
      else Inr (r\<lparr>tokens_host := tokens_host r @ [token], staged_draft_count := staged_draft_count r + 1,
                  accepted_draft_count := accepted_draft_count r + 1, evaluated_draft_count := evaluated_draft_count r + 1\<rparr>))"

definition PromoteFinalStageAsAcceptedDraft ::
  "RequestStepResult \<Rightarrow> ('s, 'g) Request \<Rightarrow> 'e request_error + RequestStepResult \<times> ('s, 'g) Request" where
  "PromoteFinalStageAsAcceptedDraft result r =
     (if \<not> token_appended result then Inl promoted_without_token
      else bind_result (AppendAcceptedSampledToken (res_token result) r) (\<lambda>r1. Inr (result\<lparr>token_appended := False\<rparr>, r1)))"

definition MarkFinalStageAsEvaluatedNonAcceptedDraft :: "('s, 'g) Request \<Rightarrow> ('s, 'g) Request" where
  "MarkFinalStageAsEvaluatedNonAcceptedDraft r = r\<lparr>evaluated_draft_count := evaluated_draft_count r + 1\<rparr>"

definition DiscardStagedDrafts :: "('s, 'g) Request \<Rightarrow> 'e request_error + ('s, 'g) Request" where
  "DiscardStagedDrafts r =
     bind_result (if staged_draft_count r \<noteq> 0
         then bind_result (drop_host_tokens (staged_draft_count r) r) (\<lambda>r1. Inr (r1\<lparr>staged_draft_count := 0\<rparr>)) else Inr r) (\<lambda>r1.
       Inr (r1\<lparr>accepted_draft_count := 0, evaluated_draft_count := 0, draft_verification := no_verification\<rparr>))"

section \<open>The tokens a step sends to the model\<close>

definition unprocessed :: "('s, 'g) Request \<Rightarrow> nat" where
  "unprocessed r = to_size (CurrentSequenceLength r - processed_sequence_length r)"

definition ScheduledTokenCount_request :: "('s, 'g) Request \<Rightarrow> nat" where
  "ScheduledTokenCount_request r = min (scheduled_token_count r) (unprocessed r)"

definition ScheduleTokens :: "('s, 'e, 'g) RequestEnv \<Rightarrow> ('s, 'g) Request \<Rightarrow> ('s, 'g) Request" where
  "ScheduleTokens env r = r\<lparr>scheduled_token_count := ScheduledTokenCount (unprocessed r) (env_chunk_size env)\<rparr>"

definition BindScheduledTokenCount :: "nat \<Rightarrow> ('s, 'g) Request \<Rightarrow> 'e request_error + ('s, 'g) Request" where
  "BindScheduledTokenCount token_count r =
     (let remaining = CurrentSequenceLength r - processed_sequence_length r
            + to_int64 (int (length (draft_tokens r)) - int (staged_draft_count r))
      in if remaining \<le> 0 \<or> token_count = 0 \<or> token_count > to_size remaining then Inl bad_step_token_count
         else Inr (r\<lparr>scheduled_token_count := token_count\<rparr>))"

definition IsChunkComplete :: "('s, 'g) Request \<Rightarrow> bool" where
  "IsChunkComplete r \<longleftrightarrow>
     processed_sequence_length r + int (ScheduledTokenCount_request r) \<ge> CurrentSequenceLength r"

definition AdvanceChunk :: "('s, 'g) Request \<Rightarrow> ('s, 'g) Request" where
  "AdvanceChunk r = r\<lparr>processed_sequence_length := processed_sequence_length r + int (ScheduledTokenCount_request r)\<rparr>"

definition UnprocessedTokens :: "('s, 'e, 'g) RequestEnv \<Rightarrow> ('s, 'g) Request \<Rightarrow> token list" where
  "UnprocessedTokens env r =
     (case req_search r of
        None \<Rightarrow> []
      | Some s \<Rightarrow> take (ScheduledTokenCount_request r) (drop (nat (processed_sequence_length r)) (GetSequence (env_search env) 0 s)))"

definition UnprocessedTokensCpu :: "('s, 'g) Request \<Rightarrow> 'e request_error + token list" where
  "UnprocessedTokensCpu r =
     (let start = to_size (processed_sequence_length r);
          stop = start + ScheduledTokenCount_request r
      in if stop > length (tokens_host r) then Inl mirror_out_of_sync
         else Inr (take (stop - start) (drop start (tokens_host r))))"

definition StagePrefixAdoption :: "nat \<Rightarrow> ('s, 'g) Request \<Rightarrow> 'e request_error + ('s, 'g) Request" where
  "StagePrefixAdoption adopted_tokens r =
     (if \<not> IsQueued (status r) \<or> prefix_adoption_staged r \<or> processed_sequence_length r \<noteq> 0 \<or> adopted_tokens = 0
         \<or> adopted_tokens \<ge> to_size (CurrentSequenceLength r) \<or> adopted_tokens > length (tokens_host r)
      then Inl prefix_not_adoptable
      else
        let turn_start = length (tokens_host r) - turn_prompt_tokens r
        in Inr (r\<lparr>processed_sequence_length := int adopted_tokens, adopted_prefix_length := adopted_tokens,
                  turn_cached_prompt_tokens := (if adopted_tokens > turn_start then adopted_tokens - turn_start else 0),
                  prefix_adoption_staged := True\<rparr>))"

definition RollbackPrefixAdoption :: "('s, 'g) Request \<Rightarrow> ('s, 'g) Request" where
  "RollbackPrefixAdoption r =
     (if \<not> prefix_adoption_staged r then r
      else r\<lparr>processed_sequence_length := 0, adopted_prefix_length := 0, turn_cached_prompt_tokens := 0,
             prefix_adoption_staged := False, scheduled_token_count := 0\<rparr>)"

definition CommitPrefixAdoption :: "('s, 'g) Request \<Rightarrow> ('s, 'g) Request" where
  "CommitPrefixAdoption r = r\<lparr>prefix_adoption_staged := False\<rparr>"

section \<open>The auxiliary decoder\<close>

definition auxiliary_ready :: "('s, 'g) Request \<Rightarrow> bool" where
  "auxiliary_ready r \<longleftrightarrow> status r = Active \<and> processed_sequence_length r = CurrentSequenceLength r"

definition AppendTokensForAuxiliaryDecoder ::
  "('s, 'e, 'g) RequestEnv \<Rightarrow> token list \<Rightarrow> ('s, 'g) Request \<Rightarrow> 'e request_error + ('s, 'g) Request" where
  "AppendTokensForAuxiliaryDecoder env tokens r =
     (if \<not> auxiliary_ready r \<or> tokens = [] then Inl auxiliary_not_ready
      else
        bind_result (ValidateAppendLength (max_session_tokens env) (to_size (CurrentSequenceLength r)) (length tokens)) (\<lambda>_.
        bind_result (on_search (AppendTokens (env_search env) tokens) r) (\<lambda>r1.
          Inr (r1\<lparr>tokens_host := tokens_host r1 @ tokens\<rparr>))))"

text \<open>Tokens that stay on the device are mirrored by a placeholder that is not the padding token.\<close>

definition AppendDeviceTokensForAuxiliaryDecoder ::
  "('s, 'e, 'g) RequestEnv \<Rightarrow> token list \<Rightarrow> ('s, 'g) Request \<Rightarrow> 'e request_error + ('s, 'g) Request" where
  "AppendDeviceTokensForAuxiliaryDecoder env tokens r =
     (if \<not> auxiliary_ready r \<or> tokens = [] then Inl auxiliary_not_ready
      else
        bind_result (ValidateAppendLength (max_session_tokens env) (to_size (CurrentSequenceLength r)) (length tokens)) (\<lambda>_.
        bind_result (on_search (AppendTokens (env_search env) tokens) r) (\<lambda>r1.
          Inr (r1\<lparr>tokens_host := tokens_host r1
            @ replicate (length tokens) (if pad_token_id (env_search env) = 0 then 1 else 0)\<rparr>))))"

definition CreateAuxiliaryDecoderRequest ::
  "('s, 'e, 'g) RequestEnv \<Rightarrow> SearchDefaults \<Rightarrow> u64 \<Rightarrow> nat \<Rightarrow> token list \<Rightarrow> 'e request_error + ('s, 'g) Request" where
  "CreateAuxiliaryDecoderRequest env defaults seed_basis engine tokens =
     (let r = AttachToEngine engine (new_request env defaults seed_basis)
      in bind_result (AppendTokensForAuxiliaryDecoder env tokens (r\<lparr>status := Active\<rparr>)) (\<lambda>r1.
           Inr (r1\<lparr>prompt_sequence_length := CurrentSequenceLength r1\<rparr>)))"

definition RewindAuxiliaryDecoderTo ::
  "('s, 'e, 'g) RequestEnv \<Rightarrow> nat \<Rightarrow> ('s, 'g) Request \<Rightarrow> 'e request_error + ('s, 'g) Request" where
  "RewindAuxiliaryDecoderTo env sequence_length r =
     (if \<not> auxiliary_ready r \<or> sequence_length > to_size (processed_sequence_length r) then Inl auxiliary_not_ready
      else
        bind_result (on_search (RewindTo (env_search env) sequence_length) r) (\<lambda>r1.
          Inr (r1\<lparr>tokens_host := resize_tokens sequence_length (tokens_host r1),
                  processed_sequence_length := int sequence_length, scheduled_token_count := 0\<rparr>)))"

definition CommitAuxiliaryDecoderStep :: "('s, 'g) Request \<Rightarrow> ('s, 'g) Request" where
  "CommitAuxiliaryDecoderStep r = (AdvanceChunk r)\<lparr>scheduled_token_count := 0\<rparr>"

section \<open>Choosing and staging the next token\<close>

definition score_state :: "('s, 'e, 'g) RequestEnv \<Rightarrow> Search \<Rightarrow> bool list \<Rightarrow> flt list \<Rightarrow> flt ScoreState" where
  "score_state env s visited logits =
     \<lparr>score_rows = [logits], score_sequences = [GetSequence (env_search env) 0 s], score_length = int (current_length s),
      score_visited = visited\<rparr>"

text \<open>\<open>scale\<close> is the arithmetic of the repetition penalty, \<open>lowest\<close> the mask value, \<open>visited\<close> the search's scratch flags.\<close>

definition ApplyLogitsProcessors ::
  "('s, 'e, 'g) RequestEnv \<Rightarrow> flt \<Rightarrow> (flt \<Rightarrow> flt \<Rightarrow> flt) \<Rightarrow> bool list \<Rightarrow> flt list \<Rightarrow> bool \<Rightarrow> ('s, 'g) Request
   \<Rightarrow> 'e request_error + flt ScoreState \<times> ('s, 'g) Request" where
  "ApplyLogitsProcessors env lowest scale visited logits guidance_applied r =
     (case req_search r of
        None \<Rightarrow> Inl null_search
      | Some s \<Rightarrow>
          let (logits1, r1) =
                (case guidance r of
                   Some g \<Rightarrow> if guidance_applied then (logits, r)
                     else (case process_logits (env_guidance env) logits g of (l, g1) \<Rightarrow> (l, r\<lparr>guidance := Some g1\<rparr>))
                 | None \<Rightarrow> (logits, r));
              st0 = score_state env s visited logits1;
              eos = eos_token_id (env_search env);
              only_eos = (case guidance r1 of None \<Rightarrow> False | Some g \<Rightarrow> allows_only_tokens (env_guidance env) eos g);
              st1 = (if TurnEosFloor r1 > CurrentSequenceLength r1 \<and> \<not> only_eos
                     then ApplyMinLength lowest eos (TurnEosFloor r1) None st0 else st0);
              st2 = ApplyRepetitionPenalty (flt_eq (repetition_penalty (turn_policy r1)) (Fin 1))
                      (scale (repetition_penalty (turn_policy r1))) st1
          in Inr (ApplyNoRepeatNgram lowest (no_repeat_ngram_size (turn_policy r1)) st2, r1))"

definition with_rng ::
  "(Search \<Rightarrow> rng \<Rightarrow> search_error + Search \<times> rng) \<Rightarrow> ('s, 'g) Request \<Rightarrow> 'e request_error + ('s, 'g) Request" where
  "with_rng f r =
     (case req_search r of
        None \<Rightarrow> Inl null_search
      | Some s \<Rightarrow>
          (case f s (host_rng r) of
             Inl e \<Rightarrow> Inl (search_failure e)
           | Inr (s1, g) \<Rightarrow> Inr (r\<lparr>req_search := Some s1, host_rng := g\<rparr>)))"

definition SelectNextToken ::
  "('s, 'e, 'g) RequestEnv \<Rightarrow> (flt, 'c, rng) Sampling \<Rightarrow> flt list list \<Rightarrow> ('s, 'g) Request
   \<Rightarrow> 'e request_error + ('s, 'g) Request" where
  "SelectNextToken env S scores r =
     (let p = env_search env; pol = turn_policy r
      in if IsGreedy pol then on_search (SelectTop p (\<lambda>a b. flt_less b a) scores) r
         else if flt_less (Fin 0) (top_p pol) \<and> flt_less (top_p pol) (Fin 1) \<and> top_k pol > 1
         then with_rng (SampleTopKTopP p S scores (top_k pol) (top_p pol) (temperature pol)) r
         else if top_k pol > 1 then with_rng (SampleTopK p S scores (top_k pol) (temperature pol)) r
         else with_rng (SampleTopP p S scores (top_p pol) (temperature pol)) r)"

definition StageVisibleTokens ::
  "nat \<Rightarrow> token option \<Rightarrow> ('s, 'g) Request \<Rightarrow> RequestStepResult \<Rightarrow> 'e request_error + RequestStepResult" where
  "StageVisibleTokens committed_count sampled_token r result =
     (if committed_count + (if sampled_token \<noteq> None then 1 else 0) > kMaxGeneratedTokensPerStep then Inl too_many_visible_tokens
      else if committed_count > length (tokens_host r) then Inl missing_committed_tokens
      else Inr (result\<lparr>visible_tokens := drop (length (tokens_host r) - committed_count) (tokens_host r)
             @ (case sampled_token of None \<Rightarrow> [] | Some t \<Rightarrow> [t])\<rparr>))"

definition CommitGuidanceToken :: "('s, 'e, 'g) RequestEnv \<Rightarrow> RequestStepResult \<Rightarrow> ('s, 'g) Request \<Rightarrow> ('s, 'g) Request" where
  "CommitGuidanceToken env result r = (if token_appended result then guide env [res_token result] r else r)"

definition last_next_token :: "('s, 'g) Request \<Rightarrow> token option" where
  "last_next_token r =
     (case req_search r of None \<Rightarrow> None | Some s \<Rightarrow> if next_tokens s = [] then None else Some (last (next_tokens s)))"

definition is_eos_token :: "('s, 'e, 'g) RequestEnv \<Rightarrow> token option \<Rightarrow> bool" where
  "is_eos_token env t \<longleftrightarrow> (case t of None \<Rightarrow> False | Some x \<Rightarrow> x \<in> set (eos_token_id (env_search env)))"

text \<open>Why a step ends the turn: a stop string before an end token, before the turn's limit, before the session's limit.\<close>

definition classify_finish ::
  "('s, 'e, 'g) RequestEnv \<Rightarrow> token option \<Rightarrow> nat \<Rightarrow> StopStringMatch option \<Rightarrow> ('s, 'g) Request
   \<Rightarrow> GenerationFinishReason \<times> int" where
  "classify_finish env next generated found r =
     (case found of
        Some m \<Rightarrow> (StopString, to_int32 (match_index m))
      | None \<Rightarrow>
          (if search_is_done r \<and> is_eos_token env next then EosToken
           else if turn_limit_reached r generated then TurnLimit
           else if to_size (CurrentSequenceLength r) \<ge> max_session_tokens env \<or> search_is_done r then ContextLimit
           else ReasonNone, -1))"

definition staged_result :: "token \<Rightarrow> bool \<Rightarrow> GenerationFinishReason \<times> int \<Rightarrow> RequestStepResult" where
  "staged_result token grew finish =
     \<lparr>res_token = token, token_appended = grew, res_done = (fst finish \<noteq> ReasonNone), res_finish_reason = fst finish,
      res_matched_stop_string_index = snd finish, visible_tokens = []\<rparr>"

definition StageGeneration ::
  "('s, 'e, 'g) RequestEnv \<Rightarrow> int \<Rightarrow> ('s, 'g) Request \<Rightarrow> 'e request_error + RequestStepResult \<times> ('s, 'g) Request" where
  "StageGeneration env length_before r =
     (if req_search r = None then Inl null_search
      else
        let grew = CurrentSequenceLength r > length_before;
            next = last_next_token r;
            token = (case next of None \<Rightarrow> 0 | Some t \<Rightarrow> t);
            generated = turn_generated_tokens r + accepted_draft_count r + (if grew then 1 else 0)
        in bind_result (if grew then observe_stop env token r else Inr (r, None)) (\<lambda>(r1, found).
           bind_result (StageVisibleTokens (accepted_draft_count r1) (if grew then Some token else None) r1
               (staged_result token grew (classify_finish env next generated found r1))) (\<lambda>result.
             Inr (result, CommitGuidanceToken env result r1))))"

definition ApplyLogitsForTransaction ::
  "('s, 'e, 'g) RequestEnv \<Rightarrow> (flt, 'c, rng) Sampling \<Rightarrow> flt \<Rightarrow> (flt \<Rightarrow> flt \<Rightarrow> flt) \<Rightarrow> bool list \<Rightarrow> flt list \<Rightarrow> bool
   \<Rightarrow> ('s, 'g) Request \<Rightarrow> 'e request_error + RequestStepResult \<times> ('s, 'g) Request" where
  "ApplyLogitsForTransaction env S lowest scale visited logits guidance_applied r =
     bind_result (ApplyLogitsProcessors env lowest scale visited logits guidance_applied r) (\<lambda>(st, r1).
     bind_result (SelectNextToken env S (score_rows st) r1) (\<lambda>r2.
       StageGeneration env (CurrentSequenceLength r) r2))"

definition StageGenerationForTransaction ::
  "('s, 'e, 'g) RequestEnv \<Rightarrow> RequestStepPlan \<Rightarrow> ('s, 'g) Request \<Rightarrow> 'e request_error + RequestStepResult \<times> ('s, 'g) Request" where
  "StageGenerationForTransaction env plan r =
     StageGeneration env (sequence_length_before plan + int (accepted_draft_count r)) r"

definition completion_finish :: "('s, 'g) Request \<Rightarrow> GenerationFinishReason \<times> int" where
  "completion_finish r =
     (if stop_match_index (draft_verification r) \<ge> 0 then (StopString, stop_match_index (draft_verification r))
      else (if turn_limit_reached r (turn_generated_tokens r + accepted_draft_count r) then TurnLimit
            else if dv_eos (draft_verification r) then EosToken else ContextLimit, -1))"

definition StageDraftCompletionForTransaction :: "('s, 'g) Request \<Rightarrow> 'e request_error + RequestStepResult" where
  "StageDraftCompletionForTransaction r =
     (if \<not> completed_generation (draft_verification r) then Inl completion_too_early
      else StageVisibleTokens (accepted_draft_count r) None r ((staged_result 0 False (completion_finish r))\<lparr>res_done := True\<rparr>))"

section \<open>Committing a step\<close>

definition CommitStep :: "RequestStepPlan \<Rightarrow> RequestStepResult \<Rightarrow> ('s, 'g) Request \<Rightarrow> ('s, 'g) Request" where
  "CommitStep plan result r =
     (let accepted = accepted_draft_count r;
          r1 = r\<lparr>turn_generated_tokens := turn_generated_tokens r + accepted\<rparr>;
          r2 = (if token_appended result
                then r1\<lparr>tokens_host := tokens_host r1 @ [res_token result], turn_generated_tokens := turn_generated_tokens r1 + 1\<rparr>
                else r1);
          r3 = r2\<lparr>processed_sequence_length :=
                   to_int64 (int (target_cache_slots plan) - (int (draft_token_count plan) - int accepted)),
                 needs_replay_after_rewind := False, status := (if res_done result then TurnComplete else Active)\<rparr>;
          r4 = (if res_done result
                then ReleaseTurnResources (r3\<lparr>finish_reason := res_finish_reason result,
                       matched_stop_string_index := res_matched_stop_string_index result\<rparr>)
                else r3)
      in r4\<lparr>draft_tokens := [], draft_token_distributions := [], staged_draft_count := 0, accepted_draft_count := 0,
            evaluated_draft_count := 0, draft_verification := no_verification\<rparr>)"

text \<open>The completion of a step of a static batch, which has no transaction.\<close>

definition CompleteGeneration ::
  "('s, 'e, 'g) RequestEnv \<Rightarrow> ('s, 'g) Request \<Rightarrow> 'e request_error + RequestStepResult \<times> ('s, 'g) Request" where
  "CompleteGeneration env r =
     (case req_search r of
        None \<Rightarrow> Inl null_search
      | Some s \<Rightarrow>
          let r0 = r\<lparr>needs_replay_after_rewind := False\<rparr>;
              new_token_count = current_length s - length (tokens_host r);
              new_tokens = drop (length (next_tokens s) - new_token_count) (next_tokens s)
          in if new_token_count > length (next_tokens s) then Inl search_produced_too_few
             else
               let r1 = (if new_token_count = 0 then r0
                         else (guide env new_tokens (r0\<lparr>tokens_host := tokens_host r0 @ new_tokens\<rparr>))
                                \<lparr>turn_generated_tokens := turn_generated_tokens r0 + new_token_count\<rparr>);
                   limit = turn_limit_reached r1 (turn_generated_tokens r1);
                   full = (current_length s \<ge> max_session_tokens env);
                   r2 = (if search_done s \<or> limit \<or> full
                         then ReleaseTurnResources (r1\<lparr>status := TurnComplete,
                                finish_reason := (if search_done s \<and> is_eos_token env (last_next_token r) then EosToken
                                                  else if limit then TurnLimit else ContextLimit)\<rparr>)
                         else r1)
               in bind_result (StageVisibleTokens new_token_count None r2
                      \<lparr>res_token = (if new_token_count = 0 then 0 else last new_tokens), token_appended = (new_token_count \<noteq> 0),
                       res_done = IsTurnComplete (status r2), res_finish_reason = finish_reason r2,
                       res_matched_stop_string_index = -1, visible_tokens = []\<rparr>)
                    (\<lambda>result. Inr (result, r2)))"

definition PrepareGeneration ::
  "('s, 'e, 'g) RequestEnv \<Rightarrow> flt \<Rightarrow> (flt \<Rightarrow> flt \<Rightarrow> flt) \<Rightarrow> bool list \<Rightarrow> flt list \<Rightarrow> bool \<Rightarrow> ('s, 'g) Request
   \<Rightarrow> 'e request_error + flt ScoreState \<times> ('s, 'g) Request" where
  "PrepareGeneration env lowest scale visited logits guidance_applied r =
     ApplyLogitsProcessors env lowest scale visited logits guidance_applied
       (r\<lparr>processed_sequence_length := CurrentSequenceLength r\<rparr>)"

definition GenerateNextTokens ::
  "('s, 'e, 'g) RequestEnv \<Rightarrow> (flt, 'c, rng) Sampling \<Rightarrow> flt \<Rightarrow> (flt \<Rightarrow> flt \<Rightarrow> flt) \<Rightarrow> bool list \<Rightarrow> flt list \<Rightarrow> bool
   \<Rightarrow> ('s, 'g) Request \<Rightarrow> 'e request_error + ('s, 'g) Request" where
  "GenerateNextTokens env S lowest scale visited logits guidance_applied r =
     bind_result (PrepareGeneration env lowest scale visited logits guidance_applied r) (\<lambda>(st, r1).
       SelectNextToken env S (score_rows st) r1)"

record RequestStateSnapshot =
  snap_status :: RequestStatus
  snap_current_sequence_length :: int
  snap_processed_sequence_length :: int
  snap_is_prefill :: bool
  snap_has_current_turn :: bool
  snap_current_turn_id :: u64
  snap_finish_reason :: GenerationFinishReason
  snap_matched_stop_string_index :: int

definition Snapshot :: "('s, 'g) Request \<Rightarrow> RequestStateSnapshot" where
  "Snapshot r =
     \<lparr>snap_status = status r, snap_current_sequence_length = CommittedSequenceLength r,
      snap_processed_sequence_length = processed_sequence_length r, snap_is_prefill = IsPrefill r,
      snap_has_current_turn = has_current_turn r, snap_current_turn_id = current_turn_id r,
      snap_finish_reason = finish_reason r, snap_matched_stop_string_index = matched_stop_string_index r\<rparr>"

end
