(* ===== verification/Speculative_Sampling.thy ===== *)
theory Speculative_Sampling
  imports Request_State
begin

text \<open>
  Verifying sampled drafts (\<open>decoding/speculative_sampling.h\<close>): sparse distributions, the acceptance probability, the
  correction distribution, and the verification of a proposal that was not sampled. The random source is a parameter: the
  draw of an index with given weights (\<open>std::discrete_distribution\<close>) and of a number of the unit interval
  (\<open>std::uniform_real_distribution\<close>). Probabilities are exact numbers; the rounding of \<open>float\<close> is not modelled.
\<close>

section \<open>Sparse distributions\<close>

record 'r Random =
  draw_index :: "rat list \<Rightarrow> 'r \<Rightarrow> nat \<times> 'r"
  draw_uniform :: "'r \<Rightarrow> rat \<times> 'r"

fun GetSparseTokenProbability :: "token list \<Rightarrow> rat list \<Rightarrow> token \<Rightarrow> rat" where
  "GetSparseTokenProbability (i # is) (p # ps) token = (if i = token then p else GetSparseTokenProbability is ps token)"
| "GetSparseTokenProbability _ _ token = 0"

definition SampleSparseToken :: "'r Random \<Rightarrow> token list \<Rightarrow> rat list \<Rightarrow> 'r \<Rightarrow> token \<times> 'r" where
  "SampleSparseToken R indices probs g = (case draw_index R probs g of (i, g1) \<Rightarrow> (indices ! i, g1))"

definition residual :: "token list \<Rightarrow> rat list \<Rightarrow> token list \<Rightarrow> rat list \<Rightarrow> rat list" where
  "residual target_indices target_probs draft_indices draft_probs =
     map2 (\<lambda>i p. let diff = p - GetSparseTokenProbability draft_indices draft_probs i in if diff > 0 then diff else 0)
       target_indices target_probs"

definition correction_weights :: "token list \<Rightarrow> rat list \<Rightarrow> token list \<Rightarrow> rat list \<Rightarrow> rat list" where
  "correction_weights target_indices target_probs draft_indices draft_probs =
     (let res = residual target_indices target_probs draft_indices draft_probs in if sum_list res > 0 then res else target_probs)"

definition SampleCorrectionToken ::
  "'r Random \<Rightarrow> token list \<Rightarrow> rat list \<Rightarrow> token list \<Rightarrow> rat list \<Rightarrow> 'r \<Rightarrow> token \<times> 'r" where
  "SampleCorrectionToken R target_indices target_probs draft_indices draft_probs g =
     SampleSparseToken R target_indices (correction_weights target_indices target_probs draft_indices draft_probs) g"

definition SampleCategoricalToken :: "'r Random \<Rightarrow> token list \<Rightarrow> rat list \<Rightarrow> 'r \<Rightarrow> 'e request_error + token \<times> 'r" where
  "SampleCategoricalToken R indices probs g =
     (if indices = [] \<or> length indices \<noteq> length probs then Inl bad_distribution
      else Inr (case draw_index R probs g of (i, g1) \<Rightarrow> (indices ! i, g1)))"

text \<open>The categorical distribution of a processed row is a parameter.\<close>

definition ComputeTargetTokenSelection ::
  "('f \<Rightarrow> 'f \<Rightarrow> bool) \<Rightarrow> ('f list \<Rightarrow> token list \<times> rat list) \<Rightarrow> bool \<Rightarrow> 'f list \<Rightarrow> TargetTokenSelection" where
  "ComputeTargetTokenSelection exceeds categorical greedy processed_logits =
     (if greedy
      then \<lparr>sel_greedy_token = (case processed_logits of [] \<Rightarrow> 0 | x # xs \<Rightarrow> int (argmax_loop exceeds xs 1 x 0)), sel_indices = [], sel_probs = []\<rparr>
      else case categorical processed_logits of (indices, probs) \<Rightarrow> \<lparr>sel_greedy_token = -1, sel_indices = indices, sel_probs = probs\<rparr>)"

definition GetTargetTokenProbability :: "TargetTokenSelection \<Rightarrow> token \<Rightarrow> rat" where
  "GetTargetTokenProbability selection token = GetSparseTokenProbability (sel_indices selection) (sel_probs selection) token"

definition SampleTargetToken :: "'r Random \<Rightarrow> TargetTokenSelection \<Rightarrow> 'r \<Rightarrow> 'e request_error + token \<times> 'r" where
  "SampleTargetToken R selection g = SampleCategoricalToken R (sel_indices selection) (sel_probs selection) g"

definition DensifyTargetTokenSelection :: "TargetTokenSelection \<Rightarrow> nat \<Rightarrow> rat list" where
  "DensifyTargetTokenSelection selection vocab_size =
     fold (\<lambda>(i, p) dense. dense[nat i := p]) (zip (sel_indices selection) (sel_probs selection)) (replicate vocab_size 0)"

definition ComputeAcceptProb :: "rat \<Rightarrow> rat \<Rightarrow> rat" where
  "ComputeAcceptProb p_target p_draft = (if p_draft \<le> 0 then 1 else min 1 (p_target / p_draft))"

definition BuildCorrectionDistribution :: "rat list \<Rightarrow> rat list \<Rightarrow> rat list" where
  "BuildCorrectionDistribution p_target p_draft =
     (let out = map2 (\<lambda>p q. if p - q > 0 then p - q else 0) p_target p_draft; s = sum_list out
      in if s > 0 then map (\<lambda>v. v * (1 / s)) out else p_target)"

section \<open>Verifying a proposal that was not sampled\<close>

record DeterministicProposalVerification =
  dpv_accepted_count :: nat
  dpv_evaluated_count :: nat
  dpv_final_token :: token
  dpv_used_bonus :: bool

text \<open>The loop over the proposal; \<open>targets\<close> are the row of the first token and those after each proposed token.\<close>

fun verify_proposal ::
  "'r Random \<Rightarrow> token list \<Rightarrow> TargetTokenSelection list \<Rightarrow> 'r \<Rightarrow> DeterministicProposalVerification \<Rightarrow> 'r list
   \<Rightarrow> 'e request_error + DeterministicProposalVerification \<times> 'r list \<times> 'r" where
  "verify_proposal R (t # ts) (target # targets) g result states =
     bind_result (SampleTargetToken R target g) (\<lambda>(token, g1).
       let result1 = result\<lparr>dpv_evaluated_count := dpv_evaluated_count result + 1, dpv_final_token := token\<rparr>;
           states1 = states @ [g1]
       in if token \<noteq> t then Inr (result1, states1, g1)
          else verify_proposal R ts targets g1 (result1\<lparr>dpv_accepted_count := dpv_accepted_count result1 + 1\<rparr>) states1)"
| "verify_proposal R [] (target # targets) g result states =
     bind_result (SampleTargetToken R target g) (\<lambda>(token, g1).
       Inr (result\<lparr>dpv_final_token := token, dpv_used_bonus := True\<rparr>, states @ [g1], g1))"
| "verify_proposal R ts [] g result states = Inl bad_distribution"

definition VerifyDeterministicProposal ::
  "'r Random \<Rightarrow> token list \<Rightarrow> TargetTokenSelection \<Rightarrow> TargetTokenSelection list \<Rightarrow> 'r
   \<Rightarrow> 'e request_error + DeterministicProposalVerification \<times> 'r list \<times> 'r" where
  "VerifyDeterministicProposal R proposal_tokens first_target subsequent_targets g =
     (if proposal_tokens = [] \<or> length subsequent_targets < length proposal_tokens then Inl bad_distribution
      else verify_proposal R proposal_tokens (first_target # subsequent_targets) g
             \<lparr>dpv_accepted_count = 0, dpv_evaluated_count = 0, dpv_final_token = -1, dpv_used_bonus = False\<rparr> [])"

text \<open>Ordinary sampling: one draw per row, in order, with the state of the generator after each.\<close>

fun sample_rows :: "'r Random \<Rightarrow> TargetTokenSelection list \<Rightarrow> 'r \<Rightarrow> 'e request_error + (token \<times> 'r) list" where
  "sample_rows R [] g = Inr []"
| "sample_rows R (target # targets) g =
     bind_result (SampleTargetToken R target g) (\<lambda>(t, g1). bind_result (sample_rows R targets g1) (\<lambda>xs. Inr ((t, g1) # xs)))"

text \<open>The verification of a proposal makes the draws of ordinary sampling and stops after the first that was not proposed.\<close>

lemma verify_proposal_samples:
  assumes "verify_proposal R ts targets g result states = (Inr (res, st, g') :: 'e request_error + _)"
  shows "\<exists>n xs. n \<le> length ts \<and> sample_rows R (take (Suc n) targets) g = (Inr xs :: 'e request_error + _)
    \<and> map fst xs = take n ts @ [dpv_final_token res] \<and> dpv_accepted_count res = dpv_accepted_count result + n
    \<and> st = states @ map snd xs \<and> g' = snd (last xs)"
  using assms
proof (induction ts arbitrary: targets g result states)
  case Nil
  then show ?case by (cases targets) (auto simp: bind_result_Inr_iff intro!: exI[of _ 0])
next
  case (Cons t ts)
  then obtain target rest where targets: "targets = target # rest" by (cases targets) auto
  with Cons.prems obtain token g1 where d: "SampleTargetToken R target g = (Inr (token, g1) :: 'e request_error + _)"
    by (auto simp: bind_result_Inr_iff)
  let ?r1 = "result\<lparr>dpv_evaluated_count := dpv_evaluated_count result + 1, dpv_final_token := token\<rparr>"
  show ?case
  proof (cases "token = t")
    case False
    then show ?thesis using Cons.prems d by (intro exI[of _ 0]) (auto simp: Let_def targets)
  next
    case True
    then have "verify_proposal R ts rest g1 (?r1\<lparr>dpv_accepted_count := dpv_accepted_count ?r1 + 1\<rparr>) (states @ [g1])
        = (Inr (res, st, g') :: 'e request_error + _)" using Cons.prems d by (simp add: targets Let_def)
    from Cons.IH[OF this] obtain n xs where n: "n \<le> length ts" "sample_rows R (take (Suc n) rest) g1 = (Inr xs :: 'e request_error + _)"
      "map fst xs = take n ts @ [dpv_final_token res]" "dpv_accepted_count res = dpv_accepted_count result + 1 + n"
      "st = (states @ [g1]) @ map snd xs" "g' = snd (last xs)" by auto
    have "xs \<noteq> []" using n(3) by auto
    then show ?thesis using n d True by (intro exI[of _ "Suc n"] exI[of _ "(token, g1) # xs"]) (auto simp: targets)
  qed
qed

section \<open>Probability masses\<close>

text \<open>
  A distribution over tokens, and the mass that a token gets when an index is drawn with weights, as
  \<open>std::discrete_distribution\<close> specifies it.
\<close>

definition distribution :: "token list \<Rightarrow> rat list \<Rightarrow> bool" where
  "distribution indices probs \<longleftrightarrow>
     length indices = length probs \<and> distinct indices \<and> (\<forall>p \<in> set probs. 0 \<le> p) \<and> sum_list probs = 1"

definition drawn_mass :: "token list \<Rightarrow> rat list \<Rightarrow> token \<Rightarrow> rat" where
  "drawn_mass indices weights t = sum_list (map2 (\<lambda>i w. if i = t then w else 0) indices weights) / sum_list weights"

text \<open>
  The mass of a token under ratio verification: it was drafted and accepted, or another draft was rejected and it was
  drawn as the correction.
\<close>

definition verified_mass :: "TargetTokenSelection \<Rightarrow> TargetTokenSelection \<Rightarrow> token \<Rightarrow> rat" where
  "verified_mass target draft t =
     (let q = drawn_mass (sel_indices draft) (sel_probs draft);
          accept = (\<lambda>d. ComputeAcceptProb (GetTargetTokenProbability target d) (GetTargetTokenProbability draft d))
      in q t * accept t + (\<Sum>d \<leftarrow> sel_indices draft. q d * (1 - accept d))
           * drawn_mass (sel_indices target)
               (correction_weights (sel_indices target) (sel_probs target) (sel_indices draft) (sel_probs draft)) t)"

lemma sparse_outside: "t \<notin> set is \<Longrightarrow> GetSparseTokenProbability is ps t = 0"
  by (induction "is" ps t rule: GetSparseTokenProbability.induct) auto

lemma sparse_map2:
  assumes "length is = length ws" and "distinct is"
  shows "sum_list (map2 (\<lambda>i w. if i = t then w else 0) is ws) = GetSparseTokenProbability is ws t"
  using assms
proof (induction "is" ws rule: list_induct2)
  case (Cons i "is" w ws)
  then show ?case using sparse_outside[of i "is" ws] by auto
qed simp

lemma sparse_sum:
  assumes "length is = length ws" and "distinct is" and "set is \<subseteq> A" and "finite A" and "\<And>i. i \<in> A \<Longrightarrow> i \<notin> set is \<Longrightarrow> f i 0 = 0"
  shows "sum_list (map2 f is ws) = (\<Sum>i \<in> A. f i (GetSparseTokenProbability is ws i))"
  using assms
proof (induction "is" ws arbitrary: A f rule: list_induct2)
  case Nil
  then show ?case by simp
next
  case (Cons i "is" w ws)
  have 1: "sum_list (map2 f is ws) = (\<Sum>j \<in> A - {i}. f j (GetSparseTokenProbability is ws j))"
    using Cons.prems by (intro Cons.IH) auto
  have 2: "(\<Sum>j \<in> A. f j (GetSparseTokenProbability (i # is) (w # ws) j))
      = f i w + (\<Sum>j \<in> A - {i}. f j (GetSparseTokenProbability is ws j))"
    using Cons.prems by (subst sum.remove[of A i]) (auto intro!: sum.cong)
  show ?case using 1 2 by simp
qed

lemma sparse_nonneg: "\<forall>p \<in> set ps. 0 \<le> p \<Longrightarrow> 0 \<le> GetSparseTokenProbability is ps t"
  by (induction "is" ps t rule: GetSparseTokenProbability.induct) auto

lemma drawn_distribution: "distribution is ps \<Longrightarrow> drawn_mass is ps t = GetSparseTokenProbability is ps t"
  by (simp add: distribution_def drawn_mass_def sparse_map2)

lemma sum_weights:
  assumes "length is = length ws" and "distinct is" and "set is \<subseteq> A" and "finite A"
  shows "sum_list ws = (\<Sum>i \<in> A. GetSparseTokenProbability is ws i)"
proof -
  have "sum_list (map2 (\<lambda>i w. w) is ws) = sum_list ws" using map_snd_zip[OF assms(1)] by (simp add: case_prod_beta' comp_def)
  with sparse_sum[OF assms, of "\<lambda>i w. w"] show ?thesis by simp
qed

lemma distribution_sum:
  "distribution is ps \<Longrightarrow> set is \<subseteq> A \<Longrightarrow> finite A \<Longrightarrow> (\<Sum>i \<in> A. GetSparseTokenProbability is ps i) = 1"
  using sum_weights[of "is" ps A] by (simp add: distribution_def)

text \<open>The mass that acceptance keeps, and the mass that the correction adds.\<close>

lemma accept_mass: "0 \<le> p \<Longrightarrow> 0 \<le> q \<Longrightarrow> q * ComputeAcceptProb p q = min p q"
  by (cases "q = 0") (auto simp: ComputeAcceptProb_def min_def field_simps)

lemma residual_mass:
  assumes ti: "length ti = length tp" "distinct ti" and q: "\<And>i. 0 \<le> GetSparseTokenProbability di dp i"
  shows "GetSparseTokenProbability ti (residual ti tp di dp) t
      = max (GetSparseTokenProbability ti tp t - GetSparseTokenProbability di dp t) 0"
    and "length (residual ti tp di dp) = length ti"
proof -
  have "GetSparseTokenProbability ti (map2 (\<lambda>i p. let diff = p - Q i in if diff > 0 then diff else 0) ti tp) t
      = max (GetSparseTokenProbability ti tp t - Q t) 0" if "\<And>i. 0 \<le> Q i" for Q :: "token \<Rightarrow> rat"
    using ti by (induction ti tp rule: list_induct2) (use that in \<open>auto simp: Let_def max_def\<close>)
  from this[OF q] show "GetSparseTokenProbability ti (residual ti tp di dp) t
      = max (GetSparseTokenProbability ti tp t - GetSparseTokenProbability di dp t) 0" by (simp add: residual_def)
  show "length (residual ti tp di dp) = length ti" using ti by (simp add: residual_def)
qed

text \<open>What target and draft have in common, and the sum of the residual.\<close>

definition shared_mass :: "token list \<Rightarrow> rat list \<Rightarrow> token list \<Rightarrow> rat list \<Rightarrow> token \<Rightarrow> rat" where
  "shared_mass ti tp di dp i = min (GetSparseTokenProbability ti tp i) (GetSparseTokenProbability di dp i)"

lemma residual_shared:
  assumes ti: "distribution ti tp" and di: "distribution di dp"
  defines "A \<equiv> set ti \<union> set di"
  shows "GetSparseTokenProbability ti (residual ti tp di dp) i = GetSparseTokenProbability ti tp i - shared_mass ti tp di dp i"
    and "length (residual ti tp di dp) = length ti"
    and "sum_list (residual ti tp di dp) = (\<Sum>i \<in> A. GetSparseTokenProbability ti tp i - shared_mass ti tp di dp i)"
proof -
  have len: "length ti = length tp" "distinct ti" using ti by (simp_all add: distribution_def)
  have q: "0 \<le> GetSparseTokenProbability di dp i" for i using sparse_nonneg di by (auto simp: distribution_def)
  show res: "GetSparseTokenProbability ti (residual ti tp di dp) i = GetSparseTokenProbability ti tp i - shared_mass ti tp di dp i" for i
    using residual_mass(1)[OF len, of di dp i] q by (simp add: shared_mass_def max_def min_def)
  show rl: "length (residual ti tp di dp) = length ti" using residual_mass(2)[OF len, of di dp] q by simp
  show "sum_list (residual ti tp di dp) = (\<Sum>i \<in> A. GetSparseTokenProbability ti tp i - shared_mass ti tp di dp i)"
    using sum_weights[OF rl[symmetric] len(2), of A] res by (simp add: A_def)
qed

lemma rejected_mass:
  assumes ti: "distribution ti tp" and di: "distribution di dp"
  shows "(\<Sum>d \<leftarrow> di. GetSparseTokenProbability di dp d * (1 - ComputeAcceptProb (GetSparseTokenProbability ti tp d) (GetSparseTokenProbability di dp d)))
    = sum_list (residual ti tp di dp)"
proof -
  define P where "P = GetSparseTokenProbability ti tp"
  define Q where "Q = GetSparseTokenProbability di dp"
  define A where "A = set ti \<union> set di"
  have nn: "0 \<le> P i" "0 \<le> Q i" for i unfolding P_def Q_def using sparse_nonneg ti di by (auto simp: distribution_def)
  have A: "finite A" "set ti \<subseteq> A" "set di \<subseteq> A" by (auto simp: A_def)
  have "Q i = 0" if "i \<notin> set di" for i using that by (simp add: Q_def sparse_outside)
  then have "(\<Sum>d \<leftarrow> di. Q d * (1 - ComputeAcceptProb (P d) (Q d))) = (\<Sum>d \<in> A. Q d * (1 - ComputeAcceptProb (P d) (Q d)))"
    using A di by (auto simp: sum_list_distinct_conv_sum_set distribution_def intro!: sum.mono_neutral_left)
  also have "\<dots> = (\<Sum>d \<in> A. Q d - min (P d) (Q d))" by (rule sum.cong) (use accept_mass nn in \<open>simp_all add: right_diff_distrib\<close>)
  also have "\<dots> = sum_list (residual ti tp di dp)"
    using distribution_sum[OF ti A(2,1)] distribution_sum[OF di A(3,1)] residual_shared(3)[OF ti di]
    by (simp add: sum_subtractf P_def Q_def A_def shared_mass_def)
  finally show ?thesis by (simp add: P_def Q_def)
qed

lemma corrected_mass:
  assumes ti: "distribution ti tp" and di: "distribution di dp"
  shows "sum_list (residual ti tp di dp) * drawn_mass ti (correction_weights ti tp di dp) t
    = GetSparseTokenProbability ti tp t - shared_mass ti tp di dp t"
proof (cases "sum_list (residual ti tp di dp) > 0")
  case True
  have "distinct ti" using ti by (simp add: distribution_def)
  with True show ?thesis
    using sparse_map2[OF residual_shared(2)[OF ti di, symmetric], of t] residual_shared(1)[OF ti di]
    by (simp add: correction_weights_def drawn_mass_def)
next
  case False
  let ?D = "\<lambda>i. GetSparseTokenProbability ti tp i - shared_mass ti tp di dp i" and ?A = "set ti \<union> set di"
  have pos: "0 \<le> ?D i" for i by (simp add: shared_mass_def min_def)
  have z: "sum_list (residual ti tp di dp) = 0" using False residual_shared(3)[OF ti di] sum_nonneg[of ?A ?D] pos by simp
  have "?D t = 0"
  proof (cases "t \<in> ?A")
    case True
    then show ?thesis using z residual_shared(3)[OF ti di] pos sum_nonneg_eq_0_iff[of ?A ?D] by auto
  next
    case False
    then show ?thesis by (simp add: sparse_outside shared_mass_def)
  qed
  with z show ?thesis by simp
qed

section \<open>Dense distributions\<close>

lemma dense_nth:
  assumes "length (sel_indices sel) = length (sel_probs sel)" and "distinct (sel_indices sel)"
    and "\<forall>i \<in> set (sel_indices sel). 0 \<le> i \<and> i < int v" and "k < v"
  shows "DensifyTargetTokenSelection sel v ! k = GetTargetTokenProbability sel (int k)"
proof -
  have "fold (\<lambda>(i, p) dense. dense[nat i := p]) (zip is ps) d ! k
      = (if int k \<in> set is then GetSparseTokenProbability is ps (int k) else d ! k)" if "length is = length ps" "distinct is" "\<forall>i \<in> set is. 0 \<le> i \<and> i < int v" "length d = v" for "is" ps and d :: "rat list"
    using that
  proof (induction "is" ps arbitrary: d rule: list_induct2)
    case (Cons i "is" p ps)
    have "nat i = k \<longleftrightarrow> i = int k" using Cons.prems(2) by auto
    then show ?case using Cons assms(4) by (auto simp: nth_list_update)
  qed simp
  from this[OF assms(1-3), of "replicate v 0"] show ?thesis
    using assms(4) sparse_outside by (auto simp: DensifyTargetTokenSelection_def GetTargetTokenProbability_def)
qed

lemma length_dense [simp]: "length (DensifyTargetTokenSelection sel v) = v"
proof -
  have "length (fold (\<lambda>(i, p) dense. dense[nat i := p]) xs d) = length d" for xs :: "(token \<times> rat) list" and d
    by (induction xs arbitrary: d) (auto simp: case_prod_beta')
  then show ?thesis by (simp add: DensifyTargetTokenSelection_def)
qed

text \<open>The dense correction distribution has the masses of the sparse one.\<close>

lemma dense_correction:
  assumes ti: "distribution (sel_indices target) (sel_probs target)" and di: "distribution (sel_indices draft) (sel_probs draft)"
    and v: "\<forall>i \<in> set (sel_indices target) \<union> set (sel_indices draft). 0 \<le> i \<and> i < int v" and k: "k < v"
  shows "BuildCorrectionDistribution (DensifyTargetTokenSelection target v) (DensifyTargetTokenSelection draft v) ! k
    = drawn_mass (sel_indices target) (correction_weights (sel_indices target) (sel_probs target) (sel_indices draft) (sel_probs draft)) (int k)"
proof -
  define ti tp di dp where defs: "ti = sel_indices target" "tp = sel_probs target" "di = sel_indices draft" "dp = sel_probs draft"
  let ?P = "GetSparseTokenProbability ti tp" and ?Q = "GetSparseTokenProbability di dp"
  have t: "distribution ti tp" and d: "distribution di dp" using ti di by (simp_all add: defs)
  have P: "DensifyTargetTokenSelection target v ! j = ?P (int j)" "DensifyTargetTokenSelection draft v ! j = ?Q (int j)" if "j < v" for j
    using dense_nth[of target v j] dense_nth[of draft v j] t d v that by (simp_all add: distribution_def defs GetTargetTokenProbability_def)
  let ?out = "map2 (\<lambda>p q. if p - q > 0 then p - q else 0) (DensifyTargetTokenSelection target v) (DensifyTargetTokenSelection draft v)"
  have out: "?out ! j = ?P (int j) - shared_mass ti tp di dp (int j)" if "j < v" for j
    using P that by (simp add: shared_mass_def min_def)
  have "sum_list ?out = (\<Sum>j \<in> {0..<v}. ?P (int j) - shared_mass ti tp di dp (int j))"
    unfolding sum_list_sum_nth using out by simp
  also have "\<dots> = (\<Sum>i \<in> int ` {0..<v}. ?P i - shared_mass ti tp di dp i)" by (simp add: sum.reindex)
  also have "\<dots> = (\<Sum>i \<in> set ti \<union> set di. ?P i - shared_mass ti tp di dp i)"
  proof (rule sum.mono_neutral_right)
    show "set ti \<union> set di \<subseteq> int ` {0..<v}"
    proof
      fix i
      assume "i \<in> set ti \<union> set di"
      then have "0 \<le> i" "i < int v" using v by (auto simp: defs)
      then have "i = int (nat i)" "nat i \<in> {0..<v}" by auto
      then show "i \<in> int ` {0..<v}" by blast
    qed
  qed (auto simp: sparse_outside shared_mass_def)
  also have "\<dots> = sum_list (residual ti tp di dp)" using residual_shared(3)[OF t d] by simp
  finally have s: "sum_list ?out = sum_list (residual ti tp di dp)" .
  show ?thesis
  proof (cases "sum_list (residual ti tp di dp) > 0")
    case True
    have "BuildCorrectionDistribution (DensifyTargetTokenSelection target v) (DensifyTargetTokenSelection draft v) ! k
        = (?P (int k) - shared_mass ti tp di dp (int k)) / sum_list (residual ti tp di dp)"
      using True k s out[OF k] by (simp add: BuildCorrectionDistribution_def Let_def)
    also have "\<dots> = drawn_mass ti (correction_weights ti tp di dp) (int k)"
      unfolding corrected_mass[OF t d, symmetric] using True by simp
    finally show ?thesis by (simp add: defs)
  next
    case False
    then have "BuildCorrectionDistribution (DensifyTargetTokenSelection target v) (DensifyTargetTokenSelection draft v) ! k = ?P (int k)"
      using s P(1)[OF k] by (simp add: BuildCorrectionDistribution_def Let_def)
    then show ?thesis using drawn_distribution[OF t] False by (simp add: correction_weights_def defs[symmetric])
  qed
qed

text \<open>
  C3. Ratio verification samples the target: when a draft is drawn from the draft distribution, accepted with the computed
  probability, and otherwise replaced by a draw from the correction weights, every token comes out with exactly its
  probability under the target distribution, whatever the draft distribution is.
\<close>

theorem ratio_verification_exact:
  assumes "distribution (sel_indices target) (sel_probs target)" and "distribution (sel_indices draft) (sel_probs draft)"
  shows "verified_mass target draft t = GetTargetTokenProbability target t"
proof -
  have nn: "0 \<le> GetTargetTokenProbability target t" "0 \<le> GetTargetTokenProbability draft t"
    using sparse_nonneg assms by (auto simp: distribution_def GetTargetTokenProbability_def)
  show ?thesis
    using corrected_mass[OF assms, of t] rejected_mass[OF assms] accept_mass[OF nn]
    by (simp add: verified_mass_def Let_def drawn_distribution[OF assms(2)] GetTargetTokenProbability_def shared_mass_def)
qed

theorem ratio_verification_exact_witness:
  "verified_mass \<lparr>sel_greedy_token = -1, sel_indices = [3, 5, 8], sel_probs = [1/2, 1/4, 1/4]\<rparr>
     \<lparr>sel_greedy_token = -1, sel_indices = [5, 3, 7], sel_probs = [3/4, 1/8, 1/8]\<rparr> 3 = 1/2"
proof -
  have "distribution [3, 5, 8] [1/2, 1/4, 1/4]" "distribution [5, 3, 7] [3/4, 1/8, 1/8]" by (simp_all add: distribution_def)
  then show ?thesis
    using ratio_verification_exact[of "\<lparr>sel_greedy_token = -1, sel_indices = [3, 5, 8], sel_probs = [1/2, 1/4, 1/4]\<rparr>"
        "\<lparr>sel_greedy_token = -1, sel_indices = [5, 3, 7], sel_probs = [3/4, 1/8, 1/8]\<rparr>" 3]
    by (simp add: GetTargetTokenProbability_def)
qed

end
