(* ===== verification/Scheduled_Step.thy ===== *)
theory Scheduled_Step
  imports Request_Step Speculative_Sampling
begin

text \<open>
  What a batch does with one of its Requests in a step (\<open>engine/scheduled_requests.cpp\<close>): save it and stage its drafts,
  apply a pending seed, verify the drafts against the rows of the target model, choose and stage the next token, and
  commit. The rows of a batch are independent; the batched sampler on the device is not modelled, and the target's choice
  for a row, or its distribution, is a parameter.
\<close>

definition begin_request :: "('s, 'e, 'g) RequestEnv \<Rightarrow> nat \<Rightarrow> ('s, 'g) Request \<Rightarrow> 'e request_error + ('s, 'g) Request" where
  "begin_request env draft_count r = bind_result (SaveStateForTransaction_request r) (AppendDraftsForTransaction env draft_count)"

definition seed_request :: "('s, 'g) Request \<Rightarrow> 'e request_error + ('s, 'g) Request" where
  "seed_request r =
     (if pending_reseed r = None \<or> \<not> IsChunkComplete r then Inr r else ApplyPendingSeedForTransaction False False r)"

text \<open>The longest prefix of the proposal that the target model would have produced on its own.\<close>

fun accepted_prefix :: "token list \<Rightarrow> token list \<Rightarrow> nat" where
  "accepted_prefix (row # rows) (draft # drafts) = (if row \<noteq> draft then 0 else accepted_prefix rows drafts + 1)"
| "accepted_prefix _ _ = 0"

definition verify_greedy ::
  "('s, 'e, 'g) RequestEnv \<Rightarrow> token list \<Rightarrow> ('s, 'g) Request \<Rightarrow> 'e request_error + token \<times> ('s, 'g) Request" where
  "verify_greedy env row_argmax r =
     (let accepted_count = accepted_prefix row_argmax (StagedDraftTokens r)
      in bind_result (CommitAcceptedDraftsForTransaction env accepted_count r) (\<lambda>r1. Inr (row_argmax ! accepted_count, r1)))"

text \<open>
  What the last loop of the batch does with a greedy Request whose rows were verified. Its two other tests hold of such a
  Request and are not repeated: drafts are only scheduled with a complete chunk, and the token, being the position of the
  largest logit of a row, is not negative (-1 marks the Requests without drafts, see \<open>undrafted_step\<close>).
\<close>

definition finish_greedy ::
  "('s, 'e, 'g) RequestEnv \<Rightarrow> RequestStepPlan \<Rightarrow> token \<Rightarrow> ('s, 'g) Request \<Rightarrow> 'e request_error + RequestStepResult \<times> ('s, 'g) Request" where
  "finish_greedy env plan greedy_token r =
     (if completed_generation (draft_verification r)
      then bind_result (StageDraftCompletionForTransaction r) (\<lambda>result. Inr (result, r))
      else bind_result (on_search (CommitToken (env_search env) greedy_token) r) (StageGenerationForTransaction env plan))"

definition commit_request ::
  "RequestStepPlan \<Rightarrow> RequestStepResult \<times> ('s, 'g) Request \<Rightarrow> 'e request_error + ('s, 'g) Request" where
  "commit_request plan staged =
     bind_result (CommitStateForTransaction_request (snd staged)) (\<lambda>r1. Inr (CommitStep plan (fst staged) r1))"

text \<open>A step of a greedy Request that proposed drafts.\<close>

definition drafted_step ::
  "('s, 'e, 'g) RequestEnv \<Rightarrow> token list \<Rightarrow> RequestStepPlan \<Rightarrow> ('s, 'g) Request \<Rightarrow> 'e request_error + ('s, 'g) Request" where
  "drafted_step env row_argmax plan r =
     bind_result (begin_request env (draft_token_count plan) r) (\<lambda>r1.
     bind_result (seed_request r1) (\<lambda>r2.
     bind_result (verify_greedy env row_argmax r2) (\<lambda>(greedy_token, r3).
     bind_result (finish_greedy env plan greedy_token r3) (commit_request plan))))"

text \<open>A step of a Request without drafts, from its row of logits.\<close>

definition undrafted_step ::
  "('s, 'e, 'g) RequestEnv \<Rightarrow> (flt, 'c, rng) Sampling \<Rightarrow> flt \<Rightarrow> (flt \<Rightarrow> flt \<Rightarrow> flt) \<Rightarrow> bool list \<Rightarrow> flt list \<Rightarrow> bool
   \<Rightarrow> RequestStepPlan \<Rightarrow> ('s, 'g) Request \<Rightarrow> 'e request_error + ('s, 'g) Request" where
  "undrafted_step env S lowest scale visited logits guidance_applied plan r =
     bind_result (begin_request env 0 r) (\<lambda>r1.
     bind_result (seed_request r1) (\<lambda>r2.
     bind_result (ApplyLogitsForTransaction env S lowest scale visited logits guidance_applied r2) (commit_request plan)))"

text \<open>A step whose tokens end inside the prompt: its logits are discarded.\<close>

definition no_result :: RequestStepResult where
  "no_result = staged_result 0 False (ReasonNone, -1)"

definition chunk_step :: "('s, 'e, 'g) RequestEnv \<Rightarrow> RequestStepPlan \<Rightarrow> ('s, 'g) Request \<Rightarrow> 'e request_error + ('s, 'g) Request" where
  "chunk_step env plan r =
     bind_result (begin_request env 0 r) (\<lambda>r1. commit_request plan (no_result, r1))"

text \<open>
  Sampled drafts. A row is decided by the ratio of target and draft when the drafts came with distributions, else by a
  draw from the target: the draft is accepted when it is the token drawn.
\<close>

definition select_row_token ::
  "'r Random \<Rightarrow> TargetTokenSelection \<Rightarrow> token \<Rightarrow> TargetTokenSelection option \<Rightarrow> 'r \<Rightarrow> 'e request_error + token \<times> bool \<times> 'r" where
  "select_row_token R selection draft_token draft_distribution g =
     (case draft_distribution of
        Some d \<Rightarrow>
          let target_probability = GetTargetTokenProbability selection draft_token;
              draft_probability = GetSparseTokenProbability (sel_indices d) (sel_probs d) draft_token;
              (u, g1) = draw_uniform R g
          in if u < ComputeAcceptProb target_probability draft_probability then Inr (draft_token, True, g1)
             else (case SampleCorrectionToken R (sel_indices selection) (sel_probs selection) (sel_indices d) (sel_probs d) g1 of
                     (t, g2) \<Rightarrow> Inr (t, False, g2))
      | None \<Rightarrow> bind_result (SampleTargetToken R selection g) (\<lambda>(t, g1). Inr (t, t = draft_token, g1)))"

text \<open>
  The loop over the rows: the tokens selected, the state of the generator after each, the number of confirmed drafts and
  the state at the end. \<open>target\<close> gives the distribution of a row, \<open>budget\<close> the tokens the turn still allows.
\<close>

fun select_rows ::
  "'r Random \<Rightarrow> (token \<Rightarrow> bool) \<Rightarrow> (nat \<Rightarrow> TargetTokenSelection) \<Rightarrow> nat \<Rightarrow> nat \<Rightarrow> token list \<Rightarrow> TargetTokenSelection option list \<Rightarrow> 'r
   \<Rightarrow> 'e request_error + token list \<times> 'r list \<times> nat \<times> 'r" where
  "select_rows R is_stop target row budget (draft # drafts) dists g =
     (if budget = 0 then Inr ([], [], 0, g)
      else
        bind_result (select_row_token R (target row) draft (case dists of [] \<Rightarrow> None | d # _ \<Rightarrow> d) g) (\<lambda>(t, accepted, g1).
          if \<not> accepted \<or> is_stop t then Inr ([t], [g1], 0, g1)
          else
            bind_result (select_rows R is_stop target (row + 1) (budget - 1) drafts (tl dists) g1) (\<lambda>(ts, gs, n, g2).
              Inr (t # ts, g1 # gs, n + 1, g2))))"
| "select_rows R is_stop target row budget [] dists g =
     (if budget = 0 then Inr ([], [], 0, g)
      else bind_result (SampleTargetToken R (target row) g) (\<lambda>(t, g1). Inr ([t], [g1], 0, g1)))"

definition select_sampled ::
  "('s, 'e, 'g) RequestEnv \<Rightarrow> rng Random \<Rightarrow> (nat \<Rightarrow> TargetTokenSelection) \<Rightarrow> nat \<Rightarrow> ('s, 'g) Request
   \<Rightarrow> 'e request_error + (token list \<times> nat \<times> rng list) \<times> ('s, 'g) Request" where
  "select_sampled env R target draft_count r =
     (let drafts = StagedDraftTokens r;
          draft_distributions = StagedDraftTokenDistributions r;
          ratio_verification = (length draft_distributions = draft_count);
          token_budget = RemainingTurnTokenBudget r
      in bind_result (RewindDraftsForTransaction env 0 r) (\<lambda>r1.
         bind_result (select_rows R (IsStopToken env) target 0 token_budget drafts
             (if ratio_verification then map Some draft_distributions else []) (host_rng r1)) (\<lambda>(selected, rngs, confirmed, g).
           Inr ((selected, confirmed, if stop_controller r1 = None then [] else rngs), r1\<lparr>host_rng := g\<rparr>))))"

text \<open>
  The tokens selected for the rows, of which the first \<open>confirmed\<close> are accepted drafts, are committed one stage at a time.
  At least one token is selected while the turn has budget left, which it has whenever its Request is scheduled; the empty
  selection, for which the source would go on as without drafts, does not occur.
\<close>

fun sampled_stages ::
  "('s, 'e, 'g) RequestEnv \<Rightarrow> RequestStepPlan \<Rightarrow> nat \<Rightarrow> rng list \<Rightarrow> nat \<Rightarrow> token list \<Rightarrow> ('s, 'g) Request
   \<Rightarrow> 'e request_error + RequestStepResult \<times> ('s, 'g) Request" where
  "sampled_stages env plan confirmed rngs stage [] r = Inr (no_result, r)"
| "sampled_stages env plan confirmed rngs stage (t # ts) r =
     bind_result (on_search (CommitToken (env_search env) t) r) (\<lambda>r1.
     bind_result (StageGenerationForTransaction env plan r1) (\<lambda>(result, r2).
       if res_finish_reason result = StopString \<or> ts = [] then
         (if res_finish_reason result = StopString \<and> ts \<noteq> [] \<and> length rngs \<le> stage then Inl missing_rng_checkpoint
          else
            bind_result
              (if stage < confirmed then PromoteFinalStageAsAcceptedDraft result r2
               else Inr (result, if stage < draft_token_count plan then MarkFinalStageAsEvaluatedNonAcceptedDraft r2 else r2))
              (\<lambda>(result1, r3).
                Inr (result1, if res_finish_reason result = StopString \<and> ts \<noteq> [] then r3\<lparr>host_rng := rngs ! stage\<rparr> else r3)))
       else if \<not> token_appended result \<or> res_done result then Inl invalid_transition
       else bind_result (AppendAcceptedSampledToken (res_token result) r2) (sampled_stages env plan confirmed rngs (stage + 1) ts)))"

definition sampled_step ::
  "('s, 'e, 'g) RequestEnv \<Rightarrow> rng Random \<Rightarrow> (nat \<Rightarrow> TargetTokenSelection) \<Rightarrow> RequestStepPlan \<Rightarrow> ('s, 'g) Request
   \<Rightarrow> 'e request_error + ('s, 'g) Request" where
  "sampled_step env R target plan r =
     bind_result (begin_request env (draft_token_count plan) r) (\<lambda>r1.
     bind_result (seed_request r1) (\<lambda>r2.
     bind_result (select_sampled env R target (draft_token_count plan) r2) (\<lambda>((selected, confirmed, rngs), r3).
     bind_result (sampled_stages env plan confirmed rngs 0 selected r3) (commit_request plan))))"

end
