(* ===== verification/Request_Rollback.thy ===== *)
theory Request_Rollback
  imports Scheduled_Step
begin

text \<open>
  Rolling back a step of a Request, and rolling back the admission of a turn. A step relation collects what a step may do
  between saving and restoring; an invariant relates every state it can reach to the saved one.
\<close>

section \<open>What a search does during a step\<close>

lemma select_with_keeps:
  assumes ok: "search_ok p s" and sel: "select_with p pick s g = Inr (s', g')"
  shows "search_ok p s' \<and> keeps (current_length s) s s' \<and> current_length s \<le> current_length s'"
proof -
  have b: "batch_size p = 1" using ok by (simp add: search_ok_def)
  obtain s1 g1 where s1: "select_row p pick 0 (s, g) = Inr (s1, g1)"
    and rest: "(if \<not> search_done s1 then bind_result (AppendNextTokensToSequences p s1) (\<lambda>s2. Inr (s2, g1)) else Inr (s1, g1)) = Inr (s', g')"
    using sel by (auto simp: select_with_def b bind_result_Inr_iff)
  have 1: "search_ok p s1 \<and> keeps (current_length s) s s1 \<and> current_length s1 = current_length s"
    using s1 ok SetNextToken_one[OF ok]
    by (auto simp: select_row_def PadIfAlreadyEOS_def bind_result_Inr_iff search_ok_def keeps_def saved_def split: if_splits)
  show ?thesis
  proof (cases "search_done s1")
    case True
    then show ?thesis using rest 1 by simp
  next
    case False
    then have a: "AppendNextTokensToSequences p s1 = Inr s'" using rest by (auto simp: bind_result_Inr_iff)
    then have "current_length s1 < max_length p" using AppendNext_one[of p s1] 1 by (auto simp: search_ok_def split: if_splits)
    with AppendNext_appended[of p s1] 1 a show ?thesis by (auto simp: appended_def dest: keeps_trans)
  qed
qed

lemma AppendTokens_length:
  assumes ok: "search_ok p s" and a: "AppendTokens p ts s = Inr s'"
  shows "current_length s' = current_length s + length ts \<and> seq_of s' = seq_of s @ ts \<and> live s'"
proof -
  have b: "batch_size p = 1" using ok by (simp add: search_ok_def)
  have "current_length s + length ts \<le> max_length p"
    using a append_columns_too_many[OF ok, of "length ts" ts "length ts"] b
    by (cases "current_length s + length ts \<le> max_length p") (auto simp: AppendTokens_def Let_def)
  from AppendTokens_spec[OF ok this] a show ?thesis by auto
qed

lemma SelectTop_keeps:
  "search_ok p s \<Longrightarrow> SelectTop p ex scores s = Inr s' \<Longrightarrow>
    search_ok p s' \<and> keeps (current_length s) s s' \<and> current_length s \<le> current_length s'"
  unfolding SelectTop_def bind_result_Inr_iff using select_with_keeps by fastforce

lemma Sample_select:
  "SampleTopK p S scores k t = select_with p (\<lambda>i. draw_token S (compute_categorical S (scores ! i) k (zero_score S) t))"
  "SampleTopP p S scores tp t = select_with p (\<lambda>i. draw_token S (compute_categorical S (scores ! i) 0 tp t))"
  "SampleTopKTopP p S scores k tp t = select_with p (\<lambda>i. draw_token S (compute_categorical S (scores ! i) k tp t))"
  by (rule ext, rule ext, simp add: SampleTopK_def SampleTopP_def SampleTopKTopP_def)+

lemma SelectNextToken_sampled:
  "\<not> IsGreedy (turn_policy r) \<Longrightarrow> \<exists>pick. SelectNextToken env S scores r = with_rng (select_with (env_search env) pick) r"
  unfolding SelectNextToken_def Sample_select Let_def by (auto simp del: not_less)

section \<open>The frame of a step\<close>

text \<open>What a step leaves alone: everything but these fields.\<close>

definition step_frame :: "('s, 'g) Request \<Rightarrow> ('s, 'g) Request" where
  "step_frame r = r\<lparr>tokens_host := [], req_search := None, scheduled_token_count := 0, staged_draft_count := 0,
     accepted_draft_count := 0, evaluated_draft_count := 0, draft_verification := no_verification,
     pending_reseed_applied := False, host_rng := transaction_rng r, guidance := None, stop_controller := None\<rparr>"

text \<open>The controller moves forward only by observing tokens.\<close>

definition observed_since ::
  "('s, 'e, 'g) RequestEnv \<Rightarrow> 's StopStringController option \<Rightarrow> 's StopStringController option \<Rightarrow> bool" where
  "observed_since env c c' \<longleftrightarrow>
     (case (c, c') of (None, None) \<Rightarrow> True
      | (Some x, Some y) \<Rightarrow> \<exists>ts. run_result (observe_only (env_tokenizer env)) ts x = Inr y
      | _ \<Rightarrow> False)"

lemma observed_since_refl [simp]: "observed_since env c c"
  by (cases c) (auto simp: observed_since_def intro: exI[of _ "[]"])

lemma observe_stop_facts:
  assumes "observe_stop env t r = Inr (r', m)"
  shows "r' = r\<lparr>stop_controller := stop_controller r'\<rparr>"
    and "observed_since env c (stop_controller r) \<Longrightarrow> observed_since env c (stop_controller r')"
proof -
  show "r' = r\<lparr>stop_controller := stop_controller r'\<rparr>"
    using assms by (auto simp: observe_stop_def bind_result_Inr_iff split: option.splits)
  assume c: "observed_since env c (stop_controller r)"
  show "observed_since env c (stop_controller r')"
  proof (cases "stop_controller r")
    case None
    then show ?thesis using assms c by (auto simp: observe_stop_def)
  next
    case (Some y)
    then obtain x ts where x: "c = Some x" "run_result (observe_only (env_tokenizer env)) ts x = Inr y"
      using c by (auto simp: observed_since_def split: option.splits)
    obtain y' where y': "ObserveToken (env_tokenizer env) t y = Inr (y', m)" "stop_controller r' = Some y'"
      using assms Some by (auto simp: observe_stop_def bind_result_Inr_iff)
    have "run_result (observe_only (env_tokenizer env)) (ts @ [t]) x = Inr y'"
      using x y' by (simp add: run_result_append observe_only_def)
    with x(1) y'(2) show ?thesis by (auto simp: observed_since_def)
  qed
qed

lemma guide_facts:
  "guide env ts r = r\<lparr>guidance := guidance (guide env ts r)\<rparr>" "guidance (guide env ts r) = None \<longleftrightarrow> guidance r = None"
  by (auto simp: guide_def split: option.splits)

section \<open>The steps of a transaction\<close>

text \<open>The state reached from the saved request \<open>r1\<close>; \<open>n\<close> is the length of the sequence at the save.\<close>

definition within_step :: "('s, 'e, 'g) RequestEnv \<Rightarrow> nat \<Rightarrow> ('s, 'g) Request \<Rightarrow> ('s, 'g) Request \<Rightarrow> bool" where
  "within_step env n r1 r \<longleftrightarrow>
     (\<exists>s1 s. req_search r1 = Some s1 \<and> req_search r = Some s \<and> search_ok (env_search env) s \<and> keeps n s1 s
        \<and> n + staged_draft_count r \<le> current_length s)
     \<and> n + staged_draft_count r \<le> length (tokens_host r) \<and> take n (tokens_host r) = take n (tokens_host r1)
     \<and> step_frame r = step_frame r1 \<and> (guidance r = None \<longleftrightarrow> guidance r1 = None)
     \<and> observed_since env (stop_controller r1) (stop_controller r)"

text \<open>
  The operations of a step that return. What an operation leaves that throws half-way (a tokenizer or a grammar that fails
  in the middle of a loop) is not represented.
\<close>

inductive step_op :: "('s, 'e, 'g) RequestEnv \<Rightarrow> ('s, 'g) Request \<Rightarrow> ('s, 'g) Request \<Rightarrow> bool" for env where
  bind_count: "BindScheduledTokenCount k r = (Inr r' :: 'e request_error + _) \<Longrightarrow> step_op env r r'"
| seed: "ApplyPendingSeedForTransaction dev chk r = (Inr r' :: 'e request_error + _) \<Longrightarrow> step_op env r r'"
| drafts: "AppendDraftsForTransaction env k r = Inr r' \<Longrightarrow> step_op env r r'"
| accept: "CommitAcceptedDraftsForTransaction env k r = Inr r' \<Longrightarrow> step_op env r r'"
| rewind: "RewindDraftsForTransaction env k r = Inr r' \<Longrightarrow> step_op env r r'"
| select: "ApplyLogitsProcessors env lowest scale visited logits applied r = Inr (st, r1)
    \<Longrightarrow> SelectNextToken env (S :: (flt, token list \<times> rat list, rng) Sampling) (score_rows st) r1 = Inr r'
    \<Longrightarrow> step_op env r r'"
| stage: "StageGeneration env len r = Inr (res, r') \<Longrightarrow> step_op env r r'"
| sampled: "int (length (tokens_host r)) < CurrentSequenceLength r
    \<Longrightarrow> AppendAcceptedSampledToken t r = (Inr r' :: 'e request_error + _) \<Longrightarrow> step_op env r r'"
| promote: "int (length (tokens_host r)) < CurrentSequenceLength r
    \<Longrightarrow> PromoteFinalStageAsAcceptedDraft res r = (Inr (res', r') :: 'e request_error + _) \<Longrightarrow> step_op env r r'"
| mark: "step_op env r (MarkFinalStageAsEvaluatedNonAcceptedDraft r)"

lemma on_search_Inr:
  "on_search f r = Inr r' \<longleftrightarrow> (\<exists>s s'. req_search r = Some s \<and> f s = Inr s' \<and> r' = r\<lparr>req_search := Some s'\<rparr>)"
  by (auto simp: on_search_def split: option.splits sum.splits)

lemma with_rng_Inr:
  "with_rng f r = Inr r' \<longleftrightarrow> (\<exists>s s' g. req_search r = Some s \<and> f s (host_rng r) = Inr (s', g) \<and> r' = r\<lparr>req_search := Some s', host_rng := g\<rparr>)"
  by (auto simp: with_rng_def split: option.splits sum.splits)

lemma within_stepI:
  assumes w: "within_step env n r1 r" and s: "req_search r' = Some s'" "req_search r = Some s" "search_ok (env_search env) s'"
    "keeps n s s'" "n + staged_draft_count r' \<le> current_length s'"
    and h: "n + staged_draft_count r' \<le> length (tokens_host r')" "take n (tokens_host r') = take n (tokens_host r)"
    and f: "step_frame r' = step_frame r" "guidance r' = None \<longleftrightarrow> guidance r = None"
    and o: "observed_since env (stop_controller r1) (stop_controller r')"
  shows "within_step env n r1 r'"
proof -
  obtain s1 where s1: "req_search r1 = Some s1" "keeps n s1 s" using w s(2) by (auto simp: within_step_def)
  have "keeps n s1 s'" using s1(2) s(4) by (rule keeps_trans)
  then show ?thesis using w s h f o s1 by (auto simp: within_step_def)
qed

lemma within_search:
  assumes w: "within_step env n r1 r" and f: "on_search f r = Inr r'"
    and k: "\<And>s s'. search_ok (env_search env) s \<Longrightarrow> n + staged_draft_count r \<le> current_length s \<Longrightarrow> f s = Inr s' \<Longrightarrow>
      search_ok (env_search env) s' \<and> keeps n s s' \<and> n + staged_draft_count r \<le> current_length s'"
  shows "within_step env n r1 r'"
proof -
  obtain s s' where s: "req_search r = Some s" "f s = Inr s'" "r' = r\<lparr>req_search := Some s'\<rparr>"
    using f by (auto simp: on_search_Inr)
  have "search_ok (env_search env) s" "n + staged_draft_count r \<le> current_length s" using w s(1) by (auto simp: within_step_def)
  with k s(2) have "search_ok (env_search env) s' \<and> keeps n s s' \<and> n + staged_draft_count r \<le> current_length s'" by blast
  then show ?thesis using w s by (intro within_stepI[OF w, of r' s' s]) (auto simp: within_step_def step_frame_def)
qed

lemma within_counts:
  assumes "within_step env n r1 r" and "req_search r' = req_search r" "tokens_host r' = tokens_host r"
    "staged_draft_count r' = staged_draft_count r" "step_frame r' = step_frame r" "guidance r' = None \<longleftrightarrow> guidance r = None"
    "observed_since env (stop_controller r1) (stop_controller r')"
  shows "within_step env n r1 r'"
  using assms by (auto simp: within_step_def)

lemma within_observe:
  assumes w: "within_step env n r1 r" and o: "observe_stop env t r = Inr (r', m)"
  shows "within_step env n r1 r'"
proof -
  have "observed_since env (stop_controller r1) (stop_controller r)" using w by (simp add: within_step_def)
  from observe_stop_facts(2)[OF o this] show ?thesis
    by (intro within_counts[OF w]; subst observe_stop_facts(1)[OF o]; simp add: step_frame_def)
qed

lemma within_guide: "within_step env n r1 r \<Longrightarrow> within_step env n r1 (guide env ts r)"
  by (rule within_counts; (subst guide_facts(1), simp add: step_frame_def guide_facts(2))?) (auto simp: guide_facts(2) within_step_def step_frame_def guide_def split: option.splits)

lemma within_select_with:
  assumes w: "within_step env n r1 r" and f: "with_rng (select_with (env_search env) pick) r = Inr r'"
  shows "within_step env n r1 r'"
proof -
  obtain s s' g where s: "req_search r = Some s" "select_with (env_search env) pick s (host_rng r) = Inr (s', g)"
    "r' = r\<lparr>req_search := Some s', host_rng := g\<rparr>" using f by (auto simp: with_rng_Inr)
  have ok: "search_ok (env_search env) s" "n + staged_draft_count r \<le> current_length s" using w s(1) by (auto simp: within_step_def)
  from select_with_keeps[OF ok(1) s(2)] ok(2) show ?thesis using w s
    by (intro within_stepI[OF w, of r' s' s]) (auto simp: within_step_def step_frame_def intro: keeps_mono)
qed

lemma within_SelectNextToken:
  fixes env :: "('s, 'e, 'g) RequestEnv"
  assumes w: "within_step env n r1 r" and f: "SelectNextToken env S scores r = Inr r'"
  shows "within_step env n r1 r'"
proof (cases "IsGreedy (turn_policy r)")
  case True
  then have "on_search (SelectTop (env_search env) (\<lambda>a b. flt_less b a) scores) r = (Inr r' :: 'e request_error + _)"
    using f by (simp add: SelectNextToken_def Let_def)
  then show ?thesis
    by (rule within_search[OF w]) (metis SelectTop_keeps keeps_mono le_add1 le_trans)
next
  case False
  then obtain pick where p: "SelectNextToken env S scores r = with_rng (select_with (env_search env) pick) r"
    using SelectNextToken_sampled[of r env S scores] by blast
  show ?thesis by (rule within_select_with[OF w f[unfolded p]])
qed

lemma within_logits:
  assumes w: "within_step env n r1 r" and f: "ApplyLogitsProcessors env lowest scale visited logits applied r = Inr (st, r')"
  shows "within_step env n r1 r'"
proof -
  have "r' = r \<or> (\<exists>g. r' = r\<lparr>guidance := Some g\<rparr>) \<and> guidance r \<noteq> None"
    using f by (auto simp: ApplyLogitsProcessors_def Let_def split: option.splits if_splits prod.splits)
  then show ?thesis using w by (auto simp: within_step_def step_frame_def)
qed

text \<open>A single sequence whose session limit fits the search's length type, with memory for it.\<close>

definition env_ok :: "('s, 'e, 'g) RequestEnv \<Rightarrow> bool" where
  "env_ok env \<longleftrightarrow> batch_size (env_search env) = 1 \<and> length (env_memory env) = max_length (env_search env)
     \<and> max_length (env_search env) < 2 ^ 31"

lemma to_size_id [simp]: "0 \<le> x \<Longrightarrow> x < 2 ^ 64 \<Longrightarrow> to_size x = nat x"
  by (simp add: to_size_def)

lemma to_size_length:
  assumes "env_ok env" and "search_ok (env_search env) s" and "k \<le> current_length s"
  shows "to_size (int (current_length s) - int k) = current_length s - k"
proof -
  have "int (current_length s) - int k < 2 ^ 64" "0 \<le> int (current_length s) - int k"
    using assms by (auto simp: env_ok_def search_ok_def)
  then show ?thesis by (simp add: nat_diff_distrib)
qed

lemma within_StageGeneration:
  assumes w: "within_step env n r1 r" and f: "StageGeneration env len r = Inr (res, r')"
  shows "within_step env n r1 r'"
proof -
  obtain r2 m t where r2: "observe_stop env t r = Inr (r2, m) \<or> r2 = r" "r' = r2 \<or> (\<exists>ts. r' = guide env ts r2)"
    using f by (auto simp: StageGeneration_def CommitGuidanceToken_def Let_def bind_result_Inr_iff split: if_splits prod.splits)
  have "within_step env n r1 r2" using r2(1) within_observe[OF w] w by auto
  then show ?thesis using r2(2) within_guide by auto
qed

lemma within_drafts:
  assumes w: "within_step env n r1 r" and f: "AppendDraftsForTransaction env k r = Inr r'"
  shows "within_step env n r1 r'"
proof (cases "k = 0")
  case True
  then show ?thesis using f w by (simp add: AppendDraftsForTransaction_def)
next
  case False
  let ?ds = "take k (draft_tokens r)"
  obtain s s' where s: "req_search r = Some s" "AppendTokens (env_search env) ?ds s = Inr s'" "staged_draft_count r = 0"
    and k: "length ?ds = k"
    and r': "r' = r\<lparr>req_search := Some s', tokens_host := tokens_host r @ ?ds, staged_draft_count := k, accepted_draft_count := 0,
               evaluated_draft_count := 0, draft_verification := no_verification\<rparr>"
    using f False by (auto simp: AppendDraftsForTransaction_def bind_result_Inr_iff on_search_Inr Let_def split: if_splits)
  have ok: "search_ok (env_search env) s" "n \<le> current_length s" "n \<le> length (tokens_host r)" using w s by (auto simp: within_step_def)
  have s': "search_ok (env_search env) s'" "keeps (current_length s) s s'" "current_length s' = current_length s + k"
    using AppendTokens_keeps[OF ok(1) s(2)] AppendTokens_length[OF ok(1) s(2)] k by auto
  show ?thesis
    by (rule within_stepI[OF w, of r' s' s])
      (use s s' ok k w in \<open>auto simp: r' step_frame_def within_step_def intro: keeps_mono\<close>)
qed

lemma within_drop:
  assumes w: "within_step env n r1 r" and env: "env_ok env" and k: "k \<le> staged_draft_count r"
    and d: "drop_host_tokens k r = (Inr r2 :: 'x request_error + _)"
    and f: "on_search (RewindTo (env_search env) (to_size (CurrentSequenceLength r - int k))) r2 = Inr r3"
  shows "within_step env n r1 (r3\<lparr>staged_draft_count := staged_draft_count r - k\<rparr>)"
proof -
  obtain s s' where s: "req_search r = Some s" "RewindTo (env_search env) (current_length s - k) s = Inr s'"
    and h: "k \<le> length (tokens_host r)"
    and r3: "r3 = r\<lparr>tokens_host := take (length (tokens_host r) - k) (tokens_host r), req_search := Some s'\<rparr>"
    and ok: "search_ok (env_search env) s" "n + staged_draft_count r \<le> current_length s" "n + staged_draft_count r \<le> length (tokens_host r)"
  proof -
    obtain s s' where 1: "req_search r = Some s" and k1: "k \<le> length (tokens_host r)"
      and 2: "RewindTo (env_search env) (to_size (int (current_length s) - int k)) s = Inr s'"
      and 3: "r3 = r\<lparr>tokens_host := take (length (tokens_host r) - k) (tokens_host r), req_search := Some s'\<rparr>"
      using d f by (auto simp: drop_host_tokens_def on_search_Inr CurrentSequenceLength_def split: if_splits)
    have 4: "search_ok (env_search env) s" "n + staged_draft_count r \<le> current_length s" "n + staged_draft_count r \<le> length (tokens_host r)"
      using w 1 by (auto simp: within_step_def)
    have "k \<le> current_length s" using 4 k by simp
    from to_size_length[OF env 4(1) this] that[OF 1 _ k1 3 4] 2 show ?thesis by simp
  qed
  from RewindTo_keeps[OF ok(1) s(2), of n] show ?thesis
    by (intro within_stepI[OF w, of _ s' s]) (use s ok h k w in \<open>auto simp: r3 step_frame_def within_step_def\<close>)
qed

text \<open>A draft of which the search accepted the token, with and without appending it.\<close>

definition draft_seen :: "Search \<Rightarrow> ('s, 'g) Request \<Rightarrow> ('s, 'g) Request" where
  "draft_seen s r = r\<lparr>evaluated_draft_count := evaluated_draft_count r + 1, req_search := Some s\<rparr>"

definition draft_kept :: "token \<Rightarrow> Search \<Rightarrow> ('s, 'g) Request \<Rightarrow> ('s, 'g) Request" where
  "draft_kept t s r = (draft_seen s r)\<lparr>tokens_host := tokens_host r @ [t], staged_draft_count := staged_draft_count r + 1,
     accepted_draft_count := accepted_draft_count r + 1\<rparr>"

definition draft_matched :: "StopStringMatch \<Rightarrow> ('s, 'g) Request \<Rightarrow> ('s, 'g) Request" where
  "draft_matched m r = r\<lparr>draft_verification := (draft_verification r)\<lparr>stop_match_index := to_int32 (match_index m),
     completed_generation := True\<rparr>\<rparr>"

lemma verify_draft_eq:
  assumes "req_search r = Some s" and "CommitToken (env_search env) t s = Inr s'"
  shows "verify_draft env t r =
    (if current_length s' = current_length s + 1
     then bind_result (observe_stop env t (guide env [t] (draft_kept t s' r))) (\<lambda>(r2, m).
       Inr (case m of Some found \<Rightarrow> draft_matched found r2 | None \<Rightarrow> check_completion env t r2))
     else if current_length s' \<noteq> current_length s \<or> \<not> search_done s' then Inl invalid_transition
     else Inr (check_completion env t (draft_seen s' r)))"
proof -
  have o: "on_search (CommitToken (env_search env) t) (r\<lparr>evaluated_draft_count := evaluated_draft_count r + 1\<rparr>)
      = Inr (draft_seen s' r)"
    using assms by (simp add: on_search_def draft_seen_def)
  have c: "(case m of None \<Rightarrow> Inr x | Some f \<Rightarrow> Inr (g f)) = Inr (case m of None \<Rightarrow> x | Some f \<Rightarrow> g f)" for m x and g :: "_ \<Rightarrow> 'z"
    by (cases m) auto
  have k: "(draft_seen s' r)\<lparr>tokens_host := tokens_host (draft_seen s' r) @ [t],
      staged_draft_count := staged_draft_count (draft_seen s' r) + 1,
      accepted_draft_count := accepted_draft_count (draft_seen s' r) + 1\<rparr> = draft_kept t s' r"
    by (simp add: draft_kept_def draft_seen_def)
  have l: "CurrentSequenceLength (draft_seen s' r) = int (current_length s')" "CurrentSequenceLength r = int (current_length s)"
    "search_is_done (draft_seen s' r) = search_done s'"
    using assms by (simp_all add: CurrentSequenceLength_def draft_seen_def search_is_done_def)
  show ?thesis
    unfolding verify_draft_def o bind_result_simps k l draft_matched_def[symmetric] c by simp
qed

lemma within_check_completion: "within_step env n r1 r \<Longrightarrow> within_step env n r1 (check_completion env t r)"
  by (auto simp: check_completion_def within_step_def step_frame_def)

lemma within_verify_draft:
  assumes w: "within_step env n r1 r" and f: "verify_draft env t r = Inr r'"
  shows "within_step env n r1 r'"
proof -
  obtain s where s: "req_search r = Some s" using w by (auto simp: within_step_def)
  obtain s' where c: "CommitToken (env_search env) t s = Inr s'"
    using f s by (auto simp: verify_draft_def bind_result_Inr_iff on_search_Inr)
  have ok: "search_ok (env_search env) s" "n + staged_draft_count r \<le> current_length s" "n + staged_draft_count r \<le> length (tokens_host r)"
    using w s by (auto simp: within_step_def)
  have s': "search_ok (env_search env) s'" "keeps n s s'" "current_length s \<le> current_length s'"
    using CommitToken_keeps[OF ok(1) c] ok keeps_mono[of "current_length s" s s' n] by auto
  show ?thesis
  proof (cases "current_length s' = current_length s + 1")
    case True
    have "within_step env n r1 (draft_kept t s' r)"
      by (rule within_stepI[OF w, of _ s' s])
        (use s s' ok w True in \<open>auto simp: step_frame_def within_step_def draft_kept_def draft_seen_def\<close>)
    then have g: "within_step env n r1 (guide env [t] (draft_kept t s' r))" by (rule within_guide)
    from f True obtain r2 m where o: "observe_stop env t (guide env [t] (draft_kept t s' r)) = Inr (r2, m)"
      and r': "r' = (case m of Some found \<Rightarrow> draft_matched found r2 | None \<Rightarrow> check_completion env t r2)"
      unfolding verify_draft_eq[OF s c] by (auto simp: bind_result_Inr_iff)
    have "within_step env n r1 r2" by (rule within_observe[OF g o])
    then show ?thesis using within_check_completion[of env n r1 r2]
      by (auto simp: r' within_step_def step_frame_def draft_matched_def split: option.splits)
  next
    case False
    then have r': "r' = check_completion env t (draft_seen s' r)"
      using f unfolding verify_draft_eq[OF s c] by (auto split: if_splits)
    have "within_step env n r1 (draft_seen s' r)"
      by (rule within_stepI[OF w, of _ s' s]) (use s s' ok w in \<open>auto simp: step_frame_def within_step_def draft_seen_def\<close>)
    then show ?thesis unfolding r' by (rule within_check_completion)
  qed
qed

lemma within_verify_loop: "within_step env n r1 r \<Longrightarrow> verify_loop env ts r = Inr r' \<Longrightarrow> within_step env n r1 r'"
  by (induction ts arbitrary: r) (auto simp: bind_result_Inr_iff split: if_splits dest: within_verify_draft)

lemma accept_Inr:
  fixes env :: "('s, 'e, 'g) RequestEnv"
  assumes "CommitAcceptedDraftsForTransaction env k r = Inr r'"
  obtains r2 r3 r4 where "drop_host_tokens (staged_draft_count r) r = (Inr r2 :: 'e request_error + _)"
    and "on_search (RewindTo (env_search env) (to_size (CurrentSequenceLength r - int (staged_draft_count r)))) r2
      = (Inr r3 :: 'e request_error + _)"
    and "verify_loop env (take k (draft_tokens r3)) (r3\<lparr>staged_draft_count := 0, accepted_draft_count := 0,
        evaluated_draft_count := 0, draft_verification := no_verification\<rparr>) = Inr r4"
    and "r' = (if \<not> completed_generation (draft_verification r4) \<and> k < staged_draft_count r
        then r4\<lparr>evaluated_draft_count := evaluated_draft_count r4 + 1\<rparr> else r4)"
    and "k \<le> staged_draft_count r" and "k \<le> length (draft_tokens r)"
proof (cases "k \<le> staged_draft_count r \<and> k \<le> length (draft_tokens r)")
  case True
  then have g: "(staged_draft_count r < k) = False" "(length (draft_tokens r) < k) = False" by auto
  show ?thesis
    using assms that True unfolding CommitAcceptedDraftsForTransaction_def Let_def g if_False bind_result_Inr_iff sum.inject by (elim exE conjE) blast
next
  case False
  then show ?thesis using assms by (auto simp: CommitAcceptedDraftsForTransaction_def split: if_splits)
qed

lemma within_accept:
  fixes env :: "('s, 'e, 'g) RequestEnv"
  assumes w: "within_step env n r1 r" and env: "env_ok env" and f: "CommitAcceptedDraftsForTransaction env k r = Inr r'"
  shows "within_step env n r1 r'"
  using f
proof (rule accept_Inr)
  fix r2 r3 r4
  assume r2: "drop_host_tokens (staged_draft_count r) r = (Inr r2 :: 'e request_error + _)"
    and r3: "on_search (RewindTo (env_search env) (to_size (CurrentSequenceLength r - int (staged_draft_count r)))) r2
      = (Inr r3 :: 'e request_error + _)"
    and r4: "verify_loop env (take k (draft_tokens r3)) (r3\<lparr>staged_draft_count := 0, accepted_draft_count := 0,
        evaluated_draft_count := 0, draft_verification := no_verification\<rparr>) = Inr r4"
    and r': "r' = (if \<not> completed_generation (draft_verification r4) \<and> k < staged_draft_count r
        then r4\<lparr>evaluated_draft_count := evaluated_draft_count r4 + 1\<rparr> else r4)"
  have "within_step env n r1 (r3\<lparr>staged_draft_count := 0\<rparr>)" using within_drop[OF w env order_refl r2 r3] by simp
  then have "within_step env n r1 (r3\<lparr>staged_draft_count := 0, accepted_draft_count := 0,
        evaluated_draft_count := 0, draft_verification := no_verification\<rparr>)"
    by (auto simp: within_step_def step_frame_def)
  from within_verify_loop[OF this r4] show ?thesis by (auto simp: r' within_step_def step_frame_def)
qed

lemma within_rewind:
  assumes w: "within_step env n r1 r" and env: "env_ok env" and f: "RewindDraftsForTransaction env k r = Inr r'"
  shows "within_step env n r1 r'"
proof (cases "staged_draft_count r = k")
  case True
  then show ?thesis using f w by (auto simp: RewindDraftsForTransaction_def within_step_def step_frame_def split: if_splits)
next
  case False
  then have k: "k < staged_draft_count r" using f by (auto simp: RewindDraftsForTransaction_def split: if_splits)
  let ?j = "staged_draft_count r - k"
  let ?r = "r\<lparr>accepted_draft_count := k, evaluated_draft_count := k\<rparr>"
  let ?r2 = "?r\<lparr>tokens_host := take (length (tokens_host r) - ?j) (tokens_host r)\<rparr>"
  obtain s s' where h: "?j \<le> length (tokens_host r)" and s: "req_search r = Some s"
    "RewindTo (env_search env) (to_size (CurrentSequenceLength r - int ?j)) s = Inr s'"
    "r' = ?r2\<lparr>staged_draft_count := k, req_search := Some s'\<rparr>"
    using f k by (auto simp: RewindDraftsForTransaction_def drop_host_tokens_def on_search_Inr bind_result_Inr_iff Let_def split: if_splits)
  have d: "drop_host_tokens ?j ?r = (Inr ?r2 :: 'x request_error + _)" using h by (simp add: drop_host_tokens_def)
  have w': "within_step env n r1 ?r" using w by (auto simp: within_step_def step_frame_def)
  have "on_search (RewindTo (env_search env) (to_size (CurrentSequenceLength ?r - int ?j))) ?r2
      = (Inr (?r2\<lparr>req_search := Some s'\<rparr>) :: 'x request_error + _)"
    using s(1,2) by (simp add: on_search_def CurrentSequenceLength_def)
  from within_drop[OF w' env _ d this] have "within_step env n r1 (?r2\<lparr>req_search := Some s', staged_draft_count := k\<rparr>)"
    using k by simp
  also have "?r2\<lparr>req_search := Some s', staged_draft_count := k\<rparr> = r'" unfolding s(3) by (rule Request.equality) simp_all
  finally show ?thesis .
qed

lemma within_sampled:
  assumes w: "within_step env n r1 r" and g: "int (length (tokens_host r)) < CurrentSequenceLength r"
    and f: "AppendAcceptedSampledToken t r = Inr r'"
  shows "within_step env n r1 r'"
  using assms by (auto simp: within_step_def AppendAcceptedSampledToken_def step_frame_def CurrentSequenceLength_def split: if_splits)

lemma within_step_op:
  assumes "step_op env r r'" and "within_step env n r1 r" and "env_ok env"
  shows "within_step env n r1 r'"
  using assms(1)
proof cases
  case (bind_count k)
  then show ?thesis using assms(2) by (auto simp: BindScheduledTokenCount_def within_step_def step_frame_def Let_def split: if_splits)
next
  case (seed dev chk)
  then show ?thesis using assms(2)
    by (auto simp: ApplyPendingSeedForTransaction_def within_step_def step_frame_def split: if_splits option.splits)
next
  case (promote res res')
  then show ?thesis using within_sampled[OF assms(2)] by (auto simp: PromoteFinalStageAsAcceptedDraft_def bind_result_Inr_iff split: if_splits)
next
  case mark
  then show ?thesis using assms(2) by (auto simp: MarkFinalStageAsEvaluatedNonAcceptedDraft_def within_step_def step_frame_def)
next
  case (drafts k)
  then show ?thesis by (rule within_drafts[OF assms(2)])
next
  case (accept k)
  then show ?thesis by (rule within_accept[OF assms(2,3)])
next
  case (rewind k)
  then show ?thesis by (rule within_rewind[OF assms(2,3)])
next
  case (select lowest scale visited logits applied st r2 S)
  show ?thesis by (rule within_SelectNextToken[OF within_logits[OF assms(2) select(1)] select(2)])
next
  case (stage len res)
  then show ?thesis by (rule within_StageGeneration[OF assms(2)])
next
  case (sampled t)
  then show ?thesis by (rule within_sampled[OF assms(2)])
qed

lemma within_step_run:
  assumes "(step_op env)\<^sup>*\<^sup>* r r'" and "within_step env n r1 r" and "env_ok env"
  shows "within_step env n r1 r'"
  using assms by (induction rule: rtranclp_induct) (auto intro: within_step_op)

section \<open>Rolling back\<close>

text \<open>The controller of a turn is one that observed tokens since the start of the turn.\<close>

definition controller_ok :: "('s, 'e, 'g) RequestEnv \<Rightarrow> ('s, 'g) Request \<Rightarrow> bool" where
  "controller_ok env r \<longleftrightarrow>
     (case stop_controller r of None \<Rightarrow> True
      | Some c \<Rightarrow> \<exists>Ps c0 ts. new_controller (Some (env_tokenizer env)) Ps = Inr c0
          \<and> run_result (observe_only (env_tokenizer env)) ts c0 = Inr c)"

text \<open>A request between steps: the mirror and the search hold the same tokens, and nothing is staged.\<close>

definition idle :: "('s, 'e, 'g) RequestEnv \<Rightarrow> ('s, 'g) Request \<Rightarrow> bool" where
  "idle env r \<longleftrightarrow>
     (\<exists>s. req_search r = Some s \<and> search_ok (env_search env) s \<and> seq_of s = tokens_host r \<and> \<not> transaction_restore_pending s)
     \<and> staged_draft_count r = 0 \<and> \<not> pending_reseed_applied r \<and> controller_ok env r"

text \<open>The request without the scratch state of a step.\<close>

definition durable :: "('s, 'g) Request \<Rightarrow> ('s, 'g) Request" where
  "durable r = r\<lparr>req_search := None, transaction_rng := host_rng r, transaction_processed_sequence_length := 0,
     transaction_tokens_host_size := 0, guidance_checkpoint := None, stop_controller_checkpoint := 0,
     scheduled_token_count := 0, staged_draft_count := 0, accepted_draft_count := 0, evaluated_draft_count := 0,
     draft_verification := no_verification\<rparr>"

text \<open>The observable state of a search.\<close>

definition search_view :: "SearchParams \<Rightarrow> Search \<Rightarrow> token list \<times> token list \<times> bool list \<times> int \<times> bool" where
  "search_view p s = (GetSequence p 0 s, next_tokens s, eos_seen s, not_done_count s, search_done s)"

lemma resize_take: "n \<le> length xs \<Longrightarrow> resize_tokens n xs = take n xs"
  by (simp add: resize_tokens_def)

lemma controller_restored:
  assumes ok: "controller_ok env r" and o: "observed_since env (stop_controller r) (stop_controller r')"
  shows "case stop_controller r' of None \<Rightarrow> stop_controller r = None
    | Some c \<Rightarrow> \<exists>c0. stop_controller r = Some c0 \<and> RollbackTo (env_tokenizer env) (observed_tokens r) c = Inr c0"
proof (cases "stop_controller r")
  case None
  then show ?thesis using o by (auto simp: observed_since_def split: option.splits)
next
  case (Some c)
  then obtain c' ys where c': "stop_controller r' = Some c'" "run_result (observe_only (env_tokenizer env)) ys c = Inr c'"
    using o by (auto simp: observed_since_def split: option.splits)
  obtain Ps c0 ts where "new_controller (Some (env_tokenizer env)) Ps = Inr c0"
    "run_result (observe_only (env_tokenizer env)) ts c0 = Inr c" using ok Some by (auto simp: controller_ok_def)
  from controller_log.rollback_to_checkpoint[OF this c'(2)] show ?thesis by (simp add: c' Some observed_tokens_def)
qed

text \<open>What saving records.\<close>

lemma save_with_facts:
  assumes "save_with Greedy_Search.SaveStateForTransaction r = Inr r1" and "idle env r"
  obtains s s1 where "req_search r = Some s" and "Greedy_Search.SaveStateForTransaction s = Inr s1"
    and "search_ok (env_search env) s" and "seq_of s = tokens_host r" and "\<not> transaction_restore_pending s"
    and "r1 = r\<lparr>req_search := Some s1, guidance_checkpoint := guidance r, transaction_rng := host_rng r,
       transaction_processed_sequence_length := processed_sequence_length r,
       transaction_tokens_host_size := length (tokens_host r), stop_controller_checkpoint := observed_tokens r\<rparr>"
    and "within_step env (length (tokens_host r)) r1 r1"
proof -
  obtain s s1 where s: "req_search r = Some s" "Greedy_Search.SaveStateForTransaction s = Inr s1"
    "search_ok (env_search env) s" "seq_of s = tokens_host r" "\<not> transaction_restore_pending s"
    and r1: "r1 = r\<lparr>req_search := Some s1, guidance_checkpoint := guidance r, transaction_rng := host_rng r,
       transaction_processed_sequence_length := processed_sequence_length r,
       transaction_tokens_host_size := length (tokens_host r), stop_controller_checkpoint := observed_tokens r\<rparr>"
    using assms by (auto simp: save_with_def idle_def bind_result_Inr_iff on_search_Inr observed_tokens_def)
  have "search_ok (env_search env) s1" "current_length s1 = current_length s"
    using s(2,3) by (auto simp: SaveStateForTransaction_def StartTransactionCheckpoint_def SaveStateForTransactionImpl_def search_ok_def split: if_splits)
  moreover have "current_length s = length (tokens_host r)" using length_seq_of[OF s(3)] s(4) by simp
  ultimately have "within_step env (length (tokens_host r)) r1 r1"
    using assms(2) by (auto simp: within_step_def r1 idle_def)
  then show ?thesis using that s r1 by blast
qed

lemma restore_turn_state_spec:
  assumes ok: "controller_ok env r" and o: "observed_since env (stop_controller r) (stop_controller x)"
    and c: "stop_controller_checkpoint x = observed_tokens r" "guidance_checkpoint x = guidance r" "guidance x = None \<longleftrightarrow> guidance r = None"
  shows "restore_turn_state env x = Inr (x\<lparr>guidance := guidance r, guidance_checkpoint := None, stop_controller := stop_controller r\<rparr>)"
proof -
  let ?x = "x\<lparr>guidance := guidance r, guidance_checkpoint := None\<rparr>"
  have 1: "(case guidance_checkpoint x of None \<Rightarrow> x | Some g \<Rightarrow> x\<lparr>guidance := Some g, guidance_checkpoint := None\<rparr>) = ?x"
    using c by (cases "guidance r") (auto intro: Request.equality)
  show ?thesis
  proof (cases "stop_controller x")
    case None
    then have "stop_controller r = None" using controller_restored[OF ok o] by simp
    then have "?x = x\<lparr>guidance := guidance r, guidance_checkpoint := None, stop_controller := stop_controller r\<rparr>"
      using None by (intro Request.equality) simp_all
    then show ?thesis using None by (simp add: restore_turn_state_def 1 Let_def)
  next
    case (Some c1)
    then obtain c0 where "stop_controller r = Some c0" "RollbackTo (env_tokenizer env) (observed_tokens r) c1 = Inr c0"
      using controller_restored[OF ok o] by auto
    then show ?thesis using Some c(1) by (simp add: restore_turn_state_def 1 Let_def lift_error_def)
  qed
qed

lemma restore_forms_agree:
  assumes "req_search r = Some s"
  shows "bind_result (QueueStateRestoreForTransaction_request r) (CompleteStateRestoreForTransaction_request env)
    = RestoreStateForTransaction_request env r"
proof (cases "Greedy_Search.QueueStateRestoreForTransaction s")
  case (Inl e)
  then show ?thesis using assms
    by (simp add: QueueStateRestoreForTransaction_request_def RestoreStateForTransaction_request_def on_search_def RestoreStateForTransaction_def)
next
  case (Inr s1)
  have r: "(reset_step (r\<lparr>req_search := Some s1\<rparr>))\<lparr>req_search := Some x\<rparr> = reset_step (r\<lparr>req_search := Some x\<rparr>)"
    "req_search (reset_step (r\<lparr>req_search := Some s1\<rparr>)) = Some s1" for x
    by (simp_all add: reset_step_def)
  show ?thesis
    using assms Inr
    by (cases "Greedy_Search.CompleteStateRestoreForTransaction s1")
      (simp_all add: QueueStateRestoreForTransaction_request_def RestoreStateForTransaction_request_def
        CompleteStateRestoreForTransaction_request_def on_search_def RestoreStateForTransaction_def r)
qed

lemma durable_restored:
  assumes "step_frame r2 = step_frame (r\<lparr>req_search := s1, guidance_checkpoint := g, transaction_rng := host_rng r,
       transaction_processed_sequence_length := processed_sequence_length r,
       transaction_tokens_host_size := length (tokens_host r), stop_controller_checkpoint := k\<rparr>)"
    and "take (length (tokens_host r)) (tokens_host r2) = tokens_host r" and "length (tokens_host r) \<le> length (tokens_host r2)"
    and "\<not> pending_reseed_applied r"
  shows "durable ((reset_step (r2\<lparr>req_search := s3\<rparr>))\<lparr>guidance := guidance r, guidance_checkpoint := None,
    stop_controller := stop_controller r\<rparr>) = durable r"
  using assms by (cases r2; cases r) (simp add: durable_def reset_step_def step_frame_def resize_take)

section \<open>Properties\<close>

text \<open>The rollback of a step, with the search that it leaves.\<close>

lemma step_rolled_back:
  fixes env :: "('s, 'e, 'g) RequestEnv"
  assumes "env_ok env" and "idle env r" and "SaveStateForTransaction_request r = (Inr r1 :: 'e request_error + _)"
    and "(step_op env)\<^sup>*\<^sup>* r1 r2"
  shows "\<exists>r3 s s3. RestoreStateForTransaction_request env r2 = Inr r3
    \<and> bind_result (QueueStateRestoreForTransaction_request r2) (CompleteStateRestoreForTransaction_request env) = Inr r3
    \<and> durable r3 = durable r \<and> req_search r = Some s \<and> req_search r3 = Some s3 \<and> search_ok (env_search env) s3
    \<and> seq_of s3 = seq_of s \<and> current_length s3 = current_length s \<and> next_tokens s3 = next_tokens s \<and> eos_seen s3 = eos_seen s
    \<and> not_done_count s3 = not_done_count s \<and> search_done s3 = search_done s
    \<and> \<not> transaction_checkpoint_active s3 \<and> \<not> transaction_restore_pending s3 \<and> idle env r3"
proof -
  obtain s s1 where s: "req_search r = Some s" "Greedy_Search.SaveStateForTransaction s = Inr s1"
    "search_ok (env_search env) s" "seq_of s = tokens_host r" "\<not> transaction_restore_pending s"
    and r1: "r1 = r\<lparr>req_search := Some s1, guidance_checkpoint := guidance r, transaction_rng := host_rng r,
       transaction_processed_sequence_length := processed_sequence_length r,
       transaction_tokens_host_size := length (tokens_host r), stop_controller_checkpoint := observed_tokens r\<rparr>"
    and w1: "within_step env (length (tokens_host r)) r1 r1"
    using save_with_facts[OF assms(3)[unfolded SaveStateForTransaction_request_def] assms(2)] by blast
  let ?n = "length (tokens_host r)"
  have w2: "within_step env ?n r1 r2" by (rule within_step_run[OF assms(4) w1 assms(1)])
  have n: "?n = current_length s" using length_seq_of[OF s(3)] s(4) by simp
  obtain s2 where s2: "req_search r2 = Some s2" "search_ok (env_search env) s2" "keeps ?n s1 s2"
    using w2 by (auto simp: within_step_def r1)
  obtain s3 where s3: "Greedy_Search.RestoreStateForTransaction s2 = Inr s3" "seq_of s3 = seq_of s" "next_tokens s3 = next_tokens s"
    "eos_seen s3 = eos_seen s" "not_done_count s3 = not_done_count s" "search_done s3 = search_done s"
    "search_ok (env_search env) s3" "current_length s3 = current_length s" "\<not> transaction_checkpoint_active s3"
    "\<not> transaction_restore_pending s3"
    using restore_spec[OF s(2,3) s2(2) _ s(5)] s2(3) n by auto
  let ?x = "reset_step (r2\<lparr>req_search := Some s3\<rparr>)"
  have fr: "step_frame r2 = step_frame r1" and host: "take ?n (tokens_host r2) = tokens_host r" "?n \<le> length (tokens_host r2)"
    and g: "guidance r2 = None \<longleftrightarrow> guidance r = None" and o: "observed_since env (stop_controller r) (stop_controller r2)"
    using w2 by (auto simp: within_step_def r1)
  have c: "stop_controller_checkpoint ?x = observed_tokens r" "guidance_checkpoint ?x = guidance r"
    using arg_cong[OF fr, of stop_controller_checkpoint] arg_cong[OF fr, of guidance_checkpoint]
    by (simp_all add: reset_step_def step_frame_def r1)
  have ok: "controller_ok env r" using assms(2) by (simp add: idle_def)
  let ?r3 = "?x\<lparr>guidance := guidance r, guidance_checkpoint := None, stop_controller := stop_controller r\<rparr>"
  have "restore_turn_state env ?x = Inr ?r3"
    by (rule restore_turn_state_spec[OF ok _ c]) (use o g in \<open>simp_all add: reset_step_def\<close>)
  then have res: "RestoreStateForTransaction_request env r2 = Inr ?r3"
    using s2(1) s3(1) by (simp add: RestoreStateForTransaction_request_def on_search_def)
  moreover have "durable ?r3 = durable r"
    by (rule durable_restored[OF fr[unfolded r1] host]) (use assms(2) in \<open>simp add: idle_def\<close>)
  moreover have "req_search ?r3 = Some s3" by (simp add: reset_step_def)
  moreover have "idle env ?r3"
    using ok s3(2,7,10) s(4) host arg_cong[OF fr, of transaction_tokens_host_size]
    by (simp add: idle_def controller_ok_def reset_step_def resize_take step_frame_def r1)
  ultimately show ?thesis
    using restore_forms_agree[OF s2(1), of env] s(1) s3 by auto
qed

text \<open>The Request provides the contract of transactions: an attempt of a step that fails can be followed by the next one.\<close>

definition request_view :: "('s, 'e, 'g) RequestEnv \<Rightarrow> ('s, 'g) Request
    \<Rightarrow> ('s, 'g) Request \<times> (token list \<times> token list \<times> bool list \<times> int \<times> bool) option" where
  "request_view env r = (durable r, map_option (search_view (env_search env)) (req_search r))"

definition failed_attempt :: "('s, 'e, 'g) RequestEnv \<Rightarrow> ('s, 'g) Request \<Rightarrow> ('s, 'g) Request \<Rightarrow> bool" where
  "failed_attempt env r r' \<longleftrightarrow>
     (\<exists>r1 r2. SaveStateForTransaction_request r = (Inr r1 :: 'e request_error + _) \<and> (step_op env)\<^sup>*\<^sup>* r1 r2
        \<and> RestoreStateForTransaction_request env r2 = Inr r')"

interpretation request_transaction: rollback_transaction "\<lambda>r. env_ok env \<and> idle env r" "request_view env"
  "SaveStateForTransaction_request :: ('s, 'g) Request \<Rightarrow> 'e request_error + ('s, 'g) Request" "\<lambda>_. step_op env"
  "RestoreStateForTransaction_request env" for env :: "('s, 'e, 'g) RequestEnv"
proof unfold_locales
  fix r r1 r2 :: "('s, 'g) Request"
  assume r: "env_ok env \<and> idle env r" and save: "SaveStateForTransaction_request r = (Inr r1 :: 'e request_error + _)"
    and run: "(step_op env)\<^sup>*\<^sup>* r1 r2"
  from step_rolled_back[OF _ _ save run] r
  show "\<exists>r3. RestoreStateForTransaction_request env r2 = Inr r3 \<and> (env_ok env \<and> idle env r3) \<and> request_view env r3 = request_view env r"
    by (auto simp: request_view_def search_view_def GetSequence_0)
qed

text \<open>
  C4. Rolling a step back gives the Request as it was when the first attempt of the step was saved, whatever completed
  operations the attempts consisted of: they bound tokens, reseeded, staged drafts, verified or rewound them, chose
  tokens, staged results, observed stop strings and moved the guidance cursor, in any number of attempts each rolled
  back. The tokens (of which only the count was saved), the search, the random stream, the position in the cache, the
  guidance and the stop controller are those of that moment, the proposal and a pending seed are kept for the retry, and
  both forms of the rollback (at once, or queued and completed) agree.
\<close>

theorem step_rollback_restores:
  fixes env :: "('s, 'e, 'g) RequestEnv"
  assumes "env_ok env" and "idle env r" and "(failed_attempt env)\<^sup>*\<^sup>* r r0"
    and "SaveStateForTransaction_request r0 = (Inr r1 :: 'e request_error + _)" and "(step_op env)\<^sup>*\<^sup>* r1 r2"
  shows "\<exists>r3. RestoreStateForTransaction_request env r2 = Inr r3
    \<and> bind_result (QueueStateRestoreForTransaction_request r2) (CompleteStateRestoreForTransaction_request env) = Inr r3
    \<and> durable r3 = durable r
    \<and> map_option (search_view (env_search env)) (req_search r3) = map_option (search_view (env_search env)) (req_search r)"
proof -
  have r: "env_ok env \<and> idle env r" using assms(1,2) by blast
  have att: "failed_attempt env = (\<lambda>s s'. \<exists>s1 s2. SaveStateForTransaction_request s = (Inr s1 :: 'e request_error + _)
      \<and> (step_op env)\<^sup>*\<^sup>* s1 s2 \<and> RestoreStateForTransaction_request env s2 = Inr s')"
    by (auto simp: failed_attempt_def fun_eq_iff)
  from request_transaction.attempts_keep[OF assms(3)[unfolded att] r] have r0: "idle env r0" "request_view env r0 = request_view env r" by auto
  from step_rolled_back[OF assms(1) r0(1) assms(4,5)] r0(2) show ?thesis
    by (auto simp: request_view_def search_view_def GetSequence_0)
qed

text \<open>A small session: six tokens, end token 2, a tokenizer that decodes a token to one byte, no guidance.\<close>

definition no_guidance :: "unit Guidance" where
  "no_guidance = \<lparr>commit_tokens = (\<lambda>_ g. g), delimited_opening_token = (\<lambda>_. None), is_delimited_active = (\<lambda>_. False),
     process_logits = Pair, allows_only_tokens = (\<lambda>_ _. False)\<rparr>"

definition example_env :: "(unit, unit, unit) RequestEnv" where
  "example_env = \<lparr>env_search = example_params, env_memory = [0, 0, 0, 0, 0, 0], env_chunk_size = None,
     env_tokenizer = byte_tokenizer, env_guidance = no_guidance, env_max_drafts = 7\<rparr>"

lemma example_env_ok: "env_ok example_env"
  by (simp add: env_ok_def example_env_def example_params_def)

definition example_search :: Search where
  "example_search = (new_search example_params [7, 8, 0, 0, 0, 0] [0])\<lparr>current_length := 2, next_tokens := [8]\<rparr>"

definition example_request :: "(unit, unit) Request" where
  "example_request = (new_request example_env example_defaults 0)\<lparr>status := Active, req_search := Some example_search,
     tokens_host := [7, 8], prompt_sequence_length := 2, processed_sequence_length := 1, draft_tokens := [9, 2]\<rparr>"

lemma example_request_idle: "idle example_env example_request"
  by (simp add: idle_def example_request_def example_search_def new_request_def new_search_def search_ok_def seq_of_def
      controller_ok_def example_env_def example_params_def)

theorem step_rollback_restores_witness:
  "\<exists>r0 r1 r2 r3. (failed_attempt example_env)\<^sup>*\<^sup>* example_request r0 \<and> SaveStateForTransaction_request r0 = (Inr r1 :: unit request_error + _)
    \<and> bind_result (AppendDraftsForTransaction example_env 2 r1) (CommitAcceptedDraftsForTransaction example_env 2) = Inr r2
    \<and> tokens_host r2 = [7, 8, 9] \<and> RestoreStateForTransaction_request example_env r2 = Inr r3 \<and> durable r3 = durable example_request"
proof -
  obtain r1 where r1: "SaveStateForTransaction_request example_request = (Inr r1 :: unit request_error + _)"
    by (simp add: SaveStateForTransaction_request_def save_with_def on_search_def example_request_def example_search_def
        new_request_def new_search_def SaveStateForTransaction_def StartTransactionCheckpoint_def)
  have run: "bind_result (SaveStateForTransaction_request example_request) (\<lambda>r1. bind_result (AppendDraftsForTransaction example_env 2 r1)
      (\<lambda>r2. bind_result (CommitAcceptedDraftsForTransaction example_env 2 r2) (\<lambda>r3. Inr (tokens_host r3)))) = Inr [7, 8, 9]"
    by code_simp
  then obtain r2 r3 where r2: "AppendDraftsForTransaction example_env 2 r1 = Inr r2"
    "CommitAcceptedDraftsForTransaction example_env 2 r2 = Inr r3" "tokens_host r3 = [7, 8, 9]"
    unfolding r1 by (auto simp: bind_result_Inr_iff)
  then have "(step_op example_env)\<^sup>*\<^sup>* r1 r3" by (meson accept drafts rtranclp.rtrancl_into_rtrancl rtranclp.rtrancl_refl)
  from step_rollback_restores[OF example_env_ok example_request_idle rtranclp.rtrancl_refl r1 this] r1 r2 show ?thesis by auto
qed

text \<open>What starting an admission leaves, and what appending the prompt changes.\<close>

lemma start_admission_facts:
  assumes "start_admission r adm = Inr (r1, adm1)" and "idle env r"
  obtains s s1 where "req_search r = Some s" and "Greedy_Search.SaveStateForTransaction s = Inr s1"
    and "search_ok (env_search env) s" and "search_ok (env_search env) s1" and "current_length s1 = current_length s"
    and "seq_of s1 = seq_of s" and "seq_of s = tokens_host r" and "\<not> transaction_restore_pending s"
    and "guidance r = None" and "stop_controller r = None" and "pending_reseed r = None"
    and "r1 = r\<lparr>req_search := Some s1, guidance_checkpoint := None, transaction_rng := host_rng r,
       transaction_processed_sequence_length := processed_sequence_length r,
       transaction_tokens_host_size := length (tokens_host r), stop_controller_checkpoint := 0\<rparr>"
    and "adm1 = adm\<lparr>adm_status := status r, adm_host_token_count := length (tokens_host r),
       adm_prompt_sequence_length := prompt_sequence_length r, adm_processed_sequence_length := processed_sequence_length r,
       transaction_started := True\<rparr>"
  using assms that
  by (auto simp: start_admission_def SaveStateForNewTurnTransaction_def idle_def bind_result_Inr_iff on_search_Inr Let_def
      SaveStateForTransaction_def StartTransactionCheckpoint_def SaveStateForTransactionImpl_def search_ok_def seq_of_def split: if_splits)

lemma append_prompt_facts:
  assumes "append_prompt env first tokens r1 = Inr r2"
  obtains s1 s2 where "req_search r1 = Some s1" and "AppendTokens (env_search env) tokens s1 = Inr s2"
    and "r2 = r1\<lparr>req_search := Some s2, tokens_host := tokens_host r1 @ tokens, prompt_sequence_length := int (current_length s2),
       processed_sequence_length := (if first then 0 else processed_sequence_length r1), status := Assigned\<rparr>"
proof -
  obtain s1 s2 where s: "req_search r1 = Some s1" "AppendTokens (env_search env) tokens s1 = Inr s2"
    and r2: "r2 = (if first then r1\<lparr>req_search := Some s2, tokens_host := tokens_host r1 @ tokens, prompt_sequence_length := int (current_length s2), processed_sequence_length := 0, status := Assigned\<rparr>
      else r1\<lparr>req_search := Some s2, tokens_host := tokens_host r1 @ tokens, prompt_sequence_length := int (current_length s2), status := Assigned\<rparr>)"
    using assms by (auto simp: append_prompt_def bind_result_Inr_iff on_search_Inr CurrentSequenceLength_def Let_def split: if_splits)
  have "r2 = r1\<lparr>req_search := Some s2, tokens_host := tokens_host r1 @ tokens, prompt_sequence_length := int (current_length s2),
       processed_sequence_length := (if first then 0 else processed_sequence_length r1), status := Assigned\<rparr>"
    unfolding r2 by (cases first; rule Request.equality) simp_all
  with s that show ?thesis by blast
qed

lemma append_stage:
  assumes "r2 = r1 \<or> append_prompt env first tokens r1 = Inr r2" and "req_search r1 = Some s1" and "search_ok (env_search env) s1"
  shows "\<exists>s2 l m. search_ok (env_search env) s2 \<and> keeps (current_length s1) s1 s2 \<and> req_search r2 = Some s2
    \<and> (r2 = r1 \<or> r2 = r1\<lparr>req_search := Some s2, tokens_host := tokens_host r1 @ tokens, prompt_sequence_length := l,
         processed_sequence_length := m, status := Assigned\<rparr>)"
  using assms(1)
proof (elim disjE)
  assume "append_prompt env first tokens r1 = Inr r2"
  then obtain s2 where a: "AppendTokens (env_search env) tokens s1 = Inr s2"
    and r2: "r2 = r1\<lparr>req_search := Some s2, tokens_host := tokens_host r1 @ tokens, prompt_sequence_length := int (current_length s2),
       processed_sequence_length := (if first then 0 else processed_sequence_length r1), status := Assigned\<rparr>"
    by (rule append_prompt_facts) (simp add: assms(2))
  have "req_search r2 = Some s2" unfolding r2 by simp
  with AppendTokens_keeps[OF assms(3) a] r2 show ?thesis by blast
qed (use assms in auto)

lemma durable_admission:
  assumes r1: "r1 = r\<lparr>req_search := s1, guidance_checkpoint := None, transaction_rng := host_rng r,
       transaction_processed_sequence_length := processed_sequence_length r,
       transaction_tokens_host_size := length (tokens_host r), stop_controller_checkpoint := 0\<rparr>"
    and r2: "r2 = r1 \<or> r2 = r1\<lparr>req_search := s2, tokens_host := tokens_host r1 @ tokens, prompt_sequence_length := l,
       processed_sequence_length := m, status := Assigned\<rparr>"
    and "\<not> pending_reseed_applied r" and "guidance r = None" and "stop_controller r = None"
  shows "durable ((reset_step (r2\<lparr>status := status r, tokens_host := resize_tokens (length (tokens_host r)) (tokens_host r2),
      prompt_sequence_length := prompt_sequence_length r, processed_sequence_length := processed_sequence_length r,
      req_search := s3\<rparr>))\<lparr>guidance := guidance r, guidance_checkpoint := None, stop_controller := stop_controller r\<rparr>) = durable r"
  using r2 assms(3-) unfolding r1
  by (elim disjE; intro Request.equality) (simp_all add: durable_def reset_step_def resize_take)

text \<open>
  C5. A turn that is refused after its admission began leaves no trace: whether the failure comes before or after the
  prompt was appended, rolling the admission back gives the Request as it was before (tokens, status, lengths, search,
  random stream and the identifiers and boundaries of its turns), so the previous turn can still be continued.
\<close>

theorem admission_rollback_restores:
  fixes env :: "('s, 'e, 'g) RequestEnv"
  assumes "env_ok env" and "idle env r" and "start_admission r adm = (Inr (r1, adm1) :: 'e request_error + _)"
    and "r2 = r1 \<or> append_prompt env (IsAwaitingFirstTurn r) tokens r1 = Inr r2"
  shows "\<exists>r3 adm3. RollbackTurnAdmission env r2 adm1 = Inr (r3, adm3) \<and> \<not> transaction_started adm3
    \<and> durable r3 = durable r
    \<and> map_option (search_view (env_search env)) (req_search r3) = map_option (search_view (env_search env)) (req_search r)"
proof -
  obtain s s1 where s: "req_search r = Some s" "Greedy_Search.SaveStateForTransaction s = Inr s1" "search_ok (env_search env) s"
    "search_ok (env_search env) s1" "current_length s1 = current_length s" "\<not> transaction_restore_pending s"
    and e: "guidance r = None" "stop_controller r = None"
    and r1: "r1 = r\<lparr>req_search := Some s1, guidance_checkpoint := None, transaction_rng := host_rng r,
       transaction_processed_sequence_length := processed_sequence_length r,
       transaction_tokens_host_size := length (tokens_host r), stop_controller_checkpoint := 0\<rparr>"
    and adm1: "adm1 = adm\<lparr>adm_status := status r, adm_host_token_count := length (tokens_host r),
       adm_prompt_sequence_length := prompt_sequence_length r, adm_processed_sequence_length := processed_sequence_length r,
       transaction_started := True\<rparr>"
    using start_admission_facts[OF assms(3,2)] by blast
  have q1: "req_search r1 = Some s1" by (simp add: r1)
  obtain s2 l m where s2: "search_ok (env_search env) s2" "keeps (current_length s) s1 s2" "req_search r2 = Some s2"
    and r2: "r2 = r1 \<or> r2 = r1\<lparr>req_search := Some s2, tokens_host := tokens_host r1 @ tokens, prompt_sequence_length := l,
       processed_sequence_length := m, status := Assigned\<rparr>"
    using append_stage[OF assms(4) q1 s(4)] s(5) by metis
  obtain s3 where s3: "Greedy_Search.RestoreStateForTransaction s2 = Inr s3" "seq_of s3 = seq_of s" "next_tokens s3 = next_tokens s"
    "eos_seen s3 = eos_seen s" "not_done_count s3 = not_done_count s" "search_done s3 = search_done s"
    using restore_spec[OF s(2,3) s2(1,2) s(6)] by auto
  let ?y = "r2\<lparr>status := status r, tokens_host := resize_tokens (length (tokens_host r)) (tokens_host r2),
      prompt_sequence_length := prompt_sequence_length r, processed_sequence_length := processed_sequence_length r\<rparr>"
  let ?r3 = "(reset_step (?y\<lparr>req_search := Some s3\<rparr>))\<lparr>guidance := guidance r, guidance_checkpoint := None, stop_controller := stop_controller r\<rparr>"
  have ok: "controller_ok env r" using assms(2) by (simp add: idle_def)
  have "restore_turn_state env (reset_step (?y\<lparr>req_search := Some s3\<rparr>)) = Inr ?r3"
    by (rule restore_turn_state_spec[OF ok]) (use r2 e in \<open>auto simp: reset_step_def r1 observed_tokens_def\<close>)
  then have "RollbackTurnAdmission env r2 adm1 = Inr (?r3, adm1\<lparr>transaction_started := False\<rparr>)"
    using s2(3) s3(1) by (simp add: RollbackTurnAdmission_def adm1 RestoreStateForTransaction_request_def on_search_def Let_def)
  moreover have "durable ?r3 = durable r"
    by (rule durable_admission[OF r1 r2]) (use assms(2) e in \<open>simp_all add: idle_def\<close>)
  moreover have "req_search ?r3 = Some s3" by (simp add: reset_step_def)
  ultimately show ?thesis
    by (intro exI[of _ ?r3] exI[of _ "adm1\<lparr>transaction_started := False\<rparr>"]) (use s(1) s3 in \<open>simp add: search_view_def GetSequence_0\<close>)
qed

definition example_admission :: "(unit, unit) RequestTurnAdmission" where
  "example_admission = \<lparr>adm_status = Unassigned, adm_host_token_count = 0, adm_prompt_sequence_length = 0,
     adm_processed_sequence_length = 0, transaction_started = False,
     adm_policy = ResolveTurnPolicy example_defaults no_options, pending_stop_controller = None, pending_guidance = None\<rparr>"

theorem admission_rollback_restores_witness:
  "\<exists>r1 adm1 r2 r3 adm3. start_admission (example_request\<lparr>status := TurnComplete\<rparr>) example_admission = (Inr (r1, adm1) :: unit request_error + _)
    \<and> append_prompt example_env False [5, 6] r1 = Inr r2 \<and> tokens_host r2 = [7, 8, 5, 6] \<and> status r2 = Assigned
    \<and> RollbackTurnAdmission example_env r2 adm1 = Inr (r3, adm3) \<and> durable r3 = durable (example_request\<lparr>status := TurnComplete\<rparr>)"
  (is "\<exists>r1 adm1 r2 r3 adm3. ?P r1 adm1 r2 r3 adm3")
proof -
  let ?r = "example_request\<lparr>status := TurnComplete\<rparr>"
  have idle: "idle example_env ?r"
    using example_request_idle by (auto simp: idle_def controller_ok_def)
  have start: "\<exists>r1 adm1. start_admission ?r example_admission = (Inr (r1, adm1) :: unit request_error + _)"
    by (simp add: start_admission_def SaveStateForNewTurnTransaction_def on_search_def example_request_def example_search_def
        new_request_def new_search_def SaveStateForTransaction_def StartTransactionCheckpoint_def Let_def)
  then obtain r1 adm1 where r1: "start_admission ?r example_admission = (Inr (r1, adm1) :: unit request_error + _)" by blast
  obtain s s1 where q: "req_search r1 = Some s1" "search_ok example_params s1" "current_length s1 = 2" "tokens_host r1 = [7, 8]"
    by (rule start_admission_facts[OF r1 idle]) (auto simp: example_request_def example_search_def example_env_def)
  have "current_length s1 + length [5, 6 :: token] \<le> max_length example_params" using q by (simp add: example_params_def)
  from AppendTokens_spec[OF q(2) this] obtain s2 where s2: "AppendTokens example_params [5, 6] s1 = Inr s2" by blast
  have e: "env_search example_env = example_params" by (simp add: example_env_def)
  obtain r2 where r2: "append_prompt example_env False [5, 6] r1 = Inr r2" "tokens_host r2 = [7, 8, 5, 6]" "status r2 = Assigned"
    using q s2 by (simp add: append_prompt_def on_search_def e Let_def)
  have f: "IsAwaitingFirstTurn ?r = False" by (simp add: IsAwaitingFirstTurn_def)
  from admission_rollback_restores[OF example_env_ok idle r1, of r2 "[5, 6]"] r2 r1 show ?thesis unfolding f by blast
qed

end
