(* ===== verification/Request_Drafts.thy ===== *)
theory Request_Drafts
  imports Request_Rollback
begin

text \<open>
  Verifying a whole proposal of drafts in one step against decoding the same tokens one step at a time: the same tokens are
  appended, stop strings and guidance see the same tokens, and the turn ends at the same token for the same reason.
\<close>

section \<open>One token at a time\<close>

text \<open>The step without drafts in which the target model chose the token \<open>t\<close>.\<close>

definition one_token_step ::
  "('s, 'e, 'g) RequestEnv \<Rightarrow> RequestStepPlan \<Rightarrow> token \<Rightarrow> ('s, 'g) Request \<Rightarrow> 'e request_error + ('s, 'g) Request" where
  "one_token_step env plan t r =
     bind_result (on_search (CommitToken (env_search env) t) r) (\<lambda>r1.
     bind_result (StageGeneration env (CurrentSequenceLength r) r1) (\<lambda>(result, r2).
       Inr (CommitStep plan result r2)))"

text \<open>Steps until the turn is complete or the tokens are used up.\<close>

fun one_by_one ::
  "('s, 'e, 'g) RequestEnv \<Rightarrow> RequestStepPlan \<Rightarrow> token list \<Rightarrow> ('s, 'g) Request \<Rightarrow> 'e request_error + ('s, 'g) Request" where
  "one_by_one env plan [] r = Inr r"
| "one_by_one env plan (t # ts) r =
     bind_result (one_token_step env plan t r) (\<lambda>r1. if IsTurnComplete (status r1) then Inr r1 else one_by_one env plan ts r1)"

lemma CommitStep_fields [simp]:
  "tokens_host (CommitStep plan res r) = tokens_host r @ (if token_appended res then [res_token res] else [])"
  "req_search (CommitStep plan res r) = req_search r"
  "status (CommitStep plan res r) = (if res_done res then TurnComplete else Active)"
  "turn_policy (CommitStep plan res r) = turn_policy r"
  "turn_generated_tokens (CommitStep plan res r) = turn_generated_tokens r + accepted_draft_count r + (if token_appended res then 1 else 0)"
  "accepted_draft_count (CommitStep plan res r) = 0" "staged_draft_count (CommitStep plan res r) = 0"
  "res_done res \<Longrightarrow> finish_reason (CommitStep plan res r) = res_finish_reason res"
  "res_done res \<Longrightarrow> matched_stop_string_index (CommitStep plan res r) = res_matched_stop_string_index res"
  "res_done res \<Longrightarrow> stop_controller (CommitStep plan res r) = None" "res_done res \<Longrightarrow> guidance (CommitStep plan res r) = None"
  "\<not> res_done res \<Longrightarrow> stop_controller (CommitStep plan res r) = stop_controller r"
  "\<not> res_done res \<Longrightarrow> guidance (CommitStep plan res r) = guidance r"
  by (simp_all add: CommitStep_def ReleaseTurnResources_def Let_def)

lemma staged_result_fields [simp]:
  "res_token (staged_result t b f) = t" "token_appended (staged_result t b f) = b"
  "res_done (staged_result t b f) = (fst f \<noteq> ReasonNone)" "res_finish_reason (staged_result t b f) = fst f"
  "res_matched_stop_string_index (staged_result t b f) = snd f"
  by (simp_all add: staged_result_def)

lemma guide_fields [simp]:
  "tokens_host (guide env ts r) = tokens_host r" "req_search (guide env ts r) = req_search r" "turn_policy (guide env ts r) = turn_policy r"
  "turn_generated_tokens (guide env ts r) = turn_generated_tokens r" "accepted_draft_count (guide env ts r) = accepted_draft_count r"
  "stop_controller (guide env ts r) = stop_controller r" "draft_verification (guide env ts r) = draft_verification r"
  by (simp_all add: guide_def split: option.splits)

text \<open>Observing depends on the controller alone and changes nothing else.\<close>

definition observe_controller ::
  "('s, 'e, 'g) RequestEnv \<Rightarrow> token \<Rightarrow> 's StopStringController option
   \<Rightarrow> 'e request_error + 's StopStringController option \<times> StopStringMatch option" where
  "observe_controller env t c =
     (case c of None \<Rightarrow> Inr (None, None)
      | Some x \<Rightarrow> bind_result (lift_error controller_failure (ObserveToken (env_tokenizer env) t x)) (\<lambda>(y, m). Inr (Some y, m)))"

lemma observe_stop_eq:
  "observe_stop env t r = bind_result (observe_controller env t (stop_controller r)) (\<lambda>(c, m). Inr (r\<lparr>stop_controller := c\<rparr>, m))"
proof (cases "stop_controller r")
  case None
  then have "r = r\<lparr>stop_controller := None\<rparr>" by (intro Request.equality) simp_all
  then show ?thesis using None by (simp add: observe_stop_def observe_controller_def)
next
  case (Some c)
  show ?thesis
    by (cases "ObserveToken (env_tokenizer env) t c") (auto simp: observe_stop_def observe_controller_def Some lift_error_def)
qed

lemma to_int32_small: "n < 2 ^ 31 \<Longrightarrow> to_int32 n = int n"
  by (simp add: to_int32_def signed_of_nat signed_take_bit_int_eq_self)

lemma observe_controller_facts:
  assumes ok: "controller_ok env r" and o: "observe_controller env t (stop_controller r) = Inr (c, m)"
  shows "controller_ok env (x\<lparr>stop_controller := c\<rparr>)" and "m = Some found \<Longrightarrow> to_int32 (match_index found) \<ge> 0"
proof -
  show "controller_ok env (x\<lparr>stop_controller := c\<rparr>)"
  proof (cases "stop_controller r")
    case None
    then show ?thesis using o by (simp add: observe_controller_def controller_ok_def)
  next
    case (Some y)
    then obtain y' where y': "ObserveToken (env_tokenizer env) t y = Inr (y', m)" "c = Some y'"
      using o by (auto simp: observe_controller_def bind_result_Inr_iff)
    obtain Ps c0 ts where "new_controller (Some (env_tokenizer env)) Ps = Inr c0" "run_result (observe_only (env_tokenizer env)) ts c0 = Inr y"
      using ok Some by (auto simp: controller_ok_def)
    moreover from this y' have "run_result (observe_only (env_tokenizer env)) (ts @ [t]) c0 = Inr y'"
      by (simp add: run_result_append observe_only_def)
    ultimately show ?thesis using y'(2) by (auto simp: controller_ok_def)
  qed
  show "to_int32 (match_index found) \<ge> 0" if m: "m = Some found"
  proof -
    obtain y y' where y: "stop_controller r = Some y" "ObserveToken (env_tokenizer env) t y = Inr (y', Some found)"
      using o m by (auto simp: observe_controller_def bind_result_Inr_iff split: option.splits)
    from ok y(1) obtain Ps c0 ts where "new_controller (Some (env_tokenizer env)) Ps = Inr c0"
      "run_result (observe_only (env_tokenizer env)) ts c0 = Inr y" by (auto simp: controller_ok_def)
    from observed_index[OF this y(2)] show ?thesis by (simp add: kMaxStopStringCount_def to_int32_small)
  qed
qed

section \<open>The simulation\<close>

text \<open>A request that is verifying drafts (\<open>v\<close>) and one that decodes one by one (\<open>d\<close>), after the same tokens.\<close>

definition decoding :: "('s, 'e, 'g) RequestEnv \<Rightarrow> ('s, 'g) Request \<Rightarrow> bool" where
  "decoding env r \<longleftrightarrow> (\<exists>s. req_search r = Some s \<and> search_ok (env_search env) s \<and> live s \<and> seq_of s = tokens_host r
     \<and> current_length s < max_length (env_search env))
     \<and> \<not> turn_limit_reached r (turn_generated_tokens r + accepted_draft_count r) \<and> controller_ok env r"

definition in_sync :: "('s, 'e, 'g) RequestEnv \<Rightarrow> ('s, 'g) Request \<Rightarrow> ('s, 'g) Request \<Rightarrow> bool" where
  "in_sync env v d \<longleftrightarrow> decoding env v \<and> decoding env d \<and> tokens_host v = tokens_host d \<and> stop_controller v = stop_controller d
     \<and> guidance v = guidance d \<and> turn_policy v = turn_policy d \<and> draft_verification v = no_verification
     \<and> turn_generated_tokens d = turn_generated_tokens v + accepted_draft_count v \<and> accepted_draft_count d = 0"

text \<open>Both ended the turn, for the same reason.\<close>

definition ended_same :: "('s, 'g) Request \<Rightarrow> ('s, 'g) Request \<Rightarrow> bool" where
  "ended_same v d \<longleftrightarrow> IsTurnComplete (status d) \<and> tokens_host v = tokens_host d
     \<and> turn_generated_tokens d = turn_generated_tokens v + accepted_draft_count v
     \<and> stop_controller d = None \<and> guidance d = None
     \<and> (finish_reason d, matched_stop_string_index d) = completion_finish v \<and> fst (completion_finish v) \<noteq> ReasonNone"

lemma limit_policy: "turn_policy r = turn_policy r' \<Longrightarrow> turn_limit_reached r k = turn_limit_reached r' k"
  by (simp add: turn_limit_reached_def)

lemma visible_drafts:
  assumes "accepted_draft_count r \<le> kMaxDraftTokensPerStep" and "accepted_draft_count r \<le> length (tokens_host r)"
  shows "StageVisibleTokens (accepted_draft_count r) (Some t) r res
      = Inr (res\<lparr>visible_tokens := drop (length (tokens_host r) - accepted_draft_count r) (tokens_host r) @ [t]\<rparr>)"
    and "StageVisibleTokens (accepted_draft_count r) None r res
      = Inr (res\<lparr>visible_tokens := drop (length (tokens_host r) - accepted_draft_count r) (tokens_host r)\<rparr>)"
  using assms by (simp_all add: StageVisibleTokens_def kMaxGeneratedTokensPerStep_def)

lemma classify_cong:
  assumes "search_is_done r = search_is_done r'" and "CurrentSequenceLength r = CurrentSequenceLength r'" and "turn_policy r = turn_policy r'"
  shows "classify_finish env x k m r = classify_finish env x k m r'"
  unfolding classify_finish_def turn_limit_reached_def assms by (rule refl)

lemma stage_eos:
  assumes "req_search r = Some s" and "current_length s = n" and "next_tokens s = [t]" and "search_done s"
    and "t \<in> set (eos_token_id (env_search env))"
    and "accepted_draft_count r \<le> kMaxDraftTokensPerStep" and "accepted_draft_count r \<le> length (tokens_host r)"
  shows "\<exists>vis. StageGeneration env (int n) r = Inr ((staged_result t False (EosToken, -1))\<lparr>visible_tokens := vis\<rparr>, r)"
  using assms(1-5)
  by (intro exI[of _ "drop (length (tokens_host r) - accepted_draft_count r) (tokens_host r)"])
    (simp add: StageGeneration_def CurrentSequenceLength_def last_next_token_def CommitGuidanceToken_def classify_finish_def
      search_is_done_def is_eos_token_def Let_def visible_drafts[OF assms(6,7)])

lemma stage_appended:
  assumes "req_search r = Some s" and "current_length s = n + 1" and "next_tokens s = [t]"
    and "accepted_draft_count r \<le> kMaxDraftTokensPerStep" and "accepted_draft_count r \<le> length (tokens_host r)"
  shows "\<exists>vis. StageGeneration env (int n) r
    = bind_result (observe_controller env t (stop_controller r)) (\<lambda>(c, m). Inr ((staged_result t True
        (classify_finish env (Some t) (turn_generated_tokens r + accepted_draft_count r + 1) m r))\<lparr>visible_tokens := vis\<rparr>,
        guide env [t] (r\<lparr>stop_controller := c\<rparr>)))"
proof -
  have f: "classify_finish env x k m (r\<lparr>stop_controller := c\<rparr>) = classify_finish env x k m r" for x k m c
    by (rule classify_cong) (simp_all add: search_is_done_def CurrentSequenceLength_def)
  have v: "StageVisibleTokens (accepted_draft_count r) (Some t) (r\<lparr>stop_controller := c\<rparr>) res
      = Inr (res\<lparr>visible_tokens := drop (length (tokens_host r) - accepted_draft_count r) (tokens_host r) @ [t]\<rparr>)" for c res
    using assms(4,5) by (simp add: StageVisibleTokens_def kMaxGeneratedTokensPerStep_def)
  show ?thesis
    by (intro exI[of _ "drop (length (tokens_host r) - accepted_draft_count r) (tokens_host r) @ [t]"],
        cases "observe_controller env t (stop_controller r)")
      (use assms(1-3) in \<open>auto simp: StageGeneration_def CurrentSequenceLength_def last_next_token_def
        CommitGuidanceToken_def observe_stop_eq Let_def f v\<close>)
qed

lemma one_token_eos:
  assumes s: "req_search d = Some s" "CommitToken (env_search env) t s = Inr s'" "current_length s' = current_length s"
      "next_tokens s' = [t]" "search_done s'" and e: "t \<in> set (eos_token_id (env_search env))" and z: "accepted_draft_count d = 0"
  shows "\<exists>res. one_token_step env plan t d = Inr (CommitStep plan res (d\<lparr>req_search := Some s'\<rparr>))
    \<and> res_done res \<and> res_finish_reason res = EosToken \<and> res_matched_stop_string_index res = -1 \<and> \<not> token_appended res"
proof -
  from stage_eos[of "d\<lparr>req_search := Some s'\<rparr>" s', OF _ s(3,4,5) e] z obtain vis where
    "StageGeneration env (int (current_length s)) (d\<lparr>req_search := Some s'\<rparr>)
      = Inr ((staged_result t False (EosToken, -1))\<lparr>visible_tokens := vis\<rparr>, d\<lparr>req_search := Some s'\<rparr>)" by auto
  then show ?thesis using s(1,2)
    by (intro exI[of _ "(staged_result t False (EosToken, - 1))\<lparr>visible_tokens := vis\<rparr>"])
      (simp add: one_token_step_def on_search_def CurrentSequenceLength_def)
qed

lemma one_token_appended:
  assumes s: "req_search d = Some s" "CommitToken (env_search env) t s = Inr s'" "current_length s' = current_length s + 1"
      "next_tokens s' = [t]" and o: "observe_controller env t (stop_controller d) = Inr (c, m)" and z: "accepted_draft_count d = 0"
  shows "\<exists>res. one_token_step env plan t d
      = Inr (CommitStep plan res (guide env [t] (d\<lparr>req_search := Some s', stop_controller := c\<rparr>)))
    \<and> token_appended res \<and> res_token res = t
    \<and> (res_finish_reason res, res_matched_stop_string_index res)
        = classify_finish env (Some t) (turn_generated_tokens d + 1) m (d\<lparr>req_search := Some s', stop_controller := c\<rparr>)
    \<and> (res_done res \<longleftrightarrow> res_finish_reason res \<noteq> ReasonNone)"
proof -
  let ?f = "classify_finish env (Some t) (turn_generated_tokens d + 1) m (d\<lparr>req_search := Some s'\<rparr>)"
  have f: "classify_finish env x k m (d\<lparr>req_search := Some s', stop_controller := c\<rparr>) = classify_finish env x k m (d\<lparr>req_search := Some s'\<rparr>)" for x k
    by (rule classify_cong) (simp_all add: search_is_done_def CurrentSequenceLength_def)
  from stage_appended[of "d\<lparr>req_search := Some s'\<rparr>" s', OF _ s(3,4), of env] z o obtain vis where
    "StageGeneration env (int (current_length s)) (d\<lparr>req_search := Some s'\<rparr>)
      = Inr ((staged_result t True ?f)\<lparr>visible_tokens := vis\<rparr>, guide env [t] (d\<lparr>req_search := Some s', stop_controller := c\<rparr>))" by auto
  then show ?thesis using s(1,2)
    by (intro exI[of _ "(staged_result t True ?f)\<lparr>visible_tokens := vis\<rparr>"])
      (simp add: one_token_step_def on_search_def CurrentSequenceLength_def f)
qed

lemma sync_eos:
  assumes sync: "in_sync env v d" and e: "t \<in> set (eos_token_id (env_search env))" and f: "verify_draft env t v = Inr v'"
  shows "\<exists>d'. one_token_step env plan t d = Inr d' \<and> completed_generation (draft_verification v') \<and> ended_same v' d'"
proof -
  obtain sv sd where sv: "req_search v = Some sv" "search_ok (env_search env) sv" "live sv" "current_length sv < max_length (env_search env)"
    and sd: "req_search d = Some sd" "search_ok (env_search env) sd" "live sd" "current_length sd < max_length (env_search env)"
    using sync by (auto simp: in_sync_def decoding_def)
  from CommitToken_spec[OF sv(2,3,4), of t] e obtain sv' where v1: "CommitToken (env_search env) t sv = Inr sv'"
    "current_length sv' = current_length sv" "search_done sv'" by auto
  from CommitToken_spec[OF sd(2,3,4), of t] e obtain sd' where d1: "CommitToken (env_search env) t sd = Inr sd'"
    "current_length sd' = current_length sd" "next_tokens sd' = [t]" "search_done sd'" by auto
  have lim: "\<not> turn_limit_reached v (turn_generated_tokens v + accepted_draft_count v)"
    and dv: "draft_verification v = no_verification" and z: "accepted_draft_count d = 0"
    using sync by (auto simp: in_sync_def decoding_def)
  have v': "v' = check_completion env t (draft_seen sv' v)"
    using f v1 unfolding verify_draft_eq[OF sv(1) v1(1)] by simp
  have done_v: "search_is_done (draft_seen sv' v)" using v1(3) by (simp add: search_is_done_def draft_seen_def)
  have fin: "completion_finish v' = (EosToken, -1)" "completed_generation (draft_verification v')" "tokens_host v' = tokens_host v"
    "turn_generated_tokens v' = turn_generated_tokens v" "accepted_draft_count v' = accepted_draft_count v"
    using done_v e lim dv by (simp_all add: v' check_completion_def completion_finish_def draft_seen_def no_verification_def turn_limit_reached_def)
  from one_token_eos[OF sd(1) d1(1,2,3,4) e z, of plan] obtain res where
    "one_token_step env plan t d = Inr (CommitStep plan res (d\<lparr>req_search := Some sd'\<rparr>))" "res_done res"
    "res_finish_reason res = EosToken" "res_matched_stop_string_index res = -1" "\<not> token_appended res" by blast
  then show ?thesis using sync fin by (auto simp: ended_same_def in_sync_def IsTurnComplete_def)
qed

text \<open>After an appended token that completed no stop string, both sides look at the same limits.\<close>

lemma guide_guidance: "guidance r = guidance r' \<Longrightarrow> guidance (guide env ts r) = guidance (guide env ts r')"
  by (simp add: guide_def split: option.splits)

lemma classify_appended:
  assumes "env_ok env" and "search_ok (env_search env) s'" and "t \<notin> set (eos_token_id (env_search env))"
    and "search_done s' \<longleftrightarrow> current_length s' = max_length (env_search env)" and "req_search d = Some s'"
  shows "classify_finish env (Some t) k None d =
    (if turn_limit_reached d k then TurnLimit else if search_done s' then ContextLimit else ReasonNone, -1)"
proof -
  have "to_size (int (current_length s')) = current_length s'" "current_length s' \<le> max_length (env_search env)"
    using assms(1,2) by (auto simp: env_ok_def search_ok_def)
  then show ?thesis using assms(3-)
    by (auto simp: classify_finish_def search_is_done_def is_eos_token_def CurrentSequenceLength_def max_session_tokens_def)
qed

lemma controller_ok_cong: "stop_controller r = stop_controller r' \<Longrightarrow> controller_ok env r = controller_ok env r'"
  by (simp add: controller_ok_def)

lemma decodingI:
  assumes "appended (env_search env) t s s'" and "not_done_count s' = 1" and "eos_seen s' = [False]" and "\<not> search_done s'"
    and "search_done s' = (current_length s + 1 = max_length (env_search env))" and "current_length s < max_length (env_search env)"
    and "req_search r = Some s'" and "tokens_host r = seq_of s @ [t]"
    and "\<not> turn_limit_reached r (turn_generated_tokens r + accepted_draft_count r)" and "controller_ok env r"
  shows "decoding env r"
  using assms by (auto simp: decoding_def appended_def live_def)

text \<open>What happens on both sides to a token that is appended.\<close>

lemma appended_both:
  assumes sync: "in_sync env v d" and e: "t \<notin> set (eos_token_id (env_search env))" and f: "verify_draft env t v = Inr v'"
  obtains sv sv' sd sd' c m res where "appended (env_search env) t sv sv'" and "not_done_count sv' = 1" and "eos_seen sv' = [False]"
    and "search_done sv' = (current_length sv + 1 = max_length (env_search env))" and "current_length sv < max_length (env_search env)"
    and "seq_of sv = tokens_host v"
    and "appended (env_search env) t sd sd'" and "not_done_count sd' = 1" and "eos_seen sd' = [False]"
    and "search_done sd' = (current_length sd + 1 = max_length (env_search env))" and "seq_of sd = tokens_host d"
    and "current_length sv = current_length sd"
    and "observe_controller env t (stop_controller d) = Inr (c, m)"
    and "v' = (let r2 = (guide env [t] (draft_kept t sv' v))\<lparr>stop_controller := c\<rparr>
        in case m of Some found \<Rightarrow> draft_matched found r2 | None \<Rightarrow> check_completion env t r2)"
    and "one_token_step env plan t d = Inr (CommitStep plan res (guide env [t] (d\<lparr>req_search := Some sd', stop_controller := c\<rparr>)))"
    and "token_appended res" and "res_token res = t"
    and "(res_finish_reason res, res_matched_stop_string_index res)
        = classify_finish env (Some t) (turn_generated_tokens d + 1) m (d\<lparr>req_search := Some sd', stop_controller := c\<rparr>)"
    and "res_done res \<longleftrightarrow> res_finish_reason res \<noteq> ReasonNone"
proof -
  let ?p = "env_search env"
  obtain sv sd where sv: "req_search v = Some sv" "search_ok ?p sv" "live sv" "current_length sv < max_length ?p" "seq_of sv = tokens_host v"
    and sd: "req_search d = Some sd" "search_ok ?p sd" "live sd" "current_length sd < max_length ?p" "seq_of sd = tokens_host d"
    using sync by (auto simp: in_sync_def decoding_def)
  have len: "current_length sv = current_length sd" using sync sv sd length_seq_of[OF sv(2)] length_seq_of[OF sd(2)] by (simp add: in_sync_def)
  from CommitToken_spec[OF sv(2,3,4), of t] e obtain sv' where v1: "CommitToken ?p t sv = Inr sv'" "appended ?p t sv sv'"
    "not_done_count sv' = 1" "eos_seen sv' = [False]" "search_done sv' = (current_length sv + 1 = max_length ?p)" by auto
  from CommitToken_spec[OF sd(2,3,4), of t] e obtain sd' where d1: "CommitToken ?p t sd = Inr sd'" "appended ?p t sd sd'"
    "not_done_count sd' = 1" "eos_seen sd' = [False]" "search_done sd' = (current_length sd + 1 = max_length ?p)" by auto
  note a = v1(2)[unfolded appended_def] d1(2)[unfolded appended_def]
  have c: "stop_controller (guide env [t] (draft_kept t sv' v)) = stop_controller d"
    using sync by (simp add: in_sync_def draft_kept_def draft_seen_def)
  obtain c' m where o: "observe_controller env t (stop_controller d) = Inr (c', m)"
    and v': "v' = (let r2 = (guide env [t] (draft_kept t sv' v))\<lparr>stop_controller := c'\<rparr>
        in case m of Some found \<Rightarrow> draft_matched found r2 | None \<Rightarrow> check_completion env t r2)"
    using f a(1) unfolding verify_draft_eq[OF sv(1) v1(1)] observe_stop_eq c by (auto simp: bind_result_Inr_iff Let_def)
  from one_token_appended[OF sd(1) d1(1) _ _ o, of plan] a(2) sync obtain res where
    d': "one_token_step env plan t d = Inr (CommitStep plan res (guide env [t] (d\<lparr>req_search := Some sd', stop_controller := c'\<rparr>)))"
    "token_appended res" "res_token res = t"
    "(res_finish_reason res, res_matched_stop_string_index res)
        = classify_finish env (Some t) (turn_generated_tokens d + 1) m (d\<lparr>req_search := Some sd', stop_controller := c'\<rparr>)"
    "res_done res \<longleftrightarrow> res_finish_reason res \<noteq> ReasonNone"
    by (auto simp: in_sync_def)
  show ?thesis by (rule that[OF v1(2-5) sv(4,5) d1(2-5) sd(5) len o v' d'])
qed

lemma sync_appended:
  assumes env: "env_ok env" and sync: "in_sync env v d" and e: "t \<notin> set (eos_token_id (env_search env))"
    and f: "verify_draft env t v = Inr v'"
  shows "\<exists>d'. one_token_step env plan t d = Inr d' \<and> tokens_host v' = tokens_host v @ [t]
    \<and> (if completed_generation (draft_verification v') then ended_same v' d' else \<not> IsTurnComplete (status d') \<and> in_sync env v' d')"
  using sync e f
proof (rule appended_both[where plan = plan])
  fix sv sv' sd sd' c m res
  assume v1: "appended (env_search env) t sv sv'" "not_done_count sv' = 1" "eos_seen sv' = [False]"
      "search_done sv' = (current_length sv + 1 = max_length (env_search env))" "current_length sv < max_length (env_search env)"
      "seq_of sv = tokens_host v"
    and d1: "appended (env_search env) t sd sd'" "not_done_count sd' = 1" "eos_seen sd' = [False]"
      "search_done sd' = (current_length sd + 1 = max_length (env_search env))" "seq_of sd = tokens_host d" "current_length sv = current_length sd"
    and o: "observe_controller env t (stop_controller d) = Inr (c, m)"
    and v': "v' = (let r2 = (guide env [t] (draft_kept t sv' v))\<lparr>stop_controller := c\<rparr>
        in case m of Some found \<Rightarrow> draft_matched found r2 | None \<Rightarrow> check_completion env t r2)"
    and d': "one_token_step env plan t d = Inr (CommitStep plan res (guide env [t] (d\<lparr>req_search := Some sd', stop_controller := c\<rparr>)))"
    and res: "token_appended res" "res_token res = t"
      "(res_finish_reason res, res_matched_stop_string_index res)
        = classify_finish env (Some t) (turn_generated_tokens d + 1) m (d\<lparr>req_search := Some sd', stop_controller := c\<rparr>)"
      "res_done res \<longleftrightarrow> res_finish_reason res \<noteq> ReasonNone"
  let ?v = "(guide env [t] (draft_kept t sv' v))\<lparr>stop_controller := c\<rparr>" and ?d = "d\<lparr>req_search := Some sd', stop_controller := c\<rparr>"
  have kept: "tokens_host ?v = tokens_host v @ [t]" "turn_generated_tokens ?v = turn_generated_tokens v" "turn_policy ?v = turn_policy v"
    "accepted_draft_count ?v = accepted_draft_count v + 1" "req_search ?v = Some sv'" "stop_controller ?v = c"
    "draft_verification ?v = no_verification" "guidance ?v = guidance (guide env [t] ?d)"
    using sync by (simp_all add: draft_kept_def draft_seen_def in_sync_def guide_def split: option.splits)
  note eqs = sync[unfolded in_sync_def]
  have ok: "controller_ok env d" using eqs by (simp add: decoding_def)
  let ?g = "turn_generated_tokens v + accepted_draft_count v + 1"
  show ?thesis
  proof (cases m)
    case (Some found)
    have "to_int32 (match_index found) \<ge> 0" by (rule observe_controller_facts(2)[OF ok o Some])
    then have "completion_finish v' = (StopString, to_int32 (match_index found))" "completed_generation (draft_verification v')"
      by (simp_all add: v' Some draft_matched_def completion_finish_def)
    moreover have "tokens_host v' = tokens_host v @ [t]" "turn_generated_tokens v' = turn_generated_tokens v"
      "accepted_draft_count v' = accepted_draft_count v + 1" using kept by (simp_all add: v' Some draft_matched_def)
    ultimately show ?thesis using d' res eqs Some by (simp add: ended_same_def IsTurnComplete_def classify_finish_def)
  next
    case None
    have fin: "(res_finish_reason res, res_matched_stop_string_index res)
        = (if turn_limit_reached v ?g then TurnLimit else if search_done sv' then ContextLimit else ReasonNone, -1)"
      using classify_appended[OF env _ e, of sd' ?d "turn_generated_tokens d + 1"] d1 v1(4) res(3) None eqs
        limit_policy[of ?d v ?g] by (simp add: appended_def)
    show ?thesis
    proof (cases "search_done sv' \<or> turn_limit_reached v ?g")
      case True
      then have v2: "v' = ?v\<lparr>draft_verification := no_verification\<lparr>completed_generation := True, dv_eos := False\<rparr>\<rparr>"
        using kept e limit_policy[of ?v v ?g] by (simp add: v' None check_completion_def search_is_done_def)
      have "completion_finish v' = (if turn_limit_reached v ?g then TurnLimit else ContextLimit, -1)"
        using kept limit_policy[of v' v ?g] by (simp add: v2 completion_finish_def no_verification_def)
      with True fin v2 kept d' res eqs show ?thesis by (auto simp: ended_same_def IsTurnComplete_def split: if_splits)
    next
      case False
      then have v2: "v' = ?v" using kept limit_policy[of ?v v ?g] by (simp add: v' None check_completion_def search_is_done_def)
      have cok: "controller_ok env (x\<lparr>stop_controller := c\<rparr>)" for x by (rule observe_controller_facts(1)[OF ok o])
      have "decoding env ?v"
        by (rule decodingI[OF v1(1-3) _ v1(4,5)]) (use False kept v1(6) cok limit_policy[of ?v v ?g] in auto)
      moreover have nd: "\<not> search_done sd'" using False v1(4) d1(4,6) by simp
      moreover have "decoding env (CommitStep plan res (guide env [t] ?d))"
        by (rule decodingI[OF d1(1-3) nd d1(4)])
          (use False v1(4,5) d1(5,6) fin res eqs cok[of "d\<lparr>req_search := Some sd'\<rparr>"] limit_policy[of "CommitStep plan res (guide env [t] ?d)" v ?g]
            controller_ok_cong[of "CommitStep plan res (guide env [t] ?d)" ?d env] in auto)
      moreover have "\<not> res_done res" using fin False res(4) by simp
      ultimately show ?thesis
        using d' res(1,2) kept eqs v2 by (auto simp: in_sync_def IsTurnComplete_def no_verification_def)
    qed
  qed
qed

lemma sync_step:
  assumes "env_ok env" and "in_sync env v d" and "verify_draft env t v = Inr v'"
  shows "\<exists>d'. one_token_step env plan t d = Inr d'
    \<and> (if completed_generation (draft_verification v') then ended_same v' d' else \<not> IsTurnComplete (status d') \<and> in_sync env v' d')"
  using sync_eos[OF assms(2) _ assms(3), of plan] sync_appended[OF assms(1,2) _ assms(3), of plan]
  by (cases "t \<in> set (eos_token_id (env_search env))") auto

lemma sync_loop:
  assumes env: "env_ok env" and "in_sync env v d" and "verify_loop env ts v = Inr v'"
  shows "\<exists>d'. one_by_one env plan ts d = Inr d'
    \<and> (if completed_generation (draft_verification v') then ended_same v' d'
       else in_sync env v' d' \<and> (\<not> IsTurnComplete (status d) \<longrightarrow> \<not> IsTurnComplete (status d')))"
  using assms(2,3)
proof (induction ts arbitrary: v d)
  case Nil
  then show ?case by (auto simp: in_sync_def no_verification_def)
next
  case (Cons t ts)
  then obtain v1 where v1: "verify_draft env t v = Inr v1"
    and rest: "(if completed_generation (draft_verification v1) then Inr v1 else verify_loop env ts v1) = Inr v'"
    by (auto simp: bind_result_Inr_iff)
  obtain d1 where d1: "one_token_step env plan t d = Inr d1"
    "if completed_generation (draft_verification v1) then ended_same v1 d1 else \<not> IsTurnComplete (status d1) \<and> in_sync env v1 d1"
    using sync_step[OF env Cons.prems(1) v1, of plan] by blast
  show ?case
  proof (cases "completed_generation (draft_verification v1)")
    case True
    then show ?thesis using d1 rest by (auto simp: ended_same_def)
  next
    case False
    then show ?thesis using Cons.IH[of v1 d1] d1 rest by (auto split: if_splits)
  qed
qed

section \<open>Properties\<close>

lemma check_completion_fields [simp]:
  "tokens_host (check_completion env t r) = tokens_host r" "accepted_draft_count (check_completion env t r) = accepted_draft_count r"
  by (simp_all add: check_completion_def)

lemma draft_matched_fields [simp]:
  "tokens_host (draft_matched m r) = tokens_host r" "accepted_draft_count (draft_matched m r) = accepted_draft_count r"
  by (simp_all add: draft_matched_def)

lemma verify_draft_host:
  assumes "verify_draft env t v = Inr v'"
  shows "\<exists>xs. tokens_host v' = tokens_host v @ xs \<and> accepted_draft_count v' = accepted_draft_count v + length xs \<and> length xs \<le> 1"
proof -
  obtain s s' where s: "req_search v = Some s" "CommitToken (env_search env) t s = Inr s'"
    using assms by (auto simp: verify_draft_def bind_result_Inr_iff on_search_Inr)
  show ?thesis
    using assms unfolding verify_draft_eq[OF s] observe_stop_eq
    by (auto simp: bind_result_Inr_iff draft_kept_def draft_seen_def split: if_splits option.splits)
qed

lemma verify_loop_host:
  "verify_loop env ts v = Inr v' \<Longrightarrow>
    \<exists>xs. tokens_host v' = tokens_host v @ xs \<and> accepted_draft_count v' = accepted_draft_count v + length xs \<and> length xs \<le> length ts"
proof (induction ts arbitrary: v)
  case (Cons t ts)
  then obtain v1 where v1: "verify_draft env t v = Inr v1"
    and rest: "(if completed_generation (draft_verification v1) then Inr v1 else verify_loop env ts v1) = Inr v'"
    by (auto simp: bind_result_Inr_iff)
  obtain xs where xs: "tokens_host v1 = tokens_host v @ xs" "accepted_draft_count v1 = accepted_draft_count v + length xs" "length xs \<le> 1"
    using verify_draft_host[OF v1] by blast
  show ?case
  proof (cases "completed_generation (draft_verification v1)")
    case True
    then show ?thesis using rest xs by auto
  next
    case False
    then obtain ys where "tokens_host v' = tokens_host v1 @ ys" "accepted_draft_count v' = accepted_draft_count v1 + length ys"
      "length ys \<le> length ts" using Cons.IH[of v1] rest by auto
    then show ?thesis using xs by (intro exI[of _ "xs @ ys"]) simp
  qed
qed simp

text \<open>Staging the drafts and taking them back leaves the request where it was, ready to verify.\<close>

lemma staged_and_rewound:
  fixes env :: "('s, 'e, 'g) RequestEnv"
  assumes env: "env_ok env" and dec: "decoding env r" and z: "staged_draft_count r = 0" "accepted_draft_count r = 0"
    and a: "AppendDraftsForTransaction env n r = Inr r1"
    and d: "drop_host_tokens (staged_draft_count r1) r1 = (Inr r2 :: 'e request_error + _)"
    and w: "on_search (RewindTo (env_search env) (to_size (CurrentSequenceLength r1 - int (staged_draft_count r1)))) r2
      = (Inr r3 :: 'e request_error + _)"
  shows "in_sync env (r3\<lparr>staged_draft_count := 0, accepted_draft_count := 0, evaluated_draft_count := 0,
      draft_verification := no_verification\<rparr>) r \<and> draft_tokens r3 = draft_tokens r"
proof -
  obtain s where s: "req_search r = Some s" "search_ok (env_search env) s" "live s" "seq_of s = tokens_host r"
    "current_length s < max_length (env_search env)" using dec by (auto simp: decoding_def)
  obtain s1 ds where s1: "search_ok (env_search env) s1" "seq_of s1 = seq_of s @ ds" "current_length s1 = current_length s + length ds"
    and r1: "req_search r1 = Some s1" "tokens_host r1 = tokens_host r @ ds" "staged_draft_count r1 = length ds" "draft_tokens r1 = draft_tokens r"
      "stop_controller r1 = stop_controller r" "guidance r1 = guidance r" "turn_policy r1 = turn_policy r"
      "turn_generated_tokens r1 = turn_generated_tokens r"
  proof (cases "n = 0")
    case True
    then show ?thesis using that[of s "[]"] a s z by (simp add: AppendDraftsForTransaction_def)
  next
    case False
    then obtain s1 where 1: "AppendTokens (env_search env) (take n (draft_tokens r)) s = Inr s1"
      and 2: "r1 = r\<lparr>req_search := Some s1, tokens_host := tokens_host r @ take n (draft_tokens r), staged_draft_count := n,
        accepted_draft_count := 0, evaluated_draft_count := 0, draft_verification := no_verification\<rparr>" and 3: "n \<le> length (draft_tokens r)"
      using a s(1) by (auto simp: AppendDraftsForTransaction_def bind_result_Inr_iff on_search_Inr Let_def split: if_splits)
    from AppendTokens_keeps[OF s(2) 1] AppendTokens_length[OF s(2) 1] show ?thesis
      using that[of s1 "take n (draft_tokens r)"] 3 by (simp add: 2)
  qed
  have r2: "r2 = r1\<lparr>tokens_host := tokens_host r\<rparr>" using d by (simp add: drop_host_tokens_def r1)
  have q2: "req_search r2 = Some s1" by (simp add: r2 r1(1))
  have k: "to_size (CurrentSequenceLength r1 - int (staged_draft_count r1)) = current_length s"
    using to_size_length[OF env s1(1), of "length ds"] s1(3) by (simp add: CurrentSequenceLength_def r1)
  obtain s2 where w2: "RewindTo (env_search env) (current_length s) s1 = Inr s2" "r3 = r2\<lparr>req_search := Some s2\<rparr>"
    using w unfolding on_search_Inr k q2 by blast
  have s2: "search_ok (env_search env) s2 \<and> live s2 \<and> seq_of s2 = tokens_host r \<and> current_length s2 < max_length (env_search env)"
    using RewindTo_spec[OF s1(1), of "current_length s"] w2(1) s1 s(4,5) length_seq_of[OF s(2)] by auto
  let ?v = "r3\<lparr>staged_draft_count := 0, accepted_draft_count := 0, evaluated_draft_count := 0, draft_verification := no_verification\<rparr>"
  have v: "req_search ?v = Some s2" "tokens_host ?v = tokens_host r" "stop_controller ?v = stop_controller r" "guidance ?v = guidance r"
    "turn_policy ?v = turn_policy r" "turn_generated_tokens ?v = turn_generated_tokens r" "accepted_draft_count ?v = 0"
    "draft_verification ?v = no_verification" "draft_tokens r3 = draft_tokens r"
    using r1 by (simp_all add: w2(2) r2)
  have "decoding env ?v"
    using dec s2 limit_policy[OF v(5)] controller_ok_cong[OF v(3), of env] z unfolding decoding_def v by simp
  then show ?thesis using dec v z unfolding in_sync_def by simp
qed

lemma sync_evaluated: "ended_same (r\<lparr>evaluated_draft_count := x\<rparr>) d = ended_same r d"
  "in_sync env (r\<lparr>evaluated_draft_count := x\<rparr>) d = in_sync env r d"
  by (simp_all add: ended_same_def completion_finish_def turn_limit_reached_def in_sync_def decoding_def controller_ok_def)

lemma accept_sync:
  fixes env :: "('s, 'e, 'g) RequestEnv"
  assumes "env_ok env" and "decoding env r" and "staged_draft_count r = 0" and "accepted_draft_count r = 0"
    and "AppendDraftsForTransaction env n r = Inr r1" and "CommitAcceptedDraftsForTransaction env k r1 = Inr r2"
    and same: "\<And>v. in_sync env v r \<Longrightarrow> in_sync env v d0"
  shows "\<exists>d xs. one_by_one env plan (take k (draft_tokens r)) d0 = Inr d \<and> tokens_host r2 = tokens_host r @ xs
    \<and> accepted_draft_count r2 = length xs \<and> length xs \<le> length (draft_tokens r)
    \<and> (if completed_generation (draft_verification r2) then ended_same r2 d
       else in_sync env r2 d \<and> (\<not> IsTurnComplete (status d0) \<longrightarrow> \<not> IsTurnComplete (status d)))"
  using assms(6)
proof (rule accept_Inr)
  fix q q1 q2
  assume d: "drop_host_tokens (staged_draft_count r1) r1 = (Inr q :: 'e request_error + _)"
    and w: "on_search (RewindTo (env_search env) (to_size (CurrentSequenceLength r1 - int (staged_draft_count r1)))) q
      = (Inr q1 :: 'e request_error + _)"
    and l: "verify_loop env (take k (draft_tokens q1)) (q1\<lparr>staged_draft_count := 0, accepted_draft_count := 0,
        evaluated_draft_count := 0, draft_verification := no_verification\<rparr>) = Inr q2"
    and r2: "r2 = (if \<not> completed_generation (draft_verification q2) \<and> k < staged_draft_count r1
        then q2\<lparr>evaluated_draft_count := evaluated_draft_count q2 + 1\<rparr> else q2)"
  note sync = staged_and_rewound[OF assms(1-5) d w]
  from sync_loop[OF assms(1) same[OF conjunct1[OF sync]] l, of plan] obtain d where
    d: "one_by_one env plan (take k (draft_tokens r)) d0 = Inr d"
      "if completed_generation (draft_verification q2) then ended_same q2 d
       else in_sync env q2 d \<and> (\<not> IsTurnComplete (status d0) \<longrightarrow> \<not> IsTurnComplete (status d))" using sync by auto
  obtain xs where xs: "tokens_host q2 = tokens_host r @ xs" "accepted_draft_count q2 = length xs" "length xs \<le> length (draft_tokens r)"
    using verify_loop_host[OF l] sync by (auto simp: in_sync_def)
  show ?thesis using d xs by (auto simp: r2 sync_evaluated)
qed

text \<open>
  C6. Verifying drafts in one step is decoding them one step at a time. After the drafts were staged and the target
  confirmed the first \<open>k\<close>, the tokens that the Request keeps are those that \<open>k\<close> ordinary steps with the same tokens
  give. If verification ended the turn, the ordinary steps end it at the same token, with the same finish reason and the
  same stop string, and the step reports exactly the kept drafts; otherwise stop strings and guidance are in the same
  state. In particular an end token and the turn's limit cannot meet, although the two paths test them in opposite order.
\<close>

theorem draft_verification_is_decoding:
  fixes env :: "('s, 'e, 'g) RequestEnv"
  assumes "env_ok env" and "decoding env r" and "staged_draft_count r = 0" and "accepted_draft_count r = 0"
    and "length (draft_tokens r) \<le> kMaxDraftTokensPerStep"
    and "AppendDraftsForTransaction env n r = Inr r1" and "CommitAcceptedDraftsForTransaction env k r1 = Inr r2"
  shows "\<exists>d. one_by_one env plan (take k (draft_tokens r)) r = Inr d \<and> tokens_host d = tokens_host r2
    \<and> turn_generated_tokens d = turn_generated_tokens r2 + accepted_draft_count r2
    \<and> (if completed_generation (draft_verification r2)
       then \<exists>result. StageDraftCompletionForTransaction r2 = (Inr result :: 'e request_error + _) \<and> IsTurnComplete (status d)
         \<and> res_finish_reason result = finish_reason d \<and> res_matched_stop_string_index result = matched_stop_string_index d
         \<and> tokens_host r @ visible_tokens result = tokens_host d
       else stop_controller d = stop_controller r2 \<and> guidance d = guidance r2)"
proof -
  from accept_sync[OF assms(1-4,6,7), of r plan] obtain d xs where
    d: "one_by_one env plan (take k (draft_tokens r)) r = Inr d" "tokens_host r2 = tokens_host r @ xs" "accepted_draft_count r2 = length xs"
      "length xs \<le> length (draft_tokens r)" "if completed_generation (draft_verification r2) then ended_same r2 d else in_sync env r2 d"
    by (auto split: if_splits)
  show ?thesis
  proof (cases "completed_generation (draft_verification r2)")
    case True
    have "StageVisibleTokens (accepted_draft_count r2) None r2 x = (Inr (x\<lparr>visible_tokens := xs\<rparr>) :: 'e request_error + _)" for x
      using d(2-4) assms(5) visible_drafts(2)[of r2 x] by simp
    then have "StageDraftCompletionForTransaction r2
        = (Inr ((staged_result 0 False (completion_finish r2))\<lparr>res_done := True, visible_tokens := xs\<rparr>) :: 'e request_error + _)"
      using True by (simp add: StageDraftCompletionForTransaction_def)
    then show ?thesis using d True by (auto simp: ended_same_def prod_eq_iff)
  next
    case False
    then show ?thesis using d by (auto simp: in_sync_def)
  qed
qed

lemma example_request_decoding: "decoding example_env example_request"
  by (simp add: decoding_def example_request_def example_search_def new_request_def new_search_def search_ok_def seq_of_def live_def
      controller_ok_def example_env_def example_params_def turn_limit_reached_def ResolveTurnPolicy_def no_options_def)

definition example_plan :: RequestStepPlan where
  "example_plan = \<lparr>plan_request = 1, sequence_length_before = 2, unprocessed_token_count = 3, draft_token_count = 2,
     packed_token_offset = 0, logits_row_index = 2, target_cache_slots = 4, whole_sequence_cache_slots = 6,
     plan_is_prefill = False, newly_admitted = False, scheduling_order = 0\<rparr>"

theorem draft_verification_is_decoding_witness:
  "\<exists>d. one_by_one example_env example_plan [9, 2] example_request = Inr d \<and> tokens_host d = [7, 8, 9]
    \<and> IsTurnComplete (status d) \<and> finish_reason d = EosToken"
proof -
  have run: "bind_result (AppendDraftsForTransaction example_env 2 example_request)
      (\<lambda>r1. bind_result (CommitAcceptedDraftsForTransaction example_env 2 r1) (\<lambda>r2.
        Inr (tokens_host r2, completed_generation (draft_verification r2), completion_finish r2))) = Inr ([7, 8, 9], True, EosToken, -1)"
    by code_simp
  then obtain r1 r2 where r: "AppendDraftsForTransaction example_env 2 example_request = Inr r1"
    "CommitAcceptedDraftsForTransaction example_env 2 r1 = Inr r2" "tokens_host r2 = [7, 8, 9]"
    "completed_generation (draft_verification r2)" "fst (completion_finish r2) = EosToken"
    by (auto simp: bind_result_Inr_iff)
  have z: "staged_draft_count example_request = 0" "accepted_draft_count example_request = 0" "draft_tokens example_request = [9, 2]"
    by (simp_all add: example_request_def new_request_def)
  have "res_finish_reason result = EosToken" if "StageDraftCompletionForTransaction r2 = (Inr result :: unit request_error + _)" for result
    using that r(4,5) by (auto simp: StageDraftCompletionForTransaction_def StageVisibleTokens_def split: if_splits)
  with draft_verification_is_decoding[OF example_env_ok example_request_decoding z(1,2) _ r(1,2), of example_plan] r(3,4) z(3)
  show ?thesis by (auto simp: kMaxDraftTokensPerStep_def)
qed

end
