(* ===== verification/Speculative_Step.thy ===== *)
theory Speculative_Step
  imports Request_Drafts
begin

text \<open>
  A whole speculative step of a greedy Request, from saving to committing: it produces the tokens that the target model
  chooses, as ordinary steps would, whatever the drafts were.
\<close>

section \<open>The longest confirmed prefix\<close>

lemma accepted_prefix_take:
  "take (accepted_prefix rows drafts) drafts = take (accepted_prefix rows drafts) rows"
  "accepted_prefix rows drafts \<le> length drafts" "accepted_prefix rows drafts \<le> length rows"
  by (induction rows drafts rule: accepted_prefix.induct) auto

lemma accepted_prefix_maximal:
  "accepted_prefix rows drafts < length drafts \<Longrightarrow> accepted_prefix rows drafts < length rows \<Longrightarrow>
    rows ! accepted_prefix rows drafts \<noteq> drafts ! accepted_prefix rows drafts"
  by (induction rows drafts rule: accepted_prefix.induct) auto

section \<open>Saving, seeding and committing do not touch the tokens\<close>

text \<open>Two requests that differ in the transaction's bookkeeping and the random streams.\<close>

definition same_tokens :: "('s, 'e, 'g) RequestEnv \<Rightarrow> ('s, 'g) Request \<Rightarrow> ('s, 'g) Request \<Rightarrow> bool" where
  "same_tokens env r r' \<longleftrightarrow> (\<exists>s s'. req_search r = Some s \<and> req_search r' = Some s' \<and> seq_of s' = seq_of s
       \<and> current_length s' = current_length s \<and> search_ok (env_search env) s' = search_ok (env_search env) s \<and> live s' = live s)
     \<and> tokens_host r' = tokens_host r \<and> stop_controller r' = stop_controller r \<and> guidance r' = guidance r
     \<and> turn_policy r' = turn_policy r \<and> turn_generated_tokens r' = turn_generated_tokens r
     \<and> accepted_draft_count r' = accepted_draft_count r \<and> staged_draft_count r' = staged_draft_count r
     \<and> draft_tokens r' = draft_tokens r \<and> draft_verification r' = draft_verification r \<and> status r' = status r"

lemma same_tokens_decoding: "same_tokens env r r' \<Longrightarrow> decoding env r' = decoding env r"
  by (auto simp: same_tokens_def decoding_def controller_ok_def turn_limit_reached_def)

lemma save_same:
  assumes "SaveStateForTransaction_request r = Inr r1"
  shows "same_tokens env r r1"
  using assms
  by (auto simp: SaveStateForTransaction_request_def save_with_def bind_result_Inr_iff on_search_Inr SaveStateForTransaction_def
      StartTransactionCheckpoint_def SaveStateForTransactionImpl_def same_tokens_def seq_of_def search_ok_def live_def split: if_splits)

lemma seed_facts:
  assumes "seed_request r = Inr r'"
  shows "\<exists>g b. r' = r\<lparr>host_rng := g, pending_reseed_applied := b\<rparr>"
proof -
  have "r = r\<lparr>host_rng := host_rng r, pending_reseed_applied := pending_reseed_applied r\<rparr>" by (rule Request.equality) simp_all
  moreover have "r' = r \<or> (\<exists>g. r' = r\<lparr>host_rng := g, pending_reseed_applied := True\<rparr>)" using assms
    by (auto simp: seed_request_def ApplyPendingSeedForTransaction_def split: if_splits option.splits)
  ultimately show ?thesis by metis
qed

lemma commit_facts:
  assumes "CommitStateForTransaction_request r = Inr r'"
  shows "tokens_host r' = tokens_host r" "stop_controller r' = stop_controller r" "guidance r' = guidance r"
    "turn_policy r' = turn_policy r" "turn_generated_tokens r' = turn_generated_tokens r" "accepted_draft_count r' = accepted_draft_count r"
    "finish_reason r' = finish_reason r" "matched_stop_string_index r' = matched_stop_string_index r"
  using assms by (auto simp: CommitStateForTransaction_request_def bind_result_Inr_iff on_search_Inr Let_def split: option.splits bool.splits)

section \<open>The token after the accepted drafts\<close>

text \<open>What both sides agree on after the step.\<close>

definition same_outcome :: "('s, 'g) Request \<Rightarrow> ('s, 'g) Request \<Rightarrow> bool" where
  "same_outcome r d \<longleftrightarrow> tokens_host r = tokens_host d \<and> turn_generated_tokens r = turn_generated_tokens d \<and> status r = status d
     \<and> stop_controller r = stop_controller d \<and> guidance r = guidance d
     \<and> (IsTurnComplete (status d) \<longrightarrow> finish_reason r = finish_reason d
          \<and> matched_stop_string_index r = matched_stop_string_index d)"

lemma CommitStep_outcome:
  assumes "tokens_host v = tokens_host d" and "stop_controller v = stop_controller d" and "guidance v = guidance d"
    and "turn_generated_tokens v + accepted_draft_count v = turn_generated_tokens d + accepted_draft_count d"
    and "token_appended res = token_appended res'" and "token_appended res \<longrightarrow> res_token res = res_token res'" and "res_done res = res_done res'"
    and "res_finish_reason res = res_finish_reason res'" and "res_matched_stop_string_index res = res_matched_stop_string_index res'"
  shows "same_outcome (CommitStep plan res v) (CommitStep plan' res' d)"
  using assms by (cases "res_done res'") (simp_all add: same_outcome_def CommitStep_def ReleaseTurnResources_def IsTurnComplete_def Let_def)

text \<open>What the commit of the transaction leaves alone.\<close>

definition unmoved :: "('s, 'g) Request \<Rightarrow> ('s, 'g) Request \<Rightarrow> bool" where
  "unmoved r r' \<longleftrightarrow> tokens_host r' = tokens_host r \<and> stop_controller r' = stop_controller r \<and> guidance r' = guidance r
     \<and> turn_policy r' = turn_policy r \<and> turn_generated_tokens r' = turn_generated_tokens r
     \<and> accepted_draft_count r' = accepted_draft_count r"

lemma commit_unmoved: "CommitStateForTransaction_request r = (Inr r' :: 'x request_error + _) \<Longrightarrow> unmoved r r'"
  by (simp add: unmoved_def commit_facts)

lemma guide_same: "guidance r = guidance r' \<Longrightarrow> guidance (guide env ts r) = guidance (guide env ts r')"
  by (simp add: guide_def split: option.splits)

lemma final_eos:
  assumes sync: "in_sync env v d" and a: "accepted_draft_count v \<le> kMaxDraftTokensPerStep" "accepted_draft_count v \<le> length (tokens_host v)"
    and sv: "req_search v = Some sv" "CommitToken (env_search env) t sv = Inr sv'"
    and st: "StageGeneration env (int (current_length sv)) (v\<lparr>req_search := Some sv'\<rparr>) = Inr (res, v2)"
    and cm: "unmoved v2 v3" and e: "t \<in> set (eos_token_id (env_search env))"
  shows "\<exists>d'. one_token_step env plan' t d = Inr d' \<and> same_outcome (CommitStep plan res v3) d'"
proof -
  let ?p = "env_search env" and ?v = "v\<lparr>req_search := Some sv'\<rparr>"
  obtain sd where s: "search_ok ?p sv" "live sv" "current_length sv < max_length ?p"
    and sd: "req_search d = Some sd" "search_ok ?p sd" "live sd" "current_length sd < max_length ?p"
    using sync sv(1) by (auto simp: in_sync_def decoding_def)
  from CommitToken_spec[OF s, of t] e sv(2) have sv': "current_length sv' = current_length sv" "next_tokens sv' = [t]" "search_done sv'" by auto
  from CommitToken_spec[OF sd(2,3,4), of t] e obtain sd' where d1: "CommitToken ?p t sd = Inr sd'"
    "current_length sd' = current_length sd" "next_tokens sd' = [t]" "search_done sd'" by auto
  from stage_eos[of ?v, OF _ sv' e] a st obtain vis where res: "res = (staged_result t False (EosToken, -1))\<lparr>visible_tokens := vis\<rparr>" "v2 = ?v"
    by auto
  have z: "accepted_draft_count d = 0" using sync by (simp add: in_sync_def)
  from one_token_eos[OF sd(1) d1 e z, of plan'] obtain res' where
    d': "one_token_step env plan' t d = Inr (CommitStep plan' res' (d\<lparr>req_search := Some sd'\<rparr>))"
      "res_done res'" "res_finish_reason res' = EosToken" "res_matched_stop_string_index res' = -1" "\<not> token_appended res'" by blast
  have "same_outcome (CommitStep plan res v3) (CommitStep plan' res' (d\<lparr>req_search := Some sd'\<rparr>))"
    by (rule CommitStep_outcome) (use cm[unfolded unmoved_def] res d' sync in \<open>simp_all add: in_sync_def\<close>)
  then show ?thesis using d'(1) by blast
qed

lemma final_appended:
  assumes sync: "in_sync env v d" and a: "accepted_draft_count v \<le> kMaxDraftTokensPerStep" "accepted_draft_count v \<le> length (tokens_host v)"
    and sv: "req_search v = Some sv" "CommitToken (env_search env) t sv = Inr sv'"
    and st: "StageGeneration env (int (current_length sv)) (v\<lparr>req_search := Some sv'\<rparr>) = Inr (res, v2)"
    and cm: "unmoved v2 v3" and e: "t \<notin> set (eos_token_id (env_search env))"
  shows "\<exists>d'. one_token_step env plan' t d = Inr d' \<and> same_outcome (CommitStep plan res v3) d'"
proof -
  let ?p = "env_search env" and ?v = "v\<lparr>req_search := Some sv'\<rparr>"
  obtain sd where s: "search_ok ?p sv" "live sv" "current_length sv < max_length ?p" "seq_of sv = tokens_host v"
    and sd: "req_search d = Some sd" "search_ok ?p sd" "live sd" "current_length sd < max_length ?p" "seq_of sd = tokens_host d"
    using sync sv(1) by (auto simp: in_sync_def decoding_def)
  note eqs = sync[unfolded in_sync_def]
  have len: "current_length sv = current_length sd" using eqs s(4) sd(5) length_seq_of[OF s(1)] length_seq_of[OF sd(2)] by simp
  from CommitToken_spec[OF s(1-3), of t] e sv(2) have sv': "current_length sv' = current_length sv + 1" "next_tokens sv' = [t]"
    "search_done sv' = (current_length sv + 1 = max_length ?p)" by (auto simp: appended_def)
  from CommitToken_spec[OF sd(2,3,4), of t] e obtain sd' where d1: "CommitToken ?p t sd = Inr sd'"
    "current_length sd' = current_length sd + 1" "next_tokens sd' = [t]" "search_done sd' = (current_length sd + 1 = max_length ?p)"
    by (auto simp: appended_def)
  obtain vis where "StageGeneration env (int (current_length sv)) ?v = bind_result (observe_controller env t (stop_controller d))
      (\<lambda>(c, m). Inr ((staged_result t True (classify_finish env (Some t) (turn_generated_tokens d + 1) m ?v))\<lparr>visible_tokens := vis\<rparr>,
        guide env [t] (?v\<lparr>stop_controller := c\<rparr>)))"
    using stage_appended[of ?v, OF _ sv'(1,2), of env] a eqs by auto
  from this[symmetric] obtain c m where o: "observe_controller env t (stop_controller d) = Inr (c, m)"
    and res: "res = (staged_result t True (classify_finish env (Some t) (turn_generated_tokens d + 1) m ?v))\<lparr>visible_tokens := vis\<rparr>"
    and v2: "v2 = guide env [t] (?v\<lparr>stop_controller := c\<rparr>)"
    unfolding st by (auto simp: bind_result_Inr_iff)
  let ?d = "d\<lparr>req_search := Some sd', stop_controller := c\<rparr>"
  have f: "classify_finish env (Some t) k m ?v = classify_finish env (Some t) k m ?d" for k
    by (rule classify_cong) (use sv' d1 len eqs in \<open>simp_all add: search_is_done_def CurrentSequenceLength_def\<close>)
  have z: "accepted_draft_count d = 0" using eqs by simp
  from one_token_appended[OF sd(1) d1(1,2,3) o z, of plan'] obtain res' where
    d': "one_token_step env plan' t d = Inr (CommitStep plan' res' (guide env [t] ?d))" "token_appended res'" "res_token res' = t"
      "(res_finish_reason res', res_matched_stop_string_index res') = classify_finish env (Some t) (turn_generated_tokens d + 1) m ?d"
      "res_done res' \<longleftrightarrow> res_finish_reason res' \<noteq> ReasonNone" by blast
  have g: "guidance (guide env [t] (?v\<lparr>stop_controller := c\<rparr>)) = guidance (guide env [t] ?d)" by (rule guide_same) (use eqs in simp)
  have "same_outcome (CommitStep plan res v3) (CommitStep plan' res' (guide env [t] ?d))"
    by (rule CommitStep_outcome) (use cm[unfolded unmoved_def] res v2 d'(2-) f g eqs in \<open>simp_all add: prod_eq_iff\<close>)
  then show ?thesis using d'(1) by blast
qed

lemma final_token:
  assumes sync: "in_sync env v d" and a: "accepted_draft_count v \<le> kMaxDraftTokensPerStep" "accepted_draft_count v \<le> length (tokens_host v)"
    and c: "on_search (CommitToken (env_search env) t) v = (Inr v1 :: 'y request_error + _)"
    and st: "StageGeneration env (CurrentSequenceLength v) v1 = Inr (res, v2)"
    and cm: "unmoved v2 v3"
  shows "\<exists>d'. one_token_step env plan' t d = Inr d' \<and> same_outcome (CommitStep plan res v3) d'"
proof -
  obtain sv sv' where s: "req_search v = Some sv" "CommitToken (env_search env) t sv = Inr sv'" "v1 = v\<lparr>req_search := Some sv'\<rparr>"
    using c by (auto simp: on_search_Inr)
  have st': "StageGeneration env (int (current_length sv)) (v\<lparr>req_search := Some sv'\<rparr>) = Inr (res, v2)"
    using st s by (simp add: CurrentSequenceLength_def)
  show ?thesis
    using final_eos[OF sync a s(1,2) st' cm] final_appended[OF sync a s(1,2) st' cm]
    by (cases "t \<in> set (eos_token_id (env_search env))") blast+
qed

section \<open>The whole step\<close>

lemma in_sync_same: "same_tokens env r x \<Longrightarrow> in_sync env v x \<Longrightarrow> in_sync env v r"
  using same_tokens_decoding[of env r x] by (auto simp: in_sync_def same_tokens_def)

lemma one_by_one_append:
  "one_by_one env plan xs r = Inr d \<Longrightarrow> \<not> IsTurnComplete (status r) \<Longrightarrow>
    one_by_one env plan (xs @ ys) r = (if IsTurnComplete (status d) then Inr d else one_by_one env plan ys d)"
proof (induction xs arbitrary: r)
  case (Cons t xs)
  then obtain r1 where "one_token_step env plan t r = Inr r1"
    "(if IsTurnComplete (status r1) then Inr r1 else one_by_one env plan xs r1) = Inr d" by (auto simp: bind_result_Inr_iff)
  then show ?case using Cons.IH[of r1] by (auto split: if_splits)
qed simp

text \<open>Staging drafts after the seed was applied is the same as before it.\<close>

lemma seed_after_drafts:
  fixes env :: "('s, 'e, 'g) RequestEnv"
  assumes "AppendDraftsForTransaction env n r = Inr r1"
  shows "AppendDraftsForTransaction env n (r\<lparr>host_rng := g, pending_reseed_applied := b\<rparr>)
    = Inr (r1\<lparr>host_rng := g, pending_reseed_applied := b\<rparr>)"
proof (cases "n = 0")
  case False
  let ?ds = "take n (draft_tokens r)"
  obtain s s' where s: "req_search r = Some s" "AppendTokens (env_search env) ?ds s = Inr s'" "staged_draft_count r = 0" "n \<le> length (draft_tokens r)"
    and r1: "r1 = r\<lparr>req_search := Some s', tokens_host := tokens_host r @ ?ds, staged_draft_count := n, accepted_draft_count := 0,
      evaluated_draft_count := 0, draft_verification := no_verification\<rparr>"
    using assms False by (auto simp: AppendDraftsForTransaction_def bind_result_Inr_iff on_search_Inr Let_def split: if_splits)
  then show ?thesis using False by (auto simp: AppendDraftsForTransaction_def on_search_def Let_def intro: Request.equality)
qed (use assms in \<open>simp add: AppendDraftsForTransaction_def\<close>)

lemma begin_and_seed:
  fixes env :: "('s, 'e, 'g) RequestEnv"
  assumes "begin_request env n r = Inr r1" and "seed_request r1 = (Inr r2 :: 'e request_error + _)"
  obtains x where "same_tokens env r x" and "AppendDraftsForTransaction env n x = Inr r2"
proof -
  obtain r0 where r0: "SaveStateForTransaction_request r = (Inr r0 :: 'e request_error + _)" "AppendDraftsForTransaction env n r0 = Inr r1"
    using assms(1) by (auto simp: begin_request_def bind_result_Inr_iff)
  obtain g b where r2: "r2 = r1\<lparr>host_rng := g, pending_reseed_applied := b\<rparr>" using seed_facts[OF assms(2)] by blast
  show ?thesis
  proof (rule that)
    show "same_tokens env r (r0\<lparr>host_rng := g, pending_reseed_applied := b\<rparr>)" using save_same[OF r0(1), of env] by (simp add: same_tokens_def)
    show "AppendDraftsForTransaction env n (r0\<lparr>host_rng := g, pending_reseed_applied := b\<rparr>) = Inr r2"
      unfolding r2 by (rule seed_after_drafts[OF r0(2)])
  qed
qed

lemma completed_outcome:
  assumes "ended_same v d" and "StageDraftCompletionForTransaction v = (Inr res :: 'x request_error + _)"
    and "CommitStateForTransaction_request v = (Inr v1 :: 'y request_error + _)"
  shows "same_outcome (CommitStep plan res v1) d"
proof -
  obtain vis where "res = (staged_result 0 False (completion_finish v))\<lparr>res_done := True, visible_tokens := vis\<rparr>"
    using assms(2) by (auto simp: StageDraftCompletionForTransaction_def StageVisibleTokens_def split: if_splits)
  then show ?thesis
    using assms(1) commit_facts[OF assms(3)] by (auto simp: same_outcome_def ended_same_def IsTurnComplete_def prod_eq_iff)
qed

text \<open>
  C1. Speculative decoding of a greedy Request is exact: a committed step that verified drafts leaves the same tokens, the
  same finish reason and stop string, the same token count and the same stop and guidance state as ordinary greedy steps
  with the target model's own choices, one for every row up to the first that disagrees with its draft (or the row after
  the last draft). The drafts only decide how many tokens one step commits.
\<close>

theorem speculative_step_is_greedy:
  fixes env :: "('s, 'e, 'g) RequestEnv"
  assumes "env_ok env" and "decoding env r" and "status r = Active"
    and "staged_draft_count r = 0" and "accepted_draft_count r = 0" and "length (draft_tokens r) \<le> kMaxDraftTokensPerStep"
    and "draft_token_count plan \<le> length (draft_tokens r)" and "length row_argmax = draft_token_count plan + 1"
    and "sequence_length_before plan = int (length (tokens_host r))"
    and "drafted_step env row_argmax plan r = Inr r'"
  shows "\<exists>d. one_by_one env plan' (take (accepted_prefix row_argmax (take (draft_token_count plan) (draft_tokens r)) + 1) row_argmax) r = Inr d
    \<and> same_outcome r' d"
proof -
  let ?n = "draft_token_count plan"
  let ?k = "accepted_prefix row_argmax (take ?n (draft_tokens r))"
  obtain r1 r2 t r3 res r4 r5 where step: "begin_request env ?n r = Inr r1" "seed_request r1 = (Inr r2 :: 'e request_error + _)"
    "verify_greedy env row_argmax r2 = Inr (t, r3)" "finish_greedy env plan t r3 = Inr (res, r4)"
    "CommitStateForTransaction_request r4 = (Inr r5 :: 'e request_error + _)" "r' = CommitStep plan res r5"
    using assms(10) by (auto simp: drafted_step_def commit_request_def bind_result_Inr_iff)
  obtain x where x: "same_tokens env r x" "AppendDraftsForTransaction env ?n x = Inr r2" using begin_and_seed[OF step(1,2)] by blast
  have dx: "decoding env x" "staged_draft_count x = 0" "accepted_draft_count x = 0" "draft_tokens x = draft_tokens r" "tokens_host x = tokens_host r"
    using x(1) assms(2,4,5) same_tokens_decoding[OF x(1)] by (auto simp: same_tokens_def)
  have staged: "StagedDraftTokens r2 = take ?n (draft_tokens r)"
    using x(2) dx(2,4) by (auto simp: AppendDraftsForTransaction_def StagedDraftTokens_def bind_result_Inr_iff on_search_Inr Let_def split: if_splits)
  have acc: "CommitAcceptedDraftsForTransaction env ?k r2 = Inr r3" and t: "t = row_argmax ! ?k"
    using step(3) by (auto simp: verify_greedy_def staged bind_result_Inr_iff Let_def)
  from accept_sync[OF assms(1) dx(1-3) x(2) acc in_sync_same[OF x(1)], of plan'] obtain d xs where
    d: "one_by_one env plan' (take ?k (draft_tokens r)) r = Inr d" "tokens_host r3 = tokens_host r @ xs" "accepted_draft_count r3 = length xs"
      "length xs \<le> length (draft_tokens r)"
      "if completed_generation (draft_verification r3) then ended_same r3 d else in_sync env r3 d \<and> \<not> IsTurnComplete (status d)"
    using dx(4,5) assms(3) by (auto simp: IsTurnComplete_def split: if_splits)
  have k: "?k \<le> ?n" using accepted_prefix_take(2)[of row_argmax "take ?n (draft_tokens r)"] by simp
  have "take ?k (draft_tokens r) = take ?k row_argmax"
    using accepted_prefix_take(1)[of row_argmax "take ?n (draft_tokens r)"] k by (simp add: min_absorb1)
  then have rows: "take (?k + 1) row_argmax = take ?k (draft_tokens r) @ [t]" using k assms(8) t by (simp add: take_Suc_conv_app_nth)
  have nc: "\<not> IsTurnComplete (status r)" by (simp add: assms(3) IsTurnComplete_def)
  note app = one_by_one_append[OF d(1) nc, of "[t]"]
  show ?thesis
  proof (cases "completed_generation (draft_verification r3)")
    case True
    then have "StageDraftCompletionForTransaction r3 = (Inr res :: 'e request_error + _)" "r4 = r3"
      using step(4) by (auto simp: finish_greedy_def bind_result_Inr_iff)
    with completed_outcome[of r3 d res r5 plan] d(5) True step(5,6) app show ?thesis unfolding rows by (auto simp: ended_same_def)
  next
    case False
    then obtain v where v: "on_search (CommitToken (env_search env) t) r3 = (Inr v :: 'e request_error + _)" "StageGenerationForTransaction env plan v = Inr (res, r4)"
      using step(4) by (auto simp: finish_greedy_def bind_result_Inr_iff)
    have sync: "in_sync env r3 d" "\<not> IsTurnComplete (status d)" using d(5) False by auto
    then obtain s3 where "req_search r3 = Some s3" "search_ok (env_search env) s3" "seq_of s3 = tokens_host r3" by (auto simp: in_sync_def decoding_def)
    then have cur: "CurrentSequenceLength r3 = int (length (tokens_host r)) + int (length xs)"
      using length_seq_of[of "env_search env" s3] d(2) by (simp add: CurrentSequenceLength_def)
    have "accepted_draft_count v = length xs" using v(1) d(3) by (auto simp: on_search_Inr)
    then have st: "StageGeneration env (CurrentSequenceLength r3) v = Inr (res, r4)"
      using v(2) by (simp add: StageGenerationForTransaction_def assms(9) cur)
    from final_token[OF sync(1) _ _ v(1) st commit_unmoved[OF step(5)], of plan' plan] d(2-4) assms(6) obtain d' where
      "one_token_step env plan' t d = Inr d'" "same_outcome (CommitStep plan res r5) d'" by auto
    then show ?thesis using app sync(2) step(6) unfolding rows by auto
  qed
qed

theorem speculative_step_is_greedy_witness:
  "\<exists>r' d. drafted_step example_env [9, 5, 4] example_plan example_request = Inr r' \<and> tokens_host r' = [7, 8, 9, 5]
    \<and> one_by_one example_env example_plan [9, 5] example_request = Inr d \<and> same_outcome r' d"
proof -
  have "bind_result (drafted_step example_env [9, 5, 4] example_plan example_request) (\<lambda>r. Inr (tokens_host r)) = Inr [7, 8, 9, 5]"
    by code_simp
  then obtain r' where r': "drafted_step example_env [9, 5, 4] example_plan example_request = Inr r'" "tokens_host r' = [7, 8, 9, 5]"
    by (auto simp: bind_result_Inr_iff)
  have f: "status example_request = Active" "staged_draft_count example_request = 0" "accepted_draft_count example_request = 0"
    "draft_tokens example_request = [9, 2]" "tokens_host example_request = [7, 8]"
    by (simp_all add: example_request_def new_request_def)
  have k: "accepted_prefix [9, 5, 4] (take (draft_token_count example_plan) (draft_tokens example_request)) = 1"
    by (simp add: f example_plan_def numeral_2_eq_2)
  from speculative_step_is_greedy[OF example_env_ok example_request_decoding f(1-3) _ _ _ _ r'(1), of example_plan, unfolded k]
  have "\<exists>d. one_by_one example_env example_plan [9, 5] example_request = Inr d \<and> same_outcome r' d"
    by (simp add: f example_plan_def kMaxDraftTokensPerStep_def numeral_2_eq_2)
  then show ?thesis using r' by blast
qed

end
