(* ===== verification/Request_Rest.thy ===== *)
theory Request_Rest
  imports Speculative_Step "HOL-Library.Sublist"
begin

text \<open>
  Requests between operations: the mirror and the search agree, nothing is staged, and a turn that is not executable holds
  nothing. Admission, committed steps (prompt chunks, single tokens, verified drafts) and rewinding lead from one such
  request to another; a committed generation step ends the turn or lengthens the sequence.
\<close>

section \<open>Requests at rest\<close>

lemma executable_cases [simp]:
  "IsExecutable Assigned" "IsExecutable Active" "\<not> IsExecutable TurnComplete" "\<not> IsExecutable Closed" "\<not> IsExecutable Unassigned"
  by (simp_all add: IsExecutable_def IsQueued_def IsExecuting_def)

definition search_rests :: "('s, 'e, 'g) RequestEnv \<Rightarrow> ('s, 'g) Request \<Rightarrow> Search \<Rightarrow> bool" where
  "search_rests env r s \<longleftrightarrow> req_search r = Some s \<and> search_ok (env_search env) s \<and> seq_of s = tokens_host r
     \<and> \<not> transaction_restore_pending s \<and> \<not> transaction_checkpoint_active s
     \<and> (IsExecutable (status r) \<longrightarrow> live s \<and> current_length s < max_length (env_search env))"

definition resting :: "('s, 'e, 'g) RequestEnv \<Rightarrow> ('s, 'g) Request \<Rightarrow> bool" where
  "resting env r \<longleftrightarrow> (\<exists>s. search_rests env r s) \<and> staged_draft_count r = 0 \<and> accepted_draft_count r = 0
     \<and> \<not> pending_reseed_applied r \<and> controller_ok env r \<and> host_capacity r = max_session_tokens env
     \<and> (IsExecutable (status r) \<longrightarrow> \<not> turn_limit_reached r (turn_generated_tokens r))
     \<and> (\<not> IsExecutable (status r) \<longrightarrow> guidance r = None \<and> stop_controller r = None)
     \<and> (\<not> IsExecutable (status r) \<and> status r \<noteq> Closed \<longrightarrow> pending_reseed r = None)
     \<and> (IsAwaitingFirstTurn r \<longrightarrow> tokens_host r = [])"

text \<open>The turns begun, each with the tokens of the session at that moment, and the boundaries of those still in the sequence.\<close>

definition turns_ok :: "(u64 \<times> token list) list \<Rightarrow> ('s, 'g) Request \<Rightarrow> bool" where
  "turns_ok hist r \<longleftrightarrow> sorted_wrt (<) (map fst hist)
     \<and> (\<forall>x \<in> set (map fst hist). x < next_turn_id r \<or> turn_id_exhausted r \<and> x \<le> next_turn_id r)
     \<and> (\<forall>(i, n) \<in> set (turn_boundaries r). n \<le> length (tokens_host r) \<and> (i, take n (tokens_host r)) \<in> set hist)
     \<and> sorted_wrt (<) (map fst (turn_boundaries r)) \<and> sorted (map snd (turn_boundaries r))"

lemma turns_ok_cong:
  assumes "turns_ok hist r" and "turn_boundaries r' = turn_boundaries r" and "next_turn_id r' = next_turn_id r"
    and "turn_id_exhausted r' = turn_id_exhausted r" and "prefix (tokens_host r) (tokens_host r')"
  shows "turns_ok hist r'"
  using assms by (auto simp: turns_ok_def prefix_def)

lemma boundary_begun: "turns_ok hist r \<Longrightarrow> i \<in> set (map fst (turn_boundaries r)) \<Longrightarrow> i \<in> set (map fst hist)"
  by (force simp: turns_ok_def)

lemma resting_length: "search_rests env r s \<Longrightarrow> length (tokens_host r) = current_length s"
  unfolding search_rests_def by (metis length_seq_of)

section \<open>Admission\<close>

lemma max_word_Suc: "x \<le> n \<Longrightarrow> n \<noteq> - 1 \<Longrightarrow> x < n + (1 :: 'a::len word)"
  by (rule word_le_less_Suc) (auto simp: eq_neg_iff_add_eq_0)

lemma issue_next:
  assumes "turns_ok hist r" and "\<not> turn_id_exhausted r" and "turn_boundaries r' = turn_boundaries r @ [(next_turn_id r, length (tokens_host r))]"
    and "prefix (tokens_host r) (tokens_host r')"
    and "if next_turn_id r = - 1 then next_turn_id r' = - 1 \<and> turn_id_exhausted r' else next_turn_id r' = next_turn_id r + 1"
  shows "turns_ok (hist @ [(next_turn_id r, tokens_host r)]) r'"
proof -
  have old: "x < next_turn_id r" if "x \<in> set (map fst hist)" for x using assms(1,2) that by (auto simp: turns_ok_def)
  have b: "\<forall>x \<in> set (map fst (turn_boundaries r)). x < next_turn_id r" using boundary_begun[OF assms(1)] old by blast
  have "x < next_turn_id r' \<or> turn_id_exhausted r' \<and> x \<le> next_turn_id r'" if "x \<in> set (map fst (hist @ [(next_turn_id r, tokens_host r)]))" for x
  proof -
    have "x \<le> next_turn_id r" using that old[of x] by force
    then show ?thesis using assms(5) max_word_Suc[of x "next_turn_id r"] by (auto split: if_splits)
  qed
  moreover have "\<forall>n \<in> set (map snd (turn_boundaries r)). n \<le> length (tokens_host r)" using assms(1) by (auto simp: turns_ok_def)
  ultimately show ?thesis
    using assms old b unfolding turns_ok_def by (auto simp: sorted_wrt_append prefix_def)
qed

definition controller_fresh :: "('s, 'e, 'g) RequestEnv \<Rightarrow> 's StopStringController option \<Rightarrow> bool" where
  "controller_fresh env c \<longleftrightarrow> (case c of None \<Rightarrow> True | Some x \<Rightarrow> \<exists>Ps. new_controller (Some (env_tokenizer env)) Ps = Inr x)"

lemma controller_fresh_ok: "controller_fresh env c \<Longrightarrow> stop_controller r = c \<Longrightarrow> controller_ok env r"
  unfolding controller_fresh_def controller_ok_def by (cases c) (auto, metis run_result.simps(1))

lemma validated_length:
  fixes env :: "('s, 'e, 'g) RequestEnv"
  assumes env: "env_ok env" and rest: "resting env r" "search_rests env r s"
    and v: "ValidateTurnAdmission env tokens options r = Inr ()"
  shows "current_length s + length tokens < max_length (env_search env)"
    and "IsAwaitingFirstTurn r \<or> IsTurnComplete (status r)" and "\<not> turn_id_exhausted r"
    and "opt_max_generated_tokens options \<noteq> Some 0"
proof -
  have len: "to_size (CurrentSequenceLength r) = current_length s" "length (tokens_host r) = current_length s"
    using rest(2) env resting_length[OF rest(2)] by (auto simp: search_rests_def CurrentSequenceLength_def env_ok_def search_ok_def)
  have first: "IsAwaitingFirstTurn r \<Longrightarrow> current_length s = 0" using rest len by (auto simp: resting_def)
  have "ValidateAppendLength (max_session_tokens env) (if IsAwaitingFirstTurn r then 0 else to_size (CurrentSequenceLength r)) (length tokens)
      = (Inr () :: 'e request_error + unit)"
    using v by (auto simp: ValidateTurnAdmission_def bind_result_Inr_iff split: if_splits)
  then show "current_length s + length tokens < max_length (env_search env)"
    using first len by (auto simp: ValidateAppendLength_def max_session_tokens_def split: if_splits)
  show "IsAwaitingFirstTurn r \<or> IsTurnComplete (status r)" "\<not> turn_id_exhausted r" "opt_max_generated_tokens options \<noteq> Some 0"
    using v by (auto simp: ValidateTurnAdmission_def split: if_splits)
qed

text \<open>The state of a request whose turn was admitted.\<close>

definition admitted ::
  "('s, 'g) Request \<Rightarrow> Search \<Rightarrow> token list \<Rightarrow> u64 option \<Rightarrow> ('s, 'g) RequestTurnAdmission \<Rightarrow> ('s, 'g) Request \<Rightarrow> bool" where
  "admitted r s tokens seed adm r' \<longleftrightarrow> req_search r' = Some s \<and> status r' = Assigned \<and> tokens_host r' = tokens_host r @ tokens
     \<and> host_capacity r' = host_capacity r \<and> staged_draft_count r' = staged_draft_count r
     \<and> accepted_draft_count r' = accepted_draft_count r \<and> draft_tokens r' = draft_tokens r
     \<and> \<not> pending_reseed_applied r' \<and> stop_controller r' = pending_stop_controller adm \<and> turn_policy r' = adm_policy adm
     \<and> turn_generated_tokens r' = 0 \<and> turn_boundaries r' = turn_boundaries r @ [(next_turn_id r, length (tokens_host r))]
     \<and> (if next_turn_id r = - 1 then next_turn_id r' = - 1 \<and> turn_id_exhausted r' else next_turn_id r' = next_turn_id r + 1)
     \<and> has_current_turn r' \<and> current_turn_id r' = next_turn_id r \<and> finish_reason r' = ReasonNone"

lemma admission_runs:
  fixes env :: "('s, 'e, 'g) RequestEnv"
  assumes rest: "resting env r" "search_rests env r s" and len: "current_length s + length tokens \<le> max_length (env_search env)"
    and ex: "\<not> IsExecutable (status r)" "status r \<noteq> Closed"
  shows "\<exists>r1 adm1 adm2 r' s'. PrepareTurnAdmission env tokens r adm = Inr (r1, adm1)
    \<and> CommitTurnAdmission seed r1 adm1 = (Inr (next_turn_id r, r', adm2) :: 'e request_error + _)
    \<and> admitted r s' tokens seed adm r' \<and> search_ok (env_search env) s' \<and> live s' \<and> seq_of s' = tokens_host r @ tokens
    \<and> \<not> transaction_restore_pending s' \<and> \<not> transaction_checkpoint_active s'"
proof -
  have s: "req_search r = Some s" "search_ok (env_search env) s" "seq_of s = tokens_host r" "\<not> transaction_restore_pending s"
    "\<not> transaction_checkpoint_active s" using rest(2) by (auto simp: search_rests_def)
  have e: "guidance r = None" "stop_controller r = None" "pending_reseed r = None" "\<not> pending_reseed_applied r"
    using rest(1) ex by (auto simp: resting_def)
  obtain s1 where s1: "Greedy_Search.SaveStateForTransaction s = Inr s1" "search_ok (env_search env) s1" "seq_of s1 = seq_of s"
    "current_length s1 = current_length s" "\<not> transaction_restore_pending s1" "transaction_checkpoint_active s1"
    using s by (simp add: SaveStateForTransaction_def StartTransactionCheckpoint_def SaveStateForTransactionImpl_def search_ok_def seq_of_def)
  obtain s2 where s2: "AppendTokens (env_search env) tokens s1 = Inr s2" "search_ok (env_search env) s2" "live s2"
    "seq_of s2 = seq_of s1 @ tokens" "keeps (current_length s1) s1 s2"
    using AppendTokens_spec[OF s1(2), of tokens] len s1(4) by auto
  have act: "transaction_checkpoint_active s2" "\<not> transaction_restore_pending s2" using s2(5) s1(5,6) by (auto simp: keeps_def saved_def)
  let ?s = "s2\<lparr>transaction_checkpoint_active := False\<rparr>"
  have c: "Greedy_Search.CommitStateForTransaction s2 = Inr ?s" using act by (simp add: CommitStateForTransaction_def)
  obtain r1 adm1 where p: "PrepareTurnAdmission env tokens r adm = Inr (r1, adm1)"
    and r1: "req_search r1 = Some s2" "\<not> pending_reseed_applied r1" "status r1 = Assigned" "tokens_host r1 = tokens_host r @ tokens"
      "host_capacity r1 = host_capacity r" "staged_draft_count r1 = staged_draft_count r" "accepted_draft_count r1 = accepted_draft_count r"
      "draft_tokens r1 = draft_tokens r"
      "turn_boundaries r1 = turn_boundaries r" "next_turn_id r1 = next_turn_id r"
    and adm1: "adm_host_token_count adm1 = length (tokens_host r)" "pending_stop_controller adm1 = pending_stop_controller adm" "adm_policy adm1 = adm_policy adm"
    using s(1) s1(1) s2(1) e
    by (simp add: PrepareTurnAdmission_def start_admission_def SaveStateForNewTurnTransaction_def append_prompt_def on_search_def Let_def)
  obtain r' adm2 where "CommitTurnAdmission seed r1 adm1 = (Inr (next_turn_id r, r', adm2) :: 'e request_error + _)"
    and "admitted r ?s tokens seed adm r'"
    using c r1 adm1 by (auto simp: CommitTurnAdmission_def CommitStateForTransaction_request_def on_search_def admitted_def Let_def)
  moreover have "search_ok (env_search env) ?s" "live ?s" "seq_of ?s = tokens_host r @ tokens" "\<not> transaction_restore_pending ?s"
    using s2 s1(3) s(3) act(2) by (simp_all add: search_ok_def live_def seq_of_def)
  ultimately show ?thesis using p by fastforce
qed


section \<open>Committed steps\<close>

text \<open>What a step has staged, relative to the request that was saved.\<close>

definition staged_ok :: "('s, 'e, 'g) RequestEnv \<Rightarrow> nat \<Rightarrow> ('s, 'g) Request \<Rightarrow> RequestStepResult \<Rightarrow> ('s, 'g) Request \<Rightarrow> bool" where
  "staged_ok env n r1 res v \<longleftrightarrow> within_step env n r1 v \<and> (\<exists>s. req_search v = Some s
     \<and> seq_of s = tokens_host v @ (if token_appended res then [res_token res] else [])
     \<and> (\<not> res_done res \<longrightarrow> live s \<and> current_length s < max_length (env_search env)
          \<and> \<not> turn_limit_reached v (turn_generated_tokens v + accepted_draft_count v + (if token_appended res then 1 else 0))))"

lemma step_frame_fields:
  assumes "step_frame v = step_frame r"
  shows "status v = status r" "host_capacity v = host_capacity r" "turn_policy v = turn_policy r" "turn_boundaries v = turn_boundaries r"
    "next_turn_id v = next_turn_id r" "turn_id_exhausted v = turn_id_exhausted r" "turn_generated_tokens v = turn_generated_tokens r"
    "pending_reseed v = pending_reseed r"
  using assms by (cases v; cases r; simp add: step_frame_def)+

lemma controller_ok_observed:
  assumes "controller_ok env r" and "observed_since env (stop_controller r) (stop_controller v)"
  shows "controller_ok env v"
proof (cases "stop_controller r")
  case None
  then show ?thesis using assms(2) by (auto simp: observed_since_def controller_ok_def split: option.splits)
next
  case (Some c)
  then obtain Ps c0 ts c' us where "new_controller (Some (env_tokenizer env)) Ps = Inr c0"
    "run_result (observe_only (env_tokenizer env)) ts c0 = Inr c" "stop_controller v = Some c'"
    "run_result (observe_only (env_tokenizer env)) us c = Inr c'"
    using assms by (auto simp: observed_since_def controller_ok_def split: option.splits)
  moreover from this have "run_result (observe_only (env_tokenizer env)) (ts @ us) c0 = Inr c'" by (simp add: run_result_append)
  ultimately show ?thesis by (auto simp: controller_ok_def)
qed

lemma CommitState_request_facts:
  assumes "CommitStateForTransaction_request v = (Inr v' :: 'x request_error + _)" and "req_search v = Some s"
  shows "req_search v' = Some (s\<lparr>transaction_checkpoint_active := False\<rparr>)" "\<not> transaction_restore_pending s"
    "\<not> pending_reseed_applied v'" "status v' = status v" "host_capacity v' = host_capacity v" "turn_boundaries v' = turn_boundaries v"
    "next_turn_id v' = next_turn_id v" "turn_id_exhausted v' = turn_id_exhausted v"
  using assms
  by (auto simp: CommitStateForTransaction_request_def on_search_def Greedy_Search.CommitStateForTransaction_def Let_def bind_result_Inr_iff
      split: option.splits sum.splits if_splits bool.splits prod.splits)

lemma CommitStep_more:
  "host_capacity (CommitStep plan res r) = host_capacity r" "turn_boundaries (CommitStep plan res r) = turn_boundaries r"
  "next_turn_id (CommitStep plan res r) = next_turn_id r" "turn_id_exhausted (CommitStep plan res r) = turn_id_exhausted r"
  "pending_reseed_applied (CommitStep plan res r) \<longrightarrow> pending_reseed_applied r"
  "res_done res \<Longrightarrow> guidance (CommitStep plan res r) = None \<and> stop_controller (CommitStep plan res r) = None
     \<and> pending_reseed (CommitStep plan res r) = None"
  "\<not> res_done res \<Longrightarrow> stop_controller (CommitStep plan res r) = stop_controller r"
  by (simp_all add: CommitStep_def ReleaseTurnResources_def Let_def)

lemma commit_rests:
  fixes env :: "('s, 'e, 'g) RequestEnv"
  assumes rest: "resting env r" and hist: "turns_ok hist r"
    and save: "SaveStateForTransaction_request r = (Inr r1 :: 'e request_error + _)"
    and st: "staged_ok env (length (tokens_host r)) r1 res v" and c: "commit_request plan (res, v) = (Inr r' :: 'e request_error + _)"
  shows "resting env r' \<and> turns_ok hist r'"
proof -
  have idle: "idle env r" using rest by (auto simp: resting_def idle_def search_rests_def)
  from save_with_facts[OF save[unfolded SaveStateForTransaction_request_def] idle] obtain s1 where
    r1: "r1 = r\<lparr>req_search := Some s1, guidance_checkpoint := guidance r, transaction_rng := host_rng r,
       transaction_processed_sequence_length := processed_sequence_length r,
       transaction_tokens_host_size := length (tokens_host r), stop_controller_checkpoint := observed_tokens r\<rparr>" by blast
  from st obtain s where w: "within_step env (length (tokens_host r)) r1 v" and s: "req_search v = Some s"
    "seq_of s = tokens_host v @ (if token_appended res then [res_token res] else [])"
    and go: "\<not> res_done res \<Longrightarrow> live s \<and> current_length s < max_length (env_search env)
          \<and> \<not> turn_limit_reached v (turn_generated_tokens v + accepted_draft_count v + (if token_appended res then 1 else 0))"
    by (auto simp: staged_ok_def)
  have f: "step_frame v = step_frame r1" and ok: "search_ok (env_search env) s" and o: "observed_since env (stop_controller r) (stop_controller v)"
    and host: "take (length (tokens_host r)) (tokens_host v) = tokens_host r" using w s by (auto simp: within_step_def r1)
  have len: "prefix (tokens_host r) (tokens_host v)" using host by (metis take_is_prefix)
  obtain v' where v': "CommitStateForTransaction_request v = (Inr v' :: 'e request_error + _)" "r' = CommitStep plan res v'"
    using c by (auto simp: commit_request_def bind_result_Inr_iff)
  note cs = CommitState_request_facts[OF v'(1) s(1)] commit_facts[OF v'(1)]
  note ff = step_frame_fields[OF f]
  have ex: "IsExecutable (status r') \<longleftrightarrow> \<not> res_done res" using v'(2) by (simp add: IsExecutable_def IsQueued_def IsExecuting_def)
  have "search_rests env r' (s\<lparr>transaction_checkpoint_active := False\<rparr>)"
    using s ok go cs(1,2,9) v'(2) by (auto simp: search_rests_def ex) (auto simp: search_ok_def seq_of_def live_def)
  moreover have "controller_ok env r'"
  proof (cases "res_done res")
    case True
    then show ?thesis using v'(2) by (simp add: controller_ok_def CommitStep_more)
  next
    case False
    have "controller_ok env r" using rest by (simp add: resting_def)
    from controller_ok_observed[OF this o] show ?thesis
      using False v'(2) cs by (simp add: controller_ok_def CommitStep_more)
  qed
  moreover have "host_capacity r' = max_session_tokens env" using rest v'(2) cs ff by (simp add: CommitStep_more resting_def r1)
  moreover have "IsExecutable (status r') \<longrightarrow> \<not> turn_limit_reached r' (turn_generated_tokens r')"
    using go v'(2) cs by (auto simp: turn_limit_reached_def ex add.assoc)
  moreover have "\<not> IsExecutable (status r') \<longrightarrow> guidance r' = None \<and> stop_controller r' = None \<and> pending_reseed r' = None"
    using v'(2) by (auto simp: CommitStep_more ex)
  moreover have "\<not> pending_reseed_applied r'" using cs v'(2) CommitStep_more(5) by blast
  moreover have "\<not> IsAwaitingFirstTurn r'" using v'(2) by (simp add: IsAwaitingFirstTurn_def)
  moreover have "turns_ok hist r'"
    using turns_ok_cong[OF hist, of r'] v'(2) cs ff len by (simp add: CommitStep_more r1)
  ultimately show ?thesis using v'(2) by (auto simp: resting_def)
qed

text \<open>The staged result names the token that the search has and the mirror does not.\<close>

lemma StageGeneration_facts:
  fixes env :: "('s, 'e, 'g) RequestEnv"
  assumes env: "env_ok env" and s: "req_search v = Some s" "search_ok (env_search env) s"
    and st: "StageGeneration env len v = Inr (res, v')"
  shows "v' = v\<lparr>stop_controller := stop_controller v', guidance := guidance v'\<rparr>"
    and "req_search v' = Some s \<and> tokens_host v' = tokens_host v \<and> accepted_draft_count v' = accepted_draft_count v
    \<and> turn_policy v' = turn_policy v \<and> turn_generated_tokens v' = turn_generated_tokens v"
    and "observed_since env (stop_controller v) (stop_controller v')" and "res_done res \<longleftrightarrow> res_finish_reason res \<noteq> ReasonNone"
    and "(token_appended res \<longleftrightarrow> len < int (current_length s)) \<and> res_token res = last (next_tokens s)
    \<and> (\<not> res_done res \<longrightarrow> \<not> search_done s \<and> current_length s < max_length (env_search env)
      \<and> \<not> turn_limit_reached v (turn_generated_tokens v + accepted_draft_count v + (if token_appended res then 1 else 0)))"
proof -
  let ?g = "len < int (current_length s)"
  have ne: "next_tokens s \<noteq> []" using s(2) by (auto simp: search_ok_def)
  have size: "to_size (int (current_length s)) = current_length s"
    using env s(2) by (auto simp: env_ok_def search_ok_def)
  let ?r0 = "\<lambda>r1 found. staged_result (last (next_tokens s)) ?g (classify_finish env (Some (last (next_tokens s)))
         (turn_generated_tokens v + accepted_draft_count v + (if ?g then 1 else 0)) found r1)"
  obtain r1 found where r1: "(if ?g then observe_stop env (last (next_tokens s)) v else Inr (v, None)) = Inr (r1, found)"
    and v': "v' = CommitGuidanceToken env res r1"
    and res: "StageVisibleTokens (accepted_draft_count r1) (if ?g then Some (last (next_tokens s)) else None) r1 (?r0 r1 found) = (Inr res :: 'e request_error + _)"
    using st s ne by (auto simp: StageGeneration_def Let_def bind_result_Inr_iff CurrentSequenceLength_def last_next_token_def cong: if_cong)
  have e: "r1 = v\<lparr>stop_controller := stop_controller r1\<rparr>"
  proof (cases ?g)
    case True
    then show ?thesis using r1 observe_stop_facts(1) by metis
  next
    case False
    then have "r1 = v" using r1 by auto
    then show ?thesis by simp
  qed
  have o: "observed_since env (stop_controller v) (stop_controller r1)"
    using r1 observe_stop_facts(2)[of env _ v r1 found "stop_controller v"] by (auto split: if_splits)
  have g: "v' = r1\<lparr>guidance := guidance v'\<rparr>"
    using guide_facts(1)[of env "[res_token res]" r1] by (cases "token_appended res") (auto simp: v' CommitGuidanceToken_def)
  have c: "stop_controller v' = stop_controller r1" by (subst g) simp
  have "v' = v\<lparr>stop_controller := stop_controller r1, guidance := guidance v'\<rparr>" using e g by simp
  then show whole: "v' = v\<lparr>stop_controller := stop_controller v', guidance := guidance v'\<rparr>" by (simp only: c)
  show "observed_since env (stop_controller v) (stop_controller v')" using o c by simp
  show f: "req_search v' = Some s \<and> tokens_host v' = tokens_host v \<and> accepted_draft_count v' = accepted_draft_count v
      \<and> turn_policy v' = turn_policy v \<and> turn_generated_tokens v' = turn_generated_tokens v"
    by (intro conjI; subst whole) (simp_all add: s)
  have f1: "req_search r1 = req_search v" "turn_policy r1 = turn_policy v" by (subst e, simp)+
  have t: "token_appended res = ?g" "res_token res = last (next_tokens s)" "res_done res = res_done (?r0 r1 found)"
    "res_finish_reason res = res_finish_reason (?r0 r1 found)"
    using res by (auto simp: StageVisibleTokens_def staged_result_def split: if_splits)
  then show "res_done res \<longleftrightarrow> res_finish_reason res \<noteq> ReasonNone" by (simp add: staged_result_def)
  from t show "(token_appended res \<longleftrightarrow> len < int (current_length s)) \<and> res_token res = last (next_tokens s)
    \<and> (\<not> res_done res \<longrightarrow> \<not> search_done s \<and> current_length s < max_length (env_search env)
      \<and> \<not> turn_limit_reached v (turn_generated_tokens v + accepted_draft_count v + (if token_appended res then 1 else 0)))"
    using f1 s size by (auto simp: staged_result_def classify_finish_def search_is_done_def CurrentSequenceLength_def
        turn_limit_reached_def max_session_tokens_def split: option.splits if_splits)
qed

text \<open>A token chosen for a request that is decoding.\<close>

lemma token_staged:
  fixes env :: "('s, 'e, 'g) RequestEnv"
  assumes env: "env_ok env" and dec: "decoding env v" and s: "req_search v = Some s" "CommitToken (env_search env) t s = Inr s'"
    and v1: "v1 = v\<lparr>req_search := Some s', host_rng := g\<rparr>"
    and st: "StageGeneration env (int (current_length s)) v1 = Inr (res, v')" and w: "within_step env n r1 v1"
  shows "staged_ok env n r1 res v' \<and> (res_done res \<or> token_appended res) \<and> tokens_host v' = tokens_host v
    \<and> accepted_draft_count v' = accepted_draft_count v"
proof -
  have d: "search_ok (env_search env) s" "live s" "seq_of s = tokens_host v" "current_length s < max_length (env_search env)"
    using dec s(1) by (auto simp: decoding_def)
  have ok: "search_ok (env_search env) s'" and seq: "if t \<in> set (eos_token_id (env_search env))
      then seq_of s' = seq_of s \<and> current_length s' = current_length s \<and> search_done s'
      else seq_of s' = seq_of s @ [t] \<and> next_tokens s' = [t] \<and> current_length s' = current_length s + 1
        \<and> not_done_count s' = 1 \<and> eos_seen s' = [False]"
    using CommitToken_spec[OF d(1,2,4), of t] s(2) by (auto simp: appended_def split: if_splits)
  have "req_search v1 = Some s'" "tokens_host v1 = tokens_host v" by (simp_all add: v1)
  note f = StageGeneration_facts(2-)[OF env this(1) ok st] this(2)
  have "seq_of s' = tokens_host v' @ (if token_appended res then [res_token res] else [])"
    using f seq d(3) by (auto split: if_splits)
  moreover have "\<not> res_done res \<longrightarrow> live s'" using f seq by (auto simp: live_def split: if_splits)
  ultimately show ?thesis
    using f within_StageGeneration[OF w st] seq by (auto simp: staged_ok_def limit_policy[of v' v1] v1 split: if_splits)
qed

text \<open>A committed step that generates: it ends the turn or the sequence grows, and the turn's count grows with it.\<close>

definition advances :: "('s, 'g) Request \<Rightarrow> ('s, 'g) Request \<Rightarrow> bool" where
  "advances r r' \<longleftrightarrow> turn_generated_tokens r' + length (tokens_host r) = turn_generated_tokens r + length (tokens_host r')
     \<and> turn_policy r' = turn_policy r \<and> (IsTurnComplete (status r') \<or> length (tokens_host r) < length (tokens_host r'))
     \<and> prefix (tokens_host r) (tokens_host r')"

lemma commit_advances:
  fixes env :: "('s, 'e, 'g) RequestEnv"
  assumes save: "SaveStateForTransaction_request r = (Inr r1 :: 'e request_error + _)"
    and st: "staged_ok env n r1 res v" and c: "commit_request plan (res, v) = (Inr r' :: 'e request_error + _)"
    and grow: "res_done res \<or> token_appended res \<or> xs \<noteq> []" and host: "tokens_host v = tokens_host r @ xs" "accepted_draft_count v = length xs"
  shows "advances r r'"
proof -
  have same: "turn_generated_tokens r1 = turn_generated_tokens r" "turn_policy r1 = turn_policy r"
    using save_same[OF save, of env] by (simp_all add: same_tokens_def)
  obtain v' where v': "CommitStateForTransaction_request v = (Inr v' :: 'e request_error + _)" "r' = CommitStep plan res v'"
    using c by (auto simp: commit_request_def bind_result_Inr_iff)
  have "step_frame v = step_frame r1" using st by (simp add: staged_ok_def within_step_def)
  note ff = step_frame_fields[OF this]
  show ?thesis
    using commit_facts[OF v'(1)] v'(2) ff same grow host by (auto simp: advances_def IsTurnComplete_def)
qed

lemma select_commits:
  assumes ok: "search_ok p s" "live s" and sel: "select_with p pick s g = Inr (s', g')"
  shows "\<exists>t. CommitToken p t s = Inr s'"
proof (cases "pick 0 g")
  case (Inl e)
  have "batch_size p = 1" using ok(1) by (simp add: search_ok_def)
  with Inl sel ok(2) show ?thesis by (simp add: select_with_def select_row_def PadIfAlreadyEOS_def live_def)
next
  case (Inr x)
  then obtain t h where "pick 0 g = Inr (t, h)" by (cases x) auto
  from select_with_one[where pick = pick and r = g, OF ok this] sel
  have "bind_result (CommitToken p t s) (\<lambda>s'. Inr (s', h)) = Inr (s', g')" by simp
  then show ?thesis by (auto simp: bind_result_Inr_iff)
qed

lemma SelectNextToken_commits:
  fixes env :: "('s, 'e, 'g) RequestEnv"
  assumes s: "req_search r = Some s" "search_ok (env_search env) s" "live s" and sel: "SelectNextToken env S scores r = Inr r'"
  shows "\<exists>t s' g. CommitToken (env_search env) t s = Inr s' \<and> r' = r\<lparr>req_search := Some s', host_rng := g\<rparr>"
proof (cases "IsGreedy (turn_policy r)")
  case True
  then obtain s' where s': "SelectTop (env_search env) (\<lambda>a b. flt_less b a) scores s = Inr s'" "r' = r\<lparr>req_search := Some s'\<rparr>"
    using sel s(1) by (auto simp: SelectNextToken_def Let_def on_search_Inr)
  then have "\<exists>t. CommitToken (env_search env) t s = Inr s'"
    using select_commits[OF s(2,3)] by (fastforce simp: SelectTop_def bind_result_Inr_iff)
  moreover have "r' = r\<lparr>req_search := Some s', host_rng := host_rng r\<rparr>" using s'(2) by simp
  ultimately show ?thesis by blast
next
  case False
  from SelectNextToken_sampled[OF this, of env S scores] obtain pick where
    "with_rng (select_with (env_search env) pick) r = (Inr r' :: 'e request_error + _)" using sel by auto
  then obtain s' g where g: "select_with (env_search env) pick s (host_rng r) = Inr (s', g)" "r' = r\<lparr>req_search := Some s', host_rng := g\<rparr>"
    using s(1) by (auto simp: with_rng_Inr)
  from select_commits[OF s(2,3) g(1)] g(2) show ?thesis by fast
qed

lemma resting_decoding: "resting env r \<Longrightarrow> IsExecutable (status r) \<Longrightarrow> decoding env r"
  by (auto simp: resting_def search_rests_def decoding_def)

lemma begun:
  fixes env :: "('s, 'e, 'g) RequestEnv"
  assumes rest: "resting env r" and env: "env_ok env" and b: "begin_request env n r = Inr x" and s: "seed_request x = (Inr r2 :: 'e request_error + _)"
  obtains r1 where "SaveStateForTransaction_request r = (Inr r1 :: 'e request_error + _)"
    and "within_step env (length (tokens_host r)) r1 r2"
proof -
  obtain r1 where r1: "SaveStateForTransaction_request r = (Inr r1 :: 'e request_error + _)" "AppendDraftsForTransaction env n r1 = Inr x"
    using b by (auto simp: begin_request_def bind_result_Inr_iff)
  have "idle env r" using rest by (auto simp: resting_def idle_def search_rests_def)
  from save_with_facts[OF r1(1)[unfolded SaveStateForTransaction_request_def] this]
  have "within_step env (length (tokens_host r)) r1 r1" by blast
  from within_drafts[OF this r1(2)] have w: "within_step env (length (tokens_host r)) r1 x" .
  have "x = r2 \<or> step_op env x r2" using s by (auto simp: seed_request_def intro: step_op.seed split: if_splits)
  with w within_step_op[OF _ w env] r1(1) that show thesis by blast
qed

lemma AppendDrafts_none [simp]: "AppendDraftsForTransaction env 0 r = Inr r"
  by (simp add: AppendDraftsForTransaction_def)

lemma logits_facts:
  assumes "ApplyLogitsProcessors env lowest scale visited logits applied r = Inr (st, r')"
  shows "r' = r\<lparr>guidance := guidance r'\<rparr>"
  using assms by (auto simp: ApplyLogitsProcessors_def Let_def split: option.splits if_splits prod.splits)

lemma undrafted_rests:
  fixes env :: "('s, 'e, 'g) RequestEnv"
  assumes env: "env_ok env" and rest: "resting env r" and hist: "turns_ok hist r" and ex: "IsExecutable (status r)"
    and u: "undrafted_step env S lowest scale visited logits applied plan r = Inr r'"
  shows "resting env r' \<and> turns_ok hist r' \<and> advances r r'"
proof -
  obtain x r2 st r3 r4 res v where x: "begin_request env 0 r = Inr x" "seed_request x = (Inr r2 :: 'e request_error + _)"
    and l: "ApplyLogitsProcessors env lowest scale visited logits applied r2 = Inr (st, r3)"
    and s: "SelectNextToken env S (score_rows st) r3 = Inr r4"
    and g: "StageGeneration env (CurrentSequenceLength r2) r4 = Inr (res, v)"
    and c: "commit_request plan (res, v) = (Inr r' :: 'e request_error + _)"
    using u by (auto simp: undrafted_step_def ApplyLogitsForTransaction_def bind_result_Inr_iff)
  from begun[OF rest env x] obtain r1 where r1: "SaveStateForTransaction_request r = (Inr r1 :: 'e request_error + _)"
    "within_step env (length (tokens_host r)) r1 r2" .
  obtain y where "same_tokens env r y" "AppendDraftsForTransaction env 0 y = (Inr r2 :: 'e request_error + _)"
    using begin_and_seed[OF x] by blast
  then have r2: "same_tokens env r r2" by simp
  have d2: "decoding env r2" using same_tokens_decoding[OF r2] resting_decoding[OF rest ex] by blast
  have e: "r3 = r2\<lparr>guidance := guidance r3\<rparr>" using logits_facts[OF l] .
  have d3: "decoding env r3" using d2 by (subst e) (simp add: decoding_def turn_limit_reached_def controller_ok_def)
  then obtain s0 where s0: "req_search r3 = Some s0" "search_ok (env_search env) s0" "live s0" by (auto simp: decoding_def)
  have len: "CurrentSequenceLength r2 = int (current_length s0)"
    using s0(1) by (subst (asm) e) (simp add: CurrentSequenceLength_def)
  from SelectNextToken_commits[OF s0 s] obtain t s' h where t: "CommitToken (env_search env) t s0 = Inr s'"
    "r4 = r3\<lparr>req_search := Some s', host_rng := h\<rparr>" by blast
  have "within_step env (length (tokens_host r)) r1 r4" using within_SelectNextToken[OF within_logits[OF r1(2) l] s] .
  from token_staged[OF env d3 s0(1) t g[unfolded len] this]
  have st: "staged_ok env (length (tokens_host r)) r1 res v" "res_done res \<or> token_appended res"
    and v: "tokens_host v = tokens_host r3" "accepted_draft_count v = accepted_draft_count r3" by blast+
  have "tokens_host r3 = tokens_host r2" "accepted_draft_count r3 = accepted_draft_count r2" by (subst e, simp)+
  then have "tokens_host v = tokens_host r @ []" "accepted_draft_count v = length ([] :: token list)"
    using v r2 rest by (simp_all add: same_tokens_def resting_def)
  from commit_advances[OF r1(1) st(1) c _ this] st(2) commit_rests[OF rest hist r1(1) st(1) c] show ?thesis by blast
qed

lemma chunk_rests:
  fixes env :: "('s, 'e, 'g) RequestEnv"
  assumes rest: "resting env r" and hist: "turns_ok hist r" and ex: "IsExecutable (status r)" and c: "chunk_step env plan r = Inr r'"
  shows "resting env r' \<and> turns_ok hist r'"
proof -
  obtain r1 where r1: "SaveStateForTransaction_request r = (Inr r1 :: 'e request_error + _)"
    and k: "commit_request plan (no_result, r1) = (Inr r' :: 'e request_error + _)"
    using c by (auto simp: chunk_step_def begin_request_def bind_result_Inr_iff)
  have "idle env r" using rest by (auto simp: resting_def idle_def search_rests_def)
  from save_with_facts[OF r1[unfolded SaveStateForTransaction_request_def] this]
  have w: "within_step env (length (tokens_host r)) r1 r1" by blast
  have "same_tokens env r r1" using save_same[OF r1] .
  then have "decoding env r1" using same_tokens_decoding resting_decoding[OF rest ex] by blast
  then have "staged_ok env (length (tokens_host r)) r1 no_result r1"
    using w by (auto simp: staged_ok_def decoding_def no_result_def staged_result_def)
  from commit_rests[OF rest hist r1 this k] show ?thesis .
qed

text \<open>Verified drafts reach the search and the mirror together.\<close>

definition mirrored :: "('s, 'e, 'g) RequestEnv \<Rightarrow> ('s, 'g) Request \<Rightarrow> bool" where
  "mirrored env r \<longleftrightarrow> (\<exists>s. req_search r = Some s \<and> search_ok (env_search env) s \<and> seq_of s = tokens_host r)"

lemma verify_draft_mirrored:
  assumes "decoding env v" and f: "verify_draft env t v = Inr v'"
  shows "mirrored env v'"
proof -
  obtain s where s: "req_search v = Some s" "search_ok (env_search env) s" "live s" "seq_of s = tokens_host v"
    "current_length s < max_length (env_search env)" using assms(1) by (auto simp: decoding_def)
  from CommitToken_spec[OF s(2,3,5), of t] obtain s' where s': "CommitToken (env_search env) t s = Inr s'" "search_ok (env_search env) s'"
    "if current_length s' = current_length s + 1 then seq_of s' = seq_of s @ [t] else seq_of s' = seq_of s"
    by (auto simp: appended_def split: if_splits)
  from f[unfolded verify_draft_eq[OF s(1) s'(1)]] show ?thesis
  proof (cases "current_length s' = current_length s + 1")
    case True
    then obtain r2 m where o: "observe_stop env t (guide env [t] (draft_kept t s' v)) = Inr (r2, m)"
      and v': "v' = (case m of Some found \<Rightarrow> draft_matched found r2 | None \<Rightarrow> check_completion env t r2)"
      using f[unfolded verify_draft_eq[OF s(1) s'(1)]] by (auto simp: bind_result_Inr_iff)
    have e: "r2 = (guide env [t] (draft_kept t s' v))\<lparr>stop_controller := stop_controller r2\<rparr>" using observe_stop_facts(1)[OF o] .
    have "req_search r2 = Some s'" "tokens_host r2 = tokens_host v @ [t]"
      by (subst e, subst guide_facts(1), simp add: draft_kept_def draft_seen_def)+
    then show ?thesis using s' s(4) True v'
      by (auto simp: mirrored_def draft_matched_def check_completion_def split: option.splits)
  next
    case False
    then have "v' = check_completion env t (draft_seen s' v)"
      using f[unfolded verify_draft_eq[OF s(1) s'(1)]] by (simp split: if_splits)
    then show ?thesis using s' s(4) False by (auto simp: mirrored_def check_completion_def draft_seen_def)
  qed
qed

lemma verify_loop_mirrored:
  assumes "env_ok env"
  shows "in_sync env v d \<Longrightarrow> verify_loop env ts v = Inr v' \<Longrightarrow> mirrored env v'"
proof (induction ts arbitrary: v d)
  case Nil
  then show ?case by (auto simp: mirrored_def in_sync_def decoding_def)
next
  case (Cons t ts)
  then obtain v1 where v1: "verify_draft env t v = Inr v1"
    "if completed_generation (draft_verification v1) then v' = v1 else verify_loop env ts v1 = Inr v'"
    by (auto simp: bind_result_Inr_iff split: if_splits)
  show ?case
  proof (cases "completed_generation (draft_verification v1)")
    case True
    then show ?thesis using v1 verify_draft_mirrored[of env v t v1] Cons.prems(1) by (auto simp: in_sync_def)
  next
    case False
    then obtain d' where "in_sync env v1 d'" using sync_step[OF assms Cons.prems(1) v1(1)] by auto
    with False v1(2) Cons.IH show ?thesis by auto
  qed
qed

lemma accept_mirrored:
  fixes env :: "('s, 'e, 'g) RequestEnv"
  assumes env: "env_ok env" and dec: "decoding env r" and z: "staged_draft_count r = 0" "accepted_draft_count r = 0"
    and a: "AppendDraftsForTransaction env n r = Inr r1" and c: "CommitAcceptedDraftsForTransaction env k r1 = Inr r2"
  shows "mirrored env r2"
proof -
  obtain x y u where x: "drop_host_tokens (staged_draft_count r1) r1 = (Inr x :: 'e request_error + _)"
      "on_search (RewindTo (env_search env) (to_size (CurrentSequenceLength r1 - int (staged_draft_count r1)))) x = (Inr y :: 'e request_error + _)"
    and u: "verify_loop env (take k (draft_tokens y)) (y\<lparr>staged_draft_count := 0, accepted_draft_count := 0,
        evaluated_draft_count := 0, draft_verification := no_verification\<rparr>) = Inr u"
    and r2: "r2 = (if \<not> completed_generation (draft_verification u) \<and> k < staged_draft_count r1
        then u\<lparr>evaluated_draft_count := evaluated_draft_count u + 1\<rparr> else u)"
    using accept_Inr[OF c] by metis
  from staged_and_rewound[OF env dec z a x] have "mirrored env u" using verify_loop_mirrored[OF env _ u] by blast
  then show ?thesis by (auto simp: r2 mirrored_def)
qed

lemma within_token:
  assumes w: "within_step env n r1 v" and c: "on_search (CommitToken (env_search env) t) v = (Inr v1 :: 'e request_error + _)"
  shows "within_step env n r1 v1"
proof (rule within_search[OF w c])
  fix a b
  assume a: "search_ok (env_search env) a" "n + staged_draft_count v \<le> current_length a" "CommitToken (env_search env) t a = Inr b"
  from CommitToken_keeps[OF a(1,3)] keeps_mono[of "current_length a" a b n] a(2)
  show "search_ok (env_search env) b \<and> keeps n a b \<and> n + staged_draft_count v \<le> current_length b" by auto
qed

lemma drafted_rests:
  fixes env :: "('s, 'e, 'g) RequestEnv"
  assumes env: "env_ok env" and rest: "resting env r" and hist: "turns_ok hist r" and ex: "IsExecutable (status r)"
    and len: "sequence_length_before plan = int (length (tokens_host r))" and f: "drafted_step env row_argmax plan r = Inr r'"
  shows "resting env r' \<and> turns_ok hist r' \<and> advances r r'"
proof -
  obtain x r2 t r3 res v where x: "begin_request env (draft_token_count plan) r = Inr x" "seed_request x = (Inr r2 :: 'e request_error + _)"
    and g: "verify_greedy env row_argmax r2 = Inr (t, r3)" and fin: "finish_greedy env plan t r3 = Inr (res, v)"
    and c: "commit_request plan (res, v) = (Inr r' :: 'e request_error + _)"
    using f by (auto simp: drafted_step_def bind_result_Inr_iff)
  from begun[OF rest env x] obtain r1 where r1: "SaveStateForTransaction_request r = (Inr r1 :: 'e request_error + _)"
    "within_step env (length (tokens_host r)) r1 r2" .
  obtain y where y: "same_tokens env r y" "AppendDraftsForTransaction env (draft_token_count plan) y = Inr r2"
    using begin_and_seed[OF x] by blast
  have dy: "decoding env y" "staged_draft_count y = 0" "accepted_draft_count y = 0" "tokens_host y = tokens_host r"
    using same_tokens_decoding[OF y(1)] resting_decoding[OF rest ex] y(1) rest by (simp_all add: same_tokens_def resting_def)
  obtain k where k: "CommitAcceptedDraftsForTransaction env k r2 = Inr r3"
    using g by (auto simp: verify_greedy_def Let_def bind_result_Inr_iff)
  have m: "mirrored env r3" using accept_mirrored[OF env dy(1,2,3) y(2) k] .
  have w: "within_step env (length (tokens_host r)) r1 r3" using within_accept[OF r1(2) env k] .
  from accept_sync[OF env dy(1,2,3) y(2) k, of y] obtain d xs where xs: "tokens_host r3 = tokens_host r @ xs" "accepted_draft_count r3 = length xs"
    and sync: "\<not> completed_generation (draft_verification r3) \<Longrightarrow> in_sync env r3 d" using dy(4) by metis
  have st: "staged_ok env (length (tokens_host r)) r1 res v \<and> (res_done res \<or> token_appended res)
    \<and> tokens_host v = tokens_host r3 \<and> accepted_draft_count v = accepted_draft_count r3"
  proof (cases "completed_generation (draft_verification r3)")
    case True
    then have "v = r3" "\<not> token_appended res" "res_done res"
      using fin by (auto simp: finish_greedy_def bind_result_Inr_iff StageDraftCompletionForTransaction_def StageVisibleTokens_def
          staged_result_def split: if_splits)
    then show ?thesis using w m by (auto simp: staged_ok_def mirrored_def)
  next
    case False
    then have dec: "decoding env r3" using sync by (simp add: in_sync_def)
    then obtain s where s: "req_search r3 = Some s" "search_ok (env_search env) s" "seq_of s = tokens_host r3" by (auto simp: decoding_def)
    have l: "sequence_length_before plan + int (accepted_draft_count r3) = int (current_length s)"
      using len xs s length_seq_of[OF s(2)] by simp
    obtain r4 where r4: "on_search (CommitToken (env_search env) t) r3 = (Inr r4 :: 'e request_error + _)"
      and st: "StageGeneration env (sequence_length_before plan + int (accepted_draft_count r4)) r4 = Inr (res, v)"
      using fin False by (auto simp: finish_greedy_def StageGenerationForTransaction_def bind_result_Inr_iff)
    then obtain s' where s': "CommitToken (env_search env) t s = Inr s'" "r4 = r3\<lparr>req_search := Some s'\<rparr>"
      using s(1) by (auto simp: on_search_Inr)
    have "within_step env (length (tokens_host r)) r1 r4" using within_token[OF w r4] .
    moreover have "r4 = r3\<lparr>req_search := Some s', host_rng := host_rng r3\<rparr>" using s'(2) by simp
    moreover have "StageGeneration env (int (current_length s)) r4 = Inr (res, v)" using st l s'(2) by simp
    ultimately show ?thesis using token_staged[OF env dec s(1) s'(1)] by blast
  qed
  have "tokens_host v = tokens_host r @ xs" "accepted_draft_count v = length xs" using st xs by simp_all
  with st commit_advances[OF r1(1) _ c] commit_rests[OF rest hist r1(1) _ c] show ?thesis by blast
qed

section \<open>Admitted turns\<close>

lemma ReleaseTurnResources_facts:
  "req_search (ReleaseTurnResources r) = req_search r" "tokens_host (ReleaseTurnResources r) = tokens_host r"
  "status (ReleaseTurnResources r) = status r" "host_capacity (ReleaseTurnResources r) = host_capacity r"
  "turn_boundaries (ReleaseTurnResources r) = turn_boundaries r" "next_turn_id (ReleaseTurnResources r) = next_turn_id r"
  "turn_id_exhausted (ReleaseTurnResources r) = turn_id_exhausted r" "guidance (ReleaseTurnResources r) = None"
  "stop_controller (ReleaseTurnResources r) = None" "pending_reseed (ReleaseTurnResources r) = None"
  "\<not> pending_reseed_applied (ReleaseTurnResources r)" "staged_draft_count (ReleaseTurnResources r) = 0"
  "accepted_draft_count (ReleaseTurnResources r) = 0"
  by (simp_all add: ReleaseTurnResources_def)

text \<open>A validated turn is admitted: its tokens follow those of the session, under a new identifier.\<close>

lemma admission_rests:
  fixes env :: "('s, 'e, 'g) RequestEnv"
  assumes env: "env_ok env" and rest: "resting env r" and hist: "turns_ok hist r"
    and v: "ValidateTurnAdmission env tokens options r = Inr ()"
    and adm: "adm_policy adm = ResolveTurnPolicy defaults options" "controller_fresh env (pending_stop_controller adm)"
  obtains r1 adm1 adm2 r' where "PrepareTurnAdmission env tokens r adm = Inr (r1, adm1)"
    and "CommitTurnAdmission seed r1 adm1 = (Inr (next_turn_id r, r', adm2) :: 'e request_error + _)"
    and "resting env r'" and "turns_ok (hist @ [(next_turn_id r, tokens_host r)]) r'" and "tokens_host r' = tokens_host r @ tokens"
    and "status r' = Assigned" and "current_turn_id r' = next_turn_id r" and "next_turn_id r \<notin> set (map fst hist)"
proof -
  obtain s where s: "search_rests env r s" using rest by (auto simp: resting_def)
  note l = validated_length[OF env rest s v]
  have ex: "\<not> IsExecutable (status r)" "status r \<noteq> Closed" using l(2) by (auto simp: IsAwaitingFirstTurn_def IsTurnComplete_def)
  obtain r1 adm1 adm2 r' s' where p: "PrepareTurnAdmission env tokens r adm = Inr (r1, adm1)"
    "CommitTurnAdmission seed r1 adm1 = (Inr (next_turn_id r, r', adm2) :: 'e request_error + _)"
    and a: "admitted r s' tokens seed adm r'" and s': "search_ok (env_search env) s'" "live s'" "seq_of s' = tokens_host r @ tokens"
      "\<not> transaction_restore_pending s'" "\<not> transaction_checkpoint_active s'"
    using admission_runs[OF rest s less_imp_le[OF l(1)] ex, of adm seed] by blast
  have cl: "current_length s' < max_length (env_search env)"
    using l(1) s'(3) length_seq_of[OF s'(1)] resting_length[OF s] by simp
  have "\<not> turn_limit_reached r' 0"
    using a adm(1) l(4) by (auto simp: admitted_def turn_limit_reached_def ResolveTurnPolicy_def split: option.splits)
  then have "resting env r'"
    using a rest s' cl controller_fresh_ok[OF adm(2), of r']
    by (auto simp: resting_def search_rests_def admitted_def IsAwaitingFirstTurn_def)
  moreover have "turns_ok (hist @ [(next_turn_id r, tokens_host r)]) r'"
    using issue_next[OF hist l(3), of r'] a by (auto simp: admitted_def)
  moreover have "next_turn_id r \<notin> set (map fst hist)" using hist l(3) by (auto simp: turns_ok_def)
  ultimately show thesis using that p a by (simp add: admitted_def)
qed

section \<open>Rewinding\<close>

lemma takeWhile_first:
  assumes "x \<in> set (map fst bs)"
  defines "pre \<equiv> takeWhile (\<lambda>b. fst b \<noteq> x) bs"
  shows "length pre < length bs" and "fst (bs ! length pre) = x" and "x \<notin> set (map fst pre)" and "pre = take (length pre) bs"
proof -
  show t: "pre = take (length pre) bs" unfolding pre_def by (rule takeWhile_eq_take)
  have "pre \<noteq> bs" using assms(1) unfolding pre_def takeWhile_eq_all_conv by auto
  then show l: "length pre < length bs" using t by (metis not_less take_all)
  show "fst (bs ! length pre) = x" using nth_length_takeWhile[of "\<lambda>b. fst b \<noteq> x" bs] l unfolding pre_def by simp
  show "x \<notin> set (map fst pre)" unfolding pre_def by (auto dest: set_takeWhileD)
qed

text \<open>The boundaries of the turns before one of them.\<close>

definition turns_before :: "u64 \<Rightarrow> (u64 \<times> nat) list \<Rightarrow> (u64 \<times> nat) list" where
  "turns_before turn_id bs = takeWhile (\<lambda>b. fst b \<noteq> turn_id) bs"

lemma boundary_facts:
  assumes hist: "turns_ok hist r" and b: "(turn_id, n) \<in> set (turn_boundaries r)"
  defines "pre \<equiv> turns_before turn_id (turn_boundaries r)"
  shows "length pre < length (turn_boundaries r)" and "pre = take (length pre) (turn_boundaries r)"
    and "snd (turn_boundaries r ! length pre) = n" and "n \<le> length (tokens_host r)"
proof -
  have "turn_id \<in> set (map fst (turn_boundaries r))" using b by force
  note tw = takeWhile_first[OF this, folded turns_before_def pre_def]
  show "length pre < length (turn_boundaries r)" "pre = take (length pre) (turn_boundaries r)" using tw by blast+
  have "sorted_wrt (<) (map fst (turn_boundaries r))" using hist by (simp add: turns_ok_def)
  then have "distinct (map fst (turn_boundaries r))" by (simp add: strict_sorted_iff)
  then show "snd (turn_boundaries r ! length pre) = n"
    using b tw(1,2) eq_key_imp_eq_value[of "turn_boundaries r" turn_id n] by (metis nth_mem prod.collapse)
  show "n \<le> length (tokens_host r)" using hist b by (force simp: turns_ok_def)
qed

lemma turns_ok_cut:
  assumes hist: "turns_ok hist r" and b: "(turn_id, n) \<in> set (turn_boundaries r)"
    and r': "turn_boundaries r' = turns_before turn_id (turn_boundaries r)" "tokens_host r' = take n (tokens_host r)"
      "next_turn_id r' = next_turn_id r" "turn_id_exhausted r' = turn_id_exhausted r"
  shows "turns_ok hist r'"
  unfolding turns_ok_def r'
proof (intro conjI)
  let ?pre = "turns_before turn_id (turn_boundaries r)"
  note bf = boundary_facts[OF hist b]
  show "sorted_wrt (<) (map fst hist)" "\<forall>x\<in>set (map fst hist). x < next_turn_id r \<or> turn_id_exhausted r \<and> x \<le> next_turn_id r"
    using hist by (simp_all add: turns_ok_def)
  have pre: "map f ?pre = take (length ?pre) (map f (turn_boundaries r))" for f :: "u64 \<times> nat \<Rightarrow> 'z"
    using bf(2) by (metis take_map)
  show "sorted_wrt (<) (map fst ?pre)" "sorted (map snd ?pre)"
    using hist unfolding pre turns_ok_def by (auto intro: sorted_wrt_take)
  have le: "snd (?pre ! i) \<le> n" if "i < length ?pre" for i
  proof -
    have "map snd (turn_boundaries r) ! i \<le> map snd (turn_boundaries r) ! length ?pre"
      using hist that bf(1) by (intro sorted_nth_mono) (auto simp: turns_ok_def)
    then show ?thesis using that bf(1,2,3) by (metis length_map less_trans nth_map nth_take)
  qed
  show "\<forall>(i, k) \<in> set ?pre. k \<le> length (take n (tokens_host r)) \<and> (i, take k (take n (tokens_host r))) \<in> set hist"
  proof clarify
    fix i k
    assume ik: "(i, k) \<in> set ?pre"
    then obtain j where "j < length ?pre" "?pre ! j = (i, k)" by (auto simp: in_set_conv_nth)
    then have k: "k \<le> n" using le[of j] by simp
    have "(i, k) \<in> set (turn_boundaries r)" using ik bf(2) by (metis in_set_takeD)
    then show "k \<le> length (take n (tokens_host r)) \<and> (i, take k (take n (tokens_host r))) \<in> set hist"
      using k bf(4) hist by (auto simp: turns_ok_def min_def)
  qed
qed

lemma rewind_rests:
  fixes env :: "('s, 'e, 'g) RequestEnv"
  assumes env: "env_ok env" and rest: "resting env r" and hist: "turns_ok hist r" and c: "IsTurnComplete (status r)"
    and mem: "length memory = max_length (env_search env)" and b: "(turn_id, n) \<in> set (turn_boundaries r)"
  obtains st where "PrepareRewindToStartOfTurn env memory turn_id r = Inr st" and "resting env (CommitRewind st r)"
    and "turns_ok hist (CommitRewind st r)" and "tokens_host (CommitRewind st r) = take n (tokens_host r)"
    and "turn_boundaries (CommitRewind st r) = turns_before turn_id (turn_boundaries r)"
    and "next_turn_id (CommitRewind st r) = next_turn_id r" and "status (CommitRewind st r) = status r"
proof -
  let ?pre = "turns_before turn_id (turn_boundaries r)"
  note bf = boundary_facts[OF hist b]
  have nl: "n \<le> length (tokens_host r)" using bf(4) .
  obtain s where s: "search_rests env r s" using rest by (auto simp: resting_def)
  have len: "length (tokens_host r) \<le> max_length (env_search env)"
    using resting_length[OF s] s by (auto simp: search_rests_def search_ok_def)
  let ?s0 = "new_search (env_search env) memory [0]"
  have s0: "search_ok (env_search env) ?s0" "seq_of ?s0 = []" "\<not> transaction_restore_pending ?s0" "\<not> transaction_checkpoint_active ?s0"
    "current_length ?s0 = 0"
    using new_search_ok[of "env_search env" memory "[0]"] env mem by (auto simp: env_ok_def new_search_def)
  obtain s1 where p: "PrepareRewindToStartOfTurn env memory turn_id r
      = Inr \<lparr>rw_search = s1, rw_sequence_length = n, rw_retained_turn_count = length ?pre\<rparr>"
    and s1: "search_ok (env_search env) s1" "seq_of s1 = take n (tokens_host r)" "\<not> transaction_restore_pending s1" "\<not> transaction_checkpoint_active s1"
  proof (cases "n = 0")
    case True
    then show thesis using that[of ?s0] bf(1,3) s0 by (simp add: PrepareRewindToStartOfTurn_def Let_def turns_before_def)
  next
    case False
    obtain s1 where "AppendTokens (env_search env) (take n (tokens_host r)) ?s0 = Inr s1" "search_ok (env_search env) s1"
      "seq_of s1 = seq_of ?s0 @ take n (tokens_host r)" "keeps (current_length ?s0) ?s0 s1"
      using AppendTokens_spec[OF s0(1), of "take n (tokens_host r)"] s0(5) nl len by auto
    then show thesis
      using that[of s1] bf(1,3) s0 False nl
      by (simp add: PrepareRewindToStartOfTurn_def Let_def turns_before_def lift_error_def keeps_def saved_def)
  qed
  let ?st = "\<lparr>rw_search = s1, rw_sequence_length = n, rw_retained_turn_count = length ?pre\<rparr>"
  have r': "req_search (CommitRewind ?st r) = Some s1" "tokens_host (CommitRewind ?st r) = take n (tokens_host r)"
    "turn_boundaries (CommitRewind ?st r) = ?pre" "status (CommitRewind ?st r) = status r" "next_turn_id (CommitRewind ?st r) = next_turn_id r"
    "turn_id_exhausted (CommitRewind ?st r) = turn_id_exhausted r" "host_capacity (CommitRewind ?st r) = host_capacity r"
    using nl bf(2) by (simp_all add: CommitRewind_def ReleaseTurnResources_def Let_def resize_take)
  have "resting env (CommitRewind ?st r)"
    using s1 c rest r' by (simp add: resting_def search_rests_def IsTurnComplete_def controller_ok_def IsAwaitingFirstTurn_def
        CommitRewind_def ReleaseTurnResources_def)
  moreover have "turns_ok hist (CommitRewind ?st r)"
    by (rule turns_ok_cut[OF hist b]) (use r' in simp_all)
  ultimately show thesis using that p r' by blast
qed

end
