(* ===== verification/Sampled_Step.thy ===== *)
theory Sampled_Step
  imports Request_Rest
begin

text \<open>
  Speculative steps of a sampling request (\<open>engine/scheduled_requests.cpp\<close>). The rows are decided on the Request's own
  host stream and the tokens they select are committed stage by stage. The draws are those that a specification by rows
  determines, the outcome is that of committing the selected tokens one by one, and the random generator stands where the
  last committed token's draw left it, also when a stop string cuts the tokens short. The request is at rest again, with a
  longer sequence or a completed turn.
\<close>

section \<open>The draws of a step\<close>

text \<open>
  One row: the proposal, if there is one, is accepted by the ratio of target and draft when the draft came with its
  distribution, and a rejected one replaced by a draw from the correction distribution; without a distribution the row is
  a draw from the target, which accepts the proposal when it is the token drawn. The row after the proposal is a draw
  from the target.
\<close>

definition row_drawn ::
  "'r Random \<Rightarrow> TargetTokenSelection \<Rightarrow> (token \<times> TargetTokenSelection option) option \<Rightarrow> 'r \<Rightarrow> token \<times> 'r \<Rightarrow> bool \<Rightarrow> bool" where
  "row_drawn R p proposal g x accepted \<longleftrightarrow>
     (case proposal of
        None \<Rightarrow> SampleTargetToken R p g = (Inr x :: unit request_error + _) \<and> \<not> accepted
      | Some (d, None) \<Rightarrow> SampleTargetToken R p g = (Inr x :: unit request_error + _) \<and> (accepted \<longleftrightarrow> fst x = d)
      | Some (d, Some q) \<Rightarrow>
          (accepted \<longleftrightarrow> fst (draw_uniform R g)
              < ComputeAcceptProb (GetTargetTokenProbability p d) (GetSparseTokenProbability (sel_indices q) (sel_probs q) d))
          \<and> x = (let g1 = snd (draw_uniform R g)
                 in if accepted then (d, g1)
                    else SampleCorrectionToken R (sel_indices p) (sel_probs p) (sel_indices q) (sel_probs q) g1))"

text \<open>
  The draws of a step, each with the state of the generator after it: every row starts from the state that the row before
  it left, all but the last accept their proposal with a token that is not a stop token, and the last one is a rejection,
  a stop token, the row after the proposal, or uses up the budget of the turn.
\<close>

definition step_draws ::
  "'r Random \<Rightarrow> (token \<Rightarrow> bool) \<Rightarrow> (nat \<Rightarrow> TargetTokenSelection) \<Rightarrow> nat \<Rightarrow> (token \<times> TargetTokenSelection option) list \<Rightarrow> 'r
   \<Rightarrow> (token \<times> 'r) list \<Rightarrow> bool" where
  "step_draws R is_stop target budget proposals g draws \<longleftrightarrow>
     draws \<noteq> [] \<and> length draws \<le> budget \<and> length draws \<le> length proposals + 1
     \<and> (\<forall>j < length draws. \<exists>accepted.
          row_drawn R (target j) (if j < length proposals then Some (proposals ! j) else None) ((g # map snd draws) ! j) (draws ! j) accepted
          \<and> (if Suc j < length draws then accepted \<and> \<not> is_stop (fst (draws ! j))
             else \<not> accepted \<or> is_stop (fst (draws ! j)) \<or> length draws = budget))"

definition proposals_of :: "nat \<Rightarrow> ('s, 'g) Request \<Rightarrow> (token \<times> TargetTokenSelection option) list" where
  "proposals_of n r =
     (let drafts = take n (draft_tokens r); distributions = take n (draft_token_distributions r)
      in zip drafts (if length distributions = n then map Some distributions else replicate n None))"

text \<open>The state of the host stream at the first draw: a seed that is pending takes effect first.\<close>

definition turn_rng :: "('s, 'g) Request \<Rightarrow> rng" where
  "turn_rng r = (case pending_reseed r of None \<Rightarrow> host_rng r | Some seed \<Rightarrow> MakeHostRandomGenerator seed)"

lemma row_drawn_unique: "row_drawn R p q g x a \<Longrightarrow> row_drawn R p q g y b \<Longrightarrow> x = y \<and> a = b"
  by (auto simp: row_drawn_def split: option.splits)

lemma step_draws_agree:
  assumes "step_draws R is_stop target budget ps g xs" and "step_draws R is_stop target budget ps g ys"
  shows "j < length xs \<Longrightarrow> j < length ys \<Longrightarrow> xs ! j = ys ! j"
proof (induction j rule: less_induct)
  case (less j)
  have "(g # map snd xs) ! j = (g # map snd ys) ! j"
  proof (cases j)
    case (Suc i)
    then show ?thesis using less.IH[of i] less.prems by simp
  qed simp
  moreover obtain a b where
    "row_drawn R (target j) (if j < length ps then Some (ps ! j) else None) ((g # map snd xs) ! j) (xs ! j) a"
    "row_drawn R (target j) (if j < length ps then Some (ps ! j) else None) ((g # map snd ys) ! j) (ys ! j) b"
    using assms less.prems unfolding step_draws_def by blast
  ultimately show ?case using row_drawn_unique by metis
qed

lemma step_draws_no_longer:
  assumes xs: "step_draws R is_stop target budget ps g xs" and ys: "step_draws R is_stop target budget ps g ys"
  shows "length ys \<le> length xs"
proof (rule ccontr)
  assume "\<not> length ys \<le> length xs"
  then have l: "length xs < length ys" "length ys \<le> budget" "0 < length xs" using xs ys by (auto simp: step_draws_def)
  define j where "j = length xs - 1"
  have j: "Suc j = length xs" "Suc j < length ys" using l by (simp_all add: j_def)
  have e: "xs ! i = ys ! i" if "i < length xs" for i using step_draws_agree[OF xs ys] that l by simp
  then have g: "(g # map snd xs) ! j = (g # map snd ys) ! j" using j by (cases j) simp_all
  obtain a where a: "row_drawn R (target j) (if j < length ps then Some (ps ! j) else None) ((g # map snd xs) ! j) (xs ! j) a"
    "\<not> a \<or> is_stop (fst (xs ! j)) \<or> length xs = budget" using xs j unfolding step_draws_def by (metis lessI less_irrefl)
  obtain b where b: "row_drawn R (target j) (if j < length ps then Some (ps ! j) else None) ((g # map snd ys) ! j) (ys ! j) b"
    "b" "\<not> is_stop (fst (ys ! j))" using ys j unfolding step_draws_def by (metis Suc_lessD)
  have "a = b" "xs ! j = ys ! j" using row_drawn_unique[OF a(1)] b(1) g by simp_all
  then show False using a(2) b(2,3) l by simp
qed

lemma step_draws_unique:
  assumes "step_draws R is_stop target budget ps g xs" and "step_draws R is_stop target budget ps g ys"
  shows "xs = ys"
  using step_draws_agree[OF assms] step_draws_no_longer[OF assms] step_draws_no_longer[OF assms(2,1)]
  by (intro nth_equalityI) auto

lemma step_draws_one:
  assumes "row_drawn R (target 0) (case ps of [] \<Rightarrow> None | p # _ \<Rightarrow> Some p) g x a" and "0 < budget"
    and "\<not> a \<or> is_stop (fst x) \<or> budget = 1"
  shows "step_draws R is_stop target budget ps g [x]"
  using assms by (cases ps) (auto simp: step_draws_def)

lemma step_draws_more:
  assumes x: "row_drawn R (target 0) (Some p) g x True" "\<not> is_stop (fst x)"
    and xs: "step_draws R is_stop (\<lambda>j. target (Suc j)) budget ps (snd x) xs"
  shows "step_draws R is_stop target (Suc budget) (p # ps) g (x # xs)"
  unfolding step_draws_def
proof (intro conjI allI impI)
  show "x # xs \<noteq> []" "length (x # xs) \<le> Suc budget" "length (x # xs) \<le> length (p # ps) + 1"
    using xs by (auto simp: step_draws_def)
  fix j
  assume l: "j < length (x # xs)"
  show "\<exists>a. row_drawn R (target j) (if j < length (p # ps) then Some ((p # ps) ! j) else None) ((g # map snd (x # xs)) ! j) ((x # xs) ! j) a
      \<and> (if Suc j < length (x # xs) then a \<and> \<not> is_stop (fst ((x # xs) ! j))
         else \<not> a \<or> is_stop (fst ((x # xs) ! j)) \<or> length (x # xs) = Suc budget)"
  proof (cases j)
    case 0
    then show ?thesis using x xs by (intro exI[of _ True]) (auto simp: step_draws_def)
  next
    case (Suc i)
    then have "i < length xs" using l by simp
    with xs obtain a where "row_drawn R (target (Suc i)) (if i < length ps then Some (ps ! i) else None) ((snd x # map snd xs) ! i) (xs ! i) a"
      "if Suc i < length xs then a \<and> \<not> is_stop (fst (xs ! i)) else \<not> a \<or> is_stop (fst (xs ! i)) \<or> length xs = budget"
      unfolding step_draws_def by blast
    then show ?thesis unfolding Suc by (intro exI[of _ a]) auto
  qed
qed

text \<open>The loop over the rows makes these draws.\<close>

lemma SampleTargetToken_error: "SampleTargetToken R p g = (Inr x :: 'e request_error + _) \<longleftrightarrow> SampleTargetToken R p g = (Inr x :: unit request_error + _)"
  by (simp add: SampleTargetToken_def SampleCategoricalToken_def)

lemma select_row_drawn:
  "select_row_token R p d q g = (Inr (t, a, g1) :: 'e request_error + _) \<Longrightarrow> row_drawn R p (Some (d, q)) g (t, g1) a"
  by (auto simp: select_row_token_def row_drawn_def bind_result_Inr_iff SampleTargetToken_error[where 'e = 'e] Let_def
      split: option.splits if_splits prod.splits)

lemma select_rows_draws:
  assumes "select_rows R is_stop target row budget (map fst ps) qs g = (Inr (sel, gs, n, g') :: 'e request_error + _)"
    and "0 < budget" and "qs = map snd ps \<or> qs = [] \<and> (\<forall>p \<in> set ps. snd p = None)"
  shows "step_draws R is_stop (\<lambda>j. target (row + j)) budget ps g (zip sel gs)"
  using assms
proof (induction ps arbitrary: row budget qs g sel gs n)
  case Nil
  then obtain t g1 where "SampleTargetToken R (target row) g = (Inr (t, g1) :: 'e request_error + _)" "sel = [t]" "gs = [g1]"
    by (auto simp: bind_result_Inr_iff)
  then show ?case using Nil.prems(2) by (auto intro!: step_draws_one[where a = False] simp: row_drawn_def SampleTargetToken_error[where 'e = 'e])
next
  case (Cons p ps)
  let ?q = "case qs of [] \<Rightarrow> None | d # _ \<Rightarrow> d"
  have q: "?q = snd p" using Cons.prems(3) by (auto split: list.splits)
  obtain t a g1 where t: "select_row_token R (target row) (fst p) ?q g = (Inr (t, a, g1) :: 'e request_error + _)"
    using Cons.prems(1,2) by (auto simp: bind_result_Inr_iff)
  have d: "row_drawn R (target row) (Some p) g (t, g1) a" using select_row_drawn[OF t] q by simp
  show ?case
  proof (cases "\<not> a \<or> is_stop t")
    case True
    then have "sel = [t]" "gs = [g1]" using Cons.prems(1,2) t by auto
    then show ?thesis using True Cons.prems(2) d by (auto intro!: step_draws_one)
  next
    case False
    then obtain ts hs k where rest: "select_rows R is_stop target (row + 1) (budget - 1) (map fst ps) (tl qs) g1 = (Inr (ts, hs, k, g') :: 'e request_error + _)"
      and eq: "sel = t # ts" "gs = g1 # hs" using Cons.prems(1,2) t by (auto simp: bind_result_Inr_iff)
    show ?thesis
    proof (cases "budget = 1")
      case True
      then have "ts = []" using rest by (cases ps) auto
      then show ?thesis using True d eq by (auto intro!: step_draws_one)
    next
      case more: False
      have "tl qs = map snd ps \<or> tl qs = [] \<and> (\<forall>p \<in> set ps. snd p = None)" using Cons.prems(3) by auto
      then have "step_draws R is_stop (\<lambda>j. target (row + 1 + j)) (budget - 1) ps g1 (zip ts hs)"
        using Cons.IH[OF rest] more Cons.prems(2) by simp
      then have "step_draws R is_stop (\<lambda>j. target (row + j)) (Suc (budget - 1)) (p # ps) g ((t, g1) # zip ts hs)"
        using False d by (intro step_draws_more) auto
      then show ?thesis using eq Cons.prems(2) by simp
    qed
  qed
qed

section \<open>Committing tokens one by one\<close>

text \<open>
  The reference that a step is compared with: given tokens, committed in order by single-token steps until the turn ends;
  each comes with the state of the generator after its draw, and the last one committed gives the state that remains.
\<close>

fun run_draws ::
  "('s, 'e, 'g) RequestEnv \<Rightarrow> RequestStepPlan \<Rightarrow> (token \<times> rng) list \<Rightarrow> ('s, 'g) Request \<Rightarrow> rng
   \<Rightarrow> 'e request_error + ('s, 'g) Request \<times> rng" where
  "run_draws env plan [] r g = Inr (r, g)"
| "run_draws env plan ((t, g1) # xs) r g =
     bind_result (one_token_step env plan t r) (\<lambda>r1. if IsTurnComplete (status r1) then Inr (r1, g1) else run_draws env plan xs r1 g1)"

section \<open>The stages\<close>

text \<open>A staged token that does not end the turn: what a request that has it committed still satisfies.\<close>

lemma stage_token:
  fixes env :: "('s, 'e, 'g) RequestEnv"
  assumes env: "env_ok env" and dec: "decoding env x" and s: "req_search x = Some s" "CommitToken (env_search env) t s = Inr s'"
    and st: "StageGeneration env (int (current_length s)) (x\<lparr>req_search := Some s'\<rparr>) = Inr (res, x')" and nd: "\<not> res_done res"
  shows "token_appended res" and "res_token res = t"
    and "req_search y = Some s' \<Longrightarrow> tokens_host y = tokens_host x' @ [t] \<Longrightarrow> turn_policy y = turn_policy x'
      \<Longrightarrow> turn_generated_tokens y + accepted_draft_count y = turn_generated_tokens x' + accepted_draft_count x' + 1
      \<Longrightarrow> stop_controller y = stop_controller x' \<Longrightarrow> decoding env y"
proof -
  have d: "search_ok (env_search env) s" "live s" "seq_of s = tokens_host x" "current_length s < max_length (env_search env)" "controller_ok env x"
    using dec s(1) by (auto simp: decoding_def)
  have spec: "search_ok (env_search env) s'" "t \<in> set (eos_token_id (env_search env)) \<Longrightarrow> search_done s'"
    "t \<notin> set (eos_token_id (env_search env)) \<Longrightarrow> seq_of s' = seq_of s @ [t] \<and> next_tokens s' = [t] \<and> current_length s' = current_length s + 1
      \<and> not_done_count s' = 1 \<and> eos_seen s' = [False]"
    using CommitToken_spec[OF d(1,2,4), of t] s(2) by (auto simp: appended_def split: if_splits)
  have "req_search (x\<lparr>req_search := Some s'\<rparr>) = Some s'" by simp
  note f = StageGeneration_facts[OF env this spec(1) st]
  have e: "t \<notin> set (eos_token_id (env_search env))" using f(5) nd spec(2) by blast
  show a: "token_appended res" and "res_token res = t" using f(5) spec(3)[OF e] by auto
  have c: "controller_ok env x'" using f(3) by (intro controller_ok_observed[OF d(5)]) simp
  have l: "live s'" using f(5) nd spec(3)[OF e] by (simp add: live_def)
  show "decoding env y" if "req_search y = Some s'" "tokens_host y = tokens_host x' @ [t]" "turn_policy y = turn_policy x'"
    "turn_generated_tokens y + accepted_draft_count y = turn_generated_tokens x' + accepted_draft_count x' + 1"
    "stop_controller y = stop_controller x'"
    using that f(2,5) nd a spec(1) spec(3)[OF e] d(3) c l
    by (auto simp: decoding_def limit_policy[of y "x\<lparr>req_search := Some s'\<rparr>"] controller_ok_def)
qed

lemma CommitStep_kept: "\<not> res_done res \<Longrightarrow> stop_controller (CommitStep plan res r) = stop_controller r
    \<and> guidance (CommitStep plan res r) = guidance r"
  by (simp add: CommitStep_def Let_def)

lemma one_token_goes_on:
  fixes env :: "('s, 'e, 'g) RequestEnv"
  assumes env: "env_ok env" and dec: "decoding env d" and o: "one_token_step env plan t d = Inr d'" and nc: "status d' = Active"
  shows "decoding env d'" and "turn_policy d' = turn_policy d" and "accepted_draft_count d' = 0"
proof -
  obtain s where s: "req_search d = Some s" "search_ok (env_search env) s" using dec by (auto simp: decoding_def)
  obtain s' res d2 where s': "CommitToken (env_search env) t s = Inr s'"
    and st: "StageGeneration env (int (current_length s)) (d\<lparr>req_search := Some s'\<rparr>) = Inr (res, d2)" and d': "d' = CommitStep plan res d2"
    using o s(1) by (auto simp: one_token_step_def bind_result_Inr_iff on_search_Inr CurrentSequenceLength_def)
  have nd: "\<not> res_done res" using nc d' by (auto split: if_splits)
  have "search_ok (env_search env) s'" using CommitToken_keeps[OF s(2) s'] by blast
  note f = StageGeneration_facts(2)[OF env _ this st]
  note tk = stage_token[OF env dec s(1) s' st nd]
  show "decoding env d'"
    by (rule tk(3)) (use d' f tk(1,2) nd CommitStep_kept[OF nd] in simp_all)
  show "turn_policy d' = turn_policy d" "accepted_draft_count d' = 0" using d' f by simp_all
qed

text \<open>A stage that does not end the turn keeps the request in step with ordinary decoding.\<close>

lemma stage_sync:
  fixes env :: "('s, 'e, 'g) RequestEnv"
  assumes env: "env_ok env" and sync: "in_sync env v d"
    and a: "accepted_draft_count v \<le> kMaxDraftTokensPerStep" "accepted_draft_count v \<le> length (tokens_host v)"
    and c: "on_search (CommitToken (env_search env) t) v = (Inr v1 :: 'e request_error + _)"
    and st: "StageGeneration env (CurrentSequenceLength v) v1 = Inr (res, v2)" and nd: "\<not> res_done res"
    and w: "AppendAcceptedSampledToken (res_token res) v2 = (Inr w :: 'e request_error + _)"
  shows "\<exists>d'. one_token_step env plan' t d = Inr d' \<and> \<not> IsTurnComplete (status d') \<and> in_sync env w d' \<and> host_rng w = host_rng v
    \<and> accepted_draft_count w = accepted_draft_count v + 1 \<and> tokens_host w = tokens_host v @ [t]"
proof -
  have u: "unmoved v2 v2" by (simp add: unmoved_def)
  obtain d' where d': "one_token_step env plan' t d = Inr d'" "same_outcome (CommitStep example_plan res v2) d'"
    using final_token[OF sync a c st u] by blast
  obtain sv sv' where v1: "req_search v = Some sv" "CommitToken (env_search env) t sv = Inr sv'" "v1 = v\<lparr>req_search := Some sv'\<rparr>"
    using c by (auto simp: on_search_Inr)
  have dv: "decoding env v" "decoding env d" "search_ok (env_search env) sv" using sync v1(1) by (auto simp: in_sync_def decoding_def)
  have st': "StageGeneration env (int (current_length sv)) (v\<lparr>req_search := Some sv'\<rparr>) = Inr (res, v2)"
    using st v1 by (simp add: CurrentSequenceLength_def)
  have ok': "search_ok (env_search env) sv'" using CommitToken_keeps[OF dv(3) v1(2)] by blast
  have "req_search (v\<lparr>req_search := Some sv'\<rparr>) = Some sv'" by simp
  note f = StageGeneration_facts[OF env this ok' st']
  have weq: "w = v2\<lparr>tokens_host := tokens_host v2 @ [res_token res], staged_draft_count := staged_draft_count v2 + 1,
      accepted_draft_count := accepted_draft_count v2 + 1, evaluated_draft_count := evaluated_draft_count v2 + 1\<rparr>"
    using w by (auto simp: AppendAcceptedSampledToken_def split: if_splits)
  note tk = stage_token[OF env dv(1) v1(1,2) st' nd]
  have dw: "decoding env w" by (rule tk(3)) (use f(2) weq tk(2) in simp_all)
  have act: "status d' = Active" using d'(2) nd by (simp add: same_outcome_def)
  note dd = one_token_goes_on[OF env dv(2) d'(1) act]
  have rest: "host_rng v2 = host_rng v" "draft_verification v2 = draft_verification v" "turn_policy v2 = turn_policy v" by (subst f(1), simp)+
  have "in_sync env w d'"
    using dw dd d'(2) weq tk(1,2) rest sync nd CommitStep_kept[OF nd, of example_plan v2]
    by (simp add: in_sync_def same_outcome_def)
  then show ?thesis using d'(1) act weq rest(1) f(2) tk(2) by (auto simp: IsTurnComplete_def)
qed

text \<open>The final stage, counted as an accepted draft or not.\<close>

lemma final_stage_outcome:
  fixes res :: RequestStepResult
  assumes o: "same_outcome (CommitStep plan res v2) d'"
    and f: "(if stage < confirmed then PromoteFinalStageAsAcceptedDraft res v2
        else Inr (res, if stage < k then MarkFinalStageAsEvaluatedNonAcceptedDraft v2 else v2)) = (Inr (res1, w0) :: 'x request_error + _)"
    and w: "unmoved w0 w'"
  shows "same_outcome (CommitStep plan res1 w') d'"
proof (cases "stage < confirmed")
  case True
  then have r: "res1 = res\<lparr>token_appended := False\<rparr>" "token_appended res" "tokens_host w0 = tokens_host v2 @ [res_token res]"
    "accepted_draft_count w0 = accepted_draft_count v2 + 1" "turn_generated_tokens w0 = turn_generated_tokens v2"
    "stop_controller w0 = stop_controller v2" "guidance w0 = guidance v2"
    using f by (auto simp: PromoteFinalStageAsAcceptedDraft_def AppendAcceptedSampledToken_def split: if_splits)
  then show ?thesis
    using o w by (cases "res_done res") (simp_all add: same_outcome_def unmoved_def CommitStep_def ReleaseTurnResources_def Let_def IsTurnComplete_def)
next
  case False
  then have r: "res1 = res" "tokens_host w0 = tokens_host v2" "accepted_draft_count w0 = accepted_draft_count v2"
    "turn_generated_tokens w0 = turn_generated_tokens v2" "stop_controller w0 = stop_controller v2" "guidance w0 = guidance v2"
    using f by (auto simp: MarkFinalStageAsEvaluatedNonAcceptedDraft_def)
  then show ?thesis
    using o w by (cases "res_done res"; cases "token_appended res") (simp_all add: same_outcome_def unmoved_def CommitStep_def ReleaseTurnResources_def Let_def IsTurnComplete_def)
qed

lemma final_stage_rng:
  "(if stage < confirmed then PromoteFinalStageAsAcceptedDraft res v2
      else Inr (res, if stage < k then MarkFinalStageAsEvaluatedNonAcceptedDraft v2 else v2)) = (Inr (res1, w0) :: 'x request_error + _)
    \<Longrightarrow> host_rng w0 = host_rng v2"
  by (auto simp: PromoteFinalStageAsAcceptedDraft_def AppendAcceptedSampledToken_def MarkFinalStageAsEvaluatedNonAcceptedDraft_def split: if_splits)

lemma stage_keeps_rng:
  fixes env :: "('s, 'e, 'g) RequestEnv"
  assumes env: "env_ok env" and dec: "decoding env v" and c: "on_search (CommitToken (env_search env) t) v = (Inr v1 :: 'e request_error + _)"
    and st: "StageGeneration env len v1 = Inr (res, v2)"
  shows "host_rng v2 = host_rng v" and "res_done res \<longleftrightarrow> res_finish_reason res \<noteq> ReasonNone"
proof -
  obtain sv sv' where v1: "req_search v = Some sv" "CommitToken (env_search env) t sv = Inr sv'" "v1 = v\<lparr>req_search := Some sv'\<rparr>"
    using c by (auto simp: on_search_Inr)
  have "search_ok (env_search env) sv'" using CommitToken_keeps[OF _ v1(2)] dec v1(1) by (auto simp: decoding_def)
  note f = StageGeneration_facts[OF env _ this st]
  have e: "v2 = v1\<lparr>stop_controller := stop_controller v2, guidance := guidance v2\<rparr>" by (rule f(1)) (simp add: v1)
  have "host_rng v2 = host_rng v1" by (subst e) simp
  then show "host_rng v2 = host_rng v" by (simp add: v1)
  show "res_done res \<longleftrightarrow> res_finish_reason res \<noteq> ReasonNone" by (rule f(4)) (simp add: v1)
qed

text \<open>The last stage that is committed.\<close>

lemma last_stage:
  fixes env :: "('s, 'e, 'g) RequestEnv"
  assumes f: "sampled_stages env plan confirmed rngs stage (t # ts) v = Inr (res, w)"
    and c: "on_search (CommitToken (env_search env) t) v = (Inr v1 :: 'e request_error + _)"
    and st: "StageGenerationForTransaction env plan v1 = Inr (r1, v2)" and l: "res_finish_reason r1 = StopString \<or> ts = []"
  obtains w0 where "(if stage < confirmed then PromoteFinalStageAsAcceptedDraft r1 v2
      else Inr (r1, if stage < draft_token_count plan then MarkFinalStageAsEvaluatedNonAcceptedDraft v2 else v2)) = (Inr (res, w0) :: 'e request_error + _)"
    and "w = (if res_finish_reason r1 = StopString \<and> ts \<noteq> [] then w0\<lparr>host_rng := rngs ! stage\<rparr> else w0)"
    and "res_finish_reason r1 = StopString \<and> ts \<noteq> [] \<Longrightarrow> stage < length rngs"
proof -
  let ?stop = "res_finish_reason r1 = StopString"
  let ?F = "(if stage < confirmed then PromoteFinalStageAsAcceptedDraft r1 v2
      else Inr (r1, if stage < draft_token_count plan then MarkFinalStageAsEvaluatedNonAcceptedDraft v2 else v2)) :: 'e request_error + _"
  have rl: "\<not> (?stop \<and> ts \<noteq> [] \<and> length rngs \<le> stage)" using f c st l by auto
  have "(if ?stop \<and> ts \<noteq> [] \<and> length rngs \<le> stage then Inl missing_rng_checkpoint else
      bind_result ?F (\<lambda>(result1, r3). Inr (result1, if ?stop \<and> ts \<noteq> [] then r3\<lparr>host_rng := rngs ! stage\<rparr> else r3))) = Inr (res, w)"
    using f c st l by (simp split del: if_split)
  then obtain x where x: "?F = Inr x"
    "(case x of (result1, r3) \<Rightarrow> Inr (result1, if ?stop \<and> ts \<noteq> [] then r3\<lparr>host_rng := rngs ! stage\<rparr> else r3)) = (Inr (res, w) :: 'e request_error + _)"
    unfolding if_not_P[OF rl] bind_result_Inr_iff by blast
  then obtain w0 where "?F = Inr (res, w0)" "w = (if ?stop \<and> ts \<noteq> [] then w0\<lparr>host_rng := rngs ! stage\<rparr> else w0)"
    by (cases x) (simp split del: if_split)
  then show thesis by (rule that) (use rl in auto)
qed

lemma stages_run:
  fixes env :: "('s, 'e, 'g) RequestEnv"
  assumes env: "env_ok env"
  shows "in_sync env v d \<Longrightarrow> accepted_draft_count v = stage \<Longrightarrow> stage + length sel \<le> kMaxDraftTokensPerStep + 1
    \<Longrightarrow> 0 \<le> sequence_length_before plan \<Longrightarrow> sequence_length_before plan + int stage = int (length (tokens_host v))
    \<Longrightarrow> length gs = length sel \<Longrightarrow> sel \<noteq> [] \<Longrightarrow> host_rng v = last gs \<Longrightarrow> rngs = [] \<or> drop stage rngs = gs
    \<Longrightarrow> sampled_stages env plan confirmed rngs stage sel v = Inr (res, w)
    \<Longrightarrow> \<exists>d'. run_draws env plan' (zip sel gs) d g0 = Inr (d', host_rng w) \<and> (\<forall>w'. unmoved w w' \<longrightarrow> same_outcome (CommitStep plan res w') d')"
proof (induction sel arbitrary: v d stage gs g0)
  case (Cons t ts)
  obtain g1 gs' where gs: "gs = g1 # gs'" "length gs' = length ts" using Cons.prems(6) by (cases gs) auto
  obtain v1 r1 v2 where c: "on_search (CommitToken (env_search env) t) v = (Inr v1 :: 'e request_error + _)"
    and st0: "StageGenerationForTransaction env plan v1 = Inr (r1, v2)"
    using Cons.prems(10) by (auto simp: bind_result_Inr_iff)
  have dec: "decoding env v" using Cons.prems(1) by (simp add: in_sync_def)
  then obtain s where s: "req_search v = Some s" "search_ok (env_search env) s" "seq_of s = tokens_host v" by (auto simp: decoding_def)
  have len: "CurrentSequenceLength v = sequence_length_before plan + int stage"
    using s length_seq_of[OF s(2)] Cons.prems(5) by (simp add: CurrentSequenceLength_def)
  have "accepted_draft_count v1 = stage" using c Cons.prems(2) by (auto simp: on_search_Inr)
  then have st: "StageGeneration env (CurrentSequenceLength v) v1 = Inr (r1, v2)" using st0 by (simp add: StageGenerationForTransaction_def len)
  have a: "accepted_draft_count v \<le> kMaxDraftTokensPerStep" "accepted_draft_count v \<le> length (tokens_host v)" using Cons.prems(2-5) by auto
  note rk = stage_keeps_rng[OF env dec c st]
  let ?stop = "res_finish_reason r1 = StopString"
  show ?case
  proof (cases "?stop \<or> ts = []")
    case True
    obtain d' where d': "one_token_step env plan' t d = Inr d'" "same_outcome (CommitStep plan r1 v2) d'"
      using final_token[OF Cons.prems(1) a c st, of v2 plan' plan] by (auto simp: unmoved_def)
    obtain w0 where w0: "(if stage < confirmed then PromoteFinalStageAsAcceptedDraft r1 v2
        else Inr (r1, if stage < draft_token_count plan then MarkFinalStageAsEvaluatedNonAcceptedDraft v2 else v2)) = (Inr (res, w0) :: 'e request_error + _)"
      and w: "w = (if ?stop \<and> ts \<noteq> [] then w0\<lparr>host_rng := rngs ! stage\<rparr> else w0)" and rl: "?stop \<and> ts \<noteq> [] \<Longrightarrow> stage < length rngs"
      using last_stage[OF Cons.prems(10) c st0 True] by blast
    have out: "same_outcome (CommitStep plan res w') d'" if "unmoved w w'" for w'
      using final_stage_outcome[OF d'(2) w0, of w'] that w by (simp add: unmoved_def split: if_splits)
    have run: "run_draws env plan' (zip (t # ts) gs) d g0 = Inr (d', g1)"
    proof (cases "IsTurnComplete (status d')")
      case False
      then have "\<not> res_done r1" using d'(2) by (auto simp: same_outcome_def IsTurnComplete_def split: if_splits)
      then have "ts = []" using True rk(2) by auto
      then show ?thesis using gs d'(1) by simp
    qed (use gs d'(1) in simp)
    have "host_rng w = g1"
    proof (cases "?stop \<and> ts \<noteq> []")
      case True
      then have "drop stage rngs = gs" "stage < length rngs" using Cons.prems(9) rl by auto
      then have "rngs ! stage = g1" using gs(1) by (metis hd_drop_conv_nth list.sel(1))
      then show ?thesis using True w by simp
    next
      case False
      then have "ts = []" using True by blast
      then have "host_rng v = g1" using Cons.prems(8) gs by simp
      then show ?thesis using False w final_stage_rng[OF w0] rk(1) by auto
    qed
    then show ?thesis using run out by auto
  next
    case False
    then obtain v3 where nd: "\<not> res_done r1" and v3: "AppendAcceptedSampledToken (res_token r1) v2 = (Inr v3 :: 'e request_error + _)"
      and rest: "sampled_stages env plan confirmed rngs (stage + 1) ts v3 = Inr (res, w)"
      using Cons.prems(10) c st0 by (auto simp: bind_result_Inr_iff split: if_splits)
    obtain d1 where d1: "one_token_step env plan' t d = Inr d1" "\<not> IsTurnComplete (status d1)" "in_sync env v3 d1" "host_rng v3 = host_rng v"
      "accepted_draft_count v3 = accepted_draft_count v + 1" "tokens_host v3 = tokens_host v @ [t]"
      using stage_sync[OF env Cons.prems(1) a c st nd v3, of plan'] by blast
    have dr: "rngs = [] \<or> drop (stage + 1) rngs = gs'" using Cons.prems(9) gs(1) by (metis add.commute drop_drop drop_Suc list.sel(3) plus_1_eq_Suc tl_drop)
    have "host_rng v3 = last gs'" using d1(4) Cons.prems(8) gs False by auto
    from Cons.IH[OF d1(3) _ _ Cons.prems(4) _ gs(2) _ this dr rest, of g1] d1 Cons.prems(2,3,5) False gs(1)
    show ?thesis by auto
  qed
qed simp

section \<open>The rows\<close>

text \<open>Without distributions for the drafts, the rows make the draws of ordinary sampling.\<close>

lemma select_rows_facts:
  assumes "select_rows R is_stop target row budget drafts dists g = (Inr (sel, gs, n, g') :: 'e request_error + _)"
  shows "length gs = length sel \<and> length sel \<le> length drafts + 1 \<and> (if sel = [] then g' = g else g' = last gs) \<and> (0 < budget \<longrightarrow> sel \<noteq> [])
    \<and> (dists = [] \<longrightarrow> sample_rows R (map target [row..<row + length sel]) g = (Inr (zip sel gs) :: 'e request_error + _))"
  using assms
proof (induction drafts arbitrary: row budget dists g sel gs n)
  case Nil
  then show ?case by (auto simp: bind_result_Inr_iff split: if_splits)
next
  case (Cons draft drafts)
  show ?case
  proof (cases "budget = 0")
    case False
    then obtain t a g1 where t: "select_row_token R (target row) draft (case dists of [] \<Rightarrow> None | d # _ \<Rightarrow> d) g = (Inr (t, a, g1) :: 'e request_error + _)"
      using Cons.prems by (auto simp: bind_result_Inr_iff)
    have plain: "dists = [] \<Longrightarrow> SampleTargetToken R (target row) g = (Inr (t, g1) :: 'e request_error + _)"
      using t by (auto simp: select_row_token_def bind_result_Inr_iff)
    show ?thesis
    proof (cases "\<not> a \<or> is_stop t")
      case True
      then show ?thesis using Cons.prems t False plain by auto
    next
      case go: False
      then obtain ts hs k where rest: "select_rows R is_stop target (row + 1) (budget - 1) drafts (tl dists) g1 = (Inr (ts, hs, k, g') :: 'e request_error + _)"
        and eq: "sel = t # ts" "gs = g1 # hs" using Cons.prems t False by (auto simp: bind_result_Inr_iff)
      note ih = Cons.IH[OF rest]
      have up: "map target [row..<row + length sel] = target row # map target [row + 1..<(row + 1) + length ts]"
        using upt_conv_Cons[of row "row + length sel"] eq(1) by (simp del: upt_Suc)
      show ?thesis using ih plain unfolding up by (cases "ts = []") (auto simp: eq simp del: upt_Suc)
    qed
  qed (use Cons.prems in auto)
qed

section \<open>The whole step\<close>

lemma rewound_sync:
  fixes env :: "('s, 'e, 'g) RequestEnv"
  assumes env: "env_ok env" and dec: "decoding env r" and z: "staged_draft_count r = 0" "accepted_draft_count r = 0" and n: "0 < n"
    and a: "AppendDraftsForTransaction env n r = Inr r1" and w: "RewindDraftsForTransaction env 0 r1 = Inr r2"
  shows "in_sync env r2 r" and "accepted_draft_count r2 = 0" and "tokens_host r2 = tokens_host r" and "host_rng r2 = host_rng r"
    and "stop_controller r2 = stop_controller r1"
proof -
  have st: "staged_draft_count r1 = n" using a n by (auto simp: AppendDraftsForTransaction_def Let_def bind_result_Inr_iff split: if_splits)
  have r1: "draft_verification r1 = no_verification" "host_rng r1 = host_rng r"
    using a n by (auto simp: AppendDraftsForTransaction_def Let_def bind_result_Inr_iff on_search_Inr split: if_splits)
  let ?y = "r1\<lparr>tokens_host := take (length (tokens_host r1) - n) (tokens_host r1)\<rparr>"
  let ?k = "to_size (CurrentSequenceLength r1 - int n)"
  obtain s s' where s: "req_search r1 = Some s" "RewindTo (env_search env) ?k s = Inr s'" and len: "n \<le> length (tokens_host r1)"
    and r2: "r2 = ?y\<lparr>accepted_draft_count := 0, evaluated_draft_count := 0, staged_draft_count := 0, req_search := Some s'\<rparr>"
    using w n st by (auto simp: RewindDraftsForTransaction_def drop_host_tokens_def Let_def bind_result_Inr_iff on_search_Inr split: if_splits)
  have d: "drop_host_tokens (staged_draft_count r1) r1 = (Inr ?y :: 'e request_error + _)" using len st by (simp add: drop_host_tokens_def)
  have o: "on_search (RewindTo (env_search env) (to_size (CurrentSequenceLength r1 - int (staged_draft_count r1)))) ?y
      = (Inr (?y\<lparr>req_search := Some s'\<rparr>) :: 'e request_error + _)" using s st by (simp add: on_search_def)
  have e: "r2 = ?y\<lparr>req_search := Some s', staged_draft_count := 0, accepted_draft_count := 0, evaluated_draft_count := 0,
      draft_verification := no_verification\<rparr>" by (rule Request.equality) (simp_all add: r2 r1)
  show sync: "in_sync env r2 r" using staged_and_rewound[OF env dec z a d o] by (simp add: e)
  show "accepted_draft_count r2 = 0" "stop_controller r2 = stop_controller r1" "host_rng r2 = host_rng r" using r1 by (simp_all add: r2)
  show "tokens_host r2 = tokens_host r" using sync by (simp add: in_sync_def)
qed

text \<open>Staging and seeding; the last premise says that a step with a pending seed sends all that is not processed to the model.\<close>

lemma begin_seeded:
  fixes env :: "('s, 'e, 'g) RequestEnv"
  assumes env: "env_ok env" and dec: "decoding env r" and n: "0 < n"
    and b: "begin_request env n r = Inr x" and s: "seed_request x = (Inr r2 :: 'e request_error + _)"
    and seed: "pending_reseed r \<noteq> None \<longrightarrow> 0 \<le> processed_sequence_length r
      \<and> processed_sequence_length r + int (scheduled_token_count r) = int (length (tokens_host r) + n)"
  shows "host_rng r2 = turn_rng r" and "draft_tokens r2 = draft_tokens r" and "draft_token_distributions r2 = draft_token_distributions r"
    and "staged_draft_count r2 = n" and "turn_policy r2 = turn_policy r" and "turn_generated_tokens r2 = turn_generated_tokens r"
    and "n \<le> length (draft_tokens r)"
proof -
  obtain r0 where r0: "SaveStateForTransaction_request r = (Inr r0 :: 'e request_error + _)" "AppendDraftsForTransaction env n r0 = Inr x"
    using b by (auto simp: begin_request_def bind_result_Inr_iff)
  have f0: "host_rng r0 = host_rng r" "draft_tokens r0 = draft_tokens r" "draft_token_distributions r0 = draft_token_distributions r"
    "pending_reseed r0 = pending_reseed r" "turn_policy r0 = turn_policy r" "turn_generated_tokens r0 = turn_generated_tokens r"
    "processed_sequence_length r0 = processed_sequence_length r" "scheduled_token_count r0 = scheduled_token_count r"
    using r0(1) by (auto simp: SaveStateForTransaction_request_def save_with_def bind_result_Inr_iff on_search_Inr)
  have "decoding env r0" "tokens_host r0 = tokens_host r"
    using dec same_tokens_decoding[OF save_same[OF r0(1)]] save_same[OF r0(1), of env] by (auto simp: same_tokens_def)
  then obtain s0 where s0: "req_search r0 = Some s0" "search_ok (env_search env) s0" "current_length s0 = length (tokens_host r)"
    using length_seq_of by (fastforce simp: decoding_def)
  obtain s1 where s1: "AppendTokens (env_search env) (take n (draft_tokens r)) s0 = Inr s1"
    and x: "x = r0\<lparr>req_search := Some s1, tokens_host := tokens_host r0 @ take n (draft_tokens r), staged_draft_count := n,
        accepted_draft_count := 0, evaluated_draft_count := 0, draft_verification := no_verification\<rparr>" and le: "n \<le> length (draft_tokens r)"
    using r0(2) s0(1) f0(2) n by (auto simp: AppendDraftsForTransaction_def bind_result_Inr_iff on_search_Inr Let_def split: if_splits)
  have len: "CurrentSequenceLength x = int (length (tokens_host r) + n)" and small: "length (tokens_host r) + n < 2 ^ 64"
    using AppendTokens_length[OF s0(2) s1] AppendTokens_keeps[OF s0(2) s1] s0(3) le env
    by (auto simp: x CurrentSequenceLength_def search_ok_def env_ok_def)
  have "IsChunkComplete x" if "pending_reseed r \<noteq> None"
  proof -
    note p = seed[rule_format, OF that]
    have d: "CurrentSequenceLength x - processed_sequence_length x = int (scheduled_token_count r)" "scheduled_token_count r < 2 ^ 64"
      using p len small f0(7) by (simp_all add: x)
    have "to_size (CurrentSequenceLength x - processed_sequence_length x) = scheduled_token_count x"
      using d f0(8) unfolding d(1) by (simp add: x)
    then show ?thesis using p len f0(7,8) by (simp add: IsChunkComplete_def ScheduledTokenCount_request_def unprocessed_def x)
  qed
  then have r2: "r2 = x \<and> pending_reseed r = None \<or> (\<exists>v. pending_reseed r = Some v \<and> r2 = x\<lparr>host_rng := MakeHostRandomGenerator v, pending_reseed_applied := True\<rparr>)"
    using s f0(4) by (auto simp: seed_request_def ApplyPendingSeedForTransaction_def x split: if_splits option.splits)
  show "host_rng r2 = turn_rng r" using r2 f0(1) by (auto simp: turn_rng_def x)
  show "n \<le> length (draft_tokens r)" by (rule le)
  show "draft_tokens r2 = draft_tokens r" "draft_token_distributions r2 = draft_token_distributions r" "staged_draft_count r2 = n"
    "turn_policy r2 = turn_policy r" "turn_generated_tokens r2 = turn_generated_tokens r"
    using r2 f0 by (auto simp: x)
qed

lemma select_sampled_facts:
  fixes env :: "('s, 'e, 'g) RequestEnv"
  assumes "select_sampled env R target n r = Inr ((sel, conf, rngs), r3)"
  obtains r1 gs where "RewindDraftsForTransaction env 0 r = Inr r1" and "r3 = r1\<lparr>host_rng := host_rng r3\<rparr>"
    and "rngs = [] \<or> rngs = gs" and "select_rows R (IsStopToken env) target 0 (RemainingTurnTokenBudget r) (StagedDraftTokens r)
        (if length (StagedDraftTokenDistributions r) = n then map Some (StagedDraftTokenDistributions r) else []) (host_rng r1)
      = (Inr (sel, gs, conf, host_rng r3) :: 'e request_error + _)"
proof -
  let ?dists = "if length (StagedDraftTokenDistributions r) = n then map Some (StagedDraftTokenDistributions r) else []"
  obtain r1 gs g where "RewindDraftsForTransaction env 0 r = Inr r1" "r3 = r1\<lparr>host_rng := g\<rparr>" "rngs = (if stop_controller r1 = None then [] else gs)"
    "select_rows R (IsStopToken env) target 0 (RemainingTurnTokenBudget r) (StagedDraftTokens r) ?dists (host_rng r1)
      = (Inr (sel, gs, conf, g) :: 'e request_error + _)"
    using assms by (auto simp: select_sampled_def Let_def bind_result_Inr_iff split del: if_split)
  then show thesis by (intro that[of r1 gs]) auto
qed

lemma in_sync_rng: "in_sync env (v\<lparr>host_rng := g\<rparr>) d = in_sync env v d"
  by (simp add: in_sync_def decoding_def controller_ok_def turn_limit_reached_def)

lemma commit_rng:
  assumes "commit_request plan (res, w) = (Inr r' :: 'x request_error + _)"
  obtains w' where "unmoved w w'" and "r' = CommitStep plan res w'" and "host_rng r' = host_rng w"
proof -
  obtain w' where w': "CommitStateForTransaction_request w = (Inr w' :: 'x request_error + _)" "r' = CommitStep plan res w'"
    using assms by (auto simp: commit_request_def bind_result_Inr_iff)
  have "host_rng w' = host_rng w"
    using w'(1) by (cases "pending_reseed_applied w"; cases "pending_reseed w")
      (auto simp: CommitStateForTransaction_request_def Let_def bind_result_Inr_iff on_search_Inr)
  moreover have "host_rng (CommitStep plan res w') = host_rng w'" by (simp add: CommitStep_def ReleaseTurnResources_def Let_def)
  ultimately show thesis using that[OF commit_unmoved[OF w'(1)] w'(2)] w'(2) by simp
qed

section \<open>The request after the step\<close>

text \<open>What the stages have staged, relative to the request that was saved.\<close>

lemma final_stage_staged:
  fixes env :: "('s, 'e, 'g) RequestEnv"
  assumes env: "env_ok env" and st: "staged_ok env n r1 res v2"
    and f: "(if stage < confirmed then PromoteFinalStageAsAcceptedDraft res v2
        else Inr (res, if stage < k then MarkFinalStageAsEvaluatedNonAcceptedDraft v2 else v2)) = (Inr (res1, w) :: 'e request_error + _)"
    and g: "res_done res \<or> token_appended res"
  shows "\<exists>ys. staged_ok env n r1 res1 (w\<lparr>host_rng := h\<rparr>) \<and> tokens_host w = tokens_host v2 @ ys
    \<and> accepted_draft_count w = accepted_draft_count v2 + length ys \<and> (res_done res1 \<or> token_appended res1 \<or> ys \<noteq> [])"
proof -
  obtain s where w: "within_step env n r1 v2" and s1: "req_search v2 = Some s"
    and s3: "seq_of s = tokens_host v2 @ (if token_appended res then [res_token res] else [])"
    and go: "\<not> res_done res \<longrightarrow> live s \<and> current_length s < max_length (env_search env)
      \<and> \<not> turn_limit_reached v2 (turn_generated_tokens v2 + accepted_draft_count v2 + (if token_appended res then 1 else 0))"
    using st unfolding staged_ok_def by blast
  have "search_ok (env_search env) s" using w s1 by (auto simp: within_step_def)
  note s = s1 this s3
  have rng: "within_step env n r1 (x\<lparr>host_rng := h\<rparr>)" if "within_step env n r1 x" for x
    using that by (simp add: within_step_def step_frame_def)
  show ?thesis
  proof (cases "stage < confirmed")
    case True
    then have p: "token_appended res" "res1 = res\<lparr>token_appended := False\<rparr>" and a: "AppendAcceptedSampledToken (res_token res) v2 = (Inr w :: 'e request_error + _)"
      using f by (auto simp: PromoteFinalStageAsAcceptedDraft_def bind_result_Inr_iff split: if_splits)
    have "int (length (tokens_host v2)) < CurrentSequenceLength v2"
      using s p(1) length_seq_of[OF s(2)] by (simp add: CurrentSequenceLength_def)
    from rng[OF within_sampled[OF w this a]] have w': "within_step env n r1 (w\<lparr>host_rng := h\<rparr>)" .
    have f: "tokens_host w = tokens_host v2 @ [res_token res]" "accepted_draft_count w = accepted_draft_count v2 + 1" "req_search w = Some s"
      "turn_generated_tokens w = turn_generated_tokens v2" "turn_policy w = turn_policy v2"
      using a s(1) by (auto simp: AppendAcceptedSampledToken_def split: if_splits)
    then have "staged_ok env n r1 res1 (w\<lparr>host_rng := h\<rparr>)"
      using w' s p go by (auto simp: staged_ok_def turn_limit_reached_def)
    then show ?thesis using f by (intro exI[of _ "[res_token res]"]) simp
  next
    case False
    then have e: "res1 = res" "w = v2 \<or> w = MarkFinalStageAsEvaluatedNonAcceptedDraft v2" using f by (auto split: if_splits)
    have "within_step env n r1 w" using e(2) w within_step_op[OF step_op.mark w env] by auto
    note w' = rng[OF this]
    have f: "req_search w = Some s" "tokens_host w = tokens_host v2" "accepted_draft_count w = accepted_draft_count v2"
      "turn_generated_tokens w = turn_generated_tokens v2" "turn_policy w = turn_policy v2"
      using e(2) s(1) by (auto simp: MarkFinalStageAsEvaluatedNonAcceptedDraft_def)
    have "staged_ok env n r1 res1 (w\<lparr>host_rng := h\<rparr>)"
      using w' s(3) go f by (simp add: staged_ok_def e(1) limit_policy[of "w\<lparr>host_rng := h\<rparr>" v2])
    then show ?thesis using e g by (intro exI[of _ "[]"]) (auto simp: MarkFinalStageAsEvaluatedNonAcceptedDraft_def)
  qed
qed

lemma stages_staged:
  fixes env :: "('s, 'e, 'g) RequestEnv"
  assumes env: "env_ok env"
  shows "decoding env v \<Longrightarrow> within_step env n r1 v \<Longrightarrow> accepted_draft_count v = stage
    \<Longrightarrow> sequence_length_before plan + int stage = int (length (tokens_host v)) \<Longrightarrow> sel \<noteq> []
    \<Longrightarrow> sampled_stages env plan confirmed rngs stage sel v = Inr (res, w)
    \<Longrightarrow> \<exists>ys. staged_ok env n r1 res w \<and> tokens_host w = tokens_host v @ ys \<and> accepted_draft_count w = stage + length ys
      \<and> (res_done res \<or> token_appended res \<or> ys \<noteq> [])"
proof (induction sel arbitrary: v stage)
  case (Cons t ts)
  obtain v1 res1 v2 where c: "on_search (CommitToken (env_search env) t) v = (Inr v1 :: 'e request_error + _)"
    and st0: "StageGenerationForTransaction env plan v1 = Inr (res1, v2)"
    using Cons.prems(6) by (auto simp: bind_result_Inr_iff)
  then obtain s s' where s: "req_search v = Some s" "CommitToken (env_search env) t s = Inr s'" "v1 = v\<lparr>req_search := Some s'\<rparr>"
    by (auto simp: on_search_Inr)
  have ok: "search_ok (env_search env) s" "seq_of s = tokens_host v" using Cons.prems(1) s(1) by (auto simp: decoding_def)
  have st: "StageGeneration env (int (current_length s)) v1 = Inr (res1, v2)"
    using st0 Cons.prems(3,4) ok length_seq_of[OF ok(1)] s(3) by (simp add: StageGenerationForTransaction_def)
  have v1: "v1 = v\<lparr>req_search := Some s', host_rng := host_rng v\<rparr>" using s(3) by simp
  note tk = token_staged[OF env Cons.prems(1) s(1,2) v1 st within_token[OF Cons.prems(2) c]]
  let ?stop = "res_finish_reason res1 = StopString"
  show ?case
  proof (cases "?stop \<or> ts = []")
    case True
    obtain w0 where f: "(if stage < confirmed then PromoteFinalStageAsAcceptedDraft res1 v2
        else Inr (res1, if stage < draft_token_count plan then MarkFinalStageAsEvaluatedNonAcceptedDraft v2 else v2)) = (Inr (res, w0) :: 'e request_error + _)"
      and w0: "w = (if ?stop \<and> ts \<noteq> [] then w0\<lparr>host_rng := rngs ! stage\<rparr> else w0)"
      using last_stage[OF Cons.prems(6) c st0 True] by blast
    define h where "h = host_rng w"
    have w: "w = w0\<lparr>host_rng := h\<rparr>" using w0 by (cases "?stop \<and> ts \<noteq> []") (simp_all add: h_def)
    from final_stage_staged[OF env _ f, of n r1 h] tk Cons.prems(3) show ?thesis unfolding w by auto
  next
    case False
    then obtain v3 where nd: "\<not> res_done res1" and v3: "AppendAcceptedSampledToken (res_token res1) v2 = (Inr v3 :: 'e request_error + _)"
      and rest: "sampled_stages env plan confirmed rngs (stage + 1) ts v3 = Inr (res, w)"
      using Cons.prems(6) c st0 by (auto simp: bind_result_Inr_iff split: if_splits)
    have st': "StageGeneration env (int (current_length s)) (v\<lparr>req_search := Some s'\<rparr>) = Inr (res1, v2)" using st s(3) by simp
    have x3: "v3 = v2\<lparr>tokens_host := tokens_host v2 @ [res_token res1], staged_draft_count := staged_draft_count v2 + 1,
        accepted_draft_count := accepted_draft_count v2 + 1, evaluated_draft_count := evaluated_draft_count v2 + 1\<rparr>"
      using v3 by (auto simp: AppendAcceptedSampledToken_def split: if_splits)
    note tg = stage_token[OF env Cons.prems(1) s(1,2) st' nd]
    have "search_ok (env_search env) s'" using CommitToken_keeps[OF ok(1) s(2)] by blast
    then have q: "req_search v2 = Some s'" using StageGeneration_facts(2)[OF env _ _ st', of s'] by simp
    have dec: "decoding env v3" by (rule tg(3)) (simp_all add: x3 q tg(2))
    have ap: "seq_of s' = tokens_host v2 @ [res_token res1]" "search_ok (env_search env) s'" "within_step env n r1 v2"
      using tk q tg(1) by (auto simp: staged_ok_def within_step_def)
    have "int (length (tokens_host v2)) < CurrentSequenceLength v2"
      using ap length_seq_of[OF ap(2)] q by (simp add: CurrentSequenceLength_def)
    from within_sampled[OF ap(3) this v3] have w3: "within_step env n r1 v3" .
    have e: "accepted_draft_count v3 = stage + 1" "tokens_host v3 = tokens_host v @ [res_token res1]"
      using tk Cons.prems(3) by (simp_all add: x3)
    have "sequence_length_before plan + int (stage + 1) = int (length (tokens_host v3))" using Cons.prems(4) e(2) by simp
    from Cons.IH[OF dec w3 e(1) this _ rest] False obtain ys where "staged_ok env n r1 res w" "tokens_host w = tokens_host v3 @ ys"
      "accepted_draft_count w = stage + 1 + length ys" by blast
    then show ?thesis using e(2) by (intro exI[of _ "res_token res1 # ys"]) simp
  qed
qed simp

lemma sampled_rests:
  fixes env :: "('s, 'e, 'g) RequestEnv"
  assumes env: "env_ok env" and rest: "resting env r" and hist: "turns_ok hist r" and ex: "IsExecutable (status r)"
    and len: "sequence_length_before plan = int (length (tokens_host r))" and n: "0 < draft_token_count plan"
    and f: "sampled_step env R target plan r = Inr r'"
  shows "resting env r' \<and> turns_ok hist r' \<and> advances r r'"
proof -
  let ?n = "draft_token_count plan"
  obtain x r2 sel conf rngs r3 res w where x: "begin_request env ?n r = Inr x" "seed_request x = (Inr r2 :: 'e request_error + _)"
    and se: "select_sampled env R target ?n r2 = Inr ((sel, conf, rngs), r3)"
    and stg: "sampled_stages env plan conf rngs 0 sel r3 = Inr (res, w)" and c: "commit_request plan (res, w) = (Inr r' :: 'e request_error + _)"
    using f by (auto simp: sampled_step_def bind_result_Inr_iff)
  from begun[OF rest env x] obtain r1 where r1: "SaveStateForTransaction_request r = (Inr r1 :: 'e request_error + _)"
    "within_step env (length (tokens_host r)) r1 r2" .
  obtain y where y: "same_tokens env r y" "AppendDraftsForTransaction env ?n y = Inr r2" using begin_and_seed[OF x] by blast
  have dy: "decoding env y" "staged_draft_count y = 0" "accepted_draft_count y = 0" "tokens_host y = tokens_host r"
    "turn_policy y = turn_policy r" "turn_generated_tokens y = turn_generated_tokens r"
    using same_tokens_decoding[OF y(1)] resting_decoding[OF rest ex] y(1) rest by (simp_all add: same_tokens_def resting_def)
  obtain u gs where u: "RewindDraftsForTransaction env 0 r2 = Inr u" "r3 = u\<lparr>host_rng := host_rng r3\<rparr>"
    and rows: "select_rows R (IsStopToken env) target 0 (RemainingTurnTokenBudget r2) (StagedDraftTokens r2)
        (if length (StagedDraftTokenDistributions r2) = ?n then map Some (StagedDraftTokenDistributions r2) else []) (host_rng u)
      = (Inr (sel, gs, conf, host_rng r3) :: 'e request_error + _)"
    using select_sampled_facts[OF se] by blast
  note rs = rewound_sync[OF env dy(1-3) n y(2) u(1)]
  have "in_sync env r3 y" using rs(1) by (subst u(2)) (simp add: in_sync_rng)
  then have dec: "decoding env r3" by (simp add: in_sync_def)
  have "within_step env (length (tokens_host r)) r1 u" using within_rewind[OF r1(2) env u(1)] .
  then have w3: "within_step env (length (tokens_host r)) r1 r3" by (subst u(2)) (simp add: within_step_def step_frame_def)
  have z: "accepted_draft_count r3 = 0" "tokens_host r3 = tokens_host r" by (subst u(2), simp add: rs dy)+
  have "turn_policy r2 = turn_policy y" "turn_generated_tokens r2 = turn_generated_tokens y"
    using y(2) n by (auto simp: AppendDraftsForTransaction_def Let_def bind_result_Inr_iff on_search_Inr split: if_splits)
  then have "0 < RemainingTurnTokenBudget r2"
    using dy(1,3) by (auto simp: decoding_def turn_limit_reached_def RemainingTurnTokenBudget_def split: option.splits)
  then have ne: "sel \<noteq> []" using select_rows_facts[OF rows] by blast
  have l: "sequence_length_before plan + int 0 = int (length (tokens_host r3))" using len z(2) by simp
  from stages_staged[OF env dec w3 z(1) l ne stg] z(2) obtain ys where st: "staged_ok env (length (tokens_host r)) r1 res w"
    "tokens_host w = tokens_host r @ ys" "accepted_draft_count w = length ys" "res_done res \<or> token_appended res \<or> ys \<noteq> []" by auto
  from commit_advances[OF r1(1) st(1) c st(4,2,3)] commit_rests[OF rest hist r1(1) st(1) c] show ?thesis by blast
qed

section \<open>Exactness\<close>

lemma proposals_split:
  assumes "n \<le> length (draft_tokens r)" and "0 < n"
  shows "map fst (proposals_of n r) = take n (draft_tokens r)" and "length (proposals_of n r) = n"
    and "let qs = if length (take n (draft_token_distributions r)) = n then map Some (take n (draft_token_distributions r)) else []
      in qs = map snd (proposals_of n r) \<or> qs = [] \<and> (\<forall>p \<in> set (proposals_of n r). snd p = None)"
  using assms by (auto simp: proposals_of_def Let_def dest!: set_zip_rightD)

text \<open>
  C2. A committed speculative step of a sampling request draws on the Request's own host stream, from its state at the
  step or from the turn's pending seed, exactly the tokens that the rows of the target model determine: a draft that came
  with its distribution is accepted by the ratio of target and draft probability and otherwise replaced by a draw from
  the correction distribution, a draft without one is accepted when it is the token drawn from the target, and a draw for
  the row after the drafts follows when all were accepted and the turn's budget allows it. The step leaves the tokens, the
  status, the finish reason, the guidance and the stop state of committing those tokens one by one until the turn ends,
  and the generator in the state after the last token committed, so that tokens selected beyond a stop string cost no
  draws. (Steps without drafts may sample on the device from another stream; nothing is said about those.)
\<close>

theorem sampled_step_is_sampling:
  fixes env :: "('s, 'e, 'g) RequestEnv"
  assumes "env_ok env" and "decoding env r" and "status r = Active"
    and "staged_draft_count r = 0" and "accepted_draft_count r = 0" and "0 < draft_token_count plan"
    and "draft_token_count plan \<le> kMaxDraftTokensPerStep"
    and "pending_reseed r \<noteq> None \<longrightarrow> 0 \<le> processed_sequence_length r
      \<and> processed_sequence_length r + int (scheduled_token_count r) = int (length (tokens_host r) + draft_token_count plan)"
    and "sequence_length_before plan = int (length (tokens_host r))"
    and "sampled_step env R target plan r = Inr r'"
  shows "\<exists>draws d.
    (\<forall>xs. step_draws R (IsStopToken env) target (RemainingTurnTokenBudget r) (proposals_of (draft_token_count plan) r) (turn_rng r) xs
       \<longleftrightarrow> xs = draws)
    \<and> run_draws env plan' draws r (turn_rng r) = Inr (d, host_rng r') \<and> same_outcome r' d
    \<and> (draft_token_distributions r = [] \<longrightarrow>
        sample_rows R (map target [0..<length draws]) (turn_rng r) = (Inr draws :: 'e request_error + _))"
proof -
  let ?n = "draft_token_count plan" and ?ps = "proposals_of (draft_token_count plan) r"
  obtain x r2 sel conf rngs r3 res w where x: "begin_request env ?n r = Inr x" "seed_request x = (Inr r2 :: 'e request_error + _)"
    and se: "select_sampled env R target ?n r2 = Inr ((sel, conf, rngs), r3)"
    and stg: "sampled_stages env plan conf rngs 0 sel r3 = Inr (res, w)" and c: "commit_request plan (res, w) = (Inr r' :: 'e request_error + _)"
    using assms(10) by (auto simp: sampled_step_def bind_result_Inr_iff)
  obtain r0 where r0: "same_tokens env r r0" "AppendDraftsForTransaction env ?n r0 = Inr r2" using begin_and_seed[OF x] by blast
  note f2 = begin_seeded[OF assms(1,2,6) x assms(8)]
  have h0: "host_rng r0 = host_rng r2"
    using r0(2) by (auto simp: AppendDraftsForTransaction_def bind_result_Inr_iff on_search_Inr Let_def split: if_splits)
  have d0: "decoding env r0" "staged_draft_count r0 = 0" "accepted_draft_count r0 = 0" "tokens_host r0 = tokens_host r"
    using same_tokens_decoding[OF r0(1)] assms(2,4,5) r0(1) by (simp_all add: same_tokens_def)
  obtain r1 gs where r1: "RewindDraftsForTransaction env 0 r2 = Inr r1" "r3 = r1\<lparr>host_rng := host_rng r3\<rparr>" "rngs = [] \<or> rngs = gs"
    and rows0: "select_rows R (IsStopToken env) target 0 (RemainingTurnTokenBudget r2) (StagedDraftTokens r2)
        (if length (StagedDraftTokenDistributions r2) = ?n then map Some (StagedDraftTokenDistributions r2) else []) (host_rng r1)
      = (Inr (sel, gs, conf, host_rng r3) :: 'e request_error + _)"
    using select_sampled_facts[OF se] by blast
  note rs = rewound_sync[OF assms(1) d0(1-3) assms(6) r0(2) r1(1)]
  let ?qs = "if length (take ?n (draft_token_distributions r)) = ?n then map Some (take ?n (draft_token_distributions r)) else []"
  have bud: "RemainingTurnTokenBudget r2 = RemainingTurnTokenBudget r" "0 < RemainingTurnTokenBudget r"
    using assms(2,5) f2 by (auto simp: decoding_def turn_limit_reached_def RemainingTurnTokenBudget_def split: option.splits)
  note ps = proposals_split[OF f2(7) assms(6), unfolded Let_def]
  have staged: "StagedDraftTokens r2 = take ?n (draft_tokens r)"
    "StagedDraftTokenDistributions r2 = take ?n (draft_token_distributions r)"
    using f2 by (simp_all add: StagedDraftTokens_def StagedDraftTokenDistributions_def min_def)
  have start: "host_rng r1 = turn_rng r" using rs(4) h0 f2(1) by simp
  have rows: "select_rows R (IsStopToken env) target 0 (RemainingTurnTokenBudget r) (map fst ?ps) ?qs (turn_rng r)
      = (Inr (sel, gs, conf, host_rng r3) :: 'e request_error + _)"
    using rows0 unfolding staged bud(1) start ps(1) .
  have draws: "step_draws R (IsStopToken env) target (RemainingTurnTokenBudget r) ?ps (turn_rng r) (zip sel gs)"
    using select_rows_draws[OF rows bud(2) ps(3)] by simp
  have sync: "in_sync env r3 r" using in_sync_same[OF r0(1) rs(1)]
    by (subst r1(2)) (simp add: in_sync_rng)
  have v: "accepted_draft_count r3 = 0" "tokens_host r3 = tokens_host r" by (subst r1(2), simp add: rs d0)+
  note sr = select_rows_facts[OF rows]
  have sl: "sel \<noteq> []" "length sel \<le> ?n + 1" "length gs = length sel" "host_rng r3 = last gs" using sr bud(2) ps(2) by (auto split: if_splits)
  have "sequence_length_before plan + int 0 = int (length (tokens_host r3))" "0 \<le> sequence_length_before plan" using assms(9) v(2) by simp_all
  from stages_run[OF assms(1) sync v(1) _ this(2,1) sl(3,1,4) _ stg, of plan' "turn_rng r"] sl(2) assms(7) r1(3)
  obtain d where d: "run_draws env plan' (zip sel gs) r (turn_rng r) = Inr (d, host_rng w)"
    "\<And>w'. unmoved w w' \<Longrightarrow> same_outcome (CommitStep plan res w') d" by auto
  obtain w' where w': "unmoved w w'" "r' = CommitStep plan res w'" "host_rng r' = host_rng w" using commit_rng[OF c] .
  have "draft_token_distributions r = [] \<longrightarrow> sample_rows R (map target [0..<length (zip sel gs)]) (turn_rng r) = (Inr (zip sel gs) :: 'e request_error + _)"
    using sr assms(6) sl(3) by auto
  moreover have "step_draws R (IsStopToken env) target (RemainingTurnTokenBudget r) ?ps (turn_rng r) xs \<longleftrightarrow> xs = zip sel gs" for xs
    using draws step_draws_unique[OF draws, of xs] by blast
  ultimately show ?thesis using d w' by (intro exI[of _ "zip sel gs"] exI[of _ d]) auto
qed

text \<open>A source that counts its draws, and rows with two tokens each.\<close>

definition example_random :: "rng Random" where
  "example_random = \<lparr>draw_index = (\<lambda>ws g. (rng_draws g mod length ws, g\<lparr>rng_draws := rng_draws g + 1\<rparr>)),
     draw_uniform = (\<lambda>g. (1/2, g\<lparr>rng_draws := rng_draws g + 1\<rparr>))\<rparr>"

definition example_rows :: "nat \<Rightarrow> TargetTokenSelection" where
  "example_rows row = \<lparr>sel_greedy_token = -1, sel_indices = [9, 5], sel_probs = [1/2, 1/2]\<rparr>"

text \<open>
  A turn with a pending seed and two drafts with their distributions: the target gives the first at least the probability
  that the draft had, and the second none.
\<close>

definition example_ratio :: "(unit, unit) Request" where
  "example_ratio = example_request\<lparr>turn_policy := (turn_policy example_request)\<lparr>max_generated_tokens := Some 4\<rparr>,
     scheduled_token_count := 3, pending_reseed := Some 5,
     draft_token_distributions := [\<lparr>sel_greedy_token = -1, sel_indices = [9], sel_probs = [1/2]\<rparr>,
       \<lparr>sel_greedy_token = -1, sel_indices = [2], sel_probs = [1]\<rparr>]\<rparr>"

lemma example_ratio_decoding: "decoding example_env example_ratio"
proof -
  have "turn_generated_tokens example_request = 0" "accepted_draft_count example_request = 0"
    by (simp_all add: example_request_def new_request_def)
  then show ?thesis
    using example_request_decoding by (simp add: decoding_def example_ratio_def turn_limit_reached_def controller_ok_def)
qed

lemma example_sampled:
  "case sampled_step example_env example_random example_rows example_plan example_ratio of Inl _ \<Rightarrow> False
   | Inr r \<Rightarrow> tokens_host r = [7, 8, 9, 9] \<and> rng_draws (host_rng r) = 3"
  by code_simp

theorem sampled_step_is_sampling_witness:
  "\<exists>r' draws d. sampled_step example_env example_random example_rows example_plan example_ratio = Inr r'
    \<and> tokens_host r' = [7, 8, 9, 9] \<and> rng_draws (host_rng r') = 3
    \<and> (\<forall>xs. step_draws example_random (IsStopToken example_env) example_rows (RemainingTurnTokenBudget example_ratio)
         (proposals_of (draft_token_count example_plan) example_ratio) (turn_rng example_ratio) xs \<longleftrightarrow> xs = draws)
    \<and> run_draws example_env example_plan draws example_ratio (turn_rng example_ratio) = Inr (d, host_rng r') \<and> same_outcome r' d"
proof -
  obtain r' where r': "sampled_step example_env example_random example_rows example_plan example_ratio = Inr r'"
    "tokens_host r' = [7, 8, 9, 9]" "rng_draws (host_rng r') = 3"
    using example_sampled by (cases "sampled_step example_env example_random example_rows example_plan example_ratio") auto
  have "status example_ratio = Active" "staged_draft_count example_ratio = 0" "accepted_draft_count example_ratio = 0"
    "0 < draft_token_count example_plan" "draft_token_count example_plan \<le> kMaxDraftTokensPerStep"
    "pending_reseed example_ratio \<noteq> None \<longrightarrow> 0 \<le> processed_sequence_length example_ratio \<and> processed_sequence_length example_ratio
      + int (scheduled_token_count example_ratio) = int (length (tokens_host example_ratio) + draft_token_count example_plan)"
    "sequence_length_before example_plan = int (length (tokens_host example_ratio))"
    by (simp_all add: example_ratio_def example_request_def new_request_def example_plan_def kMaxDraftTokensPerStep_def)
  from sampled_step_is_sampling[OF example_env_ok example_ratio_decoding this r'(1), of example_plan] r'
  show ?thesis by blast
qed

end
