(* ===== verification/Request_Life.thy ===== *)
theory Request_Life
  imports Sampled_Step
begin

text \<open>
  The life of a Request as the Engine drives it: turns are admitted, scheduled, decoded in committed steps (prompt chunks,
  single tokens, verified drafts of greedy and of sampling turns), canceled, failed and rewound, until the request is closed.
  An inductive relation collects the requests that can arise, with the identifiers of the turns begun so far and the tokens
  at their start; the invariants of a resting request are proved for all of them by rule induction.
\<close>

section \<open>The life of a request\<close>

text \<open>
  The requests that can arise, with the turns begun so far, each with the tokens of the session at that moment. The guards
  are those of the Engine: a generation step needs an executable turn; drafts are verified against the argmax of the rows
  in a greedy turn and against their distributions in a sampling turn; a rewind needs a completed turn that did not fail, a
  cancellation the identifier of the running turn. A step that fails is rolled back, whatever it had done. A static
  engine marks a resident request closed and completes the close later. Steps that sample on the device and the shadow
  requests of auxiliary decoders are not part of the relation.
\<close>

inductive lives :: "('s, 'e, 'g) RequestEnv \<Rightarrow> ('s, 'g) Request \<Rightarrow> (u64 \<times> token list) list \<Rightarrow> bool" for env where
  start: "lives env (AttachToEngine engine (new_request env defaults seed_basis)) []"
| admit: "lives env r hist \<Longrightarrow> ValidateTurnAdmission env tokens options r = Inr ()
    \<Longrightarrow> adm_policy adm = ResolveTurnPolicy defaults options \<Longrightarrow> controller_fresh env (pending_stop_controller adm)
    \<Longrightarrow> PrepareTurnAdmission env tokens r adm = Inr (r1, adm1)
    \<Longrightarrow> CommitTurnAdmission seed r1 adm1 = (Inr (i, r', adm2) :: 'e request_error + _) \<Longrightarrow> lives env r' (hist @ [(i, tokens_host r)])"
| schedule: "lives env r hist \<Longrightarrow> Schedule r = (Inr r' :: 'e request_error + _) \<Longrightarrow> lives env r' hist"
| bind_count: "lives env r hist \<Longrightarrow> BindScheduledTokenCount k r = (Inr r' :: 'e request_error + _) \<Longrightarrow> lives env r' hist"
| propose: "lives env r hist \<Longrightarrow> SetDraftTokens env drafts r = Inr r' \<Longrightarrow> lives env r' hist"
| propose_sampled: "lives env r hist \<Longrightarrow> SetSampledDraftTokens env drafts distributions r = Inr r' \<Longrightarrow> lives env r' hist"
| propose_drawn: "lives env r hist \<Longrightarrow> SetDraftTokenDistributions env draw distributions r = Inr r' \<Longrightarrow> lives env r' hist"
| adopt: "lives env r hist \<Longrightarrow> StagePrefixAdoption k r = (Inr r' :: 'e request_error + _) \<Longrightarrow> lives env r' hist"
| adopted: "lives env r hist \<Longrightarrow> lives env (CommitPrefixAdoption r) hist"
| not_adopted: "lives env r hist \<Longrightarrow> lives env (RollbackPrefixAdoption r) hist"
| chunk: "lives env r hist \<Longrightarrow> IsExecutable (status r) \<Longrightarrow> chunk_step env plan r = Inr r' \<Longrightarrow> lives env r' hist"
| decode: "lives env r hist \<Longrightarrow> IsExecutable (status r)
    \<Longrightarrow> undrafted_step env (S :: (flt, token list \<times> rat list, rng) Sampling) lowest scale visited logits applied plan r = Inr r'
    \<Longrightarrow> lives env r' hist"
| speculate: "lives env r hist \<Longrightarrow> IsExecutable (status r) \<Longrightarrow> IsGreedy (turn_policy r) \<Longrightarrow> 0 < draft_token_count plan
    \<Longrightarrow> sequence_length_before plan = int (length (tokens_host r))
    \<Longrightarrow> drafted_step env row_argmax plan r = Inr r' \<Longrightarrow> lives env r' hist"
| sample: "lives env r hist \<Longrightarrow> IsExecutable (status r) \<Longrightarrow> \<not> IsGreedy (turn_policy r) \<Longrightarrow> 0 < draft_token_count plan
    \<Longrightarrow> sequence_length_before plan = int (length (tokens_host r))
    \<Longrightarrow> sampled_step env R target plan r = Inr r' \<Longrightarrow> lives env r' hist"
| rolled_back: "lives env r hist \<Longrightarrow> SaveStateForTransaction_request r = (Inr r1 :: 'e request_error + _) \<Longrightarrow> (step_op env)\<^sup>*\<^sup>* r1 r2
    \<Longrightarrow> RestoreStateForTransaction_request env r2 = Inr r3 \<Longrightarrow> lives env r3 hist"
| cancel: "lives env r hist \<Longrightarrow> CanCancelFromEngine engine i r = (Inr True :: 'e request_error + _)
    \<Longrightarrow> CompleteCancelFromEngine r = (counts, r') \<Longrightarrow> lives env r' hist"
| fail: "lives env r hist \<Longrightarrow> IsExecutable (status r) \<Longrightarrow> lives env (CompleteFailedTurnFromEngine r) hist"
| mark_failed: "lives env r hist \<Longrightarrow> lives env (MarkFailedFromEngine r) hist"
| rewind: "lives env r hist \<Longrightarrow> IsTurnComplete (status r) \<Longrightarrow> finish_reason r \<noteq> Failed \<Longrightarrow> length memory = max_length (env_search env)
    \<Longrightarrow> PrepareRewindToStartOfTurn env memory turn_id r = Inr st \<Longrightarrow> lives env (CommitRewind st r) hist"
| mark_closed: "lives env r hist \<Longrightarrow> lives env (MarkClosedFromEngine r) hist"
| close: "lives env r hist \<Longrightarrow> lives env (CompleteCloseFromEngine r) hist"
| close_detached: "lives env r hist \<Longrightarrow> lives env (CompleteClose r) hist"

lemma resting_cong:
  assumes "resting env r" and "req_search r' = req_search r" and "tokens_host r' = tokens_host r"
    and "IsExecutable (status r') = IsExecutable (status r)" and "status r' = Closed \<longleftrightarrow> status r = Closed"
    and "IsAwaitingFirstTurn r' = IsAwaitingFirstTurn r"
    and "staged_draft_count r' = staged_draft_count r" and "accepted_draft_count r' = accepted_draft_count r"
    and "pending_reseed_applied r' = pending_reseed_applied r" and "stop_controller r' = stop_controller r"
    and "host_capacity r' = host_capacity r" and "turn_policy r' = turn_policy r" and "turn_generated_tokens r' = turn_generated_tokens r"
    and "guidance r' = guidance r" and "pending_reseed r' = pending_reseed r"
  shows "resting env r'"
  using assms by (simp add: resting_def search_rests_def controller_ok_def turn_limit_reached_def)

lemma resting_ended:
  assumes "resting env r" and "req_search r' = req_search r" and "tokens_host r' = tokens_host r" and "status r' = TurnComplete"
    and "staged_draft_count r' = 0" and "accepted_draft_count r' = 0" and "\<not> pending_reseed_applied r'"
    and "stop_controller r' = None" and "guidance r' = None" and "pending_reseed r' = None" and "host_capacity r' = host_capacity r"
  shows "resting env r'"
  using assms by (auto simp: resting_def search_rests_def controller_ok_def IsAwaitingFirstTurn_def)

lemma durable_fields:
  assumes "durable r' = durable r"
  shows "tokens_host r' = tokens_host r" "status r' = status r" "host_capacity r' = host_capacity r" "turn_policy r' = turn_policy r"
    "turn_boundaries r' = turn_boundaries r" "next_turn_id r' = next_turn_id r" "turn_id_exhausted r' = turn_id_exhausted r"
    "turn_generated_tokens r' = turn_generated_tokens r" "pending_reseed r' = pending_reseed r" "guidance r' = guidance r"
    "stop_controller r' = stop_controller r" "pending_reseed_applied r' = pending_reseed_applied r"
  using assms by (cases r; cases r'; simp add: durable_def)+

lemma rolled_back_rests:
  fixes env :: "('s, 'e, 'g) RequestEnv"
  assumes env: "env_ok env" and rest: "resting env r" and hist: "turns_ok hist r"
    and save: "SaveStateForTransaction_request r = (Inr r1 :: 'e request_error + _)" and run: "(step_op env)\<^sup>*\<^sup>* r1 r2"
    and res: "RestoreStateForTransaction_request env r2 = Inr r3"
  shows "resting env r3 \<and> turns_ok hist r3"
proof -
  have idle: "idle env r" using rest by (auto simp: resting_def idle_def search_rests_def)
  from step_rolled_back[OF env idle save run] res obtain s s3 where d: "durable r3 = durable r" and s: "req_search r = Some s"
    "req_search r3 = Some s3" "search_ok (env_search env) s3" "seq_of s3 = seq_of s" "current_length s3 = current_length s"
    "eos_seen s3 = eos_seen s" "not_done_count s3 = not_done_count s" "search_done s3 = search_done s"
    "\<not> transaction_checkpoint_active s3" "\<not> transaction_restore_pending s3" by auto
  note f = durable_fields[OF d]
  have z: "staged_draft_count r3 = 0" "accepted_draft_count r3 = 0"
    using res by (auto simp: RestoreStateForTransaction_request_def restore_turn_state_def reset_step_def Let_def bind_result_Inr_iff
        split: option.splits)
  have "search_rests env r3 s3"
    using rest s f by (auto simp: resting_def search_rests_def live_def)
  then have "resting env r3"
    using rest f z by (auto simp: resting_def controller_ok_def turn_limit_reached_def IsAwaitingFirstTurn_def)
  moreover have "turns_ok hist r3" by (rule turns_ok_cong[OF hist]) (use f in simp_all)
  ultimately show ?thesis by blast
qed

lemma rolled_back_drafts:
  fixes env :: "('s, 'e, 'g) RequestEnv"
  assumes env: "env_ok env" and rest: "resting env r" and hist: "turns_ok hist r"
    and save: "SaveStateForTransaction_request r = (Inr r1 :: 'e request_error + _)" and run: "(step_op env)\<^sup>*\<^sup>* r1 r2"
    and res: "RestoreStateForTransaction_request env r2 = Inr r3"
  shows "draft_tokens r3 = draft_tokens r \<and> draft_token_distributions r3 = draft_token_distributions r \<and> status r3 = status r"
proof -
  have idle: "idle env r" using rest by (auto simp: resting_def idle_def search_rests_def)
  from step_rolled_back[OF env idle save run] res have "durable r3 = durable r" by auto
  then show ?thesis by (cases r; cases r3; simp add: durable_def)
qed

lemma start_rests:
  assumes "env_ok env"
  shows "resting env (AttachToEngine engine (new_request env defaults seed_basis))
    \<and> turns_ok [] (AttachToEngine engine (new_request env defaults seed_basis))"
proof -
  let ?s = "new_search (env_search env) (env_memory env) [0]"
  have "search_ok (env_search env) ?s" "seq_of ?s = []" "\<not> transaction_restore_pending ?s" "\<not> transaction_checkpoint_active ?s"
    using new_search_ok[of "env_search env" "env_memory env" "[0]"] assms by (auto simp: env_ok_def new_search_def)
  then show ?thesis
    by (simp add: resting_def search_rests_def turns_ok_def AttachToEngine_def new_request_def controller_ok_def)
qed

lemma rewind_known:
  fixes env :: "('s, 'e, 'g) RequestEnv"
  assumes "PrepareRewindToStartOfTurn env memory turn_id r = Inr st"
  obtains n where "(turn_id, n) \<in> set (turn_boundaries r)"
proof -
  have "length (takeWhile (\<lambda>b. fst b \<noteq> turn_id) (turn_boundaries r)) \<noteq> length (turn_boundaries r)"
    using assms by (auto simp: PrepareRewindToStartOfTurn_def Let_def)
  then have "takeWhile (\<lambda>b. fst b \<noteq> turn_id) (turn_boundaries r) \<noteq> turn_boundaries r" by (rule contrapos_nn) (rule arg_cong)
  then obtain b where "b \<in> set (turn_boundaries r)" "fst b = turn_id" unfolding takeWhile_eq_all_conv by blast
  then show thesis by (intro that[of "snd b"]) auto
qed

text \<open>The request without the bookkeeping of scheduling, prefix adoption, proposals and fatal failures.\<close>

definition bookkept :: "('s, 'g) Request \<Rightarrow> ('s, 'g) Request" where
  "bookkept r = r\<lparr>scheduled_token_count := 0, processed_sequence_length := 0, adopted_prefix_length := 0,
     turn_cached_prompt_tokens := 0, prefix_adoption_staged := False, draft_tokens := [], draft_token_distributions := [],
     draft_rng := host_rng r, finish_reason := ReasonNone, needs_replay_after_rewind := False, matched_stop_string_index := 0\<rparr>"

text \<open>A request that was closed: nothing is left of the session.\<close>

definition gone :: "('s, 'g) Request \<Rightarrow> bool" where
  "gone r \<longleftrightarrow> status r = Closed \<and> req_search r = None \<and> tokens_host r = [] \<and> turn_boundaries r = [] \<and> guidance r = None
     \<and> stop_controller r = None \<and> staged_draft_count r = 0 \<and> \<not> engine_alive r \<and> engine_identity r = None"

definition settled :: "('s, 'e, 'g) RequestEnv \<Rightarrow> (u64 \<times> token list) list \<Rightarrow> ('s, 'g) Request \<Rightarrow> bool" where
  "settled env hist r \<longleftrightarrow> (resting env r \<or> gone r) \<and> turns_ok hist r
     \<and> (status r = Closed \<longrightarrow> draft_tokens r = [] \<and> draft_token_distributions r = [])"

lemma settled_resting: "settled env hist r \<Longrightarrow> status r \<noteq> Closed \<Longrightarrow> resting env r \<and> turns_ok hist r"
  by (auto simp: settled_def gone_def)

lemma settledI: "resting env r \<and> turns_ok hist r \<Longrightarrow> status r \<noteq> Closed \<Longrightarrow> settled env hist r"
  by (simp add: settled_def)

lemma executable_not_closed: "IsExecutable x \<Longrightarrow> x \<noteq> Closed"
  by auto

lemma bookkept_fields:
  assumes "bookkept r' = bookkept r"
  shows "req_search r' = req_search r" "tokens_host r' = tokens_host r" "status r' = status r" "turn_boundaries r' = turn_boundaries r"
    "guidance r' = guidance r" "stop_controller r' = stop_controller r" "staged_draft_count r' = staged_draft_count r"
    "accepted_draft_count r' = accepted_draft_count r" "engine_alive r' = engine_alive r" "engine_identity r' = engine_identity r"
    "pending_reseed r' = pending_reseed r" "pending_reseed_applied r' = pending_reseed_applied r" "host_capacity r' = host_capacity r"
    "turn_policy r' = turn_policy r" "turn_generated_tokens r' = turn_generated_tokens r" "next_turn_id r' = next_turn_id r"
    "turn_id_exhausted r' = turn_id_exhausted r"
  using assms by (cases r; cases r'; simp add: bookkept_def)+

lemma rests_cong:
  assumes r: "resting env r \<and> turns_ok hist r" and e: "bookkept r' = bookkept r"
  shows "resting env r' \<and> turns_ok hist r'"
proof -
  note f = bookkept_fields[OF e]
  have "resting env r'" by (rule resting_cong[OF conjunct1[OF r]]) (use f in \<open>simp_all add: IsAwaitingFirstTurn_def\<close>)
  moreover have "turns_ok hist r'" by (rule turns_ok_cong[OF conjunct2[OF r]]) (use f in simp_all)
  ultimately show ?thesis by blast
qed

lemma gone_cong: "gone r \<Longrightarrow> bookkept r' = bookkept r \<Longrightarrow> gone r'"
  using bookkept_fields[of r' r] by (simp add: gone_def)

lemma settled_cong:
  assumes "settled env hist r" and e: "bookkept r' = bookkept r"
    and "status r = Closed \<Longrightarrow> draft_tokens r' = draft_tokens r \<and> draft_token_distributions r' = draft_token_distributions r"
  shows "settled env hist r'"
proof -
  have "turns_ok hist r'"
    by (rule turns_ok_cong[of hist r]) (use assms(1) bookkept_fields[OF e] in \<open>simp_all add: settled_def\<close>)
  moreover have "resting env r' \<or> gone r'"
    using assms(1) rests_cong[OF _ e] gone_cong[OF _ e] by (auto simp: settled_def)
  ultimately show ?thesis using assms(1,3) bookkept_fields(3)[OF e] by (auto simp: settled_def)
qed

text \<open>Proposals of every kind are bookkeeping, and refused on a closed request.\<close>

lemma SetDraftTokens_facts:
  assumes "SetDraftTokens env drafts r = Inr r'"
  shows "bookkept r' = bookkept r" and "status r \<noteq> Closed"
proof -
  have "\<exists>x. r' = r\<lparr>draft_tokens := x, draft_token_distributions := []\<rparr>"
    using assms by (fastforce simp: SetDraftTokens_def Let_def bind_result_Inr_iff split: if_splits option.splits)
  then show "bookkept r' = bookkept r" by (auto simp: bookkept_def)
  show "status r \<noteq> Closed" using assms by (auto simp: SetDraftTokens_def IsClosed_def split: if_splits)
qed

lemma SetSampledDraftTokens_facts:
  assumes "SetSampledDraftTokens env drafts distributions r = Inr r'"
  shows "bookkept r' = bookkept r" and "status r \<noteq> Closed"
proof -
  obtain r1 x where r1: "SetDraftTokens env drafts r = Inr r1" "r' = r1\<lparr>draft_token_distributions := x\<rparr>"
    using assms by (auto simp: SetSampledDraftTokens_def bind_result_Inr_iff split: if_splits)
  then have "bookkept r' = bookkept r1" by (simp add: bookkept_def)
  then show "bookkept r' = bookkept r" "status r \<noteq> Closed" using SetDraftTokens_facts[OF r1(1)] by simp_all
qed

lemma SetDraftTokenDistributions_facts:
  assumes "SetDraftTokenDistributions env draw distributions r = Inr r'"
  shows "bookkept r' = bookkept r" and "status r \<noteq> Closed"
proof -
  obtain g drafts r1 x where r1: "SetDraftTokens env drafts (r\<lparr>draft_rng := g\<rparr>) = Inr r1" "r' = r1\<lparr>draft_token_distributions := x\<rparr>"
    using assms by (auto simp: SetDraftTokenDistributions_def bind_result_Inr_iff)
  then have "bookkept r' = bookkept r1" by (simp add: bookkept_def)
  moreover have "bookkept (r\<lparr>draft_rng := g\<rparr>) = bookkept r" by (simp add: bookkept_def)
  ultimately show "bookkept r' = bookkept r" "status r \<noteq> Closed" using SetDraftTokens_facts[OF r1(1)] by simp_all
qed

lemmas proposal_facts = SetDraftTokens_facts SetSampledDraftTokens_facts SetDraftTokenDistributions_facts

lemma committed_status:
  "commit_request plan st = (Inr r' :: 'x request_error + _) \<Longrightarrow> status r' = TurnComplete \<or> status r' = Active"
  by (auto simp: commit_request_def bind_result_Inr_iff split: if_splits)

lemma step_status:
  "undrafted_step env S lowest scale visited logits applied plan r = Inr r' \<Longrightarrow> status r' = TurnComplete \<or> status r' = Active"
  "drafted_step env row_argmax plan r = Inr r' \<Longrightarrow> status r' = TurnComplete \<or> status r' = Active"
  "sampled_step env R target plan r = Inr r' \<Longrightarrow> status r' = TurnComplete \<or> status r' = Active"
  "chunk_step env plan r = Inr r' \<Longrightarrow> status r' = TurnComplete \<or> status r' = Active"
  by (auto simp: undrafted_step_def drafted_step_def sampled_step_def chunk_step_def bind_result_Inr_iff dest!: committed_status)

text \<open>Closing.\<close>

lemma mark_closed_settled:
  assumes "settled env hist r"
  shows "settled env hist (MarkClosedFromEngine r)"
proof -
  let ?r = "MarkClosedFromEngine r"
  have e: "status ?r = Closed" "req_search ?r = req_search r" "tokens_host ?r = tokens_host r" "turn_boundaries ?r = turn_boundaries r"
    "next_turn_id ?r = next_turn_id r" "turn_id_exhausted ?r = turn_id_exhausted r" "guidance ?r = None" "stop_controller ?r = None"
    "draft_tokens ?r = []" "draft_token_distributions ?r = []" "staged_draft_count ?r = 0" "accepted_draft_count ?r = 0"
    "pending_reseed_applied ?r = pending_reseed_applied r" "host_capacity ?r = host_capacity r" "engine_alive ?r = engine_alive r"
    "engine_identity ?r = engine_identity r"
    by (simp_all add: MarkClosedFromEngine_def)
  have "resting env ?r" if "resting env r"
    using that e by (auto simp: resting_def search_rests_def controller_ok_def IsAwaitingFirstTurn_def)
  moreover have "turns_ok hist ?r" by (rule turns_ok_cong[of hist r]) (use assms e in \<open>simp_all add: settled_def\<close>)
  ultimately show ?thesis using assms e by (auto simp: settled_def gone_def)
qed

lemma complete_close_settled:
  assumes "settled env hist r"
  shows "settled env hist (CompleteClose r)" and "gone (CompleteClose r)"
proof -
  show g: "gone (CompleteClose r)" by (simp add: gone_def CompleteClose_def)
  have "turns_ok hist (CompleteClose r)" using assms by (simp add: settled_def turns_ok_def CompleteClose_def)
  then show "settled env hist (CompleteClose r)" using g by (simp add: settled_def CompleteClose_def)
qed

lemma lives_settled:
  fixes env :: "('s, 'e, 'g) RequestEnv"
  assumes "lives env r hist" and env: "env_ok env"
  shows "settled env hist r"
  using assms(1)
proof (induction rule: lives.induct)
  case (start engine defaults seed_basis)
  show ?case by (rule settledI[OF start_rests[OF env]]) (simp add: AttachToEngine_def new_request_def)
next
  case (admit r hist tokens options adm defaults r1 adm1 seed i r' adm2)
  have "status r \<noteq> Closed" using admit.hyps(2) by (auto simp: ValidateTurnAdmission_def IsAwaitingFirstTurn_def IsTurnComplete_def split: if_splits)
  note r = settled_resting[OF admit.IH this]
  obtain x y z u where "PrepareTurnAdmission env tokens r adm = Inr (x, y)"
    "CommitTurnAdmission seed x y = (Inr (next_turn_id r, u, z) :: 'e request_error + _)" "resting env u"
    "turns_ok (hist @ [(next_turn_id r, tokens_host r)]) u" "status u = Assigned"
    using admission_rests[OF env conjunct1[OF r] conjunct2[OF r] admit.hyps(2-4)] by metis
  then show ?case using admit.hyps(5,6) by (auto simp: settled_def)
next
  case (schedule r hist r')
  then have r': "r' = r\<lparr>status := Active\<rparr>" "status r = Assigned" by (auto simp: Schedule_def split: if_splits)
  with settled_resting[OF schedule.IH] have r: "resting env r" "turns_ok hist r" by auto
  have "resting env r'" by (rule resting_cong[OF r(1)]) (simp_all add: r' IsAwaitingFirstTurn_def)
  moreover have "turns_ok hist r'" by (rule turns_ok_cong[OF r(2)]) (simp_all add: r')
  ultimately show ?case using r' by (simp add: settled_def)
next
  case (bind_count r hist k r')
  then have "r' = r\<lparr>scheduled_token_count := k\<rparr>" by (auto simp: BindScheduledTokenCount_def Let_def split: if_splits)
  then show ?case by (intro settled_cong[OF bind_count.IH]) (simp_all add: bookkept_def)
next
  case (propose r hist drafts r')
  show ?case by (rule settled_cong[OF propose.IH]) (use proposal_facts(1,2)[OF propose.hyps(2)] in auto)
next
  case (propose_sampled r hist drafts distributions r')
  show ?case by (rule settled_cong[OF propose_sampled.IH]) (use proposal_facts(3,4)[OF propose_sampled.hyps(2)] in auto)
next
  case (propose_drawn r hist draw distributions r')
  show ?case by (rule settled_cong[OF propose_drawn.IH]) (use proposal_facts(5,6)[OF propose_drawn.hyps(2)] in auto)
next
  case (adopt r hist k r')
  then have "\<exists>x. r' = r\<lparr>processed_sequence_length := int k, adopted_prefix_length := k, turn_cached_prompt_tokens := x,
      prefix_adoption_staged := True\<rparr>"
    by (auto simp: StagePrefixAdoption_def Let_def split: if_splits)
  then show ?case by (elim exE) (intro settled_cong[OF adopt.IH], simp_all add: bookkept_def)
next
  case (adopted r hist)
  then show ?case by (intro settled_cong[OF adopted.IH]) (simp_all add: CommitPrefixAdoption_def bookkept_def)
next
  case (not_adopted r hist)
  show ?case by (rule settled_cong[OF not_adopted.IH]) (simp_all add: RollbackPrefixAdoption_def bookkept_def)
next
  case (chunk r hist plan r')
  from chunk_rests[OF _ _ chunk.hyps(2,3)] settled_resting[OF chunk.IH executable_not_closed[OF chunk.hyps(2)]]
  show ?case using step_status(4)[OF chunk.hyps(3)] by (intro settledI) auto
next
  case (decode r hist S lowest scale visited logits applied plan r')
  from undrafted_rests[OF env _ _ decode.hyps(2,3)] settled_resting[OF decode.IH executable_not_closed[OF decode.hyps(2)]]
  show ?case using step_status(1)[OF decode.hyps(3)] by (intro settledI) auto
next
  case (speculate r hist plan row_argmax r')
  from drafted_rests[OF env _ _ speculate.hyps(2,5,6)] settled_resting[OF speculate.IH executable_not_closed[OF speculate.hyps(2)]]
  show ?case using step_status(2)[OF speculate.hyps(6)] by (intro settledI) auto
next
  case (sample r hist plan R target r')
  from sampled_rests[OF env _ _ sample.hyps(2,5,4,6)] settled_resting[OF sample.IH executable_not_closed[OF sample.hyps(2)]]
  show ?case using step_status(3)[OF sample.hyps(6)] by (intro settledI) auto
next
  case (rolled_back r hist r1 r2 r3)
  have "req_search r \<noteq> None" using rolled_back.hyps(2)
    by (auto simp: SaveStateForTransaction_request_def save_with_def bind_result_Inr_iff on_search_Inr)
  then have r: "resting env r" "turns_ok hist r" using rolled_back.IH by (auto simp: settled_def gone_def)
  have "draft_tokens r3 = draft_tokens r \<and> draft_token_distributions r3 = draft_token_distributions r \<and> status r3 = status r"
    using rolled_back_drafts[OF env r rolled_back.hyps(2-4)] .
  then show ?case using rolled_back_rests[OF env r rolled_back.hyps(2-4)] rolled_back.IH by (auto simp: settled_def)
next
  case (cancel r hist engine i counts r')
  have "IsExecutable (status r)" using cancel.hyps(2) by (auto simp: CanCancelFromEngine_def split: if_splits)
  note r = settled_resting[OF cancel.IH executable_not_closed[OF this]]
  show ?case using r cancel.hyps(3) resting_ended[of env r r'] turns_ok_cong[of hist r r']
    by (intro settledI) (auto simp: CompleteCancelFromEngine_def ReleaseTurnResources_def Let_def)
next
  case (fail r hist)
  let ?r = "CompleteFailedTurnFromEngine r"
  note r = settled_resting[OF fail.IH executable_not_closed[OF fail.hyps(2)]]
  show ?case using r resting_ended[of env r ?r] turns_ok_cong[of hist r ?r]
    by (intro settledI) (simp_all add: CompleteFailedTurnFromEngine_def ReleaseTurnResources_def)
next
  case (mark_failed r hist)
  show ?case by (rule settled_cong[OF mark_failed.IH]) (simp_all add: MarkFailedFromEngine_def bookkept_def)
next
  case (rewind r hist memory turn_id st)
  have nc: "status r \<noteq> Closed" using rewind.hyps(2) by (auto simp: IsTurnComplete_def)
  note r = settled_resting[OF rewind.IH nc]
  obtain n where "(turn_id, n) \<in> set (turn_boundaries r)" using rewind_known[OF rewind.hyps(5)] .
  from rewind_rests[OF env conjunct1[OF r] conjunct2[OF r] rewind.hyps(2) rewind.hyps(4) this]
  obtain st' where "PrepareRewindToStartOfTurn env memory turn_id r = Inr st'" "resting env (CommitRewind st' r)"
    "turns_ok hist (CommitRewind st' r)" "status (CommitRewind st' r) = status r" by metis
  then show ?case using rewind.hyps(5) nc by (simp add: settled_def)
next
  case (mark_closed r hist)
  show ?case by (rule mark_closed_settled[OF mark_closed.IH])
next
  case (close r hist)
  show ?case unfolding CompleteCloseFromEngine_def by (rule complete_close_settled[OF mark_closed_settled[OF close.IH]])
next
  case (close_detached r hist)
  show ?case by (rule complete_close_settled[OF close_detached.IH])
qed

section \<open>The end of a turn\<close>

text \<open>
  A turn that runs, with the number of committed generation steps it took; prompt chunks, proposals, prefix adoption,
  bookkeeping and steps that were rolled back are not counted.
\<close>

inductive turn_runs :: "('s, 'e, 'g) RequestEnv \<Rightarrow> ('s, 'g) Request \<Rightarrow> nat \<Rightarrow> ('s, 'g) Request \<Rightarrow> bool" for env r0 where
  begun: "turn_runs env r0 0 r0"
| scheduled: "turn_runs env r0 n r \<Longrightarrow> Schedule r = (Inr r' :: 'e request_error + _) \<Longrightarrow> turn_runs env r0 n r'"
| bound: "turn_runs env r0 n r \<Longrightarrow> BindScheduledTokenCount k r = (Inr r' :: 'e request_error + _) \<Longrightarrow> turn_runs env r0 n r'"
| adoption_staged: "turn_runs env r0 n r \<Longrightarrow> StagePrefixAdoption k r = (Inr r' :: 'e request_error + _) \<Longrightarrow> turn_runs env r0 n r'"
| adoption_committed: "turn_runs env r0 n r \<Longrightarrow> turn_runs env r0 n (CommitPrefixAdoption r)"
| adoption_rolled_back: "turn_runs env r0 n r \<Longrightarrow> turn_runs env r0 n (RollbackPrefixAdoption r)"
| proposed: "turn_runs env r0 n r \<Longrightarrow> SetDraftTokens env drafts r = Inr r' \<Longrightarrow> turn_runs env r0 n r'"
| proposed_sampled: "turn_runs env r0 n r \<Longrightarrow> SetSampledDraftTokens env drafts distributions r = Inr r' \<Longrightarrow> turn_runs env r0 n r'"
| proposed_drawn: "turn_runs env r0 n r \<Longrightarrow> SetDraftTokenDistributions env draw distributions r = Inr r' \<Longrightarrow> turn_runs env r0 n r'"
| chunked: "turn_runs env r0 n r \<Longrightarrow> IsExecutable (status r) \<Longrightarrow> chunk_step env plan r = Inr r' \<Longrightarrow> turn_runs env r0 n r'"
| undone: "turn_runs env r0 n r \<Longrightarrow> IsExecutable (status r) \<Longrightarrow> SaveStateForTransaction_request r = (Inr r1 :: 'e request_error + _)
    \<Longrightarrow> (step_op env)\<^sup>*\<^sup>* r1 r2 \<Longrightarrow> RestoreStateForTransaction_request env r2 = Inr r3 \<Longrightarrow> turn_runs env r0 n r3"
| decoded: "turn_runs env r0 n r \<Longrightarrow> IsExecutable (status r)
    \<Longrightarrow> undrafted_step env (S :: (flt, token list \<times> rat list, rng) Sampling) lowest scale visited logits applied plan r = Inr r'
    \<Longrightarrow> turn_runs env r0 (Suc n) r'"
| speculated: "turn_runs env r0 n r \<Longrightarrow> IsExecutable (status r) \<Longrightarrow> IsGreedy (turn_policy r) \<Longrightarrow> 0 < draft_token_count plan
    \<Longrightarrow> sequence_length_before plan = int (length (tokens_host r))
    \<Longrightarrow> drafted_step env row_argmax plan r = Inr r' \<Longrightarrow> turn_runs env r0 (Suc n) r'"
| sampled: "turn_runs env r0 n r \<Longrightarrow> IsExecutable (status r) \<Longrightarrow> \<not> IsGreedy (turn_policy r) \<Longrightarrow> 0 < draft_token_count plan
    \<Longrightarrow> sequence_length_before plan = int (length (tokens_host r))
    \<Longrightarrow> sampled_step env R target plan r = Inr r' \<Longrightarrow> turn_runs env r0 (Suc n) r'"

definition within_budget :: "('s, 'e, 'g) RequestEnv \<Rightarrow> ('s, 'g) Request \<Rightarrow> nat \<Rightarrow> ('s, 'g) Request \<Rightarrow> bool" where
  "within_budget env r0 n r \<longleftrightarrow> turn_policy r = turn_policy r0
     \<and> turn_generated_tokens r + length (tokens_host r0) = turn_generated_tokens r0 + length (tokens_host r)
     \<and> length (tokens_host r0) \<le> length (tokens_host r) \<and> (IsExecutable (status r) \<longrightarrow> n \<le> length (tokens_host r) - length (tokens_host r0))
     \<and> n \<le> max_session_tokens env - length (tokens_host r0) \<and> n \<le> RemainingTurnTokenBudget r0"

lemma budget_cong:
  "within_budget env r0 n r \<Longrightarrow> turn_policy r' = turn_policy r \<Longrightarrow> turn_generated_tokens r' = turn_generated_tokens r
    \<Longrightarrow> tokens_host r' = tokens_host r \<Longrightarrow> IsExecutable (status r') = IsExecutable (status r) \<Longrightarrow> within_budget env r0 n r'"
  by (simp add: within_budget_def)

lemma budget_step:
  assumes env: "env_ok env" and rest: "resting env r" and ex: "IsExecutable (status r)" and b: "within_budget env r0 n r"
    and a: "advances r r'" and le: "status r' = TurnComplete \<or> status r' = Active"
  shows "within_budget env r0 (Suc n) r'"
proof -
  obtain s where s: "search_rests env r s" using rest by (auto simp: resting_def)
  have len: "length (tokens_host r) < max_session_tokens env" "max_session_tokens env < 2 ^ 31"
    using s ex env resting_length[OF s] by (auto simp: search_rests_def max_session_tokens_def env_ok_def)
  have lim: "\<not> turn_limit_reached r (turn_generated_tokens r)" using rest ex by (simp add: resting_def)
  have pre: "length (tokens_host r) \<le> length (tokens_host r')" using a by (auto simp: advances_def dest: prefix_length_le)
  have n: "n \<le> length (tokens_host r) - length (tokens_host r0)" using b ex by (simp add: within_budget_def)
  have "Suc n \<le> RemainingTurnTokenBudget r0"
  proof (cases "max_generated_tokens (turn_policy r0)")
    case None
    then show ?thesis using n len by (simp add: RemainingTurnTokenBudget_def)
  next
    case (Some m)
    then have "turn_generated_tokens r < m" using lim b by (simp add: turn_limit_reached_def within_budget_def)
    then show ?thesis using n b Some by (auto simp: RemainingTurnTokenBudget_def within_budget_def)
  qed
  then show ?thesis
    using b a n len pre le by (auto simp: within_budget_def advances_def IsTurnComplete_def)
qed

lemma chunk_facts:
  fixes env :: "('s, 'e, 'g) RequestEnv"
  assumes "chunk_step env plan r = Inr r'" and "accepted_draft_count r = 0"
  shows "turn_policy r' = turn_policy r \<and> turn_generated_tokens r' = turn_generated_tokens r \<and> tokens_host r' = tokens_host r \<and> status r' = Active"
proof -
  obtain r1 v' where r1: "SaveStateForTransaction_request r = (Inr r1 :: 'e request_error + _)"
    "CommitStateForTransaction_request r1 = (Inr v' :: 'e request_error + _)" "r' = CommitStep plan no_result v'"
    using assms(1) by (auto simp: chunk_step_def begin_request_def commit_request_def bind_result_Inr_iff)
  then show ?thesis
    using save_same[OF r1(1), of env] commit_facts[OF r1(2)] assms(2) by (simp add: same_tokens_def no_result_def staged_result_def)
qed

text \<open>What a turn in progress keeps.\<close>

definition in_turn ::
  "('s, 'e, 'g) RequestEnv \<Rightarrow> (u64 \<times> token list) list \<Rightarrow> ('s, 'g) Request \<Rightarrow> nat \<Rightarrow> ('s, 'g) Request \<Rightarrow> bool" where
  "in_turn env hist r0 n r \<longleftrightarrow> (resting env r \<and> turns_ok hist r) \<and> within_budget env r0 n r"

lemma in_turn_cong:
  assumes i: "in_turn env hist r0 n r" and e: "bookkept r' = bookkept r"
  shows "in_turn env hist r0 n r'"
proof -
  have "within_budget env r0 n r'"
    by (rule budget_cong[of env r0 n r]) (use i bookkept_fields[OF e] in \<open>simp_all add: in_turn_def\<close>)
  then show ?thesis using i rests_cong[OF _ e, of env hist] by (simp add: in_turn_def)
qed

lemma in_turn_step:
  assumes "env_ok env" and "in_turn env hist r0 n r" and "IsExecutable (status r)"
    and "resting env r' \<and> turns_ok hist r' \<and> advances r r'" and "status r' = TurnComplete \<or> status r' = Active"
  shows "in_turn env hist r0 (Suc n) r'"
  using assms budget_step[OF assms(1)] by (auto simp: in_turn_def)

lemma turn_runs_budget:
  fixes env :: "('s, 'e, 'g) RequestEnv"
  assumes "turn_runs env r0 n r" and env: "env_ok env" and rest: "resting env r0" and hist: "turns_ok hist r0"
  shows "in_turn env hist r0 n r"
  using assms(1)
proof (induction rule: turn_runs.induct)
  case begun
  then show ?case using rest hist by (simp add: within_budget_def in_turn_def)
next
  case (scheduled n r r')
  then have r': "r' = r\<lparr>status := Active\<rparr>" "status r = Assigned" and i: "resting env r" "turns_ok hist r" "within_budget env r0 n r"
    by (auto simp: Schedule_def in_turn_def split: if_splits)
  have "resting env r'" by (rule resting_cong[OF i(1)]) (simp_all add: r' IsAwaitingFirstTurn_def)
  moreover have "turns_ok hist r'" by (rule turns_ok_cong[OF i(2)]) (simp_all add: r')
  moreover have "within_budget env r0 n r'" by (rule budget_cong[OF i(3)]) (simp_all add: r')
  ultimately show ?case by (simp add: in_turn_def)
next
  case (bound n r k r')
  then have "r' = r\<lparr>scheduled_token_count := k\<rparr>" by (auto simp: BindScheduledTokenCount_def Let_def split: if_splits)
  then show ?case by (intro in_turn_cong[OF bound.IH]) (simp add: bookkept_def)
next
  case (adoption_staged n r k r')
  then show ?case by (intro in_turn_cong[OF adoption_staged.IH]) (auto simp: StagePrefixAdoption_def Let_def bookkept_def split: if_splits)
next
  case (adoption_committed n r)
  then show ?case by (intro in_turn_cong[OF adoption_committed.IH]) (simp add: CommitPrefixAdoption_def bookkept_def)
next
  case (adoption_rolled_back n r)
  then show ?case by (intro in_turn_cong[OF adoption_rolled_back.IH]) (simp add: RollbackPrefixAdoption_def bookkept_def)
next
  case (proposed n r drafts r')
  then show ?case using in_turn_cong proposal_facts(1) by blast
next
  case (proposed_sampled n r drafts distributions r')
  then show ?case using in_turn_cong proposal_facts(3) by blast
next
  case (proposed_drawn n r draw distributions r')
  then show ?case using in_turn_cong proposal_facts(5) by blast
next
  case (chunked n r plan r')
  then show ?case
    using chunk_rests[of env r hist plan r'] chunk_facts[of env plan r r'] budget_cong[of env r0 n r r'] by (auto simp: in_turn_def resting_def)
next
  case (undone n r r1 r2 r3)
  then have i: "resting env r" "turns_ok hist r" "within_budget env r0 n r" by (auto simp: in_turn_def)
  have idle: "idle env r" using i(1) by (auto simp: resting_def idle_def search_rests_def)
  from step_rolled_back[OF env idle undone.hyps(3,4)] undone.hyps(5) have "durable r3 = durable r" by auto
  from durable_fields[OF this] budget_cong[OF i(3), of r3] rolled_back_rests[OF env i(1,2) undone.hyps(3-5)]
  show ?case by (simp add: in_turn_def)
next
  case (decoded n r S lowest scale visited logits applied plan r')
  then show ?case
    using in_turn_step[OF env decoded.IH decoded.hyps(2) undrafted_rests[OF env _ _ decoded.hyps(2,3)] step_status(1)[OF decoded.hyps(3)]]
    by (simp add: in_turn_def)
next
  case (speculated n r plan row_argmax r')
  then show ?case
    using in_turn_step[OF env speculated.IH speculated.hyps(2) drafted_rests[OF env _ _ speculated.hyps(2,5,6)] step_status(2)[OF speculated.hyps(6)]]
    by (simp add: in_turn_def)
next
  case (sampled n r plan R target r')
  then show ?case
    using in_turn_step[OF env sampled.IH sampled.hyps(2) sampled_rests[OF env _ _ sampled.hyps(2,5,4,6)] step_status(3)[OF sampled.hyps(6)]]
    by (simp add: in_turn_def)
qed

lemma gone_stays:
  fixes env :: "('s, 'e, 'g) RequestEnv"
  assumes "turn_runs env r0 n r" and "gone r0"
  shows "gone r \<and> n = 0"
  using assms(1)
proof (induction rule: turn_runs.induct)
  case begun
  then show ?case using assms(2) by simp
next
  case (bound n r k r')
  then show ?case by (auto simp: BindScheduledTokenCount_def Let_def gone_def split: if_splits)
next
  case (adoption_rolled_back n r)
  then show ?case by (simp add: RollbackPrefixAdoption_def gone_def)
next
  case (proposed n r drafts r')
  then show ?case using proposal_facts(2)[OF proposed.hyps(2)] by (simp add: gone_def)
next
  case (proposed_sampled n r drafts distributions r')
  then show ?case using proposal_facts(4)[OF proposed_sampled.hyps(2)] by (simp add: gone_def)
next
  case (proposed_drawn n r draw distributions r')
  then show ?case using proposal_facts(6)[OF proposed_drawn.hyps(2)] by (simp add: gone_def)
qed (auto simp: gone_def Schedule_def StagePrefixAdoption_def CommitPrefixAdoption_def IsQueued_def split: if_splits)

section \<open>Properties\<close>


text \<open>
  C17. A turn that passes validation is admitted: its admission does not fail at a later point, the turn gets an identifier
  that was never used, its tokens follow those of the session, and the request can be scheduled.
\<close>

theorem validated_turn_is_admitted:
  fixes env :: "('s, 'e, 'g) RequestEnv"
  assumes "env_ok env" and "lives env r hist" and "ValidateTurnAdmission env tokens options r = Inr ()"
    and "adm_policy adm = ResolveTurnPolicy defaults options" and "controller_fresh env (pending_stop_controller adm)"
  shows "\<exists>r1 adm1 r2 adm2 r'. PrepareTurnAdmission env tokens r adm = Inr (r1, adm1)
    \<and> CommitTurnAdmission seed r1 adm1 = (Inr (next_turn_id r, r2, adm2) :: 'e request_error + _)
    \<and> Schedule r2 = (Inr r' :: 'e request_error + _) \<and> next_turn_id r \<notin> set (map fst hist)
    \<and> tokens_host r' = tokens_host r @ tokens \<and> IsExecuting (status r') \<and> lives env r' (hist @ [(next_turn_id r, tokens_host r)])"
proof -
  have "status r \<noteq> Closed" using assms(3) by (auto simp: ValidateTurnAdmission_def IsAwaitingFirstTurn_def IsTurnComplete_def split: if_splits)
  then have r: "resting env r" "turns_ok hist r" using settled_resting[OF lives_settled[OF assms(2,1)]] by blast+
  obtain r1 adm1 adm2 r2 where p: "PrepareTurnAdmission env tokens r adm = Inr (r1, adm1)"
    "CommitTurnAdmission seed r1 adm1 = (Inr (next_turn_id r, r2, adm2) :: 'e request_error + _)"
    and rest: "resting env r2" and a: "tokens_host r2 = tokens_host r @ tokens" "status r2 = Assigned" "next_turn_id r \<notin> set (map fst hist)"
    using admission_rests[OF assms(1) r assms(3-5)] by metis
  have ne: "0 < length tokens" using assms(3) by (auto simp: ValidateTurnAdmission_def split: if_splits)
  obtain s where s: "req_search r2 = Some s" "search_rests env r2 s" using rest by (auto simp: resting_def search_rests_def)
  then have "0 < current_length s" using resting_length[OF s(2)] ne a(1) by (metis append_is_Nil_conv length_greater_0_conv)
  then have "CurrentSequenceLength r2 \<noteq> 0" using s(1) by (simp add: CurrentSequenceLength_def)
  then have sch: "Schedule r2 = (Inr (r2\<lparr>status := Active\<rparr>) :: 'e request_error + _)" using s(1) a(2) by (simp add: Schedule_def)
  have "lives env (r2\<lparr>status := Active\<rparr>) (hist @ [(next_turn_id r, tokens_host r)])"
    using lives.schedule[OF lives.admit[OF assms(2-5) p] sch] .
  then show ?thesis using p sch a by (auto simp: IsExecuting_def)
qed

text \<open>
  C16. Every turn ends: the number of committed generation steps that a turn can take, single tokens and verified drafts of
  greedy and of sampling turns alike, is bounded by the room left in the session and by the turn's own token budget,
  whatever the model produces, however many drafts are proposed and whichever steps in between are rolled back.
\<close>

theorem turn_ends:
  assumes "env_ok env" and "lives env r0 hist" and "turn_runs env r0 n r"
  shows "n \<le> max_session_tokens env - length (tokens_host r0) \<and> n \<le> RemainingTurnTokenBudget r0"
proof (cases "gone r0")
  case True
  then show ?thesis using gone_stays[OF assms(3)] by simp
next
  case False
  then show ?thesis
    using turn_runs_budget[OF assms(3,1)] lives_settled[OF assms(2,1)] by (auto simp: settled_def in_turn_def within_budget_def)
qed

text \<open>
  C18. Rewinding a completed request to the start of a turn that is still in its sequence succeeds and gives exactly the
  tokens the session had when that turn was begun, in the mirror and in the rebuilt search; the turns before it are kept,
  the next identifier is not reused. Any other identifier is rejected.
\<close>

theorem rewind_restores_turn_start:
  fixes env :: "('s, 'e, 'g) RequestEnv"
  assumes "env_ok env" and "lives env r hist" and "IsTurnComplete (status r)" and "length memory = max_session_tokens env"
  shows "if turn_id \<in> set (map fst (turn_boundaries r))
    then \<exists>st s. PrepareRewindToStartOfTurn env memory turn_id r = Inr st \<and> (turn_id, tokens_host (CommitRewind st r)) \<in> set hist
      \<and> prefix (tokens_host (CommitRewind st r)) (tokens_host r)
      \<and> req_search (CommitRewind st r) = Some s \<and> GetSequence (env_search env) 0 s = tokens_host (CommitRewind st r)
      \<and> turn_boundaries (CommitRewind st r) = turns_before turn_id (turn_boundaries r)
      \<and> next_turn_id (CommitRewind st r) = next_turn_id r
    else PrepareRewindToStartOfTurn env memory turn_id r = Inl (unknown_turn turn_id)"
proof (cases "turn_id \<in> set (map fst (turn_boundaries r))")
  case True
  then obtain n where b: "(turn_id, n) \<in> set (turn_boundaries r)" by auto
  have "status r \<noteq> Closed" using assms(3) by (auto simp: IsTurnComplete_def)
  then have r: "resting env r" "turns_ok hist r" using settled_resting[OF lives_settled[OF assms(2,1)]] by blast+
  obtain st where st: "PrepareRewindToStartOfTurn env memory turn_id r = Inr st" "resting env (CommitRewind st r)"
    "tokens_host (CommitRewind st r) = take n (tokens_host r)"
    "turn_boundaries (CommitRewind st r) = turns_before turn_id (turn_boundaries r)" "next_turn_id (CommitRewind st r) = next_turn_id r"
    using rewind_rests[OF assms(1) r assms(3) assms(4)[unfolded max_session_tokens_def] b] by metis
  moreover obtain s where "req_search (CommitRewind st r) = Some s" "seq_of s = tokens_host (CommitRewind st r)"
    using st(2) by (auto simp: resting_def search_rests_def)
  moreover have "(turn_id, take n (tokens_host r)) \<in> set hist" using r(2) b by (auto simp: turns_ok_def)
  ultimately show ?thesis using True by (auto simp: GetSequence_0 take_is_prefix)
next
  case False
  then have "\<forall>b \<in> set (turn_boundaries r). fst b \<noteq> turn_id" by force
  then have "length (takeWhile (\<lambda>b. fst b \<noteq> turn_id) (turn_boundaries r)) = length (turn_boundaries r)"
    by (intro arg_cong[where f = length] iffD2[OF takeWhile_eq_all_conv])
  then show ?thesis using False by (simp add: PrepareRewindToStartOfTurn_def Let_def)
qed


text \<open>A session on the small example: a first turn of two tokens.\<close>

definition example_session :: "(unit, unit) Request" where
  "example_session = AttachToEngine 1 (new_request example_env example_defaults 0)"

lemma example_validated:
  "opt_max_generated_tokens options \<noteq> Some 0 \<Longrightarrow> ValidateTurnAdmission example_env [7, 8] options example_session = Inr ()"
  by (simp add: ValidateTurnAdmission_def example_session_def AttachToEngine_def new_request_def IsAwaitingFirstTurn_def
      ValidateAppendLength_def max_session_tokens_def example_env_def example_params_def)

lemma example_lives: "lives example_env example_session []"
  unfolding example_session_def by (rule lives.start)

lemma example_fresh: "adm_policy example_admission = ResolveTurnPolicy example_defaults no_options"
  "controller_fresh example_env (pending_stop_controller example_admission)"
  by (simp_all add: example_admission_def controller_fresh_def)

theorem validated_turn_is_admitted_witness:
  "\<exists>r'. tokens_host r' = [7, 8] \<and> IsExecuting (status r') \<and> lives example_env r' [(1, [])]"
proof -
  have z: "next_turn_id example_session = 1" "tokens_host example_session = []"
    by (simp_all add: example_session_def AttachToEngine_def new_request_def)
  have v: "ValidateTurnAdmission example_env [7, 8] no_options example_session = Inr ()"
    by (rule example_validated) (simp add: no_options_def)
  show ?thesis using validated_turn_is_admitted[OF example_env_ok example_lives v example_fresh, of None] z by auto
qed

text \<open>
  A sampling turn computed: admitted, scheduled, a first token sampled, a draft proposed with its distribution, and a step
  that verifies it.
\<close>

definition sampling_options :: TurnOptions where
  "sampling_options = no_options\<lparr>opt_do_sample := Some True, opt_top_k := Some 5, opt_max_generated_tokens := Some 4\<rparr>"

definition sampling_admission :: "(unit, unit) RequestTurnAdmission" where
  "sampling_admission = example_admission\<lparr>adm_policy := ResolveTurnPolicy example_defaults sampling_options\<rparr>"

definition always_nine :: "(flt, token list \<times> rat list, rng) Sampling" where
  "always_nine = \<lparr>compute_categorical = (\<lambda>_ _ _ _. ([9], [1])), draw_token = (\<lambda>c g. Inr (hd (fst c), g\<lparr>rng_draws := rng_draws g + 1\<rparr>)),
     zero_score = Fin 0\<rparr>"

definition example_turn :: "unit request_error + (unit, unit) Request" where
  "example_turn =
     bind_result (PrepareTurnAdmission example_env [7, 8] example_session sampling_admission) (\<lambda>(r1, adm1).
     bind_result (CommitTurnAdmission None r1 adm1) (\<lambda>(_, r2, _). Schedule r2))"

definition first_token :: "(unit, unit) Request \<Rightarrow> unit request_error + (unit, unit) Request" where
  "first_token = undrafted_step example_env always_nine (Fin 0) (\<lambda>_ x. x) [] [] False
     (example_plan\<lparr>draft_token_count := 0, unprocessed_token_count := 2, target_cache_slots := 2\<rparr>)"

definition propose_five :: "(unit, unit) Request \<Rightarrow> unit request_error + (unit, unit) Request" where
  "propose_five = SetSampledDraftTokens example_env [5] [\<lparr>sel_greedy_token = -1, sel_indices = [5], sel_probs = [1/2]\<rparr>]"

definition verify_plan :: RequestStepPlan where
  "verify_plan = example_plan\<lparr>draft_token_count := 1, sequence_length_before := 3, unprocessed_token_count := 2\<rparr>"

definition verify_five :: "(unit, unit) Request \<Rightarrow> unit request_error + (unit, unit) Request" where
  "verify_five = sampled_step example_env example_random example_rows verify_plan"

lemma example_computed:
  "case example_turn of Inl _ \<Rightarrow> False | Inr r \<Rightarrow> (case first_token r of Inl _ \<Rightarrow> False | Inr r1 \<Rightarrow>
     (case propose_five r1 of Inl _ \<Rightarrow> False | Inr r2 \<Rightarrow> (case verify_five r2 of Inl _ \<Rightarrow> False | Inr r3 \<Rightarrow>
        tokens_host r = [7, 8] \<and> status r = Active \<and> tokens_host r1 = [7, 8, 9] \<and> status r1 = Active
        \<and> tokens_host r2 = [7, 8, 9] \<and> status r2 = Active \<and> \<not> IsGreedy (turn_policy r2)
        \<and> tokens_host r3 = [7, 8, 9, 5, 9] \<and> status r3 = Active \<and> turn_boundaries r3 = [(1, 0)]
        \<and> CanCancelFromEngine 1 1 r3 = (Inr True :: unit request_error + bool))))"
  by code_simp

lemma example_turn_lives:
  assumes "example_turn = Inr r"
  shows "lives example_env r [(1, [])]"
proof -
  have z: "next_turn_id example_session = 1" "tokens_host example_session = []" "status example_session \<noteq> Closed"
    by (simp_all add: example_session_def AttachToEngine_def new_request_def)
  have r0: "resting example_env example_session" "turns_ok [] example_session"
    using settled_resting[OF lives_settled[OF example_lives example_env_ok] z(3)] by blast+
  have v: "ValidateTurnAdmission example_env [7, 8] sampling_options example_session = Inr ()"
    by (rule example_validated) (simp add: sampling_options_def)
  have adm: "adm_policy sampling_admission = ResolveTurnPolicy example_defaults sampling_options"
    "controller_fresh example_env (pending_stop_controller sampling_admission)"
    using example_fresh by (simp_all add: sampling_admission_def)
  obtain r1 adm1 adm2 r2 where p: "PrepareTurnAdmission example_env [7, 8] example_session sampling_admission = Inr (r1, adm1)"
    "CommitTurnAdmission None r1 adm1 = (Inr (next_turn_id example_session, r2, adm2) :: unit request_error + _)"
    using admission_rests[OF example_env_ok r0 v adm, of None] by metis
  have "Schedule r2 = (Inr r :: unit request_error + _)" using assms p by (simp add: example_turn_def)
  from lives.schedule[OF lives.admit[OF example_lives v adm p] this] show ?thesis by (simp add: z)
qed

lemma example_run:
  obtains r r1 r2 r3 where "lives example_env r [(1, [])]" and "tokens_host r = [7, 8]"
    and "turn_runs example_env r 2 r3" and "lives example_env r3 [(1, [])]" and "tokens_host r3 = [7, 8, 9, 5, 9]"
    and "status r3 = Active" and "turn_boundaries r3 = [(1, 0)]" and "CanCancelFromEngine 1 1 r3 = (Inr True :: unit request_error + bool)"
proof -
  obtain r r1 r2 r3 where st: "example_turn = Inr r" "first_token r = Inr r1" "propose_five r1 = Inr r2" "verify_five r2 = Inr r3"
    and f: "tokens_host r = [7, 8]" "status r = Active" "tokens_host r2 = [7, 8, 9]" "status r2 = Active" "\<not> IsGreedy (turn_policy r2)"
      "tokens_host r3 = [7, 8, 9, 5, 9]" "status r3 = Active" "turn_boundaries r3 = [(1, 0)]"
      "CanCancelFromEngine 1 1 r3 = (Inr True :: unit request_error + bool)"
    using example_computed by (auto split: sum.splits)
  note d = st(2)[unfolded first_token_def] and p = st(3)[unfolded propose_five_def] and v = st(4)[unfolded verify_five_def]
  have g: "IsExecutable (status r)" "IsExecutable (status r2)" "0 < draft_token_count verify_plan"
    "sequence_length_before verify_plan = int (length (tokens_host r2))"
    using f by (simp_all add: verify_plan_def)
  note l = example_turn_lives[OF st(1)]
  from lives.sample[OF lives.propose_sampled[OF lives.decode[OF l g(1) d] p] g(2) f(5) g(3,4) v] have "lives example_env r3 [(1, [])]" .
  moreover from turn_runs.sampled[OF turn_runs.proposed_sampled[OF turn_runs.decoded[OF turn_runs.begun g(1) d] p] g(2) f(5) g(3,4) v]
  have "turn_runs example_env r 2 r3" by (simp add: numeral_2_eq_2)
  ultimately show thesis using that l f by blast
qed


theorem turn_ends_witness:
  "\<exists>r r'. lives example_env r [(1, [])] \<and> turn_runs example_env r 2 r' \<and> tokens_host r' = [7, 8, 9, 5, 9]
    \<and> 2 \<le> max_session_tokens example_env - length (tokens_host r) \<and> 2 \<le> RemainingTurnTokenBudget r"
proof -
  obtain r r' where r: "lives example_env r [(1, [])]" "turn_runs example_env r 2 r'" "tokens_host r' = [7, 8, 9, 5, 9]"
    using example_run by metis
  then show ?thesis using turn_ends[OF example_env_ok r(1,2)] by blast
qed

theorem rewind_restores_turn_start_witness:
  "\<exists>r st s. lives example_env r [(1, [])] \<and> tokens_host r = [7, 8, 9, 5, 9]
    \<and> PrepareRewindToStartOfTurn example_env [0, 0, 0, 0, 0, 0] 1 r = Inr st
    \<and> tokens_host (CommitRewind st r) = [] \<and> req_search (CommitRewind st r) = Some s \<and> GetSequence example_params 0 s = []"
proof -
  obtain r where r: "lives example_env r [(1, [])]" "tokens_host r = [7, 8, 9, 5, 9]" "turn_boundaries r = [(1, 0)]"
    "CanCancelFromEngine 1 1 r = (Inr True :: unit request_error + bool)" using example_run by metis
  let ?r = "snd (CompleteCancelFromEngine r)"
  have l: "lives example_env ?r [(1, [])]" by (rule lives.cancel[OF r(1,4)]) (rule surjective_pairing)
  have c: "IsTurnComplete (status ?r)" "tokens_host ?r = [7, 8, 9, 5, 9]" "1 \<in> set (map fst (turn_boundaries ?r))"
    using r by (simp_all add: CompleteCancelFromEngine_def ReleaseTurnResources_def IsTurnComplete_def Let_def)
  have m: "length [0 :: token, 0, 0, 0, 0, 0] = max_session_tokens example_env" "env_search example_env = example_params"
    by (simp_all add: max_session_tokens_def example_env_def example_params_def)
  obtain st s where st: "PrepareRewindToStartOfTurn example_env [0, 0, 0, 0, 0, 0] 1 ?r = Inr st" "(1, tokens_host (CommitRewind st ?r)) \<in> set [(1, [])]"
    "req_search (CommitRewind st ?r) = Some s" "GetSequence (env_search example_env) 0 s = tokens_host (CommitRewind st ?r)"
    using rewind_restores_turn_start[OF example_env_ok l c(1) m(1), of 1] c(3) by auto
  show ?thesis by (rule exI[of _ ?r], rule exI[of _ st], rule exI[of _ s]) (use st l c(2) m(2) in simp)
qed

end
