(* ===== verification/Prefix_Cache.thy ===== *)
theory Prefix_Cache
  imports Block_Ledger
begin

unbundle bit_operations_syntax

text \<open>
  The content-addressed index of filled blocks (\<^verbatim>\<open>src/src/engine/prefix_cache.h\<close>, \<^verbatim>\<open>src/src/engine/prefix_cache.cpp\<close>).

  \<^item> A pointer to an \<open>Entry\<close> is the id of its block, under which \<open>entries_\<close> owns it; \<open>entries_by_block_id_\<close> holds the same
    entries and is one list with it. The iterators of an entry are its positions in the lists of ids.
  \<^item> A \<open>shared_ptr\<close> to a \<open>BlockIdentity\<close> is compared by the address of the object.
  \<^item> The pool calls the index back when a block gains its second reference or is left with one; the model takes the
    notifications an operation of the pool recorded and delivers them in order.
  \<^item> How many owners a checkpoint has, and whether a draft checkpoint was evicted, is decided elsewhere: it is an argument.
  \<^item> Failures of the allocator are not modelled.
\<close>

section \<open>Content hashes\<close>

definition kFnvOffsetBasis :: u64 where "kFnvOffsetBasis = 1469598103934665603"

definition kFnvPrime :: u64 where "kFnvPrime = 1099511628211"

fun HashBytes :: "u64 \<Rightarrow> byte list \<Rightarrow> u64" where
  "HashBytes hash [] = hash"
| "HashBytes hash (b # bytes) = HashBytes ((hash XOR ucast b) * kFnvPrime) bytes"

text \<open>The bytes of an integer in memory, least significant first.\<close>

definition bytes_of :: "nat \<Rightarrow> u64 \<Rightarrow> byte list" where
  "bytes_of n w = map (\<lambda>k. ucast (drop_bit (8 * k) w)) [0..<n]"

definition RootHash :: u64 where "RootHash = kFnvOffsetBasis"

definition ChainHash :: "u64 \<Rightarrow> token list \<Rightarrow> u64" where
  "ChainHash parent_hash tokens =
     foldl (\<lambda>hash token. HashBytes hash (bytes_of 4 (word_of_int token)))
       (HashBytes (HashBytes kFnvOffsetBasis (bytes_of 8 parent_hash)) (bytes_of 8 (of_nat (length tokens)))) tokens"

fun LogicalIdentityEquals :: "LogicalPrefixIdentity option \<Rightarrow> LogicalPrefixIdentity option \<Rightarrow> bool" where
  "LogicalIdentityEquals None None = True"
| "LogicalIdentityEquals (Some (LogicalPrefixIdentity h p ts)) (Some (LogicalPrefixIdentity h' p' ts')) =
     (h = h' \<and> ts = ts' \<and> LogicalIdentityEquals p p')"
| "LogicalIdentityEquals _ _ = False"

section \<open>Data\<close>

record FixedStatePrefixCheckpoint =
  checkpoint_address :: nat
  checkpoint_token_count :: nat

record Dflash2PrefixCheckpoint =
  draft_address :: nat
  draft_checkpoint_token_count :: nat

text \<open>What the other owners of checkpoints decide: use counts and the state of a draft checkpoint.\<close>

record CheckpointOwners =
  checkpoint_use_count :: "nat \<Rightarrow> nat"
  draft_use_count :: "nat \<Rightarrow> nat"
  draft_evicted :: "nat \<Rightarrow> bool"

record PrefixCacheOptions =
  opt_enabled :: bool
  max_blocks :: nat
  requires_checkpoint :: bool
  max_checkpoints :: nat
  opt_hash :: "(u64 \<Rightarrow> token list \<Rightarrow> u64) option"

record PrefixCacheMatch =
  match_token_count :: nat
  match_blocks :: "bptr list"
  match_checkpoint :: "FixedStatePrefixCheckpoint option"
  match_draft_checkpoint :: "Dflash2PrefixCheckpoint option"

definition no_match :: PrefixCacheMatch where
  "no_match = \<lparr>match_token_count = 0, match_blocks = [], match_checkpoint = None, match_draft_checkpoint = None\<rparr>"

datatype PrefixCacheRegistrationStatus = Indexed | Duplicate | HashCollision | CapacityRefused

record PrefixCacheRegistration =
  registration_status :: PrefixCacheRegistrationStatus
  registration_identity :: "BlockIdentity option"

definition StopsSealing :: "PrefixCacheRegistration \<Rightarrow> bool" where
  "StopsSealing r \<longleftrightarrow> registration_status r = Duplicate \<or> registration_status r = HashCollision"

record PrefixCacheMetrics =
  lookups :: u64
  matches :: u64
  deferred_matches :: u64
  hits :: u64
  queried_tokens :: u64
  matched_tokens :: u64
  registered_blocks :: u64
  duplicate_registrations :: u64
  hash_collisions :: u64
  evictions :: u64
  retention_refusals :: u64
  publication_refusals :: u64

record Entry =
  entry_block :: bptr
  entry_identity :: BlockIdentity
  entry_checkpoint :: "FixedStatePrefixCheckpoint option"
  entry_draft_checkpoint :: "Dflash2PrefixCheckpoint option"
  parent_block_id :: "nat option"
  reclaimable :: bool
  promote_on_release :: bool

record PrefixCache =
  options :: PrefixCacheOptions
  entries :: "Entry option list"
  entries_by_hash :: "(u64 \<times> nat) list"
  recency :: "nat list"
  referenced_entries :: "nat list"
  reclaimable_entries :: "nat list"
  checkpoint_entries :: "nat list"
  metrics :: PrefixCacheMetrics
  next_identity :: nat

datatype prefix_error =
    PoolError pool_error
  | IndexNullBlock
  | IndexPartialBlock
  | IndexUnownedBlock
  | IdentityOccupied
  | ReclaimableOrderInvalid
  | ReclaimUnknownIdentity
  | CheckpointNeedsIdentity
  | CheckpointBoundaryMismatch
  | CacheTerminated

definition pool_result :: "pool_error + 'a \<Rightarrow> prefix_error + 'a" where
  "pool_result r = map_sum PoolError id r"

definition Enabled :: "PrefixCache \<Rightarrow> bool" where
  "Enabled cache \<longleftrightarrow> opt_enabled (options cache) \<and> max_blocks (options cache) \<noteq> 0"

definition Hash :: "PrefixCache \<Rightarrow> u64 \<Rightarrow> token list \<Rightarrow> u64" where
  "Hash cache parent_hash tokens = (case opt_hash (options cache) of
     Some h \<Rightarrow> h parent_hash tokens | None \<Rightarrow> ChainHash parent_hash tokens)"

definition count_metrics :: "(PrefixCacheMetrics \<Rightarrow> PrefixCacheMetrics) \<Rightarrow> PrefixCache \<Rightarrow> PrefixCache" where
  "count_metrics f cache = cache\<lparr>metrics := f (metrics cache)\<rparr>"

definition zero_metrics :: PrefixCacheMetrics where
  "zero_metrics = \<lparr>lookups = 0, matches = 0, deferred_matches = 0, hits = 0, queried_tokens = 0, matched_tokens = 0,
     registered_blocks = 0, duplicate_registrations = 0, hash_collisions = 0, evictions = 0, retention_refusals = 0,
     publication_refusals = 0\<rparr>"

definition IndexedBlocks :: "PrefixCache \<Rightarrow> nat" where
  "IndexedBlocks cache = length (filter (\<lambda>e. e \<noteq> None) (entries cache))"

definition CheckpointCount :: "PrefixCache \<Rightarrow> nat" where
  "CheckpointCount cache = length (checkpoint_entries cache)"

definition RecordDeferredMatches :: "nat \<Rightarrow> PrefixCache \<Rightarrow> PrefixCache" where
  "RecordDeferredMatches n = count_metrics (\<lambda>m. m\<lparr>deferred_matches := deferred_matches m + of_nat n\<rparr>)"

definition RecordPublicationRefusal :: "PrefixCache \<Rightarrow> PrefixCache" where
  "RecordPublicationRefusal = count_metrics (\<lambda>m. m\<lparr>publication_refusals := publication_refusals m + 1\<rparr>)"

text \<open>The constructor registers the index as the observer of the pool, under the address of the index.\<close>

definition new_prefix_cache :: "PrefixCacheOptions \<Rightarrow> nat \<Rightarrow> BlockPool \<Rightarrow> prefix_error + BlockPool \<times> PrefixCache" where
  "new_prefix_cache opts self pool =
     bind_result (pool_result (SetReferenceObserver (Some self) pool)) (\<lambda>pool1.
       Inr (pool1, \<lparr>options = opts, entries = replicate (pool_capacity pool) None, entries_by_hash = [], recency = [],
         referenced_entries = [], reclaimable_entries = [], checkpoint_entries = [], metrics = zero_metrics,
         next_identity = 0\<rparr>))"

section \<open>Looking entries up\<close>

text \<open>The entry of an id, for ids that have one.\<close>

definition entry_at :: "PrefixCache \<Rightarrow> nat \<Rightarrow> Entry option" where
  "entry_at cache i = (if i < length (entries cache) then entries cache ! i else None)"

definition set_entry :: "nat \<Rightarrow> Entry \<Rightarrow> PrefixCache \<Rightarrow> PrefixCache" where
  "set_entry i e cache = cache\<lparr>entries := (entries cache)[i := Some e]\<rparr>"

definition same_identity :: "BlockIdentity option \<Rightarrow> BlockIdentity option \<Rightarrow> bool" where
  "same_identity a b \<longleftrightarrow> map_option identity_address a = map_option identity_address b"

definition FindEntry :: "PrefixCache \<Rightarrow> BlockIdentity option \<Rightarrow> nat option" where
  "FindEntry cache ident = (case ident of
     None \<Rightarrow> None
   | Some i \<Rightarrow> (case entry_at cache (identity_block_id i) of
        None \<Rightarrow> None
      | Some e \<Rightarrow> if identity_address (entry_identity e) = identity_address i then Some (identity_block_id i) else None))"

definition FindPhysical :: "PrefixCache \<Rightarrow> u64 \<Rightarrow> BlockIdentity option \<Rightarrow> token list \<Rightarrow> nat option" where
  "FindPhysical cache hash parent tokens =
     map_option snd (find (\<lambda>(h, i). h = hash \<and> (case entry_at cache i of
        None \<Rightarrow> False
      | Some e \<Rightarrow> same_identity (identity_parent (entry_identity e)) parent \<and> Tokens (entry_identity e) = tokens))
       (entries_by_hash cache))"

definition has_hash :: "PrefixCache \<Rightarrow> u64 \<Rightarrow> bool" where
  "has_hash cache hash \<longleftrightarrow> hash \<in> fst ` set (entries_by_hash cache)"

text \<open>The blocks on the path of an endpoint, or none when the path is not retained or spells other tokens.\<close>

fun path_blocks :: "PrefixCache \<Rightarrow> BlockPool \<Rightarrow> nat \<Rightarrow> BlockIdentity option \<Rightarrow> token list \<Rightarrow> bptr list option" where
  "path_blocks cache pool 0 ident tokens = (if ident = None then Some [] else None)"
| "path_blocks cache pool (Suc remaining) ident tokens =
     (case FindEntry cache ident of
        None \<Rightarrow> None
      | Some i \<Rightarrow>
          let block = entry_block (the (entry_at cache i)); bs = pool_block_size pool in
          if \<not> IsFull (pool_store pool block) then None
          else if tokens \<noteq> [] \<and> Tokens (the ident) \<noteq> take bs (drop (remaining * bs) tokens) then None
          else map_option (\<lambda>blocks. blocks @ [block]) (path_blocks cache pool remaining (identity_parent (the ident)) tokens))"

definition HasRetainedPhysicalPath ::
  "PrefixCache \<Rightarrow> BlockPool \<Rightarrow> Entry \<Rightarrow> nat \<Rightarrow> token list \<Rightarrow> bptr list option" where
  "HasRetainedPhysicalPath cache pool endpoint block_count tokens =
     (if tokens \<noteq> [] \<and> (length tokens mod pool_block_size pool \<noteq> 0 \<or> length tokens div pool_block_size pool \<noteq> block_count)
      then None
      else path_blocks cache pool block_count (Some (entry_identity endpoint)) tokens)"

section \<open>Matching\<close>

text \<open>
  The loop over the blocks of a prompt: the blocks found, and whether it ended at an occupied hash of other contents.
\<close>

fun match_loop ::
  "PrefixCache \<Rightarrow> BlockPool \<Rightarrow> u64 \<Rightarrow> BlockIdentity option \<Rightarrow> nat \<Rightarrow> token list \<Rightarrow> bptr list \<times> bool" where
  "match_loop cache pool parent_hash parent 0 tokens = ([], False)"
| "match_loop cache pool parent_hash parent (Suc n) tokens =
     (let chunk = take (pool_block_size pool) tokens;
          hash = Hash cache parent_hash chunk
      in case FindPhysical cache hash parent chunk of
           None \<Rightarrow> ([], has_hash cache hash)
         | Some i \<Rightarrow>
             let e = the (entry_at cache i) in
             if \<not> IsFull (pool_store pool (entry_block e)) then ([], False)
             else let (blocks, collision) =
                        match_loop cache pool hash (Some (entry_identity e)) n (drop (pool_block_size pool) tokens)
                  in (entry_block e # blocks, collision))"

text \<open>The scan over the checkpoint endpoints, most recently used first; a longer prefix replaces a shorter one.\<close>

fun match_endpoints ::
  "CheckpointOwners \<Rightarrow> PrefixCache \<Rightarrow> BlockPool \<Rightarrow> token list \<Rightarrow> nat \<Rightarrow> nat list \<Rightarrow> PrefixCacheMatch
   \<Rightarrow> prefix_error + PrefixCacheMatch" where
  "match_endpoints owners cache pool tokens adoptable [] m = Inr m"
| "match_endpoints owners cache pool tokens adoptable (i # endpoints) m =
     (case entry_at cache i of
        None \<Rightarrow> Inl CacheTerminated
      | Some e \<Rightarrow> (case entry_checkpoint e of
          None \<Rightarrow> Inl CacheTerminated
        | Some checkpoint \<Rightarrow>
            let token_count = checkpoint_token_count checkpoint in
            if token_count > adoptable \<or> token_count \<le> match_token_count m
            then match_endpoints owners cache pool tokens adoptable endpoints m
            else (case HasRetainedPhysicalPath cache pool e (token_count div pool_block_size pool) (take token_count tokens) of
                None \<Rightarrow> match_endpoints owners cache pool tokens adoptable endpoints m
              | Some blocks \<Rightarrow>
                  match_endpoints owners cache pool tokens adoptable endpoints
                    \<lparr>match_token_count = token_count, match_blocks = blocks, match_checkpoint = Some checkpoint,
                     match_draft_checkpoint = (case entry_draft_checkpoint e of
                        None \<Rightarrow> None
                      | Some d \<Rightarrow> if draft_evicted owners (draft_address d) then None else Some d)\<rparr>)))"

definition Match ::
  "CheckpointOwners \<Rightarrow> token list \<Rightarrow> nat \<Rightarrow> BlockPool \<Rightarrow> PrefixCache \<Rightarrow> prefix_error + PrefixCacheMatch \<times> PrefixCache" where
  "Match owners tokens max_adoptable_tokens pool cache =
     (let bs = pool_block_size pool in
      if \<not> Enabled cache \<or> bs = 0 then Inr (no_match, cache)
      else
        let adoptable = min max_adoptable_tokens (length tokens) div bs * bs;
            cache1 = count_metrics (\<lambda>m. m\<lparr>lookups := lookups m + 1, queried_tokens := queried_tokens m + of_nat adoptable\<rparr>) cache;
            found = count_metrics (\<lambda>m. m\<lparr>matches := matches m + 1\<rparr>)
        in if requires_checkpoint (options cache)
           then bind_result (match_endpoints owners cache pool tokens adoptable (rev (checkpoint_entries cache)) no_match) (\<lambda>m.
                  if match_checkpoint m = None then Inr (no_match, cache1) else Inr (m, found cache1))
           else
             let (blocks, collision) = match_loop cache pool RootHash None (adoptable div bs) tokens;
                 cache2 = (if collision then count_metrics (\<lambda>m. m\<lparr>hash_collisions := hash_collisions m + 1\<rparr>) cache1 else cache1)
             in if blocks = [] then Inr (no_match, cache2)
                else Inr (no_match\<lparr>match_token_count := length blocks * bs, match_blocks := blocks\<rparr>, found cache2))"

section \<open>Order and reference states\<close>

fun insert_before :: "nat \<Rightarrow> nat \<Rightarrow> nat list \<Rightarrow> nat list" where
  "insert_before q x [] = [x]"
| "insert_before q x (y # ys) = (if y = q then x # y # ys else y # insert_before q x ys)"

definition is_reclaimable :: "PrefixCache \<Rightarrow> nat \<Rightarrow> bool" where
  "is_reclaimable cache i \<longleftrightarrow> (case entry_at cache i of None \<Rightarrow> False | Some e \<Rightarrow> reclaimable e)"

text \<open>Moves an id inside the list, as \<open>splice\<close> of its own node does.\<close>

definition move_before :: "nat \<Rightarrow> nat \<Rightarrow> nat list \<Rightarrow> nat list" where
  "move_before q x xs = insert_before q x (remove1 x xs)"

definition move_to_end :: "nat \<Rightarrow> nat list \<Rightarrow> nat list" where
  "move_to_end x xs = remove1 x xs @ [x]"

definition move_to_front :: "nat \<Rightarrow> nat list \<Rightarrow> nat list" where
  "move_to_front x xs = x # remove1 x xs"

definition Reorder :: "nat \<Rightarrow> BlockIdentity option \<Rightarrow> PrefixCache \<Rightarrow> PrefixCache" where
  "Reorder i parent cache =
     (let on_reclaimable = (\<lambda>f c. if is_reclaimable cache i then c\<lparr>reclaimable_entries := f (reclaimable_entries c)\<rparr> else c)
      in case parent of
           None \<Rightarrow> on_reclaimable (move_to_end i) (cache\<lparr>recency := move_to_end i (recency cache)\<rparr>)
         | Some _ \<Rightarrow> (case FindEntry cache parent of
             None \<Rightarrow> on_reclaimable (move_to_front i) (cache\<lparr>recency := move_to_front i (recency cache)\<rparr>)
           | Some q \<Rightarrow> on_reclaimable (if is_reclaimable cache q then move_before q i else move_to_end i)
                         (cache\<lparr>recency := move_before q i (recency cache)\<rparr>)))"

text \<open>\<open>PromoteCheckpoint\<close> rotates the endpoint to the end.\<close>

definition PromoteCheckpoint :: "nat \<Rightarrow> PrefixCache \<Rightarrow> PrefixCache" where
  "PromoteCheckpoint i cache =
     (if i \<in> set (checkpoint_entries cache) then cache\<lparr>checkpoint_entries := move_to_end i (checkpoint_entries cache)\<rparr> else cache)"

definition OnBlockBecameReferenced :: "bptr \<Rightarrow> nat \<Rightarrow> PrefixCache \<Rightarrow> prefix_error + PrefixCache" where
  "OnBlockBecameReferenced block cookie cache = (case entry_at cache cookie of
     None \<Rightarrow> Inl CacheTerminated
   | Some e \<Rightarrow>
       if entry_block e \<noteq> block \<or> \<not> reclaimable e then Inl CacheTerminated
       else Inr ((set_entry cookie (e\<lparr>reclaimable := False, promote_on_release := False\<rparr>) cache)
              \<lparr>referenced_entries := referenced_entries cache @ [cookie],
               reclaimable_entries := remove1 cookie (reclaimable_entries cache)\<rparr>))"

text \<open>Where a block that lost its last request enters the reclaim order.\<close>

definition reclaim_position :: "nat \<Rightarrow> Entry \<Rightarrow> PrefixCache \<Rightarrow> nat list \<Rightarrow> nat list" where
  "reclaim_position i e cache =
     (if promote_on_release e then
        (case parent_block_id e of
           None \<Rightarrow> (\<lambda>xs. xs @ [i])
         | Some q \<Rightarrow> (case entry_at cache q of
             None \<Rightarrow> (\<lambda>xs. i # xs)
           | Some parent \<Rightarrow>
               if \<not> same_identity (Some (entry_identity parent)) (identity_parent (entry_identity e)) then (\<lambda>xs. i # xs)
               else if reclaimable parent then insert_before q i else (\<lambda>xs. xs @ [i])))
      else (case filter (is_reclaimable cache) (tl (dropWhile (\<lambda>x. x \<noteq> i) (recency cache))) of
              [] \<Rightarrow> (\<lambda>xs. xs @ [i])
            | next # _ \<Rightarrow> insert_before next i))"

definition OnBlockBecameReclaimable :: "bptr \<Rightarrow> nat \<Rightarrow> PrefixCache \<Rightarrow> prefix_error + PrefixCache" where
  "OnBlockBecameReclaimable block cookie cache = (case entry_at cache cookie of
     None \<Rightarrow> Inl CacheTerminated
   | Some e \<Rightarrow>
       if entry_block e \<noteq> block \<or> reclaimable e then Inl CacheTerminated
       else Inr ((set_entry cookie (e\<lparr>reclaimable := True, promote_on_release := True\<rparr>) cache)
              \<lparr>reclaimable_entries := reclaim_position cookie e cache (reclaimable_entries cache),
               referenced_entries := remove1 cookie (referenced_entries cache)\<rparr>))"

text \<open>The notifications that an operation of the pool recorded, in order.\<close>

definition notice :: "observer_event \<Rightarrow> PrefixCache \<Rightarrow> prefix_error + PrefixCache" where
  "notice e cache = (case e of
     BecameReferenced block cookie \<Rightarrow> OnBlockBecameReferenced block cookie cache
   | BecameReclaimable block cookie \<Rightarrow> OnBlockBecameReclaimable block cookie cache)"

definition observed ::
  "(BlockPool \<Rightarrow> pool_error + BlockPool) \<Rightarrow> BlockPool \<times> PrefixCache \<Rightarrow> prefix_error + BlockPool \<times> PrefixCache" where
  "observed operation w =
     bind_result (pool_result (operation (fst w))) (\<lambda>pool.
     bind_result (run_result notice (drop (length (observer_events (fst w))) (observer_events pool)) (snd w)) (\<lambda>cache.
       Inr (pool, cache)))"

section \<open>Eviction and reclaiming\<close>

definition Evict :: "nat \<Rightarrow> BlockPool \<times> PrefixCache \<Rightarrow> prefix_error + BlockPool \<times> PrefixCache" where
  "Evict i w =
     (case w of (pool, cache) \<Rightarrow>
      case entry_at cache i of
        None \<Rightarrow> Inl CacheTerminated
      | Some e \<Rightarrow>
          if entry_checkpoint e \<noteq> None \<and> i \<notin> set (checkpoint_entries cache) then Inl CacheTerminated
          else
            let c1 = (if entry_checkpoint e \<noteq> None then cache\<lparr>checkpoint_entries := remove1 i (checkpoint_entries cache)\<rparr> else cache);
                c2 = (if reclaimable e then c1\<lparr>reclaimable_entries := remove1 i (reclaimable_entries c1)\<rparr>
                      else c1\<lparr>referenced_entries := remove1 i (referenced_entries c1)\<rparr>);
                c3 = c2\<lparr>recency := remove1 i (recency c2), entries := (entries c2)[i := None],
                        entries_by_hash := remove1 (identity_hash (entry_identity e), i) (entries_by_hash c2)\<rparr>
            in bind_result (pool_result (ClearReferenceObserverCookie (Some (entry_block e)) pool)) (\<lambda>pool1.
                 observed (Release (Some (entry_block e))) (modify_block (entry_block e) ClearIdentity pool1, c3)))"

definition IsCheckpointUnleased :: "CheckpointOwners \<Rightarrow> Entry \<Rightarrow> bool" where
  "IsCheckpointUnleased owners e \<longleftrightarrow>
     (case entry_checkpoint e of None \<Rightarrow> False | Some c \<Rightarrow> checkpoint_use_count owners (checkpoint_address c) = 1)
     \<and> (case entry_draft_checkpoint e of None \<Rightarrow> True | Some d \<Rightarrow> draft_use_count owners (draft_address d) = 1)"

definition is_leased :: "CheckpointOwners \<Rightarrow> Entry \<Rightarrow> bool" where
  "is_leased owners e \<longleftrightarrow>
     \<not> ((case entry_checkpoint e of None \<Rightarrow> True | Some c \<Rightarrow> checkpoint_use_count owners (checkpoint_address c) = 1)
        \<and> (case entry_draft_checkpoint e of None \<Rightarrow> True | Some d \<Rightarrow> draft_use_count owners (draft_address d) = 1))"

text \<open>The marks on the retained ancestry of a leased endpoint, and the number of reclaimable entries among them.\<close>

function mark_path :: "PrefixCache \<Rightarrow> BlockIdentity option \<Rightarrow> bool list \<times> nat \<Rightarrow> bool list \<times> nat" where
  "mark_path cache None st = st"
| "mark_path cache (Some i) st =
     (case FindEntry cache (Some i) of
        None \<Rightarrow> mark_path cache (identity_parent i) st
      | Some q \<Rightarrow>
          if fst st ! q then st
          else mark_path cache (identity_parent i)
                 ((fst st)[q := True], snd st + (if is_reclaimable cache q then 1 else 0)))"
  by pat_completeness auto
termination
proof (relation "measure (\<lambda>(_, i, _). size_option size i)", goal_cases)
  case (2 cache i st)
  then show ?case by (cases i) simp
next
  case (3 cache i st q)
  then show ?case by (cases i) simp
qed simp

definition MarkLeasedReclaimableBlocks :: "CheckpointOwners \<Rightarrow> PrefixCache \<Rightarrow> bool list \<times> nat" where
  "MarkLeasedReclaimableBlocks owners cache =
     (let none = (replicate (length (entries cache)) False, 0) in
      if reclaimable_entries cache = [] then none
      else fold (\<lambda>i st. case entry_at cache i of
                   None \<Rightarrow> st
                 | Some e \<Rightarrow> if is_leased owners e then mark_path cache (Some (entry_identity e)) st else st)
             (checkpoint_entries cache) none)"

definition is_protected :: "bool list \<times> nat \<Rightarrow> nat \<Rightarrow> bool" where
  "is_protected marks i \<longleftrightarrow> snd marks \<noteq> 0 \<and> fst marks ! i"

fun reclaim_loop ::
  "bool list \<times> nat \<Rightarrow> nat \<Rightarrow> nat list \<Rightarrow> BlockPool \<times> PrefixCache \<Rightarrow> prefix_error + nat \<times> BlockPool \<times> PrefixCache" where
  "reclaim_loop marks blocks_needed [] w = Inr (0, w)"
| "reclaim_loop marks blocks_needed (i # candidates) w =
     (if blocks_needed = 0 then Inr (0, w)
      else case entry_at (snd w) i of
        None \<Rightarrow> Inl ReclaimUnknownIdentity
      | Some e \<Rightarrow>
          if \<not> reclaimable e \<or> ref_count (pool_store (fst w) (entry_block e)) \<noteq> 1 then Inl ReclaimableOrderInvalid
          else if is_protected marks i then reclaim_loop marks blocks_needed candidates w
          else bind_result (Evict i w) (\<lambda>(pool1, cache1).
               bind_result (reclaim_loop marks (blocks_needed - 1) candidates
                   (pool1, count_metrics (\<lambda>m. m\<lparr>evictions := evictions m + 1\<rparr>) cache1)) (\<lambda>(n, w1).
                 Inr (n + 1, w1))))"

definition Reclaim ::
  "CheckpointOwners \<Rightarrow> nat \<Rightarrow> BlockPool \<times> PrefixCache \<Rightarrow> prefix_error + nat \<times> BlockPool \<times> PrefixCache" where
  "Reclaim owners blocks_needed w =
     (if blocks_needed = 0 then Inr (0, w)
      else reclaim_loop (MarkLeasedReclaimableBlocks owners (snd w)) blocks_needed (reclaimable_entries (snd w)) w)"

definition ReclaimableBlocks :: "CheckpointOwners \<Rightarrow> PrefixCache \<Rightarrow> nat" where
  "ReclaimableBlocks owners cache = length (reclaimable_entries cache) - snd (MarkLeasedReclaimableBlocks owners cache)"

definition ReclaimableBlockIds :: "CheckpointOwners \<Rightarrow> BlockPool \<Rightarrow> PrefixCache \<Rightarrow> bptr list \<Rightarrow> nat list" where
  "ReclaimableBlockIds owners pool cache blocks =
     (let marks = MarkLeasedReclaimableBlocks owners cache in
      filter (\<lambda>i. \<not> is_protected marks i)
        (map (\<lambda>p. block_id (pool_store pool p))
          (filter (\<lambda>p. case entry_at cache (block_id (pool_store pool p)) of
                     None \<Rightarrow> False | Some e \<Rightarrow> entry_block e = p \<and> reclaimable e) blocks)))"

section \<open>Registration\<close>

text \<open>The identity that a block gets.\<close>

definition make_identity :: "PrefixCache \<Rightarrow> u64 \<Rightarrow> nat \<Rightarrow> token list \<Rightarrow> BlockIdentity option \<Rightarrow> BlockIdentity" where
  "make_identity cache hash bid tokens parent =
     (if requires_checkpoint (options cache) \<or> max_checkpoints (options cache) \<noteq> 0
      then BlockIdentity (next_identity cache) hash bid parent []
             (Some (LogicalPrefixIdentity hash (case parent of None \<Rightarrow> None | Some p \<Rightarrow> identity_logical p) tokens))
      else BlockIdentity (next_identity cache) hash bid parent tokens None)"

text \<open>The new entry sits before its parent in the order of use.\<close>

definition index_block ::
  "u64 \<Rightarrow> bptr \<Rightarrow> token list \<Rightarrow> BlockIdentity option \<Rightarrow> BlockPool \<times> PrefixCache
   \<Rightarrow> prefix_error + BlockIdentity \<times> BlockPool \<times> PrefixCache" where
  "index_block hash block tokens parent w =
     (case w of (pool, cache) \<Rightarrow>
      let bid = block_id (pool_store pool block);
          ident = make_identity cache hash bid tokens parent;
          parent_entry = FindEntry cache parent;
          e = \<lparr>entry_block = block, entry_identity = ident, entry_checkpoint = None, entry_draft_checkpoint = None,
               parent_block_id = parent_entry, reclaimable = False, promote_on_release = True\<rparr>
      in if entry_at cache bid \<noteq> None then Inl IdentityOccupied
         else
           let cache1 = (set_entry bid e cache)
                 \<lparr>next_identity := next_identity cache + 1,
                  recency := (case parent_entry of None \<Rightarrow> recency cache @ [bid] | Some q \<Rightarrow> insert_before q bid (recency cache)),
                  referenced_entries := referenced_entries cache @ [bid],
                  entries_by_hash := entries_by_hash cache @ [(hash, bid)]\<rparr>
           in bind_result (observed (AddRef (Some block)) (pool, cache1)) (\<lambda>(pool1, cache2).
              bind_result (pool_result (SetIdentity (Some ident) (pool_store pool1 block))) (\<lambda>b.
              bind_result (pool_result (SetReferenceObserverCookie (Some block) (Some bid) (put_block block b pool1))) (\<lambda>pool2.
                Inr (ident, pool2, cache2)))))"

definition Register ::
  "CheckpointOwners \<Rightarrow> bptr option \<Rightarrow> token list \<Rightarrow> BlockIdentity option \<Rightarrow> BlockPool \<times> PrefixCache
   \<Rightarrow> prefix_error + PrefixCacheRegistration \<times> BlockPool \<times> PrefixCache" where
  "Register owners handle tokens parent w =
     (let (pool, cache) = w;
          refused = (\<lambda>status count. Inr (\<lparr>registration_status = status, registration_identity = None\<rparr>, pool, count_metrics count cache))
      in if \<not> Enabled cache then refused CapacityRefused id
         else case handle of
           None \<Rightarrow> Inl IndexNullBlock
         | Some block \<Rightarrow>
             let b = pool_store pool block in
             if \<not> IsFull b \<or> length tokens \<noteq> block_capacity b then Inl IndexPartialBlock
             else if HasIdentity b then Inr (\<lparr>registration_status = Indexed, registration_identity = identity b\<rparr>, w)
             else if \<not> Owns pool handle then Inl IndexUnownedBlock
             else
               let hash = Hash cache (case parent of None \<Rightarrow> RootHash | Some p \<Rightarrow> identity_hash p) tokens in
               case FindPhysical cache hash parent tokens of
                 Some existing \<Rightarrow>
                   Inr (\<lparr>registration_status = Duplicate, registration_identity = None\<rparr>, pool,
                     Reorder existing parent (count_metrics (\<lambda>m. m\<lparr>duplicate_registrations := duplicate_registrations m + 1\<rparr>) cache))
               | None \<Rightarrow>
                   if has_hash cache hash
                   then refused HashCollision (\<lambda>m. m\<lparr>hash_collisions := hash_collisions m + 1\<rparr>)
                   else
                     bind_result (if IndexedBlocks cache \<ge> max_blocks (options cache) then Reclaim owners 1 w else Inr (1, w)) (\<lambda>(n, w1).
                       if n = 0
                       then Inr (\<lparr>registration_status = CapacityRefused, registration_identity = None\<rparr>, fst w1,
                              count_metrics (\<lambda>m. m\<lparr>retention_refusals := retention_refusals m + 1\<rparr>) (snd w1))
                       else bind_result (index_block hash block tokens parent w1) (\<lambda>(ident, pool2, cache2).
                              Inr (\<lparr>registration_status = Indexed, registration_identity = Some ident\<rparr>, pool2,
                                count_metrics (\<lambda>m. m\<lparr>registered_blocks := registered_blocks m + 1\<rparr>) cache2))))"

section \<open>Adoption and checkpoints\<close>

fun adopt_entries :: "bptr list \<Rightarrow> BlockPool \<Rightarrow> PrefixCache \<Rightarrow> prefix_error + PrefixCache" where
  "adopt_entries [] pool cache = Inr cache"
| "adopt_entries (p # blocks) pool cache =
     (case identity (pool_store pool p) of
        None \<Rightarrow> Inl CacheTerminated
      | Some ident \<Rightarrow> (case FindEntry cache (Some ident) of
          None \<Rightarrow> Inl CacheTerminated
        | Some i \<Rightarrow>
            let e = the (entry_at cache i) in
            if entry_block e \<noteq> p then Inl CacheTerminated
            else adopt_entries blocks pool
                   (PromoteCheckpoint i (Reorder i (identity_parent ident) (set_entry i (e\<lparr>promote_on_release := True\<rparr>) cache)))))"

definition RecordAdoption :: "bptr list \<Rightarrow> BlockPool \<Rightarrow> PrefixCache \<Rightarrow> prefix_error + PrefixCache" where
  "RecordAdoption blocks pool cache =
     (if blocks = [] then Inr cache
      else bind_result (adopt_entries blocks pool cache) (\<lambda>cache1.
        Inr (count_metrics (\<lambda>m. m\<lparr>hits := hits m + 1,
          matched_tokens := matched_tokens m + of_nat (length blocks * pool_block_size pool)\<rparr>) cache1)))"

text \<open>An identity and what it chains from, nearest first.\<close>

function ancestry :: "BlockIdentity option \<Rightarrow> BlockIdentity list" where
  "ancestry None = []"
| "ancestry (Some i) = i # ancestry (identity_parent i)"
  by pat_completeness auto
termination
proof (relation "measure (size_option size)", goal_cases)
  case (2 i)
  then show ?case by (cases i) simp
qed simp

definition HasCheckpointedDescendant :: "PrefixCache \<Rightarrow> nat \<Rightarrow> bool" where
  "HasCheckpointedDescendant cache ancestor = (case entry_at cache ancestor of
     None \<Rightarrow> False
   | Some a \<Rightarrow> list_ex (\<lambda>i. i \<noteq> ancestor \<and> (case entry_at cache i of
        None \<Rightarrow> False
      | Some e \<Rightarrow> list_ex (\<lambda>x. identity_address x = identity_address (entry_identity a))
                    (ancestry (identity_parent (entry_identity e))))) (checkpoint_entries cache))"

definition unleased_at :: "CheckpointOwners \<Rightarrow> PrefixCache \<Rightarrow> nat \<Rightarrow> bool" where
  "unleased_at owners cache i = (case entry_at cache i of None \<Rightarrow> False | Some e \<Rightarrow> IsCheckpointUnleased owners e)"

text \<open>The checkpoint to give up, by its address: the deepest on the path, an intermediate one, or the oldest.\<close>

definition ReclaimableCheckpoint :: "CheckpointOwners \<Rightarrow> PrefixCache \<Rightarrow> BlockIdentity option \<Rightarrow> nat option" where
  "ReclaimableCheckpoint owners cache current_path =
     (let on_path = List.map_filter (\<lambda>x. FindEntry cache (Some x)) (ancestry current_path);
          candidates = filter (unleased_at owners cache) on_path
            @ filter (\<lambda>i. unleased_at owners cache i \<and> HasCheckpointedDescendant cache i) (checkpoint_entries cache)
            @ filter (unleased_at owners cache) (checkpoint_entries cache)
      in case candidates of
           [] \<Rightarrow> None
         | i # _ \<Rightarrow> map_option checkpoint_address (entry_checkpoint (the (entry_at cache i))))"

definition ReclaimCheckpoint :: "CheckpointOwners \<Rightarrow> nat option \<Rightarrow> PrefixCache \<Rightarrow> bool \<times> PrefixCache" where
  "ReclaimCheckpoint owners checkpoint cache =
     (case checkpoint of
        None \<Rightarrow> (False, cache)
      | Some address \<Rightarrow>
          (case find (\<lambda>i. unleased_at owners cache i
                \<and> map_option checkpoint_address (entry_checkpoint (the (entry_at cache i))) = Some address) (checkpoint_entries cache) of
             None \<Rightarrow> (False, cache)
           | Some i \<Rightarrow>
               (True, (set_entry i ((the (entry_at cache i))\<lparr>entry_checkpoint := None, entry_draft_checkpoint := None\<rparr>) cache)
                  \<lparr>checkpoint_entries := remove1 i (checkpoint_entries cache)\<rparr>)))"

fun ReclaimCheckpoints :: "CheckpointOwners \<Rightarrow> nat \<Rightarrow> PrefixCache \<Rightarrow> nat \<times> PrefixCache" where
  "ReclaimCheckpoints owners 0 cache = (0, cache)"
| "ReclaimCheckpoints owners (Suc n) cache =
     (case ReclaimCheckpoint owners (ReclaimableCheckpoint owners cache None) cache of
        (False, _) \<Rightarrow> (0, cache)
      | (True, cache1) \<Rightarrow> (case ReclaimCheckpoints owners n cache1 of (k, cache2) \<Rightarrow> (k + 1, cache2)))"

definition ReclaimableCheckpoints :: "CheckpointOwners \<Rightarrow> PrefixCache \<Rightarrow> nat" where
  "ReclaimableCheckpoints owners cache = length (filter (unleased_at owners cache) (checkpoint_entries cache))"

definition CanAttachCheckpoint :: "PrefixCache \<Rightarrow> BlockIdentity option \<Rightarrow> bool" where
  "CanAttachCheckpoint cache ident \<longleftrightarrow>
     Enabled cache \<and> ident \<noteq> None \<and> max_checkpoints (options cache) \<noteq> 0
     \<and> (case FindEntry cache ident of None \<Rightarrow> False | Some i \<Rightarrow> entry_checkpoint (the (entry_at cache i)) = None)"

definition AttachCheckpoint ::
  "CheckpointOwners \<Rightarrow> BlockIdentity option \<Rightarrow> FixedStatePrefixCheckpoint option \<Rightarrow> BlockPool \<Rightarrow> PrefixCache
   \<Rightarrow> prefix_error + bool \<times> PrefixCache" where
  "AttachCheckpoint owners ident checkpoint pool cache =
     (if ident = None \<or> checkpoint = None then Inl CheckpointNeedsIdentity
      else case FindEntry cache ident of
        None \<Rightarrow> Inr (False, cache)
      | Some i \<Rightarrow>
          if entry_checkpoint (the (entry_at cache i)) \<noteq> None then Inr (True, cache)
          else if checkpoint_token_count (the checkpoint) \<noteq> length (ancestry ident) * pool_block_size pool
          then Inl CheckpointBoundaryMismatch
          else
            let (n, cache1) = (if CheckpointCount cache \<ge> max_checkpoints (options cache)
                               then ReclaimCheckpoints owners 1 cache else (1, cache))
            in if n = 0 then Inr (False, cache1)
               else
                 let e = the (entry_at cache1 i);
                     cache2 = (set_entry i (e\<lparr>entry_checkpoint := checkpoint\<rparr>) cache1)
                                \<lparr>checkpoint_entries := checkpoint_entries cache1 @ [i]\<rparr>
                 in Inr (True, Reorder i (identity_parent (entry_identity e)) cache2))"

definition CanAttachDraftCheckpoint :: "CheckpointOwners \<Rightarrow> PrefixCache \<Rightarrow> BlockIdentity option \<Rightarrow> nat \<Rightarrow> bool" where
  "CanAttachDraftCheckpoint owners cache ident token_count \<longleftrightarrow>
     Enabled cache \<and> ident \<noteq> None
     \<and> (case FindEntry cache ident of
          None \<Rightarrow> False
        | Some i \<Rightarrow>
            let e = the (entry_at cache i) in
            (case entry_checkpoint e of None \<Rightarrow> False | Some c \<Rightarrow> checkpoint_token_count c = token_count)
            \<and> (case entry_draft_checkpoint e of None \<Rightarrow> True | Some d \<Rightarrow> draft_evicted owners (draft_address d)))"

definition DraftBoundary :: "CheckpointOwners \<Rightarrow> PrefixCache \<Rightarrow> BlockIdentity option \<Rightarrow> nat \<Rightarrow> FixedStatePrefixCheckpoint option" where
  "DraftBoundary owners cache ident token_count =
     (if CanAttachDraftCheckpoint owners cache ident token_count
      then entry_checkpoint (the (entry_at cache (the (FindEntry cache ident)))) else None)"

definition AttachDraftCheckpoint ::
  "CheckpointOwners \<Rightarrow> BlockIdentity option \<Rightarrow> FixedStatePrefixCheckpoint option \<Rightarrow> Dflash2PrefixCheckpoint option
   \<Rightarrow> PrefixCache \<Rightarrow> bool \<times> PrefixCache" where
  "AttachDraftCheckpoint owners ident fixed_checkpoint draft cache =
     (case (draft, fixed_checkpoint) of
        (Some d, Some c) \<Rightarrow>
          if \<not> CanAttachDraftCheckpoint owners cache ident (draft_checkpoint_token_count d) then (False, cache)
          else (case FindEntry cache ident of
              None \<Rightarrow> (False, cache)
            | Some i \<Rightarrow>
                let e = the (entry_at cache i) in
                if map_option checkpoint_address (entry_checkpoint e) \<noteq> Some (checkpoint_address c) then (False, cache)
                else (True, set_entry i (e\<lparr>entry_draft_checkpoint := draft\<rparr>) cache))
      | _ \<Rightarrow> (False, cache))"

definition DropUnleasedDraftCheckpoints :: "CheckpointOwners \<Rightarrow> PrefixCache \<Rightarrow> PrefixCache" where
  "DropUnleasedDraftCheckpoints owners cache =
     cache\<lparr>entries := map (map_option (\<lambda>e. case entry_draft_checkpoint e of
        Some d \<Rightarrow> if draft_use_count owners (draft_address d) = 1 then e\<lparr>entry_draft_checkpoint := None\<rparr> else e
      | None \<Rightarrow> e)) (entries cache)\<rparr>"

text \<open>The destructor gives every reference of the index back.\<close>

fun release_entries :: "Entry option list \<Rightarrow> BlockPool \<Rightarrow> prefix_error + BlockPool" where
  "release_entries [] pool = Inr pool"
| "release_entries (None # es) pool = release_entries es pool"
| "release_entries (Some e # es) pool =
     bind_result (pool_result (ClearReferenceObserverCookie (Some (entry_block e)) pool)) (\<lambda>pool1.
     bind_result (pool_result (Release (Some (entry_block e)) (modify_block (entry_block e) ClearIdentity pool1))) (release_entries es))"

definition destroy_prefix_cache :: "BlockPool \<times> PrefixCache \<Rightarrow> prefix_error + BlockPool" where
  "destroy_prefix_cache w =
     bind_result (pool_result (SetReferenceObserver None (fst w))) (release_entries (entries (snd w)))"

end
