(* ===== verification/Prefix_Retention.thy ===== *)
theory Prefix_Retention
  imports Prefix_Cache
begin

text \<open>
  The invariant of the prefix index together with its block pool, and that every operation of the index and of its clients
  keeps it. The clients' references are a count per block; the identities handed out are a set.
\<close>

section \<open>The invariant\<close>

lemma set_insert_before [simp]: "set (insert_before q x xs) = insert x (set xs)"
  by (induction xs) auto

lemma distinct_insert_before [simp]: "distinct (insert_before q x xs) \<longleftrightarrow> x \<notin> set xs \<and> distinct xs"
  by (induction xs) auto

lemma length_insert_before [simp]: "length (insert_before q x xs) = Suc (length xs)"
  by (induction xs) auto

lemma moved_simps [simp]:
  "distinct xs \<Longrightarrow> x \<in> set xs \<Longrightarrow> set (move_before q x xs) = set xs"
  "distinct xs \<Longrightarrow> x \<in> set xs \<Longrightarrow> set (move_to_end x xs) = set xs"
  "distinct xs \<Longrightarrow> x \<in> set xs \<Longrightarrow> set (move_to_front x xs) = set xs"
  "distinct xs \<Longrightarrow> distinct (move_before q x xs)"
  "distinct xs \<Longrightarrow> distinct (move_to_end x xs)"
  "distinct xs \<Longrightarrow> distinct (move_to_front x xs)"
  by (auto simp: move_before_def move_to_end_def move_to_front_def)

lemma entry_at_simps [simp]:
  "entry_at (set_entry i e c) j = (if j = i \<and> i < length (entries c) then Some e else entry_at c j)"
  "entry_at (c\<lparr>recency := a\<rparr>) = entry_at c" "entry_at (c\<lparr>referenced_entries := a\<rparr>) = entry_at c"
  "entry_at (c\<lparr>reclaimable_entries := a\<rparr>) = entry_at c" "entry_at (c\<lparr>checkpoint_entries := a\<rparr>) = entry_at c"
  "entry_at (c\<lparr>entries_by_hash := b\<rparr>) = entry_at c" "entry_at (c\<lparr>metrics := m\<rparr>) = entry_at c"
  "entry_at (c\<lparr>next_identity := n\<rparr>) = entry_at c"
  by (auto simp: entry_at_def set_entry_def fun_eq_iff)

lemma entry_at_lt: "entry_at c i = Some e \<Longrightarrow> i < length (entries c)"
  by (auto simp: entry_at_def split: if_splits)

lemma entry_at_clear [simp]: "entry_at (c\<lparr>entries := (entries c)[i := None]\<rparr>) j = (if j = i then None else entry_at c j)"
  by (auto simp: entry_at_def)

lemma set_entry_simps [simp]:
  "options (set_entry i e c) = options c" "length (entries (set_entry i e c)) = length (entries c)"
  "entries_by_hash (set_entry i e c) = entries_by_hash c" "recency (set_entry i e c) = recency c"
  "referenced_entries (set_entry i e c) = referenced_entries c" "reclaimable_entries (set_entry i e c) = reclaimable_entries c"
  "checkpoint_entries (set_entry i e c) = checkpoint_entries c" "next_identity (set_entry i e c) = next_identity c"
  by (simp_all add: set_entry_def)

text \<open>An entry and its block know each other; a block without an entry has no identity and no cookie.\<close>

definition indexed :: "BlockPool \<Rightarrow> nat \<Rightarrow> Entry \<Rightarrow> bool" where
  "indexed pool i e \<longleftrightarrow>
     (let b = pool_store pool (entry_block e) in
      pool_blocks pool ! i = Some (entry_block e) \<and> identity b = Some (entry_identity e) \<and> identity_block_id (entry_identity e) = i
      \<and> reference_observer_cookie b = Some i \<and> (reclaimable e \<longleftrightarrow> ref_count b = 1))"

definition blocks_ok :: "BlockPool \<Rightarrow> PrefixCache \<Rightarrow> bool" where
  "blocks_ok pool cache \<longleftrightarrow>
     length (entries cache) = pool_capacity pool \<and> reference_observer pool \<noteq> None
     \<and> (\<forall>i < pool_capacity pool. case entry_at cache i of
          Some e \<Rightarrow> indexed pool i e
        | None \<Rightarrow> (\<forall>p. pool_blocks pool ! i = Some p \<longrightarrow>
                     identity (pool_store pool p) = None \<and> reference_observer_cookie (pool_store pool p) = None))"

text \<open>The lists of an index hold the ids of the entries they should, once each, and a hash has one entry.\<close>

definition ids_where :: "(Entry \<Rightarrow> bool) \<Rightarrow> PrefixCache \<Rightarrow> nat set" where
  "ids_where P cache = {i. \<exists>e. entry_at cache i = Some e \<and> P e}"

definition lists_ok :: "PrefixCache \<Rightarrow> bool" where
  "lists_ok cache \<longleftrightarrow>
     distinct (recency cache) \<and> set (recency cache) = ids_where (\<lambda>_. True) cache
     \<and> distinct (reclaimable_entries cache) \<and> set (reclaimable_entries cache) = ids_where reclaimable cache
     \<and> distinct (referenced_entries cache) \<and> set (referenced_entries cache) = ids_where (\<lambda>e. \<not> reclaimable e) cache
     \<and> distinct (checkpoint_entries cache) \<and> set (checkpoint_entries cache) = ids_where (\<lambda>e. entry_checkpoint e \<noteq> None) cache
     \<and> distinct (map fst (entries_by_hash cache))
     \<and> set (entries_by_hash cache) = {(identity_hash (entry_identity e), i) | i e. entry_at cache i = Some e}"

text \<open>The identities handed out: closed under parents, told apart by their addresses, with hashes that chain.\<close>

definition identities_ok :: "BlockIdentity set \<Rightarrow> PrefixCache \<Rightarrow> bool" where
  "identities_ok S cache \<longleftrightarrow>
     (\<forall>x \<in> S. \<forall>p. identity_parent x = Some p \<longrightarrow> p \<in> S) \<and> inj_on identity_address S
     \<and> (\<forall>x \<in> S. identity_address x < next_identity cache
          \<and> identity_hash x = Hash cache (case identity_parent x of None \<Rightarrow> RootHash | Some p \<Rightarrow> identity_hash p) (Tokens x))
     \<and> (\<forall>i e. entry_at cache i = Some e \<longrightarrow> entry_identity e \<in> S)"

text \<open>A block is referenced by its clients and, when it is indexed, by the index.\<close>

definition refs_ok :: "(bptr \<Rightarrow> nat) \<Rightarrow> BlockPool \<Rightarrow> PrefixCache \<Rightarrow> bool" where
  "refs_ok held pool cache \<longleftrightarrow>
     (\<forall>p. if Owns pool (Some p)
          then ref_count (pool_store pool p) = held p + (if entry_at cache (block_id (pool_store pool p)) \<noteq> None then 1 else 0)
          else held p = 0)"

lemma refs_okD:
  assumes "refs_ok held pool cache"
  shows "Owns pool (Some p) \<Longrightarrow> ref_count (pool_store pool p) = held p + (if entry_at cache (block_id (pool_store pool p)) \<noteq> None then 1 else 0)"
    and "\<not> Owns pool (Some p) \<Longrightarrow> held p = 0"
  using assms spec[of _ p] unfolding refs_ok_def by presburger+

definition wf_cache :: "(bptr \<Rightarrow> nat) \<Rightarrow> BlockIdentity set \<Rightarrow> BlockPool \<times> PrefixCache \<Rightarrow> bool" where
  "wf_cache held S w \<longleftrightarrow> wf_pool (fst w) \<and> blocks_ok (fst w) (snd w) \<and> lists_ok (snd w) \<and> identities_ok S (snd w)
     \<and> refs_ok held (fst w) (snd w) \<and> IndexedBlocks (snd w) \<le> max_blocks (options (snd w))"

lemma wf_cacheD [wf_dests]:
  assumes "wf_cache held S (pool, cache)"
  shows "wf_pool pool" and "blocks_ok pool cache" and "lists_ok cache" and "identities_ok S cache" and "refs_ok held pool cache"
    and "IndexedBlocks cache \<le> max_blocks (options cache)"
  using assms by (simp_all add: wf_cache_def)

text \<open>The block of an entry.\<close>

lemma entry_block_facts:
  assumes "wf_pool pool" and "blocks_ok pool cache" and "entry_at cache i = Some e"
  shows "indexed pool i e" and "i < pool_capacity pool" and "block_id (pool_store pool (entry_block e)) = i"
    and "Owns pool (Some (entry_block e))" and "IsFull (pool_store pool (entry_block e))"
    and "identity (pool_store pool (entry_block e)) = Some (entry_identity e)"
    and "length (Tokens (entry_identity e)) = pool_block_size pool" and "identity_block_id (entry_identity e) = i"
proof -
  show i: "i < pool_capacity pool" using entry_at_lt[OF assms(3)] assms(2) by (simp add: blocks_ok_def)
  then show ix: "indexed pool i e" using assms(2,3) by (auto simp: blocks_ok_def split: option.splits)
  then have p: "pool_blocks pool ! i = Some (entry_block e)" by (simp add: indexed_def Let_def)
  have wb: "wf_block (pool_block_size pool) i (pool_store pool (entry_block e))" using wf_pool_slotD(2)[OF assms(1) i p] .
  show "block_id (pool_store pool (entry_block e)) = i" using wb by (simp add: wf_block_def)
  with p i show "Owns pool (Some (entry_block e))" by (simp add: Owns_def)
  show "identity (pool_store pool (entry_block e)) = Some (entry_identity e)" "identity_block_id (entry_identity e) = i"
    using ix by (simp_all add: indexed_def Let_def)
  with wb show "IsFull (pool_store pool (entry_block e))" "length (Tokens (entry_identity e)) = pool_block_size pool"
    by (auto simp: wf_block_def)
qed

lemma unindexed_block:
  "blocks_ok pool cache \<Longrightarrow> entry_at cache i = None \<Longrightarrow> i < pool_capacity pool \<Longrightarrow> pool_blocks pool ! i = Some p
    \<Longrightarrow> identity (pool_store pool p) = None \<and> reference_observer_cookie (pool_store pool p) = None"
  by (fastforce simp: blocks_ok_def split: option.splits)

lemma owned_entry:
  assumes "blocks_ok pool cache" and "Owns pool (Some p)" and "entry_at cache (block_id (pool_store pool p)) = Some e"
  shows "entry_block e = p"
  using assms by (auto simp: blocks_ok_def indexed_def Let_def Owns_def split: option.splits)

lemma cookie_entry:
  assumes "wf_pool pool" and "blocks_ok pool cache" and "Owns pool (Some p)"
  shows "reference_observer_cookie (pool_store pool p) = (if entry_at cache (block_id (pool_store pool p)) = None then None
    else Some (block_id (pool_store pool p)))"
  using assms OwnsD[OF assms(3)]
  by (auto simp: blocks_ok_def indexed_def Let_def split: option.splits)

section \<open>References of clients\<close>

text \<open>Two indexes with the same blocks under the same identities.\<close>

definition same_index :: "PrefixCache \<Rightarrow> PrefixCache \<Rightarrow> bool" where
  "same_index c c' \<longleftrightarrow> options c' = options c \<and> next_identity c' = next_identity c \<and> length (entries c') = length (entries c)
     \<and> (\<forall>i. map_option (\<lambda>e. (entry_block e, entry_identity e)) (entry_at c' i)
          = map_option (\<lambda>e. (entry_block e, entry_identity e)) (entry_at c i))"

lemma same_index_refl [simp]: "same_index c c"
  by (simp add: same_index_def)

lemma same_index_trans: "same_index a b \<Longrightarrow> same_index b c \<Longrightarrow> same_index a c"
  by (auto simp: same_index_def)

lemma same_index_entry:
  assumes "same_index c c'"
  shows "entry_at c' i = None \<longleftrightarrow> entry_at c i = None"
    and "entry_at c' i = Some e \<Longrightarrow> \<exists>e0. entry_at c i = Some e0 \<and> entry_block e0 = entry_block e \<and> entry_identity e0 = entry_identity e"
    and "entry_at c i = Some e \<Longrightarrow> \<exists>e0. entry_at c' i = Some e0 \<and> entry_block e0 = entry_block e \<and> entry_identity e0 = entry_identity e"
proof -
  have "map_option (\<lambda>e. (entry_block e, entry_identity e)) (entry_at c' i) = map_option (\<lambda>e. (entry_block e, entry_identity e)) (entry_at c i)"
    using assms by (simp add: same_index_def)
  then show "entry_at c' i = None \<longleftrightarrow> entry_at c i = None"
    and "entry_at c' i = Some e \<Longrightarrow> \<exists>e0. entry_at c i = Some e0 \<and> entry_block e0 = entry_block e \<and> entry_identity e0 = entry_identity e"
    and "entry_at c i = Some e \<Longrightarrow> \<exists>e0. entry_at c' i = Some e0 \<and> entry_block e0 = entry_block e \<and> entry_identity e0 = entry_identity e"
    by (cases "entry_at c' i"; cases "entry_at c i"; simp)+
qed

lemma ids_where_set_entry:
  "i < length (entries c) \<Longrightarrow> ids_where P (set_entry i e c) = (if P e then insert i (ids_where P c) else ids_where P c - {i})"
  by (auto simp: ids_where_def)

lemma ids_where_simps [simp]:
  "ids_where P (c\<lparr>recency := a\<rparr>) = ids_where P c" "ids_where P (c\<lparr>referenced_entries := a\<rparr>) = ids_where P c"
  "ids_where P (c\<lparr>reclaimable_entries := a\<rparr>) = ids_where P c" "ids_where P (c\<lparr>checkpoint_entries := a\<rparr>) = ids_where P c"
  "ids_where P (c\<lparr>entries_by_hash := b\<rparr>) = ids_where P c" "ids_where P (c\<lparr>metrics := m\<rparr>) = ids_where P c"
  "ids_where P (c\<lparr>next_identity := n\<rparr>) = ids_where P c"
  by (simp_all add: ids_where_def)

lemma IndexedBlocks_card: "IndexedBlocks c = card (ids_where (\<lambda>_. True) c)"
proof -
  have "ids_where (\<lambda>_. True) c = set (filter (\<lambda>i. entries c ! i \<noteq> None) [0..<length (entries c)])"
    by (auto simp: ids_where_def entry_at_def)
  then show ?thesis
    unfolding IndexedBlocks_def length_filter_upt_nth[of _ "entries c"] by (simp add: distinct_card[symmetric])
qed

lemma same_index_ids: "same_index c c' \<Longrightarrow> ids_where (\<lambda>_. True) c' = ids_where (\<lambda>_. True) c"
  using same_index_entry(2,3) unfolding ids_where_def by blast

lemma same_index_identities:
  assumes "same_index c c'" and "identities_ok S c"
  shows "identities_ok S c'"
proof -
  have h: "Hash c' = Hash c" using assms(1) by (simp add: Hash_def same_index_def fun_eq_iff)
  have "entry_identity e \<in> S" if "entry_at c' i = Some e" for i e
    using same_index_entry(2)[OF assms(1) that] assms(2) by (metis identities_ok_def)
  then show ?thesis using assms unfolding identities_ok_def h by (simp add: same_index_def)
qed

lemma hash_set_same_index:
  assumes "same_index c c'"
  shows "{(identity_hash (entry_identity e), i) | i e. entry_at c' i = Some e} = {(identity_hash (entry_identity e), i) | i e. entry_at c i = Some e}"
  using same_index_entry(2,3)[OF assms] by fastforce

lemma set_reclaim_position [simp]: "set (reclaim_position i e c xs) = insert i (set xs)"
  by (auto simp: reclaim_position_def split: option.splits list.splits)

lemma distinct_reclaim_position [simp]: "distinct (reclaim_position i e c xs) \<longleftrightarrow> i \<notin> set xs \<and> distinct xs"
  by (auto simp: reclaim_position_def split: option.splits list.splits)

text \<open>The two notifications move an entry between the lists.\<close>

lemma OnBlockBecameReferenced_ok:
  assumes "lists_ok c" and "entry_at c i = Some e" and "reclaimable e" and "entry_block e = p"
  obtains c' where "OnBlockBecameReferenced p i c = Inr c'" and "lists_ok c'" and "same_index c c'"
    and "\<And>j. entry_at c' j = (if j = i then Some (e\<lparr>reclaimable := False, promote_on_release := False\<rparr>) else entry_at c j)"
proof
  let ?e = "e\<lparr>reclaimable := False, promote_on_release := False\<rparr>"
  let ?c = "(set_entry i ?e c)\<lparr>referenced_entries := referenced_entries c @ [i], reclaimable_entries := remove1 i (reclaimable_entries c)\<rparr>"
  note lt = entry_at_lt[OF assms(2)]
  show "OnBlockBecameReferenced p i c = Inr ?c" using assms by (simp add: OnBlockBecameReferenced_def)
  show si: "same_index c ?c" using assms(2) lt by (auto simp: same_index_def)
  show "lists_ok ?c"
    using assms(1,2,3) lt unfolding lists_ok_def hash_set_same_index[OF si]
    by (auto simp: ids_where_set_entry ids_where_def)
  show "entry_at ?c j = (if j = i then Some ?e else entry_at c j)" for j using lt by simp
qed

lemma OnBlockBecameReclaimable_ok:
  assumes "lists_ok c" and "entry_at c i = Some e" and "\<not> reclaimable e" and "entry_block e = p"
  obtains c' where "OnBlockBecameReclaimable p i c = Inr c'" and "lists_ok c'" and "same_index c c'"
    and "\<And>j. entry_at c' j = (if j = i then Some (e\<lparr>reclaimable := True, promote_on_release := True\<rparr>) else entry_at c j)"
proof
  let ?e = "e\<lparr>reclaimable := True, promote_on_release := True\<rparr>"
  let ?c = "(set_entry i ?e c)\<lparr>reclaimable_entries := reclaim_position i e c (reclaimable_entries c), referenced_entries := remove1 i (referenced_entries c)\<rparr>"
  note lt = entry_at_lt[OF assms(2)]
  show "OnBlockBecameReclaimable p i c = Inr ?c" using assms by (simp add: OnBlockBecameReclaimable_def)
  show si: "same_index c ?c" using assms(2) lt by (auto simp: same_index_def)
  show "lists_ok ?c"
    using assms(1,2,3) lt unfolding lists_ok_def hash_set_same_index[OF si]
    by (auto simp: ids_where_set_entry ids_where_def)
  show "entry_at ?c j = (if j = i then Some ?e else entry_at c j)" for j using lt by simp
qed

text \<open>The same blocks and identities with other reference counts.\<close>

lemma blocks_ok_same_index:
  assumes ok: "wf_pool pool" "blocks_ok pool c" and c: "same_index c c'"
    and pool': "pool_blocks pool' = pool_blocks pool" "pool_capacity pool' = pool_capacity pool" "reference_observer pool' = reference_observer pool"
    and st: "\<And>q. Owns pool (Some q) \<Longrightarrow> identity (pool_store pool' q) = identity (pool_store pool q)
        \<and> reference_observer_cookie (pool_store pool' q) = reference_observer_cookie (pool_store pool q)"
    and fl: "\<And>j e. entry_at c' j = Some e \<Longrightarrow> reclaimable e \<longleftrightarrow> ref_count (pool_store pool' (entry_block e)) = 1"
  shows "blocks_ok pool' c'"
proof -
  have "case entry_at c' i of Some e \<Rightarrow> indexed pool' i e
        | None \<Rightarrow> (\<forall>p. pool_blocks pool' ! i = Some p \<longrightarrow> identity (pool_store pool' p) = None \<and> reference_observer_cookie (pool_store pool' p) = None)"
    if i: "i < pool_capacity pool" for i
  proof (cases "entry_at c' i")
    case None
    then have n: "entry_at c i = None" using same_index_entry(1)[OF c] by simp
    have "Owns pool (Some p)" if "pool_blocks pool ! i = Some p" for p
      using wf_pool_slotD(2)[OF ok(1) i that] i that by (simp add: Owns_def wf_block_def)
    then show ?thesis using None n ok(2) i st pool' by (auto simp: blocks_ok_def)
  next
    case (Some e)
    obtain e0 where e0: "entry_at c i = Some e0" "entry_block e0 = entry_block e" "entry_identity e0 = entry_identity e"
      using same_index_entry(2)[OF c Some] by blast
    note f = entry_block_facts[OF ok e0(1)]
    have "indexed pool' i e" using f(1) st[OF f(4)] fl[OF Some] e0 pool' by (simp add: indexed_def Let_def)
    then show ?thesis using Some by simp
  qed
  then show ?thesis using ok c pool' by (simp add: blocks_ok_def same_index_def)
qed

lemma blocks_ok_cleared:
  assumes ok: "wf_pool pool" "blocks_ok pool c" and c: "same_index c c'" and k: "k < pool_capacity pool" "entry_at c k = None"
    and pool': "pool_blocks pool' = (pool_blocks pool)[k := None]" "pool_capacity pool' = pool_capacity pool"
      "reference_observer pool' = reference_observer pool"
    and st: "\<And>q. Owns pool (Some q) \<Longrightarrow> block_id (pool_store pool q) \<noteq> k \<Longrightarrow> pool_store pool' q = pool_store pool q"
    and fl: "\<And>j e. entry_at c' j = Some e \<Longrightarrow> reclaimable e \<longleftrightarrow> ref_count (pool_store pool' (entry_block e)) = 1"
  shows "blocks_ok pool' c'"
proof -
  have own: "Owns pool (Some p) \<and> block_id (pool_store pool p) = i" if "i < pool_capacity pool" "pool_blocks pool ! i = Some p" for i p
    using wf_pool_slotD(2)[OF ok(1) that] that by (simp add: Owns_def wf_block_def)
  have nth: "pool_blocks pool' ! i = (if i = k then None else pool_blocks pool ! i)" if "i < pool_capacity pool" for i
    using that pool'(1) wf_pool_lengths(1)[OF ok(1)] by simp
  have "case entry_at c' i of Some e \<Rightarrow> indexed pool' i e
        | None \<Rightarrow> (\<forall>p. pool_blocks pool' ! i = Some p \<longrightarrow> identity (pool_store pool' p) = None \<and> reference_observer_cookie (pool_store pool' p) = None)"
    if i: "i < pool_capacity pool" for i
  proof (cases "entry_at c' i")
    case None
    then have n: "entry_at c i = None" using same_index_entry(1)[OF c] by simp
    show ?thesis using None n ok(2) i own[OF i] st nth[OF i] by (auto simp: blocks_ok_def split: if_splits)
  next
    case (Some e)
    obtain e0 where e0: "entry_at c i = Some e0" "entry_block e0 = entry_block e" "entry_identity e0 = entry_identity e"
      using same_index_entry(2)[OF c Some] by blast
    note f = entry_block_facts[OF ok e0(1)]
    have ik: "i \<noteq> k" using e0(1) k(2) by auto
    have "indexed pool' i e" using f(1) st[OF f(4)] f(3) fl[OF Some] e0 nth[OF i] ik by (simp add: indexed_def Let_def)
    then show ?thesis using Some by simp
  qed
  then show ?thesis using ok c pool' by (simp add: blocks_ok_def same_index_def)
qed

lemma flags_ok: "wf_pool pool \<Longrightarrow> blocks_ok pool c \<Longrightarrow> entry_at c j = Some e \<Longrightarrow> reclaimable e \<longleftrightarrow> ref_count (pool_store pool (entry_block e)) = 1"
  using entry_block_facts(1) by (fastforce simp: indexed_def Let_def)

lemma wf_cache_same_index:
  assumes "same_index c c'" and "IndexedBlocks c \<le> max_blocks (options c)"
  shows "IndexedBlocks c' \<le> max_blocks (options c')"
  using assms same_index_ids[OF assms(1)] by (simp add: IndexedBlocks_card same_index_def)

text \<open>Taking a reference on a block.\<close>

definition new_events :: "BlockPool \<Rightarrow> BlockPool \<Rightarrow> observer_event list" where
  "new_events pool pool' = drop (length (observer_events pool)) (observer_events pool')"

lemma added_frame:
  "pool_capacity (add_reference p pool) = pool_capacity pool" "pool_block_size (add_reference p pool) = pool_block_size pool"
  "reference_observer (add_reference p pool) = reference_observer pool"
  "new_events pool (add_reference p pool) = (case reference_observer_cookie (pool_store pool p) of
     Some cookie \<Rightarrow> if ref_count (pool_store pool p) = 1 \<and> reference_observer pool \<noteq> None then [BecameReferenced p cookie] else []
   | None \<Rightarrow> [])"
  "observer_events (add_reference p pool) = observer_events pool @ new_events pool (add_reference p pool)"
  by (auto simp: add_reference_def modify_block_def notify_def new_events_def Let_def split: option.splits)

lemma add_reference_kept:
  assumes wf: "wf_cache held S (pool, c)" and own: "Owns pool (Some p)"
  obtains c' where "run_result notice (new_events pool (add_reference p pool)) c = Inr c'"
    and "wf_cache (held(p := held p + 1)) S (add_reference p pool, c')" and "same_index c c'"
proof -
  note d = wf_cacheD[OF wf]
  let ?b = "pool_store pool p" and ?pool = "add_reference p pool"
  note a = add_reference_correct[OF d(1) own]
  have "\<exists>c'. run_result notice (new_events pool ?pool) c = Inr c' \<and> lists_ok c' \<and> same_index c c'
      \<and> (\<forall>j e. entry_at c' j = Some e \<longrightarrow> (reclaimable e \<longleftrightarrow> ref_count (pool_store ?pool (entry_block e)) = 1))"
  proof (cases "entry_at c (block_id ?b)")
    case None
    have "entry_block e \<noteq> p" if "entry_at c j = Some e" for j e
      using None entry_block_facts(3)[OF d(1,2) that] that by auto
    then show ?thesis
      using None cookie_entry[OF d(1,2) own] d(3) flags_ok[OF d(1,2)] by (auto simp: added_frame a(4))
  next
    case (Some e)
    have e: "entry_block e = p" using owned_entry[OF d(2) own Some] .
    have ck: "reference_observer_cookie ?b = Some (block_id ?b)" using cookie_entry[OF d(1,2) own] Some by simp
    have ob: "reference_observer pool \<noteq> None" using d(2) by (simp add: blocks_ok_def)
    have pos: "0 < ref_count ?b" by (rule Owns_ref_count[OF d(1) own])
    have other: "entry_block e' \<noteq> p" if "entry_at c j = Some e'" "j \<noteq> block_id ?b" for j e'
      using entry_block_facts(3)[OF d(1,2) that(1)] that by auto
    show ?thesis
    proof (cases "ref_count ?b = 1")
      case True
      then have re: "reclaimable e" using flags_ok[OF d(1,2) Some] e by simp
      obtain c' where c': "OnBlockBecameReferenced p (block_id ?b) c = Inr c'" "lists_ok c'" "same_index c c'"
        "\<And>j. entry_at c' j = (if j = block_id ?b then Some (e\<lparr>reclaimable := False, promote_on_release := False\<rparr>) else entry_at c j)"
        by (rule OnBlockBecameReferenced_ok[OF d(3) Some re e]) blast
      have "reclaimable x \<longleftrightarrow> ref_count (pool_store ?pool (entry_block x)) = 1" if x: "entry_at c' j = Some x" for j x
      proof (cases "j = block_id ?b")
        case True
        then have "x = e\<lparr>reclaimable := False, promote_on_release := False\<rparr>" using x c'(4) by simp
        then show ?thesis using e pos by (simp add: a(4) Block_AddRef_def)
      next
        case False
        then have "entry_at c j = Some x" using x c'(4) by simp
        with other[OF this False] flags_ok[OF d(1,2) this] show ?thesis by (simp add: a(4))
      qed
      then show ?thesis using c'(1,2,3) True ck ob by (auto simp: added_frame(4) notice_def)
    next
      case False
      have "reclaimable x \<longleftrightarrow> ref_count (pool_store ?pool (entry_block x)) = 1" if x: "entry_at c j = Some x" for j x
        using other[OF x] flags_ok[OF d(1,2) x] False pos by (cases "entry_block x = p") (auto simp: a(4) Block_AddRef_def)
      then show ?thesis using d(3) False ck by (auto simp: added_frame(4))
    qed
  qed
  then obtain c' where c': "run_result notice (new_events pool ?pool) c = Inr c'" "lists_ok c'" "same_index c c'"
    "\<And>j e. entry_at c' j = Some e \<Longrightarrow> reclaimable e \<longleftrightarrow> ref_count (pool_store ?pool (entry_block e)) = 1" by blast
  have "blocks_ok ?pool c'"
    by (rule blocks_ok_same_index[OF d(1,2) c'(3) a(5) added_frame(1,3) _ c'(4)]) (auto simp: a(4) Block_AddRef_def)
  moreover have "refs_ok (held(p := held p + 1)) ?pool c'"
    using d(5) own same_index_entry(1)[OF c'(3)] by (auto simp: refs_ok_def a(2,4) Block_AddRef_def)
  ultimately have "wf_cache (held(p := held p + 1)) S (?pool, c')"
    using a(1) c'(2) same_index_identities[OF c'(3) d(4)] wf_cache_same_index[OF c'(3) d(6)] by (simp add: wf_cache_def)
  then show ?thesis using that c' by blast
qed

text \<open>Giving a reference back.\<close>

lemma dropped_frame:
  assumes "drop_reference p pool = Inr (pool', freed)"
  shows "pool_capacity pool' = pool_capacity pool" and "pool_block_size pool' = pool_block_size pool"
    and "reference_observer pool' = reference_observer pool"
    and "new_events pool pool' = (case reference_observer_cookie (pool_store pool p) of
       Some cookie \<Rightarrow> if ref_count (pool_store pool p) = 2 \<and> reference_observer pool \<noteq> None then [BecameReclaimable p cookie] else []
     | None \<Rightarrow> [])"
    and "observer_events pool' = observer_events pool @ new_events pool pool'"
    and "ref_count (pool_store pool p) \<noteq> 1 \<Longrightarrow> pool_store pool' p = (pool_store pool p)\<lparr>ref_count := ref_count (pool_store pool p) - 1\<rparr>"
    and "mutation_generation pool' = mutation_generation pool"
  using assms
  by (auto simp: drop_reference_def ReleaseRef_def modify_block_def notify_def new_events_def Let_def split: option.splits if_splits)

lemma drop_reference_kept:
  assumes wf: "wf_cache held S (pool, c)" and own: "Owns pool (Some p)" and held: "0 < held p"
  obtains pool' freed c' where "drop_reference p pool = Inr (pool', freed)"
    and "run_result notice (new_events pool pool') c = Inr c'"
    and "wf_cache (held(p := held p - 1)) S (pool', c')" and "same_index c c'"
    and "\<And>q. Owns pool' (Some q) \<longleftrightarrow> Owns pool (Some q) \<and> (q = p \<longrightarrow> ref_count (pool_store pool p) \<noteq> 1)"
    and "\<And>q. block_id (pool_store pool' q) = block_id (pool_store pool q)"
proof -
  note d = wf_cacheD[OF wf]
  let ?b = "pool_store pool p"
  obtain pool' freed where dr: "drop_reference p pool = Inr (pool', freed)" "wf_pool pool'"
    "\<And>q. Owns pool' (Some q) \<longleftrightarrow> Owns pool (Some q) \<and> (q = p \<longrightarrow> ref_count ?b \<noteq> 1)"
    "\<And>q. q \<noteq> p \<Longrightarrow> pool_store pool' q = pool_store pool q" "block_id (pool_store pool' p) = block_id ?b"
    "ref_count (pool_store pool' p) = ref_count ?b - 1"
    "pool_blocks pool' = (if ref_count ?b = 1 then (pool_blocks pool)[block_id ?b := None] else pool_blocks pool)"
    by (rule drop_reference_correct[OF d(1) own]) blast
  note fr = dropped_frame[OF dr(1)]
  have ob: "reference_observer pool \<noteq> None" using d(2) by (simp add: blocks_ok_def)
  have ck: "reference_observer_cookie ?b = (if entry_at c (block_id ?b) = None then None else Some (block_id ?b))"
    by (rule cookie_entry[OF d(1,2) own])
  have refs: "ref_count ?b = held p + (if entry_at c (block_id ?b) \<noteq> None then 1 else 0)" using d(5) own by (simp add: refs_ok_def)
  have other: "entry_block e \<noteq> p" if "entry_at c j = Some e" "j \<noteq> block_id ?b" for j e
    using entry_block_facts(3)[OF d(1,2) that(1)] that by auto
  have "\<exists>c'. run_result notice (new_events pool pool') c = Inr c' \<and> lists_ok c' \<and> same_index c c'
      \<and> (\<forall>j e. entry_at c' j = Some e \<longrightarrow> (reclaimable e \<longleftrightarrow> ref_count (pool_store pool' (entry_block e)) = 1))"
  proof (cases "entry_at c (block_id ?b)")
    case None
    have "entry_block e \<noteq> p" if "entry_at c j = Some e" for j e
      using entry_block_facts(3)[OF d(1,2) that] that None by auto
    then show ?thesis using None d(3) flags_ok[OF d(1,2)] dr(4) ck by (auto simp: fr(4))
  next
    case (Some e)
    have e: "entry_block e = p" using owned_entry[OF d(2) own Some] .
    then have re: "\<not> reclaimable e" using flags_ok[OF d(1,2) Some] refs held Some by simp
    show ?thesis
    proof (cases "ref_count ?b = 2")
      case True
      obtain c' where c': "OnBlockBecameReclaimable p (block_id ?b) c = Inr c'" "lists_ok c'" "same_index c c'"
        "\<And>j. entry_at c' j = (if j = block_id ?b then Some (e\<lparr>reclaimable := True, promote_on_release := True\<rparr>) else entry_at c j)"
        by (rule OnBlockBecameReclaimable_ok[OF d(3) Some re e]) blast
      have "reclaimable x \<longleftrightarrow> ref_count (pool_store pool' (entry_block x)) = 1" if x: "entry_at c' j = Some x" for j x
      proof (cases "j = block_id ?b")
        case jb: True
        then have "x = e\<lparr>reclaimable := True, promote_on_release := True\<rparr>" using x c'(4) by simp
        then show ?thesis using e True dr(6) by simp
      next
        case False
        then have "entry_at c j = Some x" using x c'(4) by simp
        with other[OF this False] flags_ok[OF d(1,2) this] show ?thesis by (simp add: dr(4))
      qed
      then show ?thesis using c'(1,2,3) True ck ob Some by (auto simp: fr(4) notice_def)
    next
      case False
      have "reclaimable x \<longleftrightarrow> ref_count (pool_store pool' (entry_block x)) = 1" if x: "entry_at c j = Some x" for j x
      proof (cases "j = block_id ?b")
        case True
        then have "x = e" using x Some by simp
        then show ?thesis using e re False dr(6) refs held Some by simp
      next
        case False
        with other[OF x] flags_ok[OF d(1,2) x] show ?thesis by (simp add: dr(4))
      qed
      then show ?thesis using d(3) False ck by (auto simp: fr(4))
    qed
  qed
  then obtain c' where c': "run_result notice (new_events pool pool') c = Inr c'" "lists_ok c'" "same_index c c'"
    "\<And>j e. entry_at c' j = Some e \<Longrightarrow> reclaimable e \<longleftrightarrow> ref_count (pool_store pool' (entry_block e)) = 1" by blast
  have ids: "block_id (pool_store pool' q) = block_id (pool_store pool q)" for q using dr(4,5) by (cases "q = p") auto
  have "blocks_ok pool' c'"
  proof (cases "ref_count ?b = 1")
    case False
    have "identity (pool_store pool' q) = identity (pool_store pool q)
        \<and> reference_observer_cookie (pool_store pool' q) = reference_observer_cookie (pool_store pool q)" for q
      using fr(6)[OF False] dr(4)[of q] by (cases "q = p") auto
    then show ?thesis
      by (intro blocks_ok_same_index[OF d(1,2) c'(3) _ fr(1,3) _ c'(4)]) (use False dr(7) in auto)
  next
    case True
    then have n: "entry_at c (block_id ?b) = None" using refs held by (auto split: if_splits)
    have lt: "block_id ?b < pool_capacity pool" and len: "length (pool_blocks pool) = pool_capacity pool"
      using OwnsD(1)[OF own] wf_pool_lengths(1)[OF d(1)] by auto
    have b: "pool_blocks pool' = (pool_blocks pool)[block_id ?b := None]" using True dr(7) by simp
    show ?thesis
      by (rule blocks_ok_cleared[OF d(1,2) c'(3) lt n b fr(1,3) _ c'(4)]) (metis dr(4))
  qed
  moreover have "refs_ok (held(p := held p - 1)) pool' c'"
    using d(5) own same_index_entry(1)[OF c'(3)] refs held dr(3,4,6) ids by (auto simp: refs_ok_def)
  ultimately have "wf_cache (held(p := held p - 1)) S (pool', c')"
    using dr(2) c'(2) same_index_identities[OF c'(3) d(4)] wf_cache_same_index[OF c'(3) d(6)] by (simp add: wf_cache_def)
  then show ?thesis using that dr(1,3) c' ids by blast
qed

section \<open>Eviction\<close>

text \<open>An index without the entry of one id.\<close>

definition without_entry :: "nat \<Rightarrow> PrefixCache \<Rightarrow> PrefixCache \<Rightarrow> bool" where
  "without_entry i c c' \<longleftrightarrow> options c' = options c \<and> next_identity c' = next_identity c \<and> length (entries c') = length (entries c)
     \<and> (\<forall>j. entry_at c' j = (if j = i then None else entry_at c j))
     \<and> recency c' = remove1 i (recency c) \<and> reclaimable_entries c' = remove1 i (reclaimable_entries c)
     \<and> referenced_entries c' = remove1 i (referenced_entries c) \<and> checkpoint_entries c' = remove1 i (checkpoint_entries c)
     \<and> entries_by_hash c' = filter (\<lambda>x. snd x \<noteq> i) (entries_by_hash c)"

lemma without_entry_ids: "without_entry i c c' \<Longrightarrow> ids_where P c' = ids_where P c - {i}"
  by (auto simp: without_entry_def ids_where_def split: if_splits)

lemma without_entry_lists:
  assumes "lists_ok c" and "without_entry i c c'"
  shows "lists_ok c'"
proof -
  have "{(identity_hash (entry_identity e), j) | j e. entry_at c' j = Some e}
      = {x \<in> {(identity_hash (entry_identity e), j) | j e. entry_at c j = Some e}. snd x \<noteq> i}"
    using assms(2) by (auto simp: without_entry_def split: if_splits)
  moreover have "distinct (map fst (filter P xs))" if "distinct (map fst xs)" for P and xs :: "(u64 \<times> nat) list"
    using that by (induction xs) auto
  ultimately show ?thesis
    using assms without_entry_ids[OF assms(2)] by (auto simp: lists_ok_def without_entry_def)
qed

lemma without_entry_identities: "identities_ok S c \<Longrightarrow> without_entry i c c' \<Longrightarrow> identities_ok S c'"
  by (auto simp: identities_ok_def without_entry_def Hash_def split: if_splits)

lemma without_entry_budget:
  "IndexedBlocks c \<le> max_blocks (options c) \<Longrightarrow> without_entry i c c' \<Longrightarrow> IndexedBlocks c' \<le> max_blocks (options c')"
  using card_Diff1_le[of "ids_where (\<lambda>_. True) c" i] without_entry_ids[of i c c' "\<lambda>_. True"]
  by (simp add: IndexedBlocks_card) (simp add: without_entry_def)

lemma remove1_hash:
  assumes "lists_ok c" and "entry_at c i = Some e"
  shows "remove1 (identity_hash (entry_identity e), i) (entries_by_hash c) = filter (\<lambda>x. snd x \<noteq> i) (entries_by_hash c)"
proof -
  let ?x = "(identity_hash (entry_identity e), i)" and ?hs = "entries_by_hash c"
  have hs: "set ?hs = {(identity_hash (entry_identity e), i) | i e. entry_at c i = Some e}" and d: "distinct (map fst ?hs)"
    using assms(1) by (simp_all add: lists_ok_def)
  have "(x = ?x) = (snd x = i)" if "x \<in> set ?hs" for x
    using that assms(2) unfolding hs by auto
  then have "filter (\<lambda>x. x \<noteq> ?x) ?hs = filter (\<lambda>x. snd x \<noteq> i) ?hs" by (intro filter_cong refl) simp
  moreover have "remove1 ?x ?hs = filter (\<lambda>x. x \<noteq> ?x) ?hs"
    using d by (simp add: distinct_map distinct_remove1_removeAll removeAll_filter_not_eq eq_commute)
  ultimately show ?thesis by simp
qed

text \<open>A pool that lost the block of one id, the last reference to it being dropped.\<close>

definition lost_block :: "nat \<Rightarrow> BlockPool \<Rightarrow> BlockPool \<Rightarrow> bool" where
  "lost_block i pool pool' \<longleftrightarrow> wf_pool pool' \<and> pool_blocks pool' = (pool_blocks pool)[i := None] \<and> pool_capacity pool' = pool_capacity pool
     \<and> pool_block_size pool' = pool_block_size pool \<and> reference_observer pool' = reference_observer pool
     \<and> AvailableBlocks pool' = AvailableBlocks pool + 1
     \<and> (\<forall>q. Owns pool' (Some q) \<longleftrightarrow> Owns pool (Some q) \<and> block_id (pool_store pool q) \<noteq> i)
     \<and> (\<forall>q. Owns pool' (Some q) \<longrightarrow> pool_store pool' q = pool_store pool q)"

lemma modify_block_simps [simp]:
  "pool_blocks (modify_block p f pool) = pool_blocks pool" "pool_capacity (modify_block p f pool) = pool_capacity pool"
  "pool_block_size (modify_block p f pool) = pool_block_size pool" "reference_observer (modify_block p f pool) = reference_observer pool"
  "observer_events (modify_block p f pool) = observer_events pool"
  "pool_store (modify_block p f pool) = (pool_store pool)(p := f (pool_store pool p))"
  by (simp_all add: modify_block_def)

lemma Owns_modify_block: "(\<And>b. block_id (f b) = block_id b) \<Longrightarrow> Owns (modify_block p f pool) = Owns pool"
  by (auto simp: Owns_def fun_eq_iff split: option.splits)

lemma release_last:
  assumes wf: "wf_pool pool" and own: "Owns pool (Some p)" and one: "ref_count (pool_store pool p) = 1"
    and f: "\<And>b. block_id (f b) = block_id b" "\<And>b. ref_count (f b) = ref_count b" "\<And>b. block_capacity (f b) = block_capacity b"
      "\<And>b. block_slots_used (f b) = block_slots_used b" "\<And>b. identity (f b) = None"
  obtains pool' where "observed (Release (Some p)) (modify_block p f pool, c) = Inr (pool', c)"
    and "lost_block (block_id (pool_store pool p)) pool pool'"
proof -
  let ?pool = "modify_block p f pool" and ?i = "block_id (pool_store pool p)"
  have "wf_pool ?pool" using f by (intro wf_modify_block[OF wf]) (auto simp: wf_block_def IsFull_def)
  moreover have own': "Owns ?pool (Some p)" using own by (simp add: Owns_modify_block f(1))
  ultimately obtain pool' freed where dr: "drop_reference p ?pool = Inr (pool', freed)" "wf_pool pool'" "freed"
    "\<And>q. Owns pool' (Some q) \<longleftrightarrow> Owns ?pool (Some q) \<and> q \<noteq> p"
    "\<And>q. q \<noteq> p \<Longrightarrow> pool_store pool' q = pool_store ?pool q"
    "pool_blocks pool' = (pool_blocks ?pool)[?i := None]"
    by (rule drop_reference_correct[of ?pool p]) (use one f in auto)
  note fr = dropped_frame[OF dr(1)]
  let ?pool' = "pool'\<lparr>mutation_generation := mutation_generation pool' + 1\<rparr>"
  have ev: "new_events ?pool pool' = []" using one f(2) by (auto simp: fr(4) split: option.splits)
  then have "observed (Release (Some p)) (?pool, c) = Inr (?pool', c)"
    using own' dr(1,3) fr(5) by (simp add: observed_def Release_def pool_result_def)
  moreover have "AvailableBlocks ?pool' = AvailableBlocks pool + 1"
    using length_filter_None_update[of ?i "pool_blocks pool" p] OwnsD[OF own] wf_pool_lengths(1)[OF wf]
    by (simp add: AvailableBlocks_def dr(6))
  moreover have "Owns pool' (Some q) \<longleftrightarrow> Owns pool (Some q) \<and> block_id (pool_store pool q) \<noteq> ?i" for q
    using dr(4)[of q] Owns_same_id[OF own, of q] by (auto simp: Owns_modify_block f(1))
  moreover have "pool_store pool' q = pool_store pool q" if "Owns pool' (Some q)" for q
    using that dr(4,5)[of q] by simp
  moreover have "Owns ?pool' = Owns pool'" by (auto simp: Owns_def fun_eq_iff split: option.splits)
  ultimately show ?thesis
    using that[of ?pool'] dr(2,6) fr(1,2,3) by (simp add: lost_block_def)
qed

lemma lost_block_kept:
  assumes wf: "wf_cache held S (pool, c)" and e: "entry_at c i = Some e" and pool': "lost_block i pool pool'" and c': "without_entry i c c'"
    and one: "ref_count (pool_store pool (entry_block e)) = 1"
  shows "wf_cache held S (pool', c')"
proof -
  note d = wf_cacheD[OF wf]
  note f = entry_block_facts[OF d(1,2) e]
  have len: "length (pool_blocks pool) = pool_capacity pool" by (rule wf_pool_lengths(1)[OF d(1)])
  have at: "entry_at c' j = (if j = i then None else entry_at c j)" for j using c' by (simp add: without_entry_def)
  have own: "Owns pool' (Some q) \<longleftrightarrow> Owns pool (Some q) \<and> block_id (pool_store pool q) \<noteq> i"
    "Owns pool' (Some q) \<Longrightarrow> pool_store pool' q = pool_store pool q" for q using pool' by (auto simp: lost_block_def)
  have slot: "pool_blocks pool' ! j = (if j = i then None else pool_blocks pool ! j)" if "j < pool_capacity pool" for j
    using pool' that len by (simp add: lost_block_def)
  have st: "pool_store pool' q = pool_store pool q" if "j < pool_capacity pool" "j \<noteq> i" "pool_blocks pool ! j = Some q" for j q
  proof -
    have "block_id (pool_store pool q) = j" using wf_pool_slotD(2)[OF d(1) that(1,3)] by (simp add: wf_block_def)
    moreover from this have "Owns pool (Some q)" using that by (simp add: Owns_def)
    ultimately show ?thesis using own that(2) by metis
  qed
  have "case entry_at c' j of Some e \<Rightarrow> indexed pool' j e
        | None \<Rightarrow> (\<forall>p. pool_blocks pool' ! j = Some p \<longrightarrow> identity (pool_store pool' p) = None \<and> reference_observer_cookie (pool_store pool' p) = None)"
    if j: "j < pool_capacity pool" for j
  proof (cases "j = i")
    case True
    then show ?thesis using slot[OF j] by (simp add: at)
  next
    case False
    show ?thesis
    proof (cases "entry_at c j")
      case None
      have "identity (pool_store pool' p) = None \<and> reference_observer_cookie (pool_store pool' p) = None" if "pool_blocks pool ! j = Some p" for p
        using unindexed_block[OF d(2) None j that] st[OF j False that] by simp
      then show ?thesis using None False slot[OF j] by (simp add: at)
    next
      case (Some x)
      then have ix: "indexed pool j x" by (rule entry_block_facts(1)[OF d(1,2)])
      then have "pool_blocks pool ! j = Some (entry_block x)" by (simp add: indexed_def Let_def)
      then have "indexed pool' j x" using ix st[OF j False] slot[OF j] False by (simp add: indexed_def Let_def)
      then show ?thesis using Some False by (simp add: at)
    qed
  qed
  then have "blocks_ok pool' c'" using d(2) pool' c' by (simp add: blocks_ok_def lost_block_def without_entry_def)
  moreover have "refs_ok held pool' c'"
    unfolding refs_ok_def
  proof
    fix q
    have zero: "held q = 0" if "Owns pool (Some q)" "block_id (pool_store pool q) = i"
    proof -
      have "q = entry_block e" using Owns_same_id[OF that(1) f(4)] that(2) f(3) by simp
      then show ?thesis using d(5) that e one by (auto simp: refs_ok_def split: if_splits)
    qed
    show "if Owns pool' (Some q) then ref_count (pool_store pool' q) = held q + (if entry_at c' (block_id (pool_store pool' q)) \<noteq> None then 1 else 0)
        else held q = 0"
      using refs_okD[OF d(5), of q] zero own[of q] by (cases "Owns pool (Some q)"; cases "block_id (pool_store pool q) = i") (simp_all add: at)
  qed
  ultimately show ?thesis
    using pool' without_entry_lists[OF d(3) c'] without_entry_identities[OF d(4) c'] without_entry_budget[OF d(6) c']
    by (simp add: wf_cache_def lost_block_def)
qed

lemma Evict_reclaimable:
  assumes wf: "wf_cache held S (pool, c)" and e: "entry_at c i = Some e" and r: "reclaimable e"
  obtains pool' c' where "Evict i (pool, c) = Inr (pool', c')" and "lost_block i pool pool'" and "without_entry i c c'"
    and "wf_cache held S (pool', c')"
proof -
  note d = wf_cacheD[OF wf]
  note f = entry_block_facts[OF d(1,2) e]
  let ?p = "entry_block e"
  have one: "ref_count (pool_store pool ?p) = 1" using flags_ok[OF d(1,2) e] r by simp
  define c1 where "c1 = (if entry_checkpoint e \<noteq> None then c\<lparr>checkpoint_entries := remove1 i (checkpoint_entries c)\<rparr> else c)"
  define c' where "c' = c1\<lparr>reclaimable_entries := remove1 i (reclaimable_entries c1), recency := remove1 i (recency c1),
    entries := (entries c1)[i := None], entries_by_hash := remove1 (identity_hash (entry_identity e), i) (entries_by_hash c1)\<rparr>"
  have chk: "entry_checkpoint e = None \<or> i \<in> set (checkpoint_entries c)" and nochk: "entry_checkpoint e = None \<Longrightarrow> i \<notin> set (checkpoint_entries c)"
    and nref: "i \<notin> set (referenced_entries c)"
    using d(3) e r by (auto simp: lists_ok_def ids_where_def)
  have we: "without_entry i c c'"
    using remove1_hash[OF d(3) e] nochk nref by (auto simp: without_entry_def c'_def c1_def remove1_idem entry_at_def)
  let ?f = "\<lambda>b. ClearIdentity (b\<lparr>reference_observer_cookie := None\<rparr>)"
  obtain pool' where p': "observed (Release (Some ?p)) (modify_block ?p ?f pool, c') = Inr (pool', c')" "lost_block i pool pool'"
    using release_last[OF d(1) f(4) one, of ?f c'] f(3) by (auto simp: ClearIdentity_def)
  have "modify_block ?p ClearIdentity (modify_block ?p (\<lambda>b. b\<lparr>reference_observer_cookie := None\<rparr>) pool) = modify_block ?p ?f pool"
    by (simp add: modify_block_def)
  then have "Evict i (pool, c) = Inr (pool', c')"
    using e r chk f(4) p'(1) by (auto simp: Evict_def c'_def c1_def ClearReferenceObserverCookie_def pool_result_def Let_def)
  then show ?thesis using that p'(2) we lost_block_kept[OF wf e p'(2) we one] by blast
qed

section \<open>Reclaiming\<close>

lemma count_metrics_simps [simp]:
  "options (count_metrics f c) = options c" "entries (count_metrics f c) = entries c" "entries_by_hash (count_metrics f c) = entries_by_hash c"
  "recency (count_metrics f c) = recency c" "referenced_entries (count_metrics f c) = referenced_entries c"
  "reclaimable_entries (count_metrics f c) = reclaimable_entries c" "checkpoint_entries (count_metrics f c) = checkpoint_entries c"
  "next_identity (count_metrics f c) = next_identity c" "entry_at (count_metrics f c) = entry_at c"
  "ids_where P (count_metrics f c) = ids_where P c" "Hash (count_metrics f c) = Hash c" "IndexedBlocks (count_metrics f c) = IndexedBlocks c"
  by (simp_all add: count_metrics_def ids_where_def entry_at_def Hash_def IndexedBlocks_def fun_eq_iff)

lemma wf_cache_metrics [simp]: "wf_cache held S (pool, count_metrics f c) = wf_cache held S (pool, c)"
  by (simp add: wf_cache_def blocks_ok_def lists_ok_def identities_ok_def refs_ok_def)

text \<open>Marking counts the reclaimable entries it marks.\<close>

definition marks_ok :: "PrefixCache \<Rightarrow> bool list \<times> nat \<Rightarrow> bool" where
  "marks_ok c st \<longleftrightarrow> length (fst st) = length (entries c) \<and> snd st = card {i \<in> ids_where reclaimable c. fst st ! i}"

lemma FindEntry_Some:
  assumes "FindEntry c ident = Some q"
  obtains i e where "ident = Some i" and "identity_block_id i = q" and "entry_at c q = Some e" and "identity_address (entry_identity e) = identity_address i"
    and "q < length (entries c)"
  using assms entry_at_lt that by (auto simp: FindEntry_def split: option.splits if_splits)

lemma finite_ids [simp]: "finite (ids_where P c)"
proof (rule finite_subset)
  show "ids_where P c \<subseteq> {..<length (entries c)}" using entry_at_lt by (auto simp: ids_where_def)
qed simp

lemma mark_path_ok: "marks_ok c st \<Longrightarrow> marks_ok c (mark_path c ident st)"
proof (induction c ident st rule: mark_path.induct)
  case (2 c i st)
  show ?case
  proof (cases "FindEntry c (Some i)")
    case None
    then show ?thesis using 2 by simp
  next
    case (Some q)
    have q: "q < length (entries c)" using FindEntry_Some[OF Some] by blast
    show ?thesis
    proof (cases "fst st ! q")
      case True
      then show ?thesis using Some 2(3) by simp
    next
      case False
      let ?R = "ids_where reclaimable c" and ?st = "((fst st)[q := True], snd st + (if is_reclaimable c q then 1 else 0))"
      have "{i \<in> ?R. (fst st)[q := True] ! i} = (if q \<in> ?R then insert q {i \<in> ?R. fst st ! i} else {i \<in> ?R. fst st ! i})"
        using q 2(3) by (auto simp: marks_ok_def nth_list_update)
      moreover have "is_reclaimable c q \<longleftrightarrow> q \<in> ?R" by (auto simp: is_reclaimable_def ids_where_def split: option.splits)
      ultimately have "marks_ok c ?st" using 2(3) False by (auto simp: marks_ok_def)
      then show ?thesis using 2(2)[OF Some False] Some False by simp
    qed
  qed
qed simp

lemma MarkLeased_ok: "lists_ok c \<Longrightarrow> marks_ok c (MarkLeasedReclaimableBlocks owners c)"
proof -
  assume l: "lists_ok c"
  let ?f = "\<lambda>i st. case entry_at c i of None \<Rightarrow> st
    | Some e \<Rightarrow> if is_leased owners e then mark_path c (Some (entry_identity e)) st else st"
  have none: "marks_ok c (replicate (length (entries c)) False, 0)"
    using entry_at_lt[of c] by (fastforce simp: marks_ok_def ids_where_def card_eq_0_iff)
  have step: "marks_ok c (?f i st)" if "marks_ok c st" for i st
    using that by (cases "entry_at c i") (simp_all add: mark_path_ok del: mark_path.simps)
  have "marks_ok c (fold ?f is st)" if "marks_ok c st" for "is" st
    using that
  proof (induction "is" arbitrary: st)
    case (Cons i "is")
    then show ?case unfolding fold_Cons comp_def using step by blast
  qed simp
  with none show ?thesis by (simp add: MarkLeasedReclaimableBlocks_def Let_def)
qed

lemma ReclaimableBlocks_filter:
  fixes owners :: CheckpointOwners
  assumes "lists_ok c"
  defines "marks \<equiv> MarkLeasedReclaimableBlocks owners c"
  shows "ReclaimableBlocks owners c = length (filter (\<lambda>i. \<not> is_protected marks i) (reclaimable_entries c))"
proof -
  let ?R = "reclaimable_entries c"
  have R: "distinct ?R" "set ?R = ids_where reclaimable c" using assms(1) by (simp_all add: lists_ok_def)
  have m: "snd marks = card {i \<in> set ?R. fst marks ! i}" using MarkLeased_ok[OF assms(1)] R(2) by (simp add: marks_ok_def marks_def)
  have "length (filter (is_protected marks) ?R) = snd marks"
  proof (cases "snd marks = 0")
    case False
    then have "filter (is_protected marks) ?R = filter (\<lambda>i. fst marks ! i) ?R" by (intro filter_cong refl) (simp add: is_protected_def)
    then show ?thesis using m R(1) distinct_card[of "filter (\<lambda>i. fst marks ! i) ?R"] by (simp add: Collect_conj_eq)
  qed (simp add: is_protected_def)
  then show ?thesis
    using sum_length_filter_compl[of "is_protected marks" ?R] by (simp add: ReclaimableBlocks_def marks_def[symmetric])
qed

text \<open>An index and its pool after some evictions: nothing else changed.\<close>

definition shrunk :: "BlockPool \<times> PrefixCache \<Rightarrow> BlockPool \<times> PrefixCache \<Rightarrow> bool" where
  "shrunk w w' \<longleftrightarrow> options (snd w') = options (snd w) \<and> next_identity (snd w') = next_identity (snd w)
     \<and> pool_capacity (fst w') = pool_capacity (fst w) \<and> pool_block_size (fst w') = pool_block_size (fst w)
     \<and> (\<forall>j. entry_at (snd w') j = None \<or> entry_at (snd w') j = entry_at (snd w) j)
     \<and> (\<forall>q. Owns (fst w') (Some q) \<longrightarrow> Owns (fst w) (Some q) \<and> pool_store (fst w') q = pool_store (fst w) q)"

lemma shrunk_refl [simp]: "shrunk w w"
  by (simp add: shrunk_def)

lemma shrunk_trans: "shrunk a b \<Longrightarrow> shrunk b c \<Longrightarrow> shrunk a c"
  unfolding shrunk_def by metis

lemma reclaim_loop_ok:
  assumes "wf_cache held S w" and "distinct cs" and "\<forall>i \<in> set cs. \<exists>e. entry_at (snd w) i = Some e \<and> reclaimable e"
  shows "\<exists>w'. reclaim_loop marks n cs w = Inr (min n (length (filter (\<lambda>i. \<not> is_protected marks i) cs)), w')
    \<and> wf_cache held S w' \<and> shrunk w w'
    \<and> AvailableBlocks (fst w') = AvailableBlocks (fst w) + min n (length (filter (\<lambda>i. \<not> is_protected marks i) cs))
    \<and> IndexedBlocks (snd w') + min n (length (filter (\<lambda>i. \<not> is_protected marks i) cs)) = IndexedBlocks (snd w)"
  using assms
proof (induction cs arbitrary: n w)
  case (Cons i cs)
  obtain pool c where w: "w = (pool, c)" by (cases w)
  note d = wf_cacheD[OF Cons.prems(1)[unfolded w]]
  obtain e where e: "entry_at c i = Some e" "reclaimable e" using Cons.prems(3) w by auto
  have one: "ref_count (pool_store pool (entry_block e)) = 1" using flags_ok[OF d(1,2) e(1)] e(2) by simp
  show ?case
  proof (cases "n = 0 \<or> is_protected marks i")
    case True
    then show ?thesis
      using Cons.IH[of w n] Cons.prems e one by (cases "n = 0") (auto simp: w)
  next
    case False
    then obtain k where n: "n = Suc k" by (cases n) auto
    obtain pool' c' where ev: "Evict i (pool, c) = Inr (pool', c')" "lost_block i pool pool'" "without_entry i c c'" "wf_cache held S (pool', c')"
      by (rule Evict_reclaimable[OF Cons.prems(1)[unfolded w] e])
    let ?c = "count_metrics (\<lambda>m. m\<lparr>evictions := evictions m + 1\<rparr>) c'" and ?m = "min k (length (filter (\<lambda>i. \<not> is_protected marks i) cs))"
    have "\<forall>j \<in> set cs. \<exists>e. entry_at ?c j = Some e \<and> reclaimable e"
      using Cons.prems(2,3) ev(3) by (auto simp: w without_entry_def)
    then obtain w' where w': "reclaim_loop marks k cs (pool', ?c) = Inr (?m, w')" "wf_cache held S w'" "shrunk (pool', ?c) w'"
      "AvailableBlocks (fst w') = AvailableBlocks pool' + ?m" "IndexedBlocks (snd w') + ?m = IndexedBlocks c'"
      using Cons.IH[of "(pool', ?c)" k] Cons.prems(2) ev(4) by auto
    have "shrunk (pool, c) (pool', ?c)" using ev(2,3) by (simp add: shrunk_def lost_block_def without_entry_def)
    moreover have "Suc (IndexedBlocks c') = IndexedBlocks c"
      using card_Suc_Diff1[of "ids_where (\<lambda>_. True) c" i] e(1) without_entry_ids[OF ev(3), of "\<lambda>_. True"]
      by (simp add: IndexedBlocks_card) (simp add: ids_where_def)
    ultimately show ?thesis
      using w' ev(1,2) False e one n shrunk_trans[of "(pool, c)" "(pool', ?c)" w'] by (auto simp: w lost_block_def)
  qed
qed simp

lemma Reclaim_ok:
  fixes owners :: CheckpointOwners
  assumes "wf_cache held S w"
  defines "k \<equiv> ReclaimableBlocks owners (snd w)"
  shows "\<exists>w'. Reclaim owners n w = Inr (min n k, w') \<and> wf_cache held S w' \<and> shrunk w w'
    \<and> AvailableBlocks (fst w') = AvailableBlocks (fst w) + min n k \<and> IndexedBlocks (snd w') + min n k = IndexedBlocks (snd w)"
proof -
  have l: "lists_ok (snd w)" using assms(1) by (simp add: wf_cache_def)
  then have "distinct (reclaimable_entries (snd w))" "\<forall>i \<in> set (reclaimable_entries (snd w)). \<exists>e. entry_at (snd w) i = Some e \<and> reclaimable e"
    by (auto simp: lists_ok_def ids_where_def)
  from reclaim_loop_ok[OF assms(1) this, of "MarkLeasedReclaimableBlocks owners (snd w)" n] show ?thesis
    using assms(1) by (cases "n = 0") (auto simp: Reclaim_def k_def ReclaimableBlocks_filter[OF l] intro!: exI[of _ "fst w"] exI[of _ "snd w"])
qed

section \<open>Registration and use\<close>

text \<open>The same entries in another order.\<close>

definition same_entries :: "PrefixCache \<Rightarrow> PrefixCache \<Rightarrow> bool" where
  "same_entries c c' \<longleftrightarrow> entries c' = entries c \<and> options c' = options c \<and> next_identity c' = next_identity c"

lemma same_entries_at: "same_entries c c' \<Longrightarrow> entry_at c' = entry_at c"
  by (simp add: same_entries_def entry_at_def fun_eq_iff)

lemma wf_cache_same_entries:
  assumes "wf_cache held S (pool, c)" and "same_entries c c'" and "lists_ok c'"
  shows "wf_cache held S (pool, c')"
proof -
  note d = wf_cacheD[OF assms(1)] and a = same_entries_at[OF assms(2)]
  have "Hash c' = Hash c" using assms(2) by (simp add: same_entries_def Hash_def fun_eq_iff)
  then show ?thesis using d a assms(2,3)
    by (simp add: wf_cache_def blocks_ok_def identities_ok_def refs_ok_def IndexedBlocks_def same_entries_def)
qed

lemma Reorder_ok:
  assumes "lists_ok c" and "entry_at c i = Some e"
  shows "same_entries c (Reorder i parent c)" and "lists_ok (Reorder i parent c)"
    and "checkpoint_entries (Reorder i parent c) = checkpoint_entries c"
proof -
  obtain f g where fg: "Reorder i parent c = c\<lparr>recency := f (recency c), reclaimable_entries := (if reclaimable e then g (reclaimable_entries c) else reclaimable_entries c)\<rparr>"
    "f \<in> {move_to_end i, move_to_front i} \<union> range (\<lambda>q. move_before q i)" "g \<in> {move_to_end i, move_to_front i} \<union> range (\<lambda>q. move_before q i)"
  proof (cases parent)
    case None
    then show ?thesis using assms(2) that[where f = "move_to_end i" and g = "move_to_end i"] by (simp add: Reorder_def is_reclaimable_def)
  next
    case (Some p)
    show ?thesis
    proof (cases "FindEntry c parent")
      case None
      then show ?thesis using Some assms(2) that[where f = "move_to_front i" and g = "move_to_front i"] by (simp add: Reorder_def is_reclaimable_def)
    next
      case q: (Some q)
      then show ?thesis using Some assms(2) 
        that[where f = "move_before q i" and g = "if is_reclaimable c q then move_before q i else move_to_end i"]
        by (auto simp: Reorder_def is_reclaimable_def)
    qed
  qed
  show "same_entries c (Reorder i parent c)" "checkpoint_entries (Reorder i parent c) = checkpoint_entries c"
    by (simp_all add: fg(1) same_entries_def)
  have i: "i \<in> set (recency c)" "reclaimable e \<Longrightarrow> i \<in> set (reclaimable_entries c)"
    using assms by (auto simp: lists_ok_def ids_where_def)
  have mv: "distinct (h xs) \<and> set (h xs) = set xs"
    if "h \<in> {move_to_end i, move_to_front i} \<union> range (\<lambda>q. move_before q i)" "distinct xs" "i \<in> set xs" for h xs
    using that by auto
  show "lists_ok (Reorder i parent c)"
    using assms(1) mv[OF fg(2) _ i(1)] mv[OF fg(3) _ i(2)] by (cases "reclaimable e") (simp_all add: fg(1) lists_ok_def)
qed

text \<open>The tokens that an identity stands for: those of its block after those of its parent.\<close>

function spells :: "BlockIdentity \<Rightarrow> token list" where
  "spells x = (case identity_parent x of None \<Rightarrow> [] | Some p \<Rightarrow> spells p) @ Tokens x"
  by pat_completeness auto
termination
proof (relation "measure size", goal_cases)
  case (2 x p)
  then show ?case by (cases x) auto
qed simp

declare spells.simps [simp del]

lemma make_identity_simps [simp]:
  "identity_address (make_identity c h b ts p) = next_identity c" "identity_hash (make_identity c h b ts p) = h"
  "identity_block_id (make_identity c h b ts p) = b" "identity_parent (make_identity c h b ts p) = p"
  "Tokens (make_identity c h b ts p) = ts"
  by (auto simp: make_identity_def Tokens_def)

lemma identities_ok_insert:
  assumes "identities_ok S c" and "case parent of None \<Rightarrow> True | Some p \<Rightarrow> p \<in> S"
    and "hash = Hash c (case parent of None \<Rightarrow> RootHash | Some p \<Rightarrow> identity_hash p) ts"
    and c': "options c' = options c" "next_identity c' = next_identity c + 1"
    and at: "\<And>j. entry_at c' j = (if j = i then Some e else entry_at c j)" and e: "entry_identity e = make_identity c hash i ts parent"
  shows "identities_ok (insert (entry_identity e) S) c'"
proof -
  have "Hash c' = Hash c" using c'(1) by (simp add: Hash_def fun_eq_iff)
  moreover have "next_identity c \<notin> identity_address ` S" using assms(1) by (auto simp: identities_ok_def)
  ultimately show ?thesis
    using assms(1,2,3) c' unfolding identities_ok_def at e by (auto simp: e less_Suc_eq split: option.splits if_splits)
qed

lemma index_block_ok:
  assumes wf: "wf_cache held S (pool, c)" and own: "Owns pool (Some p)" and full: "IsFull (pool_store pool p)"
    and len: "length ts = pool_block_size pool" and noid: "identity (pool_store pool p) = None"
    and parent: "case parent of None \<Rightarrow> True | Some x \<Rightarrow> x \<in> S"
    and hash: "hash = Hash c (case parent of None \<Rightarrow> RootHash | Some x \<Rightarrow> identity_hash x) ts" "\<not> has_hash c hash"
    and budget: "IndexedBlocks c < max_blocks (options c)"
  obtains ident pool' c' where "index_block hash p ts parent (pool, c) = Inr (ident, pool', c')"
    and "wf_cache held (insert ident S) (pool', c')"
    and "Tokens ident = ts" and "identity_parent ident = parent" and "identity_hash ident = hash"
    and "options c' = options c" and "pool_block_size pool' = pool_block_size pool" and "Owns pool' = Owns pool"
    and "\<And>q. q \<noteq> p \<Longrightarrow> pool_store pool' q = pool_store pool q" and "block_id (pool_store pool' p) = block_id (pool_store pool p)"
    and "\<exists>e. entry_block e = p \<and> entry_identity e = ident
      \<and> (\<forall>j. entry_at c' j = (if j = block_id (pool_store pool p) then Some e else entry_at c j))"
proof -
  note d = wf_cacheD[OF wf]
  let ?b = "pool_store pool p" and ?i = "block_id (pool_store pool p)"
  let ?ident = "make_identity c hash ?i ts parent"
  have none: "entry_at c ?i = None"
  proof (cases "entry_at c ?i")
    case (Some e)
    then show ?thesis using owned_entry[OF d(2) own Some] entry_block_facts(6)[OF d(1,2) Some] noid by simp
  qed
  have ck: "reference_observer_cookie ?b = None" using cookie_entry[OF d(1,2) own] none by simp
  have i: "?i < pool_capacity pool" "pool_blocks pool ! ?i = Some p" using OwnsD[OF own] by auto
  have wb: "wf_block (pool_block_size pool) ?i ?b" by (rule wf_pool_slotD(2)[OF d(1) i])
  define e where "e = \<lparr>entry_block = p, entry_identity = ?ident, entry_checkpoint = None, entry_draft_checkpoint = None,
      parent_block_id = FindEntry c parent, reclaimable = False, promote_on_release = True\<rparr>"
  define c' where "c' = (set_entry ?i e c)\<lparr>next_identity := next_identity c + 1,
      recency := (case FindEntry c parent of None \<Rightarrow> recency c @ [?i] | Some q \<Rightarrow> insert_before q ?i (recency c)),
      referenced_entries := referenced_entries c @ [?i], entries_by_hash := entries_by_hash c @ [(hash, ?i)]\<rparr>"
  define b' where "b' = ?b\<lparr>ref_count := ref_count ?b + 1, identity := Some ?ident, reference_observer_cookie := Some ?i\<rparr>"
  define pool' where "pool' = put_block p b' pool"
  have add: "add_reference p pool = modify_block p Block_AddRef pool" using ck by (simp add: add_reference_def Let_def)
  have lt: "?i < length (entries c)" using i d(2) by (simp add: blocks_ok_def)
  have run: "index_block hash p ts parent (pool, c) = Inr (?ident, pool', c')"
    using none own full len wb
    by (auto simp: index_block_def Let_def e_def c'_def pool'_def b'_def AddRef_def add observed_def pool_result_def modify_block_def
        Block_AddRef_def SetIdentity_def IsFull_def wf_block_def put_block_def SetReferenceObserverCookie_def Owns_def)
  have at: "entry_at c' j = (if j = ?i then Some e else entry_at c j)" for j using lt by (simp add: c'_def)
  have own': "Owns pool' = Owns pool" by (auto simp: pool'_def put_block_def b'_def Owns_def fun_eq_iff split: option.splits)
  have wfp: "wf_pool pool'" unfolding pool'_def put_block_def
  proof (rule wf_pool_store_update[OF d(1)])
    fix j assume "j < pool_capacity pool" "pool_blocks pool ! j = Some p"
    then have "j = ?i" using wf_pool_slotD(2)[OF d(1)] by (auto simp: wf_block_def)
    then show "wf_block (pool_block_size pool) j b'" using wb full len by (simp add: b'_def wf_block_def IsFull_def)
  qed
  have "case entry_at c' j of Some e \<Rightarrow> indexed pool' j e
      | None \<Rightarrow> (\<forall>p. pool_blocks pool' ! j = Some p \<longrightarrow> identity (pool_store pool' p) = None \<and> reference_observer_cookie (pool_store pool' p) = None)"
    if j: "j < pool_capacity pool" for j
  proof (cases "j = ?i")
    case True
    have "0 < ref_count ?b" by (rule Owns_ref_count[OF d(1) own])
    then have "indexed pool' ?i e" using i by (simp add: indexed_def Let_def pool'_def put_block_def b'_def e_def)
    then show ?thesis using True by (simp add: at)
  next
    case False
    have st: "pool_store pool' q = pool_store pool q" if "pool_blocks pool ! j = Some q" for q
      using wf_pool_slotD(2)[OF d(1) j that] False by (auto simp: pool'_def put_block_def wf_block_def)
    show ?thesis
    proof (cases "entry_at c j")
      case None
      then show ?thesis using False unindexed_block[OF d(2) None j] st by (auto simp: at pool'_def put_block_def)
    next
      case (Some x)
      then have ix: "indexed pool j x" by (rule entry_block_facts(1)[OF d(1,2)])
      then have "pool_blocks pool ! j = Some (entry_block x)" by (simp add: indexed_def Let_def)
      from st[OF this] ix have "indexed pool' j x" by (simp add: indexed_def Let_def pool'_def put_block_def)
      then show ?thesis using Some False by (simp add: at)
    qed
  qed
  moreover have "length (entries c') = pool_capacity pool" "reference_observer pool' = reference_observer pool" "pool_capacity pool' = pool_capacity pool"
    "reference_observer pool \<noteq> None"
    using d(2) by (simp_all add: blocks_ok_def pool'_def put_block_def c'_def)
  ultimately have bo: "blocks_ok pool' c'" by (simp add: blocks_ok_def)
  have nhash: "hash \<notin> fst ` set (entries_by_hash c)" using hash(2) by (simp add: has_hash_def)
  have nin: "?i \<notin> ids_where P c" for P using none by (simp add: ids_where_def)
  have ids: "ids_where P c' = (if P e then insert ?i (ids_where P c) else ids_where P c)" for P
    using none by (auto simp: ids_where_def at)
  have "identity_hash (entry_identity e) = hash" by (simp add: e_def)
  have at': "entry_at c' j = Some x \<longleftrightarrow> (j = ?i \<and> x = e) \<or> entry_at c j = Some x" for j x using none by (auto simp: at)
  have "{(identity_hash (entry_identity x), j) | j x. entry_at c' j = Some x}
      = insert (hash, ?i) {(identity_hash (entry_identity x), j) | j x. entry_at c j = Some x}"
    using \<open>identity_hash (entry_identity e) = hash\<close> unfolding at' by blast
  then have lo: "lists_ok c'"
    using d(3) nhash nin unfolding lists_ok_def ids by (auto simp: c'_def e_def split: option.splits)
  have ident: "entry_identity e = ?ident" by (simp add: e_def)
  have io: "identities_ok (insert ?ident S) c'"
    using identities_ok_insert[OF d(4) parent hash(1) _ _ at ident] ident by (simp add: c'_def)
  have st': "pool_store pool' q = (if q = p then b' else pool_store pool q)" and bs: "ref_count b' = ref_count ?b + 1" "block_id b' = ?i" for q
    by (simp_all add: pool'_def put_block_def b'_def)
  have ro: "refs_ok held pool' c'"
  proof (unfold refs_ok_def, rule)
    fix q
    have "block_id (pool_store pool q) \<noteq> ?i" if "Owns pool (Some q)" "q \<noteq> p" using Owns_same_id[OF that(1) own] that(2) by auto
    then show "if Owns pool' (Some q) then ref_count (pool_store pool' q) = held q + (if entry_at c' (block_id (pool_store pool' q)) \<noteq> None then 1 else 0)
        else held q = 0"
      using refs_okD[OF d(5), of q] none own bs by (cases "q = p"; cases "Owns pool (Some q)") (simp_all add: own' at st')
  qed
  have "IndexedBlocks c' \<le> max_blocks (options c')" using budget nin by (simp add: IndexedBlocks_card ids) (simp add: c'_def)
  then have "wf_cache held (insert ?ident S) (pool', c')" using wfp bo lo io ro by (simp add: wf_cache_def)
  then show ?thesis
    by (rule that[OF run]) (use own' at in \<open>auto simp: c'_def pool'_def put_block_def b'_def e_def\<close>)
qed

end
