(* ===== verification/Prefix_Sharing.thy ===== *)
theory Prefix_Sharing
  imports Prefix_Retention
begin

text \<open>
  Blocks shared through the prefix index: the references of requests on lists of blocks, registration, and what every
  sequence of operations of the index and its clients guarantees.
\<close>

section \<open>Lists of references\<close>

lemma new_events_refl [simp]: "new_events pool pool = []"
  by (simp add: new_events_def)

lemma new_events_append:
  assumes "observer_events pool1 = observer_events pool @ new_events pool pool1"
    and "observer_events pool2 = observer_events pool1 @ new_events pool1 pool2"
  shows "new_events pool pool2 = new_events pool pool1 @ new_events pool1 pool2"
    and "observer_events pool2 = observer_events pool @ new_events pool pool2"
proof -
  have e: "observer_events pool2 = observer_events pool @ (new_events pool pool1 @ new_events pool1 pool2)"
    unfolding append_assoc[symmetric] assms(1)[symmetric] by (rule assms(2))
  show "new_events pool pool2 = new_events pool pool1 @ new_events pool1 pool2"
    by (subst new_events_def, subst e) simp
  with e show "observer_events pool2 = observer_events pool @ new_events pool pool2" by simp
qed

text \<open>A run of single references taken or dropped, with the notifications delivered.\<close>

definition delivered ::
  "(bptr \<Rightarrow> nat) \<Rightarrow> BlockIdentity set \<Rightarrow> BlockPool \<times> PrefixCache \<Rightarrow> BlockPool \<times> PrefixCache \<Rightarrow> bool" where
  "delivered held S w w' \<longleftrightarrow> run_result notice (new_events (fst w) (fst w')) (snd w) = Inr (snd w')
     \<and> observer_events (fst w') = observer_events (fst w) @ new_events (fst w) (fst w')
     \<and> wf_cache held S w' \<and> same_index (snd w) (snd w')
     \<and> pool_block_size (fst w') = pool_block_size (fst w)
     \<and> (\<forall>q. block_id (pool_store (fst w') q) = block_id (pool_store (fst w) q))
     \<and> (\<forall>q. Owns (fst w') (Some q) \<longrightarrow> Owns (fst w) (Some q))"

lemma delivered_refl: "wf_cache held S w \<Longrightarrow> delivered held S w w"
  by (cases w) (simp add: delivered_def)

lemma delivered_trans:
  assumes "delivered h1 S w w1" and "delivered h2 S w1 w2"
  shows "delivered h2 S w w2"
proof -
  have e: "observer_events (fst w1) = observer_events (fst w) @ new_events (fst w) (fst w1)"
    "observer_events (fst w2) = observer_events (fst w1) @ new_events (fst w1) (fst w2)"
    using assms by (simp_all add: delivered_def)
  show ?thesis
    using assms new_events_append[OF e] same_index_trans[of "snd w" "snd w1" "snd w2"]
    by (simp add: delivered_def run_result_append)
qed

lemma add_one:
  assumes "wf_cache held S (pool, c)" and "Owns pool (Some p)"
  obtains c' where "delivered (held(p := held p + 1)) S (pool, c) (add_reference p pool, c')"
    and "Owns (add_reference p pool) = Owns pool"
proof -
  note wf = wf_cacheD(1)[OF assms(1)]
  obtain c' where "run_result notice (new_events pool (add_reference p pool)) c = Inr c'"
    "wf_cache (held(p := held p + 1)) S (add_reference p pool, c')" "same_index c c'"
    by (rule add_reference_kept[OF assms]) blast
  then show ?thesis
    using that add_reference_correct[OF wf assms(2)] added_frame
    by (auto simp: delivered_def Block_AddRef_def)
qed

lemma drop_one:
  assumes "wf_cache held S (pool, c)" and "0 < held p"
  obtains pool' freed c' where "drop_reference p pool = Inr (pool', freed)" and "delivered (held(p := held p - 1)) S (pool, c) (pool', c')"
proof -
  have own: "Owns pool (Some p)" using refs_okD(2)[OF wf_cacheD(5)[OF assms(1)], of p] assms(2) by auto
  obtain pool' freed c' where d: "drop_reference p pool = Inr (pool', freed)" "run_result notice (new_events pool pool') c = Inr c'"
    "wf_cache (held(p := held p - 1)) S (pool', c')" "same_index c c'"
    "\<And>q. Owns pool' (Some q) \<longleftrightarrow> Owns pool (Some q) \<and> (q = p \<longrightarrow> ref_count (pool_store pool p) \<noteq> 1)"
    "\<And>q. block_id (pool_store pool' q) = block_id (pool_store pool q)"
    by (rule drop_reference_kept[OF assms(1) own assms(2)]) blast
  then show ?thesis using that dropped_frame[OF d(1)] by (simp add: delivered_def)
qed

lemma free_loop_kept:
  assumes "wf_cache held S (pool, c)" and "\<forall>p. count_list ps p \<le> held p"
  shows "\<exists>pool' c'. free_loop (map Some ps) pool = Inr pool'
    \<and> delivered (\<lambda>p. held p - count_list ps p) S (pool, c) (pool', c')"
  using assms
proof (induction ps arbitrary: held pool c)
  case Nil
  then show ?case using delivered_refl by fastforce
next
  case (Cons p ps)
  have "0 < held p" using Cons.prems(2)[rule_format, of p] by simp
  then obtain pool1 freed c1 where d: "drop_reference p pool = Inr (pool1, freed)" "delivered (held(p := held p - 1)) S (pool, c) (pool1, c1)"
    by (rule drop_one[OF Cons.prems(1)])
  have "count_list ps q \<le> (held(p := held p - 1)) q" for q
    using Cons.prems(2)[rule_format, of q] by (cases "q = p") auto
  moreover have "wf_cache (held(p := held p - 1)) S (pool1, c1)" using d(2) by (simp add: delivered_def)
  ultimately obtain pool' c' where r: "free_loop (map Some ps) pool1 = Inr pool'"
    "delivered (\<lambda>q. (held(p := held p - 1)) q - count_list ps q) S (pool1, c1) (pool', c')" using Cons.IH by meson
  have "(\<lambda>q. (held(p := held p - 1)) q - count_list ps q) = (\<lambda>q. held q - count_list (p # ps) q)" by (auto simp: fun_eq_iff)
  with delivered_trans[OF d(2) r(2)] d(1) r(1) show ?case by auto
qed

lemma add_times_kept:
  assumes "wf_cache held S (pool, c)" and "Owns pool (Some p)"
  shows "\<exists>c'. delivered (held(p := held p + n)) S (pool, c) (add_reference_times n p pool, c') \<and> Owns (add_reference_times n p pool) = Owns pool"
  using assms
proof (induction n arbitrary: held pool c)
  case 0
  then show ?case using delivered_refl[OF 0(1)] by auto
next
  case (Suc n)
  obtain c1 where d: "delivered (held(p := held p + 1)) S (pool, c) (add_reference p pool, c1)" "Owns (add_reference p pool) = Owns pool"
    by (rule add_one[OF Suc.prems])
  from d have "wf_cache (held(p := held p + 1)) S (add_reference p pool, c1)" by (simp add: delivered_def)
  then obtain c' where
    c': "delivered ((held(p := held p + 1))(p := (held(p := held p + 1)) p + n)) S (add_reference p pool, c1) (add_reference_times n p (add_reference p pool), c')"
    "Owns (add_reference_times n p (add_reference p pool)) = Owns (add_reference p pool)" using Suc.IH d(2) Suc.prems(2) by metis
  have "(held(p := held p + 1))(p := (held(p := held p + 1)) p + n) = held(p := held p + Suc n)" by simp
  then have "delivered (held(p := held p + Suc n)) S (pool, c) (add_reference_times (Suc n) p pool, c')"
    using delivered_trans[OF d(1) c'(1)] by simp
  moreover have "Owns (add_reference_times (Suc n) p pool) = Owns pool" using c'(2) d(2) by simp
  ultimately show ?case by blast
qed

lemma add_occurrences_kept:
  assumes "wf_cache held S (pool, c)" and "distinct (map fst occs)"
    and "\<forall>(i, n) \<in> set occs. \<exists>p. Owns pool (Some p) \<and> block_id (pool_store pool p) = i"
  shows "\<exists>held' c'. delivered held' S (pool, c) (add_occurrence_references occs pool, c')
    \<and> Owns (add_occurrence_references occs pool) = Owns pool
    \<and> (\<forall>p. held' p = held p + (if Owns pool (Some p) then (case map_of occs (block_id (pool_store pool p)) of None \<Rightarrow> 0 | Some n \<Rightarrow> n) else 0))"
  using assms
proof (induction occs arbitrary: held pool c)
  case Nil
  then show ?case using delivered_refl by fastforce
next
  case (Cons x occs)
  obtain i n where x: "x = (i, n)" by fastforce
  obtain p where p: "Owns pool (Some p)" "block_id (pool_store pool p) = i" using Cons.prems(3) x by auto
  have slot: "pool_blocks pool ! i = Some p" using p by (simp add: Owns_def)
  obtain c1 where d: "delivered (held(p := held p + n)) S (pool, c) (add_reference_times n p pool, c1)"
    "Owns (add_reference_times n p pool) = Owns pool" using add_times_kept[OF Cons.prems(1) p(1)] by blast
  let ?pool = "add_reference_times n p pool"
  have ids: "block_id (pool_store ?pool q) = block_id (pool_store pool q)" for q using d(1) by (simp add: delivered_def)
  have w1: "wf_cache (held(p := held p + n)) S (?pool, c1)" using d(1) by (simp add: delivered_def)
  have dd: "distinct (map fst occs)" using Cons.prems(2) by simp
  have own1: "\<forall>(i, n) \<in> set occs. \<exists>p. Owns ?pool (Some p) \<and> block_id (pool_store ?pool p) = i"
    using Cons.prems(3) by (simp add: d(2) ids)
  obtain held' c' where r: "delivered held' S (?pool, c1) (add_occurrence_references occs ?pool, c')"
    "Owns (add_occurrence_references occs ?pool) = Owns pool"
    "\<And>q. held' q = (held(p := held p + n)) q + (if Owns pool (Some q) then (case map_of occs (block_id (pool_store pool q)) of None \<Rightarrow> 0 | Some n \<Rightarrow> n) else 0)"
    using Cons.IH[OF w1 dd own1, unfolded d(2) ids] by blast
  have no: "map_of occs i = None" using Cons.prems(2) x by (simp add: map_of_eq_None_iff)
  have ne: "block_id (pool_store pool q) \<noteq> i" if "Owns pool (Some q)" "q \<noteq> p" for q using Owns_same_id[OF that(1) p(1)] that(2) p(2) by auto
  have "held' q = held q + (if Owns pool (Some q) then (case map_of (x # occs) (block_id (pool_store pool q)) of None \<Rightarrow> 0 | Some n \<Rightarrow> n) else 0)" for q
    using r(3)[of q] p no ne[of q] by (cases "q = p"; cases "Owns pool (Some q)") (simp_all add: x)
  then show ?case using delivered_trans[OF d(1) r(1)] r(2) by (auto simp: x slot)
qed

lemma wf_cache_same_blocks:
  assumes "wf_cache held S (pool, c)" and "wf_pool pool'" and "pool_blocks pool' = pool_blocks pool" and "pool_store pool' = pool_store pool"
    and "pool_capacity pool' = pool_capacity pool" and "reference_observer pool' = reference_observer pool"
  shows "wf_cache held S (pool', c)"
proof -
  have "Owns pool' = Owns pool" using assms by (auto simp: Owns_def fun_eq_iff split: option.splits)
  then show ?thesis using assms by (simp add: wf_cache_def blocks_ok_def indexed_def refs_ok_def cong: option.case_cong)
qed

text \<open>What a client may free: references it holds.\<close>

lemma Free_kept:
  assumes wf: "wf_cache held S (pool, c)" and h: "\<forall>p. count_list ps p \<le> held p"
  obtains pool' c' where "observed (Free (map Some ps)) (pool, c) = Inr (pool', c')"
    and "wf_cache (\<lambda>p. held p - count_list ps p) S (pool', c')" and "same_index c c'"
    and "pool_block_size pool' = pool_block_size pool" and "\<And>q. block_id (pool_store pool' q) = block_id (pool_store pool q)"
proof -
  note d = wf_cacheD[OF wf]
  have own: "Owns pool (Some p)" if "p \<in> set ps" for p
    using refs_okD(2)[OF d(5), of p] h[rule_format, of p] that by (metis count_list_0_iff le_zero_eq)
  have cnt: "count_list (map Some ps) (Some p) = count_list ps p" for p by (induction ps) auto
  have "count_list ps p \<le> ref_count (pool_store pool p)" if "p \<in> set ps" for p
    using refs_okD(1)[OF d(5) own[OF that]] h[rule_format, of p] by linarith
  then have "freeable (map Some ps) pool" using own by (auto simp: freeable_def list_all_iff cnt)
  then have val: "ValidateFree (map Some ps) pool = Inr ()" and can: "snd (CanFreeValidated (map Some ps) pool)"
    using CanFreeValidated_correct(3)[OF d(1)] by (simp_all add: ValidateFree_ok)
  obtain pool1 where p1: "CanFreeValidated (map Some ps) pool = (pool1, True)" "wf_pool pool1" "same_blocks pool pool1"
    using CanFreeValidated_correct[OF d(1), of "map Some ps"] can by (cases "CanFreeValidated (map Some ps) pool") auto
  have "wf_cache held S (pool1, c)" using p1(3) by (intro wf_cache_same_blocks[OF wf p1(2)]) (simp_all add: same_blocks_def)
  then obtain pool2 c' where r: "free_loop (map Some ps) pool1 = Inr pool2" "delivered (\<lambda>p. held p - count_list ps p) S (pool1, c) (pool2, c')"
    using free_loop_kept h by blast
  let ?pool = "if ps \<noteq> [] then pool2\<lparr>mutation_generation := mutation_generation pool2 + 1\<rparr> else pool2"
  have fr: "Free (map Some ps) pool = Inr ?pool" using val p1(1) r(1) by (simp add: Free_def FreeValidated_def)
  have "new_events pool ?pool = new_events pool1 pool2" using p1(3) by (simp add: new_events_def same_blocks_def)
  then have "observed (Free (map Some ps)) (pool, c) = Inr (?pool, c')"
    using r(2) by (simp add: observed_def fr pool_result_def new_events_def[symmetric] delivered_def)
  moreover have "wf_cache (\<lambda>p. held p - count_list ps p) S (?pool, c')"
  proof -
    have w2: "wf_cache (\<lambda>p. held p - count_list ps p) S (pool2, c')" using r(2) by (simp add: delivered_def)
    show ?thesis by (rule wf_cache_same_blocks[OF w2]) (use wf_cacheD(1)[OF w2] in simp_all)
  qed
  ultimately show ?thesis using r(2) p1(3) by (intro that[of ?pool c']) (simp_all add: delivered_def same_blocks_def)
qed

lemma AddRefs_kept:
  assumes wf: "wf_cache held S (pool, c)" and own: "\<forall>p \<in> set ps. Owns pool (Some p)"
  obtains pool' c' where "observed (AddRefs (map Some ps)) (pool, c) = Inr (pool', c')"
    and "wf_cache (\<lambda>p. held p + count_list ps p) S (pool', c')" and "same_index c c'"
    and "pool_block_size pool' = pool_block_size pool" and "\<And>q. block_id (pool_store pool' q) = block_id (pool_store pool q)"
proof -
  let ?hs = "map Some ps" let ?ids = "map (handle_id pool) ?hs" let ?occs = "occurrences_of (sort ?ids)"
  have owns: "list_all (Owns pool) ?hs" using own by (auto simp: list_all_iff)
  have occs: "?occs = map (\<lambda>i. (i, count_list ?ids i)) (remdups_adj (sort ?ids))" by (simp only: occurrences_of_sorted[OF sorted_sort] count_list_sort)
  have dist: "distinct (map fst ?occs)" unfolding occs by (simp add: o_def distinct_remdups_adj_sorted)
  have ids: "\<forall>(i, n) \<in> set ?occs. \<exists>p. Owns pool (Some p) \<and> block_id (pool_store pool p) = i"
    using own by (auto simp: set_occurrences handle_id_def)
  obtain held' c' where r: "delivered held' S (pool, c) (add_occurrence_references ?occs pool, c')"
    "\<And>p. held' p = held p + (if Owns pool (Some p) then (case map_of ?occs (block_id (pool_store pool p)) of None \<Rightarrow> 0 | Some n \<Rightarrow> n) else 0)"
    using add_occurrences_kept[OF wf dist ids] by blast
  have look: "(case map_of ?occs i of None \<Rightarrow> 0 | Some n \<Rightarrow> n) = count_list ?ids i" for i
  proof (cases "i \<in> set ?ids")
    case True
    then have "(i, count_list ?ids i) \<in> set ?occs" unfolding set_occurrences by blast
    then show ?thesis using dist by (simp only: map_of_is_SomeI option.case)
  next
    case False
    then have "map_of ?occs i = None" unfolding map_of_eq_None_iff set_occurrences by auto
    moreover have "count_list ?ids i = 0" using False by (rule count_notin)
    ultimately show ?thesis by (simp only: option.case)
  qed
  have cnt: "count_list ?hs (Some p) = count_list ps p" for p by (induction ps) auto
  have "held' p = held p + count_list ps p" for p
  proof (cases "Owns pool (Some p)")
    case True
    then show ?thesis using r(2)[of p] count_list_handle_id[OF owns True] cnt[of p] look by metis
  next
    case False
    then have "p \<notin> set ps" using own by auto
    then have "count_list ps p = 0" by (simp add: count_list_0_iff)
    then show ?thesis using r(2)[of p] False by simp
  qed
  then have h': "held' = (\<lambda>p. held p + count_list ps p)" by auto
  have "collect_ids OpAddReference pool ?hs = Inr ?ids" using owns by (simp only: collect_ids_ok)
  then have "AddRefs ?hs pool = Inr (add_occurrence_references ?occs pool)" by (simp add: AddRefs_def ValidateOwnership_def Let_def)
  then show ?thesis
    using r(1) by (intro that[of "add_occurrence_references ?occs pool" c'])
      (simp_all add: observed_def pool_result_def delivered_def new_events_def h')
qed

text \<open>New blocks are in slots that were free, so they are not indexed.\<close>

lemma publish_blocks_observer: "publish_blocks bs pool = (pool', ps) \<Longrightarrow> reference_observer pool' = reference_observer pool"
  by (induction bs arbitrary: pool pool' ps) (auto simp: publish_block_def split: prod.splits)

lemma allocate_frame:
  assumes "AllocateBlocksMarked n m pool = Inr (pool', ps)"
  shows "pool_capacity pool' = pool_capacity pool" and "pool_block_size pool' = pool_block_size pool"
    and "reference_observer pool' = reference_observer pool"
proof -
  let ?bs = "allocate_scan (pool_block_size pool) n m (BlocksNeeded pool n) (pool_blocks pool) 0 []"
  obtain pool1 qs where pb: "publish_blocks ?bs pool = (pool1, qs)" by fastforce
  then have "pool' = (if ?bs \<noteq> [] then pool1\<lparr>mutation_generation := mutation_generation pool1 + 1\<rparr> else pool1)"
    using assms by (auto simp: AllocateBlocksMarked_def Let_def split: if_splits)
  moreover have "reference_observer pool1 = reference_observer pool"
    by (rule publish_blocks_observer[OF pb])
  ultimately show "pool_capacity pool' = pool_capacity pool" "pool_block_size pool' = pool_block_size pool"
    "reference_observer pool' = reference_observer pool"
    using publish_blocks_frame[OF pb] by auto
qed

lemma allocation_owns:
  assumes wf: "wf_pool pool" and al: "AllocateBlocksMarked n m pool = Inr (pool', ps)"
  shows "Owns pool' (Some q) \<longleftrightarrow> q \<in> set ps \<or> Owns pool (Some q)"
    and "q \<in> set ps \<Longrightarrow> fresh_handle pool pool' q \<and> \<not> Owns pool (Some q) \<and> pool_blocks pool ! block_id (pool_store pool' q) = None"
    and "Owns pool (Some q) \<Longrightarrow> pool_store pool' q = pool_store pool q"
    and "i < pool_capacity pool \<Longrightarrow> pool_blocks pool' ! i = Some q \<Longrightarrow> q \<notin> set ps \<Longrightarrow> pool_blocks pool ! i = Some q"
    and "i < pool_capacity pool \<Longrightarrow> pool_blocks pool ! i = Some q \<Longrightarrow> pool_blocks pool' ! i = Some q"
proof -
  let ?I = "set (take (BlocksNeeded pool n) (free_ids pool))"
  have r: "wf_pool pool'" "allocation_result n m pool pool' ps" using AllocateBlocksMarked_result[OF wf al] by auto
  note cap = allocate_frame(1)[OF al]
  have I: "?I = (\<lambda>h. block_id (pool_store pool' h)) ` set ps" 
    using r(2) unfolding allocation_result_def by (metis image_set)
  have free: "i < pool_capacity pool \<and> pool_blocks pool ! i = None" if "i \<in> ?I" for i
    using that set_take_subset[of _ "free_ids pool"] set_free_ids[of pool] wf_pool_lengths(1)[OF wf] by auto
  have other: "pool_blocks pool' ! i = pool_blocks pool ! i" if "i \<notin> ?I" for i using r(2) that by (simp add: allocation_result_def)
  have fresh: "fresh_handle pool pool' h" if "h \<in> set ps" for h using r(2) that by (auto simp: allocation_result_def list_all_iff)
  have mine: "pool_blocks pool' ! i = Some h \<Longrightarrow> i \<in> ?I \<Longrightarrow> h \<in> set ps" for i h
    using fresh unfolding I by (auto simp: fresh_handle_def Owns_def)
  have old: "p < next_address pool \<and> pool_store pool' p = pool_store pool p" if "Owns pool (Some p)" for p
    using OwnsD[OF that] wf_pool_slotD(1)[OF wf] r(2) by (auto simp: allocation_result_def)
  show st: "Owns pool (Some q) \<Longrightarrow> pool_store pool' q = pool_store pool q" for q using old by blast
  show sl: "pool_blocks pool ! i = Some q \<Longrightarrow> pool_blocks pool' ! i = Some q" for i q using other free by (cases "i \<in> ?I") fastforce+
  show prior: "pool_blocks pool' ! i = Some q \<Longrightarrow> q \<notin> set ps \<Longrightarrow> pool_blocks pool ! i = Some q" for i q
    using other mine by (cases "i \<in> ?I") auto
  show "q \<in> set ps \<Longrightarrow> fresh_handle pool pool' q \<and> \<not> Owns pool (Some q) \<and> pool_blocks pool ! block_id (pool_store pool' q) = None"
    using fresh[of q] old[of q] free I by (auto simp: fresh_handle_def)
  show "Owns pool' (Some q) \<longleftrightarrow> q \<in> set ps \<or> Owns pool (Some q)"
  proof
    assume o: "Owns pool' (Some q)"
    show "q \<in> set ps \<or> Owns pool (Some q)"
    proof (cases "q \<in> set ps")
      case False
      let ?i = "block_id (pool_store pool' q)"
      have i: "?i < pool_capacity pool" "pool_blocks pool ! ?i = Some q" using OwnsD[OF o] prior[OF _ False] cap by auto
      from wf_pool_slotD[OF wf i] have "block_id (pool_store pool q) = ?i" by (simp add: wf_block_def)
      with i show ?thesis by (simp add: Owns_def)
    qed simp
  next
    assume "q \<in> set ps \<or> Owns pool (Some q)"
    then show "Owns pool' (Some q)"
    proof
      assume o: "Owns pool (Some q)"
      show ?thesis using OwnsD[OF o] old[OF o] sl[of "block_id (pool_store pool q)" q] cap by (simp add: Owns_def)
    qed (use fresh[of q] in \<open>simp add: fresh_handle_def\<close>)
  qed
qed

lemma count_list_distinct: "distinct xs \<Longrightarrow> x \<in> set xs \<Longrightarrow> count_list xs x = 1"
  by (induction xs) (auto simp: count_notin)

lemma allocation_kept:
  assumes wf: "wf_cache held S (pool, c)" and al: "AllocateBlocksMarked n m pool = Inr (pool', ps)"
  shows "wf_cache (\<lambda>p. held p + count_list ps p) S (pool', c)"
proof -
  note d = wf_cacheD[OF wf] and cap = allocate_frame[OF al]
  note ow = allocation_owns[OF wf_cacheD(1)[OF wf] al]
  have r: "wf_pool pool'" "allocation_result n m pool pool' ps" using AllocateBlocksMarked_result[OF d(1) al] by auto
  have "case entry_at c i of Some e \<Rightarrow> indexed pool' i e
      | None \<Rightarrow> (\<forall>p. pool_blocks pool' ! i = Some p \<longrightarrow> identity (pool_store pool' p) = None \<and> reference_observer_cookie (pool_store pool' p) = None)"
    if i: "i < pool_capacity pool" for i
  proof (cases "entry_at c i")
    case None
    have "identity (pool_store pool' p) = None \<and> reference_observer_cookie (pool_store pool' p) = None" if p: "pool_blocks pool' ! i = Some p" for p
    proof (cases "p \<in> set ps")
      case True
      then show ?thesis using ow(2) by (simp add: fresh_handle_def)
    next
      case False
      have "pool_blocks pool ! i = Some p" by (rule ow(4)[OF i p False])
      moreover from this have "Owns pool (Some p)" using wf_pool_slotD(2)[OF d(1) i] i by (simp add: Owns_def wf_block_def)
      ultimately show ?thesis using unindexed_block[OF d(2) None i] ow(3) by simp
    qed
    then show ?thesis using None by simp
  next
    case (Some e)
    have "indexed pool i e" "Owns pool (Some (entry_block e))" by (rule entry_block_facts[OF d(1,2) Some])+
    then have "indexed pool' i e" using ow(3,5) i by (simp add: indexed_def Let_def)
    then show ?thesis using Some by simp
  qed
  then have bo: "blocks_ok pool' c" using d(2) cap by (simp add: blocks_ok_def)
  have "if Owns pool' (Some q) then ref_count (pool_store pool' q) = (held q + count_list ps q) + (if entry_at c (block_id (pool_store pool' q)) \<noteq> None then 1 else 0)
      else held q + count_list ps q = 0" for q
  proof (cases "q \<in> set ps")
    case True
    have "entry_at c (block_id (pool_store pool' q)) = None"
    proof (cases "entry_at c (block_id (pool_store pool' q))")
      case (Some e)
      then show ?thesis using entry_block_facts(1)[OF d(1,2) Some] ow(2)[OF True] by (simp add: indexed_def Let_def)
    qed
    moreover have "count_list ps q = 1" using r(2) True by (simp add: allocation_result_def count_list_distinct)
    ultimately show ?thesis using ow(1,2) True refs_okD(2)[OF d(5), of q] by (simp add: fresh_handle_def)
  next
    case False
    then have "count_list ps q = 0" by (rule count_notin)
    then show ?thesis using False ow(1,3) refs_okD[OF d(5), of q] by simp
  qed
  then have "refs_ok (\<lambda>p. held p + count_list ps p) pool' c" by (simp add: refs_ok_def)
  with r(1) bo d show ?thesis by (simp add: wf_cache_def)
qed

text \<open>A block that still has room is not indexed.\<close>

lemma AddSlots_kept:
  assumes wf: "wf_cache held S (pool, c)" and own: "Owns pool (Some p)" and b: "AddSlots k (pool_store pool p) = Inr b"
  shows "wf_cache held S (put_block p b pool, c)" and "Owns (put_block p b pool) = Owns pool"
proof -
  note d = wf_cacheD[OF wf]
  let ?b = "pool_store pool p" and ?pool = "put_block p b pool"
  have i: "block_id ?b < pool_capacity pool" "pool_blocks pool ! block_id ?b = Some p" using OwnsD[OF own] by auto
  have wb: "wf_block (pool_block_size pool) (block_id ?b) ?b" by (rule wf_pool_slotD(2)[OF d(1) i])
  have b': "b = ?b\<lparr>block_slots_used := block_slots_used ?b + k\<rparr>" "block_slots_used ?b + k \<le> block_capacity ?b"
    using b wb by (auto simp: AddSlots_def EmptySlots_def wf_block_def split: if_splits)
  have wfp: "wf_pool ?pool" unfolding put_block_def
  proof (rule wf_pool_store_update[OF d(1)])
    fix j assume "j < pool_capacity pool" "pool_blocks pool ! j = Some p"
    then have "wf_block (pool_block_size pool) j ?b" by (rule wf_pool_slotD(2)[OF d(1)])
    with b' show "wf_block (pool_block_size pool) j b" by (auto simp: wf_block_def IsFull_def)
  qed
  show own': "Owns ?pool = Owns pool" by (auto simp: b'(1) put_block_def Owns_def fun_eq_iff split: option.splits)
  have "blocks_ok ?pool c"
  proof (rule blocks_ok_same_index[OF d(1,2) same_index_refl])
    fix j e assume "entry_at c j = Some e"
    then show "reclaimable e \<longleftrightarrow> ref_count (pool_store ?pool (entry_block e)) = 1" using flags_ok[OF d(1,2)] by (simp add: b'(1) put_block_def)
  qed (simp_all add: b'(1) put_block_def)
  moreover have "refs_ok held ?pool c"
  proof (unfold refs_ok_def own', rule)
    fix q
    have "ref_count (pool_store ?pool q) = ref_count (pool_store pool q)" "block_id (pool_store ?pool q) = block_id (pool_store pool q)"
      by (simp_all add: b'(1) put_block_def)
    then show "if Owns pool (Some q) then ref_count (pool_store ?pool q) = held q + (if entry_at c (block_id (pool_store ?pool q)) \<noteq> None then 1 else 0)
        else held q = 0" using refs_okD[OF d(5), of q] by simp
  qed
  ultimately show "wf_cache held S (?pool, c)" using wfp d by (simp add: wf_cache_def)
qed

section \<open>Adoption and checkpoints keep the index\<close>

lemma wf_cache_relisted:
  assumes wf: "wf_cache held S (pool, c)" and c: "same_index c c'" "lists_ok c'"
    and fl: "\<And>i. map_option reclaimable (entry_at c' i) = map_option reclaimable (entry_at c i)"
  shows "wf_cache held S (pool, c')"
proof -
  note d = wf_cacheD[OF wf]
  have "blocks_ok pool c'"
  proof (rule blocks_ok_same_index[OF d(1,2) c(1)])
    fix j e assume e: "entry_at c' j = Some e"
    then obtain e0 where "entry_at c j = Some e0" "entry_block e0 = entry_block e" using same_index_entry(2)[OF c(1)] by blast
    then show "reclaimable e \<longleftrightarrow> ref_count (pool_store pool (entry_block e)) = 1" using flags_ok[OF d(1,2)] fl[of j] e by fastforce
  qed simp_all
  moreover have "refs_ok held pool c'" using d(5) same_index_entry(1)[OF c(1)] by (simp add: refs_ok_def)
  ultimately show ?thesis
    using d c same_index_identities[OF c(1) d(4)] wf_cache_same_index[OF c(1) d(6)] by (simp add: wf_cache_def)
qed

lemma checkpoint_set: "lists_ok c \<Longrightarrow> set (checkpoint_entries c) = ids_where (\<lambda>e. entry_checkpoint e \<noteq> None) c"
  unfolding lists_ok_def by blast

lemma set_entry_kept:
  assumes wf: "wf_cache held S (pool, c)" and e: "entry_at c i = Some e"
    and e': "entry_block e' = entry_block e" "entry_identity e' = entry_identity e" "reclaimable e' = reclaimable e"
    and cps: "distinct cps" "set cps = (if entry_checkpoint e' \<noteq> None then insert i (set (checkpoint_entries c)) else set (checkpoint_entries c) - {i})"
  shows "wf_cache held S (pool, (set_entry i e' c)\<lparr>checkpoint_entries := cps\<rparr>)" and "same_index c ((set_entry i e' c)\<lparr>checkpoint_entries := cps\<rparr>)"
proof -
  let ?c = "(set_entry i e' c)\<lparr>checkpoint_entries := cps\<rparr>"
  have lt: "i < length (entries c)" by (rule entry_at_lt[OF e])
  have at: "entry_at ?c j = (if j = i then Some e' else entry_at c j)" for j using lt by simp
  show same: "same_index c ?c" unfolding same_index_def at using e e' by simp
  have l: "lists_ok c" by (rule wf_cacheD(3)[OF wf])
  have keep: "ids_where P ?c = ids_where P c" if "P e = P e'" for P using that e by (auto simp: ids_where_def at)
  have "ids_where (\<lambda>_. True) ?c = ids_where (\<lambda>_. True) c" "ids_where reclaimable ?c = ids_where reclaimable c"
    "ids_where (\<lambda>e. \<not> reclaimable e) ?c = ids_where (\<lambda>e. \<not> reclaimable e) c" by (rule keep, simp add: e'(3))+
  moreover have "ids_where (\<lambda>e. entry_checkpoint e \<noteq> None) ?c = set cps"
    using cps(2) checkpoint_set[OF l]
    by (simp only: ids_where_simps ids_where_set_entry[OF lt])
  ultimately have "lists_ok ?c" using l cps(1) hash_set_same_index[OF same] by (simp add: lists_ok_def)
  then show "wf_cache held S (pool, ?c)" by (rule wf_cache_relisted[OF wf same]) (simp add: at e e'(3))
qed

lemma set_entry_plain_kept:
  assumes "wf_cache held S (pool, c)" and "entry_at c i = Some e"
    and "entry_block e' = entry_block e" "entry_identity e' = entry_identity e" "reclaimable e' = reclaimable e"
    and "entry_checkpoint e' = None \<longleftrightarrow> entry_checkpoint e = None"
  shows "wf_cache held S (pool, set_entry i e' c)" and "same_index c (set_entry i e' c)"
proof -
  have l: "lists_ok c" by (rule wf_cacheD(3)[OF assms(1)])
  have "i \<in> set (checkpoint_entries c) \<longleftrightarrow> entry_checkpoint e \<noteq> None" using l assms(2) by (auto simp: lists_ok_def ids_where_def)
  then have "set (checkpoint_entries c) = (if entry_checkpoint e' \<noteq> None then insert i (set (checkpoint_entries c)) else set (checkpoint_entries c) - {i})"
    using assms(6) by auto
  from set_entry_kept[OF assms(1-5) _ this] l
  show "wf_cache held S (pool, set_entry i e' c)" "same_index c (set_entry i e' c)"
    by (simp_all add: lists_ok_def set_entry_def)
qed

lemma FindEntry_own: "entry_at c i = Some e \<Longrightarrow> identity_block_id (entry_identity e) = i \<Longrightarrow> FindEntry c (Some (entry_identity e)) = Some i"
  by (simp add: FindEntry_def)

lemma PromoteCheckpoint_ok:
  "lists_ok c \<Longrightarrow> lists_ok (PromoteCheckpoint i c)" "same_entries c (PromoteCheckpoint i c)"
  by (auto simp: PromoteCheckpoint_def lists_ok_def same_entries_def ids_where_def)

lemma same_entries_index: "same_entries c c' \<Longrightarrow> same_index c c'"
  using same_entries_at[of c c'] by (auto simp: same_entries_def same_index_def)

lemma same_entries_trans: "same_entries a b \<Longrightarrow> same_entries b c \<Longrightarrow> same_entries a c"
  by (simp add: same_entries_def)

text \<open>The blocks of a match, while they are indexed.\<close>

definition all_indexed :: "bptr list \<Rightarrow> PrefixCache \<Rightarrow> bool" where
  "all_indexed ps c \<longleftrightarrow> (\<forall>p \<in> set ps. \<exists>i e. entry_at c i = Some e \<and> entry_block e = p)"

lemma all_indexed_same: "same_index c c' \<Longrightarrow> all_indexed ps c \<Longrightarrow> all_indexed ps c'"
  unfolding all_indexed_def by (metis same_index_entry(3))

definition adopt_one :: "nat \<Rightarrow> Entry \<Rightarrow> PrefixCache \<Rightarrow> PrefixCache" where
  "adopt_one i e c = PromoteCheckpoint i (Reorder i (identity_parent (entry_identity e)) (set_entry i (e\<lparr>promote_on_release := True\<rparr>) c))"

lemma adopt_one_kept:
  assumes wf: "wf_cache held S (pool, c)" and e: "entry_at c i = Some e"
  shows "wf_cache held S (pool, adopt_one i e c)" and "same_index c (adopt_one i e c)"
proof -
  let ?e = "e\<lparr>promote_on_release := True\<rparr>"
  let ?c1 = "set_entry i ?e c"
  have w1: "wf_cache held S (pool, ?c1)" "same_index c ?c1" by (rule set_entry_plain_kept[OF wf e]; simp)+
  have at1: "entry_at ?c1 i = Some ?e" using entry_at_lt[OF e] by simp
  note r = Reorder_ok[OF wf_cacheD(3)[OF w1(1)] at1, of "identity_parent (entry_identity e)"]
  have se: "same_entries ?c1 (adopt_one i e c)" unfolding adopt_one_def by (rule same_entries_trans[OF r(1) PromoteCheckpoint_ok(2)])
  have "lists_ok (adopt_one i e c)" unfolding adopt_one_def by (rule PromoteCheckpoint_ok(1)[OF r(2)])
  then show "wf_cache held S (pool, adopt_one i e c)" by (rule wf_cache_same_entries[OF w1(1) se])
  show "same_index c (adopt_one i e c)" by (rule same_index_trans[OF w1(2) same_entries_index[OF se]])
qed

lemma adopt_entries_step:
  assumes wf: "wf_cache held S (pool, c)" and e: "entry_at c i = Some e" "entry_block e = p"
  shows "adopt_entries (p # ps) pool c = adopt_entries ps pool (adopt_one i e c)"
proof -
  note f = entry_block_facts[OF wf_cacheD(1,2)[OF wf] e(1)]
  show ?thesis using f(6) e FindEntry_own[OF e(1) f(8)] by (simp add: adopt_one_def Let_def)
qed

lemma adopt_entries_ok:
  assumes "wf_cache held S (pool, c)" and "all_indexed ps c"
  shows "\<exists>c'. adopt_entries ps pool c = Inr c' \<and> wf_cache held S (pool, c') \<and> same_index c c'"
  using assms
proof (induction ps arbitrary: c)
  case (Cons p ps)
  obtain i e where e: "entry_at c i = Some e" "entry_block e = p" using Cons.prems(2) by (auto simp: all_indexed_def)
  note w = adopt_one_kept[OF Cons.prems(1) e(1)]
  have "all_indexed ps (adopt_one i e c)" using all_indexed_same[OF w(2) Cons.prems(2)] by (simp add: all_indexed_def)
  from Cons.IH[OF w(1) this] show ?case using adopt_entries_step[OF Cons.prems(1) e] same_index_trans[OF w(2)] by auto
qed simp

text \<open>An adoption that went through was of indexed blocks.\<close>

lemma adopt_entries_indexed:
  assumes "wf_cache held S (pool, c)" and "adopt_entries ps pool c = Inr c'"
  shows "all_indexed ps c"
  using assms
proof (induction ps arbitrary: c)
  case (Cons p ps)
  from Cons.prems(2) obtain x i where i: "FindEntry c (Some x) = Some i" "entry_block (the (entry_at c i)) = p"
    by (auto simp: Let_def split: option.splits if_splits)
  obtain e where e: "entry_at c i = Some e" by (rule FindEntry_Some[OF i(1)]) blast
  with i(2) have p: "entry_block e = p" by simp
  note w = adopt_one_kept[OF Cons.prems(1) e]
  have "all_indexed ps (adopt_one i e c)" using Cons.IH[OF w(1)] Cons.prems(2) adopt_entries_step[OF Cons.prems(1) e p] by simp
  moreover have "same_index (adopt_one i e c) c" using w(2) by (simp add: same_index_def)
  ultimately have "all_indexed ps c" by (rule all_indexed_same[rotated])
  with e p show ?case by (auto simp: all_indexed_def)
qed (simp add: all_indexed_def)

lemma RecordAdoption_ok:
  assumes "wf_cache held S (pool, c)" and "all_indexed ps c"
  shows "\<exists>c'. RecordAdoption ps pool c = Inr c' \<and> wf_cache held S (pool, c') \<and> same_index c c'"
  using assms adopt_entries_ok[OF assms] by (auto simp: RecordAdoption_def same_index_def)

lemma RecordAdoption_kept:
  assumes "wf_cache held S (pool, c)" and "RecordAdoption ps pool c = Inr c'"
  shows "wf_cache held S (pool, c') \<and> same_index c c'"
proof -
  have "all_indexed ps c"
    using assms adopt_entries_indexed[OF assms(1)]
    by (cases "ps = []") (auto simp: RecordAdoption_def bind_result_Inr_iff all_indexed_def)
  from RecordAdoption_ok[OF assms(1) this] assms(2) show ?thesis by simp
qed

lemma find_SomeD: "find P xs = Some x \<Longrightarrow> x \<in> set xs \<and> P x"
  by (auto simp: find_Some_iff)

lemma ReclaimCheckpoint_ok:
  assumes "wf_cache held S (pool, c)"
  shows "wf_cache held S (pool, snd (ReclaimCheckpoint owners a c)) \<and> same_index c (snd (ReclaimCheckpoint owners a c))
    \<and> set (checkpoint_entries (snd (ReclaimCheckpoint owners a c))) \<subseteq> set (checkpoint_entries c)"
proof (cases "ReclaimCheckpoint owners a c = (False, c)")
  case False
  note l = wf_cacheD(3)[OF assms]
  from False obtain i where i: "i \<in> set (checkpoint_entries c)"
    and r: "ReclaimCheckpoint owners a c = (True, (set_entry i ((the (entry_at c i))\<lparr>entry_checkpoint := None, entry_draft_checkpoint := None\<rparr>) c)
        \<lparr>checkpoint_entries := remove1 i (checkpoint_entries c)\<rparr>)"
    unfolding ReclaimCheckpoint_def by (auto dest!: find_SomeD split: option.splits)
  from i obtain e where e: "entry_at c i = Some e" unfolding checkpoint_set[OF l] ids_where_def by blast
  have "distinct (checkpoint_entries c)" using l by (simp add: lists_ok_def)
  then show ?thesis
    using set_entry_kept[OF assms e, where e' = "e\<lparr>entry_checkpoint := None, entry_draft_checkpoint := None\<rparr>"
        and cps = "remove1 i (checkpoint_entries c)"] by (auto simp: r e)
qed (simp add: assms)

lemma ReclaimCheckpoints_ok:
  assumes "wf_cache held S (pool, c)"
  shows "wf_cache held S (pool, snd (ReclaimCheckpoints owners n c)) \<and> same_index c (snd (ReclaimCheckpoints owners n c))
    \<and> set (checkpoint_entries (snd (ReclaimCheckpoints owners n c))) \<subseteq> set (checkpoint_entries c)"
  using assms
proof (induction n arbitrary: c)
  case (Suc n)
  let ?r = "ReclaimCheckpoint owners (ReclaimableCheckpoint owners c None) c"
  have one: "wf_cache held S (pool, snd ?r)" "same_index c (snd ?r)" "set (checkpoint_entries (snd ?r)) \<subseteq> set (checkpoint_entries c)" using ReclaimCheckpoint_ok[OF Suc.prems] by auto
  show ?case
  proof (cases "fst ?r")
    case True
    then have "snd (ReclaimCheckpoints owners (Suc n) c) = snd (ReclaimCheckpoints owners n (snd ?r))"
      by (cases ?r) (simp split: prod.splits)
    then show ?thesis using Suc.IH[OF one(1)] same_index_trans[OF one(2)] one(3) by auto
  next
    case False
    then show ?thesis using Suc.prems by (cases ?r) simp
  qed
qed simp

lemma AttachCheckpoint_ok:
  assumes wf: "wf_cache held S (pool, c)" and at: "AttachCheckpoint owners ident cp pool c = Inr (ok, c')"
  shows "wf_cache held S (pool, c') \<and> same_index c c'"
proof (cases "c' = c")
  case False
  then obtain i where i: "FindEntry c ident = Some i" and no: "cp \<noteq> None" "entry_checkpoint (the (entry_at c i)) = None"
    using at by (auto simp: AttachCheckpoint_def split: if_splits option.splits)
  obtain e0 where e0: "entry_at c i = Some e0" by (rule FindEntry_Some[OF i]) blast
  define r where "r = (if CheckpointCount c \<ge> max_checkpoints (options c) then ReclaimCheckpoints owners 1 c else (1, c))"
  have w1: "wf_cache held S (pool, snd r)" "same_index c (snd r)" using ReclaimCheckpoints_ok[OF wf, of owners 1] wf by (auto simp: r_def)
  obtain e where e: "entry_at (snd r) i = Some e" using same_index_entry(3)[OF w1(2) e0] by blast
  let ?c2 = "(set_entry i (e\<lparr>entry_checkpoint := cp\<rparr>) (snd r))\<lparr>checkpoint_entries := checkpoint_entries (snd r) @ [i]\<rparr>"
  have c': "c' = snd r \<or> c' = Reorder i (identity_parent (entry_identity e)) ?c2"
    using at no i e by (auto simp: AttachCheckpoint_def r_def Let_def split: if_splits option.splits prod.splits)
  have free: "i \<notin> set (checkpoint_entries (snd r))"
    using no(2) e0 checkpoint_set[OF wf_cacheD(3)[OF wf]] ReclaimCheckpoints_ok[OF wf, of owners 1] by (auto simp: r_def ids_where_def)
  have w2: "wf_cache held S (pool, ?c2)" "same_index (snd r) ?c2"
    by (rule set_entry_kept[OF w1(1) e]; use free wf_cacheD(3)[OF w1(1)] no(1) in \<open>simp add: lists_ok_def\<close>)+
  have "entry_at ?c2 i = Some (e\<lparr>entry_checkpoint := cp\<rparr>)" using entry_at_lt[OF e] by simp
  note ro = Reorder_ok[OF wf_cacheD(3)[OF w2(1)] this]
  show ?thesis
    using c' w1 wf_cache_same_entries[OF w2(1) ro(1,2)] same_index_trans[OF same_index_trans[OF w1(2) w2(2)] same_entries_index[OF ro(1)]] by blast
qed (simp add: wf)

lemma AttachDraftCheckpoint_ok:
  assumes wf: "wf_cache held S (pool, c)"
  shows "wf_cache held S (pool, snd (AttachDraftCheckpoint owners ident cp d c)) \<and> same_index c (snd (AttachDraftCheckpoint owners ident cp d c))"
proof (cases "snd (AttachDraftCheckpoint owners ident cp d c) = c")
  case False
  then obtain i where i: "FindEntry c ident = Some i"
    and r: "snd (AttachDraftCheckpoint owners ident cp d c) = set_entry i ((the (entry_at c i))\<lparr>entry_draft_checkpoint := d\<rparr>) c"
    by (auto simp: AttachDraftCheckpoint_def Let_def split: if_splits option.splits)
  obtain e where e: "entry_at c i = Some e" by (rule FindEntry_Some[OF i]) blast
  show ?thesis using set_entry_plain_kept[OF wf e, of "e\<lparr>entry_draft_checkpoint := d\<rparr>"] by (simp add: r e)
qed (simp add: wf)

lemma DropUnleased_ok:
  assumes wf: "wf_cache held S (pool, c)"
  shows "wf_cache held S (pool, DropUnleasedDraftCheckpoints owners c) \<and> same_index c (DropUnleasedDraftCheckpoints owners c)"
proof -
  let ?f = "\<lambda>e. case entry_draft_checkpoint e of
        Some d \<Rightarrow> if draft_use_count owners (draft_address d) = 1 then e\<lparr>entry_draft_checkpoint := None\<rparr> else e
      | None \<Rightarrow> e"
  let ?c = "DropUnleasedDraftCheckpoints owners c"
  have f: "entry_block (?f e) = entry_block e" "entry_identity (?f e) = entry_identity e" "reclaimable (?f e) = reclaimable e"
    "entry_checkpoint (?f e) = entry_checkpoint e" for e
    by (auto split: option.splits)
  have at: "entry_at ?c i = map_option ?f (entry_at c i)" for i by (simp add: entry_at_def DropUnleasedDraftCheckpoints_def)
  have same: "same_index c ?c"
    unfolding same_index_def at option.map_comp o_def f by (simp add: DropUnleasedDraftCheckpoints_def)
  have "ids_where P ?c = ids_where P c" if "\<And>e. P (?f e) = P e" for P
    unfolding ids_where_def at using that by auto
  then have "ids_where (\<lambda>_. True) ?c = ids_where (\<lambda>_. True) c" "ids_where reclaimable ?c = ids_where reclaimable c"
    "ids_where (\<lambda>e. \<not> reclaimable e) ?c = ids_where (\<lambda>e. \<not> reclaimable e) c"
    "ids_where (\<lambda>e. entry_checkpoint e \<noteq> None) ?c = ids_where (\<lambda>e. entry_checkpoint e \<noteq> None) c" by (simp_all only: f)
  then have "lists_ok ?c" using wf_cacheD(3)[OF wf] hash_set_same_index[OF same]
    unfolding lists_ok_def by (simp add: DropUnleasedDraftCheckpoints_def)
  then have "wf_cache held S (pool, ?c)"
    by (rule wf_cache_relisted[OF wf same]) (simp only: at option.map_comp o_def f)
  with same show ?thesis by blast
qed

section \<open>Registration\<close>

lemma shrunk_kept_block:
  assumes "wf_cache held S (pool, c)" "wf_cache held S (pool', c')" "shrunk (pool, c) (pool', c')"
    and "Owns pool (Some p)" and "0 < held p"
  shows "Owns pool' (Some p)" and "pool_store pool' p = pool_store pool p"
proof -
  show o: "Owns pool' (Some p)" using refs_okD(2)[OF wf_cacheD(5)[OF assms(2)], of p] assms(5) by auto
  then show "pool_store pool' p = pool_store pool p" using assms(3) by (simp add: shrunk_def)
qed

lemma unindexed_held:
  assumes "wf_cache held S (pool, c)" and "Owns pool (Some p)" and "identity (pool_store pool p) = None"
  shows "entry_at c (block_id (pool_store pool p)) = None" and "0 < held p"
proof -
  note d = wf_cacheD[OF assms(1)]
  show n: "entry_at c (block_id (pool_store pool p)) = None"
  proof (cases "entry_at c (block_id (pool_store pool p))")
    case (Some e)
    then show ?thesis using owned_entry[OF d(2) assms(2) Some] entry_block_facts(6)[OF d(1,2) Some] assms(3) by simp
  qed
  show "0 < held p" using refs_okD(1)[OF d(5) assms(2)] n Owns_ref_count[OF d(1) assms(2)] by simp
qed

lemma indexed_identity:
  assumes "wf_cache held S (pool, c)" and "Owns pool (Some p)" and "identity (pool_store pool p) = Some x"
  obtains e where "entry_at c (block_id (pool_store pool p)) = Some e" and "entry_block e = p" and "entry_identity e = x" and "x \<in> S"
    and "identity_block_id x = block_id (pool_store pool p)"
proof -
  note d = wf_cacheD[OF assms(1)] and i = OwnsD[OF assms(2)]
  obtain e where e: "entry_at c (block_id (pool_store pool p)) = Some e"
    using unindexed_block[OF d(2)] i assms(3) by (cases "entry_at c (block_id (pool_store pool p))") auto
  have p: "entry_block e = p" by (rule owned_entry[OF d(2) assms(2) e])
  with entry_block_facts(6,8)[OF d(1,2) e] assms(3) have "entry_identity e = x" "identity_block_id x = block_id (pool_store pool p)" by auto
  with that[OF e p] d(4) e show ?thesis by (auto simp: identities_ok_def)
qed

lemma FindPhysical_Some:
  assumes "FindPhysical c hash parent ts = Some i"
  obtains e where "entry_at c i = Some e" and "same_identity (identity_parent (entry_identity e)) parent" and "Tokens (entry_identity e) = ts"
    and "(hash, i) \<in> set (entries_by_hash c)"
  using assms that by (auto simp: FindPhysical_def dest!: find_SomeD split: option.splits)

text \<open>What a registration gives back, and the index it leaves.\<close>

definition registered :: "BlockPool \<times> PrefixCache \<Rightarrow> bptr \<Rightarrow> token list \<Rightarrow> BlockIdentity option \<Rightarrow> PrefixCacheRegistration \<Rightarrow> BlockPool \<times> PrefixCache \<Rightarrow> bool" where
  "registered w p ts parent r w' \<longleftrightarrow>
     options (snd w') = options (snd w) \<and> pool_block_size (fst w') = pool_block_size (fst w)
     \<and> (registration_status r = Indexed \<longleftrightarrow> registration_identity r \<noteq> None)
     \<and> identity (pool_store (fst w') p) = registration_identity r
     \<and> (registration_identity r = None \<longrightarrow> pool_store (fst w') p = pool_store (fst w) p)
     \<and> (\<forall>x. registration_identity r = Some x \<longrightarrow> identity (pool_store (fst w) p) = None \<longrightarrow> Tokens x = ts \<and> identity_parent x = parent)
     \<and> (\<forall>q. q \<noteq> p \<longrightarrow> Owns (fst w') (Some q) \<longrightarrow> Owns (fst w) (Some q) \<and> pool_store (fst w') q = pool_store (fst w) q)"

lemma Register_unindexed:
  assumes "Enabled c" and "IsFull (pool_store pool p)" and "length ts = block_capacity (pool_store pool p)"
    and "identity (pool_store pool p) = None" and "Owns pool (Some p)"
    and "hash = Hash c (case parent of None \<Rightarrow> RootHash | Some x \<Rightarrow> identity_hash x) ts"
  shows "FindPhysical c hash parent ts = Some j \<Longrightarrow> Register owners (Some p) ts parent (pool, c) =
      Inr (\<lparr>registration_status = Duplicate, registration_identity = None\<rparr>, pool,
        Reorder j parent (count_metrics (\<lambda>m. m\<lparr>duplicate_registrations := duplicate_registrations m + 1\<rparr>) c))"
    and "FindPhysical c hash parent ts = None \<Longrightarrow> has_hash c hash \<Longrightarrow> Register owners (Some p) ts parent (pool, c) =
      Inr (\<lparr>registration_status = HashCollision, registration_identity = None\<rparr>, pool,
        count_metrics (\<lambda>m. m\<lparr>hash_collisions := hash_collisions m + 1\<rparr>) c)"
    and "FindPhysical c hash parent ts = None \<Longrightarrow> \<not> has_hash c hash \<Longrightarrow>
      (if IndexedBlocks c \<ge> max_blocks (options c) then Reclaim owners 1 (pool, c) else Inr (1, (pool, c))) = Inr (n, w1) \<Longrightarrow>
      Register owners (Some p) ts parent (pool, c) =
       (if n = 0 then Inr (\<lparr>registration_status = CapacityRefused, registration_identity = None\<rparr>, fst w1,
              count_metrics (\<lambda>m. m\<lparr>retention_refusals := retention_refusals m + 1\<rparr>) (snd w1))
        else bind_result (index_block hash p ts parent w1) (\<lambda>(ident, pool2, cache2).
              Inr (\<lparr>registration_status = Indexed, registration_identity = Some ident\<rparr>, pool2,
                count_metrics (\<lambda>m. m\<lparr>registered_blocks := registered_blocks m + 1\<rparr>) cache2)))"
  using assms by (simp_all add: Register_def HasIdentity_def Let_def)

lemma make_room:
  assumes wf: "wf_cache held S (pool, c)" and en: "Enabled c"
  obtains n pool1 c1 where "(if IndexedBlocks c \<ge> max_blocks (options c) then Reclaim owners 1 (pool, c) else Inr (1, (pool, c))) = Inr (n, (pool1, c1))"
    and "wf_cache held S (pool1, c1)" and "shrunk (pool, c) (pool1, c1)" and "n \<noteq> 0 \<Longrightarrow> IndexedBlocks c1 < max_blocks (options c1)"
proof (cases "IndexedBlocks c \<ge> max_blocks (options c)")
  case False
  then show ?thesis using wf by (intro that[of 1 pool c]) auto
next
  case True
  obtain w' where w': "Reclaim owners 1 (pool, c) = Inr (min 1 (ReclaimableBlocks owners c), w')" "wf_cache held S w'" "shrunk (pool, c) w'"
    "IndexedBlocks (snd w') + min 1 (ReclaimableBlocks owners c) = IndexedBlocks c"
    using Reclaim_ok[OF wf, of owners 1] by auto
  show ?thesis using True w' wf_cacheD(6)[OF wf]
    by (intro that[of "min 1 (ReclaimableBlocks owners c)" "fst w'" "snd w'"]) (simp_all add: shrunk_def)
qed

lemma has_hash_entry: "lists_ok c \<Longrightarrow> has_hash c h \<longleftrightarrow> (\<exists>i e. entry_at c i = Some e \<and> identity_hash (entry_identity e) = h)"
proof -
  assume l: "lists_ok c"
  have eq: "set (entries_by_hash c) = {(identity_hash (entry_identity e), i) | i e. entry_at c i = Some e}" using l unfolding lists_ok_def by (elim conjE)
  have "has_hash c h \<longleftrightarrow> (\<exists>i. (h, i) \<in> set (entries_by_hash c))" by (force simp: has_hash_def)
  then show "has_hash c h \<longleftrightarrow> (\<exists>i e. entry_at c i = Some e \<and> identity_hash (entry_identity e) = h)"
    unfolding eq by blast
qed

lemma shrunk_hash: "lists_ok c \<Longrightarrow> lists_ok c' \<Longrightarrow> shrunk (pool, c) (pool', c') \<Longrightarrow> has_hash c' h \<Longrightarrow> has_hash c h"
  unfolding has_hash_entry shrunk_def by (metis option.distinct(1) snd_conv)

lemma Register_ok:
  assumes wf: "wf_cache held S (pool, c)" and own: "Owns pool (Some p)" and full: "IsFull (pool_store pool p)"
    and len: "length ts = pool_block_size pool" and parent: "case parent of None \<Rightarrow> True | Some x \<Rightarrow> x \<in> S" and en: "Enabled c"
  shows "\<exists>r w'. Register owners (Some p) ts parent (pool, c) = Inr (r, w')
    \<and> wf_cache held (S \<union> set_option (registration_identity r)) w' \<and> registered (pool, c) p ts parent r w'"
proof -
  note d = wf_cacheD[OF wf] and i = OwnsD[OF own]
  let ?b = "pool_store pool p" and ?hash = "Hash c (case parent of None \<Rightarrow> RootHash | Some x \<Rightarrow> identity_hash x) ts"
  have cap: "length ts = block_capacity ?b" using wf_pool_slotD(2)[OF d(1) i] len by (simp add: wf_block_def)
  show ?thesis
  proof (cases "identity ?b")
    case (Some x)
    have "x \<in> S" by (rule indexed_identity[OF wf own Some])
    moreover have "Register owners (Some p) ts parent (pool, c) = Inr (\<lparr>registration_status = Indexed, registration_identity = Some x\<rparr>, pool, c)"
      using en full cap Some by (simp add: Register_def HasIdentity_def Let_def)
    ultimately show ?thesis using wf Some by (simp add: registered_def insert_absorb)
  next
    case None
    note reg = Register_unindexed[OF en full cap None own refl, where parent = parent and owners = owners]
    note held = unindexed_held[OF wf own None]
    show ?thesis
    proof (cases "FindPhysical c ?hash parent ts")
      case existing: (Some j)
      let ?c = "count_metrics (\<lambda>m. m\<lparr>duplicate_registrations := duplicate_registrations m + 1\<rparr>) c"
      obtain e where e: "entry_at c j = Some e" by (rule FindPhysical_Some[OF existing])
      have l: "lists_ok ?c" using d(3) by (simp add: lists_ok_def)
      have e1: "entry_at ?c j = Some e" using e by simp
      note ro = Reorder_ok[OF l e1, of parent]
      have "wf_cache held S (pool, ?c)" using wf by simp
      from wf_cache_same_entries[OF this ro(1,2)] ro(1) show ?thesis
        using None by (simp add: reg(1)[OF existing] registered_def same_entries_def)
    next
      case new: None
      show ?thesis
      proof (cases "has_hash c ?hash")
        case True
        then show ?thesis using None wf by (simp add: reg(2)[OF new True] registered_def)
      next
        case False
        obtain n pool1 c1 where mr: "(if IndexedBlocks c \<ge> max_blocks (options c) then Reclaim owners 1 (pool, c) else Inr (1, (pool, c))) = Inr (n, (pool1, c1))"
          "wf_cache held S (pool1, c1)" "shrunk (pool, c) (pool1, c1)" "n \<noteq> 0 \<Longrightarrow> IndexedBlocks c1 < max_blocks (options c1)"
          using make_room[OF wf en, of owners thesis] by blast
        note p1 = shrunk_kept_block[OF wf mr(2,3) own held(2)]
        have opt: "options c1 = options c" "pool_block_size pool1 = pool_block_size pool" using mr(3) by (simp_all add: shrunk_def)
        then have H: "Hash c1 = Hash c" by (simp add: Hash_def fun_eq_iff)
        show ?thesis
        proof (cases "n = 0")
          case True
          then show ?thesis using None mr(2,3) opt p1 by (simp add: reg(3)[OF new False mr(1)] registered_def shrunk_def)
        next
          case room: False
          have nh: "\<not> has_hash c1 ?hash" using shrunk_hash[OF d(3) wf_cacheD(3)[OF mr(2)] mr(3)] False by blast
          obtain ident pool2 c2 where r: "index_block ?hash p ts parent (pool1, c1) = Inr (ident, pool2, c2)"
            "wf_cache held (insert ident S) (pool2, c2)" "Tokens ident = ts" "identity_parent ident = parent"
            "options c2 = options c1" "pool_block_size pool2 = pool_block_size pool1" "Owns pool2 = Owns pool1"
            "\<And>q. q \<noteq> p \<Longrightarrow> pool_store pool2 q = pool_store pool1 q"
            "\<exists>e. entry_block e = p \<and> entry_identity e = ident
              \<and> (\<forall>j. entry_at c2 j = (if j = block_id (pool_store pool1 p) then Some e else entry_at c1 j))"
            by (rule index_block_ok[OF mr(2) p1(1), where ts = ts and parent = parent and hash = ?hash])
              (use full len None parent nh mr(4)[OF room] p1(2) opt H in simp_all)
          have sh: "\<forall>q. Owns pool1 (Some q) \<longrightarrow> Owns pool (Some q) \<and> pool_store pool1 q = pool_store pool q" using mr(3) by (simp add: shrunk_def)
          have "identity (pool_store pool2 p) = Some ident"
            using r(9) entry_block_facts(6)[OF wf_cacheD(1,2)[OF r(2)]] by metis
          then show ?thesis using r(1-8) room opt None sh by (simp add: reg(3)[OF new False mr(1)] registered_def)
        qed
      qed
    qed
  qed
qed

end
