(* ===== verification/Prefix_Match.thy ===== *)
theory Prefix_Match
  imports Prefix_Sharing
begin

text \<open>
  What a lookup in the prefix index returns, over every sequence of operations of the index and of the requests that
  hold its blocks: the longest prefix of the prompt that is still retained, with blocks that hold exactly its tokens.
\<close>

section \<open>Retained prefixes\<close>

text \<open>The blocks hold the leading tokens block by block, each registered after the one before it.\<close>

fun retained :: "BlockPool \<Rightarrow> BlockIdentity option \<Rightarrow> token list \<Rightarrow> bptr list \<Rightarrow> bool" where
  "retained pool parent tokens [] = True"
| "retained pool parent tokens (p # ps) =
     (Owns pool (Some p) \<and> (case identity (pool_store pool p) of
        None \<Rightarrow> False
      | Some x \<Rightarrow> identity_parent x = parent \<and> Tokens x = take (pool_block_size pool) tokens
          \<and> retained pool (Some x) (drop (pool_block_size pool) tokens) ps))"

definition known :: "BlockIdentity set \<Rightarrow> BlockIdentity option \<Rightarrow> bool" where
  "known S parent \<longleftrightarrow> (case parent of None \<Rightarrow> True | Some x \<Rightarrow> x \<in> S)"

definition chain_hash :: "BlockIdentity option \<Rightarrow> u64" where
  "chain_hash parent = (case parent of None \<Rightarrow> RootHash | Some x \<Rightarrow> identity_hash x)"

lemma known_simps [simp]: "known S None" "known S (Some x) \<longleftrightarrow> x \<in> S"
  by (simp_all add: known_def)

lemma known_parent: "identities_ok S c \<Longrightarrow> x \<in> S \<Longrightarrow> known S (identity_parent x)"
  by (cases "identity_parent x") (auto simp: identities_ok_def)

lemma same_identity_known:
  assumes "identities_ok S c" and "known S a" and "known S b" and "same_identity a b"
  shows "a = b"
proof -
  have "inj_on identity_address S" using assms(1) by (simp add: identities_ok_def)
  with assms(2-4) show ?thesis by (cases a; cases b) (simp_all add: same_identity_def inj_onD)
qed

lemma entry_known: "identities_ok S c \<Longrightarrow> entry_at c i = Some e \<Longrightarrow> entry_identity e \<in> S"
  by (auto simp: identities_ok_def)

lemma entry_hash:
  "identities_ok S c \<Longrightarrow> x \<in> S \<Longrightarrow> identity_hash x = Hash c (chain_hash (identity_parent x)) (Tokens x)"
  by (auto simp: identities_ok_def chain_hash_def)

text \<open>Whatever the hash, a lookup finds the block with that parent and those tokens, or nothing.\<close>

lemma FindPhysical_iff:
  assumes wf: "wf_cache held S (pool, c)" and parent: "known S parent"
  shows "FindPhysical c (Hash c (chain_hash parent) ts) parent ts = Some i
    \<longleftrightarrow> (\<exists>e. entry_at c i = Some e \<and> identity_parent (entry_identity e) = parent \<and> Tokens (entry_identity e) = ts)"
proof
  note d = wf_cacheD[OF wf]
  assume "FindPhysical c (Hash c (chain_hash parent) ts) parent ts = Some i"
  then obtain e where e: "entry_at c i = Some e" "same_identity (identity_parent (entry_identity e)) parent" "Tokens (entry_identity e) = ts"
    by (rule FindPhysical_Some)
  with same_identity_known[OF d(4) known_parent[OF d(4) entry_known[OF d(4) e(1)]] parent e(2)]
  show "\<exists>e. entry_at c i = Some e \<and> identity_parent (entry_identity e) = parent \<and> Tokens (entry_identity e) = ts" by blast
next
  note d = wf_cacheD[OF wf]
  let ?h = "Hash c (chain_hash parent) ts"
  assume "\<exists>e. entry_at c i = Some e \<and> identity_parent (entry_identity e) = parent \<and> Tokens (entry_identity e) = ts"
  then obtain e where e: "entry_at c i = Some e" "identity_parent (entry_identity e) = parent" "Tokens (entry_identity e) = ts" by blast
  have h: "identity_hash (entry_identity e) = ?h" using entry_hash[OF d(4) entry_known[OF d(4) e(1)]] e by simp
  have bh: "distinct (map fst (entries_by_hash c))" "set (entries_by_hash c) = {(identity_hash (entry_identity e), i) | i e. entry_at c i = Some e}"
    using d(3) unfolding lists_ok_def by metis+
  have mem: "(?h, i) \<in> set (entries_by_hash c)" unfolding bh(2) using e(1) h by auto
  let ?P = "\<lambda>(h, i). h = ?h \<and> (case entry_at c i of None \<Rightarrow> False
      | Some e \<Rightarrow> same_identity (identity_parent (entry_identity e)) parent \<and> Tokens (entry_identity e) = ts)"
  have "?P (?h, i)" using e by (simp add: same_identity_def)
  then obtain y where y: "find ?P (entries_by_hash c) = Some y" using mem by (cases "find ?P (entries_by_hash c)") (auto simp: find_None_iff)
  then have "y \<in> set (entries_by_hash c)" "fst y = ?h" by (auto dest!: find_SomeD)
  with mem bh(1) have "y = (?h, i)" by (metis eq_key_imp_eq_value prod.collapse)
  with y show "FindPhysical c ?h parent ts = Some i" by (simp add: FindPhysical_def)
qed

lemma match_loop_spec:
  assumes "wf_cache held S (pool, c)" and "known S parent"
  shows "retained pool parent tokens (fst (match_loop c pool (chain_hash parent) parent n tokens))
    \<and> length (fst (match_loop c pool (chain_hash parent) parent n tokens)) \<le> n
    \<and> (\<forall>bl. retained pool parent tokens bl \<longrightarrow> length bl \<le> n
         \<longrightarrow> bl = take (length bl) (fst (match_loop c pool (chain_hash parent) parent n tokens)))"
  using assms(2)
proof (induction n arbitrary: parent tokens)
  case (Suc n)
  note d = wf_cacheD[OF assms(1)]
  let ?bs = "pool_block_size pool" and ?h = "Hash c (chain_hash parent) (take (pool_block_size pool) tokens)"
  have hit: "\<exists>e. entry_at c (block_id (pool_store pool p)) = Some e \<and> entry_block e = p \<and> identity (pool_store pool p) = Some (entry_identity e)
      \<and> identity_parent (entry_identity e) = parent \<and> Tokens (entry_identity e) = take ?bs tokens
      \<and> retained pool (Some (entry_identity e)) (drop ?bs tokens) ps"
    if r: "retained pool parent tokens (p # ps)" for p ps
  proof -
    from r obtain x where x: "Owns pool (Some p)" "identity (pool_store pool p) = Some x" "identity_parent x = parent"
      "Tokens x = take ?bs tokens" "retained pool (Some x) (drop ?bs tokens) ps" by (auto split: option.splits)
    from indexed_identity[OF assms(1) x(1,2)] x show ?thesis by metis
  qed
  show ?case
  proof (cases "FindPhysical c ?h parent (take ?bs tokens)")
    case None
    have "bl = []" if "retained pool parent tokens bl" for bl
    proof (cases bl)
      case (Cons p ps)
      with hit that FindPhysical_iff[OF assms(1) Suc.prems, of "take ?bs tokens"] None show ?thesis by fastforce
    qed
    then show ?thesis using None by (auto simp: Let_def)
  next
    case (Some i)
    then obtain e where e: "entry_at c i = Some e" "identity_parent (entry_identity e) = parent" "Tokens (entry_identity e) = take ?bs tokens"
      using FindPhysical_iff[OF assms(1) Suc.prems] by blast
    note f = entry_block_facts[OF d(1,2) e(1)]
    let ?x = "entry_identity e"
    let ?rest = "match_loop c pool (chain_hash (Some ?x)) (Some ?x) n (drop ?bs tokens)"
    have "?x \<in> S" by (rule entry_known[OF d(4) e(1)])
    then have IH: "retained pool (Some ?x) (drop ?bs tokens) (fst ?rest)" "length (fst ?rest) \<le> n"
      "\<And>bl. retained pool (Some ?x) (drop ?bs tokens) bl \<Longrightarrow> length bl \<le> n \<Longrightarrow> bl = take (length bl) (fst ?rest)"
      using Suc.IH[of "Some ?x" "drop ?bs tokens"] by auto
    have h: "?h = chain_hash (Some ?x)" using entry_hash[OF d(4) \<open>?x \<in> S\<close>] e by (simp add: chain_hash_def)
    have eq: "fst (match_loop c pool (chain_hash parent) parent (Suc n) tokens) = entry_block e # fst ?rest"
      using Some e(1) f(5) h by (simp add: Let_def split: prod.splits)
    have "bl = take (length bl) (entry_block e # fst ?rest)" if bl: "retained pool parent tokens bl" "length bl \<le> Suc n" for bl
    proof (cases bl)
      case (Cons p ps)
      with hit bl(1) obtain e' where e': "entry_at c (block_id (pool_store pool p)) = Some e'" "entry_block e' = p"
        "identity_parent (entry_identity e') = parent" "Tokens (entry_identity e') = take ?bs tokens"
        "retained pool (Some (entry_identity e')) (drop ?bs tokens) ps" by blast
      then have "FindPhysical c ?h parent (take ?bs tokens) = Some (block_id (pool_store pool p))"
        using FindPhysical_iff[OF assms(1) Suc.prems] by blast
      with Some e'(1) e(1) have "e' = e" by simp
      with e' IH(3)[of ps] bl(2) Cons show ?thesis by simp
    qed simp
    then show ?thesis unfolding eq using IH(1,2) f e by simp
  qed
qed simp

lemma retained_spells:
  assumes "retained pool parent tokens bl" and "k < length bl"
  shows "\<exists>x. identity (pool_store pool (bl ! k)) = Some x
    \<and> spells x = (case parent of None \<Rightarrow> [] | Some y \<Rightarrow> spells y) @ take (Suc k * pool_block_size pool) tokens"
  using assms
proof (induction bl arbitrary: parent tokens k)
  case (Cons p ps)
  let ?bs = "pool_block_size pool"
  obtain x where x: "identity (pool_store pool p) = Some x" "identity_parent x = parent" "Tokens x = take ?bs tokens"
    "retained pool (Some x) (drop ?bs tokens) ps" using Cons.prems(1) by (auto split: option.splits)
  have sx: "spells x = (case parent of None \<Rightarrow> [] | Some y \<Rightarrow> spells y) @ take ?bs tokens" using x(2,3) spells.simps[of x] by simp
  show ?case
  proof (cases k)
    case 0
    then show ?thesis using x(1) sx by simp
  next
    case (Suc j)
    then have "j < length ps" using Cons.prems(2) by simp
    from Cons.IH[OF x(4) this] show ?thesis using Suc sx by (auto simp: take_add)
  qed
qed simp

lemma retained_snoc:
  "retained pool parent tokens (bl @ [p]) \<longleftrightarrow> retained pool parent tokens bl \<and> Owns pool (Some p)
    \<and> (\<exists>x. identity (pool_store pool p) = Some x
         \<and> identity_parent x = (if bl = [] then parent else identity (pool_store pool (last bl)))
         \<and> Tokens x = take (pool_block_size pool) (drop (length bl * pool_block_size pool) tokens))"
  by (induction bl arbitrary: parent tokens) (auto simp: add.commute split: option.splits)

lemma retained_take: "length bl * pool_block_size pool \<le> n \<Longrightarrow> retained pool parent (take n tokens) bl = retained pool parent tokens bl"
proof (induction bl arbitrary: parent tokens n)
  case (Cons p ps)
  then have "length ps * pool_block_size pool \<le> n - pool_block_size pool" "pool_block_size pool \<le> n" by auto
  with Cons.IH[of "n - pool_block_size pool"] show ?case by (simp add: take_take drop_take min_def split: option.splits)
qed simp

lemma retained_owned: "retained pool parent tokens bl \<Longrightarrow> p \<in> set bl \<Longrightarrow> Owns pool (Some p)"
  by (induction bl arbitrary: parent tokens) (auto split: option.splits)

lemma retained_identity: "retained pool parent tokens bl \<Longrightarrow> p \<in> set bl \<Longrightarrow> identity (pool_store pool p) \<noteq> None"
  by (induction bl arbitrary: parent tokens) (auto split: option.splits)

section \<open>Lookups\<close>

lemma count_metrics_id: "count_metrics (\<lambda>m. m) c = c" and count_metrics_comp: "count_metrics f (count_metrics g c) = count_metrics (f \<circ> g) c"
  by (simp_all add: count_metrics_def)

lemma Match_metrics:
  assumes "Match owners tokens n pool c = Inr (m, c')"
  shows "\<exists>f. c' = count_metrics f c"
proof -
  have "\<exists>f. c = count_metrics f c" by (rule exI[of _ "\<lambda>m. m"]) (simp add: count_metrics_id)
  then show ?thesis
    using assms by (auto simp: Match_def Let_def count_metrics_comp bind_result_Inr_iff split: if_splits prod.splits)
qed

lemma Match_plain:
  assumes wf: "wf_cache held S (pool, c)" and en: "Enabled c" and plain: "\<not> requires_checkpoint (options c)"
  shows "\<exists>m c'. Match owners tokens n pool c = Inr (m, c') \<and> retained pool None tokens (match_blocks m)
    \<and> match_token_count m = length (match_blocks m) * pool_block_size pool \<and> match_token_count m \<le> min n (length tokens)
    \<and> (\<forall>bl. retained pool None tokens bl \<and> length bl * pool_block_size pool \<le> min n (length tokens) \<longrightarrow> bl = take (length bl) (match_blocks m))"
proof -
  let ?bs = "pool_block_size pool" and ?n = "min n (length tokens) div pool_block_size pool"
  have bs: "0 < ?bs" using wf_pool_lengths(4)[OF wf_cacheD(1)[OF wf]] .
  obtain bl coll where r: "match_loop c pool RootHash None ?n tokens = (bl, coll)" by fastforce
  have ml: "retained pool None tokens bl" "length bl \<le> ?n" "\<And>bl'. retained pool None tokens bl' \<Longrightarrow> length bl' \<le> ?n \<Longrightarrow> bl' = take (length bl') bl"
    using match_loop_spec[OF wf, of None tokens ?n] r by (auto simp: chain_hash_def)
  have room: "length bl' * ?bs \<le> min n (length tokens) \<longleftrightarrow> length bl' \<le> ?n" for bl' :: "bptr list"
    using bs by (simp add: less_eq_div_iff_mult_less_eq)
  obtain m c' where m: "Match owners tokens n pool c = Inr (m, c')" "match_blocks m = bl" "match_token_count m = length bl * ?bs"
    using en plain bs r by (cases "bl = []") (auto simp: Match_def Let_def no_match_def)
  show ?thesis using m ml room by (intro exI[of _ m] exI[of _ c']) simp
qed

section \<open>Runs of the index and its clients\<close>

text \<open>
  Requests allocate blocks, write them, share them, give back what they hold, and use the index. \<open>held\<close> counts the references
  of the requests, and \<open>L\<close> logs the registrations: each identity that one created, with the block, the tokens and the parent
  it was given. The runs are those of a cache that does not require checkpoints. A hybrid cache publishes only through
  \<open>RegisterCheckpointedPrefix\<close>, which may index several entries under one hash; its runs are not among these.
\<close>

type_synonym registrations = "(BlockIdentity \<times> bptr \<times> token list \<times> BlockIdentity option) set"

definition new_registrations ::
  "BlockPool \<times> PrefixCache \<Rightarrow> bptr \<Rightarrow> token list \<Rightarrow> BlockIdentity option \<Rightarrow> PrefixCacheRegistration \<Rightarrow> registrations" where
  "new_registrations w p ts parent r =
     (case (identity (pool_store (fst w) p), registration_identity r) of (None, Some x) \<Rightarrow> {(x, p, ts, parent)} | _ \<Rightarrow> {})"

inductive prefix_run ::
  "PrefixCacheOptions \<Rightarrow> nat \<Rightarrow> nat \<Rightarrow> (bptr \<Rightarrow> nat) \<Rightarrow> registrations \<Rightarrow> BlockPool \<times> PrefixCache \<Rightarrow> bool"
  for opts :: PrefixCacheOptions and bs :: nat and cap :: nat
where
  run_start: "new_prefix_cache opts self (new_pool bs cap) = Inr w \<Longrightarrow> \<not> requires_checkpoint opts \<Longrightarrow>
    prefix_run opts bs cap (\<lambda>_. 0) {} w"
| run_allocate: "prefix_run opts bs cap held L (pool, c) \<Longrightarrow> AllocateBlocksMarked n mark pool = Inr (pool', ps) \<Longrightarrow>
    prefix_run opts bs cap (\<lambda>p. held p + count_list ps p) L (pool', c)"
| run_write: "prefix_run opts bs cap held L (pool, c) \<Longrightarrow> Owns pool (Some p) \<Longrightarrow> AddSlots k (pool_store pool p) = Inr b \<Longrightarrow>
    prefix_run opts bs cap held L (put_block p b pool, c)"
| run_share: "prefix_run opts bs cap held L w \<Longrightarrow> observed (AddRefs (map Some ps)) w = Inr w' \<Longrightarrow>
    prefix_run opts bs cap (\<lambda>p. held p + count_list ps p) L w'"
| run_free: "prefix_run opts bs cap held L w \<Longrightarrow> (\<And>p. count_list ps p \<le> held p) \<Longrightarrow> observed (Free (map Some ps)) w = Inr w' \<Longrightarrow>
    prefix_run opts bs cap (\<lambda>p. held p - count_list ps p) L w'"
| run_register: "prefix_run opts bs cap held L w \<Longrightarrow> 0 < held p \<Longrightarrow> known (fst ` L) parent \<Longrightarrow>
    Register owners (Some p) ts parent w = Inr (r, w') \<Longrightarrow>
    prefix_run opts bs cap held (L \<union> new_registrations w p ts parent r) w'"
| run_match: "prefix_run opts bs cap held L (pool, c) \<Longrightarrow> Match owners tokens n pool c = Inr (m, c') \<Longrightarrow>
    prefix_run opts bs cap held L (pool, c')"
| run_adopt: "prefix_run opts bs cap held L (pool, c) \<Longrightarrow> RecordAdoption ps pool c = Inr c' \<Longrightarrow>
    prefix_run opts bs cap held L (pool, c')"
| run_reclaim: "prefix_run opts bs cap held L w \<Longrightarrow> Reclaim owners n w = Inr (k, w') \<Longrightarrow> prefix_run opts bs cap held L w'"
| run_reclaim_checkpoint: "prefix_run opts bs cap held L (pool, c) \<Longrightarrow> ReclaimCheckpoint owners a c = (ok, c') \<Longrightarrow>
    prefix_run opts bs cap held L (pool, c')"
| run_attach: "prefix_run opts bs cap held L (pool, c) \<Longrightarrow> AttachCheckpoint owners ident cp pool c = Inr (ok, c') \<Longrightarrow>
    prefix_run opts bs cap held L (pool, c')"
| run_attach_draft: "prefix_run opts bs cap held L (pool, c) \<Longrightarrow> AttachDraftCheckpoint owners ident cp dr c = (ok, c') \<Longrightarrow>
    prefix_run opts bs cap held L (pool, c')"
| run_drop_drafts: "prefix_run opts bs cap held L (pool, c) \<Longrightarrow>
    prefix_run opts bs cap held L (pool, DropUnleasedDraftCheckpoints owners c)"

text \<open>The log tells the truth about the identities in it, and every indexed block has an entry in it.\<close>

definition logged :: "registrations \<Rightarrow> BlockPool \<Rightarrow> bool" where
  "logged L pool \<longleftrightarrow> (\<forall>(x, p, ts, parent) \<in> L. Tokens x = ts \<and> identity_parent x = parent)
     \<and> (\<forall>p x. Owns pool (Some p) \<longrightarrow> identity (pool_store pool p) = Some x \<longrightarrow> (\<exists>ts parent. (x, p, ts, parent) \<in> L))"

definition run_ok :: "PrefixCacheOptions \<Rightarrow> nat \<Rightarrow> (bptr \<Rightarrow> nat) \<Rightarrow> registrations \<Rightarrow> BlockPool \<times> PrefixCache \<Rightarrow> bool" where
  "run_ok opts bs held L w \<longleftrightarrow> wf_cache held (fst ` L) w \<and> options (snd w) = opts \<and> pool_block_size (fst w) = bs \<and> logged L (fst w)"

lemma logged_block:
  "logged L pool \<Longrightarrow> Owns pool (Some p) \<Longrightarrow> identity (pool_store pool p) = Some x
    \<Longrightarrow> \<exists>ts parent. (x, p, ts, parent) \<in> L \<and> Tokens x = ts \<and> identity_parent x = parent"
  by (fastforce simp: logged_def)

lemma logged_mono:
  assumes "logged L pool" and "\<And>q x. Owns pool' (Some q) \<Longrightarrow> identity (pool_store pool' q) = Some x
      \<Longrightarrow> Owns pool (Some q) \<and> identity (pool_store pool q) = Some x"
  shows "logged L pool'"
  using assms unfolding logged_def by blast

text \<open>As long as the entries of the index stay, so do the identities of the blocks.\<close>

lemma logged_same_index:
  assumes l: "logged L pool" and wf: "wf_cache held S (pool, c)" and wf': "wf_cache held' S' (pool', c')" and i: "same_index c c'"
  shows "logged L pool'"
proof (rule logged_mono[OF l])
  fix q x
  assume "Owns pool' (Some q)" "identity (pool_store pool' q) = Some x"
  from indexed_identity[OF wf' this] obtain e where e: "entry_at c' (block_id (pool_store pool' q)) = Some e" "entry_block e = q" "entry_identity e = x"
    by metis
  with same_index_entry(2)[OF i e(1)] obtain e0 where e0: "entry_at c (block_id (pool_store pool' q)) = Some e0" "entry_block e0 = q" "entry_identity e0 = x"
    by auto
  from entry_block_facts(4,6)[OF wf_cacheD(1,2)[OF wf] e0(1)] e0(2,3) show "Owns pool (Some q) \<and> identity (pool_store pool q) = Some x" by simp
qed

lemma new_cache_ok:
  assumes "0 < bs" and "new_prefix_cache opts self (new_pool bs cap) = Inr w"
  shows "run_ok opts bs (\<lambda>_. 0) {} w"
proof -
  obtain pool c where w: "w = (pool, c)" by (cases w)
  have p: "pool = (new_pool bs cap)\<lparr>reference_observer := Some self\<rparr>" and
    c: "c = \<lparr>options = opts, entries = replicate cap None, entries_by_hash = [], recency = [],
         referenced_entries = [], reclaimable_entries = [], checkpoint_entries = [], metrics = zero_metrics, next_identity = 0\<rparr>"
    using assms(2) by (auto simp: w new_prefix_cache_def pool_result_def SetReferenceObserver_def new_pool_def bind_result_Inr_iff split: if_splits)
  have at: "entry_at c i = None" for i by (simp add: c entry_at_def)
  have "wf_pool pool" using wf_new_pool[OF assms(1)] by (simp add: p)
  moreover have "blocks_ok pool c" by (simp add: blocks_ok_def at) (simp add: p c new_pool_def)
  moreover have "lists_ok c" by (simp add: lists_ok_def ids_where_def at) (simp add: c)
  moreover have "identities_ok {} c" by (simp add: identities_ok_def at)
  moreover have "refs_ok (\<lambda>_. 0) pool c" by (auto simp: refs_ok_def p Owns_def new_pool_def)
  moreover have "IndexedBlocks c = 0" by (simp add: IndexedBlocks_def c)
  moreover have "logged {} pool" by (auto simp: logged_def p Owns_def new_pool_def)
  ultimately show ?thesis by (simp add: run_ok_def wf_cache_def w) (simp add: p c new_pool_def)
qed

text \<open>The index stays disabled or enabled; a disabled one refuses every registration.\<close>

lemma registered_logged:
  assumes l: "logged L pool" and g: "registered (pool, c) p ts parent r (pool', c')" and own: "Owns pool (Some p)"
    and id: "\<And>y. identity (pool_store pool p) = Some y \<Longrightarrow> registration_identity r = Some y"
  shows "logged (L \<union> new_registrations (pool, c) p ts parent r) pool'"
  unfolding logged_def
proof (intro conjI allI impI)
  show "\<forall>(x, q, us, par) \<in> L \<union> new_registrations (pool, c) p ts parent r. Tokens x = us \<and> identity_parent x = par"
    using l g by (auto simp: logged_def new_registrations_def registered_def split: option.splits)
  fix q x
  assume q: "Owns pool' (Some q)" "identity (pool_store pool' q) = Some x"
  show "\<exists>us par. (x, q, us, par) \<in> L \<union> new_registrations (pool, c) p ts parent r"
  proof (cases "q = p")
    case True
    then have x: "registration_identity r = Some x" using q(2) g by (simp add: registered_def)
    show ?thesis
    proof (cases "identity (pool_store pool p)")
      case None
      then show ?thesis using x True by (auto simp: new_registrations_def)
    next
      case (Some z)
      then have "z = x" using id x by simp
      then show ?thesis using logged_block[OF l own Some] True by blast
    qed
  next
    case False
    then have "Owns pool (Some q)" "identity (pool_store pool q) = Some x" using g q by (simp_all add: registered_def)
    from logged_block[OF l this] show ?thesis by blast
  qed
qed

lemma Register_kept:
  assumes ok: "run_ok opts bs held L w" and p: "0 < held p" "known (fst ` L) parent" and r: "Register owners (Some p) ts parent w = Inr (r, w')"
  shows "run_ok opts bs held (L \<union> new_registrations w p ts parent r) w'"
    and "known (fst ` (L \<union> new_registrations w p ts parent r)) (registration_identity r)"
proof -
  obtain pool c pool' c' where w: "w = (pool, c)" "w' = (pool', c')" by (cases w, cases w')
  have wf: "wf_cache held (fst ` L) (pool, c)" and log: "logged L pool" using ok by (simp_all add: run_ok_def w)
  have own: "Owns pool (Some p)" using refs_okD(2)[OF wf_cacheD(5)[OF wf], of p] p(1) by auto
  have "run_ok opts bs held (L \<union> new_registrations w p ts parent r) w'
    \<and> known (fst ` (L \<union> new_registrations w p ts parent r)) (registration_identity r)"
  proof (cases "Enabled c")
    case False
    then have "r = \<lparr>registration_status = CapacityRefused, registration_identity = None\<rparr>" "w' = w"
      using r by (auto simp: w Register_def Let_def count_metrics_def)
    then show ?thesis using ok by (simp add: new_registrations_def split: option.splits)
  next
    case True
    have i: "block_id (pool_store pool p) < pool_capacity pool" "pool_blocks pool ! block_id (pool_store pool p) = Some p" using OwnsD[OF own] by auto
    have cap: "block_capacity (pool_store pool p) = pool_block_size pool"
      using wf_pool_slotD(2)[OF wf_cacheD(1)[OF wf] i] by (simp add: wf_block_def)
    have full: "IsFull (pool_store pool p)" "length ts = pool_block_size pool"
      using r True cap by (auto simp: w Register_def Let_def split: if_splits)
    have id: "registration_identity r = Some y" if "identity (pool_store pool p) = Some y" for y
      using r True full cap that by (auto simp: w Register_def Let_def HasIdentity_def)
    have "fst ` (L \<union> new_registrations w p ts parent r) = fst ` L \<union> set_option (registration_identity r)"
    proof (cases "identity (pool_store pool p)")
      case None
      then show ?thesis by (auto simp: new_registrations_def w split: option.splits)
    next
      case (Some y)
      have "y \<in> fst ` L" by (rule indexed_identity[OF wf own Some])
      then show ?thesis using id[OF Some] Some by (auto simp: new_registrations_def w)
    qed
    moreover from Register_ok[OF wf own full p(2)[unfolded known_def] True, of owners] r
    have reg: "wf_cache held (fst ` L \<union> set_option (registration_identity r)) (pool', c')" "registered (pool, c) p ts parent r (pool', c')"
      by (simp_all add: w)
    ultimately show ?thesis
      using ok registered_logged[OF log reg(2) own id] reg
      by (cases "registration_identity r") (simp_all add: run_ok_def w registered_def)
  qed
  then show "run_ok opts bs held (L \<union> new_registrations w p ts parent r) w'"
    "known (fst ` (L \<union> new_registrations w p ts parent r)) (registration_identity r)" by blast+
qed

lemma run_invariant: "prefix_run opts bs cap held L w \<Longrightarrow> 0 < bs \<Longrightarrow> run_ok opts bs held L w"
proof (induction rule: prefix_run.induct)
  case (run_start self w)
  then show ?case using new_cache_ok by blast
next
  case (run_allocate held L pool c n mark pool' ps)
  then have wf: "wf_cache held (fst ` L) (pool, c)" "logged L pool" by (simp_all add: run_ok_def)
  from allocation_kept[OF wf(1) run_allocate.hyps(2)] have wf': "wf_cache (\<lambda>p. held p + count_list ps p) (fst ` L) (pool', c)" .
  from logged_same_index[OF wf(2,1) wf'] wf' show ?case using run_allocate allocate_frame[OF run_allocate.hyps(2)] by (simp add: run_ok_def)
next
  case (run_write held L pool c p k b)
  then have wf: "wf_cache held (fst ` L) (pool, c)" "logged L pool" by (simp_all add: run_ok_def)
  from AddSlots_kept(1)[OF wf(1) run_write.hyps(2,3)] have wf': "wf_cache held (fst ` L) (put_block p b pool, c)" .
  from logged_same_index[OF wf(2,1) wf'] wf' show ?case using run_write by (simp add: run_ok_def put_block_def)
next
  case (run_share held L w ps w')
  then have wf: "wf_cache held (fst ` L) (fst w, snd w)" "logged L (fst w)" by (simp_all add: run_ok_def)
  have "list_all (Owns (fst w)) (map Some ps)"
    using run_share.hyps(2) AddRefs_unowned[of "fst w" "map Some ps"]
    by (cases "AddRefs (map Some ps) (fst w)") (auto simp: observed_def pool_result_def)
  then have "\<forall>p \<in> set ps. Owns (fst w) (Some p)" by (simp add: list_all_iff)
  then obtain pool' c' where s: "observed (AddRefs (map Some ps)) (fst w, snd w) = Inr (pool', c')"
    "wf_cache (\<lambda>p. held p + count_list ps p) (fst ` L) (pool', c')" "same_index (snd w) c'" "pool_block_size pool' = pool_block_size (fst w)"
    by (rule AddRefs_kept[OF wf(1)])
  from logged_same_index[OF wf(2,1) s(2,3)] s run_share show ?case by (simp add: run_ok_def same_index_def)
next
  case (run_free held L w ps w')
  then have wf: "wf_cache held (fst ` L) (fst w, snd w)" "logged L (fst w)" by (simp_all add: run_ok_def)
  obtain pool' c' where s: "observed (Free (map Some ps)) (fst w, snd w) = Inr (pool', c')"
    "wf_cache (\<lambda>p. held p - count_list ps p) (fst ` L) (pool', c')" "same_index (snd w) c'" "pool_block_size pool' = pool_block_size (fst w)"
    by (rule Free_kept[OF wf(1)]) (use run_free.hyps(2) in auto)
  from logged_same_index[OF wf(2,1) s(2,3)] s run_free show ?case by (simp add: run_ok_def same_index_def)
next
  case (run_register held L w p parent owners ts r w')
  then show ?case using Register_kept by blast
next
  case (run_match held L pool c owners tokens n m c')
  then show ?case using Match_metrics[OF run_match.hyps(2)] by (auto simp: run_ok_def)
next
  case (run_adopt held L pool c ps c')
  then show ?case using RecordAdoption_kept[of held "fst ` L" pool c ps c'] by (simp add: run_ok_def same_index_def)
next
  case (run_reclaim held L w owners n k w')
  then have ok: "wf_cache held (fst ` L) w" "logged L (fst w)" by (simp_all add: run_ok_def)
  with run_reclaim Reclaim_ok[of held "fst ` L" w owners n] have r: "wf_cache held (fst ` L) w'" "shrunk w w'" by auto
  have "logged L (fst w')" by (rule logged_mono[OF ok(2)]) (use r(2) in \<open>auto simp: shrunk_def\<close>)
  then show ?case using r run_reclaim by (simp add: run_ok_def shrunk_def)
next
  case (run_reclaim_checkpoint held L pool c owners a ok c')
  then show ?case using ReclaimCheckpoint_ok[of held "fst ` L" pool c owners a] by (simp add: run_ok_def same_index_def)
next
  case (run_attach held L pool c owners ident cp ok c')
  then show ?case using AttachCheckpoint_ok[of held "fst ` L" pool c owners ident cp ok c'] by (simp add: run_ok_def same_index_def)
next
  case (run_attach_draft held L pool c owners ident cp dr ok c')
  then show ?case using AttachDraftCheckpoint_ok[of held "fst ` L" pool c owners ident cp dr] by (simp add: run_ok_def same_index_def)
next
  case (run_drop_drafts held L pool c owners)
  then show ?case using DropUnleased_ok[of held "fst ` L" pool c owners] by (simp add: run_ok_def same_index_def)
qed

lemma run_okD:
  assumes "prefix_run opts bs cap held L (pool, c)" and "0 < bs"
  shows "wf_cache held (fst ` L) (pool, c)" and "options c = opts" and "pool_block_size pool = bs" and "logged L pool"
  using run_invariant[OF assms] by (simp_all add: run_ok_def)

section \<open>A run\<close>

text \<open>A pool of three blocks of two tokens, and a prompt of two full blocks that is registered.\<close>

definition sample_options :: PrefixCacheOptions where
  "sample_options = \<lparr>opt_enabled = True, max_blocks = 2, requires_checkpoint = False, max_checkpoints = 0, opt_hash = None\<rparr>"

definition sample_owners :: CheckpointOwners where
  "sample_owners = \<lparr>checkpoint_use_count = (\<lambda>_. 1), draft_use_count = (\<lambda>_. 1), draft_evicted = (\<lambda>_. False)\<rparr>"

definition sample_first :: "PrefixCacheOptions \<Rightarrow> prefix_error + (bptr list \<times> PrefixCacheRegistration \<times> BlockPool \<times> PrefixCache)" where
  "sample_first opts =
     bind_result (new_prefix_cache opts 1 (new_pool 2 3)) (\<lambda>(pool, c).
     bind_result (pool_result (AllocateBlocksMarked 4 True pool)) (\<lambda>(pool1, ps).
     bind_result (Register sample_owners (Some (ps ! 0)) [10, 11] None (pool1, c)) (\<lambda>(r, w). Inr (ps, r, w))))"

definition sample_run :: "PrefixCacheOptions \<Rightarrow> prefix_error + (bptr list \<times> PrefixCacheRegistration \<times> BlockPool \<times> PrefixCache)" where
  "sample_run opts =
     bind_result (sample_first opts) (\<lambda>(ps, r1, w1).
     bind_result (Register sample_owners (Some (ps ! 1)) [12, 13] (registration_identity r1) w1) (\<lambda>(r2, w2). Inr (ps, r2, w2)))"

lemma sample_plain: "\<not> requires_checkpoint sample_options"
  by (simp add: sample_options_def)

lemma sample_first_reached:
  assumes "sample_first opts = Inr ([0, 1], r, w)" and plain: "\<not> requires_checkpoint opts"
  shows "\<exists>L. prefix_run opts 2 3 (\<lambda>p. 0 + count_list [0, 1] p) L w \<and> known (fst ` L) (registration_identity r)"
proof -
  from assms(1) obtain pool c pool1 where st: "new_prefix_cache opts 1 (new_pool 2 3) = Inr (pool, c)"
    "pool_result (AllocateBlocksMarked 4 True pool) = Inr (pool1, [0, 1])"
    "Register sample_owners (Some 0) [10, 11] None (pool1, c) = Inr (r, w)"
    by (auto simp: sample_first_def bind_result_Inr_iff split: prod.splits)
  have al: "AllocateBlocksMarked 4 True pool = Inr (pool1, [0, 1])"
    using st(2) by (cases "AllocateBlocksMarked 4 True pool") (auto simp: pool_result_def)
  have start: "prefix_run opts 2 3 (\<lambda>p. 0 + count_list [0, 1] p) {} (pool1, c)" by (rule run_allocate[OF run_start[OF st(1) plain] al])
  have "prefix_run opts 2 3 (\<lambda>p. 0 + count_list [0, 1] p) ({} \<union> new_registrations (pool1, c) 0 [10, 11] None r) w"
    by (rule run_register[OF start _ _ st(3)]) simp_all
  moreover have "known (fst ` ({} \<union> new_registrations (pool1, c) 0 [10, 11] None r)) (registration_identity r)"
    by (rule Register_kept(2)[OF run_invariant[OF start] _ _ st(3)]) simp_all
  ultimately show ?thesis by blast
qed

lemma sample_reached:
  assumes "sample_run opts = Inr ([0, 1], r2, w)" and plain: "\<not> requires_checkpoint opts"
  shows "\<exists>L. prefix_run opts 2 3 (\<lambda>p. 0 + count_list [0, 1] p) L w"
proof -
  from assms(1) obtain r1 w1 where st: "sample_first opts = Inr ([0, 1], r1, w1)"
    "Register sample_owners (Some 1) [12, 13] (registration_identity r1) w1 = Inr (r2, w)"
    by (auto simp: sample_run_def bind_result_Inr_iff split: prod.splits)
  obtain L where L: "prefix_run opts 2 3 (\<lambda>p. 0 + count_list [0, 1] p) L w1" "known (fst ` L) (registration_identity r1)"
    using sample_first_reached[OF st(1) plain] by blast
  from run_register[OF L(1) _ L(2) st(2)] show ?thesis by (intro exI) simp
qed

lemma indexed_iff:
  assumes "wf_cache held S (pool, c)" and "Owns pool (Some p)"
  shows "entry_at c (block_id (pool_store pool p)) \<noteq> None \<longleftrightarrow> HasIdentity (pool_store pool p)"
proof (cases "identity (pool_store pool p)")
  case None
  then show ?thesis using unindexed_held(1)[OF assms] by (simp add: HasIdentity_def)
next
  case (Some x)
  from indexed_identity[OF assms Some] show ?thesis using Some by (auto simp: HasIdentity_def)
qed

section \<open>What the index guarantees\<close>

text \<open>
  C15. In every reachable state of a cache without required checkpoints the index holds at most its budget of blocks; a block has
  exactly the references that requests hold and one more when it is indexed; and an indexed block is full and carries the identity
  that a registration of that very block created, with the tokens and the parent that this registration was given.
\<close>

theorem prefix_index_accounts:
  assumes run: "prefix_run opts bs cap held L (pool, c)" and bs: "0 < bs"
  shows "IndexedBlocks c \<le> max_blocks opts
    \<and> IndexedBlocks c = card {p. Owns pool (Some p) \<and> HasIdentity (pool_store pool p)}
    \<and> (\<forall>p. if Owns pool (Some p) then ref_count (pool_store pool p) = held p + (if HasIdentity (pool_store pool p) then 1 else 0) else held p = 0)
    \<and> (\<forall>p x. Owns pool (Some p) \<and> identity (pool_store pool p) = Some x \<longrightarrow> IsFull (pool_store pool p)
         \<and> (\<exists>ts parent. (x, p, ts, parent) \<in> L \<and> Tokens x = ts \<and> identity_parent x = parent \<and> length ts = bs))"
proof -
  note r = run_okD[OF run bs] and d = wf_cacheD[OF run_okD(1)[OF run bs]]
  note iff = indexed_iff[OF r(1)]
  have "bij_betw (\<lambda>p. block_id (pool_store pool p)) {p. Owns pool (Some p) \<and> HasIdentity (pool_store pool p)} (ids_where (\<lambda>_. True) c)"
  proof (rule bij_betwI')
    fix p q assume "p \<in> {p. Owns pool (Some p) \<and> HasIdentity (pool_store pool p)}" "q \<in> {p. Owns pool (Some p) \<and> HasIdentity (pool_store pool p)}"
    then show "block_id (pool_store pool p) = block_id (pool_store pool q) \<longleftrightarrow> p = q" using Owns_same_id by auto
  next
    fix p assume "p \<in> {p. Owns pool (Some p) \<and> HasIdentity (pool_store pool p)}"
    then show "block_id (pool_store pool p) \<in> ids_where (\<lambda>_. True) c" using iff by (auto simp: ids_where_def)
  next
    fix i assume "i \<in> ids_where (\<lambda>_. True) c"
    then obtain e where "entry_at c i = Some e" by (auto simp: ids_where_def)
    from entry_block_facts[OF d(1,2) this] show "\<exists>p \<in> {p. Owns pool (Some p) \<and> HasIdentity (pool_store pool p)}. i = block_id (pool_store pool p)"
      by (auto simp: HasIdentity_def)
  qed
  then have "IndexedBlocks c = card {p. Owns pool (Some p) \<and> HasIdentity (pool_store pool p)}"
    by (simp add: IndexedBlocks_card bij_betw_same_card)
  moreover have "IsFull (pool_store pool p) \<and> (\<exists>ts parent. (x, p, ts, parent) \<in> L \<and> Tokens x = ts \<and> identity_parent x = parent \<and> length ts = bs)"
    if "Owns pool (Some p)" "identity (pool_store pool p) = Some x" for p x
    using wf_pool_slotD(2)[OF d(1) OwnsD[OF that(1)]] logged_block[OF r(4) that] that(2) r(3) by (auto simp: wf_block_def)
  moreover have "if Owns pool (Some p) then ref_count (pool_store pool p) = held p + (if HasIdentity (pool_store pool p) then 1 else 0) else held p = 0" for p
    using refs_okD[OF d(5), of p] iff[of p] by simp
  ultimately show ?thesis using d(6) r(2) by blast
qed

text \<open>
  C14. A lookup never fails and returns the longest prefix of the prompt that is still retained, at most as long as was asked for:
  block by block the tokens are exactly those of the prompt, whatever the hash function; a collision costs a hit, not a wrong block.
\<close>

theorem prefix_match_longest:
  assumes run: "prefix_run opts bs cap held L (pool, c)" and bs: "0 < bs"
    and opts: "opt_enabled opts" "max_blocks opts \<noteq> 0" "\<not> requires_checkpoint opts"
  shows "\<exists>m c'. Match owners tokens n pool c = Inr (m, c')
    \<and> match_token_count m = length (match_blocks m) * bs \<and> match_token_count m \<le> min n (length tokens)
    \<and> (\<forall>k < length (match_blocks m). Owns pool (Some (match_blocks m ! k))
         \<and> (\<exists>x. identity (pool_store pool (match_blocks m ! k)) = Some x \<and> spells x = take (Suc k * bs) tokens))
    \<and> (\<forall>bl. retained pool None tokens bl \<and> length bl * bs \<le> min n (length tokens) \<longrightarrow> bl = take (length bl) (match_blocks m))"
proof -
  note r = run_okD[OF run bs]
  have "Enabled c" "\<not> requires_checkpoint (options c)" using opts r(2) by (simp_all add: Enabled_def)
  from Match_plain[OF r(1) this, of owners tokens n] obtain m c' where m: "Match owners tokens n pool c = Inr (m, c')"
    "retained pool None tokens (match_blocks m)" "match_token_count m = length (match_blocks m) * bs" "match_token_count m \<le> min n (length tokens)"
    "\<And>bl. retained pool None tokens bl \<Longrightarrow> length bl * bs \<le> min n (length tokens) \<Longrightarrow> bl = take (length bl) (match_blocks m)"
    unfolding r(3) by blast
  moreover have "Owns pool (Some (match_blocks m ! k)) \<and> (\<exists>x. identity (pool_store pool (match_blocks m ! k)) = Some x \<and> spells x = take (Suc k * bs) tokens)"
    if "k < length (match_blocks m)" for k
    using retained_owned[OF m(2) nth_mem[OF that]] retained_spells[OF m(2) that] r(3) by simp
  ultimately show ?thesis by blast
qed

lemma retained_cong:
  assumes "retained pool parent tokens bl" and "pool_block_size pool' = pool_block_size pool"
    and "\<And>q. q \<in> set bl \<Longrightarrow> Owns pool' (Some q) \<and> identity (pool_store pool' q) = identity (pool_store pool q)"
  shows "retained pool' parent tokens bl"
  using assms by (induction bl arbitrary: parent tokens) (auto split: option.splits)

text \<open>
  C19. A request that registers its next full block after the retained blocks it holds makes the prefix longer by that block: the next
  lookup of a prompt with those tokens returns the request's blocks.
\<close>

theorem prefix_register_found:
  assumes run: "prefix_run opts bs cap held L (pool, c)" and bs: "0 < bs"
    and opts: "opt_enabled opts" "max_blocks opts \<noteq> 0" "\<not> requires_checkpoint opts"
    and kept: "retained pool None tokens bl" "\<forall>q \<in> set bl. 0 < held q" and p: "0 < held p" "identity (pool_store pool p) = None"
    and reg: "Register owners (Some p) (take bs (drop (length bl * bs) tokens)) (if bl = [] then None else identity (pool_store pool (last bl))) (pool, c)
      = Inr (r, pool', c')" "registration_status r = Indexed"
    and len: "Suc (length bl) * bs \<le> length tokens"
  shows "\<exists>m c''. Match owners tokens (length tokens) pool' c' = Inr (m, c'') \<and> take (Suc (length bl)) (match_blocks m) = bl @ [p]"
proof -
  note ro = run_okD[OF run bs]
  let ?parent = "if bl = [] then None else identity (pool_store pool (last bl))" and ?ts = "take bs (drop (length bl * bs) tokens)"
  have known: "known (fst ` L) ?parent"
  proof (cases "bl = []")
    case False
    then have l: "last bl \<in> set bl" by simp
    obtain x where x: "identity (pool_store pool (last bl)) = Some x" using retained_identity[OF kept(1) l] by auto
    have "x \<in> fst ` L" by (rule indexed_identity[OF ro(1) retained_owned[OF kept(1) l] x])
    then show ?thesis using False x by simp
  qed simp
  have run': "prefix_run opts bs cap held (L \<union> new_registrations (pool, c) p ?ts ?parent r) (pool', c')"
    by (rule run_register[OF run p(1) known reg(1)])
  note ro' = run_okD[OF run' bs]
  have own: "Owns pool (Some p)" using refs_okD(2)[OF wf_cacheD(5)[OF ro(1)], of p] p(1) by auto
  have own': "Owns pool' (Some q)" if "0 < held q" for q using refs_okD(2)[OF wf_cacheD(5)[OF ro'(1)], of q] that by auto
  have en: "Enabled c" using opts ro(2) by (simp add: Enabled_def)
  have full: "IsFull (pool_store pool p)" "length ?ts = pool_block_size pool"
    using reg(1) en len wf_pool_slotD(2)[OF wf_cacheD(1)[OF ro(1)] OwnsD[OF own]] ro(3)
    by (auto simp: Register_def Let_def split: if_splits)
  from Register_ok[OF ro(1) own full known[unfolded known_def] en, of owners] reg(1)
  have rg: "registered (pool, c) p ?ts ?parent r (pool', c')" by simp
  obtain x where x: "registration_identity r = Some x" using rg reg(2) by (auto simp: registered_def)
  have ret: "retained pool' None tokens bl"
  proof (rule retained_cong[OF kept(1)])
    fix q assume q: "q \<in> set bl"
    then have "q \<noteq> p" using retained_identity[OF kept(1)] p(2) by metis
    then show "Owns pool' (Some q) \<and> identity (pool_store pool' q) = identity (pool_store pool q)"
      using rg own' kept(2) q by (simp add: registered_def)
  qed (simp add: ro(3) ro'(3))
  have same: "identity (pool_store pool' (last bl)) = identity (pool_store pool (last bl))" if "bl \<noteq> []"
  proof -
    have "last bl \<in> set bl" "last bl \<noteq> p" using that retained_identity[OF kept(1), of "last bl"] p(2) by auto
    then show ?thesis using rg own' kept(2) by (simp add: registered_def)
  qed
  have "retained pool' None tokens (bl @ [p])"
    using ret rg x p(2) own'[OF p(1)] same ro'(3) by (auto simp: retained_snoc registered_def)
  moreover have "length (bl @ [p]) * bs \<le> min (length tokens) (length tokens)" using len by simp
  ultimately show ?thesis
    using Match_plain[OF ro'(1), of owners tokens "length tokens"] opts ro'(2,3) by (fastforce simp: Enabled_def)
qed

text \<open>
  C20. Reclaiming gives the pool exactly the blocks asked for, or all that can be reclaimed when those are fewer, and no block that a
  request holds is touched.
\<close>

theorem prefix_reclaim_exact:
  assumes run: "prefix_run opts bs cap held L (pool, c)" and bs: "0 < bs"
  shows "\<exists>pool' c'. Reclaim owners n (pool, c) = Inr (min n (ReclaimableBlocks owners c), pool', c')
    \<and> AvailableBlocks pool' = AvailableBlocks pool + min n (ReclaimableBlocks owners c)
    \<and> IndexedBlocks c' + min n (ReclaimableBlocks owners c) = IndexedBlocks c
    \<and> (\<forall>p. 0 < held p \<longrightarrow> Owns pool' (Some p) \<and> pool_store pool' p = pool_store pool p)
    \<and> (\<forall>p. Owns pool' (Some p) \<longrightarrow> Owns pool (Some p) \<and> pool_store pool' p = pool_store pool p)"
proof -
  note r = run_okD[OF run bs]
  obtain pool' c' where w: "Reclaim owners n (pool, c) = Inr (min n (ReclaimableBlocks owners c), pool', c')" "wf_cache held (fst ` L) (pool', c')"
    "shrunk (pool, c) (pool', c')" "AvailableBlocks pool' = AvailableBlocks pool + min n (ReclaimableBlocks owners c)"
    "IndexedBlocks c' + min n (ReclaimableBlocks owners c) = IndexedBlocks c"
    using Reclaim_ok[OF r(1), of owners n] by auto
  have "Owns pool (Some p)" if "0 < held p" for p using refs_okD(2)[OF wf_cacheD(5)[OF r(1)], of p] that by auto
  then show ?thesis using w shrunk_kept_block[OF r(1) w(2,3)] by (intro exI[of _ pool'] exI[of _ c']) (auto simp: shrunk_def)
qed

text \<open>
  C21. Requests can always give back references they hold, and the callbacks of the pool never find the index in a wrong state. Of the
  blocks that no request holds any more, exactly the indexed ones stay.
\<close>

theorem prefix_free_keeps_indexed:
  assumes run: "prefix_run opts bs cap held L (pool, c)" and bs: "0 < bs" and held: "\<And>p. count_list ps p \<le> held p"
  shows "\<exists>pool' c'. observed (Free (map Some ps)) (pool, c) = Inr (pool', c')
    \<and> (\<forall>p. Owns pool' (Some p) \<longleftrightarrow> Owns pool (Some p) \<and> (count_list ps p < held p \<or> HasIdentity (pool_store pool p)))"
proof -
  note r = run_okD[OF run bs] and d = wf_cacheD[OF run_okD(1)[OF run bs]]
  have "\<forall>p. count_list ps p \<le> held p" using held by blast
  then obtain pool' c' where w: "observed (Free (map Some ps)) (pool, c) = Inr (pool', c')"
    "wf_cache (\<lambda>p. held p - count_list ps p) (fst ` L) (pool', c')" "same_index c c'" "\<And>q. block_id (pool_store pool' q) = block_id (pool_store pool q)"
    by (rule Free_kept[OF r(1)]) blast
  note d' = wf_cacheD[OF w(2)]
  have "Owns pool' (Some p) \<longleftrightarrow> Owns pool (Some p) \<and> (count_list ps p < held p \<or> HasIdentity (pool_store pool p))" for p
  proof
    assume o: "Owns pool' (Some p)"
    have "held p - count_list ps p \<noteq> 0 \<or> entry_at c' (block_id (pool_store pool' p)) \<noteq> None"
      using refs_okD(1)[OF d'(5) o] Owns_ref_count[OF d'(1) o] by (auto split: if_splits)
    then show "Owns pool (Some p) \<and> (count_list ps p < held p \<or> HasIdentity (pool_store pool p))"
    proof
      assume "held p - count_list ps p \<noteq> 0"
      then show ?thesis using refs_okD(2)[OF d(5), of p] by auto
    next
      assume "entry_at c' (block_id (pool_store pool' p)) \<noteq> None"
      then obtain e where e: "entry_at c' (block_id (pool_store pool' p)) = Some e" by auto
      from same_index_entry(2)[OF w(3) e] owned_entry[OF d'(2) o e] obtain e0
        where e0: "entry_at c (block_id (pool_store pool p)) = Some e0" "entry_block e0 = p" unfolding w(4) by auto
      have "Owns pool (Some p)" using entry_block_facts(4)[OF d(1,2) e0(1)] e0(2) by simp
      with indexed_iff[OF r(1) this] e0(1) show ?thesis by simp
    qed
  next
    assume a: "Owns pool (Some p) \<and> (count_list ps p < held p \<or> HasIdentity (pool_store pool p))"
    show "Owns pool' (Some p)"
    proof (cases "count_list ps p < held p")
      case True
      then show ?thesis using refs_okD(2)[OF d'(5), of p] by auto
    next
      case False
      with a indexed_iff[OF r(1), of p] obtain e where e: "entry_at c (block_id (pool_store pool p)) = Some e" by auto
      from same_index_entry(3)[OF w(3) e] owned_entry[OF d(2) _ e] a obtain e1
        where "entry_at c' (block_id (pool_store pool p)) = Some e1" "entry_block e1 = p" by auto
      then show ?thesis using entry_block_facts(4)[OF d'(1,2)] by fastforce
    qed
  qed
  then show ?thesis using w(1) by blast
qed

section \<open>The guarantees at work\<close>

lemma sample_first_ok:
  "case sample_first sample_options of
     Inl e \<Rightarrow> False
   | Inr (ps, r, pool, c) \<Rightarrow> ps = [0, 1] \<and> retained pool None [10, 11, 12, 13, 14] [0] \<and> identity (pool_store pool 1) = None
      \<and> (case Register sample_owners (Some 1) [12, 13] (identity (pool_store pool 0)) (pool, c) of
           Inl e \<Rightarrow> False | Inr (r2, _) \<Rightarrow> registration_status r2 = Indexed)"
  by code_simp

lemma sample_run_ok:
  "case sample_run sample_options of
     Inl e \<Rightarrow> False
   | Inr (ps, r, pool, c) \<Rightarrow> ps = [0, 1] \<and> retained pool None [10, 11, 12, 13, 14] [0, 1] \<and> Owns pool (Some 1)
      \<and> ReclaimableBlocks sample_owners c = 0"
  by code_simp

lemma sample_state:
  obtains pool c L where "prefix_run sample_options 2 3 (\<lambda>p. 0 + count_list [0, 1] p) L (pool, c)"
    and "retained pool None [10, 11, 12, 13, 14] [0, 1]" and "Owns pool (Some 1)" and "ReclaimableBlocks sample_owners c = 0"
proof (cases "sample_run sample_options")
  case (Inl e)
  with sample_run_ok show ?thesis by simp
next
  case (Inr x)
  obtain ps r pool c where x: "x = (ps, r, pool, c)" by (cases x)
  from sample_run_ok have ok: "ps = [0, 1]" "retained pool None [10, 11, 12, 13, 14] [0, 1]" "Owns pool (Some 1)" "ReclaimableBlocks sample_owners c = 0"
    unfolding Inr x by (simp_all only: sum.case prod.case)
  have "sample_run sample_options = Inr ([0, 1], r, pool, c)" using Inr x ok(1) by (simp only:)
  from sample_reached[OF this sample_plain] obtain L where "prefix_run sample_options 2 3 (\<lambda>p. 0 + count_list [0, 1] p) L (pool, c)" ..
  then show ?thesis using ok(2-4) by (rule that)
qed

text \<open>Both blocks of the request are indexed, so each has two references, and the first one spells the start of the prompt.\<close>

theorem prefix_index_accounts_witness:
  "\<exists>pool c held L x. prefix_run sample_options 2 3 held L (pool, c) \<and> held 1 = 1 \<and> IndexedBlocks c \<le> 2 \<and> ref_count (pool_store pool 1) = 2
    \<and> identity (pool_store pool 0) = Some x \<and> (x, 0, [10, 11], None) \<in> L"
proof (rule sample_state)
  fix pool c L
  assume r: "prefix_run sample_options 2 3 (\<lambda>p. 0 + count_list [0, 1] p) L (pool, c)" "retained pool None [10, 11, 12, 13, 14] [0, 1]" "Owns pool (Some 1)"
  have "HasIdentity (pool_store pool 1)" using retained_identity[OF r(2), of 1] by (simp add: HasIdentity_def)
  moreover obtain x where x: "Owns pool (Some 0)" "identity (pool_store pool 0) = Some x" "Tokens x = [10, 11]" "identity_parent x = None"
    using r(2) run_okD(3)[OF r(1)] by (auto split: option.splits)
  moreover note acc = prefix_index_accounts[OF r(1)]
  have "(x, 0, [10, 11], None) \<in> L" using acc x by (metis zero_less_numeral)
  ultimately show ?thesis using r(1,3) acc x(2)
    by (intro exI[of _ pool] exI[of _ c] exI[of _ "\<lambda>p. 0 + count_list [0, 1] p"] exI[of _ L] exI[of _ x]) (auto simp: sample_options_def)
qed

text \<open>The prompt is found again, both blocks of it.\<close>

theorem prefix_match_longest_witness:
  "\<exists>pool c held L m c'. prefix_run sample_options 2 3 held L (pool, c)
    \<and> Match sample_owners [10, 11, 12, 13, 14] 5 pool c = Inr (m, c') \<and> take 2 (match_blocks m) = [0, 1] \<and> match_token_count m = 4"
proof (rule sample_state)
  fix pool c L
  assume r: "prefix_run sample_options 2 3 (\<lambda>p. 0 + count_list [0, 1] p) L (pool, c)" "retained pool None [10, 11, 12, 13, 14] [0, 1]"
  have o: "opt_enabled sample_options" "max_blocks sample_options \<noteq> 0" "\<not> requires_checkpoint sample_options" by (simp_all add: sample_options_def)
  from prefix_match_longest[OF r(1) _ o, of sample_owners "[10, 11, 12, 13, 14]" 5] obtain m c'
    where ml: "Match sample_owners [10, 11, 12, 13, 14] 5 pool c = Inr (m, c')" "match_token_count m = length (match_blocks m) * 2"
    "match_token_count m \<le> min 5 (length [10 :: token, 11, 12, 13, 14])"
    "\<And>bl. retained pool None [10, 11, 12, 13, 14] bl \<and> length bl * 2 \<le> min 5 (length [10 :: token, 11, 12, 13, 14]) \<Longrightarrow> bl = take (length bl) (match_blocks m)"
    by (metis zero_less_numeral)
  have m: "Match sample_owners [10, 11, 12, 13, 14] 5 pool c = Inr (m, c')" "match_token_count m = length (match_blocks m) * 2"
    "match_token_count m \<le> 5" "[0, 1] = take 2 (match_blocks m)"
    using ml(1,2,3) ml(4)[of "[0, 1]"] r(2) by (simp_all add: numeral_2_eq_2)
  have "length (match_blocks m) = 2" using m(2-4) by (cases "length (match_blocks m) \<le> 2") (auto dest!: arg_cong[where f = length])
  with m r(1) show ?thesis by fastforce
qed

text \<open>The state in which the request let go of its blocks.\<close>

definition sample_freed :: "prefix_error + BlockPool \<times> PrefixCache" where
  "sample_freed = bind_result (sample_run sample_options) (\<lambda>(ps, r, w). observed (Free (map Some [0, 1])) w)"

lemma sample_freed_ok:
  "case sample_freed of Inl e \<Rightarrow> False
   | Inr (pool, c) \<Rightarrow> ReclaimableBlocks sample_owners c = 2 \<and> AvailableBlocks pool = 1 \<and> IndexedBlocks c = 2"
  by code_simp

lemma sample_freed_state:
  obtains pool c held L where "prefix_run sample_options 2 3 held L (pool, c)"
    and "ReclaimableBlocks sample_owners c = 2" and "AvailableBlocks pool = 1" and "IndexedBlocks c = 2"
proof (cases sample_freed)
  case (Inl e)
  from sample_freed_ok show ?thesis unfolding Inl by (simp only: sum.case)
next
  case (Inr x)
  obtain pool c where x: "x = (pool, c)" by (cases x)
  from sample_freed_ok have ok: "ReclaimableBlocks sample_owners c = 2" "AvailableBlocks pool = 1" "IndexedBlocks c = 2"
    unfolding Inr x by (simp_all only: sum.case prod.case)
  from Inr[unfolded sample_freed_def bind_result_Inr_iff] obtain ps r w where w: "sample_run sample_options = Inr (ps, r, w)"
    "observed (Free (map Some [0, 1])) w = Inr (pool, c)" unfolding x by auto
  have "ps = [0, 1]" using sample_run_ok unfolding w(1) by (simp only: sum.case prod.case split: prod.splits)
  with sample_reached[OF _ sample_plain] w(1) obtain L where "prefix_run sample_options 2 3 (\<lambda>p. 0 + count_list [0, 1] p) L w" by blast
  from run_free[OF this _ w(2)] ok show ?thesis by (intro that) simp_all
qed

text \<open>The second block of the prompt, registered after the first.\<close>

theorem prefix_register_found_witness:
  "\<exists>pool c m c'. Match sample_owners [10, 11, 12, 13, 14] 5 pool c = Inr (m, c') \<and> take 2 (match_blocks m) = [0, 1]"
proof (cases "sample_first sample_options")
  case (Inl e)
  with sample_first_ok show ?thesis by simp
next
  case (Inr x)
  obtain ps r0 pool c where x: "x = (ps, r0, pool, c)" by (cases x)
  let ?reg = "Register sample_owners (Some 1) [12, 13] (identity (pool_store pool 0)) (pool, c)"
  from sample_first_ok have ok: "ps = [0, 1]" "retained pool None [10, 11, 12, 13, 14] [0]" "identity (pool_store pool 1) = None"
      "case ?reg of Inl e \<Rightarrow> False | Inr (r2, _) \<Rightarrow> registration_status r2 = Indexed"
    unfolding Inr x by (simp_all only: sum.case prod.case)
  obtain r pool' c' where reg: "?reg = Inr (r, pool', c')" "registration_status r = Indexed" using ok(4) by (cases ?reg) auto
  have "sample_first sample_options = Inr ([0, 1], r0, pool, c)" using Inr x ok(1) by (simp only:)
  from sample_first_reached[OF this sample_plain] obtain L where run: "prefix_run sample_options 2 3 (\<lambda>p. 0 + count_list [0, 1] p) L (pool, c)" by blast
  have o: "opt_enabled sample_options" "max_blocks sample_options \<noteq> 0" "\<not> requires_checkpoint sample_options" by (simp_all add: sample_options_def)
  have reg': "Register sample_owners (Some 1) (take 2 (drop (length [0 :: bptr] * 2) [10, 11, 12, 13, 14]))
      (if [0 :: bptr] = [] then None else identity (pool_store pool (last [0]))) (pool, c) = Inr (r, pool', c')" using reg(1) by simp
  from prefix_register_found[OF run _ o ok(2) _ _ ok(3) reg' reg(2)] obtain m c''
    where "Match sample_owners [10, 11, 12, 13, 14] (length [10 :: token, 11, 12, 13, 14]) pool' c' = Inr (m, c'')"
      "take (Suc (length [0 :: bptr])) (match_blocks m) = [0] @ [1]" by auto
  moreover have "length [10 :: token, 11, 12, 13, 14] = 5" "Suc (length [0 :: bptr]) = 2" by simp_all
  ultimately show ?thesis by (metis append_Cons append_Nil)
qed

text \<open>One of the two blocks that the request left behind.\<close>

theorem prefix_reclaim_exact_witness:
  "\<exists>pool c held L pool' c'. prefix_run sample_options 2 3 held L (pool, c) \<and> Reclaim sample_owners 1 (pool, c) = Inr (1, pool', c')
    \<and> AvailableBlocks pool' = 2 \<and> IndexedBlocks c' = 1"
proof (rule sample_freed_state)
  fix pool c held L
  assume r: "prefix_run sample_options 2 3 held L (pool, c)" "ReclaimableBlocks sample_owners c = 2" "AvailableBlocks pool = 1" "IndexedBlocks c = 2"
  from prefix_reclaim_exact[OF r(1), of sample_owners 1] r show ?thesis by fastforce
qed

text \<open>The request lets go of both blocks, and they stay.\<close>

theorem prefix_free_keeps_indexed_witness:
  "\<exists>pool c held L pool' c'. prefix_run sample_options 2 3 held L (pool, c)
    \<and> observed (Free (map Some [0, 1])) (pool, c) = Inr (pool', c') \<and> Owns pool' (Some 1)"
proof (rule sample_state)
  fix pool c L
  assume r: "prefix_run sample_options 2 3 (\<lambda>p. 0 + count_list [0, 1] p) L (pool, c)" "retained pool None [10, 11, 12, 13, 14] [0, 1]" "Owns pool (Some 1)"
  have "HasIdentity (pool_store pool 1)" using retained_identity[OF r(2), of 1] by (simp add: HasIdentity_def)
  with prefix_free_keeps_indexed[OF r(1), of "[0, 1]"] r show ?thesis by fastforce
qed

end
