(* ===== verification/Paged_Reservation.thy ===== *)
theory Paged_Reservation
  imports Prefix_Match Request_Index Window_Ring
begin

text \<open>
  The block tables of requests and the reservations that extend them (\<^verbatim>\<open>src/src/engine/paged_cache_reservation.h\<close>,
  \<^verbatim>\<open>src/src/engine/paged_cache_reservation.cpp\<close>), on the block pool, the prefix index and the request index.

  \<^item> A \<open>PagedCacheReservation\<close> refers to the pools, the tables and the index of its cache; here they are the fields of the
    cache that its operations take and return. The index and the reclaimer are the ones of \<open>PagedKeyValueCache::Reserve\<close>.
  \<^item> A handle in a table is never null. Vectors have no capacity and no storage address; the checks on those are left out.
  \<^item> An exception is an error next to the cache it leaves behind.
\<close>

section \<open>Tables and reservations\<close>

record PagedCacheBlockTable =
  table_request_id :: u64
  table_committed_slots :: nat
  table_blocks :: "bptr list"
  table_window_blocks :: "bptr list"
  table_sealed_blocks :: nat
  table_sealed_identity :: "BlockIdentity option"
  table_sealing_stopped :: bool
  table_generation :: u64

definition new_table :: "u64 \<Rightarrow> nat \<Rightarrow> bptr list \<Rightarrow> bptr list \<Rightarrow> PagedCacheBlockTable" where
  "new_table request_id slots blocks window_blocks =
     \<lparr>table_request_id = request_id, table_committed_slots = slots, table_blocks = blocks, table_window_blocks = window_blocks,
      table_sealed_blocks = 0, table_sealed_identity = None, table_sealing_stopped = False, table_generation = 0\<rparr>"

record PagedCacheReservationRequest =
  req_request_id :: u64
  req_target_slots :: nat
  req_newly_admitted :: bool
  req_reserved_slots :: nat
  req_prefix_match :: "PrefixCacheMatch option"

record PagedCacheReservationDelta =
  delta_request_id :: u64
  delta_committed_slots :: nat
  delta_table_generation :: u64
  delta_target_slots :: nat
  delta_reserved_offset :: nat
  delta_reserved_count :: nat
  delta_window_offset :: nat
  delta_window_count :: nat
  delta_advance_offset :: nat
  delta_advance_count :: nat
  delta_adopted_offset :: nat
  delta_adopted_count :: nat
  delta_newly_admitted :: bool

datatype PagedCacheReservationState = Reserved | Committed | Released

record ResidentTableSnapshot =
  snap_request_id :: u64
  snap_committed_slots :: nat
  snap_generation :: u64
  snap_block_count :: nat
  snap_window_block_count :: nat

record PagedCacheReservation =
  resident_table_index :: RequestIndex
  reserved_blocks :: "bptr list"
  reserved_window_blocks :: "bptr list"
  adopted_blocks :: "bptr list"
  deltas :: "PagedCacheReservationDelta list"
  delta_index :: RequestIndex
  delta_visit_generations :: "u64 list"
  next_delta_visit_generation :: u64
  new_tables :: "PagedCacheBlockTable list"
  advance_blocks :: "bptr list"
  resident_table_snapshots :: "ResidentTableSnapshot list"
  block_pool_generation :: u64
  window_block_pool_generation :: u64
  reservation_state :: PagedCacheReservationState

text \<open>The part of a paged cache that a reservation works on.\<close>

record PagedCache =
  cache_pool :: BlockPool
  cache_prefix :: PrefixCache
  cache_window_pool :: "BlockPool option"
  cache_ring_blocks :: nat
  cache_tables :: "PagedCacheBlockTable list"
  cache_index :: RequestIndex

datatype paged_error =
    PrefixFailure prefix_error
  | WindowFailure pool_error
  | IndexFailure index_error
  | WindowConfigurationInconsistent
  | SizeOverflow
  | TableIndexMismatch
  | CommittedTablesInvalid
  | ReservationIndexMismatch
  | ReservationRequestInvalid
  | MembershipMismatch
  | AdoptionNotAllowed
  | AdoptionNotWholeBlocks
  | AdoptionNotIndexed
  | CommittedSlotsReduced
  | WindowRingSize
  | WindowRingBlock
  | WindowRingShared
  | WindowBlocksWithoutPool
  | BoundaryExceedsCapacity
  | OccupancyInconsistent
  | GrowthShared
  | NoFreeWindowBlocks
  | NoFreeBlocks
  | NotReserved
  | InvalidShape
  | NotInReservation
  | PrefixCommitRange
  | CommittedAlready
  | PoolChanged
  | TablesChanged
  | DeltaInvalid
  | DeltaInconsistent
  | ReservedBlockInvalid
  | AdoptedBlockInvalid
  | TargetUnreachable
  | MappingChanged
  | ResourcesInconsistent
  | BlockOutOfRange
  | ReleaseAfterCommit
  | TokenMirrorShort
  | PagedTerminated

section \<open>Checked arithmetic\<close>

definition CheckedBlockSlots :: "nat \<Rightarrow> nat \<Rightarrow> paged_error + nat" where
  "CheckedBlockSlots block_count block_size =
     (if block_size \<noteq> 0 \<and> block_count > size_max div block_size then Inl SizeOverflow else Inr (block_count * block_size))"

definition CheckedAdd :: "nat \<Rightarrow> nat \<Rightarrow> paged_error + nat" where
  "CheckedAdd left right = (if right > size_max - left then Inl SizeOverflow else Inr (left + right))"

definition ValidateEmptyReservedBlocks :: "bptr list \<Rightarrow> BlockPool \<Rightarrow> paged_error + unit" where
  "ValidateEmptyReservedBlocks blocks pool =
     (if list_all (\<lambda>p. block_capacity (pool_store pool p) = pool_block_size pool \<and> block_slots_used (pool_store pool p) = 0) blocks
      then Inr () else Inl ReservedBlockInvalid)"

definition check :: "bool \<Rightarrow> paged_error \<Rightarrow> paged_error + unit" where
  "check ok e = (if ok then Inr () else Inl e)"

section \<open>Reserving\<close>

text \<open>The index of the committed tables, checked against the index of the cache.\<close>

fun index_tables :: "RequestIndex \<Rightarrow> PagedCacheBlockTable list \<Rightarrow> nat \<Rightarrow> RequestIndex \<Rightarrow> paged_error + RequestIndex" where
  "index_tables table_index [] index resident = Inr resident"
| "index_tables table_index (t # tables) index resident =
     (let request_id = table_request_id t; (resident1, inserted) = Insert request_id index resident in
      if request_id = 0 \<or> \<not> inserted then Inl CommittedTablesInvalid
      else if Find request_id table_index \<noteq> Some index then Inl TableIndexMismatch
      else index_tables table_index tables (Suc index) resident1)"

definition FindCommittedTable :: "RequestIndex \<Rightarrow> PagedCacheBlockTable list \<Rightarrow> u64 \<Rightarrow> paged_error + nat option" where
  "FindCommittedTable resident tables request_id =
     (case Find request_id resident of
        None \<Rightarrow> Inr None
      | Some i \<Rightarrow>
          if i \<ge> length tables \<or> table_request_id (tables ! i) \<noteq> request_id then Inl ReservationIndexMismatch else Inr (Some i))"

record reserve_scan =
  scan_delta_index :: RequestIndex
  scan_deltas :: "PagedCacheReservationDelta list"
  scan_adopted :: "bptr list"
  scan_new_tables :: "PagedCacheBlockTable list"
  scan_reserved_count :: nat
  scan_window_count :: nat
  scan_advance_count :: nat
  touched_committed_blocks :: "bptr set"
  resident_window_blocks :: "bptr set"

definition check_match :: "BlockPool \<Rightarrow> BlockPool option \<Rightarrow> PagedCacheReservationRequest \<Rightarrow> paged_error + bptr list" where
  "check_match pool window request =
     (case req_prefix_match request of
        None \<Rightarrow> Inr []
      | Some m \<Rightarrow>
          if match_blocks m = [] then Inr []
          else if \<not> req_newly_admitted request \<or> window \<noteq> None then Inl AdoptionNotAllowed
          else bind_result (CheckedBlockSlots (length (match_blocks m)) (pool_block_size pool)) (\<lambda>slots.
            if match_token_count m \<noteq> slots \<or> match_token_count m \<ge> req_target_slots request then Inl AdoptionNotWholeBlocks
            else if \<not> list_all (\<lambda>p. Owns pool (Some p) \<and> IsShareable (pool_store pool p)) (match_blocks m) then Inl AdoptionNotIndexed
            else Inr (match_blocks m)))"

fun check_ring :: "BlockPool \<Rightarrow> bptr list \<Rightarrow> bptr set \<Rightarrow> paged_error + bptr set" where
  "check_ring window [] seen = Inr seen"
| "check_ring window (p # blocks) seen =
     (if \<not> Owns window (Some p) \<or> block_capacity (pool_store window p) \<noteq> pool_block_size window then Inl WindowRingBlock
      else if p \<in> seen then Inl WindowRingShared
      else check_ring window blocks (insert p seen))"

definition check_resident_window :: "BlockPool option \<Rightarrow> nat \<Rightarrow> bptr list \<Rightarrow> bptr set \<Rightarrow> paged_error + bptr set" where
  "check_resident_window window ring_blocks blocks seen =
     (case window of
        Some pool \<Rightarrow> if length blocks \<noteq> ring_blocks then Inl WindowRingSize else check_ring pool blocks seen
      | None \<Rightarrow> if blocks \<noteq> [] then Inl WindowBlocksWithoutPool else Inr seen)"

text \<open>The blocks that this step writes are filled up to the committed boundary, and no other request writes them.\<close>

fun check_growth :: "BlockPool \<Rightarrow> bptr list \<Rightarrow> nat \<Rightarrow> nat list \<Rightarrow> bptr set \<Rightarrow> paged_error + bptr set" where
  "check_growth pool blocks committed_slots [] touched = Inr touched"
| "check_growth pool blocks committed_slots (i # is) touched =
     (let bs = pool_block_size pool; p = blocks ! i;
          expected = (if i = committed_slots div bs then committed_slots mod bs else 0)
      in if \<not> Owns pool (Some p) \<or> block_capacity (pool_store pool p) \<noteq> bs \<or> block_slots_used (pool_store pool p) \<noteq> expected
         then Inl OccupancyInconsistent
         else if p \<in> touched then Inl GrowthShared
         else check_growth pool blocks committed_slots is (insert p touched))"

definition committed_slots_of :: "BlockPool \<Rightarrow> PagedCacheBlockTable option \<Rightarrow> bptr list \<Rightarrow> nat" where
  "committed_slots_of pool table adopted =
     (case table of Some t \<Rightarrow> table_committed_slots t | None \<Rightarrow> length adopted * pool_block_size pool)"

definition committed_blocks_of :: "PagedCacheBlockTable option \<Rightarrow> bptr list \<Rightarrow> nat" where
  "committed_blocks_of table adopted = (case table of Some t \<Rightarrow> length (table_blocks t) | None \<Rightarrow> length adopted)"

text \<open>The extent of one request: the new blocks that it takes, and the blocks that its commit writes.\<close>

definition plan_delta ::
  "PagedCache \<Rightarrow> PagedCacheReservationRequest \<Rightarrow> PagedCacheBlockTable option \<Rightarrow> bptr list \<Rightarrow> reserve_scan \<Rightarrow> PagedCacheReservationDelta" where
  "plan_delta cache request table adopted s =
     (let pool = cache_pool cache; bs = pool_block_size pool; target = req_target_slots request;
          committed_slots = committed_slots_of pool table adopted
      in \<lparr>delta_request_id = req_request_id request, delta_committed_slots = committed_slots,
          delta_table_generation = (case table of Some t \<Rightarrow> table_generation t | None \<Rightarrow> 0), delta_target_slots = target,
          delta_reserved_offset = scan_reserved_count s,
          delta_reserved_count = BlocksNeeded pool (max (req_reserved_slots request) target - committed_blocks_of table adopted * bs),
          delta_window_offset = scan_window_count s,
          delta_window_count = (if req_newly_admitted request then cache_ring_blocks cache else 0),
          delta_advance_offset = scan_advance_count s,
          delta_advance_count = target div bs + (if target mod bs \<noteq> 0 then 1 else 0) - committed_slots div bs,
          delta_adopted_offset = length (scan_adopted s), delta_adopted_count = length adopted,
          delta_newly_admitted = req_newly_admitted request\<rparr>)"

definition plan_table :: "BlockPool \<Rightarrow> u64 \<Rightarrow> bptr list \<Rightarrow> PagedCacheBlockTable" where
  "plan_table pool request_id adopted =
     (new_table request_id (committed_slots_of pool None adopted) adopted [])
       \<lparr>table_sealed_blocks := length adopted,
        table_sealed_identity := (if adopted = [] then None else identity (pool_store pool (last adopted)))\<rparr>"

definition scan_request ::
  "PagedCache \<Rightarrow> RequestIndex \<Rightarrow> PagedCacheReservationRequest \<Rightarrow> reserve_scan \<Rightarrow> paged_error + reserve_scan" where
  "scan_request cache resident request s =
     (let pool = cache_pool cache; bs = pool_block_size pool;
          target = req_target_slots request; new = req_newly_admitted request;
          (index1, inserted) = Insert (req_request_id request) (length (scan_deltas s)) (scan_delta_index s)
      in
      bind_result (check (req_request_id request \<noteq> 0 \<and> inserted) ReservationRequestInvalid) (\<lambda>_.
      bind_result (FindCommittedTable resident (cache_tables cache) (req_request_id request)) (\<lambda>found.
      bind_result (check (new \<noteq> (found \<noteq> None)) MembershipMismatch) (\<lambda>_.
      bind_result (check_match pool (cache_window_pool cache) request) (\<lambda>adopted.
      let table = map_option (\<lambda>i. cache_tables cache ! i) found;
          committed_slots = committed_slots_of pool table adopted;
          committed_blocks = committed_blocks_of table adopted
      in
      bind_result (check (committed_slots \<le> target) CommittedSlotsReduced) (\<lambda>_.
      bind_result (case table of
          None \<Rightarrow> Inr (resident_window_blocks s)
        | Some t \<Rightarrow> check_resident_window (cache_window_pool cache) (cache_ring_blocks cache) (table_window_blocks t) (resident_window_blocks s)) (\<lambda>windows.
      bind_result (CheckedBlockSlots committed_blocks bs) (\<lambda>committed_capacity.
      bind_result (check (committed_slots \<le> committed_capacity) BoundaryExceedsCapacity) (\<lambda>_.
      bind_result (case table of
          None \<Rightarrow> Inr (touched_committed_blocks s)
        | Some t \<Rightarrow>
            if target > committed_slots
            then check_growth pool (table_blocks t) committed_slots
                   [committed_slots div bs..<min committed_blocks (BlocksNeeded pool target)] (touched_committed_blocks s)
            else Inr (touched_committed_blocks s)) (\<lambda>touched.
      let delta = plan_delta cache request table adopted s in
      bind_result (CheckedAdd (scan_reserved_count s) (delta_reserved_count delta)) (\<lambda>reserved_count.
      bind_result (CheckedAdd (scan_advance_count s) (delta_advance_count delta)) (\<lambda>advance_count.
      bind_result (if new then CheckedAdd (scan_window_count s) (cache_ring_blocks cache) else Inr (scan_window_count s)) (\<lambda>window_count.
      bind_result (CheckedAdd committed_blocks (delta_reserved_count delta)) (\<lambda>_.
        Inr \<lparr>scan_delta_index = index1, scan_deltas = scan_deltas s @ [delta], scan_adopted = scan_adopted s @ adopted,
             scan_new_tables = scan_new_tables s @ (if table = None then [plan_table pool (req_request_id request) adopted] else []),
             scan_reserved_count = reserved_count, scan_window_count = window_count, scan_advance_count = advance_count,
             touched_committed_blocks = touched, resident_window_blocks = windows\<rparr>))))))))))))))"

fun scan_requests ::
  "PagedCache \<Rightarrow> RequestIndex \<Rightarrow> PagedCacheReservationRequest list \<Rightarrow> reserve_scan \<Rightarrow> paged_error + reserve_scan" where
  "scan_requests cache resident [] s = Inr s"
| "scan_requests cache resident (request # requests) s =
     bind_result (scan_request cache resident request s) (scan_requests cache resident requests)"

text \<open>Everything that can fail before the pools are touched: the index of the tables and the scan.\<close>

definition plan_reservation :: "PagedCacheReservationRequest list \<Rightarrow> PagedCache \<Rightarrow> paged_error + RequestIndex \<times> reserve_scan" where
  "plan_reservation requests cache =
     (let tables = cache_tables cache in
      bind_result (map_sum IndexFailure id (new_index (length tables))) (\<lambda>resident0.
      bind_result (map_sum IndexFailure id (new_index (length requests))) (\<lambda>delta_index0.
      bind_result (check ((cache_window_pool cache = None) = (cache_ring_blocks cache = 0)) WindowConfigurationInconsistent) (\<lambda>_.
      bind_result (CheckedAdd (length tables) (length requests)) (\<lambda>_.
      bind_result (check (index_size (cache_index cache) = length tables) TableIndexMismatch) (\<lambda>_.
      bind_result (index_tables (cache_index cache) tables 0 resident0) (\<lambda>resident.
      bind_result (scan_requests cache resident requests
          \<lparr>scan_delta_index = delta_index0, scan_deltas = [], scan_adopted = [], scan_new_tables = [], scan_reserved_count = 0,
           scan_window_count = 0, scan_advance_count = 0, touched_committed_blocks = {}, resident_window_blocks = {}\<rparr>) (\<lambda>s.
      bind_result (check (case cache_window_pool cache of None \<Rightarrow> True | Some w \<Rightarrow> scan_window_count s \<le> AvailableBlocks w)
          NoFreeWindowBlocks) (\<lambda>_.
        Inr (resident, s))))))))))"

definition set_pool :: "BlockPool \<times> PrefixCache \<Rightarrow> PagedCache \<Rightarrow> PagedCache" where
  "set_pool w cache = cache\<lparr>cache_pool := fst w, cache_prefix := snd w\<rparr>"

definition cache_state :: "PagedCache \<Rightarrow> BlockPool \<times> PrefixCache" where
  "cache_state cache = (cache_pool cache, cache_prefix cache)"

text \<open>The part under \<open>try\<close>: room is made, then the blocks are taken. The blocks taken before a failure are returned with it.\<close>

definition acquire ::
  "CheckpointOwners \<Rightarrow> nat \<Rightarrow> nat \<Rightarrow> PagedCache \<Rightarrow> PagedCache \<times> bptr list \<times> (paged_error + bptr list)" where
  "acquire owners block_count window_count cache =
     (case (if block_count > AvailableBlocks (cache_pool cache)
            then Reclaim owners (block_count - AvailableBlocks (cache_pool cache)) (cache_state cache)
            else Inr (0, cache_state cache)) of
        Inl e \<Rightarrow> (cache, [], Inl (PrefixFailure e))
      | Inr (_, w) \<Rightarrow>
          let cache1 = set_pool w cache in
          if block_count > AvailableBlocks (fst w) then (cache1, [], Inl NoFreeBlocks)
          else case bind_result (CheckedBlockSlots block_count (pool_block_size (fst w)))
                      (\<lambda>slots. map_sum (\<lambda>e. PrefixFailure (PoolError e)) id (ReserveBlocks slots (fst w))) of
            Inl e \<Rightarrow> (cache1, [], Inl e)
          | Inr (pool2, blocks) \<Rightarrow>
              let cache2 = cache1\<lparr>cache_pool := pool2\<rparr> in
              case cache_window_pool cache2 of
                None \<Rightarrow> (cache2, blocks, Inr [])
              | Some window \<Rightarrow>
                  (case bind_result (CheckedBlockSlots window_count (pool_block_size window))
                          (\<lambda>slots. map_sum WindowFailure id (ReserveBlocks slots window)) of
                     Inl e \<Rightarrow> (cache2, blocks, Inl e)
                   | Inr (window1, window_blocks) \<Rightarrow> (cache2\<lparr>cache_window_pool := Some window1\<rparr>, blocks, Inr window_blocks)))"

fun release_each :: "bptr list \<Rightarrow> BlockPool \<times> PrefixCache \<Rightarrow> prefix_error + BlockPool \<times> PrefixCache" where
  "release_each [] w = Inr w"
| "release_each (p # ps) w = bind_result (observed (Release (Some p)) w) (release_each ps)"

text \<open>The handler of the exceptions, and the destructor of a reservation that was never published.\<close>

definition undo_reservation :: "bptr list \<Rightarrow> bptr list \<Rightarrow> bptr list \<Rightarrow> PagedCache \<Rightarrow> paged_error + PagedCache" where
  "undo_reservation blocks window_blocks adopted cache =
     (let cache1 = cache\<lparr>cache_pool := RollbackReservedBlocks (map Some blocks) (cache_pool cache),
            cache_window_pool := map_option (RollbackReservedBlocks (map Some window_blocks)) (cache_window_pool cache)\<rparr>
      in map_sum PrefixFailure (\<lambda>w. set_pool w cache1) (release_each adopted (cache_state cache1)))"

text \<open>The blocks that a commit writes, in the order of the deltas.\<close>

definition advance_of ::
  "RequestIndex \<Rightarrow> PagedCacheBlockTable list \<Rightarrow> nat \<Rightarrow> bptr list \<Rightarrow> PagedCacheReservationDelta \<Rightarrow> paged_error + bptr list" where
  "advance_of resident tables bs reserved d =
     bind_result (FindCommittedTable resident tables (delta_request_id d)) (\<lambda>found.
       let committed_blocks = (case found of Some i \<Rightarrow> length (table_blocks (tables ! i)) | None \<Rightarrow> delta_adopted_count d);
           first_block = delta_committed_slots d div bs
       in Inr (map (\<lambda>i. if i < committed_blocks then table_blocks (tables ! the found) ! i
                        else reserved ! (delta_reserved_offset d + i - committed_blocks))
                [first_block..<first_block + delta_advance_count d]))"

fun collect_result :: "('a \<Rightarrow> 'e + 'b list) \<Rightarrow> 'a list \<Rightarrow> 'e + 'b list" where
  "collect_result f [] = Inr []"
| "collect_result f (x # xs) = bind_result (f x) (\<lambda>ys. bind_result (collect_result f xs) (\<lambda>zs. Inr (ys @ zs)))"

definition snapshot_of :: "PagedCacheBlockTable \<Rightarrow> ResidentTableSnapshot" where
  "snapshot_of t = \<lparr>snap_request_id = table_request_id t, snap_committed_slots = table_committed_slots t,
     snap_generation = table_generation t, snap_block_count = length (table_blocks t),
     snap_window_block_count = length (table_window_blocks t)\<rparr>"

definition window_generation :: "BlockPool option \<Rightarrow> u64" where
  "window_generation window = (case window of None \<Rightarrow> 0 | Some w \<Rightarrow> mutation_generation w)"

definition Reserve ::
  "CheckpointOwners \<Rightarrow> PagedCacheReservationRequest list \<Rightarrow> PagedCache \<Rightarrow> PagedCache \<times> (paged_error + PagedCacheReservation)" where
  "Reserve owners requests cache =
     (case plan_reservation requests cache of
        Inl e \<Rightarrow> (cache, Inl e)
      | Inr (resident, s) \<Rightarrow>
          (case (if scan_adopted s \<noteq> [] then observed (AddRefs (map Some (scan_adopted s))) (cache_state cache)
                 else Inr (cache_state cache)) of
             Inl e \<Rightarrow> (cache, Inl (PrefixFailure e))
           | Inr w \<Rightarrow>
               (case acquire owners (scan_reserved_count s) (scan_window_count s) (set_pool w cache) of
                  (cache1, blocks, Inl e) \<Rightarrow>
                    (case undo_reservation blocks [] (scan_adopted s) cache1 of
                       Inl e1 \<Rightarrow> (cache1, Inl e1)
                     | Inr cache2 \<Rightarrow> (cache2, Inl e))
                | (cache1, blocks, Inr window_blocks) \<Rightarrow>
                    (cache1, bind_result (collect_result (advance_of resident (cache_tables cache1) (pool_block_size (cache_pool cache1)) blocks)
                          (scan_deltas s)) (\<lambda>advance.
                       Inr \<lparr>resident_table_index = resident, reserved_blocks = blocks, reserved_window_blocks = window_blocks,
                            adopted_blocks = scan_adopted s, deltas = scan_deltas s, delta_index = scan_delta_index s,
                            delta_visit_generations = replicate (length requests) 0, next_delta_visit_generation = 1,
                            new_tables = scan_new_tables s, advance_blocks = advance,
                            resident_table_snapshots = map snapshot_of (cache_tables cache1),
                            block_pool_generation = mutation_generation (cache_pool cache1),
                            window_block_pool_generation = window_generation (cache_window_pool cache1),
                            reservation_state = Reserved\<rparr>)))))"

definition destroy_reservation :: "PagedCacheReservation \<Rightarrow> PagedCache \<Rightarrow> paged_error + PagedCache" where
  "destroy_reservation r cache =
     (if reservation_state r = Reserved
      then undo_reservation (reserved_blocks r) (reserved_window_blocks r) (adopted_blocks r) cache else Inr cache)"

section \<open>Block tables of a reservation\<close>

definition delta_found :: "PagedCacheReservation \<Rightarrow> PagedCache \<Rightarrow> PagedCacheReservationDelta \<Rightarrow> paged_error + nat option" where
  "delta_found r cache d = FindCommittedTable (resident_table_index r) (cache_tables cache) (delta_request_id d)"

definition delta_committed_blocks :: "PagedCache \<Rightarrow> nat option \<Rightarrow> PagedCacheReservationDelta \<Rightarrow> nat" where
  "delta_committed_blocks cache found d =
     (case found of Some i \<Rightarrow> length (table_blocks (cache_tables cache ! i)) | None \<Rightarrow> delta_adopted_count d)"

fun required_columns :: "PagedCacheReservation \<Rightarrow> PagedCache \<Rightarrow> PagedCacheReservationDelta list \<Rightarrow> nat \<Rightarrow> paged_error + nat" where
  "required_columns r cache [] columns = Inr columns"
| "required_columns r cache (d # ds) columns =
     bind_result (delta_found r cache d) (\<lambda>found.
       required_columns r cache ds (max columns (delta_committed_blocks cache found d + delta_reserved_count d)))"

definition RequiredBlockTableColumns :: "PagedCacheReservation \<Rightarrow> PagedCache \<Rightarrow> paged_error + nat" where
  "RequiredBlockTableColumns r cache = required_columns r cache (deltas r) 0"

definition subspan :: "nat \<Rightarrow> nat \<Rightarrow> 'a list \<Rightarrow> 'a list" where
  "subspan offset n xs = take n (drop offset xs)"

definition BeginDeltaResolution :: "PagedCacheReservation \<Rightarrow> PagedCacheReservation \<times> u64" where
  "BeginDeltaResolution r =
     (let r1 = (if next_delta_visit_generation r = - 1
                then r\<lparr>delta_visit_generations := map (\<lambda>_. 0) (delta_visit_generations r), next_delta_visit_generation := 1\<rparr> else r)
      in (r1\<lparr>next_delta_visit_generation := next_delta_visit_generation r1 + 1\<rparr>, next_delta_visit_generation r1))"

definition ResolveDelta ::
  "u64 \<Rightarrow> u64 \<Rightarrow> PagedCacheReservation \<Rightarrow> paged_error + PagedCacheReservation \<times> PagedCacheReservationDelta" where
  "ResolveDelta request_id visit r =
     (case Find request_id (delta_index r) of
        None \<Rightarrow> Inl ReservationRequestInvalid
      | Some i \<Rightarrow>
          if i \<ge> length (deltas r) \<or> delta_visit_generations r ! i = visit \<or> delta_request_id (deltas r ! i) \<noteq> request_id
          then Inl ReservationRequestInvalid
          else Inr (r\<lparr>delta_visit_generations := (delta_visit_generations r)[i := visit]\<rparr>, deltas r ! i))"

definition int32_of :: "nat \<Rightarrow> int" where
  "int32_of n = signed_take_bit 31 (int n)"

definition block_row :: "PagedCacheReservation \<Rightarrow> PagedCache \<Rightarrow> nat option \<Rightarrow> PagedCacheReservationDelta \<Rightarrow> bptr list" where
  "block_row r cache found d =
     (case found of Some i \<Rightarrow> table_blocks (cache_tables cache ! i) | None \<Rightarrow> subspan (delta_adopted_offset d) (delta_adopted_count d) (adopted_blocks r))
     @ subspan (delta_reserved_offset d) (delta_reserved_count d) (reserved_blocks r)"

text \<open>The columns suffice for every request of the reservation, so that a row fits its part of the output.\<close>

fun fill_rows ::
  "u64 \<Rightarrow> nat \<Rightarrow> PagedCache \<Rightarrow> u64 list \<Rightarrow> PagedCacheReservation \<Rightarrow> paged_error + PagedCacheReservation \<times> int list" where
  "fill_rows visit columns cache [] r = Inr (r, [])"
| "fill_rows visit columns cache (request_id # request_ids) r =
     bind_result (ResolveDelta request_id visit r) (\<lambda>(r1, d).
     bind_result (FindCommittedTable (resident_table_index r1) (cache_tables cache) request_id) (\<lambda>found.
       let ids = map (\<lambda>p. int32_of (block_id (pool_store (cache_pool cache) p))) (block_row r1 cache found d) in
     bind_result (fill_rows visit columns cache request_ids r1) (\<lambda>(r2, rows).
       Inr (r2, ids @ replicate (columns - length ids) (- 1) @ rows))))"

definition FillBlockTable ::
  "u64 list \<Rightarrow> nat \<Rightarrow> nat \<Rightarrow> PagedCacheReservation \<Rightarrow> PagedCache \<Rightarrow> paged_error + PagedCacheReservation \<times> int list" where
  "FillBlockTable request_ids columns output_size r cache =
     bind_result (check (reservation_state r = Reserved) NotReserved) (\<lambda>_.
     bind_result (check (length request_ids \<le> length (deltas r)) InvalidShape) (\<lambda>_.
     bind_result (RequiredBlockTableColumns r cache) (\<lambda>required.
     bind_result (check (required \<le> columns \<and> output_size = length request_ids * columns) InvalidShape) (\<lambda>_.
       let (r1, visit) = BeginDeltaResolution r in fill_rows visit columns cache request_ids r1))))"

definition ring_row :: "nat \<Rightarrow> PagedCacheReservation \<Rightarrow> PagedCache \<Rightarrow> nat option \<Rightarrow> PagedCacheReservationDelta \<Rightarrow> paged_error + int list" where
  "ring_row columns r cache found d =
     (let blocks = (case found of Some i \<Rightarrow> table_window_blocks (cache_tables cache ! i) | None \<Rightarrow> reserved_window_blocks r);
          offset = (case found of Some i \<Rightarrow> 0 | None \<Rightarrow> delta_window_offset d)
      in collect_result (\<lambda>column.
           let k = offset + unat (WindowRingColumn (of_nat column) (of_nat (cache_ring_blocks cache))) in
           if k < length blocks then Inr [int32_of (block_id (pool_store (the (cache_window_pool cache)) (blocks ! k)))]
           else Inl BlockOutOfRange) [0..<columns])"

fun fill_window_rows ::
  "u64 \<Rightarrow> nat \<Rightarrow> PagedCache \<Rightarrow> u64 list \<Rightarrow> PagedCacheReservation \<Rightarrow> paged_error + PagedCacheReservation \<times> int list" where
  "fill_window_rows visit columns cache [] r = Inr (r, [])"
| "fill_window_rows visit columns cache (request_id # request_ids) r =
     bind_result (ResolveDelta request_id visit r) (\<lambda>(r1, d).
     bind_result (FindCommittedTable (resident_table_index r1) (cache_tables cache) request_id) (\<lambda>found.
     bind_result (ring_row columns r1 cache found d) (\<lambda>row.
     bind_result (fill_window_rows visit columns cache request_ids r1) (\<lambda>(r2, rows). Inr (r2, row @ rows)))))"

definition FillWindowBlockTable ::
  "u64 list \<Rightarrow> nat \<Rightarrow> nat \<Rightarrow> PagedCacheReservation \<Rightarrow> PagedCache \<Rightarrow> paged_error + PagedCacheReservation \<times> int list" where
  "FillWindowBlockTable request_ids columns output_size r cache =
     bind_result (check (reservation_state r = Reserved \<and> cache_window_pool cache \<noteq> None) NotReserved) (\<lambda>_.
     bind_result (check (length request_ids \<le> length (deltas r) \<and> output_size = length request_ids * columns) InvalidShape) (\<lambda>_.
       let (r1, visit) = BeginDeltaResolution r in fill_window_rows visit columns cache request_ids r1))"

section \<open>Publishing\<close>

definition update_first :: "('a \<Rightarrow> bool) \<Rightarrow> ('a \<Rightarrow> 'a) \<Rightarrow> 'a list \<Rightarrow> 'a list" where
  "update_first P f xs = takeWhile (\<lambda>x. \<not> P x) xs
     @ (case dropWhile (\<lambda>x. \<not> P x) xs of [] \<Rightarrow> [] | x # ys \<Rightarrow> f x # ys)"

definition CommitPrefix :: "u64 \<Rightarrow> nat \<Rightarrow> nat \<Rightarrow> PagedCacheReservation \<Rightarrow> paged_error + PagedCacheReservation" where
  "CommitPrefix request_id step_slots kept_slots r =
     bind_result (check (reservation_state r = Reserved) NotReserved) (\<lambda>_.
       case find (\<lambda>d. delta_request_id d = request_id) (deltas r) of
         None \<Rightarrow> Inl NotInReservation
       | Some d \<Rightarrow>
           if kept_slots = 0 \<or> kept_slots > step_slots \<or> step_slots \<noteq> delta_target_slots d - delta_committed_slots d then Inl PrefixCommitRange
           else Inr (r\<lparr>deltas := update_first (\<lambda>d. delta_request_id d = request_id)
                         (\<lambda>d. d\<lparr>delta_target_slots := delta_committed_slots d + kept_slots\<rparr>) (deltas r)\<rparr>))"

definition ValidateResidentTablesUnchanged :: "PagedCacheReservation \<Rightarrow> PagedCache \<Rightarrow> paged_error + unit" where
  "ValidateResidentTablesUnchanged r cache = check (map snapshot_of (cache_tables cache) = resident_table_snapshots r) TablesChanged"

definition generations_unchanged :: "PagedCacheReservation \<Rightarrow> PagedCache \<Rightarrow> bool" where
  "generations_unchanged r cache \<longleftrightarrow> mutation_generation (cache_pool cache) = block_pool_generation r
     \<and> (case cache_window_pool cache of None \<Rightarrow> True | Some w \<Rightarrow> mutation_generation w = window_block_pool_generation r)"

text \<open>The walk over the blocks between the committed boundary and the target; every round passes one block.\<close>

function advance_preconditions ::
  "PagedCacheReservation \<Rightarrow> BlockPool \<Rightarrow> PagedCacheReservationDelta \<Rightarrow> bptr list \<Rightarrow> nat \<Rightarrow> nat \<Rightarrow> paged_error + unit" where
  "advance_preconditions r pool d blocks i remaining =
     (if remaining = 0 then Inr ()
      else
        let bs = pool_block_size pool; first = delta_committed_slots d div bs in
        if i \<ge> length blocks \<and> i - length blocks \<ge> delta_reserved_count d then Inl TargetUnreachable
        else
          let k = delta_reserved_offset d + (i - length blocks) in
          if i \<ge> length blocks \<and> k \<ge> length (reserved_blocks r) then Inl BlockOutOfRange
          else
            let p = (if i < length blocks then blocks ! i else reserved_blocks r ! k);
                expected = (if i = first then delta_committed_slots d mod bs else 0);
                a = delta_advance_offset d + (i - first)
            in if block_capacity (pool_store pool p) \<noteq> bs \<or> block_slots_used (pool_store pool p) \<noteq> expected
                  \<or> i - first \<ge> delta_advance_count d then Inl MappingChanged
               else if a \<ge> length (advance_blocks r) then Inl BlockOutOfRange
               else if p \<noteq> advance_blocks r ! a then Inl MappingChanged
               else advance_preconditions r pool d blocks (Suc i) (remaining - min remaining (bs - expected)))"
  by pat_completeness auto
termination
proof (relation "measure (\<lambda>(r, pool, d, blocks, i, remaining). length blocks + delta_reserved_count d - i)", goal_cases)
  case (2 r pool d blocks i remaining)
  then have "i < length blocks + delta_reserved_count d" by linarith
  then show ?case by simp
qed simp

definition ValidateAdvancePreconditions ::
  "PagedCacheReservation \<Rightarrow> BlockPool \<Rightarrow> PagedCacheReservationDelta \<Rightarrow> PagedCacheBlockTable \<Rightarrow> paged_error + unit" where
  "ValidateAdvancePreconditions r pool d table =
     advance_preconditions r pool d (table_blocks table) (delta_committed_slots d div pool_block_size pool)
       (delta_target_slots d - delta_committed_slots d)"

fun validate_tables :: "RequestIndex \<Rightarrow> PagedCacheBlockTable list \<Rightarrow> nat \<Rightarrow> bool" where
  "validate_tables resident [] index = True"
| "validate_tables resident (t # tables) index =
     (table_request_id t \<noteq> 0 \<and> Find (table_request_id t) resident = Some index \<and> validate_tables resident tables (Suc index))"

text \<open>The running totals of the validation: deltas seen, reserved, window and adopted blocks assigned, and new tables.\<close>

record commit_scan =
  cs_index :: nat
  cs_reserved :: nat
  cs_window :: nat
  cs_adopted :: nat
  cs_new :: nat

definition owned_empty :: "bptr list \<Rightarrow> BlockPool \<Rightarrow> paged_error + unit" where
  "owned_empty blocks pool =
     bind_result (ValidateEmptyReservedBlocks blocks pool) (\<lambda>_. check (list_all (\<lambda>p. Owns pool (Some p)) blocks) ReservedBlockInvalid)"

definition validate_delta ::
  "PagedCacheReservation \<Rightarrow> PagedCache \<Rightarrow> PagedCacheReservationDelta \<Rightarrow> commit_scan \<Rightarrow> paged_error + commit_scan" where
  "validate_delta r cache d s =
     (let pool = cache_pool cache; bs = pool_block_size pool in
      bind_result (check (delta_request_id d \<noteq> 0 \<and> Find (delta_request_id d) (delta_index r) = Some (cs_index s)) DeltaInvalid) (\<lambda>_.
      bind_result (delta_found r cache d) (\<lambda>found.
      bind_result (check (delta_newly_admitted d \<noteq> (found \<noteq> None)) TablesChanged) (\<lambda>_.
      bind_result (check (case found of None \<Rightarrow> True
          | Some i \<Rightarrow> table_committed_slots (cache_tables cache ! i) = delta_committed_slots d
              \<and> table_generation (cache_tables cache ! i) = delta_table_generation d) TablesChanged) (\<lambda>_.
      bind_result (check (delta_committed_slots d \<le> delta_target_slots d
          \<and> delta_reserved_offset d = cs_reserved s \<and> cs_reserved s \<le> length (reserved_blocks r)
          \<and> delta_reserved_count d \<le> length (reserved_blocks r) - cs_reserved s
          \<and> delta_window_offset d = cs_window s \<and> cs_window s \<le> length (reserved_window_blocks r)
          \<and> delta_window_count d \<le> length (reserved_window_blocks r) - cs_window s
          \<and> delta_adopted_offset d = cs_adopted s \<and> cs_adopted s \<le> length (adopted_blocks r)
          \<and> delta_adopted_count d \<le> length (adopted_blocks r) - cs_adopted s) DeltaInconsistent) (\<lambda>_.
      bind_result (owned_empty (subspan (cs_reserved s) (delta_reserved_count d) (reserved_blocks r)) pool) (\<lambda>_.
      bind_result (case cache_window_pool cache of
          None \<Rightarrow> Inr ()
        | Some w \<Rightarrow> owned_empty (subspan (cs_window s) (delta_window_count d) (reserved_window_blocks r)) w) (\<lambda>_.
      bind_result (check (list_all (\<lambda>p. Owns pool (Some p) \<and> IsShareable (pool_store pool p))
          (subspan (cs_adopted s) (delta_adopted_count d) (adopted_blocks r))) AdoptedBlockInvalid) (\<lambda>_.
      bind_result (CheckedAdd (delta_committed_blocks cache found d) (delta_reserved_count d)) (\<lambda>total_blocks.
      bind_result (CheckedBlockSlots total_blocks bs) (\<lambda>capacity.
      bind_result (check (delta_target_slots d \<le> capacity) TargetUnreachable) (\<lambda>_.
      bind_result (case found of
          Some i \<Rightarrow> Inr (cache_tables cache ! i)
        | None \<Rightarrow> if cs_new s < length (new_tables r) then Inr (new_tables r ! cs_new s) else Inl BlockOutOfRange) (\<lambda>target_table.
      bind_result (ValidateAdvancePreconditions r pool d target_table) (\<lambda>_.
        Inr \<lparr>cs_index = Suc (cs_index s), cs_reserved = cs_reserved s + delta_reserved_count d,
             cs_window = cs_window s + delta_window_count d, cs_adopted = cs_adopted s + delta_adopted_count d,
             cs_new = cs_new s + (if delta_newly_admitted d then 1 else 0)\<rparr>))))))))))))))"

definition ValidateCommit :: "PagedCacheReservation \<Rightarrow> PagedCache \<Rightarrow> paged_error + unit" where
  "ValidateCommit r cache =
     bind_result (check (reservation_state r = Reserved) CommittedAlready) (\<lambda>_.
     bind_result (check ((cache_window_pool cache = None) = (cache_ring_blocks cache = 0)) WindowConfigurationInconsistent) (\<lambda>_.
     bind_result (check (generations_unchanged r cache) PoolChanged) (\<lambda>_.
     bind_result (ValidateResidentTablesUnchanged r cache) (\<lambda>_.
     bind_result (check (validate_tables (resident_table_index r) (cache_tables cache) 0) CommittedTablesInvalid) (\<lambda>_.
     bind_result (run_result (validate_delta r cache) (deltas r)
         \<lparr>cs_index = 0, cs_reserved = 0, cs_window = 0, cs_adopted = 0, cs_new = 0\<rparr>) (\<lambda>s.
       check (cs_reserved s = length (reserved_blocks r) \<and> cs_window s = length (reserved_window_blocks r)
         \<and> cs_adopted s = length (adopted_blocks r) \<and> cs_new s = length (new_tables r)
         \<and> cs_new s \<le> index_max_entries (cache_index cache) - index_size (cache_index cache)) ResourcesInconsistent))))))"

fun advance_slots :: "nat \<Rightarrow> bptr list \<Rightarrow> BlockPool \<Rightarrow> paged_error + BlockPool" where
  "advance_slots remaining [] pool = (if remaining = 0 then Inr pool else Inl BlockOutOfRange)"
| "advance_slots remaining (p # ps) pool =
     (if remaining = 0 then Inr pool
      else let slots = min remaining (EmptySlots (pool_store pool p)) in
           bind_result (map_sum (\<lambda>e. PrefixFailure (PoolError e)) id (AddSlots slots (pool_store pool p))) (\<lambda>b.
             advance_slots (remaining - slots) ps (put_block p b pool)))"

definition AdvanceCommittedSlots ::
  "PagedCacheBlockTable \<Rightarrow> nat \<Rightarrow> BlockPool \<Rightarrow> paged_error + PagedCacheBlockTable \<times> BlockPool" where
  "AdvanceCommittedSlots table target_slots pool =
     bind_result (advance_slots (target_slots - table_committed_slots table)
         (drop (table_committed_slots table div pool_block_size pool) (table_blocks table)) pool) (\<lambda>pool1.
       Inr (table\<lparr>table_committed_slots := target_slots\<rparr>, pool1))"

text \<open>The second look at every delta before the first table changes; the counter is the number of new tables.\<close>

definition preflight_delta :: "PagedCacheReservation \<Rightarrow> PagedCache \<Rightarrow> PagedCacheReservationDelta \<Rightarrow> nat \<Rightarrow> paged_error + nat" where
  "preflight_delta r cache d n =
     bind_result (delta_found r cache d) (\<lambda>found.
     bind_result (check (if delta_newly_admitted d then found = None
         else case found of None \<Rightarrow> False
           | Some i \<Rightarrow> table_generation (cache_tables cache ! i) = delta_table_generation d
               \<and> table_committed_slots (cache_tables cache ! i) = delta_committed_slots d) TablesChanged) (\<lambda>_.
     bind_result (case found of
         Some i \<Rightarrow> Inr (cache_tables cache ! i)
       | None \<Rightarrow> if n < length (new_tables r) then Inr (new_tables r ! n) else Inl BlockOutOfRange) (\<lambda>target_table.
     bind_result (ValidateAdvancePreconditions r (cache_pool cache) d target_table) (\<lambda>_.
       Inr (if found = None then Suc n else n)))))"

text \<open>A delta is published: the next new table, or the table of the request, gets its blocks and its boundary.\<close>

definition publish_delta ::
  "PagedCacheReservation \<Rightarrow> PagedCacheReservationDelta \<Rightarrow> PagedCache \<times> nat \<times> bool \<Rightarrow> paged_error + PagedCache \<times> nat \<times> bool" where
  "publish_delta r d st =
     (case st of (cache, n, changed) \<Rightarrow>
      bind_result (delta_found r cache d) (\<lambda>found.
      bind_result (if delta_newly_admitted d
          then if n < length (new_tables r) then Inr (new_tables r ! n) else Inl BlockOutOfRange
          else case found of Some i \<Rightarrow> Inr (cache_tables cache ! i) | None \<Rightarrow> Inl PagedTerminated) (\<lambda>table.
      let table1 = table\<lparr>
            table_blocks := table_blocks table @ subspan (delta_reserved_offset d) (delta_reserved_count d) (reserved_blocks r),
            table_window_blocks := table_window_blocks table @ subspan (delta_window_offset d) (delta_window_count d) (reserved_window_blocks r)\<rparr>
      in
      bind_result (AdvanceCommittedSlots table1 (delta_target_slots d) (cache_pool cache)) (\<lambda>(table2, pool1).
      let table3 = table2\<lparr>table_generation := table_generation table2 + 1\<rparr>;
          changed1 = (changed \<or> delta_target_slots d \<noteq> delta_committed_slots d)
      in if delta_newly_admitted d
         then (case Insert (delta_request_id d) (length (cache_tables cache)) (cache_index cache) of
                 (index1, inserted) \<Rightarrow>
                   if \<not> inserted then Inl PagedTerminated
                   else Inr (cache\<lparr>cache_pool := pool1, cache_tables := cache_tables cache @ [table3], cache_index := index1\<rparr>, Suc n, changed1))
         else Inr (cache\<lparr>cache_pool := pool1, cache_tables := (cache_tables cache)[the found := table3]\<rparr>, n, changed1)))))"

definition CommitValidated :: "PagedCacheReservation \<Rightarrow> PagedCache \<Rightarrow> paged_error + PagedCacheReservation \<times> PagedCache" where
  "CommitValidated r cache =
     bind_result (check (reservation_state r = Reserved) CommittedAlready) (\<lambda>_.
     bind_result (check (generations_unchanged r cache) PoolChanged) (\<lambda>_.
     bind_result (ValidateResidentTablesUnchanged r cache) (\<lambda>_.
     bind_result (run_result (preflight_delta r cache) (deltas r) 0) (\<lambda>_.
     bind_result (run_result (publish_delta r) (deltas r) (cache, 0, False)) (\<lambda>(cache1, _, changed).
       let pool = cache_pool cache1;
           cache2 = cache1\<lparr>cache_pool := (if changed then pool\<lparr>mutation_generation := mutation_generation pool + 1\<rparr> else pool)\<rparr>
       in Inr (r\<lparr>reserved_blocks := [], reserved_window_blocks := [], new_tables := [], advance_blocks := [],
                 reservation_state := Committed\<rparr>, cache2))))))"

definition Commit :: "PagedCacheReservation \<Rightarrow> PagedCache \<Rightarrow> paged_error + PagedCacheReservation \<times> PagedCache" where
  "Commit r cache = bind_result (ValidateCommit r cache) (\<lambda>_. CommitValidated r cache)"

text \<open>\<open>Release\<close> of a reservation: everything is validated before anything is freed.\<close>

definition ReleaseReservation :: "PagedCacheReservation \<Rightarrow> PagedCache \<Rightarrow> paged_error + PagedCacheReservation \<times> PagedCache" where
  "ReleaseReservation r cache =
     (if reservation_state r = Released then Inr (r, cache)
      else if reservation_state r = Committed then Inl ReleaseAfterCommit
      else
        let pool_failure = map_sum (\<lambda>e. PrefixFailure (PoolError e)) id;
            hs = map Some (reserved_blocks r); as = map Some (adopted_blocks r); ws = map Some (reserved_window_blocks r)
        in
        bind_result (pool_failure (ValidateFree hs (cache_pool cache))) (\<lambda>_.
        bind_result (pool_failure (ValidateFree as (cache_pool cache))) (\<lambda>_.
        bind_result (case cache_window_pool cache of None \<Rightarrow> Inr () | Some w \<Rightarrow> map_sum WindowFailure id (ValidateFree ws w)) (\<lambda>_.
        bind_result (map_sum PrefixFailure id (observed (FreeValidated hs) (cache_state cache))) (\<lambda>w1.
        bind_result (map_sum PrefixFailure id (observed (FreeValidated as) w1)) (\<lambda>w2.
        bind_result (case cache_window_pool cache of
            None \<Rightarrow> Inr None
          | Some w \<Rightarrow> map_sum WindowFailure Some (FreeValidated ws w)) (\<lambda>window.
          Inr (r\<lparr>reserved_blocks := [], reserved_window_blocks := [], adopted_blocks := [], new_tables := [], advance_blocks := [],
                 reservation_state := Released\<rparr>,
               (set_pool w2 cache)\<lparr>cache_window_pool := window\<rparr>))))))))"

end
