(* ===== verification/Paged_Tables.thy ===== *)
theory Paged_Tables
  imports Paged_Reservation
begin

text \<open>
  The tables of a paged cache under reservations: a reservation that is rolled back leaves every request as it was, one that
  is committed extends exactly the tables it was made for, and no block that can still be written is shared.
\<close>

section \<open>Taking back references\<close>

lemma rollback_observer: "reference_observer (RollbackReservedBlocks hs pool) = reference_observer pool"
  using rollback_loop_frame[of hs pool False] by (cases "rollback_loop hs pool False") (metis (mono_tags, lifting) BlockPool.select_convs(8)
    BlockPool.surjective BlockPool.update_convs(3,7) RollbackReservedBlocks_def case_prod_conv)

lemma rollback_kept:
  assumes wf: "wf_cache held S (pool, c)" and ps: "\<forall>p \<in> set ps. held p = 1 \<and> identity (pool_store pool p) = None"
  shows "wf_cache (\<lambda>p. if p \<in> set ps then 0 else held p) S (RollbackReservedBlocks (map Some ps) pool, c)"
    and "pool_store (RollbackReservedBlocks (map Some ps) pool) = pool_store pool"
    and "Owns (RollbackReservedBlocks (map Some ps) pool) (Some q) \<longleftrightarrow> Owns pool (Some q) \<and> q \<notin> set ps"
proof -
  note d = wf_cacheD[OF wf]
  let ?pool = "RollbackReservedBlocks (map Some ps) pool"
  note r = RollbackReservedBlocks_correct[OF d(1), where hs = "map Some ps"]
  have own: "Owns pool (Some p)" if "p \<in> set ps" for p using refs_okD(2)[OF d(5), of p] ps that by auto
  have none: "entry_at c (block_id (pool_store pool p)) = None" if "p \<in> set ps" for p
    using unindexed_held(1)[OF wf own[OF that]] ps that by simp
  show st: "pool_store ?pool = pool_store pool" by (rule r(3))
  have slot: "pool_blocks ?pool ! i = (if \<exists>p \<in> set ps. pool_blocks pool ! i = Some p then None else pool_blocks pool ! i)"
    if "i < pool_capacity pool" for i using r(2)[OF that] by auto
  show ow: "Owns ?pool (Some q) \<longleftrightarrow> Owns pool (Some q) \<and> q \<notin> set ps" for q
  proof (cases "block_id (pool_store pool q) < pool_capacity pool \<and> pool_blocks pool ! block_id (pool_store pool q) = Some q")
    case True
    then show ?thesis using slot[of "block_id (pool_store pool q)"] r(3,4) by (auto simp: Owns_def)
  next
    case False
    then show ?thesis using slot[of "block_id (pool_store pool q)"] r(3,4) by (auto simp: Owns_def split: if_splits)
  qed
  have "case entry_at c i of Some e \<Rightarrow> indexed ?pool i e
      | None \<Rightarrow> (\<forall>p. pool_blocks ?pool ! i = Some p \<longrightarrow> identity (pool_store ?pool p) = None \<and> reference_observer_cookie (pool_store ?pool p) = None)"
    if i: "i < pool_capacity pool" for i
  proof (cases "entry_at c i")
    case None
    then show ?thesis using unindexed_block[OF d(2) None i] slot[OF i] st by (auto split: if_splits)
  next
    case (Some e)
    note f = entry_block_facts[OF d(1,2) Some]
    have "pool_blocks pool ! i = Some (entry_block e)" using f(1) by (simp add: indexed_def Let_def)
    moreover have "entry_block e \<notin> set ps" using none[of "entry_block e"] f(3) Some by auto
    ultimately have "pool_blocks ?pool ! i = pool_blocks pool ! i" using slot[OF i] by auto
    then show ?thesis using Some f(1) st by (simp add: indexed_def Let_def)
  qed
  then have "blocks_ok ?pool c" using d(2) r(4) rollback_observer by (simp add: blocks_ok_def)
  moreover have "refs_ok (\<lambda>p. if p \<in> set ps then 0 else held p) ?pool c"
    unfolding refs_ok_def ow st using refs_okD[OF d(5)] by auto
  ultimately show "wf_cache (\<lambda>p. if p \<in> set ps then 0 else held p) S (?pool, c)"
    using r(1) d by (simp add: wf_cache_def)
qed

lemma release_each_kept:
  assumes "wf_cache held S (pool, c)" and "\<forall>p. count_list ps p \<le> held p"
  shows "\<exists>pool' c'. release_each ps (pool, c) = Inr (pool', c') \<and> wf_cache (\<lambda>p. held p - count_list ps p) S (pool', c')
    \<and> same_index c c' \<and> pool_block_size pool' = pool_block_size pool"
  using assms
proof (induction ps arbitrary: held pool c)
  case (Cons p ps)
  have pos: "0 < held p" using Cons.prems(2)[rule_format, of p] by simp
  have own: "Owns pool (Some p)" using refs_okD(2)[OF wf_cacheD(5)[OF Cons.prems(1)], of p] pos by auto
  obtain pool1 freed c1 where d: "drop_reference p pool = Inr (pool1, freed)" "delivered (held(p := held p - 1)) S (pool, c) (pool1, c1)"
    by (rule drop_one[OF Cons.prems(1) pos])
  let ?pool = "if freed then pool1\<lparr>mutation_generation := mutation_generation pool1 + 1\<rparr> else pool1"
  have rel: "Release (Some p) pool = Inr ?pool" using own d(1) by (simp add: Release_def)
  have w1: "wf_cache (held(p := held p - 1)) S (pool1, c1)" using d(2) by (simp add: delivered_def)
  have w2: "wf_cache (held(p := held p - 1)) S (?pool, c1)" by (rule wf_cache_same_blocks[OF w1]) (use wf_cacheD(1)[OF w1] in simp_all)
  have "new_events pool ?pool = new_events pool pool1" by (simp add: new_events_def)
  then have ob: "observed (Release (Some p)) (pool, c) = Inr (?pool, c1)"
    using d(2) rel by (simp add: observed_def pool_result_def new_events_def[symmetric] delivered_def)
  have "\<forall>q. count_list ps q \<le> (held(p := held p - 1)) q"
  proof
    fix q show "count_list ps q \<le> (held(p := held p - 1)) q" using Cons.prems(2)[rule_format, of q] by (cases "q = p") auto
  qed
  from Cons.IH[OF w2 this] obtain pool' c' where r: "release_each ps (?pool, c1) = Inr (pool', c')"
    "wf_cache (\<lambda>q. (held(p := held p - 1)) q - count_list ps q) S (pool', c')" "same_index c1 c'" "pool_block_size pool' = pool_block_size ?pool" by blast
  have "(\<lambda>q. (held(p := held p - 1)) q - count_list ps q) = (\<lambda>q. held q - count_list (p # ps) q)" by (auto simp: fun_eq_iff)
  with r ob d(2) show ?case using same_index_trans[of c c1 c'] by (simp add: delivered_def)
qed simp

section \<open>Filling blocks\<close>

text \<open>The first block holds \<open>k\<close> tokens and the others none; \<open>n\<close> more fill them from the front.\<close>

lemma advance_slots_ok:
  assumes "wf_cache held S (pool, c)" and "distinct ps" and "\<forall>p \<in> set ps. Owns pool (Some p)"
    and "\<forall>j < length ps. block_slots_used (pool_store pool (ps ! j)) = min (pool_block_size pool) (k - j * pool_block_size pool)"
    and "k \<le> pool_block_size pool" and "k + n \<le> length ps * pool_block_size pool \<or> n = 0"
  shows "\<exists>pool'. advance_slots n ps pool = Inr pool' \<and> wf_cache held S (pool', c) \<and> pool_block_size pool' = pool_block_size pool
    \<and> mutation_generation pool' = mutation_generation pool \<and> Owns pool' = Owns pool
    \<and> (\<forall>q. \<exists>u. pool_store pool' q = (pool_store pool q)\<lparr>block_slots_used := u\<rparr>)
    \<and> (\<forall>q. q \<notin> set ps \<longrightarrow> pool_store pool' q = pool_store pool q)
    \<and> (\<forall>j < length ps. block_slots_used (pool_store pool' (ps ! j)) = min (pool_block_size pool) (k + n - j * pool_block_size pool))"
  using assms
proof (induction ps arbitrary: pool n k)
  case Nil
  then show ?case by (auto intro!: exI[of _ pool]) (metis Block.surjective Block.update_convs(2))+
next
  case (Cons p ps)
  show ?case
  proof (cases "n = 0")
    case True
    then show ?thesis using Cons.prems(1,4)
      by (auto intro!: exI[of _ pool]) (metis Block.surjective Block.update_convs(2))+
  next
    case False
    let ?bs = "pool_block_size pool" and ?b = "pool_store pool p"
    have wfp: "wf_pool pool" by (rule wf_cacheD(1)[OF Cons.prems(1)])
    have own: "Owns pool (Some p)" using Cons.prems(3) by simp
    have cap: "block_capacity ?b = ?bs" using wf_pool_slotD(2)[OF wfp OwnsD[OF own]] by (simp add: wf_block_def)
    have used: "block_slots_used ?b = k" using Cons.prems(4,5) by (auto dest!: spec[of _ 0])
    define m where "m = min n (?bs - k)"
    define b where "b = ?b\<lparr>block_slots_used := k + m\<rparr>"
    have add: "AddSlots m ?b = Inr b" using used cap by (simp add: AddSlots_def EmptySlots_def m_def b_def)
    let ?pool = "put_block p b pool"
    note kept = AddSlots_kept[OF Cons.prems(1) own add]
    have pb: "pool_block_size ?pool = ?bs" "mutation_generation ?pool = mutation_generation pool" by (simp_all add: put_block_def)
    have np: "p \<notin> set ps" using Cons.prems(2) by simp
    have st: "pool_store ?pool q = (if q = p then b else pool_store pool q)" for q by (simp add: put_block_def)
    have "\<forall>j < length ps. block_slots_used (pool_store ?pool (ps ! j)) = min (pool_block_size ?pool) (0 - j * pool_block_size ?pool)"
    proof (intro allI impI)
      fix j assume j: "j < length ps"
      then have "ps ! j \<noteq> p" using np nth_mem by metis
      then show "block_slots_used (pool_store ?pool (ps ! j)) = min (pool_block_size ?pool) (0 - j * pool_block_size ?pool)"
        using Cons.prems(4)[rule_format, of "Suc j"] Cons.prems(5) j by (simp add: st pb)
    qed
    moreover have "0 + (n - m) \<le> length ps * pool_block_size ?pool \<or> n - m = 0" using Cons.prems(5,6) False by (auto simp: m_def pb)
    ultimately obtain pool' where r: "advance_slots (n - m) ps ?pool = Inr pool'" "wf_cache held S (pool', c)"
      "pool_block_size pool' = ?bs" "mutation_generation pool' = mutation_generation pool" "Owns pool' = Owns pool"
      "\<forall>q. \<exists>u. pool_store pool' q = (pool_store ?pool q)\<lparr>block_slots_used := u\<rparr>" "\<forall>q. q \<notin> set ps \<longrightarrow> pool_store pool' q = pool_store ?pool q"
      "\<forall>j < length ps. block_slots_used (pool_store pool' (ps ! j)) = min ?bs (0 + (n - m) - j * ?bs)"
      using Cons.IH[OF kept(1), of 0 "n - m"] Cons.prems(2,3) kept(2) pb by auto
    have run: "advance_slots n (p # ps) pool = Inr pool'" using False r(1) add used cap by (simp add: EmptySlots_def m_def Let_def)
    have "\<exists>u. pool_store pool' q = (pool_store pool q)\<lparr>block_slots_used := u\<rparr>" for q
      using r(6)[rule_format, of q] unfolding st by (cases "q = p") (auto simp: b_def)
    moreover have "block_slots_used (pool_store pool' ((p # ps) ! j)) = min ?bs (k + n - j * ?bs)" if "j < length (p # ps)" for j
    proof (cases j)
      case 0
      have "pool_store pool' p = b" using r(7) np st by metis
      then show ?thesis using 0 Cons.prems(5) by (auto simp: b_def m_def min_def)
    next
      case (Suc i)
      have "n - m - i * ?bs = k + n - Suc i * ?bs" using Cons.prems(5) by (auto simp: m_def min_def add.commute)
      then show ?thesis using r(8) that Suc by simp
    qed
    moreover have "\<forall>q. q \<notin> set (p # ps) \<longrightarrow> pool_store pool' q = pool_store pool q" using r(7) by (simp add: st)
    ultimately show ?thesis using run r(2-5) by blast
  qed
qed

section \<open>The invariant of the tables\<close>

definition held_by :: "PagedCacheBlockTable list \<Rightarrow> bptr \<Rightarrow> nat" where
  "held_by tables p = (\<Sum>t\<leftarrow>tables. count_list (table_blocks t) p)"

text \<open>
  The blocks of a table are filled in order up to the committed boundary, and the blocks from the boundary on have one
  holder: the table, once.
\<close>

definition table_ok :: "BlockPool \<Rightarrow> (bptr \<Rightarrow> nat) \<Rightarrow> BlockIdentity set \<Rightarrow> PagedCacheBlockTable \<Rightarrow> bool" where
  "table_ok pool held S t \<longleftrightarrow>
     (let bs = pool_block_size pool; n = table_committed_slots t in
      table_request_id t \<noteq> 0 \<and> n \<le> length (table_blocks t) * bs
      \<and> (\<forall>j < length (table_blocks t). block_slots_used (pool_store pool (table_blocks t ! j)) = min bs (n - j * bs))
      \<and> (\<forall>j < length (table_blocks t). n div bs \<le> j \<longrightarrow> held (table_blocks t ! j) = 1)
      \<and> known S (table_sealed_identity t))"

definition index_ok :: "PagedCacheBlockTable list \<Rightarrow> RequestIndex \<Rightarrow> bool" where
  "index_ok tables index \<longleftrightarrow> wf_index index \<and> index_size index = length tables \<and> distinct (map table_request_id tables)
     \<and> (\<forall>i < length tables. Find (table_request_id (tables ! i)) index = Some i)"

text \<open>\<open>extra\<close> are the references that a reservation holds besides the tables. There are no sliding-window layers.\<close>

definition paged_ok :: "(bptr \<Rightarrow> nat) \<Rightarrow> BlockIdentity set \<Rightarrow> PagedCache \<Rightarrow> bool" where
  "paged_ok extra S cache \<longleftrightarrow>
     (let held = (\<lambda>p. held_by (cache_tables cache) p + extra p) in
      wf_cache held S (cache_state cache)
      \<and> list_all (table_ok (cache_pool cache) held S) (cache_tables cache)
      \<and> index_ok (cache_tables cache) (cache_index cache)
      \<and> cache_window_pool cache = None \<and> cache_ring_blocks cache = 0 \<and> list_all (\<lambda>t. table_window_blocks t = []) (cache_tables cache))"

lemma paged_okD:
  assumes "paged_ok extra S cache"
  shows "wf_cache (\<lambda>p. held_by (cache_tables cache) p + extra p) S (cache_pool cache, cache_prefix cache)"
    and "t \<in> set (cache_tables cache) \<Longrightarrow> table_ok (cache_pool cache) (\<lambda>p. held_by (cache_tables cache) p + extra p) S t"
    and "index_ok (cache_tables cache) (cache_index cache)" and "cache_window_pool cache = None" and "cache_ring_blocks cache = 0"
    and "t \<in> set (cache_tables cache) \<Longrightarrow> table_window_blocks t = []"
  using assms by (simp_all add: paged_ok_def cache_state_def list_all_iff Let_def)

lemma held_by_append [simp]: "held_by (xs @ ys) p = held_by xs p + held_by ys p" and held_by_Cons [simp]: "held_by (t # ts) p = count_list (table_blocks t) p + held_by ts p"
  and held_by_Nil [simp]: "held_by [] p = 0"
  by (simp_all add: held_by_def)

lemma held_by_update:
  assumes "i < length ts"
  shows "held_by (ts[i := t]) p + count_list (table_blocks (ts ! i)) p = held_by ts p + count_list (table_blocks t) p"
proof -
  have "ts = take i ts @ ts ! i # drop (Suc i) ts" using assms by (simp add: id_take_nth_drop)
  moreover have "ts[i := t] = take i ts @ t # drop (Suc i) ts" using assms by (simp add: upd_conv_take_nth_drop)
  ultimately have "held_by ts p = held_by (take i ts) p + (count_list (table_blocks (ts ! i)) p + held_by (drop (Suc i) ts) p)"
    "held_by (ts[i := t]) p = held_by (take i ts) p + (count_list (table_blocks t) p + held_by (drop (Suc i) ts) p)"
    by (metis held_by_Cons held_by_append)+
  then show ?thesis by simp
qed

lemma held_by_ge: "i < length ts \<Longrightarrow> count_list (table_blocks (ts ! i)) p \<le> held_by ts p"
  using held_by_update[of i ts "(ts ! i)\<lparr>table_blocks := []\<rparr>" p] by simp

lemma held_by_two:
  assumes "i < length ts" and "j < length ts" and "i \<noteq> j"
  shows "count_list (table_blocks (ts ! i)) p + count_list (table_blocks (ts ! j)) p \<le> held_by ts p"
  using held_by_update[OF assms(1), of "(ts ! i)\<lparr>table_blocks := []\<rparr>" p] held_by_ge[of j "ts[i := (ts ! i)\<lparr>table_blocks := []\<rparr>]" p] assms by simp

lemma count_list_pos: "p \<in> set xs \<longleftrightarrow> 0 < count_list xs p"
  using count_list_0_iff[of xs p] by auto

lemma count_list_two: "i < length xs \<Longrightarrow> j < length xs \<Longrightarrow> i \<noteq> j \<Longrightarrow> xs ! i = xs ! j \<Longrightarrow> 2 \<le> count_list xs (xs ! i)"
proof (induction xs arbitrary: i j)
  case (Cons x xs)
  show ?case
  proof (cases "i = 0 \<or> j = 0")
    case True
    then have "x \<in> set xs" using Cons.prems by (auto simp: nth_Cons' split: if_splits)
    then have "0 < count_list xs x" by (simp add: count_list_pos)
    then show ?thesis using True Cons.prems by (auto simp: nth_Cons' split: if_splits)
  next
    case False
    then obtain i' j' where ij: "i = Suc i'" "j = Suc j'" by (metis not0_implies_Suc)
    have "2 \<le> count_list xs (xs ! i')" using Cons.IH[of i' j'] Cons.prems ij by simp
    then show ?thesis using ij by simp
  qed
qed simp

text \<open>A block with one holder is at one place of one table.\<close>

lemma sole_place:
  assumes "i < length ts" and "j < length (table_blocks (ts ! i))" and "held_by ts (table_blocks (ts ! i) ! j) \<le> 1"
    and "i' < length ts" and "j' < length (table_blocks (ts ! i'))" and "table_blocks (ts ! i') ! j' = table_blocks (ts ! i) ! j"
  shows "i' = i \<and> j' = j"
proof (rule ccontr)
  assume no: "\<not> (i' = i \<and> j' = j)"
  let ?p = "table_blocks (ts ! i) ! j"
  have "0 < count_list (table_blocks (ts ! i)) ?p" "0 < count_list (table_blocks (ts ! i')) ?p"
    using assms(2,5,6) by (metis count_list_pos nth_mem)+
  then show False
    using no held_by_two[OF assms(1,4), of ?p] held_by_ge[OF assms(1), of ?p] count_list_two[of j "table_blocks (ts ! i)" j'] assms
    by (cases "i' = i") auto
qed

section \<open>Publishing one table\<close>

lemma table_ok_cong:
  assumes "table_ok pool held S t" and "pool_block_size pool' = pool_block_size pool"
    and "\<And>p. p \<in> set (table_blocks t) \<Longrightarrow> block_slots_used (pool_store pool' p) = block_slots_used (pool_store pool p) \<and> held' p = held p"
  shows "table_ok pool' held' S t"
  using assms by (simp add: table_ok_def Let_def)

definition extended :: "PagedCacheBlockTable \<Rightarrow> bptr list \<Rightarrow> nat \<Rightarrow> PagedCacheBlockTable" where
  "extended t rs target = t\<lparr>table_blocks := table_blocks t @ rs, table_committed_slots := target, table_generation := table_generation t + 1\<rparr>"

lemma count_le_one_distinct:
  assumes "\<And>p. p \<in> set xs \<Longrightarrow> count_list xs p \<le> 1"
  shows "distinct xs"
proof -
  have "xs ! i \<noteq> xs ! j" if "i < length xs" "j < length xs" "i \<noteq> j" for i j
    using count_list_two[OF that] assms[OF nth_mem[OF that(1)]] by auto
  then show ?thesis by (simp add: distinct_conv_nth)
qed

lemma advance_table:
  assumes wf: "wf_cache held S (pool, c)" and t: "table_ok pool held S t"
    and rs: "\<forall>p \<in> set rs. held p = 1 \<and> block_slots_used (pool_store pool p) = 0"
    and cnt: "\<And>p. count_list (table_blocks t @ rs) p \<le> held p"
    and target: "table_committed_slots t \<le> target" "target \<le> (length (table_blocks t) + length rs) * pool_block_size pool"
  shows "\<exists>pool'. advance_slots (target - table_committed_slots t) (drop (table_committed_slots t div pool_block_size pool) (table_blocks t @ rs)) pool = Inr pool'
    \<and> wf_cache held S (pool', c) \<and> pool_block_size pool' = pool_block_size pool \<and> mutation_generation pool' = mutation_generation pool
    \<and> Owns pool' = Owns pool \<and> (\<forall>q. \<exists>u. pool_store pool' q = (pool_store pool q)\<lparr>block_slots_used := u\<rparr>)
    \<and> (\<forall>q. held q \<noteq> 1 \<or> q \<notin> set (table_blocks t @ rs) \<longrightarrow> pool_store pool' q = pool_store pool q)
    \<and> table_ok pool' held S (extended t rs target)"
proof -
  let ?bs = "pool_block_size pool" and ?n = "table_committed_slots t"
  define bl where "bl = table_blocks t @ rs"
  let ?f = "?n div ?bs"
  let ?ps = "drop ?f bl"
  have bs: "0 < ?bs" using wf_pool_lengths(4)[OF wf_cacheD(1)[OF wf]] .
  have tk: "table_request_id t \<noteq> 0" "?n \<le> length (table_blocks t) * ?bs" "known S (table_sealed_identity t)"
    "\<And>j. j < length (table_blocks t) \<Longrightarrow> block_slots_used (pool_store pool (table_blocks t ! j)) = min ?bs (?n - j * ?bs)"
    "\<And>j. j < length (table_blocks t) \<Longrightarrow> ?f \<le> j \<Longrightarrow> held (table_blocks t ! j) = 1"
    using t by (simp_all add: table_ok_def Let_def)
  have used: "block_slots_used (pool_store pool (bl ! j)) = min ?bs (?n - j * ?bs)" if "j < length bl" for j
  proof (cases "j < length (table_blocks t)")
    case False
    then have "length (table_blocks t) * ?bs \<le> j * ?bs" by (intro mult_le_mono1) simp
    then have "?n \<le> j * ?bs" using tk(2) by linarith
    moreover have "bl ! j \<in> set rs" using False that by (simp add: bl_def nth_append)
    ultimately show ?thesis using rs by simp
  qed (simp add: bl_def nth_append tk(4))
  have one: "held (bl ! j) = 1" if "j < length bl" "?f \<le> j" for j
    using that tk(5)[of j] rs by (cases "j < length (table_blocks t)") (auto simp: bl_def nth_append)
  have sole: "j = i" if "i < length bl" "?f \<le> i" "j < length bl" "bl ! j = bl ! i" for i j
    using count_list_two[OF that(1,3)] cnt[of "bl ! i", folded bl_def] one[OF that(1,2)] that(4) by fastforce
  have ps: "?ps ! j = bl ! (?f + j)" "?f + j < length bl" if "j < length ?ps" for j using that by simp_all
  have dist: "distinct ?ps"
    unfolding distinct_conv_nth using sole by (metis ps add_left_cancel le_add1)
  have own: "\<forall>p \<in> set ?ps. Owns pool (Some p)"
  proof
    fix p assume "p \<in> set ?ps"
    then have "0 < count_list bl p" by (simp only: count_list_pos[symmetric] in_set_dropD)
    then show "Owns pool (Some p)" using refs_okD(2)[OF wf_cacheD(5)[OF wf], of p] cnt[of p, folded bl_def] by fastforce
  qed
  have sub: "?n - (?f + j) * ?bs = ?n mod ?bs - j * ?bs" for j
    by (simp only: add_mult_distrib diff_diff_left[symmetric] minus_div_mult_eq_mod)
  have occ: "\<forall>j < length ?ps. block_slots_used (pool_store pool (?ps ! j)) = min ?bs (?n mod ?bs - j * ?bs)"
    using used ps by (simp add: sub)
  have len: "length bl = length (table_blocks t) + length rs" by (simp add: bl_def)
  have fle: "?f \<le> length bl" using div_le_mono[OF tk(2), of ?bs] bs by (simp add: len)
  have room: "?n mod ?bs + (target - ?n) \<le> length ?ps * ?bs \<or> target - ?n = 0"
  proof -
    have "length ?ps * ?bs = length bl * ?bs - ?f * ?bs" by (simp only: length_drop diff_mult_distrib)
    then show ?thesis using target div_mult_mod_eq[of ?n ?bs] unfolding len by linarith
  qed
  obtain pool' where r: "advance_slots (target - ?n) ?ps pool = Inr pool'" "wf_cache held S (pool', c)" "pool_block_size pool' = ?bs"
    "mutation_generation pool' = mutation_generation pool" "Owns pool' = Owns pool" "\<forall>q. \<exists>u. pool_store pool' q = (pool_store pool q)\<lparr>block_slots_used := u\<rparr>"
    "\<forall>q. q \<notin> set ?ps \<longrightarrow> pool_store pool' q = pool_store pool q"
    "\<forall>j < length ?ps. block_slots_used (pool_store pool' (?ps ! j)) = min ?bs (?n mod ?bs + (target - ?n) - j * ?bs)"
    using advance_slots_ok[OF wf dist own occ _ room] bs by auto
  have new: "block_slots_used (pool_store pool' (bl ! j)) = min ?bs (target - j * ?bs)" if j: "j < length bl" for j
  proof (cases "?f \<le> j")
    case True
    have "?n mod ?bs + (target - ?n) - (j - ?f) * ?bs = target - j * ?bs"
    proof -
      have "(j - ?f) * ?bs = j * ?bs - ?f * ?bs" "?f * ?bs \<le> j * ?bs" using True by (simp_all only: diff_mult_distrib mult_le_mono1)
      then show ?thesis using target(1) div_mult_mod_eq[of ?n ?bs] by linarith
    qed
    then show ?thesis using r(8)[rule_format, of "j - ?f"] True j by simp
  next
    case False
    have "bl ! j \<notin> set ?ps"
    proof
      assume "bl ! j \<in> set ?ps"
      then obtain i where "i < length ?ps" "?ps ! i = bl ! j" by (metis in_set_conv_nth)
      then show False using sole[of "?f + i" j] ps False j by simp
    qed
    moreover have "Suc j * ?bs \<le> ?n" using False bs less_eq_div_iff_mult_less_eq[OF bs, of "Suc j" ?n] by simp
    ultimately show ?thesis using r(7) used[OF j] target(1) by (simp add: min_def)
  qed
  have "table_ok pool' held S (extended t rs target)"
    unfolding table_ok_def Let_def extended_def r(3) using tk(1,3) target new one div_le_mono[OF target(1), of ?bs]
    by (auto simp: bl_def)
  moreover have "pool_store pool' q = pool_store pool q" if q: "held q \<noteq> 1 \<or> q \<notin> set bl" for q
  proof -
    have "q \<notin> set ?ps"
    proof
      assume "q \<in> set ?ps"
      then obtain i where i: "i < length ?ps" "?ps ! i = q" by (metis in_set_conv_nth)
      then have "held q = 1" "q \<in> set bl" using one[of "?f + i"] ps[OF i(1)] nth_mem[of "?f + i" bl] by auto
      with q show False by blast
    qed
    then show ?thesis using r(7) by blast
  qed
  ultimately show ?thesis using r(1-6) unfolding bl_def by blast
qed

section \<open>Publishing a reservation\<close>

text \<open>The table that a delta extends: the one of its request, or the next new one with the adopted blocks.\<close>

definition delta_base ::
  "PagedCacheReservation \<Rightarrow> BlockIdentity set \<Rightarrow> PagedCache \<Rightarrow> nat \<Rightarrow> PagedCacheReservationDelta \<Rightarrow> PagedCacheBlockTable \<Rightarrow> bool" where
  "delta_base r S cache n d t \<longleftrightarrow>
     table_request_id t = delta_request_id d \<and> table_committed_slots t = delta_committed_slots d
     \<and> (if delta_newly_admitted d
        then Find (delta_request_id d) (resident_table_index r) = None \<and> n < length (new_tables r) \<and> t = new_tables r ! n
          \<and> table_blocks t = subspan (delta_adopted_offset d) (delta_adopted_count d) (adopted_blocks r)
          \<and> delta_committed_slots d = delta_adopted_count d * pool_block_size (cache_pool cache)
          \<and> table_window_blocks t = [] \<and> known S (table_sealed_identity t)
        else (\<exists>i < length (cache_tables cache). Find (delta_request_id d) (resident_table_index r) = Some i \<and> t = cache_tables cache ! i)
          \<and> table_generation t = delta_table_generation d \<and> delta_adopted_count d = 0)"

definition reserved_of :: "PagedCacheReservation \<Rightarrow> PagedCacheReservationDelta \<Rightarrow> bptr list" where
  "reserved_of r d = subspan (delta_reserved_offset d) (delta_reserved_count d) (reserved_blocks r)"

text \<open>The deltas that are still to be published, with the parts of the reserved, adopted and new tables that are left.\<close>

fun pending ::
  "PagedCacheReservation \<Rightarrow> BlockIdentity set \<Rightarrow> PagedCache \<Rightarrow> nat \<Rightarrow> nat \<Rightarrow> nat \<Rightarrow> PagedCacheReservationDelta list \<Rightarrow> bool" where
  "pending r S cache rsv adp n [] \<longleftrightarrow> rsv = length (reserved_blocks r) \<and> adp = length (adopted_blocks r) \<and> n = length (new_tables r)"
| "pending r S cache rsv adp n (d # ds) \<longleftrightarrow>
     delta_request_id d \<noteq> 0 \<and> delta_reserved_offset d = rsv \<and> delta_adopted_offset d = adp
     \<and> delta_window_offset d = 0 \<and> delta_window_count d = 0
     \<and> rsv + delta_reserved_count d \<le> length (reserved_blocks r) \<and> adp + delta_adopted_count d \<le> length (adopted_blocks r)
     \<and> delta_committed_slots d \<le> delta_target_slots d
     \<and> (\<exists>t. delta_base r S cache n d t
          \<and> delta_target_slots d \<le> (length (table_blocks t) + delta_reserved_count d) * pool_block_size (cache_pool cache))
     \<and> pending r S cache (rsv + delta_reserved_count d) (adp + delta_adopted_count d) (n + (if delta_newly_admitted d then 1 else 0)) ds"

definition left_over :: "PagedCacheReservation \<Rightarrow> nat \<Rightarrow> nat \<Rightarrow> bptr \<Rightarrow> nat" where
  "left_over r rsv adp p = count_list (drop rsv (reserved_blocks r)) p + count_list (drop adp (adopted_blocks r)) p"

text \<open>The index of the committed tables as it was when the reservation was made.\<close>

definition resident_ok :: "PagedCacheReservation \<Rightarrow> PagedCache \<Rightarrow> bool" where
  "resident_ok r cache \<longleftrightarrow> (\<forall>k i. Find k (resident_table_index r) = Some i \<longrightarrow> i < length (cache_tables cache) \<and> table_request_id (cache_tables cache ! i) = k)"

definition reserved_ok :: "PagedCacheReservation \<Rightarrow> nat \<Rightarrow> nat \<Rightarrow> PagedCache \<Rightarrow> bool" where
  "reserved_ok r rsv adp cache \<longleftrightarrow>
     (\<forall>p \<in> set (drop rsv (reserved_blocks r)). held_by (cache_tables cache) p + left_over r rsv adp p = 1
        \<and> block_slots_used (pool_store (cache_pool cache) p) = 0)
     \<and> (\<forall>p \<in> set (drop adp (adopted_blocks r)). IsFull (pool_store (cache_pool cache) p))"

lemma subspan_drop: "offset + n \<le> length xs \<Longrightarrow> drop offset xs = subspan offset n xs @ drop (offset + n) xs"
  by (simp add: subspan_def) (metis add.commute append_take_drop_id drop_drop)

lemma left_over_step:
  assumes "rsv + rc \<le> length (reserved_blocks r)" and "adp + ac \<le> length (adopted_blocks r)"
  shows "left_over r rsv adp p = count_list (subspan rsv rc (reserved_blocks r)) p + count_list (subspan adp ac (adopted_blocks r)) p
    + left_over r (rsv + rc) (adp + ac) p"
  using subspan_drop[OF assms(1)] subspan_drop[OF assms(2)] by (simp add: left_over_def count_list_append)

lemma delta_found_ok:
  assumes "resident_ok r cache"
  shows "delta_found r cache d = Inr (Find (delta_request_id d) (resident_table_index r))"
  using assms[unfolded resident_ok_def, rule_format, of "delta_request_id d"]
  by (cases "Find (delta_request_id d) (resident_table_index r)") (auto simp: delta_found_def FindCommittedTable_def)

lemma AdvanceCommittedSlots_eq:
  "advance_slots (target - table_committed_slots t) (drop (table_committed_slots t div pool_block_size pool) (table_blocks t @ rs)) pool = Inr pool'
   \<Longrightarrow> AdvanceCommittedSlots (t\<lparr>table_blocks := table_blocks t @ rs, table_window_blocks := ws\<rparr>) target pool
     = Inr (t\<lparr>table_blocks := table_blocks t @ rs, table_window_blocks := ws, table_committed_slots := target\<rparr>, pool')"
  by (simp add: AdvanceCommittedSlots_def)

text \<open>A table is added or replaced; the other tables do not share its blocks.\<close>

definition with_table :: "nat option \<Rightarrow> PagedCacheBlockTable \<Rightarrow> PagedCacheBlockTable list \<Rightarrow> PagedCacheBlockTable list" where
  "with_table at t ts = (case at of None \<Rightarrow> ts @ [t] | Some i \<Rightarrow> ts[i := t])"

lemma base_table_ok:
  assumes ok: "paged_ok (left_over r rsv adp) S cache" and rok: "reserved_ok r rsv adp cache"
    and d: "delta_adopted_offset d = adp" "adp + delta_adopted_count d \<le> length (adopted_blocks r)" "delta_request_id d \<noteq> 0"
    and base: "delta_base r S cache n d t"
  shows "table_ok (cache_pool cache) (\<lambda>p. held_by (cache_tables cache) p + left_over r rsv adp p) S t"
proof (cases "delta_newly_admitted d")
  case False
  then show ?thesis using base paged_okD(2)[OF ok] by (auto simp: delta_base_def)
next
  case True
  let ?ad = "subspan adp (delta_adopted_count d) (adopted_blocks r)" and ?bs = "pool_block_size (cache_pool cache)"
  have t: "table_blocks t = ?ad" "table_committed_slots t = length ?ad * ?bs" "table_request_id t \<noteq> 0" "known S (table_sealed_identity t)"
    using base True d by (auto simp: delta_base_def subspan_def)
  have bs: "0 < ?bs" using wf_pool_lengths(4)[OF wf_cacheD(1)[OF paged_okD(1)[OF ok]]] .
  have full: "block_slots_used (pool_store (cache_pool cache) p) = ?bs" if "p \<in> set ?ad" for p
  proof -
    have p: "p \<in> set (drop adp (adopted_blocks r))" using that subspan_drop[OF d(2)] by simp
    then have "0 < left_over r rsv adp p" by (simp add: left_over_def count_list_pos)
    then have "Owns (cache_pool cache) (Some p)" using refs_okD(2)[OF wf_cacheD(5)[OF paged_okD(1)[OF ok]], of p] by fastforce
    from wf_pool_slotD(2)[OF wf_cacheD(1)[OF paged_okD(1)[OF ok]] OwnsD[OF this]] have "block_capacity (pool_store (cache_pool cache) p) = ?bs"
      by (simp add: wf_block_def)
    then show ?thesis using rok p by (simp add: reserved_ok_def IsFull_def)
  qed
  have "min ?bs (length ?ad * ?bs - j * ?bs) = ?bs" if "j < length ?ad" for j
    using mult_le_mono1[OF Suc_leI[OF that], of ?bs] by (simp add: min_def)
  then show ?thesis using t full bs by (auto simp: table_ok_def Let_def)
qed

text \<open>What a delta needs to be published.\<close>

definition publishable :: "PagedCacheReservation \<Rightarrow> BlockIdentity set \<Rightarrow> PagedCache \<Rightarrow> nat \<Rightarrow> nat \<Rightarrow> nat \<Rightarrow> PagedCacheReservationDelta \<Rightarrow> PagedCacheBlockTable \<Rightarrow> bool" where
  "publishable r S cache rsv adp n d t \<longleftrightarrow>
     delta_request_id d \<noteq> 0 \<and> delta_reserved_offset d = rsv \<and> delta_adopted_offset d = adp \<and> delta_window_count d = 0
     \<and> rsv + delta_reserved_count d \<le> length (reserved_blocks r) \<and> adp + delta_adopted_count d \<le> length (adopted_blocks r)
     \<and> delta_committed_slots d \<le> delta_target_slots d \<and> delta_base r S cache n d t
     \<and> delta_target_slots d \<le> (length (table_blocks t) + delta_reserved_count d) * pool_block_size (cache_pool cache)"

definition place_of :: "PagedCacheReservation \<Rightarrow> PagedCacheReservationDelta \<Rightarrow> nat option" where
  "place_of r d = (if delta_newly_admitted d then None else Find (delta_request_id d) (resident_table_index r))"

lemma publishable_facts:
  assumes "publishable r S cache rsv adp n d t"
  shows "length (reserved_of r d) = delta_reserved_count d" and "set (reserved_of r d) \<subseteq> set (drop rsv (reserved_blocks r))"
    and "left_over r rsv adp p = count_list (reserved_of r d) p + count_list (subspan adp (delta_adopted_count d) (adopted_blocks r)) p
      + left_over r (rsv + delta_reserved_count d) (adp + delta_adopted_count d) p"
    and "\<not> delta_newly_admitted d \<Longrightarrow> subspan adp (delta_adopted_count d) (adopted_blocks r) = []
      \<and> (\<exists>i < length (cache_tables cache). place_of r d = Some i \<and> t = cache_tables cache ! i)"
    and "delta_newly_admitted d \<Longrightarrow> place_of r d = None \<and> table_blocks t = subspan adp (delta_adopted_count d) (adopted_blocks r)
      \<and> n < length (new_tables r) \<and> t = new_tables r ! n \<and> table_window_blocks t = []"
    and "table_committed_slots t = delta_committed_slots d" and "table_request_id t = delta_request_id d"
proof -
  have d: "delta_reserved_offset d = rsv" "delta_adopted_offset d = adp" "rsv + delta_reserved_count d \<le> length (reserved_blocks r)"
    "adp + delta_adopted_count d \<le> length (adopted_blocks r)" "delta_base r S cache n d t"
    using assms by (simp_all add: publishable_def)
  show "length (reserved_of r d) = delta_reserved_count d" "set (reserved_of r d) \<subseteq> set (drop rsv (reserved_blocks r))"
    using d(1,3) by (simp_all add: reserved_of_def subspan_def set_take_subset)
  show "left_over r rsv adp p = count_list (reserved_of r d) p + count_list (subspan adp (delta_adopted_count d) (adopted_blocks r)) p
      + left_over r (rsv + delta_reserved_count d) (adp + delta_adopted_count d) p"
    using left_over_step[OF d(3,4), of p] by (simp add: reserved_of_def d(1))
qed (use assms in \<open>auto simp: publishable_def delta_base_def subspan_def place_of_def\<close>)

lemma publishable_held:
  assumes "publishable r S cache rsv adp n d t" and "ts' = with_table (place_of r d) t' (cache_tables cache)"
    and "table_blocks t' = table_blocks t @ reserved_of r d"
  shows "held_by ts' p + left_over r (rsv + delta_reserved_count d) (adp + delta_adopted_count d) p
      = held_by (cache_tables cache) p + left_over r rsv adp p"
    and "count_list (table_blocks t @ reserved_of r d) p \<le> held_by (cache_tables cache) p + left_over r rsv adp p"
    and "k < length (cache_tables cache) \<Longrightarrow> place_of r d \<noteq> Some k \<Longrightarrow>
      count_list (table_blocks (cache_tables cache ! k)) p + count_list (table_blocks t @ reserved_of r d) p
        \<le> held_by (cache_tables cache) p + left_over r rsv adp p"
proof -
  note f = publishable_facts[OF assms(1)]
  let ?ad = "count_list (subspan adp (delta_adopted_count d) (adopted_blocks r)) p"
  have facts: "held_by ts' p = held_by (cache_tables cache) p + ?ad + count_list (reserved_of r d) p
    \<and> count_list (table_blocks t) p \<le> held_by (cache_tables cache) p + ?ad
    \<and> (k < length (cache_tables cache) \<longrightarrow> place_of r d \<noteq> Some k \<longrightarrow>
      count_list (table_blocks (cache_tables cache ! k)) p + count_list (table_blocks t) p \<le> held_by (cache_tables cache) p + ?ad)"
  proof (cases "delta_newly_admitted d")
    case True
    then have "table_blocks t = subspan adp (delta_adopted_count d) (adopted_blocks r)" "place_of r d = None" using f(5) by blast+
    then show ?thesis using assms(2,3) held_by_ge[of k "cache_tables cache" p] by (simp add: with_table_def count_list_append)
  next
    case False
    then obtain i where i: "i < length (cache_tables cache)" "place_of r d = Some i" "t = cache_tables cache ! i"
      "subspan adp (delta_adopted_count d) (adopted_blocks r) = []" using f(4) by blast
    show ?thesis
      using held_by_update[OF i(1), of t' p] held_by_ge[OF i(1), of p] held_by_two[OF i(1), of k p] i assms(2,3)
      by (auto simp: with_table_def count_list_append)
  qed
  show "held_by ts' p + left_over r (rsv + delta_reserved_count d) (adp + delta_adopted_count d) p = held_by (cache_tables cache) p + left_over r rsv adp p"
    using facts f(3)[of p] by linarith
  show "count_list (table_blocks t @ reserved_of r d) p \<le> held_by (cache_tables cache) p + left_over r rsv adp p"
    using facts f(3)[of p] by (simp add: count_list_append)
  show "k < length (cache_tables cache) \<Longrightarrow> place_of r d \<noteq> Some k \<Longrightarrow>
      count_list (table_blocks (cache_tables cache ! k)) p + count_list (table_blocks t @ reserved_of r d) p \<le> held_by (cache_tables cache) p + left_over r rsv adp p"
    using facts f(3)[of p] by (simp add: count_list_append)
qed

lemma publish_pool:
  assumes ok: "paged_ok (left_over r rsv adp) S cache" and rok: "reserved_ok r rsv adp cache" and d: "publishable r S cache rsv adp n d t"
  obtains pool' where "advance_slots (delta_target_slots d - table_committed_slots t)
      (drop (table_committed_slots t div pool_block_size (cache_pool cache)) (table_blocks t @ reserved_of r d)) (cache_pool cache) = Inr pool'"
    and "wf_cache (\<lambda>p. held_by (cache_tables cache) p + left_over r rsv adp p) S (pool', cache_prefix cache)"
    and "pool_block_size pool' = pool_block_size (cache_pool cache)" and "Owns pool' = Owns (cache_pool cache)"
    and "\<And>q. \<exists>u. pool_store pool' q = (pool_store (cache_pool cache) q)\<lparr>block_slots_used := u\<rparr>"
    and "\<And>q. held_by (cache_tables cache) q + left_over r rsv adp q \<noteq> 1 \<or> q \<notin> set (table_blocks t @ reserved_of r d)
      \<Longrightarrow> pool_store pool' q = pool_store (cache_pool cache) q"
    and "table_ok pool' (\<lambda>p. held_by (cache_tables cache) p + left_over r rsv adp p) S (extended t (reserved_of r d) (delta_target_slots d))"
proof -
  note f = publishable_facts[OF d]
  have tok: "table_ok (cache_pool cache) (\<lambda>p. held_by (cache_tables cache) p + left_over r rsv adp p) S t"
    by (rule base_table_ok[OF ok rok]) (use d in \<open>auto simp: publishable_def\<close>)
  have rs: "\<forall>p \<in> set (reserved_of r d). held_by (cache_tables cache) p + left_over r rsv adp p = 1 \<and> block_slots_used (pool_store (cache_pool cache) p) = 0"
    using rok f(2) by (auto simp: reserved_ok_def)
  have tgt: "table_committed_slots t \<le> delta_target_slots d"
    "delta_target_slots d \<le> (length (table_blocks t) + length (reserved_of r d)) * pool_block_size (cache_pool cache)"
    using d f(1,6) by (simp_all add: publishable_def)
  have "count_list (table_blocks t @ reserved_of r d) p \<le> held_by (cache_tables cache) p + left_over r rsv adp p" for p
    by (rule publishable_held(2)[OF d refl, of "t\<lparr>table_blocks := table_blocks t @ reserved_of r d\<rparr>"]) simp
  from advance_table[OF paged_okD(1)[OF ok] tok rs this tgt] show ?thesis using that by blast
qed

lemma with_table_cases:
  assumes "x \<in> set (with_table at t ts)" and "\<And>i. at = Some i \<Longrightarrow> i < length ts"
  obtains "x = t" | k where "k < length ts" and "at \<noteq> Some k" and "x = ts ! k"
proof (cases at)
  case None
  then show ?thesis using assms(1) that by (auto simp: with_table_def in_set_conv_nth)
next
  case (Some i)
  then obtain k where k: "k < length ts" "x = ts[i := t] ! k" using assms(1) by (auto simp: with_table_def in_set_conv_nth)
  then show ?thesis using that Some by (cases "k = i") auto
qed

lemma index_with_table:
  assumes ok: "index_ok ts index" and at: "at = Some i \<Longrightarrow> i < length ts \<and> table_request_id t = table_request_id (ts ! i)" "at = Some i \<or> at = None"
    and new: "at = None \<Longrightarrow> table_request_id t \<noteq> 0 \<and> Find (table_request_id t) index = None \<and> index_size index < index_max_entries index"
  obtains index' where "at = None \<Longrightarrow> Insert (table_request_id t) (length ts) index = (index', True)" and "at \<noteq> None \<Longrightarrow> index' = index"
    and "index_ok (with_table at t ts) index'" and "\<And>k. k \<noteq> table_request_id t \<Longrightarrow> Find k index' = Find k index"
    and "index_max_entries index' = index_max_entries index" and "index_size index' = index_size index + (if at = None then 1 else 0)"
proof (cases at)
  case None
  note o = ok[unfolded index_ok_def]
  obtain index' where i: "Insert (table_request_id t) (length ts) index = (index', True)" "wf_index index'"
    "index_max_entries index' = index_max_entries index" "index_size index' = Suc (index_size index)"
    "(\<lambda>k. Find k index') = (\<lambda>k. Find k index)(table_request_id t \<mapsto> length ts)"
    using request_map.insert_ok[of index "table_request_id t" "length ts"] o new[OF None] by auto
  have ni: "table_request_id (ts ! j) \<noteq> table_request_id t" if "j < length ts" for j using o new[OF None] that by force
  then have "table_request_id t \<notin> table_request_id ` set ts" by (metis image_iff in_set_conv_nth)
  moreover have "Find (table_request_id ((ts @ [t]) ! j)) index' = Some j" if "j < length (ts @ [t])" for j
    using that o ni fun_cong[OF i(5)] by (cases "j = length ts") (simp_all add: nth_append)
  ultimately have "index_ok (ts @ [t]) index'" using o i(2,4) by (simp add: index_ok_def)
  then show ?thesis using that[of index'] i fun_cong[OF i(5)] None by (simp add: with_table_def)
next
  case (Some k)
  then have k: "k = i" "k < length ts" "table_request_id t = table_request_id (ts ! k)" using at by auto
  have ids: "map table_request_id (ts[k := t]) = map table_request_id ts" using k by (metis list_update_id map_update)
  have "index_ok (ts[k := t]) index"
    using ok k unfolding index_ok_def ids by (auto simp: nth_list_update)
  then show ?thesis using that[of index] Some by (simp add: with_table_def)
qed

lemma paged_ok_extended:
  assumes ok: "paged_ok (left_over r rsv adp) S cache" and d: "publishable r S cache rsv adp n d t"
    and w: "wf_cache (\<lambda>p. held_by (cache_tables cache) p + left_over r rsv adp p) S (pool', cache_prefix cache)"
    and pb: "pool_block_size pool' = pool_block_size (cache_pool cache)"
    and st: "\<And>q. held_by (cache_tables cache) q + left_over r rsv adp q \<noteq> 1 \<or> q \<notin> set (table_blocks t @ reserved_of r d)
      \<Longrightarrow> pool_store pool' q = pool_store (cache_pool cache) q"
    and tk: "table_ok pool' (\<lambda>p. held_by (cache_tables cache) p + left_over r rsv adp p) S (extended t (reserved_of r d) (delta_target_slots d))"
    and ts': "ts' = with_table (place_of r d) (extended t (reserved_of r d) (delta_target_slots d)) (cache_tables cache)"
    and ix: "index_ok ts' index'"
  shows "paged_ok (left_over r (rsv + delta_reserved_count d) (adp + delta_adopted_count d)) S
    (cache\<lparr>cache_pool := pool', cache_tables := ts', cache_index := index'\<rparr>)"
proof -
  let ?t' = "extended t (reserved_of r d) (delta_target_slots d)"
  note f = publishable_facts[OF d]
  have tb: "table_blocks ?t' = table_blocks t @ reserved_of r d" "table_window_blocks ?t' = table_window_blocks t" by (simp_all add: extended_def)
  note h = publishable_held[OF d ts' tb(1)]
  have place: "i < length (cache_tables cache)" if "place_of r d = Some i" for i
    using f(4,5) that by (cases "delta_newly_admitted d") auto
  have "table_ok pool' (\<lambda>p. held_by (cache_tables cache) p + left_over r rsv adp p) S x" if x: "x \<in> set ts'" for x
  proof (rule with_table_cases[OF x[unfolded ts'] place])
    assume "x = ?t'"
    then show ?thesis using tk by simp
  next
    fix k assume 2: "k < length (cache_tables cache)" "place_of r d \<noteq> Some k" "x = cache_tables cache ! k"
    show ?thesis unfolding 2(3)
    proof (rule table_ok_cong[OF paged_okD(2)[OF ok nth_mem[OF 2(1)]] pb])
      fix q assume "q \<in> set (table_blocks (cache_tables cache ! k))"
      then have "0 < count_list (table_blocks (cache_tables cache ! k)) q" by (simp add: count_list_pos)
      then have "held_by (cache_tables cache) q + left_over r rsv adp q \<noteq> 1 \<or> q \<notin> set (table_blocks t @ reserved_of r d)"
        using h(3)[OF 2(1,2), of q] by (fastforce simp: count_list_pos)
      from st[OF this] show "block_slots_used (pool_store pool' q) = block_slots_used (pool_store (cache_pool cache) q)
          \<and> held_by (cache_tables cache) q + left_over r rsv adp q = held_by (cache_tables cache) q + left_over r rsv adp q" by simp
    qed
  qed
  moreover have "table_window_blocks x = []" if x: "x \<in> set ts'" for x
  proof (rule with_table_cases[OF x[unfolded ts'] place])
    assume "x = ?t'"
    then show ?thesis using f(4,5) paged_okD(6)[OF ok] tb(2) by (cases "delta_newly_admitted d") auto
  qed (use paged_okD(6)[OF ok] in auto)
  ultimately show ?thesis
    using w ix paged_okD(4,5)[OF ok] by (simp add: paged_ok_def cache_state_def list_all_iff h(1))
qed

text \<open>One delta published: the table of its request is there, and everything else is as it was.\<close>

definition published :: "PagedCacheReservation \<Rightarrow> nat \<Rightarrow> nat \<Rightarrow> PagedCacheReservationDelta \<Rightarrow> PagedCacheBlockTable \<Rightarrow> PagedCache \<Rightarrow> PagedCache \<Rightarrow> bool" where
  "published r rsv adp d t cache cache' \<longleftrightarrow>
     cache_tables cache' = with_table (place_of r d) (extended t (reserved_of r d) (delta_target_slots d)) (cache_tables cache)
     \<and> resident_ok r cache' \<and> reserved_ok r rsv adp cache'
     \<and> pool_block_size (cache_pool cache') = pool_block_size (cache_pool cache)
     \<and> (\<forall>k. k \<noteq> delta_request_id d \<longrightarrow> Find k (cache_index cache') = Find k (cache_index cache))
     \<and> index_max_entries (cache_index cache') = index_max_entries (cache_index cache)
     \<and> index_size (cache_index cache') = index_size (cache_index cache) + (if delta_newly_admitted d then 1 else 0)"

lemma in_with_table: "(\<And>i. at = Some i \<Longrightarrow> i < length ts) \<Longrightarrow> t \<in> set (with_table at t ts)"
  by (cases at) (auto simp: with_table_def set_update_memI)

lemma held_by_zero: "held_by ts p = 0 \<Longrightarrow> x \<in> set ts \<Longrightarrow> p \<notin> set (table_blocks x)"
  by (auto simp: held_by_def count_list_pos)

lemma resident_with_table:
  assumes res: "resident_ok r cache" and t: "table_request_id t = delta_request_id d"
    and c': "cache_tables cache' = with_table (place_of r d) t (cache_tables cache)"
  shows "resident_ok r cache'"
  unfolding resident_ok_def
proof (intro allI impI)
  fix k i assume i: "Find k (resident_table_index r) = Some i"
  then have o: "i < length (cache_tables cache)" "table_request_id (cache_tables cache ! i) = k" using res by (auto simp: resident_ok_def)
  show "i < length (cache_tables cache') \<and> table_request_id (cache_tables cache' ! i) = k"
  proof (cases "place_of r d")
    case None
    then show ?thesis using o c' by (simp add: with_table_def nth_append)
  next
    case (Some j)
    have "j = i \<Longrightarrow> delta_request_id d = k" using Some res o(2) by (auto simp: place_of_def resident_ok_def split: if_splits)
    then show ?thesis using Some o c' t by (cases "j = i") (auto simp: with_table_def)
  qed
qed

lemma reserved_step:
  assumes rok: "reserved_ok r rsv adp cache" and d: "publishable r S cache rsv adp n d t"
    and c': "cache_tables cache' = with_table (place_of r d) (extended t (reserved_of r d) (delta_target_slots d)) (cache_tables cache)"
    and st: "\<And>q. held_by (cache_tables cache) q + left_over r rsv adp q \<noteq> 1 \<or> q \<notin> set (table_blocks t @ reserved_of r d)
      \<Longrightarrow> pool_store (cache_pool cache') q = pool_store (cache_pool cache) q"
  shows "reserved_ok r (rsv + delta_reserved_count d) (adp + delta_adopted_count d) cache'"
proof -
  note f = publishable_facts[OF d]
  have tb: "table_blocks (extended t (reserved_of r d) (delta_target_slots d)) = table_blocks t @ reserved_of r d" by (simp add: extended_def)
  note h = publishable_held[OF d c' tb]
  have le: "rsv + delta_reserved_count d \<le> length (reserved_blocks r)" "adp + delta_adopted_count d \<le> length (adopted_blocks r)"
    using d by (simp_all add: publishable_def)
  have sub: "set (drop (rsv + delta_reserved_count d) (reserved_blocks r)) \<subseteq> set (drop rsv (reserved_blocks r))"
    "set (drop (adp + delta_adopted_count d) (adopted_blocks r)) \<subseteq> set (drop adp (adopted_blocks r))"
    using subspan_drop[OF le(1)] subspan_drop[OF le(2)] by auto
  have mem: "extended t (reserved_of r d) (delta_target_slots d) \<in> set (cache_tables cache')"
    unfolding c' by (rule in_with_table) (use f(4,5) in \<open>cases "delta_newly_admitted d"; auto\<close>)
  have same: "pool_store (cache_pool cache') p = pool_store (cache_pool cache) p"
    if "0 < left_over r (rsv + delta_reserved_count d) (adp + delta_adopted_count d) p" for p
  proof (rule st)
    show "held_by (cache_tables cache) p + left_over r rsv adp p \<noteq> 1 \<or> p \<notin> set (table_blocks t @ reserved_of r d)"
    proof (cases "held_by (cache_tables cache') p = 0")
      case True
      then show ?thesis using held_by_zero[OF True mem] tb by simp
    qed (use h(1)[of p] that in linarith)
  qed
  have "held_by (cache_tables cache') p + left_over r (rsv + delta_reserved_count d) (adp + delta_adopted_count d) p = 1
      \<and> block_slots_used (pool_store (cache_pool cache') p) = 0" if p: "p \<in> set (drop (rsv + delta_reserved_count d) (reserved_blocks r))" for p
  proof -
    have "p \<in> set (drop rsv (reserved_blocks r))" using p sub(1) by blast
    moreover have "0 < left_over r (rsv + delta_reserved_count d) (adp + delta_adopted_count d) p"
      using p by (simp add: left_over_def count_list_pos)
    ultimately show ?thesis using rok h(1)[of p] same[of p] by (simp add: reserved_ok_def)
  qed
  moreover have "IsFull (pool_store (cache_pool cache') p)" if p: "p \<in> set (drop (adp + delta_adopted_count d) (adopted_blocks r))" for p
  proof -
    have "p \<in> set (drop adp (adopted_blocks r))" using p sub(2) by blast
    moreover have "0 < left_over r (rsv + delta_reserved_count d) (adp + delta_adopted_count d) p"
      using p by (simp add: left_over_def count_list_pos)
    ultimately show ?thesis using rok same[of p] by (simp add: reserved_ok_def)
  qed
  ultimately show ?thesis by (simp add: reserved_ok_def)
qed

lemma publish_step:
  assumes ok: "paged_ok (left_over r rsv adp) S cache" and rok: "reserved_ok r rsv adp cache" and res: "resident_ok r cache"
    and d: "publishable r S cache rsv adp n d t"
    and fresh: "delta_newly_admitted d \<Longrightarrow> Find (delta_request_id d) (cache_index cache) = None \<and> index_size (cache_index cache) < index_max_entries (cache_index cache)"
  obtains cache' where "publish_delta r d (cache, n, b)
      = Inr (cache', n + (if delta_newly_admitted d then 1 else 0), b \<or> delta_target_slots d \<noteq> delta_committed_slots d)"
    and "paged_ok (left_over r (rsv + delta_reserved_count d) (adp + delta_adopted_count d)) S cache'"
    and "published r (rsv + delta_reserved_count d) (adp + delta_adopted_count d) d t cache cache'"
proof -
  note f = publishable_facts[OF d]
  let ?t' = "extended t (reserved_of r d) (delta_target_slots d)" and ?ts = "cache_tables cache"
  obtain pool' where p: "advance_slots (delta_target_slots d - table_committed_slots t)
      (drop (table_committed_slots t div pool_block_size (cache_pool cache)) (table_blocks t @ reserved_of r d)) (cache_pool cache) = Inr pool'"
    "wf_cache (\<lambda>p. held_by ?ts p + left_over r rsv adp p) S (pool', cache_prefix cache)"
    "pool_block_size pool' = pool_block_size (cache_pool cache)" "Owns pool' = Owns (cache_pool cache)"
    "\<And>q. \<exists>u. pool_store pool' q = (pool_store (cache_pool cache) q)\<lparr>block_slots_used := u\<rparr>"
    "\<And>q. held_by ?ts q + left_over r rsv adp q \<noteq> 1 \<or> q \<notin> set (table_blocks t @ reserved_of r d) \<Longrightarrow> pool_store pool' q = pool_store (cache_pool cache) q"
    "table_ok pool' (\<lambda>p. held_by ?ts p + left_over r rsv adp p) S ?t'"
    by (rule publish_pool[OF ok rok d]) blast
  have id: "table_request_id ?t' = delta_request_id d" using f(7) by (simp add: extended_def)
  obtain i where "place_of r d = Some i \<or> place_of r d = None" by auto
  note at = this
  have pl: "place_of r d = Some i \<Longrightarrow> i < length ?ts \<and> table_request_id ?t' = table_request_id (?ts ! i)"
    using f(4,5,7) id by (cases "delta_newly_admitted d") auto
  have isnew: "place_of r d = None \<longleftrightarrow> delta_newly_admitted d" using f(4,5) by fastforce
  have "place_of r d = None \<Longrightarrow> table_request_id ?t' \<noteq> 0 \<and> Find (table_request_id ?t') (cache_index cache) = None
      \<and> index_size (cache_index cache) < index_max_entries (cache_index cache)"
    using fresh isnew id d by (simp add: publishable_def)
  then obtain index' where ix: "place_of r d = None \<Longrightarrow> Insert (delta_request_id d) (length ?ts) (cache_index cache) = (index', True)"
    "place_of r d \<noteq> None \<Longrightarrow> index' = cache_index cache" "index_ok (with_table (place_of r d) ?t' ?ts) index'"
    "\<And>k. k \<noteq> delta_request_id d \<Longrightarrow> Find k index' = Find k (cache_index cache)" "index_max_entries index' = index_max_entries (cache_index cache)"
    "index_size index' = index_size (cache_index cache) + (if place_of r d = None then 1 else 0)"
    using index_with_table[OF paged_okD(3)[OF ok] pl at] unfolding id by metis
  define cache' where "cache' = cache\<lparr>cache_pool := pool', cache_tables := with_table (place_of r d) ?t' ?ts, cache_index := index'\<rparr>"
  have run: "publish_delta r d (cache, n, b) = Inr (cache', n + (if delta_newly_admitted d then 1 else 0), b \<or> delta_target_slots d \<noteq> delta_committed_slots d)"
    using d p(1) AdvanceCommittedSlots_eq[OF p(1), of "table_window_blocks t"] delta_found_ok[OF res, of d] ix(1,2) isnew f(4,5,6)
    by (cases "delta_newly_admitted d") (auto simp: publish_delta_def publishable_def cache'_def with_table_def place_of_def extended_def subspan_def reserved_of_def Let_def)
  have "paged_ok (left_over r (rsv + delta_reserved_count d) (adp + delta_adopted_count d)) S cache'"
    unfolding cache'_def by (rule paged_ok_extended[OF ok d p(2,3) _ p(7) refl ix(3)]) (rule p(6))
  moreover have "reserved_ok r (rsv + delta_reserved_count d) (adp + delta_adopted_count d) cache'"
    by (rule reserved_step[OF rok d]) (simp_all add: cache'_def p(6))
  moreover have "resident_ok r cache'" by (rule resident_with_table[OF res id]) (simp add: cache'_def)
  ultimately show ?thesis using that[OF run] ix(4-6) p(3) isnew by (simp add: published_def) (simp add: cache'_def)
qed

definition table_for :: "PagedCacheBlockTable list \<Rightarrow> u64 \<Rightarrow> PagedCacheBlockTable option" where
  "table_for ts k = find (\<lambda>t. table_request_id t = k) ts"

lemma table_for_Some: "distinct (map table_request_id ts) \<Longrightarrow> table_for ts k = Some t \<longleftrightarrow> t \<in> set ts \<and> table_request_id t = k"
  by (induction ts) (auto simp: table_for_def)

lemma table_for_None: "table_for ts k = None \<longleftrightarrow> k \<notin> table_request_id ` set ts"
  by (auto simp: table_for_def find_None_iff)

lemma table_for_with_table:
  assumes dist: "distinct (map table_request_id ts)" and new: "at = None \<Longrightarrow> table_request_id t \<notin> table_request_id ` set ts"
    and old: "\<And>i. at = Some i \<Longrightarrow> i < length ts \<and> table_request_id (ts ! i) = table_request_id t"
  shows "table_for (with_table at t ts) k = (if k = table_request_id t then Some t else table_for ts k)"
proof (cases at)
  case None
  then show ?thesis using new by (induction ts) (auto simp: with_table_def table_for_def)
next
  case (Some i)
  then have i: "i < length ts" "table_request_id (ts ! i) = table_request_id t" using old by auto
  have ids: "map table_request_id (ts[i := t]) = map table_request_id ts" using i by (metis list_update_id map_update)
  have d': "distinct (map table_request_id (ts[i := t]))" unfolding ids by (rule dist)
  have mem: "x \<in> set (ts[i := t]) \<and> table_request_id x = k \<longleftrightarrow> (if k = table_request_id t then x = t else x \<in> set ts \<and> table_request_id x = k)" for x
  proof (cases "k = table_request_id t")
    case True
    have "t \<in> set (ts[i := t])" using i(1) by (simp add: set_update_memI)
    then show ?thesis using True d' by (auto simp: distinct_map inj_on_def)
  next
    case False
    have "x \<in> set (ts[i := t]) \<longleftrightarrow> x \<in> set ts" if "table_request_id x \<noteq> table_request_id t"
      using that i by (auto simp: in_set_conv_nth nth_list_update split: if_splits)
    then show ?thesis using False by auto
  qed
  have "table_for (ts[i := t]) k = Some x \<longleftrightarrow> (if k = table_request_id t then Some t else table_for ts k) = Some x" for x
    unfolding table_for_Some[OF d'] mem using table_for_Some[OF dist] by auto
  then show ?thesis using Some unfolding with_table_def by (metis option.simps(5) option.exhaust)
qed

lemma index_ok_Find:
  assumes "index_ok ts index"
  shows "Find k index = Some i \<longleftrightarrow> i < length ts \<and> table_request_id (ts ! i) = k"
proof -
  note o = assms[unfolded index_ok_def]
  have "table_request_id ` set ts = dom (\<lambda>k. Find k index)"
  proof (rule card_subset_eq)
    have "card (dom (\<lambda>k. Find k index)) = length ts" using request_map.used_dom[of index] o by simp
    moreover have "card (table_request_id ` set ts) = length ts" using o by (metis distinct_card length_map set_map)
    ultimately show "card (table_request_id ` set ts) = card (dom (\<lambda>k. Find k index))" by simp
    show "finite (dom (\<lambda>k. Find k index))" by simp
    show "table_request_id ` set ts \<subseteq> dom (\<lambda>k. Find k index)" using o by (force simp: in_set_conv_nth)
  qed
  then have im: "k \<in> table_request_id ` set ts" if "Find k index = Some i" using that by (simp add: domI)
  have f: "i < length ts \<Longrightarrow> Find (table_request_id (ts ! i)) index = Some i" for i using o by simp
  have "\<exists>j < length ts. table_request_id (ts ! j) = k" if "Find k index = Some i" using im[OF that] by (metis imageE in_set_conv_nth)
  then show ?thesis using f by auto
qed

lemma delta_base_published:
  assumes res: "resident_ok r cache" and pub: "published r rsv adp d t cache cache'" and ne: "delta_request_id d' \<noteq> delta_request_id d"
  shows "delta_base r S cache' n d' x \<longleftrightarrow> delta_base r S cache n d' x"
proof -
  have same: "i < length (cache_tables cache') \<and> x = cache_tables cache' ! i \<longleftrightarrow> i < length (cache_tables cache) \<and> x = cache_tables cache ! i"
    if i: "Find (delta_request_id d') (resident_table_index r) = Some i" for i
  proof -
    have o: "i < length (cache_tables cache)" "table_request_id (cache_tables cache ! i) = delta_request_id d'" using res i by (auto simp: resident_ok_def)
    have "place_of r d \<noteq> Some i" using res o(2) ne by (auto simp: place_of_def resident_ok_def)
    then show ?thesis using pub o by (cases "place_of r d") (auto simp: published_def with_table_def nth_append)
  qed
  have "pool_block_size (cache_pool cache') = pool_block_size (cache_pool cache)" using pub by (simp add: published_def)
  then show ?thesis using same unfolding delta_base_def by auto
qed

lemma pending_published:
  assumes "resident_ok r cache" and "published r rsv0 adp0 d t cache cache'" and "delta_request_id d \<notin> delta_request_id ` set ds"
    and "pending r S cache rsv adp n ds"
  shows "pending r S cache' rsv adp n ds"
  using assms(3,4)
proof (induction ds arbitrary: rsv adp n)
  case (Cons d' ds)
  have "pool_block_size (cache_pool cache') = pool_block_size (cache_pool cache)" using assms(2) by (simp add: published_def)
  moreover have "delta_base r S cache' n d' x \<longleftrightarrow> delta_base r S cache n d' x" for x
    by (rule delta_base_published[OF assms(1,2)]) (use Cons.prems(1) in auto)
  ultimately show ?case using Cons by auto
qed simp

lemma pending_publishable:
  assumes "pending r S cache rsv adp n (d # ds)"
  obtains t where "publishable r S cache rsv adp n d t"
  using assms that by (auto simp: publishable_def)

text \<open>The tables after the deltas: those of other requests are untouched, and every delta extended its own.\<close>

definition all_published ::
  "PagedCacheReservation \<Rightarrow> BlockIdentity set \<Rightarrow> PagedCacheReservationDelta list \<Rightarrow> PagedCache \<Rightarrow> PagedCache \<Rightarrow> bool" where
  "all_published r S ds cache cache' \<longleftrightarrow>
     (\<forall>k. k \<notin> delta_request_id ` set ds \<longrightarrow> table_for (cache_tables cache') k = table_for (cache_tables cache) k)
     \<and> (\<forall>d \<in> set ds. \<exists>t n. delta_base r S cache n d t
          \<and> table_for (cache_tables cache') (delta_request_id d) = Some (extended t (reserved_of r d) (delta_target_slots d)))"

lemma published_table_for:
  assumes ok: "paged_ok extra S cache" and d: "publishable r S cache rsv adp n d t" and pub: "published r rsv' adp' d t cache cache'"
    and fresh: "delta_newly_admitted d \<Longrightarrow> Find (delta_request_id d) (cache_index cache) = None"
  shows "table_for (cache_tables cache') k
    = (if k = delta_request_id d then Some (extended t (reserved_of r d) (delta_target_slots d)) else table_for (cache_tables cache) k)"
proof -
  note f = publishable_facts[OF d]
  have id: "table_request_id (extended t (reserved_of r d) (delta_target_slots d)) = delta_request_id d" using f(7) by (simp add: extended_def)
  have ix: "index_ok (cache_tables cache) (cache_index cache)" by (rule paged_okD(3)[OF ok])
  have "place_of r d = None \<Longrightarrow> delta_request_id d \<notin> table_request_id ` set (cache_tables cache)"
    using fresh f(4) ix by (cases "delta_newly_admitted d") (auto simp: index_ok_def in_set_conv_nth)
  moreover have "\<And>i. place_of r d = Some i \<Longrightarrow> i < length (cache_tables cache) \<and> table_request_id (cache_tables cache ! i) = delta_request_id d"
    using f(4,5,7) by (cases "delta_newly_admitted d") auto
  ultimately show ?thesis
    using table_for_with_table[of "cache_tables cache" "place_of r d" "extended t (reserved_of r d) (delta_target_slots d)" k] ix pub
    unfolding id published_def index_ok_def by auto
qed

lemma publish_all:
  assumes "paged_ok (left_over r rsv adp) S cache" and "reserved_ok r rsv adp cache" and "resident_ok r cache" and "pending r S cache rsv adp n ds"
    and "distinct (map delta_request_id ds)" and "\<forall>d \<in> set ds. delta_newly_admitted d \<longrightarrow> Find (delta_request_id d) (cache_index cache) = None"
    and "index_size (cache_index cache) + length (filter delta_newly_admitted ds) \<le> index_max_entries (cache_index cache)"
  shows "\<exists>cache' n' b'. run_result (publish_delta r) ds (cache, n, b) = Inr (cache', n', b') \<and> paged_ok (\<lambda>_. 0) S cache'
    \<and> all_published r S ds cache cache'
    \<and> pool_block_size (cache_pool cache') = pool_block_size (cache_pool cache)"
  using assms
proof (induction ds arbitrary: rsv adp n b cache)
  case Nil
  have "left_over r rsv adp = (\<lambda>_. 0)" using Nil.prems(4) by (auto simp: left_over_def)
  then show ?case using Nil.prems(1) by (auto simp: all_published_def)
next
  case (Cons d ds)
  obtain t where d: "publishable r S cache rsv adp n d t" by (rule pending_publishable[OF Cons.prems(4)])
  have fresh: "Find (delta_request_id d) (cache_index cache) = None \<and> index_size (cache_index cache) < index_max_entries (cache_index cache)"
    if "delta_newly_admitted d" using Cons.prems(6,7) that by auto
  obtain cache1 where s: "publish_delta r d (cache, n, b)
      = Inr (cache1, n + (if delta_newly_admitted d then 1 else 0), b \<or> delta_target_slots d \<noteq> delta_committed_slots d)"
    "paged_ok (left_over r (rsv + delta_reserved_count d) (adp + delta_adopted_count d)) S cache1"
    "published r (rsv + delta_reserved_count d) (adp + delta_adopted_count d) d t cache cache1"
    using publish_step[OF Cons.prems(1,2,3) d fresh, of b] by blast
  have nin: "delta_request_id d \<notin> delta_request_id ` set ds" "distinct (map delta_request_id ds)" using Cons.prems(5) by auto
  have "pending r S cache (rsv + delta_reserved_count d) (adp + delta_adopted_count d) (n + (if delta_newly_admitted d then 1 else 0)) ds"
    using Cons.prems(4) by simp
  then have pend: "pending r S cache1 (rsv + delta_reserved_count d) (adp + delta_adopted_count d) (n + (if delta_newly_admitted d then 1 else 0)) ds"
    by (rule pending_published[OF Cons.prems(3) s(3) nin(1)])
  have p: "reserved_ok r (rsv + delta_reserved_count d) (adp + delta_adopted_count d) cache1" "resident_ok r cache1"
    "\<And>k. k \<noteq> delta_request_id d \<Longrightarrow> Find k (cache_index cache1) = Find k (cache_index cache)"
    "index_max_entries (cache_index cache1) = index_max_entries (cache_index cache)"
    "index_size (cache_index cache1) = index_size (cache_index cache) + (if delta_newly_admitted d then 1 else 0)"
    "pool_block_size (cache_pool cache1) = pool_block_size (cache_pool cache)" using s(3) by (simp_all add: published_def)
  have "\<forall>d' \<in> set ds. delta_newly_admitted d' \<longrightarrow> Find (delta_request_id d') (cache_index cache1) = None"
  proof (intro ballI impI)
    fix d' assume d': "d' \<in> set ds" "delta_newly_admitted d'"
    then have "delta_request_id d' \<noteq> delta_request_id d" using nin(1) by (metis imageI)
    from p(3)[OF this] show "Find (delta_request_id d') (cache_index cache1) = None" using Cons.prems(6) d' by simp
  qed
  moreover have "index_size (cache_index cache1) + length (filter delta_newly_admitted ds) \<le> index_max_entries (cache_index cache1)"
    using Cons.prems(7) p(4,5) by (cases "delta_newly_admitted d") simp_all
  ultimately obtain cache' n' b' where r: "run_result (publish_delta r) ds (cache1, n + (if delta_newly_admitted d then 1 else 0),
      b \<or> delta_target_slots d \<noteq> delta_committed_slots d) = Inr (cache', n', b')" "paged_ok (\<lambda>_. 0) S cache'" "all_published r S ds cache1 cache'"
    "pool_block_size (cache_pool cache') = pool_block_size (cache_pool cache1)"
    using Cons.IH[OF s(2) p(1,2) pend nin(2)] by blast
  have tf: "table_for (cache_tables cache1) k = (if k = delta_request_id d then Some (extended t (reserved_of r d) (delta_target_slots d))
      else table_for (cache_tables cache) k)" for k
    by (rule published_table_for[OF Cons.prems(1) d s(3)]) (use fresh in blast)
  have db: "delta_base r S cache1 m d' x \<longleftrightarrow> delta_base r S cache m d' x" if "d' \<in> set ds" for m d' x
    by (rule delta_base_published[OF Cons.prems(3) s(3)]) (metis that nin(1) imageI)
  have "delta_base r S cache n d t" using d by (simp add: publishable_def)
  then have "all_published r S (d # ds) cache cache'" using r(3) tf db nin(1) unfolding all_published_def by auto
  then show ?case using s(1) r p(6) by auto
qed

end
