(* ===== verification/Paged_Commit.thy ===== *)
theory Paged_Commit
  imports Paged_Tables
begin

text \<open>
  Reservations from beginning to end: what \<open>Reserve\<close> establishes, that a commit of an undisturbed reservation passes every
  check of its validation, and that giving it up restores the references.
\<close>

section \<open>Validation\<close>

lemma advance_preconditions_ok:
  fixes bl :: "bptr list"
  assumes bs: "0 < pool_block_size pool" and rs: "delta_reserved_offset d + delta_reserved_count d \<le> length (reserved_blocks r)"
    and blk: "\<And>j. delta_committed_slots d div pool_block_size pool \<le> j \<Longrightarrow> j < length (bl @ reserved_of r d) \<Longrightarrow>
        block_capacity (pool_store pool ((bl @ reserved_of r d) ! j)) = pool_block_size pool
        \<and> block_slots_used (pool_store pool ((bl @ reserved_of r d) ! j))
          = (if j = delta_committed_slots d div pool_block_size pool then delta_committed_slots d mod pool_block_size pool else 0)"
    and adv: "\<And>j. j < delta_advance_count d \<Longrightarrow> delta_committed_slots d div pool_block_size pool + j < length (bl @ reserved_of r d)
        \<and> delta_advance_offset d + j < length (advance_blocks r)
        \<and> advance_blocks r ! (delta_advance_offset d + j) = (bl @ reserved_of r d) ! (delta_committed_slots d div pool_block_size pool + j)"
    and i: "delta_committed_slots d div pool_block_size pool \<le> i"
      "remaining + (if i = delta_committed_slots d div pool_block_size pool then delta_committed_slots d mod pool_block_size pool else 0) + i * pool_block_size pool
        \<le> (delta_committed_slots d div pool_block_size pool + delta_advance_count d) * pool_block_size pool"
  shows "advance_preconditions r pool d bl i remaining = Inr ()"
  using i
proof (induction remaining arbitrary: i rule: less_induct)
  case (less remaining)
  let ?bs = "pool_block_size pool" and ?first = "delta_committed_slots d div pool_block_size pool"
  let ?expected = "if i = ?first then delta_committed_slots d mod ?bs else 0"
  show ?case
  proof (cases "remaining = 0")
    case False
    have "i * ?bs < (?first + delta_advance_count d) * ?bs" using less.prems(2) False by linarith
    then have "i < ?first + delta_advance_count d" by simp
    then obtain j where j: "i = ?first + j" "j < delta_advance_count d" using less.prems(1) by (metis le_Suc_ex nat_add_left_cancel_less)
    note a = adv[OF j(2)]
    have len: "length (reserved_of r d) = delta_reserved_count d" using rs by (simp add: reserved_of_def subspan_def)
    have il: "i < length bl + delta_reserved_count d" using a j(1) len by simp
    have nth: "(if i < length bl then bl ! i else reserved_blocks r ! (delta_reserved_offset d + (i - length bl))) = (bl @ reserved_of r d) ! i"
      using il rs by (auto simp: nth_append reserved_of_def subspan_def)
    have b: "block_capacity (pool_store pool ((bl @ reserved_of r d) ! i)) = ?bs" "block_slots_used (pool_store pool ((bl @ reserved_of r d) ! i)) = ?expected"
      using blk[OF less.prems(1)] il len by simp_all
    have exp: "?expected < ?bs" using bs by simp
    let ?rest = "remaining - min remaining (?bs - ?expected)"
    have "?rest < remaining" using False exp by linarith
    moreover have "?rest + 0 + Suc i * ?bs \<le> (?first + delta_advance_count d) * ?bs"
    proof (cases "remaining \<le> ?bs - ?expected")
      case True
      have "Suc i \<le> ?first + delta_advance_count d" using j by simp
      then have "Suc i * ?bs \<le> (?first + delta_advance_count d) * ?bs" by (rule mult_le_mono1)
      then show ?thesis using True by simp
    next
      case False
      then show ?thesis using less.prems(2) exp by simp
    qed
    ultimately have next_step: "advance_preconditions r pool d bl (Suc i) ?rest = Inr ()" using less.IH[of ?rest "Suc i"] less.prems(1) by simp
    have "\<not> (i \<ge> length bl \<and> i - length bl \<ge> delta_reserved_count d)" using il by linarith
    moreover have "\<not> (i \<ge> length bl \<and> delta_reserved_offset d + (i - length bl) \<ge> length (reserved_blocks r))" using il rs by linarith
    moreover have "\<not> i - ?first \<ge> delta_advance_count d" "\<not> delta_advance_offset d + (i - ?first) \<ge> length (advance_blocks r)"
      "advance_blocks r ! (delta_advance_offset d + (i - ?first)) = (bl @ reserved_of r d) ! i" using a j by simp_all
    ultimately show ?thesis
      using False b next_step by (subst advance_preconditions.simps) (simp only: nth Let_def if_False if_True simp_thms HOL.simp_thms)
  qed (simp add: advance_preconditions.simps)
qed

text \<open>The blocks from the committed boundary of a delta on are filled as its commit expects them.\<close>

lemma held_block:
  assumes "paged_ok extra S cache" and "0 < held_by (cache_tables cache) p + extra p"
  shows "Owns (cache_pool cache) (Some p)" and "block_capacity (pool_store (cache_pool cache) p) = pool_block_size (cache_pool cache)"
proof -
  note wf = paged_okD(1)[OF assms(1)]
  show own: "Owns (cache_pool cache) (Some p)" using refs_okD(2)[OF wf_cacheD(5)[OF wf], of p] assms(2) by fastforce
  from wf_pool_slotD(2)[OF wf_cacheD(1)[OF wf] OwnsD[OF own]]
  show "block_capacity (pool_store (cache_pool cache) p) = pool_block_size (cache_pool cache)" by (simp add: wf_block_def)
qed

lemma paged_block_size: "paged_ok extra S cache \<Longrightarrow> 0 < pool_block_size (cache_pool cache)"
  using wf_pool_lengths(4)[OF wf_cacheD(1)[OF paged_okD(1)]] .

lemma reserved_block:
  assumes ok: "paged_ok (left_over r 0 0) S cache" and rok: "reserved_ok r 0 0 cache" and p: "p \<in> set (reserved_of r d)"
  shows "Owns (cache_pool cache) (Some p)" and "block_capacity (pool_store (cache_pool cache) p) = pool_block_size (cache_pool cache)"
    and "block_slots_used (pool_store (cache_pool cache) p) = 0"
proof -
  have "p \<in> set (reserved_blocks r)" using p by (auto simp: reserved_of_def subspan_def dest: in_set_takeD in_set_dropD)
  then have "held_by (cache_tables cache) p + left_over r 0 0 p = 1" and u: "block_slots_used (pool_store (cache_pool cache) p) = 0"
    using rok by (simp_all add: reserved_ok_def)
  then show "Owns (cache_pool cache) (Some p)" "block_capacity (pool_store (cache_pool cache) p) = pool_block_size (cache_pool cache)"
    using held_block[OF ok, of p] by simp_all
  show "block_slots_used (pool_store (cache_pool cache) p) = 0" by (rule u)
qed

lemma boundary_block:
  assumes ok: "paged_ok (left_over r 0 0) S cache" and rok: "reserved_ok r 0 0 cache" and d: "publishable r S cache rsv adp n d t"
    and j: "delta_committed_slots d div pool_block_size (cache_pool cache) \<le> j" "j < length (table_blocks t @ reserved_of r d)"
  shows "block_capacity (pool_store (cache_pool cache) ((table_blocks t @ reserved_of r d) ! j)) = pool_block_size (cache_pool cache)
    \<and> block_slots_used (pool_store (cache_pool cache) ((table_blocks t @ reserved_of r d) ! j))
      = (if j = delta_committed_slots d div pool_block_size (cache_pool cache) then delta_committed_slots d mod pool_block_size (cache_pool cache) else 0)"
proof -
  let ?bs = "pool_block_size (cache_pool cache)" and ?n = "delta_committed_slots d"
  have bs: "0 < ?bs" by (rule paged_block_size[OF ok])
  note f = publishable_facts[OF d]
  have split: "min ?bs (?n - j * ?bs) = (if j = ?n div ?bs then ?n mod ?bs else 0)"
  proof (cases "j = ?n div ?bs")
    case True
    then show ?thesis using mod_less_divisor[OF bs, of ?n] by (simp add: minus_div_mult_eq_mod)
  next
    case False
    then have "Suc (?n div ?bs) * ?bs \<le> j * ?bs" using j(1) by (intro mult_le_mono1) simp
    then have "?n \<le> j * ?bs" using dividend_less_div_times[OF bs, of ?n] by simp
    then show ?thesis using False by simp
  qed
  show ?thesis
  proof (cases "j < length (table_blocks t)")
    case True
    have new: "\<not> delta_newly_admitted d"
    proof
      assume "delta_newly_admitted d"
      then have "?n = length (table_blocks t) * ?bs" using d by (auto simp: publishable_def delta_base_def subspan_def)
      then show False using j(1) True bs by simp
    qed
    then have t: "t \<in> set (cache_tables cache)" using f(4) by auto
    obtain i where i: "i < length (cache_tables cache)" "t = cache_tables cache ! i" using f(4)[OF new] by blast
    have "0 < count_list (table_blocks t) (table_blocks t ! j)" using True by (simp add: count_list_pos[symmetric])
    then have "0 < held_by (cache_tables cache) (table_blocks t ! j)" using held_by_ge[OF i(1), of "table_blocks t ! j"] i(2) by simp
    moreover have "block_slots_used (pool_store (cache_pool cache) (table_blocks t ! j)) = min ?bs (?n - j * ?bs)"
      using paged_okD(2)[OF ok t] True f(6) by (simp add: table_ok_def Let_def)
    ultimately show ?thesis using True held_block(2)[OF ok, of "table_blocks t ! j"] split by (simp add: nth_append)
  next
    case False
    have "?n \<le> length (table_blocks t) * ?bs"
    proof (cases "delta_newly_admitted d")
      case True
      then show ?thesis using d by (auto simp: publishable_def delta_base_def subspan_def)
    next
      case False
      then have "t \<in> set (cache_tables cache)" using f(4) by auto
      from paged_okD(2)[OF ok this] show ?thesis using f(6) by (simp add: table_ok_def Let_def)
    qed
    also have "\<dots> \<le> j * ?bs" using False by (intro mult_le_mono1) simp
    finally have "min ?bs (?n - j * ?bs) = 0" by simp
    moreover have "(table_blocks t @ reserved_of r d) ! j \<in> set (reserved_of r d)" using False j(2) by (simp add: nth_append)
    ultimately show ?thesis using reserved_block[OF ok rok] split by metis
  qed
qed

section \<open>A reservation that nothing has disturbed\<close>

text \<open>The blocks a request will have, and the part of them that a commit writes.\<close>

definition row_of :: "PagedCacheReservation \<Rightarrow> PagedCache \<Rightarrow> PagedCacheReservationDelta \<Rightarrow> bptr list" where
  "row_of r cache d = block_row r cache (Find (delta_request_id d) (resident_table_index r)) d"

definition advance_ok :: "PagedCacheReservation \<Rightarrow> PagedCache \<Rightarrow> PagedCacheReservationDelta \<Rightarrow> bool" where
  "advance_ok r cache d \<longleftrightarrow>
     (let bs = pool_block_size (cache_pool cache); first = delta_committed_slots d div bs; n = delta_advance_count d in
      delta_target_slots d \<le> (first + n) * bs \<and> first + n \<le> length (row_of r cache d)
      \<and> delta_advance_offset d + n \<le> length (advance_blocks r)
      \<and> (\<forall>j < n. advance_blocks r ! (delta_advance_offset d + j) = row_of r cache d ! (first + j))
      \<and> length (row_of r cache d) * bs \<le> size_max)"

text \<open>No delta is marked as visited in the round of lookups that comes next.\<close>

definition visits_ok :: "PagedCacheReservation \<Rightarrow> bool" where
  "visits_ok r \<longleftrightarrow> length (delta_visit_generations r) = length (deltas r) \<and> (\<forall>g \<in> set (delta_visit_generations r). g < next_delta_visit_generation r)"

definition reservation_ok :: "BlockIdentity set \<Rightarrow> PagedCacheReservation \<Rightarrow> PagedCache \<Rightarrow> bool" where
  "reservation_ok S r cache \<longleftrightarrow>
     reservation_state r = Reserved \<and> paged_ok (left_over r 0 0) S cache \<and> reserved_ok r 0 0 cache
     \<and> (\<forall>k. Find k (resident_table_index r) = Find k (cache_index cache))
     \<and> pending r S cache 0 0 0 (deltas r)
     \<and> (\<forall>i < length (deltas r). Find (delta_request_id (deltas r ! i)) (delta_index r) = Some i)
     \<and> list_all (advance_ok r cache) (deltas r)
     \<and> (\<forall>p \<in> set (adopted_blocks r). IsShareable (pool_store (cache_pool cache) p))
     \<and> reserved_window_blocks r = [] \<and> resident_table_snapshots r = map snapshot_of (cache_tables cache)
     \<and> block_pool_generation r = mutation_generation (cache_pool cache) \<and> visits_ok r"

lemma reservation_okD:
  assumes "reservation_ok S r cache"
  shows "reservation_state r = Reserved" and "paged_ok (left_over r 0 0) S cache" and "reserved_ok r 0 0 cache"
    and "Find k (resident_table_index r) = Find k (cache_index cache)" and "pending r S cache 0 0 0 (deltas r)"
    and "i < length (deltas r) \<Longrightarrow> Find (delta_request_id (deltas r ! i)) (delta_index r) = Some i"
    and "d \<in> set (deltas r) \<Longrightarrow> advance_ok r cache d" and "p \<in> set (adopted_blocks r) \<Longrightarrow> IsShareable (pool_store (cache_pool cache) p)"
    and "reserved_window_blocks r = []" and "resident_table_snapshots r = map snapshot_of (cache_tables cache)"
    and "block_pool_generation r = mutation_generation (cache_pool cache)" and "visits_ok r"
  using assms by (simp_all add: reservation_ok_def list_all_iff)

lemma reservation_resident: "reservation_ok S r cache \<Longrightarrow> resident_ok r cache"
  using index_ok_Find[OF paged_okD(3)[OF reservation_okD(2)]] reservation_okD(4) by (simp add: resident_ok_def)

lemma reservation_distinct: "reservation_ok S r cache \<Longrightarrow> distinct (map delta_request_id (deltas r))"
  unfolding distinct_conv_nth using reservation_okD(6) by (metis length_map nth_map option.inject)

lemma row_of_base:
  assumes "publishable r S cache rsv adp n d t"
  shows "row_of r cache d = table_blocks t @ reserved_of r d"
  using assms by (auto simp: publishable_def delta_base_def row_of_def block_row_def reserved_of_def split: if_splits)

lemma validate_advance:
  assumes r: "reservation_ok S r cache" and d: "publishable r S cache rsv adp n d t" and mem: "d \<in> set (deltas r)"
  shows "ValidateAdvancePreconditions r (cache_pool cache) d t = Inr ()"
proof -
  let ?bs = "pool_block_size (cache_pool cache)" and ?n = "delta_committed_slots d"
  note ok = reservation_okD(2,3)[OF r]
  have a: "delta_target_slots d \<le> (?n div ?bs + delta_advance_count d) * ?bs" "?n div ?bs + delta_advance_count d \<le> length (table_blocks t @ reserved_of r d)"
    "delta_advance_offset d + delta_advance_count d \<le> length (advance_blocks r)"
    "\<And>j. j < delta_advance_count d \<Longrightarrow> advance_blocks r ! (delta_advance_offset d + j) = (table_blocks t @ reserved_of r d) ! (?n div ?bs + j)"
    using reservation_okD(7)[OF r mem] unfolding advance_ok_def row_of_base[OF d] by (simp_all add: Let_def)
  have "advance_preconditions r (cache_pool cache) d (table_blocks t) (?n div ?bs) (delta_target_slots d - ?n) = Inr ()"
  proof (rule advance_preconditions_ok[OF paged_block_size[OF ok(1)] _ boundary_block[OF ok d]])
    show "delta_reserved_offset d + delta_reserved_count d \<le> length (reserved_blocks r)" using d by (simp add: publishable_def)
    show "delta_target_slots d - ?n + (if ?n div ?bs = ?n div ?bs then ?n mod ?bs else 0) + ?n div ?bs * ?bs \<le> (?n div ?bs + delta_advance_count d) * ?bs"
      using a(1) d div_mult_mod_eq[of ?n ?bs] unfolding publishable_def by simp
  qed (use a in auto)
  then show ?thesis by (simp add: ValidateAdvancePreconditions_def)
qed

section \<open>Committing\<close>

lemma owned_empty_reserved:
  assumes r: "reservation_ok S r cache" 
  shows "owned_empty (reserved_of r d) (cache_pool cache) = Inr ()"
  using reserved_block[OF reservation_okD(2,3)[OF r], of _ d]
  by (simp add: owned_empty_def ValidateEmptyReservedBlocks_def check_def list_all_iff)

lemma adopted_valid:
  assumes r: "reservation_ok S r cache"
  shows "list_all (\<lambda>p. Owns (cache_pool cache) (Some p) \<and> IsShareable (pool_store (cache_pool cache) p)) (subspan i n (adopted_blocks r))"
  unfolding list_all_iff
proof
  fix p assume "p \<in> set (subspan i n (adopted_blocks r))"
  then have p: "p \<in> set (adopted_blocks r)" by (auto simp: subspan_def dest: in_set_takeD in_set_dropD)
  then have "0 < left_over r 0 0 p" by (simp add: left_over_def count_list_pos)
  then show "Owns (cache_pool cache) (Some p) \<and> IsShareable (pool_store (cache_pool cache) p)"
    using held_block(1)[OF reservation_okD(2)[OF r], of p] reservation_okD(8)[OF r p] by simp
qed

lemma validate_delta_ok:
  assumes r: "reservation_ok S r cache" and d: "publishable r S cache rsv adp n d t" and i: "i < length (deltas r)" "d = deltas r ! i" 
    and w: "delta_window_offset d = 0"
  shows "validate_delta r cache d \<lparr>cs_index = i, cs_reserved = rsv, cs_window = 0, cs_adopted = adp, cs_new = n\<rparr>
    = Inr \<lparr>cs_index = Suc i, cs_reserved = rsv + delta_reserved_count d, cs_window = 0, cs_adopted = adp + delta_adopted_count d,
        cs_new = n + (if delta_newly_admitted d then 1 else 0)\<rparr>"
proof -
  let ?found = "Find (delta_request_id d) (resident_table_index r)" and ?bs = "pool_block_size (cache_pool cache)"
  have mem: "d \<in> set (deltas r)" using i by simp
  have p: "delta_request_id d \<noteq> 0" "delta_reserved_offset d = rsv" "delta_adopted_offset d = adp" "delta_window_count d = 0"
    "rsv + delta_reserved_count d \<le> length (reserved_blocks r)" "adp + delta_adopted_count d \<le> length (adopted_blocks r)"
    "delta_committed_slots d \<le> delta_target_slots d" 
    "delta_target_slots d \<le> (length (table_blocks t) + delta_reserved_count d) * ?bs"
    using d by (simp_all add: publishable_def)
  have base: "delta_base r S cache n d t" using d by (simp add: publishable_def)
  have found: "delta_newly_admitted d \<longleftrightarrow> ?found = None" 
    "case ?found of None \<Rightarrow> True | Some i \<Rightarrow> table_committed_slots (cache_tables cache ! i) = delta_committed_slots d
              \<and> table_generation (cache_tables cache ! i) = delta_table_generation d"
    "delta_committed_blocks cache ?found d = length (table_blocks t)"
    "?found = None \<Longrightarrow> n < length (new_tables r) \<and> new_tables r ! n = t" "\<And>k. ?found = Some k \<Longrightarrow> cache_tables cache ! k = t"
    using base p(3,6) by (auto simp: delta_base_def delta_committed_blocks_def subspan_def split: if_splits)
  have win: "cache_window_pool cache = None" "reserved_window_blocks r = []" 
    using paged_okD(4)[OF reservation_okD(2)[OF r]] reservation_okD(9)[OF r] by auto
  have len: "length (row_of r cache d) = length (table_blocks t) + delta_reserved_count d"
    using row_of_base[OF d] publishable_facts(1)[OF d] by simp
  then have max: "(length (table_blocks t) + delta_reserved_count d) * ?bs \<le> size_max"
    using reservation_okD(7)[OF r mem] by (simp add: advance_ok_def Let_def)
  have bs: "0 < ?bs" by (rule paged_block_size[OF reservation_okD(2)[OF r]])
  have c1: "CheckedAdd (length (table_blocks t)) (delta_reserved_count d) = Inr (length (table_blocks t) + delta_reserved_count d)"
  proof -
    have "length (table_blocks t) + delta_reserved_count d \<le> (length (table_blocks t) + delta_reserved_count d) * ?bs" using bs by simp
    then have "length (table_blocks t) + delta_reserved_count d \<le> size_max" using max by (rule le_trans)
    then show ?thesis by (simp add: CheckedAdd_def)
  qed
  have c2: "CheckedBlockSlots (length (table_blocks t) + delta_reserved_count d) ?bs = Inr ((length (table_blocks t) + delta_reserved_count d) * ?bs)"
    using max bs by (simp add: CheckedBlockSlots_def not_less less_eq_div_iff_mult_less_eq)
  have o: "owned_empty (subspan rsv (delta_reserved_count d) (reserved_blocks r)) (cache_pool cache) = Inr ()"
    using owned_empty_reserved[OF r, of d] by (simp add: reserved_of_def p(2))
  have fi: "Find (delta_request_id d) (delta_index r) = Some i" using reservation_okD(6)[OF r i(1)] i(2) by simp
  have b: "delta_reserved_count d \<le> length (reserved_blocks r) - rsv" "delta_adopted_count d \<le> length (adopted_blocks r) - adp"
    "rsv \<le> length (reserved_blocks r)" "adp \<le> length (adopted_blocks r)" using p(5,6) by simp_all
  show ?thesis
    unfolding validate_delta_def Let_def using found(2,3)
    by (cases ?found) (simp_all add: delta_found_ok[OF reservation_resident[OF r]] check_def found p(1-4,7,8) b w win o adopted_valid[OF r] c1 c2 validate_advance[OF r d mem] fi)
qed

lemma validate_deltas_ok:
  assumes r: "reservation_ok S r cache"
  shows "pending r S cache rsv adp n ds \<Longrightarrow> deltas r = pre @ ds \<Longrightarrow>
    run_result (validate_delta r cache) ds \<lparr>cs_index = length pre, cs_reserved = rsv, cs_window = 0, cs_adopted = adp, cs_new = n\<rparr>
    = Inr \<lparr>cs_index = length (deltas r), cs_reserved = length (reserved_blocks r), cs_window = 0, cs_adopted = length (adopted_blocks r),
        cs_new = length (new_tables r)\<rparr>"
proof (induction ds arbitrary: rsv adp n pre)
  case (Cons d ds)
  obtain t where d: "publishable r S cache rsv adp n d t" by (rule pending_publishable[OF Cons.prems(1)])
  have "validate_delta r cache d \<lparr>cs_index = length pre, cs_reserved = rsv, cs_window = 0, cs_adopted = adp, cs_new = n\<rparr>
    = Inr \<lparr>cs_index = Suc (length pre), cs_reserved = rsv + delta_reserved_count d, cs_window = 0, cs_adopted = adp + delta_adopted_count d,
        cs_new = n + (if delta_newly_admitted d then 1 else 0)\<rparr>"
    by (rule validate_delta_ok[OF r d]) (use Cons.prems in auto)
  then show ?case using Cons.IH[of "rsv + delta_reserved_count d" "adp + delta_adopted_count d" "n + (if delta_newly_admitted d then 1 else 0)" "pre @ [d]"] Cons.prems
    by simp
qed simp

lemma preflight_deltas_ok:
  assumes r: "reservation_ok S r cache"
  shows "pending r S cache rsv adp n ds \<Longrightarrow> set ds \<subseteq> set (deltas r) \<Longrightarrow> run_result (preflight_delta r cache) ds n = Inr (length (new_tables r))"
proof (induction ds arbitrary: rsv adp n)
  case (Cons d ds)
  obtain t where d: "publishable r S cache rsv adp n d t" by (rule pending_publishable[OF Cons.prems(1)])
  let ?found = "Find (delta_request_id d) (resident_table_index r)"
  have base: "delta_base r S cache n d t" using d by (simp add: publishable_def)
  have "ValidateAdvancePreconditions r (cache_pool cache) d t = Inr ()" by (rule validate_advance[OF r d]) (use Cons.prems(2) in simp)
  then have "preflight_delta r cache d n = Inr (n + (if delta_newly_admitted d then 1 else 0))"
    using base by (auto simp: preflight_delta_def delta_found_ok[OF reservation_resident[OF r]] delta_base_def check_def split: if_splits)
  then show ?case using Cons.IH[of "rsv + delta_reserved_count d" "adp + delta_adopted_count d" "n + (if delta_newly_admitted d then 1 else 0)"] Cons.prems
    by simp
qed simp

lemma validate_tables_ok:
  "(\<And>i. i < length ts \<Longrightarrow> table_request_id (ts ! i) \<noteq> 0 \<and> Find (table_request_id (ts ! i)) index = Some (k + i)) \<Longrightarrow> validate_tables index ts k"
proof (induction ts arbitrary: k)
  case (Cons t ts)
  from Cons.prems[of 0] Cons.IH[of "Suc k"] Cons.prems[of "Suc _"] show ?case by force
qed simp

lemma pending_new:
  "pending r S cache rsv adp n ds \<Longrightarrow> length (filter delta_newly_admitted ds) + n = length (new_tables r)"
  by (induction ds arbitrary: rsv adp n) (force split: if_splits)+

lemma pending_fresh:
  "pending r S cache rsv adp n ds \<Longrightarrow> d \<in> set ds \<Longrightarrow> delta_newly_admitted d \<Longrightarrow> Find (delta_request_id d) (resident_table_index r) = None"
  by (induction ds arbitrary: rsv adp n) (auto simp: delta_base_def)

lemma ValidateCommit_ok:
  assumes r: "reservation_ok S r cache" and room: "index_size (cache_index cache) + length (new_tables r) \<le> index_max_entries (cache_index cache)"
  shows "ValidateCommit r cache = Inr ()"
proof -
  note ok = reservation_okD(2)[OF r]
  have vt: "validate_tables (resident_table_index r) (cache_tables cache) 0"
  proof (rule validate_tables_ok)
    fix i assume i: "i < length (cache_tables cache)"
    have "Find (table_request_id (cache_tables cache ! i)) (resident_table_index r) = Some i"
      using index_ok_Find[OF paged_okD(3)[OF ok]] i reservation_okD(4)[OF r] by simp
    then show "table_request_id (cache_tables cache ! i) \<noteq> 0 \<and> Find (table_request_id (cache_tables cache ! i)) (resident_table_index r) = Some (0 + i)"
      using paged_okD(2)[OF ok nth_mem[OF i]] by (simp add: table_ok_def Let_def)
  qed
  have win: "cache_window_pool cache = None" "cache_ring_blocks cache = 0" using paged_okD(4,5)[OF ok] .
  have "generations_unchanged r cache" "ValidateResidentTablesUnchanged r cache = Inr ()"
    using reservation_okD(10,11)[OF r] win by (simp_all add: generations_unchanged_def ValidateResidentTablesUnchanged_def check_def)
  moreover have "length (new_tables r) \<le> index_max_entries (cache_index cache) - index_size (cache_index cache)" using room by linarith
  ultimately show ?thesis
    using validate_deltas_ok[OF r reservation_okD(5)[OF r], of "[]"] reservation_okD(1,9)[OF r] win vt
    by (simp add: ValidateCommit_def check_def)
qed

text \<open>The generation of the pool is a counter that the invariant does not depend on.\<close>

lemma wf_cache_generation: "wf_cache held S (pool, c) \<Longrightarrow> wf_cache held S (pool\<lparr>mutation_generation := g\<rparr>, c)"
  by (rule wf_cache_same_blocks) (auto dest: wf_cacheD(1))

lemma Commit_ok:
  assumes r: "reservation_ok S r cache" and room: "index_size (cache_index cache) + length (new_tables r) \<le> index_max_entries (cache_index cache)"
  obtains r' cache' where "Commit r cache = Inr (r', cache')" and "reservation_state r' = Committed"
    and "paged_ok (\<lambda>_. 0) S cache'" and "all_published r S (deltas r) cache cache'"
proof -
  note p = reservation_okD(5)[OF r]
  have "\<forall>d \<in> set (deltas r). delta_newly_admitted d \<longrightarrow> Find (delta_request_id d) (cache_index cache) = None"
    using pending_fresh[OF p] reservation_okD(4)[OF r] by simp
  moreover have "index_size (cache_index cache) + length (filter delta_newly_admitted (deltas r)) \<le> index_max_entries (cache_index cache)"
    using pending_new[OF p] room by simp
  ultimately obtain cache1 n b where pub: "run_result (publish_delta r) (deltas r) (cache, 0, False) = Inr (cache1, n, b)" "paged_ok (\<lambda>_. 0) S cache1"
    "all_published r S (deltas r) cache cache1"
    using publish_all[OF reservation_okD(2,3)[OF r] reservation_resident[OF r] p reservation_distinct[OF r], of False] by blast
  define cache2 where "cache2 = cache1\<lparr>cache_pool := (if b then (cache_pool cache1)\<lparr>mutation_generation := mutation_generation (cache_pool cache1) + 1\<rparr> else cache_pool cache1)\<rparr>"
  have "paged_ok (\<lambda>_. 0) S cache2"
    using pub(2) by (auto simp: cache2_def paged_ok_def cache_state_def wf_cache_generation Let_def list_all_iff table_ok_def)
  moreover have "all_published r S (deltas r) cache cache2" using pub(3) by (simp add: all_published_def cache2_def)
  moreover have "generations_unchanged r cache" "ValidateResidentTablesUnchanged r cache = Inr ()"
    using reservation_okD(10,11)[OF r] paged_okD(4)[OF reservation_okD(2)[OF r]] by (simp_all add: generations_unchanged_def ValidateResidentTablesUnchanged_def check_def)
  moreover have "run_result (preflight_delta r cache) (deltas r) 0 = Inr (length (new_tables r))" by (rule preflight_deltas_ok[OF r p subset_refl])
  ultimately show ?thesis
    using that[of "r\<lparr>reserved_blocks := [], reserved_window_blocks := [], new_tables := [], advance_blocks := [], reservation_state := Committed\<rparr>" cache2]
      ValidateCommit_ok[OF r room] reservation_okD(1)[OF r] pub(1)
    by (simp add: Commit_def CommitValidated_def check_def cache2_def Let_def)
qed

end
