(* ===== verification/Paged_Reserve.thy ===== *)
theory Paged_Reserve
  imports Paged_Commit
begin

text \<open>
  Making and giving up reservations: every way in which \<open>Reserve\<close> can fail restores the references, one that succeeds is
  ready to be committed, and a reservation that is destroyed or released leaves the cache as it was.
\<close>

section \<open>What references leave alone\<close>

lemma observed_result: "observed operation (pool, c) = Inr (pool', c') \<Longrightarrow> operation pool = Inr pool'"
  by (cases "operation pool"; cases "run_result notice (drop (length (observer_events pool)) (observer_events (projr (operation pool)))) c")
    (auto simp: observed_def pool_result_def)

lemma same_but_references: "\<exists>n. b = b\<lparr>ref_count := n\<rparr>"
  by (rule exI[of _ "ref_count b"]) simp

lemma add_reference_store: "\<exists>n. pool_store (add_reference p pool) q = (pool_store pool q)\<lparr>ref_count := n\<rparr>"
proof (cases "q = p")
  case True
  then show ?thesis by (auto simp: add_reference_def modify_block_def notify_def Block_AddRef_def Let_def split: option.splits)
next
  case False
  then have "pool_store (add_reference p pool) q = pool_store pool q"
    by (simp add: add_reference_def modify_block_def notify_def Let_def split: option.splits)
  then show ?thesis using same_but_references by metis
qed

lemma add_reference_times_store: "\<exists>n. pool_store (add_reference_times k p pool) q = (pool_store pool q)\<lparr>ref_count := n\<rparr>"
proof (induction k arbitrary: pool)
  case 0
  show ?case by (simp add: same_but_references)
next
  case (Suc k)
  show ?case using Suc[of "add_reference p pool"] add_reference_store[of p pool q] by auto
qed

lemma add_occurrences_store: "\<exists>n. pool_store (add_occurrence_references occs pool) q = (pool_store pool q)\<lparr>ref_count := n\<rparr>"
proof (induction occs pool rule: add_occurrence_references.induct)
  case (1 pool)
  show ?case by (simp add: same_but_references)
next
  case (2 bid n rest pool)
  then show ?case using add_reference_times_store[of n "the (pool_blocks pool ! bid)" pool q] by auto
qed

lemma AddRefs_store:
  assumes "observed (AddRefs hs) (pool, c) = Inr (pool', c')"
  shows "\<exists>n. pool_store pool' q = (pool_store pool q)\<lparr>ref_count := n\<rparr>"
  using observed_result[OF assms] add_occurrences_store[of _ pool q] by (auto simp: AddRefs_def split: sum.splits)

lemma drop_reference_slots: "drop_reference p pool = Inr (pool', freed) \<Longrightarrow> block_slots_used (pool_store pool' q) = block_slots_used (pool_store pool q)"
  by (auto simp: drop_reference_def ReleaseRef_def modify_block_def notify_def ClearIdentity_def Let_def split: if_splits)

lemma Release_slots:
  assumes "observed (Release h) (pool, c) = Inr (pool', c')"
  shows "block_slots_used (pool_store pool' q) = block_slots_used (pool_store pool q)"
  using observed_result[OF assms] by (auto simp: Release_def split: sum.splits option.splits if_splits dest: drop_reference_slots[of _ _ _ _ q])

lemma release_each_slots: "release_each ps (pool, c) = Inr (pool', c') \<Longrightarrow> block_slots_used (pool_store pool' q) = block_slots_used (pool_store pool q)"
proof (induction ps arbitrary: pool c)
  case (Cons p ps)
  then obtain pool1 c1 where "observed (Release (Some p)) (pool, c) = Inr (pool1, c1)" "release_each ps (pool1, c1) = Inr (pool', c')"
    by (cases "observed (Release (Some p)) (pool, c)") auto
  then show ?case using Cons.IH Release_slots by simp
qed simp

lemma free_loop_slots: "free_loop hs pool = Inr pool' \<Longrightarrow> block_slots_used (pool_store pool' q) = block_slots_used (pool_store pool q)"
proof (induction hs arbitrary: pool)
  case (Cons h hs)
  then obtain p pool1 b where "h = Some p" "drop_reference p pool = Inr (pool1, b)" "free_loop hs pool1 = Inr pool'"
    by (auto split: option.splits sum.splits)
  then show ?case using Cons.IH drop_reference_slots by simp
qed simp

section \<open>The tables under other references\<close>

lemma paged_ok_moved:
  assumes ok: "paged_ok extra S cache" and w: "wf_cache (\<lambda>p. held_by (cache_tables cache) p + extra' p) S (pool', c')"
    and bs: "pool_block_size pool' = pool_block_size (cache_pool cache)"
    and used: "\<And>p. 0 < held_by (cache_tables cache) p \<Longrightarrow> block_slots_used (pool_store pool' p) = block_slots_used (pool_store (cache_pool cache) p)"
    and held: "\<And>p. 0 < held_by (cache_tables cache) p \<Longrightarrow> block_slots_used (pool_store (cache_pool cache) p) < pool_block_size (cache_pool cache)
      \<Longrightarrow> extra' p = extra p"
  shows "paged_ok extra' S (set_pool (pool', c') cache)"
proof -
  let ?bs = "pool_block_size (cache_pool cache)"
  have pos: "0 < held_by (cache_tables cache) (table_blocks t ! j)" if t: "t \<in> set (cache_tables cache)" "j < length (table_blocks t)" for t j
    using held_by_zero[of "cache_tables cache" "table_blocks t ! j" t] t nth_mem[OF t(2)] by fastforce
  have "table_ok pool' (\<lambda>p. held_by (cache_tables cache) p + extra' p) S t" if t: "t \<in> set (cache_tables cache)" for t
  proof -
    note k = paged_okD(2)[OF ok t, unfolded table_ok_def Let_def]
    have "held_by (cache_tables cache) (table_blocks t ! j) + extra' (table_blocks t ! j) = 1"
      if j: "j < length (table_blocks t)" "table_committed_slots t div ?bs \<le> j" for j
    proof -
      have "table_committed_slots t - j * ?bs < ?bs"
        using dividend_less_div_times[OF paged_block_size[OF ok], of "table_committed_slots t"] mult_le_mono1[OF j(2), of ?bs] paged_block_size[OF ok] by linarith
      then have "block_slots_used (pool_store (cache_pool cache) (table_blocks t ! j)) < ?bs" using k j(1) by simp
      then show ?thesis using held[OF pos[OF t j(1)]] k j by simp
    qed
    then show ?thesis using k used[OF pos[OF t]] by (simp add: table_ok_def bs)
  qed
  then show ?thesis using w paged_okD(3-6)[OF ok] by (simp add: paged_ok_def set_pool_def cache_state_def list_all_iff)
qed

section \<open>Giving up\<close>

text \<open>The references that blocks taken and blocks adopted stand for.\<close>

abbreviation taken :: "bptr list \<Rightarrow> bptr list \<Rightarrow> bptr \<Rightarrow> nat" where
  "taken blocks adopted p \<equiv> count_list blocks p + count_list adopted p"

lemma rollback_block_size: "pool_block_size (RollbackReservedBlocks hs pool) = pool_block_size pool"
proof -
  have "pool_block_size (fst (rollback_loop hs pool b)) = pool_block_size pool" for b
    by (induction hs pool b rule: rollback_loop.induct) (auto simp: Let_def split: option.splits)
  from this[of False] show ?thesis by (cases "rollback_loop hs pool False") (simp add: RollbackReservedBlocks_def)
qed

lemma undo_ok:
  assumes ok: "paged_ok (taken bl ad) S cache"
    and bl: "\<forall>p \<in> set bl. held_by (cache_tables cache) p + taken bl ad p = 1 \<and> identity (pool_store (cache_pool cache) p) = None"
    and ad: "\<forall>p \<in> set ad. IsFull (pool_store (cache_pool cache) p)"
  obtains cache' where "undo_reservation bl [] ad cache = Inr cache'" and "paged_ok (\<lambda>_. 0) S cache'"
    and "cache_tables cache' = cache_tables cache" and "cache_index cache' = cache_index cache"
proof -
  let ?pool = "RollbackReservedBlocks (map Some bl) (cache_pool cache)" and ?h = "held_by (cache_tables cache)"
  have win: "cache_window_pool cache = None" by (rule paged_okD(4)[OF ok])
  note rb = rollback_kept[OF paged_okD(1)[OF ok] bl]
  have zero: "count_list ad p = 0 \<and> ?h p = 0" if "p \<in> set bl" for p
  proof -
    have "0 < count_list bl p" using that by (simp add: count_list_pos)
    then show ?thesis using bl that by fastforce
  qed
  have bs: "pool_block_size ?pool = pool_block_size (cache_pool cache)"
    by (rule rollback_block_size)
  have "\<forall>p. count_list ad p \<le> (if p \<in> set bl then 0 else ?h p + taken bl ad p)" using zero by simp
  then obtain pool' c' where r: "release_each ad (?pool, cache_prefix cache) = Inr (pool', c')"
    "wf_cache (\<lambda>p. (if p \<in> set bl then 0 else ?h p + taken bl ad p) - count_list ad p) S (pool', c')" "pool_block_size pool' = pool_block_size ?pool"
    using release_each_kept[OF rb(1), of ad] by blast
  have "(\<lambda>p. (if p \<in> set bl then 0 else ?h p + taken bl ad p) - count_list ad p) = (\<lambda>p. ?h p + 0)"
    using zero by (auto simp: count_notin)
  with r(2) have w: "wf_cache (\<lambda>p. ?h p + 0) S (pool', c')" by simp
  have "paged_ok (\<lambda>_. 0) S (set_pool (pool', c') cache)"
  proof (rule paged_ok_moved[OF ok w])
    show "pool_block_size pool' = pool_block_size (cache_pool cache)" using r(3) bs by simp
    fix p
    show "block_slots_used (pool_store pool' p) = block_slots_used (pool_store (cache_pool cache) p)" 
      using release_each_slots[OF r(1), of p] rb(2) by simp
    assume p: "0 < ?h p" "block_slots_used (pool_store (cache_pool cache) p) < pool_block_size (cache_pool cache)"
    have "p \<notin> set bl" using zero[of p] p(1) by auto
    moreover have "p \<notin> set ad" using ad p held_block(2)[OF ok, of p] by (auto simp: IsFull_def)
    ultimately show "0 = taken bl ad p" by (simp add: count_notin)
  qed
  then show ?thesis using that[of "set_pool (pool', c') cache"] r(1) win
    by (simp add: undo_reservation_def cache_state_def set_pool_def Let_def)
qed

section \<open>Taking blocks\<close>

lemma adopt_ok:
  assumes ok: "paged_ok (\<lambda>_. 0) S cache" and ad: "\<forall>p \<in> set ad. Owns (cache_pool cache) (Some p) \<and> IsShareable (pool_store (cache_pool cache) p)"
  obtains pool' c' where "(if ad \<noteq> [] then observed (AddRefs (map Some ad)) (cache_state cache) else Inr (cache_state cache)) = Inr (pool', c')"
    and "paged_ok (taken [] ad) S (set_pool (pool', c') cache)" and "pool_block_size pool' = pool_block_size (cache_pool cache)"
    and "\<And>p. \<exists>n. pool_store pool' p = (pool_store (cache_pool cache) p)\<lparr>ref_count := n\<rparr>"
proof (cases "ad = []")
  case True
  then show ?thesis using ok by (intro that[of "cache_pool cache" "cache_prefix cache"]) (simp_all add: cache_state_def set_pool_def same_but_references)
next
  case False
  obtain pool' c' where r: "observed (AddRefs (map Some ad)) (cache_pool cache, cache_prefix cache) = Inr (pool', c')"
    "wf_cache (\<lambda>p. held_by (cache_tables cache) p + 0 + count_list ad p) S (pool', c')" "pool_block_size pool' = pool_block_size (cache_pool cache)"
    by (rule AddRefs_kept[OF paged_okD(1)[OF ok], of ad]) (use ad in auto)
  have st: "\<exists>n. pool_store pool' p = (pool_store (cache_pool cache) p)\<lparr>ref_count := n\<rparr>" for p by (rule AddRefs_store[OF r(1)])
  have "paged_ok (taken [] ad) S (set_pool (pool', c') cache)"
  proof (rule paged_ok_moved[OF ok _ r(3)])
    show "wf_cache (\<lambda>p. held_by (cache_tables cache) p + taken [] ad p) S (pool', c')" using r(2) by simp
    fix p
    show "block_slots_used (pool_store pool' p) = block_slots_used (pool_store (cache_pool cache) p)" using st[of p] by auto
    assume p: "0 < held_by (cache_tables cache) p" "block_slots_used (pool_store (cache_pool cache) p) < pool_block_size (cache_pool cache)"
    then have "p \<notin> set ad" using ad held_block(2)[OF ok, of p] by (auto simp: IsShareable_def IsFull_def)
    then show "taken [] ad p = 0" by (simp add: count_notin)
  qed
  then show ?thesis using that r(1,3) st False by (simp add: cache_state_def)
qed

lemma BlocksNeeded_whole: "0 < pool_block_size pool \<Longrightarrow> BlocksNeeded pool (n * pool_block_size pool) = n"
  by (simp add: BlocksNeeded_def)

lemma allocated_ok:
  assumes ok: "paged_ok extra S cache" and al: "ReserveBlocks (n * pool_block_size (cache_pool cache)) (cache_pool cache) = Inr (pool', bl)"
  shows "paged_ok (\<lambda>p. count_list bl p + extra p) S (cache\<lparr>cache_pool := pool'\<rparr>)" and "length bl = n"
    and "pool_block_size pool' = pool_block_size (cache_pool cache)"
    and "p \<in> set bl \<Longrightarrow> held_by (cache_tables cache) p + (count_list bl p + extra p) = 1 \<and> identity (pool_store pool' p) = None \<and> block_slots_used (pool_store pool' p) = 0"
    and "0 < extra p \<Longrightarrow> pool_store pool' p = pool_store (cache_pool cache) p"
proof -
  let ?pool = "cache_pool cache" and ?h = "held_by (cache_tables cache)"
  note al' = al[unfolded ReserveBlocks_def]
  note wf = paged_okD(1)[OF ok]
  note ow = allocation_owns[OF wf_cacheD(1)[OF wf] al'] and fr = allocate_frame[OF al']
  have r: "allocation_result (n * pool_block_size ?pool) False ?pool pool' bl" using AllocateBlocksMarked_result[OF wf_cacheD(1)[OF wf] al'] by simp
  have owned: "Owns ?pool (Some p)" if "0 < ?h p + extra p" for p by (rule held_block(1)[OF ok that])
  have zero: "?h p + extra p = 0" if "p \<in> set bl" for p using ow(2)[OF that] owned[of p] neq0_conv by blast
  have "paged_ok (\<lambda>p. count_list bl p + extra p) S (set_pool (pool', cache_prefix cache) cache)"
  proof (rule paged_ok_moved[OF ok _ fr(2)])
    show "wf_cache (\<lambda>p. ?h p + (count_list bl p + extra p)) S (pool', cache_prefix cache)"
      using allocation_kept[OF wf al'] by (simp add: ac_simps)
    fix p assume p: "0 < ?h p"
    show "block_slots_used (pool_store pool' p) = block_slots_used (pool_store ?pool p)" using ow(3)[OF owned[of p]] p by simp
    have "p \<notin> set bl" using zero[of p] p by auto
    then show "count_list bl p + extra p = extra p" by (simp add: count_notin)
  qed
  then show "paged_ok (\<lambda>p. count_list bl p + extra p) S (cache\<lparr>cache_pool := pool'\<rparr>)" by (simp add: set_pool_def)
  show "length bl = n" using r BlocksNeeded_whole[OF paged_block_size[OF ok], of n] by (simp add: allocation_result_def)
  show "pool_block_size pool' = pool_block_size ?pool" by (rule fr(2))
  show "pool_store pool' p = pool_store ?pool p" if "0 < extra p" using ow(3)[OF owned[of p]] that by simp
  show "?h p + (count_list bl p + extra p) = 1 \<and> identity (pool_store pool' p) = None \<and> block_slots_used (pool_store pool' p) = 0" if p: "p \<in> set bl"
  proof -
    have d: "distinct bl" and s: "sum_list (map (\<lambda>h. block_slots_used (pool_store pool' h)) bl) = 0" using r by (simp_all add: allocation_result_def)
    have "block_slots_used (pool_store pool' p) = 0" using s p by (simp add: sum_list_eq_0_iff)
    moreover have "identity (pool_store pool' p) = None" using ow(2)[OF p] by (simp add: fresh_handle_def)
    ultimately show ?thesis using count_list_distinct[OF d p] zero[OF p] by simp
  qed
qed

lemma reclaim_paged:
  assumes ok: "paged_ok extra S cache" and w: "wf_cache (\<lambda>p. held_by (cache_tables cache) p + extra p) S w'" and sh: "shrunk (cache_state cache) w'"
  shows "paged_ok extra S (set_pool w' cache)" and "0 < extra p \<Longrightarrow> pool_store (fst w') p = pool_store (cache_pool cache) p"
proof -
  obtain pool' c' where w': "w' = (pool', c')" by fastforce
  have same: "pool_store pool' p = pool_store (cache_pool cache) p" if "0 < held_by (cache_tables cache) p + extra p" for p
  proof -
    have "Owns pool' (Some p)" using refs_okD(2)[OF wf_cacheD(5)[OF w[unfolded w']], of p] that by fastforce
    then show ?thesis using sh by (simp add: shrunk_def w' cache_state_def)
  qed
  show "paged_ok extra S (set_pool w' cache)"
    unfolding w' by (rule paged_ok_moved[OF ok w[unfolded w']]) (use sh same in \<open>simp_all add: shrunk_def cache_state_def w'\<close>)
  show "0 < extra p \<Longrightarrow> pool_store (fst w') p = pool_store (cache_pool cache) p" using same by (simp add: w')
qed

text \<open>The blocks that the pool can give: the free ones, and the indexed ones that nobody uses and no checkpoint pins.\<close>

definition room_for :: "CheckpointOwners \<Rightarrow> PagedCache \<Rightarrow> nat" where
  "room_for owners cache = AvailableBlocks (cache_pool cache) + ReclaimableBlocks owners (cache_prefix cache)"

lemma make_room_ok:
  assumes ok: "paged_ok extra S cache"
  obtains k w' where "(if n > AvailableBlocks (cache_pool cache) then Reclaim owners (n - AvailableBlocks (cache_pool cache)) (cache_state cache)
      else Inr (0, cache_state cache)) = Inr (k, w')"
    and "paged_ok extra S (set_pool w' cache)" and "pool_block_size (fst w') = pool_block_size (cache_pool cache)"
    and "n \<le> AvailableBlocks (fst w') \<longleftrightarrow> n \<le> room_for owners cache"
    and "\<And>p. 0 < extra p \<Longrightarrow> pool_store (fst w') p = pool_store (cache_pool cache) p"
proof (cases "n > AvailableBlocks (cache_pool cache)")
  case False
  then show ?thesis using ok by (intro that[of 0 "cache_state cache"]) (simp_all add: room_for_def cache_state_def set_pool_def)
next
  case True
  let ?m = "n - AvailableBlocks (cache_pool cache)" and ?k = "ReclaimableBlocks owners (cache_prefix cache)"
  obtain w' where w: "Reclaim owners ?m (cache_state cache) = Inr (min ?m ?k, w')" "wf_cache (\<lambda>p. held_by (cache_tables cache) p + extra p) S w'"
    "shrunk (cache_state cache) w'" "AvailableBlocks (fst w') = AvailableBlocks (cache_pool cache) + min ?m ?k"
    using Reclaim_ok[of "\<lambda>p. held_by (cache_tables cache) p + extra p" S "cache_state cache" owners ?m] paged_okD(1)[OF ok]
    by (auto simp: cache_state_def)
  show ?thesis
  proof (rule that[of "min ?m ?k" w'])
    show "n \<le> AvailableBlocks (fst w') \<longleftrightarrow> n \<le> room_for owners cache" unfolding room_for_def w(4) by linarith
  qed (use True w(1,3) reclaim_paged[OF ok w(2,3)] in \<open>simp_all add: shrunk_def cache_state_def\<close>)
qed

lemma CheckedBlockSlots_eq: "0 < bs \<Longrightarrow> CheckedBlockSlots n bs = (if n * bs \<le> size_max then Inr (n * bs) else Inl SizeOverflow)"
  by (simp add: CheckedBlockSlots_def less_eq_div_iff_mult_less_eq[symmetric] not_less)

lemma acquire_cases:
  assumes ok: "paged_ok extra S cache" and aq: "acquire owners n k cache = (cache', bl, res)"
  obtains w' where "paged_ok extra S (set_pool w' cache)" and "pool_block_size (fst w') = pool_block_size (cache_pool cache)"
      and "\<And>p. 0 < extra p \<Longrightarrow> pool_store (fst w') p = pool_store (cache_pool cache) p"
      and "cache' = set_pool w' cache" and "bl = []"
      and "\<not> (n \<le> room_for owners cache \<and> n * pool_block_size (cache_pool cache) \<le> size_max)"
      and "res = Inl (if n \<le> room_for owners cache then SizeOverflow else NoFreeBlocks)"
  | w' pool' where "paged_ok extra S (set_pool w' cache)" and "pool_block_size (fst w') = pool_block_size (cache_pool cache)"
      and "\<And>p. 0 < extra p \<Longrightarrow> pool_store (fst w') p = pool_store (cache_pool cache) p"
      and "n \<le> room_for owners cache \<and> n * pool_block_size (cache_pool cache) \<le> size_max" and "ReserveBlocks (n * pool_block_size (cache_pool cache)) (fst w') = Inr (pool', bl)"
      and "cache' = (set_pool w' cache)\<lparr>cache_pool := pool'\<rparr>" and "res = Inr []"
proof -
  let ?bs = "pool_block_size (cache_pool cache)"
  obtain j w' where w: "(if n > AvailableBlocks (cache_pool cache) then Reclaim owners (n - AvailableBlocks (cache_pool cache)) (cache_state cache)
      else Inr (0, cache_state cache)) = Inr (j, w')"
    "paged_ok extra S (set_pool w' cache)" "pool_block_size (fst w') = ?bs" "n \<le> AvailableBlocks (fst w') \<longleftrightarrow> n \<le> room_for owners cache"
    "\<And>p. 0 < extra p \<Longrightarrow> pool_store (fst w') p = pool_store (cache_pool cache) p"
    by (rule make_room_ok[OF ok, of n owners]) blast
  have sp: "cache_pool (set_pool w' cache) = fst w'" by (simp add: set_pool_def)
  have win: "cache_window_pool ((set_pool w' cache)\<lparr>cache_pool := q\<rparr>) = None" for q using paged_okD(4)[OF w(2)] by simp
  have bs: "0 < ?bs" by (rule paged_block_size[OF ok])
  have ov: "CheckedBlockSlots n ?bs = (if n * ?bs \<le> size_max then Inr (n * ?bs) else Inl SizeOverflow)"
    by (rule CheckedBlockSlots_eq[OF bs])
  show ?thesis
  proof (cases "n \<le> AvailableBlocks (fst w') \<and> n * ?bs \<le> size_max")
    case True
    have "BlocksNeeded (fst w') (n * ?bs) = n" using BlocksNeeded_whole[of "fst w'" n] w(3) bs by simp
    moreover have "wf_pool (fst w')" using wf_cacheD(1)[OF paged_okD(1)[OF w(2)]] by (simp add: sp)
    ultimately obtain pool' hs where al: "ReserveBlocks (n * ?bs) (fst w') = Inr (pool', hs)"
      using AllocateBlocksMarked_success[of "fst w'" "n * ?bs" False] True unfolding ReserveBlocks_def by metis
    have "acquire owners n k cache = ((set_pool w' cache)\<lparr>cache_pool := pool'\<rparr>, hs, Inr [])"
      using True by (simp add: acquire_def w(1,3) ov al win Let_def)
    then show ?thesis using that(2)[OF w(2,3,5)] w(4) True al aq by simp
  next
    case False
    have "acquire owners n k cache = (set_pool w' cache, [], Inl (if n \<le> AvailableBlocks (fst w') then SizeOverflow else NoFreeBlocks))"
      using False by (auto simp: acquire_def w(1,3) ov Let_def)
    then show ?thesis using that(1)[OF w(2,3,5)] w(4) False aq by simp
  qed
qed

lemma acquire_ok:
  assumes ok: "paged_ok extra S cache" and aq: "acquire owners n k cache = (cache', bl, res)"
  shows "paged_ok (\<lambda>p. count_list bl p + extra p) S cache'" and "cache_tables cache' = cache_tables cache" and "cache_index cache' = cache_index cache"
    and "pool_block_size (cache_pool cache') = pool_block_size (cache_pool cache)" and "0 < extra p \<Longrightarrow> pool_store (cache_pool cache') p = pool_store (cache_pool cache) p"
    and "p \<in> set bl \<Longrightarrow> held_by (cache_tables cache') p + (count_list bl p + extra p) = 1 \<and> identity (pool_store (cache_pool cache') p) = None
        \<and> block_slots_used (pool_store (cache_pool cache') p) = 0"
    and "res = (if \<not> n \<le> room_for owners cache then Inl NoFreeBlocks
      else if n * pool_block_size (cache_pool cache) \<le> size_max then Inr [] else Inl SizeOverflow)" and "res = Inr ws \<Longrightarrow> length bl = n"
proof -
  have "paged_ok (\<lambda>p. count_list bl p + extra p) S cache' \<and> cache_tables cache' = cache_tables cache \<and> cache_index cache' = cache_index cache
    \<and> pool_block_size (cache_pool cache') = pool_block_size (cache_pool cache) \<and> (0 < extra p \<longrightarrow> pool_store (cache_pool cache') p = pool_store (cache_pool cache) p)
    \<and> (p \<in> set bl \<longrightarrow> held_by (cache_tables cache') p + (count_list bl p + extra p) = 1 \<and> identity (pool_store (cache_pool cache') p) = None
        \<and> block_slots_used (pool_store (cache_pool cache') p) = 0)
    \<and> (res = Inr ws \<longrightarrow> length bl = n)"
    using acquire_cases[OF ok aq]
  proof cases
    case (2 w' pool')
    have sp: "cache_pool (set_pool w' cache) = fst w'" "cache_tables (set_pool w' cache) = cache_tables cache" "cache_index (set_pool w' cache) = cache_index cache"
      by (simp_all add: set_pool_def)
    note a = allocated_ok[OF 2(1), unfolded sp, of n pool' bl, unfolded 2(2), OF 2(5)]
    show ?thesis using a(1-3) a(4)[of p] a(5)[of p] 2(3,6,7) sp by simp
  qed (simp_all add: set_pool_def)
  then show "paged_ok (\<lambda>p. count_list bl p + extra p) S cache'" "cache_tables cache' = cache_tables cache" "cache_index cache' = cache_index cache"
    "pool_block_size (cache_pool cache') = pool_block_size (cache_pool cache)" "0 < extra p \<Longrightarrow> pool_store (cache_pool cache') p = pool_store (cache_pool cache) p"
    "p \<in> set bl \<Longrightarrow> held_by (cache_tables cache') p + (count_list bl p + extra p) = 1 \<and> identity (pool_store (cache_pool cache') p) = None
        \<and> block_slots_used (pool_store (cache_pool cache') p) = 0" "res = Inr ws \<Longrightarrow> length bl = n" by blast+
  show "res = (if \<not> n \<le> room_for owners cache then Inl NoFreeBlocks
      else if n * pool_block_size (cache_pool cache) \<le> size_max then Inr [] else Inl SizeOverflow)"
    using acquire_cases[OF ok aq] by cases simp_all
qed

end
