(* ===== verification/Paged_Plan.thy ===== *)
theory Paged_Plan
  imports Paged_Reserve
begin

text \<open>
  What the scan of the requests of a reservation establishes, and that a reservation that is made is ready to be committed.
\<close>

section \<open>Planning\<close>

lemma Insert_True:
  assumes wf: "wf_index m" and ins: "Insert k v m = (m', True)"
  shows "k \<noteq> 0" and "Find k m = None" and "wf_index m'" and "Find j m' = (if j = k then Some v else Find j m)"
proof -
  have a: "k \<noteq> 0 \<and> Find k m = None \<and> index_size m \<noteq> index_max_entries m" using request_map.insert_refused[OF wf, of k v] ins by (metis Pair_inject)
  then have "index_size m < index_max_entries m" using request_map.used_dom[OF wf] by auto
  with a obtain m1 where "Insert k v m = (m1, True)" "wf_index m1" "(\<lambda>j. Find j m1) = (\<lambda>j. Find j m)(k \<mapsto> v)"
    using request_map.insert_ok[OF wf, of k v] by auto
  with ins a show "k \<noteq> 0" "Find k m = None" "wf_index m'" "Find j m' = (if j = k then Some v else Find j m)" by (auto simp: fun_eq_iff)
qed

lemma new_index_empty: "new_index n = Inr m \<Longrightarrow> wf_index m \<and> (\<forall>k. Find k m = None)"
  using new_index_correct[of n] by (auto simp: split: if_splits)

lemma index_tables_ok:
  "index_tables tix ts n m = Inr m' \<Longrightarrow> wf_index m \<Longrightarrow> wf_index m' \<and> (\<forall>i < length ts. Find (table_request_id (ts ! i)) m' = Some (n + i))
    \<and> (\<forall>k. k \<notin> table_request_id ` set ts \<longrightarrow> Find k m' = Find k m) \<and> (\<forall>k. Find k m \<noteq> None \<longrightarrow> Find k m' = Find k m)"
proof (induction ts arbitrary: n m)
  case (Cons t ts)
  obtain m1 b where i: "Insert (table_request_id t) n m = (m1, b)" by fastforce
  with Cons.prems(1) have b: "b" "index_tables tix ts (Suc n) m1 = Inr m'" by (auto simp: Let_def split: if_splits)
  note f = Insert_True[OF Cons.prems(2) i[unfolded b(1)[THEN eqTrueI]]]
  note r = Cons.IH[OF b(2) f(3)]
  have "Find (table_request_id ((t # ts) ! j)) m' = Some (n + j)" if "j < length (t # ts)" for j
    using that r f(4)[of "table_request_id t"] by (cases j) auto
  moreover have "Find k m' = Find k m" if "Find k m \<noteq> None" for k using that f(2) f(4)[of k] r by metis
  ultimately show ?case using r f(4) by auto
qed simp

lemma resident_same:
  assumes "index_ok ts tix" and "index_tables tix ts 0 m = Inr m'" and "wf_index m \<and> (\<forall>k. Find k m = None)"
  shows "Find k m' = Find k tix"
proof -
  note r = index_tables_ok[OF assms(2)] assms(3)
  show ?thesis
  proof (cases "Find k tix")
    case None
    then have "k \<notin> table_request_id ` set ts" using index_ok_Find[OF assms(1), of k] by (metis imageE in_set_conv_nth option.distinct(1))
    then show ?thesis using r None by simp
  next
    case (Some i)
    then show ?thesis using r index_ok_Find[OF assms(1), of k i] by auto
  qed
qed

lemma check_match_ok:
  assumes "check_match pool None request = Inr ad" and "0 < pool_block_size pool"
  shows "\<forall>p \<in> set ad. Owns pool (Some p) \<and> IsShareable (pool_store pool p)" and "ad \<noteq> [] \<Longrightarrow> req_newly_admitted request"
  using assms by (auto simp: check_match_def CheckedBlockSlots_eq list_all_iff split: option.splits if_splits)

text \<open>What the scan of one request adds: a delta for the table \<open>t\<close>, with the adopted blocks \<open>ad\<close>.\<close>

definition scanned ::
  "PagedCache \<Rightarrow> BlockIdentity set \<Rightarrow> RequestIndex \<Rightarrow> reserve_scan \<Rightarrow> reserve_scan \<Rightarrow> PagedCacheReservationDelta \<Rightarrow> PagedCacheBlockTable \<Rightarrow> bptr list \<Rightarrow> bool" where
  "scanned cache S resident s s' d t ad \<longleftrightarrow>
     (let bs = pool_block_size (cache_pool cache) in
      scan_deltas s' = scan_deltas s @ [d] \<and> scan_adopted s' = scan_adopted s @ ad
      \<and> scan_new_tables s' = scan_new_tables s @ (if delta_newly_admitted d then [t] else [])
      \<and> scan_reserved_count s' = scan_reserved_count s + delta_reserved_count d \<and> scan_window_count s' = scan_window_count s
      \<and> scan_advance_count s' = scan_advance_count s + delta_advance_count d
      \<and> Insert (delta_request_id d) (length (scan_deltas s)) (scan_delta_index s) = (scan_delta_index s', True)
      \<and> delta_request_id d \<noteq> 0 \<and> delta_reserved_offset d = scan_reserved_count s \<and> delta_window_offset d = scan_window_count s \<and> delta_window_count d = 0
      \<and> delta_advance_offset d = scan_advance_count s \<and> delta_adopted_offset d = length (scan_adopted s) \<and> delta_adopted_count d = length ad
      \<and> delta_committed_slots d \<le> delta_target_slots d
      \<and> delta_advance_count d = delta_target_slots d div bs + (if delta_target_slots d mod bs \<noteq> 0 then 1 else 0) - delta_committed_slots d div bs
      \<and> table_request_id t = delta_request_id d \<and> table_committed_slots t = delta_committed_slots d
      \<and> (if delta_newly_admitted d
         then Find (delta_request_id d) resident = None \<and> table_blocks t = ad \<and> delta_committed_slots d = length ad * bs
           \<and> table_window_blocks t = [] \<and> known S (table_sealed_identity t)
         else (\<exists>i < length (cache_tables cache). Find (delta_request_id d) resident = Some i \<and> t = cache_tables cache ! i)
           \<and> table_generation t = delta_table_generation d \<and> ad = [])
      \<and> delta_target_slots d \<le> (length (table_blocks t) + delta_reserved_count d) * bs
      \<and> (\<forall>p \<in> set ad. Owns (cache_pool cache) (Some p) \<and> IsShareable (pool_store (cache_pool cache) p)))"

lemma target_covered:
  assumes "0 < pool_block_size pool" and "target \<le> reserved"
  shows "target \<le> (n + BlocksNeeded pool (reserved - n * pool_block_size pool)) * pool_block_size pool"
  using BlocksNeeded_covers(1)[OF assms(1), of "reserved - n * pool_block_size pool"] assms(2) by (simp add: add_mult_distrib)

lemma sealed_known:
  assumes "wf_cache held S (pool, c)" and "\<forall>p \<in> set ad. Owns pool (Some p) \<and> IsShareable (pool_store pool p)"
  shows "known S (if ad = [] then None else identity (pool_store pool (last ad)))"
proof (cases "ad = []")
  case False
  then have l: "Owns pool (Some (last ad))" "IsShareable (pool_store pool (last ad))" using assms(2) last_in_set by blast+
  then obtain x where "identity (pool_store pool (last ad)) = Some x" by (auto simp: IsShareable_def HasIdentity_def)
  with indexed_identity[OF assms(1) l(1) this] False show ?thesis by auto
qed simp

lemma check_Inr: "check ok e = Inr u \<longleftrightarrow> ok"
  by (simp add: check_def)

lemma CheckedAdd_Inr: "CheckedAdd a b = Inr c \<longleftrightarrow> c = a + b \<and> b \<le> size_max - a"
  by (auto simp: CheckedAdd_def)

lemma CheckedBlockSlots_Inr: "0 < bs \<Longrightarrow> CheckedBlockSlots n bs = Inr c \<longleftrightarrow> c = n * bs \<and> n * bs \<le> size_max"
  by (auto simp: CheckedBlockSlots_eq)

lemmas plan_iffs = bind_result_Inr_iff check_Inr CheckedAdd_Inr CheckedBlockSlots_Inr

lemma reserved_bound:
  assumes bs: "0 < pool_block_size pool" and n: "n * pool_block_size pool \<le> size_max" and r: "reserved + pool_block_size pool \<le> size_max"
  shows "(n + BlocksNeeded pool (reserved - n * pool_block_size pool)) * pool_block_size pool \<le> size_max"
proof (cases "reserved - n * pool_block_size pool = 0")
  case True
  then show ?thesis using n BlocksNeeded_covers(3)[OF bs] by simp
next
  case False
  let ?k = "BlocksNeeded pool (reserved - n * pool_block_size pool)"
  have "(?k - 1) * pool_block_size pool < reserved - n * pool_block_size pool" using BlocksNeeded_covers(2)[OF bs, of "reserved - n * pool_block_size pool"] False by simp
  moreover have "?k * pool_block_size pool \<le> (?k - 1) * pool_block_size pool + pool_block_size pool" by (cases ?k) simp_all
  ultimately show ?thesis using r unfolding add_mult_distrib by linarith
qed

lemma scan_request_ok:
  assumes ok: "paged_ok (\<lambda>_. 0) S cache" and res: "\<And>k. Find k resident = Find k (cache_index cache)" and run: "scan_request cache resident q s = Inr s'"
  obtains d t ad where "scanned cache S resident s s' d t ad" and "delta_request_id d = req_request_id q" and "delta_target_slots d = req_target_slots q"
    and "delta_newly_admitted d = req_newly_admitted q"
    and "max (req_reserved_slots q) (req_target_slots q) + pool_block_size (cache_pool cache) \<le> size_max
      \<Longrightarrow> (length (table_blocks t) + delta_reserved_count d) * pool_block_size (cache_pool cache) \<le> size_max"
proof -
  let ?id = "req_request_id q" and ?pool = "cache_pool cache"
  obtain index1 b where ins: "Insert ?id (length (scan_deltas s)) (scan_delta_index s) = (index1, b)" by fastforce
  have at: "i < length (cache_tables cache) \<and> table_request_id (cache_tables cache ! i) = ?id" if "Find ?id resident = Some i" for i
    using index_ok_Find[OF paged_okD(3)[OF ok], of ?id i] that unfolding res by simp
  then have find: "FindCommittedTable resident (cache_tables cache) ?id = Inr (Find ?id resident)"
    by (cases "Find ?id resident") (auto simp: FindCommittedTable_def)
  have win: "cache_window_pool cache = None" "cache_ring_blocks cache = 0" using paged_okD(4,5)[OF ok] .
  note bs = paged_block_size[OF ok]
  obtain table where table: "table = map_option (\<lambda>i. cache_tables cache ! i) (Find ?id resident)" by simp
  define ad where "ad = drop (length (scan_adopted s)) (scan_adopted s')"
  define d where "d = plan_delta cache q table ad s"
  define t where "t = (case table of Some t \<Rightarrow> t | None \<Rightarrow> plan_table ?pool ?id ad)"
  have new: "req_newly_admitted q \<longleftrightarrow> Find ?id resident = None" "check_match ?pool None q = Inr ad" "b" "?id \<noteq> 0"
    and le: "committed_slots_of ?pool table ad \<le> req_target_slots q" "committed_blocks_of table ad * pool_block_size ?pool \<le> size_max"
    and s': "scan_delta_index s' = index1" "scan_deltas s' = scan_deltas s @ [d]" "scan_adopted s' = scan_adopted s @ ad"
      "scan_new_tables s' = scan_new_tables s @ (if table = None then [plan_table ?pool ?id ad] else [])"
      "scan_reserved_count s' = scan_reserved_count s + delta_reserved_count d" "scan_window_count s' = scan_window_count s"
      "scan_advance_count s' = scan_advance_count s + delta_advance_count d"
    using run unfolding scan_request_def Let_def ins find prod.case bind_result_simps table[symmetric] win
    by (auto simp: bind_result_Inr_iff check_Inr CheckedAdd_Inr CheckedBlockSlots_Inr[OF bs] d_def ad_def table split: if_splits)
  have own: "\<forall>p \<in> set ad. Owns ?pool (Some p) \<and> IsShareable (pool_store ?pool p)" by (rule check_match_ok(1)[OF new(2) bs])
  have none: "ad = []" if "Find ?id resident \<noteq> None" using check_match_ok(2)[OF new(2) bs] new(1) that by auto
  have len: "committed_blocks_of table ad = length (table_blocks t)" by (simp add: committed_blocks_of_def t_def plan_table_def new_table_def split: option.splits)
  have d: "delta_request_id d = ?id" "delta_committed_slots d = committed_slots_of ?pool table ad" "delta_target_slots d = req_target_slots q"
    "delta_reserved_count d = BlocksNeeded ?pool (max (req_reserved_slots q) (req_target_slots q) - length (table_blocks t) * pool_block_size ?pool)"
    "delta_newly_admitted d \<longleftrightarrow> Find ?id resident = None" "delta_adopted_count d = length ad" "delta_adopted_offset d = length (scan_adopted s)"
    "delta_reserved_offset d = scan_reserved_count s" "delta_window_offset d = scan_window_count s" "delta_window_count d = 0" "delta_advance_offset d = scan_advance_count s"
    "delta_advance_count d = req_target_slots q div pool_block_size ?pool + (if req_target_slots q mod pool_block_size ?pool \<noteq> 0 then 1 else 0)
      - committed_slots_of ?pool table ad div pool_block_size ?pool"
    "delta_table_generation d = (case table of Some t \<Rightarrow> table_generation t | None \<Rightarrow> 0)"
    using win new(1) by (simp_all add: d_def plan_delta_def len Let_def)
  have t: "table_request_id t = ?id" "table_committed_slots t = committed_slots_of ?pool table ad"
    using at by (auto simp: t_def table plan_table_def new_table_def committed_slots_of_def split: option.splits)
  have fresh: "table_blocks t = ad \<and> committed_slots_of ?pool table ad = length ad * pool_block_size ?pool \<and> table_window_blocks t = [] \<and> known S (table_sealed_identity t)"
    if "Find ?id resident = None"
    using that sealed_known[OF paged_okD(1)[OF ok] own] by (simp add: t_def table plan_table_def new_table_def committed_slots_of_def)
  have old: "\<exists>i < length (cache_tables cache). Find ?id resident = Some i \<and> t = cache_tables cache ! i" "table_generation t = delta_table_generation d"
    if "Find ?id resident \<noteq> None" using that at by (auto simp: t_def table d(13))
  have target_ok: "req_target_slots q \<le> (length (table_blocks t) + delta_reserved_count d) * pool_block_size ?pool"
    unfolding d(4) by (rule target_covered[OF bs]) simp
  have "table = None \<longleftrightarrow> Find ?id resident = None" by (simp add: table)
  then have nt: "scan_new_tables s' = scan_new_tables s @ (if delta_newly_admitted d then [t] else [])" using s'(4) by (auto simp: d(5) t_def)
  have "scanned cache S resident s s' d t ad"
    unfolding scanned_def Let_def nt s'(1-3,5-7) d(1-3,5-12) t using ins new(3,4) le(1) target_ok fresh old none own by auto
  then show ?thesis
    by (rule that) (use d new(1) le(2) reserved_bound[OF bs, of "length (table_blocks t)"] len in auto)
qed

section \<open>From the plan to the reservation\<close>

lemma BlocksNeeded_le: "0 < pool_block_size pool \<Longrightarrow> n \<le> k * pool_block_size pool \<Longrightarrow> BlocksNeeded pool n \<le> k"
proof (cases "n = 0")
  case True
  then show "0 < pool_block_size pool \<Longrightarrow> BlocksNeeded pool n \<le> k" using BlocksNeeded_covers(3) by simp
next
  case False
  assume a: "0 < pool_block_size pool" "n \<le> k * pool_block_size pool"
  have "(BlocksNeeded pool n - 1) * pool_block_size pool < n" using BlocksNeeded_covers(2)[OF a(1), of n] False by simp
  then have "(BlocksNeeded pool n - 1) * pool_block_size pool < k * pool_block_size pool" using a(2) by (rule less_le_trans)
  then have "BlocksNeeded pool n - 1 < k" by simp
  then show ?thesis by linarith
qed

text \<open>The parts of the list of written blocks that the deltas claim, one after the other.\<close>

fun advance_offsets :: "nat \<Rightarrow> PagedCacheReservationDelta list \<Rightarrow> bool" where
  "advance_offsets a [] = True"
| "advance_offsets a (d # ds) \<longleftrightarrow> delta_advance_offset d = a \<and> advance_offsets (a + delta_advance_count d) ds"

definition advance_sized :: "BlockPool \<Rightarrow> PagedCacheReservationDelta \<Rightarrow> bool" where
  "advance_sized pool d \<longleftrightarrow> delta_committed_slots d div pool_block_size pool + delta_advance_count d = BlocksNeeded pool (delta_target_slots d)"

text \<open>The slots of a request, rounded up to whole blocks, are a \<open>size_t\<close>.\<close>

definition bounded :: "PagedCache \<Rightarrow> PagedCacheReservationRequest \<Rightarrow> bool" where
  "bounded cache q \<longleftrightarrow> max (req_reserved_slots q) (req_target_slots q) + pool_block_size (cache_pool cache) \<le> size_max"

lemma scanned_step:
  assumes sc: "scanned cache S resident s s1 d t ad" and bs: "0 < pool_block_size (cache_pool cache)" and wf: "wf_index (scan_delta_index s)"
    and r: "scan_adopted s1 @ ad2 = adopted_blocks r" "scan_new_tables s1 @ ts2 = new_tables r" "scan_reserved_count s1 \<le> length (reserved_blocks r)"
      "resident_table_index r = resident" and w: "scan_window_count s = 0"
    and c: "cache_tables cache' = cache_tables cache" "pool_block_size (cache_pool cache') = pool_block_size (cache_pool cache)"
  shows "publishable r S cache' (scan_reserved_count s) (length (scan_adopted s)) (length (scan_new_tables s)) d t"
    and "delta_window_offset d = 0" and "advance_sized (cache_pool cache) d" and "wf_index (scan_delta_index s1)"
    and "Find k (scan_delta_index s1) = (if k = delta_request_id d then Some (length (scan_deltas s)) else Find k (scan_delta_index s))"
    and "Find (delta_request_id d) (scan_delta_index s) = None"
proof -
  note f = sc[unfolded scanned_def Let_def]
  have i: "Insert (delta_request_id d) (length (scan_deltas s)) (scan_delta_index s) = (scan_delta_index s1, True)" using f by blast
  show "wf_index (scan_delta_index s1)" "Find (delta_request_id d) (scan_delta_index s) = None"
    "Find k (scan_delta_index s1) = (if k = delta_request_id d then Some (length (scan_deltas s)) else Find k (scan_delta_index s))"
    using Insert_True[OF wf i] by auto
  have "adopted_blocks r = scan_adopted s @ ad @ ad2" using r(1) f by simp
  then have "subspan (length (scan_adopted s)) (length ad) (adopted_blocks r) = ad" by (simp add: subspan_def)
  moreover have "length (scan_adopted s) + length ad \<le> length (adopted_blocks r)" using arg_cong[OF r(1), of length] f by auto
  moreover have "delta_newly_admitted d \<Longrightarrow> length (scan_new_tables s) < length (new_tables r) \<and> new_tables r ! length (scan_new_tables s) = t"
    using r(2)[symmetric] f by simp
  ultimately show "publishable r S cache' (scan_reserved_count s) (length (scan_adopted s)) (length (scan_new_tables s)) d t"
    using f r(3,4) unfolding publishable_def delta_base_def c by (auto split: if_splits)
  show "delta_window_offset d = 0" using f w by simp
  have "delta_committed_slots d div pool_block_size (cache_pool cache) \<le> delta_target_slots d div pool_block_size (cache_pool cache)"
    using f by (intro div_le_mono) blast
  then show "advance_sized (cache_pool cache) d" using f by (simp add: advance_sized_def BlocksNeeded_def)
qed

definition extends :: "reserve_scan \<Rightarrow> reserve_scan \<Rightarrow> PagedCacheReservationDelta list \<Rightarrow> bool" where
  "extends s s' ds \<longleftrightarrow> scan_deltas s' = scan_deltas s @ ds \<and> (\<exists>ad. scan_adopted s' = scan_adopted s @ ad) \<and> (\<exists>ts. scan_new_tables s' = scan_new_tables s @ ts)
     \<and> scan_reserved_count s \<le> scan_reserved_count s' \<and> scan_window_count s' = scan_window_count s"

text \<open>A delta answers the request it was made for.\<close>

definition answers :: "PagedCacheReservationDelta \<Rightarrow> PagedCacheReservationRequest \<Rightarrow> bool" where
  "answers d q \<longleftrightarrow> delta_request_id d = req_request_id q \<and> delta_target_slots d = req_target_slots q \<and> delta_newly_admitted d = req_newly_admitted q"

lemma scan_pending:
  assumes ok: "paged_ok (\<lambda>_. 0) S cache" and res: "\<And>k. Find k resident = Find k (cache_index cache)"
    and r: "scan_adopted s' = adopted_blocks r" "scan_new_tables s' = new_tables r" "scan_reserved_count s' = length (reserved_blocks r)" "resident_table_index r = resident"
    and c: "cache_tables cache' = cache_tables cache" "pool_block_size (cache_pool cache') = pool_block_size (cache_pool cache)"
  shows "scan_requests cache resident qs s = Inr s' \<Longrightarrow> scan_window_count s = 0 \<Longrightarrow> wf_index (scan_delta_index s) \<Longrightarrow> \<exists>ds.
    extends s s' ds \<and> list_all2 answers ds qs \<and> pending r S cache' (scan_reserved_count s) (length (scan_adopted s)) (length (scan_new_tables s)) ds
    \<and> advance_offsets (scan_advance_count s) ds \<and> list_all (advance_sized (cache_pool cache)) ds
    \<and> (\<forall>i < length ds. Find (delta_request_id (ds ! i)) (scan_delta_index s') = Some (length (scan_deltas s) + i))
    \<and> (\<forall>k v. Find k (scan_delta_index s) = Some v \<longrightarrow> Find k (scan_delta_index s') = Some v)
    \<and> (list_all (bounded cache) qs \<longrightarrow> (\<forall>d \<in> set ds. length (row_of r cache' d) * pool_block_size (cache_pool cache) \<le> size_max))
    \<and> (\<forall>p \<in> set (drop (length (scan_adopted s)) (scan_adopted s')). Owns (cache_pool cache) (Some p) \<and> IsShareable (pool_store (cache_pool cache) p))"
proof (induction qs arbitrary: s)
  case Nil
  then show ?case using r by (auto simp: extends_def)
next
  case (Cons q qs)
  obtain s1 where s1: "scan_request cache resident q s = Inr s1" "scan_requests cache resident qs s1 = Inr s'" using Cons.prems(1) by (auto simp: bind_result_Inr_iff)
  obtain d t ad where sc: "scanned cache S resident s s1 d t ad" and an: "answers d q" and bd: "bounded cache q \<Longrightarrow> (length (table_blocks t) + delta_reserved_count d) * pool_block_size (cache_pool cache) \<le> size_max"
    by (rule scan_request_ok[OF ok res s1(1)]) (auto simp: bounded_def answers_def)
  note f = sc[unfolded scanned_def Let_def]
  have ins: "Insert (delta_request_id d) (length (scan_deltas s)) (scan_delta_index s) = (scan_delta_index s1, True)" using f by blast
  have w1: "scan_window_count s1 = 0" "wf_index (scan_delta_index s1)" using f Cons.prems(2) Insert_True(3)[OF Cons.prems(3) ins] by simp_all
  from Cons.IH[OF s1(2) w1] obtain ds where ds: "extends s1 s' ds" "pending r S cache' (scan_reserved_count s1) (length (scan_adopted s1)) (length (scan_new_tables s1)) ds"
    "advance_offsets (scan_advance_count s1) ds" "list_all (advance_sized (cache_pool cache)) ds"
    "\<forall>i < length ds. Find (delta_request_id (ds ! i)) (scan_delta_index s') = Some (length (scan_deltas s1) + i)"
    "\<forall>k v. Find k (scan_delta_index s1) = Some v \<longrightarrow> Find k (scan_delta_index s') = Some v"
    "list_all (bounded cache) qs \<longrightarrow> (\<forall>d \<in> set ds. length (row_of r cache' d) * pool_block_size (cache_pool cache) \<le> size_max)"
    "\<forall>p \<in> set (drop (length (scan_adopted s1)) (scan_adopted s')). Owns (cache_pool cache) (Some p) \<and> IsShareable (pool_store (cache_pool cache) p)"
    "list_all2 answers ds qs" by blast
  obtain ad2 ts2 where ext: "scan_adopted s1 @ ad2 = adopted_blocks r" "scan_new_tables s1 @ ts2 = new_tables r" "scan_reserved_count s1 \<le> length (reserved_blocks r)"
    using ds(1) r by (auto simp: extends_def)
  note st = scanned_step[OF sc paged_block_size[OF ok] Cons.prems(3) ext r(4) Cons.prems(2) c]
  have row: "length (row_of r cache' d) = length (table_blocks t) + delta_reserved_count d"
    using row_of_base[OF st(1)] publishable_facts(1)[OF st(1)] by simp
  have 1: "extends s s' (d # ds)" using ds(1) f by (auto simp: extends_def)
  have 2: "pending r S cache' (scan_reserved_count s) (length (scan_adopted s)) (length (scan_new_tables s)) (d # ds)"
    using ds(2) st(1,2) f unfolding publishable_def by auto
  have 3: "Find (delta_request_id ((d # ds) ! i)) (scan_delta_index s') = Some (length (scan_deltas s) + i)" if "i < length (d # ds)" for i
    using that ds(5,6) st(5)[of "delta_request_id d"] f by (cases i) auto
  have 4: "Find k (scan_delta_index s') = Some v" if "Find k (scan_delta_index s) = Some v" for k v
    using that ds(6) st(5)[of k] st(6) by (cases "k = delta_request_id d") auto
  have 5: "\<forall>p \<in> set (drop (length (scan_adopted s)) (scan_adopted s')). Owns (cache_pool cache) (Some p) \<and> IsShareable (pool_store (cache_pool cache) p)"
    using ds(1,8) f by (auto simp: extends_def)
  show ?case
    by (rule exI[of _ "d # ds"]) (use 1 2 3 4 5 ds(3,4,7,9) an st(3) row bd f in \<open>auto simp del: pending.simps\<close>)
qed

lemma collect_slices:
  assumes "advance_offsets a ds" and "\<forall>d \<in> set ds. \<exists>ys. g d = Inr ys \<and> length ys = delta_advance_count d"
  shows "\<exists>adv. collect_result g ds = Inr adv
    \<and> (\<forall>d \<in> set ds. \<exists>k. delta_advance_offset d = a + k \<and> k + delta_advance_count d \<le> length adv \<and> g d = Inr (take (delta_advance_count d) (drop k adv)))"
  using assms
proof (induction ds arbitrary: a)
  case (Cons d ds)
  obtain ys where ys: "g d = Inr ys" "length ys = delta_advance_count d" using Cons.prems(2) by auto
  have "advance_offsets (a + delta_advance_count d) ds" "\<forall>d \<in> set ds. \<exists>ys. g d = Inr ys \<and> length ys = delta_advance_count d" using Cons.prems by simp_all
  from Cons.IH[OF this] obtain adv where adv: "collect_result g ds = Inr adv"
    "\<forall>d' \<in> set ds. \<exists>k. delta_advance_offset d' = a + delta_advance_count d + k \<and> k + delta_advance_count d' \<le> length adv
        \<and> g d' = Inr (take (delta_advance_count d') (drop k adv))" by blast
  have "\<exists>k. delta_advance_offset d' = a + k \<and> k + delta_advance_count d' \<le> length (ys @ adv) \<and> g d' = Inr (take (delta_advance_count d') (drop k (ys @ adv)))"
    if d': "d' \<in> set ds" for d'
  proof -
    obtain k where k: "delta_advance_offset d' = a + delta_advance_count d + k" "k + delta_advance_count d' \<le> length adv"
      "g d' = Inr (take (delta_advance_count d') (drop k adv))" using adv(2) d' by blast
    have "drop (delta_advance_count d + k) (ys @ adv) = drop k adv" using ys(2) by simp
    then show ?thesis using k ys(2) by (intro exI[of _ "delta_advance_count d + k"]) simp
  qed
  moreover have "\<exists>k. delta_advance_offset d = a + k \<and> k + delta_advance_count d \<le> length (ys @ adv) \<and> g d = Inr (take (delta_advance_count d) (drop k (ys @ adv)))"
    using Cons.prems(1) ys by (intro exI[of _ 0]) simp
  ultimately show ?case using ys(1) adv(1) by auto
qed simp

lemma advance_of_row:
  assumes ok: "paged_ok extra S cache" and res: "\<And>k. Find k (resident_table_index r) = Find k (cache_index cache)" and d: "publishable r S cache rsv adp n d t"
    and sz: "advance_sized (cache_pool cache) d"
  shows "advance_of (resident_table_index r) (cache_tables cache) (pool_block_size (cache_pool cache)) (reserved_blocks r) d
    = Inr (take (delta_advance_count d) (drop (delta_committed_slots d div pool_block_size (cache_pool cache)) (row_of r cache d)))"
    and "delta_committed_slots d div pool_block_size (cache_pool cache) + delta_advance_count d \<le> length (row_of r cache d)"
    and "delta_target_slots d \<le> (delta_committed_slots d div pool_block_size (cache_pool cache) + delta_advance_count d) * pool_block_size (cache_pool cache)"
proof -
  let ?bs = "pool_block_size (cache_pool cache)" and ?first = "delta_committed_slots d div pool_block_size (cache_pool cache)"
  let ?found = "Find (delta_request_id d) (resident_table_index r)"
  note f = publishable_facts[OF d] and bs = paged_block_size[OF ok]
  have row: "row_of r cache d = table_blocks t @ reserved_of r d" by (rule row_of_base[OF d])
  have p: "delta_reserved_offset d + delta_reserved_count d \<le> length (reserved_blocks r)" "delta_target_slots d \<le> (length (table_blocks t) + delta_reserved_count d) * ?bs"
    using d by (simp_all add: publishable_def)
  have len: "length (row_of r cache d) = length (table_blocks t) + delta_reserved_count d" using row f(1) by simp
  show le: "?first + delta_advance_count d \<le> length (row_of r cache d)"
    using BlocksNeeded_le[OF bs p(2)] sz len by (simp add: advance_sized_def)
  show "delta_target_slots d \<le> (?first + delta_advance_count d) * ?bs" using sz BlocksNeeded_covers(1)[OF bs, of "delta_target_slots d"] by (simp add: advance_sized_def)
  have at: "i < length (cache_tables cache) \<and> table_request_id (cache_tables cache ! i) = delta_request_id d" if "?found = Some i" for i
    using index_ok_Find[OF paged_okD(3)[OF ok], of "delta_request_id d" i] that unfolding res by simp
  then have find: "FindCommittedTable (resident_table_index r) (cache_tables cache) (delta_request_id d) = Inr ?found"
    by (cases ?found) (auto simp: FindCommittedTable_def)
  define m where "m = (case ?found of Some i \<Rightarrow> length (table_blocks (cache_tables cache ! i)) | None \<Rightarrow> delta_adopted_count d)"
  have m: "m = length (table_blocks t)" and old: "\<And>i. ?found = Some i \<Longrightarrow> t = cache_tables cache ! i" and new: "?found = None \<Longrightarrow> ?first = m"
    using d bs by (auto simp: publishable_def delta_base_def m_def subspan_def split: if_splits)
  have eq: "(if i < m then table_blocks (cache_tables cache ! the ?found) ! i else reserved_blocks r ! (delta_reserved_offset d + i - m)) = row_of r cache d ! i"
    if i: "?first \<le> i" "i < ?first + delta_advance_count d" for i
  proof (cases "i < m")
    case True
    then obtain j where "?found = Some j" using new i(1) by (cases ?found) auto
    then show ?thesis using True old m by (simp add: row nth_append)
  next
    case False
    have "i - m < delta_reserved_count d" using False i(2) le len m by linarith
    then show ?thesis using False p(1) by (simp add: row m[symmetric] nth_append reserved_of_def subspan_def)
  qed
  have "map (\<lambda>i. if i < m then table_blocks (cache_tables cache ! the ?found) ! i else reserved_blocks r ! (delta_reserved_offset d + i - m)) [?first..<?first + delta_advance_count d]
    = map ((!) (row_of r cache d)) [?first..<?first + delta_advance_count d]"
    by (intro map_cong refl) (simp only: set_upt atLeastLessThan_iff eq)
  also have "\<dots> = take (delta_advance_count d) (drop ?first (row_of r cache d))" using le by (intro nth_equalityI) auto
  finally have "map (\<lambda>i. if i < m then table_blocks (cache_tables cache ! the ?found) ! i else reserved_blocks r ! (delta_reserved_offset d + i - m)) [?first..<?first + delta_advance_count d]
    = take (delta_advance_count d) (drop ?first (row_of r cache d))" .
  then show "advance_of (resident_table_index r) (cache_tables cache) ?bs (reserved_blocks r) d = Inr (take (delta_advance_count d) (drop ?first (row_of r cache d)))"
    unfolding advance_of_def find bind_result_simps Let_def m_def[symmetric] by simp
qed

lemma map_sum_Inr_iff: "map_sum f g x = Inr y \<longleftrightarrow> (\<exists>z. x = Inr z \<and> y = g z)"
  by (cases x) auto

lemma pending_member:
  assumes "pending r S cache rsv adp n ds" and "d \<in> set ds"
  obtains rsv' adp' n' t where "publishable r S cache rsv' adp' n' d t"
  using assms
proof (induction ds arbitrary: rsv adp n)
  case (Cons d' ds)
  show ?case
  proof (cases "d = d'")
    case True
    obtain t where "publishable r S cache rsv adp n d' t" by (rule pending_publishable[OF Cons.prems(2)])
    then show ?thesis using Cons.prems(1) True by blast
  next
    case False
    then have "d \<in> set ds" "pending r S cache (rsv + delta_reserved_count d') (adp + delta_adopted_count d') (n + (if delta_newly_admitted d' then 1 else 0)) ds"
      using Cons.prems(2,3) by simp_all
    from Cons.IH[OF _ this(2,1)] Cons.prems(1) show ?thesis by blast
  qed
qed simp

lemma plan_facts:
  assumes ok: "paged_ok (\<lambda>_. 0) S cache" and plan: "plan_reservation qs cache = Inr (resident, s)"
  obtains index0 where "\<And>k. Find k resident = Find k (cache_index cache)" and "wf_index index0"
    and "scan_requests cache resident qs \<lparr>scan_delta_index = index0, scan_deltas = [], scan_adopted = [], scan_new_tables = [], scan_reserved_count = 0,
           scan_window_count = 0, scan_advance_count = 0, touched_committed_blocks = {}, resident_window_blocks = {}\<rparr> = Inr s"
proof -
  obtain resident0 index0 where n: "new_index (length (cache_tables cache)) = Inr resident0" "new_index (length qs) = Inr index0"
    "index_tables (cache_index cache) (cache_tables cache) 0 resident0 = Inr resident"
    "scan_requests cache resident qs \<lparr>scan_delta_index = index0, scan_deltas = [], scan_adopted = [], scan_new_tables = [], scan_reserved_count = 0,
           scan_window_count = 0, scan_advance_count = 0, touched_committed_blocks = {}, resident_window_blocks = {}\<rparr> = Inr s"
    using plan by (auto simp: plan_reservation_def Let_def bind_result_Inr_iff map_sum_Inr_iff)
  have "Find k resident = Find k (cache_index cache)" for k
    by (rule resident_same[OF paged_okD(3)[OF ok] n(3) new_index_empty[OF n(1)]])
  then show ?thesis using that new_index_empty[OF n(2)] n(4) by blast
qed

lemma advance_all:
  assumes ok: "paged_ok extra S cache" and res: "\<And>k. Find k (resident_table_index r) = Find k (cache_index cache)"
    and p: "pending r S cache rsv adp n ds" and off: "advance_offsets 0 ds" and sz: "list_all (advance_sized (cache_pool cache)) ds"
  shows "\<exists>adv. collect_result (advance_of (resident_table_index r) (cache_tables cache) (pool_block_size (cache_pool cache)) (reserved_blocks r)) ds = Inr adv
    \<and> (\<forall>d \<in> set ds. length (row_of r cache d) * pool_block_size (cache_pool cache) \<le> size_max \<longrightarrow> advance_ok (r\<lparr>advance_blocks := adv\<rparr>) cache d)"
proof -
  let ?bs = "pool_block_size (cache_pool cache)"
  let ?g = "advance_of (resident_table_index r) (cache_tables cache) ?bs (reserved_blocks r)"
  have row: "?g d = Inr (take (delta_advance_count d) (drop (delta_committed_slots d div ?bs) (row_of r cache d)))"
    "delta_committed_slots d div ?bs + delta_advance_count d \<le> length (row_of r cache d)"
    "delta_target_slots d \<le> (delta_committed_slots d div ?bs + delta_advance_count d) * ?bs" if d: "d \<in> set ds" for d
  proof -
    obtain rsv adp n t where "publishable r S cache rsv adp n d t" by (rule pending_member[OF p d])
    from advance_of_row[OF ok res this] sz d
    show "?g d = Inr (take (delta_advance_count d) (drop (delta_committed_slots d div ?bs) (row_of r cache d)))"
      "delta_committed_slots d div ?bs + delta_advance_count d \<le> length (row_of r cache d)"
      "delta_target_slots d \<le> (delta_committed_slots d div ?bs + delta_advance_count d) * ?bs" by (simp_all add: list_all_iff)
  qed
  have "\<forall>d \<in> set ds. \<exists>ys. ?g d = Inr ys \<and> length ys = delta_advance_count d" using row(1,2) by fastforce
  from collect_slices[OF off this] obtain adv where adv: "collect_result ?g ds = Inr adv"
    "\<forall>d \<in> set ds. \<exists>k. delta_advance_offset d = 0 + k \<and> k + delta_advance_count d \<le> length adv \<and> ?g d = Inr (take (delta_advance_count d) (drop k adv))" by blast
  have "advance_ok (r\<lparr>advance_blocks := adv\<rparr>) cache d" if d: "d \<in> set ds" "length (row_of r cache d) * ?bs \<le> size_max" for d
  proof -
    have same: "row_of (r\<lparr>advance_blocks := adv\<rparr>) cache d = row_of r cache d" by (simp add: row_of_def block_row_def split: option.splits)
    have k: "delta_advance_offset d + delta_advance_count d \<le> length adv"
      "take (delta_advance_count d) (drop (delta_advance_offset d) adv) = take (delta_advance_count d) (drop (delta_committed_slots d div ?bs) (row_of r cache d))"
      using adv(2) row(1)[OF d(1)] d(1) by auto
    have "adv ! (delta_advance_offset d + j) = row_of r cache d ! (delta_committed_slots d div ?bs + j)" if j: "j < delta_advance_count d" for j
    proof -
      have "take (delta_advance_count d) (drop (delta_advance_offset d) adv) ! j = take (delta_advance_count d) (drop (delta_committed_slots d div ?bs) (row_of r cache d)) ! j"
        using k(2) by simp
      then show ?thesis using j k(1) row(2)[OF d(1)] by simp
    qed
    then show ?thesis using row(2,3)[OF d(1)] k(1) d(2) unfolding advance_ok_def same Let_def by simp
  qed
  with adv(1) show ?thesis by blast
qed

lemma full_kept:
  assumes "\<exists>n. b' = b\<lparr>ref_count := n\<rparr>"
  shows "IsShareable b' \<longleftrightarrow> IsShareable b" and "IsFull b' \<longleftrightarrow> IsFull b"
  using assms by (auto simp: IsShareable_def IsFull_def HasIdentity_def)

text \<open>The reservation that \<open>Reserve\<close> returns for a plan, with the blocks that it took.\<close>

definition reservation_of :: "RequestIndex \<Rightarrow> reserve_scan \<Rightarrow> nat \<Rightarrow> bptr list \<Rightarrow> bptr list \<Rightarrow> PagedCache \<Rightarrow> PagedCacheReservation" where
  "reservation_of resident s n blocks advance cache =
     \<lparr>resident_table_index = resident, reserved_blocks = blocks, reserved_window_blocks = [],
      adopted_blocks = scan_adopted s, deltas = scan_deltas s, delta_index = scan_delta_index s,
      delta_visit_generations = replicate n 0, next_delta_visit_generation = 1,
      new_tables = scan_new_tables s, advance_blocks = advance,
      resident_table_snapshots = map snapshot_of (cache_tables cache),
      block_pool_generation = mutation_generation (cache_pool cache),
      window_block_pool_generation = window_generation (cache_window_pool cache),
      reservation_state = Reserved\<rparr>"

lemma plan_ok:
  fixes n :: nat and adv :: "bptr list"
  assumes ok: "paged_ok (\<lambda>_. 0) S cache" and plan: "plan_reservation qs cache = Inr (resident, s)" and bl: "length bl = scan_reserved_count s"
    and c: "cache_tables cache' = cache_tables cache" "pool_block_size (cache_pool cache') = pool_block_size (cache_pool cache)"
  defines "r \<equiv> reservation_of resident s n bl adv cache'"
  shows "Find k resident = Find k (cache_index cache)" and "pending r S cache' 0 0 0 (deltas r)" and "advance_offsets 0 (deltas r)"
    and "list_all (advance_sized (cache_pool cache)) (deltas r)" and "list_all2 answers (deltas r) qs"
    and "i < length (deltas r) \<Longrightarrow> Find (delta_request_id (deltas r ! i)) (delta_index r) = Some i"
    and "list_all (bounded cache) qs \<Longrightarrow> d \<in> set (deltas r) \<Longrightarrow> length (row_of r cache' d) * pool_block_size (cache_pool cache') \<le> size_max"
    and "\<forall>p \<in> set (scan_adopted s). Owns (cache_pool cache) (Some p) \<and> IsShareable (pool_store (cache_pool cache) p)"
proof -
  obtain index0 where res: "\<And>k. Find k resident = Find k (cache_index cache)" and wf: "wf_index index0"
    and scan: "scan_requests cache resident qs \<lparr>scan_delta_index = index0, scan_deltas = [], scan_adopted = [], scan_new_tables = [], scan_reserved_count = 0,
           scan_window_count = 0, scan_advance_count = 0, touched_committed_blocks = {}, resident_window_blocks = {}\<rparr> = Inr s"
    by (rule plan_facts[OF ok plan]) blast
  have r: "scan_adopted s = adopted_blocks r" "scan_new_tables s = new_tables r" "scan_reserved_count s = length (reserved_blocks r)"
    "resident_table_index r = resident" "deltas r = scan_deltas s" "delta_index r = scan_delta_index s" by (simp_all add: r_def reservation_of_def bl)
  from scan_pending[OF ok res r(1-4) c scan] wf obtain ds where ds: "scan_deltas s = ds" "list_all2 answers ds qs" "pending r S cache' 0 0 0 ds"
    "advance_offsets 0 ds" "list_all (advance_sized (cache_pool cache)) ds"
    "\<forall>i < length ds. Find (delta_request_id (ds ! i)) (scan_delta_index s) = Some i"
    "list_all (bounded cache) qs \<longrightarrow> (\<forall>d \<in> set ds. length (row_of r cache' d) * pool_block_size (cache_pool cache) \<le> size_max)"
    "\<forall>p \<in> set (scan_adopted s). Owns (cache_pool cache) (Some p) \<and> IsShareable (pool_store (cache_pool cache) p)"
    by (auto simp: extends_def)
  show "Find k resident = Find k (cache_index cache)" by (rule res)
  show "pending r S cache' 0 0 0 (deltas r)" "advance_offsets 0 (deltas r)" "list_all (advance_sized (cache_pool cache)) (deltas r)"
    "list_all2 answers (deltas r) qs" "i < length (deltas r) \<Longrightarrow> Find (delta_request_id (deltas r ! i)) (delta_index r) = Some i"
    "list_all (bounded cache) qs \<Longrightarrow> d \<in> set (deltas r) \<Longrightarrow> length (row_of r cache' d) * pool_block_size (cache_pool cache') \<le> size_max"
    "\<forall>p \<in> set (scan_adopted s). Owns (cache_pool cache) (Some p) \<and> IsShareable (pool_store (cache_pool cache) p)"
    using ds c(2) r(5,6) by auto
qed

lemma pending_advance: "pending (r\<lparr>advance_blocks := a\<rparr>) S cache rsv adp n ds \<longleftrightarrow> pending r S cache rsv adp n ds"
  by (induction ds arbitrary: rsv adp n) (auto simp: delta_base_def)

lemma reservation_made:
  assumes ok: "paged_ok (\<lambda>_. 0) S cache" and plan: "plan_reservation qs cache = Inr (resident, s)" and bl: "length bl = scan_reserved_count s"
    and c: "cache_tables cache' = cache_tables cache" "cache_index cache' = cache_index cache" "pool_block_size (cache_pool cache') = pool_block_size (cache_pool cache)"
    and pok: "paged_ok (taken bl (scan_adopted s)) S cache'"
    and got: "\<forall>p \<in> set bl. held_by (cache_tables cache') p + taken bl (scan_adopted s) p = 1 \<and> block_slots_used (pool_store (cache_pool cache') p) = 0"
    and full: "\<forall>p \<in> set (scan_adopted s). IsFull (pool_store (cache_pool cache') p) \<and> IsShareable (pool_store (cache_pool cache') p)"
    and n: "n = length qs"
  obtains adv where "collect_result (advance_of resident (cache_tables cache') (pool_block_size (cache_pool cache')) bl) (scan_deltas s) = Inr adv"
    and "list_all (bounded cache) qs \<Longrightarrow> reservation_ok S (reservation_of resident s n bl adv cache') cache'"
proof -
  let ?r = "\<lambda>adv. reservation_of resident s n bl adv cache'"
  have f: "resident_table_index (?r a) = resident" "reserved_blocks (?r a) = bl" "deltas (?r a) = scan_deltas s" "adopted_blocks (?r a) = scan_adopted s"
    "reservation_state (?r a) = Reserved" "reserved_window_blocks (?r a) = []" "resident_table_snapshots (?r a) = map snapshot_of (cache_tables cache')"
    "block_pool_generation (?r a) = mutation_generation (cache_pool cache')" "(?r [])\<lparr>advance_blocks := a\<rparr> = ?r a"
    "left_over (?r a) 0 0 = taken bl (scan_adopted s)" for a by (simp_all add: reservation_of_def left_over_def fun_eq_iff)
  note pk = plan_ok[OF ok plan bl c(1,3)]
  have res: "Find k (resident_table_index (?r [])) = Find k (cache_index cache')" for k using pk(1) f(1) c(2) by simp
  have sz: "list_all (advance_sized (cache_pool cache')) (deltas (?r []))" using pk(4)[where n = n and adv = "[]"] c(3)
    by (simp add: list_all_iff advance_sized_def BlocksNeeded_def)
  from advance_all[OF pok res pk(2,3)[where n = n and adv = "[]"] sz] obtain adv where adv: 
    "collect_result (advance_of resident (cache_tables cache') (pool_block_size (cache_pool cache')) bl) (scan_deltas s) = Inr adv"
    "\<forall>d \<in> set (scan_deltas s). length (row_of (?r []) cache' d) * pool_block_size (cache_pool cache') \<le> size_max \<longrightarrow> advance_ok (?r adv) cache' d"
    unfolding f by blast
  have "visits_ok (?r adv)" using list_all2_lengthD[OF pk(5)[where n = n and adv = adv]] n by (simp add: visits_ok_def reservation_of_def)
  moreover have "reserved_ok (?r adv) 0 0 cache'" using got full by (simp add: reserved_ok_def f)
  ultimately have "reservation_ok S (?r adv) cache'" if b: "list_all (bounded cache) qs"
    using pok res full adv(2) pk(2,6)[where n = n and adv = adv] pk(7)[OF b, where n = n and adv = "[]"] unfolding reservation_ok_def by (simp add: f list_all_iff)
  then show ?thesis using that adv(1) by blast
qed

lemma Reserve_cases:
  assumes ok: "paged_ok (\<lambda>_. 0) S cache" and run: "Reserve owners qs cache = (cache', res)"
  obtains (refused) e where "plan_reservation qs cache = Inl e" and "res = Inl e" and "cache' = cache"
  | (full) resident s e where "plan_reservation qs cache = Inr (resident, s)" and "res = Inl e" and "e = NoFreeBlocks \<or> e = SizeOverflow"
      and "paged_ok (\<lambda>_. 0) S cache'" and "cache_tables cache' = cache_tables cache" and "cache_index cache' = cache_index cache"
  | (made) resident s r where "plan_reservation qs cache = Inr (resident, s)" and "res = Inr r"
      and "list_all2 answers (deltas r) qs" and "list_all (bounded cache) qs \<Longrightarrow> reservation_ok S r cache'"
      and "cache_tables cache' = cache_tables cache" and "cache_index cache' = cache_index cache"
proof (cases "plan_reservation qs cache")
  case (Inl e)
  then show ?thesis using refused[of e] run by (simp add: Reserve_def)
next
  case (Inr x)
  obtain resident s where x: "x = (resident, s)" by fastforce
  note plan = Inr[unfolded x]
  let ?ad = "scan_adopted s"
  have own: "\<forall>p \<in> set ?ad. Owns (cache_pool cache) (Some p) \<and> IsShareable (pool_store (cache_pool cache) p)"
    by (rule plan_ok(8)[OF ok plan length_replicate refl refl])
  obtain pool1 c1 where a: "(if ?ad \<noteq> [] then observed (AddRefs (map Some ?ad)) (cache_state cache) else Inr (cache_state cache)) = Inr (pool1, c1)"
    "paged_ok (taken [] ?ad) S (set_pool (pool1, c1) cache)" "pool_block_size pool1 = pool_block_size (cache_pool cache)"
    "\<And>p. \<exists>n. pool_store pool1 p = (pool_store (cache_pool cache) p)\<lparr>ref_count := n\<rparr>"
    by (rule adopt_ok[OF ok own]) blast
  let ?c1 = "set_pool (pool1, c1) cache"
  have c1: "cache_tables ?c1 = cache_tables cache" "cache_index ?c1 = cache_index cache" "cache_pool ?c1 = pool1" by (simp_all add: set_pool_def)
  obtain cache2 bl ares where aq: "acquire owners (scan_reserved_count s) (scan_window_count s) ?c1 = (cache2, bl, ares)" by (metis surj_pair)
  note q = acquire_ok[OF a(2) aq, unfolded c1]
  have pok: "paged_ok (taken bl ?ad) S cache2" using q(1) by simp
  have full_blocks: "\<forall>p \<in> set ?ad. IsFull (pool_store (cache_pool cache2) p) \<and> IsShareable (pool_store (cache_pool cache2) p)"
  proof
    fix p assume p: "p \<in> set ?ad"
    then have "pool_store (cache_pool cache2) p = pool_store pool1 p" using q(5)[of p] by (simp add: count_list_pos)
    then show "IsFull (pool_store (cache_pool cache2) p) \<and> IsShareable (pool_store (cache_pool cache2) p)"
      using full_kept[OF a(4)[of p]] own p by (simp add: IsShareable_def)
  qed
  have got: "\<forall>p \<in> set bl. held_by (cache_tables cache2) p + taken bl ?ad p = 1 \<and> identity (pool_store (cache_pool cache2) p) = None"
    "\<forall>p \<in> set bl. held_by (cache_tables cache2) p + taken bl ?ad p = 1 \<and> block_slots_used (pool_store (cache_pool cache2) p) = 0"
    using q(6) by simp_all
  have first: "Reserve owners qs cache = (case (cache2, bl, ares) of
      (cache1, blocks, Inl e) \<Rightarrow> (case undo_reservation blocks [] ?ad cache1 of Inl e1 \<Rightarrow> (cache1, Inl e1) | Inr cache2 \<Rightarrow> (cache2, Inl e))
    | (cache1, blocks, Inr window_blocks) \<Rightarrow>
        (cache1, bind_result (collect_result (advance_of resident (cache_tables cache1) (pool_block_size (cache_pool cache1)) blocks) (scan_deltas s)) (\<lambda>advance.
           Inr ((reservation_of resident s (length qs) blocks advance cache1)\<lparr>reserved_window_blocks := window_blocks\<rparr>))))"
    unfolding Reserve_def plan sum.case prod.case a(1) aq by (simp add: reservation_of_def split: sum.splits)
  show ?thesis
  proof (cases ares)
    case (Inl e)
    obtain cache3 where "undo_reservation bl [] ?ad cache2 = Inr cache3" "paged_ok (\<lambda>_. 0) S cache3" "cache_tables cache3 = cache_tables cache2"
      "cache_index cache3 = cache_index cache2" by (rule undo_ok[OF pok got(1)]) (use full_blocks in auto)
    moreover have "e = NoFreeBlocks \<or> e = SizeOverflow" using q(7) Inl by (auto split: if_splits)
    ultimately show ?thesis using full[OF plan, of e] run Inl q(2,3) unfolding first by simp
  next
    case (Inr ws)
    then have ws: "ws = []" "length bl = scan_reserved_count s" using q(7,8) by (auto split: if_splits)
    have bs2: "pool_block_size (cache_pool cache2) = pool_block_size (cache_pool cache)" using q(4) a(3) by simp
    obtain adv where adv: "collect_result (advance_of resident (cache_tables cache2) (pool_block_size (cache_pool cache2)) bl) (scan_deltas s) = Inr adv"
      "list_all (bounded cache) qs \<Longrightarrow> reservation_ok S (reservation_of resident s (length qs) bl adv cache2) cache2"
      by (rule reservation_made[OF ok plan ws(2) q(2,3) bs2 pok got(2) full_blocks refl]) blast
    have r: "(reservation_of resident s (length qs) bl adv cache2)\<lparr>reserved_window_blocks := []\<rparr> = reservation_of resident s (length qs) bl adv cache2"
      by (simp add: reservation_of_def)
    have "list_all2 answers (deltas (reservation_of resident s (length qs) bl adv cache2)) qs"
      by (rule plan_ok(5)[OF ok plan ws(2) q(2) bs2])
    moreover have "Reserve owners qs cache = (cache2, Inr (reservation_of resident s (length qs) bl adv cache2))"
      unfolding first by (simp add: Inr ws(1) adv(1) r)
    ultimately show ?thesis using made[OF plan, of "reservation_of resident s (length qs) bl adv cache2"] run adv(2) q(2,3) by simp
  qed
qed

end
