(* ===== verification/Paged_Runs.thy ===== *)
theory Paged_Runs
  imports Paged_Plan
begin

text \<open>
  The life of a reservation: it may be shortened, and then it is committed, released or destroyed. Runs of these steps keep
  the invariant of the tables.
\<close>

section \<open>Shortening\<close>

definition shortened :: "PagedCacheReservationDelta \<Rightarrow> PagedCacheReservationDelta \<Rightarrow> bool" where
  "shortened d d' \<longleftrightarrow> (\<exists>n. d' = d\<lparr>delta_target_slots := n\<rparr> \<and> delta_committed_slots d \<le> n \<and> n \<le> delta_target_slots d)"

lemma shortened_refl: "delta_committed_slots d \<le> delta_target_slots d \<Longrightarrow> shortened d d"
  by (auto simp: shortened_def intro!: exI[of _ "delta_target_slots d"])

lemma shortenedD:
  assumes "shortened d d'"
  shows "delta_base r S cache n d' t \<longleftrightarrow> delta_base r S cache n d t" and "delta_request_id d' = delta_request_id d"
    and "delta_reserved_offset d' = delta_reserved_offset d" and "delta_reserved_count d' = delta_reserved_count d"
    and "delta_window_offset d' = delta_window_offset d" and "delta_window_count d' = delta_window_count d"
    and "delta_adopted_offset d' = delta_adopted_offset d" and "delta_adopted_count d' = delta_adopted_count d"
    and "delta_committed_slots d' = delta_committed_slots d" and "delta_newly_admitted d' = delta_newly_admitted d"
    and "delta_advance_offset d' = delta_advance_offset d" and "delta_advance_count d' = delta_advance_count d"
    and "delta_committed_slots d \<le> delta_target_slots d'" and "delta_target_slots d' \<le> delta_target_slots d"
  using assms by (auto simp: shortened_def delta_base_def)

lemma pending_shortened: "list_all2 shortened ds ds' \<Longrightarrow> pending r S cache rsv adp n ds \<Longrightarrow> pending r S cache rsv adp n ds'"
proof (induction ds ds' arbitrary: rsv adp n rule: list_all2_induct)
  case (Cons d ds d' ds')
  note s = shortenedD[OF Cons.hyps(1)]
  obtain t where "delta_base r S cache n d' t" "delta_target_slots d \<le> (length (table_blocks t) + delta_reserved_count d) * pool_block_size (cache_pool cache)"
    using Cons.prems unfolding s by auto
  then have "\<exists>t. delta_base r S cache n d' t \<and> delta_target_slots d' \<le> (length (table_blocks t) + delta_reserved_count d) * pool_block_size (cache_pool cache)"
    using s(14) le_trans by blast
  then show ?case using Cons.prems Cons.IH s(13) by (simp add: s)
qed simp

lemma pending_deltas: "pending (r\<lparr>deltas := xs\<rparr>) S cache rsv adp n ds \<longleftrightarrow> pending r S cache rsv adp n ds"
  by (induction ds arbitrary: rsv adp n) (auto simp: delta_base_def)

lemma row_of_deltas: "row_of (r\<lparr>deltas := xs\<rparr>) cache d = row_of r cache d"
  by (simp add: row_of_def block_row_def split: option.splits)

lemma reservation_shortened:
  assumes ok: "reservation_ok S r cache" and ds: "list_all2 shortened (deltas r) ds"
  shows "reservation_ok S (r\<lparr>deltas := ds\<rparr>) cache"
proof -
  let ?r = "r\<lparr>deltas := ds\<rparr>"
  have len: "length ds = length (deltas r)" using ds by (simp add: list_all2_lengthD)
  have nth: "shortened (deltas r ! i) (ds ! i)" if "i < length ds" for i using ds that len by (simp add: list_all2_conv_all_nth)
  have adv: "advance_ok ?r cache (ds ! i)" if i: "i < length ds" for i
  proof -
    note s = shortenedD[OF nth[OF i]]
    have row: "row_of r cache (ds ! i) = row_of r cache (deltas r ! i)" by (simp add: row_of_def block_row_def s split: option.splits)
    have "advance_ok r cache (deltas r ! i)" using reservation_okD(7)[OF ok] i len by simp
    then show ?thesis using s(14) unfolding advance_ok_def row_of_deltas row s(9,11,12) Let_def by simp
  qed
  have "pending ?r S cache 0 0 0 ds" using pending_shortened[OF ds reservation_okD(5)[OF ok]] by (simp add: pending_deltas)
  moreover have "Find (delta_request_id (ds ! i)) (delta_index r) = Some i" if "i < length ds" for i
    using reservation_okD(6)[OF ok, of i] that len shortenedD(2)[OF nth[OF that]] by simp
  moreover have "list_all (advance_ok ?r cache) ds" using adv by (simp add: list_all_length)
  moreover have "left_over ?r 0 0 = left_over r 0 0" by (simp add: left_over_def fun_eq_iff)
  ultimately show ?thesis using ok len unfolding reservation_ok_def by (simp add: reserved_ok_def visits_ok_def)
qed

lemma update_first_all2:
  assumes "\<And>x. x \<in> set xs \<Longrightarrow> R x x" and "\<And>x. x \<in> set xs \<Longrightarrow> find P xs = Some x \<Longrightarrow> R x (f x)"
  shows "list_all2 R xs (update_first P f xs)"
  using assms
proof (induction xs)
  case (Cons y ys)
  show ?case
  proof (cases "P y")
    case True
    then show ?thesis using Cons.prems by (auto simp: update_first_def list.rel_refl_strong)
  next
    case False
    have "list_all2 R ys (update_first P f ys)" by (rule Cons.IH) (use Cons.prems False in auto)
    then show ?thesis using Cons.prems(1) False by (simp add: update_first_def)
  qed
qed (simp add: update_first_def)

lemma CommitPrefix_ok:
  assumes ok: "reservation_ok S r cache" and run: "CommitPrefix k step kept r = Inr r'"
  obtains ds where "r' = r\<lparr>deltas := ds\<rparr>" and "list_all2 shortened (deltas r) ds" and "reservation_ok S r' cache"
proof -
  let ?P = "\<lambda>d. delta_request_id d = k" and ?f = "\<lambda>d. d\<lparr>delta_target_slots := delta_committed_slots d + kept\<rparr>"
  obtain d where d: "find ?P (deltas r) = Some d" "kept \<le> delta_target_slots d - delta_committed_slots d" "kept \<noteq> 0"
    and r': "r' = r\<lparr>deltas := update_first ?P ?f (deltas r)\<rparr>"
    using run by (auto simp: CommitPrefix_def bind_result_Inr_iff split: option.splits if_splits)
  have mem: "delta_committed_slots d \<le> delta_target_slots d" if "d \<in> set (deltas r)" for d
    by (rule pending_member[OF reservation_okD(5)[OF ok] that]) (simp add: publishable_def)
  have "list_all2 shortened (deltas r) (update_first ?P ?f (deltas r))"
  proof (rule update_first_all2)
    show "shortened x x" if "x \<in> set (deltas r)" for x using mem[OF that] by (rule shortened_refl)
    show "shortened x (?f x)" if "find ?P (deltas r) = Some x" for x
      using that d by (auto simp: shortened_def intro!: exI[of _ "delta_committed_slots x + kept"])
  qed
  then show ?thesis using that[OF r'] reservation_shortened[OF ok] r' by simp
qed

section \<open>Giving a reservation up\<close>

lemma left_over_taken: "left_over r 0 0 = taken (reserved_blocks r) (adopted_blocks r)"
  by (simp add: left_over_def fun_eq_iff)

lemma reservation_blocks:
  assumes ok: "reservation_ok S r cache"
  shows "\<forall>p \<in> set (reserved_blocks r). held_by (cache_tables cache) p + taken (reserved_blocks r) (adopted_blocks r) p = 1 \<and> identity (pool_store (cache_pool cache) p) = None"
    and "\<forall>p \<in> set (adopted_blocks r). IsFull (pool_store (cache_pool cache) p)"
proof -
  note pok = reservation_okD(2)[OF ok] and rok = reservation_okD(3)[OF ok, unfolded reserved_ok_def left_over_taken]
  show "\<forall>p \<in> set (adopted_blocks r). IsFull (pool_store (cache_pool cache) p)" using rok by simp
  show "\<forall>p \<in> set (reserved_blocks r). held_by (cache_tables cache) p + taken (reserved_blocks r) (adopted_blocks r) p = 1 \<and> identity (pool_store (cache_pool cache) p) = None"
  proof
    fix p assume "p \<in> set (reserved_blocks r)"
    then have p: "held_by (cache_tables cache) p + taken (reserved_blocks r) (adopted_blocks r) p = 1" "block_slots_used (pool_store (cache_pool cache) p) = 0" using rok by auto
    note wf = wf_cacheD(1)[OF paged_okD(1)[OF pok]]
    have "Owns (cache_pool cache) (Some p)" using held_block(1)[OF pok, of p] p(1) by (simp add: left_over_taken)
    from wf_pool_slotD(2)[OF wf OwnsD[OF this]] have b: "wf_block (pool_block_size (cache_pool cache)) (block_id (pool_store (cache_pool cache) p)) (pool_store (cache_pool cache) p)" .
    have "identity (pool_store (cache_pool cache) p) = None"
    proof (rule ccontr)
      assume "identity (pool_store (cache_pool cache) p) \<noteq> None"
      then show False using b p(2) paged_block_size[OF pok] by (auto simp: wf_block_def IsFull_def)
    qed
    with p(1) show "held_by (cache_tables cache) p + taken (reserved_blocks r) (adopted_blocks r) p = 1 \<and> identity (pool_store (cache_pool cache) p) = None" by simp
  qed
qed

lemma destroy_ok:
  assumes ok: "reservation_ok S r cache"
  obtains cache' where "destroy_reservation r cache = Inr cache'" and "paged_ok (\<lambda>_. 0) S cache'"
    and "cache_tables cache' = cache_tables cache" and "cache_index cache' = cache_index cache"
proof -
  have "paged_ok (taken (reserved_blocks r) (adopted_blocks r)) S cache" using reservation_okD(2)[OF ok] by (simp add: left_over_taken)
  from undo_ok[OF this reservation_blocks[OF ok]] obtain cache' where "undo_reservation (reserved_blocks r) [] (adopted_blocks r) cache = Inr cache'"
    "paged_ok (\<lambda>_. 0) S cache'" "cache_tables cache' = cache_tables cache" "cache_index cache' = cache_index cache" by blast
  then show ?thesis using that reservation_okD(1,9)[OF ok] by (simp add: destroy_reservation_def)
qed

lemma FreeValidated_slots:
  assumes wf: "wf_pool pool" and run: "FreeValidated hs pool = Inr pool'"
  shows "block_slots_used (pool_store pool' q) = block_slots_used (pool_store pool q)"
proof -
  obtain pool1 ok where c: "CanFreeValidated hs pool = (pool1, ok)" by fastforce
  have "pool_store pool1 = pool_store pool" using CanFreeValidated_correct(2)[OF wf, of hs] c by (simp add: same_blocks_def)
  then show ?thesis using run c by (auto simp: FreeValidated_def split: if_splits sum.splits dest!: free_loop_slots[where q = q])
qed

text \<open>References that only full blocks or blocks outside the tables stand for can be given back.\<close>

lemma free_paged:
  assumes ok: "paged_ok extra S cache" and le: "\<forall>p. count_list ps p \<le> extra p"
    and used: "\<And>p. 0 < held_by (cache_tables cache) p \<Longrightarrow> block_slots_used (pool_store (cache_pool cache) p) < pool_block_size (cache_pool cache) \<Longrightarrow> p \<notin> set ps"
  obtains w' where "ValidateFree (map Some ps) (cache_pool cache) = Inr ()" and "observed (FreeValidated (map Some ps)) (cache_state cache) = Inr w'"
    and "paged_ok (\<lambda>p. extra p - count_list ps p) S (set_pool w' cache)"
    and "\<And>p. block_slots_used (pool_store (fst w') p) = block_slots_used (pool_store (cache_pool cache) p)"
    and "pool_block_size (fst w') = pool_block_size (cache_pool cache)"
proof -
  have cnt: "\<forall>p. count_list ps p \<le> held_by (cache_tables cache) p + extra p" using le by (simp add: trans_le_add2)
  obtain pool' c' where f: "observed (Free (map Some ps)) (cache_pool cache, cache_prefix cache) = Inr (pool', c')"
    "wf_cache (\<lambda>p. held_by (cache_tables cache) p + extra p - count_list ps p) S (pool', c')" "pool_block_size pool' = pool_block_size (cache_pool cache)"
    by (rule Free_kept[OF paged_okD(1)[OF ok] cnt]) blast
  have v: "ValidateFree (map Some ps) (cache_pool cache) = Inr ()" using observed_result[OF f(1)] by (simp add: Free_def split: sum.splits)
  then have fv: "FreeValidated (map Some ps) (cache_pool cache) = Inr pool'" using observed_result[OF f(1)] by (simp add: Free_def)
  have "observed (FreeValidated (map Some ps)) (cache_pool cache, cache_prefix cache) = Inr (pool', c')"
    using f(1) v by (simp add: observed_def Free_def)
  moreover have sl: "block_slots_used (pool_store pool' p) = block_slots_used (pool_store (cache_pool cache) p)" for p
    by (rule FreeValidated_slots[OF wf_cacheD(1)[OF paged_okD(1)[OF ok]] fv])
  moreover have "paged_ok (\<lambda>p. extra p - count_list ps p) S (set_pool (pool', c') cache)"
  proof (rule paged_ok_moved[OF ok _ f(3) sl])
    show "wf_cache (\<lambda>p. held_by (cache_tables cache) p + (extra p - count_list ps p)) S (pool', c')" using f(2) le by simp
  qed (use used in \<open>simp add: count_notin\<close>)
  ultimately show ?thesis using that[of "(pool', c')"] v f(3) by (simp add: cache_state_def)
qed

lemma release_ok:
  assumes ok: "reservation_ok S r cache"
  obtains r' cache' where "ReleaseReservation r cache = Inr (r', cache')" and "reservation_state r' = Released" and "paged_ok (\<lambda>_. 0) S cache'"
    and "cache_tables cache' = cache_tables cache" and "cache_index cache' = cache_index cache"
proof -
  let ?rs = "reserved_blocks r" and ?as = "adopted_blocks r"
  have pok: "paged_ok (taken ?rs ?as) S cache" using reservation_okD(2)[OF ok] by (simp add: left_over_taken)
  note b = reservation_blocks[OF ok]
  have as: "p \<notin> set ?as" if p: "0 < held_by (cache_tables cache) p" "block_slots_used (pool_store (cache_pool cache) p) < pool_block_size (cache_pool cache)" for p
    using b(2) p held_block(2)[OF pok, of p] by (auto simp: IsFull_def)
  have rs: "p \<notin> set ?rs" if p: "0 < held_by (cache_tables cache) p" for p
  proof
    assume m: "p \<in> set ?rs"
    then have "0 < count_list ?rs p" by (simp add: count_list_pos)
    then show False using b(1) m p by fastforce
  qed
  obtain w1 where w1: "ValidateFree (map Some ?rs) (cache_pool cache) = Inr ()" "observed (FreeValidated (map Some ?rs)) (cache_state cache) = Inr w1"
    "paged_ok (\<lambda>p. taken ?rs ?as p - count_list ?rs p) S (set_pool w1 cache)"
    "\<And>p. block_slots_used (pool_store (fst w1) p) = block_slots_used (pool_store (cache_pool cache) p)" "pool_block_size (fst w1) = pool_block_size (cache_pool cache)"
    by (rule free_paged[OF pok, of ?rs]) (use rs in auto)
  have v: "ValidateFree (map Some ?as) (cache_pool cache) = Inr ()" by (rule free_paged[OF pok, of ?as]) (use as in auto)
  let ?c1 = "set_pool w1 cache"
  have c1: "cache_pool ?c1 = fst w1" "cache_tables ?c1 = cache_tables cache" "cache_state ?c1 = w1" by (simp_all add: set_pool_def cache_state_def)
  have pok1: "paged_ok (count_list ?as) S ?c1" using w1(3) by simp
  obtain w2 where w2: "observed (FreeValidated (map Some ?as)) w1 = Inr w2" "paged_ok (\<lambda>p. count_list ?as p - count_list ?as p) S (set_pool w2 ?c1)"
    by (rule free_paged[OF pok1, of ?as, unfolded c1]) (use as w1(4,5) in auto)
  have win: "cache_window_pool cache = None" "cache_window_pool (set_pool w2 cache) = None" using paged_okD(4)[OF pok] by (simp_all add: set_pool_def)
  have "(set_pool w2 cache)\<lparr>cache_window_pool := None\<rparr> = set_pool w2 ?c1" using win(1) by (simp add: set_pool_def)
  then show ?thesis
    using that[of "r\<lparr>reserved_blocks := [], reserved_window_blocks := [], adopted_blocks := [], new_tables := [], advance_blocks := [], reservation_state := Released\<rparr>" "set_pool w2 ?c1"]
      reservation_okD(1,9)[OF ok] w1(1,2) v w2 win(1) by (simp add: ReleaseReservation_def Let_def set_pool_def)
qed

end
