(* ===== verification/Paged_Cache.thy ===== *)
theory Paged_Cache
  imports Paged_Runs
begin

text \<open>
  The operations of the paged cache between steps (\<^verbatim>\<open>src/src/engine/paged_key_value_cache.cpp\<close>): looking tables up, matching a
  prompt, recording adoptions, sealing the full blocks of a request, and removing a request. \<open>SealCommittedBlocks\<close> is the call
  without a checkpoint.
\<close>

section \<open>Operations\<close>

text \<open>The position that \<open>std::find_if\<close> over the tables stops at.\<close>

definition table_position :: "u64 \<Rightarrow> PagedCacheBlockTable list \<Rightarrow> nat option" where
  "table_position request_id tables =
     (let n = length (takeWhile (\<lambda>t. table_request_id t \<noteq> request_id) tables) in if n < length tables then Some n else None)"

definition ValidateRemove :: "u64 \<Rightarrow> PagedCache \<Rightarrow> paged_error + unit" where
  "ValidateRemove request_id cache =
     (case table_position request_id (cache_tables cache) of
        None \<Rightarrow> Inr ()
      | Some i \<Rightarrow>
          let table = cache_tables cache ! i in
          bind_result (map_sum (\<lambda>e. PrefixFailure (PoolError e)) id (ValidateFree (map Some (table_blocks table)) (cache_pool cache))) (\<lambda>_.
            case cache_window_pool cache of
              None \<Rightarrow> Inr ()
            | Some w \<Rightarrow> map_sum WindowFailure id (ValidateFree (map Some (table_window_blocks table)) w)))"

text \<open>A table is removed by moving the last one to its place; the move counts as a mutation of the table it overwrites.\<close>

definition remove_table :: "nat \<Rightarrow> PagedCacheBlockTable list \<Rightarrow> PagedCacheBlockTable list" where
  "remove_table i ts =
     butlast (if i \<noteq> length ts - 1 then ts[i := (last ts)\<lparr>table_generation := table_generation (ts ! i) + 1\<rparr>] else ts)"

fun insert_tables :: "PagedCacheBlockTable list \<Rightarrow> nat \<Rightarrow> RequestIndex \<Rightarrow> paged_error + RequestIndex" where
  "insert_tables [] i index = Inr index"
| "insert_tables (t # ts) i index =
     (case Insert (table_request_id t) i index of (index1, inserted) \<Rightarrow>
        if \<not> inserted then Inl PagedTerminated else insert_tables ts (Suc i) index1)"

definition RebuildBlockTableIndex :: "PagedCache \<Rightarrow> paged_error + PagedCache" where
  "RebuildBlockTableIndex cache =
     bind_result (insert_tables (cache_tables cache) 0 (Clear (cache_index cache))) (\<lambda>index. Inr (cache\<lparr>cache_index := index\<rparr>))"

definition RemoveValidated :: "u64 \<Rightarrow> PagedCache \<Rightarrow> paged_error + PagedCache" where
  "RemoveValidated request_id cache =
     (case table_position request_id (cache_tables cache) of
        None \<Rightarrow> Inr cache
      | Some i \<Rightarrow>
          let table = cache_tables cache ! i; hs = map Some (table_blocks table); ws = map Some (table_window_blocks table);
              (pool1, can) = CanFreeValidated hs (cache_pool cache);
              (window1, window_can) = (case cache_window_pool cache of None \<Rightarrow> (None, True)
                | Some w \<Rightarrow> (case CanFreeValidated ws w of (w1, ok) \<Rightarrow> (Some w1, ok)))
          in if \<not> (can \<and> window_can) then Inl PagedTerminated
             else
               bind_result (map_sum PrefixFailure id (observed (FreeValidated hs) (pool1, cache_prefix cache))) (\<lambda>w.
               bind_result (case window1 of None \<Rightarrow> Inr None | Some w1 \<Rightarrow> map_sum WindowFailure Some (FreeValidated ws w1)) (\<lambda>window.
                 RebuildBlockTableIndex ((set_pool w cache)\<lparr>cache_window_pool := window, cache_tables := remove_table i (cache_tables cache)\<rparr>))))"

definition Remove :: "u64 \<Rightarrow> PagedCache \<Rightarrow> paged_error + PagedCache" where
  "Remove request_id cache = bind_result (ValidateRemove request_id cache) (\<lambda>_. RemoveValidated request_id cache)"

definition OwnsRequest :: "u64 \<Rightarrow> PagedCache \<Rightarrow> bool" where
  "OwnsRequest request_id cache =
     (case Find request_id (cache_index cache) of
        None \<Rightarrow> False
      | Some i \<Rightarrow> i < length (cache_tables cache) \<and> table_request_id (cache_tables cache ! i) = request_id)"

definition CommittedSlots :: "u64 \<Rightarrow> PagedCache \<Rightarrow> paged_error + nat" where
  "CommittedSlots request_id cache =
     (case Find request_id (cache_index cache) of
        None \<Rightarrow> Inl CommittedTablesInvalid
      | Some i \<Rightarrow>
          if i \<ge> length (cache_tables cache) \<or> table_request_id (cache_tables cache ! i) \<noteq> request_id then Inl CommittedTablesInvalid
          else Inr (table_committed_slots (cache_tables cache ! i)))"

definition MatchPrefix :: "CheckpointOwners \<Rightarrow> token list \<Rightarrow> nat \<Rightarrow> PagedCache \<Rightarrow> paged_error + PrefixCacheMatch \<times> PagedCache" where
  "MatchPrefix owners tokens max_adoptable_tokens cache =
     map_sum PrefixFailure (\<lambda>(m, c). (m, cache\<lparr>cache_prefix := c\<rparr>)) (Match owners tokens max_adoptable_tokens (cache_pool cache) (cache_prefix cache))"

definition RecordPrefixAdoptions :: "PagedCacheReservation \<Rightarrow> PagedCache \<Rightarrow> paged_error + PagedCache" where
  "RecordPrefixAdoptions r cache =
     map_sum PrefixFailure (\<lambda>c. cache\<lparr>cache_prefix := c\<rparr>)
       (run_result (\<lambda>d c. if delta_adopted_count d = 0 then Inr c
          else RecordAdoption (subspan (delta_adopted_offset d) (delta_adopted_count d) (adopted_blocks r)) (cache_pool cache) c)
        (deltas r) (cache_prefix cache))"

text \<open>The loop over the blocks that are full but not sealed; it stops at the first one that the index refuses.\<close>

fun seal_blocks ::
  "CheckpointOwners \<Rightarrow> token list \<Rightarrow> nat list \<Rightarrow> PagedCacheBlockTable \<times> BlockPool \<times> PrefixCache
   \<Rightarrow> prefix_error + PagedCacheBlockTable \<times> BlockPool \<times> PrefixCache" where
  "seal_blocks owners tokens [] st = Inr st"
| "seal_blocks owners tokens (i # is) (table, w) =
     (let bs = pool_block_size (fst w) in
      bind_result (Register owners (Some (table_blocks table ! i)) (subspan (i * bs) bs tokens) (table_sealed_identity table) w) (\<lambda>(registration, w1).
        case registration_identity registration of
          None \<Rightarrow> Inr (table\<lparr>table_sealing_stopped := StopsSealing registration\<rparr>, w1)
        | Some ident \<Rightarrow> seal_blocks owners tokens is (table\<lparr>table_sealed_blocks := Suc i, table_sealed_identity := Some ident\<rparr>, w1)))"

definition SealCommittedBlocks :: "CheckpointOwners \<Rightarrow> u64 \<Rightarrow> token list \<Rightarrow> PagedCache \<Rightarrow> paged_error + PagedCache" where
  "SealCommittedBlocks owners request_id tokens cache =
     (if \<not> Enabled (cache_prefix cache) then Inr cache
      else if requires_checkpoint (options (cache_prefix cache)) then Inr cache
      else case Find request_id (cache_index cache) of
        None \<Rightarrow> Inr cache
      | Some i \<Rightarrow>
          if i \<ge> length (cache_tables cache) then Inr cache
          else
            let table = cache_tables cache ! i; bs = pool_block_size (cache_pool cache); full_blocks = table_committed_slots table div bs in
            if table_sealing_stopped table then Inr cache
            else if full_blocks \<le> table_sealed_blocks table then Inr cache
            else if length tokens < full_blocks * bs then Inl TokenMirrorShort
            else map_sum PrefixFailure (\<lambda>(table1, w). (set_pool w cache)\<lparr>cache_tables := (cache_tables cache)[i := table1]\<rparr>)
                   (seal_blocks owners tokens [table_sealed_blocks table..<full_blocks] (table, cache_state cache)))"

section \<open>Removing a request\<close>

lemma insert_tables_ok:
  assumes "wf_index m" and "distinct (map table_request_id ts)" and "\<forall>t \<in> set ts. table_request_id t \<noteq> 0 \<and> Find (table_request_id t) m = None"
    and "index_size m + length ts \<le> index_max_entries m"
  shows "\<exists>m'. insert_tables ts n m = Inr m' \<and> wf_index m' \<and> index_size m' = index_size m + length ts \<and> index_max_entries m' = index_max_entries m
    \<and> (\<forall>k. Find k m \<noteq> None \<longrightarrow> Find k m' = Find k m) \<and> (\<forall>i < length ts. Find (table_request_id (ts ! i)) m' = Some (n + i))"
  using assms
proof (induction ts arbitrary: m n)
  case (Cons t ts)
  obtain m1 where i: "Insert (table_request_id t) n m = (m1, True)" "wf_index m1" "index_max_entries m1 = index_max_entries m" "index_size m1 = Suc (index_size m)"
    "(\<lambda>k. Find k m1) = (\<lambda>k. Find k m)(table_request_id t \<mapsto> n)"
    using request_map.insert_ok[of m "table_request_id t" n] Cons.prems by auto
  note f = fun_cong[OF i(5)]
  have "\<forall>x \<in> set ts. table_request_id x \<noteq> 0 \<and> Find (table_request_id x) m1 = None"
    using Cons.prems(2,3) f by (auto simp: image_iff)
  from Cons.IH[OF i(2) _ this, of "Suc n"] Cons.prems(2,4) i(3,4) obtain m' where m': "insert_tables ts (Suc n) m1 = Inr m'" "wf_index m'"
    "index_size m' = Suc (index_size m + length ts)" "index_max_entries m' = index_max_entries m"
    "\<forall>k. Find k m1 \<noteq> None \<longrightarrow> Find k m' = Find k m1" "\<forall>i < length ts. Find (table_request_id (ts ! i)) m' = Some (Suc n + i)" by auto
  have "Find (table_request_id ((t # ts) ! j)) m' = Some (n + j)" if "j < length (t # ts)" for j
    using that m'(5,6) f[of "table_request_id t"] by (cases j) auto
  moreover have "Find k m' = Find k m" if "Find k m \<noteq> None" for k
  proof -
    have "k \<noteq> table_request_id t" using that Cons.prems(3) by auto
    then show ?thesis using that m'(5) f[of k] by simp
  qed
  ultimately show ?case using i(1) m'(1-4) by auto
qed simp

definition stampless :: "PagedCacheBlockTable \<Rightarrow> PagedCacheBlockTable" where
  "stampless t = t\<lparr>table_generation := 0\<rparr>"

lemma stampless_simps [simp]:
  "table_request_id (stampless t) = table_request_id t" "table_blocks (stampless t) = table_blocks t"
  "table_committed_slots (stampless t) = table_committed_slots t" "table_window_blocks (stampless t) = table_window_blocks t"
  "table_sealed_identity (stampless t) = table_sealed_identity t" "stampless (t\<lparr>table_generation := g\<rparr>) = stampless t"
  by (simp_all add: stampless_def)

text \<open>Up to generations, the tables that are left are the old ones without the removed one.\<close>

lemma remove_table_facts:
  assumes "i < length ts"
  obtains ts' where "map stampless (remove_table i ts) = map stampless ts'" and "mset ts' + {#ts ! i#} = mset ts"
proof -
  obtain ys y where ts: "ts = ys @ [y]" using assms by (metis append_butlast_last_id length_greater_0_conv less_zeroE list.size(3))
  show ?thesis
  proof (cases "i = length ys")
    case False
    then have i: "i < length ys" using assms ts by simp
    then have "mset (ys[i := y]) + {#ys ! i#} = mset ys + {#y#}" by (simp add: mset_update)
    then show ?thesis using that[of "ys[i := y]"] i by (simp add: ts remove_table_def nth_append list_update_append map_update)
  next
    case True
    then show ?thesis using that[of ys] by (simp add: ts remove_table_def)
  qed
qed

lemma insert_tables_ids: "map table_request_id ts = map table_request_id ts' \<Longrightarrow> insert_tables ts n m = insert_tables ts' n m"
  by (induction ts ts' arbitrary: n m rule: list_induct2') (simp_all split: prod.splits)

definition extent_of :: "PagedCacheBlockTable list \<Rightarrow> u64 \<Rightarrow> (bptr list \<times> nat) option" where
  "extent_of ts k = map_option (\<lambda>t. (table_blocks t, table_committed_slots t)) (table_for ts k)"

lemma stampless_tables:
  assumes "map stampless ts = map stampless ts'"
  shows "map table_request_id ts = map table_request_id ts'" and "held_by ts = held_by ts'" and "extent_of ts = extent_of ts'"
    and "index_ok ts index \<longleftrightarrow> index_ok ts' index"
    and "(\<forall>t \<in> set ts. table_ok pool held S t \<and> table_window_blocks t = []) \<longleftrightarrow> (\<forall>t \<in> set ts'. table_ok pool held S t \<and> table_window_blocks t = [])"
proof -
  have each: "map f ts = map f ts'" if "\<And>t. f (stampless t) = f t" for f :: "PagedCacheBlockTable \<Rightarrow> 'b"
    using arg_cong[OF assms, of "map f"] that by (simp add: comp_def)
  show ids: "map table_request_id ts = map table_request_id ts'" by (rule each) simp
  show "held_by ts = held_by ts'" unfolding held_by_def using each[of "\<lambda>t. count_list (table_blocks t) p" for p] by (auto intro: arg_cong)
  have "length ts = length ts'" using arg_cong[OF assms, of length] by simp
  then show "index_ok ts index \<longleftrightarrow> index_ok ts' index" unfolding index_ok_def using ids by (metis nth_map)
  have "table_ok pool held S (stampless t) = table_ok pool held S t" for t by (simp add: table_ok_def)
  then have "map (\<lambda>t. table_ok pool held S t \<and> table_window_blocks t = []) ts = map (\<lambda>t. table_ok pool held S t \<and> table_window_blocks t = []) ts'"
    by (intro each) simp
  then have "list_all id (map (\<lambda>t. table_ok pool held S t \<and> table_window_blocks t = []) ts) = list_all id (map (\<lambda>t. table_ok pool held S t \<and> table_window_blocks t = []) ts')"
    by (rule arg_cong)
  then show "(\<forall>t \<in> set ts. table_ok pool held S t \<and> table_window_blocks t = []) \<longleftrightarrow> (\<forall>t \<in> set ts'. table_ok pool held S t \<and> table_window_blocks t = [])"
    by (simp add: list_all_iff)
  show "extent_of ts = extent_of ts'"
    using assms
  proof (induction ts ts' rule: list_induct2')
    case (4 x xs y ys)
    then have "stampless x = stampless y" by simp
    then have "table_request_id x = table_request_id y" "table_blocks x = table_blocks y" "table_committed_slots x = table_committed_slots y"
      by (metis stampless_simps(1), metis stampless_simps(2), metis stampless_simps(3))
    with 4 show ?case by (auto simp: fun_eq_iff extent_of_def table_for_def)
  qed simp_all
qed

lemma table_position_Some: "table_position k ts = Some i \<Longrightarrow> i < length ts \<and> table_request_id (ts ! i) = k"
  using nth_length_takeWhile[of "\<lambda>t. table_request_id t \<noteq> k" ts] by (auto simp: table_position_def Let_def split: if_splits)

lemma table_position_None: "table_position k ts = None \<Longrightarrow> k \<notin> table_request_id ` set ts"
proof -
  assume "table_position k ts = None"
  then have "length (takeWhile (\<lambda>t. table_request_id t \<noteq> k) ts) = length ts"
    using length_takeWhile_le[of "\<lambda>t. table_request_id t \<noteq> k" ts] by (auto simp: table_position_def Let_def split: if_splits)
  then have "takeWhile (\<lambda>t. table_request_id t \<noteq> k) ts = ts" by (metis takeWhile_eq_take take_all_iff order_refl)
  then show ?thesis by (auto simp: takeWhile_eq_all_conv)
qed

lemma held_by_mset: "held_by ts p = sum_mset (image_mset (\<lambda>t. count_list (table_blocks t) p) (mset ts))"
  by (simp add: held_by_def sum_mset_sum_list[symmetric])

lemma held_by_removed: "mset ts' + {#t#} = mset ts \<Longrightarrow> held_by ts p = held_by ts' p + count_list (table_blocks t) p"
  unfolding held_by_mset by (drule sym) simp

lemma removed_tables:
  assumes d: "distinct (map table_request_id ts)" and m: "mset ts' + {#t#} = mset ts"
  shows "distinct (map table_request_id ts')" and "x \<in> set ts' \<longleftrightarrow> x \<in> set ts \<and> table_request_id x \<noteq> table_request_id t"
proof -
  have ids: "mset (map table_request_id ts') + {#table_request_id t#} = mset (map table_request_id ts)"
    using arg_cong[OF m, of "image_mset table_request_id"] by simp
  have mm: "mset (t # ts') = mset ts" using m by simp
  have "mset (map table_request_id (t # ts')) = mset (map table_request_id ts)" using arg_cong[OF mm, of "image_mset table_request_id"] by simp
  then have "distinct (map table_request_id (t # ts'))" using d mset_eq_imp_distinct_iff by blast
  then have dd: "table_request_id t \<notin> table_request_id ` set ts'" "distinct (map table_request_id ts')" by auto
  have st: "set ts = insert t (set ts')" using mset_eq_setD[OF mm] by simp
  show "distinct (map table_request_id ts')" by (rule dd(2))
  show "x \<in> set ts' \<longleftrightarrow> x \<in> set ts \<and> table_request_id x \<noteq> table_request_id t" using dd(1) st by (metis imageI insert_iff)
qed

lemma table_for_removed:
  assumes d: "distinct (map table_request_id ts)" and m: "mset ts' + {#t#} = mset ts"
  shows "table_for ts' k = (if k = table_request_id t then None else table_for ts k)"
proof -
  note r = removed_tables[OF d m]
  have "table_for ts' k = Some x \<longleftrightarrow> (if k = table_request_id t then None else table_for ts k) = Some x" for x
    unfolding table_for_Some[OF r(1)] using table_for_Some[OF d, of k x] r(2)[of x] by auto
  then show ?thesis by (metis not_None_eq)
qed

text \<open>The tables that are left keep their boundaries: a block that one of them can still write was not in the removed one.\<close>

lemma removed_table_ok:
  assumes ok: "paged_ok (\<lambda>_. 0) S cache" and m: "mset ts' + {#t#} = mset (cache_tables cache)" and x: "x \<in> set ts'"
    and bs: "pool_block_size pool' = pool_block_size (cache_pool cache)"
    and used: "\<And>p. block_slots_used (pool_store pool' p) = block_slots_used (pool_store (cache_pool cache) p)"
  shows "table_ok pool' (\<lambda>p. held_by ts' p + 0) S x"
proof -
  have dist: "distinct (map table_request_id (cache_tables cache))" using paged_okD(3)[OF ok] by (simp add: index_ok_def)
  have "x \<in> set (cache_tables cache)" using removed_tables(2)[OF dist m] x by blast
  note k = paged_okD(2)[OF ok this, unfolded table_ok_def Let_def]
  have "held_by ts' (table_blocks x ! j) = 1" if j: "j < length (table_blocks x)" "table_committed_slots x div pool_block_size (cache_pool cache) \<le> j" for j
  proof -
    have "0 < held_by ts' (table_blocks x ! j)" using held_by_zero[of ts' "table_blocks x ! j" x] x nth_mem[OF j(1)] by fastforce
    moreover have "held_by (cache_tables cache) (table_blocks x ! j) = 1" using k j by simp
    ultimately show ?thesis using held_by_removed[OF m, of "table_blocks x ! j"] by linarith
  qed
  then show ?thesis using k by (simp add: table_ok_def bs used)
qed

lemma rebuilt_index:
  assumes ok: "paged_ok extra S cache" and m: "mset ts' + {#t#} = mset (cache_tables cache)"
  obtains index' where "insert_tables ts' 0 (Clear (cache_index cache)) = Inr index'" and "index_ok ts' index'"
    and "index_max_entries index' = index_max_entries (cache_index cache)"
proof -
  note ix = paged_okD(3)[OF ok, unfolded index_ok_def]
  have dist: "distinct (map table_request_id (cache_tables cache))" using ix by simp
  have wf: "wf_index (cache_index cache)" using ix by simp
  have len: "length ts' < length (cache_tables cache)" using arg_cong[OF m, of size] by simp
  have mx: "length (cache_tables cache) \<le> index_max_entries (cache_index cache)" using request_map.used_dom[OF wf] ix by simp
  have cl: "index_size (Clear (cache_index cache)) = 0" "index_max_entries (Clear (cache_index cache)) = index_max_entries (cache_index cache)" by (simp_all add: Clear_def)
  have "\<forall>t \<in> set ts'. table_request_id t \<noteq> 0 \<and> Find (table_request_id t) (Clear (cache_index cache)) = None"
  proof
    fix y assume "y \<in> set ts'"
    then have "y \<in> set (cache_tables cache)" using removed_tables(2)[OF dist m] by blast
    from paged_okD(2)[OF ok this] show "table_request_id y \<noteq> 0 \<and> Find (table_request_id y) (Clear (cache_index cache)) = None"
      using wf_Clear(2)[OF wf] by (simp add: table_ok_def Let_def)
  qed
  from insert_tables_ok[OF wf_Clear(1)[OF wf] removed_tables(1)[OF dist m] this, of 0] cl len mx
  obtain index' where "insert_tables ts' 0 (Clear (cache_index cache)) = Inr index'" "wf_index index'" "index_size index' = length ts'"
    "index_max_entries index' = index_max_entries (cache_index cache)" "\<forall>i < length ts'. Find (table_request_id (ts' ! i)) index' = Some i" by auto
  then show ?thesis using that removed_tables(1)[OF dist m] by (simp add: index_ok_def)
qed

lemma Remove_ok:
  assumes ok: "paged_ok (\<lambda>_. 0) S cache"
  obtains cache' where "Remove k cache = Inr cache'" and "paged_ok (\<lambda>_. 0) S cache'"
    and "\<And>j. extent_of (cache_tables cache') j = (if j = k then None else extent_of (cache_tables cache) j)"
    and "pool_block_size (cache_pool cache') = pool_block_size (cache_pool cache)"
proof (cases "table_position k (cache_tables cache)")
  case None
  have "table_for (cache_tables cache) k = None" using table_position_None[OF None] by (simp add: table_for_None)
  then show ?thesis using that[of cache] ok None by (simp add: extent_of_def Remove_def ValidateRemove_def RemoveValidated_def)
next
  case (Some i)
  let ?t = "cache_tables cache ! i" and ?ts = "remove_table i (cache_tables cache)" and ?pool = "cache_pool cache"
  have i: "i < length (cache_tables cache)" "table_request_id ?t = k" using table_position_Some[OF Some] by auto
  obtain ts' where st: "map stampless ?ts = map stampless ts'" and m: "mset ts' + {#?t#} = mset (cache_tables cache)" by (rule remove_table_facts[OF i(1)])
  note same = stampless_tables[OF st]
  note wf = paged_okD(1)[OF ok]
  have win: "cache_window_pool cache = None" by (rule paged_okD(4)[OF ok])
  have cnt: "\<forall>p. count_list (table_blocks ?t) p \<le> held_by (cache_tables cache) p + 0" using held_by_ge[OF i(1)] by simp
  obtain w0 where v: "observed (Free (map Some (table_blocks ?t))) (?pool, cache_prefix cache) = Inr w0" by (rule Free_kept[OF wf cnt]) blast
  have val: "ValidateFree (map Some (table_blocks ?t)) ?pool = Inr ()"
    using v by (cases w0) (auto dest!: observed_result simp: Free_def split: sum.splits)
  obtain pool1 where p1: "CanFreeValidated (map Some (table_blocks ?t)) ?pool = (pool1, True)" "wf_pool pool1" "same_blocks ?pool pool1"
    using CanFreeValidated_correct[OF wf_cacheD(1)[OF wf], of "map Some (table_blocks ?t)"] val
    by (cases "CanFreeValidated (map Some (table_blocks ?t)) ?pool") (auto simp: ValidateFree_ok)
  have wf1: "wf_cache (\<lambda>p. held_by (cache_tables cache) p + 0) S (pool1, cache_prefix cache)"
    using p1(3) by (intro wf_cache_same_blocks[OF wf p1(2)]) (simp_all add: same_blocks_def)
  obtain pool' c' where f: "observed (Free (map Some (table_blocks ?t))) (pool1, cache_prefix cache) = Inr (pool', c')"
    "wf_cache (\<lambda>p. held_by (cache_tables cache) p + 0 - count_list (table_blocks ?t) p) S (pool', c')" "pool_block_size pool' = pool_block_size pool1"
    by (rule Free_kept[OF wf1 cnt]) blast
  have fv: "FreeValidated (map Some (table_blocks ?t)) pool1 = Inr pool'" "observed (FreeValidated (map Some (table_blocks ?t))) (pool1, cache_prefix cache) = Inr (pool', c')"
    using observed_result[OF f(1)] f(1) by (auto simp: Free_def observed_def split: sum.splits)
  have used: "block_slots_used (pool_store pool' p) = block_slots_used (pool_store ?pool p)" for p
    using FreeValidated_slots[OF p1(2) fv(1)] p1(3) by (simp add: same_blocks_def)
  have bs: "pool_block_size pool' = pool_block_size ?pool" using f(3) p1(3) by (simp add: same_blocks_def)
  obtain index' where "insert_tables ts' 0 (Clear (cache_index cache)) = Inr index'" "index_ok ts' index'" by (rule rebuilt_index[OF ok m])
  then have ix: "insert_tables ?ts 0 (Clear (cache_index cache)) = Inr index'" "index_ok ?ts index'" using insert_tables_ids[OF same(1)] same(4) by simp_all
  define cache' where "cache' = (set_pool (pool', c') cache)\<lparr>cache_tables := ?ts, cache_index := index'\<rparr>"
  have dist: "distinct (map table_request_id (cache_tables cache))" using paged_okD(3)[OF ok] by (simp add: index_ok_def)
  have "(\<lambda>p. held_by (cache_tables cache) p + 0 - count_list (table_blocks ?t) p) = (\<lambda>p. held_by ts' p + 0)" using held_by_removed[OF m] by simp
  with f(2) have "wf_cache (\<lambda>p. held_by ?ts p + 0) S (pool', c')" by (simp add: same(2))
  moreover have "\<forall>x \<in> set ?ts. table_ok pool' (\<lambda>p. held_by ?ts p + 0) S x \<and> table_window_blocks x = []"
    unfolding same(2,5) using removed_table_ok[OF ok m _ bs used] removed_tables(2)[OF dist m] paged_okD(6)[OF ok] by blast
  ultimately have "paged_ok (\<lambda>_. 0) S cache'"
    using ix(2) paged_okD(4,5)[OF ok] by (simp add: paged_ok_def cache'_def set_pool_def cache_state_def list_all_iff)
  moreover have "Remove k cache = Inr cache'"
    using Some val p1(1) fv(2) ix(1) win
    by (simp add: Remove_def ValidateRemove_def RemoveValidated_def RebuildBlockTableIndex_def Let_def cache'_def set_pool_def)
  moreover have "extent_of (cache_tables cache') j = (if j = k then None else extent_of (cache_tables cache) j)" for j
    using table_for_removed[OF dist m, of j] i(2) by (auto simp: cache'_def same(3)) (auto simp: extent_of_def)
  ultimately show ?thesis using that[of cache'] bs by (simp add: cache'_def set_pool_def)
qed

section \<open>Sealing\<close>

definition same_table :: "PagedCacheBlockTable \<Rightarrow> PagedCacheBlockTable \<Rightarrow> bool" where
  "same_table t t' \<longleftrightarrow> table_request_id t' = table_request_id t \<and> table_committed_slots t' = table_committed_slots t \<and> table_blocks t' = table_blocks t
     \<and> table_window_blocks t' = table_window_blocks t \<and> table_generation t' = table_generation t"

lemma same_table_trans: "same_table a b \<Longrightarrow> same_table b c \<Longrightarrow> same_table a c"
  by (simp add: same_table_def)

lemma register_held:
  assumes wf: "wf_cache held S (pool, c)" and p: "0 < held p" and full: "block_slots_used (pool_store pool p) = pool_block_size pool"
    and len: "length ts = pool_block_size pool" and parent: "known S parent" and en: "Enabled c"
  obtains r pool' c' where "Register owners (Some p) ts parent (pool, c) = Inr (r, pool', c')"
    and "wf_cache held (S \<union> set_option (registration_identity r)) (pool', c')"
    and "\<And>q. 0 < held q \<Longrightarrow> block_slots_used (pool_store pool' q) = block_slots_used (pool_store pool q)"
    and "pool_block_size pool' = pool_block_size pool" and "options c' = options c"
    and "identity (pool_store pool' p) = registration_identity r"
    and "\<And>q. 0 < held q \<Longrightarrow> q \<noteq> p \<Longrightarrow> identity (pool_store pool' q) = identity (pool_store pool q)"
proof -
  note d = wf_cacheD[OF wf]
  have own: "Owns pool (Some p)" using refs_okD(2)[OF d(5), of p] p by fastforce
  from wf_pool_slotD(2)[OF d(1) OwnsD[OF own]] have "IsFull (pool_store pool p)" using full by (simp add: wf_block_def IsFull_def)
  moreover have "case parent of None \<Rightarrow> True | Some x \<Rightarrow> x \<in> S" using parent by (simp add: known_def)
  ultimately obtain r w' where r: "Register owners (Some p) ts parent (pool, c) = Inr (r, w')"
    "wf_cache held (S \<union> set_option (registration_identity r)) w'" "registered (pool, c) p ts parent r w'"
    using Register_ok[OF wf own _ len _ en] by blast
  obtain pool' c' where w': "w' = (pool', c')" by fastforce
  note g = r(3)[unfolded registered_def w']
  have own': "Owns pool' (Some q)" if "0 < held q" for q using refs_okD(2)[OF wf_cacheD(5)[OF r(2)[unfolded w']], of q] that by fastforce
  have other: "pool_store pool' q = pool_store pool q" if "0 < held q" "q \<noteq> p" for q using g own'[OF that(1)] that(2) by simp
  have "block_slots_used (pool_store pool' p) = block_slots_used (pool_store pool p)"
  proof (cases "registration_identity r")
    case (Some x)
    then have "identity (pool_store pool' p) = Some x" using g by simp
    then show ?thesis using wf_pool_slotD(2)[OF wf_cacheD(1)[OF r(2)[unfolded w']] OwnsD[OF own'[OF p]]] full g by (simp add: wf_block_def IsFull_def)
  qed (use g in simp)
  then have "block_slots_used (pool_store pool' q) = block_slots_used (pool_store pool q)" if "0 < held q" for q
    using other[OF that] by (cases "q = p") simp_all
  then show ?thesis using that[of r pool' c'] r(1,2) w' g other by simp
qed

lemma seal_blocks_ok:
  assumes "wf_cache held S (pool, c)" and "Enabled c" and "known S (table_sealed_identity t)"
    and "\<forall>i \<in> set is. 0 < held (table_blocks t ! i) \<and> block_slots_used (pool_store pool (table_blocks t ! i)) = pool_block_size pool
      \<and> Suc i * pool_block_size pool \<le> length tokens"
  shows "\<exists>t' pool' c' S'. seal_blocks owners tokens is (t, pool, c) = Inr (t', pool', c') \<and> S \<subseteq> S' \<and> wf_cache held S' (pool', c') \<and> same_table t t'
    \<and> known S' (table_sealed_identity t') \<and> pool_block_size pool' = pool_block_size pool \<and> options c' = options c
    \<and> (\<forall>q. 0 < held q \<longrightarrow> block_slots_used (pool_store pool' q) = block_slots_used (pool_store pool q))"
  using assms
proof (induction "is" arbitrary: t pool c S)
  case Nil
  then show ?case by (auto simp: same_table_def)
next
  case (Cons i "is")
  let ?p = "table_blocks t ! i" and ?bs = "pool_block_size pool"
  have i: "0 < held ?p" "block_slots_used (pool_store pool ?p) = ?bs" "Suc i * ?bs \<le> length tokens" using Cons.prems(4) by auto
  have len: "length (subspan (i * ?bs) ?bs tokens) = ?bs" using i(3) by (simp add: subspan_def)
  obtain r pool1 c1 where r: "Register owners (Some ?p) (subspan (i * ?bs) ?bs tokens) (table_sealed_identity t) (pool, c) = Inr (r, pool1, c1)"
    "wf_cache held (S \<union> set_option (registration_identity r)) (pool1, c1)"
    "\<And>q. 0 < held q \<Longrightarrow> block_slots_used (pool_store pool1 q) = block_slots_used (pool_store pool q)" "pool_block_size pool1 = ?bs" "options c1 = options c"
    by (rule register_held[OF Cons.prems(1) i(1,2) len Cons.prems(3,2), of owners]) blast
  show ?case
  proof (cases "registration_identity r")
    case None
    then show ?thesis using r Cons.prems(3)
      by (intro exI[of _ "t\<lparr>table_sealing_stopped := StopsSealing r\<rparr>"] exI[of _ pool1] exI[of _ c1] exI[of _ S]) (simp add: same_table_def Let_def)
  next
    case (Some x)
    let ?t = "t\<lparr>table_sealed_blocks := Suc i, table_sealed_identity := Some x\<rparr>" and ?S = "insert x S"
    have "wf_cache held ?S (pool1, c1)" using r(2) Some by simp
    moreover have "Enabled c1" using Cons.prems(2) r(5) by (simp add: Enabled_def)
    moreover have "known ?S (table_sealed_identity ?t)" by simp
    moreover have "\<forall>i \<in> set is. 0 < held (table_blocks ?t ! i) \<and> block_slots_used (pool_store pool1 (table_blocks ?t ! i)) = pool_block_size pool1
      \<and> Suc i * pool_block_size pool1 \<le> length tokens" using Cons.prems(4) r(3,4) by auto
    ultimately obtain t' pool' c' S' where q: "seal_blocks owners tokens is (?t, pool1, c1) = Inr (t', pool', c')" "?S \<subseteq> S'" "wf_cache held S' (pool', c')" "same_table ?t t'"
      "known S' (table_sealed_identity t')" "pool_block_size pool' = pool_block_size pool1" "options c' = options c1"
      "\<forall>q. 0 < held q \<longrightarrow> block_slots_used (pool_store pool' q) = block_slots_used (pool_store pool1 q)" using Cons.IH by blast
    have "same_table t ?t" by (simp add: same_table_def)
    then show ?thesis using q r Some same_table_trans[of t ?t t']
      by (intro exI[of _ t'] exI[of _ pool'] exI[of _ c'] exI[of _ S']) (simp add: Let_def)
  qed
qed

lemma known_mono: "known S x \<Longrightarrow> S \<subseteq> S' \<Longrightarrow> known S' x"
  by (auto simp: known_def split: option.splits)

lemma held_by_same: "same_table (ts ! i) t' \<Longrightarrow> i < length ts \<Longrightarrow> held_by (ts[i := t']) p = held_by ts p"
  using held_by_update[of i ts t' p] by (simp add: same_table_def)

lemma table_for_same:
  assumes "same_table (ts ! i) t'" and "i < length ts"
  shows "extent_of (ts[i := t']) k = extent_of ts k"
  using assms
proof (induction ts arbitrary: i)
  case (Cons t ts)
  then show ?case by (cases i) (auto simp: extent_of_def table_for_def same_table_def)
qed simp

lemma Seal_ok:
  assumes ok: "paged_ok (\<lambda>_. 0) S cache" and run: "SealCommittedBlocks owners k tokens cache = res"
  shows "(\<exists>cache' S'. res = Inr cache' \<and> S \<subseteq> S' \<and> paged_ok (\<lambda>_. 0) S' cache' \<and> pool_block_size (cache_pool cache') = pool_block_size (cache_pool cache)
      \<and> (\<forall>j. extent_of (cache_tables cache') j
          = extent_of (cache_tables cache) j))
    \<or> (res = Inl TokenMirrorShort \<and> (\<exists>t. table_for (cache_tables cache) k = Some t \<and> length tokens < table_committed_slots t))"
proof -
  let ?bs = "pool_block_size (cache_pool cache)" and ?ts = "cache_tables cache"
  note bs = paged_block_size[OF ok]
  have unchanged: ?thesis if "res = Inr cache" using that ok by auto
  show ?thesis
  proof (cases "Find k (cache_index cache)")
    case None
    then have "res = Inr cache" using run by (auto simp: SealCommittedBlocks_def split: if_splits)
    then show ?thesis by (rule unchanged)
  next
    case (Some i)
    then have i: "i < length ?ts" "table_request_id (?ts ! i) = k" using index_ok_Find[OF paged_okD(3)[OF ok]] by auto
    let ?t = "?ts ! i" and ?full = "table_committed_slots (?ts ! i) div ?bs"
    have dist: "distinct (map table_request_id ?ts)" using paged_okD(3)[OF ok] by (simp add: index_ok_def)
    note tk = paged_okD(2)[OF ok nth_mem[OF i(1)], unfolded table_ok_def Let_def]
    consider (stay) "res = Inr cache" | (short) "res = Inl TokenMirrorShort" "length tokens < ?full * ?bs"
      | (go) "Enabled (cache_prefix cache)" "?full * ?bs \<le> length tokens"
          "res = map_sum PrefixFailure (\<lambda>(table1, w). (set_pool w cache)\<lparr>cache_tables := ?ts[i := table1]\<rparr>)
             (seal_blocks owners tokens [table_sealed_blocks ?t..<?full] (?t, cache_pool cache, cache_prefix cache))"
      using run i Some by (auto simp: SealCommittedBlocks_def Let_def cache_state_def split: if_splits)
    then show ?thesis
    proof cases
      case stay
      then show ?thesis by (rule unchanged)
    next
      case short
      have "length tokens < table_committed_slots ?t" using short(2) div_times_less_eq_dividend by (rule less_le_trans)
      moreover have "table_for ?ts k = Some ?t" unfolding table_for_Some[OF dist] using i by simp
      ultimately show ?thesis using short by auto
    next
      case go
      have each: "\<forall>j \<in> set [table_sealed_blocks ?t..<?full]. 0 < held_by ?ts (table_blocks ?t ! j) + 0
          \<and> block_slots_used (pool_store (cache_pool cache) (table_blocks ?t ! j)) = ?bs \<and> Suc j * ?bs \<le> length tokens"
      proof
        fix j assume "j \<in> set [table_sealed_blocks ?t..<?full]"
        then have j: "Suc j \<le> ?full" by simp
        then have le: "Suc j * ?bs \<le> table_committed_slots ?t" using less_eq_div_iff_mult_less_eq[OF bs] by blast
        have "?full \<le> length (table_blocks ?t)" using tk div_le_mono[of "table_committed_slots ?t" "length (table_blocks ?t) * ?bs" ?bs] bs by simp
        then have jl: "j < length (table_blocks ?t)" using j by linarith
        have "0 < held_by ?ts (table_blocks ?t ! j)" using held_by_zero[of ?ts "table_blocks ?t ! j" ?t] nth_mem[OF i(1)] nth_mem[OF jl] by fastforce
        moreover have "min ?bs (table_committed_slots ?t - j * ?bs) = ?bs" using le by (simp add: min_def)
        moreover have "Suc j * ?bs \<le> length tokens" using mult_le_mono1[OF j, of ?bs] go(2) by linarith
        ultimately show "0 < held_by ?ts (table_blocks ?t ! j) + 0 \<and> block_slots_used (pool_store (cache_pool cache) (table_blocks ?t ! j)) = ?bs \<and> Suc j * ?bs \<le> length tokens"
          using tk jl by simp
      qed
      obtain t' pool' c' S' where q: "seal_blocks owners tokens [table_sealed_blocks ?t..<?full] (?t, cache_pool cache, cache_prefix cache) = Inr (t', pool', c')"
        "S \<subseteq> S'" "wf_cache (\<lambda>p. held_by ?ts p + 0) S' (pool', c')" "same_table ?t t'" "known S' (table_sealed_identity t')" "pool_block_size pool' = ?bs"
        "\<forall>q. 0 < held_by ?ts q + 0 \<longrightarrow> block_slots_used (pool_store pool' q) = block_slots_used (pool_store (cache_pool cache) q)"
        using seal_blocks_ok[OF paged_okD(1)[OF ok] go(1) _ each, of owners] tk by blast
      let ?ts' = "?ts[i := t']"
      have held: "held_by ?ts' p = held_by ?ts p" for p by (rule held_by_same[OF q(4) i(1)])
      have old: "table_ok pool' (\<lambda>p. held_by ?ts p + 0) S' x" if x: "x \<in> set ?ts" for x
      proof -
        have u: "block_slots_used (pool_store pool' p) = block_slots_used (pool_store (cache_pool cache) p)" if "p \<in> set (table_blocks x)" for p
          using q(7) held_by_zero[of ?ts p x] x that by fastforce
        show ?thesis using paged_okD(2)[OF ok x] known_mono[OF _ q(2)] u by (simp add: table_ok_def Let_def q(6))
      qed
      have "table_ok pool' (\<lambda>p. held_by ?ts p + 0) S' t'" using old[OF nth_mem[OF i(1)]] q(4,5) by (simp add: table_ok_def Let_def same_table_def)
      then have tables: "table_ok pool' (\<lambda>p. held_by ?ts' p + 0) S' x \<and> table_window_blocks x = []" if "x \<in> set ?ts'" for x
        using that old set_update_subset_insert[of ?ts i t'] paged_okD(6)[OF ok] nth_mem[OF i(1)] q(4) unfolding held by (auto simp: same_table_def)
      have ids: "map table_request_id ?ts' = map table_request_id ?ts" using i(1) q(4) by (metis list_update_id map_update same_table_def)
      have "index_ok ?ts' (cache_index cache)"
        using paged_okD(3)[OF ok] unfolding index_ok_def ids by (metis ids length_map nth_map)
      then have "paged_ok (\<lambda>_. 0) S' ((set_pool (pool', c') cache)\<lparr>cache_tables := ?ts'\<rparr>)"
        using q(3) tables paged_okD(4,5)[OF ok] by (simp add: paged_ok_def set_pool_def cache_state_def list_all_iff held)
      then show ?thesis using go(3) q(1,2,6) table_for_same[OF q(4) i(1)]
        by (intro disjI1 exI[of _ "(set_pool (pool', c') cache)\<lparr>cache_tables := ?ts'\<rparr>"] exI[of _ S']) (simp add: set_pool_def)
    qed
  qed
qed

end
