(* ===== verification/Paged_Fill.thy ===== *)
theory Paged_Fill
  imports Paged_Cache
begin

text \<open>
  The block tables that a step hands to the model: each row lists the blocks that the request will have once the reservation
  is committed.
\<close>

section \<open>Resolving requests\<close>

text \<open>A reservation after lookups, which only marks deltas.\<close>

definition marked :: "PagedCacheReservation \<Rightarrow> u64 list \<Rightarrow> u64 \<Rightarrow> PagedCacheReservation" where
  "marked r gens g = r\<lparr>delta_visit_generations := gens, next_delta_visit_generation := g\<rparr>"

lemma marked_simps [simp]:
  "deltas (marked r gens g) = deltas r" "delta_index (marked r gens g) = delta_index r" "resident_table_index (marked r gens g) = resident_table_index r"
  "reserved_blocks (marked r gens g) = reserved_blocks r" "adopted_blocks (marked r gens g) = adopted_blocks r" "new_tables (marked r gens g) = new_tables r"
  "delta_visit_generations (marked r gens g) = gens" "next_delta_visit_generation (marked r gens g) = g"
  "(marked r gens g)\<lparr>delta_visit_generations := gens'\<rparr> = marked r gens' g"
  by (simp_all add: marked_def)

lemma pending_marked: "pending (marked r gens g) S cache rsv adp n ds \<longleftrightarrow> pending r S cache rsv adp n ds"
  by (induction ds arbitrary: rsv adp n) (auto simp: delta_base_def)

lemma row_of_marked: "row_of (marked r gens g) cache d = row_of r cache d"
  by (simp add: row_of_def block_row_def split: option.splits)

lemma reservation_marked:
  assumes "reservation_ok S r cache" and "length gens = length (deltas r)" and "\<forall>x \<in> set gens. x < g"
  shows "reservation_ok S (marked r gens g) cache"
proof -
  have "advance_ok (marked r gens g) cache d \<longleftrightarrow> advance_ok r cache d" for d unfolding advance_ok_def row_of_marked by (simp add: marked_def Let_def)
  moreover have "left_over (marked r gens g) = left_over r" by (simp add: left_over_def fun_eq_iff)
  moreover have "reserved_ok (marked r gens g) 0 0 cache \<longleftrightarrow> reserved_ok r 0 0 cache" by (simp add: reserved_ok_def left_over_def)
  moreover have "visits_ok (marked r gens g)" using assms(2,3) by (simp add: visits_ok_def)
  ultimately show ?thesis
    using assms(1) unfolding reservation_ok_def by (simp add: pending_marked list_all_iff) (simp add: marked_def)
qed

text \<open>The row of a request: the ids of its blocks, filled up with \<open>-1\<close>.\<close>

definition table_row :: "nat \<Rightarrow> PagedCache \<Rightarrow> bptr list \<Rightarrow> int list" where
  "table_row columns cache blocks =
     (let ids = map (\<lambda>p. int32_of (block_id (pool_store (cache_pool cache) p))) blocks in ids @ replicate (columns - length ids) (- 1))"

definition delta_for :: "PagedCacheReservation \<Rightarrow> u64 \<Rightarrow> PagedCacheReservationDelta option" where
  "delta_for r k = find (\<lambda>d. delta_request_id d = k) (deltas r)"

lemma delta_for_index:
  assumes ok: "reservation_ok S r cache" and i: "i < length (deltas r)"
  shows "delta_for r (delta_request_id (deltas r ! i)) = Some (deltas r ! i)"
proof -
  have "delta_request_id (deltas r ! j) \<noteq> delta_request_id (deltas r ! i)" if "j < i" for j
  proof
    assume "delta_request_id (deltas r ! j) = delta_request_id (deltas r ! i)"
    then have "Some j = Some i" using reservation_okD(6)[OF ok] that i by (metis less_trans)
    with that show False by simp
  qed
  then show ?thesis unfolding delta_for_def find_Some_iff using i by (intro exI[of _ i]) auto
qed

lemma fill_rows_ok:
  assumes ok: "reservation_ok S r cache"
  shows "distinct ks \<Longrightarrow> \<forall>k \<in> set ks. \<exists>i < length (deltas r). delta_request_id (deltas r ! i) = k \<and> gens ! i \<noteq> visit \<Longrightarrow> length gens = length (deltas r) \<Longrightarrow>
    \<exists>gens'. fill_rows visit columns cache ks (marked r gens g)
        = Inr (marked r gens' g, concat (map (\<lambda>k. table_row columns cache (row_of r cache (the (delta_for r k)))) ks))
      \<and> length gens' = length gens \<and> set gens' \<subseteq> insert visit (set gens)"
proof (induction ks arbitrary: gens)
  case (Cons k ks)
  obtain i where i: "i < length (deltas r)" "delta_request_id (deltas r ! i) = k" "gens ! i \<noteq> visit" using Cons.prems(2) by auto
  let ?gens = "gens[i := visit]"
  have find: "Find k (delta_index r) = Some i" using reservation_okD(6)[OF ok i(1)] i(2) by simp
  have res: "ResolveDelta k visit (marked r gens g) = Inr (marked r ?gens g, deltas r ! i)" using i find Cons.prems(3) by (simp add: ResolveDelta_def)
  have com: "FindCommittedTable (resident_table_index r) (cache_tables cache) k = Inr (Find k (resident_table_index r))"
    using delta_found_ok[OF reservation_resident[OF ok], of "deltas r ! i"] i(2) by (simp add: delta_found_def)
  have rest: "\<forall>k' \<in> set ks. \<exists>j < length (deltas r). delta_request_id (deltas r ! j) = k' \<and> ?gens ! j \<noteq> visit"
  proof
    fix k' assume k': "k' \<in> set ks"
    then obtain j where j: "j < length (deltas r)" "delta_request_id (deltas r ! j) = k'" "gens ! j \<noteq> visit" using Cons.prems(2) by auto
    have "j \<noteq> i" using j(2) i(2) k' Cons.prems(1) by auto
    then show "\<exists>j < length (deltas r). delta_request_id (deltas r ! j) = k' \<and> ?gens ! j \<noteq> visit" using j by (intro exI[of _ j]) simp
  qed
  from Cons.IH[OF _ rest] Cons.prems(1,3) obtain gens' where
    r: "fill_rows visit columns cache ks (marked r ?gens g) = Inr (marked r gens' g, concat (map (\<lambda>k. table_row columns cache (row_of r cache (the (delta_for r k)))) ks))"
    "length gens' = length gens" "set gens' \<subseteq> insert visit (set ?gens)" by auto
  have row: "block_row (marked r ?gens g) cache (Find k (resident_table_index r)) (deltas r ! i) = row_of r cache (the (delta_for r k))"
    using delta_for_index[OF ok i(1)] i(2) by (simp add: row_of_def block_row_def split: option.splits)
  have "set gens' \<subseteq> insert visit (set gens)" using r(3) set_update_subset_insert[of gens i visit] by blast
  then show ?case using r(1,2) by (auto simp: res com row table_row_def Let_def)
next
  case Nil
  then show ?case by (intro exI[of _ gens]) auto
qed

lemma required_columns_le:
  assumes ok: "reservation_ok S r cache"
  shows "pending r S cache rsv adp n ds \<Longrightarrow> \<exists>m. required_columns r cache ds c = Inr m \<and> (m \<le> columns \<longleftrightarrow> c \<le> columns \<and> (\<forall>d \<in> set ds. length (row_of r cache d) \<le> columns))"
proof (induction ds arbitrary: rsv adp n c)
  case (Cons d ds)
  obtain t where d: "publishable r S cache rsv adp n d t" by (rule pending_publishable[OF Cons.prems])
  let ?found = "Find (delta_request_id d) (resident_table_index r)"
  have "delta_committed_blocks cache ?found d = length (table_blocks t)"
    using d by (auto simp: publishable_def delta_base_def delta_committed_blocks_def subspan_def split: if_splits)
  then have len: "delta_committed_blocks cache ?found d + delta_reserved_count d = length (row_of r cache d)"
    using row_of_base[OF d] publishable_facts(1)[OF d] by simp
  from Cons.prems have "pending r S cache (rsv + delta_reserved_count d) (adp + delta_adopted_count d) (n + (if delta_newly_admitted d then 1 else 0)) ds" by simp
  from Cons.IH[OF this, of "max c (length (row_of r cache d))"] show ?case
    by (auto simp: delta_found_ok[OF reservation_resident[OF ok]] len)
qed simp

lemma less_plus_one: "x \<noteq> - 1 \<Longrightarrow> x < x + (1 :: u64)"
  using inc_less_eq_self_iff_eq[of x] by (simp add: not_less[symmetric])

lemma begin_resolution:
  assumes "visits_ok r"
  obtains gens visit where "BeginDeltaResolution r = (marked r gens (visit + 1), visit)" and "length gens = length (deltas r)"
    and "\<forall>x \<in> set gens. x < visit" and "visit < visit + 1"
proof (cases "next_delta_visit_generation r = - 1")
  case True
  then show ?thesis using assms
    by (intro that[of "map (\<lambda>_. 0) (delta_visit_generations r)" 1]) (auto simp: visits_ok_def BeginDeltaResolution_def marked_def)
next
  case False
  then show ?thesis using assms less_plus_one[of "next_delta_visit_generation r"]
    by (intro that[of "delta_visit_generations r" "next_delta_visit_generation r"]) (auto simp: visits_ok_def BeginDeltaResolution_def marked_def)
qed

lemma FillBlockTable_ok:
  assumes ok: "reservation_ok S r cache" and ks: "distinct ks" "set ks \<subseteq> delta_request_id ` set (deltas r)"
    and cols: "\<forall>d \<in> set (deltas r). length (row_of r cache d) \<le> columns" and size: "output_size = length ks * columns"
  obtains r' where "FillBlockTable ks columns output_size r cache
      = Inr (r', concat (map (\<lambda>k. table_row columns cache (row_of r cache (the (delta_for r k)))) ks))"
    and "reservation_ok S r' cache" and "\<exists>gens g. r' = marked r gens g"
proof -
  obtain m where m: "RequiredBlockTableColumns r cache = Inr m" "m \<le> columns"
    using required_columns_le[OF ok reservation_okD(5)[OF ok], of 0 columns] cols by (auto simp: RequiredBlockTableColumns_def)
  have len: "length ks \<le> length (deltas r)"
    using ks card_mono[OF _ ks(2)] distinct_card[OF ks(1)] card_image_le[of "set (deltas r)" delta_request_id] card_length[of "deltas r"] by fastforce
  obtain gens visit where b: "BeginDeltaResolution r = (marked r gens (visit + 1), visit)" and gl: "length gens = length (deltas r)"
    and lt: "\<forall>x \<in> set gens. x < visit" and nx: "visit < visit + 1" by (rule begin_resolution[OF reservation_okD(12)[OF ok]])
  have "\<forall>k \<in> set ks. \<exists>i < length (deltas r). delta_request_id (deltas r ! i) = k \<and> gens ! i \<noteq> visit"
  proof
    fix k assume "k \<in> set ks"
    then obtain i where i: "i < length (deltas r)" "delta_request_id (deltas r ! i) = k" using ks(2) by (metis imageE in_set_conv_nth subsetD)
    have "gens ! i < visit" using lt i(1) gl by simp
    then show "\<exists>i < length (deltas r). delta_request_id (deltas r ! i) = k \<and> gens ! i \<noteq> visit" using i by auto
  qed
  from fill_rows_ok[OF ok ks(1) this gl, of columns "visit + 1"] obtain gens' where
    f: "fill_rows visit columns cache ks (marked r gens (visit + 1)) = Inr (marked r gens' (visit + 1), concat (map (\<lambda>k. table_row columns cache (row_of r cache (the (delta_for r k)))) ks))"
    "length gens' = length gens" "set gens' \<subseteq> insert visit (set gens)" by blast
  have "\<forall>x \<in> set gens'. x < visit + 1" using f(3) lt nx by (auto dest: subsetD intro: less_trans)
  then have "reservation_ok S (marked r gens' (visit + 1)) cache" using reservation_marked[OF ok] f(2) gl by simp
  moreover have "FillBlockTable ks columns output_size r cache
      = Inr (marked r gens' (visit + 1), concat (map (\<lambda>k. table_row columns cache (row_of r cache (the (delta_for r k)))) ks))"
    using m len size f(1) reservation_okD(1)[OF ok] by (simp add: FillBlockTable_def check_def b)
  ultimately show ?thesis using that by blast
qed

lemma fill_rows_marks:
  "fill_rows visit columns cache ks (marked r gens g) = Inr (r', out) \<Longrightarrow>
    \<exists>gens'. r' = marked r gens' g \<and> length gens' = length gens \<and> set gens' \<subseteq> insert visit (set gens)"
proof (induction ks arbitrary: gens r' out)
  case Nil
  then show ?case by auto
next
  case (Cons k ks)
  then obtain i out' where i: "fill_rows visit columns cache ks (marked r (gens[i := visit]) g) = Inr (r', out')"
    by (auto simp: bind_result_Inr_iff ResolveDelta_def Let_def split: option.splits if_splits prod.splits)
  show ?case using Cons.IH[OF i] set_update_subset_insert[of gens i visit] by fastforce
qed

lemma FillBlockTable_kept:
  assumes ok: "reservation_ok S r cache" and run: "FillBlockTable ks columns output_size r cache = Inr (r', out)"
  shows "reservation_ok S r' cache"
proof -
  obtain gens visit where b: "BeginDeltaResolution r = (marked r gens (visit + 1), visit)" "length gens = length (deltas r)" "\<forall>x \<in> set gens. x < visit" "visit < visit + 1"
    by (rule begin_resolution[OF reservation_okD(12)[OF ok]])
  have "fill_rows visit columns cache ks (marked r gens (visit + 1)) = Inr (r', out)"
    using run by (auto simp: FillBlockTable_def bind_result_Inr_iff b(1))
  from fill_rows_marks[OF this] obtain gens' where g: "r' = marked r gens' (visit + 1)" "length gens' = length gens" "set gens' \<subseteq> insert visit (set gens)" by blast
  have "\<forall>x \<in> set gens'. x < visit + 1" using g(3) b(3,4) by (auto dest: subsetD intro: less_trans)
  then show ?thesis using reservation_marked[OF ok] g(1,2) b(2) by simp
qed

end
