(* ===== verification/Paged_Life.thy ===== *)
theory Paged_Life
  imports Paged_Fill "HOL-Library.Code_Target_Nat"
begin

text \<open>
  The paged cache over its whole life: every state that matching, reserving, shortening, committing, giving up, sealing and
  removing can reach satisfies the invariant of the tables, and what follows from it for the requests.
\<close>

section \<open>States that can be reached\<close>

definition new_paged_cache :: "BlockPool \<times> PrefixCache \<Rightarrow> RequestIndex \<Rightarrow> PagedCache" where
  "new_paged_cache w index = \<lparr>cache_pool = fst w, cache_prefix = snd w, cache_window_pool = None, cache_ring_blocks = 0, cache_tables = [], cache_index = index\<rparr>"

inductive paged_run :: "PrefixCacheOptions \<Rightarrow> nat \<Rightarrow> nat \<Rightarrow> PagedCache \<Rightarrow> PagedCacheReservation option \<Rightarrow> bool"
  for opts :: PrefixCacheOptions and bs :: nat and cap :: nat
where
  paged_start: "new_prefix_cache opts self (new_pool bs cap) = Inr w \<Longrightarrow> new_index n = Inr index \<Longrightarrow> paged_run opts bs cap (new_paged_cache w index) None"
| paged_match: "paged_run opts bs cap cache None \<Longrightarrow> MatchPrefix owners tokens n cache = Inr (m, cache') \<Longrightarrow> paged_run opts bs cap cache' None"
| paged_refused: "paged_run opts bs cap cache None \<Longrightarrow> Reserve owners qs cache = (cache', Inl e) \<Longrightarrow> paged_run opts bs cap cache' None"
| paged_reserve: "paged_run opts bs cap cache None \<Longrightarrow> list_all (bounded cache) qs \<Longrightarrow> Reserve owners qs cache = (cache', Inr r) \<Longrightarrow>
    paged_run opts bs cap cache' (Some r)"
| paged_shorten: "paged_run opts bs cap cache (Some r) \<Longrightarrow> CommitPrefix k steps kept r = Inr r' \<Longrightarrow> paged_run opts bs cap cache (Some r')"
| paged_fill: "paged_run opts bs cap cache (Some r) \<Longrightarrow> FillBlockTable ks columns n r cache = Inr (r', rows) \<Longrightarrow> paged_run opts bs cap cache (Some r')"
| paged_commit: "paged_run opts bs cap cache (Some r) \<Longrightarrow> Commit r cache = Inr (r', cache') \<Longrightarrow> paged_run opts bs cap cache' None"
| paged_adopt: "paged_run opts bs cap cache None \<Longrightarrow> RecordPrefixAdoptions r cache = Inr cache' \<Longrightarrow> paged_run opts bs cap cache' None"
| paged_destroy: "paged_run opts bs cap cache (Some r) \<Longrightarrow> destroy_reservation r cache = Inr cache' \<Longrightarrow> paged_run opts bs cap cache' None"
| paged_release: "paged_run opts bs cap cache (Some r) \<Longrightarrow> ReleaseReservation r cache = Inr (r', cache') \<Longrightarrow> paged_run opts bs cap cache' None"
| paged_seal: "paged_run opts bs cap cache None \<Longrightarrow> SealCommittedBlocks owners k tokens cache = Inr cache' \<Longrightarrow> paged_run opts bs cap cache' None"
| paged_remove: "paged_run opts bs cap cache None \<Longrightarrow> Remove k cache = Inr cache' \<Longrightarrow> paged_run opts bs cap cache' None"

definition stage_ok :: "BlockIdentity set \<Rightarrow> PagedCache \<Rightarrow> PagedCacheReservation option \<Rightarrow> bool" where
  "stage_ok S cache res \<longleftrightarrow> (case res of None \<Rightarrow> paged_ok (\<lambda>_. 0) S cache | Some r \<Rightarrow> reservation_ok S r cache)"

lemma stage_ok_simps [simp]: "stage_ok S cache None \<longleftrightarrow> paged_ok (\<lambda>_. 0) S cache" "stage_ok S cache (Some r) \<longleftrightarrow> reservation_ok S r cache"
  by (simp_all add: stage_ok_def)

lemma Commit_room:
  assumes r: "reservation_ok S r cache"
  shows "index_size (cache_index cache) + length (new_tables r) \<le> index_max_entries (cache_index cache) \<longleftrightarrow> (\<exists>x. Commit r cache = Inr x)"
proof
  assume "index_size (cache_index cache) + length (new_tables r) \<le> index_max_entries (cache_index cache)"
  then show "\<exists>x. Commit r cache = Inr x" using Commit_ok[OF r] by metis
next
  assume "\<exists>x. Commit r cache = Inr x"
  then have v: "ValidateCommit r cache = Inr ()" by (auto simp: Commit_def bind_result_Inr_iff)
  have "length (new_tables r) \<le> index_max_entries (cache_index cache) - index_size (cache_index cache)"
    using v validate_deltas_ok[OF r reservation_okD(5)[OF r], of "[]"] by (auto simp: ValidateCommit_def bind_result_Inr_iff check_Inr)
  moreover have "index_size (cache_index cache) \<le> index_max_entries (cache_index cache)"
    using paged_okD(3)[OF reservation_okD(2)[OF r]] request_map.used_dom[of "cache_index cache"] unfolding index_ok_def by blast
  ultimately show "index_size (cache_index cache) + length (new_tables r) \<le> index_max_entries (cache_index cache)" by linarith
qed

lemma paged_ok_prefix:
  assumes "paged_ok extra S cache" and "wf_cache (\<lambda>p. held_by (cache_tables cache) p + extra p) S (cache_pool cache, c)"
  shows "paged_ok extra S (cache\<lparr>cache_prefix := c\<rparr>)"
  using assms by (simp add: paged_ok_def cache_state_def Let_def)

lemma adoptions_kept:
  "wf_cache held S (pool, c) \<Longrightarrow> run_result (\<lambda>d c. if delta_adopted_count d = 0 then Inr c
      else RecordAdoption (subspan (delta_adopted_offset d) (delta_adopted_count d) ad) pool c) ds c = Inr c' \<Longrightarrow> wf_cache held S (pool, c')"
proof (induction ds arbitrary: c)
  case (Cons d ds)
  then show ?case using RecordAdoption_kept[of held S pool c] by (auto simp: bind_result_Inr_iff split: if_splits)
qed simp

lemma new_paged_ok:
  assumes "0 < bs" and "new_prefix_cache opts self (new_pool bs cap) = Inr w" and "new_index n = Inr index"
  shows "paged_ok (\<lambda>_. 0) {} (new_paged_cache w index)"
proof -
  have i: "wf_index index" "\<And>k. Find k index = None" using new_index_empty[OF assms(3)] by auto
  have "index_size index = 0" using request_map.used_dom[OF i(1)] i(2) by (simp add: dom_def)
  then show ?thesis using new_cache_ok[OF assms(1,2)] i by (simp add: paged_ok_def new_paged_cache_def cache_state_def index_ok_def run_ok_def)
qed

theorem paged_invariant:
  assumes "paged_run opts bs cap cache res" and "0 < bs"
  shows "\<exists>S. stage_ok S cache res"
  using assms
proof (induction rule: paged_run.induct)
  case (paged_start self w n index)
  then have "stage_ok {} (new_paged_cache w index) None" using new_paged_ok by simp
  then show ?case by blast
next
  case (paged_match cache owners tokens n m cache')
  then obtain S where S: "paged_ok (\<lambda>_. 0) S cache" by auto
  obtain c where c: "Match owners tokens n (cache_pool cache) (cache_prefix cache) = Inr (m, c)" "cache' = cache\<lparr>cache_prefix := c\<rparr>"
    using paged_match.hyps(2) by (auto simp: MatchPrefix_def map_sum_Inr_iff)
  have "wf_cache (\<lambda>p. held_by (cache_tables cache) p + 0) S (cache_pool cache, c)"
    using Match_metrics[OF c(1)] paged_okD(1)[OF S] by auto
  then show ?case using paged_ok_prefix[OF S] c(2) by auto
next
  case (paged_refused cache owners qs cache' e)
  then obtain S where "paged_ok (\<lambda>_. 0) S cache" by auto
  from Reserve_cases[OF this paged_refused.hyps(2)] this show ?case by cases auto
next
  case (paged_reserve cache qs owners cache' r)
  then obtain S where "paged_ok (\<lambda>_. 0) S cache" by auto
  from Reserve_cases[OF this paged_reserve.hyps(3)] paged_reserve.hyps(2) show ?case by cases auto
next
  case (paged_shorten cache r k steps kept r')
  then obtain S where "reservation_ok S r cache" by auto
  from CommitPrefix_ok[OF this paged_shorten.hyps(2)] show ?case by (metis stage_ok_simps(2))
next
  case (paged_fill cache r ks columns n r' rows)
  then show ?case using FillBlockTable_kept by (metis stage_ok_simps(2))
next
  case (paged_commit cache r r' cache')
  then obtain S where S: "reservation_ok S r cache" by auto
  have "index_size (cache_index cache) + length (new_tables r) \<le> index_max_entries (cache_index cache)" using Commit_room[OF S] paged_commit.hyps(2) by blast
  from Commit_ok[OF S this] paged_commit.hyps(2) show ?case by (metis Inr_inject prod.inject stage_ok_simps(1))
next
  case (paged_adopt cache r cache')
  then obtain S where S: "paged_ok (\<lambda>_. 0) S cache" by auto
  obtain c where c: "run_result (\<lambda>d c. if delta_adopted_count d = 0 then Inr c
      else RecordAdoption (subspan (delta_adopted_offset d) (delta_adopted_count d) (adopted_blocks r)) (cache_pool cache) c) (deltas r) (cache_prefix cache) = Inr c"
    "cache' = cache\<lparr>cache_prefix := c\<rparr>" using paged_adopt.hyps(2) by (auto simp: RecordPrefixAdoptions_def map_sum_Inr_iff)
  have "stage_ok S cache' None" using paged_ok_prefix[OF S adoptions_kept[OF paged_okD(1)[OF S] c(1)]] c(2) by simp
  then show ?case by blast
next
  case (paged_destroy cache r cache')
  then obtain S where "reservation_ok S r cache" by auto
  from destroy_ok[OF this] paged_destroy.hyps(2) show ?case by (metis Inr_inject stage_ok_simps(1))
next
  case (paged_release cache r r' cache')
  then obtain S where "reservation_ok S r cache" by auto
  from release_ok[OF this] paged_release.hyps(2) show ?case by (metis Inr_inject prod.inject stage_ok_simps(1))
next
  case (paged_seal cache owners k tokens cache')
  then obtain S where "paged_ok (\<lambda>_. 0) S cache" by auto
  from Seal_ok[OF this paged_seal.hyps(2)] show ?case by auto
next
  case (paged_remove cache k cache')
  then obtain S where "paged_ok (\<lambda>_. 0) S cache" by auto
  from Remove_ok[OF this] paged_remove.hyps(2) show ?case by (metis Inr_inject stage_ok_simps(1))
qed

section \<open>What the requests see\<close>

text \<open>Nothing else holds a block than the tables, as often as it is in them, and the index, once.\<close>

definition accounted :: "PagedCache \<Rightarrow> bool" where
  "accounted cache \<longleftrightarrow> (\<forall>p. if Owns (cache_pool cache) (Some p)
     then ref_count (pool_store (cache_pool cache) p) = held_by (cache_tables cache) p + (if HasIdentity (pool_store (cache_pool cache) p) then 1 else 0)
     else held_by (cache_tables cache) p = 0)"

lemma held_indexed_iff:
  assumes wf: "wf_cache held S (pool, c)" and own: "Owns pool (Some p)"
  shows "entry_at c (block_id (pool_store pool p)) \<noteq> None \<longleftrightarrow> HasIdentity (pool_store pool p)"
proof (cases "identity (pool_store pool p)")
  case None
  then show ?thesis using unindexed_held(1)[OF wf own] by (simp add: HasIdentity_def)
next
  case (Some x)
  show ?thesis by (rule indexed_identity[OF wf own Some]) (simp add: HasIdentity_def Some)
qed

lemma paged_refs:
  assumes ok: "paged_ok extra S cache" and own: "Owns (cache_pool cache) (Some p)"
  shows "ref_count (pool_store (cache_pool cache) p) = held_by (cache_tables cache) p + extra p + (if HasIdentity (pool_store (cache_pool cache) p) then 1 else 0)"
  using refs_okD(1)[OF wf_cacheD(5)[OF paged_okD(1)[OF ok]] own] held_indexed_iff[OF paged_okD(1)[OF ok] own] by simp

lemma paged_accounted: "paged_ok (\<lambda>_. 0) S cache \<Longrightarrow> accounted cache"
  using paged_refs[of "\<lambda>_. 0" S cache] held_block(1)[of "\<lambda>_. 0" S cache] by (auto simp: accounted_def) 

text \<open>The extent of a request after the commit of a delta.\<close>

definition committed_extent :: "PagedCacheReservation \<Rightarrow> PagedCache \<Rightarrow> PagedCacheReservationDelta \<Rightarrow> bptr list \<times> nat" where
  "committed_extent r cache d =
     ((case extent_of (cache_tables cache) (delta_request_id d) of
         Some (blocks, _) \<Rightarrow> blocks
       | None \<Rightarrow> subspan (delta_adopted_offset d) (delta_adopted_count d) (adopted_blocks r)) @ reserved_of r d, delta_target_slots d)"

lemma base_extent:
  assumes ok: "reservation_ok S r cache" and base: "delta_base r S cache n d t"
  shows "committed_extent r cache d = (table_blocks t @ reserved_of r d, delta_target_slots d)"
proof -
  note pok = reservation_okD(2)[OF ok]
  have dist: "distinct (map table_request_id (cache_tables cache))" using paged_okD(3)[OF pok] by (simp add: index_ok_def)
  show ?thesis
  proof (cases "delta_newly_admitted d")
    case True
    then have "Find (delta_request_id d) (cache_index cache) = None" and t: "table_blocks t = subspan (delta_adopted_offset d) (delta_adopted_count d) (adopted_blocks r)"
      using base reservation_okD(4)[OF ok] by (auto simp: delta_base_def)
    then have "delta_request_id d \<notin> table_request_id ` set (cache_tables cache)"
      using index_ok_Find[OF paged_okD(3)[OF pok], of "delta_request_id d"] by (metis imageE in_set_conv_nth option.distinct(1))
    then have "table_for (cache_tables cache) (delta_request_id d) = None" by (simp add: table_for_None)
    then show ?thesis using t by (simp add: committed_extent_def extent_of_def)
  next
    case False
    then have "t \<in> set (cache_tables cache)" "table_request_id t = delta_request_id d" using base by (auto simp: delta_base_def)
    then have "table_for (cache_tables cache) (delta_request_id d) = Some t" by (simp add: table_for_Some[OF dist])
    then show ?thesis by (simp add: committed_extent_def extent_of_def)
  qed
qed

lemma row_extent: "reservation_ok S r cache \<Longrightarrow> d \<in> set (deltas r) \<Longrightarrow> row_of r cache d = fst (committed_extent r cache d)"
proof -
  assume ok: "reservation_ok S r cache" and d: "d \<in> set (deltas r)"
  obtain rsv adp n t where p: "publishable r S cache rsv adp n d t" by (rule pending_member[OF reservation_okD(5)[OF ok] d])
  then have "delta_base r S cache n d t" by (simp add: publishable_def)
  from base_extent[OF ok this] row_of_base[OF p] show ?thesis by simp
qed

lemma commit_extents:
  assumes ok: "reservation_ok S r cache" and pub: "all_published r S (deltas r) cache cache'"
  shows "extent_of (cache_tables cache') k = (case delta_for r k of None \<Rightarrow> extent_of (cache_tables cache) k | Some d \<Rightarrow> Some (committed_extent r cache d))"
proof (cases "delta_for r k")
  case None
  then have "k \<notin> delta_request_id ` set (deltas r)" by (auto simp: delta_for_def find_None_iff)
  then show ?thesis using None pub by (simp add: all_published_def extent_of_def)
next
  case (Some d)
  then have d: "d \<in> set (deltas r)" "delta_request_id d = k" using find_SomeD[of _ "deltas r" d] by (auto simp: delta_for_def)
  then obtain t n where "delta_base r S cache n d t" "table_for (cache_tables cache') k = Some (extended t (reserved_of r d) (delta_target_slots d))"
    using pub unfolding all_published_def by blast
  with base_extent[OF ok this(1)] Some show ?thesis by (simp add: extent_of_def extended_def)
qed

lemma run_tables_ok:
  assumes "paged_run opts bs cap cache res" and "0 < bs"
  obtains extra S where "paged_ok extra S cache"
proof (cases res)
  case (Some r)
  then obtain S where "reservation_ok S r cache" using paged_invariant[OF assms] by auto
  from that[OF reservation_okD(2)[OF this]] show ?thesis .
qed (use that paged_invariant[OF assms] in auto)

text \<open>
  C10. The blocks of a request from its committed boundary on, the ones that its next tokens are written to, are its own: one
  table has each of them, at one place, nobody else has a reference, and the prefix index does not know them. All blocks of a
  request are filled in order up to the boundary. This holds in every state of the cache, while a reservation is open, too.
\<close>

theorem paged_writable_exclusive:
  assumes run: "paged_run opts bs cap cache res" and bs: "0 < bs"
    and i: "i < length (cache_tables cache)" and j: "j < length (table_blocks (cache_tables cache ! i))"
  shows "(let pool = cache_pool cache; n = table_committed_slots (cache_tables cache ! i); p = table_blocks (cache_tables cache ! i) ! j in
      Owns pool (Some p) \<and> block_slots_used (pool_store pool p) = min (pool_block_size pool) (n - j * pool_block_size pool)
      \<and> (n div pool_block_size pool \<le> j \<longrightarrow> ref_count (pool_store pool p) = 1 \<and> \<not> HasIdentity (pool_store pool p)
          \<and> (\<forall>i' < length (cache_tables cache). \<forall>j' < length (table_blocks (cache_tables cache ! i')).
               table_blocks (cache_tables cache ! i') ! j' = p \<longrightarrow> i' = i \<and> j' = j)))"
proof -
  obtain extra S where ok: "paged_ok extra S cache" by (rule run_tables_ok[OF run bs])
  let ?t = "cache_tables cache ! i" and ?pool = "cache_pool cache"
  let ?p = "table_blocks ?t ! j" and ?bs = "pool_block_size ?pool"
  note tk = paged_okD(2)[OF ok nth_mem[OF i], unfolded table_ok_def Let_def]
  have pos: "0 < held_by (cache_tables cache) ?p" using held_by_zero[of "cache_tables cache" ?p ?t] nth_mem[OF i] nth_mem[OF j] by fastforce
  have own: "Owns ?pool (Some ?p)" using held_block(1)[OF ok] pos by simp
  have used: "block_slots_used (pool_store ?pool ?p) = min ?bs (table_committed_slots ?t - j * ?bs)" using tk j by simp
  have "ref_count (pool_store ?pool ?p) = 1 \<and> \<not> HasIdentity (pool_store ?pool ?p) \<and> held_by (cache_tables cache) ?p \<le> 1"
    if le: "table_committed_slots ?t div ?bs \<le> j"
  proof -
    have one: "held_by (cache_tables cache) ?p + extra ?p = 1" using tk j le by simp
    have "table_committed_slots ?t - j * ?bs < ?bs"
      using dividend_less_div_times[OF paged_block_size[OF ok], of "table_committed_slots ?t"] mult_le_mono1[OF le, of ?bs] paged_block_size[OF ok] by linarith
    then have "\<not> IsFull (pool_store ?pool ?p)" using used held_block(2)[OF ok, of ?p] pos by (simp add: IsFull_def)
    then have "\<not> HasIdentity (pool_store ?pool ?p)"
      using wf_pool_slotD(2)[OF wf_cacheD(1)[OF paged_okD(1)[OF ok]] OwnsD[OF own]] by (auto simp: wf_block_def HasIdentity_def)
    then show ?thesis using paged_refs[OF ok own] one by simp
  qed
  then show ?thesis using own used sole_place[OF i j] by (auto simp: Let_def)
qed

text \<open>
  C9. Committing a reservation, shortened or not, either is refused for lack of room in the request index, or it succeeds and
  does exactly what the reservation says: the requests that it names get the blocks that were theirs or that they adopt,
  followed by their share of the reserved ones, with the new boundary; all other requests stay as they are; no reference is
  left over.
\<close>

theorem paged_commit_extends:
  assumes run: "paged_run opts bs cap cache (Some r)" and bs: "0 < bs"
  shows "case Commit r cache of
      Inl e \<Rightarrow> index_max_entries (cache_index cache) < index_size (cache_index cache) + length (new_tables r)
    | Inr (r', cache') \<Rightarrow> index_size (cache_index cache) + length (new_tables r) \<le> index_max_entries (cache_index cache)
        \<and> reservation_state r' = Committed \<and> accounted cache'
        \<and> (\<forall>k. extent_of (cache_tables cache') k
             = (case delta_for r k of None \<Rightarrow> extent_of (cache_tables cache) k | Some d \<Rightarrow> Some (committed_extent r cache d)))"
proof -
  obtain S where ok: "reservation_ok S r cache" using paged_invariant[OF run bs] by auto
  show ?thesis
  proof (cases "Commit r cache")
    case (Inl e)
    then show ?thesis using Commit_room[OF ok] by simp
  next
    case (Inr x)
    then have room: "index_size (cache_index cache) + length (new_tables r) \<le> index_max_entries (cache_index cache)" using Commit_room[OF ok] by blast
    obtain r' cache' where c: "Commit r cache = Inr (r', cache')" "reservation_state r' = Committed" "paged_ok (\<lambda>_. 0) S cache'" "all_published r S (deltas r) cache cache'"
      by (rule Commit_ok[OF ok room])
    show ?thesis unfolding c(1) using room c(2) paged_accounted[OF c(3)] commit_extents[OF ok c(4)] by simp
  qed
qed

text \<open>
  C11. A step that gives up leaves nothing behind: whether \<open>Reserve\<close> throws, in its checks or when blocks run out half-way, or
  the reservation it returned is destroyed or released, the tables and their index are those from before, and every reference
  that was taken has been given back.
\<close>

theorem paged_reserve_undone:
  assumes run: "paged_run opts bs cap cache None" and bs: "0 < bs" and qs: "list_all (bounded cache) qs" and res: "Reserve owners qs cache = (cache', res)"
  shows "cache_tables cache' = cache_tables cache \<and> cache_index cache' = cache_index cache
    \<and> (case res of
         Inl e \<Rightarrow> accounted cache'
       | Inr r \<Rightarrow> (\<exists>cache1. destroy_reservation r cache' = Inr cache1 \<and> cache_tables cache1 = cache_tables cache
                    \<and> cache_index cache1 = cache_index cache \<and> accounted cache1)
           \<and> (\<exists>r2 cache2. ReleaseReservation r cache' = Inr (r2, cache2) \<and> reservation_state r2 = Released \<and> cache_tables cache2 = cache_tables cache
                    \<and> cache_index cache2 = cache_index cache \<and> accounted cache2))"
proof -
  obtain S where ok: "paged_ok (\<lambda>_. 0) S cache" using paged_invariant[OF run bs] by auto
  from ok res show ?thesis
  proof (cases rule: Reserve_cases)
    case (refused e)
    then show ?thesis using paged_accounted[OF ok] by simp
  next
    case (full resident s e)
    then show ?thesis using paged_accounted by auto
  next
    case (made resident s r)
    have rok: "reservation_ok S r cache'" using made(4) qs .
    have "\<exists>cache1. destroy_reservation r cache' = Inr cache1 \<and> cache_tables cache1 = cache_tables cache \<and> cache_index cache1 = cache_index cache \<and> accounted cache1"
      by (rule destroy_ok[OF rok]) (use made(5,6) paged_accounted in auto)
    moreover have "\<exists>r2 cache2. ReleaseReservation r cache' = Inr (r2, cache2) \<and> reservation_state r2 = Released \<and> cache_tables cache2 = cache_tables cache
        \<and> cache_index cache2 = cache_index cache \<and> accounted cache2"
      by (rule release_ok[OF rok]) (use made(5,6) paged_accounted in auto)
    ultimately show ?thesis using made(2,5,6) by simp
  qed
qed

text \<open>
  C12. The block table that a step hands to the model: for distinct requests of the reservation and columns enough for the
  longest, filling succeeds, and the row of each request lists, padded with \<open>-1\<close>, the ids of exactly the blocks that the request
  will have after the commit.
\<close>

theorem paged_block_table_rows:
  assumes run: "paged_run opts bs cap cache (Some r)" and bs: "0 < bs" and ks: "distinct ks" "set ks \<subseteq> delta_request_id ` set (deltas r)"
    and cols: "\<forall>d \<in> set (deltas r). length (fst (committed_extent r cache d)) \<le> columns"
  shows "\<exists>r'. FillBlockTable ks columns (length ks * columns) r cache
      = Inr (r', concat (map (\<lambda>k. table_row columns cache (fst (committed_extent r cache (the (delta_for r k))))) ks))"
proof -
  obtain S where ok: "reservation_ok S r cache" using paged_invariant[OF run bs] by auto
  have row: "row_of r cache (the (delta_for r k)) = fst (committed_extent r cache (the (delta_for r k)))" if k: "k \<in> set ks" for k
  proof -
    obtain i where "i < length (deltas r)" "delta_request_id (deltas r ! i) = k" using k ks(2) by (metis imageE in_set_conv_nth subsetD)
    then show ?thesis using delta_for_index[OF ok] row_extent[OF ok] by (metis nth_mem option.sel)
  qed
  have cols': "\<forall>d \<in> set (deltas r). length (row_of r cache d) \<le> columns" using cols row_extent[OF ok] by simp
  have "map (\<lambda>k. table_row columns cache (row_of r cache (the (delta_for r k)))) ks = map (\<lambda>k. table_row columns cache (fst (committed_extent r cache (the (delta_for r k))))) ks"
    using row by simp
  then show ?thesis using FillBlockTable_ok[OF ok ks cols' refl] by metis
qed

text \<open>
  C13. Removing a request always succeeds, whether the cache has it or not: its table is gone and its references with it, every
  other request keeps its blocks and its boundary, although tables move, and the index finds exactly those that are left.
\<close>

theorem paged_remove_exact:
  assumes run: "paged_run opts bs cap cache None" and bs: "0 < bs"
  shows "\<exists>cache'. Remove k cache = Inr cache' \<and> accounted cache'
    \<and> (\<forall>j. extent_of (cache_tables cache') j = (if j = k then None else extent_of (cache_tables cache) j))
    \<and> (\<forall>j. OwnsRequest j cache' \<longleftrightarrow> j \<noteq> k \<and> OwnsRequest j cache)"
proof -
  obtain S where ok: "paged_ok (\<lambda>_. 0) S cache" using paged_invariant[OF run bs] by auto
  obtain cache' where r: "Remove k cache = Inr cache'" "paged_ok (\<lambda>_. 0) S cache'"
    "\<And>j. extent_of (cache_tables cache') j = (if j = k then None else extent_of (cache_tables cache) j)" by (rule Remove_ok[OF ok, of k]) blast
  have owns: "OwnsRequest j c \<longleftrightarrow> extent_of (cache_tables c) j \<noteq> None" if "paged_ok (\<lambda>_. 0) S c" for c j
  proof -
    note fi = index_ok_Find[OF paged_okD(3)[OF that], of j]
    have "OwnsRequest j c \<longleftrightarrow> (\<exists>i < length (cache_tables c). table_request_id (cache_tables c ! i) = j)"
    proof (cases "Find j (cache_index c)")
      case None
      then have "\<not> (\<exists>i < length (cache_tables c). table_request_id (cache_tables c ! i) = j)" using fi by (metis option.distinct(1))
      then show ?thesis using None by (simp add: OwnsRequest_def)
    next
      case (Some i)
      then have "i < length (cache_tables c) \<and> table_request_id (cache_tables c ! i) = j" using fi[of i] by simp
      then show ?thesis using Some by (auto simp: OwnsRequest_def)
    qed
    also have "\<dots> \<longleftrightarrow> j \<in> table_request_id ` set (cache_tables c)" by (auto simp: in_set_conv_nth image_iff) (metis nth_mem)
    finally show ?thesis using table_for_None[of "cache_tables c" j] by (simp add: extent_of_def)
  qed
  have "OwnsRequest j cache' \<longleftrightarrow> j \<noteq> k \<and> OwnsRequest j cache" for j using owns[OF ok, of j] owns[OF r(2), of j] r(3)[of j] by simp
  then show ?thesis using r(1,3) paged_accounted[OF r(2)] by blast
qed

lemma table_ok_extent:
  assumes ok: "paged_ok (\<lambda>_. 0) S cache" and e: "extent_of (cache_tables cache) k = Some (bl, n)"
  shows "CommittedSlots k cache = Inr n" and "n \<le> length bl * pool_block_size (cache_pool cache)"
proof -
  have dist: "distinct (map table_request_id (cache_tables cache))" using paged_okD(3)[OF ok] by (simp add: index_ok_def)
  obtain t where t: "table_for (cache_tables cache) k = Some t" "table_blocks t = bl" "table_committed_slots t = n" using e by (auto simp: extent_of_def)
  then have mem: "t \<in> set (cache_tables cache)" "table_request_id t = k" using table_for_Some[OF dist] by auto
  then obtain i where i: "i < length (cache_tables cache)" "cache_tables cache ! i = t" by (metis in_set_conv_nth)
  then have "Find k (cache_index cache) = Some i" using index_ok_Find[OF paged_okD(3)[OF ok], of k i] mem(2) by simp
  then show "CommittedSlots k cache = Inr n" using i mem(2) t(3) by (simp add: CommittedSlots_def)
  show "n \<le> length bl * pool_block_size (cache_pool cache)" using paged_okD(2)[OF ok mem(1)] t by (simp add: table_ok_def Let_def)
qed

text \<open>
  C8. A whole step of the cache, from the requests to the tables: after \<open>Reserve\<close> and \<open>Commit\<close> each request that was asked for is
  committed up to its target, in blocks that have room for it and that begin with the blocks it had before; requests that were
  not asked for are as before.
\<close>

theorem paged_step_serves:
  assumes run: "paged_run opts bs cap cache None" and bs: "0 < bs" and qs: "list_all (bounded cache) qs"
    and res: "Reserve owners qs cache = (cache1, Inr r)" and com: "Commit r cache1 = Inr (r', cache2)"
  shows "(\<forall>q \<in> set qs. CommittedSlots (req_request_id q) cache2 = Inr (req_target_slots q)
      \<and> (\<exists>bl. extent_of (cache_tables cache2) (req_request_id q) = Some (bl, req_target_slots q)
          \<and> req_target_slots q \<le> length bl * pool_block_size (cache_pool cache2)
          \<and> (\<forall>bl0 n0. extent_of (cache_tables cache) (req_request_id q) = Some (bl0, n0) \<longrightarrow> (\<exists>rs. bl = bl0 @ rs))))
    \<and> (\<forall>k. k \<notin> req_request_id ` set qs \<longrightarrow> extent_of (cache_tables cache2) k = extent_of (cache_tables cache) k)"
proof -
  obtain S where ok: "paged_ok (\<lambda>_. 0) S cache" using paged_invariant[OF run bs] by auto
  obtain ans: "list_all2 answers (deltas r) qs" and rok: "reservation_ok S r cache1" and ts: "cache_tables cache1 = cache_tables cache"
    by (rule Reserve_cases[OF ok res]) (use qs in auto)
  have "index_size (cache_index cache1) + length (new_tables r) \<le> index_max_entries (cache_index cache1)" using Commit_room[OF rok] com by blast
  then obtain ok2: "paged_ok (\<lambda>_. 0) S cache2" and pub: "all_published r S (deltas r) cache1 cache2"
    by (rule Commit_ok[OF rok]) (use com in auto)
  note ex = commit_extents[OF rok pub]
  have ids: "map delta_request_id (deltas r) = map req_request_id qs"
    using ans by (induction rule: list_all2_induct) (auto simp: answers_def)
  have "extent_of (cache_tables cache2) k = extent_of (cache_tables cache) k" if k: "k \<notin> req_request_id ` set qs" for k
  proof -
    have "k \<notin> delta_request_id ` set (deltas r)" using arg_cong[OF ids, of set] k by simp
    then have "delta_for r k = None" by (auto simp: delta_for_def find_None_iff)
    then show ?thesis using ex[of k] ts by simp
  qed
  moreover have "CommittedSlots (req_request_id q) cache2 = Inr (req_target_slots q)
      \<and> (\<exists>bl. extent_of (cache_tables cache2) (req_request_id q) = Some (bl, req_target_slots q)
          \<and> req_target_slots q \<le> length bl * pool_block_size (cache_pool cache2)
          \<and> (\<forall>bl0 n0. extent_of (cache_tables cache) (req_request_id q) = Some (bl0, n0) \<longrightarrow> (\<exists>rs. bl = bl0 @ rs)))" if q: "q \<in> set qs" for q
  proof -
    obtain i where i: "i < length qs" "qs ! i = q" using q by (metis in_set_conv_nth)
    have a: "answers (deltas r ! i) q" "i < length (deltas r)" using ans i by (auto simp: list_all2_conv_all_nth)
    then have "delta_for r (req_request_id q) = Some (deltas r ! i)" using delta_for_index[OF rok a(2)] by (simp add: answers_def)
    then have e: "extent_of (cache_tables cache2) (req_request_id q) = Some (fst (committed_extent r cache1 (deltas r ! i)), req_target_slots q)"
      using ex[of "req_request_id q"] a(1) by (simp add: committed_extent_def answers_def)
    moreover have "\<exists>rs. fst (committed_extent r cache1 (deltas r ! i)) = bl0 @ rs" if "extent_of (cache_tables cache) (req_request_id q) = Some (bl0, n0)" for bl0 n0
      using that a(1) ts by (simp add: committed_extent_def answers_def)
    ultimately show ?thesis using table_ok_extent[OF ok2 e] by blast
  qed
  ultimately show ?thesis by blast
qed

section \<open>A small run\<close>

text \<open>Two requests are admitted to a pool of five blocks of two tokens; then the first one is to grow from three to five tokens.\<close>

definition sample_request :: "u64 \<Rightarrow> nat \<Rightarrow> bool \<Rightarrow> PagedCacheReservationRequest" where
  "sample_request k target new = \<lparr>req_request_id = k, req_target_slots = target, req_newly_admitted = new, req_reserved_slots = target, req_prefix_match = None\<rparr>"

definition sample_new :: "paged_error + PagedCache" where
  "sample_new = bind_result (map_sum PrefixFailure id (new_prefix_cache sample_options 1 (new_pool 2 5))) (\<lambda>w.
     bind_result (map_sum IndexFailure id (new_index 3)) (\<lambda>index. Inr (new_paged_cache w index)))"

definition sample_admitted :: "paged_error + PagedCache \<times> PagedCache \<times> PagedCacheReservation" where
  "sample_admitted = bind_result sample_new (\<lambda>cache.
     case Reserve sample_owners [sample_request 7 3 True, sample_request 9 2 True] cache of (cache1, res) \<Rightarrow> bind_result res (\<lambda>r. Inr (cache, cache1, r)))"

definition sample_committed :: "paged_error + PagedCache" where
  "sample_committed = bind_result sample_admitted (\<lambda>(_, cache1, r). bind_result (Commit r cache1) (\<lambda>(_, cache2). Inr cache2))"

definition sample_growing :: "paged_error + PagedCache \<times> PagedCache \<times> PagedCacheReservation" where
  "sample_growing = bind_result sample_committed (\<lambda>cache.
     case Reserve sample_owners [sample_request 7 5 False] cache of (cache1, res) \<Rightarrow> bind_result res (\<lambda>r. Inr (cache, cache1, r)))"

lemma sample_committed_ok:
  "case sample_committed of Inl _ \<Rightarrow> False | Inr cache \<Rightarrow> map table_request_id (cache_tables cache) = [7, 9] \<and> map table_committed_slots (cache_tables cache) = [3, 2]
      \<and> map table_blocks (cache_tables cache) = [[0, 1], [2]] \<and> pool_block_size (cache_pool cache) = 2"
  by code_simp

lemma sample_growing_ok:
  "case sample_growing of Inl _ \<Rightarrow> False | Inr (cache, cache1, r) \<Rightarrow> map delta_request_id (deltas r) = [7] \<and> map delta_target_slots (deltas r) = [5]
      \<and> map table_request_id (cache_tables cache1) = [7, 9]
      \<and> map table_blocks (cache_tables cache1) = [[0, 1], [2]] \<and> reserved_blocks r = [3] \<and> adopted_blocks r = [] \<and> new_tables r = []
      \<and> index_size (cache_index cache1) = 2 \<and> index_max_entries (cache_index cache1) = 3
      \<and> map (\<lambda>d. (delta_reserved_offset d, delta_reserved_count d)) (deltas r) = [(0, 1)] \<and> pool_block_size (cache_pool cache) = 2"
  by code_simp

lemma sample_new_run:
  assumes "sample_new = Inr cache"
  shows "paged_run sample_options 2 5 cache None"
  using assms by (auto simp: sample_new_def bind_result_Inr_iff map_sum_Inr_iff intro: paged_start)

lemma sample_admitted_run:
  assumes "sample_admitted = Inr (cache, cache1, r)"
  shows "paged_run sample_options 2 5 cache None" and "paged_run sample_options 2 5 cache1 (Some r)" and "list_all (bounded cache) [sample_request 7 3 True, sample_request 9 2 True]"
    and "Reserve sample_owners [sample_request 7 3 True, sample_request 9 2 True] cache = (cache1, Inr r)"
proof -
  obtain w index where n: "sample_new = Inr cache" "new_prefix_cache sample_options 1 (new_pool 2 5) = Inr w" "cache = new_paged_cache w index"
    and res: "Reserve sample_owners [sample_request 7 3 True, sample_request 9 2 True] cache = (cache1, Inr r)"
    using assms by (auto simp: sample_admitted_def sample_new_def bind_result_Inr_iff map_sum_Inr_iff case_prod_beta prod_eq_iff)
  have "pool_block_size (cache_pool cache) = 2" using new_cache_ok[OF _ n(2)] n(3) by (simp add: run_ok_def new_paged_cache_def)
  then have b: "list_all (bounded cache) [sample_request 7 3 True, sample_request 9 2 True]" by (simp add: bounded_def sample_request_def size_max_def)
  show "paged_run sample_options 2 5 cache None" by (rule sample_new_run[OF n(1)])
  from paged_reserve[OF this b res] show "paged_run sample_options 2 5 cache1 (Some r)" .
  show "list_all (bounded cache) [sample_request 7 3 True, sample_request 9 2 True]" by (rule b)
  show "Reserve sample_owners [sample_request 7 3 True, sample_request 9 2 True] cache = (cache1, Inr r)" by (rule res)
qed

lemma sample_committed_run:
  assumes "sample_committed = Inr cache"
  shows "paged_run sample_options 2 5 cache None"
  using assms paged_commit[OF sample_admitted_run(2)] by (auto simp: sample_committed_def bind_result_Inr_iff split: prod.splits)

lemma sample_growing_run:
  assumes "sample_growing = Inr (cache, cache1, r)"
  shows "paged_run sample_options 2 5 cache None" and "list_all (bounded cache) [sample_request 7 5 False]"
    and "Reserve sample_owners [sample_request 7 5 False] cache = (cache1, Inr r)" and "paged_run sample_options 2 5 cache1 (Some r)"
proof -
  have c: "sample_committed = Inr cache" and res: "Reserve sample_owners [sample_request 7 5 False] cache = (cache1, Inr r)"
    using assms by (auto simp: sample_growing_def bind_result_Inr_iff case_prod_beta prod_eq_iff)
  have "pool_block_size (cache_pool cache) = 2" using sample_committed_ok unfolding c by simp
  then show b: "list_all (bounded cache) [sample_request 7 5 False]" by (simp add: bounded_def sample_request_def size_max_def)
  show "paged_run sample_options 2 5 cache None" by (rule sample_committed_run[OF c])
  from paged_reserve[OF this b res] show "paged_run sample_options 2 5 cache1 (Some r)" .
  show "Reserve sample_owners [sample_request 7 5 False] cache = (cache1, Inr r)" by (rule res)
qed

lemma sample_growing_Inr:
  obtains cache cache1 r where "sample_growing = Inr (cache, cache1, r)"
proof (cases sample_growing)
  case (Inl e)
  show ?thesis using sample_growing_ok unfolding Inl by simp
next
  case (Inr x)
  then show ?thesis using that by (cases x) auto
qed

theorem paged_writable_exclusive_witness:
  "\<exists>cache. paged_run sample_options 2 5 cache None \<and> ref_count (pool_store (cache_pool cache) 1) = 1 \<and> block_slots_used (pool_store (cache_pool cache) 1) = 1"
proof (cases sample_committed)
  case (Inr cache)
  have f: "map table_blocks (cache_tables cache) = [[0, 1], [2]]" "map table_committed_slots (cache_tables cache) = [3, 2]" "pool_block_size (cache_pool cache) = 2"
    using sample_committed_ok unfolding Inr by auto
  then have "length (cache_tables cache) = 2" "table_blocks (cache_tables cache ! 0) = [0, 1]" "table_committed_slots (cache_tables cache ! 0) = 3"
    by (auto dest: arg_cong[where f = length] arg_cong[where f = "\<lambda>xs. xs ! 0"] simp: nth_map)
  then show ?thesis using paged_writable_exclusive[OF sample_committed_run[OF Inr], of 0 1] sample_committed_run[OF Inr] f(3) by (auto simp: Let_def)
next
  case (Inl e)
  show ?thesis using sample_committed_ok unfolding Inl by simp
qed

theorem paged_commit_extends_witness:
  "\<exists>cache r r' cache'. paged_run sample_options 2 5 cache (Some r) \<and> Commit r cache = Inr (r', cache') \<and> extent_of (cache_tables cache') 7 = Some ([0, 1, 3], 5)
    \<and> extent_of (cache_tables cache') 9 = extent_of (cache_tables cache) 9 \<and> accounted cache'"
proof (rule sample_growing_Inr)
  fix cache cache1 r assume g: "sample_growing = Inr (cache, cache1, r)"
  have f: "map delta_request_id (deltas r) = [7]" "map delta_target_slots (deltas r) = [5]" "map table_request_id (cache_tables cache1) = [7, 9]"
    "map table_blocks (cache_tables cache1) = [[0, 1], [2]]" "reserved_blocks r = [3]" "new_tables r = []"
    "index_size (cache_index cache1) = 2" "index_max_entries (cache_index cache1) = 3" "map (\<lambda>d. (delta_reserved_offset d, delta_reserved_count d)) (deltas r) = [(0, 1)]"
    using sample_growing_ok unfolding g by auto
  obtain d where d: "deltas r = [d]" "delta_request_id d = 7" "delta_target_slots d = 5" "delta_reserved_offset d = 0" "delta_reserved_count d = 1" using f(1,2,9) by auto
  obtain t t' where t: "cache_tables cache1 = [t, t']" "table_request_id t = 7" "table_blocks t = [0, 1]" using f(3,4) by auto
  have e: "committed_extent r cache1 d = ([0, 1, 3], 5)" using d t f(5) by (simp add: committed_extent_def extent_of_def table_for_def reserved_of_def subspan_def)
  note run = sample_growing_run(4)[OF g]
  have c: "case Commit r cache1 of
      Inl e \<Rightarrow> index_max_entries (cache_index cache1) < index_size (cache_index cache1) + length (new_tables r)
    | Inr (r', cache') \<Rightarrow> index_size (cache_index cache1) + length (new_tables r) \<le> index_max_entries (cache_index cache1)
        \<and> reservation_state r' = Committed \<and> accounted cache'
        \<and> (\<forall>k. extent_of (cache_tables cache') k
             = (case delta_for r k of None \<Rightarrow> extent_of (cache_tables cache1) k | Some d \<Rightarrow> Some (committed_extent r cache1 d)))"
    by (rule paged_commit_extends[OF run]) simp
  then obtain r' cache' where k: "Commit r cache1 = Inr (r', cache')" using f(6,7,8) by (cases "Commit r cache1") auto
  with c have ex: "accounted cache'" "extent_of (cache_tables cache') k
      = (case delta_for r k of None \<Rightarrow> extent_of (cache_tables cache1) k | Some d \<Rightarrow> Some (committed_extent r cache1 d))" for k by auto
  have "extent_of (cache_tables cache') 7 = Some ([0, 1, 3], 5)" "extent_of (cache_tables cache') 9 = extent_of (cache_tables cache1) 9"
    using ex(2)[of 7] ex(2)[of 9] d e by (simp_all add: delta_for_def)
  then show ?thesis using run k ex(1) by blast
qed

theorem paged_reserve_undone_witness:
  "\<exists>cache cache' r cache1. paged_run sample_options 2 5 cache None \<and> Reserve sample_owners [sample_request 7 5 False] cache = (cache', Inr r)
    \<and> destroy_reservation r cache' = Inr cache1 \<and> cache_tables cache1 = cache_tables cache \<and> accounted cache1"
proof (rule sample_growing_Inr)
  fix cache cache1 r assume g: "sample_growing = Inr (cache, cache1, r)"
  note s = sample_growing_run[OF g]
  show ?thesis using paged_reserve_undone[OF s(1) _ s(2,3)] s(1,3) by auto
qed

theorem paged_block_table_rows_witness:
  "\<exists>cache r r'. paged_run sample_options 2 5 cache (Some r)
    \<and> FillBlockTable [7] 4 4 r cache = Inr (r', table_row 4 cache [0, 1, 3])"
proof (rule sample_growing_Inr)
  fix cache cache1 r assume g: "sample_growing = Inr (cache, cache1, r)"
  have f: "map delta_request_id (deltas r) = [7]" "map delta_target_slots (deltas r) = [5]" "map table_request_id (cache_tables cache1) = [7, 9]"
    "map table_blocks (cache_tables cache1) = [[0, 1], [2]]" "reserved_blocks r = [3]" "map (\<lambda>d. (delta_reserved_offset d, delta_reserved_count d)) (deltas r) = [(0, 1)]"
    using sample_growing_ok unfolding g by auto
  obtain d where d: "deltas r = [d]" "delta_request_id d = 7" "delta_reserved_offset d = 0" "delta_reserved_count d = 1" using f(1,6) by auto
  obtain t t' where t: "cache_tables cache1 = [t, t']" "table_request_id t = 7" "table_blocks t = [0, 1]" using f(3,4) by auto
  have e: "fst (committed_extent r cache1 d) = [0, 1, 3]" using d t f(5) by (simp add: committed_extent_def extent_of_def table_for_def reserved_of_def subspan_def)
  have "\<exists>r'. FillBlockTable [7] 4 (length [7 :: u64] * 4) r cache1
      = Inr (r', concat (map (\<lambda>k. table_row 4 cache1 (fst (committed_extent r cache1 (the (delta_for r k))))) [7]))"
    by (rule paged_block_table_rows[OF sample_growing_run(4)[OF g]]) (use d e in auto)
  then show ?thesis using sample_growing_run(4)[OF g] d e by (auto simp: delta_for_def)
qed

theorem paged_remove_exact_witness:
  "\<exists>cache cache'. paged_run sample_options 2 5 cache None \<and> Remove 7 cache = Inr cache' \<and> accounted cache' \<and> extent_of (cache_tables cache') 7 = None
    \<and> extent_of (cache_tables cache') 9 = Some ([2], 2)"
proof (cases sample_committed)
  case (Inr cache)
  have f: "map table_request_id (cache_tables cache) = [7, 9]" "map table_blocks (cache_tables cache) = [[0, 1], [2]]" "map table_committed_slots (cache_tables cache) = [3, 2]"
    using sample_committed_ok unfolding Inr by auto
  then have "extent_of (cache_tables cache) 9 = Some ([2], 2)" by (auto simp: extent_of_def table_for_def)
  then show ?thesis using paged_remove_exact[OF sample_committed_run[OF Inr], of 7] sample_committed_run[OF Inr] by auto
next
  case (Inl e)
  show ?thesis using sample_committed_ok unfolding Inl by simp
qed

theorem paged_step_serves_witness:
  "\<exists>cache cache2. paged_run sample_options 2 5 cache None \<and> CommittedSlots 7 cache2 = Inr 3 \<and> CommittedSlots 9 cache2 = Inr 2 \<and> sample_committed = Inr cache2"
proof (cases sample_committed)
  case (Inr cache2)
  obtain cache cache1 r r' where a: "sample_admitted = Inr (cache, cache1, r)" and c: "Commit r cache1 = Inr (r', cache2)"
    using Inr by (auto simp: sample_committed_def bind_result_Inr_iff split: prod.splits)
  note s = sample_admitted_run[OF a]
  show ?thesis using paged_step_serves[OF s(1) _ s(3,4) c] s(1) Inr by (auto simp: sample_request_def)
next
  case (Inl e)
  show ?thesis using sample_committed_ok unfolding Inl by simp
qed

end
