(* ===== verification/Spec2Isabelle.thy ===== *)
theory Spec2Isabelle
  imports Block_Ledger Request_Index Scheduler_Policy Stop_Controller Json_Parser NGram_Lookup Graph_Ids Window_Ring Turn_Policy
    Greedy_Search Logits_Penalty Request_Life Paged_Life
begin

text \<open>
  Verification of the core of onnxruntime-genai, a runtime that generates text with language models. The sources are the
  C++ files under \<open>src/src/\<close>; file names below are relative to that directory.

  \<^bold>\<open>The program.\<close> An \<open>Engine\<close> (\<open>engine/engine.cpp\<close>) serves many requests at a time. A \<open>Request\<close> (\<open>engine/request.cpp\<close>)
  is one session: a token sequence that grows turn by turn. Beginning a turn validates its options (\<open>engine/turn_policy.cpp\<close>),
  appends the prompt and queues the request. The scheduler picks requests for a step (the decode-first policy of
  \<open>engine/decode_first_scheduler_policy.cpp\<close>), the cache manager gives them blocks of the paged key-value cache
  (\<open>engine/block.cpp\<close>): a reservation (\<open>engine/paged_cache_reservation.cpp\<close>) takes them for the step, with the blocks of a prompt
  prefix that an earlier request has left in the index (\<open>engine/prefix_cache.cpp\<close>). The model runs, and \<open>ScheduledRequests\<close> (\<open>engine/scheduled_requests.cpp\<close>) turns its logits into
  tokens: penalties (\<open>sampling_distribution.h\<close>), selection by the request's search (\<open>search.cpp\<close>), verification of speculative
  drafts (\<open>decoding/speculative_sampling.h\<close>), stop strings (\<open>stop_string_controller.cpp\<close>). Every step is a transaction: it is
  committed, or rolled back as a whole. Configuration is read by a JSON reader of its own (\<open>json.cpp\<close>).

  \<^bold>\<open>The theories\<close>, component by component, and what they show.

  \<^item> \<open>Prelude\<close>: machine types, results that are an error or a value, the contract of transactions, and the shared facts on
    lists, counting and words.
  \<^item> \<open>Block_Pool\<close>, \<open>Block_Ledger\<close> (\<open>engine/block.h\<close>, \<open>engine/block.cpp\<close>): blocks are objects in a store of addresses, a pool
    has a slot per block id, and a handle is an address. Allocation, reservation and its rollback, references (single and by
    list with duplicates), the allocation-free validation by epochs whose 64-bit counter wraps, the observer. Shown: an
    invariant of all reachable pools; allocation is all or nothing; the fast and the exact validation agree; freeing takes
    exactly the references named; reservations and references can be undone. The ledger of reference counts is the
    abstraction; \<open>counted_references\<close> is the contract for clients, interpreted on the pool.
  \<^item> \<open>Request_Index\<close> (\<open>engine/request_index.h\<close>): open addressing with linear probing in a table of a power of two. Shown:
    it is a map bounded by its capacity (\<open>bounded_map\<close>, interpreted on the table), its loops end, and its construction
    refuses exactly the capacities whose table would overflow.
  \<^item> \<open>Prefix_Cache\<close>, \<open>Prefix_Retention\<close>, \<open>Prefix_Sharing\<close>, \<open>Prefix_Match\<close> (\<open>engine/prefix_cache.h\<close>, \<open>engine/prefix_cache.cpp\<close>): the
    index of full blocks by hash, parent and tokens, its order of eviction and its checkpoints, called back by the pool when
    references come and go. Shown of caches that do not require checkpoints, for any hash function: a lookup returns the
    longest retained prefix; what is registered is found, and an indexed block has the tokens and the parent of its own
    registration; the budget is kept, references add up, freed blocks stay exactly when they are indexed, and reclaiming
    gives exactly what was asked for, or all there is, and no block that a request holds.
  \<^item> \<open>Paged_Reservation\<close>, \<open>Paged_Cache\<close> (\<open>engine/paged_cache_reservation.h\<close>, \<open>engine/paged_cache_reservation.cpp\<close>,
    \<open>engine/paged_key_value_cache.cpp\<close>): the block tables of requests, the reservations of a step from the constructor to
    publication, release and destruction, and the operations of the cache between steps. \<open>Paged_Tables\<close> has the invariant of tables and of
    an open reservation; \<open>Paged_Commit\<close>, \<open>Paged_Reserve\<close>, \<open>Paged_Plan\<close>, \<open>Paged_Runs\<close> and \<open>Paged_Fill\<close> show that each
    operation keeps it and what it does. \<open>Paged_Life\<close> has all states that can be reached. Shown: blocks that can still be written
    have one owner and one reference; a commit does what its reservation says and fails only for lack of room; a step that
    gives up leaves nothing behind; the rows handed to the model are the tables after the commit; removal is exact.
  \<^item> \<open>Scheduler_Policy\<close> (\<open>engine/decode_first_scheduler_policy.cpp\<close>, \<open>engine/sequence_positions.h\<close>, \<open>engine/admission.h\<close>,
    \<open>engine/request_status.h\<close>): who runs in a step and with how many tokens. Shown: decoding comes first, nobody starves
    within a step, the budget is kept and used up.
  \<^item> \<open>Stop_String\<close>, \<open>Utf8\<close>, \<open>Stop_Controller\<close> (\<open>stop_string_matcher.cpp\<close>, \<open>stop_string_controller.cpp\<close>): the streaming matcher
    with its failure tables, the UTF-8 check, and the controller that feeds decoded tokens. Shown: the first and longest match
    is found whatever the chunks are, no more output is withheld than could still become a match, valid byte strings are
    exactly the encodings, and a controller that is rolled back equals one that never saw the tokens
    (\<open>replayable_log\<close>, interpreted on the controller).
  \<^item> \<open>Json_Parser\<close> (\<open>json.cpp\<close>): the event-driven reader, with the client's callbacks as a parameter. Shown: every rendering of a
    value is read back as its events, strings are decoded exactly, reading ends on every input, and what a callback throws
    is reported with its translated message and the line and index where the reader stands.
  \<^item> \<open>NGram_Lookup\<close> (\<open>decoding/n_gram_lookup.h\<close>), \<open>Graph_Ids\<close> (\<open>engine/graph_annotation_ids.h\<close>), \<open>Window_Ring\<close>
    (\<open>engine/window_ring.h\<close>): the incremental index of n-grams finds what a search of the history finds; no two shapes of
    any two owners share an id; the blocks a window can see never share a column of the ring.
  \<^item> \<open>Turn_Policy\<close> (\<open>engine/turn_policy.cpp\<close>): which options of a turn are admitted, and that a rejection names its causes.
  \<^item> \<open>Greedy_Search\<close> (\<open>search.cpp\<close>, \<open>sequences.cpp\<close>), \<open>Logits_Penalty\<close> (\<open>sampling_distribution.h\<close>, \<open>search.cpp\<close>): the search of
    a single sequence is a bounded list with rewind (\<open>token_sequence\<close>, interpreted on the search), its transactions restore
    it; the penalties of a row are what they are specified to be, in the processor and in the search alike.
  \<^item> \<open>Speculative_Sampling\<close> (\<open>decoding/speculative_sampling.h\<close>): acceptance and correction of sampled drafts. Shown: whatever the
    draft distribution is, every token comes out with its probability under the target.
  \<^item> \<open>Request_State\<close>, \<open>Request_Step\<close>, \<open>Scheduled_Step\<close> (\<open>engine/request.h\<close>, \<open>engine/request.cpp\<close>, \<open>engine/step_plan.h\<close>,
    \<open>engine/scheduled_requests.cpp\<close>): the definitions of a request, of its generation step, and of what a batch does with one of
    its requests.
  \<^item> \<open>Request_Rollback\<close>: rolling back a step, or the admission of a turn, restores the request, whatever completed operations came since.
  \<^item> \<open>Request_Drafts\<close>, \<open>Speculative_Step\<close>: a step that verifies the drafts of a greedy request leaves the outcome of ordinary
    decoding steps with the target model's own tokens.
  \<^item> \<open>Request_Rest\<close>: a request between operations, and how a committed step advances it. \<open>Sampled_Step\<close>: a step that verifies
    the drafts of a sampling request draws from its own host stream the tokens that target and draft distributions
    determine, and leaves the outcome of committing them one by one. It makes no claim on steps that sample on the device.
  \<^item> \<open>Request_Life\<close>: the life of a request as an inductive relation over admission, scheduling, prefix adoption, proposals of
    drafts, prompt chunks, host-selected tokens, greedy and sampled verification of drafts, rolled back steps,
    cancellation, failure, rewinding and closing. Shown: the mirror on the host equals the search, limits are kept, ended
    turns own nothing, identifiers of turns are never reused; validated turns are admitted; every turn ends; rewinding
    to a turn gives the tokens of the moment it was begun.

  \<^bold>\<open>How the model follows the code.\<close> A class is a record with the names of its members, an enumeration a datatype, a
  method a function that takes the object and returns it changed, an exception the left value of a sum. \<open>size_t\<close> values that
  count resources are natural numbers; values whose wrap-around matters (epochs, generations, turn identifiers, hashes, seeds,
  the process-wide id) are words, and conversions that the code casts are written out. A vector keeps its capacity where the code
  tests it, except for the storage that tables of the paged cache preallocate. What is not in the repository is a parameter: tokenizer, grammar guidance, the distribution of a row of logits,
  the random source, the callbacks of a JSON client, the contents of fresh memory. Hypotheses on a parameter are
  explicit in the statements and have an instance in the examples.

  \<^bold>\<open>Loops and bounds.\<close> Loops are structural recursion where possible. The probes of the request index, the closing of a
  cluster, the fall of the failure function and the loops of the JSON reader have an explicit number of rounds (the size of
  the table, the prefix matched, the length of the document); that it is enough is proved, by theorems that
  state the result and not only what follows from one. Requests assume a batch of one sequence and a session of fewer
  than \<open>2 ^ 31\<close> tokens, which is the range of the positions in the model's inputs. Steps of the paged cache assume that the
  slots of a request, rounded up to a block, are a \<open>size_t\<close>, and that one reservation is open at a time, as in the Engine.
  Distributions are over exact numbers.

  \<^bold>\<open>Not modelled\<close>: the Engine's batch, event queue and health; the queue of the scheduler and its planning of steps; the cache
  managers; device memory, copies and the planning of step resources in the paged cache; the publication of a
  suffix with its checkpoint for hybrid models, and with it the runs of a prefix cache that requires checkpoints; the fixed-state pool; the batched device sampler; beam search; the
  decoding strategies of the single-sequence generator; floating-point rounding. Outside the scope: calls of ONNX
  Runtime, the per-architecture model code, tokenizers and processors, configuration handlers, the C interface and the
  bindings, logging and tracing.

  \<^bold>\<open>Next\<close>: the scheduler's queue and the cache managers, and the composition of the life of a request with the reservations;
  the invariant of the paged cache with sliding-window layers, whose blocks the definitions have and \<open>Paged_Life\<close> excludes.
\<close>

end
